(* ===== verification/Prelude.thy ===== *)
theory Prelude
  imports Main "HOL-Library.Word"
begin

text \<open>
  What every other theory of the development shares: the machine types of the Rust code, its
  \<open>Result\<close> type with the \<open>?\<close> operator, the arithmetic of \<open>u64\<close> that can overflow,
  \<open>slice::partition_point\<close>, and the two interface locales that several components are proved
  against: \<open>framed_codec\<close> (a cursor-passing decoder that undoes an encoder in front of any
  remaining bytes) and \<open>interval_index\<close> (lookup by binary search over disjoint ranges).

  Conventions. A byte buffer is a list of 8-bit words. \<open>usize\<close> is 64 bits wide (the servers this
  code targets); a \<open>usize\<close> that comes from \<open>len()\<close> or that was checked against one is a \<open>nat\<close>.
  The message of an error keeps the constant text of the source; the numbers that the source
  formats into it are left out.
\<close>

unbundle bit_operations_syntax

section \<open>Machine types and results\<close>

type_synonym u8 = "8 word"
type_synonym u16 = "16 word"
type_synonym u32 = "32 word"
type_synonym u64 = "64 word"
type_synonym bytes = "u8 list"
type_synonym lsn = u64
type_synonym segment_id = u64

text \<open>\<open>HeraclitusError\<close>: the variants the modelled code builds or passes on.\<close>

datatype heraclitus_error =
    Corruption string string
  | CasConflict u64 u64
  | StorageIo string
  | StorageEngine string
  | Crypto string
  | Config string
  | Serialization string

type_synonym 'a v6_result = "heraclitus_error + 'a"

definition corrupt :: "string \<Rightarrow> string \<Rightarrow> heraclitus_error" where
  "corrupt context detail = Corruption context detail"

text \<open>Rust's \<open>?\<close> operator.\<close>

definition bindE :: "('e + 'a) \<Rightarrow> ('a \<Rightarrow> 'e + 'b) \<Rightarrow> 'e + 'b" where
  "bindE m f = (case m of Inl e \<Rightarrow> Inl e | Inr x \<Rightarrow> f x)"

lemma bindE_simps [simp]:
  "bindE (Inl e) f = Inl e"
  "bindE (Inr x) f = f x"
  by (simp_all add: bindE_def)

lemma bindE_eq_Inr: "bindE m f = Inr y \<longleftrightarrow> (\<exists>x. m = Inr x \<and> f x = Inr y)"
  by (cases m) auto

lemma bindE_InrE [elim]:
  assumes "bindE m f = Inr y"
  obtains x where "m = Inr x" and "f x = Inr y"
  using assms by (auto simp: bindE_eq_Inr)

lemma bindE_cong [fundef_cong]:
  "m = m' \<Longrightarrow> (\<And>x. m' = Inr x \<Longrightarrow> f x = f' x) \<Longrightarrow> bindE m f = bindE m' f'"
  by (cases m') auto

text \<open>The early return \<open>if bad { return Err(..) }\<close>.\<close>

definition failE_if :: "bool \<Rightarrow> heraclitus_error \<Rightarrow> unit v6_result" where
  "failE_if bad e = (if bad then Inl e else Inr ())"

lemma failE_if_simps [simp]:
  "failE_if True e = Inl e"
  "failE_if False e = Inr ()"
  "failE_if bad e = Inr u \<longleftrightarrow> \<not> bad"
  by (simp_all add: failE_if_def)

text \<open>\<open>for x in xs { acc = f(acc, x)?; }\<close>: a fold that stops at the first error.\<close>

fun foldE :: "('s \<Rightarrow> 'a \<Rightarrow> 'e + 's) \<Rightarrow> 's \<Rightarrow> 'a list \<Rightarrow> 'e + 's" where
  "foldE f s [] = Inr s"
| "foldE f s (x # xs) = bindE (f s x) (\<lambda>s'. foldE f s' xs)"

lemma foldE_append:
  "foldE f s (xs @ ys) = bindE (foldE f s xs) (\<lambda>s'. foldE f s' ys)"
proof (induction xs arbitrary: s)
  case (Cons x xs)
  then show ?case by (cases "f s x") auto
qed simp

text \<open>\<open>iter.map(f).collect::<Result<Vec<_>, _>>()\<close>.\<close>

fun mapE :: "('a \<Rightarrow> 'e + 'b) \<Rightarrow> 'a list \<Rightarrow> 'e + 'b list" where
  "mapE f [] = Inr []"
| "mapE f (x # xs) = bindE (f x) (\<lambda>y. bindE (mapE f xs) (\<lambda>ys. Inr (y # ys)))"

lemma mapE_Inr_map: "(\<And>x. x \<in> set xs \<Longrightarrow> f x = Inr (g x)) \<Longrightarrow> mapE f xs = Inr (map g xs)"
  by (induction xs) auto

lemma mapE_cong [fundef_cong]:
  "xs = ys \<Longrightarrow> (\<And>x. x \<in> set ys \<Longrightarrow> f x = g x) \<Longrightarrow> mapE f xs = mapE g ys"
  by (induction xs arbitrary: ys) auto

lemma mapE_length: "mapE f xs = Inr ys \<Longrightarrow> length ys = length xs"
  by (induction xs arbitrary: ys) (auto simp: bindE_eq_Inr)

lemma mapE_nth: "mapE f xs = Inr ys \<Longrightarrow> i < length xs \<Longrightarrow> f (xs ! i) = Inr (ys ! i)"
  by (induction xs arbitrary: ys i) (auto simp: bindE_eq_Inr nth_Cons split: nat.split)

text \<open>Collections of rewrite rules that several theories extend.\<close>

named_theorems layout_simps \<open>lengths and slices of fixed binary layouts\<close>
named_theorems word_bounds \<open>upper bounds of words read as naturals\<close>

section \<open>Bounds of machine integers\<close>

lemma unat_lt_u8 [word_bounds]: "unat (x :: u8) < 256"
  by (rule order_less_le_trans [OF unsigned_less]) simp

lemma unat_lt_u16 [word_bounds]: "unat (x :: u16) < 65536"
  by (rule order_less_le_trans [OF unsigned_less]) simp

lemma unat_lt_u32 [word_bounds]: "unat (x :: u32) < 4294967296"
  by (rule order_less_le_trans [OF unsigned_less]) simp

lemma unat_lt_u64 [word_bounds]: "unat (x :: u64) < 18446744073709551616"
  by (rule order_less_le_trans [OF unsigned_less]) simp

text \<open>\<open>usize::MAX + 1\<close> on the 64-bit target; \<open>checked_add\<close> fails from here on.\<close>

definition usize_limit :: nat where
  "usize_limit = 18446744073709551616"

text \<open>Rust's \<open>saturating_add\<close> and \<open>checked_add\<close> / \<open>checked_sub\<close> on \<open>u64\<close>.\<close>

definition saturating_add :: "u64 \<Rightarrow> u64 \<Rightarrow> u64" where
  "saturating_add a b = (if unat a + unat b < 18446744073709551616 then a + b else 18446744073709551615)"

definition saturating_sub :: "u64 \<Rightarrow> u64 \<Rightarrow> u64" where
  "saturating_sub a b = (if b \<le> a then a - b else 0)"

definition checked_add :: "u64 \<Rightarrow> u64 \<Rightarrow> u64 option" where
  "checked_add a b = (if unat a + unat b < 18446744073709551616 then Some (a + b) else None)"

definition checked_sub :: "u64 \<Rightarrow> u64 \<Rightarrow> u64 option" where
  "checked_sub a b = (if b \<le> a then Some (a - b) else None)"

lemma unat_add_u64:
  "unat (a :: u64) + unat b < 18446744073709551616 \<Longrightarrow> unat (a + b) = unat a + unat b"
  by (rule iffD1 [OF unat_add_lem]) simp

lemma unat_sub_u64: "b \<le> a \<Longrightarrow> unat ((a :: u64) - b) = unat a - unat b"
  by (simp add: unat_sub)

lemma checked_add_Some:
  "checked_add a b = Some c \<longleftrightarrow> unat a + unat b = unat c"
  using unat_add_u64 [of a b] unat_lt_u64 [of c]
  by (auto simp: checked_add_def word_unat_eq_iff split: if_splits)

lemma checked_sub_Some: "checked_sub a b = Some c \<longleftrightarrow> unat a = unat b + unat c"
proof -
  have "b \<le> a \<Longrightarrow> a - b = c \<longleftrightarrow> unat a = unat b + unat c"
    by (auto simp: word_unat_eq_iff unat_sub_u64 word_le_nat_alt)
  then show ?thesis by (auto simp: checked_sub_def word_le_nat_alt split: if_splits)
qed

lemma unat_saturating_add:
  "unat (saturating_add a b) = min (unat a + unat b) 18446744073709551615"
  using unat_add_u64 [of a b] by (auto simp: saturating_add_def)

lemma checked_sub_add: "a \<le> b \<Longrightarrow> \<exists>d. checked_sub b a = Some d \<and> checked_add a d = Some b"
  by (auto simp: checked_add_Some checked_sub_def word_le_nat_alt unat_sub_u64)

section \<open>Binary search\<close>

text \<open>
  \<open>slice::partition_point(pred)\<close>: the index of the first element that does not satisfy \<open>pred\<close>, for
  a slice whose elements satisfying \<open>pred\<close> all come first. On any other slice Rust leaves the
  result unspecified; every theorem that depends on the result assumes the order it needs.
\<close>

definition partition_point :: "('a \<Rightarrow> bool) \<Rightarrow> 'a list \<Rightarrow> nat" where
  "partition_point p xs = length (takeWhile p xs)"

lemma partition_point_le: "partition_point p xs \<le> length xs"
  by (simp add: partition_point_def length_takeWhile_le)

lemma partition_point_before: "i < partition_point p xs \<Longrightarrow> p (xs ! i)"
  unfolding partition_point_def
  by (metis nth_mem set_takeWhileD takeWhile_nth)

lemma partition_point_at: "partition_point p xs < length xs \<Longrightarrow> \<not> p (xs ! partition_point p xs)"
  unfolding partition_point_def by (rule nth_length_takeWhile)

lemma partition_point_eqI:
  assumes "i < length xs" and "\<And>j. j < i \<Longrightarrow> p (xs ! j)" and "\<not> p (xs ! i)"
  shows "partition_point p xs = i"
  using assms partition_point_before [of i p xs] partition_point_at [of p xs]
  by (metis linorder_neqE_nat order_less_trans)

section \<open>Searching and updating a vector in place\<close>

text \<open>\<open>iter().position(p)\<close>.\<close>

fun position :: "('a \<Rightarrow> bool) \<Rightarrow> 'a list \<Rightarrow> nat option" where
  "position p [] = None"
| "position p (x # xs) = (if p x then Some 0 else map_option Suc (position p xs))"

lemma position_Some: "position p xs = Some i \<Longrightarrow> i < length xs \<and> p (xs ! i) \<and> (\<forall>j < i. \<not> p (xs ! j))"
proof (induction xs arbitrary: i)
  case (Cons x xs)
  show ?case
  proof (cases "p x")
    case False
    with Cons.prems obtain k where "position p xs = Some k" "i = Suc k" by auto
    with Cons.IH [of k] False show ?thesis by (auto simp: nth_Cons split: nat.splits)
  qed (use Cons.prems in auto)
qed simp

lemma position_None: "position p xs = None \<longleftrightarrow> (\<forall>x \<in> set xs. \<not> p x)"
  by (induction xs) auto

text \<open>Writing through the reference that \<open>iter_mut().find(p)\<close> returns.\<close>

fun modify_first :: "('a \<Rightarrow> bool) \<Rightarrow> ('a \<Rightarrow> 'a) \<Rightarrow> 'a list \<Rightarrow> 'a list" where
  "modify_first p f [] = []"
| "modify_first p f (x # xs) = (if p x then f x # xs else x # modify_first p f xs)"

lemma length_modify_first [simp]: "length (modify_first p f xs) = length xs"
  by (induction xs) auto

lemma map_modify_first: "(\<And>x. p x \<Longrightarrow> h (f x) = h x) \<Longrightarrow> map h (modify_first p f xs) = map h xs"
  by (induction xs) auto

lemma find_modify_first:
  "(\<And>x. p x \<Longrightarrow> p (f x)) \<Longrightarrow> find p (modify_first p f xs) = map_option f (find p xs)"
  by (induction xs) auto

lemma find_modify_first_other:
  "(\<And>x. p x \<Longrightarrow> \<not> q x \<and> \<not> q (f x)) \<Longrightarrow> find q (modify_first p f xs) = find q xs"
  by (induction xs) auto

lemma set_modify_first: "set (modify_first p f xs) \<subseteq> set xs \<union> f ` {x \<in> set xs. p x}"
  by (induction xs) auto

lemma modify_first_id: "\<forall>x \<in> set xs. \<not> p x \<Longrightarrow> modify_first p f xs = xs"
  by (induction xs) auto

lemma find_Some_mem: "find p xs = Some x \<Longrightarrow> x \<in> set xs \<and> p x"
  by (induction xs) (auto split: if_splits)

lemma find_distinct:
  assumes "distinct (map k xs)" and "x \<in> set xs"
  shows "find (\<lambda>y. k y = k x) xs = Some x"
  using assms by (induction xs) (auto simp: image_iff)

section \<open>Interfaces\<close>

text \<open>
  A decoder in the style of \<open>v6/manifest.rs\<close>: it reads from \<open>buf\<close> at the cursor and returns the value
  with the advanced cursor. The law says that it reads back what the encoder wrote, whatever stands
  before and after; the client lemma lifts it to a counted sequence, which is how every
  variable-length part of the formats is framed.
\<close>

fun decode_n :: "(bytes \<Rightarrow> nat \<Rightarrow> ('a \<times> nat) v6_result) \<Rightarrow> nat \<Rightarrow> bytes \<Rightarrow> nat \<Rightarrow> ('a list \<times> nat) v6_result"
where
  "decode_n dec 0 buf pos = Inr ([], pos)"
| "decode_n dec (Suc n) buf pos =
     bindE (dec buf pos) (\<lambda>(x, pos). bindE (decode_n dec n buf pos) (\<lambda>(xs, pos). Inr (x # xs, pos)))"

locale framed_codec =
  fixes enc :: "'a \<Rightarrow> bytes"
    and dec :: "bytes \<Rightarrow> nat \<Rightarrow> ('a \<times> nat) v6_result"
    and ok :: "'a \<Rightarrow> bool"
  assumes dec_enc: "ok x \<Longrightarrow> length (pre @ enc x @ post) < usize_limit
      \<Longrightarrow> dec (pre @ enc x @ post) (length pre) = Inr (x, length pre + length (enc x))"
begin

lemma decode_n_enc:
  assumes "list_all ok xs" and "length (pre @ concat (map enc xs) @ post) < usize_limit"
  shows "decode_n dec (length xs) (pre @ concat (map enc xs) @ post) (length pre)
    = Inr (xs, length pre + length (concat (map enc xs)))"
  using assms
proof (induction xs arbitrary: pre)
  case (Cons x xs)
  from Cons.prems have "dec (pre @ enc x @ (concat (map enc xs) @ post)) (length pre)
      = Inr (x, length pre + length (enc x))"
    by (intro dec_enc) auto
  moreover have "decode_n dec (length xs) ((pre @ enc x) @ concat (map enc xs) @ post) (length (pre @ enc x))
      = Inr (xs, length (pre @ enc x) + length (concat (map enc xs)))"
    using Cons.prems by (intro Cons.IH) auto
  ultimately show ?case by (simp add: add.assoc)
qed simp

lemma enc_inj:
  assumes "ok x" "ok y" "enc x @ r = enc y @ s" "length (enc x @ r) < usize_limit"
  shows "x = y \<and> r = s"
  using dec_enc [of x "[]" r] dec_enc [of y "[]" s] assms by auto

end

text \<open>
  Lookup of a key among ranges \<open>[first e, last e]\<close> by \<open>partition_point\<close> on the upper ends, as the
  block directory and the manifest both do it. Under the order the writers maintain, the lookup
  finds exactly the range that contains the key.
\<close>

definition disjoint_ranges :: "('a \<Rightarrow> u64) \<Rightarrow> ('a \<Rightarrow> u64) \<Rightarrow> ('a \<Rightarrow> bool) \<Rightarrow> 'a list \<Rightarrow> bool" where
  "disjoint_ranges lo hi live xs \<longleftrightarrow> (\<forall>i < length xs. live (xs ! i) \<and> lo (xs ! i) \<le> hi (xs ! i))
     \<and> (\<forall>i j. i < j \<longrightarrow> j < length xs \<longrightarrow> hi (xs ! i) < lo (xs ! j))"

locale interval_index =
  fixes first :: "'a \<Rightarrow> u64" and last :: "'a \<Rightarrow> u64" and nonempty :: "'a \<Rightarrow> bool"
    and result :: "'a list \<Rightarrow> nat \<Rightarrow> 'r" and find :: "'a list \<Rightarrow> u64 \<Rightarrow> 'r option"
  assumes find_eq: "find xs k = (let i = partition_point (\<lambda>e. last e < k) xs in
      if i < length xs \<and> nonempty (xs ! i) \<and> first (xs ! i) \<le> k \<and> k \<le> last (xs ! i)
      then Some (result xs i) else None)"
begin

lemma find_sound:
  "find xs k = Some r \<Longrightarrow> \<exists>i < length xs. r = result xs i \<and> first (xs ! i) \<le> k \<and> k \<le> last (xs ! i)"
  by (auto simp: find_eq Let_def split: if_splits)

lemma find_complete:
  assumes "disjoint_ranges first last nonempty xs" "i < length xs" "first (xs ! i) \<le> k" "k \<le> last (xs ! i)"
  shows "find xs k = Some (result xs i)"
proof -
  have "partition_point (\<lambda>e. last e < k) xs = i"
  proof (rule partition_point_eqI)
    fix j assume "j < i"
    then have "last (xs ! j) < first (xs ! i)"
      using assms(1,2) by (auto simp: disjoint_ranges_def)
    then show "last (xs ! j) < k" using assms(3) by (rule order_less_le_trans)
  qed (use assms in auto)
  then show ?thesis using assms by (simp add: find_eq disjoint_ranges_def)
qed

lemma find_None_iff:
  assumes "disjoint_ranges first last nonempty xs"
  shows "find xs k = None \<longleftrightarrow> (\<forall>i < length xs. \<not> (first (xs ! i) \<le> k \<and> k \<le> last (xs ! i)))"
  using find_sound find_complete [OF assms] by (metis not_None_eq option.distinct(1))

lemma find_Some_iff:
  assumes "disjoint_ranges first last nonempty xs"
  shows "find xs k = Some r \<longleftrightarrow>
    (\<exists>i < length xs. r = result xs i \<and> first (xs ! i) \<le> k \<and> k \<le> last (xs ! i))"
  using find_sound find_complete [OF assms] by (metis option.inject)

end

end
