(* ===== verification/Byte_Codec.thy ===== *)
theory Byte_Codec
  imports Prelude
begin

text \<open>
  Bytes and integers: \<open>to_le_bytes\<close> / \<open>from_le_bytes\<close> and their big-endian twins, the constant-offset
  field access \<open>buf[a..b]\<close> of the fixed layouts, and the bounds-checked primitives of
  \<open>heraclitus-log/src/v6/error.rs\<close> (\<open>checked_len\<close>, \<open>slice_at\<close> and the hard limits).
\<close>

section \<open>Integers as bytes\<close>

fun le_bytes :: "nat \<Rightarrow> nat \<Rightarrow> bytes" where
  "le_bytes 0 v = []"
| "le_bytes (Suc n) v = word_of_nat (v mod 256) # le_bytes n (v div 256)"

fun le_nat :: "bytes \<Rightarrow> nat" where
  "le_nat [] = 0"
| "le_nat (b # bs) = unat b + 256 * le_nat bs"

lemma length_le_bytes [simp, layout_simps]: "length (le_bytes n v) = n"
  by (induction n arbitrary: v) auto

lemma unat_byte_of_nat: "unat (word_of_nat (v mod 256) :: u8) = v mod 256"
  by (simp add: unsigned_of_nat take_bit_eq_mod)

lemma le_nat_le_bytes: "le_nat (le_bytes n v) = v mod 256 ^ n"
proof (induction n arbitrary: v)
  case (Suc n)
  have "v mod (256 * 256 ^ n) = 256 * (v div 256 mod 256 ^ n) + v mod 256"
    by (rule mod_mult2_eq)
  then show ?case by (simp add: Suc.IH unat_byte_of_nat del: of_nat_mod)
qed simp

lemma le_nat_less: "le_nat bs < 256 ^ length bs"
proof (induction bs)
  case (Cons b bs)
  have "unat b + 256 * le_nat bs < 256 * (1 + le_nat bs)"
    using unat_lt_u8 [of b] by simp
  also have "\<dots> \<le> 256 * 256 ^ length bs"
    using Cons.IH by (intro mult_le_mono) auto
  finally show ?case by simp
qed simp

lemma le_bytes_le_nat: "le_bytes (length bs) (le_nat bs) = bs"
proof (induction bs)
  case (Cons b bs)
  have "(unat b + 256 * le_nat bs) mod 256 = unat b"
    and "(unat b + 256 * le_nat bs) div 256 = le_nat bs"
    using unat_lt_u8 [of b] by auto
  then show ?case using Cons.IH by simp
qed simp

definition to_le_bytes :: "'a::len word \<Rightarrow> bytes" where
  "to_le_bytes x = le_bytes (LENGTH('a) div 8) (unat x)"

definition from_le_bytes :: "bytes \<Rightarrow> 'a::len word" where
  "from_le_bytes bs = word_of_nat (le_nat bs)"

definition to_be_bytes :: "'a::len word \<Rightarrow> bytes" where
  "to_be_bytes x = rev (to_le_bytes x)"

definition from_be_bytes :: "bytes \<Rightarrow> 'a::len word" where
  "from_be_bytes bs = from_le_bytes (rev bs)"

lemma length_to_le_bytes [simp, layout_simps]: "length (to_le_bytes (x :: 'a::len word)) = LENGTH('a) div 8"
  by (simp add: to_le_bytes_def)

lemma length_to_be_bytes [simp, layout_simps]: "length (to_be_bytes (x :: 'a::len word)) = LENGTH('a) div 8"
  by (simp add: to_be_bytes_def)

lemma from_le_to_le:
  assumes "8 dvd LENGTH('a)"
  shows "from_le_bytes (to_le_bytes (x :: 'a::len word)) = x"
proof -
  have "(256 :: nat) ^ (LENGTH('a) div 8) = 2 ^ LENGTH('a)"
  proof -
    have "(256 :: nat) ^ (LENGTH('a) div 8) = (2 ^ 8) ^ (LENGTH('a) div 8)" by simp
    also have "\<dots> = 2 ^ (8 * (LENGTH('a) div 8))" by (simp only: power_mult)
    finally show ?thesis using assms by simp
  qed
  moreover have "unat x < 2 ^ LENGTH('a)" by (rule unsigned_less)
  ultimately show ?thesis
    by (simp add: from_le_bytes_def to_le_bytes_def le_nat_le_bytes)
qed

lemma le_bytes_inverses [simp]:
  "from_le_bytes (to_le_bytes (a :: u8)) = a"
  "from_le_bytes (to_le_bytes (b :: u16)) = b"
  "from_le_bytes (to_le_bytes (c :: u32)) = c"
  "from_le_bytes (to_le_bytes (d :: u64)) = d"
  by (simp_all add: from_le_to_le)

lemma be_bytes_inverses [simp]:
  "from_be_bytes (to_be_bytes (b :: u16)) = b"
  "from_be_bytes (to_be_bytes (c :: u32)) = c"
  "from_be_bytes (to_be_bytes (d :: u64)) = d"
  by (simp_all add: from_be_bytes_def to_be_bytes_def)

lemma to_le_bytes_inj: "8 dvd LENGTH('a) \<Longrightarrow> to_le_bytes (x :: 'a::len word) = to_le_bytes y \<longleftrightarrow> x = y"
  by (metis from_le_to_le)

lemma to_from_le_u32: "length bs = 4 \<Longrightarrow> to_le_bytes (from_le_bytes bs :: u32) = bs"
proof -
  assume "length bs = 4"
  then have "le_nat bs < 4294967296" and "le_bytes 4 (le_nat bs) = bs"
    using le_nat_less [of bs] le_bytes_le_nat [of bs] by auto
  then show ?thesis
    by (simp add: from_le_bytes_def to_le_bytes_def unsigned_of_nat take_bit_nat_eq_self)
qed

lemma unat_from_le_u32: "length bs = 4 \<Longrightarrow> unat (from_le_bytes bs :: u32) = le_nat bs"
  using le_nat_less [of bs] by (simp add: from_le_bytes_def unsigned_of_nat take_bit_nat_eq_self)

section \<open>Fields of a fixed layout\<close>

text \<open>\<open>buf[at..at + n]\<close> where the code has already checked the length.\<close>

definition field :: "nat \<Rightarrow> nat \<Rightarrow> bytes \<Rightarrow> bytes" where
  "field at n buf = take n (drop at buf)"

lemma length_field [layout_simps]: "at + n \<le> length buf \<Longrightarrow> length (field at n buf) = n"
  by (simp add: field_def)

lemma field_here [layout_simps]: "length xs = n \<Longrightarrow> field 0 n (xs @ ys) = xs"
  by (simp add: field_def)

lemma field_skip [layout_simps]: "length xs \<le> at \<Longrightarrow> field at n (xs @ ys) = field (at - length xs) n ys"
  by (simp add: field_def)

lemma field_all [layout_simps]: "length xs = n \<Longrightarrow> field 0 n xs = xs"
  by (simp add: field_def)

text \<open>\<open>buf[at..at + bs.len()].copy_from_slice(bs)\<close>.\<close>

definition overwrite :: "nat \<Rightarrow> bytes \<Rightarrow> bytes \<Rightarrow> bytes" where
  "overwrite at bs buf = take at buf @ bs @ drop (at + length bs) buf"

lemma length_overwrite [layout_simps]: "at + length bs \<le> length buf \<Longrightarrow> length (overwrite at bs buf) = length buf"
  by (simp add: overwrite_def)

lemma overwrite_skip: "at = length xs + k \<Longrightarrow> overwrite at bs (xs @ ys) = xs @ overwrite k bs ys"
  by (simp add: overwrite_def)

lemma overwrite_here: "length bs = length xs \<Longrightarrow> overwrite 0 bs (xs @ ys) = bs @ ys"
  by (simp add: overwrite_def)

lemma overwrite_overwrite:
  "length bs = length cs \<Longrightarrow> at + length bs \<le> length buf
    \<Longrightarrow> overwrite at bs (overwrite at cs buf) = overwrite at bs buf"
  by (cases cs) (auto simp: overwrite_def min_def)

lemma overwrite_field: "at + n \<le> length buf \<Longrightarrow> overwrite at (field at n buf) buf = buf"
  by (simp add: overwrite_def field_def) (metis append_take_drop_id add.commute drop_drop)

section \<open>Bounds-checked access (\<open>v6/error.rs\<close>)\<close>

definition HARD_MAX_BLOCK_BYTES :: nat where
  "HARD_MAX_BLOCK_BYTES = 64 * 1024 * 1024"

definition HARD_MAX_RECORD_BYTES :: nat where
  "HARD_MAX_RECORD_BYTES = 512 * 1024 * 1024"

definition HARD_MAX_BLOCKS :: nat where
  "HARD_MAX_BLOCKS = 2 ^ 24"

definition checked_len :: "nat \<Rightarrow> nat \<Rightarrow> nat \<Rightarrow> string \<Rightarrow> nat v6_result" where
  "checked_len len remaining hard_max ctx =
     (if hard_max < len then Inl (corrupt ctx ''declared length exceeds hard maximum'')
      else if remaining < len then Inl (corrupt ctx ''declared length exceeds remaining bytes'')
      else Inr len)"

definition slice_at :: "bytes \<Rightarrow> nat \<Rightarrow> nat \<Rightarrow> string \<Rightarrow> bytes v6_result" where
  "slice_at buf at len ctx =
     (if usize_limit \<le> at + len then Inl (corrupt ctx ''offset+len overflows usize'')
      else if at + len \<le> length buf then Inr (take len (drop at buf))
      else Inl (corrupt ctx ''slice out of bounds''))"

lemma slice_at_mid:
  "length (pre @ xs @ post) < usize_limit \<Longrightarrow> len = length xs
    \<Longrightarrow> slice_at (pre @ xs @ post) (length pre) len ctx = Inr xs"
  by (simp add: slice_at_def)

lemma slice_at_Inr:
  "slice_at buf at len ctx = Inr s \<Longrightarrow> length s = len \<and> at + len \<le> length buf \<and> s = take len (drop at buf)"
  by (auto simp: slice_at_def split: if_splits)

lemma checked_len_Inr: "checked_len len remaining hard_max ctx = Inr n \<longleftrightarrow> n = len \<and> len \<le> hard_max \<and> len \<le> remaining"
  by (auto simp: checked_len_def)

end
