(* ===== verification/Varint.thy ===== *)
theory Varint
  imports Byte_Codec
begin

text \<open>
  \<open>heraclitus-log/src/v6/varint.rs\<close>: canonical ULEB128. The writers (\<open>put_varint\<close>,
  \<open>encode_varint_into\<close>, \<open>varint_len\<close>), the rejecting reader \<open>read_varint\<close>, and the two directions of
  "one quantity, one byte stream": the reader returns what the writer wrote, and accepts nothing
  that the writer would not have written.
\<close>

section \<open>The code\<close>

definition MAX_VARINT_LEN :: nat where
  "MAX_VARINT_LEN = 10"

lemma varint_shift_decreases: "0x80 \<le> (v :: u64) \<Longrightarrow> unat (drop_bit 7 v) < unat v"
  by (simp add: unat_drop_bit_eq drop_bit_eq_div unat_div word_le_nat_alt)

function put_varint :: "bytes \<Rightarrow> u64 \<Rightarrow> bytes" where
  "put_varint out v =
     (if 0x80 \<le> v then put_varint (out @ [ucast v OR 0x80]) (drop_bit 7 v) else out @ [ucast v])"
  by pat_completeness auto
termination
  by (relation "measure (\<lambda>(out, v). unat v)") (auto intro: varint_shift_decreases)

function varint_len_from :: "nat \<Rightarrow> u64 \<Rightarrow> nat" where
  "varint_len_from n v = (if 0x80 \<le> v then varint_len_from (n + 1) (drop_bit 7 v) else n)"
  by pat_completeness auto
termination
  by (relation "measure (\<lambda>(n, v). unat v)") (auto intro: varint_shift_decreases)

definition varint_len :: "u64 \<Rightarrow> nat" where
  "varint_len v = varint_len_from 1 v"

function encode_varint_at :: "bytes \<Rightarrow> nat \<Rightarrow> u64 \<Rightarrow> bytes \<times> nat" where
  "encode_varint_at buf n v =
     (if 0x80 \<le> v then encode_varint_at (buf[n := ucast v OR 0x80]) (n + 1) (drop_bit 7 v)
      else (buf[n := ucast v], n + 1))"
  by pat_completeness auto
termination
  by (relation "measure (\<lambda>(buf, n, v). unat v)") (auto intro: varint_shift_decreases)

definition encode_varint_into :: "bytes \<Rightarrow> u64 \<Rightarrow> bytes \<times> nat" where
  "encode_varint_into buf v = encode_varint_at buf 0 v"

declare put_varint.simps [simp del] varint_len_from.simps [simp del] encode_varint_at.simps [simp del]

text \<open>
  The loop of \<open>read_varint\<close> over \<open>buf.iter().take(MAX_VARINT_LEN).enumerate()\<close>: \<open>Some (value, consumed)\<close>
  is the return inside the loop, \<open>None\<close> falling out of it.
\<close>

fun read_varint_loop :: "string \<Rightarrow> bytes \<Rightarrow> nat \<Rightarrow> nat \<Rightarrow> u64 \<Rightarrow> (u64 \<times> nat) option v6_result" where
  "read_varint_loop ctx [] i shift result = Inr None"
| "read_varint_loop ctx (byte # bs) i shift result =
     (let payload = (ucast (byte AND 0x7f) :: u64) in
      if shift = 63 \<and> 1 < payload then Inl (corrupt ctx ''varint overflows u64'')
      else (let result = result OR push_bit shift payload in
        if byte AND 0x80 = 0
        then (if 0 < i \<and> byte = 0
              then Inl (corrupt ctx ''non-canonical varint (redundant trailing group)'')
              else Inr (Some (result, i + 1)))
        else read_varint_loop ctx bs (i + 1) (shift + 7) result))"

definition read_varint :: "bytes \<Rightarrow> string \<Rightarrow> (u64 \<times> nat) v6_result" where
  "read_varint buf ctx =
     bindE (read_varint_loop ctx (take MAX_VARINT_LEN buf) 0 0 0) (\<lambda>r. case r of
       Some res \<Rightarrow> Inr res
     | None \<Rightarrow> (if MAX_VARINT_LEN \<le> length buf
                then Inl (corrupt ctx ''varint longer than 10 bytes'')
                else Inl (corrupt ctx ''truncated varint (continuation bit at EOF)'')))"

text \<open>On a 64-bit target \<open>usize::try_from\<close> of a \<open>u64\<close> always succeeds.\<close>

definition read_varint_usize :: "bytes \<Rightarrow> string \<Rightarrow> (nat \<times> nat) v6_result" where
  "read_varint_usize buf ctx = bindE (read_varint buf ctx) (\<lambda>(v, n). Inr (unat v, n))"

section \<open>ULEB128 on naturals\<close>

fun uleb :: "nat \<Rightarrow> bytes" where
  "uleb v = (if v < 128 then [word_of_nat v] else word_of_nat (v mod 128 + 128) # uleb (v div 128))"

declare uleb.simps [simp del]

lemma uleb_small: "v < 128 \<Longrightarrow> uleb v = [word_of_nat v]"
  by (simp add: uleb.simps)

lemma uleb_step: "128 \<le> v \<Longrightarrow> uleb v = word_of_nat (v mod 128 + 128) # uleb (v div 128)"
  by (subst uleb.simps) simp

lemma uleb_nonempty [simp]: "uleb v \<noteq> []"
  by (subst uleb.simps) simp

lemma length_uleb_pos [simp]: "0 < length (uleb v)"
  using uleb_nonempty [of v] by (simp del: uleb_nonempty)

lemma unat_byte_small: "n < 256 \<Longrightarrow> unat (word_of_nat n :: u8) = n"
  by (simp add: unsigned_of_nat take_bit_nat_eq_self)

lemma unat_byte_cont: "unat (word_of_nat (v mod 128 + 128) :: u8) = v mod 128 + 128"
  by (rule unat_byte_small) (rule order_less_le_trans [of _ "128 + 128"], auto)

lemma byte_low_bits: "(ucast (v :: u64) :: u8) OR 0x80 = word_of_nat (unat v mod 128 + 128)"
proof -
  have "(ucast v :: u8) OR 0x80 = take_bit 7 (ucast v) OR 0x80"
  proof (rule bit_eqI)
    fix n
    have "bit (0x80 :: u8) n \<longleftrightarrow> n = 7"
      using bit_exp_iff [where 'a = "8 word", of 7 n] by (auto dest: bit_imp_le_length)
    then show "bit ((ucast v :: u8) OR 0x80) n \<longleftrightarrow> bit (take_bit 7 (ucast v) OR 0x80 :: u8) n"
      by (auto simp: bit_simps dest: bit_imp_le_length)
  qed
  also have "\<dots> = take_bit 7 (ucast v) + 0x80"
  proof (rule disjunctive_add_eq_or [symmetric], rule bit_eqI)
    fix n
    have "bit (0x80 :: u8) n \<longleftrightarrow> n = 7"
      using bit_exp_iff [where 'a = "8 word", of 7 n] by (auto dest: bit_imp_le_length)
    then show "bit (take_bit 7 (ucast v) AND 0x80 :: u8) n \<longleftrightarrow> bit (0 :: u8) n"
      by (auto simp: bit_simps)
  qed
  also have "\<dots> = word_of_nat (unat v mod 128 + 128)"
    by (simp add: word_unat_eq_iff unsigned_of_nat unsigned_take_bit_eq unat_word_ariths
        unsigned_ucast_eq take_bit_eq_mod mod_mod_cancel)
  finally show ?thesis .
qed

lemma put_varint_uleb: "put_varint out v = out @ uleb (unat v)"
proof (induction out v rule: put_varint.induct)
  case (1 out v)
  show ?case
  proof (cases "0x80 \<le> v")
    case True
    then have "128 \<le> unat v" by (simp add: word_le_nat_alt)
    then show ?thesis
      using 1 True byte_low_bits [of v]
      by (simp add: put_varint.simps [of out v] uleb_step unat_drop_bit_eq drop_bit_eq_div unat_div)
  next
    case False
    then have "unat v < 128" by (simp add: word_le_nat_alt not_le)
    moreover from this have "(ucast v :: u8) = word_of_nat (unat v)"
      by (simp add: word_unat_eq_iff unsigned_ucast_eq unsigned_of_nat)
    ultimately show ?thesis
      using False by (simp add: put_varint.simps [of out v] uleb_small)
  qed
qed

lemma varint_len_from_uleb: "varint_len_from n v + 1 = n + length (uleb (unat v))"
proof (induction n v rule: varint_len_from.induct)
  case (1 n v)
  show ?case
  proof (cases "0x80 \<le> v")
    case True
    then have "128 \<le> unat v" by (simp add: word_le_nat_alt)
    then show ?thesis using 1 True
      by (simp add: varint_len_from.simps [of n v] uleb_step unat_drop_bit_eq drop_bit_eq_div unat_div)
  next
    case False
    then have "unat v < 128" by (simp add: word_le_nat_alt not_le)
    then show ?thesis using False by (simp add: varint_len_from.simps [of n v] uleb_small)
  qed
qed

lemma varint_len_eq: "varint_len v = length (put_varint [] v)"
  using varint_len_from_uleb [of 1 v] by (simp add: varint_len_def put_varint_uleb)

lemma length_uleb_bound: "v < 128 ^ n \<Longrightarrow> 0 < n \<Longrightarrow> length (uleb v) \<le> n"
proof (induction n arbitrary: v)
  case (Suc n)
  show ?case
  proof (cases "v < 128")
    case True
    then show ?thesis by (simp add: uleb_small)
  next
    case False
    then have "0 < n" using Suc.prems by (cases n) auto
    moreover have "v div 128 < 128 ^ n" using Suc.prems by (simp add: less_mult_imp_div_less mult.commute)
    ultimately show ?thesis using Suc.IH False by (simp add: uleb_step)
  qed
qed simp

lemma length_uleb_u64: "length (uleb (unat (v :: u64))) \<le> 10"
  using unat_lt_u64 [of v] by (intro length_uleb_bound) auto

section \<open>Reading back\<close>

lemma word_of_nat_unatI: "unat x = n \<Longrightarrow> x = word_of_nat n"
  by auto

lemma or_push_bit:
  assumes "unat res < 2 ^ s" and "unat res + unat p * 2 ^ s < 2 ^ 64"
  shows "unat ((res :: u64) OR push_bit s p) = unat res + unat p * 2 ^ s"
proof -
  have "unat (drop_bit s res) = drop_bit s (unat res)" by (rule unat_drop_bit_eq)
  also have "\<dots> = 0" using assms(1) by (simp add: drop_bit_eq_div)
  finally have "drop_bit s res = 0" by (simp add: word_unat_eq_iff)
  then have res: "take_bit s res = res"
    by (simp add: take_bit_eq_self_iff_drop_bit_eq_0)
  have disj: "res AND push_bit s p = 0"
  proof (rule bit_eqI)
    fix n show "bit (res AND push_bit s p) n \<longleftrightarrow> bit (0 :: u64) n"
      using arg_cong [OF res, of "\<lambda>w. bit w n"] by (auto simp: bit_simps)
  qed
  have "unat (push_bit s p) = take_bit 64 (push_bit s (unat p))"
    using unsigned_push_bit_eq [of s p, where 'a = nat] by simp
  also have "\<dots> = unat p * 2 ^ s"
    using assms(2) by (simp add: take_bit_nat_eq_self push_bit_eq_mult)
  finally have push: "unat (push_bit s p) = unat p * 2 ^ s" .
  have "res OR push_bit s p = res + push_bit s p"
    by (rule disjunctive_add_eq_or [OF disj, symmetric])
  also have "unat \<dots> = unat res + unat p * 2 ^ s"
    using assms(2) by (simp add: unat_add_u64 push)
  finally show ?thesis .
qed

lemma payload_of_byte: "unat (ucast (byte AND 0x7f :: u8) :: u64) = unat byte mod 128"
proof -
  have "(0x7f :: u8) = mask 7" by (simp add: mask_eq_exp_minus_1)
  then have "byte AND 0x7f = take_bit 7 byte" by (simp add: take_bit_eq_mask)
  moreover have "unat (take_bit 7 byte) = take_bit 7 (unat byte)" by (rule unsigned_take_bit_eq)
  ultimately have "unat (byte AND 0x7f) = unat byte mod 128"
    by (simp only: take_bit_eq_mod) simp
  moreover have "unat byte mod 128 < 18446744073709551616"
    by (rule order_less_trans [of _ 128]) auto
  ultimately show ?thesis by (simp add: unsigned_ucast_eq take_bit_nat_eq_self)
qed

lemma bit_0x80: "bit (0x80 :: u8) n \<longleftrightarrow> n = 7"
  using bit_exp_iff [where 'a = "8 word", of 7 n] by (auto dest: bit_imp_le_length)

lemma continuation_bit: "(byte :: u8) AND 0x80 = 0 \<longleftrightarrow> unat byte < 128"
proof -
  have "byte AND 0x80 = 0 \<longleftrightarrow> \<not> bit byte 7"
  proof
    assume "byte AND 0x80 = 0"
    then have "\<not> bit (byte AND 0x80) 7" by simp
    then show "\<not> bit byte 7" by (simp only: bit_and_iff bit_0x80) simp
  next
    assume "\<not> bit byte 7"
    then show "byte AND 0x80 = 0"
      by (intro bit_word_eqI) (auto simp only: bit_and_iff bit_0x80 bit_0_eq bot_apply bot_bool_def)
  qed
  also have "bit byte 7 \<longleftrightarrow> odd (unat byte div 128)"
    using bit_unsigned_iff [of byte 7, where 'a = nat] by (simp add: bit_iff_odd)
  also have "unat byte div 128 < 2"
    using unat_lt_u8 [of byte] by (simp add: less_mult_imp_div_less)
  then have "odd (unat byte div 128) \<longleftrightarrow> \<not> unat byte < 128"
    by (auto simp: less_2_cases_iff div_eq_0_iff)
  finally show ?thesis by simp
qed

text \<open>What the loop has read so far is \<open>result\<close>; the bytes to come contribute a multiple of \<open>2 ^ (7 * i)\<close>.\<close>

lemma read_varint_loop_uleb:
  assumes "unat res < 2 ^ (7 * i)" and "unat res + v * 2 ^ (7 * i) < 2 ^ 64"
    and "0 < i \<longrightarrow> 0 < v" and "length (uleb v) \<le> n" and "i + length (uleb v) \<le> 10"
  shows "read_varint_loop ctx (take n (uleb v @ rest)) i (7 * i) res
    = Inr (Some (word_of_nat (unat res + v * 2 ^ (7 * i)), i + length (uleb v)))"
  using assms
proof (induction v arbitrary: i res n rule: uleb.induct)
  case (1 v)
  obtain m where n: "n = Suc m" using "1.prems"(4) length_uleb_pos [of v] by (cases n) auto
  have i: "i < 10" using "1.prems"(5) length_uleb_pos [of v] by linarith
  show ?case
  proof (cases "v < 128")
    case True
    let ?b = "word_of_nat v :: u8"
    have b: "unat ?b = v" using True by (simp add: unsigned_of_nat take_bit_nat_eq_self)
    have p: "unat (ucast (?b AND 0x7f) :: u64) = v" using True b by (simp add: payload_of_byte)
    have "i = 9 \<Longrightarrow> v \<le> 1" using "1.prems"(2) by simp
    then have "\<not> (7 * i = 63 \<and> 1 < (ucast (?b AND 0x7f) :: u64))"
      by (auto simp: word_less_nat_alt p)
    moreover
    have "unat (res OR push_bit (7 * i) (ucast (?b AND 0x7f))) = unat res + v * 2 ^ (7 * i)"
      using or_push_bit [of res "7 * i" "ucast (?b AND 0x7f)"] "1.prems" p by simp
    then have "res OR push_bit (7 * i) (ucast (?b AND 0x7f)) = word_of_nat (unat res + v * 2 ^ (7 * i))"
      by (rule word_of_nat_unatI)
    moreover have "?b AND 0x80 = 0" using True b by (simp add: continuation_bit)
    moreover have "\<not> (0 < i \<and> ?b = 0)" using "1.prems"(3) b by (metis unat_0 less_not_refl)
    ultimately show ?thesis using True n by (simp add: uleb_small Let_def)
  next
    case False
    then have "128 \<le> v" by simp
    then obtain b where ul: "uleb v = b # uleb (v div 128)" and b: "unat b = v mod 128 + 128"
      using uleb_step unat_byte_cont by blast
    have p: "unat (ucast (b AND 0x7f) :: u64) = v mod 128" using b by (simp add: payload_of_byte)
    have i9: "i < 9"
    proof -
      have "length (uleb v) = Suc (length (uleb (v div 128)))" by (simp add: ul)
      then show ?thesis using "1.prems"(5) length_uleb_pos [of "v div 128"] by linarith
    qed
    have split: "v mod 128 * 2 ^ (7 * i) + v div 128 * 2 ^ (7 * Suc i) = v * 2 ^ (7 * i)"
    proof -
      have "v mod 128 * 2 ^ (7 * i) + v div 128 * 2 ^ (7 * Suc i)
          = (v mod 128 + 128 * (v div 128)) * 2 ^ (7 * i)"
        by (simp only: mult_Suc_right power_add add_mult_distrib) simp
      then show ?thesis by simp
    qed
    let ?res = "res OR push_bit (7 * i) (ucast (b AND 0x7f))"
    have res: "unat ?res = unat res + v mod 128 * 2 ^ (7 * i)"
      using or_push_bit [of res "7 * i" "ucast (b AND 0x7f)"] "1.prems"(1,2) p split by simp
    have "b AND 0x80 \<noteq> 0" using b by (simp add: continuation_bit)
    moreover have "7 * i \<noteq> 63" using i9 by simp
    moreover have tot: "unat ?res + v div 128 * 2 ^ (7 * Suc i) = unat res + v * 2 ^ (7 * i)"
      using res split by linarith
    have sh: "7 * Suc i = 7 * i + 7" by simp
    have "read_varint_loop ctx (take m (uleb (v div 128) @ rest)) (Suc i) (7 * Suc i) ?res
        = Inr (Some (word_of_nat (unat ?res + v div 128 * 2 ^ (7 * Suc i)), Suc i + length (uleb (v div 128))))"
    proof (rule "1.IH" [OF False])
      have "v mod 128 * 2 ^ (7 * i) \<le> 127 * 2 ^ (7 * i)" by (intro mult_le_mono) auto
      then have "unat ?res < 128 * 2 ^ (7 * i)"
        using "1.prems"(1) res by linarith
      then show "unat ?res < 2 ^ (7 * Suc i)" by (simp add: power_add)
    qed (use False "1.prems" n res split in \<open>auto simp: ul div_greater_zero_iff\<close>)
    then have "read_varint_loop ctx (take m (uleb (v div 128) @ rest)) (i + 1) (7 * i + 7) ?res
        = Inr (Some (word_of_nat (unat res + v * 2 ^ (7 * i)), Suc (i + length (uleb (v div 128)))))"
      unfolding tot by (simp only: sh Suc_eq_plus1 [symmetric] add_Suc)
    ultimately show ?thesis
      using n by (simp add: ul Let_def del: of_nat_add of_nat_mult take_append)
  qed
qed

lemma read_varint_put: "read_varint (put_varint [] v @ rest) ctx = Inr (v, length (put_varint [] v))"
  using read_varint_loop_uleb [of 0 0 "unat v" 10 ctx rest] unat_lt_u64 [of v] length_uleb_u64 [of v]
  by (simp add: read_varint_def put_varint_uleb MAX_VARINT_LEN_def)

text \<open>
  The converse: whatever the loop accepts is the canonical encoding. The value read is what was
  accumulated before plus the digits consumed, and those digits are \<open>uleb\<close> of their value.
\<close>

lemma read_varint_loop_canonical:
  assumes "read_varint_loop ctx bs i (7 * i) res = Inr (Some (v, k))"
    and "unat res < 2 ^ (7 * i)" and "i + length bs \<le> 10"
  shows "\<exists>w. take (k - i) bs = uleb w \<and> i < k \<and> k \<le> i + length bs
    \<and> unat v = unat res + w * 2 ^ (7 * i) \<and> (0 < i \<longrightarrow> 0 < w)"
  using assms
proof (induction bs arbitrary: i res)
  case (Cons b bs)
  let ?p = "ucast (b AND 0x7f) :: u64"
  let ?res = "res OR push_bit (7 * i) ?p"
  have p: "unat ?p = unat b mod 128" by (rule payload_of_byte)
  have i: "i < 10" using Cons.prems(3) by simp
  have nofl: "\<not> (7 * i = 63 \<and> 1 < ?p)" using Cons.prems(1) by (auto simp: Let_def split: if_splits)
  have small: "unat res + unat ?p * 2 ^ (7 * i) < 2 ^ (7 * Suc i)" (is "?lhs < _")
  proof -
    have "unat ?p * 2 ^ (7 * i) \<le> 127 * 2 ^ (7 * i)" using p by (intro mult_le_mono) auto
    then have "?lhs < 128 * 2 ^ (7 * i)" using Cons.prems(2) by linarith
    then show ?thesis by (simp add: power_add)
  qed
  have fits: "?lhs < 2 ^ 64"
  proof (cases "i = 9")
    case True
    then have "unat ?p \<le> 1" using nofl by (auto simp: word_less_nat_alt)
    then have "unat ?p * 2 ^ (7 * i) \<le> 1 * 2 ^ (7 * i)" by (rule mult_le_mono1)
    then have "?lhs < 1 * 2 ^ (7 * i) + 1 * 2 ^ (7 * i)" using Cons.prems(2) by linarith
    then show ?thesis using True by simp
  next
    case False
    then have "7 * Suc i \<le> 64" using i by simp
    then have "(2 :: nat) ^ (7 * Suc i) \<le> 2 ^ 64" by (rule power_increasing) simp
    then show ?thesis using small by linarith
  qed
  have res: "unat ?res = unat res + unat b mod 128 * 2 ^ (7 * i)"
    using or_push_bit [OF Cons.prems(2) fits] p by simp
  show ?case
  proof (cases "b AND 0x80 = 0")
    case True
    then have "unat b < 128" by (simp add: continuation_bit)
    moreover have "v = ?res" "k = Suc i" "\<not> (0 < i \<and> b = 0)"
      using Cons.prems(1) True nofl by (auto simp: Let_def split: if_splits)
    ultimately show ?thesis
      using res by (intro exI [of _ "unat b"]) (auto simp: uleb_small unat_gt_0)
  next
    case False
    then have b: "unat b = unat b mod 128 + 128"
      using unat_lt_u8 [of b] by (auto simp: continuation_bit not_less mod_if)
    have sh: "7 * i + 7 = 7 * Suc i" by simp
    have "read_varint_loop ctx bs (Suc i) (7 * Suc i) ?res = Inr (Some (v, k))"
      using Cons.prems(1) False nofl by (simp add: Let_def sh split: if_splits)
    moreover have "unat ?res < 2 ^ (7 * Suc i)" using small res p by simp
    ultimately obtain w where w: "take (k - Suc i) bs = uleb w" "Suc i < k" "k \<le> Suc i + length bs"
        "unat v = unat ?res + w * 2 ^ (7 * Suc i)" "0 < w"
      using Cons.IH [of "Suc i" ?res] Cons.prems(3) by auto
    let ?w = "unat b mod 128 + 128 * w"
    have "uleb ?w = word_of_nat (?w mod 128 + 128) # uleb (?w div 128)"
      using w(5) by (intro uleb_step) simp
    also have "?w mod 128 = unat b mod 128" by simp
    also have "?w div 128 = w" by simp
    also have "word_of_nat (unat b mod 128 + 128) = b" using b by (metis of_nat_unat ucast_id)
    finally have "uleb ?w = b # uleb w" .
    moreover have "k - i = Suc (k - Suc i)" using w(2) by simp
    moreover have "unat v = unat res + ?w * 2 ^ (7 * i)"
      using w(4) res by (simp add: power_add algebra_simps)
    ultimately show ?thesis using w by (intro exI [of _ ?w]) auto
  qed
qed simp

lemma read_varint_canonical:
  assumes "read_varint buf ctx = Inr (v, k)"
  shows "take k buf = put_varint [] v \<and> k = varint_len v \<and> k \<le> length buf"
proof -
  have "read_varint_loop ctx (take MAX_VARINT_LEN buf) 0 (7 * 0) 0 = Inr (Some (v, k))"
    using assms by (auto simp: read_varint_def split: option.splits if_splits elim!: bindE_InrE)
  from read_varint_loop_canonical [OF this] obtain w where
    w: "take k (take MAX_VARINT_LEN buf) = uleb w" "k \<le> length (take MAX_VARINT_LEN buf)" "unat v = w"
    by (auto simp: MAX_VARINT_LEN_def)
  then have "take k buf = uleb (unat v)" and "k \<le> length buf" by (auto simp: min_def split: if_splits)
  then show ?thesis by (simp add: put_varint_uleb varint_len_eq flip: length_take) (metis length_take min.absorb2)
qed

text \<open>The buffer variant writes the same bytes at the start of the buffer and leaves the rest.\<close>

lemma encode_varint_at_eq:
  assumes "n + length (uleb (unat v)) \<le> length buf"
  shows "encode_varint_at buf n v
    = (take n buf @ uleb (unat v) @ drop (n + length (uleb (unat v))) buf, n + length (uleb (unat v)))"
  using assms
proof (induction buf n v rule: encode_varint_at.induct)
  case (1 buf n v)
  show ?case
  proof (cases "0x80 \<le> v")
    case True
    then have "128 \<le> unat v" by (simp add: word_le_nat_alt)
    then obtain b where b: "uleb (unat v) = b # uleb (unat (drop_bit 7 v))" "ucast v OR 0x80 = b"
      using byte_low_bits [of v] by (simp add: uleb_step unat_drop_bit_eq drop_bit_eq_div unat_div)
    have "n < length buf" using 1(2) b(1) by simp
    then show ?thesis
      using 1(1) [OF True] 1(2) True b(1)
      by (simp add: encode_varint_at.simps [of buf n v] b(2) take_Suc_conv_app_nth)
  next
    case False
    then have s: "unat v < 128" by (simp add: word_le_nat_alt not_le)
    moreover from this have "(ucast v :: u8) = word_of_nat (unat v)"
      by (simp add: word_unat_eq_iff unsigned_ucast_eq unsigned_of_nat)
    moreover have "n < length buf" using 1(2) s by (simp add: uleb_small)
    ultimately show ?thesis
      using False by (simp add: encode_varint_at.simps [of buf n v] uleb_small upd_conv_take_nth_drop)
  qed
qed

lemma encode_varint_into_eq:
  assumes "length buf = MAX_VARINT_LEN"
  shows "encode_varint_into buf v
    = (put_varint [] v @ drop (varint_len v) buf, varint_len v)"
  using assms encode_varint_at_eq [of 0 v buf] length_uleb_u64 [of v]
  by (simp add: encode_varint_into_def MAX_VARINT_LEN_def put_varint_uleb varint_len_eq)

text \<open>C41. One quantity, one byte stream: \<open>read_varint\<close> returns \<open>(v, k)\<close> exactly when the buffer starts
  with the canonical encoding of \<open>v\<close> and \<open>k\<close> is its length. So it reads back what \<open>put_varint\<close>
  wrote, and every longer spelling, overflow or truncation is an error.\<close>

theorem read_varint_iff_canonical:
  "read_varint buf ctx = Inr (v, k) \<longleftrightarrow> k = varint_len v \<and> take k buf = put_varint [] v"
proof
  assume "read_varint buf ctx = Inr (v, k)"
  then show "k = varint_len v \<and> take k buf = put_varint [] v"
    using read_varint_canonical by blast
next
  assume "k = varint_len v \<and> take k buf = put_varint [] v"
  then have "buf = put_varint [] v @ drop k buf" and "k = length (put_varint [] v)"
    by (metis append_take_drop_id) (simp add: \<open>k = varint_len v \<and> _\<close> varint_len_eq)
  then show "read_varint buf ctx = Inr (v, k)" using read_varint_put by metis
qed

text \<open>
  \<open>let (v, n) = read_varint(&buf[pos..], ctx)?; pos += n;\<close>, the way the other formats use it: a
  cursor-passing decoder.
\<close>

definition read_varint_at :: "string \<Rightarrow> bytes \<Rightarrow> nat \<Rightarrow> (u64 \<times> nat) v6_result" where
  "read_varint_at ctx buf pos = bindE (read_varint (drop pos buf) ctx) (\<lambda>(v, n). Inr (v, pos + n))"

interpretation varint_codec: framed_codec "put_varint []" "read_varint_at ctx" "\<lambda>_. True"
  by unfold_locales (simp add: read_varint_at_def read_varint_put)

lemma put_varint_append: "put_varint out v = out @ put_varint [] v"
  by (simp add: put_varint_uleb)

lemma put_varint_nonempty [simp]: "put_varint [] v \<noteq> []"
  by (simp add: put_varint_uleb)

end
