(* ===== verification/Crc32c.thy ===== *)
theory Crc32c
  imports Byte_Codec
begin

text \<open>
  \<open>heraclitus-log/src/cpm.rs\<close>: the CRC-32C of every record, header, block and footer. The table path
  and the SSE4.2 path are modelled separately and shown to be bit-for-bit equal, and the checksum is
  shown to notice every change confined to a window of four bytes.
\<close>

section \<open>The table path\<close>

definition crc_shift :: "u32 \<Rightarrow> u32" where
  "crc_shift crc = (if crc AND 1 \<noteq> 0 then drop_bit 1 crc XOR 0x82F63B78 else drop_bit 1 crc)"

definition crc_table_entry :: "u32 \<Rightarrow> u32" where
  "crc_table_entry i = (crc_shift ^^ 8) i"

definition CRC32C_TABLE :: "u32 list" where
  "CRC32C_TABLE = map (\<lambda>i. crc_table_entry (word_of_nat i)) [0..<256]"

definition update_tabela :: "u32 \<Rightarrow> bytes \<Rightarrow> u32" where
  "update_tabela crc data =
     fold (\<lambda>b crc. CRC32C_TABLE ! unat ((crc XOR ucast b) AND 0xFF) XOR drop_bit 8 crc) data crc"

section \<open>The hardware path\<close>

text \<open>
  The two x86 intrinsics of \<open>std::arch\<close>: \<open>_mm_crc32_u8\<close> accumulates one byte into the reflected
  CRC-32C, \<open>_mm_crc32_u64\<close> the eight bytes of a word, least significant first, leaving the upper half of
  its 64-bit result zero.
\<close>

definition mm_crc32_u8 :: "u32 \<Rightarrow> u8 \<Rightarrow> u32" where
  "mm_crc32_u8 crc b = (crc_shift ^^ 8) (crc XOR ucast b)"

definition mm_crc32_u64 :: "u64 \<Rightarrow> u64 \<Rightarrow> u64" where
  "mm_crc32_u64 crc w = ucast (fold (\<lambda>b c. mm_crc32_u8 c b) (to_le_bytes w) (ucast crc :: u32))"

text \<open>The argument is the result of \<open>data.align_to::<u64>()\<close>: unaligned head, aligned words, tail.\<close>

definition update_hardware :: "u32 \<Rightarrow> bytes \<times> u64 list \<times> bytes \<Rightarrow> u32" where
  "update_hardware crc parts = (case parts of (pre, meio, pos) \<Rightarrow>
     (let c = (ucast crc :: u64);
          c = fold (\<lambda>b c. ucast (mm_crc32_u8 (ucast c) b)) pre c;
          c = fold (\<lambda>w c. mm_crc32_u64 c w) meio c;
          c = fold (\<lambda>b c. ucast (mm_crc32_u8 (ucast c) b)) pos c
      in ucast c))"

text \<open>\<open>align\<close> stands for \<open>align_to\<close>, whose split depends on the address of the buffer.\<close>

definition update_despachado ::
    "bool \<Rightarrow> (bytes \<Rightarrow> bytes \<times> u64 list \<times> bytes) \<Rightarrow> u32 \<Rightarrow> bytes \<Rightarrow> u32" where
  "update_despachado tem_sse42 align crc data =
     (if tem_sse42 then update_hardware crc (align data) else update_tabela crc data)"

section \<open>The incremental hasher\<close>

text \<open>
  The rest of the model runs the table path: by \<open>update_hardware_eq\<close> below the choice that
  \<open>update_despachado\<close> makes cannot be observed.
\<close>

definition crc32c_new :: u32 where
  "crc32c_new = 0xFFFFFFFF"

definition crc32c_update :: "u32 \<Rightarrow> bytes \<Rightarrow> u32" where
  "crc32c_update h data = update_tabela h data"

definition crc32c_finalize :: "u32 \<Rightarrow> u32" where
  "crc32c_finalize h = NOT h"

definition crc32c :: "bytes \<Rightarrow> u32" where
  "crc32c data = crc32c_finalize (crc32c_update crc32c_new data)"

section \<open>Linearity of the register\<close>

lemma crc_shift_bit: "crc_shift x = drop_bit 1 x XOR (if bit x 0 then 0x82F63B78 else 0)"
  by (simp add: crc_shift_def and_one_eq bit_0 odd_iff_mod_2_eq_one)

lemma xor_cancel: "(x :: u32) XOR p = y XOR p \<longleftrightarrow> x = y"
  by (metis xor.assoc xor.right_neutral xor_self_eq)

lemma crc_shift_xor: "crc_shift (a XOR b) = crc_shift a XOR crc_shift b"
  by (simp add: crc_shift_bit drop_bit_xor bit_xor_iff ac_simps)

lemma crc_shifts_xor: "(crc_shift ^^ n) (a XOR b) = (crc_shift ^^ n) a XOR (crc_shift ^^ n) b"
  by (induction n) (simp_all add: crc_shift_xor)

lemma crc_shifts_low_zero: "(\<And>i. i < n \<Longrightarrow> \<not> bit x i) \<Longrightarrow> (crc_shift ^^ n) x = drop_bit n x"
proof (induction n arbitrary: x)
  case (Suc n)
  have "crc_shift x = drop_bit 1 x"
    using Suc.prems [of 0] by (simp add: crc_shift_bit)
  moreover have "(crc_shift ^^ n) (drop_bit 1 x) = drop_bit n (drop_bit 1 x)"
    using Suc.prems by (intro Suc.IH) (simp add: bit_drop_bit_eq)
  ultimately show ?case by (simp add: funpow_Suc_right del: funpow.simps)
qed simp

lemma crc_shift_inj: "crc_shift a = crc_shift b \<Longrightarrow> a = b"
proof -
  assume eq: "crc_shift a = crc_shift b"
  have top: "bit (crc_shift x) 31 = bit x 0" for x
    by (auto simp: crc_shift_bit bit_xor_iff bit_drop_bit_eq dest: bit_imp_le_length)
  with eq have "bit a 0 = bit b 0" by metis
  with eq have "drop_bit 1 a = drop_bit 1 b"
    by (auto simp: crc_shift_bit xor_cancel split: if_splits)
  have "bit a i = bit b i" for i
  proof (cases i)
    case (Suc j)
    have "bit (drop_bit 1 a) j = bit (drop_bit 1 b) j"
      by (simp only: \<open>drop_bit 1 a = drop_bit 1 b\<close>)
    with Suc show ?thesis by (simp add: bit_drop_bit_eq)
  qed (simp add: \<open>bit a 0 = bit b 0\<close>)
  then show "a = b" by (intro bit_eqI) simp
qed

lemma crc_shifts_inj: "(crc_shift ^^ n) a = (crc_shift ^^ n) b \<Longrightarrow> a = b"
  by (induction n) (auto dest: crc_shift_inj)

section \<open>The two paths agree\<close>

lemma low_byte_mask: "(0xFF :: u32) = mask 8"
  by (simp add: mask_eq_exp_minus_1)

lemma table_step: "CRC32C_TABLE ! unat ((crc XOR ucast b) AND 0xFF) XOR drop_bit 8 crc = mm_crc32_u8 crc b"
proof -
  let ?x = "crc XOR ucast b :: u32"
  have "unat (?x AND 0xFF) < 256"
    using word_and_le1 [of ?x "0xFF"] by (simp add: word_le_nat_alt)
  then have "CRC32C_TABLE ! unat (?x AND 0xFF) = (crc_shift ^^ 8) (?x AND 0xFF)"
    by (simp add: CRC32C_TABLE_def crc_table_entry_def)
  moreover have "drop_bit 8 crc = (crc_shift ^^ 8) (?x AND NOT 0xFF)"
  proof -
    have "(crc_shift ^^ 8) (?x AND NOT 0xFF) = drop_bit 8 (?x AND NOT 0xFF)"
      by (rule crc_shifts_low_zero) (auto simp: bit_simps low_byte_mask)
    also have "\<dots> = drop_bit 8 crc"
      by (rule bit_eqI) (auto simp: bit_simps low_byte_mask dest: bit_imp_le_length)
    finally show ?thesis by simp
  qed
  moreover have "(?x AND 0xFF) XOR (?x AND NOT 0xFF) = ?x"
    by (rule bit_eqI) (auto simp: bit_simps)
  ultimately show ?thesis
    by (simp add: mm_crc32_u8_def crc_shifts_xor [symmetric])
qed

lemma update_tabela_fold: "update_tabela crc data = fold (\<lambda>b c. mm_crc32_u8 c b) data crc"
  by (simp add: update_tabela_def table_step)

lemma update_tabela_simps [simp]:
  "update_tabela crc [] = crc"
  "update_tabela crc (b # bs) = update_tabela (mm_crc32_u8 crc b) bs"
  by (simp_all add: update_tabela_fold)

lemma update_tabela_append: "update_tabela crc (xs @ ys) = update_tabela (update_tabela crc xs) ys"
  by (simp add: update_tabela_fold)

lemma update_tabela_inj: "update_tabela c xs = update_tabela d xs \<Longrightarrow> c = d"
proof (induction xs arbitrary: c d)
  case (Cons b bs)
  then have "mm_crc32_u8 c b = mm_crc32_u8 d b" by simp
  then have "c XOR ucast b = d XOR ucast b"
    unfolding mm_crc32_u8_def by (rule crc_shifts_inj)
  then show ?case by (simp add: xor_cancel)
qed simp

lemma fold_hardware_bytes:
  "fold (\<lambda>b c. ucast (mm_crc32_u8 (ucast c) b)) bs (ucast (crc :: u32) :: u64) = ucast (update_tabela crc bs)"
proof (induction bs arbitrary: crc)
  case (Cons b bs)
  have "ucast (ucast crc :: u64) = crc" by (simp add: ucast_down_ucast_id is_down)
  then show ?case by (simp add: Cons.IH)
qed simp

lemma fold_hardware_words:
  "fold (\<lambda>w c. mm_crc32_u64 c w) ws (ucast (crc :: u32) :: u64)
    = ucast (update_tabela crc (concat (map to_le_bytes ws)))"
proof (induction ws arbitrary: crc)
  case (Cons w ws)
  have "ucast (ucast crc :: u64) = crc" by (simp add: ucast_down_ucast_id is_down)
  then have "mm_crc32_u64 (ucast crc) w = ucast (update_tabela crc (to_le_bytes w))"
    by (simp add: mm_crc32_u64_def update_tabela_fold)
  then show ?case by (simp add: Cons.IH update_tabela_append)
qed simp

lemma update_hardware_eq:
  "update_hardware crc (pre, meio, pos)
    = update_tabela crc (pre @ concat (map to_le_bytes meio) @ pos)"
  unfolding update_hardware_def
  by (simp only: Let_def prod.case fold_hardware_bytes fold_hardware_words update_tabela_append)
     (simp add: ucast_down_ucast_id is_down)

section \<open>What the checksum notices\<close>

lemma shifts_of_high_byte: "(crc_shift ^^ 8) (push_bit 8 (x :: u32) AND mask 32) = x AND mask 24"
proof -
  have "(crc_shift ^^ 8) (push_bit 8 x AND mask 32) = drop_bit 8 (push_bit 8 x AND mask 32)"
    by (rule crc_shifts_low_zero) (auto simp: bit_simps)
  also have "\<dots> = x AND mask 24"
    by (rule bit_eqI) (auto simp: bit_simps dest: bit_imp_le_length)
  finally show ?thesis .
qed

text \<open>\<open>n \<le> 4\<close> bytes enter the register like one little-endian word followed by \<open>8 * n\<close> shifts.\<close>

fun window :: "bytes \<Rightarrow> u32" where
  "window [] = 0"
| "window (b # bs) = ucast b XOR push_bit 8 (window bs)"

lemma window_bits: "bit (window bs) i \<Longrightarrow> i < 8 * length bs"
proof (induction bs arbitrary: i)
  case (Cons b bs)
  from Cons.prems have "bit b i \<or> 8 \<le> i \<and> bit (window bs) (i - 8)"
    by (auto simp: bit_simps)
  then show ?case
    using bit_imp_le_length [of b i] Cons.IH [of "i - 8"] by auto
qed simp

lemma update_window:
  "length bs \<le> 4 \<Longrightarrow> update_tabela crc bs = (crc_shift ^^ (8 * length bs)) (crc XOR window bs)"
proof (induction bs arbitrary: crc)
  case (Cons b bs)
  have low: "push_bit 8 (window bs) AND mask 32 = push_bit 8 (window bs)"
    by (rule bit_eqI) (auto simp: bit_simps)
  have "window bs AND mask 24 = window bs"
  proof (rule bit_eqI)
    fix i show "bit (window bs AND mask 24) i = bit (window bs) i"
      using window_bits [of bs i] Cons.prems by (auto simp: bit_simps)
  qed
  then have shift: "(crc_shift ^^ 8) (push_bit 8 (window bs)) = window bs"
    using shifts_of_high_byte [of "window bs"] low by simp
  have "update_tabela crc (b # bs) = (crc_shift ^^ (8 * length bs)) (mm_crc32_u8 crc b XOR window bs)"
    using Cons by simp
  also have "mm_crc32_u8 crc b XOR window bs = (crc_shift ^^ 8) (crc XOR window (b # bs))"
    by (simp add: mm_crc32_u8_def crc_shifts_xor shift xor.assoc)
  finally show ?case by (simp add: funpow_add [symmetric, THEN fun_cong, simplified] add.commute)
qed simp

lemma window_inj: "length xs = length ys \<Longrightarrow> length xs \<le> 4 \<Longrightarrow> window xs = window ys \<Longrightarrow> xs = ys"
proof (induction xs ys rule: list_induct2)
  case (Cons x xs y ys)
  have low: "ucast (window (b # bs)) = b" for b bs
    by (rule bit_eqI) (auto simp: bit_simps dest: bit_imp_le_length)
  with Cons.prems have "x = y" by metis
  with Cons.prems have eq: "push_bit 8 (window xs) = push_bit 8 (window ys)"
    by (metis window.simps(2) xor_cancel xor.commute)
  have "window xs = window ys"
  proof (rule bit_eqI)
    fix i
    have "length xs \<le> 3" using Cons.prems by simp
    show "bit (window xs) i = bit (window ys) i"
    proof (cases "i < 24")
      case True
      have "bit (push_bit 8 (window xs)) (i + 8) = bit (push_bit 8 (window ys)) (i + 8)"
        by (simp only: eq)
      then show ?thesis using True by (simp add: bit_simps)
    next
      case False
      then show ?thesis
        using window_bits [of xs i] window_bits [of ys i] \<open>length xs \<le> 3\<close> Cons.hyps by auto
    qed
  qed
  with Cons \<open>x = y\<close> show ?case by simp
qed simp

lemma update_window_inj:
  "length xs = length ys \<Longrightarrow> length xs \<le> 4 \<Longrightarrow> update_tabela c xs = update_tabela c ys \<Longrightarrow> xs = ys"
  by (metis crc_shifts_inj update_window window_inj xor_cancel xor.commute)

lemma crc32c_eq_iff: "crc32c xs = crc32c ys \<longleftrightarrow> update_tabela crc32c_new xs = update_tabela crc32c_new ys"
proof
  assume "crc32c xs = crc32c ys"
  then have "NOT (NOT (update_tabela crc32c_new xs)) = NOT (NOT (update_tabela crc32c_new ys))"
    by (simp add: crc32c_def crc32c_finalize_def crc32c_update_def)
  then show "update_tabela crc32c_new xs = update_tabela crc32c_new ys" by simp
qed (simp add: crc32c_def crc32c_update_def)

lemma crc32c_burst:
  assumes "length xs = length ys" "length xs \<le> 4" "xs \<noteq> ys"
  shows "crc32c (pre @ xs @ post) \<noteq> crc32c (pre @ ys @ post)"
  using assms update_tabela_inj update_window_inj
  by (metis crc32c_eq_iff update_tabela_append)

section \<open>Properties\<close>

text \<open>C39. Whichever path the CPU detection selects, and however the buffer happens to be aligned (the
  split into an unaligned head, 64-bit words and a tail), the register after \<open>update_despachado\<close> is
  the one of the byte-by-byte table loop over the same bytes.\<close>

theorem crc_paths_agree:
  "update_despachado tem_sse42 (\<lambda>_. (pre, meio, pos)) crc (pre @ concat (map to_le_bytes meio) @ pos)
    = update_tabela crc (pre @ concat (map to_le_bytes meio) @ pos)"
  by (simp add: update_despachado_def update_hardware_eq del: update_tabela_simps)

text \<open>A CRC-32C notices every corruption confined to four consecutive bytes, wherever they stand
  in the protected region and whatever surrounds them.\<close>

theorem crc32c_detects_burst:
  assumes "length xs = length ys" and "length xs \<le> 4" and "xs \<noteq> ys"
  shows "crc32c (pre @ xs @ post) \<noteq> crc32c (pre @ ys @ post)"
  using assms by (rule crc32c_burst)

lemma crc32c_detects_burst_witness:
  "crc32c ([1, 2] @ [3, 4] @ [5]) \<noteq> crc32c ([1, 2] @ [3, 9] @ [5])"
  by (rule crc32c_detects_burst) simp_all

text \<open>The check value of the Castagnoli polynomial that the source quotes: the CRC of \<open>"123456789"\<close>.\<close>

lemma crc_shift_8: "(crc_shift ^^ 8) x = crc_shift (crc_shift (crc_shift (crc_shift
    (crc_shift (crc_shift (crc_shift (crc_shift x)))))))"
  by (simp add: numeral_eq_Suc)

lemma crc32c_check_value: "crc32c [0x31, 0x32, 0x33, 0x34, 0x35, 0x36, 0x37, 0x38, 0x39] = 0xE3069283"
  by (simp add: crc32c_def crc32c_finalize_def crc32c_update_def crc32c_new_def mm_crc32_u8_def
      crc_shift_def crc_shift_8)

end
