(* ===== verification/Catalog.thy ===== *)
theory Catalog
  imports Byte_Codec
begin

text \<open>
  The catalogue of the store, \<open>heraclitus-core/src/runtime.rs\<close>: the published vocabulary (layouts,
  codecs, generation states), segment descriptors that separate the logical identity of a segment
  from its physical generations, the manifest, and the queries that run on it without opening a
  segment. \<open>[u8; 32]\<close> is a byte list; \<open>String\<close> is the byte list of its UTF-8 encoding. Sums of sizes
  wrap, as in a release build.
\<close>

section \<open>Published vocabulary\<close>

datatype physical_layout = Layout_Raw | Layout_Packed

fun physical_layout_u8 :: "physical_layout \<Rightarrow> u8" where
  "physical_layout_u8 Layout_Raw = 0"
| "physical_layout_u8 Layout_Packed = 1"

definition physical_layout_from_u8 :: "u8 \<Rightarrow> physical_layout v6_result" where
  "physical_layout_from_u8 v =
     (if v = 0 then Inr Layout_Raw else if v = 1 then Inr Layout_Packed
      else Inl (Corruption ''physical layout'' ''unknown physical_layout''))"

datatype compression_codec = Codec_Raw | Codec_Zstd | Codec_Lz4Raw

fun compression_codec_u8 :: "compression_codec \<Rightarrow> u8" where
  "compression_codec_u8 Codec_Raw = 0"
| "compression_codec_u8 Codec_Zstd = 1"
| "compression_codec_u8 Codec_Lz4Raw = 2"

definition compression_codec_from_u8 :: "u8 \<Rightarrow> compression_codec v6_result" where
  "compression_codec_from_u8 v =
     (if v = 0 then Inr Codec_Raw else if v = 1 then Inr Codec_Zstd else if v = 2 then Inr Codec_Lz4Raw
      else Inl (Corruption ''compression codec'' ''unknown compression codec''))"

datatype generation_state = Writing | Verified | Active | Superseded | Archived | Quarantined

fun generation_state_u8 :: "generation_state \<Rightarrow> u8" where
  "generation_state_u8 Writing = 0"
| "generation_state_u8 Verified = 1"
| "generation_state_u8 Active = 2"
| "generation_state_u8 Superseded = 3"
| "generation_state_u8 Archived = 4"
| "generation_state_u8 Quarantined = 5"

definition generation_state_from_u8 :: "u8 \<Rightarrow> generation_state v6_result" where
  "generation_state_from_u8 v =
     (if v = 0 then Inr Writing else if v = 1 then Inr Verified else if v = 2 then Inr Active
      else if v = 3 then Inr Superseded else if v = 4 then Inr Archived else if v = 5 then Inr Quarantined
      else Inl (Corruption ''generation state'' ''unknown generation state''))"

lemma published_ids [simp]:
  "physical_layout_from_u8 (physical_layout_u8 l) = Inr l"
  "compression_codec_from_u8 (compression_codec_u8 c) = Inr c"
  "generation_state_from_u8 (generation_state_u8 s) = Inr s"
  unfolding physical_layout_from_u8_def compression_codec_from_u8_def generation_state_from_u8_def
  subgoal by (cases l) simp_all
  subgoal by (cases c) simp_all
  subgoal by (cases s) simp_all
  done

fun state_is_canonical_authority :: "generation_state \<Rightarrow> bool" where
  "state_is_canonical_authority Writing = False"
| "state_is_canonical_authority Verified = True"
| "state_is_canonical_authority Active = True"
| "state_is_canonical_authority Superseded = True"
| "state_is_canonical_authority Archived = True"
| "state_is_canonical_authority Quarantined = False"

section \<open>Generations and segments\<close>

record physical_generation =
  pg_generation :: u32
  pg_layout :: physical_layout
  pg_compression :: compression_codec
  pg_location :: bytes
  pg_physical_size :: u64
  pg_physical_digest :: bytes
  pg_state :: generation_state
  pg_created_hlc :: u64
  pg_verified_hlc :: u64
  pg_superseded_hlc :: u64
  pg_verified_copies :: u32

definition is_canonical_authority :: "physical_generation \<Rightarrow> bool" where
  "is_canonical_authority g = state_is_canonical_authority (pg_state g)"

record derived_artifact_ref =
  da_location :: bytes
  da_size :: u64
  da_digest :: bytes
  da_logical_root :: bytes
  da_created_hlc :: u64

record retention_policy =
  rp_legal_hold :: bool
  rp_gc_grace_seconds :: u64
  rp_min_verified_copies :: u32
  rp_preserve_legacy_original :: bool

definition DEFAULT_GC_GRACE_SECONDS :: u64 where
  "DEFAULT_GC_GRACE_SECONDS = 86400"

definition default_retention :: retention_policy where
  "default_retention = \<lparr>rp_legal_hold = False, rp_gc_grace_seconds = DEFAULT_GC_GRACE_SECONDS,
     rp_min_verified_copies = 1, rp_preserve_legacy_original = True\<rparr>"

record segment_descriptor =
  sd_segment_id :: segment_id
  sd_first_lsn :: lsn
  sd_last_lsn :: lsn
  sd_record_count :: u64
  sd_canonical_codec :: u16
  sd_logical_root :: bytes
  sd_min_hlc :: u64
  sd_max_hlc :: u64
  sd_active_generation :: u32
  sd_generations :: "physical_generation list"
  sd_hrki :: "derived_artifact_ref option"
  sd_parquet :: "derived_artifact_ref option"
  sd_retention :: retention_policy

definition generation_of_number :: "segment_descriptor \<Rightarrow> u32 \<Rightarrow> physical_generation option" where
  "generation_of_number s n = find (\<lambda>g. pg_generation g = n) (sd_generations s)"

definition active_generation :: "segment_descriptor \<Rightarrow> physical_generation option" where
  "active_generation s = find (\<lambda>g. pg_generation g = sd_active_generation s) (sd_generations s)"

text \<open>A write through the reference returned by \<open>generation_mut\<close>.\<close>

definition modify_generation ::
    "u32 \<Rightarrow> (physical_generation \<Rightarrow> physical_generation) \<Rightarrow> segment_descriptor \<Rightarrow> segment_descriptor" where
  "modify_generation n f s =
     s\<lparr>sd_generations := modify_first (\<lambda>g. pg_generation g = n) f (sd_generations s)\<rparr>"

definition canonical_authorities :: "segment_descriptor \<Rightarrow> physical_generation list" where
  "canonical_authorities s = filter is_canonical_authority (sd_generations s)"

definition has_packed :: "segment_descriptor \<Rightarrow> bool" where
  "has_packed s = list_ex (\<lambda>g. pg_layout g = Layout_Packed) (canonical_authorities s)"

definition has_raw :: "segment_descriptor \<Rightarrow> bool" where
  "has_raw s = list_ex (\<lambda>g. pg_layout g = Layout_Raw) (canonical_authorities s)"

definition next_generation_number :: "segment_descriptor \<Rightarrow> u32" where
  "next_generation_number s = (case map pg_generation (sd_generations s) of
     [] \<Rightarrow> 0 | n # ns \<Rightarrow> fold max ns n + 1)"

definition visible_at :: "segment_descriptor \<Rightarrow> lsn \<Rightarrow> bool" where
  "visible_at s target_lsn = (sd_first_lsn s \<le> target_lsn)"

definition may_contain_hlc_range :: "segment_descriptor \<Rightarrow> u64 \<Rightarrow> u64 \<Rightarrow> bool" where
  "may_contain_hlc_range s lo hi = (sd_record_count s = 0 \<or> lo \<le> sd_max_hlc s \<and> sd_min_hlc s \<le> hi)"

definition may_contain_lsn_range :: "segment_descriptor \<Rightarrow> lsn \<Rightarrow> lsn \<Rightarrow> bool" where
  "may_contain_lsn_range s lo hi = (sd_record_count s = 0 \<or> lo \<le> sd_last_lsn s \<and> sd_first_lsn s \<le> hi)"

section \<open>The manifest\<close>

text \<open>The legacy view \<open>segments\<close> of version 1 is not read by anything modelled here.\<close>

record database_manifest =
  dm_manifest_version :: u32
  dm_format_identifier :: bytes
  dm_cumulative_watermark :: lsn
  dm_statistics_root_hash :: bytes
  dm_storage_namespace_id :: bytes
  dm_manifest_generation :: u64
  dm_segments_v2 :: "segment_descriptor list"
  dm_exported_through_lsn :: lsn

definition segment :: "database_manifest \<Rightarrow> segment_id \<Rightarrow> segment_descriptor option" where
  "segment m sid = find (\<lambda>s. sd_segment_id s = sid) (dm_segments_v2 m)"

text \<open>A write through the reference returned by \<open>segment_mut\<close>.\<close>

definition write_segment :: "segment_id \<Rightarrow> segment_descriptor \<Rightarrow> database_manifest \<Rightarrow> database_manifest" where
  "write_segment sid d m =
     m\<lparr>dm_segments_v2 := modify_first (\<lambda>s. sd_segment_id s = sid) (\<lambda>_. d) (dm_segments_v2 m)\<rparr>"

definition upsert_segment :: "segment_descriptor \<Rightarrow> database_manifest \<Rightarrow> database_manifest" where
  "upsert_segment desc m = m\<lparr>dm_segments_v2 :=
     (case position (\<lambda>s. sd_segment_id s = sd_segment_id desc) (dm_segments_v2 m) of
        Some i \<Rightarrow> (dm_segments_v2 m)[i := desc]
      | None \<Rightarrow> (let at = partition_point (\<lambda>s. sd_first_lsn s < sd_first_lsn desc) (dm_segments_v2 m)
                in take at (dm_segments_v2 m) @ desc # drop at (dm_segments_v2 m)))\<rparr>"

definition visible_segments_v2 :: "database_manifest \<Rightarrow> lsn \<Rightarrow> segment_descriptor list" where
  "visible_segments_v2 m target_lsn = filter (\<lambda>s. visible_at s target_lsn) (dm_segments_v2 m)"

definition find_segment_for_lsn :: "database_manifest \<Rightarrow> lsn \<Rightarrow> segment_descriptor option" where
  "find_segment_for_lsn m k =
     (let idx = partition_point (\<lambda>s. sd_last_lsn s < k) (dm_segments_v2 m) in
      if idx < length (dm_segments_v2 m)
      then (let s = dm_segments_v2 m ! idx in
        if sd_record_count s > 0 \<and> k \<ge> sd_first_lsn s \<and> k \<le> sd_last_lsn s then Some s else None)
      else None)"

definition segments_for_hlc_range :: "database_manifest \<Rightarrow> u64 \<Rightarrow> u64 \<Rightarrow> segment_descriptor list" where
  "segments_for_hlc_range m lo hi = filter (\<lambda>s. may_contain_hlc_range s lo hi) (dm_segments_v2 m)"

definition segments_for_lsn_range :: "database_manifest \<Rightarrow> lsn \<Rightarrow> lsn \<Rightarrow> segment_descriptor list" where
  "segments_for_lsn_range m lo hi = filter (\<lambda>s. may_contain_lsn_range s lo hi) (dm_segments_v2 m)"

definition packing_queue :: "database_manifest \<Rightarrow> segment_id list" where
  "packing_queue m = map sd_segment_id (filter (\<lambda>s. has_raw s \<and> \<not> has_packed s) (dm_segments_v2 m))"

definition sidecar_queue :: "database_manifest \<Rightarrow> segment_id list" where
  "sidecar_queue m = map sd_segment_id (filter (\<lambda>s. has_packed s \<and>
     (case sd_hrki s of Some h \<Rightarrow> da_logical_root h \<noteq> sd_logical_root s | None \<Rightarrow> True)) (dm_segments_v2 m))"

definition lakehouse_queue :: "database_manifest \<Rightarrow> segment_id list" where
  "lakehouse_queue m = map sd_segment_id (filter (\<lambda>s.
     (case sd_parquet s of Some p \<Rightarrow> da_logical_root p \<noteq> sd_logical_root s | None \<Rightarrow> True)) (dm_segments_v2 m))"

definition artifact_size :: "derived_artifact_ref option \<Rightarrow> u64" where
  "artifact_size a = (case a of Some r \<Rightarrow> da_size r | None \<Rightarrow> 0)"

definition storage_bytes :: "database_manifest \<Rightarrow> u64 \<times> u64" where
  "storage_bytes m = fold (\<lambda>s (canonical, derived).
     (fold (\<lambda>g c. c + pg_physical_size g) (sd_generations s) canonical,
      derived + artifact_size (sd_hrki s) + artifact_size (sd_parquet s))) (dm_segments_v2 m) (0, 0)"

definition total_records :: "database_manifest \<Rightarrow> u64" where
  "total_records m = sum_list (map sd_record_count (dm_segments_v2 m))"

section \<open>Memory budget\<close>

record memory_budget =
  mb_allowed_bytes :: u64
  mb_used_bytes :: u64

definition memory_budget_new :: "u64 \<Rightarrow> memory_budget" where
  "memory_budget_new allowed = \<lparr>mb_allowed_bytes = allowed, mb_used_bytes = 0\<rparr>"

definition try_reserve :: "memory_budget \<Rightarrow> u64 \<Rightarrow> (string + unit) \<times> memory_budget" where
  "try_reserve b n = (case checked_add (mb_used_bytes b) n of
     Some new \<Rightarrow> (if new \<le> mb_allowed_bytes b then (Inr (), b\<lparr>mb_used_bytes := new\<rparr>)
                   else (Inl ''MemoryBudget exceeded'', b))
   | None \<Rightarrow> (Inl ''MemoryBudget exceeded'', b))"

definition release :: "memory_budget \<Rightarrow> u64 \<Rightarrow> memory_budget" where
  "release b n = b\<lparr>mb_used_bytes := saturating_sub (mb_used_bytes b) n\<rparr>"

section \<open>Lookup and update\<close>

lemma position_modify_first:
  "position p xs = Some i \<Longrightarrow> xs[i := y] = modify_first p (\<lambda>_. y) xs"
  by (induction xs arbitrary: i) (auto split: if_splits)

lemma upsert_existing:
  assumes "segment m (sd_segment_id d) \<noteq> None"
  shows "upsert_segment d m = write_segment (sd_segment_id d) d m"
proof -
  let ?p = "\<lambda>s. sd_segment_id s = sd_segment_id d"
  have "\<not> (\<forall>s \<in> set (dm_segments_v2 m). \<not> ?p s)"
    using assms find_Some_mem [of ?p] by (fastforce simp: segment_def)
  then obtain i where "position ?p (dm_segments_v2 m) = Some i"
    by (cases "position ?p (dm_segments_v2 m)") (auto simp: position_None)
  then show ?thesis
    by (simp add: upsert_segment_def write_segment_def position_modify_first)
qed

lemma segment_None: "segment m sid = None \<longleftrightarrow> sid \<notin> sd_segment_id ` set (dm_segments_v2 m)"
  by (auto simp: segment_def find_None_iff)

lemma segment_Some: "segment m sid = Some s \<Longrightarrow> s \<in> set (dm_segments_v2 m) \<and> sd_segment_id s = sid"
  using find_Some_mem by (fastforce simp: segment_def)

lemma upsert_new:
  assumes "segment m (sd_segment_id d) = None"
  shows "dm_segments_v2 (upsert_segment d m) =
    (let at = partition_point (\<lambda>s. sd_first_lsn s < sd_first_lsn d) (dm_segments_v2 m)
     in take at (dm_segments_v2 m) @ d # drop at (dm_segments_v2 m))"
proof -
  have "position (\<lambda>s. sd_segment_id s = sd_segment_id d) (dm_segments_v2 m) = None"
    using assms by (auto simp: segment_None position_None image_iff)
  then show ?thesis by (simp add: upsert_segment_def)
qed

lemma segment_write:
  assumes "sd_segment_id d = sid"
  shows "segment (write_segment sid d m) k = (if k = sid then map_option (\<lambda>_. d) (segment m sid) else segment m k)"
  using assms
  by (auto simp: segment_def write_segment_def intro!: find_modify_first find_modify_first_other)

lemma find_insert_middle:
  "\<not> p y \<Longrightarrow> find p (take n xs @ y # drop n xs) = find p xs"
  by (induction xs arbitrary: n) (auto simp: take_Cons drop_Cons split: nat.splits)

lemma find_inserted:
  "p y \<Longrightarrow> \<forall>x \<in> set xs. \<not> p x \<Longrightarrow> find p (take n xs @ y # drop n xs) = Some y"
  by (induction xs arbitrary: n) (auto simp: take_Cons drop_Cons split: nat.splits)

lemma segment_upsert:
  "segment (upsert_segment d m) k = (if k = sd_segment_id d then Some d else segment m k)"
proof (cases "segment m (sd_segment_id d)")
  case None
  then have "\<forall>s \<in> set (dm_segments_v2 m). sd_segment_id s \<noteq> sd_segment_id d"
    by (simp add: segment_None image_iff) metis
  then show ?thesis
    by (auto simp: segment_def upsert_new [OF None] Let_def find_insert_middle intro!: find_inserted)
next
  case (Some s)
  then show ?thesis by (simp add: upsert_existing segment_write)
qed

lemma set_upsert: "set (dm_segments_v2 (upsert_segment d m)) \<subseteq> insert d (set (dm_segments_v2 m))"
proof (cases "segment m (sd_segment_id d)")
  case None
  then show ?thesis by (auto simp: upsert_new Let_def dest: in_set_takeD in_set_dropD)
next
  case (Some s)
  then show ?thesis
    using set_modify_first by (fastforce simp: upsert_existing write_segment_def)
qed

text \<open>The order that makes the lookups binary searches, and unique identities.\<close>

definition catalog_ordered :: "database_manifest \<Rightarrow> bool" where
  "catalog_ordered m = (sorted (map sd_first_lsn (dm_segments_v2 m)) \<and> distinct (map sd_segment_id (dm_segments_v2 m)))"

lemma sorted_insert_at_partition_point:
  fixes key :: "'a \<Rightarrow> 'b::linorder"
  assumes "sorted (map key xs)"
  shows "sorted (map key (take (partition_point (\<lambda>x. key x < key y) xs) xs
    @ y # drop (partition_point (\<lambda>x. key x < key y) xs) xs))"
  using assms by (induction xs) (auto simp: partition_point_def dest: in_set_takeD in_set_dropD
      set_takeWhileD)

lemma catalog_ordered_upsert:
  assumes "catalog_ordered m"
    and "\<And>s. segment m (sd_segment_id d) = Some s \<Longrightarrow> sd_first_lsn s = sd_first_lsn d"
  shows "catalog_ordered (upsert_segment d m)"
proof (cases "segment m (sd_segment_id d)")
  case None
  let ?at = "partition_point (\<lambda>s. sd_first_lsn s < sd_first_lsn d) (dm_segments_v2 m)"
  have "sd_segment_id d \<notin> sd_segment_id ` set (dm_segments_v2 m)"
    using None by (simp add: segment_None)
  moreover have "distinct (map sd_segment_id (take ?at (dm_segments_v2 m) @ drop ?at (dm_segments_v2 m)))"
    using assms(1) by (simp add: catalog_ordered_def)
  ultimately have "distinct (map sd_segment_id (take ?at (dm_segments_v2 m) @ d # drop ?at (dm_segments_v2 m)))"
    by (auto simp del: append_take_drop_id dest: in_set_takeD in_set_dropD)
  then show ?thesis
    using assms(1) sorted_insert_at_partition_point [of sd_first_lsn "dm_segments_v2 m" d]
    by (simp add: catalog_ordered_def upsert_new [OF None] Let_def)
next
  case (Some s)
  let ?xs = "dm_segments_v2 m" and ?p = "\<lambda>s. sd_segment_id s = sd_segment_id d"
  have same: "sd_first_lsn x = sd_first_lsn d" if "x \<in> set ?xs" "?p x" for x
    using that assms Some find_distinct [of sd_segment_id ?xs x]
    by (auto simp: catalog_ordered_def segment_def)
  have "map sd_first_lsn (modify_first ?p (\<lambda>_. d) xs) = map sd_first_lsn xs" if "set xs \<subseteq> set ?xs" for xs
    using that by (induction xs) (auto simp: same)
  then have "map sd_first_lsn (modify_first ?p (\<lambda>_. d) ?xs) = map sd_first_lsn ?xs" by simp
  moreover have "map sd_segment_id (modify_first ?p (\<lambda>_. d) ?xs) = map sd_segment_id ?xs"
    by (rule map_modify_first) simp
  ultimately show ?thesis
    using assms(1) Some by (simp add: catalog_ordered_def upsert_existing write_segment_def)
qed

interpretation manifest_index: interval_index sd_first_lsn sd_last_lsn "\<lambda>s. sd_record_count s > 0" "(!)"
  "\<lambda>xs. find_segment_for_lsn (m\<lparr>dm_segments_v2 := xs\<rparr>)" for m
  by unfold_locales (simp add: find_segment_for_lsn_def Let_def)

text \<open>
  What the lookups promise is stated over the records a descriptor stands for: the LSNs of a segment
  lie in \<open>[first_lsn, last_lsn]\<close>.
\<close>

definition covers :: "segment_descriptor \<Rightarrow> lsn \<Rightarrow> bool" where
  "covers s k = (sd_record_count s > 0 \<and> sd_first_lsn s \<le> k \<and> k \<le> sd_last_lsn s)"

definition segments_disjoint :: "database_manifest \<Rightarrow> bool" where
  "segments_disjoint m = disjoint_ranges sd_first_lsn sd_last_lsn (\<lambda>s. sd_record_count s > 0) (dm_segments_v2 m)"

section \<open>Properties\<close>

text \<open>C39. The first level of a point lookup: when the catalogued segments are non-empty and follow one
  another in LSN order, the binary search returns a segment exactly when that segment is catalogued
  and its LSN range holds the target; in particular it answers \<open>None\<close> only for an LSN that no segment
  holds.\<close>

theorem find_segment_for_lsn_correct:
  assumes "segments_disjoint m"
  shows "find_segment_for_lsn m k = Some s \<longleftrightarrow> s \<in> set (dm_segments_v2 m) \<and> covers s k"
proof -
  have "find_segment_for_lsn (m\<lparr>dm_segments_v2 := dm_segments_v2 m\<rparr>) k = Some s \<longleftrightarrow>
      (\<exists>i < length (dm_segments_v2 m). s = dm_segments_v2 m ! i
        \<and> sd_first_lsn (dm_segments_v2 m ! i) \<le> k \<and> k \<le> sd_last_lsn (dm_segments_v2 m ! i))"
    using assms unfolding segments_disjoint_def by (rule manifest_index.find_Some_iff)
  then show ?thesis
    using assms by (auto simp: covers_def segments_disjoint_def disjoint_ranges_def in_set_conv_nth)
qed

definition example_segment :: "u64 \<Rightarrow> u64 \<Rightarrow> u64 \<Rightarrow> segment_descriptor" where
  "example_segment sid lo hi = \<lparr>sd_segment_id = sid, sd_first_lsn = lo, sd_last_lsn = hi,
     sd_record_count = hi - lo + 1, sd_canonical_codec = 1, sd_logical_root = replicate 32 7,
     sd_min_hlc = lo, sd_max_hlc = hi, sd_active_generation = 0,
     sd_generations = [\<lparr>pg_generation = 0, pg_layout = Layout_Raw, pg_compression = Codec_Raw,
       pg_location = [0x61], pg_physical_size = 100, pg_physical_digest = replicate 32 9,
       pg_state = Active, pg_created_hlc = 5, pg_verified_hlc = 5, pg_superseded_hlc = 0,
       pg_verified_copies = 1\<rparr>],
     sd_hrki = None, sd_parquet = None, sd_retention = default_retention\<rparr>"

definition example_manifest :: database_manifest where
  "example_manifest = \<lparr>dm_manifest_version = 1, dm_format_identifier = [0x48, 0x52, 0x4B, 0x4D],
     dm_cumulative_watermark = 20, dm_statistics_root_hash = replicate 32 0,
     dm_storage_namespace_id = replicate 16 3, dm_manifest_generation = 4,
     dm_segments_v2 = [example_segment 1 1 10, example_segment 2 11 20], dm_exported_through_lsn = 0\<rparr>"

lemma example_disjoint: "segments_disjoint example_manifest"
  by (auto simp: segments_disjoint_def disjoint_ranges_def example_manifest_def example_segment_def
      nth_Cons split: nat.splits)

lemma find_segment_for_lsn_correct_witness:
  "find_segment_for_lsn example_manifest 15 = Some (example_segment 2 11 20)
    \<and> find_segment_for_lsn example_manifest 21 \<noteq> Some (example_segment 2 11 20)"
  using find_segment_for_lsn_correct [OF example_disjoint, of 15 "example_segment 2 11 20"]
    find_segment_for_lsn_correct [OF example_disjoint, of 21 "example_segment 2 11 20"]
  by (simp add: covers_def example_manifest_def example_segment_def)

text \<open>C14. \<open>upsert_segment\<close> is a map update: afterwards the identity it was given resolves to the new
  descriptor and every other identity to what it resolved to before; and it keeps the manifest
  ordered by \<open>first_lsn\<close> with unique identities, provided a replaced descriptor starts at the same
  LSN.\<close>

theorem upsert_segment_correct:
  "segment (upsert_segment d m) k = (if k = sd_segment_id d then Some d else segment m k)
    \<and> (catalog_ordered m
      \<and> (case segment m (sd_segment_id d) of None \<Rightarrow> True | Some s \<Rightarrow> sd_first_lsn s = sd_first_lsn d)
      \<longrightarrow> catalog_ordered (upsert_segment d m))"
  using catalog_ordered_upsert [of m d] by (auto simp: segment_upsert split: option.splits)

lemma upsert_segment_correct_witness:
  "catalog_ordered (upsert_segment (example_segment 3 5 9) example_manifest)"
  using upsert_segment_correct [of "example_segment 3 5 9" example_manifest 3]
  by (simp add: catalog_ordered_def segment_def example_manifest_def example_segment_def)

text \<open>C32. Pruning is conservative: a segment that holds an LSN of \<open>[lo, hi]\<close> survives
  \<open>segments_for_lsn_range\<close>, a segment with a record whose clock lies in the range survives
  \<open>segments_for_hlc_range\<close>, and a record written at or before the snapshot is in a visible segment.\<close>

theorem pruning_is_conservative:
  assumes "s \<in> set (dm_segments_v2 m)" and "sd_first_lsn s \<le> k" and "k \<le> sd_last_lsn s"
    and "sd_min_hlc s \<le> h" and "h \<le> sd_max_hlc s"
  shows "(lo \<le> k \<and> k \<le> hi \<longrightarrow> s \<in> set (segments_for_lsn_range m lo hi))
    \<and> (lo \<le> h \<and> h \<le> hi \<longrightarrow> s \<in> set (segments_for_hlc_range m lo hi))
    \<and> (k \<le> t \<longrightarrow> s \<in> set (visible_segments_v2 m t))"
  using assms
  by (auto simp: segments_for_lsn_range_def segments_for_hlc_range_def visible_segments_v2_def
      may_contain_lsn_range_def may_contain_hlc_range_def visible_at_def)

lemma pruning_is_conservative_witness:
  "example_segment 2 11 20 \<in> set (segments_for_lsn_range example_manifest 14 17)
    \<and> example_segment 2 11 20 \<in> set (visible_segments_v2 example_manifest 15)"
  using pruning_is_conservative [of "example_segment 2 11 20" example_manifest 15 15 14 17 15]
  by (simp add: example_manifest_def example_segment_def)

text \<open>Reservations: a budget that starts within its cap stays within it, and releasing what was
  reserved gives the budget back.\<close>

lemma try_reserve_within:
  assumes "mb_used_bytes b \<le> mb_allowed_bytes b"
  shows "mb_used_bytes (snd (try_reserve b n)) \<le> mb_allowed_bytes (snd (try_reserve b n))"
  using assms by (simp add: try_reserve_def split: option.splits)

lemma release_try_reserve:
  assumes "fst (try_reserve b n) = Inr ()"
  shows "release (snd (try_reserve b n)) n = b"
proof -
  obtain t where "checked_add (mb_used_bytes b) n = Some t" "snd (try_reserve b n) = b\<lparr>mb_used_bytes := t\<rparr>"
    using assms by (auto simp: try_reserve_def split: option.splits if_splits)
  then have "unat t = unat (mb_used_bytes b) + unat n" by (simp add: checked_add_Some)
  then have "n \<le> t" and "unat (t - n) = unat (mb_used_bytes b)"
    by (simp_all add: word_le_nat_alt unat_sub_u64)
  then show ?thesis
    using \<open>snd (try_reserve b n) = _\<close> by (simp add: release_def saturating_sub_def word_unat_eq_iff)
qed

end
