(* ===== verification/V6_Header.thy ===== *)
theory V6_Header
  imports Crc32c Catalog
begin

text \<open>
  \<open>heraclitus-log/src/v6/header.rs\<close>: the 64-byte file header. The encoder writes the fields in
  order and closes them with a CRC-32C of the first 60 bytes; the decoder checks frame, version and
  CRC before it interprets any variable field.
\<close>

definition HRKL_MAGIC :: bytes where
  "HRKL_MAGIC = [0x48, 0x52, 0x4B, 0x4C]"

definition FORMAT_VERSION_V6 :: u16 where
  "FORMAT_VERSION_V6 = 6"

definition FILE_HEADER_LEN :: nat where
  "FILE_HEADER_LEN = 64"

definition FLAG_CONTIGUOUS_LSN :: u16 where
  "FLAG_CONTIGUOUS_LSN = 1"

record file_header =
  fh_physical_layout :: physical_layout
  fh_canonical_codec :: u8
  fh_flags :: u16
  fh_segment_id :: segment_id
  fh_created_hlc :: u64
  fh_first_lsn :: lsn
  fh_writer_epoch :: u64
  fh_storage_namespace_id :: bytes

definition header_prefix :: "file_header \<Rightarrow> bytes" where
  "header_prefix h = HRKL_MAGIC @ to_le_bytes FORMAT_VERSION_V6 @ to_le_bytes (64 :: u16)
     @ [physical_layout_u8 (fh_physical_layout h)] @ [fh_canonical_codec h] @ to_le_bytes (fh_flags h)
     @ to_le_bytes (fh_segment_id h) @ to_le_bytes (fh_created_hlc h) @ to_le_bytes (fh_first_lsn h)
     @ to_le_bytes (fh_writer_epoch h) @ fh_storage_namespace_id h"

definition header_encode :: "file_header \<Rightarrow> bytes" where
  "header_encode h = header_prefix h @ to_le_bytes (crc32c (header_prefix h))"

definition header_decode :: "bytes \<Rightarrow> file_header v6_result" where
  "header_decode buf = (let CTX = ''hrkl v6 file header'' in
     if length buf < FILE_HEADER_LEN then Inl (corrupt CTX ''short header'')
     else if field 0 4 buf \<noteq> HRKL_MAGIC then Inl (corrupt CTX ''bad magic'')
     else if (from_le_bytes (field 4 2 buf) :: u16) \<noteq> FORMAT_VERSION_V6
       then Inl (corrupt CTX ''format_version is not v6'')
     else if unat (from_le_bytes (field 6 2 buf) :: u16) \<noteq> FILE_HEADER_LEN
       then Inl (corrupt CTX ''header_len != 64'')
     else if (from_le_bytes (field 60 4 buf) :: u32) \<noteq> crc32c (take 60 buf)
       then Inl (corrupt CTX ''crc32c mismatch'')
     else bindE (physical_layout_from_u8 (buf ! 8)) (\<lambda>layout. Inr
       \<lparr>fh_physical_layout = layout, fh_canonical_codec = buf ! 9,
        fh_flags = from_le_bytes (field 10 2 buf), fh_segment_id = from_le_bytes (field 12 8 buf),
        fh_created_hlc = from_le_bytes (field 20 8 buf), fh_first_lsn = from_le_bytes (field 28 8 buf),
        fh_writer_epoch = from_le_bytes (field 36 8 buf),
        fh_storage_namespace_id = field 44 16 buf\<rparr>))"

definition looks_like_v6 :: "bytes \<Rightarrow> bool" where
  "looks_like_v6 buf = (6 \<le> length buf \<and> field 0 4 buf = HRKL_MAGIC
     \<and> (from_le_bytes [buf ! 4, buf ! 5] :: u16) = FORMAT_VERSION_V6)"

definition declares_contiguous_lsn :: "file_header \<Rightarrow> bool" where
  "declares_contiguous_lsn h = (fh_flags h AND FLAG_CONTIGUOUS_LSN \<noteq> 0)"

text \<open>\<open>StorageNamespaceId\<close> is a \<open>[u8; 16]\<close>.\<close>

definition header_ok :: "file_header \<Rightarrow> bool" where
  "header_ok h = (length (fh_storage_namespace_id h) = 16)"

lemma length_header_prefix [layout_simps]: "header_ok h \<Longrightarrow> length (header_prefix h) = 60"
  by (simp add: header_prefix_def header_ok_def HRKL_MAGIC_def)

lemma length_header_encode [layout_simps]: "header_ok h \<Longrightarrow> length (header_encode h) = 64"
  by (simp add: header_encode_def length_header_prefix)

lemma nth_field: "i < length buf \<Longrightarrow> buf ! i = hd (field i 1 buf)"
  by (simp add: field_def take_Suc hd_drop_conv_nth)

text \<open>The fields of an encoded header, followed by anything.\<close>

lemma header_fields:
  assumes "header_ok h"
  shows "field 0 4 (header_prefix h @ r) = HRKL_MAGIC"
    "field 4 2 (header_prefix h @ r) = to_le_bytes FORMAT_VERSION_V6"
    "field 6 2 (header_prefix h @ r) = to_le_bytes (64 :: u16)"
    "field 8 1 (header_prefix h @ r) = [physical_layout_u8 (fh_physical_layout h)]"
    "field 9 1 (header_prefix h @ r) = [fh_canonical_codec h]"
    "field 10 2 (header_prefix h @ r) = to_le_bytes (fh_flags h)"
    "field 12 8 (header_prefix h @ r) = to_le_bytes (fh_segment_id h)"
    "field 20 8 (header_prefix h @ r) = to_le_bytes (fh_created_hlc h)"
    "field 28 8 (header_prefix h @ r) = to_le_bytes (fh_first_lsn h)"
    "field 36 8 (header_prefix h @ r) = to_le_bytes (fh_writer_epoch h)"
    "field 44 16 (header_prefix h @ r) = fh_storage_namespace_id h"
  using assms by (simp_all add: header_prefix_def header_ok_def HRKL_MAGIC_def layout_simps
      del: append_Cons)

lemma header_decode_encode:
  assumes "header_ok h"
  shows "header_decode (header_encode h @ rest) = Inr h"
proof -
  let ?buf = "header_prefix h @ to_le_bytes (crc32c (header_prefix h)) @ rest"
  have len: "length (header_prefix h) = 60" using assms by (rule length_header_prefix)
  have crc: "field 60 4 ?buf = to_le_bytes (crc32c (header_prefix h))" "take 60 ?buf = header_prefix h"
    using len by (simp_all add: field_skip field_here)
  have "?buf ! 8 = physical_layout_u8 (fh_physical_layout h)" "?buf ! 9 = fh_canonical_codec h"
    using len header_fields(4,5) [OF assms] by (simp_all add: nth_field)
  then show ?thesis
    using len by (simp add: header_decode_def header_encode_def FILE_HEADER_LEN_def
        header_fields [OF assms] crc FORMAT_VERSION_V6_def)
qed

text \<open>Any buffer the decoder accepts has the CRC of its first 60 bytes at offset 60.\<close>

lemma header_decode_crc:
  assumes "header_decode buf = Inr h"
  shows "64 \<le> length buf \<and> field 60 4 buf = to_le_bytes (crc32c (take 60 buf))"
proof -
  have len: "64 \<le> length buf"
    and "(from_le_bytes (field 60 4 buf) :: u32) = crc32c (take 60 buf)"
    using assms by (auto simp: header_decode_def Let_def FILE_HEADER_LEN_def split: if_splits)
  moreover have "length (field 60 4 buf) = 4" using len by (simp add: field_def)
  ultimately show ?thesis by (metis to_from_le_u32)
qed

section \<open>Properties\<close>

text \<open>Reading back a file header: for every header the encoder is exactly 64 bytes, the decoder
  returns that header whatever follows it in the file, and the v6 dispatcher recognises it.\<close>

theorem header_roundtrip:
  assumes "header_ok h"
  shows "length (header_encode h) = FILE_HEADER_LEN \<and> header_decode (header_encode h @ rest) = Inr h
    \<and> looks_like_v6 (header_encode h @ rest)"
proof -
  have "looks_like_v6 (header_encode h @ rest)"
  proof -
    let ?r = "to_le_bytes (crc32c (header_prefix h)) @ rest"
    have "field 4 2 (header_prefix h @ ?r) = [(header_prefix h @ ?r) ! 4, (header_prefix h @ ?r) ! 5]"
      using length_header_prefix [OF assms]
      by (intro nth_equalityI) (auto simp: field_def nth_append less_Suc_eq numeral_2_eq_2)
    then have "(from_le_bytes [(header_prefix h @ ?r) ! 4, (header_prefix h @ ?r) ! 5] :: u16)
        = FORMAT_VERSION_V6"
      using header_fields(2) [OF assms, of ?r] le_bytes_inverses(2) by metis
    then show ?thesis
      using length_header_prefix [OF assms] header_fields(1) [OF assms, of ?r]
      by (simp add: looks_like_v6_def header_encode_def)
  qed
  then show ?thesis
    using header_decode_encode [OF assms] length_header_encode [OF assms]
    by (simp add: FILE_HEADER_LEN_def)
qed

definition example_header :: file_header where
  "example_header = \<lparr>fh_physical_layout = Layout_Packed, fh_canonical_codec = 1, fh_flags = 1,
     fh_segment_id = 7, fh_created_hlc = 123456, fh_first_lsn = 1000, fh_writer_epoch = 3,
     fh_storage_namespace_id = replicate 16 0xAB\<rparr>"

lemma header_roundtrip_witness:
  "header_decode (header_encode example_header @ [1, 2, 3]) = Inr example_header"
  using header_roundtrip [of example_header "[1, 2, 3]"] by (simp add: header_ok_def example_header_def)

text \<open>C10. Damage to a header is noticed: change up to four consecutive bytes of the 60 protected bytes of
  a written header, or any bytes of the stored checksum itself, and \<open>decode\<close> returns an error.\<close>

theorem header_damage_rejected:
  assumes "header_ok h" and "header_encode h = pre @ xs @ post"
    and "length ys = length xs" and "length xs \<le> 4" and "xs \<noteq> ys"
    and "length pre + length xs \<le> 60 \<or> 60 \<le> length pre"
  shows "\<not> (\<exists>h'. header_decode (pre @ ys @ post) = Inr h')"
proof
  assume "\<exists>h'. header_decode (pre @ ys @ post) = Inr h'"
  then have bad: "field 60 4 (pre @ ys @ post) = to_le_bytes (crc32c (take 60 (pre @ ys @ post)))"
    using header_decode_crc by blast
  have len: "length (pre @ xs @ post) = 64" using assms(1,2) length_header_encode by metis
  have good: "field 60 4 (pre @ xs @ post) = to_le_bytes (crc32c (take 60 (pre @ xs @ post)))"
    using header_decode_crc header_decode_encode [OF assms(1), of "[]"] assms(2) by simp
  show False
    using assms(6)
  proof
    assume inside: "length pre + length xs \<le> 60"
    then have "field 60 4 (pre @ ys @ post) = field 60 4 (pre @ xs @ post)"
      using assms(3) by (simp add: field_def)
    with good bad have "crc32c (take 60 (pre @ ys @ post)) = crc32c (take 60 (pre @ xs @ post))"
      by (simp add: to_le_bytes_inj)
    moreover have "take 60 (pre @ zs @ post) = pre @ zs @ take (60 - length pre - length xs) post"
      if "length zs = length xs" for zs using that inside by simp
    ultimately show False using crc32c_burst [of xs ys pre] assms(3-5) by metis
  next
    assume "60 \<le> length pre"
    then have "take 60 (pre @ ys @ post) = take 60 (pre @ xs @ post)" by simp
    with good bad have "field 60 4 (pre @ ys @ post) = field 60 4 (pre @ xs @ post)" by simp
    then have "drop 60 (pre @ ys @ post) = drop 60 (pre @ xs @ post)"
      using len assms(3) by (simp add: field_def)
    then show False using \<open>60 \<le> length pre\<close> assms(3,5) by simp
  qed
qed

lemma header_damage_rejected_witness:
  "\<not> (\<exists>h'. header_decode (take 9 (header_encode example_header) @ [header_encode example_header ! 9 + 1]
    @ drop 10 (header_encode example_header)) = Inr h')"
proof -
  have ok: "header_ok example_header" by (simp add: header_ok_def example_header_def)
  show ?thesis
    using length_header_encode [OF ok] id_take_nth_drop [of 9 "header_encode example_header"]
    by (intro header_damage_rejected [OF ok, of _ "[header_encode example_header ! 9]"]) simp_all
qed

end
