(* ===== verification/V6_Footer.thy ===== *)
theory V6_Footer
  imports V6_Header
begin

text \<open>
  \<open>heraclitus-log/src/v6/footer.rs\<close>: the 128-byte footer whose presence seals a segment. Its CRC
  covers all 128 bytes with the CRC field itself zeroed, and a footer that passes the CRC still has to
  be coherent.
\<close>

definition FOOTER_MAGIC :: bytes where
  "FOOTER_MAGIC = [0x48, 0x46, 0x54, 0x52]"

definition FOOTER_VERSION_V6 :: u16 where
  "FOOTER_VERSION_V6 = 1"

definition FOOTER_LEN :: nat where
  "FOOTER_LEN = 128"

definition CRC_OFFSET :: nat where
  "CRC_OFFSET = 104"

definition FOOTER_FLAG_CONTIGUOUS_LSN :: u32 where
  "FOOTER_FLAG_CONTIGUOUS_LSN = 1"

definition FOOTER_FLAG_HAS_NON_MONOTONIC_HLC :: u32 where
  "FOOTER_FLAG_HAS_NON_MONOTONIC_HLC = 2"

text \<open>\<open>block_directory.rs\<close> fixes the size of a directory entry.\<close>

definition DIR_ENTRY_LEN :: nat where
  "DIR_ENTRY_LEN = 56"

record footer =
  ft_record_count :: u64
  ft_min_lsn :: lsn
  ft_max_lsn :: lsn
  ft_min_hlc :: u64
  ft_max_hlc :: u64
  ft_block_count :: u32
  ft_flags :: u32
  ft_block_directory_offset :: u64
  ft_block_directory_len :: u64
  ft_logical_root :: bytes

definition footer_prefix :: "footer \<Rightarrow> bytes" where
  "footer_prefix f = FOOTER_MAGIC @ to_le_bytes FOOTER_VERSION_V6 @ to_le_bytes (128 :: u16)
     @ to_le_bytes (ft_record_count f) @ to_le_bytes (ft_min_lsn f) @ to_le_bytes (ft_max_lsn f)
     @ to_le_bytes (ft_min_hlc f) @ to_le_bytes (ft_max_hlc f) @ to_le_bytes (ft_block_count f)
     @ to_le_bytes (ft_flags f) @ to_le_bytes (ft_block_directory_offset f)
     @ to_le_bytes (ft_block_directory_len f) @ ft_logical_root f"

definition footer_encode :: "footer \<Rightarrow> bytes" where
  "footer_encode f = (let b = footer_prefix f @ replicate 24 0; crc = crc32c b
     in overwrite CRC_OFFSET (to_le_bytes crc) b)"

definition footer_check_coherence :: "footer \<Rightarrow> unit v6_result" where
  "footer_check_coherence f = (let CTX = ''hrkl v6 footer'' in
     if ft_record_count f > 0 \<and> ft_min_lsn f > ft_max_lsn f then Inl (corrupt CTX ''min_lsn > max_lsn'')
     else if ft_record_count f > 0 \<and> ft_min_hlc f > ft_max_hlc f then Inl (corrupt CTX ''min_hlc > max_hlc'')
     else if ft_record_count f > 0 \<and> saturating_add (ft_max_lsn f - ft_min_lsn f) 1 < ft_record_count f
       then Inl (corrupt CTX ''record_count exceeds LSN span'')
     else if HARD_MAX_BLOCKS < unat (ft_block_count f) then Inl (corrupt CTX ''block_count above hard maximum'')
     else if ft_block_directory_len f \<noteq> ucast (ft_block_count f) * word_of_nat DIR_ENTRY_LEN
       then Inl (corrupt CTX ''block_directory_len != block_count * 56'')
     else Inr ())"

definition footer_decode :: "bytes \<Rightarrow> footer v6_result" where
  "footer_decode whole = (let CTX = ''hrkl v6 footer'' in
     if length whole < FOOTER_LEN then Inl (corrupt CTX ''short footer'')
     else (let buf = take FOOTER_LEN whole in
     if field 0 4 buf \<noteq> FOOTER_MAGIC then Inl (corrupt CTX ''bad magic'')
     else if (from_le_bytes (field 4 2 buf) :: u16) \<noteq> FOOTER_VERSION_V6
       then Inl (corrupt CTX ''footer_version unsupported'')
     else if unat (from_le_bytes (field 6 2 buf) :: u16) \<noteq> FOOTER_LEN
       then Inl (corrupt CTX ''footer_len != 128'')
     else if (from_le_bytes (field CRC_OFFSET 4 buf) :: u32) \<noteq> crc32c (overwrite CRC_OFFSET (replicate 4 0) buf)
       then Inl (corrupt CTX ''crc32c mismatch'')
     else (let f = \<lparr>ft_record_count = from_le_bytes (field 8 8 buf), ft_min_lsn = from_le_bytes (field 16 8 buf),
        ft_max_lsn = from_le_bytes (field 24 8 buf), ft_min_hlc = from_le_bytes (field 32 8 buf),
        ft_max_hlc = from_le_bytes (field 40 8 buf), ft_block_count = from_le_bytes (field 48 4 buf),
        ft_flags = from_le_bytes (field 52 4 buf),
        ft_block_directory_offset = from_le_bytes (field 56 8 buf),
        ft_block_directory_len = from_le_bytes (field 64 8 buf), ft_logical_root = field 72 32 buf\<rparr>
      in bindE (footer_check_coherence f) (\<lambda>_. Inr f))))"

definition is_contiguous_lsn :: "footer \<Rightarrow> bool" where
  "is_contiguous_lsn f = (ft_flags f AND FOOTER_FLAG_CONTIGUOUS_LSN \<noteq> 0)"

definition lsn_span_is_contiguous :: "footer \<Rightarrow> bool" where
  "lsn_span_is_contiguous f = (ft_record_count f > 0 \<and> ft_max_lsn f - ft_min_lsn f + 1 = ft_record_count f)"

section \<open>Lemmas\<close>

definition footer_ok :: "footer \<Rightarrow> bool" where
  "footer_ok f = (length (ft_logical_root f) = 32)"

lemma length_footer_prefix [layout_simps]: "footer_ok f \<Longrightarrow> length (footer_prefix f) = 104"
  by (simp add: footer_prefix_def footer_ok_def FOOTER_MAGIC_def)

text \<open>The encoded footer is the fields, the CRC over the zeroed image, and twenty zeros.\<close>

lemma footer_encode_eq:
  assumes "footer_ok f"
  shows "footer_encode f = footer_prefix f @ to_le_bytes (crc32c (footer_prefix f @ replicate 24 0)) @ replicate 20 0"
proof -
  have "replicate 24 (0 :: u8) = replicate 4 0 @ replicate 20 0" by (simp add: numeral_eq_Suc)
  then show ?thesis
    using length_footer_prefix [OF assms]
    by (simp add: footer_encode_def Let_def overwrite_skip [of _ _ 0] CRC_OFFSET_def overwrite_here)
qed

lemma length_footer_encode [layout_simps]: "footer_ok f \<Longrightarrow> length (footer_encode f) = 128"
  by (simp add: footer_encode_eq length_footer_prefix)

lemma footer_fields:
  assumes "footer_ok f"
  shows "field 0 4 (footer_prefix f @ r) = FOOTER_MAGIC"
    "field 4 2 (footer_prefix f @ r) = to_le_bytes FOOTER_VERSION_V6"
    "field 6 2 (footer_prefix f @ r) = to_le_bytes (128 :: u16)"
    "field 8 8 (footer_prefix f @ r) = to_le_bytes (ft_record_count f)"
    "field 16 8 (footer_prefix f @ r) = to_le_bytes (ft_min_lsn f)"
    "field 24 8 (footer_prefix f @ r) = to_le_bytes (ft_max_lsn f)"
    "field 32 8 (footer_prefix f @ r) = to_le_bytes (ft_min_hlc f)"
    "field 40 8 (footer_prefix f @ r) = to_le_bytes (ft_max_hlc f)"
    "field 48 4 (footer_prefix f @ r) = to_le_bytes (ft_block_count f)"
    "field 52 4 (footer_prefix f @ r) = to_le_bytes (ft_flags f)"
    "field 56 8 (footer_prefix f @ r) = to_le_bytes (ft_block_directory_offset f)"
    "field 64 8 (footer_prefix f @ r) = to_le_bytes (ft_block_directory_len f)"
    "field 72 32 (footer_prefix f @ r) = ft_logical_root f"
  using assms by (simp_all add: footer_prefix_def footer_ok_def FOOTER_MAGIC_def layout_simps
      del: append_Cons)

lemma footer_decode_encode:
  assumes "footer_ok f" and "footer_check_coherence f = Inr ()"
  shows "footer_decode (footer_encode f @ rest) = Inr f"
proof -
  let ?crc = "crc32c (footer_prefix f @ replicate 24 0)"
  let ?buf = "footer_prefix f @ to_le_bytes ?crc @ replicate 20 0"
  have len: "length (footer_prefix f) = 104" using assms(1) by (rule length_footer_prefix)
  have enc: "footer_encode f = ?buf" using assms(1) by (rule footer_encode_eq)
  have buf: "take 128 (footer_encode f @ rest) = ?buf" using len enc by simp
  have crc: "field 104 4 ?buf = to_le_bytes ?crc" using len by (simp add: field_skip field_here)
  have "replicate 24 (0 :: u8) = replicate 4 0 @ replicate 20 0" by (simp add: numeral_eq_Suc)
  then have zeroed: "overwrite 104 (replicate 4 0) ?buf = footer_prefix f @ replicate 24 0"
    using len by (simp add: overwrite_skip [of _ _ 0] overwrite_here)
  show ?thesis
    using len assms(2)
    by (simp add: footer_decode_def FOOTER_LEN_def CRC_OFFSET_def buf crc zeroed footer_fields [OF assms(1)]
        FOOTER_VERSION_V6_def enc) (cases f; simp add: Let_def)
qed

lemma footer_decode_crc:
  assumes "footer_decode buf = Inr f"
  shows "128 \<le> length buf
    \<and> field 104 4 (take 128 buf) = to_le_bytes (crc32c (overwrite 104 (replicate 4 0) (take 128 buf)))"
proof -
  have len: "128 \<le> length buf"
    and "(from_le_bytes (field 104 4 (take 128 buf)) :: u32) = crc32c (overwrite 104 (replicate 4 0) (take 128 buf))"
    using assms by (auto simp: footer_decode_def Let_def FOOTER_LEN_def CRC_OFFSET_def split: if_splits)
  moreover have "length (field 104 4 (take 128 buf)) = 4" using len by (simp add: field_def)
  ultimately show ?thesis by (metis to_from_le_u32)
qed

text \<open>The arithmetic content of the coherence check, without the wrap-around of \<open>u64\<close>.\<close>

lemma footer_coherent_iff:
  "footer_check_coherence f = Inr () \<longleftrightarrow>
     (ft_record_count f > 0 \<longrightarrow> ft_min_lsn f \<le> ft_max_lsn f \<and> ft_min_hlc f \<le> ft_max_hlc f
        \<and> unat (ft_record_count f) \<le> unat (ft_max_lsn f) - unat (ft_min_lsn f) + 1)
     \<and> unat (ft_block_count f) \<le> 2 ^ 24
     \<and> unat (ft_block_directory_len f) = unat (ft_block_count f) * 56"
proof -
  have "unat (ucast (ft_block_count f) * 56 :: u64) = unat (ft_block_count f) * 56"
    using unat_lt_u32 [of "ft_block_count f"]
    by (simp add: unat_mult_lem [THEN iffD1] unsigned_ucast_eq take_bit_nat_eq_self)
  then have dir: "ft_block_directory_len f = ucast (ft_block_count f) * word_of_nat DIR_ENTRY_LEN
      \<longleftrightarrow> unat (ft_block_directory_len f) = unat (ft_block_count f) * 56"
    by (simp add: word_unat_eq_iff DIR_ENTRY_LEN_def)
  have span: "saturating_add (ft_max_lsn f - ft_min_lsn f) 1 < ft_record_count f
      \<longleftrightarrow> \<not> unat (ft_record_count f) \<le> unat (ft_max_lsn f) - unat (ft_min_lsn f) + 1"
    if "ft_min_lsn f \<le> ft_max_lsn f"
    using that unat_lt_u64 [of "ft_record_count f"]
    by (auto simp: word_less_nat_alt unat_saturating_add unat_sub_u64)
  show ?thesis
    unfolding footer_check_coherence_def Let_def dir
    using span by (cases "ft_record_count f > 0"; cases "ft_min_lsn f \<le> ft_max_lsn f")
      (auto simp: HARD_MAX_BLOCKS_def not_less not_le)
qed

lemma footer_decode_coherent: "footer_decode buf = Inr f \<Longrightarrow> footer_check_coherence f = Inr ()"
  by (auto simp: footer_decode_def Let_def bindE_eq_Inr split: if_splits)

section \<open>Properties\<close>

text \<open>A sealed footer reads back: every coherent footer encodes to exactly 128 bytes and the decoder
  returns it; and a decoded footer is coherent, its LSN span (computed without wrap-around) has room
  for the declared number of records, and its directory length matches its block count.\<close>

theorem footer_roundtrip_coherent:
  "(footer_ok f \<and> footer_check_coherence f = Inr () \<longrightarrow>
      length (footer_encode f) = FOOTER_LEN \<and> footer_decode (footer_encode f @ rest) = Inr f)
    \<and> (footer_decode buf = Inr g \<and> ft_record_count g > 0 \<longrightarrow> ft_min_lsn g \<le> ft_max_lsn g
      \<and> ft_min_hlc g \<le> ft_max_hlc g \<and> unat (ft_record_count g) \<le> unat (ft_max_lsn g) - unat (ft_min_lsn g) + 1
      \<and> unat (ft_block_directory_len g) = DIR_ENTRY_LEN * unat (ft_block_count g))"
  using footer_decode_encode [of f rest] footer_decode_coherent [of buf g] footer_coherent_iff [of g]
  by (auto simp: length_footer_encode FOOTER_LEN_def DIR_ENTRY_LEN_def)

definition example_footer :: footer where
  "example_footer = \<lparr>ft_record_count = 3, ft_min_lsn = 10, ft_max_lsn = 15, ft_min_hlc = 1, ft_max_hlc = 9,
     ft_block_count = 2, ft_flags = 0, ft_block_directory_offset = 640, ft_block_directory_len = 112,
     ft_logical_root = replicate 32 5\<rparr>"

lemma example_footer_ok: "footer_ok example_footer" "footer_check_coherence example_footer = Inr ()"
  by (simp_all add: footer_ok_def example_footer_def footer_coherent_iff)

lemma footer_roundtrip_coherent_witness:
  "footer_decode (footer_encode example_footer @ []) = Inr example_footer"
  using footer_roundtrip_coherent [of example_footer "[]" "[]" example_footer] example_footer_ok by blast

text \<open>C8. No part of a footer is an unprotected channel: change up to four consecutive bytes of a
  written footer anywhere outside its checksum field, its twenty reserved bytes included, or any bytes
  inside the checksum field, and \<open>decode\<close> returns an error.\<close>

theorem footer_damage_rejected:
  assumes "footer_ok f" and "footer_check_coherence f = Inr ()" and "footer_encode f = pre @ xs @ post"
    and "length ys = length xs" and "length xs \<le> 4" and "xs \<noteq> ys"
    and "length pre + length xs \<le> 104 \<or> 108 \<le> length pre \<or> 104 \<le> length pre \<and> length pre + length xs \<le> 108"
  shows "\<not> (\<exists>f'. footer_decode (pre @ ys @ post) = Inr f')"
proof
  let ?z = "overwrite 104 (replicate 4 0)"
  have len: "length (pre @ xs @ post) = 128" using assms(1,3) length_footer_encode by metis
  have good: "field 104 4 (pre @ xs @ post) = to_le_bytes (crc32c (?z (pre @ xs @ post)))"
    using footer_decode_crc [OF footer_decode_encode [OF assms(1,2), of "[]"]] assms(3) len by simp
  assume "\<exists>f'. footer_decode (pre @ ys @ post) = Inr f'"
  then have bad: "field 104 4 (pre @ ys @ post) = to_le_bytes (crc32c (?z (pre @ ys @ post)))"
    using footer_decode_crc len assms(4) by fastforce
  have outside: False if "field 104 4 (pre @ ys @ post) = field 104 4 (pre @ xs @ post)"
    and "\<And>zs. length zs = length xs \<Longrightarrow> ?z (pre @ zs @ post) = p @ zs @ q" for p q
  proof -
    have "crc32c (p @ ys @ q) = crc32c (p @ xs @ q)"
      using good bad that assms(4) by (simp add: to_le_bytes_inj)
    then show False using crc32c_burst [of xs ys p q] assms(4-6) by simp
  qed
  show False
    using assms(7)
  proof (elim disjE)
    assume before: "length pre + length xs \<le> 104"
    let ?k = "104 - length pre - length xs"
    show False
      by (rule outside [of pre "overwrite ?k (replicate 4 0) post"])
         (use before assms(4) in \<open>auto simp: field_def overwrite_skip [of _ _ "104 - length pre"]
            overwrite_skip [of _ _ ?k]\<close>)
  next
    assume after: "108 \<le> length pre"
    show False
      by (rule outside [of "?z pre" post])
         (use after assms(4) in \<open>auto simp: field_def overwrite_def\<close>)
  next
    assume inside: "104 \<le> length pre \<and> length pre + length xs \<le> 108"
    have "?z (pre @ zs @ post) = take 104 pre @ replicate 4 0 @ drop 108 (pre @ xs @ post)"
      if "length zs = length xs" for zs
    proof -
      have "length xs \<le> 108 - length pre" using inside by linarith
      then show ?thesis using that inside by (simp add: overwrite_def)
    qed
    then have "field 104 4 (pre @ ys @ post) = field 104 4 (pre @ xs @ post)"
      using good bad assms(4) by simp
    moreover have "length xs \<le> 108 - length pre" using inside by linarith
    ultimately show False
      using inside assms(4,6) by (simp add: field_def append_eq_append_conv)
  qed
qed

lemma footer_damage_rejected_witness:
  "\<not> (\<exists>f'. footer_decode (take 120 (footer_encode example_footer) @ [footer_encode example_footer ! 120 + 1]
    @ drop 121 (footer_encode example_footer)) = Inr f')"
  using length_footer_encode [OF example_footer_ok(1)] id_take_nth_drop [of 120 "footer_encode example_footer"]
  by (intro footer_damage_rejected [OF example_footer_ok, of _ "[footer_encode example_footer ! 120]"]) simp_all

end
