(* ===== verification/V6_Directory.thy ===== *)
theory V6_Directory
  imports V6_Footer
begin

text \<open>
  \<open>heraclitus-log/src/v6/block_directory.rs\<close>: the index of blocks inside a PACKED segment. Entries are
  56-byte little-endian records; the decoder validates every entry against the region of blocks, and
  the lookup is a binary search on \<open>last_lsn\<close>.
\<close>

record block_directory_entry =
  bd_offset :: u64
  bd_stored_len :: u32
  bd_uncompressed_len :: u32
  bd_record_count :: u32
  bd_flags :: u32
  bd_first_lsn :: lsn
  bd_last_lsn :: lsn
  bd_min_hlc :: u64
  bd_max_hlc :: u64

definition dir_entry_encode :: "block_directory_entry \<Rightarrow> bytes" where
  "dir_entry_encode e = to_le_bytes (bd_offset e) @ to_le_bytes (bd_stored_len e)
     @ to_le_bytes (bd_uncompressed_len e) @ to_le_bytes (bd_record_count e) @ to_le_bytes (bd_flags e)
     @ to_le_bytes (bd_first_lsn e) @ to_le_bytes (bd_last_lsn e) @ to_le_bytes (bd_min_hlc e)
     @ to_le_bytes (bd_max_hlc e)"

definition dir_entry_decode :: "bytes \<Rightarrow> block_directory_entry v6_result" where
  "dir_entry_decode buf =
     (if length buf < DIR_ENTRY_LEN
      then Inl (corrupt ''hrkl v6 block directory entry'' ''short directory entry'')
      else Inr \<lparr>bd_offset = from_le_bytes (field 0 8 buf), bd_stored_len = from_le_bytes (field 8 4 buf),
        bd_uncompressed_len = from_le_bytes (field 12 4 buf), bd_record_count = from_le_bytes (field 16 4 buf),
        bd_flags = from_le_bytes (field 20 4 buf), bd_first_lsn = from_le_bytes (field 24 8 buf),
        bd_last_lsn = from_le_bytes (field 32 8 buf), bd_min_hlc = from_le_bytes (field 40 8 buf),
        bd_max_hlc = from_le_bytes (field 48 8 buf)\<rparr>)"

definition contains_lsn :: "block_directory_entry \<Rightarrow> lsn \<Rightarrow> bool" where
  "contains_lsn e k = (bd_record_count e > 0 \<and> k \<ge> bd_first_lsn e \<and> k \<le> bd_last_lsn e)"

definition entry_may_contain_hlc_range :: "block_directory_entry \<Rightarrow> u64 \<Rightarrow> u64 \<Rightarrow> bool" where
  "entry_may_contain_hlc_range e lo hi = (bd_record_count e > 0 \<and> bd_max_hlc e \<ge> lo \<and> bd_min_hlc e \<le> hi)"

definition entry_may_contain_lsn_range :: "block_directory_entry \<Rightarrow> lsn \<Rightarrow> lsn \<Rightarrow> bool" where
  "entry_may_contain_lsn_range e lo hi = (bd_record_count e > 0 \<and> bd_last_lsn e \<ge> lo \<and> bd_first_lsn e \<le> hi)"

type_synonym block_directory = "block_directory_entry list"

definition directory_encode :: "block_directory \<Rightarrow> bytes" where
  "directory_encode entries = concat (map dir_entry_encode entries)"

text \<open>The checks of one round of the loop; the state is \<open>prev_end\<close> with the entries read so far.\<close>

definition directory_step :: "u64 \<Rightarrow> u64 \<times> block_directory \<Rightarrow> block_directory_entry \<Rightarrow> (u64 \<times> block_directory) v6_result" where
  "directory_step file_len st e = (case st of (prev_end, entries) \<Rightarrow> (let CTX = ''hrkl v6 block directory'' in
     case checked_add (bd_offset e) (ucast (bd_stored_len e)) of
       None \<Rightarrow> Inl (corrupt CTX ''block offset+len overflows u64'')
     | Some e_end \<Rightarrow>
         if file_len < e_end then Inl (corrupt CTX ''block ends past file length'')
         else if bd_offset e < prev_end then Inl (corrupt CTX ''block overlaps the previous block'')
         else if bd_record_count e > 0 \<and> bd_first_lsn e > bd_last_lsn e
           then Inl (corrupt CTX ''block has first_lsn > last_lsn'')
         else if HARD_MAX_BLOCK_BYTES < unat (bd_uncompressed_len e)
           then Inl (corrupt CTX ''block declares too many uncompressed bytes'')
         else Inr (e_end, entries @ [e])))"

fun directory_windows_ok :: "block_directory \<Rightarrow> bool" where
  "directory_windows_ok (a # b # es) =
     (\<not> (bd_record_count a > 0 \<and> bd_record_count b > 0 \<and> bd_first_lsn a > bd_first_lsn b)
      \<and> directory_windows_ok (b # es))"
| "directory_windows_ok _ = True"

definition directory_decode :: "bytes \<Rightarrow> u32 \<Rightarrow> u64 \<Rightarrow> block_directory v6_result" where
  "directory_decode buf cnt blocks_region_end = (let CTX = ''hrkl v6 block directory'' in
     if HARD_MAX_BLOCKS < unat cnt then Inl (corrupt CTX ''block_count above hard maximum'')
     else if length buf < unat cnt * DIR_ENTRY_LEN then Inl (corrupt CTX ''directory needs more bytes'')
     else bindE (foldE (\<lambda>st i. bindE (dir_entry_decode (drop (i * DIR_ENTRY_LEN) buf))
                                 (\<lambda>e. directory_step blocks_region_end st e))
                  (0, []) [0..<unat cnt]) (\<lambda>(prev_end, entries).
       if directory_windows_ok entries then Inr entries
       else Inl (corrupt CTX ''directory is not ordered by first_lsn'')))"

definition find_block_for_lsn :: "block_directory \<Rightarrow> lsn \<Rightarrow> nat option" where
  "find_block_for_lsn entries k = (let idx = partition_point (\<lambda>e. bd_last_lsn e < k) entries in
     if idx < length entries then (if contains_lsn (entries ! idx) k then Some idx else None) else None)"

definition blocks_for_lsn_range :: "block_directory \<Rightarrow> lsn \<Rightarrow> lsn \<Rightarrow> nat list" where
  "blocks_for_lsn_range entries lo hi =
     map fst (filter (\<lambda>(i, e). entry_may_contain_lsn_range e lo hi) (enumerate 0 entries))"

definition total_stored_bytes :: "block_directory \<Rightarrow> u64" where
  "total_stored_bytes entries = sum_list (map (\<lambda>e. ucast (bd_stored_len e)) entries)"

definition total_uncompressed_bytes :: "block_directory \<Rightarrow> u64" where
  "total_uncompressed_bytes entries = sum_list (map (\<lambda>e. ucast (bd_uncompressed_len e)) entries)"

section \<open>Entries\<close>

lemma length_dir_entry_encode [simp, layout_simps]: "length (dir_entry_encode e) = 56"
  by (simp add: dir_entry_encode_def)

lemma dir_entry_decode_encode [simp]: "dir_entry_decode (dir_entry_encode e @ rest) = Inr e"
proof -
  have "field 0 8 (dir_entry_encode e @ rest) = to_le_bytes (bd_offset e)"
    "field 8 4 (dir_entry_encode e @ rest) = to_le_bytes (bd_stored_len e)"
    "field 12 4 (dir_entry_encode e @ rest) = to_le_bytes (bd_uncompressed_len e)"
    "field 16 4 (dir_entry_encode e @ rest) = to_le_bytes (bd_record_count e)"
    "field 20 4 (dir_entry_encode e @ rest) = to_le_bytes (bd_flags e)"
    "field 24 8 (dir_entry_encode e @ rest) = to_le_bytes (bd_first_lsn e)"
    "field 32 8 (dir_entry_encode e @ rest) = to_le_bytes (bd_last_lsn e)"
    "field 40 8 (dir_entry_encode e @ rest) = to_le_bytes (bd_min_hlc e)"
    "field 48 8 (dir_entry_encode e @ rest) = to_le_bytes (bd_max_hlc e)"
    by (simp_all add: dir_entry_encode_def layout_simps)
  then show ?thesis by (simp add: dir_entry_decode_def DIR_ENTRY_LEN_def)
qed

lemma length_directory_encode [layout_simps]: "length (directory_encode es) = 56 * length es"
  by (induction es) (auto simp: directory_encode_def)

lemma drop_directory_encode:
  "i < length es \<Longrightarrow> drop (56 * i) (directory_encode es @ rest)
    = dir_entry_encode (es ! i) @ directory_encode (drop (Suc i) es) @ rest"
proof (induction i arbitrary: es)
  case 0
  then show ?case by (cases es) (auto simp: directory_encode_def)
next
  case (Suc i)
  then obtain e es' where "es = e # es'" by (cases es) auto
  with Suc show ?case by (simp add: directory_encode_def)
qed

lemma foldE_upt_nth:
  assumes "\<And>i s. i < length es \<Longrightarrow> f s i = g s (es ! i)"
  shows "foldE f s [0..<length es] = foldE g s es"
proof -
  have "foldE f s [n..<n + length xs] = foldE g s xs"
    if "\<And>i s. i < length xs \<Longrightarrow> f s (n + i) = g s (xs ! i)" for n xs s
    using that
  proof (induction xs arbitrary: n s)
    case (Cons x xs)
    have "f s n = g s x" using Cons.prems [of 0] by simp
    moreover have "foldE f s' [Suc n..<Suc n + length xs] = foldE g s' xs" for s'
      using Cons.prems [of "Suc _"] by (intro Cons.IH) auto
    ultimately show ?case by (simp add: upt_conv_Cons del: upt_Suc)
  qed simp
  from this [of es 0] show ?thesis using assms by simp
qed

text \<open>Decoding an encoded directory runs exactly the checks of \<open>directory_step\<close> over its entries.\<close>

lemma directory_decode_encode_eq:
  assumes "length es \<le> 2 ^ 24"
  shows "directory_decode (directory_encode es @ rest) (word_of_nat (length es)) region =
    bindE (foldE (directory_step region) (0, []) es) (\<lambda>(prev_end, entries).
      if directory_windows_ok entries then Inr entries
      else Inl (corrupt ''hrkl v6 block directory'' ''directory is not ordered by first_lsn''))"
proof -
  have n: "unat (word_of_nat (length es) :: u32) = length es"
    using assms by (simp add: unsigned_of_nat take_bit_nat_eq_self)
  have "foldE (\<lambda>st i. bindE (dir_entry_decode (drop (i * 56) (directory_encode es @ rest))) (directory_step region st))
      (0, []) [0..<length es] = foldE (directory_step region) (0, []) es"
    by (rule foldE_upt_nth) (simp add: drop_directory_encode mult.commute [of _ 56] del: drop_append)
  then show ?thesis
    using assms n
    by (simp add: directory_decode_def HARD_MAX_BLOCKS_def DIR_ENTRY_LEN_def length_directory_encode mult.commute
        del: drop_append)
qed

text \<open>What a validated directory looks like: blocks in file order, disjoint, inside the region.\<close>

fun directory_valid_from :: "nat \<Rightarrow> u64 \<Rightarrow> block_directory \<Rightarrow> bool" where
  "directory_valid_from prev region [] = True"
| "directory_valid_from prev region (e # es) =
     (prev \<le> unat (bd_offset e) \<and> unat (bd_offset e) + unat (bd_stored_len e) \<le> unat region
      \<and> (bd_record_count e > 0 \<longrightarrow> bd_first_lsn e \<le> bd_last_lsn e)
      \<and> unat (bd_uncompressed_len e) \<le> HARD_MAX_BLOCK_BYTES
      \<and> directory_valid_from (unat (bd_offset e) + unat (bd_stored_len e)) region es)"

lemma unat_ucast_u32_u64 [simp]: "unat (ucast (x :: u32) :: u64) = unat x"
  using unat_lt_u32 [of x] by (simp add: unsigned_ucast_eq take_bit_nat_eq_self)

lemma directory_step_Inr:
  "directory_step region (prev, acc) e = Inr (prev', acc') \<longleftrightarrow>
     directory_valid_from (unat prev) region [e] \<and> acc' = acc @ [e]
     \<and> unat prev' = unat (bd_offset e) + unat (bd_stored_len e)"
  using unat_lt_u64 [of region]
  by (auto simp: directory_step_def Let_def checked_add_def word_le_nat_alt word_less_nat_alt unat_add_u64
      word_unat_eq_iff split: option.splits if_splits)

lemma foldE_directory_step:
  "foldE (directory_step region) (prev, acc) es = Inr (prev', acc')
    \<Longrightarrow> directory_valid_from (unat prev) region es \<and> acc' = acc @ es"
proof (induction es arbitrary: prev acc)
  case (Cons e es)
  then obtain p a where s: "directory_step region (prev, acc) e = Inr (p, a)"
    and f: "foldE (directory_step region) (p, a) es = Inr (prev', acc')"
    by (auto simp: bindE_eq_Inr)
  show ?case
    using Cons.IH [OF f] s by (auto simp: directory_step_Inr)
qed simp

lemma foldE_directory_step_ok:
  "directory_valid_from (unat prev) region es
    \<Longrightarrow> \<exists>prev'. foldE (directory_step region) (prev, acc) es = Inr (prev', acc @ es)"
proof (induction es arbitrary: prev acc)
  case (Cons e es)
  let ?p = "bd_offset e + ucast (bd_stored_len e)"
  have p: "unat ?p = unat (bd_offset e) + unat (bd_stored_len e)"
    using Cons.prems unat_lt_u64 [of region] by (subst unat_add_u64) auto
  then have "directory_step region (prev, acc) e = Inr (?p, acc @ [e])"
    using Cons.prems by (simp add: directory_step_Inr)
  then show ?case using Cons.IH [of ?p "acc @ [e]"] Cons.prems p by auto
qed simp

interpretation block_index: interval_index bd_first_lsn bd_last_lsn "\<lambda>e. bd_record_count e > 0" "\<lambda>_ i. i"
  find_block_for_lsn
  by unfold_locales (auto simp: find_block_for_lsn_def contains_lsn_def Let_def)

section \<open>Properties\<close>

text \<open>C11. The directory decoder accepts what was encoded exactly when it is valid: blocks in file order
  without overlap, each inside the region (with no wrap-around in \<open>offset + stored_len\<close>), within the size
  limit, and with \<open>first_lsn\<close> in order; and then it returns the entries unchanged, whatever bytes follow.\<close>

theorem directory_decode_iff_valid:
  assumes "length es \<le> HARD_MAX_BLOCKS"
  shows "directory_decode (directory_encode es @ rest) (word_of_nat (length es)) region = Inr es'
    \<longleftrightarrow> es' = es \<and> directory_valid_from 0 region es \<and> directory_windows_ok es"
proof -
  have "length es \<le> 2 ^ 24" using assms by (simp add: HARD_MAX_BLOCKS_def)
  note eq = directory_decode_encode_eq [OF this, of rest region]
  show ?thesis
  proof (cases "directory_valid_from 0 region es")
    case True
    then obtain p where "foldE (directory_step region) (0, []) es = Inr (p, es)"
      using foldE_directory_step_ok [of 0 region es "[]"] by auto
    then show ?thesis using True by (auto simp: eq)
  next
    case False
    then show ?thesis
      using foldE_directory_step [of region 0 "[]" es] by (auto simp: eq bindE_eq_Inr split: if_splits)
  qed
qed

definition example_directory :: block_directory where
  "example_directory =
    [\<lparr>bd_offset = 64, bd_stored_len = 100, bd_uncompressed_len = 200, bd_record_count = 4, bd_flags = 0,
      bd_first_lsn = 1, bd_last_lsn = 9, bd_min_hlc = 1, bd_max_hlc = 2\<rparr>,
     \<lparr>bd_offset = 228, bd_stored_len = 50, bd_uncompressed_len = 60, bd_record_count = 2, bd_flags = 0,
      bd_first_lsn = 10, bd_last_lsn = 12, bd_min_hlc = 1, bd_max_hlc = 2\<rparr>]"

lemma directory_decode_iff_valid_witness:
  "directory_decode (directory_encode example_directory @ []) (word_of_nat (length example_directory)) 300
    = Inr example_directory"
  by (subst directory_decode_iff_valid)
     (simp_all add: example_directory_def HARD_MAX_BLOCKS_def HARD_MAX_BLOCK_BYTES_def)

text \<open>C12. The second level of a point lookup: over blocks that follow one another in LSN order,
  \<open>find_block_for_lsn\<close> returns the index of a block exactly when that block's range holds the LSN, and the
  range query keeps every block that holds an LSN of the range.\<close>

theorem block_lookup_correct:
  assumes "disjoint_ranges bd_first_lsn bd_last_lsn (\<lambda>e. bd_record_count e > 0) es"
  shows "(find_block_for_lsn es k = Some i \<longleftrightarrow> i < length es \<and> contains_lsn (es ! i) k)
    \<and> (j < length es \<and> contains_lsn (es ! j) k \<and> lo \<le> k \<and> k \<le> hi \<longrightarrow> j \<in> set (blocks_for_lsn_range es lo hi))"
proof
  show "find_block_for_lsn es k = Some i \<longleftrightarrow> i < length es \<and> contains_lsn (es ! i) k"
    using block_index.find_Some_iff [OF assms, of k i] assms
    by (auto simp: contains_lsn_def disjoint_ranges_def)
  show "j < length es \<and> contains_lsn (es ! j) k \<and> lo \<le> k \<and> k \<le> hi \<longrightarrow> j \<in> set (blocks_for_lsn_range es lo hi)"
    by (force simp: blocks_for_lsn_range_def contains_lsn_def entry_may_contain_lsn_range_def in_set_enumerate_eq
        image_iff)
qed

lemma block_lookup_correct_witness: "find_block_for_lsn example_directory 11 = Some 1"
proof -
  have "disjoint_ranges bd_first_lsn bd_last_lsn (\<lambda>e. bd_record_count e > 0) example_directory"
    by (auto simp: disjoint_ranges_def example_directory_def nth_Cons split: nat.splits)
  from block_lookup_correct [OF this, of 11 1] show ?thesis
    by (simp add: example_directory_def contains_lsn_def)
qed

end
