(* ===== verification/V6_Merkle.thy ===== *)
theory V6_Merkle
  imports Byte_Codec
begin

text \<open>
  \<open>heraclitus-log/src/v6/merkle.rs\<close>: the logical root of a segment. A streaming accumulator (a binary
  counter of pending subtrees), the level-by-level construction of inclusion proofs and their
  verifier. BLAKE3 is the parameter \<open>H\<close>; an incremental hasher that was fed pieces is \<open>H\<close> of their
  concatenation. Collision resistance is never assumed globally (no function to 32 bytes has it): a
  theorem that needs it assumes \<open>inj_on H\<close> on the inputs that were hashed.
\<close>

type_synonym hash_fn = "bytes \<Rightarrow> bytes"

definition ascii :: "string \<Rightarrow> bytes" where
  "ascii s = map of_char s"

definition DOMAIN_LEAF :: bytes where
  "DOMAIN_LEAF = ascii ''HRKL6:MERKLE:LEAF''"

definition DOMAIN_NODE :: bytes where
  "DOMAIN_NODE = ascii ''HRKL6:MERKLE:NODE''"

definition DOMAIN_ROOT :: bytes where
  "DOMAIN_ROOT = ascii ''HRKL6:MERKLE:ROOT''"

definition MAX_LEVELS :: nat where
  "MAX_LEVELS = 64"

definition merkle_leaf :: "hash_fn \<Rightarrow> bytes \<Rightarrow> bytes" where
  "merkle_leaf H record_hash = H (DOMAIN_LEAF @ record_hash)"

definition merkle_node :: "hash_fn \<Rightarrow> bytes \<Rightarrow> bytes \<Rightarrow> bytes" where
  "merkle_node H left right = H (DOMAIN_NODE @ left @ right)"

definition seal_root :: "hash_fn \<Rightarrow> u64 \<Rightarrow> bytes \<Rightarrow> bytes" where
  "seal_root H leaf_count acc = H (DOMAIN_ROOT @ to_le_bytes leaf_count @ acc)"

section \<open>The accumulator\<close>

record merkle_acc =
  ma_levels :: "bytes option list"
  ma_leaf_count :: u64

definition merkle_new :: merkle_acc where
  "merkle_new = \<lparr>ma_levels = replicate MAX_LEVELS None, ma_leaf_count = 0\<rparr>"

text \<open>
  The loop of \<open>push_leaf\<close> from the level it has reached. The code indexes out of bounds (panics) when
  the carry runs past the last level; \<open>push_carry_room\<close> below shows that the case needs \<open>2 ^ 64 - 1\<close>
  leaves to be pending.
\<close>

fun push_carry :: "hash_fn \<Rightarrow> bytes option list \<Rightarrow> bytes \<Rightarrow> bytes option list" where
  "push_carry H [] carry = []"
| "push_carry H (None # levels) carry = Some carry # levels"
| "push_carry H (Some pending # levels) carry = None # push_carry H levels (merkle_node H pending carry)"

definition push_leaf :: "hash_fn \<Rightarrow> merkle_acc \<Rightarrow> bytes \<Rightarrow> merkle_acc" where
  "push_leaf H a leaf =
     a\<lparr>ma_levels := push_carry H (ma_levels a) leaf, ma_leaf_count := ma_leaf_count a + 1\<rparr>"

definition push_record_hash :: "hash_fn \<Rightarrow> merkle_acc \<Rightarrow> bytes \<Rightarrow> merkle_acc" where
  "push_record_hash H a record_hash = push_leaf H a (merkle_leaf H record_hash)"

fun fold_levels :: "hash_fn \<Rightarrow> bytes option list \<Rightarrow> bytes option \<Rightarrow> bytes option" where
  "fold_levels H [] carry = carry"
| "fold_levels H (None # levels) carry = fold_levels H levels carry"
| "fold_levels H (Some node # levels) carry = fold_levels H levels (Some (case carry of
     Some right \<Rightarrow> merkle_node H node right | None \<Rightarrow> node))"

definition merkle_finalize :: "hash_fn \<Rightarrow> merkle_acc \<Rightarrow> bytes" where
  "merkle_finalize H a = seal_root H (ma_leaf_count a)
     (case fold_levels H (ma_levels a) None of Some acc \<Rightarrow> acc | None \<Rightarrow> replicate 32 0)"

definition peek_root :: "hash_fn \<Rightarrow> merkle_acc \<Rightarrow> bytes" where
  "peek_root H a = merkle_finalize H a"

definition root_of_record_hashes :: "hash_fn \<Rightarrow> bytes list \<Rightarrow> bytes" where
  "root_of_record_hashes H hashes = merkle_finalize H (foldl (push_record_hash H) merkle_new hashes)"

section \<open>Inclusion proofs\<close>

record proof_step =
  ps_sibling :: bytes
  ps_sibling_is_left :: bool

record inclusion_proof =
  ip_leaf_index :: u64
  ip_leaf_count :: u64
  ip_path :: "proof_step list"

text \<open>One pass of the inner loop of \<open>build_inclusion_proof\<close> over \<open>level[i..]\<close>.\<close>

fun proof_pass :: "hash_fn \<Rightarrow> bytes list \<Rightarrow> nat \<Rightarrow> nat \<Rightarrow> bytes list \<Rightarrow> proof_step list
    \<Rightarrow> bytes list \<times> nat \<times> proof_step list" where
  "proof_pass H (x # y # level) i idx nxt path =
     (let (idx', path') =
        (if idx = i then (length nxt, path @ [\<lparr>ps_sibling = y, ps_sibling_is_left = False\<rparr>])
         else if idx = i + 1 then (length nxt, path @ [\<lparr>ps_sibling = x, ps_sibling_is_left = True\<rparr>])
         else (idx, path))
      in proof_pass H level (i + 2) idx' (nxt @ [merkle_node H x y]) path')"
| "proof_pass H [x] i idx nxt path = (nxt @ [x], if idx = i then length nxt else idx, path)"
| "proof_pass H [] i idx nxt path = (nxt, idx, path)"

text \<open>Pairing a level, with promotion of an odd last node.\<close>

fun next_level :: "hash_fn \<Rightarrow> bytes list \<Rightarrow> bytes list" where
  "next_level H (x # y # level) = merkle_node H x y # next_level H level"
| "next_level H level = level"

lemma length_next_level: "length (next_level H level) = (length level + 1) div 2"
  by (induction H level rule: next_level.induct) auto

lemma proof_pass_level: "fst (proof_pass H level i idx nxt path) = nxt @ next_level H level"
  by (induction H level i idx nxt path rule: proof_pass.induct) (auto simp: Let_def)

lemma proof_pass_shorter:
  "proof_pass H level 0 idx [] path = (level', r) \<Longrightarrow> 1 < length level \<Longrightarrow> length level' < length level"
  using proof_pass_level [of H level 0 idx "[]" path] by (simp add: length_next_level)

function proof_loop :: "hash_fn \<Rightarrow> bytes list \<Rightarrow> nat \<Rightarrow> proof_step list \<Rightarrow> proof_step list" where
  "proof_loop H level idx path =
     (if 1 < length level
      then (case proof_pass H level 0 idx [] path of (level', idx', path') \<Rightarrow> proof_loop H level' idx' path')
      else path)"
  by pat_completeness auto
termination
  by (relation "measure (\<lambda>(H, level, idx, path). length level)")
     (auto split: prod.splits dest: proof_pass_shorter)

declare proof_loop.simps [simp del]

definition build_inclusion_proof :: "hash_fn \<Rightarrow> bytes list \<Rightarrow> nat \<Rightarrow> inclusion_proof option" where
  "build_inclusion_proof H hashes index =
     (if length hashes \<le> index then None
      else Some \<lparr>ip_leaf_index = word_of_nat index, ip_leaf_count = word_of_nat (length hashes),
        ip_path = proof_loop H (map (merkle_leaf H) hashes) index []\<rparr>)"

definition proof_climb :: "hash_fn \<Rightarrow> proof_step list \<Rightarrow> bytes \<Rightarrow> bytes" where
  "proof_climb H path acc = foldl (\<lambda>acc step. if ps_sibling_is_left step
     then merkle_node H (ps_sibling step) acc else merkle_node H acc (ps_sibling step)) acc path"

definition verify_inclusion_proof :: "hash_fn \<Rightarrow> bytes \<Rightarrow> inclusion_proof \<Rightarrow> bytes \<Rightarrow> bool" where
  "verify_inclusion_proof H record_hash pf root =
     (seal_root H (ip_leaf_count pf) (proof_climb H (ip_path pf) (merkle_leaf H record_hash)) = root)"

section \<open>The reference tree\<close>

function merkle_tree :: "hash_fn \<Rightarrow> bytes list \<Rightarrow> bytes option" where
  "merkle_tree H level = (if 1 < length level then merkle_tree H (next_level H level)
     else (case level of [] \<Rightarrow> None | x # _ \<Rightarrow> Some x))"
  by pat_completeness auto
termination
  by (relation "measure (\<lambda>(H, level). length level)") (auto simp: length_next_level)

declare merkle_tree.simps [simp del]

lemma merkle_tree_simps [simp]:
  "merkle_tree H [] = None"
  "merkle_tree H [x] = Some x"
  "merkle_tree H (x # y # level) = merkle_tree H (next_level H (x # y # level))"
  by (subst merkle_tree.simps, simp)+

lemma merkle_tree_next: "merkle_tree H (next_level H level) = merkle_tree H level"
  by (cases "(H, level)" rule: next_level.cases) auto

lemma merkle_tree_ne: "level \<noteq> [] \<Longrightarrow> \<exists>x. merkle_tree H level = Some x"
proof (induction H level rule: merkle_tree.induct)
  case (1 H level)
  show ?case
  proof (cases "1 < length level")
    case True
    then have "next_level H level \<noteq> []"
      using length_next_level [of H level] by (cases "next_level H level") auto
    then show ?thesis using 1(1) True by (simp add: merkle_tree_next)
  next
    case False
    then show ?thesis using 1(2) by (cases level) auto
  qed
qed

lemma next_level_append: "even (length xs) \<Longrightarrow> next_level H (xs @ ys) = next_level H xs @ next_level H ys"
proof (induction xs rule: induct_list012)
  case (3 x y zs)
  then show ?case by simp
qed auto

text \<open>\<open>pending ls xs\<close>: the levels \<open>ls\<close> hold the complete subtrees of the nodes \<open>xs\<close> absorbed so far.\<close>

fun pending :: "hash_fn \<Rightarrow> bytes option list \<Rightarrow> bytes list \<Rightarrow> bool" where
  "pending H [] xs = (xs = [])"
| "pending H (None # ls) xs = (even (length xs) \<and> pending H ls (next_level H xs))"
| "pending H (Some c # ls) xs = (xs \<noteq> [] \<and> last xs = c \<and> even (length (butlast xs))
     \<and> pending H ls (next_level H (butlast xs)))"

lemma length_push_carry: "length (push_carry H ls c) = length ls"
  by (induction H ls c rule: push_carry.induct) auto

lemma pending_push:
  "pending H ls xs \<Longrightarrow> length xs + 1 < 2 ^ length ls \<Longrightarrow> pending H (push_carry H ls c) (xs @ [c])"
proof (induction ls arbitrary: xs c)
  case (Cons l ls)
  show ?case
  proof (cases l)
    case None
    then show ?thesis using Cons.prems by simp
  next
    case (Some p)
    then obtain ys where xs: "xs = ys @ [p]" and ev: "even (length ys)" and pd: "pending H ls (next_level H ys)"
      using Cons.prems(1) by (metis append_butlast_last_id pending.simps(3))
    obtain k where k: "length ys = 2 * k" using ev by blast
    have "pending H (push_carry H ls (merkle_node H p c)) (next_level H ys @ [merkle_node H p c])"
      using Cons.IH [OF pd] Cons.prems(2) by (simp add: xs k length_next_level)
    then show ?thesis using Some xs ev by (simp add: next_level_append)
  qed
qed simp

text \<open>While fewer than \<open>2 ^ 64 - 1\<close> leaves are pending there is a free level, so the carry stops in range.\<close>

lemma push_carry_room:
  "pending H ls xs \<Longrightarrow> length xs + 1 < 2 ^ length ls \<Longrightarrow> None \<in> set ls"
proof (induction ls arbitrary: xs)
  case (Cons l ls)
  show ?case
  proof (cases l)
    case (Some p)
    then obtain ys where xs: "xs = ys @ [p]" and ev: "even (length ys)" and pd: "pending H ls (next_level H ys)"
      using Cons.prems(1) by (metis append_butlast_last_id pending.simps(3))
    obtain k where "length ys = 2 * k" using ev by blast
    then show ?thesis using Cons.IH [OF pd] Cons.prems(2) xs by (simp add: length_next_level)
  qed simp
qed simp

lemma pending_fold:
  "pending H ls xs \<Longrightarrow> fold_levels H ls carry = merkle_tree H (xs @ (case carry of None \<Rightarrow> [] | Some r \<Rightarrow> [r]))"
proof (induction ls arbitrary: xs carry)
  case Nil
  then show ?case by (cases carry) auto
next
  case (Cons l ls)
  show ?case
  proof (cases l)
    case None
    then have ev: "even (length xs)" and pd: "pending H ls (next_level H xs)" using Cons.prems by auto
    have "merkle_tree H (next_level H xs @ next_level H ys) = merkle_tree H (xs @ ys)" for ys
      using merkle_tree_next [of H "xs @ ys"] ev by (simp add: next_level_append)
    from this [of "[]"] this [of "[the carry]"] show ?thesis
      using None Cons.IH [OF pd] by (cases carry) auto
  next
    case (Some p)
    then obtain ys where xs: "xs = ys @ [p]" and ev: "even (length ys)" and pd: "pending H ls (next_level H ys)"
      using Cons.prems by (metis append_butlast_last_id pending.simps(3))
    have "merkle_tree H (next_level H (ys @ zs)) = merkle_tree H (ys @ zs)" for zs by (rule merkle_tree_next)
    from this [of "[p]"] this [of "[p, the carry]"] show ?thesis
      using Some Cons.IH [OF pd] ev xs by (cases carry) (auto simp: next_level_append)
  qed
qed

lemma foldl_push_record_hash:
  assumes "length hashes < 2 ^ 64"
  shows "pending H (ma_levels (foldl (push_record_hash H) merkle_new hashes)) (map (merkle_leaf H) hashes)
    \<and> length (ma_levels (foldl (push_record_hash H) merkle_new hashes)) = 64
    \<and> ma_leaf_count (foldl (push_record_hash H) merkle_new hashes) = word_of_nat (length hashes)"
  using assms
proof (induction hashes rule: rev_induct)
  case Nil
  have "pending H (replicate n None) []" for n by (induction n) auto
  then show ?case by (simp add: merkle_new_def MAX_LEVELS_def)
next
  case (snoc h hashes)
  let ?a = "foldl (push_record_hash H) merkle_new hashes"
  have IH: "pending H (ma_levels ?a) (map (merkle_leaf H) hashes)" "length (ma_levels ?a) = 64"
    "ma_leaf_count ?a = word_of_nat (length hashes)"
    using snoc by simp_all
  have "pending H (push_carry H (ma_levels ?a) (merkle_leaf H h)) (map (merkle_leaf H) hashes @ [merkle_leaf H h])"
    using IH snoc.prems by (intro pending_push) simp_all
  then show ?case
    using IH by (simp add: push_record_hash_def [of H ?a] push_leaf_def length_push_carry)
qed

text \<open>The streaming root is the sealed root of the reference tree.\<close>

lemma merkle_finalize_foldl:
  assumes "length hashes < 2 ^ 64"
  shows "merkle_finalize H (foldl (push_record_hash H) merkle_new hashes)
    = seal_root H (word_of_nat (length hashes))
        (case merkle_tree H (map (merkle_leaf H) hashes) of Some r \<Rightarrow> r | None \<Rightarrow> replicate 32 0)"
  using foldl_push_record_hash [OF assms, of H] by (auto simp: merkle_finalize_def pending_fold)

lemma root_of_record_hashes_eq:
  assumes "length hashes < 2 ^ 64"
  shows "root_of_record_hashes H hashes = seal_root H (word_of_nat (length hashes))
    (case merkle_tree H (map (merkle_leaf H) hashes) of Some r \<Rightarrow> r | None \<Rightarrow> replicate 32 0)"
  using merkle_finalize_foldl [OF assms] by (simp add: root_of_record_hashes_def)

section \<open>Proofs that are built are accepted\<close>

lemma proof_pass_done:
  "idx < i \<Longrightarrow> proof_pass H level i idx nxt path = (nxt @ next_level H level, idx, path)"
  by (induction H level i idx nxt path rule: proof_pass.induct) (auto simp: Let_def)

lemma proof_climb_append: "proof_climb H (p @ q) acc = proof_climb H q (proof_climb H p acc)"
  by (simp add: proof_climb_def)

lemma proof_pass_at:
  assumes "2 * length nxt = i" and "k < length level"
  shows "\<exists>sib. proof_pass H level i (i + k) nxt path = (nxt @ next_level H level, length nxt + k div 2, path @ sib)
    \<and> proof_climb H sib (level ! k) = next_level H level ! (k div 2)"
  using assms
proof (induction H level arbitrary: i k nxt path rule: next_level.induct)
  case (1 H x y level)
  consider "k = 0" | "k = 1" | j where "k = j + 2" by (metis add_2_eq_Suc' nat.exhaust One_nat_def)
  then show ?case
  proof cases
    case (3 j)
    have *: "\<not> i + k = i" "\<not> i + k = i + 1" "i + k = i + 2 + j" using 3 by auto
    obtain sib where "proof_pass H level (i + 2) (i + 2 + j) (nxt @ [merkle_node H x y]) path
        = ((nxt @ [merkle_node H x y]) @ next_level H level, length (nxt @ [merkle_node H x y]) + j div 2, path @ sib)"
      and "proof_climb H sib (level ! j) = next_level H level ! (j div 2)"
      using 1(1) [of "nxt @ [merkle_node H x y]" "i + 2" j path] 1(2,3) 3 by auto
    then show ?thesis using 3 * by (intro exI [of _ sib]) simp
  qed (use 1 in \<open>auto simp: Let_def proof_pass_done proof_climb_def\<close>)
qed (auto simp: proof_climb_def)

lemma proof_loop_climb:
  "idx < length level \<Longrightarrow> \<exists>sib. proof_loop H level idx path = path @ sib
    \<and> merkle_tree H level = Some (proof_climb H sib (level ! idx))"
proof (induction H level idx path rule: proof_loop.induct)
  case (1 H level idx path)
  show ?case
  proof (cases "1 < length level")
    case True
    obtain sib where pass: "proof_pass H level 0 idx [] path = (next_level H level, idx div 2, path @ sib)"
      and climb: "proof_climb H sib (level ! idx) = next_level H level ! (idx div 2)"
      using proof_pass_at [of "[]" 0 idx level H path] 1(2) by auto
    have "idx div 2 < length (next_level H level)" using 1(2) by (simp add: length_next_level)
    from 1(1) [OF True pass [symmetric] refl this] obtain sib' where
      "proof_loop H (next_level H level) (idx div 2) (path @ sib) = (path @ sib) @ sib'"
      "merkle_tree H (next_level H level) = Some (proof_climb H sib' (next_level H level ! (idx div 2)))"
      by blast
    then show ?thesis
      using True pass climb
      by (intro exI [of _ "sib @ sib'"])
         (simp add: proof_loop.simps [of H level idx path] merkle_tree_next proof_climb_append)
  next
    case False
    then obtain x where "level = [x]" using 1(2) by (cases level) auto
    then show ?thesis using 1(2) by (simp add: proof_loop.simps proof_climb_def)
  qed
qed

lemma inclusion_proof_exists:
  assumes "index < length hashes" and "length hashes < 2 ^ 64"
  shows "\<exists>pf. build_inclusion_proof H hashes index = Some pf
    \<and> verify_inclusion_proof H (hashes ! index) pf (root_of_record_hashes H hashes)"
proof -
  obtain sib where "proof_loop H (map (merkle_leaf H) hashes) index [] = sib"
    and "merkle_tree H (map (merkle_leaf H) hashes) = Some (proof_climb H sib (map (merkle_leaf H) hashes ! index))"
    using proof_loop_climb [of index "map (merkle_leaf H) hashes" H "[]"] assms by auto
  then show ?thesis
    using assms by (simp add: build_inclusion_proof_def verify_inclusion_proof_def root_of_record_hashes_eq)
qed

text \<open>C26. The streaming accumulator and the level-by-level proof builder describe the same tree: for every
  record of a segment of fewer than \<open>2 ^ 64\<close> records, \<open>build_inclusion_proof\<close> yields a proof and the
  verifier accepts it against the root that the streaming writer sealed, for any hash function.\<close>

theorem inclusion_proof_complete:
  assumes "index < length hashes" and "length hashes < 2 ^ 64"
  shows "\<exists>pf. build_inclusion_proof H hashes index = Some pf
    \<and> verify_inclusion_proof H (hashes ! index) pf (root_of_record_hashes H hashes)"
  using assms by (rule inclusion_proof_exists)

lemma inclusion_proof_complete_witness:
  "\<exists>pf. build_inclusion_proof (take 32) [[1], [2], [3]] 2 = Some pf
    \<and> verify_inclusion_proof (take 32) [3] pf (root_of_record_hashes (take 32) [[1], [2], [3]])"
  using inclusion_proof_complete [of 2 "[[1], [2], [3]]" "take 32"] by simp

section \<open>What was hashed\<close>

fun level_inputs :: "bytes list \<Rightarrow> bytes set" where
  "level_inputs (x # y # level) = insert (DOMAIN_NODE @ x @ y) (level_inputs level)"
| "level_inputs level = {}"

function tree_inputs :: "hash_fn \<Rightarrow> bytes list \<Rightarrow> bytes set" where
  "tree_inputs H level =
     (if 1 < length level then level_inputs level \<union> tree_inputs H (next_level H level) else {})"
  by pat_completeness auto
termination
  by (relation "measure (\<lambda>(H, level). length level)") (auto simp: length_next_level)

declare tree_inputs.simps [simp del]

definition segment_inputs :: "hash_fn \<Rightarrow> bytes list \<Rightarrow> bytes set" where
  "segment_inputs H hashes = (\<lambda>h. DOMAIN_LEAF @ h) ` set hashes
     \<union> tree_inputs H (map (merkle_leaf H) hashes)
     \<union> {DOMAIN_ROOT @ to_le_bytes (word_of_nat (length hashes) :: u64)
         @ (case merkle_tree H (map (merkle_leaf H) hashes) of Some r \<Rightarrow> r | None \<Rightarrow> replicate 32 0)}"

definition digest32 :: "hash_fn \<Rightarrow> bool" where
  "digest32 H = (\<forall>bs. length (H bs) = 32)"

lemma digest32_lengths [simp]:
  assumes "digest32 H"
  shows "length (merkle_leaf H h) = 32" "length (merkle_node H l r) = 32" "length (seal_root H n acc) = 32"
  using assms by (simp_all add: digest32_def merkle_leaf_def merkle_node_def seal_root_def)

lemma next_level_length32:
  "digest32 H \<Longrightarrow> \<forall>x \<in> set level. length x = 32 \<Longrightarrow> \<forall>x \<in> set (next_level H level). length x = 32"
  by (induction H level rule: next_level.induct) auto

lemma inj_onD2: "inj_on H I \<Longrightarrow> H a = H b \<Longrightarrow> a \<in> I \<Longrightarrow> b \<in> I \<Longrightarrow> a = b"
  by (rule inj_onD)

lemma merkle_node_inj:
  assumes "inj_on H I" "DOMAIN_NODE @ l @ r \<in> I" "DOMAIN_NODE @ l' @ r' \<in> I" "length l = length l'"
    and "merkle_node H l r = merkle_node H l' r'"
  shows "l = l' \<and> r = r'"
  using inj_onD2 [OF assms(1) _ assms(2,3)] assms(4,5) by (simp add: merkle_node_def)

lemma next_level_inj:
  assumes "length xs = length ys" "\<forall>x \<in> set xs \<union> set ys. length x = 32"
    and "inj_on H I" "level_inputs xs \<union> level_inputs ys \<subseteq> I" "next_level H xs = next_level H ys"
  shows "xs = ys"
  using assms
proof (induction H xs arbitrary: ys rule: next_level.induct)
  case (1 H x y xs)
  then obtain x' y' zs where ys: "ys = x' # y' # zs" by (metis Suc_length_conv length_Cons)
  then have "x = x' \<and> y = y'"
    using 1 by (intro merkle_node_inj [of H I]) auto
  moreover have "xs = zs" using 1 ys by auto
  ultimately show ?case using ys by simp
qed (auto simp: Suc_length_conv)

lemma merkle_tree_inj:
  assumes "digest32 H" "length xs = length ys" "\<forall>x \<in> set xs \<union> set ys. length x = 32"
    and "inj_on H I" "tree_inputs H xs \<union> tree_inputs H ys \<subseteq> I" "merkle_tree H xs = merkle_tree H ys"
  shows "xs = ys"
  using assms
proof (induction H xs arbitrary: ys rule: merkle_tree.induct)
  case (1 H xs)
  show ?case
  proof (cases "1 < length xs")
    case True
    then have in_xs: "level_inputs xs \<union> tree_inputs H (next_level H xs) \<subseteq> I"
      and in_ys: "level_inputs ys \<union> tree_inputs H (next_level H ys) \<subseteq> I"
      using 1(3,6) by (simp_all add: tree_inputs.simps [of H xs] tree_inputs.simps [of H ys])
    have "\<forall>x \<in> set xs. length x = 32" "\<forall>y \<in> set ys. length y = 32" using 1(4) by auto
    from this [THEN next_level_length32 [OF 1(2)]]
    have "next_level H xs = next_level H ys"
      using 1(2,3,5,7) in_xs in_ys
      by (intro 1(1) [OF True]) (auto simp: length_next_level merkle_tree_next)
    then show ?thesis using next_level_inj [of xs ys H I] 1(3-5) in_xs in_ys by blast
  next
    case False
    then show ?thesis using 1(3,7) by (cases xs; cases ys) auto
  qed
qed

lemma word_of_nat_length_inj:
  assumes "m < 2 ^ 64" "n < 2 ^ 64" "(word_of_nat m :: u64) = word_of_nat n"
  shows "m = n"
proof -
  have "unat (word_of_nat m :: u64) = unat (word_of_nat n :: u64)" using assms(3) by simp
  then show ?thesis using assms(1,2) by (simp add: unsigned_of_nat take_bit_nat_eq_self)
qed

lemma merkle_tree_length32:
  assumes "digest32 H" "\<forall>x \<in> set level. length x = 32" "merkle_tree H level = Some r"
  shows "length r = 32"
  using assms
proof (induction H level rule: merkle_tree.induct)
  case (1 H level)
  show ?case
  proof (cases "1 < length level")
    case True
    then show ?thesis using 1 next_level_length32 by (simp add: merkle_tree_next)
  next
    case False
    then show ?thesis using 1(3,4) by (cases level) auto
  qed
qed

lemma root_binds:
  assumes "digest32 H" "length xs < 2 ^ 64" "length ys < 2 ^ 64"
    and "inj_on H (segment_inputs H xs \<union> segment_inputs H ys)"
    and "root_of_record_hashes H xs = root_of_record_hashes H ys"
  shows "xs = ys"
proof -
  let ?I = "segment_inputs H xs \<union> segment_inputs H ys"
  let ?acc = "\<lambda>zs. case merkle_tree H (map (merkle_leaf H) zs) of Some r \<Rightarrow> r | None \<Rightarrow> replicate 32 0"
  have "H (DOMAIN_ROOT @ to_le_bytes (word_of_nat (length xs) :: u64) @ ?acc xs)
      = H (DOMAIN_ROOT @ to_le_bytes (word_of_nat (length ys) :: u64) @ ?acc ys)"
    using assms(2,3,5) by (simp add: root_of_record_hashes_eq seal_root_def)
  then have "DOMAIN_ROOT @ to_le_bytes (word_of_nat (length xs) :: u64) @ ?acc xs
      = DOMAIN_ROOT @ to_le_bytes (word_of_nat (length ys) :: u64) @ ?acc ys"
    by (rule inj_onD2 [OF assms(4)]) (simp_all add: segment_inputs_def)
  then have "(word_of_nat (length xs) :: u64) = word_of_nat (length ys)" and acc: "?acc xs = ?acc ys"
    by (simp_all add: to_le_bytes_inj)
  then have len: "length xs = length ys" using assms(2,3) word_of_nat_length_inj by blast
  have "merkle_tree H (map (merkle_leaf H) xs) = merkle_tree H (map (merkle_leaf H) ys)"
  proof (cases "xs = []")
    case False
    then have "map (merkle_leaf H) xs \<noteq> []" "map (merkle_leaf H) ys \<noteq> []" using len by auto
    then obtain r s where "merkle_tree H (map (merkle_leaf H) xs) = Some r"
      "merkle_tree H (map (merkle_leaf H) ys) = Some s" using merkle_tree_ne by meson
    then show ?thesis using acc by simp
  qed (use len in simp)
  then have "map (merkle_leaf H) xs = map (merkle_leaf H) ys"
    by (intro merkle_tree_inj [OF assms(1) _ _ assms(4)])
       (use assms(1) len in \<open>auto simp only: segment_inputs_def length_map set_map digest32_lengths\<close>)
  moreover have "inj_on (merkle_leaf H) (set xs \<union> set ys)"
  proof (rule inj_onI)
    fix a b assume ab: "a \<in> set xs \<union> set ys" "b \<in> set xs \<union> set ys"
      and eq: "merkle_leaf H a = merkle_leaf H b"
    have mem: "z \<in> set xs \<union> set ys \<Longrightarrow> DOMAIN_LEAF @ z \<in> ?I" for z
      by (auto simp: segment_inputs_def)
    have "DOMAIN_LEAF @ a = DOMAIN_LEAF @ b"
      by (rule inj_onD2 [OF assms(4) eq [unfolded merkle_leaf_def] mem [OF ab(1)] mem [OF ab(2)]])
    then show "a = b" by simp
  qed
  ultimately show ?thesis by (rule map_inj_on)
qed

text \<open>C27. The logical root is the identity of the record sequence: two segments of fewer than \<open>2 ^ 64\<close>
  records have the same root exactly when they hold the same record hashes in the same order, as long
  as the hash has no collision among the inputs hashed for these two segments. In particular neither
  the number of records nor the promotion of odd nodes leaves an ambiguity.\<close>

theorem logical_root_identifies_records:
  assumes "digest32 H" and "length xs < 2 ^ 64" and "length ys < 2 ^ 64"
    and "inj_on H (segment_inputs H xs \<union> segment_inputs H ys)"
  shows "root_of_record_hashes H xs = root_of_record_hashes H ys \<longleftrightarrow> xs = ys"
  using root_binds [OF assms] by auto

definition toy_hash :: hash_fn where
  "toy_hash bs = replicate 30 0 @ [word_of_nat (length bs), last (0 # bs)]"

lemma toy_digest: "digest32 toy_hash"
  by (simp add: digest32_def toy_hash_def)

lemma logical_root_identifies_records_witness:
  "root_of_record_hashes toy_hash [[1]] \<noteq> root_of_record_hashes toy_hash [[2]]"
proof -
  have "inj_on toy_hash (segment_inputs toy_hash [[1]] \<union> segment_inputs toy_hash [[2]])"
    by (auto simp: segment_inputs_def tree_inputs.simps merkle_leaf_def toy_hash_def inj_on_def
        DOMAIN_LEAF_def DOMAIN_ROOT_def ascii_def)
  from logical_root_identifies_records [OF toy_digest _ _ this] show ?thesis by simp
qed

section \<open>Accepted proofs are sound\<close>

text \<open>The values of the tree, with their preimages among \<open>I\<close>.\<close>

inductive in_tree :: "hash_fn \<Rightarrow> bytes list \<Rightarrow> bytes set \<Rightarrow> bytes \<Rightarrow> bool"
  for H hashes I where
  leaf: "h \<in> set hashes \<Longrightarrow> DOMAIN_LEAF @ h \<in> I \<Longrightarrow> in_tree H hashes I (merkle_leaf H h)"
| node: "in_tree H hashes I l \<Longrightarrow> in_tree H hashes I r \<Longrightarrow> DOMAIN_NODE @ l @ r \<in> I
    \<Longrightarrow> in_tree H hashes I (merkle_node H l r)"

inductive_cases in_treeE: "in_tree H hashes I v"

lemma in_tree_level:
  "level_inputs level \<subseteq> I \<Longrightarrow> \<forall>x \<in> set level. in_tree H hashes I x
    \<Longrightarrow> \<forall>x \<in> set (next_level H level). in_tree H hashes I x"
  by (induction H level rule: next_level.induct) (auto intro: in_tree.node)

lemma in_tree_root:
  "tree_inputs H level \<subseteq> I \<Longrightarrow> \<forall>x \<in> set level. in_tree H hashes I x \<Longrightarrow> merkle_tree H level = Some r
    \<Longrightarrow> in_tree H hashes I r"
proof (induction H level rule: merkle_tree.induct)
  case (1 H level)
  show ?case
  proof (cases "1 < length level")
    case True
    then have "level_inputs level \<subseteq> I" "tree_inputs H (next_level H level) \<subseteq> I"
      using 1(2) by (simp_all add: tree_inputs.simps [of H level])
    then show ?thesis using 1 True in_tree_level by (simp add: merkle_tree_next)
  next
    case False
    then show ?thesis using 1(3,4) by (cases level) auto
  qed
qed

text \<open>The inputs that the verifier hashes.\<close>

fun climb_inputs :: "hash_fn \<Rightarrow> proof_step list \<Rightarrow> bytes \<Rightarrow> bytes set" where
  "climb_inputs H [] acc = {}"
| "climb_inputs H (s # path) acc =
     (if ps_sibling_is_left s
      then insert (DOMAIN_NODE @ ps_sibling s @ acc) (climb_inputs H path (merkle_node H (ps_sibling s) acc))
      else insert (DOMAIN_NODE @ acc @ ps_sibling s) (climb_inputs H path (merkle_node H acc (ps_sibling s))))"

definition verify_inputs :: "hash_fn \<Rightarrow> bytes \<Rightarrow> inclusion_proof \<Rightarrow> bytes set" where
  "verify_inputs H h pf = {DOMAIN_LEAF @ h} \<union> climb_inputs H (ip_path pf) (merkle_leaf H h)
     \<union> {DOMAIN_ROOT @ to_le_bytes (ip_leaf_count pf) @ proof_climb H (ip_path pf) (merkle_leaf H h)}"

lemma climb_inputs_append:
  "climb_inputs H (p @ q) acc = climb_inputs H p acc \<union> climb_inputs H q (proof_climb H p acc)"
  by (induction p arbitrary: acc) (auto simp: proof_climb_def)

lemma domains_differ: "DOMAIN_LEAF @ a \<noteq> DOMAIN_NODE @ b"
  by (simp add: DOMAIN_LEAF_def DOMAIN_NODE_def ascii_def)

lemma in_tree_length32: "digest32 H \<Longrightarrow> in_tree H hashes I v \<Longrightarrow> length v = 32"
  by (erule in_tree.cases) simp_all

lemma climb_length32:
  "digest32 H \<Longrightarrow> length (proof_climb H p (merkle_leaf H h)) = 32"
  by (induction p rule: rev_induct) (auto simp: proof_climb_def)

lemma climb_sound:
  assumes "digest32 H" "inj_on H I" "\<forall>s \<in> set path. length (ps_sibling s) = 32"
    and "insert (DOMAIN_LEAF @ h) (climb_inputs H path (merkle_leaf H h)) \<subseteq> I"
    and "in_tree H hashes I (proof_climb H path (merkle_leaf H h))"
  shows "h \<in> set hashes"
  using assms(3-5)
proof (induction path rule: rev_induct)
  case Nil
  then have "in_tree H hashes I (merkle_leaf H h)" by (simp add: proof_climb_def)
  then show ?case
  proof (cases rule: in_tree.cases)
    case (leaf h')
    have "DOMAIN_LEAF @ h = DOMAIN_LEAF @ h'"
      by (rule inj_onD2 [OF assms(2) leaf(1) [unfolded merkle_leaf_def] _ leaf(3)]) (use Nil.prems in simp)
    then show ?thesis using leaf by simp
  next
    case (node l r)
    have "DOMAIN_LEAF @ h = DOMAIN_NODE @ l @ r"
      by (rule inj_onD2 [OF assms(2) node(1) [unfolded merkle_leaf_def merkle_node_def] _ node(4)])
         (use Nil.prems in simp)
    then show ?thesis using domains_differ by simp
  qed
next
  case (snoc s path)
  let ?acc = "proof_climb H path (merkle_leaf H h)"
  obtain x y where xy: "proof_climb H (path @ [s]) (merkle_leaf H h) = merkle_node H x y"
    and mem: "DOMAIN_NODE @ x @ y \<in> I" and acc: "?acc = x \<or> ?acc = y" and len: "length x = 32"
    using snoc.prems climb_length32 [OF assms(1), of path h]
    by (cases "ps_sibling_is_left s") (auto simp: climb_inputs_append proof_climb_def)
  from snoc.prems(3) have "in_tree H hashes I ?acc"
  proof (cases rule: in_tree.cases)
    case (leaf h')
    have "merkle_leaf H h' = merkle_node H x y" by (rule trans [OF leaf(1) [symmetric] xy])
    then have "DOMAIN_LEAF @ h' = DOMAIN_NODE @ x @ y"
      unfolding merkle_leaf_def merkle_node_def by (rule inj_onD2 [OF assms(2) _ leaf(3) mem])
    then show ?thesis using domains_differ by simp
  next
    case (node l r)
    have "x = l \<and> y = r"
      using in_tree_length32 [OF assms(1) node(2)] len
      by (intro merkle_node_inj [OF assms(2) mem node(4) _ node(1) [unfolded xy]]) simp
    then show ?thesis using node acc by auto
  qed
  then show ?case using snoc by (simp add: climb_inputs_append)
qed

text \<open>C25. An accepted inclusion proof is true: if the verifier accepts a proof, of any shape, for a record hash
  against the root of a non-empty segment, then that record hash is in the segment, as long as the hash
  has no collision among the inputs hashed for the segment and for the verification. The separate
  leaf and node domains are what excludes passing an inner node off as a record.\<close>

theorem inclusion_proof_sound:
  assumes "digest32 H" and "hashes \<noteq> []" and "length hashes < 2 ^ 64"
    and "\<forall>s \<in> set (ip_path pf). length (ps_sibling s) = 32"
    and "inj_on H (segment_inputs H hashes \<union> verify_inputs H h pf)"
    and "verify_inclusion_proof H h pf (root_of_record_hashes H hashes)"
  shows "h \<in> set hashes"
proof -
  let ?I = "segment_inputs H hashes \<union> verify_inputs H h pf"
  obtain r where r: "merkle_tree H (map (merkle_leaf H) hashes) = Some r"
    using merkle_tree_ne [of "map (merkle_leaf H) hashes" H] assms(2) by auto
  have "H (DOMAIN_ROOT @ to_le_bytes (ip_leaf_count pf) @ proof_climb H (ip_path pf) (merkle_leaf H h))
      = H (DOMAIN_ROOT @ to_le_bytes (word_of_nat (length hashes) :: u64) @ r)"
    using assms(3,6) r by (simp add: verify_inclusion_proof_def root_of_record_hashes_eq seal_root_def)
  then have "DOMAIN_ROOT @ to_le_bytes (ip_leaf_count pf) @ proof_climb H (ip_path pf) (merkle_leaf H h)
      = DOMAIN_ROOT @ to_le_bytes (word_of_nat (length hashes) :: u64) @ r"
    by (rule inj_onD2 [OF assms(5)]) (simp_all add: segment_inputs_def verify_inputs_def r)
  then have "proof_climb H (ip_path pf) (merkle_leaf H h) = r" by simp
  moreover have "in_tree H hashes ?I r"
    by (rule in_tree_root [OF _ _ r]) (auto simp: segment_inputs_def intro!: in_tree.leaf)
  ultimately show ?thesis
    using assms(4) by (intro climb_sound [OF assms(1,5)]) (auto simp: verify_inputs_def)
qed

lemma inclusion_proof_sound_witness: "[1] \<in> set [[1 :: u8]]"
proof -
  let ?pf = "\<lparr>ip_leaf_index = 0, ip_leaf_count = 1, ip_path = []\<rparr>"
  have "inj_on toy_hash (segment_inputs toy_hash [[1]] \<union> verify_inputs toy_hash [1] ?pf)"
    by (auto simp: segment_inputs_def verify_inputs_def tree_inputs.simps merkle_leaf_def toy_hash_def
        proof_climb_def inj_on_def DOMAIN_LEAF_def DOMAIN_ROOT_def ascii_def)
  moreover have "verify_inclusion_proof toy_hash [1] ?pf (root_of_record_hashes toy_hash [[1]])"
    by (simp add: verify_inclusion_proof_def root_of_record_hashes_eq proof_climb_def)
  ultimately show ?thesis by (intro inclusion_proof_sound [OF toy_digest, of _ ?pf]) simp_all
qed

end
