(* ===== verification/V6_Compress.thy ===== *)
theory V6_Compress
  imports Catalog V6_Merkle
begin

text \<open>
  \<open>heraclitus-log/src/v6/compress.rs\<close>: block compression with the RAW fallback, and decompression
  against a declared length. The zstd and lz4 libraries are a parameter; the laws the code relies on
  are \<open>codecs_lossless\<close>.
\<close>

text \<open>
  \<open>zstd::bulk::compress(data, level)\<close>, \<open>zstd::bulk::decompress(data, capacity)\<close>,
  \<open>lz4_flex::block::compress(data)\<close>, \<open>lz4_flex::block::decompress(data, size)\<close>; \<open>None\<close> is \<open>Err\<close>.
\<close>

record codecs =
  zstd_compress :: "bytes \<Rightarrow> int \<Rightarrow> bytes option"
  zstd_decompress :: "bytes \<Rightarrow> nat \<Rightarrow> bytes option"
  lz4_compress :: "bytes \<Rightarrow> bytes"
  lz4_decompress :: "bytes \<Rightarrow> nat \<Rightarrow> bytes option"

definition codecs_lossless :: "codecs \<Rightarrow> bool" where
  "codecs_lossless cs \<longleftrightarrow>
     (\<forall>data level c. zstd_compress cs data level = Some c \<longrightarrow> zstd_decompress cs c (length data) = Some data)
     \<and> (\<forall>data. lz4_decompress cs (lz4_compress cs data) (length data) = Some data)"

datatype packing_profile = Fast | Balanced | Archive

fun profile_codec :: "packing_profile \<Rightarrow> compression_codec" where
  "profile_codec Fast = Codec_Lz4Raw"
| "profile_codec Balanced = Codec_Zstd"
| "profile_codec Archive = Codec_Zstd"

fun profile_level :: "packing_profile \<Rightarrow> int" where
  "profile_level Fast = 1"
| "profile_level Balanced = 3"
| "profile_level Archive = 6"

text \<open>\<open>str::to_ascii_lowercase\<close>.\<close>

definition to_ascii_lowercase :: "bytes \<Rightarrow> bytes" where
  "to_ascii_lowercase s = map (\<lambda>b. if 0x41 \<le> b \<and> b \<le> 0x5A then b + 0x20 else b) s"

definition profile_parse :: "bytes \<Rightarrow> packing_profile option" where
  "profile_parse s = (let s = to_ascii_lowercase s in
     if s = ascii ''fast'' \<or> s = ascii ''throughput'' then Some Fast
     else if s = ascii ''balanced'' then Some Balanced
     else if s = ascii ''archive'' then Some Archive
     else None)"

text \<open>0.92 as an \<open>f32\<close>.\<close>

definition DEFAULT_RAW_FALLBACK_RATIO :: u32 where
  "DEFAULT_RAW_FALLBACK_RATIO = 0x3f6b851f"

text \<open>
  \<open>(c as f64) < data as f64 * ratio as f64\<close> with \<open>ratio\<close> given by its \<open>f32\<close> bits. A finite \<open>f32\<close> is
  \<open>m * 2 ^ (e - 150)\<close> with \<open>m < 2 ^ 24\<close>, so for \<open>data < 2 ^ 29\<close> the product fits the 53-bit
  mantissa of \<open>f64\<close> and the comparison is the exact one computed here. A NaN compares false, and so
  does everything against a negative ratio.
\<close>

definition below_ratio :: "nat \<Rightarrow> nat \<Rightarrow> u32 \<Rightarrow> bool" where
  "below_ratio c data ratio =
     (let bits = unat ratio; e = (bits div 2 ^ 23) mod 256; f = bits mod 2 ^ 23 in
      if 2 ^ 31 \<le> bits then False
      else if e = 255 then f = 0 \<and> 0 < data
      else (let m = (if e = 0 then f else f + 2 ^ 23); e' = (if e = 0 then 1 else e) in
        if e' \<le> 150 then c * 2 ^ (150 - e') < data * m else c < data * m * 2 ^ (e' - 150)))"

record compressed =
  cp_codec :: compression_codec
  cp_bytes :: bytes

definition compress_block :: "codecs \<Rightarrow> bytes \<Rightarrow> packing_profile \<Rightarrow> u32 \<Rightarrow> compressed v6_result" where
  "compress_block cs data profile raw_fallback_ratio =
     (if data = [] then Inr \<lparr>cp_codec = Codec_Raw, cp_bytes = []\<rparr>
      else (let codec = profile_codec profile in
        bindE (case codec of
            Codec_Raw \<Rightarrow> Inr None
          | Codec_Zstd \<Rightarrow> (case zstd_compress cs data (profile_level profile) of
                Some c \<Rightarrow> Inr (Some c)
              | None \<Rightarrow> Inl (corrupt ''hrkl v6 packer'' ''zstd compress failed''))
          | Codec_Lz4Raw \<Rightarrow> Inr (Some (lz4_compress cs data)))
        (\<lambda>candidate. case candidate of
            Some c \<Rightarrow> (if below_ratio (length c) (length data) raw_fallback_ratio
                       then Inr \<lparr>cp_codec = codec, cp_bytes = c\<rparr>
                       else Inr \<lparr>cp_codec = Codec_Raw, cp_bytes = data\<rparr>)
          | None \<Rightarrow> Inr \<lparr>cp_codec = Codec_Raw, cp_bytes = data\<rparr>)))"

definition decompress_block ::
    "codecs \<Rightarrow> compression_codec \<Rightarrow> bytes \<Rightarrow> nat \<Rightarrow> nat \<Rightarrow> bytes v6_result" where
  "decompress_block cs codec stored uncompressed_len max_block =
     (let CTX = ''hrkl v6 block''; ceiling = min max_block HARD_MAX_BLOCK_BYTES in
      if ceiling < uncompressed_len then Inl (corrupt CTX ''uncompressed_len exceeds configured maximum'')
      else bindE (case codec of
            Codec_Raw \<Rightarrow> (if length stored \<noteq> uncompressed_len
               then Inl (corrupt CTX ''raw block stores other than it declares'') else Inr stored)
          | Codec_Zstd \<Rightarrow> (case zstd_decompress cs stored uncompressed_len of
                Some x \<Rightarrow> Inr x | None \<Rightarrow> Inl (corrupt CTX ''zstd decompress failed''))
          | Codec_Lz4Raw \<Rightarrow> (case lz4_decompress cs stored uncompressed_len of
                Some x \<Rightarrow> Inr x | None \<Rightarrow> Inl (corrupt CTX ''lz4 decompress failed'')))
        (\<lambda>x. if length x \<noteq> uncompressed_len
             then Inl (corrupt CTX ''decompressed to other than the header declares'') else Inr x))"

section \<open>Lemmas\<close>

lemma decompress_block_length:
  "decompress_block cs codec stored n max_block = Inr x
    \<Longrightarrow> length x = n \<and> n \<le> max_block \<and> n \<le> HARD_MAX_BLOCK_BYTES"
  by (auto simp: decompress_block_def Let_def bindE_eq_Inr split: if_splits)

lemma compress_block_Inr:
  assumes "compress_block cs data profile ratio = Inr c"
  shows "cp_codec c = Codec_Raw \<and> cp_bytes c = data
    \<or> below_ratio (length (cp_bytes c)) (length data) ratio
      \<and> (cp_codec c = Codec_Zstd \<and> zstd_compress cs data (profile_level profile) = Some (cp_bytes c)
         \<or> cp_codec c = Codec_Lz4Raw \<and> cp_bytes c = lz4_compress cs data)"
  using assms
  by (cases profile)
     (auto simp: compress_block_def Let_def bindE_eq_Inr split: if_splits option.splits)

lemma decompress_compress:
  assumes "codecs_lossless cs" and "compress_block cs data profile ratio = Inr c"
    and "length data \<le> max_block" and "length data \<le> HARD_MAX_BLOCK_BYTES"
  shows "decompress_block cs (cp_codec c) (cp_bytes c) (length data) max_block = Inr data"
  using compress_block_Inr [OF assms(2)] assms(1,3,4)
  by (elim disjE conjE) (simp_all add: decompress_block_def codecs_lossless_def Let_def)

text \<open>A ratio of at most 1.0 only accepts a result that is strictly smaller.\<close>

lemma below_ratio_one:
  assumes "ratio \<le> 0x3f800000" and "below_ratio c data ratio"
  shows "c < data"
proof -
  obtain bits q f where bits: "bits = unat ratio" and q: "q = bits div 2 ^ 23" and f: "f = bits mod 2 ^ 23"
    by blast
  have le: "bits \<le> 127 * 2 ^ 23" using assms(1) by (simp add: bits word_le_nat_alt)
  have split: "bits = q * 2 ^ 23 + f" by (simp add: q f)
  have "f < 2 ^ 23" by (simp add: f)
  have q127: "q \<le> 127" using le split by simp
  obtain e m where e: "e = (if q = 0 then 1 else q)" and m: "m = (if q = 0 then f else f + 2 ^ 23)" by blast
  have "e \<le> 127" using q127 by (simp add: e)
  have "m \<le> 2 ^ (150 - e)"
  proof (cases "q = 127")
    case True
    then have "f = 0" using le split by simp
    then show ?thesis using True by (simp add: m e)
  next
    case False
    then have "e \<le> 126" using q127 by (simp add: e)
    then have "24 \<le> 150 - e" by simp
    then have "(2 :: nat) ^ 24 \<le> 2 ^ (150 - e)" by (rule power_increasing) simp
    moreover have "m \<le> 2 ^ 24" using \<open>f < 2 ^ 23\<close> by (simp add: m)
    ultimately show ?thesis by linarith
  qed
  then have "data * m \<le> data * 2 ^ (150 - e)" by simp
  moreover have "c * 2 ^ (150 - e) < data * m"
  proof -
    have "q mod 256 = q" using q127 by simp
    then show ?thesis
      using assms(2) le q127 \<open>e \<le> 127\<close>
      unfolding below_ratio_def Let_def bits [symmetric] q [symmetric] f [symmetric]
      by (auto simp: e m split: if_splits)
  qed
  ultimately have "c * 2 ^ (150 - e) < data * 2 ^ (150 - e)" by linarith
  then show ?thesis by simp
qed

section \<open>Properties\<close>

text \<open>Compression is transparent and never expands: whatever codec the profile selects and whether or
  not the RAW fallback is taken, decompressing the stored bytes to the recorded length gives back the
  block, and with a fallback ratio of at most 1.0 the stored form is never longer than the block.\<close>

theorem compress_transparent:
  assumes "codecs_lossless cs" and "compress_block cs data profile ratio = Inr c"
    and "length data \<le> max_block" and "length data \<le> HARD_MAX_BLOCK_BYTES"
  shows "decompress_block cs (cp_codec c) (cp_bytes c) (length data) max_block = Inr data
    \<and> (ratio \<le> 0x3f800000 \<longrightarrow> length (cp_bytes c) \<le> length data)"
  using decompress_compress [OF assms] compress_block_Inr [OF assms(2)] below_ratio_one
  by (auto intro: less_imp_le)

text \<open>A pair of codecs that satisfies the laws: run-length encoding of constant blocks.\<close>

definition toy_rle :: "bytes \<Rightarrow> bytes" where
  "toy_rle data = (if data \<noteq> [] \<and> data = replicate (length data) (hd data) then [hd data] else 0 # data @ [0])"

definition toy_unrle :: "bytes \<Rightarrow> nat \<Rightarrow> bytes option" where
  "toy_unrle c n = (if length c = 1 then Some (replicate n (hd c)) else Some (take n (tl c)))"

definition toy_codecs :: codecs where
  "toy_codecs = \<lparr>zstd_compress = \<lambda>d _. Some (toy_rle d), zstd_decompress = toy_unrle,
     lz4_compress = toy_rle, lz4_decompress = toy_unrle\<rparr>"

lemma toy_lossless: "codecs_lossless toy_codecs"
proof -
  have "toy_unrle (toy_rle d) (length d) = Some d" for d
    by (auto simp: toy_rle_def toy_unrle_def)
  then show ?thesis by (auto simp: codecs_lossless_def toy_codecs_def)
qed

lemma compress_transparent_witness:
  "decompress_block toy_codecs Codec_Zstd [7] (length [7, 7, 7, 7 :: u8]) 1024 = Inr [7, 7, 7, 7]"
proof -
  have "compress_block toy_codecs [7, 7, 7, 7] Balanced DEFAULT_RAW_FALLBACK_RATIO
      = Inr \<lparr>cp_codec = Codec_Zstd, cp_bytes = [7]\<rparr>"
  proof -
    have "toy_rle [7, 7, 7, 7] = [7]" by (simp add: toy_rle_def numeral_eq_Suc)
    moreover have "below_ratio (Suc 0) (Suc (Suc (Suc (Suc 0)))) DEFAULT_RAW_FALLBACK_RATIO"
      by (simp add: below_ratio_def DEFAULT_RAW_FALLBACK_RATIO_def)
    ultimately show ?thesis by (simp add: compress_block_def toy_codecs_def)
  qed
  from compress_transparent [OF toy_lossless this, of 1024] show ?thesis
    by (simp add: HARD_MAX_BLOCK_BYTES_def)
qed

end
