(* ===== verification/V6_Block.thy ===== *)
theory V6_Block
  imports Varint V6_Directory V6_Compress
begin

text \<open>
  \<open>heraclitus-log/src/v6/block.rs\<close>: blocks of a PACKED segment. The 64-byte block header, the builder
  (choice of encoding, delta encoding, restart points, compression), the cursor that reads records
  back, and the point lookup that starts at a restart point.
\<close>

section \<open>Header\<close>

definition BLOCK_MAGIC :: bytes where
  "BLOCK_MAGIC = [0x48, 0x42, 0x4C, 0x4B]"

definition BLOCK_HEADER_LEN :: nat where
  "BLOCK_HEADER_LEN = 64"

definition RESTART_ENTRY_LEN :: nat where
  "RESTART_ENTRY_LEN = 24"

definition MIN_BLOCK_TARGET :: nat where
  "MIN_BLOCK_TARGET = 64 * 1024"

definition DEFAULT_BLOCK_TARGET :: nat where
  "DEFAULT_BLOCK_TARGET = 256 * 1024"

definition MAX_BLOCK_TARGET :: nat where
  "MAX_BLOCK_TARGET = 1024 * 1024"

definition DEFAULT_RESTART_INTERVAL :: u16 where
  "DEFAULT_RESTART_INTERVAL = 64"

definition SPARSE_LSN :: u8 where
  "SPARSE_LSN = 1"

definition HLC_ABSOLUTE :: u8 where
  "HLC_ABSOLUTE = 2"

definition LARGE_RECORD :: u8 where
  "LARGE_RECORD = 4"

definition KNOWN_FLAGS :: u8 where
  "KNOWN_FLAGS = SPARSE_LSN OR HLC_ABSOLUTE OR LARGE_RECORD"

definition RECORD_FLAG_BITS :: nat where
  "RECORD_FLAG_BITS = 3"

definition RECORD_FLAG_MASK :: u64 where
  "RECORD_FLAG_MASK = 7"

record block_header =
  bh_codec :: compression_codec
  bh_flags :: u8
  bh_uncompressed_len :: u32
  bh_compressed_len :: u32
  bh_record_count :: u32
  bh_restart_interval :: u16
  bh_restart_count :: u16
  bh_first_lsn :: lsn
  bh_last_lsn :: lsn
  bh_base_hlc :: u64
  bh_max_hlc :: u64
  bh_dictionary_id :: u32

definition is_sparse_lsn :: "block_header \<Rightarrow> bool" where
  "is_sparse_lsn h = (bh_flags h AND SPARSE_LSN \<noteq> 0)"

definition is_hlc_absolute :: "block_header \<Rightarrow> bool" where
  "is_hlc_absolute h = (bh_flags h AND HLC_ABSOLUTE \<noteq> 0)"

definition is_large_record :: "block_header \<Rightarrow> bool" where
  "is_large_record h = (bh_flags h AND LARGE_RECORD \<noteq> 0)"

definition block_header_start :: "block_header \<Rightarrow> bytes" where
  "block_header_start h = BLOCK_MAGIC @ to_le_bytes (64 :: u16) @ [compression_codec_u8 (bh_codec h)] @ [bh_flags h]
     @ to_le_bytes (bh_uncompressed_len h) @ to_le_bytes (bh_compressed_len h)
     @ to_le_bytes (bh_record_count h) @ to_le_bytes (bh_restart_interval h)
     @ to_le_bytes (bh_restart_count h) @ to_le_bytes (bh_first_lsn h) @ to_le_bytes (bh_last_lsn h)
     @ to_le_bytes (bh_base_hlc h) @ to_le_bytes (bh_max_hlc h)"

definition block_encode_with_crc :: "block_header \<Rightarrow> u32 \<Rightarrow> bytes" where
  "block_encode_with_crc h crc = block_header_start h @ to_le_bytes crc @ to_le_bytes (bh_dictionary_id h)"

definition block_header_encode :: "block_header \<Rightarrow> bytes \<Rightarrow> bytes" where
  "block_header_encode h stored =
     (let crc = crc32c_finalize (crc32c_update (crc32c_update crc32c_new (block_encode_with_crc h 0)) stored)
      in block_encode_with_crc h crc)"

definition block_check_coherence :: "block_header \<Rightarrow> nat \<Rightarrow> unit v6_result" where
  "block_check_coherence h stored_len = (let CTX = ''hrkl v6 block header'' in
     if unat (bh_compressed_len h) \<noteq> stored_len then Inl (corrupt CTX ''compressed_len != stored bytes'')
     else if HARD_MAX_BLOCK_BYTES < unat (bh_uncompressed_len h)
       then Inl (corrupt CTX ''uncompressed_len above hard maximum'')
     else if bh_record_count h = 0 then Inl (corrupt CTX ''empty block'')
     else if bh_first_lsn h > bh_last_lsn h then Inl (corrupt CTX ''first_lsn > last_lsn'')
     else if bh_base_hlc h > bh_max_hlc h then Inl (corrupt CTX ''base_hlc > max_hlc'')
     else if bh_restart_interval h = 0 then Inl (corrupt CTX ''restart_interval is zero'')
     else if unat (bh_restart_count h)
         \<noteq> (unat (bh_record_count h) + unat (bh_restart_interval h) - 1) div unat (bh_restart_interval h)
       then Inl (corrupt CTX ''restart_count != ceil'')
     else if unat (bh_uncompressed_len h) < unat (bh_restart_count h) * RESTART_ENTRY_LEN
       then Inl (corrupt CTX ''restart array does not fit in the block'')
     else if \<not> is_sparse_lsn h \<and> saturating_add (bh_last_lsn h - bh_first_lsn h) 1 \<noteq> ucast (bh_record_count h)
       then Inl (corrupt CTX ''contiguous block whose LSN span does not match record_count'')
     else Inr ())"

definition block_header_decode :: "bytes \<Rightarrow> bytes \<Rightarrow> block_header v6_result" where
  "block_header_decode buf stored = (let CTX = ''hrkl v6 block header'' in
     if length buf < BLOCK_HEADER_LEN then Inl (corrupt CTX ''short block header'')
     else if field 0 4 buf \<noteq> BLOCK_MAGIC then Inl (corrupt CTX ''bad block magic'')
     else if unat (from_le_bytes (field 4 2 buf) :: u16) \<noteq> BLOCK_HEADER_LEN
       then Inl (corrupt CTX ''header_len != 64'')
     else if (from_le_bytes (field 56 4 buf) :: u32)
         \<noteq> crc32c_finalize (crc32c_update (crc32c_update crc32c_new
              (overwrite 56 (replicate 4 0) (take BLOCK_HEADER_LEN buf))) stored)
       then Inl (corrupt CTX ''crc32c mismatch'')
     else if buf ! 7 AND NOT KNOWN_FLAGS \<noteq> 0 then Inl (corrupt CTX ''unknown block flag bits'')
     else bindE (compression_codec_from_u8 (buf ! 6)) (\<lambda>codec.
       let hdr = \<lparr>bh_codec = codec, bh_flags = buf ! 7, bh_uncompressed_len = from_le_bytes (field 8 4 buf),
         bh_compressed_len = from_le_bytes (field 12 4 buf), bh_record_count = from_le_bytes (field 16 4 buf),
         bh_restart_interval = from_le_bytes (field 20 2 buf), bh_restart_count = from_le_bytes (field 22 2 buf),
         bh_first_lsn = from_le_bytes (field 24 8 buf), bh_last_lsn = from_le_bytes (field 32 8 buf),
         bh_base_hlc = from_le_bytes (field 40 8 buf), bh_max_hlc = from_le_bytes (field 48 8 buf),
         bh_dictionary_id = from_le_bytes (field 60 4 buf)\<rparr>
       in bindE (block_check_coherence hdr (length stored)) (\<lambda>_. Inr hdr)))"

definition records_region_len :: "block_header \<Rightarrow> nat" where
  "records_region_len h = unat (bh_uncompressed_len h) - unat (bh_restart_count h) * RESTART_ENTRY_LEN"

definition to_directory_entry :: "block_header \<Rightarrow> u64 \<Rightarrow> block_directory_entry" where
  "to_directory_entry h offset = \<lparr>bd_offset = offset, bd_stored_len = bh_compressed_len h,
     bd_uncompressed_len = bh_uncompressed_len h, bd_record_count = bh_record_count h,
     bd_flags = ucast (bh_flags h), bd_first_lsn = bh_first_lsn h, bd_last_lsn = bh_last_lsn h,
     bd_min_hlc = bh_base_hlc h, bd_max_hlc = bh_max_hlc h\<rparr>"

section \<open>Restart points\<close>

record restart_point =
  rp_ordinal :: u32
  rp_byte_offset :: u32
  rp_absolute_hlc :: u64
  rp_absolute_lsn :: lsn

definition restart_encode :: "restart_point \<Rightarrow> bytes" where
  "restart_encode r = to_le_bytes (rp_ordinal r) @ to_le_bytes (rp_byte_offset r)
     @ to_le_bytes (rp_absolute_hlc r) @ to_le_bytes (rp_absolute_lsn r)"

definition restart_decode :: "bytes \<Rightarrow> restart_point" where
  "restart_decode buf = \<lparr>rp_ordinal = from_le_bytes (field 0 4 buf), rp_byte_offset = from_le_bytes (field 4 4 buf),
     rp_absolute_hlc = from_le_bytes (field 8 8 buf), rp_absolute_lsn = from_le_bytes (field 16 8 buf)\<rparr>"

section \<open>Builder\<close>

text \<open>\<open>PendingRecord\<close> on the way in and \<open>BlockRecord\<close> on the way out have the same fields.\<close>

record block_record =
  br_lsn :: lsn
  br_hlc :: u64
  br_payload :: bytes

record built_block =
  bb_header :: block_header
  bb_header_bytes :: bytes
  bb_stored :: bytes
  bb_logical_payload_bytes :: u64

definition built_total_len :: "built_block \<Rightarrow> nat" where
  "built_total_len b = BLOCK_HEADER_LEN + length (bb_stored b)"

fun monotonic_hlcs :: "block_record list \<Rightarrow> bool" where
  "monotonic_hlcs (a # b # rs) = (br_hlc b \<ge> br_hlc a \<and> monotonic_hlcs (b # rs))"
| "monotonic_hlcs _ = True"

definition contiguous_lsns :: "block_record list \<Rightarrow> bool" where
  "contiguous_lsns rs = list_all (\<lambda>(i, r). br_lsn r = br_lsn (hd rs) + word_of_nat i) (enumerate 0 rs)"

text \<open>The bytes of one record: \<open>record_meta\<close>, the LSN in a sparse block, the HLC, the payload.\<close>

definition put_record ::
    "bool \<Rightarrow> bool \<Rightarrow> bool \<Rightarrow> bytes \<Rightarrow> lsn \<Rightarrow> u64 \<Rightarrow> block_record \<Rightarrow> bytes v6_result" where
  "put_record sparse hlc_absolute is_restart body prev_lsn prev_hlc r =
     (let CTX = ''hrkl v6 block builder'' in
      if HARD_MAX_RECORD_BYTES < length (br_payload r) then Inl (corrupt CTX ''record exceeds hard maximum'')
      else (let body = put_varint body (push_bit RECORD_FLAG_BITS (word_of_nat (length (br_payload r)))) in
      bindE (if sparse then (if is_restart then Inr (put_varint body (br_lsn r))
             else (case checked_sub (br_lsn r) prev_lsn of
                 Some delta \<Rightarrow> Inr (put_varint body delta)
               | None \<Rightarrow> Inl (corrupt CTX ''LSN went backwards'')))
             else Inr body) (\<lambda>body.
      bindE (if hlc_absolute \<or> is_restart then Inr (put_varint body (br_hlc r))
             else (case checked_sub (br_hlc r) prev_hlc of
                 Some delta \<Rightarrow> Inr (put_varint body delta)
               | None \<Rightarrow> Inl (corrupt CTX ''HLC went backwards in a monotonic block''))) (\<lambda>body.
      Inr (body @ br_payload r)))))"

fun build_records ::
    "nat \<Rightarrow> bool \<Rightarrow> bool \<Rightarrow> nat \<Rightarrow> bytes \<Rightarrow> restart_point list \<Rightarrow> lsn \<Rightarrow> u64 \<Rightarrow> block_record list
      \<Rightarrow> (bytes \<times> restart_point list) v6_result" where
  "build_records ri sparse hlc_absolute i body restarts prev_lsn prev_hlc [] = Inr (body, restarts)"
| "build_records ri sparse hlc_absolute i body restarts prev_lsn prev_hlc (r # rs) =
     (let is_restart = (i mod ri = 0) in
      bindE (if is_restart
             then (if length body < 2 ^ 32
                   then Inr (restarts @ [\<lparr>rp_ordinal = word_of_nat i, rp_byte_offset = word_of_nat (length body),
                          rp_absolute_hlc = br_hlc r, rp_absolute_lsn = br_lsn r\<rparr>])
                   else Inl (corrupt ''hrkl v6 block builder'' ''block body exceeds 4 GiB''))
             else Inr restarts) (\<lambda>restarts.
      bindE (put_record sparse hlc_absolute is_restart body prev_lsn prev_hlc r) (\<lambda>body.
      build_records ri sparse hlc_absolute (i + 1) body restarts (br_lsn r) (br_hlc r) rs)))"

definition block_flags_of :: "block_record list \<Rightarrow> u8" where
  "block_flags_of rs = (if contiguous_lsns rs then 0 else SPARSE_LSN)
     OR (if monotonic_hlcs rs then 0 else HLC_ABSOLUTE)
     OR (if length rs = 1 \<and> DEFAULT_BLOCK_TARGET < length (br_payload (hd rs)) then LARGE_RECORD else 0)"

definition build_block ::
    "codecs \<Rightarrow> block_record list \<Rightarrow> u16 \<Rightarrow> packing_profile \<Rightarrow> u32 \<Rightarrow> built_block v6_result" where
  "build_block cs rs restart_interval profile raw_fallback_ratio = (let CTX = ''hrkl v6 block builder'' in
     if rs = [] then Inl (corrupt CTX ''cannot build an empty block'')
     else (let restart_interval = max restart_interval 1;
               first_lsn = br_lsn (hd rs); last_lsn = br_lsn (last rs);
               base_hlc = Min (set (map br_hlc rs)); max_hlc = Max (set (map br_hlc rs));
               flags = block_flags_of rs;
               sparse = (flags AND SPARSE_LSN \<noteq> 0); hlc_absolute = (flags AND HLC_ABSOLUTE \<noteq> 0) in
     bindE (build_records (unat restart_interval) sparse hlc_absolute 0 [] [] first_lsn (br_hlc (hd rs)) rs)
       (\<lambda>(records, restarts).
     let body = records @ concat (map restart_encode restarts) in
     if \<not> length body < 2 ^ 32 then Inl (corrupt CTX ''block exceeds 4 GiB uncompressed'')
     else bindE (compress_block cs body profile raw_fallback_ratio) (\<lambda>compressed.
     if \<not> length (cp_bytes compressed) < 2 ^ 32 then Inl (corrupt CTX ''block exceeds 4 GiB stored'')
     else if \<not> length restarts < 2 ^ 16 then Inl (corrupt CTX ''too many restart points for u16'')
     else (let header = \<lparr>bh_codec = cp_codec compressed, bh_flags = flags,
         bh_uncompressed_len = word_of_nat (length body), bh_compressed_len = word_of_nat (length (cp_bytes compressed)),
         bh_record_count = word_of_nat (length rs), bh_restart_interval = restart_interval,
         bh_restart_count = word_of_nat (length restarts), bh_first_lsn = first_lsn, bh_last_lsn = last_lsn,
         bh_base_hlc = base_hlc, bh_max_hlc = max_hlc, bh_dictionary_id = 0\<rparr>
       in Inr \<lparr>bb_header = header, bb_header_bytes = block_header_encode header (cp_bytes compressed),
         bb_stored = cp_bytes compressed,
         bb_logical_payload_bytes = sum_list (map (\<lambda>r. word_of_nat (length (br_payload r))) rs)\<rparr>)))))"

record block_builder =
  bu_records :: "block_record list"
  bu_approx_uncompressed :: nat
  bu_block_target :: nat
  bu_restart_interval :: u16

definition builder_new :: "nat \<Rightarrow> u16 \<Rightarrow> block_builder" where
  "builder_new block_target restart_interval = \<lparr>bu_records = [], bu_approx_uncompressed = 0,
     bu_block_target = max MIN_BLOCK_TARGET (min block_target MAX_BLOCK_TARGET),
     bu_restart_interval = max restart_interval 1\<rparr>"

definition would_overflow :: "block_builder \<Rightarrow> nat \<Rightarrow> bool" where
  "would_overflow b payload_len =
     (bu_records b \<noteq> [] \<and> bu_block_target b < bu_approx_uncompressed b + payload_len + 16)"

definition builder_push :: "block_builder \<Rightarrow> lsn \<Rightarrow> u64 \<Rightarrow> bytes \<Rightarrow> block_builder" where
  "builder_push b k hlc payload =
     b\<lparr>bu_approx_uncompressed := bu_approx_uncompressed b + (length payload + 16),
       bu_records := bu_records b @ [\<lparr>br_lsn = k, br_hlc = hlc, br_payload = payload\<rparr>]\<rparr>"

text \<open>\<open>std::mem::take\<close> empties the builder before \<open>build_block\<close> can fail.\<close>

definition builder_finish ::
    "codecs \<Rightarrow> block_builder \<Rightarrow> packing_profile \<Rightarrow> u32 \<Rightarrow> built_block option v6_result \<times> block_builder" where
  "builder_finish cs b profile raw_fallback_ratio =
     (if bu_records b = [] then (Inr None, b)
      else (bindE (build_block cs (bu_records b) (bu_restart_interval b) profile raw_fallback_ratio) (\<lambda>built. Inr (Some built)),
            b\<lparr>bu_records := [], bu_approx_uncompressed := 0\<rparr>))"

section \<open>Reader\<close>

definition decompress_body :: "codecs \<Rightarrow> block_header \<Rightarrow> bytes \<Rightarrow> nat \<Rightarrow> bytes v6_result" where
  "decompress_body cs h stored max_block =
     decompress_block cs (bh_codec h) stored (unat (bh_uncompressed_len h)) max_block"

definition read_restart :: "block_header \<Rightarrow> bytes \<Rightarrow> nat \<Rightarrow> restart_point v6_result" where
  "read_restart h body i = (let CTX = ''hrkl v6 block restarts''; region = records_region_len h in
     bindE (slice_at body (region + i * RESTART_ENTRY_LEN) RESTART_ENTRY_LEN CTX) (\<lambda>raw.
     let e = restart_decode raw in
     if region \<le> unat (rp_byte_offset e) then Inl (corrupt CTX ''restart byte_offset outside the records region'')
     else if unat (rp_ordinal e) \<noteq> i * unat (bh_restart_interval h)
       then Inl (corrupt CTX ''restart ordinal does not follow restart_interval'')
     else if bh_record_count h \<le> rp_ordinal e then Inl (corrupt CTX ''restart ordinal beyond record_count'')
     else Inr e))"

definition read_restarts :: "block_header \<Rightarrow> bytes \<Rightarrow> restart_point list v6_result" where
  "read_restarts h body =
     bindE (mapE (read_restart h body) [0..<unat (bh_restart_count h)]) (\<lambda>out.
       case out of
         r # _ \<Rightarrow> (if rp_ordinal r \<noteq> 0 \<or> rp_byte_offset r \<noteq> 0
            then Inl (corrupt ''hrkl v6 block restarts'' ''first restart point must be at ordinal 0, offset 0'')
            else Inr out)
       | [] \<Rightarrow> Inr out)"

record record_cursor =
  rc_pos :: nat
  rc_ordinal :: u32
  rc_prev_lsn :: lsn
  rc_prev_hlc :: u64

definition cursor_start :: "block_header \<Rightarrow> bytes \<Rightarrow> record_cursor v6_result" where
  "cursor_start h body =
     (if length body \<noteq> unat (bh_uncompressed_len h)
      then Inl (corrupt ''hrkl v6 block'' ''body length does not match uncompressed_len'')
      else Inr \<lparr>rc_pos = 0, rc_ordinal = 0, rc_prev_lsn = bh_first_lsn h, rc_prev_hlc = bh_base_hlc h\<rparr>)"

definition cursor_at_restart :: "block_header \<Rightarrow> bytes \<Rightarrow> restart_point \<Rightarrow> record_cursor v6_result" where
  "cursor_at_restart h body rp = bindE (cursor_start h body) (\<lambda>c. Inr
     (c\<lparr>rc_pos := unat (rp_byte_offset rp), rc_ordinal := rp_ordinal rp, rc_prev_lsn := rp_absolute_lsn rp,
        rc_prev_hlc := rp_absolute_hlc rp\<rparr>))"

text \<open>The two parts of \<open>next_record\<close> that undo the delta encoding.\<close>

definition cursor_lsn :: "block_header \<Rightarrow> bytes \<Rightarrow> record_cursor \<Rightarrow> bool \<Rightarrow> nat \<Rightarrow> (lsn \<times> nat) v6_result" where
  "cursor_lsn h region c is_restart_boundary pos = (let CTX = ''hrkl v6 packed record'' in
     if is_sparse_lsn h
     then bindE (read_varint (drop pos region) CTX) (\<lambda>(raw, n).
       if is_restart_boundary then Inr (raw, pos + n)
       else (case checked_add (rc_prev_lsn c) raw of
           Some k \<Rightarrow> Inr (k, pos + n)
         | None \<Rightarrow> Inl (corrupt CTX ''LSN delta overflows u64'')))
     else (case checked_add (bh_first_lsn h) (ucast (rc_ordinal c)) of
         Some k \<Rightarrow> Inr (k, pos)
       | None \<Rightarrow> Inl (corrupt CTX ''LSN overflows u64'')))"

definition cursor_hlc :: "block_header \<Rightarrow> bytes \<Rightarrow> record_cursor \<Rightarrow> bool \<Rightarrow> nat \<Rightarrow> (u64 \<times> nat) v6_result" where
  "cursor_hlc h region c is_restart_boundary pos = (let CTX = ''hrkl v6 packed record'' in
     bindE (read_varint (drop pos region) CTX) (\<lambda>(hlc_raw, n).
       if is_hlc_absolute h \<or> is_restart_boundary then Inr (hlc_raw, pos + n)
       else (case checked_add (rc_prev_hlc c) hlc_raw of
           Some hlc \<Rightarrow> Inr (hlc, pos + n)
         | None \<Rightarrow> Inl (corrupt CTX ''HLC delta overflows u64''))))"

definition next_record :: "block_header \<Rightarrow> bytes \<Rightarrow> record_cursor \<Rightarrow> (block_record option \<times> record_cursor) v6_result" where
  "next_record h body c = (let CTX = ''hrkl v6 packed record''; region_end = records_region_len h in
     if rc_ordinal c \<ge> bh_record_count h \<or> rc_pos c \<ge> region_end then Inr (None, c)
     else (let region = take region_end body in
     bindE (read_varint (drop (rc_pos c) region) CTX) (\<lambda>(meta, n).
     if meta AND RECORD_FLAG_MASK \<noteq> 0 then Inl (corrupt CTX ''reserved record flag bits are set'')
     else (let payload_len = unat (drop_bit RECORD_FLAG_BITS meta) in
     if HARD_MAX_RECORD_BYTES < payload_len then Inl (corrupt CTX ''payload_len above hard maximum'')
     else (let is_restart_boundary = (unat (rc_ordinal c) mod unat (bh_restart_interval h) = 0) in
     bindE (cursor_lsn h region c is_restart_boundary (rc_pos c + n)) (\<lambda>(k, pos).
     if k < bh_first_lsn h \<or> k > bh_last_lsn h
     then Inl (corrupt CTX ''record LSN falls outside the declared range'')
     else bindE (cursor_hlc h region c is_restart_boundary pos) (\<lambda>(hlc, pos).
     if hlc < bh_base_hlc h \<or> hlc > bh_max_hlc h
     then Inl (corrupt CTX ''record HLC falls outside the declared zone map'')
     else bindE (slice_at region pos payload_len CTX) (\<lambda>payload.
     Inr (Some \<lparr>br_lsn = k, br_hlc = hlc, br_payload = payload\<rparr>,
          \<lparr>rc_pos = pos + payload_len, rc_ordinal = rc_ordinal c + 1, rc_prev_lsn = k, rc_prev_hlc = hlc\<rparr>)))))))))"

lemma next_record_ordinal:
  assumes "next_record h body c = Inr (Some r, c')"
  shows "rc_ordinal c < bh_record_count h \<and> unat (rc_ordinal c') = unat (rc_ordinal c) + 1"
proof -
  have "rc_ordinal c' = rc_ordinal c + 1" and lt: "rc_ordinal c < bh_record_count h"
    using assms by (auto simp: next_record_def Let_def bindE_eq_Inr not_le split: if_splits)
  moreover have "unat (rc_ordinal c + 1) = unat (rc_ordinal c) + 1"
    using lt unat_lt_u32 [of "bh_record_count h"]
    by (intro trans [OF iffD1 [OF unat_add_lem]]) (auto simp: word_less_nat_alt)
  ultimately show ?thesis by simp
qed

text \<open>\<open>while let Some(r) = cur.next_record()? { out.push(r) }\<close>.\<close>

function remaining_records :: "block_header \<Rightarrow> bytes \<Rightarrow> record_cursor \<Rightarrow> block_record list v6_result" where
  "remaining_records h body c = bindE (next_record h body c) (\<lambda>(r, c'). case r of
       Some r \<Rightarrow> bindE (remaining_records h body c') (\<lambda>rs. Inr (r # rs))
     | None \<Rightarrow> Inr [])"
  by pat_completeness auto
termination
  by (relation "measure (\<lambda>(h, body, c). unat (bh_record_count h) - unat (rc_ordinal c))")
     (auto dest!: next_record_ordinal simp: word_less_nat_alt)

definition decode_block_records :: "block_header \<Rightarrow> bytes \<Rightarrow> block_record list v6_result" where
  "decode_block_records h body =
     bindE (cursor_start h body) (\<lambda>c. bindE (remaining_records h body c) (\<lambda>out.
       if length out \<noteq> unat (bh_record_count h)
       then Inl (corrupt ''hrkl v6 block'' ''decoded records, header declares others'') else Inr out))"

text \<open>The scan of the point lookup; \<open>seen\<close> counts the records passed over.\<close>

function scan_for :: "block_header \<Rightarrow> bytes \<Rightarrow> lsn \<Rightarrow> record_cursor \<Rightarrow> nat \<Rightarrow> block_record option v6_result" where
  "scan_for h body k c seen = bindE (next_record h body c) (\<lambda>(r, c'). case r of
       Some r \<Rightarrow> (if br_lsn r = k then Inr (Some r)
                 else if br_lsn r > k then Inr None
                 else if seen + 1 \<ge> unat (bh_restart_interval h) then Inr None
                 else scan_for h body k c' (seen + 1))
     | None \<Rightarrow> Inr None)"
  by pat_completeness auto
termination
  by (relation "measure (\<lambda>(h, body, k, c, seen). unat (bh_record_count h) - unat (rc_ordinal c))")
     (auto dest!: next_record_ordinal simp: word_less_nat_alt)

declare remaining_records.simps [simp del] scan_for.simps [simp del]

definition get_opt :: "'a list \<Rightarrow> nat \<Rightarrow> 'a option" where
  "get_opt xs i = (if i < length xs then Some (xs ! i) else None)"

definition find_record_in_block :: "block_header \<Rightarrow> bytes \<Rightarrow> lsn \<Rightarrow> block_record option v6_result" where
  "find_record_in_block h body k =
     (if k < bh_first_lsn h \<or> k > bh_last_lsn h then Inr None
      else bindE (read_restarts h body) (\<lambda>restarts.
        case (if is_sparse_lsn h
              then get_opt restarts (partition_point (\<lambda>r. rp_absolute_lsn r \<le> k) restarts - 1)
              else get_opt restarts (unat ((ucast (k - bh_first_lsn h) :: u32) div ucast (bh_restart_interval h)))) of
          None \<Rightarrow> Inr None
        | Some rp \<Rightarrow> bindE (cursor_at_restart h body rp) (\<lambda>cur. scan_for h body k cur 0)))"

definition record_meta_len :: "nat \<Rightarrow> nat" where
  "record_meta_len payload_len = varint_len (push_bit RECORD_FLAG_BITS (word_of_nat payload_len))"

end
