(* ===== verification/V6_Block_Correct.thy ===== *)
theory V6_Block_Correct
  imports V6_Block
begin

text \<open>
  What a block stands for. \<open>describes h body rs\<close> says that header and decompressed body represent the
  records \<open>rs\<close>; the builder establishes it, and under it the cursor reads exactly \<open>rs\<close> and the point
  lookup, which scans at most one restart interval, agrees with a linear search.
\<close>

section \<open>Header round trip\<close>

lemma length_block_header_start [layout_simps]: "length (block_header_start h) = 56"
  by (simp add: block_header_start_def BLOCK_MAGIC_def)

lemma length_block_encode_with_crc [layout_simps]: "length (block_encode_with_crc h crc) = 64"
  by (simp add: block_encode_with_crc_def length_block_header_start)

lemma block_header_fields:
  "field 0 4 (block_header_start h @ r) = BLOCK_MAGIC"
  "field 4 2 (block_header_start h @ r) = to_le_bytes (64 :: u16)"
  "field 6 1 (block_header_start h @ r) = [compression_codec_u8 (bh_codec h)]"
  "field 7 1 (block_header_start h @ r) = [bh_flags h]"
  "field 8 4 (block_header_start h @ r) = to_le_bytes (bh_uncompressed_len h)"
  "field 12 4 (block_header_start h @ r) = to_le_bytes (bh_compressed_len h)"
  "field 16 4 (block_header_start h @ r) = to_le_bytes (bh_record_count h)"
  "field 20 2 (block_header_start h @ r) = to_le_bytes (bh_restart_interval h)"
  "field 22 2 (block_header_start h @ r) = to_le_bytes (bh_restart_count h)"
  "field 24 8 (block_header_start h @ r) = to_le_bytes (bh_first_lsn h)"
  "field 32 8 (block_header_start h @ r) = to_le_bytes (bh_last_lsn h)"
  "field 40 8 (block_header_start h @ r) = to_le_bytes (bh_base_hlc h)"
  "field 48 8 (block_header_start h @ r) = to_le_bytes (bh_max_hlc h)"
  by (simp_all add: block_header_start_def BLOCK_MAGIC_def layout_simps del: append_Cons)

lemma to_le_bytes_0_u32: "to_le_bytes (0 :: u32) = replicate 4 0"
proof -
  have "le_bytes n 0 = replicate n 0" for n by (induction n) auto
  then show ?thesis by (simp add: to_le_bytes_def)
qed

lemma block_header_decode_encode:
  assumes "block_check_coherence h (length stored) = Inr ()" and "bh_flags h AND NOT KNOWN_FLAGS = 0"
  shows "block_header_decode (block_header_encode h stored) stored = Inr h"
proof -
  obtain crc where crc: "crc = crc32c_finalize (crc32c_update (crc32c_update crc32c_new (block_encode_with_crc h 0)) stored)"
    by blast
  let ?r = "to_le_bytes crc @ to_le_bytes (bh_dictionary_id h)"
  let ?buf = "block_header_start h @ ?r"
  have enc: "block_header_encode h stored = ?buf"
    by (simp add: block_header_encode_def Let_def crc block_encode_with_crc_def)
  have len: "length (block_header_start h) = 56" by (rule length_block_header_start)
  have f: "field 56 4 ?buf = to_le_bytes crc" "field 60 4 ?buf = to_le_bytes (bh_dictionary_id h)"
    using len by (simp_all add: layout_simps)
  have z: "overwrite 56 (replicate 4 0) ?buf = block_encode_with_crc h 0"
    using len by (simp add: overwrite_skip [of _ _ 0] overwrite_here block_encode_with_crc_def to_le_bytes_0_u32)
  have "?buf ! 6 = compression_codec_u8 (bh_codec h)" "?buf ! 7 = bh_flags h"
    using len block_header_fields(3,4) [of h ?r] by (simp_all add: nth_field)
  then show ?thesis
    using len assms
    by (simp add: block_header_decode_def BLOCK_HEADER_LEN_def enc f z crc [symmetric] block_header_fields)
       (cases h; simp add: Let_def)
qed

lemma block_coherent_iff:
  "block_check_coherence h n = Inr () \<longleftrightarrow>
     unat (bh_compressed_len h) = n \<and> unat (bh_uncompressed_len h) \<le> HARD_MAX_BLOCK_BYTES
     \<and> bh_record_count h \<noteq> 0 \<and> bh_first_lsn h \<le> bh_last_lsn h \<and> bh_base_hlc h \<le> bh_max_hlc h
     \<and> bh_restart_interval h \<noteq> 0
     \<and> unat (bh_restart_count h)
        = (unat (bh_record_count h) + unat (bh_restart_interval h) - 1) div unat (bh_restart_interval h)
     \<and> unat (bh_restart_count h) * RESTART_ENTRY_LEN \<le> unat (bh_uncompressed_len h)
     \<and> (is_sparse_lsn h \<or> saturating_add (bh_last_lsn h - bh_first_lsn h) 1 = ucast (bh_record_count h))"
  by (simp add: block_check_coherence_def Let_def not_le not_less)

section \<open>Layout of the records region\<close>

definition record_bytes_at :: "bool \<Rightarrow> bool \<Rightarrow> nat \<Rightarrow> block_record list \<Rightarrow> nat \<Rightarrow> bytes" where
  "record_bytes_at sp ha ri rs i = (let r = rs ! i in
     put_varint [] (push_bit 3 (word_of_nat (length (br_payload r))))
     @ (if sp then put_varint [] (if i mod ri = 0 then br_lsn r else br_lsn r - br_lsn (rs ! (i - 1))) else [])
     @ put_varint [] (if ha \<or> i mod ri = 0 then br_hlc r else br_hlc r - br_hlc (rs ! (i - 1)))
     @ br_payload r)"

definition region_upto :: "bool \<Rightarrow> bool \<Rightarrow> nat \<Rightarrow> block_record list \<Rightarrow> nat \<Rightarrow> bytes" where
  "region_upto sp ha ri rs n = concat (map (record_bytes_at sp ha ri rs) [0..<n])"

lemma region_upto_simps [simp]:
  "region_upto sp ha ri rs 0 = []"
  "region_upto sp ha ri rs (Suc i) = region_upto sp ha ri rs i @ record_bytes_at sp ha ri rs i"
  by (simp_all add: region_upto_def)

lemma record_bytes_at_pos: "0 < length (record_bytes_at sp ha ri rs i)"
  by (simp add: record_bytes_at_def Let_def)

lemma region_upto_split:
  assumes "i < n"
  shows "\<exists>rest. region_upto sp ha ri rs n = region_upto sp ha ri rs i @ record_bytes_at sp ha ri rs i @ rest"
proof -
  have "[0..<n] = [0..<i] @ i # [Suc i..<n]"
    using assms upt_add_eq_append [of 0 i "n - i"] by (simp add: upt_conv_Cons)
  then show ?thesis by (simp add: region_upto_def)
qed

lemma region_upto_strict: "i < n \<Longrightarrow> length (region_upto sp ha ri rs i) < length (region_upto sp ha ri rs n)"
  using region_upto_split [of i n sp ha ri rs] record_bytes_at_pos [of sp ha ri rs i] by auto

lemma region_upto_ge: "n \<le> length (region_upto sp ha ri rs n)"
proof (induction n)
  case (Suc n)
  then show ?case
    using record_bytes_at_pos [of sp ha ri rs n] unfolding region_upto_simps length_append by linarith
qed simp

definition restart_at :: "bool \<Rightarrow> bool \<Rightarrow> nat \<Rightarrow> block_record list \<Rightarrow> nat \<Rightarrow> restart_point" where
  "restart_at sp ha ri rs i = \<lparr>rp_ordinal = word_of_nat i,
     rp_byte_offset = word_of_nat (length (region_upto sp ha ri rs i)),
     rp_absolute_hlc = br_hlc (rs ! i), rp_absolute_lsn = br_lsn (rs ! i)\<rparr>"

definition restart_ordinals :: "nat \<Rightarrow> nat \<Rightarrow> nat list" where
  "restart_ordinals ri n = filter (\<lambda>i. i mod ri = 0) [0..<n]"

lemma div_part: "x < ri \<Longrightarrow> (q * ri + x) div ri = (q :: nat)"
  by simp

lemma div_ceil_Suc:
  assumes "0 < (ri :: nat)"
  shows "(Suc n + ri - 1) div ri = (n + ri - 1) div ri + (if n mod ri = 0 then 1 else 0)"
proof -
  obtain q m where n: "n = q * ri + m" and m: "m < ri"
    using assms mod_less_divisor [of ri n] div_mult_mod_eq [of n ri] by metis
  have up: "(Suc n + ri - 1) div ri = Suc q"
  proof -
    have eq: "Suc n + ri - 1 = Suc q * ri + m" using n by simp
    show ?thesis unfolding eq by (rule div_part [OF m])
  qed
  show ?thesis
  proof (cases m)
    case 0
    then have "n + ri - 1 = q * ri + (ri - 1)" using n assms by simp
    then have "(n + ri - 1) div ri = q" using div_part [of "ri - 1" ri q] assms by simp
    then show ?thesis using up 0 n by simp
  next
    case (Suc k)
    then have "n + ri - 1 = Suc q * ri + k" and "k < ri" using n m by simp_all
    then have "(n + ri - 1) div ri = Suc q" using div_part [of k ri "Suc q"] by simp
    moreover have "n mod ri \<noteq> 0" using n m Suc by simp
    ultimately show ?thesis using up by simp
  qed
qed

lemma restart_ordinals_eq:
  assumes "0 < ri"
  shows "restart_ordinals ri n = map (\<lambda>j. j * ri) [0..<(n + ri - 1) div ri]"
proof (induction n)
  case 0
  then show ?case using assms by (simp add: restart_ordinals_def)
next
  case (Suc n)
  have "(n + ri - 1) div ri * ri = n" if "n mod ri = 0"
  proof -
    obtain q where n: "n = q * ri" using \<open>n mod ri = 0\<close> by (metis mod_0_imp_dvd dvdE mult.commute)
    have "n + ri - 1 = q * ri + (ri - 1)" using n assms by simp
    then show ?thesis using div_part [of "ri - 1" ri q] n assms by simp
  qed
  then show ?case using Suc div_ceil_Suc [OF assms, of n] by (auto simp: restart_ordinals_def)
qed

section \<open>The builder\<close>

lemma put_record_Inr:
  "put_record sp ha rst body pl ph r = Inr body' \<longleftrightarrow>
     length (br_payload r) \<le> HARD_MAX_RECORD_BYTES \<and> (sp \<and> \<not> rst \<longrightarrow> pl \<le> br_lsn r) \<and> (\<not> ha \<and> \<not> rst \<longrightarrow> ph \<le> br_hlc r)
     \<and> body' = body @ put_varint [] (push_bit 3 (word_of_nat (length (br_payload r))))
        @ (if sp then put_varint [] (if rst then br_lsn r else br_lsn r - pl) else [])
        @ put_varint [] (if ha \<or> rst then br_hlc r else br_hlc r - ph) @ br_payload r"
  by (auto simp: put_record_def Let_def checked_sub_def RECORD_FLAG_BITS_def put_varint_append [of "_ @ _"]
      put_varint_append [of body] split: if_splits)

definition record_fits :: "bool \<Rightarrow> bool \<Rightarrow> nat \<Rightarrow> block_record list \<Rightarrow> nat \<Rightarrow> bool" where
  "record_fits sp ha ri rs i = (length (br_payload (rs ! i)) \<le> HARD_MAX_RECORD_BYTES
     \<and> (i mod ri \<noteq> 0 \<longrightarrow> (sp \<longrightarrow> br_lsn (rs ! (i - 1)) \<le> br_lsn (rs ! i)) \<and> (\<not> ha \<longrightarrow> br_hlc (rs ! (i - 1)) \<le> br_hlc (rs ! i))))"

lemma build_records_Inr:
  assumes "build_records ri sp ha i (region_upto sp ha ri rs i) (map (restart_at sp ha ri rs) (restart_ordinals ri i))
      pl ph (drop i rs) = Inr (body, restarts)"
    and "i \<le> length rs" and "i mod ri \<noteq> 0 \<longrightarrow> pl = br_lsn (rs ! (i - 1)) \<and> ph = br_hlc (rs ! (i - 1))"
  shows "body = region_upto sp ha ri rs (length rs)
    \<and> restarts = map (restart_at sp ha ri rs) (restart_ordinals ri (length rs))
    \<and> (\<forall>j. i \<le> j \<and> j < length rs \<longrightarrow> record_fits sp ha ri rs j)"
  using assms
proof (induction "length rs - i" arbitrary: i pl ph)
  case 0
  then show ?case by auto
next
  case (Suc n)
  let ?r = "rs ! i" and ?rst = "i mod ri = 0"
  have i: "i < length rs" using Suc.hyps(2) by simp
  then have drop: "drop i rs = ?r # drop (Suc i) rs" by (simp add: Cons_nth_drop_Suc)
  let ?R = "map (restart_at sp ha ri rs) (restart_ordinals ri (Suc i))"
  obtain body1 where put: "put_record sp ha ?rst (region_upto sp ha ri rs i) pl ph ?r = Inr body1"
    and rest: "build_records ri sp ha (i + 1) body1 ?R (br_lsn ?r) (br_hlc ?r) (drop (Suc i) rs) = Inr (body, restarts)"
    using Suc.prems(1)
    by (auto simp: drop Let_def bindE_eq_Inr restart_ordinals_def restart_at_def split: if_splits)
  have body1: "body1 = region_upto sp ha ri rs (Suc i)"
    using put Suc.prems(3) by (auto simp: put_record_Inr record_bytes_at_def Let_def)
  have "record_fits sp ha ri rs i"
    using put Suc.prems(3) by (auto simp: put_record_Inr record_fits_def)
  moreover have "body = region_upto sp ha ri rs (length rs)
    \<and> restarts = map (restart_at sp ha ri rs) (restart_ordinals ri (length rs))
    \<and> (\<forall>j. Suc i \<le> j \<and> j < length rs \<longrightarrow> record_fits sp ha ri rs j)"
    using Suc.hyps rest body1 i by (intro Suc.hyps(1)) auto
  ultimately show ?case by (metis le_antisym not_less_eq_eq)
qed

section \<open>What a block describes\<close>

definition restarts_of :: "block_header \<Rightarrow> block_record list \<Rightarrow> restart_point list" where
  "restarts_of h rs = map (restart_at (is_sparse_lsn h) (is_hlc_absolute h) (unat (bh_restart_interval h)) rs)
     (restart_ordinals (unat (bh_restart_interval h)) (length rs))"

definition describes :: "block_header \<Rightarrow> bytes \<Rightarrow> block_record list \<Rightarrow> bool" where
  "describes h body rs = (let sp = is_sparse_lsn h; ha = is_hlc_absolute h; ri = unat (bh_restart_interval h) in
     0 < ri \<and> rs \<noteq> [] \<and> length rs = unat (bh_record_count h) \<and> length body = unat (bh_uncompressed_len h)
     \<and> body = region_upto sp ha ri rs (length rs) @ concat (map restart_encode (restarts_of h rs))
     \<and> unat (bh_restart_count h) = length (restarts_of h rs)
     \<and> bh_first_lsn h = br_lsn (hd rs) \<and> bh_last_lsn h = br_lsn (last rs)
     \<and> (\<forall>i < length rs. record_fits sp ha ri rs i \<and> bh_first_lsn h \<le> br_lsn (rs ! i) \<and> br_lsn (rs ! i) \<le> bh_last_lsn h
         \<and> bh_base_hlc h \<le> br_hlc (rs ! i) \<and> br_hlc (rs ! i) \<le> bh_max_hlc h
         \<and> (\<not> sp \<longrightarrow> unat (br_lsn (rs ! i)) = unat (bh_first_lsn h) + i)))"

lemma describesD:
  assumes "describes h body rs"
  shows "0 < unat (bh_restart_interval h)" and "rs \<noteq> []" and "length rs = unat (bh_record_count h)"
    and "length body = unat (bh_uncompressed_len h)"
    and "body = region_upto (is_sparse_lsn h) (is_hlc_absolute h) (unat (bh_restart_interval h)) rs (length rs)
      @ concat (map restart_encode (restarts_of h rs))"
    and "unat (bh_restart_count h) = length (restarts_of h rs)"
    and "bh_first_lsn h = br_lsn (hd rs)" and "bh_last_lsn h = br_lsn (last rs)"
    and "i < length rs \<Longrightarrow> record_fits (is_sparse_lsn h) (is_hlc_absolute h) (unat (bh_restart_interval h)) rs i
      \<and> bh_first_lsn h \<le> br_lsn (rs ! i) \<and> br_lsn (rs ! i) \<le> bh_last_lsn h
      \<and> bh_base_hlc h \<le> br_hlc (rs ! i) \<and> br_hlc (rs ! i) \<le> bh_max_hlc h
      \<and> (\<not> is_sparse_lsn h \<longrightarrow> unat (br_lsn (rs ! i)) = unat (bh_first_lsn h) + i)"
  using assms unfolding describes_def Let_def by blast+

lemma length_restarts_encode: "length (concat (map restart_encode rps)) = 24 * length rps"
  by (induction rps) (auto simp: restart_encode_def)

lemma describes_region:
  assumes "describes h body rs"
  shows "records_region_len h
      = length (region_upto (is_sparse_lsn h) (is_hlc_absolute h) (unat (bh_restart_interval h)) rs (length rs))"
  using assms
  by (auto simp: describes_def Let_def records_region_len_def RESTART_ENTRY_LEN_def length_restarts_encode)

text \<open>The cursor stands before record \<open>i\<close>.\<close>

definition cursor_at :: "block_header \<Rightarrow> block_record list \<Rightarrow> nat \<Rightarrow> record_cursor \<Rightarrow> bool" where
  "cursor_at h rs i c = (
     rc_pos c = length (region_upto (is_sparse_lsn h) (is_hlc_absolute h) (unat (bh_restart_interval h)) rs i)
     \<and> unat (rc_ordinal c) = i
     \<and> (i mod unat (bh_restart_interval h) \<noteq> 0 \<longrightarrow>
          rc_prev_lsn c = br_lsn (rs ! (i - 1)) \<and> rc_prev_hlc c = br_hlc (rs ! (i - 1))))"

lemma next_record_end:
  "describes h body rs \<Longrightarrow> cursor_at h rs (length rs) c \<Longrightarrow> next_record h body c = Inr (None, c)"
  by (simp add: next_record_def cursor_at_def describes_def Let_def word_le_nat_alt)

lemma record_meta:
  assumes "n \<le> HARD_MAX_RECORD_BYTES"
  shows "(push_bit 3 (word_of_nat n) :: u64) AND RECORD_FLAG_MASK = 0"
    and "unat (drop_bit RECORD_FLAG_BITS (push_bit 3 (word_of_nat n) :: u64)) = n"
proof -
  have n: "n < 2 ^ 30" using assms by (simp add: HARD_MAX_RECORD_BYTES_def)
  have "RECORD_FLAG_MASK = mask 3" by (simp add: RECORD_FLAG_MASK_def mask_eq_exp_minus_1)
  then show "(push_bit 3 (word_of_nat n) :: u64) AND RECORD_FLAG_MASK = 0"
    by (intro bit_word_eqI) (auto simp: \<open>RECORD_FLAG_MASK = mask 3\<close> bit_simps)
  have "unat (push_bit 3 (word_of_nat n) :: u64) = take_bit 64 (push_bit 3 (unat (word_of_nat n :: u64)))"
    using unsigned_push_bit_eq [of 3 "word_of_nat n :: u64", where 'a = nat] by simp
  also have "unat (word_of_nat n :: u64) = n" using n by (simp add: unsigned_of_nat take_bit_nat_eq_self)
  also have "take_bit 64 (push_bit 3 n) = n * 8" using n by (simp add: take_bit_nat_eq_self push_bit_eq_mult)
  finally show "unat (drop_bit RECORD_FLAG_BITS (push_bit 3 (word_of_nat n) :: u64)) = n"
    by (simp add: unat_drop_bit_eq drop_bit_eq_div RECORD_FLAG_BITS_def unat_div)
qed

text \<open>The region around record \<open>i\<close>, cut at its fields.\<close>

definition meta_bytes :: "block_record list \<Rightarrow> nat \<Rightarrow> bytes" where
  "meta_bytes rs i = put_varint [] (push_bit 3 (word_of_nat (length (br_payload (rs ! i)))))"

definition lsn_bytes :: "block_header \<Rightarrow> block_record list \<Rightarrow> nat \<Rightarrow> bytes" where
  "lsn_bytes h rs i = (if is_sparse_lsn h
     then put_varint [] (if i mod unat (bh_restart_interval h) = 0 then br_lsn (rs ! i)
       else br_lsn (rs ! i) - br_lsn (rs ! (i - 1))) else [])"

definition hlc_bytes :: "block_header \<Rightarrow> block_record list \<Rightarrow> nat \<Rightarrow> bytes" where
  "hlc_bytes h rs i = put_varint [] (if is_hlc_absolute h \<or> i mod unat (bh_restart_interval h) = 0 then br_hlc (rs ! i)
     else br_hlc (rs ! i) - br_hlc (rs ! (i - 1)))"

definition offset_of :: "block_header \<Rightarrow> block_record list \<Rightarrow> nat \<Rightarrow> nat" where
  "offset_of h rs i = length (region_upto (is_sparse_lsn h) (is_hlc_absolute h) (unat (bh_restart_interval h)) rs i)"

lemma offset_of_Suc:
  "offset_of h rs (Suc i) = offset_of h rs i + length (meta_bytes rs i) + length (lsn_bytes h rs i)
    + length (hlc_bytes h rs i) + length (br_payload (rs ! i))"
  by (simp add: offset_of_def record_bytes_at_def Let_def meta_bytes_def lsn_bytes_def hlc_bytes_def)

lemma describes_cut:
  assumes "describes h body rs" and "i < length rs"
  shows "\<exists>pre rest. take (records_region_len h) body
      = pre @ meta_bytes rs i @ lsn_bytes h rs i @ hlc_bytes h rs i @ br_payload (rs ! i) @ rest
    \<and> length pre = offset_of h rs i \<and> offset_of h rs (Suc i) \<le> length body \<and> offset_of h rs i < records_region_len h"
proof -
  let ?R = "region_upto (is_sparse_lsn h) (is_hlc_absolute h) (unat (bh_restart_interval h)) rs"
  obtain rest where "?R (length rs) = ?R i @ meta_bytes rs i @ lsn_bytes h rs i @ hlc_bytes h rs i @ br_payload (rs ! i) @ rest"
    using region_upto_split [OF assms(2), of "is_sparse_lsn h" "is_hlc_absolute h" "unat (bh_restart_interval h)" rs]
    by (auto simp: record_bytes_at_def Let_def meta_bytes_def lsn_bytes_def hlc_bytes_def)
  moreover have "take (records_region_len h) body = ?R (length rs)" "length (?R (length rs)) \<le> length body"
    using assms(1) describes_region [OF assms(1)] by (simp_all add: describes_def Let_def)
  moreover have "offset_of h rs (Suc i) \<le> length (?R (length rs))"
    using region_upto_strict [of "Suc i" "length rs"] assms(2) unfolding offset_of_def
    by (cases "Suc i = length rs") (auto intro: less_imp_le)
  moreover have "offset_of h rs i < records_region_len h"
    using region_upto_strict [OF assms(2)] describes_region [OF assms(1)] by (simp add: offset_of_def)
  ultimately show ?thesis
    by (intro exI [of _ "?R i"] exI [of _ rest]) (simp add: offset_of_def)
qed

lemma cursor_lsn_at:
  assumes "describes h body rs" and "cursor_at h rs i c" and "i < length rs" and "length pre = pos"
  shows "cursor_lsn h (pre @ lsn_bytes h rs i @ rest) c (i mod unat (bh_restart_interval h) = 0) pos
    = Inr (br_lsn (rs ! i), pos + length (lsn_bytes h rs i))"
proof (cases "is_sparse_lsn h")
  case True
  have "i mod unat (bh_restart_interval h) \<noteq> 0
      \<Longrightarrow> checked_add (rc_prev_lsn c) (br_lsn (rs ! i) - br_lsn (rs ! (i - 1))) = Some (br_lsn (rs ! i))"
    using assms(1-3) True
    by (auto simp: checked_add_Some describes_def Let_def record_fits_def cursor_at_def unat_sub_u64 word_le_nat_alt)
  then show ?thesis using True assms(4) by (simp add: cursor_lsn_def lsn_bytes_def read_varint_put)
next
  case False
  then have "checked_add (bh_first_lsn h) (ucast (rc_ordinal c)) = Some (br_lsn (rs ! i))"
    using assms(1-3) by (auto simp: checked_add_Some describes_def Let_def cursor_at_def)
  then show ?thesis using False by (simp add: cursor_lsn_def lsn_bytes_def)
qed

lemma cursor_hlc_at:
  assumes "describes h body rs" and "cursor_at h rs i c" and "i < length rs" and "length pre = pos"
  shows "cursor_hlc h (pre @ hlc_bytes h rs i @ rest) c (i mod unat (bh_restart_interval h) = 0) pos
    = Inr (br_hlc (rs ! i), pos + length (hlc_bytes h rs i))"
proof -
  have "\<not> (is_hlc_absolute h \<or> i mod unat (bh_restart_interval h) = 0)
      \<Longrightarrow> checked_add (rc_prev_hlc c) (br_hlc (rs ! i) - br_hlc (rs ! (i - 1))) = Some (br_hlc (rs ! i))"
    using assms(1-3)
    by (auto simp: checked_add_Some describes_def Let_def record_fits_def cursor_at_def unat_sub_u64 word_le_nat_alt)
  then show ?thesis using assms(4) by (simp add: cursor_hlc_def hlc_bytes_def read_varint_put)
qed

text \<open>One step of the cursor reads one record.\<close>

lemma next_record_at:
  assumes d: "describes h body rs" and c: "cursor_at h rs i c" and i: "i < length rs"
    and size: "length body < usize_limit"
  shows "\<exists>c'. next_record h body c = Inr (Some (rs ! i), c') \<and> cursor_at h rs (Suc i) c'"
proof -
  obtain pre rest where cut: "take (records_region_len h) body
      = pre @ meta_bytes rs i @ lsn_bytes h rs i @ hlc_bytes h rs i @ br_payload (rs ! i) @ rest"
    and pre: "length pre = offset_of h rs i" and off: "offset_of h rs (Suc i) \<le> length body"
    and lt: "offset_of h rs i < records_region_len h"
    using describes_cut [OF d i] by blast
  have fits: "length (br_payload (rs ! i)) \<le> HARD_MAX_RECORD_BYTES"
    and lsn: "bh_first_lsn h \<le> br_lsn (rs ! i)" "br_lsn (rs ! i) \<le> bh_last_lsn h"
    and hlc: "bh_base_hlc h \<le> br_hlc (rs ! i)" "br_hlc (rs ! i) \<le> bh_max_hlc h"
    and n: "length rs = unat (bh_record_count h)"
    using d i by (auto simp: describes_def Let_def record_fits_def)
  have pos: "rc_pos c = length pre" and ord: "unat (rc_ordinal c) = i" and ord_lt: "rc_ordinal c < bh_record_count h"
    using c i n pre by (auto simp: cursor_at_def offset_of_def word_less_nat_alt)
  have meta: "read_varint (drop (rc_pos c) (take (records_region_len h) body)) ctx
      = Inr (push_bit 3 (word_of_nat (length (br_payload (rs ! i)))), length (meta_bytes rs i))" for ctx
    by (simp add: cut pos meta_bytes_def read_varint_put)
  let ?pos1 = "rc_pos c + length (meta_bytes rs i)"
  let ?pos2 = "?pos1 + length (lsn_bytes h rs i)"
  let ?pos3 = "?pos2 + length (hlc_bytes h rs i)"
  have lsn_at: "cursor_lsn h (take (records_region_len h) body) c (i mod unat (bh_restart_interval h) = 0) ?pos1
      = Inr (br_lsn (rs ! i), ?pos2)"
    using cursor_lsn_at [OF d c i, of "pre @ meta_bytes rs i"] by (simp add: cut pos)
  have hlc_at: "cursor_hlc h (take (records_region_len h) body) c (i mod unat (bh_restart_interval h) = 0) ?pos2
      = Inr (br_hlc (rs ! i), ?pos3)"
    using cursor_hlc_at [OF d c i, of "pre @ meta_bytes rs i @ lsn_bytes h rs i"] by (simp add: cut pos add.assoc)
  have payload: "slice_at (take (records_region_len h) body) ?pos3 (length (br_payload (rs ! i))) ctx
      = Inr (br_payload (rs ! i))" for ctx
    using size off pre by (simp add: slice_at_def cut pos offset_of_Suc)
  have "unat (rc_ordinal c + 1) = Suc i"
    using ord ord_lt unat_lt_u32 [of "bh_record_count h"]
    by (subst unat_add_lem [THEN iffD1]) (auto simp: word_less_nat_alt)
  then have "cursor_at h rs (Suc i) \<lparr>rc_pos = ?pos3 + length (br_payload (rs ! i)), rc_ordinal = rc_ordinal c + 1,
      rc_prev_lsn = br_lsn (rs ! i), rc_prev_hlc = br_hlc (rs ! i)\<rparr>"
    using pre offset_of_Suc [of h rs i]
    by (simp add: cursor_at_def pos offset_of_def del: region_upto_simps)
  moreover have "next_record h body c = Inr (Some (rs ! i), \<lparr>rc_pos = ?pos3 + length (br_payload (rs ! i)),
      rc_ordinal = rc_ordinal c + 1, rc_prev_lsn = br_lsn (rs ! i), rc_prev_hlc = br_hlc (rs ! i)\<rparr>)"
  proof -
    have "(rc_ordinal c \<ge> bh_record_count h \<or> rc_pos c \<ge> records_region_len h) = False"
      using ord_lt lt pos pre by (simp add: not_le)
    moreover have "(br_lsn (rs ! i) < bh_first_lsn h \<or> br_lsn (rs ! i) > bh_last_lsn h) = False"
      and "(br_hlc (rs ! i) < bh_base_hlc h \<or> br_hlc (rs ! i) > bh_max_hlc h) = False"
      and "(HARD_MAX_RECORD_BYTES < length (br_payload (rs ! i))) = False"
      using lsn hlc fits by (simp_all add: not_less)
    ultimately show ?thesis
      unfolding next_record_def Let_def
      by (simp only: if_False meta bindE_simps prod.case record_meta [OF fits] simp_thms ord lsn_at hlc_at payload) simp
  qed
  ultimately show ?thesis by blast
qed

section \<open>Reading a whole block\<close>

lemma remaining_records_at:
  assumes "describes h body rs" and "length body < usize_limit" and "cursor_at h rs i c" and "i \<le> length rs"
  shows "remaining_records h body c = Inr (drop i rs)"
  using assms(3,4)
proof (induction "length rs - i" arbitrary: i c)
  case 0
  then show ?case
    using next_record_end [OF assms(1)] by (simp add: remaining_records.simps)
next
  case (Suc n)
  then have "i < length rs" by simp
  from next_record_at [OF assms(1) Suc.prems(1) this assms(2)] obtain c'
    where "next_record h body c = Inr (Some (rs ! i), c')" "cursor_at h rs (Suc i) c'" by blast
  moreover have "remaining_records h body c' = Inr (drop (Suc i) rs)"
    using Suc.hyps Suc.prems calculation by (intro Suc.hyps(1)) auto
  ultimately show ?case
    using Suc.hyps(2) by (simp add: remaining_records.simps [of h body c] Cons_nth_drop_Suc)
qed

lemma cursor_start_at:
  assumes "describes h body rs"
  shows "\<exists>c. cursor_start h body = Inr c \<and> cursor_at h rs 0 c"
proof -
  have "length body = unat (bh_uncompressed_len h)" by (rule describesD(4) [OF assms])
  then show ?thesis by (simp add: cursor_start_def cursor_at_def)
qed

lemma decode_block_describes:
  assumes "describes h body rs" and "length body < usize_limit"
  shows "decode_block_records h body = Inr rs"
proof -
  obtain c where "cursor_start h body = Inr c" "cursor_at h rs 0 c"
    using cursor_start_at [OF assms(1)] by blast
  then show ?thesis
    using remaining_records_at [OF assms, of 0 c] assms(1)
    by (simp add: decode_block_records_def describes_def Let_def)
qed

section \<open>Restart points\<close>

lemma restart_decode_encode: "restart_decode (restart_encode r) = r"
proof -
  have "field 0 4 (restart_encode r) = to_le_bytes (rp_ordinal r)"
    "field 4 4 (restart_encode r) = to_le_bytes (rp_byte_offset r)"
    "field 8 8 (restart_encode r) = to_le_bytes (rp_absolute_hlc r)"
    "field 16 8 (restart_encode r) = to_le_bytes (rp_absolute_lsn r)"
    by (simp_all add: restart_encode_def layout_simps)
  then show ?thesis by (simp add: restart_decode_def)
qed

lemma drop_restarts: "j < length rps \<Longrightarrow> take 24 (drop (j * 24) (concat (map restart_encode rps))) = restart_encode (rps ! j)"
proof (induction j arbitrary: rps)
  case 0
  then show ?case by (cases rps) (auto simp: restart_encode_def)
next
  case (Suc j)
  then obtain r rps' where "rps = r # rps'" by (cases rps) auto
  moreover have "length (restart_encode r) = 24" by (simp add: restart_encode_def)
  ultimately show ?case using Suc by simp
qed

lemma nth_restart_ordinals:
  assumes "0 < ri" "j < length (restart_ordinals ri n)"
  shows "restart_ordinals ri n ! j = j * ri \<and> j * ri < n"
proof -
  have "restart_ordinals ri n ! j \<in> set (restart_ordinals ri n)" using assms(2) by (rule nth_mem)
  then have "restart_ordinals ri n ! j < n" by (simp add: restart_ordinals_def)
  moreover have "restart_ordinals ri n ! j = j * ri" using assms by (simp add: restart_ordinals_eq)
  ultimately show ?thesis by simp
qed

lemma restart_at_bounds:
  assumes d: "describes h body rs" and i: "i < length rs" and "length body < 2 ^ 32"
  shows "unat (word_of_nat i :: u32) = i" and "unat (word_of_nat (offset_of h rs i) :: u32) = offset_of h rs i"
proof -
  have "offset_of h rs i < 2 ^ 32"
    using describes_cut [OF d i] offset_of_Suc [of h rs i] assms(3) by auto
  then show "unat (word_of_nat (offset_of h rs i) :: u32) = offset_of h rs i"
    by (simp add: unsigned_of_nat take_bit_nat_eq_self)
  have "length rs < 2 ^ 32" using d unat_lt_u32 [of "bh_record_count h"] by (simp add: describes_def Let_def)
  then show "unat (word_of_nat i :: u32) = i"
    using i by (simp add: unsigned_of_nat take_bit_nat_eq_self)
qed

lemma read_restart_at:
  assumes d: "describes h body rs" and size: "length body < 2 ^ 32" and j: "j < unat (bh_restart_count h)"
  shows "read_restart h body j = Inr (restarts_of h rs ! j)"
proof -
  let ?ri = "unat (bh_restart_interval h)" and ?rps = "restarts_of h rs"
  note ri = describesD(1) [OF d] and body = describesD(5) [OF d] and n = describesD(3) [OF d]
  have cnt: "unat (bh_restart_count h) = length (restart_ordinals ?ri (length rs))"
    using describesD(6) [OF d] by (simp add: restarts_of_def)
  then have jl: "j < length ?rps" using j by (simp add: restarts_of_def)
  have ord: "restart_ordinals ?ri (length rs) ! j = j * ?ri" and lt: "j * ?ri < length rs"
    using nth_restart_ordinals [OF ri, of j "length rs"] j cnt by auto
  have e: "?rps ! j = restart_at (is_sparse_lsn h) (is_hlc_absolute h) ?ri rs (j * ?ri)"
    using j cnt ord by (simp add: restarts_of_def)
  note b = restart_at_bounds [OF d lt size]
  have region: "records_region_len h = length (region_upto (is_sparse_lsn h) (is_hlc_absolute h) ?ri rs (length rs))"
    by (rule describes_region [OF d])
  have "24 * j + 24 \<le> 24 * length ?rps" using jl by simp
  then have "slice_at body (records_region_len h + j * 24) 24 ctx = Inr (restart_encode (?rps ! j))" for ctx
    using size drop_restarts [OF jl] region
    by (simp add: slice_at_def body length_restarts_encode usize_limit_def mult.commute)
  moreover have "offset_of h rs (j * ?ri) < records_region_len h" using describes_cut [OF d lt] by blast
  ultimately show ?thesis
    using b lt n
    by (simp add: read_restart_def Let_def RESTART_ENTRY_LEN_def restart_decode_encode e restart_at_def
        offset_of_def word_le_nat_alt)
qed

lemma read_restarts_describes:
  assumes d: "describes h body rs" and size: "length body < 2 ^ 32"
  shows "read_restarts h body = Inr (restarts_of h rs)"
proof -
  let ?ri = "unat (bh_restart_interval h)"
  have ri: "0 < ?ri" and "rs \<noteq> []" and cnt: "unat (bh_restart_count h) = length (restarts_of h rs)"
    using d by (auto simp: describes_def Let_def restarts_of_def)
  have "mapE (read_restart h body) [0..<unat (bh_restart_count h)] = Inr (map ((!) (restarts_of h rs)) [0..<unat (bh_restart_count h)])"
    by (rule mapE_Inr_map) (simp add: read_restart_at [OF d size])
  also have "map ((!) (restarts_of h rs)) [0..<unat (bh_restart_count h)] = restarts_of h rs"
    unfolding cnt by (rule map_nth)
  finally have m: "mapE (read_restart h body) [0..<unat (bh_restart_count h)] = Inr (restarts_of h rs)" .
  obtain n where "length rs = Suc n" using \<open>rs \<noteq> []\<close> by (cases rs) auto
  then obtain os where "restart_ordinals ?ri (length rs) = 0 # os"
    by (simp add: restart_ordinals_def upt_conv_Cons del: upt_Suc)
  then obtain rps where "restarts_of h rs = restart_at (is_sparse_lsn h) (is_hlc_absolute h) ?ri rs 0 # rps"
    by (simp add: restarts_of_def)
  then show ?thesis using m by (simp add: read_restarts_def restart_at_def)
qed

section \<open>Point lookup\<close>

definition increasing_lsns :: "block_record list \<Rightarrow> bool" where
  "increasing_lsns rs = sorted_wrt (<) (map br_lsn rs)"

lemma increasing_nth:
  "increasing_lsns rs \<Longrightarrow> i < j \<Longrightarrow> j < length rs \<Longrightarrow> br_lsn (rs ! i) < br_lsn (rs ! j)"
  by (auto simp: increasing_lsns_def sorted_wrt_iff_nth_less)

lemma find_unique:
  assumes "increasing_lsns rs" "x < length rs" "br_lsn (rs ! x) = k" "set ys \<subseteq> set rs" "rs ! x \<in> set ys"
  shows "find (\<lambda>r. br_lsn r = k) ys = Some (rs ! x)"
proof -
  have uniq: "r = rs ! x" if mem: "r \<in> set rs" and eq: "br_lsn r = k" for r
  proof -
    obtain y where y: "y < length rs" "r = rs ! y" using mem unfolding in_set_conv_nth by blast
    have "y = x"
    proof (cases x y rule: linorder_cases)
      case less
      from increasing_nth [OF assms(1) less y(1)] show ?thesis using eq assms(3) y(2) by simp
    next
      case greater
      from increasing_nth [OF assms(1) greater assms(2)] show ?thesis using eq assms(3) y(2) by simp
    qed simp
    then show ?thesis using y by simp
  qed
  obtain r where r: "find (\<lambda>r. br_lsn r = k) ys = Some r"
    using assms(3,5) by (cases "find (\<lambda>r. br_lsn r = k) ys") (auto simp: List.find_None_iff)
  then have "r \<in> set rs" "br_lsn r = k" using find_Some_mem [OF r] assms(4) by auto
  then show ?thesis using r uniq by simp
qed

lemma find_window:
  assumes "increasing_lsns rs" and "\<And>x. x < length rs \<Longrightarrow> br_lsn (rs ! x) = k \<Longrightarrow> b \<le> x \<and> x < b + m"
  shows "find (\<lambda>r. br_lsn r = k) (take m (drop b rs)) = find (\<lambda>r. br_lsn r = k) rs"
proof (cases "\<exists>x < length rs. br_lsn (rs ! x) = k")
  case True
  then obtain x where x: "x < length rs" "br_lsn (rs ! x) = k" by blast
  with assms(2) have "b \<le> x" "x < b + m" by auto
  then have "take m (drop b rs) ! (x - b) = rs ! x" and "x - b < length (take m (drop b rs))" using x by auto
  then have "rs ! x \<in> set (take m (drop b rs))" unfolding in_set_conv_nth by blast
  moreover have "set (take m (drop b rs)) \<subseteq> set rs" by (meson set_drop_subset set_take_subset subset_trans)
  ultimately show ?thesis
    using find_unique [OF assms(1) x] x(1) by simp
next
  case False
  then have "br_lsn r \<noteq> k" if "r \<in> set rs" for r using that unfolding in_set_conv_nth by blast
  moreover have "set (take m (drop b rs)) \<subseteq> set rs" by (meson set_drop_subset set_take_subset subset_trans)
  ultimately have "find (\<lambda>r. br_lsn r = k) (take m (drop b rs)) = None" "find (\<lambda>r. br_lsn r = k) rs = None"
    by (auto simp: List.find_None_iff)
  then show ?thesis by simp
qed

lemma scan_for_at:
  assumes d: "describes h body rs" and size: "length body < usize_limit" and inc: "increasing_lsns rs"
    and "cursor_at h rs i c" "i \<le> length rs" "seen < unat (bh_restart_interval h)"
  shows "scan_for h body k c seen
    = Inr (find (\<lambda>r. br_lsn r = k) (take (unat (bh_restart_interval h) - seen) (drop i rs)))"
  using assms(4-6)
proof (induction "length rs - i" arbitrary: i c seen)
  case 0
  then show ?case using next_record_end [OF d] by (simp add: scan_for.simps)
next
  case (Suc n)
  then have i: "i < length rs" by simp
  from next_record_at [OF d Suc.prems(1) this size] obtain c'
    where step: "next_record h body c = Inr (Some (rs ! i), c')" "cursor_at h rs (Suc i) c'" by blast
  let ?m = "unat (bh_restart_interval h) - seen"
  have drop: "take ?m (drop i rs) = rs ! i # take (?m - 1) (drop (Suc i) rs)"
    using i Suc.prems(3) by (cases ?m) (auto simp: Cons_nth_drop_Suc [symmetric])
  consider "br_lsn (rs ! i) = k" | "br_lsn (rs ! i) > k"
    | "br_lsn (rs ! i) < k" "unat (bh_restart_interval h) \<le> seen + 1"
    | "br_lsn (rs ! i) < k" "seen + 1 < unat (bh_restart_interval h)" by fastforce
  then show ?case
  proof cases
    case 2
    have "br_lsn r \<noteq> k" if mem: "r \<in> set (drop i rs)" for r
    proof -
      obtain j where "j < length (drop i rs)" "r = drop i rs ! j" using mem unfolding in_set_conv_nth by blast
      then have j: "i + j < length rs" "r = rs ! (i + j)" using i by simp_all
      have "br_lsn (rs ! i) \<le> br_lsn r"
      proof (cases "j = 0")
        case False
        then show ?thesis using increasing_nth [OF inc _ j(1), of i] j(2) by (simp add: less_imp_le)
      qed (simp add: j)
      then show ?thesis using 2 by auto
    qed
    then have "find (\<lambda>r. br_lsn r = k) (take ?m (drop i rs)) = None"
      by (auto simp: List.find_None_iff dest: in_set_takeD)
    then show ?thesis using step 2 by (simp add: scan_for.simps [of h body k c])
  next
    case 3
    then have "?m - 1 = 0" by simp
    then show ?thesis using step 3 drop by (simp add: scan_for.simps [of h body k c])
  next
    case 4
    then have "scan_for h body k c' (seen + 1) = Inr (find (\<lambda>r. br_lsn r = k) (take (?m - 1) (drop (Suc i) rs)))"
      using Suc.hyps step i by (subst Suc.hyps(1) [of "Suc i"]) auto
    then show ?thesis using step 4 drop by (simp add: scan_for.simps [of h body k c])
  qed (use step drop in \<open>simp add: scan_for.simps [of h body k c]\<close>)
qed

lemma nth_restarts_of:
  assumes "describes h body rs" and "j < length (restarts_of h rs)"
  shows "restarts_of h rs ! j = restart_at (is_sparse_lsn h) (is_hlc_absolute h) (unat (bh_restart_interval h)) rs
      (j * unat (bh_restart_interval h)) \<and> j * unat (bh_restart_interval h) < length rs"
proof -
  let ?ri = "unat (bh_restart_interval h)"
  have "j < length (restart_ordinals ?ri (length rs))" using assms(2) by (simp add: restarts_of_def)
  from nth_restart_ordinals [OF describesD(1) [OF assms(1)] this] show ?thesis
    using assms(2) by (simp add: restarts_of_def)
qed

lemma cursor_at_restart_at:
  assumes d: "describes h body rs" and size: "length body < 2 ^ 32" and j: "j < length (restarts_of h rs)"
  shows "\<exists>c. cursor_at_restart h body (restarts_of h rs ! j) = Inr c
    \<and> cursor_at h rs (j * unat (bh_restart_interval h)) c"
proof -
  note r = nth_restarts_of [OF d j]
  then have "j * unat (bh_restart_interval h) < length rs" by simp
  note b = restart_at_bounds [OF d this size]
  show ?thesis
    using cursor_start_at [OF d] r b
    by (auto simp: cursor_at_restart_def cursor_at_def restart_at_def offset_of_def)
qed

lemma restart_window:
  assumes d: "describes h body rs" and size: "length body < 2 ^ 32" and inc: "increasing_lsns rs"
    and j: "j < length (restarts_of h rs)"
    and win: "\<And>x. x < length rs \<Longrightarrow> br_lsn (rs ! x) = k
      \<Longrightarrow> j * unat (bh_restart_interval h) \<le> x \<and> x < j * unat (bh_restart_interval h) + unat (bh_restart_interval h)"
  shows "bindE (cursor_at_restart h body (restarts_of h rs ! j)) (\<lambda>cur. scan_for h body k cur 0)
    = Inr (find (\<lambda>r. br_lsn r = k) rs)"
proof -
  let ?ri = "unat (bh_restart_interval h)"
  obtain c where c: "cursor_at_restart h body (restarts_of h rs ! j) = Inr c" "cursor_at h rs (j * ?ri) c"
    using cursor_at_restart_at [OF d size j] by blast
  have "j * ?ri \<le> length rs" using nth_restarts_of [OF d j] by simp
  moreover have "length body < usize_limit" using size by (simp add: usize_limit_def)
  ultimately have "scan_for h body k c 0 = Inr (find (\<lambda>r. br_lsn r = k) (take (?ri - 0) (drop (j * ?ri) rs)))"
    using c(2) describesD(1) [OF d] by (intro scan_for_at [OF d _ inc])
  then show ?thesis using c(1) find_window [OF inc win] by simp
qed

text \<open>The restart point chosen in a sparse block.\<close>

lemma sparse_window:
  assumes d: "describes h body rs" and inc: "increasing_lsns rs" and first: "bh_first_lsn h \<le> k"
  obtains j where "get_opt (restarts_of h rs) (partition_point (\<lambda>r. rp_absolute_lsn r \<le> k) (restarts_of h rs) - 1)
      = Some (restarts_of h rs ! j)" and "j < length (restarts_of h rs)"
    and "\<And>x. x < length rs \<Longrightarrow> br_lsn (rs ! x) = k
      \<Longrightarrow> j * unat (bh_restart_interval h) \<le> x \<and> x < j * unat (bh_restart_interval h) + unat (bh_restart_interval h)"
proof -
  let ?ri = "unat (bh_restart_interval h)" and ?rps = "restarts_of h rs"
  let ?p = "partition_point (\<lambda>r. rp_absolute_lsn r \<le> k) ?rps"
  note ri = describesD(1) [OF d]
  have rp_lsn: "rp_absolute_lsn (?rps ! j) = br_lsn (rs ! (j * ?ri))" "j * ?ri < length rs" if "j < length ?rps" for j
    using nth_restarts_of [OF d that] by (simp_all add: restart_at_def)
  have len: "length ?rps = (length rs + ?ri - 1) div ?ri"
    using restart_ordinals_eq [OF ri] by (simp add: restarts_of_def)
  have "0 < length rs" using describesD(2) [OF d] by simp
  then have "?ri \<le> length rs + ?ri - 1" by linarith
  then have pos: "0 < length ?rps" using ri unfolding len div_greater_zero_iff by blast
  have p: "0 < ?p"
  proof (rule ccontr)
    assume "\<not> 0 < ?p"
    then have "\<not> rp_absolute_lsn (?rps ! 0) \<le> k"
      using partition_point_at [of "\<lambda>r. rp_absolute_lsn r \<le> k" ?rps] pos by simp
    moreover have "rs ! 0 = hd rs" using describesD(2) [OF d] by (simp add: hd_conv_nth)
    ultimately show False using rp_lsn(1) [OF pos] first describesD(7) [OF d] by simp
  qed
  have j: "?p - 1 < length ?rps" using p partition_point_le [of "\<lambda>r. rp_absolute_lsn r \<le> k" ?rps] by simp
  show thesis
  proof (rule that [of "?p - 1"])
    fix x assume x: "x < length rs" "br_lsn (rs ! x) = k"
    have "?p - 1 < ?p" using p by simp
    then have "rp_absolute_lsn (?rps ! (?p - 1)) \<le> k" by (rule partition_point_before)
    then have low: "(?p - 1) * ?ri \<le> x"
      using increasing_nth [OF inc, of x "(?p - 1) * ?ri"] rp_lsn [OF j] x by (auto simp: not_less [symmetric])
    have "x < ?p * ?ri"
    proof (cases "?p < length ?rps")
      case True
      then have "\<not> rp_absolute_lsn (?rps ! ?p) \<le> k" by (rule partition_point_at)
      then show ?thesis
        using increasing_nth [OF inc _ x(1), of "?p * ?ri"] rp_lsn [OF True] x(2)
        by (cases "?p * ?ri" x rule: linorder_cases) auto
    next
      case False
      then have "?p = length ?rps" using partition_point_le [of "\<lambda>r. rp_absolute_lsn r \<le> k" ?rps] by simp
      moreover have "length rs \<le> (length rs + ?ri - 1) div ?ri * ?ri"
        using dividend_less_times_div [OF ri, of "length rs + ?ri - 1"] ri by (simp add: mult.commute)
      ultimately show ?thesis using x(1) len by simp
    qed
    moreover have "(?p - 1) * ?ri + ?ri = ?p * ?ri" using p by (cases ?p) auto
    ultimately show "(?p - 1) * ?ri \<le> x \<and> x < (?p - 1) * ?ri + ?ri" using low by simp
  qed (use j in \<open>auto simp: get_opt_def\<close>)
qed

text \<open>The restart point chosen in a dense block.\<close>

lemma dense_window:
  assumes d: "describes h body rs" and dense: "\<not> is_sparse_lsn h" and k: "bh_first_lsn h \<le> k" "k \<le> bh_last_lsn h"
  obtains j where "get_opt (restarts_of h rs) (unat ((ucast (k - bh_first_lsn h) :: u32) div ucast (bh_restart_interval h)))
      = Some (restarts_of h rs ! j)" and "j < length (restarts_of h rs)"
    and "\<And>x. x < length rs \<Longrightarrow> br_lsn (rs ! x) = k
      \<Longrightarrow> j * unat (bh_restart_interval h) \<le> x \<and> x < j * unat (bh_restart_interval h) + unat (bh_restart_interval h)"
proof -
  let ?ri = "unat (bh_restart_interval h)" and ?o = "unat k - unat (bh_first_lsn h)"
  note ri = describesD(1) [OF d]
  have ne: "rs \<noteq> []" by (rule describesD(2) [OF d])
  have lsn: "unat (br_lsn (rs ! x)) = unat (bh_first_lsn h) + x" if "x < length rs" for x
    using describesD(9) [OF d that] dense by simp
  have "unat (bh_last_lsn h) = unat (bh_first_lsn h) + (length rs - 1)"
    using lsn [of "length rs - 1"] ne describesD(8) [OF d] by (simp add: last_conv_nth)
  then have o: "?o < length rs" using k ne by (cases rs) (auto simp: word_le_nat_alt)
  also have "length rs < 4294967296" using describesD(3) [OF d] unat_lt_u32 [of "bh_record_count h"] by simp
  finally have o32: "unat (ucast (k - bh_first_lsn h) :: u32) = ?o"
    using k by (simp add: unsigned_ucast_eq unat_sub_u64 take_bit_nat_eq_self)
  have ri32: "unat (ucast (bh_restart_interval h) :: u32) = ?ri"
    using unat_lt_u16 [of "bh_restart_interval h"] by (simp add: unsigned_ucast_eq take_bit_nat_eq_self)
  have idx: "unat ((ucast (k - bh_first_lsn h) :: u32) div ucast (bh_restart_interval h)) = ?o div ?ri"
    by (simp add: unat_div o32 ri32)
  have "?o div ?ri < (length rs + ?ri - 1) div ?ri"
  proof -
    have "Suc (?o div ?ri) = (?o + ?ri) div ?ri" using ri div_add_self2 [of ?ri ?o] by linarith
    also have "\<dots> \<le> (length rs + ?ri - 1) div ?ri" using o by (intro div_le_mono) simp
    finally show ?thesis by simp
  qed
  then have j: "?o div ?ri < length (restarts_of h rs)"
    using restart_ordinals_eq [OF ri] by (simp add: restarts_of_def)
  show thesis
  proof (rule that [of "?o div ?ri"])
    fix x assume "x < length rs" "br_lsn (rs ! x) = k"
    then have "x = ?o" using lsn by fastforce
    then show "?o div ?ri * ?ri \<le> x \<and> x < ?o div ?ri * ?ri + ?ri"
      using ri mod_less_divisor [OF ri, of ?o] div_mult_mod_eq [of ?o ?ri] by linarith
  qed (use j in \<open>auto simp: get_opt_def idx\<close>)
qed

lemma find_record_describes:
  assumes d: "describes h body rs" and size: "length body < 2 ^ 32" and inc: "increasing_lsns rs"
  shows "find_record_in_block h body k = Inr (find (\<lambda>r. br_lsn r = k) rs)"
proof (cases "k < bh_first_lsn h \<or> k > bh_last_lsn h")
  case True
  have "br_lsn r \<noteq> k" if mem: "r \<in> set rs" for r
  proof -
    obtain x where "x < length rs" "r = rs ! x" using mem unfolding in_set_conv_nth by blast
    then show ?thesis using describesD(9) [OF d, of x] True by auto
  qed
  then have "find (\<lambda>r. br_lsn r = k) rs = None" by (auto simp: List.find_None_iff)
  then show ?thesis using True by (auto simp: find_record_in_block_def)
next
  case False
  then have k: "bh_first_lsn h \<le> k" "k \<le> bh_last_lsn h" by auto
  note rd = read_restarts_describes [OF d size]
  show ?thesis
  proof (cases "is_sparse_lsn h")
    case True
    obtain j where j: "get_opt (restarts_of h rs) (partition_point (\<lambda>r. rp_absolute_lsn r \<le> k) (restarts_of h rs) - 1)
        = Some (restarts_of h rs ! j)" and jl: "j < length (restarts_of h rs)"
      and win: "\<And>x. x < length rs \<Longrightarrow> br_lsn (rs ! x) = k
        \<Longrightarrow> j * unat (bh_restart_interval h) \<le> x \<and> x < j * unat (bh_restart_interval h) + unat (bh_restart_interval h)"
      using sparse_window [OF d inc k(1)] by metis
    show ?thesis
      using restart_window [OF d size inc jl win] False True rd j
      by (simp add: find_record_in_block_def)
  next
    case dense: False
    obtain j where j: "get_opt (restarts_of h rs) (unat ((ucast (k - bh_first_lsn h) :: u32) div ucast (bh_restart_interval h)))
        = Some (restarts_of h rs ! j)" and jl: "j < length (restarts_of h rs)"
      and win: "\<And>x. x < length rs \<Longrightarrow> br_lsn (rs ! x) = k
        \<Longrightarrow> j * unat (bh_restart_interval h) \<le> x \<and> x < j * unat (bh_restart_interval h) + unat (bh_restart_interval h)"
      using dense_window [OF d dense k] by metis
    show ?thesis
      using restart_window [OF d size inc jl win] False dense rd j
      by (simp add: find_record_in_block_def)
  qed
qed

end
