(* ===== verification/V6_Block_Build.thy ===== *)
theory V6_Block_Build
  imports V6_Block_Correct
begin

text \<open>
  The block builder of \<open>heraclitus-log/src/v6/block.rs\<close> is correct: a block it builds passes the checks
  of the header decoder, decompresses to a body that represents the records it was given, and is
  read back in full and by point lookups. The accounting of the incremental \<open>BlockBuilder\<close> is here
  as well.
\<close>

section \<open>The builder establishes the description\<close>

lemma block_flags_cases:
  "block_flags_of rs AND NOT KNOWN_FLAGS = 0"
  "(block_flags_of rs AND SPARSE_LSN \<noteq> 0) = (\<not> contiguous_lsns rs)"
  "(block_flags_of rs AND HLC_ABSOLUTE \<noteq> 0) = (\<not> monotonic_hlcs rs)"
  by (simp_all add: block_flags_of_def KNOWN_FLAGS_def SPARSE_LSN_def HLC_ABSOLUTE_def LARGE_RECORD_def)

lemma contiguous_lsns_nth:
  "contiguous_lsns rs \<Longrightarrow> i < length rs \<Longrightarrow> br_lsn (rs ! i) = br_lsn (hd rs) + word_of_nat i"
  by (auto simp: contiguous_lsns_def list_all_length enumerate_eq_zip)

lemma increasing_bounds:
  assumes "increasing_lsns rs" and "i < length rs"
  shows "br_lsn (hd rs) \<le> br_lsn (rs ! i)" and "br_lsn (rs ! i) \<le> br_lsn (last rs)"
proof -
  have ne: "rs \<noteq> []" using assms(2) by auto
  show "br_lsn (hd rs) \<le> br_lsn (rs ! i)"
    using increasing_nth [OF assms(1) _ assms(2), of 0] ne by (cases i) (auto simp: hd_conv_nth less_imp_le)
  show "br_lsn (rs ! i) \<le> br_lsn (last rs)"
    using increasing_nth [OF assms(1), of i "length rs - 1"] assms(2) ne
    by (cases "i = length rs - 1") (auto simp: last_conv_nth less_imp_le)
qed

lemma unat_contiguous:
  assumes "increasing_lsns rs" "contiguous_lsns rs" "length rs < 2 ^ 32" "i < length rs"
  shows "unat (br_lsn (rs ! i)) = unat (br_lsn (hd rs)) + i"
proof -
  have "br_lsn (hd rs) \<le> br_lsn (hd rs) + word_of_nat i"
    using increasing_bounds(1) [OF assms(1,4)] contiguous_lsns_nth [OF assms(2,4)] by simp
  moreover have "unat (word_of_nat i :: u64) = i"
    using assms(3,4) by (simp add: unsigned_of_nat take_bit_nat_eq_self)
  ultimately show ?thesis
    using contiguous_lsns_nth [OF assms(2,4)] by (simp add: unat_plus_simple)
qed

definition body_of :: "block_header \<Rightarrow> block_record list \<Rightarrow> bytes" where
  "body_of h rs = region_upto (is_sparse_lsn h) (is_hlc_absolute h) (unat (bh_restart_interval h)) rs (length rs)
     @ concat (map restart_encode (restarts_of h rs))"

text \<open>What \<open>build_block\<close> returns when it succeeds.\<close>

lemma build_block_Inr:
  assumes "build_block cs rs ri profile ratio = Inr b"
  shows "rs \<noteq> []" and "length (body_of (bb_header b) rs) < 2 ^ 32"
    and "compress_block cs (body_of (bb_header b) rs) profile ratio
      = Inr \<lparr>cp_codec = bh_codec (bb_header b), cp_bytes = bb_stored b\<rparr>"
    and "length (bb_stored b) < 2 ^ 32" and "length (restarts_of (bb_header b) rs) < 2 ^ 16"
    and "bb_header_bytes b = block_header_encode (bb_header b) (bb_stored b)"
    and "bh_flags (bb_header b) = block_flags_of rs"
    and "bh_uncompressed_len (bb_header b) = word_of_nat (length (body_of (bb_header b) rs))"
    and "bh_compressed_len (bb_header b) = word_of_nat (length (bb_stored b))"
    and "bh_record_count (bb_header b) = word_of_nat (length rs)"
    and "bh_restart_interval (bb_header b) = max ri 1"
    and "bh_restart_count (bb_header b) = word_of_nat (length (restarts_of (bb_header b) rs))"
    and "bh_first_lsn (bb_header b) = br_lsn (hd rs)" and "bh_last_lsn (bb_header b) = br_lsn (last rs)"
    and "bh_base_hlc (bb_header b) = Min (set (map br_hlc rs))"
    and "bh_max_hlc (bb_header b) = Max (set (map br_hlc rs))"
    and "j < length rs \<Longrightarrow> record_fits (is_sparse_lsn (bb_header b)) (is_hlc_absolute (bb_header b))
      (unat (bh_restart_interval (bb_header b))) rs j"
proof -
  let ?sp = "block_flags_of rs AND SPARSE_LSN \<noteq> 0" and ?ha = "block_flags_of rs AND HLC_ABSOLUTE \<noteq> 0"
  let ?ri = "unat (max ri 1)"
  obtain records restarts c where ne: "rs \<noteq> []"
    and br: "build_records ?ri ?sp ?ha 0 [] [] (br_lsn (hd rs)) (br_hlc (hd rs)) rs = Inr (records, restarts)"
    and l1: "length (records @ concat (map restart_encode restarts)) < 2 ^ 32"
    and c: "compress_block cs (records @ concat (map restart_encode restarts)) profile ratio = Inr c"
    and l2: "length (cp_bytes c) < 2 ^ 32" and l3: "length restarts < 2 ^ 16"
    and b: "b = (let header = \<lparr>bh_codec = cp_codec c, bh_flags = block_flags_of rs,
         bh_uncompressed_len = word_of_nat (length (records @ concat (map restart_encode restarts))),
         bh_compressed_len = word_of_nat (length (cp_bytes c)),
         bh_record_count = word_of_nat (length rs), bh_restart_interval = max ri 1,
         bh_restart_count = word_of_nat (length restarts), bh_first_lsn = br_lsn (hd rs), bh_last_lsn = br_lsn (last rs),
         bh_base_hlc = Min (set (map br_hlc rs)), bh_max_hlc = Max (set (map br_hlc rs)), bh_dictionary_id = 0\<rparr>
       in \<lparr>bb_header = header, bb_header_bytes = block_header_encode header (cp_bytes c),
         bb_stored = cp_bytes c,
         bb_logical_payload_bytes = sum_list (map (\<lambda>r. word_of_nat (length (br_payload r))) rs)\<rparr>)"
    using assms unfolding build_block_def Let_def
    by (auto simp: bindE_eq_Inr split: if_splits)
  have h: "is_sparse_lsn (bb_header b) = ?sp" "is_hlc_absolute (bb_header b) = ?ha"
    "unat (bh_restart_interval (bb_header b)) = ?ri"
    by (simp_all add: b Let_def is_sparse_lsn_def is_hlc_absolute_def)
  have r: "records = region_upto ?sp ?ha ?ri rs (length rs)
    \<and> restarts = map (restart_at ?sp ?ha ?ri rs) (restart_ordinals ?ri (length rs))
    \<and> (\<forall>j. 0 \<le> j \<and> j < length rs \<longrightarrow> record_fits ?sp ?ha ?ri rs j)"
    using br by (intro build_records_Inr [of ?ri ?sp ?ha 0 rs]) (simp_all add: restart_ordinals_def)
  then have re: "restarts = restarts_of (bb_header b) rs"
    by (simp add: restarts_of_def h)
  have bo: "body_of (bb_header b) rs = records @ concat (map restart_encode restarts)"
    using r by (simp only: body_of_def h re)
  show "rs \<noteq> []" by (rule ne)
  show "length (body_of (bb_header b) rs) < 2 ^ 32" unfolding bo by (rule l1)
  show "compress_block cs (body_of (bb_header b) rs) profile ratio
      = Inr \<lparr>cp_codec = bh_codec (bb_header b), cp_bytes = bb_stored b\<rparr>"
    unfolding bo c by (simp add: b Let_def)
  show "length (bb_stored b) < 2 ^ 32" using l2 by (simp add: b Let_def)
  show "length (restarts_of (bb_header b) rs) < 2 ^ 16" using l3 unfolding re .
  show "bh_uncompressed_len (bb_header b) = word_of_nat (length (body_of (bb_header b) rs))"
    unfolding bo by (simp add: b Let_def)
  show "bh_restart_count (bb_header b) = word_of_nat (length (restarts_of (bb_header b) rs))"
    unfolding re [symmetric] by (simp add: b Let_def)
  show "j < length rs \<Longrightarrow> record_fits (is_sparse_lsn (bb_header b)) (is_hlc_absolute (bb_header b))
      (unat (bh_restart_interval (bb_header b))) rs j"
    using r by (simp only: h) simp
  show "bb_header_bytes b = block_header_encode (bb_header b) (bb_stored b)"
    and "bh_flags (bb_header b) = block_flags_of rs"
    and "bh_compressed_len (bb_header b) = word_of_nat (length (bb_stored b))"
    and "bh_record_count (bb_header b) = word_of_nat (length rs)"
    and "bh_restart_interval (bb_header b) = max ri 1"
    and "bh_first_lsn (bb_header b) = br_lsn (hd rs)" and "bh_last_lsn (bb_header b) = br_lsn (last rs)"
    and "bh_base_hlc (bb_header b) = Min (set (map br_hlc rs))"
    and "bh_max_hlc (bb_header b) = Max (set (map br_hlc rs))"
    by (simp_all add: b Let_def)
qed

lemma unat_of_nat_u32: "n < 2 ^ 32 \<Longrightarrow> unat (word_of_nat n :: u32) = n"
  by (simp add: unsigned_of_nat take_bit_nat_eq_self)

lemma built_counts:
  assumes "build_block cs rs ri profile ratio = Inr b"
  shows "unat (bh_record_count (bb_header b)) = length rs" and "length rs < 2 ^ 32"
    and "unat (bh_uncompressed_len (bb_header b)) = length (body_of (bb_header b) rs)"
    and "unat (bh_compressed_len (bb_header b)) = length (bb_stored b)"
    and "unat (bh_restart_count (bb_header b)) = length (restarts_of (bb_header b) rs)"
    and "0 < unat (bh_restart_interval (bb_header b))"
proof -
  note b = build_block_Inr [OF assms]
  show n: "length rs < 2 ^ 32"
    using b(2) region_upto_ge [of "length rs" "is_sparse_lsn (bb_header b)" "is_hlc_absolute (bb_header b)"
        "unat (bh_restart_interval (bb_header b))" rs]
    unfolding body_of_def length_append by linarith
  show "unat (bh_record_count (bb_header b)) = length rs"
    unfolding b(10) by (rule unat_of_nat_u32 [OF n])
  show "unat (bh_uncompressed_len (bb_header b)) = length (body_of (bb_header b) rs)"
    using b(2,8) by (simp only: unat_of_nat_u32)
  show "unat (bh_compressed_len (bb_header b)) = length (bb_stored b)"
    using b(4,9) by (simp only: unat_of_nat_u32)
  show "unat (bh_restart_count (bb_header b)) = length (restarts_of (bb_header b) rs)"
    unfolding b(12) using b(5) by (simp add: unsigned_of_nat take_bit_nat_eq_self)
  have "1 \<le> max ri 1" by simp
  then show "0 < unat (bh_restart_interval (bb_header b))"
    unfolding b(11) by (simp only: word_le_nat_alt unat_1)
qed

lemma built_describes:
  assumes "build_block cs rs ri profile ratio = Inr b" and inc: "increasing_lsns rs"
  shows "describes (bb_header b) (body_of (bb_header b) rs) rs"
proof -
  note b = build_block_Inr [OF assms(1)] and n = built_counts [OF assms(1)]
  have "record_fits (is_sparse_lsn (bb_header b)) (is_hlc_absolute (bb_header b)) (unat (bh_restart_interval (bb_header b))) rs i
      \<and> bh_first_lsn (bb_header b) \<le> br_lsn (rs ! i) \<and> br_lsn (rs ! i) \<le> bh_last_lsn (bb_header b)
      \<and> bh_base_hlc (bb_header b) \<le> br_hlc (rs ! i) \<and> br_hlc (rs ! i) \<le> bh_max_hlc (bb_header b)
      \<and> (\<not> is_sparse_lsn (bb_header b) \<longrightarrow> unat (br_lsn (rs ! i)) = unat (bh_first_lsn (bb_header b)) + i)"
    if i: "i < length rs" for i
  proof (intro conjI impI)
    show "unat (br_lsn (rs ! i)) = unat (bh_first_lsn (bb_header b)) + i" if "\<not> is_sparse_lsn (bb_header b)"
      using that unat_contiguous [OF inc _ n(2) i] block_flags_cases(2) b(7,13) by (simp add: is_sparse_lsn_def)
  qed (use i b(13-17) increasing_bounds [OF inc i] in \<open>simp_all add: Min_le Max_ge\<close>)
  then show ?thesis
    unfolding describes_def Let_def
    using b(1,13,14) n(1,3,5,6) by (simp add: body_of_def)
qed

lemma built_coherent:
  assumes "build_block cs rs ri profile ratio = Inr b" and inc: "increasing_lsns rs"
    and size: "unat (bh_uncompressed_len (bb_header b)) \<le> HARD_MAX_BLOCK_BYTES"
  shows "block_check_coherence (bb_header b) (length (bb_stored b)) = Inr ()"
proof -
  let ?h = "bb_header b"
  note b = build_block_Inr [OF assms(1)] and n = built_counts [OF assms(1)]
    and d = describesD [OF built_describes [OF assms(1) inc]]
  have i0: "0 < length rs" using b(1) by simp
  have "bh_first_lsn ?h \<le> bh_last_lsn ?h" "bh_base_hlc ?h \<le> bh_max_hlc ?h"
    using d(9) [OF i0] by (metis order_trans)+
  moreover have "bh_record_count ?h \<noteq> 0" using n(1) i0 by (metis unat_0 less_irrefl)
  moreover have "bh_restart_interval ?h \<noteq> 0" using n(6) by (metis unat_0 less_irrefl)
  moreover have "length (restarts_of ?h rs) = (length rs + unat (bh_restart_interval ?h) - 1) div unat (bh_restart_interval ?h)"
    using restart_ordinals_eq [OF n(6)] by (simp add: restarts_of_def)
  moreover have "24 * length (restarts_of ?h rs) \<le> length (body_of ?h rs)"
    by (simp add: body_of_def length_restarts_encode)
  moreover have "is_sparse_lsn ?h \<or> saturating_add (bh_last_lsn ?h - bh_first_lsn ?h) 1 = ucast (bh_record_count ?h)"
  proof (cases "is_sparse_lsn ?h")
    case False
    have "length rs - 1 < length rs" using i0 by simp
    from d(9) [OF this] False have "unat (bh_last_lsn ?h) = unat (bh_first_lsn ?h) + (length rs - 1)"
      using b(1,14) by (simp add: last_conv_nth)
    moreover have "bh_first_lsn ?h \<le> bh_last_lsn ?h" using calculation by (simp add: word_le_nat_alt)
    ultimately have "unat (bh_last_lsn ?h - bh_first_lsn ?h) = length rs - 1" by (simp add: unat_sub_u64)
    then have "unat (saturating_add (bh_last_lsn ?h - bh_first_lsn ?h) 1) = length rs"
      using i0 n(2) by (simp add: unat_saturating_add)
    moreover have "unat (ucast (bh_record_count ?h) :: u64) = length rs"
      using n(1,2) by (simp add: unsigned_ucast_eq take_bit_nat_eq_self)
    ultimately show ?thesis by (simp add: word_unat_eq_iff)
  qed simp
  ultimately show ?thesis
    using size n(1,3,4,5) by (simp add: block_coherent_iff RESTART_ENTRY_LEN_def)
qed


lemma built_decompress:
  assumes "codecs_lossless cs" "build_block cs rs ri profile ratio = Inr b"
    "unat (bh_uncompressed_len (bb_header b)) \<le> HARD_MAX_BLOCK_BYTES"
  shows "decompress_body cs (bb_header b) (bb_stored b) HARD_MAX_BLOCK_BYTES = Inr (body_of (bb_header b) rs)"
  using decompress_compress [OF assms(1) build_block_Inr(3) [OF assms(2)], of HARD_MAX_BLOCK_BYTES]
    built_counts(3) [OF assms(2)] assms(3)
  by (simp add: decompress_body_def)

section \<open>When the builder succeeds\<close>

lemma build_records_ok:
  assumes "i \<le> length rs" and "\<forall>j. i \<le> j \<and> j < length rs \<longrightarrow> record_fits sp ha ri rs j"
    and "length (region_upto sp ha ri rs (length rs)) < 2 ^ 32"
    and "i mod ri \<noteq> 0 \<longrightarrow> pl = br_lsn (rs ! (i - 1)) \<and> ph = br_hlc (rs ! (i - 1))"
  shows "\<exists>res. build_records ri sp ha i (region_upto sp ha ri rs i) restarts pl ph (drop i rs) = Inr res"
  using assms
proof (induction "length rs - i" arbitrary: i pl ph restarts)
  case (Suc n)
  let ?r = "rs ! i" and ?rst = "i mod ri = 0"
  have i: "i < length rs" using Suc.hyps(2) by simp
  then have drop: "drop i rs = ?r # drop (Suc i) rs" by (simp add: Cons_nth_drop_Suc)
  have fits: "record_fits sp ha ri rs i" using Suc.prems(2) i by simp
  have "put_record sp ha ?rst (region_upto sp ha ri rs i) pl ph ?r = Inr (region_upto sp ha ri rs (Suc i))"
    using fits Suc.prems(4) by (auto simp: put_record_Inr record_bytes_at_def Let_def record_fits_def)
  moreover have "length (region_upto sp ha ri rs i) < 2 ^ 32"
    using region_upto_strict [OF i, of sp ha ri rs] Suc.prems(3) by linarith
  moreover have "\<exists>res. build_records ri sp ha (Suc i) (region_upto sp ha ri rs (Suc i)) R (br_lsn ?r) (br_hlc ?r)
      (drop (Suc i) rs) = Inr res" for R
    using Suc.hyps Suc.prems i by (intro Suc.hyps(1)) auto
  ultimately show ?case by (simp add: drop Let_def)
qed auto

definition region_bound :: "block_record list \<Rightarrow> nat" where
  "region_bound rs = sum_list (map (\<lambda>r. 30 + length (br_payload r)) rs)"

lemma length_record_bytes: "length (record_bytes_at sp ha ri rs i) \<le> 30 + length (br_payload (rs ! i))"
  using length_uleb_u64 [of "push_bit 3 (word_of_nat (length (br_payload (rs ! i))))"]
    length_uleb_u64 [of "if i mod ri = 0 then br_lsn (rs ! i) else br_lsn (rs ! i) - br_lsn (rs ! (i - 1))"]
    length_uleb_u64 [of "if ha \<or> i mod ri = 0 then br_hlc (rs ! i) else br_hlc (rs ! i) - br_hlc (rs ! (i - 1))"]
  by (simp add: record_bytes_at_def Let_def put_varint_uleb)

lemma length_region_upto: "n \<le> length rs \<Longrightarrow> length (region_upto sp ha ri rs n) \<le> region_bound (take n rs)"
proof (induction n)
  case (Suc n)
  then show ?case
    using length_record_bytes [of sp ha ri rs n]
    by (simp add: region_bound_def take_Suc_conv_app_nth)
qed simp

lemma length_region_ge:
  "n \<le> length rs \<Longrightarrow> sum_list (map (length \<circ> br_payload) (take n rs)) \<le> length (region_upto sp ha ri rs n)"
proof (induction n)
  case (Suc n)
  then show ?case by (simp add: take_Suc_conv_app_nth record_bytes_at_def Let_def)
qed simp

lemma length_restart_ordinals: "length (restart_ordinals ri n) \<le> n"
  using length_filter_le [of "\<lambda>i. i mod ri = 0" "[0..<n]"] by (simp add: restart_ordinals_def)

lemma compress_ratio_0: "compress_block toy_codecs data profile 0 = Inr \<lparr>cp_codec = Codec_Raw, cp_bytes = data\<rparr>"
  by (cases profile) (auto simp: compress_block_def toy_codecs_def below_ratio_def)

text \<open>Records of bounded size whose deltas are nonnegative are always built.\<close>

lemma build_block_ok:
  assumes "rs \<noteq> []" and "length rs < 2 ^ 16" and "region_bound rs + 24 * length rs < 2 ^ 32"
    and fits: "\<forall>j < length rs. record_fits (\<not> contiguous_lsns rs) (\<not> monotonic_hlcs rs) (unat (max ri 1)) rs j"
  shows "\<exists>b. build_block toy_codecs rs ri profile 0 = Inr b
    \<and> unat (bh_uncompressed_len (bb_header b)) \<le> region_bound rs + 24 * length rs
    \<and> sum_list (map (length \<circ> br_payload) rs) \<le> unat (bh_uncompressed_len (bb_header b))"
proof -
  let ?sp = "\<not> contiguous_lsns rs" and ?ha = "\<not> monotonic_hlcs rs" and ?ri = "unat (max ri 1)"
  let ?region = "region_upto ?sp ?ha ?ri rs (length rs)"
  let ?rps = "map (restart_at ?sp ?ha ?ri rs) (restart_ordinals ?ri (length rs))"
  let ?body = "?region @ concat (map restart_encode ?rps)"
  have region: "length ?region \<le> region_bound rs"
    using length_region_upto [of "length rs" rs ?sp ?ha ?ri] by simp
  have rps: "length ?rps \<le> length rs" using length_restart_ordinals by simp
  have len: "length ?body = length ?region + 24 * length ?rps" by (simp only: length_append length_restarts_encode)
  have body: "length ?body \<le> region_bound rs + 24 * length rs" using region rps len by linarith
  obtain records restarts
    where ok: "build_records ?ri ?sp ?ha 0 [] [] (br_lsn (hd rs)) (br_hlc (hd rs)) rs = Inr (records, restarts)"
    using build_records_ok [of 0 rs ?sp ?ha ?ri "br_lsn (hd rs)" "br_hlc (hd rs)" "[]"] fits region assms(3)
    by (auto simp del: max_def)
  have r: "records = ?region" "restarts = ?rps"
    using build_records_Inr [of ?ri ?sp ?ha 0 rs _ _ records restarts] ok by (simp_all add: restart_ordinals_def)
  have "\<exists>b. build_block toy_codecs rs ri profile 0 = Inr b"
    using body assms rps ok
    by (simp add: build_block_def Let_def block_flags_cases r compress_ratio_0 del: map_map)
  then obtain b where b: "build_block toy_codecs rs ri profile 0 = Inr b" by blast
  have "body_of (bb_header b) rs = ?body"
    using build_block_Inr(7,11) [OF b]
    by (simp add: body_of_def restarts_of_def is_sparse_lsn_def is_hlc_absolute_def block_flags_cases)
  then have u: "unat (bh_uncompressed_len (bb_header b)) = length ?body"
    using built_counts(3) [OF b] by simp
  have "sum_list (map (length \<circ> br_payload) rs) \<le> length ?region"
    using length_region_ge [of "length rs" rs ?sp ?ha ?ri] by simp
  then show ?thesis using b u body len by (intro exI [of _ b]) simp
qed

section \<open>Properties\<close>

text \<open>C19. A block survives the disk. If \<open>build_block\<close> succeeds on records with strictly increasing LSNs and
  the uncompressed block is within the hard maximum, then the header it wrote passes every check of the
  header decoder against the stored bytes, and decompressing and decoding those bytes gives back exactly
  the records: every LSN, HLC and payload, through delta encoding, restart points and compression.\<close>

theorem block_roundtrip:
  assumes "codecs_lossless cs" and "build_block cs rs ri profile ratio = Inr b" and "increasing_lsns rs"
    and "unat (bh_uncompressed_len (bb_header b)) \<le> HARD_MAX_BLOCK_BYTES"
  shows "block_header_decode (bb_header_bytes b) (bb_stored b) = Inr (bb_header b)
    \<and> bindE (decompress_body cs (bb_header b) (bb_stored b) HARD_MAX_BLOCK_BYTES)
        (decode_block_records (bb_header b)) = Inr rs"
proof -
  have "length (body_of (bb_header b) rs) < usize_limit"
    using build_block_Inr(2) [OF assms(2)] by (simp add: usize_limit_def)
  then show ?thesis
    using block_header_decode_encode [OF built_coherent [OF assms(2-4)]] block_flags_cases(1)
      build_block_Inr(6,7) [OF assms(2)] built_decompress [OF assms(1,2,4)]
      decode_block_describes [OF built_describes [OF assms(2,3)]]
    by simp
qed

text \<open>C23. Point lookup. On the block that \<open>build_block\<close> wrote, the reader that jumps to one restart point and
  scans at most one restart interval returns, for every LSN, what a linear search of the records
  returns: the record with that LSN, or nothing when there is none.\<close>

theorem block_lookup_is_search:
  assumes "codecs_lossless cs" and "build_block cs rs ri profile ratio = Inr b" and "increasing_lsns rs"
    and "unat (bh_uncompressed_len (bb_header b)) \<le> HARD_MAX_BLOCK_BYTES"
  shows "bindE (decompress_body cs (bb_header b) (bb_stored b) HARD_MAX_BLOCK_BYTES)
      (\<lambda>body. find_record_in_block (bb_header b) body k) = Inr (find (\<lambda>r. br_lsn r = k) rs)"
  using built_decompress [OF assms(1,2,4)] build_block_Inr(2) [OF assms(2)]
    find_record_describes [OF built_describes [OF assms(2,3)] _ assms(3)]
  by simp

text \<open>C40. The builder's limits are wider than the reader's. A block whose body is larger than the hard
  maximum of 64 MiB is built without an error, and its own header is then refused by the decoder: the
  4 GiB check of \<open>build_block\<close> does not protect the reader's limit.\<close>

theorem oversized_block_unreadable:
  assumes "build_block cs rs ri profile ratio = Inr b"
    and "HARD_MAX_BLOCK_BYTES < unat (bh_uncompressed_len (bb_header b))"
  shows "\<exists>e. block_header_decode (bb_header_bytes b) (bb_stored b) = Inl e"
proof (cases "block_header_decode (bb_header_bytes b) (bb_stored b)")
  case (Inr h)
  then have "bh_uncompressed_len h = from_le_bytes (field 8 4 (bb_header_bytes b))"
    and "block_check_coherence h (length (bb_stored b)) = Inr ()"
    by (auto simp: block_header_decode_def Let_def bindE_eq_Inr split: if_splits)
  moreover have "field 8 4 (bb_header_bytes b) = to_le_bytes (bh_uncompressed_len (bb_header b))"
    by (simp add: build_block_Inr(6) [OF assms(1)] block_header_encode_def Let_def block_encode_with_crc_def block_header_fields)
  ultimately show ?thesis using assms(2) by (simp add: block_coherent_iff)
qed simp

text \<open>A block of three records with a gap in the LSNs, restart interval 2.\<close>

definition example_records :: "block_record list" where
  "example_records = [\<lparr>br_lsn = 5, br_hlc = 100, br_payload = [1, 2]\<rparr>, \<lparr>br_lsn = 6, br_hlc = 90, br_payload = []\<rparr>,
     \<lparr>br_lsn = 9, br_hlc = 130, br_payload = [3]\<rparr>]"

lemma example_builds: "\<exists>b. build_block toy_codecs example_records 2 Balanced 0 = Inr b
    \<and> unat (bh_uncompressed_len (bb_header b)) \<le> HARD_MAX_BLOCK_BYTES"
proof -
  have "\<forall>j < length example_records. record_fits True True 2 example_records j"
    by (auto simp: example_records_def record_fits_def less_Suc_eq HARD_MAX_RECORD_BYTES_def)
  moreover have "region_bound example_records = 93"
    by (simp add: example_records_def region_bound_def)
  moreover have "\<not> contiguous_lsns example_records" "\<not> monotonic_hlcs example_records"
    by (simp_all add: contiguous_lsns_def example_records_def)
  ultimately obtain b where "build_block toy_codecs example_records 2 Balanced 0 = Inr b"
      "unat (bh_uncompressed_len (bb_header b)) \<le> 93 + 24 * length example_records"
    using build_block_ok [of example_records 2 Balanced] by (auto simp: example_records_def)
  then show ?thesis by (intro exI [of _ b]) (simp add: example_records_def HARD_MAX_BLOCK_BYTES_def)
qed

lemma example_increasing: "increasing_lsns example_records"
  by (simp add: increasing_lsns_def example_records_def)

lemma block_roundtrip_witness:
  "\<exists>b. build_block toy_codecs example_records 2 Balanced 0 = Inr b
    \<and> block_header_decode (bb_header_bytes b) (bb_stored b) = Inr (bb_header b)
    \<and> bindE (decompress_body toy_codecs (bb_header b) (bb_stored b) HARD_MAX_BLOCK_BYTES)
        (decode_block_records (bb_header b)) = Inr example_records"
proof -
  obtain b where b: "build_block toy_codecs example_records 2 Balanced 0 = Inr b"
      "unat (bh_uncompressed_len (bb_header b)) \<le> HARD_MAX_BLOCK_BYTES"
    using example_builds by blast
  show ?thesis using block_roundtrip [OF toy_lossless b(1) example_increasing b(2)] b(1) by blast
qed

lemma block_lookup_is_search_witness:
  "\<exists>b. build_block toy_codecs example_records 2 Balanced 0 = Inr b
    \<and> bindE (decompress_body toy_codecs (bb_header b) (bb_stored b) HARD_MAX_BLOCK_BYTES)
      (\<lambda>body. find_record_in_block (bb_header b) body 9)
      = Inr (Some \<lparr>br_lsn = 9, br_hlc = 130, br_payload = [3]\<rparr>)"
proof -
  obtain b where b: "build_block toy_codecs example_records 2 Balanced 0 = Inr b"
      "unat (bh_uncompressed_len (bb_header b)) \<le> HARD_MAX_BLOCK_BYTES"
    using example_builds by blast
  have "find (\<lambda>r. br_lsn r = 9) example_records = Some \<lparr>br_lsn = 9, br_hlc = 130, br_payload = [3]\<rparr>"
    by (simp add: example_records_def)
  then show ?thesis
    using block_lookup_is_search [OF toy_lossless b(1) example_increasing b(2), of 9] b(1) by auto
qed

definition zero_record :: "nat \<Rightarrow> block_record" where
  "zero_record n = \<lparr>br_lsn = 0, br_hlc = 0, br_payload = replicate n 0\<rparr>"

lemma zero_record_builds:
  assumes "n \<le> HARD_MAX_RECORD_BYTES"
  shows "\<exists>b. build_block toy_codecs [zero_record n] 1 Balanced 0 = Inr b \<and> n \<le> unat (bh_uncompressed_len (bb_header b))"
proof -
  have "\<forall>j < length [zero_record n]. record_fits (\<not> contiguous_lsns [zero_record n]) (\<not> monotonic_hlcs [zero_record n])
      (unat (max 1 1 :: u16)) [zero_record n] j"
    using assms by (simp add: record_fits_def zero_record_def)
  from build_block_ok [OF _ _ _ this] show ?thesis
    using assms by (auto simp: region_bound_def zero_record_def HARD_MAX_RECORD_BYTES_def)
qed

lemma oversized_block_unreadable_witness:
  "\<exists>b e. build_block toy_codecs [zero_record (Suc HARD_MAX_BLOCK_BYTES)] 1 Balanced 0 = Inr b
    \<and> block_header_decode (bb_header_bytes b) (bb_stored b) = Inl e"
proof -
  have "Suc HARD_MAX_BLOCK_BYTES \<le> HARD_MAX_RECORD_BYTES"
    by (simp add: HARD_MAX_BLOCK_BYTES_def HARD_MAX_RECORD_BYTES_def)
  from zero_record_builds [OF this] obtain b
    where b: "build_block toy_codecs [zero_record (Suc HARD_MAX_BLOCK_BYTES)] 1 Balanced 0 = Inr b"
      "HARD_MAX_BLOCK_BYTES < unat (bh_uncompressed_len (bb_header b))"
    by (auto simp: Suc_le_eq)
  show ?thesis using oversized_block_unreadable [OF b] b(1) by blast
qed

end
