(* ===== verification/V6_Canonical.thy ===== *)
theory V6_Canonical
  imports Varint V6_Merkle
begin

text \<open>
  \<open>heraclitus-log/src/v6/canonical.rs\<close>: the canonical record codec that defines the logical identity of a
  record. One grammar writes to any sink; the three sinks of the code (a buffer, an incremental hasher,
  a byte counter) share one contract, the locale \<open>canonical_sink\<close>. A ULID is its 128-bit number, a
  string its UTF-8 bytes, an \<open>f32\<close> its IEEE-754 bits, and \<open>attrs\<close> (a \<open>BTreeMap\<close>) the list of its
  bindings in key order.
\<close>

definition CANONICAL_CODEC_V1 :: u8 where
  "CANONICAL_CODEC_V1 = 1"

definition DOMAIN_CANONICAL_RECORD :: bytes where
  "DOMAIN_CANONICAL_RECORD = ascii ''HRKL6:CANONICAL_RECORD:V1''"

datatype event_kind =
    Observation | Action | Message | RetrievalFeedback | FactDerived | DemotionReceipt
  | Custom bytes | SystemMetric

fun tag_of :: "event_kind \<Rightarrow> u8" where
  "tag_of Observation = 0x01"
| "tag_of Action = 0x02"
| "tag_of Message = 0x03"
| "tag_of RetrievalFeedback = 0x04"
| "tag_of FactDerived = 0x05"
| "tag_of DemotionReceipt = 0x06"
| "tag_of (Custom _) = 0x07"
| "tag_of SystemMetric = 0x08"

record product_point =
  pp_hyp :: "u32 list"
  pp_sph :: "u32 list"
  pp_euc :: "u32 list"

type_synonym event_id = "128 word"

record episode =
  ep_id :: event_id
  ep_ts_hlc :: u64
  ep_agent_id :: bytes
  ep_session_id :: bytes
  ep_kind :: event_kind
  ep_content :: bytes
  ep_embedding :: "product_point option"
  ep_attrs :: "(bytes \<times> bytes) list"
  ep_parents :: "event_id list"
  ep_valid_from :: "u64 option"
  ep_valid_to :: "u64 option"

record canonical_record =
  cr_lsn :: lsn
  cr_record_hlc :: u64
  cr_opaque_meta :: bytes
  cr_episode :: episode

section \<open>The grammar of a sink\<close>

text \<open>
  A sink is its one abstract method \<open>put_bytes\<close>, here the argument \<open>put\<close>; the provided methods of the
  trait are written over it.
\<close>

definition sink_u8 :: "('s \<Rightarrow> bytes \<Rightarrow> 's) \<Rightarrow> u8 \<Rightarrow> 's \<Rightarrow> 's" where
  "sink_u8 put v s = put s [v]"

definition sink_u64_le :: "('s \<Rightarrow> bytes \<Rightarrow> 's) \<Rightarrow> u64 \<Rightarrow> 's \<Rightarrow> 's" where
  "sink_u64_le put v s = put s (to_le_bytes v)"

definition sink_u32_le :: "('s \<Rightarrow> bytes \<Rightarrow> 's) \<Rightarrow> u32 \<Rightarrow> 's \<Rightarrow> 's" where
  "sink_u32_le put v s = put s (to_le_bytes v)"

definition sink_varint :: "('s \<Rightarrow> bytes \<Rightarrow> 's) \<Rightarrow> u64 \<Rightarrow> 's \<Rightarrow> 's" where
  "sink_varint put v s = (case encode_varint_into (replicate MAX_VARINT_LEN 0) v of (buf, n) \<Rightarrow> put s (take n buf))"

definition sink_lp :: "('s \<Rightarrow> bytes \<Rightarrow> 's) \<Rightarrow> bytes \<Rightarrow> 's \<Rightarrow> 's" where
  "sink_lp put bs s = put (sink_varint put (word_of_nat (length bs)) s) bs"

definition sink_str :: "('s \<Rightarrow> bytes \<Rightarrow> 's) \<Rightarrow> bytes \<Rightarrow> 's \<Rightarrow> 's" where
  "sink_str put str s = sink_lp put str s"

text \<open>\<open>v.is_nan()\<close>, then \<open>v == 0.0\<close> (both zeros), on the bits of an \<open>f32\<close>.\<close>

definition canonical_f32_bits :: "u32 \<Rightarrow> u32" where
  "canonical_f32_bits v =
     (if 0x7f800000 < v AND 0x7fffffff then 0x7fc00000
      else if v AND 0x7fffffff = 0 then 0 else v)"

definition sink_f32 :: "('s \<Rightarrow> bytes \<Rightarrow> 's) \<Rightarrow> u32 \<Rightarrow> 's \<Rightarrow> 's" where
  "sink_f32 put v s = sink_u32_le put (canonical_f32_bits v) s"

definition sink_opt_u64 :: "('s \<Rightarrow> bytes \<Rightarrow> 's) \<Rightarrow> u64 option \<Rightarrow> 's \<Rightarrow> 's" where
  "sink_opt_u64 put v s = (case v of Some x \<Rightarrow> sink_u64_le put x (sink_u8 put 1 s) | None \<Rightarrow> sink_u8 put 0 s)"

definition sink_product_point :: "('s \<Rightarrow> bytes \<Rightarrow> 's) \<Rightarrow> product_point \<Rightarrow> 's \<Rightarrow> 's" where
  "sink_product_point put p s =
     (let s = sink_varint put (word_of_nat (length (pp_hyp p))) s;
          s = fold (sink_f32 put) (pp_hyp p) s;
          s = sink_varint put (word_of_nat (length (pp_sph p))) s;
          s = fold (sink_f32 put) (pp_sph p) s;
          s = sink_varint put (word_of_nat (length (pp_euc p))) s
      in fold (sink_f32 put) (pp_euc p) s)"

definition event_id_bytes :: "event_id \<Rightarrow> bytes" where
  "event_id_bytes i = to_be_bytes i"

definition encode_canonical_record :: "('s \<Rightarrow> bytes \<Rightarrow> 's) \<Rightarrow> canonical_record \<Rightarrow> 's \<Rightarrow> 's" where
  "encode_canonical_record put r s =
     (let ep = cr_episode r;
          s = sink_u64_le put (cr_lsn r) s;
          s = sink_u64_le put (cr_record_hlc r) s;
          s = put s (cr_opaque_meta r);
          s = put s (event_id_bytes (ep_id ep));
          s = sink_u64_le put (ep_ts_hlc ep) s;
          s = sink_str put (ep_agent_id ep) s;
          s = sink_str put (ep_session_id ep) s;
          s = sink_u8 put (tag_of (ep_kind ep)) s;
          s = (case ep_kind ep of Custom name \<Rightarrow> sink_str put name s | _ \<Rightarrow> s);
          s = sink_lp put (ep_content ep) s;
          s = (case ep_embedding ep of Some p \<Rightarrow> sink_product_point put p (sink_u8 put 1 s)
               | None \<Rightarrow> sink_u8 put 0 s);
          s = sink_varint put (word_of_nat (length (ep_attrs ep))) s;
          s = fold (\<lambda>(k, v) s. sink_str put v (sink_str put k s)) (ep_attrs ep) s;
          s = sink_varint put (word_of_nat (length (ep_parents ep))) s;
          s = fold (\<lambda>p s. put s (event_id_bytes p)) (ep_parents ep) s;
          s = sink_opt_u64 put (ep_valid_from ep) s
      in sink_opt_u64 put (ep_valid_to ep) s)"

section \<open>The sinks of the code\<close>

definition vec_put_bytes :: "bytes \<Rightarrow> bytes \<Rightarrow> bytes" where
  "vec_put_bytes v bs = v @ bs"

text \<open>An incremental hasher is represented by what it has been fed.\<close>

datatype hash_sink = HashSink bytes

definition hash_sink_new :: hash_sink where
  "hash_sink_new = HashSink DOMAIN_CANONICAL_RECORD"

fun hash_sink_put_bytes :: "hash_sink \<Rightarrow> bytes \<Rightarrow> hash_sink" where
  "hash_sink_put_bytes (HashSink fed) bs = HashSink (fed @ bs)"

fun hash_sink_finalize :: "hash_fn \<Rightarrow> hash_sink \<Rightarrow> bytes" where
  "hash_sink_finalize H (HashSink fed) = H fed"

definition counting_put_bytes :: "nat \<Rightarrow> bytes \<Rightarrow> nat" where
  "counting_put_bytes n bs = n + length bs"

definition canonical_record_bytes :: "canonical_record \<Rightarrow> bytes" where
  "canonical_record_bytes r = encode_canonical_record vec_put_bytes r []"

definition canonical_record_hash :: "hash_fn \<Rightarrow> canonical_record \<Rightarrow> bytes" where
  "canonical_record_hash H r =
     hash_sink_finalize H (encode_canonical_record hash_sink_put_bytes r hash_sink_new)"

definition estimate_canonical_len :: "canonical_record \<Rightarrow> nat" where
  "estimate_canonical_len r =
     (let ep = cr_episode r;
          emb = (case ep_embedding ep of
                   Some p \<Rightarrow> 3 * MAX_VARINT_LEN + 4 * (length (pp_hyp p) + length (pp_sph p) + length (pp_euc p))
                 | None \<Rightarrow> 0);
          attrs = sum_list (map (\<lambda>(k, v). length k + length v + 2 * MAX_VARINT_LEN) (ep_attrs ep))
      in 8 + 8 + 16 + 16 + 8 + length (ep_agent_id ep) + length (ep_session_id ep) + 32
         + varint_len (word_of_nat (length (ep_content ep))) + length (ep_content ep) + 1 + emb
         + MAX_VARINT_LEN + attrs + MAX_VARINT_LEN + 16 * length (ep_parents ep) + 18)"

text \<open>\<open>CanonicalRecordHasherV1\<close>: the same primitives on the hashing sink.\<close>

definition hasher_absorb :: "hash_sink \<Rightarrow> canonical_record \<Rightarrow> hash_sink" where
  "hasher_absorb h r = encode_canonical_record hash_sink_put_bytes r h"

definition hasher_write_u64 :: "hash_sink \<Rightarrow> u64 \<Rightarrow> hash_sink" where
  "hasher_write_u64 h v = sink_u64_le hash_sink_put_bytes v h"

definition hasher_write_string :: "hash_sink \<Rightarrow> bytes \<Rightarrow> hash_sink" where
  "hasher_write_string h str = sink_str hash_sink_put_bytes str h"

definition hasher_write_bytes :: "hash_sink \<Rightarrow> bytes \<Rightarrow> hash_sink" where
  "hasher_write_bytes h bs = sink_lp hash_sink_put_bytes bs h"

section \<open>The bytes of the grammar\<close>

definition lp_bytes :: "bytes \<Rightarrow> bytes" where
  "lp_bytes bs = put_varint [] (word_of_nat (length bs)) @ bs"

definition opt_u64_bytes :: "u64 option \<Rightarrow> bytes" where
  "opt_u64_bytes v = (case v of Some x \<Rightarrow> [1] @ to_le_bytes x | None \<Rightarrow> [0])"

definition f32s_bytes :: "u32 list \<Rightarrow> bytes" where
  "f32s_bytes vs = put_varint [] (word_of_nat (length vs))
     @ concat (map (\<lambda>v. to_le_bytes (canonical_f32_bits v)) vs)"

definition product_point_bytes :: "product_point \<Rightarrow> bytes" where
  "product_point_bytes p = f32s_bytes (pp_hyp p) @ f32s_bytes (pp_sph p) @ f32s_bytes (pp_euc p)"

definition kind_bytes :: "event_kind \<Rightarrow> bytes" where
  "kind_bytes k = [tag_of k] @ (case k of Custom name \<Rightarrow> lp_bytes name | _ \<Rightarrow> [])"

definition embedding_bytes :: "product_point option \<Rightarrow> bytes" where
  "embedding_bytes e = (case e of Some p \<Rightarrow> [1] @ product_point_bytes p | None \<Rightarrow> [0])"

definition attrs_bytes :: "(bytes \<times> bytes) list \<Rightarrow> bytes" where
  "attrs_bytes as = put_varint [] (word_of_nat (length as)) @ concat (map (\<lambda>(k, v). lp_bytes k @ lp_bytes v) as)"

definition parents_bytes :: "event_id list \<Rightarrow> bytes" where
  "parents_bytes ps = put_varint [] (word_of_nat (length ps)) @ concat (map event_id_bytes ps)"

definition record_bytes :: "canonical_record \<Rightarrow> bytes" where
  "record_bytes r = (let ep = cr_episode r in
     to_le_bytes (cr_lsn r) @ to_le_bytes (cr_record_hlc r) @ cr_opaque_meta r @ event_id_bytes (ep_id ep)
     @ to_le_bytes (ep_ts_hlc ep) @ lp_bytes (ep_agent_id ep) @ lp_bytes (ep_session_id ep)
     @ kind_bytes (ep_kind ep) @ lp_bytes (ep_content ep) @ embedding_bytes (ep_embedding ep)
     @ attrs_bytes (ep_attrs ep) @ parents_bytes (ep_parents ep) @ opt_u64_bytes (ep_valid_from ep)
     @ opt_u64_bytes (ep_valid_to ep))"

text \<open>
  The contract of a sink: feeding pieces is feeding their concatenation. Every method of the trait then
  feeds one determined string, so all sinks see the same bytes.
\<close>

locale canonical_sink =
  fixes put :: "'s \<Rightarrow> bytes \<Rightarrow> 's"
  assumes put_put: "put (put s a) b = put s (a @ b)"
begin

lemma sink_varint_put: "sink_varint put v s = put s (put_varint [] v)"
  using encode_varint_into_eq [of "replicate MAX_VARINT_LEN 0" v]
  by (simp add: sink_varint_def varint_len_eq)

lemma sink_lp_put: "sink_lp put bs s = put s (lp_bytes bs)"
  by (simp add: sink_lp_def sink_varint_put put_put lp_bytes_def)

lemma fold_put: "put (fold (\<lambda>x s. put s (f x)) xs s) b = put s (concat (map f xs) @ b)"
  by (induction xs arbitrary: s) (simp_all add: put_put)

lemma put_fold: "fold (\<lambda>x s. put s (f x)) xs (put s a) = put s (a @ concat (map f xs))"
  by (induction xs arbitrary: a) (simp_all add: put_put)

lemma sink_f32_put: "sink_f32 put = (\<lambda>v s. put s (to_le_bytes (canonical_f32_bits v)))"
  by (intro ext) (simp add: sink_f32_def sink_u32_le_def)

lemma sink_product_point_put: "sink_product_point put p s = put s (product_point_bytes p)"
  by (simp add: sink_product_point_def sink_f32_put sink_varint_put put_fold put_put product_point_bytes_def
      f32s_bytes_def)

lemma encode_put: "encode_canonical_record put r s = put s (record_bytes r)"
proof -
  have attrs: "fold (\<lambda>(k, v) s. put s (lp_bytes k @ lp_bytes v)) as (put s a)
      = put s (a @ concat (map (\<lambda>(k, v). lp_bytes k @ lp_bytes v) as))" for as s a
    by (induction as arbitrary: a) (auto simp: put_put)
  show ?thesis
    by (cases "ep_kind (cr_episode r)"; cases "ep_embedding (cr_episode r)";
        cases "ep_valid_from (cr_episode r)"; cases "ep_valid_to (cr_episode r)")
       (simp_all add: encode_canonical_record_def record_bytes_def Let_def sink_u64_le_def sink_u8_def sink_str_def
         sink_lp_put sink_varint_put sink_product_point_put sink_opt_u64_def put_put put_fold attrs
         attrs_bytes_def parents_bytes_def opt_u64_bytes_def embedding_bytes_def kind_bytes_def)
qed

end

interpretation vec_sink: canonical_sink vec_put_bytes
  by unfold_locales (simp add: vec_put_bytes_def)

interpretation hash_sink: canonical_sink hash_sink_put_bytes
proof
  fix s a b show "hash_sink_put_bytes (hash_sink_put_bytes s a) b = hash_sink_put_bytes s (a @ b)"
    by (cases s) simp
qed

interpretation counting_sink: canonical_sink counting_put_bytes
  by unfold_locales (simp add: counting_put_bytes_def)

lemma canonical_record_bytes_eq: "canonical_record_bytes r = record_bytes r"
  by (simp add: canonical_record_bytes_def vec_sink.encode_put) (simp add: vec_put_bytes_def)

section \<open>The encoding is injective\<close>

text \<open>
  A prefix code: an encoded value is recovered from the front of any byte string. \<open>norm\<close> is what is
  recovered, the value up to the representation freedom that the codec removes on purpose.
\<close>

definition counted :: "('a \<Rightarrow> bytes) \<Rightarrow> 'a list \<Rightarrow> bytes" where
  "counted enc xs = put_varint [] (word_of_nat (length xs)) @ concat (map enc xs)"

lemma put_varint_prefix: "put_varint [] a @ r = put_varint [] b @ s \<longleftrightarrow> a = b \<and> r = s"
  using read_varint_put [of a r "[]"] read_varint_put [of b s "[]"] by auto

lemma word_of_nat_inj64:
  "m < 2 ^ 64 \<Longrightarrow> n < 2 ^ 64 \<Longrightarrow> (word_of_nat m :: u64) = word_of_nat n \<longleftrightarrow> m = n"
  using word_of_nat_length_inj by auto

locale prefix_code =
  fixes enc :: "'a \<Rightarrow> bytes" and ok :: "'a \<Rightarrow> bool" and norm :: "'a \<Rightarrow> 'b"
  assumes enc_prefix: "ok x \<Longrightarrow> ok y \<Longrightarrow> enc x @ r = enc y @ s \<Longrightarrow> norm x = norm y \<and> r = s"
begin

lemma concat_prefix:
  assumes "length xs = length ys" "list_all ok xs" "list_all ok ys"
    and "concat (map enc xs) @ r = concat (map enc ys) @ s"
  shows "map norm xs = map norm ys \<and> r = s"
  using assms
proof (induction xs ys arbitrary: r s rule: list_induct2)
  case (Cons x xs y ys)
  then have "norm x = norm y \<and> concat (map enc xs) @ r = concat (map enc ys) @ s"
    by (intro enc_prefix) auto
  then show ?case using Cons by auto
qed simp

lemma counted_prefix:
  assumes "length xs < 2 ^ 64" "length ys < 2 ^ 64" "list_all ok xs" "list_all ok ys"
    and "counted enc xs @ r = counted enc ys @ s"
  shows "map norm xs = map norm ys \<and> r = s"
proof -
  have "(word_of_nat (length xs) :: u64) = word_of_nat (length ys)"
    and "concat (map enc xs) @ r = concat (map enc ys) @ s"
    using assms(5) by (auto simp: counted_def put_varint_prefix)
  then show ?thesis using assms(1-4) by (intro concat_prefix) (simp_all add: word_of_nat_inj64)
qed

end

interpretation lp_code: prefix_code lp_bytes "\<lambda>bs. length bs < 2 ^ 64" "\<lambda>bs. bs"
  by unfold_locales (auto simp: lp_bytes_def put_varint_prefix word_of_nat_inj64 append_eq_append_conv)

interpretation attr_code: prefix_code "\<lambda>(k, v). lp_bytes k @ lp_bytes v"
  "\<lambda>(k, v). length k < 2 ^ 64 \<and> length v < 2 ^ 64" "\<lambda>kv. kv"
  by unfold_locales (auto dest!: lp_code.enc_prefix [rotated 2])

interpretation f32_code: prefix_code "\<lambda>v. to_le_bytes (canonical_f32_bits v)" "\<lambda>_. True" canonical_f32_bits
  by unfold_locales (auto simp: append_eq_append_conv to_le_bytes_inj)

interpretation event_id_code: prefix_code event_id_bytes "\<lambda>_. True" "\<lambda>i. i"
  by unfold_locales (auto simp: event_id_bytes_def append_eq_append_conv to_be_bytes_def to_le_bytes_inj)

definition normal_point :: "product_point \<Rightarrow> product_point" where
  "normal_point p = \<lparr>pp_hyp = map canonical_f32_bits (pp_hyp p), pp_sph = map canonical_f32_bits (pp_sph p),
     pp_euc = map canonical_f32_bits (pp_euc p)\<rparr>"

definition point_ok :: "product_point \<Rightarrow> bool" where
  "point_ok p = (length (pp_hyp p) < 2 ^ 64 \<and> length (pp_sph p) < 2 ^ 64 \<and> length (pp_euc p) < 2 ^ 64)"

lemma f32s_bytes_counted: "f32s_bytes = counted (\<lambda>v. to_le_bytes (canonical_f32_bits v))"
  by (simp add: f32s_bytes_def counted_def fun_eq_iff)

lemma attrs_bytes_counted: "attrs_bytes = counted (\<lambda>(k, v). lp_bytes k @ lp_bytes v)"
  by (simp add: attrs_bytes_def counted_def fun_eq_iff)

lemma parents_bytes_counted: "parents_bytes = counted event_id_bytes"
  by (simp add: parents_bytes_def counted_def fun_eq_iff)

lemma f32s_prefix:
  "length xs < 2 ^ 64 \<Longrightarrow> length ys < 2 ^ 64 \<Longrightarrow> f32s_bytes xs @ r = f32s_bytes ys @ s
    \<Longrightarrow> map canonical_f32_bits xs = map canonical_f32_bits ys \<and> r = s"
  unfolding f32s_bytes_counted by (erule (1) f32_code.counted_prefix) (auto simp: list_all_iff)

interpretation point_code: prefix_code product_point_bytes point_ok normal_point
proof
  fix x y r s
  assume ok: "point_ok x" "point_ok y" and eq: "product_point_bytes x @ r = product_point_bytes y @ s"
  have 1: "map canonical_f32_bits (pp_hyp x) = map canonical_f32_bits (pp_hyp y)
      \<and> f32s_bytes (pp_sph x) @ f32s_bytes (pp_euc x) @ r = f32s_bytes (pp_sph y) @ f32s_bytes (pp_euc y) @ s"
    using ok eq by (intro f32s_prefix) (auto simp: point_ok_def product_point_bytes_def)
  then have 2: "map canonical_f32_bits (pp_sph x) = map canonical_f32_bits (pp_sph y)
      \<and> f32s_bytes (pp_euc x) @ r = f32s_bytes (pp_euc y) @ s"
    using ok by (intro f32s_prefix) (auto simp: point_ok_def)
  then have "map canonical_f32_bits (pp_euc x) = map canonical_f32_bits (pp_euc y) \<and> r = s"
    using ok by (intro f32s_prefix) (auto simp: point_ok_def)
  with 1 2 show "normal_point x = normal_point y \<and> r = s" by (simp add: normal_point_def)
qed

lemma tag_of_inj: "tag_of k = tag_of l \<Longrightarrow> k = l \<or> (\<exists>m n. k = Custom m \<and> l = Custom n)"
  by (cases k; cases l) auto

interpretation kind_code: prefix_code kind_bytes
  "\<lambda>k. case k of Custom name \<Rightarrow> length name < 2 ^ 64 | _ \<Rightarrow> True" "\<lambda>k. k"
proof
  fix x y :: event_kind and r s :: bytes
  assume ok: "case x of Custom name \<Rightarrow> length name < 2 ^ 64 | _ \<Rightarrow> True"
    "case y of Custom name \<Rightarrow> length name < 2 ^ 64 | _ \<Rightarrow> True" and eq: "kind_bytes x @ r = kind_bytes y @ s"
  then have "tag_of x = tag_of y" by (simp add: kind_bytes_def)
  from tag_of_inj [OF this] show "x = y \<and> r = s"
  proof
    assume "\<exists>m n. x = Custom m \<and> y = Custom n"
    then obtain m n where xy: "x = Custom m" "y = Custom n" by blast
    then have "lp_bytes m @ r = lp_bytes n @ s" using eq by (simp add: kind_bytes_def)
    from lp_code.enc_prefix [OF _ _ this] show ?thesis using ok xy by simp
  qed (use eq in simp)
qed

interpretation opt_u64_code: prefix_code opt_u64_bytes "\<lambda>_. True" "\<lambda>v. v"
  by unfold_locales
     (auto simp: opt_u64_bytes_def append_eq_append_conv to_le_bytes_inj split: option.splits)

interpretation embedding_code: prefix_code embedding_bytes
  "\<lambda>e. case e of Some p \<Rightarrow> point_ok p | None \<Rightarrow> True" "map_option normal_point"
  by unfold_locales (auto simp: embedding_bytes_def split: option.splits dest!: point_code.enc_prefix [rotated 2])

text \<open>What the types of the Rust record guarantee: array lengths, and lengths that fit in memory.\<close>

definition record_ok :: "canonical_record \<Rightarrow> bool" where
  "record_ok r = (let ep = cr_episode r in
     length (cr_opaque_meta r) = 16 \<and> length (ep_agent_id ep) < 2 ^ 64 \<and> length (ep_session_id ep) < 2 ^ 64
     \<and> (case ep_kind ep of Custom name \<Rightarrow> length name < 2 ^ 64 | _ \<Rightarrow> True) \<and> length (ep_content ep) < 2 ^ 64
     \<and> (case ep_embedding ep of Some p \<Rightarrow> point_ok p | None \<Rightarrow> True)
     \<and> length (ep_attrs ep) < 2 ^ 64 \<and> list_all (\<lambda>(k, v). length k < 2 ^ 64 \<and> length v < 2 ^ 64) (ep_attrs ep)
     \<and> length (ep_parents ep) < 2 ^ 64)"

text \<open>The record up to the sign of zero and the payload of NaN in its embedding.\<close>

definition normal_record :: "canonical_record \<Rightarrow> canonical_record" where
  "normal_record r = r\<lparr>cr_episode := (cr_episode r)\<lparr>ep_embedding := map_option normal_point (ep_embedding (cr_episode r))\<rparr>\<rparr>"

lemma canonical_f32_bits_idem: "canonical_f32_bits (canonical_f32_bits v) = canonical_f32_bits v"
  by (simp add: canonical_f32_bits_def)

lemma normal_point_bytes: "normal_point p = normal_point q \<Longrightarrow> product_point_bytes p = product_point_bytes q"
proof -
  have "f32s_bytes vs = f32s_bytes (map canonical_f32_bits vs)" for vs
    by (simp add: f32s_bytes_def comp_def canonical_f32_bits_idem)
  then show "normal_point p = normal_point q \<Longrightarrow> product_point_bytes p = product_point_bytes q"
    by (simp add: product_point_bytes_def normal_point_def) metis
qed

text \<open>The fields from the embedding on.\<close>

definition optional_bytes :: "episode \<Rightarrow> bytes" where
  "optional_bytes ep = embedding_bytes (ep_embedding ep) @ attrs_bytes (ep_attrs ep)
     @ parents_bytes (ep_parents ep) @ opt_u64_bytes (ep_valid_from ep) @ opt_u64_bytes (ep_valid_to ep)"

definition episode_ok :: "episode \<Rightarrow> bool" where
  "episode_ok ep = ((case ep_embedding ep of Some p \<Rightarrow> point_ok p | None \<Rightarrow> True)
     \<and> length (ep_attrs ep) < 2 ^ 64 \<and> list_all (\<lambda>(k, v). length k < 2 ^ 64 \<and> length v < 2 ^ 64) (ep_attrs ep)
     \<and> length (ep_parents ep) < 2 ^ 64)"

lemma optional_bytes_inj:
  assumes ok: "episode_ok e" "episode_ok e'" and eq: "optional_bytes e = optional_bytes e'"
  shows "map_option normal_point (ep_embedding e) = map_option normal_point (ep_embedding e')
    \<and> ep_attrs e = ep_attrs e' \<and> ep_parents e = ep_parents e'
    \<and> ep_valid_from e = ep_valid_from e' \<and> ep_valid_to e = ep_valid_to e'"
proof -
  note ok = ok [unfolded episode_ok_def]
  from embedding_code.enc_prefix [OF _ _ eq [unfolded optional_bytes_def]] ok
  have 6: "map_option normal_point (ep_embedding e) = map_option normal_point (ep_embedding e')"
    and "attrs_bytes (ep_attrs e) @ parents_bytes (ep_parents e) @ opt_u64_bytes (ep_valid_from e)
        @ opt_u64_bytes (ep_valid_to e)
      = attrs_bytes (ep_attrs e') @ parents_bytes (ep_parents e') @ opt_u64_bytes (ep_valid_from e')
        @ opt_u64_bytes (ep_valid_to e')" by auto
  from attr_code.counted_prefix [OF _ _ _ _ this(2) [unfolded attrs_bytes_counted]] ok
  have 7: "ep_attrs e = ep_attrs e'"
    and "parents_bytes (ep_parents e) @ opt_u64_bytes (ep_valid_from e) @ opt_u64_bytes (ep_valid_to e)
      = parents_bytes (ep_parents e') @ opt_u64_bytes (ep_valid_from e') @ opt_u64_bytes (ep_valid_to e')"
    by auto
  from event_id_code.counted_prefix [OF _ _ _ _ this(2) [unfolded parents_bytes_counted]] ok
  have 8: "ep_parents e = ep_parents e'"
    and "opt_u64_bytes (ep_valid_from e) @ opt_u64_bytes (ep_valid_to e) @ []
      = opt_u64_bytes (ep_valid_from e') @ opt_u64_bytes (ep_valid_to e') @ []" by (auto simp: list_all_iff)
  from opt_u64_code.enc_prefix [OF _ _ this(2)]
  have 9: "ep_valid_from e = ep_valid_from e'"
    and "opt_u64_bytes (ep_valid_to e) @ [] = opt_u64_bytes (ep_valid_to e') @ []" by auto
  from opt_u64_code.enc_prefix [OF _ _ this(2)] 6 7 8 9 show ?thesis by auto
qed

lemma record_bytes_inj:
  assumes ok: "record_ok r" "record_ok r'" and eq: "record_bytes r = record_bytes r'"
  shows "normal_record r = normal_record r'"
proof -
  let ?e = "cr_episode r" and ?e' = "cr_episode r'"
  have ep_ok: "episode_ok ?e" "episode_ok ?e'" using ok by (simp_all add: record_ok_def episode_ok_def Let_def)
  note ok = ok [unfolded record_ok_def Let_def]
  note eq = eq [unfolded record_bytes_def Let_def]
  have 1: "cr_lsn r = cr_lsn r'" "cr_record_hlc r = cr_record_hlc r'" "cr_opaque_meta r = cr_opaque_meta r'"
    "ep_id ?e = ep_id ?e'" "ep_ts_hlc ?e = ep_ts_hlc ?e'"
    using eq ok by (auto simp: append_eq_append_conv to_le_bytes_inj event_id_bytes_def to_be_bytes_def)
  from eq have "lp_bytes (ep_agent_id ?e) @ lp_bytes (ep_session_id ?e) @ kind_bytes (ep_kind ?e)
      @ lp_bytes (ep_content ?e) @ optional_bytes ?e
    = lp_bytes (ep_agent_id ?e') @ lp_bytes (ep_session_id ?e') @ kind_bytes (ep_kind ?e')
      @ lp_bytes (ep_content ?e') @ optional_bytes ?e'"
    using 1 by (simp add: optional_bytes_def)
  from lp_code.enc_prefix [OF _ _ this] ok
  have 2: "ep_agent_id ?e = ep_agent_id ?e'" and "lp_bytes (ep_session_id ?e) @ kind_bytes (ep_kind ?e)
      @ lp_bytes (ep_content ?e) @ optional_bytes ?e = lp_bytes (ep_session_id ?e') @ kind_bytes (ep_kind ?e')
      @ lp_bytes (ep_content ?e') @ optional_bytes ?e'" by auto
  from lp_code.enc_prefix [OF _ _ this(2)] ok
  have 3: "ep_session_id ?e = ep_session_id ?e'" and "kind_bytes (ep_kind ?e)
      @ lp_bytes (ep_content ?e) @ optional_bytes ?e = kind_bytes (ep_kind ?e')
      @ lp_bytes (ep_content ?e') @ optional_bytes ?e'" by auto
  from kind_code.enc_prefix [OF _ _ this(2)] ok
  have 4: "ep_kind ?e = ep_kind ?e'" and "lp_bytes (ep_content ?e) @ optional_bytes ?e
      = lp_bytes (ep_content ?e') @ optional_bytes ?e'" by auto
  from lp_code.enc_prefix [OF _ _ this(2)] ok
  have 5: "ep_content ?e = ep_content ?e'" and "optional_bytes ?e = optional_bytes ?e'" by auto
  from optional_bytes_inj [OF ep_ok this(2)] 1 2 3 4 5 show ?thesis
    by (cases r; cases r'; cases ?e; cases ?e') (simp add: normal_record_def)
qed

lemma normal_record_bytes: "normal_record r = normal_record r' \<Longrightarrow> record_bytes r = record_bytes r'"
proof -
  have emb: "embedding_bytes (map_option normal_point e) = embedding_bytes e" for e
  proof (cases e)
    case (Some p)
    have "normal_point (normal_point p) = normal_point p"
      by (simp add: normal_point_def comp_def canonical_f32_bits_idem)
    then have "product_point_bytes (normal_point p) = product_point_bytes p" by (rule normal_point_bytes)
    then show ?thesis using Some by (simp add: embedding_bytes_def)
  qed simp
  have "record_bytes (normal_record r) = record_bytes r" for r
    by (simp add: record_bytes_def normal_record_def emb Let_def)
  then show "normal_record r = normal_record r' \<Longrightarrow> record_bytes r = record_bytes r'" by metis
qed

section \<open>Properties\<close>

text \<open>C24. Logical identity: two records have the same canonical bytes exactly when they agree in every
  field, where the components of the embedding are compared up to the sign of zero and the payload of
  a NaN. No length prefix, tag or presence byte leaves an ambiguity, and \<open>opaque_meta\<close> is part of it.\<close>

theorem canonical_bytes_identify_record:
  assumes "record_ok r" and "record_ok r'"
  shows "canonical_record_bytes r = canonical_record_bytes r' \<longleftrightarrow> normal_record r = normal_record r'"
  unfolding canonical_record_bytes_eq by (rule iffI [OF record_bytes_inj [OF assms] normal_record_bytes])

definition example_record :: "u64 \<Rightarrow> canonical_record" where
  "example_record k = \<lparr>cr_lsn = k, cr_record_hlc = 70, cr_opaque_meta = replicate 16 1, cr_episode =
     \<lparr>ep_id = 99, ep_ts_hlc = 69, ep_agent_id = [0x61], ep_session_id = [], ep_kind = Custom [0x7A, 0x7A],
      ep_content = [1, 2, 3], ep_embedding = Some \<lparr>pp_hyp = [0x80000000], pp_sph = [], pp_euc = [0x3f800000]\<rparr>,
      ep_attrs = [([0x61], [0x62])], ep_parents = [98], ep_valid_from = None, ep_valid_to = Some 4\<rparr>\<rparr>"

lemma example_record_ok: "record_ok (example_record k)"
  by (simp add: example_record_def record_ok_def point_ok_def)

lemma canonical_bytes_identify_record_witness:
  "canonical_record_bytes (example_record 1) \<noteq> canonical_record_bytes (example_record 2)"
  using canonical_bytes_identify_record [OF example_record_ok [of 1] example_record_ok [of 2]]
  by (simp add: normal_record_def example_record_def)

text \<open>C17. One grammar for every sink: the streaming hash that \<open>append\<close> computes without materialising
  the record is the hash of the domain tag followed by exactly the bytes that the buffer sink
  produces, and the counting sink measures their number.\<close>

theorem all_sinks_agree:
  "canonical_record_hash H r = H (DOMAIN_CANONICAL_RECORD @ canonical_record_bytes r)
    \<and> encode_canonical_record counting_put_bytes r n = n + length (canonical_record_bytes r)
    \<and> hasher_absorb hash_sink_new r = HashSink (DOMAIN_CANONICAL_RECORD @ canonical_record_bytes r)"
  by (simp add: canonical_record_hash_def hasher_absorb_def hash_sink.encode_put counting_sink.encode_put
      hash_sink_new_def counting_put_bytes_def canonical_record_bytes_eq)

section \<open>The size estimate\<close>

lemma length_put_varint_le: "length (put_varint [] v) \<le> 10"
  using length_uleb_u64 [of v] by (simp add: put_varint_uleb)

lemma length_lp_bytes: "length (lp_bytes bs) \<le> 10 + length bs"
  using length_put_varint_le by (simp add: lp_bytes_def)

lemma length_f32s_bytes: "length (f32s_bytes vs) \<le> 10 + 4 * length vs"
proof -
  have "length (concat (map (\<lambda>v. to_le_bytes (canonical_f32_bits v)) vs)) = 4 * length vs"
    by (induction vs) auto
  then show ?thesis using length_put_varint_le by (simp add: f32s_bytes_def)
qed

lemma length_attrs_bytes:
  "length (attrs_bytes as) \<le> 10 + sum_list (map (\<lambda>(k, v). length k + length v + 20) as)"
proof -
  have "length (concat (map (\<lambda>(k, v). lp_bytes k @ lp_bytes v) as))
      \<le> sum_list (map (\<lambda>(k, v). length k + length v + 20) as)"
  proof (induction as)
    case (Cons kv as)
    obtain k v where "kv = (k, v)" by (cases kv)
    then show ?case using Cons length_lp_bytes [of k] length_lp_bytes [of v] by simp
  qed simp
  then show ?thesis
    using length_put_varint_le [of "word_of_nat (length as)"] unfolding attrs_bytes_def length_append by linarith
qed

lemma length_parents_bytes: "length (parents_bytes ps) \<le> 10 + 16 * length ps"
proof -
  have "length (concat (map event_id_bytes ps)) = 16 * length ps"
    by (induction ps) (auto simp: event_id_bytes_def)
  then show ?thesis using length_put_varint_le by (simp add: parents_bytes_def)
qed

lemma length_embedding_bytes:
  "length (embedding_bytes e) \<le> 1 + (case e of Some p \<Rightarrow> 30 + 4 * (length (pp_hyp p) + length (pp_sph p) + length (pp_euc p)) | None \<Rightarrow> 0)"
proof (cases e)
  case (Some p)
  then show ?thesis
    using length_f32s_bytes [of "pp_hyp p"] length_f32s_bytes [of "pp_sph p"] length_f32s_bytes [of "pp_euc p"]
    by (simp add: embedding_bytes_def product_point_bytes_def)
qed (simp add: embedding_bytes_def)

lemma length_kind_bytes:
  "length (kind_bytes k) \<le> 11 + (case k of Custom name \<Rightarrow> length name | _ \<Rightarrow> 0)"
  using length_lp_bytes by (cases k) (simp_all add: kind_bytes_def)

lemma length_opt_u64_bytes: "length (opt_u64_bytes v) \<le> 9"
  by (cases v) (simp_all add: opt_u64_bytes_def)

text \<open>
  \<open>estimate_canonical_len\<close> is documented as an upper bound; it forgets the name of a \<open>Custom\<close> kind. The
  buffer only reserves that capacity, so nothing else depends on it.
\<close>

lemma estimate_canonical_len_bound:
  assumes "length (cr_opaque_meta r) = 16"
  shows "length (canonical_record_bytes r)
    \<le> estimate_canonical_len r + (case ep_kind (cr_episode r) of Custom name \<Rightarrow> length name | _ \<Rightarrow> 0)"
proof -
  let ?e = "cr_episode r"
  have "length (event_id_bytes (ep_id ?e)) = 16" by (simp add: event_id_bytes_def)
  moreover have "length (lp_bytes (ep_content ?e)) = varint_len (word_of_nat (length (ep_content ?e))) + length (ep_content ?e)"
    by (simp add: lp_bytes_def varint_len_eq)
  ultimately have "length (canonical_record_bytes r) = 8 + 8 + 16 + 16 + 8 + length (lp_bytes (ep_agent_id ?e))
      + length (lp_bytes (ep_session_id ?e)) + length (kind_bytes (ep_kind ?e))
      + (varint_len (word_of_nat (length (ep_content ?e))) + length (ep_content ?e))
      + length (embedding_bytes (ep_embedding ?e)) + length (attrs_bytes (ep_attrs ?e))
      + length (parents_bytes (ep_parents ?e)) + length (opt_u64_bytes (ep_valid_from ?e))
      + length (opt_u64_bytes (ep_valid_to ?e))"
    using assms by (simp add: canonical_record_bytes_eq record_bytes_def Let_def)
  then show ?thesis
    using length_lp_bytes [of "ep_agent_id ?e"] length_lp_bytes [of "ep_session_id ?e"]
      length_kind_bytes [of "ep_kind ?e"] length_embedding_bytes [of "ep_embedding ?e"]
      length_attrs_bytes [of "ep_attrs ?e"] length_parents_bytes [of "ep_parents ?e"]
      length_opt_u64_bytes [of "ep_valid_from ?e"] length_opt_u64_bytes [of "ep_valid_to ?e"]
    unfolding estimate_canonical_len_def Let_def MAX_VARINT_LEN_def
    by (cases "ep_embedding ?e") simp_all
qed

text \<open>The missing term is real: a long custom kind outgrows the estimate.\<close>

lemma estimate_canonical_len_no_upper_bound:
  "\<exists>r. record_ok r \<and> estimate_canonical_len r < length (canonical_record_bytes r)"
proof -
  let ?r = "\<lparr>cr_lsn = 1, cr_record_hlc = 1, cr_opaque_meta = replicate 16 0, cr_episode =
     \<lparr>ep_id = 1, ep_ts_hlc = 1, ep_agent_id = [], ep_session_id = [], ep_kind = Custom (replicate 200 0x61),
      ep_content = [], ep_embedding = None, ep_attrs = [], ep_parents = [], ep_valid_from = None,
      ep_valid_to = None\<rparr>\<rparr>"
  have "record_ok ?r" by (simp add: record_ok_def)
  moreover have "estimate_canonical_len ?r = 127 + varint_len 0"
    by (simp add: estimate_canonical_len_def MAX_VARINT_LEN_def)
  moreover have "length (canonical_record_bytes ?r) \<ge> 200"
    by (simp add: canonical_record_bytes_eq record_bytes_def kind_bytes_def lp_bytes_def)
  moreover have "varint_len 0 = 1" by (simp add: varint_len_def varint_len_from.simps)
  ultimately show ?thesis by (intro exI [of _ ?r]) simp
qed

end
