(* ===== verification/V6_Raw.thy ===== *)
theory V6_Raw
  imports V6_Footer V6_Canonical
begin

text \<open>
  \<open>heraclitus-log/src/v6/raw.rs\<close>: the RAW segment. The record codec, the writer with its live Merkle
  accumulator, the scan that tells a record from a footer from a torn tail, and the repair of the active
  segment after a crash. A file is its content, a list of bytes; an I/O error of the operating system
  is not modelled. BLAKE3 is the parameter \<open>H\<close> of the accumulator, and \<open>hasher\<close> is the callback with
  which the caller computes the canonical hash of a record.
\<close>

section \<open>Records\<close>

definition RAW_RECORD_HEADER_LEN :: nat where
  "RAW_RECORD_HEADER_LEN = 24"

definition raw_record_crc :: "bytes \<Rightarrow> u32" where
  "raw_record_crc r =
     crc32c_finalize (crc32c_update (crc32c_update crc32c_new (take 4 r)) (drop 8 r))"

definition encode_raw_record_into :: "bytes \<Rightarrow> lsn \<Rightarrow> u64 \<Rightarrow> bytes \<Rightarrow> bytes \<times> nat" where
  "encode_raw_record_into out k hlc payload =
     (let start = length out;
          out = out @ to_le_bytes (word_of_nat (length payload) :: u32) @ replicate 4 0
            @ to_le_bytes k @ to_le_bytes hlc @ payload;
          crc = raw_record_crc (drop start out);
          out = overwrite (start + 4) (to_le_bytes crc) out
      in (out, length out - start))"

definition encode_raw_record :: "lsn \<Rightarrow> u64 \<Rightarrow> bytes \<Rightarrow> bytes" where
  "encode_raw_record k hlc payload = fst (encode_raw_record_into [] k hlc payload)"

datatype raw_decoded =
    RawRecordAt lsn u64 bytes nat
  | RawFooter footer
  | RawTorn

definition decode_raw_record :: "bytes \<Rightarrow> raw_decoded" where
  "decode_raw_record buf =
     (if 4 \<le> length buf \<and> take 4 buf = FOOTER_MAGIC
      then (case footer_decode buf of Inr f \<Rightarrow> RawFooter f | Inl _ \<Rightarrow> RawTorn)
      else if length buf < RAW_RECORD_HEADER_LEN then RawTorn
      else (let len = unat (from_le_bytes (take 4 buf) :: u32) in
        if HARD_MAX_RECORD_BYTES < len then RawTorn
        else (let total = RAW_RECORD_HEADER_LEN + len in
          if length buf < total then RawTorn
          else if raw_record_crc (take total buf) \<noteq> from_le_bytes (field 4 4 buf) then RawTorn
          else RawRecordAt (from_le_bytes (field 8 8 buf)) (from_le_bytes (field 16 8 buf))
            (field RAW_RECORD_HEADER_LEN len buf) total)))"

section \<open>Writer\<close>

record raw_writer =
  rw_file :: bytes
  rw_header :: file_header
  rw_acc :: merkle_acc
  rw_record_count :: u64
  rw_min_lsn :: lsn
  rw_max_lsn :: lsn
  rw_min_hlc :: u64
  rw_max_hlc :: u64
  rw_next_expected_lsn :: lsn
  rw_contiguous :: bool
  rw_monotonic_hlc :: bool
  rw_bytes_written :: u64

record segment_init =
  si_segment_id :: segment_id
  si_created_hlc :: u64
  si_first_lsn :: lsn
  si_writer_epoch :: u64
  si_storage_namespace_id :: bytes

definition raw_create :: "segment_init \<Rightarrow> raw_writer" where
  "raw_create i =
     (let header = \<lparr>fh_physical_layout = Layout_Raw, fh_canonical_codec = CANONICAL_CODEC_V1,
        fh_flags = FLAG_CONTIGUOUS_LSN, fh_segment_id = si_segment_id i, fh_created_hlc = si_created_hlc i,
        fh_first_lsn = si_first_lsn i, fh_writer_epoch = si_writer_epoch i,
        fh_storage_namespace_id = si_storage_namespace_id i\<rparr>
      in \<lparr>rw_file = header_encode header, rw_header = header, rw_acc = merkle_new, rw_record_count = 0,
        rw_min_lsn = -1, rw_max_lsn = 0, rw_min_hlc = -1, rw_max_hlc = 0,
        rw_next_expected_lsn = si_first_lsn i, rw_contiguous = True, rw_monotonic_hlc = True,
        rw_bytes_written = word_of_nat FILE_HEADER_LEN\<rparr>)"

definition raw_append :: "hash_fn \<Rightarrow> raw_writer \<Rightarrow> lsn \<Rightarrow> u64 \<Rightarrow> bytes \<Rightarrow> bytes \<Rightarrow> raw_writer v6_result" where
  "raw_append H w k hlc payload record_hash =
     (if HARD_MAX_RECORD_BYTES < length payload
      then Inl (corrupt ''hrkl v6 raw writer'' ''record exceeds hard maximum'')
      else (let bytes = encode_raw_record k hlc payload in Inr
        (w\<lparr>rw_file := rw_file w @ bytes,
           rw_bytes_written := rw_bytes_written w + word_of_nat (length bytes),
           rw_contiguous := rw_contiguous w \<and> k = rw_next_expected_lsn w,
           rw_next_expected_lsn := saturating_add k 1,
           rw_monotonic_hlc := rw_monotonic_hlc w \<and> \<not> (rw_record_count w > 0 \<and> hlc < rw_max_hlc w),
           rw_min_lsn := min (rw_min_lsn w) k, rw_max_lsn := max (rw_max_lsn w) k,
           rw_min_hlc := min (rw_min_hlc w) hlc, rw_max_hlc := max (rw_max_hlc w) hlc,
           rw_record_count := rw_record_count w + 1,
           rw_acc := push_record_hash H (rw_acc w) record_hash\<rparr>)))"

definition raw_max_hlc :: "raw_writer \<Rightarrow> u64 option" where
  "raw_max_hlc w = (if rw_record_count w > 0 then Some (rw_max_hlc w) else None)"

text \<open>\<open>seal\<close> consumes the writer; the result is the footer and the sealed file.\<close>

definition raw_seal :: "hash_fn \<Rightarrow> raw_writer \<Rightarrow> footer \<times> bytes" where
  "raw_seal H w =
     (let flags = (if rw_contiguous w \<and> rw_record_count w > 0 then FOOTER_FLAG_CONTIGUOUS_LSN else 0)
            OR (if \<not> rw_monotonic_hlc w then FOOTER_FLAG_HAS_NON_MONOTONIC_HLC else 0);
          footer = \<lparr>ft_record_count = rw_record_count w,
            ft_min_lsn = (if rw_record_count w = 0 then 0 else rw_min_lsn w),
            ft_max_lsn = (if rw_record_count w = 0 then 0 else rw_max_lsn w),
            ft_min_hlc = (if rw_record_count w = 0 then 0 else rw_min_hlc w),
            ft_max_hlc = (if rw_record_count w = 0 then 0 else rw_max_hlc w),
            ft_block_count = 0, ft_flags = flags, ft_block_directory_offset = 0, ft_block_directory_len = 0,
            ft_logical_root = merkle_finalize H (rw_acc w)\<rparr>
      in (footer, rw_file w @ footer_encode footer))"

section \<open>Reader\<close>

record raw_record =
  rr_lsn :: lsn
  rr_hlc :: u64
  rr_payload :: bytes

record raw_scan =
  rs_header :: file_header
  rs_records :: "raw_record list"
  rs_footer :: "footer option"
  rs_torn_at :: "u64 option"

text \<open>\<open>records.windows(2).all(|w| w[1].lsn == w[0].lsn.saturating_add(1))\<close>.\<close>

fun lsn_windows_consecutive :: "raw_record list \<Rightarrow> bool" where
  "lsn_windows_consecutive (a # b # rs) =
     (rr_lsn b = saturating_add (rr_lsn a) 1 \<and> lsn_windows_consecutive (b # rs))"
| "lsn_windows_consecutive _ = True"

definition validate_raw_footer :: "footer \<Rightarrow> raw_record list \<Rightarrow> unit v6_result" where
  "validate_raw_footer f records = (let CTX = ''hrkl v6 raw footer'' in
     if ft_block_count f \<noteq> 0 \<or> ft_block_directory_offset f \<noteq> 0 \<or> ft_block_directory_len f \<noteq> 0
     then Inl (corrupt CTX ''RAW footer declares PACKED block metadata'')
     else if ft_record_count f \<noteq> word_of_nat (length records)
     then Inl (corrupt CTX ''footer declares other than the scanned records'')
     else if records = []
     then (if ft_min_lsn f \<noteq> 0 \<or> ft_max_lsn f \<noteq> 0 \<or> ft_min_hlc f \<noteq> 0 \<or> ft_max_hlc f \<noteq> 0
       then Inl (corrupt CTX ''empty RAW footer has non-zero ranges'') else Inr ())
     else if (ft_min_lsn f, ft_max_lsn f, ft_min_hlc f, ft_max_hlc f)
         \<noteq> (Min (set (map rr_lsn records)), Max (set (map rr_lsn records)),
            Min (set (map rr_hlc records)), Max (set (map rr_hlc records)))
     then Inl (corrupt CTX ''footer ranges disagree with scanned RAW records'')
     else if is_contiguous_lsn f \<and> (\<not> lsn_span_is_contiguous f \<or> \<not> lsn_windows_consecutive records)
     then Inl (corrupt CTX ''RAW footer claims contiguous LSNs but records are not contiguous'')
     else Inr ())"

lemma decode_raw_record_total:
  "decode_raw_record buf = RawRecordAt k hlc payload n \<Longrightarrow> 24 \<le> n \<and> n \<le> length buf"
  by (auto simp: decode_raw_record_def RAW_RECORD_HEADER_LEN_def Let_def split: if_splits sum.splits)

text \<open>The loop of \<open>scan_raw_bytes\<close>; the result is the records, the footer and the torn offset.\<close>

function scan_raw_loop :: "bytes \<Rightarrow> nat \<Rightarrow> raw_record list
    \<Rightarrow> (raw_record list \<times> footer option \<times> u64 option) v6_result" where
  "scan_raw_loop buf pos records = (let CTX = ''hrkl v6 raw scan'' in
     if pos < length buf
     then (case decode_raw_record (drop pos buf) of
         RawRecordAt k hlc payload n \<Rightarrow>
           scan_raw_loop buf (pos + n) (records @ [\<lparr>rr_lsn = k, rr_hlc = hlc, rr_payload = payload\<rparr>])
       | RawFooter f \<Rightarrow>
           (if usize_limit \<le> pos + FOOTER_LEN then Inl (corrupt CTX ''footer offset overflows usize'')
            else if pos + FOOTER_LEN \<noteq> length buf then Inl (corrupt CTX ''bytes found after a valid RAW footer'')
            else bindE (validate_raw_footer f records) (\<lambda>_. Inr (records, Some f, None)))
       | RawTorn \<Rightarrow>
           (if take 4 (drop pos buf) = FOOTER_MAGIC \<and> FOOTER_LEN \<le> length buf - pos
            then Inl (corrupt CTX ''complete footer is malformed or corrupt'')
            else Inr (records, None, Some (word_of_nat pos))))
     else Inr (records, None, None))"
  by pat_completeness auto
termination
  by (relation "measure (\<lambda>(buf, pos, records). length buf - pos)")
     (auto dest!: decode_raw_record_total)

declare scan_raw_loop.simps [simp del]

definition scan_raw_bytes :: "bytes \<Rightarrow> raw_scan v6_result" where
  "scan_raw_bytes buf = bindE (header_decode buf) (\<lambda>header.
     if fh_physical_layout header \<noteq> Layout_Raw then Inl (corrupt ''hrkl v6 raw scan'' ''segment is not RAW'')
     else bindE (scan_raw_loop buf FILE_HEADER_LEN []) (\<lambda>(records, footer, torn_at).
       Inr \<lparr>rs_header = header, rs_records = records, rs_footer = footer, rs_torn_at = torn_at\<rparr>))"

type_synonym record_hasher = "lsn \<Rightarrow> u64 \<Rightarrow> bytes \<Rightarrow> bytes v6_result"

definition resume_step :: "hash_fn \<Rightarrow> record_hasher \<Rightarrow> raw_writer \<Rightarrow> raw_record \<Rightarrow> raw_writer v6_result" where
  "resume_step H hasher w r =
     bindE (hasher (rr_lsn r) (rr_hlc r) (rr_payload r)) (\<lambda>h. Inr
       (w\<lparr>rw_acc := push_record_hash H (rw_acc w) h,
          rw_contiguous := rw_contiguous w \<and> rr_lsn r = rw_next_expected_lsn w,
          rw_next_expected_lsn := saturating_add (rr_lsn r) 1,
          rw_monotonic_hlc := rw_monotonic_hlc w \<and> \<not> (rw_max_hlc w \<noteq> 0 \<and> rr_hlc r < rw_max_hlc w),
          rw_min_lsn := min (rw_min_lsn w) (rr_lsn r), rw_max_lsn := max (rw_max_lsn w) (rr_lsn r),
          rw_min_hlc := min (rw_min_hlc w) (rr_hlc r), rw_max_hlc := max (rw_max_hlc w) (rr_hlc r)\<rparr>))"

definition raw_resume :: "hash_fn \<Rightarrow> record_hasher \<Rightarrow> bytes \<Rightarrow> raw_writer v6_result" where
  "raw_resume H hasher file = (let CTX = ''hrkl v6 raw resume'' in
     bindE (scan_raw_bytes file) (\<lambda>scan.
     if rs_footer scan \<noteq> None then Inl (corrupt CTX ''refusing to resume a sealed segment'')
     else if rs_torn_at scan \<noteq> None
     then Inl (corrupt CTX ''refusing to resume before the torn tail is repaired'')
     else if fh_canonical_codec (rs_header scan) \<noteq> CANONICAL_CODEC_V1
     then Inl (corrupt CTX ''unsupported canonical codec'')
     else foldE (resume_step H hasher)
       \<lparr>rw_file = file, rw_header = rs_header scan, rw_acc = merkle_new,
        rw_record_count = word_of_nat (length (rs_records scan)),
        rw_min_lsn = -1, rw_max_lsn = 0, rw_min_hlc = -1, rw_max_hlc = 0,
        rw_next_expected_lsn = fh_first_lsn (rs_header scan), rw_contiguous = True, rw_monotonic_hlc = True,
        rw_bytes_written = word_of_nat (length file)\<rparr> (rs_records scan)))"

section \<open>Repair\<close>

definition footer_magic_at_eof :: "bytes \<Rightarrow> bool" where
  "footer_magic_at_eof file =
     (if length file < FILE_HEADER_LEN + FOOTER_LEN then False
      else field (length file - FOOTER_LEN) 4 file = FOOTER_MAGIC)"

definition read_footer :: "bytes \<Rightarrow> footer option" where
  "read_footer file =
     (if length file < FILE_HEADER_LEN + FOOTER_LEN then None
      else (case footer_decode (field (length file - FOOTER_LEN) FOOTER_LEN file) of
          Inr f \<Rightarrow> Some f | Inl _ \<Rightarrow> None))"

text \<open>The second component is the content of the file afterwards.\<close>

definition repair_active_tail :: "bytes \<Rightarrow> u64 option v6_result \<times> bytes" where
  "repair_active_tail file =
     (let refuse = corrupt ''hrkl v6 raw recovery''
            ''refusing to truncate a sealed segment; this is hard corruption'' in
      if read_footer file \<noteq> None \<or> footer_magic_at_eof file then (Inl refuse, file)
      else (case scan_raw_bytes file of
          Inl e \<Rightarrow> (Inl e, file)
        | Inr scan \<Rightarrow>
            (if rs_footer scan \<noteq> None then (Inl refuse, file)
             else (case rs_torn_at scan of
                 Some at \<Rightarrow> (Inr (Some at), take (unat at) file)
               | None \<Rightarrow> (Inr None, file)))))"

end
