(* ===== verification/V6_Packed.thy ===== *)
theory V6_Packed
  imports V6_Block_Build V6_Raw
begin

text \<open>
  \<open>heraclitus-log/src/v6/packed.rs\<close>: the PACKED segment. The writer that fills blocks, keeps the block
  directory and the Merkle accumulator and closes the file with directory and footer; the two byte
  sources; the reader with its point lookup and scans, and the counters that every read updates. An
  error of the writer drops it, as its only caller \<open>packer.rs\<close> does, so its operations return the new
  state only on success; the reader's counters are returned on errors as well.
\<close>

section \<open>Options and statistics\<close>

record pack_options =
  po_block_target_bytes :: nat
  po_restart_interval :: u16
  po_profile :: packing_profile
  po_raw_fallback_ratio :: u32
  po_max_block_bytes :: nat

definition default_pack_options :: pack_options where
  "default_pack_options = \<lparr>po_block_target_bytes = DEFAULT_BLOCK_TARGET,
     po_restart_interval = DEFAULT_RESTART_INTERVAL, po_profile = Balanced,
     po_raw_fallback_ratio = DEFAULT_RAW_FALLBACK_RATIO, po_max_block_bytes = HARD_MAX_BLOCK_BYTES\<rparr>"

record pack_stats =
  ps_record_count :: u64
  ps_block_count :: u32
  ps_logical_payload_bytes :: u64
  ps_uncompressed_block_bytes :: u64
  ps_stored_block_bytes :: u64
  ps_physical_size :: u64

definition default_pack_stats :: pack_stats where
  "default_pack_stats = \<lparr>ps_record_count = 0, ps_block_count = 0, ps_logical_payload_bytes = 0,
     ps_uncompressed_block_bytes = 0, ps_stored_block_bytes = 0, ps_physical_size = 0\<rparr>"

section \<open>Writer\<close>

record packed_writer =
  pw_file :: bytes
  pw_opts :: pack_options
  pw_builder :: block_builder
  pw_directory :: block_directory
  pw_acc :: merkle_acc
  pw_offset :: u64
  pw_record_count :: u64
  pw_min_lsn :: lsn
  pw_max_lsn :: lsn
  pw_min_hlc :: u64
  pw_max_hlc :: u64
  pw_next_expected_lsn :: lsn
  pw_contiguous :: bool
  pw_any_non_monotonic_hlc :: bool
  pw_stats :: pack_stats

definition packed_header :: "segment_init \<Rightarrow> file_header" where
  "packed_header i = \<lparr>fh_physical_layout = Layout_Packed, fh_canonical_codec = CANONICAL_CODEC_V1,
     fh_flags = FLAG_CONTIGUOUS_LSN, fh_segment_id = si_segment_id i, fh_created_hlc = si_created_hlc i,
     fh_first_lsn = si_first_lsn i, fh_writer_epoch = si_writer_epoch i,
     fh_storage_namespace_id = si_storage_namespace_id i\<rparr>"

definition packed_create :: "segment_init \<Rightarrow> pack_options \<Rightarrow> packed_writer" where
  "packed_create i opts = \<lparr>pw_file = header_encode (packed_header i), pw_opts = opts,
     pw_builder = builder_new (po_block_target_bytes opts) (po_restart_interval opts), pw_directory = [],
     pw_acc = merkle_new, pw_offset = word_of_nat FILE_HEADER_LEN, pw_record_count = 0,
     pw_min_lsn = -1, pw_max_lsn = 0, pw_min_hlc = -1, pw_max_hlc = 0,
     pw_next_expected_lsn = si_first_lsn i, pw_contiguous = True, pw_any_non_monotonic_hlc = False,
     pw_stats = default_pack_stats\<rparr>"

definition flush_block :: "codecs \<Rightarrow> packed_writer \<Rightarrow> packed_writer v6_result" where
  "flush_block cs w =
     (case builder_finish cs (pw_builder w) (po_profile (pw_opts w)) (po_raw_fallback_ratio (pw_opts w)) of
        (res, builder) \<Rightarrow> bindE res (\<lambda>built. case built of
            None \<Rightarrow> Inr (w\<lparr>pw_builder := builder\<rparr>)
          | Some b \<Rightarrow> Inr (w\<lparr>pw_builder := builder,
              pw_file := pw_file w @ bb_header_bytes b @ bb_stored b,
              pw_stats := (pw_stats w)\<lparr>
                ps_uncompressed_block_bytes := ps_uncompressed_block_bytes (pw_stats w) + ucast (bh_uncompressed_len (bb_header b)),
                ps_stored_block_bytes := ps_stored_block_bytes (pw_stats w) + word_of_nat (length (bb_stored b)),
                ps_logical_payload_bytes := ps_logical_payload_bytes (pw_stats w) + bb_logical_payload_bytes b\<rparr>,
              pw_offset := pw_offset w + word_of_nat (built_total_len b),
              pw_directory := pw_directory w @ [to_directory_entry (bb_header b) (pw_offset w)]\<rparr>)))"

definition packed_push :: "codecs \<Rightarrow> hash_fn \<Rightarrow> packed_writer \<Rightarrow> lsn \<Rightarrow> u64 \<Rightarrow> bytes \<Rightarrow> bytes \<Rightarrow> packed_writer v6_result" where
  "packed_push cs H w k hlc payload record_hash =
     bindE (if would_overflow (pw_builder w) (length payload) then flush_block cs w else Inr w) (\<lambda>w.
     let w = w\<lparr>pw_contiguous := pw_contiguous w \<and> k = pw_next_expected_lsn w,
       pw_next_expected_lsn := saturating_add k 1,
       pw_any_non_monotonic_hlc := pw_any_non_monotonic_hlc w \<or> pw_record_count w > 0 \<and> hlc < pw_max_hlc w,
       pw_min_lsn := min (pw_min_lsn w) k, pw_max_lsn := max (pw_max_lsn w) k,
       pw_min_hlc := min (pw_min_hlc w) hlc, pw_max_hlc := max (pw_max_hlc w) hlc,
       pw_record_count := pw_record_count w + 1,
       pw_acc := push_record_hash H (pw_acc w) record_hash,
       pw_builder := builder_push (pw_builder w) k hlc payload\<rparr>
     in if po_block_target_bytes (pw_opts w) \<le> bu_approx_uncompressed (pw_builder w) then flush_block cs w else Inr w)"

text \<open>\<open>finish\<close> consumes the writer; the result is the footer, the statistics and the file.\<close>

definition packed_finish :: "codecs \<Rightarrow> hash_fn \<Rightarrow> packed_writer \<Rightarrow> (footer \<times> pack_stats \<times> bytes) v6_result" where
  "packed_finish cs H w = bindE (flush_block cs w) (\<lambda>w.
     let dir_offset = pw_offset w;
         dir_bytes = directory_encode (pw_directory w);
         offset = pw_offset w + word_of_nat (length dir_bytes);
         flags = (if pw_contiguous w \<and> pw_record_count w > 0 then FOOTER_FLAG_CONTIGUOUS_LSN else 0)
           OR (if pw_any_non_monotonic_hlc w then FOOTER_FLAG_HAS_NON_MONOTONIC_HLC else 0);
         footer = \<lparr>ft_record_count = pw_record_count w,
           ft_min_lsn = (if pw_record_count w = 0 then 0 else pw_min_lsn w),
           ft_max_lsn = (if pw_record_count w = 0 then 0 else pw_max_lsn w),
           ft_min_hlc = (if pw_record_count w = 0 then 0 else pw_min_hlc w),
           ft_max_hlc = (if pw_record_count w = 0 then 0 else pw_max_hlc w),
           ft_block_count = word_of_nat (length (pw_directory w)), ft_flags = flags,
           ft_block_directory_offset = dir_offset, ft_block_directory_len = word_of_nat (length dir_bytes),
           ft_logical_root = merkle_finalize H (pw_acc w)\<rparr>;
         stats = (pw_stats w)\<lparr>ps_record_count := pw_record_count w,
           ps_block_count := word_of_nat (length (pw_directory w)),
           ps_physical_size := offset + word_of_nat FOOTER_LEN\<rparr>
     in Inr (footer, stats, pw_file w @ dir_bytes @ footer_encode footer))"

section \<open>Byte sources\<close>

text \<open>The two implementations of \<open>BlockSource\<close>; a \<open>FileSource\<close> has remembered its length when it was opened.\<close>

datatype block_source = MemorySource bytes | FileSource bytes u64

fun source_len :: "block_source \<Rightarrow> u64" where
  "source_len (MemorySource bs) = word_of_nat (length bs)"
| "source_len (FileSource content n) = n"

fun read_at :: "block_source \<Rightarrow> u64 \<Rightarrow> nat \<Rightarrow> bytes v6_result" where
  "read_at (MemorySource bs) offset len = (let CTX = ''hrkl v6 source'' in
     if usize_limit \<le> unat offset + len then Inl (corrupt CTX ''offset+len overflows usize'')
     else if unat offset + len \<le> length bs then Inr (take len (drop (unat offset) bs))
     else Inl (corrupt CTX ''range past end of segment''))"
| "read_at (FileSource content n) offset len = (let CTX = ''hrkl v6 source'' in
     if n < saturating_add offset (word_of_nat len) then Inl (corrupt CTX ''range past end of segment'')
     else if unat offset + len \<le> length content then Inr (take len (drop (unat offset) content))
     else Inl (StorageIo ''failed to fill whole buffer''))"

definition file_source_open :: "bytes \<Rightarrow> block_source" where
  "file_source_open content = FileSource content (word_of_nat (length content))"

section \<open>Reader\<close>

record scan_counters =
  sc_blocks_candidate :: u64
  sc_blocks_pruned :: u64
  sc_blocks_read :: u64
  sc_bytes_physical_read :: u64
  sc_bytes_decompressed :: u64

record packed_reader =
  pr_source :: block_source
  pr_header :: file_header
  pr_footer :: footer
  pr_directory :: block_directory
  pr_max_block_bytes :: nat

definition packed_open :: "block_source \<Rightarrow> nat \<Rightarrow> packed_reader v6_result" where
  "packed_open source max_block_bytes = (let CTX = ''hrkl v6 packed open''; len = source_len source in
     if len < word_of_nat (FILE_HEADER_LEN + FOOTER_LEN)
     then Inl (corrupt CTX ''file too small to hold a header and a footer'')
     else bindE (read_at source 0 FILE_HEADER_LEN) (\<lambda>hb. bindE (header_decode hb) (\<lambda>header.
     if fh_physical_layout header \<noteq> Layout_Packed then Inl (corrupt CTX ''segment is not PACKED'')
     else bindE (read_at source (len - word_of_nat FOOTER_LEN) FOOTER_LEN) (\<lambda>fb. bindE (footer_decode fb) (\<lambda>footer.
     case checked_add (ft_block_directory_offset footer) (ft_block_directory_len footer) of
       None \<Rightarrow> Inl (corrupt CTX ''block directory range overflows u64'')
     | Some dir_end \<Rightarrow>
       if dir_end > len - word_of_nat FOOTER_LEN then Inl (corrupt CTX ''block directory overlaps the footer'')
       else (let dir_len = unat (ft_block_directory_len footer) in
       if dir_len \<noteq> unat (ft_block_count footer) * DIR_ENTRY_LEN
       then Inl (corrupt CTX ''block_directory_len inconsistent with block_count'')
       else bindE (read_at source (ft_block_directory_offset footer) dir_len) (\<lambda>db.
         bindE (directory_decode db (ft_block_count footer) (ft_block_directory_offset footer)) (\<lambda>directory.
         if sum_list (map (\<lambda>e. ucast (bd_record_count e)) directory) \<noteq> ft_record_count footer
         then Inl (corrupt CTX ''directory accounts for other records than the footer declares'')
         else Inr \<lparr>pr_source = source, pr_header = header, pr_footer = footer, pr_directory = directory,
           pr_max_block_bytes = max_block_bytes\<rparr>))))))))"

definition open_packed :: "bytes \<Rightarrow> nat \<Rightarrow> packed_reader v6_result" where
  "open_packed content max_block_bytes = packed_open (file_source_open content) max_block_bytes"

definition read_block :: "codecs \<Rightarrow> packed_reader \<Rightarrow> nat \<Rightarrow> scan_counters
    \<Rightarrow> (block_header \<times> bytes) v6_result \<times> scan_counters" where
  "read_block cs r index c = (let CTX = ''hrkl v6 packed block'' in
     if length (pr_directory r) \<le> index then (Inl (corrupt CTX ''block out of range''), c)
     else (let entry = pr_directory r ! index; n = BLOCK_HEADER_LEN + unat (bd_stored_len entry) in
     case read_at (pr_source r) (bd_offset entry) n of
       Inl e \<Rightarrow> (Inl e, c)
     | Inr buf \<Rightarrow> (let c = c\<lparr>sc_blocks_read := sc_blocks_read c + 1,
           sc_bytes_physical_read := sc_bytes_physical_read c + word_of_nat n\<rparr> in
       case block_header_decode (take BLOCK_HEADER_LEN buf) (drop BLOCK_HEADER_LEN buf) of
         Inl e \<Rightarrow> (Inl e, c)
       | Inr header \<Rightarrow>
         if bh_first_lsn header \<noteq> bd_first_lsn entry \<or> bh_last_lsn header \<noteq> bd_last_lsn entry
            \<or> bh_record_count header \<noteq> bd_record_count entry \<or> bh_uncompressed_len header \<noteq> bd_uncompressed_len entry
         then (Inl (corrupt CTX ''block header disagrees with the directory''), c)
         else (case decompress_body cs header (drop BLOCK_HEADER_LEN buf) (pr_max_block_bytes r) of
             Inl e \<Rightarrow> (Inl e, c)
           | Inr body \<Rightarrow> (Inr (header, body),
               c\<lparr>sc_bytes_decompressed := sc_bytes_decompressed c + word_of_nat (length body)\<rparr>)))))"

definition packed_get :: "codecs \<Rightarrow> packed_reader \<Rightarrow> lsn \<Rightarrow> scan_counters
    \<Rightarrow> (u64 \<times> bytes) option v6_result \<times> scan_counters" where
  "packed_get cs r k c =
     (let n = word_of_nat (length (pr_directory r));
          c = c\<lparr>sc_blocks_candidate := sc_blocks_candidate c + n\<rparr> in
      case find_block_for_lsn (pr_directory r) k of
        None \<Rightarrow> (Inr None, c\<lparr>sc_blocks_pruned := sc_blocks_pruned c + n\<rparr>)
      | Some index \<Rightarrow>
          (case read_block cs r index (c\<lparr>sc_blocks_pruned := sc_blocks_pruned c + (n - 1)\<rparr>) of
             (Inl e, c) \<Rightarrow> (Inl e, c)
           | (Inr (header, body), c) \<Rightarrow>
               (bindE (find_record_in_block header body k) (\<lambda>rec.
                  Inr (map_option (\<lambda>x. (br_hlc x, br_payload x)) rec)), c)))"

text \<open>The loop of \<open>scan_lsn_range\<close>, \<open>scan_all\<close> and \<open>for_each_record\<close>: each block of the list is read and
  decoded, and its records are consumed in order.\<close>

fun scan_blocks :: "codecs \<Rightarrow> packed_reader \<Rightarrow> ('s \<Rightarrow> block_record \<Rightarrow> 's v6_result) \<Rightarrow> nat list \<Rightarrow> scan_counters \<Rightarrow> 's
    \<Rightarrow> 's v6_result \<times> scan_counters" where
  "scan_blocks cs r f [] c s = (Inr s, c)"
| "scan_blocks cs r f (i # is) c s =
     (case read_block cs r i c of
        (Inl e, c) \<Rightarrow> (Inl e, c)
      | (Inr (header, body), c) \<Rightarrow>
          (case bindE (decode_block_records header body) (foldE f s) of
             Inl e \<Rightarrow> (Inl e, c)
           | Inr s \<Rightarrow> scan_blocks cs r f is c s))"

definition scan_lsn_range :: "codecs \<Rightarrow> packed_reader \<Rightarrow> lsn \<Rightarrow> lsn \<Rightarrow> scan_counters
    \<Rightarrow> (lsn \<times> u64 \<times> bytes) list v6_result \<times> scan_counters" where
  "scan_lsn_range cs r lo hi c =
     (let candidates = blocks_for_lsn_range (pr_directory r) lo hi;
          n = word_of_nat (length (pr_directory r));
          c = c\<lparr>sc_blocks_candidate := sc_blocks_candidate c + n,
            sc_blocks_pruned := sc_blocks_pruned c + (n - word_of_nat (length candidates))\<rparr>
      in scan_blocks cs r (\<lambda>out x. Inr (if lo \<le> br_lsn x \<and> br_lsn x \<le> hi
           then out @ [(br_lsn x, br_hlc x, br_payload x)] else out)) candidates c [])"

definition scan_all :: "codecs \<Rightarrow> packed_reader \<Rightarrow> scan_counters \<Rightarrow> (lsn \<times> u64 \<times> bytes) list v6_result \<times> scan_counters" where
  "scan_all cs r c = scan_blocks cs r (\<lambda>out x. Inr (out @ [(br_lsn x, br_hlc x, br_payload x)]))
     [0..<length (pr_directory r)] c []"

definition for_each_record :: "codecs \<Rightarrow> packed_reader \<Rightarrow> ('s \<Rightarrow> block_record \<Rightarrow> 's v6_result) \<Rightarrow> scan_counters \<Rightarrow> 's
    \<Rightarrow> 's v6_result \<times> scan_counters" where
  "for_each_record cs r f c s = scan_blocks cs r f [0..<length (pr_directory r)] c s"

definition build_single_block :: "codecs \<Rightarrow> block_record list \<Rightarrow> pack_options \<Rightarrow> built_block v6_result" where
  "build_single_block cs records opts =
     build_block cs records (po_restart_interval opts) (po_profile opts) (po_raw_fallback_ratio opts)"

end
