(* ===== verification/V6_Raw_Correct.thy ===== *)
theory V6_Raw_Correct
  imports V6_Raw
begin

text \<open>
  The RAW segment of \<open>heraclitus-log/src/v6/raw.rs\<close> is durable: what the writer appended is what the
  scan reads, a torn tail is recognised as such and cut off without losing a complete record, a
  resumed writer is the writer that was interrupted, and a seal ends the segment for good.
\<close>

section \<open>One record\<close>

lemma raw_record_crc_eq:
  "length a = 4 \<Longrightarrow> length c = 4
    \<Longrightarrow> raw_record_crc (a @ c @ r) = crc32c_finalize (crc32c_update (crc32c_update crc32c_new a) r)"
  by (simp add: raw_record_crc_def)

definition raw_len_bytes :: "bytes \<Rightarrow> bytes" where
  "raw_len_bytes payload = to_le_bytes (word_of_nat (length payload) :: u32)"

definition raw_crc_of :: "lsn \<Rightarrow> u64 \<Rightarrow> bytes \<Rightarrow> u32" where
  "raw_crc_of k hlc payload = crc32c_finalize (crc32c_update (crc32c_update crc32c_new (raw_len_bytes payload))
     (to_le_bytes k @ to_le_bytes hlc @ payload))"

lemma length_raw_len_bytes [simp]: "length (raw_len_bytes payload) = 4"
  by (simp add: raw_len_bytes_def)

lemma encode_raw_record_into_eq:
  "encode_raw_record_into out k hlc payload
    = (out @ raw_len_bytes payload @ to_le_bytes (raw_crc_of k hlc payload) @ to_le_bytes k @ to_le_bytes hlc @ payload,
       24 + length payload)"
proof -
  let ?z = "replicate 4 (0 :: u8)"
  have "raw_record_crc (raw_len_bytes payload @ ?z @ to_le_bytes k @ to_le_bytes hlc @ payload) = raw_crc_of k hlc payload"
    unfolding raw_crc_of_def by (rule raw_record_crc_eq) (simp_all add: raw_len_bytes_def)
  moreover have "overwrite (length out + 4) c (out @ raw_len_bytes payload @ ?z @ r) = out @ raw_len_bytes payload @ c @ r"
    if "length c = 4" for c r
    using that by (simp add: overwrite_skip [of _ _ 4] overwrite_skip [of _ _ 0] overwrite_here raw_len_bytes_def)
  ultimately show ?thesis
    by (simp add: encode_raw_record_into_def Let_def raw_len_bytes_def [symmetric])
qed

lemma encode_raw_record_eq:
  "encode_raw_record k hlc payload
    = raw_len_bytes payload @ to_le_bytes (raw_crc_of k hlc payload) @ to_le_bytes k @ to_le_bytes hlc @ payload"
  by (simp add: encode_raw_record_def encode_raw_record_into_eq)

lemma length_encode_raw_record [simp]: "length (encode_raw_record k hlc payload) = 24 + length payload"
  by (simp add: encode_raw_record_eq)

text \<open>A length within the hard maximum never spells the footer magic.\<close>

lemma raw_len_not_magic:
  assumes "length payload \<le> HARD_MAX_RECORD_BYTES"
  shows "raw_len_bytes payload \<noteq> FOOTER_MAGIC"
    and "unat (from_le_bytes (raw_len_bytes payload) :: u32) = length payload"
proof -
  show len: "unat (from_le_bytes (raw_len_bytes payload) :: u32) = length payload"
    using assms by (simp add: raw_len_bytes_def unsigned_of_nat take_bit_nat_eq_self HARD_MAX_RECORD_BYTES_def)
  have "unat (from_le_bytes FOOTER_MAGIC :: u32) = 0x52544648"
    by (simp add: FOOTER_MAGIC_def from_le_bytes_def unsigned_of_nat take_bit_nat_eq_self)
  then show "raw_len_bytes payload \<noteq> FOOTER_MAGIC"
    using len assms by (auto simp: HARD_MAX_RECORD_BYTES_def)
qed

lemma decode_encode_raw:
  assumes "length payload \<le> HARD_MAX_RECORD_BYTES"
  shows "decode_raw_record (encode_raw_record k hlc payload @ rest) = RawRecordAt k hlc payload (24 + length payload)"
proof -
  let ?c = "to_le_bytes (raw_crc_of k hlc payload)"
  let ?buf = "encode_raw_record k hlc payload @ rest"
  have buf: "?buf = raw_len_bytes payload @ ?c @ to_le_bytes k @ to_le_bytes hlc @ payload @ rest"
    by (simp add: encode_raw_record_eq)
  have "take 4 ?buf = raw_len_bytes payload" unfolding buf by simp
  moreover have "field 4 4 ?buf = ?c" "field 8 8 ?buf = to_le_bytes k" "field 16 8 ?buf = to_le_bytes hlc"
    "field 24 (length payload) ?buf = payload"
    unfolding buf by (simp_all add: layout_simps)
  moreover have "raw_record_crc (take (24 + length payload) ?buf) = raw_crc_of k hlc payload"
    unfolding buf raw_crc_of_def by (simp add: raw_record_crc_eq)
  ultimately show ?thesis
    using raw_len_not_magic [OF assms] assms
    by (simp add: decode_raw_record_def Let_def RAW_RECORD_HEADER_LEN_def)
qed

lemma decode_raw_prefix:
  assumes "length payload \<le> HARD_MAX_RECORD_BYTES" and "n < 24 + length payload"
  shows "decode_raw_record (take n (encode_raw_record k hlc payload)) = RawTorn"
    and "take 4 (take n (encode_raw_record k hlc payload)) \<noteq> FOOTER_MAGIC"
proof -
  have len: "length (take n (encode_raw_record k hlc payload)) = n" using assms(2) by simp
  have four: "take 4 (take n (encode_raw_record k hlc payload)) = raw_len_bytes payload" if "4 \<le> n"
    using that by (simp add: encode_raw_record_eq take_take min_def)
  show "take 4 (take n (encode_raw_record k hlc payload)) \<noteq> FOOTER_MAGIC"
  proof (cases "4 \<le> n")
    case False
    then have "length (take 4 (take n (encode_raw_record k hlc payload))) \<noteq> length FOOTER_MAGIC"
      by (simp add: FOOTER_MAGIC_def)
    then show ?thesis by metis
  qed (use four raw_len_not_magic(1) [OF assms(1)] in simp)
  then show "decode_raw_record (take n (encode_raw_record k hlc payload)) = RawTorn"
    using four len assms raw_len_not_magic [OF assms(1)]
    by (auto simp: decode_raw_record_def Let_def RAW_RECORD_HEADER_LEN_def)
qed

lemma field_take: "at + m \<le> n \<Longrightarrow> field at m (take n buf) = field at m buf"
  by (simp add: field_def drop_take min_def)

text \<open>A record does not depend on what follows it.\<close>

lemma decode_raw_take:
  assumes "decode_raw_record buf = RawRecordAt k hlc payload t" and "t \<le> n"
  shows "decode_raw_record (take n buf) = RawRecordAt k hlc payload t"
proof -
  let ?len = "unat (from_le_bytes (take 4 buf) :: u32)"
  have d: "take 4 buf \<noteq> FOOTER_MAGIC" "?len \<le> HARD_MAX_RECORD_BYTES" "t = 24 + ?len" "t \<le> length buf"
    "raw_record_crc (take t buf) = from_le_bytes (field 4 4 buf)" "24 \<le> length buf"
    "k = from_le_bytes (field 8 8 buf)" "hlc = from_le_bytes (field 16 8 buf)" "payload = field 24 ?len buf"
    using assms(1)
    by (auto simp: decode_raw_record_def RAW_RECORD_HEADER_LEN_def Let_def not_less split: if_splits sum.splits)
  have "take 4 (take n buf) = take 4 buf" "take t (take n buf) = take t buf"
    using d(3) assms(2) by (simp_all add: min_def)
  moreover have "field 4 4 (take n buf) = field 4 4 buf" "field 8 8 (take n buf) = field 8 8 buf"
    "field 16 8 (take n buf) = field 16 8 buf" "field 24 ?len (take n buf) = field 24 ?len buf"
    using d(3) assms(2) by (simp_all add: field_take)
  ultimately show ?thesis
    using d assms(2) by (auto simp: decode_raw_record_def RAW_RECORD_HEADER_LEN_def Let_def)
qed

section \<open>The scan\<close>

definition raw_bytes :: "raw_record \<Rightarrow> bytes" where
  "raw_bytes r = encode_raw_record (rr_lsn r) (rr_hlc r) (rr_payload r)"

definition raw_region :: "raw_record list \<Rightarrow> bytes" where
  "raw_region rs = concat (map raw_bytes rs)"

definition raw_fits :: "raw_record \<Rightarrow> bool" where
  "raw_fits r = (length (rr_payload r) \<le> HARD_MAX_RECORD_BYTES)"

lemma raw_region_simps [simp]:
  "raw_region [] = []" "raw_region (r # rs) = raw_bytes r @ raw_region rs"
  "raw_region (rs @ rs') = raw_region rs @ raw_region rs'"
  by (simp_all add: raw_region_def)

lemma scan_loop_records:
  assumes "list_all raw_fits rs"
  shows "scan_raw_loop (pre @ raw_region rs @ post) (length pre) acc
    = scan_raw_loop (pre @ raw_region rs @ post) (length pre + length (raw_region rs)) (acc @ rs)"
  using assms
proof (induction rs arbitrary: pre acc)
  case (Cons r rs)
  let ?buf = "pre @ raw_region (r # rs) @ post"
  have "decode_raw_record (drop (length pre) ?buf)
      = RawRecordAt (rr_lsn r) (rr_hlc r) (rr_payload r) (24 + length (rr_payload r))"
    using Cons.prems by (simp add: raw_bytes_def raw_fits_def decode_encode_raw)
  moreover have "length pre < length ?buf" by (simp add: raw_bytes_def)
  moreover obtain k hlc payload where r: "r = \<lparr>rr_lsn = k, rr_hlc = hlc, rr_payload = payload\<rparr>" by (cases r)
  ultimately have "scan_raw_loop ?buf (length pre) acc = scan_raw_loop ?buf (length (pre @ raw_bytes r)) (acc @ [r])"
    by (subst scan_raw_loop.simps) (simp add: raw_bytes_def add.assoc r)
  also have "\<dots> = scan_raw_loop ?buf (length (pre @ raw_bytes r) + length (raw_region rs)) ((acc @ [r]) @ rs)"
    using Cons.IH [of "pre @ raw_bytes r" "acc @ [r]"] Cons.prems by simp
  finally show ?case by (simp add: add.assoc)
qed simp

lemma scan_loop_end: "length buf \<le> pos \<Longrightarrow> scan_raw_loop buf pos acc = Inr (acc, None, None)"
  by (subst scan_raw_loop.simps) (simp add: Let_def)

text \<open>Where the scan stopped without a footer, cutting the file there gives a clean segment with the
  same records.\<close>

lemma scan_loop_cut:
  assumes "scan_raw_loop buf pos acc = Inr (rs, None, torn)" and "pos \<le> length buf" and "length buf < usize_limit"
  shows "let at = (case torn of Some a \<Rightarrow> unat a | None \<Rightarrow> length buf) in
    pos \<le> at \<and> at \<le> length buf \<and> scan_raw_loop (take at buf) pos acc = Inr (rs, None, None)"
  using assms
proof (induction buf pos acc rule: scan_raw_loop.induct)
  case (1 buf pos acc)
  show ?case
  proof (cases "pos < length buf")
    case False
    then show ?thesis
      using "1.prems" by (subst (asm) scan_raw_loop.simps) (auto simp: Let_def scan_loop_end)
  next
    case True
    show ?thesis
    proof (cases "decode_raw_record (drop pos buf)")
      case (RawRecordAt k hlc payload n)
      note n = decode_raw_record_total [OF RawRecordAt]
      let ?acc = "acc @ [\<lparr>rr_lsn = k, rr_hlc = hlc, rr_payload = payload\<rparr>]"
      obtain at where at: "at = (case torn of Some a \<Rightarrow> unat a | None \<Rightarrow> length buf)" by blast
      have "scan_raw_loop buf (pos + n) ?acc = Inr (rs, None, torn)"
        using "1.prems"(1) True RawRecordAt by (subst (asm) scan_raw_loop.simps) simp
      moreover have "pos + n \<le> length buf" using n True unfolding length_drop by arith
      ultimately have IH: "pos + n \<le> at \<and> at \<le> length buf \<and> scan_raw_loop (take at buf) (pos + n) ?acc = Inr (rs, None, None)"
        using "1.IH" [OF refl True RawRecordAt] "1.prems"(3) by (simp add: Let_def at)
      then have "n \<le> at - pos" by arith
      have "decode_raw_record (drop pos (take at buf)) = RawRecordAt k hlc payload n"
        using decode_raw_take [OF RawRecordAt \<open>n \<le> at - pos\<close>] by (simp only: drop_take)
      moreover have "pos < length (take at buf)" using IH n by auto
      ultimately have "scan_raw_loop (take at buf) pos acc = scan_raw_loop (take at buf) (pos + n) ?acc"
        by (subst scan_raw_loop.simps) simp
      then show ?thesis using IH by (simp add: Let_def at)
    next
      case (RawFooter f)
      then show ?thesis
        using "1.prems"(1) True
        by (subst (asm) scan_raw_loop.simps) (auto simp: Let_def bindE_eq_Inr split: if_splits)
    next
      case RawTorn
      then have "rs = acc" "torn = Some (word_of_nat pos)"
        using "1.prems"(1) True by (subst (asm) scan_raw_loop.simps; auto simp: Let_def split: if_splits)+
      moreover have "unat (word_of_nat pos :: u64) = pos"
        using True "1.prems"(3) by (simp add: unsigned_of_nat take_bit_nat_eq_self usize_limit_def)
      ultimately show ?thesis using True by (simp add: Let_def scan_loop_end)
    qed
  qed
qed

section \<open>A session of the writer\<close>

text \<open>The caller hashes each record and appends it, as \<open>V6Log::append\<close> does.\<close>

definition raw_append_record :: "hash_fn \<Rightarrow> record_hasher \<Rightarrow> raw_writer \<Rightarrow> raw_record \<Rightarrow> raw_writer v6_result" where
  "raw_append_record H hasher w r = bindE (hasher (rr_lsn r) (rr_hlc r) (rr_payload r))
     (\<lambda>h. raw_append H w (rr_lsn r) (rr_hlc r) (rr_payload r) h)"

definition raw_session :: "hash_fn \<Rightarrow> record_hasher \<Rightarrow> segment_init \<Rightarrow> raw_record list \<Rightarrow> raw_writer v6_result" where
  "raw_session H hasher init rs = foldE (raw_append_record H hasher) (raw_create init) rs"

text \<open>The part of the writer's state that depends only on the records.\<close>

definition same_tally :: "raw_writer \<Rightarrow> raw_writer \<Rightarrow> bool" where
  "same_tally w v \<longleftrightarrow> rw_acc w = rw_acc v \<and> rw_min_lsn w = rw_min_lsn v \<and> rw_max_lsn w = rw_max_lsn v
     \<and> rw_min_hlc w = rw_min_hlc v \<and> rw_max_hlc w = rw_max_hlc v
     \<and> rw_next_expected_lsn w = rw_next_expected_lsn v \<and> rw_contiguous w = rw_contiguous v
     \<and> rw_monotonic_hlc w = rw_monotonic_hlc v"

definition writer_after :: "file_header \<Rightarrow> raw_record list \<Rightarrow> raw_writer \<Rightarrow> bool" where
  "writer_after hdr rs w \<longleftrightarrow> rw_header w = hdr \<and> rw_file w = header_encode hdr @ raw_region rs
     \<and> rw_record_count w = word_of_nat (length rs) \<and> rw_bytes_written w = word_of_nat (length (rw_file w))
     \<and> list_all raw_fits rs"

definition init_header :: "segment_init \<Rightarrow> file_header" where
  "init_header i = rw_header (raw_create i)"

definition init_ok :: "segment_init \<Rightarrow> bool" where
  "init_ok i = (length (si_storage_namespace_id i) = 16)"

lemma init_header_ok: "init_ok i \<Longrightarrow> header_ok (init_header i)"
  by (simp add: init_ok_def header_ok_def init_header_def raw_create_def Let_def)

lemma raw_region_length: "24 * length rs \<le> length (raw_region rs)"
  by (induction rs) (auto simp: raw_bytes_def)

lemma raw_append_record_step:
  assumes "raw_append_record H hasher w r = Inr w'" and "writer_after hdr rs w"
    and "length rs < 2 ^ 64" and "rw_record_count w = 0 \<Longrightarrow> rw_max_hlc w = 0"
    and "same_tally w v"
  shows "writer_after hdr (rs @ [r]) w' \<and> (\<exists>v'. resume_step H hasher v r = Inr v' \<and> same_tally w' v'
    \<and> rw_file v' = rw_file v \<and> rw_header v' = rw_header v \<and> rw_record_count v' = rw_record_count v
    \<and> rw_bytes_written v' = rw_bytes_written v)"
proof -
  obtain h where h: "hasher (rr_lsn r) (rr_hlc r) (rr_payload r) = Inr h"
    and app: "raw_append H w (rr_lsn r) (rr_hlc r) (rr_payload r) h = Inr w'"
    using assms(1) by (auto simp: raw_append_record_def)
  have fits: "raw_fits r" using app by (auto simp: raw_append_def raw_fits_def split: if_splits)
  have w': "w' = w\<lparr>rw_file := rw_file w @ raw_bytes r,
           rw_bytes_written := rw_bytes_written w + word_of_nat (length (raw_bytes r)),
           rw_contiguous := rw_contiguous w \<and> rr_lsn r = rw_next_expected_lsn w,
           rw_next_expected_lsn := saturating_add (rr_lsn r) 1,
           rw_monotonic_hlc := rw_monotonic_hlc w \<and> \<not> (rw_record_count w > 0 \<and> rr_hlc r < rw_max_hlc w),
           rw_min_lsn := min (rw_min_lsn w) (rr_lsn r), rw_max_lsn := max (rw_max_lsn w) (rr_lsn r),
           rw_min_hlc := min (rw_min_hlc w) (rr_hlc r), rw_max_hlc := max (rw_max_hlc w) (rr_hlc r),
           rw_record_count := rw_record_count w + 1,
           rw_acc := push_record_hash H (rw_acc w) h\<rparr>"
    using app by (auto simp: raw_append_def raw_bytes_def Let_def split: if_splits)
  have "writer_after hdr (rs @ [r]) w'"
    using assms(2) fits by (simp add: writer_after_def w' of_nat_add [symmetric] add.assoc del: of_nat_add)
  moreover have "(rw_record_count w > 0 \<and> rr_hlc r < rw_max_hlc w) = (rw_max_hlc w \<noteq> 0 \<and> rr_hlc r < rw_max_hlc w)"
    using assms(4) by (auto simp: word_gt_0)
  ultimately show ?thesis
    using assms(5) h by (simp add: resume_step_def same_tally_def w')
qed

lemma session_after:
  assumes "raw_session H hasher init rs = Inr w" and "length rs < 2 ^ 64" and "init_ok init"
    and "same_tally (raw_create init) v"
  shows "writer_after (init_header init) rs w \<and> (rw_record_count w = 0 \<longrightarrow> rw_max_hlc w = 0)
    \<and> (\<exists>v'. foldE (resume_step H hasher) v rs = Inr v' \<and> same_tally w v'
    \<and> rw_file v' = rw_file v \<and> rw_header v' = rw_header v \<and> rw_record_count v' = rw_record_count v
    \<and> rw_bytes_written v' = rw_bytes_written v)"
  using assms(1,2)
proof (induction rs arbitrary: w rule: rev_induct)
  case Nil
  then show ?case
    using assms(4) length_header_encode [OF init_header_ok [OF assms(3)]]
    by (auto simp: raw_session_def writer_after_def init_header_def raw_create_def Let_def FILE_HEADER_LEN_def)
next
  case (snoc r rs)
  obtain u where u: "raw_session H hasher init rs = Inr u" and r: "raw_append_record H hasher u r = Inr w"
    using snoc.prems(1) by (auto simp: raw_session_def foldE_append bindE_eq_Inr)
  obtain v' where wa: "writer_after (init_header init) rs u" and z: "rw_record_count u = 0 \<longrightarrow> rw_max_hlc u = 0"
    and v': "foldE (resume_step H hasher) v rs = Inr v'" "same_tally u v'"
      "rw_file v' = rw_file v" "rw_header v' = rw_header v" "rw_record_count v' = rw_record_count v"
      "rw_bytes_written v' = rw_bytes_written v"
    using snoc.IH [OF u] snoc.prems(2) by auto
  from raw_append_record_step [OF r wa _ _ v'(2)] snoc.prems(2) z
  have step: "writer_after (init_header init) (rs @ [r]) w"
    "\<exists>v''. resume_step H hasher v' r = Inr v'' \<and> same_tally w v''
    \<and> rw_file v'' = rw_file v' \<and> rw_header v'' = rw_header v' \<and> rw_record_count v'' = rw_record_count v'
    \<and> rw_bytes_written v'' = rw_bytes_written v'" by auto
  have "rw_record_count w = word_of_nat (Suc (length rs))" using step(1) by (simp add: writer_after_def)
  then have "unat (rw_record_count w) = Suc (length rs)"
    using snoc.prems(2) by (simp add: unsigned_of_nat take_bit_nat_eq_self del: of_nat_Suc)
  then have "rw_record_count w \<noteq> 0" by (metis unat_0 nat.distinct(2))
  then show ?case using step v' by (auto simp: foldE_append)
qed

end
