(* ===== verification/V6_Raw_Durable.thy ===== *)
theory V6_Raw_Durable
  imports V6_Raw_Correct
begin

text \<open>
  The durability theorems of the RAW segment (\<open>heraclitus-log/src/v6/raw.rs\<close>): resuming, repairing
  after a crash in the middle of an append, and sealing.
\<close>

section \<open>Resuming\<close>

lemma init_header_raw [simp]:
  "fh_physical_layout (init_header i) = Layout_Raw" "fh_canonical_codec (init_header i) = CANONICAL_CODEC_V1"
  "fh_first_lsn (init_header i) = si_first_lsn i"
  by (simp_all add: init_header_def raw_create_def Let_def)

lemma scan_file:
  assumes "init_ok i" and "list_all raw_fits rs"
  shows "scan_raw_bytes (header_encode (init_header i) @ raw_region rs @ post)
    = bindE (scan_raw_loop (header_encode (init_header i) @ raw_region rs @ post) (64 + length (raw_region rs)) rs)
        (\<lambda>(records, footer, torn_at). Inr \<lparr>rs_header = init_header i, rs_records = records,
          rs_footer = footer, rs_torn_at = torn_at\<rparr>)"
  using scan_loop_records [OF assms(2), of "header_encode (init_header i)" post "[]"]
    header_decode_encode [OF init_header_ok [OF assms(1)], of "raw_region rs @ post"]
    length_header_encode [OF init_header_ok [OF assms(1)]]
  by (simp add: scan_raw_bytes_def FILE_HEADER_LEN_def)

lemma session_bound:
  assumes "writer_after hdr rs w" and "length (rw_file w) < usize_limit"
  shows "length rs < 2 ^ 64"
  using assms raw_region_length [of rs] by (simp add: writer_after_def usize_limit_def)

lemma session_append:
  "raw_session H hasher init (rs @ [r]) = bindE (raw_session H hasher init rs) (\<lambda>w. raw_append_record H hasher w r)"
proof -
  have "bindE m Inr = m" for m :: "raw_writer v6_result" by (cases m) auto
  then show ?thesis by (simp add: raw_session_def foldE_append)
qed

lemma session_file:
  assumes "raw_session H hasher init rs = Inr w" "init_ok init"
  shows "rw_file w = header_encode (init_header init) @ raw_region rs \<and> list_all raw_fits rs"
  using assms(1)
proof (induction rs arbitrary: w rule: rev_induct)
  case Nil
  then show ?case by (auto simp: raw_session_def init_header_def raw_create_def Let_def)
next
  case (snoc r rs)
  obtain u h where "raw_session H hasher init rs = Inr u"
    "raw_append H u (rr_lsn r) (rr_hlc r) (rr_payload r) h = Inr w"
    using snoc.prems by (auto simp: session_append raw_append_record_def bindE_eq_Inr)
  with snoc.IH [of u] show ?case
    by (auto simp: raw_append_def Let_def raw_bytes_def raw_fits_def split: if_splits)
qed

lemma session_writer:
  assumes "raw_session H hasher init rs = Inr w" "init_ok init" "length (rw_file w) < usize_limit"
  shows "writer_after (init_header init) rs w" and "length rs < 2 ^ 64"
proof -
  show n: "length rs < 2 ^ 64"
    using session_file [OF assms(1,2)] raw_region_length [of rs] assms(3) by (simp add: usize_limit_def)
  show "writer_after (init_header init) rs w"
    using session_after [OF assms(1) n assms(2), of "raw_create init"] by (simp add: same_tally_def)
qed

lemma resume_session:
  assumes s: "raw_session H hasher init rs = Inr w" and ok: "init_ok init" and size: "length (rw_file w) < usize_limit"
  shows "scan_raw_bytes (rw_file w)
      = Inr \<lparr>rs_header = rw_header w, rs_records = rs, rs_footer = None, rs_torn_at = None\<rparr>"
    and "raw_resume H hasher (rw_file w) = Inr w"
proof -
  note wa = session_writer(1) [OF s ok size] and n = session_writer(2) [OF s ok size]
  have fc: "rw_file w = header_encode (init_header init) @ raw_region rs @ []" and fits: "list_all raw_fits rs"
    and hdr: "rw_header w = init_header init"
    using wa by (simp_all add: writer_after_def)
  have len: "length (rw_file w) = 64 + length (raw_region rs)"
    using fc length_header_encode [OF init_header_ok [OF ok]] by simp
  show scan: "scan_raw_bytes (rw_file w)
      = Inr \<lparr>rs_header = rw_header w, rs_records = rs, rs_footer = None, rs_torn_at = None\<rparr>"
    using scan_file [OF ok fits, of "[]"] scan_loop_end [of "rw_file w" "64 + length (raw_region rs)" rs] len
    unfolding fc hdr by simp
  let ?v = "\<lparr>rw_file = rw_file w, rw_header = init_header init, rw_acc = merkle_new,
        rw_record_count = word_of_nat (length rs),
        rw_min_lsn = -1, rw_max_lsn = 0, rw_min_hlc = -1, rw_max_hlc = 0,
        rw_next_expected_lsn = si_first_lsn init, rw_contiguous = True, rw_monotonic_hlc = True,
        rw_bytes_written = word_of_nat (length (rw_file w))\<rparr>"
  have "same_tally (raw_create init) ?v" by (simp add: same_tally_def raw_create_def Let_def)
  from session_after [OF s n ok this] obtain v' where v': "foldE (resume_step H hasher) ?v rs = Inr v'"
    "same_tally w v'" "rw_file v' = rw_file w" "rw_header v' = init_header init"
    "rw_record_count v' = word_of_nat (length rs)" "rw_bytes_written v' = word_of_nat (length (rw_file w))"
    by auto
  have "v' = w"
    using v'(2-) wa by (cases v'; cases w) (auto simp: same_tally_def writer_after_def)
  then show "raw_resume H hasher (rw_file w) = Inr w"
    using v'(1) by (simp add: raw_resume_def scan hdr)
qed

section \<open>Repair\<close>

lemma read_footer_magic: "read_footer file \<noteq> None \<Longrightarrow> footer_magic_at_eof file"
  by (auto simp: read_footer_def footer_magic_at_eof_def footer_decode_def Let_def FOOTER_LEN_def FILE_HEADER_LEN_def
      field_def min_def split: if_splits sum.splits)

lemma take_4_field: "take 4 (drop at buf) = field at 4 buf"
  by (simp add: field_def)

lemma header_decode_take:
  assumes "header_decode buf = Inr hdr" and "64 \<le> n"
  shows "header_decode (take n buf) = Inr hdr"
proof -
  have len: "64 \<le> length buf" using assms(1) by (auto simp: header_decode_def FILE_HEADER_LEN_def Let_def split: if_splits)
  then have "header_decode (take n buf) = header_decode buf"
    using assms(2) by (simp add: header_decode_def FILE_HEADER_LEN_def Let_def field_take min_def)
  then show ?thesis using assms(1) by simp
qed

lemma scan_cut:
  assumes "scan_raw_bytes buf = Inr \<lparr>rs_header = hdr, rs_records = rs, rs_footer = None, rs_torn_at = torn\<rparr>"
    and "length buf < usize_limit"
  shows "let at = (case torn of Some a \<Rightarrow> unat a | None \<Rightarrow> length buf) in at \<le> length buf \<and> scan_raw_bytes (take at buf)
    = Inr \<lparr>rs_header = hdr, rs_records = rs, rs_footer = None, rs_torn_at = None\<rparr>"
proof -
  obtain at where at: "at = (case torn of Some a \<Rightarrow> unat a | None \<Rightarrow> length buf)" by blast
  have hdr: "header_decode buf = Inr hdr" and raw: "fh_physical_layout hdr = Layout_Raw"
    and loop: "scan_raw_loop buf 64 [] = Inr (rs, None, torn)"
    using assms(1) by (auto simp: scan_raw_bytes_def bindE_eq_Inr FILE_HEADER_LEN_def split: if_splits)
  have "64 \<le> length buf" using hdr by (auto simp: header_decode_def FILE_HEADER_LEN_def Let_def split: if_splits)
  from scan_loop_cut [OF loop this assms(2)] have cut: "64 \<le> at" "at \<le> length buf"
    "scan_raw_loop (take at buf) 64 [] = Inr (rs, None, None)"
    by (simp_all add: Let_def at)
  have "header_decode (take at buf) = Inr hdr" by (rule header_decode_take [OF hdr cut(1)])
  then show ?thesis
    using raw cut(2,3) by (simp add: scan_raw_bytes_def FILE_HEADER_LEN_def Let_def at [symmetric])
qed

lemma mapE_append:
  "mapE f (xs @ ys) = bindE (mapE f xs) (\<lambda>us. bindE (mapE f ys) (\<lambda>vs. Inr (us @ vs)))"
proof (induction xs)
  case Nil
  show ?case by (cases "mapE f ys") auto
next
  case (Cons x xs)
  then show ?case by (cases "f x"; cases "mapE f xs"; cases "mapE f ys") auto
qed

lemma lsn_windows_append:
  "lsn_windows_consecutive (rs @ [a, b]) \<longleftrightarrow> lsn_windows_consecutive (rs @ [a]) \<and> rr_lsn b = saturating_add (rr_lsn a) 1"
  by (induction rs rule: lsn_windows_consecutive.induct) auto

section \<open>What the writer knows about its records\<close>

definition increasing_raw :: "raw_record list \<Rightarrow> bool" where
  "increasing_raw rs = sorted_wrt (<) (map rr_lsn rs)"

lemma session_ranges:
  assumes "raw_session H hasher init rs = Inr w" and "rs \<noteq> []"
  shows "rw_min_lsn w = Min (set (map rr_lsn rs))" and "rw_max_lsn w = Max (set (map rr_lsn rs))"
    and "rw_min_hlc w = Min (set (map rr_hlc rs))" and "rw_max_hlc w = Max (set (map rr_hlc rs))"
proof -
  have "rs \<noteq> [] \<longrightarrow> rw_min_lsn w = Min (set (map rr_lsn rs)) \<and> rw_max_lsn w = Max (set (map rr_lsn rs))
      \<and> rw_min_hlc w = Min (set (map rr_hlc rs)) \<and> rw_max_hlc w = Max (set (map rr_hlc rs))"
    using assms(1)
  proof (induction rs arbitrary: w rule: rev_induct)
    case (snoc r rs)
    obtain u h where u: "raw_session H hasher init rs = Inr u"
      and "raw_append H u (rr_lsn r) (rr_hlc r) (rr_payload r) h = Inr w"
      using snoc.prems by (auto simp: session_append raw_append_record_def bindE_eq_Inr)
    then have w: "rw_min_lsn w = min (rw_min_lsn u) (rr_lsn r)" "rw_max_lsn w = max (rw_max_lsn u) (rr_lsn r)"
      "rw_min_hlc w = min (rw_min_hlc u) (rr_hlc r)" "rw_max_hlc w = max (rw_max_hlc u) (rr_hlc r)"
      by (auto simp: raw_append_def Let_def split: if_splits)
    show ?case
    proof (cases "rs = []")
      case True
      then have "rw_min_lsn u = -1" "rw_max_lsn u = 0" "rw_min_hlc u = -1" "rw_max_hlc u = 0"
        using u by (auto simp: raw_session_def raw_create_def Let_def)
      then show ?thesis using w True by (simp add: min_absorb2 max_absorb2)
    next
      case False
      then show ?thesis
        using snoc.IH [OF u] w by (simp add: Min_insert Max_insert min.commute max.commute)
    qed
  qed simp
  then show "rw_min_lsn w = Min (set (map rr_lsn rs))" and "rw_max_lsn w = Max (set (map rr_lsn rs))"
    and "rw_min_hlc w = Min (set (map rr_hlc rs))" and "rw_max_hlc w = Max (set (map rr_hlc rs))"
    using assms(2) by simp_all
qed

lemma session_root:
  assumes "raw_session H hasher init rs = Inr w"
  shows "\<exists>hashes. mapE (\<lambda>r. hasher (rr_lsn r) (rr_hlc r) (rr_payload r)) rs = Inr hashes
    \<and> rw_acc w = foldl (push_record_hash H) merkle_new hashes"
  using assms
proof (induction rs arbitrary: w rule: rev_induct)
  case Nil
  then show ?case by (auto simp: raw_session_def raw_create_def Let_def)
next
  case (snoc r rs)
  obtain u h where u: "raw_session H hasher init rs = Inr u"
    and h: "hasher (rr_lsn r) (rr_hlc r) (rr_payload r) = Inr h"
    and "raw_append H u (rr_lsn r) (rr_hlc r) (rr_payload r) h = Inr w"
    using snoc.prems by (auto simp: session_append raw_append_record_def bindE_eq_Inr)
  then have "rw_acc w = push_record_hash H (rw_acc u) h"
    by (auto simp: raw_append_def Let_def split: if_splits)
  with snoc.IH [OF u] h show ?case by (auto simp: mapE_append)
qed

lemma session_contiguous:
  assumes "raw_session H hasher init rs = Inr w" and "rw_contiguous w"
  shows "lsn_windows_consecutive rs \<and> (rs \<noteq> [] \<longrightarrow> rw_next_expected_lsn w = saturating_add (rr_lsn (last rs)) 1)"
  using assms
proof (induction rs arbitrary: w rule: rev_induct)
  case (snoc r rs)
  obtain u h where u: "raw_session H hasher init rs = Inr u"
    and "raw_append H u (rr_lsn r) (rr_hlc r) (rr_payload r) h = Inr w"
    using snoc.prems by (auto simp: session_append raw_append_record_def bindE_eq_Inr)
  then have w: "rw_contiguous u" "rr_lsn r = rw_next_expected_lsn u" "rw_next_expected_lsn w = saturating_add (rr_lsn r) 1"
    using snoc.prems(2) by (auto simp: raw_append_def Let_def split: if_splits)
  then show ?case
    using snoc.IH [OF u w(1)] by (cases rs rule: rev_cases) (auto simp: lsn_windows_append)
qed simp

lemma increasing_raw_snoc:
  "increasing_raw (rs @ [a, b]) \<longleftrightarrow> increasing_raw (rs @ [a]) \<and> rr_lsn a < rr_lsn b"
  by (auto simp: increasing_raw_def sorted_wrt_append intro: less_trans)

lemma increasing_raw_span:
  "increasing_raw rs \<Longrightarrow> rs \<noteq> [] \<Longrightarrow> unat (rr_lsn (hd rs)) + (length rs - 1) \<le> unat (rr_lsn (last rs))"
proof (induction rs rule: rev_induct)
  case (snoc b xs)
  show ?case
  proof (cases xs rule: rev_cases)
    case (snoc ys a)
    then have "increasing_raw xs" "rr_lsn a < rr_lsn b" using snoc.prems increasing_raw_snoc [of ys a b] by simp_all
    moreover have "xs \<noteq> []" using snoc by simp
    ultimately show ?thesis using snoc.IH snoc by (cases ys) (auto simp: word_less_nat_alt)
  qed simp
qed simp

lemma increasing_raw_Min_Max:
  assumes "increasing_raw rs" "rs \<noteq> []"
  shows "Min (set (map rr_lsn rs)) = rr_lsn (hd rs)" and "Max (set (map rr_lsn rs)) = rr_lsn (last rs)"
proof -
  obtain r ys where rs: "rs = r # ys" using assms(2) by (cases rs) auto
  then have "\<forall>x \<in> set ys. rr_lsn r < rr_lsn x" using assms(1) by (simp add: increasing_raw_def)
  then show "Min (set (map rr_lsn rs)) = rr_lsn (hd rs)"
    by (intro Min_eqI) (auto simp: rs less_imp_le)
  obtain r' zs where rs: "rs = zs @ [r']" using assms(2) by (cases rs rule: rev_cases) auto
  then have "\<forall>x \<in> set zs. rr_lsn x < rr_lsn r'" using assms(1) by (simp add: increasing_raw_def sorted_wrt_append)
  then show "Max (set (map rr_lsn rs)) = rr_lsn (last rs)"
    by (intro Max_eqI) (auto simp: rs less_imp_le)
qed

lemma saturating_succ:
  "a < b \<Longrightarrow> b = saturating_add a 1 \<Longrightarrow> unat b = unat a + 1"
  using unat_saturating_add [of a 1] unat_lt_u64 [of b] by (auto simp: word_less_nat_alt)

lemma consecutive_span:
  "increasing_raw rs \<Longrightarrow> rs \<noteq> [] \<Longrightarrow> lsn_windows_consecutive rs
    \<Longrightarrow> unat (rr_lsn (last rs)) = unat (rr_lsn (hd rs)) + (length rs - 1)"
proof (induction rs rule: rev_induct)
  case (snoc b xs)
  show ?case
  proof (cases xs rule: rev_cases)
    case (snoc ys a)
    then have "increasing_raw xs" "rr_lsn a < rr_lsn b" "lsn_windows_consecutive xs" "rr_lsn b = saturating_add (rr_lsn a) 1"
      using snoc.prems increasing_raw_snoc [of ys a b] lsn_windows_append [of ys a b] by simp_all
    moreover have "unat (rr_lsn b) = unat (rr_lsn a) + 1" using calculation by (intro saturating_succ)
    ultimately show ?thesis using snoc.IH snoc by (cases ys) auto
  qed simp
qed simp

lemma sealed_footer:
  assumes s: "raw_session H hasher init rs = Inr w" and ok: "init_ok init" and "digest32 H" and inc: "increasing_raw rs"
    and f: "f = fst (raw_seal H w)" and size: "length (rw_file w) < usize_limit"
  shows "footer_ok f" and "footer_check_coherence f = Inr ()" and "validate_raw_footer f rs = Inr ()"
proof -
  note wa = session_writer(1) [OF s ok size] and n = session_writer(2) [OF s ok size]
  have cnt: "rw_record_count w = word_of_nat (length rs)" using wa by (simp add: writer_after_def)
  then have ucnt: "unat (rw_record_count w) = length rs"
    using n by (simp add: unsigned_of_nat take_bit_nat_eq_self)
  have z: "rw_record_count w = 0 \<longleftrightarrow> rs = []" using ucnt by (metis length_0_conv unat_0 unat_eq_zero)
  show "footer_ok f"
    using assms(3) by (simp add: f raw_seal_def Let_def footer_ok_def merkle_finalize_def)
  have vals: "ft_record_count f = rw_record_count w" "ft_block_count f = 0" "ft_block_directory_offset f = 0"
    "ft_block_directory_len f = 0"
    by (simp_all add: f raw_seal_def Let_def)
  have ranges: "ft_min_lsn f = rr_lsn (hd rs)" "ft_max_lsn f = rr_lsn (last rs)"
    "ft_min_hlc f = Min (set (map rr_hlc rs))" "ft_max_hlc f = Max (set (map rr_hlc rs))" if "rs \<noteq> []"
    using session_ranges [OF s that] increasing_raw_Min_Max [OF inc that] z that
    by (simp_all add: f raw_seal_def Let_def)
  have zero: "ft_min_lsn f = 0" "ft_max_lsn f = 0" "ft_min_hlc f = 0" "ft_max_hlc f = 0" if "rs = []"
    using z that by (simp_all add: f raw_seal_def Let_def)
  have span: "unat (ft_min_lsn f) + (length rs - 1) \<le> unat (ft_max_lsn f)" if "rs \<noteq> []"
    using increasing_raw_span [OF inc that] ranges [OF that] by simp
  have hlc: "Min (set (map rr_hlc rs)) \<le> Max (set (map rr_hlc rs))" if "rs \<noteq> []"
    using that by (intro order_trans [OF Min_le Max_ge, of _ "rr_hlc (hd rs)"]) auto
  show "footer_check_coherence f = Inr ()"
  proof (cases "rs = []")
    case False
    have "length rs \<le> Suc (unat (ft_max_lsn f) - unat (ft_min_lsn f))" using span [OF False] by arith
    then show ?thesis
      using False span ranges hlc ucnt vals by (simp add: footer_coherent_iff word_le_nat_alt)
  qed (use z vals in \<open>simp add: footer_coherent_iff\<close>)
  have "is_contiguous_lsn f \<longrightarrow> rw_contiguous w"
    by (auto simp: is_contiguous_lsn_def f raw_seal_def Let_def FOOTER_FLAG_CONTIGUOUS_LSN_def
        FOOTER_FLAG_HAS_NON_MONOTONIC_HLC_def)
  moreover have "lsn_windows_consecutive rs \<and> lsn_span_is_contiguous f" if c: "rw_contiguous w" and ne: "rs \<noteq> []"
  proof -
    have win: "lsn_windows_consecutive rs" using session_contiguous [OF s c] by simp
    have "unat (ft_max_lsn f) = unat (ft_min_lsn f) + (length rs - 1)"
      using consecutive_span [OF inc ne win] ranges [OF ne] by simp
    moreover have "ft_min_lsn f \<le> ft_max_lsn f" using calculation by (simp add: word_le_nat_alt)
    ultimately have "unat (ft_max_lsn f - ft_min_lsn f) = length rs - 1" by (simp add: unat_sub_u64)
    then have "ft_max_lsn f - ft_min_lsn f = word_of_nat (length rs - 1)" by (rule word_of_nat_unatI)
    then have "ft_max_lsn f - ft_min_lsn f + 1 = rw_record_count w"
      using ne unfolding cnt by (cases rs) auto
    then show ?thesis using win vals z ne by (simp add: lsn_span_is_contiguous_def word_gt_0)
  qed
  ultimately show "validate_raw_footer f rs = Inr ()"
    using ranges zero vals cnt increasing_raw_Min_Max [OF inc]
    by (cases "rs = []") (auto simp: validate_raw_footer_def Let_def)
qed

section \<open>Properties\<close>

text \<open>C22. A resumed writer is the writer that was interrupted. After any session of appends, the scan of
  the segment file returns exactly the records appended, with no footer and no torn tail, and
  \<open>resume\<close> rebuilds the complete state of the writer from the bytes alone: the Merkle accumulator, the
  LSN and HLC ranges, the expected LSN, both flags and the counters.\<close>

theorem resume_restores_writer:
  assumes "raw_session H hasher init rs = Inr w" and "init_ok init" and "length (rw_file w) < usize_limit"
  shows "scan_raw_bytes (rw_file w)
      = Inr \<lparr>rs_header = rw_header w, rs_records = rs, rs_footer = None, rs_torn_at = None\<rparr>
    \<and> raw_resume H hasher (rw_file w) = Inr w"
  using resume_session [OF assms] by simp

text \<open>Repair never loses a complete record. For any file content whatever: if the repair refuses, the
  file is untouched; if it succeeds, what is left is a prefix of the file that scans cleanly to the same
  header and exactly the records that the scan of the damaged file could read.\<close>

theorem repair_keeps_history:
  assumes "repair_active_tail file = (res, file')" and "length file < usize_limit"
  shows "case res of Inl _ \<Rightarrow> file' = file
    | Inr _ \<Rightarrow> (\<exists>hdr rs torn. scan_raw_bytes file
          = Inr \<lparr>rs_header = hdr, rs_records = rs, rs_footer = None, rs_torn_at = torn\<rparr>
        \<and> scan_raw_bytes file' = Inr \<lparr>rs_header = hdr, rs_records = rs, rs_footer = None, rs_torn_at = None\<rparr>
        \<and> (\<exists>rest. file = file' @ rest))"
proof (cases res)
  case (Inl e)
  then show ?thesis
    using assms(1) by (auto simp: repair_active_tail_def Let_def split: if_splits sum.splits option.splits)
next
  case (Inr r)
  obtain hdr rs torn where scan: "scan_raw_bytes file
      = Inr \<lparr>rs_header = hdr, rs_records = rs, rs_footer = None, rs_torn_at = torn\<rparr>"
    and cut: "file' = (case torn of Some a \<Rightarrow> take (unat a) file | None \<Rightarrow> file)"
  proof -
    obtain scan where "scan_raw_bytes file = Inr scan" "rs_footer scan = None"
      "file' = (case rs_torn_at scan of Some a \<Rightarrow> take (unat a) file | None \<Rightarrow> file)"
      using assms(1) Inr by (auto simp: repair_active_tail_def Let_def split: if_splits sum.splits option.splits)
    then show thesis by (cases scan) (auto intro: that)
  qed
  have fc: "file' = take (case torn of Some a \<Rightarrow> unat a | None \<Rightarrow> length file) file"
    using cut by (cases torn) auto
  have "\<exists>rest. file = file' @ rest" unfolding fc by (metis append_take_drop_id)
  then show ?thesis using Inr scan scan_cut [OF scan assms(2)] fc by (auto simp: Let_def)
qed

text \<open>C12. Crash in the middle of an append. If the process dies after writing any strict prefix of a record
  (the empty one included), \<open>repair_active_tail\<close> cuts the file back to exactly the records appended
  before, and resuming gives the writer as it was before that append, unless the torn file happens to
  show the footer magic 128 bytes before its end.\<close>

theorem crash_recovery:
  assumes "raw_session H hasher init rs = Inr w" and "init_ok init"
    and "length payload \<le> HARD_MAX_RECORD_BYTES" and "n < 24 + length payload"
    and "length (rw_file w) + n < usize_limit"
    and "\<not> footer_magic_at_eof (rw_file w @ take n (encode_raw_record k hlc payload))"
  shows "repair_active_tail (rw_file w @ take n (encode_raw_record k hlc payload))
      = (Inr (if n = 0 then None else Some (word_of_nat (length (rw_file w)))), rw_file w)
    \<and> raw_resume H hasher (rw_file w) = Inr w"
proof -
  let ?tail = "take n (encode_raw_record k hlc payload)"
  let ?torn = "if n = 0 then None else Some (word_of_nat (length (rw_file w)) :: u64)"
  have size: "length (rw_file w) < usize_limit" using assms(5) by simp
  note wa = session_writer(1) [OF assms(1,2) size]
  have fc: "rw_file w = header_encode (init_header init) @ raw_region rs" and fits: "list_all raw_fits rs"
    using wa by (simp_all add: writer_after_def)
  have len: "length (rw_file w) = 64 + length (raw_region rs)"
    using fc length_header_encode [OF init_header_ok [OF assms(2)]] by simp
  have fe: "header_encode (init_header init) @ raw_region rs @ ?tail = rw_file w @ ?tail" using fc by simp
  have "scan_raw_loop (rw_file w @ ?tail) (length (rw_file w)) rs = Inr (rs, None, ?torn)"
  proof (cases "n = 0")
    case False
    then show ?thesis
      using decode_raw_prefix [OF assms(3,4), of k hlc] assms(4)
      by (subst scan_raw_loop.simps) (simp add: Let_def)
  qed (simp add: scan_loop_end)
  then have "scan_raw_bytes (rw_file w @ ?tail) = Inr \<lparr>rs_header = init_header init, rs_records = rs,
      rs_footer = None, rs_torn_at = ?torn\<rparr>"
    using scan_file [OF assms(2) fits, of ?tail] unfolding fe len [symmetric] by simp
  moreover have "unat (word_of_nat (length (rw_file w)) :: u64) = length (rw_file w)"
    using size by (simp add: unsigned_of_nat take_bit_nat_eq_self usize_limit_def)
  moreover have "read_footer (rw_file w @ ?tail) = None"
    using assms(6) read_footer_magic [of "rw_file w @ ?tail"] by blast
  ultimately have "repair_active_tail (rw_file w @ ?tail) = (Inr ?torn, rw_file w)"
    using assms(6)
    by (auto simp: repair_active_tail_def Let_def)
  then show ?thesis using resume_session(2) [OF assms(1,2) size] by simp
qed

text \<open>C40. An event can block recovery. A record whose payload shows the four bytes of the footer magic
  exactly 128 bytes before the end of the file makes \<open>repair_active_tail\<close> refuse a perfectly clean
  active segment as a sealed one, although the scan of the same file reads every record and finds neither a
  footer nor a torn tail.\<close>

theorem payload_blocks_repair:
  assumes "raw_session H hasher init (rs @ [r]) = Inr w" and "init_ok init" and "length (rw_file w) < usize_limit"
    and "rr_payload r = pre @ FOOTER_MAGIC @ post" and "length post = 124" and "40 \<le> length pre"
  shows "\<exists>e. repair_active_tail (rw_file w) = (Inl e, rw_file w)
    \<and> scan_raw_bytes (rw_file w)
      = Inr \<lparr>rs_header = rw_header w, rs_records = rs @ [r], rs_footer = None, rs_torn_at = None\<rparr>"
proof -
  have "rw_file w = (header_encode (init_header init) @ raw_region rs @ take 24 (raw_bytes r) @ pre) @ FOOTER_MAGIC @ post"
    using session_writer(1) [OF assms(1-3)] assms(4)
    by (simp add: writer_after_def raw_bytes_def encode_raw_record_eq)
  moreover have "length FOOTER_MAGIC = 4" by (simp add: FOOTER_MAGIC_def)
  ultimately have "footer_magic_at_eof (rw_file w)"
    using assms(5,6) length_header_encode [OF init_header_ok [OF assms(2)]]
    by (simp add: footer_magic_at_eof_def FOOTER_LEN_def FILE_HEADER_LEN_def raw_bytes_def field_skip field_here)
  then show ?thesis
    using resume_session(1) [OF assms(1-3)] by (simp add: repair_active_tail_def Let_def)
qed

lemma sealed_segment:
  assumes "raw_session H hasher init rs = Inr w" and "init_ok init" and "digest32 H" and "increasing_raw rs"
    and "raw_seal H w = (f, file')" and "length file' < usize_limit"
  shows "scan_raw_bytes file'
      = Inr \<lparr>rs_header = rw_header w, rs_records = rs, rs_footer = Some f, rs_torn_at = None\<rparr>
    \<and> read_footer file' = Some f
    \<and> (\<exists>hashes. mapE (\<lambda>r. hasher (rr_lsn r) (rr_hlc r) (rr_payload r)) rs = Inr hashes
        \<and> ft_logical_root f = root_of_record_hashes H hashes)
    \<and> (\<exists>e. repair_active_tail file' = (Inl e, file')) \<and> (\<exists>e. raw_resume H hasher file' = Inl e)"
proof -
  have fc: "file' = rw_file w @ footer_encode f" and f: "f = fst (raw_seal H w)"
    using assms(5) by (auto simp: raw_seal_def Let_def)
  have size: "length (rw_file w) < usize_limit" using assms(6) fc by simp
  note v = sealed_footer [OF assms(1-4) f size]
  note wa = session_writer(1) [OF assms(1,2) size] and n = session_writer(2) [OF assms(1,2) size]
  have w: "rw_file w = header_encode (init_header init) @ raw_region rs" "list_all raw_fits rs" "rw_header w = init_header init"
    using wa by (simp_all add: writer_after_def)
  have len: "length (rw_file w) = 64 + length (raw_region rs)"
    using w(1) length_header_encode [OF init_header_ok [OF assms(2)]] by simp
  have flen: "length (footer_encode f) = 128" by (rule length_footer_encode [OF v(1)])
  have dec: "footer_decode (footer_encode f) = Inr f" using footer_decode_encode [OF v(1,2), of "[]"] by simp
  have magic: "take 4 (footer_encode f) = FOOTER_MAGIC"
    using footer_fields(1) [OF v(1)] by (simp add: footer_encode_eq [OF v(1)] field_def)
  have fe: "header_encode (init_header init) @ raw_region rs @ footer_encode f = file'" using fc w(1) by simp
  have "decode_raw_record (footer_encode f) = RawFooter f"
    by (simp add: decode_raw_record_def flen magic dec)
  then have "scan_raw_loop file' (length (rw_file w)) rs = Inr (rs, Some f, None)"
    using v(3) flen assms(6) by (subst scan_raw_loop.simps) (simp add: Let_def fc FOOTER_LEN_def)
  then have scan: "scan_raw_bytes file'
      = Inr \<lparr>rs_header = rw_header w, rs_records = rs, rs_footer = Some f, rs_torn_at = None\<rparr>"
    using scan_file [OF assms(2) w(2), of "footer_encode f"] unfolding fe len [symmetric] by (simp add: w(3))
  have rf: "read_footer file' = Some f"
    using flen dec len by (simp add: read_footer_def fc FOOTER_LEN_def FILE_HEADER_LEN_def field_skip field_all)
  obtain hashes where "mapE (\<lambda>r. hasher (rr_lsn r) (rr_hlc r) (rr_payload r)) rs = Inr hashes"
    "rw_acc w = foldl (push_record_hash H) merkle_new hashes"
    using session_root [OF assms(1)] by blast
  then have "\<exists>hashes. mapE (\<lambda>r. hasher (rr_lsn r) (rr_hlc r) (rr_payload r)) rs = Inr hashes
      \<and> ft_logical_root f = root_of_record_hashes H hashes"
    by (auto simp: f raw_seal_def Let_def root_of_record_hashes_def)
  then show ?thesis
    using scan rf by (simp add: repair_active_tail_def raw_resume_def Let_def)
qed

text \<open>C25. A sealed segment is closed. Sealing a session of records with strictly increasing LSNs writes a footer
  that the scan accepts after reading exactly those records, that \<open>read_footer\<close> finds without a scan,
  and whose logical root is the Merkle root of the canonical hashes of the records; from then on
  \<open>repair_active_tail\<close> refuses to touch the file and \<open>resume\<close> refuses to continue it.\<close>

theorem seal_closes_segment:
  assumes "raw_session H hasher init rs = Inr w" and "init_ok init" and "digest32 H" and "increasing_raw rs"
    and "raw_seal H w = (f, file')" and "length file' < usize_limit"
  shows "scan_raw_bytes file'
      = Inr \<lparr>rs_header = rw_header w, rs_records = rs, rs_footer = Some f, rs_torn_at = None\<rparr>
    \<and> read_footer file' = Some f
    \<and> (\<exists>hashes. mapE (\<lambda>r. hasher (rr_lsn r) (rr_hlc r) (rr_payload r)) rs = Inr hashes
        \<and> ft_logical_root f = root_of_record_hashes H hashes)
    \<and> (\<exists>e. repair_active_tail file' = (Inl e, file')) \<and> (\<exists>e. raw_resume H hasher file' = Inl e)"
  using assms by (rule sealed_segment)

section \<open>Witnesses\<close>

definition example_init :: segment_init where
  "example_init = \<lparr>si_segment_id = 3, si_created_hlc = 7, si_first_lsn = 10, si_writer_epoch = 1,
     si_storage_namespace_id = replicate 16 5\<rparr>"

definition constant_hasher :: record_hasher where
  "constant_hasher k hlc payload = Inr (replicate 32 0)"

lemma example_init_ok: "init_ok example_init"
  by (simp add: init_ok_def example_init_def)

lemma session_exists:
  "list_all raw_fits rs \<Longrightarrow> \<exists>w. raw_session H constant_hasher init rs = Inr w"
proof (induction rs rule: rev_induct)
  case (snoc r rs)
  then show ?case
    by (auto simp: session_append raw_append_record_def constant_hasher_def raw_append_def raw_fits_def Let_def)
qed (simp add: raw_session_def)

lemma example_session:
  assumes "list_all raw_fits rs" and "length (raw_region rs) < 2 ^ 40"
  obtains w where "raw_session toy_hash constant_hasher example_init rs = Inr w"
    and "length (rw_file w) = 64 + length (raw_region rs)" and "length (rw_file w) + 256 < usize_limit"
proof -
  obtain w where w: "raw_session toy_hash constant_hasher example_init rs = Inr w"
    using session_exists [OF assms(1)] by blast
  then have "length (rw_file w) = 64 + length (raw_region rs)"
    using session_file [OF w example_init_ok] length_header_encode [OF init_header_ok [OF example_init_ok]] by simp
  then show thesis using assms(2) w by (intro that) (auto simp: usize_limit_def)
qed

definition example_raw :: "raw_record list" where
  "example_raw = [\<lparr>rr_lsn = 10, rr_hlc = 50, rr_payload = [1, 2, 3]\<rparr>, \<lparr>rr_lsn = 12, rr_hlc = 40, rr_payload = []\<rparr>]"

lemma example_raw_facts:
  "list_all raw_fits example_raw" "length (raw_region example_raw) = 51" "increasing_raw example_raw"
  by (simp_all add: example_raw_def raw_fits_def HARD_MAX_RECORD_BYTES_def raw_bytes_def increasing_raw_def)

lemma example_writer:
  obtains w where "raw_session toy_hash constant_hasher example_init example_raw = Inr w"
    and "length (rw_file w) = 115" and "length (rw_file w) + 256 < usize_limit"
proof -
  have "length (raw_region example_raw) < 2 ^ 40" unfolding example_raw_facts(2) by simp
  from example_session [OF example_raw_facts(1) this] obtain w
    where w: "raw_session toy_hash constant_hasher example_init example_raw = Inr w"
      "length (rw_file w) = 64 + length (raw_region example_raw)" "length (rw_file w) + 256 < usize_limit" .
  then show thesis using example_raw_facts(2) by (intro that [of w]) simp_all
qed

lemma resume_restores_writer_witness:
  "\<exists>w. raw_session toy_hash constant_hasher example_init example_raw = Inr w
    \<and> raw_resume toy_hash constant_hasher (rw_file w) = Inr w"
proof -
  obtain w where w: "raw_session toy_hash constant_hasher example_init example_raw = Inr w"
    "length (rw_file w) = 115" "length (rw_file w) + 256 < usize_limit" by (rule example_writer)
  have "length (rw_file w) < usize_limit" using w(3) by simp
  from resume_restores_writer [OF w(1) example_init_ok this] w(1) show ?thesis by blast
qed

lemma crash_recovery_witness:
  "\<exists>w. raw_session toy_hash constant_hasher example_init example_raw = Inr w
    \<and> repair_active_tail (rw_file w @ take 20 (encode_raw_record 13 60 [9, 9]))
      = (Inr (Some 115), rw_file w)"
proof -
  obtain w where w: "raw_session toy_hash constant_hasher example_init example_raw = Inr w"
    "length (rw_file w) = 115" "length (rw_file w) + 256 < usize_limit"
    by (rule example_writer)
  have "\<not> footer_magic_at_eof (rw_file w @ take 20 (encode_raw_record 13 60 [9, 9]))"
    using w(2) by (simp add: footer_magic_at_eof_def FILE_HEADER_LEN_def FOOTER_LEN_def)
  then show ?thesis
    using crash_recovery [OF w(1) example_init_ok, of "[9, 9]" 20 13 60] w
    by (auto simp: HARD_MAX_RECORD_BYTES_def)
qed

lemma repair_keeps_history_witness:
  "\<exists>w hdr rs torn. raw_session toy_hash constant_hasher example_init example_raw = Inr w
    \<and> scan_raw_bytes (rw_file w @ [0, 0, 0])
        = Inr \<lparr>rs_header = hdr, rs_records = rs, rs_footer = None, rs_torn_at = torn\<rparr>
    \<and> scan_raw_bytes (rw_file w) = Inr \<lparr>rs_header = hdr, rs_records = rs, rs_footer = None, rs_torn_at = None\<rparr>"
proof -
  obtain w where w: "raw_session toy_hash constant_hasher example_init example_raw = Inr w"
    "length (rw_file w) = 115" "length (rw_file w) + 256 < usize_limit"
    by (rule example_writer)
  have fc: "rw_file w = header_encode (init_header example_init) @ raw_region example_raw"
    and len: "length (rw_file w) = 64 + length (raw_region example_raw)"
    using session_file [OF w(1) example_init_ok] w(2) example_raw_facts(2) by simp_all
  have "scan_raw_loop (rw_file w @ [0, 0, 0]) 115 example_raw = Inr (example_raw, None, Some 115)"
    using w(2) by (subst scan_raw_loop.simps)
      (simp add: Let_def decode_raw_record_def RAW_RECORD_HEADER_LEN_def FOOTER_MAGIC_def FOOTER_LEN_def)
  then have "scan_raw_bytes (rw_file w @ [0, 0, 0])
      = Inr \<lparr>rs_header = init_header example_init, rs_records = example_raw, rs_footer = None, rs_torn_at = Some 115\<rparr>"
    using scan_file [OF example_init_ok example_raw_facts(1), of "[0, 0, 0]"] fc len w(2) by simp
  moreover have "\<not> footer_magic_at_eof (rw_file w @ [0, 0, 0])"
    using w(2) by (simp add: footer_magic_at_eof_def FILE_HEADER_LEN_def FOOTER_LEN_def)
  moreover have "read_footer (rw_file w @ [0, 0, 0]) = None"
    using w(2) by (simp add: read_footer_def FILE_HEADER_LEN_def FOOTER_LEN_def)
  ultimately have "repair_active_tail (rw_file w @ [0, 0, 0]) = (Inr (Some 115), rw_file w)"
    using w(2) by (simp add: repair_active_tail_def Let_def)
  from repair_keeps_history [OF this] w show ?thesis by auto
qed

definition magic_record :: raw_record where
  "magic_record = \<lparr>rr_lsn = 10, rr_hlc = 50, rr_payload = replicate 40 0 @ FOOTER_MAGIC @ replicate 124 0\<rparr>"

lemma payload_blocks_repair_witness:
  "\<exists>w e. raw_session toy_hash constant_hasher example_init [magic_record] = Inr w
    \<and> repair_active_tail (rw_file w) = (Inl e, rw_file w)"
proof -
  have fits: "list_all raw_fits [magic_record]" and len: "length (raw_region [magic_record]) = 192"
    by (simp_all add: magic_record_def raw_fits_def HARD_MAX_RECORD_BYTES_def raw_bytes_def FOOTER_MAGIC_def)
  have "length (raw_region [magic_record]) < 2 ^ 40" unfolding len by simp
  from example_session [OF fits this] obtain w
    where w: "raw_session toy_hash constant_hasher example_init ([] @ [magic_record]) = Inr w"
      "length (rw_file w) + 256 < usize_limit" unfolding append_Nil .
  have "length (rw_file w) < usize_limit" using w(2) by simp
  from payload_blocks_repair [OF w(1) example_init_ok this, of "replicate 40 0" "replicate 124 0"] w(1)
  show ?thesis unfolding append_Nil by (simp add: magic_record_def)
qed

lemma seal_closes_segment_witness:
  "\<exists>w f file'. raw_session toy_hash constant_hasher example_init example_raw = Inr w
    \<and> raw_seal toy_hash w = (f, file') \<and> read_footer file' = Some f"
proof -
  obtain w where w: "raw_session toy_hash constant_hasher example_init example_raw = Inr w"
    "length (rw_file w) = 115" "length (rw_file w) + 256 < usize_limit" by (rule example_writer)
  obtain f file' where s: "raw_seal toy_hash w = (f, file')" by (cases "raw_seal toy_hash w")
  have "f = fst (raw_seal toy_hash w)" "length (rw_file w) < usize_limit" using s w(3) by simp_all
  then have "footer_ok f" using sealed_footer(1) [OF w(1) example_init_ok toy_digest example_raw_facts(3)] by simp
  then have "length file' < usize_limit"
    using s w(3) length_footer_encode [of f] by (auto simp: raw_seal_def Let_def)
  from seal_closes_segment [OF w(1) example_init_ok toy_digest example_raw_facts(3) s this] w(1) s
  show ?thesis by blast
qed

end
