(* ===== verification/V6_Packed_Writer.thy ===== *)
theory V6_Packed_Writer
  imports V6_Packed V6_Raw_Durable
begin

text \<open>
  What the writer of \<open>heraclitus-log/src/v6/packed.rs\<close> keeps true: the file is the header followed by
  the blocks built so far, the directory describes them at their offsets, every record is in exactly one
  block or still in the builder, and no block is larger than the block target unless it holds a single
  record.
\<close>

section \<open>The accounting of the builder\<close>

definition approx_size :: "block_record list \<Rightarrow> nat" where
  "approx_size rs = sum_list (map (\<lambda>r. length (br_payload r) + 16) rs)"

definition builder_ok :: "block_builder \<Rightarrow> bool" where
  "builder_ok b \<longleftrightarrow> bu_approx_uncompressed b = approx_size (bu_records b) \<and> bu_block_target b \<le> MAX_BLOCK_TARGET
     \<and> (length (bu_records b) \<le> 1 \<or> approx_size (bu_records b) \<le> bu_block_target b)"

lemma builder_new_ok: "builder_ok (builder_new n ri)"
  by (simp add: builder_ok_def builder_new_def approx_size_def MAX_BLOCK_TARGET_def MIN_BLOCK_TARGET_def)

lemma builder_push_ok:
  assumes "builder_ok b" and "\<not> would_overflow b (length payload)"
  shows "builder_ok (builder_push b k hlc payload)"
proof (cases "bu_records b")
  case (Cons r rs)
  then have "bu_approx_uncompressed b + length payload + 16 \<le> bu_block_target b"
    using assms(2) by (simp add: would_overflow_def)
  then show ?thesis using assms(1) by (simp add: builder_ok_def builder_push_def approx_size_def)
qed (use assms(1) in \<open>simp add: builder_ok_def builder_push_def approx_size_def\<close>)

text \<open>Blocks that the builder lets grow stay far below the hard maximum.\<close>

definition chunk_ok :: "block_record list \<Rightarrow> bool" where
  "chunk_ok ch \<longleftrightarrow> ch \<noteq> [] \<and> (length ch = 1 \<or> approx_size ch \<le> MAX_BLOCK_TARGET)"

lemma region_bound_approx: "region_bound ch + 24 * length ch \<le> 4 * approx_size ch"
  by (induction ch) (auto simp: region_bound_def approx_size_def)

lemma length_body_of: "length (body_of h ch) \<le> region_bound ch + 24 * length ch"
proof -
  have "length (restarts_of h ch) \<le> length ch"
    using length_restart_ordinals by (simp add: restarts_of_def)
  moreover have "length (region_upto (is_sparse_lsn h) (is_hlc_absolute h) (unat (bh_restart_interval h)) ch (length ch))
      \<le> region_bound ch"
    using length_region_upto [of "length ch" ch] by simp
  ultimately show ?thesis
    unfolding body_of_def length_append length_restarts_encode by linarith
qed

lemma chunk_body_bound:
  assumes "chunk_ok ch" and "\<forall>r \<in> set ch. length (br_payload r) + 54 \<le> HARD_MAX_BLOCK_BYTES"
    and "build_block cs ch ri profile ratio = Inr b"
  shows "unat (bh_uncompressed_len (bb_header b)) \<le> HARD_MAX_BLOCK_BYTES"
proof -
  have "length (body_of (bb_header b) ch) \<le> HARD_MAX_BLOCK_BYTES"
  proof (cases "length ch = 1")
    case True
    then obtain r where "ch = [r]" by (cases ch) auto
    then show ?thesis
      using length_body_of [of "bb_header b" ch] assms(2) by (simp add: region_bound_def)
  next
    case False
    then have "approx_size ch \<le> MAX_BLOCK_TARGET" using assms(1) by (simp add: chunk_ok_def)
    then show ?thesis
      using length_body_of [of "bb_header b" ch] region_bound_approx [of ch]
      by (simp add: MAX_BLOCK_TARGET_def HARD_MAX_BLOCK_BYTES_def)
  qed
  then show ?thesis using built_counts(3) [OF assms(3)] by simp
qed

section \<open>The layout of the file\<close>

definition built_bytes :: "built_block \<Rightarrow> bytes" where
  "built_bytes b = bb_header_bytes b @ bb_stored b"

fun entries_at :: "nat \<Rightarrow> built_block list \<Rightarrow> block_directory" where
  "entries_at at [] = []"
| "entries_at at (b # bs) = to_directory_entry (bb_header b) (word_of_nat at) # entries_at (at + built_total_len b) bs"

lemma length_entries_at [simp]: "length (entries_at at bs) = length bs"
  by (induction bs arbitrary: at) auto

lemma entries_at_append:
  "entries_at at (bs @ bs') = entries_at at bs @ entries_at (at + sum_list (map built_total_len bs)) bs'"
  by (induction bs arbitrary: at) (auto simp: add.assoc)

definition built_from :: "codecs \<Rightarrow> pack_options \<Rightarrow> built_block \<Rightarrow> block_record list \<Rightarrow> bool" where
  "built_from cs opts b ch \<longleftrightarrow> build_block cs ch (max (po_restart_interval opts) 1) (po_profile opts)
     (po_raw_fallback_ratio opts) = Inr b \<and> chunk_ok ch"

lemma built_total_len_bytes: "built_from cs opts b ch \<Longrightarrow> length (built_bytes b) = built_total_len b"
  using build_block_Inr(6) [of cs ch _ _ _ b]
  by (auto simp: built_from_def built_bytes_def built_total_len_def BLOCK_HEADER_LEN_def block_header_encode_def
      Let_def length_block_encode_with_crc)

lemma length_blocks:
  "list_all2 (built_from cs opts) bs chunks \<Longrightarrow> length (concat (map built_bytes bs)) = sum_list (map built_total_len bs)"
  by (induction rule: list_all2_induct) (auto simp: built_total_len_bytes)

definition packed_inv :: "codecs \<Rightarrow> file_header \<Rightarrow> pack_options \<Rightarrow> packed_writer \<Rightarrow> built_block list
    \<Rightarrow> block_record list list \<Rightarrow> bool" where
  "packed_inv cs hdr opts w bs chunks \<longleftrightarrow> pw_opts w = opts
     \<and> pw_file w = header_encode hdr @ concat (map built_bytes bs)
     \<and> pw_offset w = word_of_nat (length (pw_file w)) \<and> pw_directory w = entries_at 64 bs
     \<and> list_all2 (built_from cs opts) bs chunks \<and> builder_ok (pw_builder w)
     \<and> bu_restart_interval (pw_builder w) = max (po_restart_interval opts) 1"

text \<open>The fields that a flush leaves alone.\<close>

definition same_totals :: "packed_writer \<Rightarrow> packed_writer \<Rightarrow> bool" where
  "same_totals w v \<longleftrightarrow> pw_acc w = pw_acc v \<and> pw_record_count w = pw_record_count v
     \<and> pw_min_lsn w = pw_min_lsn v \<and> pw_max_lsn w = pw_max_lsn v \<and> pw_min_hlc w = pw_min_hlc v
     \<and> pw_max_hlc w = pw_max_hlc v \<and> pw_next_expected_lsn w = pw_next_expected_lsn v
     \<and> pw_contiguous w = pw_contiguous v \<and> pw_any_non_monotonic_hlc w = pw_any_non_monotonic_hlc v"

lemma flush_inv:
  assumes inv: "packed_inv cs hdr opts w bs chunks" and hdr: "header_ok hdr" and flush: "flush_block cs w = Inr w'"
  shows "\<exists>bs' chunks'. packed_inv cs hdr opts w' bs' chunks'
    \<and> concat chunks' = concat chunks @ bu_records (pw_builder w) \<and> bu_records (pw_builder w') = []
    \<and> same_totals w' w"
proof (cases "bu_records (pw_builder w) = []")
  case True
  then have "w' = w" using flush by (simp add: flush_block_def builder_finish_def)
  then show ?thesis using True inv by (intro exI [of _ bs] exI [of _ chunks]) (simp add: same_totals_def)
next
  case False
  let ?ch = "bu_records (pw_builder w)"
  note i = inv [unfolded packed_inv_def]
  obtain b where b: "build_block cs ?ch (max (po_restart_interval opts) 1) (po_profile opts) (po_raw_fallback_ratio opts) = Inr b"
    and w': "pw_file w' = pw_file w @ built_bytes b" "pw_offset w' = pw_offset w + word_of_nat (built_total_len b)"
      "pw_directory w' = pw_directory w @ [to_directory_entry (bb_header b) (pw_offset w)]"
      "pw_builder w' = (pw_builder w)\<lparr>bu_records := [], bu_approx_uncompressed := 0\<rparr>" "pw_opts w' = opts"
      "same_totals w' w"
    using flush False i
    by (auto simp: flush_block_def builder_finish_def bindE_eq_Inr built_bytes_def same_totals_def)
  have ok: "chunk_ok ?ch"
    using False i by (cases "bu_records (pw_builder w)") (auto simp: chunk_ok_def builder_ok_def)
  then have bf: "built_from cs opts b ?ch" using b by (simp add: built_from_def)
  have "length (concat (map built_bytes bs)) = sum_list (map built_total_len bs)"
    using i length_blocks by blast
  then have "packed_inv cs hdr opts w' (bs @ [b]) (chunks @ [?ch])"
    using i w' bf built_total_len_bytes [OF bf] length_header_encode [OF hdr]
    by (simp add: packed_inv_def entries_at_append builder_ok_def approx_size_def list_all2_appendI)
  then show ?thesis using w' by (intro exI [of _ "bs @ [b]"] exI [of _ "chunks @ [?ch]"]) simp
qed

section \<open>A packing session\<close>

definition block_record_of :: "raw_record \<Rightarrow> block_record" where
  "block_record_of r = \<lparr>br_lsn = rr_lsn r, br_hlc = rr_hlc r, br_payload = rr_payload r\<rparr>"

definition push_record :: "codecs \<Rightarrow> hash_fn \<Rightarrow> record_hasher \<Rightarrow> packed_writer \<Rightarrow> raw_record \<Rightarrow> packed_writer v6_result" where
  "push_record cs H hasher w r = bindE (hasher (rr_lsn r) (rr_hlc r) (rr_payload r))
     (\<lambda>h. packed_push cs H w (rr_lsn r) (rr_hlc r) (rr_payload r) h)"

definition packed_session :: "codecs \<Rightarrow> hash_fn \<Rightarrow> record_hasher \<Rightarrow> segment_init \<Rightarrow> pack_options \<Rightarrow> raw_record list
    \<Rightarrow> packed_writer v6_result" where
  "packed_session cs H hasher init opts rs = foldE (push_record cs H hasher) (packed_create init opts) rs"

lemma packed_session_append:
  "packed_session cs H hasher init opts (rs @ [r])
    = bindE (packed_session cs H hasher init opts rs) (\<lambda>w. push_record cs H hasher w r)"
proof -
  have "bindE m Inr = m" for m :: "packed_writer v6_result" by (cases m) auto
  then show ?thesis by (simp add: packed_session_def foldE_append)
qed

definition totals_after :: "hash_fn \<Rightarrow> raw_record list \<Rightarrow> bytes list \<Rightarrow> packed_writer \<Rightarrow> bool" where
  "totals_after H rs hashes w \<longleftrightarrow> pw_record_count w = word_of_nat (length rs)
     \<and> pw_acc w = foldl (push_record_hash H) merkle_new hashes
     \<and> pw_min_lsn w = foldl min (-1) (map rr_lsn rs) \<and> pw_max_lsn w = foldl max 0 (map rr_lsn rs)
     \<and> pw_min_hlc w = foldl min (-1) (map rr_hlc rs) \<and> pw_max_hlc w = foldl max 0 (map rr_hlc rs)"

lemma packed_header_ok: "init_ok i \<Longrightarrow> header_ok (packed_header i)"
  by (simp add: init_ok_def header_ok_def packed_header_def)

lemma push_inv:
  assumes inv: "packed_inv cs (packed_header init) opts w bs chunks" and ok: "init_ok init"
    and tot: "totals_after H rs hashes w"
    and push: "packed_push cs H w (rr_lsn r) (rr_hlc r) (rr_payload r) h = Inr w'"
  shows "\<exists>bs' chunks'. packed_inv cs (packed_header init) opts w' bs' chunks' \<and> totals_after H (rs @ [r]) (hashes @ [h]) w'
    \<and> concat chunks' @ bu_records (pw_builder w')
      = concat chunks @ bu_records (pw_builder w) @ [block_record_of r]"
proof -
  note hdr = packed_header_ok [OF ok]
  obtain v where v: "(if would_overflow (pw_builder w) (length (rr_payload r)) then flush_block cs w else Inr w) = Inr v"
    using push by (auto simp: packed_push_def bindE_eq_Inr)
  obtain bs1 ch1 where i1: "packed_inv cs (packed_header init) opts v bs1 ch1" "same_totals v w"
    "concat ch1 @ bu_records (pw_builder v) = concat chunks @ bu_records (pw_builder w)"
    "\<not> would_overflow (pw_builder v) (length (rr_payload r))"
  proof (cases "would_overflow (pw_builder w) (length (rr_payload r))")
    case True
    then obtain bs' ch' where "packed_inv cs (packed_header init) opts v bs' ch'" "same_totals v w"
      "concat ch' = concat chunks @ bu_records (pw_builder w)" "bu_records (pw_builder v) = []"
      using flush_inv [OF inv hdr, of v] v by auto
    then show thesis by (intro that) (auto simp: would_overflow_def)
  next
    case False
    then show thesis using v inv by (intro that [of bs chunks]) (auto simp: same_totals_def)
  qed
  let ?u = "v\<lparr>pw_contiguous := pw_contiguous v \<and> rr_lsn r = pw_next_expected_lsn v,
       pw_next_expected_lsn := saturating_add (rr_lsn r) 1,
       pw_any_non_monotonic_hlc := pw_any_non_monotonic_hlc v \<or> pw_record_count v > 0 \<and> rr_hlc r < pw_max_hlc v,
       pw_min_lsn := min (pw_min_lsn v) (rr_lsn r), pw_max_lsn := max (pw_max_lsn v) (rr_lsn r),
       pw_min_hlc := min (pw_min_hlc v) (rr_hlc r), pw_max_hlc := max (pw_max_hlc v) (rr_hlc r),
       pw_record_count := pw_record_count v + 1,
       pw_acc := push_record_hash H (pw_acc v) h,
       pw_builder := builder_push (pw_builder v) (rr_lsn r) (rr_hlc r) (rr_payload r)\<rparr>"
  have w': "(if po_block_target_bytes (pw_opts ?u) \<le> bu_approx_uncompressed (pw_builder ?u) then flush_block cs ?u else Inr ?u) = Inr w'"
    using push v by (simp add: packed_push_def Let_def)
  have iu: "packed_inv cs (packed_header init) opts ?u bs1 ch1"
    using i1(1) builder_push_ok [OF _ i1(4)] by (simp add: packed_inv_def) (simp add: builder_push_def)
  have tu: "totals_after H (rs @ [r]) (hashes @ [h]) ?u"
    using tot i1(2) by (simp add: totals_after_def same_totals_def)
  have ru: "bu_records (pw_builder ?u) = bu_records (pw_builder v) @ [block_record_of r]"
    by (simp add: builder_push_def block_record_of_def)
  show ?thesis
  proof (cases "po_block_target_bytes (pw_opts ?u) \<le> bu_approx_uncompressed (pw_builder ?u)")
    case True
    then have "flush_block cs ?u = Inr w'" using w' by (simp only: if_True)
    from flush_inv [OF iu hdr this] obtain bs' ch' where f: "packed_inv cs (packed_header init) opts w' bs' ch'"
      "concat ch' = concat ch1 @ bu_records (pw_builder ?u)" "bu_records (pw_builder w') = []" "same_totals w' ?u"
      by blast
    have "totals_after H (rs @ [r]) (hashes @ [h]) w'"
      using tu f(4) by (simp only: totals_after_def same_totals_def)
    moreover have "concat ch' @ bu_records (pw_builder w') = concat chunks @ bu_records (pw_builder w) @ [block_record_of r]"
      using f(2,3) i1(3) unfolding ru by simp
    ultimately show ?thesis using f(1) by blast
  next
    case False
    then have "?u = w'" using w' by (simp only: if_False sum.inject)
    moreover have "concat ch1 @ bu_records (pw_builder ?u) = concat chunks @ bu_records (pw_builder w) @ [block_record_of r]"
      using i1(3) unfolding ru by simp
    ultimately show ?thesis using iu tu by metis
  qed
qed

lemma packed_session_inv:
  assumes "packed_session cs H hasher init opts rs = Inr w" and "init_ok init"
  shows "\<exists>bs chunks hashes. packed_inv cs (packed_header init) opts w bs chunks \<and> totals_after H rs hashes w
    \<and> mapE (\<lambda>r. hasher (rr_lsn r) (rr_hlc r) (rr_payload r)) rs = Inr hashes
    \<and> concat chunks @ bu_records (pw_builder w) = map block_record_of rs"
  using assms(1)
proof (induction rs arbitrary: w rule: rev_induct)
  case Nil
  then have w: "w = packed_create init opts" by (simp add: packed_session_def)
  have "packed_inv cs (packed_header init) opts w [] []"
    using builder_new_ok length_header_encode [OF packed_header_ok [OF assms(2)]]
    by (simp add: w packed_inv_def packed_create_def FILE_HEADER_LEN_def) (simp add: builder_new_def)
  then show ?case
    by (intro exI [of _ "[]"]) (simp add: w totals_after_def packed_create_def builder_new_def)
next
  case (snoc r rs)
  obtain u h where u: "packed_session cs H hasher init opts rs = Inr u"
    and h: "hasher (rr_lsn r) (rr_hlc r) (rr_payload r) = Inr h"
    and push: "packed_push cs H u (rr_lsn r) (rr_hlc r) (rr_payload r) h = Inr w"
    using snoc.prems by (auto simp: packed_session_append push_record_def bindE_eq_Inr)
  from snoc.IH [OF u] obtain bs chunks hashes where inv: "packed_inv cs (packed_header init) opts u bs chunks"
    "totals_after H rs hashes u" "mapE (\<lambda>r. hasher (rr_lsn r) (rr_hlc r) (rr_payload r)) rs = Inr hashes"
    "concat chunks @ bu_records (pw_builder u) = map block_record_of rs" by blast
  from push_inv [OF inv(1) assms(2) inv(2) push] obtain bs' chunks' where
    "packed_inv cs (packed_header init) opts w bs' chunks'" "totals_after H (rs @ [r]) (hashes @ [h]) w"
    "concat chunks' @ bu_records (pw_builder w) = map block_record_of (rs @ [r])" using inv(4) by auto
  moreover have "mapE (\<lambda>r. hasher (rr_lsn r) (rr_hlc r) (rr_payload r)) (rs @ [r]) = Inr (hashes @ [h])"
    using inv(3) h by (simp add: mapE_append)
  ultimately show ?case by blast
qed

lemma foldl_min_max:
  fixes xs :: "u64 list"
  assumes "xs \<noteq> []"
  shows "foldl min (-1) xs = Min (set xs)" and "foldl max 0 xs = Max (set xs)"
proof -
  have "xs \<noteq> [] \<longrightarrow> foldl min (-1) xs = Min (set xs) \<and> foldl max 0 xs = Max (set xs)"
  proof (induction xs rule: rev_induct)
    case (snoc x xs)
    then show ?case
      by (cases "xs = []") (auto simp: min_absorb2 max_absorb2 Min_insert Max_insert min.commute max.commute)
  qed simp
  then show "foldl min (-1) xs = Min (set xs)" and "foldl max 0 xs = Max (set xs)" using assms by simp_all
qed

end
