(* ===== verification/V6_Packed_Correct.thy ===== *)
theory V6_Packed_Correct
  imports V6_Packed_Writer
begin

text \<open>
  The PACKED segment of \<open>heraclitus-log/src/v6/packed.rs\<close> is a faithful store of its records. The reader's
  lemmas are proved once in the locale \<open>byte_source\<close>, the contract of the trait \<open>BlockSource\<close>, which is
  interpreted for the memory source and for the file source.
\<close>

section \<open>The finished file\<close>

definition packed_layout :: "codecs \<Rightarrow> pack_options \<Rightarrow> file_header \<Rightarrow> built_block list \<Rightarrow> block_record list list
    \<Rightarrow> footer \<Rightarrow> bytes \<Rightarrow> bool" where
  "packed_layout cs opts hdr bs chunks f content \<longleftrightarrow> list_all2 (built_from cs opts) bs chunks \<and> header_ok hdr
     \<and> content = header_encode hdr @ concat (map built_bytes bs) @ directory_encode (entries_at 64 bs) @ footer_encode f
     \<and> ft_block_count f = word_of_nat (length bs)
     \<and> ft_block_directory_offset f = word_of_nat (64 + sum_list (map built_total_len bs))
     \<and> ft_block_directory_len f = word_of_nat (56 * length bs)
     \<and> ft_record_count f = word_of_nat (length (concat chunks))
     \<and> footer_ok f \<and> footer_check_coherence f = Inr ()
     \<and> increasing_lsns (concat chunks)
     \<and> (\<forall>b \<in> set bs. unat (bh_uncompressed_len (bb_header b)) \<le> HARD_MAX_BLOCK_BYTES)
     \<and> length bs \<le> 2 ^ 24 \<and> length content < usize_limit"

lemma chunks_nonempty: "list_all2 (built_from cs opts) bs chunks \<Longrightarrow> ch \<in> set chunks \<Longrightarrow> ch \<noteq> []"
  by (auto simp: list_all2_conv_all_nth built_from_def chunk_ok_def in_set_conv_nth)

lemma length_chunks: "list_all2 (built_from cs opts) bs chunks \<Longrightarrow> length bs \<le> length (concat chunks)"
proof (induction rule: list_all2_induct)
  case (Cons b bs ch chunks)
  then show ?case by (cases ch) (auto simp: built_from_def chunk_ok_def)
qed simp

lemma increasing_lsns_append:
  "increasing_lsns (xs @ ys) \<longleftrightarrow> increasing_lsns xs \<and> increasing_lsns ys
    \<and> (\<forall>x \<in> set xs. \<forall>y \<in> set ys. br_lsn x < br_lsn y)"
  by (auto simp: increasing_lsns_def sorted_wrt_append)

lemma increasing_chunk: "increasing_lsns (concat chunks) \<Longrightarrow> ch \<in> set chunks \<Longrightarrow> increasing_lsns ch"
  by (induction chunks) (auto simp: increasing_lsns_append)

lemma chunks_ordered:
  assumes "increasing_lsns (concat chunks)" "i < j" "j < length chunks" "x \<in> set (chunks ! i)" "y \<in> set (chunks ! j)"
  shows "br_lsn x < br_lsn y"
  using assms
proof (induction chunks arbitrary: i j)
  case (Cons ch chunks)
  then show ?case
    by (cases i; cases j) (auto simp: increasing_lsns_append dest: nth_mem)
qed simp

text \<open>One entry and one block of the file.\<close>

lemma nth_entries_at:
  "i < length bs \<Longrightarrow> entries_at at bs ! i
    = to_directory_entry (bb_header (bs ! i)) (word_of_nat (at + sum_list (map built_total_len (take i bs))))"
proof (induction bs arbitrary: at i)
  case (Cons b bs)
  then show ?case by (cases i) (auto simp: add.assoc)
qed simp

lemma entry_fields:
  assumes "built_from cs opts b ch" and "increasing_lsns ch"
  shows "bd_first_lsn (to_directory_entry (bb_header b) at) = br_lsn (hd ch)"
    and "bd_last_lsn (to_directory_entry (bb_header b) at) = br_lsn (last ch)"
    and "unat (bd_record_count (to_directory_entry (bb_header b) at)) = length ch"
    and "unat (bd_stored_len (to_directory_entry (bb_header b) at)) = length (bb_stored b)"
    and "br_lsn (hd ch) \<le> br_lsn (last ch)" and "0 < bd_record_count (to_directory_entry (bb_header b) at)"
proof -
  have bb: "build_block cs ch (max (po_restart_interval opts) 1) (po_profile opts) (po_raw_fallback_ratio opts) = Inr b"
    and ne: "ch \<noteq> []"
    using assms(1) by (auto simp: built_from_def chunk_ok_def)
  note f = build_block_Inr [OF bb] and n = built_counts [OF bb]
  show "bd_first_lsn (to_directory_entry (bb_header b) at) = br_lsn (hd ch)"
    and "bd_last_lsn (to_directory_entry (bb_header b) at) = br_lsn (last ch)"
    and cnt: "unat (bd_record_count (to_directory_entry (bb_header b) at)) = length ch"
    and "unat (bd_stored_len (to_directory_entry (bb_header b) at)) = length (bb_stored b)"
    using f(13,14) n(1,4) by (simp_all add: to_directory_entry_def)
  show "br_lsn (hd ch) \<le> br_lsn (last ch)"
    using increasing_bounds(1) [OF assms(2), of "length ch - 1"] ne by (simp add: last_conv_nth)
  show "0 < bd_record_count (to_directory_entry (bb_header b) at)"
    using cnt ne by (simp add: word_less_nat_alt)
qed

lemma entries_valid:
  assumes "list_all2 (built_from cs opts) bs chunks"
    and "increasing_lsns (concat chunks)" and "\<forall>b \<in> set bs. unat (bh_uncompressed_len (bb_header b)) \<le> HARD_MAX_BLOCK_BYTES"
    and "at + sum_list (map built_total_len bs) \<le> unat (region :: u64)" and "prev \<le> at"
  shows "directory_valid_from prev region (entries_at at bs)"
  using assms
proof (induction arbitrary: at prev rule: list_all2_induct)
  case (Cons b bs ch chunks)
  have inc: "increasing_lsns ch" using Cons.prems(1) by (simp add: increasing_lsns_append)
  note e = entry_fields [OF Cons.hyps(1) inc]
  have at: "unat (word_of_nat at :: u64) = at"
    using Cons.prems(3) unat_lt_u64 [of region] by (simp add: unsigned_of_nat take_bit_nat_eq_self)
  have "directory_valid_from (at + length (bb_stored b)) region (entries_at (at + built_total_len b) bs)"
    using Cons.prems by (intro Cons.IH) (auto simp: increasing_lsns_append built_total_len_def)
  then show ?case
    using Cons.prems at e
    by (simp add: built_total_len_def) (simp add: to_directory_entry_def)
qed simp

lemma entries_windows:
  assumes "list_all2 (built_from cs opts) bs chunks" and "increasing_lsns (concat chunks)"
  shows "directory_windows_ok (entries_at at bs)"
  using assms
proof (induction arbitrary: at rule: list_all2_induct)
  case (Cons b bs ch chunks)
  show ?case
  proof (cases bs)
    case (Cons b' bs')
    then obtain ch' chunks' where ch': "chunks = ch' # chunks'" "built_from cs opts b' ch'"
      using Cons.hyps(2) by (cases chunks) auto
    have inc: "increasing_lsns ch" "increasing_lsns ch'"
      using Cons.prems ch' by (simp_all add: increasing_lsns_append)
    have "br_lsn (hd ch) < br_lsn (hd ch')"
      using Cons.prems Cons.hyps(1) ch'
      by (auto simp: increasing_lsns_append built_from_def chunk_ok_def intro!: hd_in_set)
    then show ?thesis
      using Cons.IH [of "at + built_total_len b"] Cons.prems entry_fields(1) [OF Cons.hyps(1) inc(1)]
        entry_fields(1) [OF ch'(2) inc(2)] Cons
      by (auto simp: increasing_lsns_append)
  qed simp
qed simp

lemma entries_record_sum:
  assumes "list_all2 (built_from cs opts) bs chunks"
  shows "sum_list (map (\<lambda>e. ucast (bd_record_count e)) (entries_at at bs)) = (word_of_nat (length (concat chunks)) :: u64)"
  using assms
proof (induction arbitrary: at rule: list_all2_induct)
  case (Cons b bs ch chunks)
  have "unat (bh_record_count (bb_header b)) = length ch"
    using Cons.hyps(1) built_counts(1) by (auto simp: built_from_def)
  then have "(ucast (bh_record_count (bb_header b)) :: u64) = word_of_nat (length ch)"
    by (intro word_of_nat_unatI) simp
  then show ?case using Cons.IH by (simp add: to_directory_entry_def)
qed simp

lemma layout_parts:
  assumes "packed_layout cs opts hdr bs chunks f content"
  shows "list_all2 (built_from cs opts) bs chunks" and "length bs = length chunks"
    and "length (header_encode hdr) = 64"
    and "length (concat (map built_bytes bs)) = sum_list (map built_total_len bs)"
    and "length (footer_encode f) = 128"
    and "length content = 64 + sum_list (map built_total_len bs) + 56 * length bs + 128"
    and "unat (ft_block_directory_offset f) = 64 + sum_list (map built_total_len bs)"
    and "unat (ft_block_directory_len f) = 56 * length bs"
    and "unat (ft_block_count f) = length bs"
    and "increasing_lsns (concat chunks)"
proof -
  note l = assms [unfolded packed_layout_def]
  show all2: "list_all2 (built_from cs opts) bs chunks" and "increasing_lsns (concat chunks)" using l by simp_all
  then show "length bs = length chunks" by (simp add: list_all2_lengthD)
  show h: "length (header_encode hdr) = 64" using l length_header_encode by blast
  show b: "length (concat (map built_bytes bs)) = sum_list (map built_total_len bs)"
    using length_blocks [OF all2] .
  show fl: "length (footer_encode f) = 128" using l length_footer_encode by blast
  show len: "length content = 64 + sum_list (map built_total_len bs) + 56 * length bs + 128"
    using l h b fl by (simp add: length_directory_encode)
  have "length content < usize_limit" using l by blast
  then have lim: "64 + sum_list (map built_total_len bs) < 2 ^ 64" "56 * length bs < 2 ^ 64"
    using len by (simp_all add: usize_limit_def)
  have "ft_block_directory_offset f = word_of_nat (64 + sum_list (map built_total_len bs))"
    and "ft_block_directory_len f = word_of_nat (56 * length bs)"
    using l by blast+
  then show "unat (ft_block_directory_offset f) = 64 + sum_list (map built_total_len bs)"
    and "unat (ft_block_directory_len f) = 56 * length bs"
    using lim by (simp_all only: unsigned_of_nat take_bit_nat_eq_self) (simp_all add: take_bit_nat_eq_self)
  show "unat (ft_block_count f) = length bs"
    using l by (simp add: unsigned_of_nat take_bit_nat_eq_self)
qed

text \<open>Block \<open>i\<close> in the file.\<close>

lemma block_in_file:
  assumes l: "packed_layout cs opts hdr bs chunks f content" and i: "i < length bs"
  shows "\<exists>pre post. content = pre @ built_bytes (bs ! i) @ post
    \<and> length pre = 64 + sum_list (map built_total_len (take i bs))
    \<and> length (built_bytes (bs ! i)) = 64 + length (bb_stored (bs ! i))"
proof -
  note p = layout_parts [OF l]
  have bf: "built_from cs opts (bs ! i) (chunks ! i)" using p(1) i by (simp add: list_all2_conv_all_nth)
  have tk: "list_all2 (built_from cs opts) (take i bs) (take i chunks)" using p(1) by (simp add: list_all2_takeI)
  have "concat (map built_bytes bs) = concat (map built_bytes (take i bs)) @ built_bytes (bs ! i) @ concat (map built_bytes (drop (Suc i) bs))"
    using i by (subst id_take_nth_drop [OF i]) simp
  then have "content = (header_encode hdr @ concat (map built_bytes (take i bs))) @ built_bytes (bs ! i)
      @ (concat (map built_bytes (drop (Suc i) bs)) @ directory_encode (entries_at 64 bs) @ footer_encode f)"
    using l by (simp add: packed_layout_def)
  then show ?thesis
    using p(3) length_blocks [OF tk] built_total_len_bytes [OF bf]
    by (intro exI conjI) (assumption, simp_all add: built_total_len_def BLOCK_HEADER_LEN_def)
qed

lemma entries_disjoint:
  assumes l: "packed_layout cs opts hdr bs chunks f content"
  shows "disjoint_ranges bd_first_lsn bd_last_lsn (\<lambda>e. bd_record_count e > 0) (entries_at 64 bs)"
proof -
  note p = layout_parts [OF l]
  have e: "bd_first_lsn (entries_at 64 bs ! i) = br_lsn (hd (chunks ! i))"
    "bd_last_lsn (entries_at 64 bs ! i) = br_lsn (last (chunks ! i))"
    "br_lsn (hd (chunks ! i)) \<le> br_lsn (last (chunks ! i))" "0 < bd_record_count (entries_at 64 bs ! i)"
    "chunks ! i \<noteq> []" if "i < length bs" for i
  proof -
    have bf: "built_from cs opts (bs ! i) (chunks ! i)" using p(1) that by (simp add: list_all2_conv_all_nth)
    have "increasing_lsns (chunks ! i)" using increasing_chunk [OF p(10)] p(2) that by simp
    from entry_fields [OF bf this] bf that
    show "bd_first_lsn (entries_at 64 bs ! i) = br_lsn (hd (chunks ! i))"
      "bd_last_lsn (entries_at 64 bs ! i) = br_lsn (last (chunks ! i))"
      "br_lsn (hd (chunks ! i)) \<le> br_lsn (last (chunks ! i))" "0 < bd_record_count (entries_at 64 bs ! i)"
      "chunks ! i \<noteq> []"
      by (simp_all add: nth_entries_at built_from_def chunk_ok_def)
  qed
  have "bd_last_lsn (entries_at 64 bs ! i) < bd_first_lsn (entries_at 64 bs ! j)" if "i < j" "j < length bs" for i j
    using chunks_ordered [OF p(10) that(1)] e [of i] e [of j] p(2) that by simp
  then show ?thesis using e by (simp add: disjoint_ranges_def)
qed

section \<open>Reading through a byte source\<close>

locale byte_source =
  fixes src :: "bytes \<Rightarrow> block_source"
  assumes source_len_eq: "length content < usize_limit \<Longrightarrow> unat (source_len (src content)) = length content"
    and read_within: "length content < usize_limit \<Longrightarrow> unat offset + n \<le> length content
      \<Longrightarrow> read_at (src content) offset n = Inr (take n (drop (unat offset) content))"
begin

definition reader_on :: "bytes \<Rightarrow> file_header \<Rightarrow> footer \<Rightarrow> built_block list \<Rightarrow> nat \<Rightarrow> packed_reader" where
  "reader_on content hdr f bs max_block = \<lparr>pr_source = src content, pr_header = hdr, pr_footer = f,
     pr_directory = entries_at 64 bs, pr_max_block_bytes = max_block\<rparr>"

lemma open_layout:
  assumes l: "packed_layout cs opts hdr bs chunks f content" and "fh_physical_layout hdr = Layout_Packed"
  shows "packed_open (src content) max_block = Inr (reader_on content hdr f bs max_block)"
proof -
  note p = layout_parts [OF l] and d = l [unfolded packed_layout_def]
  have size: "length content < usize_limit" using d by blast
  have ulen: "unat (source_len (src content)) = length content" by (rule source_len_eq [OF size])
  have small: "\<not> source_len (src content) < 192" using ulen p(6) by (simp add: word_less_nat_alt)
  have uend: "unat (source_len (src content) - 128) = length content - 128"
    using ulen p(6) by (simp add: unat_sub_u64 word_le_nat_alt)
  have hb: "read_at (src content) 0 64 = Inr (header_encode hdr)"
    using read_within [OF size, of 0 64] p(3,6) d by simp
  have fb: "read_at (src content) (source_len (src content) - 128) 128 = Inr (footer_encode f)"
    using read_within [OF size, of "source_len (src content) - 128" 128] p(3-6) d uend
    by (simp add: length_directory_encode)
  have db: "read_at (src content) (ft_block_directory_offset f) (56 * length bs) = Inr (directory_encode (entries_at 64 bs))"
    using read_within [OF size, of "ft_block_directory_offset f" "56 * length bs"] p(3-7) d
    by (simp add: length_directory_encode)
  have hd: "header_decode (header_encode hdr) = Inr hdr"
    using header_decode_encode [of hdr "[]"] d by simp
  have fd: "footer_decode (footer_encode f) = Inr f"
    using footer_decode_encode [of f "[]"] d by simp
  have "directory_valid_from 0 (ft_block_directory_offset f) (entries_at 64 bs)"
    using entries_valid [OF p(1,10), of 64 "ft_block_directory_offset f" 0] p(7) d by simp
  then obtain prev where "foldE (directory_step (ft_block_directory_offset f)) (0, []) (entries_at 64 bs)
      = Inr (prev, entries_at 64 bs)"
    using foldE_directory_step_ok [of 0 "ft_block_directory_offset f" "entries_at 64 bs" "[]"] by auto
  then have dd: "directory_decode (directory_encode (entries_at 64 bs)) (ft_block_count f) (ft_block_directory_offset f)
      = Inr (entries_at 64 bs)"
    using directory_decode_encode_eq [of "entries_at 64 bs" "[]" "ft_block_directory_offset f"] d
      entries_windows [OF p(1,10), of 64] by simp
  have "unat (ft_block_directory_offset f) + unat (ft_block_directory_len f) < 18446744073709551616"
    using p(6-8) size by (simp add: usize_limit_def)
  then obtain dir_end where de: "checked_add (ft_block_directory_offset f) (ft_block_directory_len f) = Some dir_end"
    by (simp add: checked_add_def)
  then have "unat dir_end = length content - 128" using p(6-8) by (simp add: checked_add_Some)
  then have "\<not> source_len (src content) - 128 < dir_end" using uend by (simp add: word_less_nat_alt)
  then show ?thesis
    using small hb hd assms(2) fb fd de p(8,9) db dd entries_record_sum [OF p(1), of 64] d
    by (simp add: packed_open_def Let_def FILE_HEADER_LEN_def FOOTER_LEN_def DIR_ENTRY_LEN_def reader_on_def mult.commute)
qed

lemma read_block_layout:
  assumes l: "packed_layout cs opts hdr bs chunks f content" and i: "i < length bs"
    and "codecs_lossless cs" and "HARD_MAX_BLOCK_BYTES \<le> max_block"
  shows "\<exists>h body c'. read_block cs (reader_on content hdr f bs max_block) i c = (Inr (h, body), c')
    \<and> describes h body (chunks ! i) \<and> length body < 2 ^ 32
    \<and> c' = c\<lparr>sc_blocks_read := sc_blocks_read c + 1,
        sc_bytes_physical_read := sc_bytes_physical_read c + word_of_nat (64 + length (bb_stored (bs ! i))),
        sc_bytes_decompressed := sc_bytes_decompressed c + word_of_nat (length body)\<rparr>"
proof -
  let ?b = "bs ! i" and ?ch = "chunks ! i"
  note p = layout_parts [OF l] and d = l [unfolded packed_layout_def]
  have size: "length content < usize_limit" using d by blast
  obtain pre post where content: "content = pre @ built_bytes ?b @ post"
    and pre: "length pre = 64 + sum_list (map built_total_len (take i bs))"
    and blen: "length (built_bytes ?b) = 64 + length (bb_stored ?b)"
    using block_in_file [OF l i] by blast
  have bf: "built_from cs opts ?b ?ch" using p(1) i by (simp add: list_all2_conv_all_nth)
  then have bb: "build_block cs ?ch (max (po_restart_interval opts) 1) (po_profile opts) (po_raw_fallback_ratio opts) = Inr ?b"
    by (simp add: built_from_def)
  have inc: "increasing_lsns ?ch" using increasing_chunk [OF p(10)] p(2) i by simp
  have un: "unat (bh_uncompressed_len (bb_header ?b)) \<le> HARD_MAX_BLOCK_BYTES" using d i by simp
  let ?e = "entries_at 64 bs ! i"
  have e: "?e = to_directory_entry (bb_header ?b) (word_of_nat (length pre))" using i pre by (simp add: nth_entries_at)
  have off: "unat (bd_offset ?e) = length pre"
    using size content by (simp add: e to_directory_entry_def unsigned_of_nat take_bit_nat_eq_self usize_limit_def)
  have st: "unat (bd_stored_len ?e) = length (bb_stored ?b)" using entry_fields(4) [OF bf inc] by (simp add: e)
  have rd: "read_at (src content) (bd_offset ?e) (64 + unat (bd_stored_len ?e)) = Inr (built_bytes ?b)"
    using read_within [OF size, of "bd_offset ?e" "64 + unat (bd_stored_len ?e)"] off st blen content by simp
  have hl: "length (bb_header_bytes ?b) = 64"
    using blen by (simp add: built_bytes_def)
  have dec: "block_header_decode (bb_header_bytes ?b) (bb_stored ?b) = Inr (bb_header ?b)"
    using block_header_decode_encode [OF built_coherent [OF bb inc un]] block_flags_cases(1) build_block_Inr(6,7) [OF bb]
    by simp
  have "length (body_of (bb_header ?b) ?ch) \<le> HARD_MAX_BLOCK_BYTES" using un built_counts(3) [OF bb] by simp
  then have dc: "decompress_body cs (bb_header ?b) (bb_stored ?b) max_block = Inr (body_of (bb_header ?b) ?ch)"
    using decompress_compress [OF assms(3) build_block_Inr(3) [OF bb], of max_block] built_counts(3) [OF bb] assms(4)
    by (simp add: decompress_body_def)
  have agree: "bh_first_lsn (bb_header ?b) = bd_first_lsn ?e" "bh_last_lsn (bb_header ?b) = bd_last_lsn ?e"
    "bh_record_count (bb_header ?b) = bd_record_count ?e" "bh_uncompressed_len (bb_header ?b) = bd_uncompressed_len ?e"
    by (simp_all add: e to_directory_entry_def)
  show ?thesis
    using i rd hl dec dc agree st built_describes [OF bb inc] build_block_Inr(2) [OF bb]
    by (simp add: read_block_def reader_on_def Let_def BLOCK_HEADER_LEN_def built_bytes_def)
qed

end

interpretation memory_source: byte_source MemorySource
  by unfold_locales (auto simp: usize_limit_def unsigned_of_nat take_bit_nat_eq_self)

interpretation file_source: byte_source file_source_open
proof unfold_locales
  fix content :: bytes and offset :: u64 and n
  assume size: "length content < usize_limit"
  show "unat (source_len (file_source_open content)) = length content"
    using size by (simp add: file_source_open_def usize_limit_def unsigned_of_nat take_bit_nat_eq_self)
  assume "unat offset + n \<le> length content"
  moreover from this have "unat (word_of_nat n :: u64) = n"
    using size by (simp add: usize_limit_def unsigned_of_nat take_bit_nat_eq_self)
  moreover have "unat (word_of_nat (length content) :: u64) = length content"
    using size by (simp add: usize_limit_def unsigned_of_nat take_bit_nat_eq_self)
  ultimately show "read_at (file_source_open content) offset n = Inr (take n (drop (unat offset) content))"
    using size by (simp add: file_source_open_def Let_def word_less_nat_alt unat_saturating_add usize_limit_def)
qed

end
