(* ===== verification/V6_Packed_Store.thy ===== *)
theory V6_Packed_Store
  imports V6_Packed_Correct
begin

text \<open>
  End-to-end theorems of the PACKED segment (\<open>heraclitus-log/src/v6/packed.rs\<close>): from the records pushed
  into the writer to the answers of the reader on the finished file.
\<close>

section \<open>Answers of the reader\<close>

lemma chunk_record_bounds:
  assumes "increasing_lsns ch" and "r \<in> set ch"
  shows "br_lsn (hd ch) \<le> br_lsn r" and "br_lsn r \<le> br_lsn (last ch)"
proof -
  obtain i where "i < length ch" "r = ch ! i" using assms(2) unfolding in_set_conv_nth by blast
  then show "br_lsn (hd ch) \<le> br_lsn r" and "br_lsn r \<le> br_lsn (last ch)"
    using increasing_bounds [OF assms(1)] by simp_all
qed

lemma find_append: "find p (xs @ ys) = (case find p xs of Some x \<Rightarrow> Some x | None \<Rightarrow> find p ys)"
  by (induction xs) auto

lemma find_concat_unique:
  "i < length chunks \<Longrightarrow> (\<And>j r. j < length chunks \<Longrightarrow> j \<noteq> i \<Longrightarrow> r \<in> set (chunks ! j) \<Longrightarrow> \<not> p r)
    \<Longrightarrow> find p (concat chunks) = find p (chunks ! i)"
proof (induction chunks arbitrary: i)
  case (Cons ch chunks)
  show ?case
  proof (cases i)
    case 0
    have "\<not> p r" if "r \<in> set (concat chunks)" for r
    proof -
      obtain c where "c \<in> set chunks" "r \<in> set c" using \<open>r \<in> set (concat chunks)\<close> by auto
      then obtain j where "j < length chunks" "r \<in> set (chunks ! j)" unfolding in_set_conv_nth [of c] by blast
      then show ?thesis using Cons.prems(2) [of "Suc j" r] 0 by simp
    qed
    then have "find p (concat chunks) = None" unfolding List.find_None_iff by blast
    then show ?thesis using 0 by (simp add: find_append split: option.splits)
  next
    case (Suc k)
    have "\<not> p r" if "r \<in> set ch" for r using Cons.prems(2) [of 0 r] that Suc by simp
    then have "find p ch = None" unfolding List.find_None_iff by blast
    moreover have "find p (concat chunks) = find p (chunks ! k)"
      using Cons.prems Suc by (intro Cons.IH) force+
    ultimately show ?thesis using Suc by (simp add: find_append)
  qed
qed simp

lemma enumerate_filter:
  "map fst (filter (\<lambda>(i, e). p e) (enumerate 0 es)) = filter (\<lambda>i. p (es ! i)) [0..<length es]"
proof (induction es rule: rev_induct)
  case (snoc e es)
  have "filter (\<lambda>i. p ((es @ [e]) ! i)) [0..<length es] = filter (\<lambda>i. p (es ! i)) [0..<length es]"
    by (rule filter_cong) (auto simp: nth_append)
  then show ?case using snoc by (simp add: enumerate_append_eq)
qed simp

lemma concat_filter_irrelevant:
  "(\<And>i. i \<in> set idx \<Longrightarrow> \<not> p i \<Longrightarrow> g i = []) \<Longrightarrow> concat (map g (filter p idx)) = concat (map g idx)"
  by (induction idx) auto

lemma foldE_collect:
  "foldE (\<lambda>out x. Inr (if p x then out @ [f x] else out)) out xs = (Inr (out @ map f (filter p xs)) :: 'b list v6_result)"
  by (induction xs arbitrary: out) auto

definition triple_of :: "block_record \<Rightarrow> lsn \<times> u64 \<times> bytes" where
  "triple_of x = (br_lsn x, br_hlc x, br_payload x)"

lemma triple_of_eq: "triple_of = (\<lambda>x. (br_lsn x, br_hlc x, br_payload x))"
  by (simp add: fun_eq_iff triple_of_def)

lemma blocks_read_once: "read_block cs r i c = (res, c') \<Longrightarrow> sc_blocks_read c' \<in> {sc_blocks_read c, sc_blocks_read c + 1}"
  by (auto simp: read_block_def Let_def split: if_splits sum.splits)

context byte_source begin

lemma get_layout:
  assumes l: "packed_layout cs opts hdr bs chunks f content"
    and "codecs_lossless cs" and "HARD_MAX_BLOCK_BYTES \<le> max_block"
  shows "fst (packed_get cs (reader_on content hdr f bs max_block) k c)
    = Inr (map_option (\<lambda>x. (br_hlc x, br_payload x)) (find (\<lambda>r. br_lsn r = k) (concat chunks)))"
proof -
  let ?r = "reader_on content hdr f bs max_block" and ?es = "entries_at 64 bs"
  note p = layout_parts [OF l] and dis = entries_disjoint [OF l]
  have dir: "pr_directory ?r = ?es" by (simp add: reader_on_def)
  have rng: "bd_first_lsn (?es ! i) = br_lsn (hd (chunks ! i))" "bd_last_lsn (?es ! i) = br_lsn (last (chunks ! i))"
    "increasing_lsns (chunks ! i)" if "i < length bs" for i
  proof -
    have bf: "built_from cs opts (bs ! i) (chunks ! i)" using p(1) that by (simp add: list_all2_conv_all_nth)
    show inc: "increasing_lsns (chunks ! i)" using increasing_chunk [OF p(10)] p(2) that by simp
    show "bd_first_lsn (?es ! i) = br_lsn (hd (chunks ! i))" "bd_last_lsn (?es ! i) = br_lsn (last (chunks ! i))"
      using entry_fields [OF bf inc] that by (simp_all add: nth_entries_at)
  qed
  have inside: "bd_first_lsn (?es ! i) \<le> k \<and> k \<le> bd_last_lsn (?es ! i)"
    if "i < length bs" "r \<in> set (chunks ! i)" "br_lsn r = k" for i r
    using chunk_record_bounds [OF rng(3) [OF that(1)] that(2)] rng(1,2) [OF that(1)] that(3) by simp
  show ?thesis
  proof (cases "find_block_for_lsn ?es k")
    case None
    then have none: "\<forall>i < length ?es. \<not> (bd_first_lsn (?es ! i) \<le> k \<and> k \<le> bd_last_lsn (?es ! i))"
      using block_index.find_None_iff [OF dis, of k] by simp
    have "br_lsn r \<noteq> k" if "r \<in> set (concat chunks)" for r
    proof -
      obtain ch where "ch \<in> set chunks" "r \<in> set ch" using \<open>r \<in> set (concat chunks)\<close> by auto
      then obtain i where "i < length chunks" "r \<in> set (chunks ! i)" unfolding in_set_conv_nth [of ch] by blast
      then show ?thesis using inside [of i r] none p(2) by auto
    qed
    then have "find (\<lambda>r. br_lsn r = k) (concat chunks) = None" unfolding List.find_None_iff by blast
    then show ?thesis using None by (simp add: packed_get_def Let_def dir)
  next
    case (Some i)
    then have i: "i < length bs" and ik: "bd_first_lsn (?es ! i) \<le> k" "k \<le> bd_last_lsn (?es ! i)"
      using block_index.find_Some_iff [OF dis, of k i] by auto
    have other: "br_lsn r \<noteq> k" if "j < length chunks" "j \<noteq> i" "r \<in> set (chunks ! j)" for j r
    proof
      assume "br_lsn r = k"
      then have "bd_first_lsn (?es ! j) \<le> k \<and> k \<le> bd_last_lsn (?es ! j)" using inside that p(2) by simp
      then have "find_block_for_lsn ?es k = Some j"
        using block_index.find_Some_iff [OF dis, of k j] that(1) p(2) by simp
      then show False using Some that(2) by simp
    qed
    then have fc: "find (\<lambda>r. br_lsn r = k) (concat chunks) = find (\<lambda>r. br_lsn r = k) (chunks ! i)"
      using find_concat_unique [of i chunks "\<lambda>r. br_lsn r = k"] i p(2) by simp
    obtain h body c' where rb: "read_block cs ?r i (c\<lparr>sc_blocks_candidate := sc_blocks_candidate c + word_of_nat (length bs),
        sc_blocks_pruned := sc_blocks_pruned c + (word_of_nat (length bs) - 1)\<rparr>) = (Inr (h, body), c')"
      and d: "describes h body (chunks ! i)" "length body < 2 ^ 32"
      using read_block_layout [OF l i assms(2,3)] by blast
    show ?thesis
      using Some rb find_record_describes [OF d rng(3) [OF i], of k]
      by (simp add: packed_get_def Let_def dir fc)
  qed
qed

lemma scan_blocks_layout:
  assumes l: "packed_layout cs opts hdr bs chunks f content"
    and "codecs_lossless cs" and "HARD_MAX_BLOCK_BYTES \<le> max_block" and "\<forall>i \<in> set idx. i < length bs"
  shows "fst (scan_blocks cs (reader_on content hdr f bs max_block) g idx c s)
    = foldE g s (concat (map (\<lambda>i. chunks ! i) idx))"
  using assms(4)
proof (induction idx arbitrary: c s)
  case (Cons i idx)
  then have "i < length bs" by simp
  from read_block_layout [OF l this assms(2,3)] obtain h body c' where
    rb: "read_block cs (reader_on content hdr f bs max_block) i c = (Inr (h, body), c')"
    and d: "describes h body (chunks ! i)" "length body < 2 ^ 32" by blast
  have "decode_block_records h body = Inr (chunks ! i)"
    using decode_block_describes [OF d(1)] d(2) by (simp add: usize_limit_def)
  then show ?case
    using rb Cons by (cases "foldE g s (chunks ! i)") (simp_all add: foldE_append)
qed simp

lemma scans_layout:
  assumes l: "packed_layout cs opts hdr bs chunks f content"
    and "codecs_lossless cs" and "HARD_MAX_BLOCK_BYTES \<le> max_block"
  shows "fst (scan_all cs (reader_on content hdr f bs max_block) c) = Inr (map triple_of (concat chunks))"
    and "fst (scan_lsn_range cs (reader_on content hdr f bs max_block) lo hi c)
      = Inr (map triple_of (filter (\<lambda>x. lo \<le> br_lsn x \<and> br_lsn x \<le> hi) (concat chunks)))"
proof -
  let ?r = "reader_on content hdr f bs max_block" and ?es = "entries_at 64 bs"
  let ?p = "\<lambda>x. lo \<le> br_lsn x \<and> br_lsn x \<le> hi" and ?cand = "\<lambda>i. entry_may_contain_lsn_range (?es ! i) lo hi"
  note p = layout_parts [OF l]
  have dir: "pr_directory ?r = ?es" by (simp add: reader_on_def)
  have all: "concat (map (\<lambda>i. chunks ! i) [0..<length bs]) = concat chunks"
    unfolding p(2) by (simp add: map_nth)
  show "fst (scan_all cs ?r c) = Inr (map triple_of (concat chunks))"
    using scan_blocks_layout [OF l assms(2,3), where idx = "[0..<length bs]" and s = "[]"
        and g = "\<lambda>out x. Inr (out @ [(br_lsn x, br_hlc x, br_payload x)])"]
      foldE_collect [of "\<lambda>_. True" triple_of "[]" "concat chunks"]
    by (simp add: scan_all_def dir all triple_of_eq)
  have cands: "blocks_for_lsn_range ?es lo hi = filter ?cand [0..<length bs]"
    by (simp add: blocks_for_lsn_range_def enumerate_filter)
  have skip: "filter ?p (chunks ! i) = []" if "i \<in> set [0..<length bs]" "\<not> ?cand i" for i
  proof -
    have i: "i < length bs" using that by simp
    have bf: "built_from cs opts (bs ! i) (chunks ! i)" using p(1) i by (simp add: list_all2_conv_all_nth)
    have inc: "increasing_lsns (chunks ! i)" using increasing_chunk [OF p(10)] p(2) i by simp
    have "br_lsn (last (chunks ! i)) < lo \<or> hi < br_lsn (hd (chunks ! i))"
      using that(2) entry_fields [OF bf inc] i
      by (simp add: entry_may_contain_lsn_range_def nth_entries_at not_le)
    then show ?thesis
      using chunk_record_bounds [OF inc] by (auto simp: filter_empty_conv) (meson leD order_trans)+
  qed
  have "filter ?p (concat (map (\<lambda>i. chunks ! i) (filter ?cand [0..<length bs])))
      = concat (map (\<lambda>i. filter ?p (chunks ! i)) (filter ?cand [0..<length bs]))"
    by (simp add: filter_concat comp_def)
  also have "\<dots> = concat (map (\<lambda>i. filter ?p (chunks ! i)) [0..<length bs])"
    using skip by (intro concat_filter_irrelevant)
  also have "\<dots> = filter ?p (concat (map (\<lambda>i. chunks ! i) [0..<length bs]))"
    by (simp add: filter_concat comp_def)
  finally show "fst (scan_lsn_range cs ?r lo hi c) = Inr (map triple_of (filter ?p (concat chunks)))"
    using scan_blocks_layout [OF l assms(2,3), where idx = "filter ?cand [0..<length bs]" and s = "[]"
        and g = "\<lambda>out x. Inr (if ?p x then out @ [(br_lsn x, br_hlc x, br_payload x)] else out)"]
      foldE_collect [of ?p triple_of "[]" "concat (map (\<lambda>i. chunks ! i) (filter ?cand [0..<length bs]))"]
    unfolding triple_of_eq by (simp add: scan_lsn_range_def Let_def dir cands all)
qed

end

section \<open>The writer produces such a file\<close>

lemma increasing_block_records: "increasing_lsns (map block_record_of rs) \<longleftrightarrow> increasing_raw rs"
  by (simp add: increasing_lsns_def increasing_raw_def comp_def block_record_of_def)

lemma packed_finish_layout:
  assumes s: "packed_session cs H hasher init opts rs = Inr w" and ok: "init_ok init" and "digest32 H"
    and inc: "increasing_raw rs" and pay: "\<forall>r \<in> set rs. length (rr_payload r) + 54 \<le> HARD_MAX_BLOCK_BYTES"
    and n: "length rs \<le> 2 ^ 24" and fin: "packed_finish cs H w = Inr (f, stats, content)"
    and size: "length content < usize_limit"
  shows "\<exists>bs chunks. packed_layout cs opts (packed_header init) bs chunks f content
    \<and> concat chunks = map block_record_of rs"
    and "\<exists>hashes. mapE (\<lambda>r. hasher (rr_lsn r) (rr_hlc r) (rr_payload r)) rs = Inr hashes
      \<and> ft_logical_root f = root_of_record_hashes H hashes"
proof -
  note hdr = packed_header_ok [OF ok]
  obtain bs0 chunks0 hashes where inv0: "packed_inv cs (packed_header init) opts w bs0 chunks0"
    and tot: "totals_after H rs hashes w" and hs: "mapE (\<lambda>r. hasher (rr_lsn r) (rr_hlc r) (rr_payload r)) rs = Inr hashes"
    and recs0: "concat chunks0 @ bu_records (pw_builder w) = map block_record_of rs"
    using packed_session_inv [OF s ok] by blast
  obtain v where v: "flush_block cs w = Inr v" using fin by (auto simp: packed_finish_def)
  obtain bs chunks where inv: "packed_inv cs (packed_header init) opts v bs chunks"
    and recs: "concat chunks = map block_record_of rs" and same: "same_totals v w"
    using flush_inv [OF inv0 hdr v] recs0 by auto
  have t: "totals_after H rs hashes v" using tot same by (simp add: totals_after_def same_totals_def)
  note i = inv [unfolded packed_inv_def] and tt = t [unfolded totals_after_def]
  have f: "ft_record_count f = pw_record_count v"
    "ft_min_lsn f = (if pw_record_count v = 0 then 0 else pw_min_lsn v)"
    "ft_max_lsn f = (if pw_record_count v = 0 then 0 else pw_max_lsn v)"
    "ft_min_hlc f = (if pw_record_count v = 0 then 0 else pw_min_hlc v)"
    "ft_max_hlc f = (if pw_record_count v = 0 then 0 else pw_max_hlc v)"
    "ft_block_count f = word_of_nat (length (pw_directory v))" "ft_block_directory_offset f = pw_offset v"
    "ft_block_directory_len f = word_of_nat (length (directory_encode (pw_directory v)))"
    "ft_logical_root f = merkle_finalize H (pw_acc v)"
    "content = pw_file v @ directory_encode (pw_directory v) @ footer_encode f"
    using fin by (auto simp: packed_finish_def v Let_def)
  have fok: "footer_ok f" using assms(3) by (simp add: footer_ok_def f(9) merkle_finalize_def)
  have all2: "list_all2 (built_from cs opts) bs chunks" using i by simp
  have nb: "length bs \<le> 2 ^ 24" using length_chunks [OF all2] recs n by simp
  have ucnt: "unat (pw_record_count v) = length rs"
    using tt n by (simp add: unsigned_of_nat take_bit_nat_eq_self)
  then have z: "pw_record_count v = 0 \<longleftrightarrow> rs = []" by (metis length_0_conv unat_0 unat_eq_zero)
  have dir: "unat (ft_block_directory_len f) = length bs * 56" "unat (ft_block_count f) = length bs"
  proof -
    have "length (directory_encode (pw_directory v)) = length bs * 56" "length (pw_directory v) = length bs"
      using i by (simp_all add: length_directory_encode)
    then show "unat (ft_block_directory_len f) = length bs * 56" "unat (ft_block_count f) = length bs"
      unfolding f using nb by (simp_all only: unsigned_of_nat) (simp_all add: take_bit_nat_eq_self)
  qed
  have coh: "footer_check_coherence f = Inr ()"
  proof (cases "rs = []")
    case False
    then have m: "map rr_lsn rs \<noteq> []" "map rr_hlc rs \<noteq> []" by simp_all
    have "ft_min_lsn f = rr_lsn (hd rs)" "ft_max_lsn f = rr_lsn (last rs)"
      "ft_min_hlc f = Min (set (map rr_hlc rs))" "ft_max_hlc f = Max (set (map rr_hlc rs))"
      using f(2-5) z False tt foldl_min_max [OF m(1)] foldl_min_max [OF m(2)] increasing_raw_Min_Max [OF inc False]
      by simp_all
    moreover have "Min (set (map rr_hlc rs)) \<le> Max (set (map rr_hlc rs))"
      using False by (intro order_trans [OF Min_le Max_ge, of _ "rr_hlc (hd rs)"]) auto
    moreover have "length rs \<le> Suc (unat (rr_lsn (last rs)) - unat (rr_lsn (hd rs)))"
      using increasing_raw_span [OF inc False] by arith
    moreover have "rr_lsn (hd rs) \<le> rr_lsn (last rs)"
      using increasing_raw_span [OF inc False] by (simp add: word_le_nat_alt)
    ultimately show ?thesis using ucnt f(1) dir nb by (simp add: footer_coherent_iff)
  qed (use z f(1) dir nb in \<open>simp add: footer_coherent_iff\<close>)
  have un: "\<forall>b \<in> set bs. unat (bh_uncompressed_len (bb_header b)) \<le> HARD_MAX_BLOCK_BYTES"
  proof
    fix b assume "b \<in> set bs"
    then obtain j where j: "j < length bs" "b = bs ! j" unfolding in_set_conv_nth by blast
    then have bf: "built_from cs opts b (chunks ! j)" and "chunks ! j \<in> set chunks"
      using all2 by (auto simp: list_all2_conv_all_nth)
    then have "set (chunks ! j) \<subseteq> block_record_of ` set rs" using recs by (metis set_concat set_map UN_upper)
    then have "\<forall>r \<in> set (chunks ! j). length (br_payload r) + 54 \<le> HARD_MAX_BLOCK_BYTES"
      using pay by (fastforce simp: block_record_of_def)
    then show "unat (bh_uncompressed_len (bb_header b)) \<le> HARD_MAX_BLOCK_BYTES"
      using chunk_body_bound bf by (auto simp: built_from_def)
  qed
  have "packed_layout cs opts (packed_header init) bs chunks f content"
    unfolding packed_layout_def
    using all2 hdr i f tt recs fok coh inc un nb size length_blocks [OF all2] length_header_encode [OF hdr]
    by (simp add: increasing_block_records length_directory_encode)
  then show "\<exists>bs chunks. packed_layout cs opts (packed_header init) bs chunks f content
    \<and> concat chunks = map block_record_of rs" using recs by blast
  show "\<exists>hashes. mapE (\<lambda>r. hasher (rr_lsn r) (rr_hlc r) (rr_payload r)) rs = Inr hashes
      \<and> ft_logical_root f = root_of_record_hashes H hashes"
    using hs tt f(9) by (simp add: root_of_record_hashes_def)
qed

section \<open>Properties\<close>

text \<open>A PACKED segment is a faithful copy. When the writer finishes a session of records with strictly
  increasing LSNs, the reader opens the file it wrote, finds the Merkle root of the canonical hashes in
  the footer, and a full scan returns exactly the records that were pushed, in order; a range scan, which
  skips the blocks that the directory rules out, returns exactly those whose LSN lies in the range.\<close>

theorem packed_scan_roundtrip:
  assumes "codecs_lossless cs" and "digest32 H" and "init_ok init"
    and "packed_session cs H hasher init opts rs = Inr w" and "increasing_raw rs"
    and "\<forall>r \<in> set rs. length (rr_payload r) + 54 \<le> HARD_MAX_BLOCK_BYTES" and "length rs \<le> 2 ^ 24"
    and "packed_finish cs H w = Inr (f, stats, content)" and "length content < usize_limit"
    and "HARD_MAX_BLOCK_BYTES \<le> max_block"
  shows "\<exists>r. open_packed content max_block = Inr r \<and> pr_footer r = f
    \<and> (\<exists>hashes. mapE (\<lambda>r. hasher (rr_lsn r) (rr_hlc r) (rr_payload r)) rs = Inr hashes
        \<and> ft_logical_root f = root_of_record_hashes H hashes)
    \<and> fst (scan_all cs r c) = Inr (map (\<lambda>r. (rr_lsn r, rr_hlc r, rr_payload r)) rs)
    \<and> fst (scan_lsn_range cs r lo hi c)
      = Inr (map (\<lambda>r. (rr_lsn r, rr_hlc r, rr_payload r)) (filter (\<lambda>r. lo \<le> rr_lsn r \<and> rr_lsn r \<le> hi) rs))"
proof -
  obtain bs chunks where l: "packed_layout cs opts (packed_header init) bs chunks f content"
    and recs: "concat chunks = map block_record_of rs"
    using packed_finish_layout(1) [OF assms(4,3,2,5-9)] by blast
  let ?r = "file_source.reader_on content (packed_header init) f bs max_block"
  have t: "map triple_of (map block_record_of xs) = map (\<lambda>r. (rr_lsn r, rr_hlc r, rr_payload r)) xs" for xs
    by (simp add: triple_of_def block_record_of_def)
  have flt: "filter (\<lambda>x. lo \<le> br_lsn x \<and> br_lsn x \<le> hi) (map block_record_of rs)
      = map block_record_of (filter (\<lambda>r. lo \<le> rr_lsn r \<and> rr_lsn r \<le> hi) rs)"
    by (simp add: filter_map comp_def block_record_of_def)
  have "fst (scan_all cs ?r c) = Inr (map (\<lambda>r. (rr_lsn r, rr_hlc r, rr_payload r)) rs)"
    using file_source.scans_layout(1) [OF l assms(1,10), of c] by (simp only: recs t)
  moreover have "fst (scan_lsn_range cs ?r lo hi c)
      = Inr (map (\<lambda>r. (rr_lsn r, rr_hlc r, rr_payload r)) (filter (\<lambda>r. lo \<le> rr_lsn r \<and> rr_lsn r \<le> hi) rs))"
    using file_source.scans_layout(2) [OF l assms(1,10), of lo hi c] by (simp only: recs flt t)
  moreover have "open_packed content max_block = Inr ?r"
    using file_source.open_layout [OF l, of max_block] by (simp add: open_packed_def packed_header_def)
  moreover have "pr_footer ?r = f" by (simp add: file_source.reader_on_def)
  ultimately show ?thesis using packed_finish_layout(2) [OF assms(4,3,2,5-9)] by blast
qed

text \<open>C22. Point lookup over the whole segment: \<open>get\<close> returns, for every LSN, the HLC and payload of the record
  pushed with that LSN, or nothing when there was none; and on any reader whatever it reads at most one
  block.\<close>

theorem packed_get_correct:
  assumes "codecs_lossless cs" and "digest32 H" and "init_ok init"
    and "packed_session cs H hasher init opts rs = Inr w" and "increasing_raw rs"
    and "\<forall>r \<in> set rs. length (rr_payload r) + 54 \<le> HARD_MAX_BLOCK_BYTES" and "length rs \<le> 2 ^ 24"
    and "packed_finish cs H w = Inr (f, stats, content)" and "length content < usize_limit"
    and "HARD_MAX_BLOCK_BYTES \<le> max_block"
  shows "(\<exists>r. open_packed content max_block = Inr r
      \<and> fst (packed_get cs r k c)
        = Inr (map_option (\<lambda>r. (rr_hlc r, rr_payload r)) (find (\<lambda>r. rr_lsn r = k) rs)))
    \<and> sc_blocks_read (snd (packed_get cs r' k' c)) \<in> {sc_blocks_read c, sc_blocks_read c + 1}"
proof
  obtain bs chunks where l: "packed_layout cs opts (packed_header init) bs chunks f content"
    and recs: "concat chunks = map block_record_of rs"
    using packed_finish_layout(1) [OF assms(4,3,2,5-9)] by blast
  have "find (\<lambda>r. br_lsn r = k) (map block_record_of rs) = map_option block_record_of (find (\<lambda>r. rr_lsn r = k) rs)"
    by (induction rs) (auto simp: block_record_of_def)
  then have "fst (packed_get cs (file_source.reader_on content (packed_header init) f bs max_block) k c)
      = Inr (map_option (\<lambda>r. (rr_hlc r, rr_payload r)) (find (\<lambda>r. rr_lsn r = k) rs))"
    using file_source.get_layout [OF l assms(1,10), of k c]
    by (simp add: recs option.map_comp comp_def block_record_of_def)
  then show "\<exists>r. open_packed content max_block = Inr r
      \<and> fst (packed_get cs r k c)
        = Inr (map_option (\<lambda>r. (rr_hlc r, rr_payload r)) (find (\<lambda>r. rr_lsn r = k) rs))"
    using file_source.open_layout [OF l, of max_block]
    by (simp add: open_packed_def packed_header_def)
  show "sc_blocks_read (snd (packed_get cs r' k' c)) \<in> {sc_blocks_read c, sc_blocks_read c + 1}"
    by (auto simp: packed_get_def Let_def split: option.splits prod.splits sum.splits dest!: blocks_read_once)
qed

section \<open>Witnesses\<close>

definition example_options :: pack_options where
  "example_options = default_pack_options\<lparr>po_raw_fallback_ratio := 0\<rparr>"

lemma example_pushes:
  "\<exists>w. packed_session toy_codecs toy_hash constant_hasher example_init example_options example_raw = Inr w
    \<and> bu_records (pw_builder w) = map block_record_of example_raw \<and> pw_opts w = example_options
    \<and> bu_restart_interval (pw_builder w) = 64 \<and> length (pw_file w) = 64 \<and> pw_directory w = []"
  using length_header_encode [OF packed_header_ok [OF example_init_ok]]
  by (simp add: packed_session_def example_raw_def push_record_def constant_hasher_def packed_push_def Let_def
      would_overflow_def packed_create_def builder_new_def builder_push_def example_options_def default_pack_options_def
      DEFAULT_BLOCK_TARGET_def MIN_BLOCK_TARGET_def MAX_BLOCK_TARGET_def DEFAULT_RESTART_INTERVAL_def block_record_of_def)

lemma example_packed:
  "\<exists>w f stats content. packed_session toy_codecs toy_hash constant_hasher example_init example_options example_raw = Inr w
    \<and> packed_finish toy_codecs toy_hash w = Inr (f, stats, content) \<and> length content < usize_limit"
proof -
  obtain w where s: "packed_session toy_codecs toy_hash constant_hasher example_init example_options example_raw = Inr w"
    and w: "bu_records (pw_builder w) = map block_record_of example_raw" "pw_opts w = example_options"
      "bu_restart_interval (pw_builder w) = 64" "length (pw_file w) = 64" "pw_directory w = []"
    using example_pushes by blast
  let ?rs = "map block_record_of example_raw"
  have "\<forall>j < length ?rs. record_fits True True (unat (max 64 1 :: u16)) ?rs j"
    by (auto simp: example_raw_def block_record_of_def record_fits_def less_Suc_eq HARD_MAX_RECORD_BYTES_def)
  moreover have "\<not> contiguous_lsns ?rs" "\<not> monotonic_hlcs ?rs" "region_bound ?rs = 63"
    by (simp_all add: contiguous_lsns_def example_raw_def block_record_of_def region_bound_def)
  ultimately obtain b where b: "build_block toy_codecs ?rs 64 Balanced 0 = Inr b"
    using build_block_ok [of ?rs 64 Balanced] by (auto simp: example_raw_def)
  obtain v where v: "flush_block toy_codecs w = Inr v" "pw_file v = pw_file w @ bb_header_bytes b @ bb_stored b"
      "length (pw_directory v) = 1"
    using b w by (auto simp: flush_block_def builder_finish_def example_options_def default_pack_options_def example_raw_def)
  obtain f stats content where fin: "packed_finish toy_codecs toy_hash w = Inr (f, stats, content)"
    and content: "content = pw_file v @ directory_encode (pw_directory v) @ footer_encode f"
    and root: "ft_logical_root f = merkle_finalize toy_hash (pw_acc v)"
    using v(1) by (simp add: packed_finish_def Let_def)
  have "length (footer_encode f) = 128"
    using toy_digest by (intro length_footer_encode) (simp add: footer_ok_def root merkle_finalize_def)
  moreover have "length (bb_header_bytes b) = 64"
    by (simp add: build_block_Inr(6) [OF b] block_header_encode_def Let_def length_block_encode_with_crc)
  moreover have "length (bb_stored b) < 2 ^ 32" by (rule build_block_Inr(4) [OF b])
  ultimately have "length content < usize_limit"
    using v(2,3) w(4) by (simp add: content length_directory_encode usize_limit_def)
  then show ?thesis using s fin by blast
qed

lemma example_payloads:
  "\<forall>r \<in> set example_raw. length (rr_payload r) + 54 \<le> HARD_MAX_BLOCK_BYTES" "length example_raw \<le> 2 ^ 24"
  by (simp_all add: example_raw_def HARD_MAX_BLOCK_BYTES_def)

definition zero_counters :: scan_counters where
  "zero_counters = \<lparr>sc_blocks_candidate = 0, sc_blocks_pruned = 0, sc_blocks_read = 0,
     sc_bytes_physical_read = 0, sc_bytes_decompressed = 0\<rparr>"

lemma packed_scan_roundtrip_witness:
  "\<exists>content r. open_packed content HARD_MAX_BLOCK_BYTES = Inr r
    \<and> fst (scan_all toy_codecs r zero_counters) = Inr [(10, 50, [1, 2, 3]), (12, 40, [])]
    \<and> fst (scan_lsn_range toy_codecs r 11 20 zero_counters) = Inr [(12, 40, [])]"
proof -
  obtain w f stats content where p: "packed_session toy_codecs toy_hash constant_hasher example_init example_options example_raw = Inr w"
    "packed_finish toy_codecs toy_hash w = Inr (f, stats, content)" "length content < usize_limit"
    using example_packed by blast
  have "map (\<lambda>r. (rr_lsn r, rr_hlc r, rr_payload r)) example_raw = [(10, 50, [1, 2, 3]), (12, 40, [])]"
    "map (\<lambda>r. (rr_lsn r, rr_hlc r, rr_payload r)) (filter (\<lambda>r. 11 \<le> rr_lsn r \<and> rr_lsn r \<le> 20) example_raw) = [(12, 40, [])]"
    by (simp_all add: example_raw_def)
  note recs = this
  from packed_scan_roundtrip [OF toy_lossless toy_digest example_init_ok p(1) example_raw_facts(3) example_payloads p(2,3)
      order_refl, where c = zero_counters and lo = 11 and hi = 20]
  show ?thesis unfolding recs by blast
qed

lemma packed_get_correct_witness:
  "\<exists>content r. open_packed content HARD_MAX_BLOCK_BYTES = Inr r
    \<and> fst (packed_get toy_codecs r 12 zero_counters) = Inr (Some (40, []))"
proof -
  obtain w f stats content where p: "packed_session toy_codecs toy_hash constant_hasher example_init example_options example_raw = Inr w"
    "packed_finish toy_codecs toy_hash w = Inr (f, stats, content)" "length content < usize_limit"
    using example_packed by blast
  have "map_option (\<lambda>r. (rr_hlc r, rr_payload r)) (find (\<lambda>r. rr_lsn r = 12) example_raw) = Some (40, [])"
    by (simp add: example_raw_def)
  note recs = this
  from packed_get_correct [OF toy_lossless toy_digest example_init_ok p(1) example_raw_facts(3) example_payloads p(2,3)
      order_refl, where c = zero_counters and k = 12]
  show ?thesis unfolding recs by blast
qed

end
