(* ===== verification/V6_Receipts.thy ===== *)
theory V6_Receipts
  imports V6_Footer V6_Merkle V6_Header
begin

text \<open>
  \<open>heraclitus-log/src/v6/receipts.rs\<close>: the attestation envelope that is time-stamped, the pack receipt
  and the migration receipt, all encoded by fixed-width fields. BLAKE3 is the parameter \<open>H\<close>. The
  compression ratio (a float for telemetry) and the streaming read of a file are left out.
\<close>

section \<open>Envelopes and receipts\<close>

definition DOMAIN_ATTESTATION :: bytes where
  "DOMAIN_ATTESTATION = ascii ''HRKL6:ATTESTATION_ENVELOPE:V1''"

definition DOMAIN_PACK_RECEIPT :: bytes where
  "DOMAIN_PACK_RECEIPT = ascii ''HRKL6:PACK_RECEIPT:V1''"

record attestation_envelope =
  ae_storage_namespace_id :: bytes
  ae_segment_id :: segment_id
  ae_canonical_codec_version :: u16
  ae_first_lsn :: lsn
  ae_last_lsn :: lsn
  ae_record_count :: u64
  ae_logical_root :: bytes

definition attestation_encode :: "attestation_envelope \<Rightarrow> bytes" where
  "attestation_encode e = ae_storage_namespace_id e @ to_le_bytes (ae_segment_id e)
     @ to_le_bytes (ae_canonical_codec_version e) @ to_le_bytes (ae_first_lsn e) @ to_le_bytes (ae_last_lsn e)
     @ to_le_bytes (ae_record_count e) @ ae_logical_root e"

definition imprint :: "hash_fn \<Rightarrow> attestation_envelope \<Rightarrow> bytes" where
  "imprint H e = H (DOMAIN_ATTESTATION @ attestation_encode e)"

record pack_receipt =
  pr_segment_id :: segment_id
  pr_storage_namespace_id :: bytes
  pr_source_generation :: u32
  pr_source_physical_digest :: bytes
  pr_target_generation :: u32
  pr_target_physical_digest :: bytes
  pr_logical_root :: bytes
  pr_canonical_codec :: u8
  pr_codec :: compression_codec
  pr_block_size :: u32
  pr_first_lsn :: lsn
  pr_last_lsn :: lsn
  pr_record_count :: u64
  pr_source_physical_size :: u64
  pr_target_physical_size :: u64
  pr_packer_version :: u32
  pr_created_hlc :: u64

definition PACKER_VERSION :: u32 where
  "PACKER_VERSION = 1"

definition pack_receipt_encode :: "pack_receipt \<Rightarrow> bytes" where
  "pack_receipt_encode r = to_le_bytes (pr_segment_id r) @ pr_storage_namespace_id r
     @ to_le_bytes (pr_source_generation r) @ pr_source_physical_digest r
     @ to_le_bytes (pr_target_generation r) @ pr_target_physical_digest r @ pr_logical_root r
     @ [pr_canonical_codec r] @ [compression_codec_u8 (pr_codec r)] @ to_le_bytes (pr_block_size r)
     @ to_le_bytes (pr_first_lsn r) @ to_le_bytes (pr_last_lsn r) @ to_le_bytes (pr_record_count r)
     @ to_le_bytes (pr_source_physical_size r) @ to_le_bytes (pr_target_physical_size r)
     @ to_le_bytes (pr_packer_version r) @ to_le_bytes (pr_created_hlc r)"

definition pack_receipt_digest :: "hash_fn \<Rightarrow> pack_receipt \<Rightarrow> bytes" where
  "pack_receipt_digest H r = H (DOMAIN_PACK_RECEIPT @ pack_receipt_encode r)"

definition receipt_attestation :: "pack_receipt \<Rightarrow> attestation_envelope" where
  "receipt_attestation r = \<lparr>ae_storage_namespace_id = pr_storage_namespace_id r,
     ae_segment_id = pr_segment_id r, ae_canonical_codec_version = ucast (pr_canonical_codec r),
     ae_first_lsn = pr_first_lsn r, ae_last_lsn = pr_last_lsn r, ae_record_count = pr_record_count r,
     ae_logical_root = pr_logical_root r\<rparr>"

record legacy_migration_receipt =
  lm_legacy_format :: u16
  lm_legacy_segment_id :: segment_id
  lm_legacy_root :: bytes
  lm_canonical_codec_v6 :: u8
  lm_v6_logical_root :: bytes
  lm_target_generation :: u32
  lm_target_physical_digest :: bytes
  lm_record_count :: u64

definition legacy_migration_encode :: "legacy_migration_receipt \<Rightarrow> bytes" where
  "legacy_migration_encode r = to_le_bytes (lm_legacy_format r) @ to_le_bytes (lm_legacy_segment_id r)
     @ lm_legacy_root r @ [lm_canonical_codec_v6 r] @ lm_v6_logical_root r
     @ to_le_bytes (lm_target_generation r) @ lm_target_physical_digest r @ to_le_bytes (lm_record_count r)"

definition physical_digest :: "hash_fn \<Rightarrow> bytes \<Rightarrow> bytes" where
  "physical_digest H bytes = H bytes"

definition attestation_for :: "bytes \<Rightarrow> segment_id \<Rightarrow> footer \<Rightarrow> attestation_envelope" where
  "attestation_for namespace sid f = \<lparr>ae_storage_namespace_id = namespace, ae_segment_id = sid,
     ae_canonical_codec_version = 1, ae_first_lsn = ft_min_lsn f, ae_last_lsn = ft_max_lsn f,
     ae_record_count = ft_record_count f, ae_logical_root = ft_logical_root f\<rparr>"

section \<open>Fixed-width encodings are injective\<close>

lemma same_length_split: "length a = length b \<Longrightarrow> a @ x = b @ y \<longleftrightarrow> a = b \<and> x = y"
  by simp

lemma le_u16_eq [simp]: "to_le_bytes (a :: u16) = to_le_bytes b \<longleftrightarrow> a = b"
  by (rule to_le_bytes_inj) simp

lemma le_u32_eq [simp]: "to_le_bytes (a :: u32) = to_le_bytes b \<longleftrightarrow> a = b"
  by (rule to_le_bytes_inj) simp

lemma le_u64_eq [simp]: "to_le_bytes (a :: u64) = to_le_bytes b \<longleftrightarrow> a = b"
  by (rule to_le_bytes_inj) simp

lemma compression_codec_u8_inj [simp]: "compression_codec_u8 a = compression_codec_u8 b \<longleftrightarrow> a = b"
  by (cases a; cases b) simp_all

definition envelope_ok :: "attestation_envelope \<Rightarrow> bool" where
  "envelope_ok e \<longleftrightarrow> length (ae_storage_namespace_id e) = 16 \<and> length (ae_logical_root e) = 32"

lemma attestation_encode_inj:
  "envelope_ok a \<Longrightarrow> envelope_ok b \<Longrightarrow> attestation_encode a = attestation_encode b \<longleftrightarrow> a = b"
  unfolding attestation_encode_def envelope_ok_def
  by (auto simp: same_length_split intro!: attestation_envelope.equality)

definition receipt_ok :: "pack_receipt \<Rightarrow> bool" where
  "receipt_ok r \<longleftrightarrow> length (pr_storage_namespace_id r) = 16 \<and> length (pr_source_physical_digest r) = 32
     \<and> length (pr_target_physical_digest r) = 32 \<and> length (pr_logical_root r) = 32"

lemma pack_receipt_encode_inj:
  "receipt_ok a \<Longrightarrow> receipt_ok b \<Longrightarrow> pack_receipt_encode a = pack_receipt_encode b \<longleftrightarrow> a = b"
  unfolding pack_receipt_encode_def receipt_ok_def
  by (auto simp: same_length_split simp del: append_Cons intro!: pack_receipt.equality)

section \<open>Properties\<close>

text \<open>A time stamp cannot be moved: unless the digest collides on the two messages that were hashed,
  equal imprints come from equal envelopes, so the namespace, the segment, the LSN range, the record
  count and the logical root are all bound to the stamp.\<close>

theorem imprint_binds_envelope:
  assumes "envelope_ok a" and "envelope_ok b"
    and "inj_on H {DOMAIN_ATTESTATION @ attestation_encode a, DOMAIN_ATTESTATION @ attestation_encode b}"
    and "imprint H a = imprint H b"
  shows "a = b"
proof -
  have "DOMAIN_ATTESTATION @ attestation_encode a = DOMAIN_ATTESTATION @ attestation_encode b"
    using assms(3) assms(4) [unfolded imprint_def] by (rule inj_onD) simp_all
  then show ?thesis using attestation_encode_inj [OF assms(1,2)] by simp
qed

definition stamped_footer :: footer where
  "stamped_footer = \<lparr>ft_record_count = 100, ft_min_lsn = 100, ft_max_lsn = 199, ft_min_hlc = 1, ft_max_hlc = 2,
     ft_block_count = 0, ft_flags = 1, ft_block_directory_offset = 0, ft_block_directory_len = 0,
     ft_logical_root = replicate 32 7\<rparr>"

lemma imprint_binds_envelope_witness:
  "imprint (\<lambda>x. x) (attestation_for (replicate 16 1) 88 stamped_footer)
    \<noteq> imprint (\<lambda>x. x) (attestation_for (replicate 16 1) 89 stamped_footer)"
proof
  let ?a = "attestation_for (replicate 16 1) 88 stamped_footer"
    and ?b = "attestation_for (replicate 16 1) 89 stamped_footer"
  assume e: "imprint (\<lambda>x. x) ?a = imprint (\<lambda>x. x) ?b"
  have ok: "envelope_ok ?a" "envelope_ok ?b" by (simp_all add: envelope_ok_def attestation_for_def stamped_footer_def)
  have "?a = ?b" by (rule imprint_binds_envelope [OF ok _ e]) (rule inj_on_id2)
  then show False by (simp add: attestation_for_def)
qed

end
