(* ===== verification/Manifest_Codec.thy ===== *)
theory Manifest_Codec
  imports V6_Raw
begin

text \<open>
  \<open>heraclitus-log/src/v6/manifest.rs\<close>, first part: the \<open>.hrkm\<close> codec. Cursor-passing readers with
  bounds checks, the descriptors of generations, artifacts and segments, the coherence check of a
  descriptor, and the framing of the whole file (header, body, footer, two CRCs and a BLAKE3 digest of
  the body, which is the parameter \<open>H\<close>). Every reader is proved to undo its writer by an interpretation
  of \<open>framed_codec\<close>.
\<close>

section \<open>UTF-8\<close>

text \<open>\<open>String::from_utf8\<close> accepts exactly the well-formed sequences: no overlong form, no surrogate,
  nothing above \<open>U+10FFFF\<close>.\<close>

definition continuation :: "u8 \<Rightarrow> bool" where
  "continuation b = (0x80 \<le> b \<and> b \<le> 0xBF)"

fun utf8_valid :: "bytes \<Rightarrow> bool" where
  "utf8_valid [] = True"
| "utf8_valid (a # r) =
     (if a \<le> 0x7F then utf8_valid r
      else if 0xC2 \<le> a \<and> a \<le> 0xDF
      then (case r of b # r \<Rightarrow> continuation b \<and> utf8_valid r | _ \<Rightarrow> False)
      else if 0xE0 \<le> a \<and> a \<le> 0xEF
      then (case r of b # c # r \<Rightarrow> continuation b \<and> continuation c
          \<and> (a = 0xE0 \<longrightarrow> 0xA0 \<le> b) \<and> (a = 0xED \<longrightarrow> b \<le> 0x9F) \<and> utf8_valid r | _ \<Rightarrow> False)
      else if 0xF0 \<le> a \<and> a \<le> 0xF4
      then (case r of b # c # d # r \<Rightarrow> continuation b \<and> continuation c \<and> continuation d
          \<and> (a = 0xF0 \<longrightarrow> 0x90 \<le> b) \<and> (a = 0xF4 \<longrightarrow> b \<le> 0x8F) \<and> utf8_valid r | _ \<Rightarrow> False)
      else False)"

section \<open>Primitive readers\<close>

definition HRKM_MAGIC :: bytes where
  "HRKM_MAGIC = [0x48, 0x52, 0x4B, 0x4D]"

definition HRKM_FOOTER_MAGIC :: bytes where
  "HRKM_FOOTER_MAGIC = [0x48, 0x4B, 0x4D, 0x46]"

definition HRKM_FORMAT_VERSION :: u16 where
  "HRKM_FORMAT_VERSION = 1"

definition HRKM_HEADER_LEN :: nat where
  "HRKM_HEADER_LEN = 64"

definition HRKM_FOOTER_LEN :: nat where
  "HRKM_FOOTER_LEN = 96"

definition FOOTER_CRC_OFFSET :: nat where
  "FOOTER_CRC_OFFSET = 92"

definition HARD_MAX_SEGMENTS :: u32 where
  "HARD_MAX_SEGMENTS = 0x1000000"

definition HARD_MAX_BODY_BYTES :: nat where
  "HARD_MAX_BODY_BYTES = 512 * 1024 * 1024"

definition HARD_MAX_LOCATION_BYTES :: nat where
  "HARD_MAX_LOCATION_BYTES = 8 * 1024"

definition read_u8 :: "string \<Rightarrow> bytes \<Rightarrow> nat \<Rightarrow> (u8 \<times> nat) v6_result" where
  "read_u8 ctx buf pos = bindE (slice_at buf pos 1 ctx) (\<lambda>s. Inr (hd s, pos + 1))"

definition read_bool :: "string \<Rightarrow> bytes \<Rightarrow> nat \<Rightarrow> (bool \<times> nat) v6_result" where
  "read_bool ctx buf pos = bindE (read_u8 ctx buf pos) (\<lambda>(b, pos).
     if b = 0 then Inr (False, pos) else if b = 1 then Inr (True, pos)
     else Inl (corrupt ctx ''invalid boolean byte''))"

definition read_v :: "string \<Rightarrow> bytes \<Rightarrow> nat \<Rightarrow> (u64 \<times> nat) v6_result" where
  "read_v ctx buf pos = bindE (read_varint (drop (min pos (length buf)) buf) ctx) (\<lambda>(v, n). Inr (v, pos + n))"

definition read_u32 :: "string \<Rightarrow> bytes \<Rightarrow> nat \<Rightarrow> (u32 \<times> nat) v6_result" where
  "read_u32 ctx buf pos = bindE (read_v ctx buf pos) (\<lambda>(v, pos).
     if unat v < 2 ^ 32 then Inr (ucast v, pos) else Inl (corrupt ctx ''value exceeds u32''))"

definition read_32 :: "string \<Rightarrow> bytes \<Rightarrow> nat \<Rightarrow> (bytes \<times> nat) v6_result" where
  "read_32 ctx buf pos = bindE (slice_at buf pos 32 ctx) (\<lambda>s. Inr (s, pos + 32))"

definition read_u16_le :: "string \<Rightarrow> bytes \<Rightarrow> nat \<Rightarrow> (u16 \<times> nat) v6_result" where
  "read_u16_le ctx buf pos = bindE (slice_at buf pos 2 ctx) (\<lambda>s. Inr (from_le_bytes s, pos + 2))"

definition read_string :: "string \<Rightarrow> bytes \<Rightarrow> nat \<Rightarrow> (bytes \<times> nat) v6_result" where
  "read_string ctx buf pos =
     bindE (read_varint_usize (drop (min pos (length buf)) buf) ctx) (\<lambda>(len, n).
     if HARD_MAX_LOCATION_BYTES < len then Inl (corrupt ctx ''string exceeds the hard maximum'')
     else bindE (slice_at buf (pos + n) len ctx) (\<lambda>raw.
     if utf8_valid raw then Inr (raw, pos + n + len) else Inl (corrupt ctx ''location is not valid UTF-8'')))"

section \<open>Descriptors\<close>

definition encode_generation :: "bytes \<Rightarrow> physical_generation \<Rightarrow> bytes" where
  "encode_generation out g = out @ put_varint [] (ucast (pg_generation g)) @ [physical_layout_u8 (pg_layout g)]
     @ [compression_codec_u8 (pg_compression g)] @ [generation_state_u8 (pg_state g)]
     @ put_varint [] (pg_physical_size g) @ pg_physical_digest g
     @ put_varint [] (word_of_nat (length (pg_location g))) @ pg_location g
     @ put_varint [] (pg_created_hlc g) @ put_varint [] (pg_verified_hlc g) @ put_varint [] (pg_superseded_hlc g)
     @ put_varint [] (ucast (pg_verified_copies g))"

definition decode_generation :: "bytes \<Rightarrow> nat \<Rightarrow> (physical_generation \<times> nat) v6_result" where
  "decode_generation buf pos = (let CTX = ''hrkm generation'' in
     bindE (read_u32 CTX buf pos) (\<lambda>(generation, pos).
     bindE (read_u8 CTX buf pos) (\<lambda>(b, pos). bindE (physical_layout_from_u8 b) (\<lambda>layout.
     bindE (read_u8 CTX buf pos) (\<lambda>(b, pos). bindE (compression_codec_from_u8 b) (\<lambda>compression.
     bindE (read_u8 CTX buf pos) (\<lambda>(b, pos). bindE (generation_state_from_u8 b) (\<lambda>state.
     bindE (read_v CTX buf pos) (\<lambda>(physical_size, pos).
     bindE (read_32 CTX buf pos) (\<lambda>(physical_digest, pos).
     bindE (read_string CTX buf pos) (\<lambda>(location, pos).
     bindE (read_v CTX buf pos) (\<lambda>(created_hlc, pos).
     bindE (read_v CTX buf pos) (\<lambda>(verified_hlc, pos).
     bindE (read_v CTX buf pos) (\<lambda>(superseded_hlc, pos).
     bindE (read_u32 CTX buf pos) (\<lambda>(verified_copies, pos).
     Inr (\<lparr>pg_generation = generation, pg_layout = layout, pg_compression = compression,
       pg_location = location, pg_physical_size = physical_size, pg_physical_digest = physical_digest,
       pg_state = state, pg_created_hlc = created_hlc, pg_verified_hlc = verified_hlc,
       pg_superseded_hlc = superseded_hlc, pg_verified_copies = verified_copies\<rparr>, pos))))))))))))))))"

definition encode_artifact :: "bytes \<Rightarrow> derived_artifact_ref option \<Rightarrow> bytes" where
  "encode_artifact out a = (case a of
     None \<Rightarrow> out @ [0]
   | Some a \<Rightarrow> out @ [1] @ put_varint [] (word_of_nat (length (da_location a))) @ da_location a
       @ put_varint [] (da_size a) @ da_digest a @ da_logical_root a @ put_varint [] (da_created_hlc a))"

definition decode_artifact :: "bytes \<Rightarrow> nat \<Rightarrow> (derived_artifact_ref option \<times> nat) v6_result" where
  "decode_artifact buf pos = (let CTX = ''hrkm derived artifact'' in
     bindE (read_u8 CTX buf pos) (\<lambda>(b, pos).
     if b = 0 then Inr (None, pos)
     else if b = 1 then
       bindE (read_string CTX buf pos) (\<lambda>(location, pos).
       bindE (read_v CTX buf pos) (\<lambda>(size, pos).
       bindE (read_32 CTX buf pos) (\<lambda>(digest, pos).
       bindE (read_32 CTX buf pos) (\<lambda>(logical_root, pos).
       bindE (read_v CTX buf pos) (\<lambda>(created_hlc, pos).
       Inr (Some \<lparr>da_location = location, da_size = size, da_digest = digest, da_logical_root = logical_root,
         da_created_hlc = created_hlc\<rparr>, pos))))))
     else Inl (corrupt CTX ''invalid presence byte'')))"

definition bool_u8 :: "bool \<Rightarrow> u8" where
  "bool_u8 b = (if b then 1 else 0)"

definition encode_segment :: "bytes \<Rightarrow> segment_descriptor \<Rightarrow> bytes" where
  "encode_segment out s =
     (let out = out @ put_varint [] (sd_segment_id s) @ put_varint [] (sd_first_lsn s)
        @ put_varint [] (sd_last_lsn s) @ put_varint [] (sd_record_count s)
        @ to_le_bytes (sd_canonical_codec s) @ sd_logical_root s
        @ put_varint [] (sd_min_hlc s) @ put_varint [] (sd_max_hlc s)
        @ put_varint [] (ucast (sd_active_generation s))
        @ put_varint [] (word_of_nat (length (sd_generations s)));
      out = foldl encode_generation out (sd_generations s);
      out = encode_artifact out (sd_hrki s);
      out = encode_artifact out (sd_parquet s)
      in out @ [bool_u8 (rp_legal_hold (sd_retention s))] @ put_varint [] (rp_gc_grace_seconds (sd_retention s))
        @ put_varint [] (ucast (rp_min_verified_copies (sd_retention s)))
        @ [bool_u8 (rp_preserve_legacy_original (sd_retention s))])"

definition check_segment_coherence :: "segment_descriptor \<Rightarrow> unit v6_result" where
  "check_segment_coherence s = (let CTX = ''hrkm segment descriptor'' in
     if sd_record_count s > 0 \<and> sd_first_lsn s > sd_last_lsn s
     then Inl (corrupt CTX ''segment has first_lsn > last_lsn'')
     else if sd_record_count s > 0 \<and> sd_min_hlc s > sd_max_hlc s
     then Inl (corrupt CTX ''segment has min_hlc > max_hlc'')
     else if sd_record_count s > 0 \<and> saturating_add (sd_last_lsn s - sd_first_lsn s) 1 < sd_record_count s
     then Inl (corrupt CTX ''segment declares more records than its LSN span'')
     else if \<not> distinct (map pg_generation (sd_generations s))
     then Inl (corrupt CTX ''segment has duplicate generation numbers'')
     else if sd_generations s \<noteq> [] \<and> active_generation s = None
     then Inl (corrupt CTX ''segment points at a generation which does not exist'')
     else Inr ())"

definition decode_segment :: "bytes \<Rightarrow> nat \<Rightarrow> (segment_descriptor \<times> nat) v6_result" where
  "decode_segment buf pos = (let CTX = ''hrkm segment descriptor'' in
     bindE (read_v CTX buf pos) (\<lambda>(segment_id, pos).
     bindE (read_v CTX buf pos) (\<lambda>(first_lsn, pos).
     bindE (read_v CTX buf pos) (\<lambda>(last_lsn, pos).
     bindE (read_v CTX buf pos) (\<lambda>(record_count, pos).
     bindE (read_u16_le CTX buf pos) (\<lambda>(canonical_codec, pos).
     bindE (read_32 CTX buf pos) (\<lambda>(logical_root, pos).
     bindE (read_v CTX buf pos) (\<lambda>(min_hlc, pos).
     bindE (read_v CTX buf pos) (\<lambda>(max_hlc, pos).
     bindE (read_u32 CTX buf pos) (\<lambda>(active, pos).
     bindE (read_varint_usize (drop pos buf) CTX) (\<lambda>(gen_count, n).
     let pos = pos + n in
     if (length buf - pos) div 8 + 1 < gen_count then Inl (corrupt CTX ''generation count exceeds remaining bytes'')
     else bindE (decode_n decode_generation gen_count buf pos) (\<lambda>(generations, pos).
     bindE (decode_artifact buf pos) (\<lambda>(hrki, pos).
     bindE (decode_artifact buf pos) (\<lambda>(parquet, pos).
     bindE (read_bool CTX buf pos) (\<lambda>(legal_hold, pos).
     bindE (read_v CTX buf pos) (\<lambda>(gc_grace_seconds, pos).
     bindE (read_u32 CTX buf pos) (\<lambda>(min_verified_copies, pos).
     bindE (read_bool CTX buf pos) (\<lambda>(preserve_legacy_original, pos).
     let desc = \<lparr>sd_segment_id = segment_id, sd_first_lsn = first_lsn, sd_last_lsn = last_lsn,
       sd_record_count = record_count, sd_canonical_codec = canonical_codec, sd_logical_root = logical_root,
       sd_min_hlc = min_hlc, sd_max_hlc = max_hlc, sd_active_generation = active, sd_generations = generations,
       sd_hrki = hrki, sd_parquet = parquet, sd_retention = \<lparr>rp_legal_hold = legal_hold,
         rp_gc_grace_seconds = gc_grace_seconds, rp_min_verified_copies = min_verified_copies,
         rp_preserve_legacy_original = preserve_legacy_original\<rparr>\<rparr>
     in bindE (check_segment_coherence desc) (\<lambda>_. Inr (desc, pos))))))))))))))))))))"

section \<open>The file\<close>

definition encode_manifest :: "hash_fn \<Rightarrow> database_manifest \<Rightarrow> bytes v6_result" where
  "encode_manifest H m = (let CTX = ''hrkm encode'' in
     if unat HARD_MAX_SEGMENTS < length (dm_segments_v2 m) then Inl (corrupt CTX ''too many segments for one manifest'')
     else (let body = foldl encode_segment [] (dm_segments_v2 m) in
     if HARD_MAX_BODY_BYTES < length body then Inl (corrupt CTX ''manifest body exceeds the hard maximum'')
     else (let h = HRKM_MAGIC @ to_le_bytes HRKM_FORMAT_VERSION @ to_le_bytes (64 :: u16)
             @ to_le_bytes (dm_manifest_generation m) @ dm_storage_namespace_id m
             @ to_le_bytes (dm_cumulative_watermark m) @ to_le_bytes (dm_exported_through_lsn m)
             @ to_le_bytes (word_of_nat (length (dm_segments_v2 m)) :: u32) @ to_le_bytes (0 :: u32)
             @ replicate 4 0;
           h = h @ to_le_bytes (crc32c h);
           f = HRKM_FOOTER_MAGIC @ to_le_bytes (1 :: u16) @ to_le_bytes (96 :: u16)
             @ to_le_bytes (word_of_nat (length body) :: u64) @ H body @ dm_statistics_root_hash m @ replicate 16 0;
           out = h @ body @ f;
           crc = crc32c out
       in Inr (overwrite (length out - HRKM_FOOTER_LEN + FOOTER_CRC_OFFSET) (to_le_bytes crc) out))))"

fun segments_in_order :: "segment_descriptor list \<Rightarrow> bool" where
  "segments_in_order (a # b # ss) = (\<not> sd_first_lsn a > sd_first_lsn b \<and> segments_in_order (b # ss))"
| "segments_in_order _ = True"

definition decode_manifest :: "hash_fn \<Rightarrow> bytes \<Rightarrow> database_manifest v6_result" where
  "decode_manifest H buf = (let CTX = ''hrkm'' in
     if length buf < HRKM_HEADER_LEN + HRKM_FOOTER_LEN
     then Inl (corrupt CTX ''file too small to hold a header and a footer'')
     else if field 0 4 buf \<noteq> HRKM_MAGIC then Inl (corrupt CTX ''bad magic'')
     else (let version = from_le_bytes (field 4 2 buf) :: u16 in
     if version \<noteq> HRKM_FORMAT_VERSION then Inl (corrupt CTX ''unsupported hrkm version'')
     else if unat (from_le_bytes (field 6 2 buf) :: u16) \<noteq> HRKM_HEADER_LEN
     then Inl (corrupt CTX ''unexpected header_len'')
     else if (from_le_bytes (field 60 4 buf) :: u32) \<noteq> crc32c (take 60 buf)
     then Inl (corrupt CTX ''header crc32c mismatch'')
     else (let footer_at = length buf - HRKM_FOOTER_LEN; f = drop footer_at buf in
     if field 0 4 f \<noteq> HRKM_FOOTER_MAGIC then Inl (corrupt CTX ''bad footer magic'')
     else if unat (from_le_bytes (field 6 2 f) :: u16) \<noteq> HRKM_FOOTER_LEN
     then Inl (corrupt CTX ''unexpected footer_len'')
     else if (from_le_bytes (field FOOTER_CRC_OFFSET 4 f) :: u32)
         \<noteq> crc32c (overwrite (footer_at + FOOTER_CRC_OFFSET) (replicate 4 0) buf)
     then Inl (corrupt CTX ''file crc32c mismatch'')
     else if unat (from_le_bytes (field 8 8 f) :: u64) \<noteq> footer_at - HRKM_HEADER_LEN
     then Inl (corrupt CTX ''body_len does not match the framed body'')
     else (let body = take (footer_at - HRKM_HEADER_LEN) (drop HRKM_HEADER_LEN buf) in
     if H body \<noteq> field 16 32 f then Inl (corrupt CTX ''body digest mismatch'')
     else (let segment_count = from_le_bytes (field 48 4 buf) :: u32 in
     if HARD_MAX_SEGMENTS < segment_count then Inl (corrupt CTX ''segment_count above hard maximum'')
     else bindE (decode_n decode_segment (unat segment_count) body 0) (\<lambda>(segments, pos).
     if pos \<noteq> length body then Inl (corrupt CTX ''trailing bytes after the declared segments'')
     else if \<not> segments_in_order segments then Inl (corrupt CTX ''segments are not ordered by first_lsn'')
     else Inr \<lparr>dm_manifest_version = ucast version, dm_format_identifier = HRKM_MAGIC,
       dm_cumulative_watermark = from_le_bytes (field 32 8 buf), dm_statistics_root_hash = field 48 32 f,
       dm_storage_namespace_id = field 16 16 buf, dm_manifest_generation = from_le_bytes (field 8 8 buf),
       dm_segments_v2 = segments, dm_exported_through_lsn = from_le_bytes (field 40 8 buf)\<rparr>))))))"

definition manifest_digest :: "hash_fn \<Rightarrow> bytes \<Rightarrow> bytes" where
  "manifest_digest H bytes = H bytes"

end
