(* ===== verification/Manifest_Correct.thy ===== *)
theory Manifest_Correct
  imports Manifest_Codec
begin

text \<open>
  \<open>decode_manifest\<close> reads back what \<open>encode_manifest\<close> wrote. Each reader of \<open>Manifest_Codec\<close> gets one
  law in cursor form (\<open>cursor_at buf pos bs\<close>: the bytes \<open>bs\<close> stand in \<open>buf\<close> at \<open>pos\<close>); the laws of the
  composite readers follow by splitting the concatenation, and are then offered as interpretations
  of \<open>framed_codec\<close>.
\<close>

section \<open>Bytes at a cursor\<close>

definition cursor_at :: "bytes \<Rightarrow> nat \<Rightarrow> bytes \<Rightarrow> bool" where
  "cursor_at buf pos bs \<longleftrightarrow> pos + length bs \<le> length buf \<and> length buf < usize_limit
     \<and> take (length bs) (drop pos buf) = bs"

named_theorems cursor \<open>readers at a cursor\<close>

lemma cursor_at_append [simp]:
  "cursor_at buf pos (xs @ ys) \<longleftrightarrow> cursor_at buf pos xs \<and> cursor_at buf (pos + length xs) ys"
proof -
  have "take (length xs + length ys) (drop pos buf)
      = take (length xs) (drop pos buf) @ take (length ys) (drop (pos + length xs) buf)"
    by (simp add: take_add add.commute)
  then show ?thesis
    by (auto simp: cursor_at_def append_eq_append_conv)
qed

lemma cursor_at_mid: "length (pre @ bs @ post) < usize_limit \<Longrightarrow> cursor_at (pre @ bs @ post) (length pre) bs"
  by (simp add: cursor_at_def)

lemma cursor_slice_at: "cursor_at buf pos bs \<Longrightarrow> n = length bs \<Longrightarrow> slice_at buf pos n ctx = Inr bs"
  by (auto simp: cursor_at_def slice_at_def)

lemma cursor_drop: "cursor_at buf pos bs \<Longrightarrow> \<exists>rest. drop (min pos (length buf)) buf = bs @ rest"
  using append_take_drop_id [of "length bs" "drop pos buf", symmetric] by (auto simp: cursor_at_def min_def)

section \<open>Primitive readers\<close>

lemma read_u8_at [cursor]: "cursor_at buf pos [b] \<Longrightarrow> read_u8 ctx buf pos = Inr (b, pos + 1)"
  by (simp add: read_u8_def cursor_slice_at)

lemma read_bool_at [cursor]: "cursor_at buf pos [bool_u8 b] \<Longrightarrow> read_bool ctx buf pos = Inr (b, pos + 1)"
  by (simp add: read_bool_def read_u8_at bool_u8_def)

lemma read_v_at [cursor]:
  "cursor_at buf pos (put_varint [] v) \<Longrightarrow> read_v ctx buf pos = Inr (v, pos + length (put_varint [] v))"
  using cursor_drop [of buf pos "put_varint [] v"] by (auto simp: read_v_def read_varint_put)

lemma read_varint_usize_at:
  "cursor_at buf pos (put_varint [] v)
    \<Longrightarrow> read_varint_usize (drop (min pos (length buf)) buf) ctx = Inr (unat v, length (put_varint [] v))"
  using cursor_drop [of buf pos "put_varint [] v"] by (auto simp: read_varint_usize_def read_varint_put)

lemma read_u32_at [cursor]:
  assumes "cursor_at buf pos (put_varint [] (ucast (v :: u32)))"
  shows "read_u32 ctx buf pos = Inr (v, pos + length (put_varint [] (ucast v :: u64)))"
proof -
  have "unat (ucast v :: u64) = unat v" 
    using unat_lt_u32 [of v] by (simp add: unsigned_ucast_eq take_bit_nat_eq_self)
  moreover have "(ucast (ucast v :: u64) :: u32) = v" by (rule ucast_up_ucast_id) (simp add: is_up)
  ultimately show ?thesis using unat_lt_u32 [of v] by (simp add: read_u32_def read_v_at [OF assms])
qed

lemma read_32_at [cursor]:
  "cursor_at buf pos d \<Longrightarrow> length d = 32 \<Longrightarrow> read_32 ctx buf pos = Inr (d, pos + 32)"
  by (simp add: read_32_def cursor_slice_at)

lemma read_u16_le_at [cursor]:
  "cursor_at buf pos (to_le_bytes v) \<Longrightarrow> read_u16_le ctx buf pos = Inr (v, pos + 2)"
  using cursor_slice_at [of buf pos "to_le_bytes v" 2 ctx] by (simp add: read_u16_le_def)

definition location_ok :: "bytes \<Rightarrow> bool" where
  "location_ok s \<longleftrightarrow> utf8_valid s \<and> length s \<le> HARD_MAX_LOCATION_BYTES"

lemma unat_len: "location_ok s \<Longrightarrow> unat (word_of_nat (length s) :: u64) = length s"
  by (simp add: location_ok_def HARD_MAX_LOCATION_BYTES_def unsigned_of_nat take_bit_nat_eq_self)

lemma read_string_at [cursor]:
  assumes "cursor_at buf pos (put_varint [] (word_of_nat (length s)))"
    and "cursor_at buf (pos + length (put_varint [] (word_of_nat (length s)))) s" and "location_ok s"
  shows "read_string ctx buf pos = Inr (s, pos + length (put_varint [] (word_of_nat (length s))) + length s)"
  using assms(3) cursor_slice_at [OF assms(2) refl, of ctx]
  by (simp add: read_string_def read_varint_usize_at [OF assms(1)] unat_len [OF assms(3)] location_ok_def
      not_less add.assoc del: add.assoc)

section \<open>Descriptors\<close>

definition generation_ok :: "physical_generation \<Rightarrow> bool" where
  "generation_ok g \<longleftrightarrow> length (pg_physical_digest g) = 32 \<and> location_ok (pg_location g)"

definition artifact_ok :: "derived_artifact_ref option \<Rightarrow> bool" where
  "artifact_ok a \<longleftrightarrow> (case a of None \<Rightarrow> True | Some a \<Rightarrow> location_ok (da_location a)
     \<and> length (da_digest a) = 32 \<and> length (da_logical_root a) = 32)"

lemma encode_generation_append: "encode_generation out g = out @ encode_generation [] g"
  by (simp add: encode_generation_def)

lemma encode_artifact_append: "encode_artifact out a = out @ encode_artifact [] a"
  by (simp add: encode_artifact_def split: option.splits)

lemma decode_generation_at [cursor]:
  assumes "cursor_at buf pos (encode_generation [] g)" and "generation_ok g"
  shows "decode_generation buf pos = Inr (g, pos + length (encode_generation [] g))"
  using assms
  by (auto simp: encode_generation_def decode_generation_def Let_def cursor generation_ok_def add.assoc simp del: append_Cons)

lemma decode_artifact_at [cursor]:
  assumes "cursor_at buf pos (encode_artifact [] a)" and "artifact_ok a"
  shows "decode_artifact buf pos = Inr (a, pos + length (encode_artifact [] a))"
  using assms
  by (auto simp: encode_artifact_def decode_artifact_def Let_def cursor artifact_ok_def add.assoc simp del: append_Cons
      split: option.splits)

section \<open>Sequences of descriptors\<close>

lemma cursor_split:
  assumes "cursor_at buf pos bs"
  obtains pre post where "buf = pre @ bs @ post" and "pos = length pre" and "length (pre @ bs @ post) < usize_limit"
proof
  show "buf = take pos buf @ bs @ drop (length bs) (drop pos buf)"
    using assms append_take_drop_id [of "length bs" "drop pos buf"] append_take_drop_id [of pos buf]
    by (auto simp: cursor_at_def simp del: append_take_drop_id)
  then show "length (take pos buf @ bs @ drop (length bs) (drop pos buf)) < usize_limit"
    using assms by (metis cursor_at_def)
  show "pos = length (take pos buf)" using assms by (simp add: cursor_at_def)
qed

lemma framed_codecI:
  assumes "\<And>x buf pos. ok x \<Longrightarrow> cursor_at buf pos (enc x) \<Longrightarrow> dec buf pos = Inr (x, pos + length (enc x))"
  shows "framed_codec enc dec ok"
  using assms cursor_at_mid by unfold_locales blast

context framed_codec
begin

lemma decode_n_at:
  assumes "list_all ok xs" and "cursor_at buf pos (concat (map enc xs))"
  shows "decode_n dec (length xs) buf pos = Inr (xs, pos + length (concat (map enc xs)))"
  using assms(2) decode_n_enc [OF assms(1)] by (auto elim!: cursor_split)

end

interpretation generation_codec: framed_codec "encode_generation []" decode_generation generation_ok
  by (rule framed_codecI) (rule decode_generation_at)

interpretation artifact_codec: framed_codec "encode_artifact []" decode_artifact artifact_ok
  by (rule framed_codecI) (rule decode_artifact_at)

lemma foldl_append_enc:
  assumes "\<And>out x. enc out x = out @ enc [] x"
  shows "foldl enc out xs = out @ concat (map (enc []) xs)"
proof (induction xs arbitrary: out)
  case (Cons x xs)
  show ?case by (simp add: Cons.IH assms [of out x])
qed simp

lemma foldl_encode_generation: "foldl encode_generation out gs = out @ concat (map (encode_generation []) gs)"
  by (rule foldl_append_enc) (rule encode_generation_append)

definition segment_ok :: "segment_descriptor \<Rightarrow> bool" where
  "segment_ok s \<longleftrightarrow> length (sd_logical_root s) = 32 \<and> list_all generation_ok (sd_generations s)
     \<and> artifact_ok (sd_hrki s) \<and> artifact_ok (sd_parquet s) \<and> check_segment_coherence s = Inr ()"

lemma generations_length:
  "list_all generation_ok gs \<Longrightarrow> 8 * length gs \<le> length (concat (map (encode_generation []) gs))"
  by (induction gs) (auto simp: encode_generation_def generation_ok_def)

lemma read_varint_usize_len:
  assumes "cursor_at buf pos (put_varint [] (word_of_nat n))" and "n < usize_limit"
  shows "read_varint_usize (drop pos buf) ctx = Inr (n, length (put_varint [] (word_of_nat n)))"
  using read_varint_usize_at [OF assms(1), of ctx] assms
  by (simp add: cursor_at_def min_def unsigned_of_nat take_bit_nat_eq_self usize_limit_def split: if_splits)

lemma encode_segment_append: "encode_segment out s = out @ encode_segment [] s"
  by (simp add: encode_segment_def Let_def foldl_encode_generation encode_artifact_append [of "_ @ _"]
      encode_artifact_append [of "_ # _"])

lemma encode_segment_Nil:
  "encode_segment [] s = put_varint [] (sd_segment_id s) @ put_varint [] (sd_first_lsn s)
     @ put_varint [] (sd_last_lsn s) @ put_varint [] (sd_record_count s)
     @ to_le_bytes (sd_canonical_codec s) @ sd_logical_root s
     @ put_varint [] (sd_min_hlc s) @ put_varint [] (sd_max_hlc s)
     @ put_varint [] (ucast (sd_active_generation s))
     @ put_varint [] (word_of_nat (length (sd_generations s)))
     @ concat (map (encode_generation []) (sd_generations s))
     @ encode_artifact [] (sd_hrki s) @ encode_artifact [] (sd_parquet s)
     @ [bool_u8 (rp_legal_hold (sd_retention s))] @ put_varint [] (rp_gc_grace_seconds (sd_retention s))
     @ put_varint [] (ucast (rp_min_verified_copies (sd_retention s)))
     @ [bool_u8 (rp_preserve_legacy_original (sd_retention s))]"
  by (simp add: encode_segment_def Let_def foldl_encode_generation encode_artifact_append [of "_ @ _"])

lemma generation_count_bound:
  assumes "list_all generation_ok gs" and "cursor_at buf pos (concat (map (encode_generation []) gs))"
  shows "\<not> Suc ((length buf - pos) div 8) < length gs"
proof -
  have "8 * length gs \<le> length buf - pos"
    using generations_length [OF assms(1)] assms(2) unfolding cursor_at_def by linarith
  then show ?thesis by linarith
qed

lemma generation_count_usize:
  assumes "list_all generation_ok gs" and "cursor_at buf pos (concat (map (encode_generation []) gs))"
  shows "length gs < usize_limit"
  using generations_length [OF assms(1)] assms(2) by (simp add: cursor_at_def)

lemma descriptor_eta:
  "\<lparr>rp_legal_hold = rp_legal_hold r, rp_gc_grace_seconds = rp_gc_grace_seconds r,
     rp_min_verified_copies = rp_min_verified_copies r,
     rp_preserve_legacy_original = rp_preserve_legacy_original r\<rparr> = r"
  "\<lparr>sd_segment_id = sd_segment_id s, sd_first_lsn = sd_first_lsn s, sd_last_lsn = sd_last_lsn s,
     sd_record_count = sd_record_count s, sd_canonical_codec = sd_canonical_codec s,
     sd_logical_root = sd_logical_root s, sd_min_hlc = sd_min_hlc s, sd_max_hlc = sd_max_hlc s,
     sd_active_generation = sd_active_generation s, sd_generations = sd_generations s, sd_hrki = sd_hrki s,
     sd_parquet = sd_parquet s, sd_retention = sd_retention s\<rparr> = s"
  by simp_all

lemma decode_segment_at [cursor]:
  assumes c: "cursor_at buf pos (encode_segment [] s)" and ok: "segment_ok s"
  shows "decode_segment buf pos = Inr (s, pos + length (encode_segment [] s))"
proof -
  from c ok have "length (sd_generations s) < usize_limit"
    by (auto simp: encode_segment_Nil segment_ok_def intro: generation_count_usize simp del: append_Cons)
  with c ok show ?thesis
  apply (simp add: encode_segment_Nil segment_ok_def del: append_Cons)
  apply (elim conjE)
  apply (simp add: decode_segment_def Let_def cursor read_varint_usize_len generation_count_bound
     generation_codec.decode_n_at add.assoc descriptor_eta)
  done
qed

interpretation segment_codec: framed_codec "encode_segment []" decode_segment segment_ok
  by (rule framed_codecI) (rule decode_segment_at)

lemma foldl_encode_segment: "foldl encode_segment out ss = out @ concat (map (encode_segment []) ss)"
  by (rule foldl_append_enc) (rule encode_segment_append)

lemma decode_segments_body:
  assumes "list_all segment_ok ss" and "length (foldl encode_segment [] ss) < usize_limit"
  shows "decode_n decode_segment (length ss) (foldl encode_segment [] ss) 0 = Inr (ss, length (foldl encode_segment [] ss))"
  using segment_codec.decode_n_enc [of ss "[]" "[]"] assms by (simp add: foldl_encode_segment)

section \<open>The file\<close>

definition manifest_ok :: "database_manifest \<Rightarrow> bool" where
  "manifest_ok m \<longleftrightarrow> dm_manifest_version m = 1 \<and> dm_format_identifier m = HRKM_MAGIC
     \<and> length (dm_storage_namespace_id m) = 16 \<and> length (dm_statistics_root_hash m) = 32
     \<and> list_all segment_ok (dm_segments_v2 m) \<and> sorted (map sd_first_lsn (dm_segments_v2 m))"

lemma segments_in_order_sorted: "segments_in_order ss \<longleftrightarrow> sorted (map sd_first_lsn ss)"
  by (induction ss rule: segments_in_order.induct) (auto simp: not_less intro: order_trans)

text \<open>The three parts of the file; the footer without its checksum field.\<close>

definition hrkm_header :: "database_manifest \<Rightarrow> bytes" where
  "hrkm_header m = HRKM_MAGIC @ to_le_bytes HRKM_FORMAT_VERSION @ to_le_bytes (64 :: u16)
     @ to_le_bytes (dm_manifest_generation m) @ dm_storage_namespace_id m
     @ to_le_bytes (dm_cumulative_watermark m) @ to_le_bytes (dm_exported_through_lsn m)
     @ to_le_bytes (word_of_nat (length (dm_segments_v2 m)) :: u32) @ to_le_bytes (0 :: u32) @ replicate 4 0"

definition hrkm_footer :: "hash_fn \<Rightarrow> database_manifest \<Rightarrow> bytes \<Rightarrow> bytes" where
  "hrkm_footer H m body = HRKM_FOOTER_MAGIC @ to_le_bytes (1 :: u16) @ to_le_bytes (96 :: u16)
     @ to_le_bytes (word_of_nat (length body) :: u64) @ H body @ dm_statistics_root_hash m @ replicate 12 0"

definition hrkm_file :: "hash_fn \<Rightarrow> database_manifest \<Rightarrow> bytes \<Rightarrow> u32 \<Rightarrow> bytes" where
  "hrkm_file H m body crc = (hrkm_header m @ to_le_bytes (crc32c (hrkm_header m))) @ body
     @ hrkm_footer H m body @ to_le_bytes crc"

lemma length_magics [simp]: "length HRKM_MAGIC = 4" "length HRKM_FOOTER_MAGIC = 4"
  by (simp_all add: HRKM_MAGIC_def HRKM_FOOTER_MAGIC_def)

lemma length_hrkm_header: "length (dm_storage_namespace_id m) = 16 \<Longrightarrow> length (hrkm_header m) = 60"
  by (simp add: hrkm_header_def)

lemma length_hrkm_footer:
  "length (dm_statistics_root_hash m) = 32 \<Longrightarrow> length (H body) = 32 \<Longrightarrow> length (hrkm_footer H m body) = 92"
  by (simp add: hrkm_footer_def)

lemma overwrite_tail: "n = length xs \<Longrightarrow> length bs = length ys \<Longrightarrow> overwrite n bs (xs @ ys) = xs @ bs"
  by (simp add: overwrite_def)

lemma zero_crc: "to_le_bytes (0 :: u32) = replicate 4 0"
  by code_simp

lemma encode_manifest_Inr:
  assumes e: "encode_manifest H m = Inr out" and ok: "manifest_ok m" and H: "\<forall>x. length (H x) = 32"
  obtains body where "body = foldl encode_segment [] (dm_segments_v2 m)" and "length body \<le> HARD_MAX_BODY_BYTES"
    and "length (dm_segments_v2 m) \<le> unat HARD_MAX_SEGMENTS"
    and "out = hrkm_file H m body (crc32c (hrkm_file H m body 0))"
proof
  let ?body = "foldl encode_segment [] (dm_segments_v2 m)"
  show "?body = ?body" ..
  show "length ?body \<le> HARD_MAX_BODY_BYTES" and "length (dm_segments_v2 m) \<le> unat HARD_MAX_SEGMENTS"
    using e by (simp_all add: encode_manifest_def Let_def split: if_splits)
  let ?h = "hrkm_header m @ to_le_bytes (crc32c (hrkm_header m))" and ?f = "hrkm_footer H m ?body"
  have f: "length ?f = 92" using ok H by (simp add: length_hrkm_footer manifest_ok_def)
  have "replicate 16 0 = replicate 12 (0 :: u8) @ replicate 4 0" by code_simp
  then have "out = overwrite (length (?h @ ?body @ ?f @ replicate 4 0) - HRKM_FOOTER_LEN + FOOTER_CRC_OFFSET)
      (to_le_bytes (crc32c (?h @ ?body @ ?f @ replicate 4 0))) (?h @ ?body @ ?f @ replicate 4 0)"
    using e by (simp add: encode_manifest_def Let_def hrkm_header_def hrkm_footer_def split: if_splits)
  moreover have "overwrite (length (?h @ ?body @ ?f @ replicate 4 0) - HRKM_FOOTER_LEN + FOOTER_CRC_OFFSET)
      (to_le_bytes c) ((?h @ ?body @ ?f) @ replicate 4 0) = (?h @ ?body @ ?f) @ to_le_bytes c" for c :: u32
    using f by (intro overwrite_tail) (simp_all add: HRKM_FOOTER_LEN_def FOOTER_CRC_OFFSET_def)
  ultimately show "out = hrkm_file H m ?body (crc32c (hrkm_file H m ?body 0))"
    by (simp add: hrkm_file_def zero_crc)
qed

lemma hrkm_header_fields:
  assumes "length (dm_storage_namespace_id m) = 16"
  shows "field 0 4 (hrkm_header m @ r) = HRKM_MAGIC" and "field 4 2 (hrkm_header m @ r) = to_le_bytes HRKM_FORMAT_VERSION"
    and "field 6 2 (hrkm_header m @ r) = to_le_bytes (64 :: u16)"
    and "field 8 8 (hrkm_header m @ r) = to_le_bytes (dm_manifest_generation m)"
    and "field 16 16 (hrkm_header m @ r) = dm_storage_namespace_id m"
    and "field 32 8 (hrkm_header m @ r) = to_le_bytes (dm_cumulative_watermark m)"
    and "field 40 8 (hrkm_header m @ r) = to_le_bytes (dm_exported_through_lsn m)"
    and "field 48 4 (hrkm_header m @ r) = to_le_bytes (word_of_nat (length (dm_segments_v2 m)) :: u32)"
    and "field 60 4 (hrkm_header m @ to_le_bytes (c :: u32) @ r) = to_le_bytes c"
    and "take 60 (hrkm_header m @ r) = hrkm_header m"
  using assms by (simp_all add: hrkm_header_def layout_simps)

lemma hrkm_footer_fields:
  assumes "length (dm_statistics_root_hash m) = 32" and "length (H body) = 32"
  shows "field 0 4 (hrkm_footer H m body @ r) = HRKM_FOOTER_MAGIC"
    and "field 6 2 (hrkm_footer H m body @ r) = to_le_bytes (96 :: u16)"
    and "field 8 8 (hrkm_footer H m body @ r) = to_le_bytes (word_of_nat (length body) :: u64)"
    and "field 16 32 (hrkm_footer H m body @ r) = H body"
    and "field 48 32 (hrkm_footer H m body @ r) = dm_statistics_root_hash m"
    and "field 92 4 (hrkm_footer H m body @ to_le_bytes (c :: u32)) = to_le_bytes c"
  using assms by (simp_all add: hrkm_footer_def layout_simps)

lemma hrkm_file_tail:
  fixes body :: bytes and c :: u32
  assumes ok: "manifest_ok m" and H: "\<forall>x. length (H x) = 32"
  defines "f \<equiv> hrkm_file H m body c"
  shows "length f = 160 + length body"
    and "drop (64 + length body) f = hrkm_footer H m body @ to_le_bytes c"
    and "overwrite (156 + length body) (replicate 4 0) f = hrkm_file H m body 0"
    and "take (length body) (drop 64 f) = body"
proof -
  let ?h = "hrkm_header m @ to_le_bytes (crc32c (hrkm_header m))" and ?f = "hrkm_footer H m body"
  have h: "length ?h = 64" and l: "length ?f = 92"
    using ok H by (simp_all add: length_hrkm_header length_hrkm_footer manifest_ok_def)
  have f: "f = ?h @ body @ ?f @ to_le_bytes c" by (simp add: f_def hrkm_file_def)
  show "length f = 160 + length body" "drop (64 + length body) f = ?f @ to_le_bytes c"
    "take (length body) (drop 64 f) = body"
    using h l by (simp_all add: f)
  have "overwrite (156 + length body) (replicate 4 0) ((?h @ body @ ?f) @ to_le_bytes c)
      = (?h @ body @ ?f) @ replicate 4 0"
    using h l by (intro overwrite_tail) simp_all
  then show "overwrite (156 + length body) (replicate 4 0) f = hrkm_file H m body 0"
    by (simp add: f hrkm_file_def zero_crc)
qed

lemma hrkm_file_head:
  fixes H :: hash_fn and body :: bytes and c :: u32
  assumes "manifest_ok m"
  defines "f \<equiv> hrkm_file H m body c"
  shows "field 0 4 f = HRKM_MAGIC" and "field 4 2 f = to_le_bytes HRKM_FORMAT_VERSION"
    and "field 6 2 f = to_le_bytes (64 :: u16)" and "field 8 8 f = to_le_bytes (dm_manifest_generation m)"
    and "field 16 16 f = dm_storage_namespace_id m" and "field 32 8 f = to_le_bytes (dm_cumulative_watermark m)"
    and "field 40 8 f = to_le_bytes (dm_exported_through_lsn m)"
    and "field 48 4 f = to_le_bytes (word_of_nat (length (dm_segments_v2 m)) :: u32)"
    and "field 60 4 f = to_le_bytes (crc32c (hrkm_header m))" and "take 60 f = hrkm_header m"
  using assms hrkm_header_fields [of m] unfolding f_def hrkm_file_def append_assoc manifest_ok_def
  by (simp_all add: length_hrkm_header)

lemma decode_hrkm_file:
  assumes ok: "manifest_ok m" and H: "\<forall>x. length (H x) = 32"
    and body: "body = foldl encode_segment [] (dm_segments_v2 m)" "length body \<le> HARD_MAX_BODY_BYTES"
    and n: "length (dm_segments_v2 m) \<le> unat HARD_MAX_SEGMENTS"
  shows "decode_manifest H (hrkm_file H m body (crc32c (hrkm_file H m body 0))) = Inr m"
proof -
  have u: "unat (word_of_nat (length body) :: u64) = length body"
    using body(2) by (simp add: HARD_MAX_BODY_BYTES_def unsigned_of_nat take_bit_nat_eq_self)
  have c: "unat (word_of_nat (length (dm_segments_v2 m)) :: u32) = length (dm_segments_v2 m)"
    using n by (simp add: HARD_MAX_SEGMENTS_def unsigned_of_nat take_bit_nat_eq_self)
  have d: "decode_n decode_segment (length (dm_segments_v2 m)) body 0 = Inr (dm_segments_v2 m, length body)"
    using ok body by (simp add: decode_segments_body manifest_ok_def HARD_MAX_BODY_BYTES_def usize_limit_def)
  have le: "\<not> HARD_MAX_SEGMENTS < (word_of_nat (length (dm_segments_v2 m)) :: u32)"
    using n c by (simp add: word_less_nat_alt)
  show ?thesis
    using ok H d le u c unfolding decode_manifest_def Let_def
    by (simp add: hrkm_file_tail [OF ok H] hrkm_file_head [OF ok] hrkm_footer_fields manifest_ok_def
        HRKM_HEADER_LEN_def HRKM_FOOTER_LEN_def FOOTER_CRC_OFFSET_def HRKM_FORMAT_VERSION_def
        segments_in_order_sorted)
qed

lemma decode_n_all:
  assumes "\<And>buf pos x p. dec buf pos = Inr (x, p) \<Longrightarrow> P x" and "decode_n dec n buf pos = Inr (xs, p)"
  shows "length xs = n \<and> list_all P xs"
  using assms(2)
proof (induction n arbitrary: pos xs)
  case (Suc n)
  then obtain x q ys where "dec buf pos = Inr (x, q)" "decode_n dec n buf q = Inr (ys, p)" "xs = x # ys"
    by (auto elim!: bindE_InrE)
  then show ?case using Suc.IH [of q ys] assms(1) by auto
qed simp

lemma decode_segment_coherent:
  "decode_segment buf pos = Inr (s, p) \<Longrightarrow> check_segment_coherence s = Inr ()"
  by (auto simp: decode_segment_def Let_def elim!: bindE_InrE split: if_splits)

definition coherent_catalog :: "database_manifest \<Rightarrow> bool" where
  "coherent_catalog m \<longleftrightarrow> list_all (\<lambda>s. check_segment_coherence s = Inr ()) (dm_segments_v2 m)
     \<and> sorted (map sd_first_lsn (dm_segments_v2 m))"

lemma example_manifest_ok: "manifest_ok example_manifest"
  by (simp add: manifest_ok_def example_manifest_def example_segment_def HRKM_MAGIC_def segment_ok_def
      generation_ok_def artifact_ok_def location_ok_def HARD_MAX_LOCATION_BYTES_def
      check_segment_coherence_def active_generation_def saturating_add_def)

lemma example_body: "length (foldl encode_segment [] (dm_segments_v2 example_manifest)) < 1000"
  by code_simp

section \<open>Properties\<close>

text \<open>C33. Whatever bytes \<open>decode_manifest\<close> accepts, the catalogue it returns is usable: every descriptor
  passes the coherence check, the segments are ordered by \<open>first_lsn\<close> (so the binary search applies),
  there are as many as the header declares and at most \<open>2\<^sup>2\<^sup>4\<close>, and the digest in the footer is the
  digest of the body.\<close>

theorem decode_manifest_sound:
  assumes "decode_manifest H buf = Inr m"
  shows "coherent_catalog m \<and> length (dm_segments_v2 m) \<le> 16777216
    \<and> length (dm_segments_v2 m) = unat (from_le_bytes (field 48 4 buf) :: u32)
    \<and> H (take (length buf - 160) (drop 64 buf)) = field 16 32 (drop (length buf - 96) buf)"
proof -
  let ?n = "from_le_bytes (field 48 4 buf) :: u32"
  from assms obtain ss p where ss: "decode_n decode_segment (unat ?n) (take (length buf - 160) (drop 64 buf)) 0 = Inr (ss, p)"
    and m: "dm_segments_v2 m = ss" and sorted: "segments_in_order ss" and n: "?n \<le> HARD_MAX_SEGMENTS"
    and H: "H (take (length buf - 160) (drop 64 buf)) = field 16 32 (drop (length buf - 96) buf)"
    by (auto simp: decode_manifest_def Let_def HRKM_HEADER_LEN_def HRKM_FOOTER_LEN_def not_less
        elim!: bindE_InrE split: if_splits)
  have "length ss = unat ?n" "list_all (\<lambda>s. check_segment_coherence s = Inr ()) ss"
    using decode_n_all [of decode_segment "\<lambda>s. check_segment_coherence s = Inr ()", OF decode_segment_coherent ss]
    by simp_all
  moreover have "unat ?n \<le> 16777216"
    using n by (simp add: word_le_nat_alt HARD_MAX_SEGMENTS_def)
  ultimately show ?thesis
    using H sorted by (simp add: coherent_catalog_def m segments_in_order_sorted)
qed

lemma decode_manifest_sound_witness: "\<exists>buf. decode_manifest (\<lambda>_. replicate 32 5) buf = Inr example_manifest
    \<and> coherent_catalog example_manifest \<and> length (dm_segments_v2 example_manifest) \<le> 16777216"
proof -
  have "length (foldl encode_segment [] (dm_segments_v2 example_manifest)) \<le> HARD_MAX_BODY_BYTES"
    "length (dm_segments_v2 example_manifest) \<le> unat HARD_MAX_SEGMENTS"
    using example_body by (simp_all add: HARD_MAX_BODY_BYTES_def HARD_MAX_SEGMENTS_def example_manifest_def)
  note d = decode_hrkm_file [OF example_manifest_ok, of "\<lambda>_. replicate 32 5", OF _ refl this]
  show ?thesis
    using d decode_manifest_sound [OF d] by auto
qed

lemma encode_then_decode:
  assumes "encode_manifest H m = Inr out" and "manifest_ok m" and "\<forall>x. length (H x) = 32"
  shows "decode_manifest H out = Inr m"
  using decode_hrkm_file [OF assms(2,3)] encode_manifest_Inr [OF assms] by (auto simp del: One_nat_def)

text \<open>C26. The catalogue survives the disk: a manifest whose descriptors are coherent and ordered and whose
  locations are UTF-8 strings of bounded length is encoded unless it exceeds one of the two size caps,
  and what \<open>encode_manifest\<close> wrote \<open>decode_manifest\<close> reads back exactly, for any 32-byte digest.\<close>

theorem manifest_roundtrip:
  assumes "manifest_ok m" and "\<forall>x. length (H x) = 32"
  shows "case encode_manifest H m of
      Inr out \<Rightarrow> decode_manifest H out = Inr m
    | Inl e \<Rightarrow> length (dm_segments_v2 m) > 16777216 \<or> length (foldl encode_segment [] (dm_segments_v2 m)) > 536870912"
proof (cases "encode_manifest H m")
  case (Inl e)
  then show ?thesis
    by (auto simp: encode_manifest_def Let_def HARD_MAX_SEGMENTS_def HARD_MAX_BODY_BYTES_def split: if_splits)
next
  case (Inr out)
  then show ?thesis
    using encode_then_decode [OF Inr assms] by simp
qed

lemma manifest_roundtrip_witness:
  "\<exists>out. encode_manifest (\<lambda>_. replicate 32 5) example_manifest = Inr out
    \<and> decode_manifest (\<lambda>_. replicate 32 5) out = Inr example_manifest"
proof -
  have "\<not> length (dm_segments_v2 example_manifest) > 16777216"
    "\<not> length (foldl encode_segment [] (dm_segments_v2 example_manifest)) > 536870912"
    using example_body by (simp_all add: example_manifest_def)
  then show ?thesis
    using manifest_roundtrip [OF example_manifest_ok, of "\<lambda>_. replicate 32 5"]
    by (auto split: sum.splits)
qed

end
