(* ===== verification/Manifest_Ops.thy ===== *)
theory Manifest_Ops
  imports Manifest_Correct V6_Receipts
begin

text \<open>
  \<open>heraclitus-log/src/v6/manifest.rs\<close>, second part: the operations on the catalogue. A function that
  takes \<open>&mut DatabaseManifest\<close> returns its result together with the manifest it leaves behind, because
  some of them fail after they have written. The last section turns them into a step relation and
  shows what every reachable catalogue satisfies.
\<close>

section \<open>Operations\<close>

definition register_sealed_raw :: "database_manifest \<Rightarrow> segment_id \<Rightarrow> footer \<Rightarrow> u16 \<Rightarrow> bytes \<Rightarrow> u64 \<Rightarrow> bytes
    \<Rightarrow> u64 \<Rightarrow> unit v6_result \<times> database_manifest" where
  "register_sealed_raw m sid f canonical_codec location physical_size digest now_hlc =
     (let CTX = ''hrkm register'' in
     if (case segment m sid of Some existing \<Rightarrow> sd_logical_root existing \<noteq> ft_logical_root f | None \<Rightarrow> False)
     then (Inl (corrupt CTX ''segment is already catalogued with a different logical_root''), m)
     else (let gen = \<lparr>pg_generation = 0, pg_layout = Layout_Raw, pg_compression = Codec_Raw,
             pg_location = location, pg_physical_size = physical_size, pg_physical_digest = digest,
             pg_state = Active, pg_created_hlc = now_hlc, pg_verified_hlc = now_hlc, pg_superseded_hlc = 0,
             pg_verified_copies = 1\<rparr>;
           desc = \<lparr>sd_segment_id = sid, sd_first_lsn = ft_min_lsn f, sd_last_lsn = ft_max_lsn f,
             sd_record_count = ft_record_count f, sd_canonical_codec = canonical_codec,
             sd_logical_root = ft_logical_root f, sd_min_hlc = ft_min_hlc f, sd_max_hlc = ft_max_hlc f,
             sd_active_generation = 0, sd_generations = [gen], sd_hrki = None, sd_parquet = None,
             sd_retention = default_retention\<rparr>
       in case check_segment_coherence desc of
          Inl e \<Rightarrow> (Inl e, m)
        | Inr _ \<Rightarrow> (let m = upsert_segment desc m
            in (Inr (), m\<lparr>dm_cumulative_watermark := max (dm_cumulative_watermark m) (ft_max_lsn f)\<rparr>))))"

definition record_pack :: "database_manifest \<Rightarrow> pack_receipt \<Rightarrow> bytes \<Rightarrow> u64
    \<Rightarrow> unit v6_result \<times> database_manifest" where
  "record_pack m receipt target_location now_hlc = (let CTX = ''hrkm record_pack'' in
     case segment m (pr_segment_id receipt) of
       None \<Rightarrow> (Inl (corrupt CTX ''segment is not catalogued''), m)
     | Some desc \<Rightarrow>
       if sd_logical_root desc \<noteq> pr_logical_root receipt
       then (Inl (corrupt CTX ''pack receipt logical_root differs from the catalogued segment; refusing to record''), m)
       else if generation_of_number desc (pr_target_generation receipt) \<noteq> None
       then (Inl (corrupt CTX ''target generation already recorded; generations are immutable''), m)
       else (let desc = desc\<lparr>sd_generations := sd_generations desc @ [\<lparr>pg_generation = pr_target_generation receipt,
               pg_layout = Layout_Packed, pg_compression = pr_codec receipt, pg_location = target_location,
               pg_physical_size = pr_target_physical_size receipt,
               pg_physical_digest = pr_target_physical_digest receipt, pg_state = Active,
               pg_created_hlc = now_hlc, pg_verified_hlc = now_hlc, pg_superseded_hlc = 0,
               pg_verified_copies = 1\<rparr>]\<rparr>;
             desc = desc\<lparr>sd_active_generation := pr_target_generation receipt\<rparr>;
             desc = modify_generation (pr_source_generation receipt)
               (\<lambda>src. if pg_state src \<noteq> Quarantined
                      then src\<lparr>pg_state := Superseded, pg_superseded_hlc := now_hlc\<rparr> else src) desc
         in (check_segment_coherence desc, write_segment (pr_segment_id receipt) desc m)))"

text \<open>\<open>max_by_key\<close> returns the last of several maximal elements.\<close>

fun max_by_key :: "('a \<Rightarrow> 'k::linorder) \<Rightarrow> 'a list \<Rightarrow> 'a option" where
  "max_by_key k [] = None"
| "max_by_key k (x # xs) = (case max_by_key k xs of
     None \<Rightarrow> Some x | Some y \<Rightarrow> Some (if k x \<le> k y then y else x))"

text \<open>The key \<open>(u8::from(layout == Packed), generation)\<close>, compared lexicographically.\<close>

definition authority_rank :: "physical_generation \<Rightarrow> nat" where
  "authority_rank g = (if pg_layout g = Layout_Packed then 4294967296 else 0) + unat (pg_generation g)"

definition best_authority :: "segment_descriptor \<Rightarrow> physical_generation option" where
  "best_authority desc = max_by_key authority_rank (filter is_canonical_authority (sd_generations desc))"

definition quarantine_generation :: "database_manifest \<Rightarrow> segment_id \<Rightarrow> u32 \<Rightarrow> u64
    \<Rightarrow> u32 v6_result \<times> database_manifest" where
  "quarantine_generation m sid generation now_hlc = (let CTX = ''hrkm quarantine'' in
     case segment m sid of
       None \<Rightarrow> (Inl (corrupt CTX ''segment is not catalogued''), m)
     | Some desc \<Rightarrow>
       if generation_of_number desc generation = None
       then (Inl (corrupt CTX ''generation does not exist''), m)
       else (let desc = modify_generation generation
               (\<lambda>g. g\<lparr>pg_state := Quarantined, pg_superseded_hlc := now_hlc\<rparr>) desc
         in case best_authority desc of
            Some g \<Rightarrow> (let desc = desc\<lparr>sd_active_generation := pg_generation g\<rparr>;
                  desc = modify_generation (pg_generation g)
                    (\<lambda>gg. if pg_state gg = Superseded then gg\<lparr>pg_state := Active, pg_superseded_hlc := 0\<rparr> else gg)
                    desc
              in (Inr (pg_generation g), write_segment sid desc m))
          | None \<Rightarrow> (Inl (corrupt CTX ''segment has no remaining canonical authority after quarantine''),
                     write_segment sid desc m)))"

definition attach_sidecar :: "database_manifest \<Rightarrow> segment_id \<Rightarrow> derived_artifact_ref
    \<Rightarrow> unit v6_result \<times> database_manifest" where
  "attach_sidecar m sid artifact = (let CTX = ''hrkm attach_sidecar'' in
     case segment m sid of
       None \<Rightarrow> (Inl (corrupt CTX ''segment is not catalogued''), m)
     | Some desc \<Rightarrow>
       if da_logical_root artifact \<noteq> sd_logical_root desc
       then (Inl (corrupt CTX ''sidecar logical_root does not match the segment''), m)
       else (Inr (), write_segment sid (desc\<lparr>sd_hrki := Some artifact\<rparr>) m))"

definition parquet_valid :: "segment_descriptor \<Rightarrow> bool" where
  "parquet_valid s = (case sd_parquet s of Some p \<Rightarrow> da_logical_root p = sd_logical_root s | None \<Rightarrow> False)"

fun contiguous_from :: "lsn \<Rightarrow> segment_descriptor list \<Rightarrow> lsn" where
  "contiguous_from watermark [] = watermark"
| "contiguous_from watermark (s # ss) =
     (if \<not> parquet_valid s then watermark else contiguous_from (sd_last_lsn s) ss)"

definition contiguous_exported_lsn :: "database_manifest \<Rightarrow> lsn" where
  "contiguous_exported_lsn m = contiguous_from 0 (dm_segments_v2 m)"

definition attach_parquet :: "database_manifest \<Rightarrow> segment_id \<Rightarrow> derived_artifact_ref
    \<Rightarrow> unit v6_result \<times> database_manifest" where
  "attach_parquet m sid artifact = (let CTX = ''hrkm attach_parquet'' in
     case segment m sid of
       None \<Rightarrow> (Inl (corrupt CTX ''segment is not catalogued''), m)
     | Some desc \<Rightarrow>
       if da_logical_root artifact \<noteq> sd_logical_root desc
       then (Inl (corrupt CTX ''parquet logical_root does not match the segment''), m)
       else (let m = write_segment sid (desc\<lparr>sd_parquet := Some artifact\<rparr>) m
         in (Inr (), m\<lparr>dm_exported_through_lsn :=
               max (contiguous_exported_lsn m) (min (dm_exported_through_lsn m) (sd_last_lsn desc))\<rparr>)))"

definition set_legal_hold :: "database_manifest \<Rightarrow> segment_id \<Rightarrow> bool \<Rightarrow> unit v6_result \<times> database_manifest" where
  "set_legal_hold m sid hold = (case segment m sid of
       None \<Rightarrow> (Inl (corrupt ''hrkm legal_hold'' ''segment is not catalogued''), m)
     | Some desc \<Rightarrow> (Inr (), write_segment sid
         (desc\<lparr>sd_retention := (sd_retention desc)\<lparr>rp_legal_hold := hold\<rparr>\<rparr>) m))"

definition set_verified_copies :: "database_manifest \<Rightarrow> segment_id \<Rightarrow> u32 \<Rightarrow> u32
    \<Rightarrow> unit v6_result \<times> database_manifest" where
  "set_verified_copies m sid generation copies = (let CTX = ''hrkm verified_copies'' in
     case segment m sid of
       None \<Rightarrow> (Inl (corrupt CTX ''segment is not catalogued''), m)
     | Some desc \<Rightarrow>
       if generation_of_number desc generation = None
       then (Inl (corrupt CTX ''generation does not exist''), m)
       else (Inr (), write_segment sid (modify_generation generation
               (\<lambda>g. g\<lparr>pg_verified_copies := copies\<rparr>) desc) m))"

record loaded_manifest =
  lo_manifest :: database_manifest
  lo_generation :: u64
  lo_digest :: bytes
  lo_path :: bytes
  lo_recovered_by_scan :: bool

record boot_report =
  br_manifest_generation :: u64
  br_segments :: nat
  br_records :: u64
  br_committed_lsn :: lsn
  br_canonical_bytes :: u64
  br_derived_bytes :: u64
  br_packing_queue :: "segment_id list"
  br_sidecar_queue :: "segment_id list"
  br_lakehouse_queue :: "segment_id list"
  br_recovered_by_scan :: bool
  br_segments_without_authority :: "segment_id list"

definition boot_report_of :: "loaded_manifest \<Rightarrow> boot_report" where
  "boot_report_of loaded = (let m = lo_manifest loaded; (canonical_bytes, derived_bytes) = storage_bytes m
     in \<lparr>br_manifest_generation = lo_generation loaded, br_segments = length (dm_segments_v2 m),
       br_records = total_records m, br_committed_lsn = dm_cumulative_watermark m,
       br_canonical_bytes = canonical_bytes, br_derived_bytes = derived_bytes,
       br_packing_queue = packing_queue m, br_sidecar_queue = sidecar_queue m,
       br_lakehouse_queue = lakehouse_queue m, br_recovered_by_scan = lo_recovered_by_scan loaded,
       br_segments_without_authority =
         map sd_segment_id (filter (\<lambda>s. canonical_authorities s = []) (dm_segments_v2 m))\<rparr>)"

end
