(* ===== verification/Manifest_Store.thy ===== *)
theory Manifest_Store
  imports Manifest_Ops "HOL-Library.AList"
begin

text \<open>
  \<open>heraclitus-log/src/v6/manifest.rs\<close>, third part: \<open>ManifestStore\<close>, the directory of numbered manifest
  files with its \<open>CURRENT\<close> pointer. A directory is the association list of its file names and
  contents; names and paths inside it are the bytes of their UTF-8 encoding, and I/O errors of the
  operating system other than a missing file are not modelled. The commit protocol is the list of the
  file operations it performs, so that a crash can stop it anywhere.
\<close>

type_synonym file_name = bytes
type_synonym directory = "(file_name \<times> bytes) list"

section \<open>Strings\<close>

text \<open>\<open>{:010}\<close> and \<open>str::parse::<u64>()\<close>.\<close>

fun decimal :: "nat \<Rightarrow> bytes" where
  "decimal n = (if n < 10 then [word_of_nat (48 + n)] else decimal (n div 10) @ [word_of_nat (48 + n mod 10)])"

declare decimal.simps [simp del]

definition pad10 :: "nat \<Rightarrow> bytes" where
  "pad10 n = replicate (10 - length (decimal n)) 48 @ decimal n"

definition is_digit :: "u8 \<Rightarrow> bool" where
  "is_digit b = (48 \<le> b \<and> b \<le> 57)"

definition digits_value :: "bytes \<Rightarrow> nat" where
  "digits_value s = foldl (\<lambda>v b. 10 * v + (unat b - 48)) 0 s"

definition parse_u64 :: "bytes \<Rightarrow> u64 option" where
  "parse_u64 s = (let ds = (case s of b # r \<Rightarrow> if b = 43 then r else s | [] \<Rightarrow> []) in
     if ds \<noteq> [] \<and> list_all is_digit ds \<and> digits_value ds < 18446744073709551616
     then Some (word_of_nat (digits_value ds)) else None)"

definition strip_prefix :: "bytes \<Rightarrow> bytes \<Rightarrow> bytes option" where
  "strip_prefix p s = (if take (length p) s = p then Some (drop (length p) s) else None)"

definition strip_suffix :: "bytes \<Rightarrow> bytes \<Rightarrow> bytes option" where
  "strip_suffix p s = map_option rev (strip_prefix (rev p) (rev s))"

text \<open>\<open>str::lines\<close>: split after each newline, drop it and a carriage return before it.\<close>

definition chomp :: "bytes \<Rightarrow> bytes" where
  "chomp l = (if l \<noteq> [] \<and> last l = 13 then butlast l else l)"

fun lines_from :: "bytes \<Rightarrow> bytes \<Rightarrow> bytes list" where
  "lines_from cur [] = (if cur = [] then [] else [cur])"
| "lines_from cur (b # bs) = (if b = 10 then chomp cur # lines_from [] bs else lines_from (cur @ [b]) bs)"

definition lines :: "bytes \<Rightarrow> bytes list" where
  "lines s = lines_from [] s"

text \<open>\<open>str::trim\<close>: the characters with the Unicode property \<open>White_Space\<close>, in UTF-8.\<close>

definition white_space :: "bytes list" where
  "white_space = [[9], [10], [11], [12], [13], [32], [0xC2, 0x85], [0xC2, 0xA0], [0xE1, 0x9A, 0x80],
     [0xE2, 0x80, 0x80], [0xE2, 0x80, 0x81], [0xE2, 0x80, 0x82], [0xE2, 0x80, 0x83], [0xE2, 0x80, 0x84],
     [0xE2, 0x80, 0x85], [0xE2, 0x80, 0x86], [0xE2, 0x80, 0x87], [0xE2, 0x80, 0x88], [0xE2, 0x80, 0x89],
     [0xE2, 0x80, 0x8A], [0xE2, 0x80, 0xA8], [0xE2, 0x80, 0xA9], [0xE2, 0x80, 0xAF], [0xE2, 0x81, 0x9F],
     [0xE3, 0x80, 0x80]]"

function strip_front :: "bytes list \<Rightarrow> bytes \<Rightarrow> bytes" where
  "strip_front ws s = (case find (\<lambda>w. w \<noteq> [] \<and> take (length w) s = w) ws of
     Some w \<Rightarrow> strip_front ws (drop (length w) s) | None \<Rightarrow> s)"
  by pat_completeness simp

termination
proof (relation "measure (\<lambda>(ws, s). length s)")
  fix ws :: "bytes list" and s w
  assume f: "find (\<lambda>w. w \<noteq> [] \<and> take (length w) s = w) ws = Some w"
  have w: "w \<noteq> []" "take (length w) s = w" using find_Some_mem [OF f] by simp_all
  then have "s \<noteq> []" by (cases s) auto
  then show "((ws, drop (length w) s), (ws, s)) \<in> measure (\<lambda>(ws, s). length s)"
    using w(1) by simp
qed simp

declare strip_front.simps [simp del]

definition trim :: "bytes \<Rightarrow> bytes" where
  "trim s = rev (strip_front (map rev white_space) (rev (strip_front white_space s)))"

definition hex_digit :: "nat \<Rightarrow> u8" where
  "hex_digit n = (if n < 10 then word_of_nat (48 + n) else word_of_nat (87 + n))"

definition hex32 :: "bytes \<Rightarrow> bytes" where
  "hex32 b = concat (map (\<lambda>x. [hex_digit (unat x div 16), hex_digit (unat x mod 16)]) b)"

section \<open>Names\<close>

definition CURRENT_FILE :: file_name where
  "CURRENT_FILE = ascii ''CURRENT''"

definition path_for :: "u64 \<Rightarrow> file_name" where
  "path_for generation = ascii ''manifest-'' @ pad10 (unat generation) @ ascii ''.hrkm''"

definition generation_of :: "file_name \<Rightarrow> u64 option" where
  "generation_of name = Option.bind (strip_prefix (ascii ''manifest-'') name) (\<lambda>r.
     Option.bind (strip_suffix (ascii ''.hrkm'') r) parse_u64)"

definition with_suffix :: "file_name \<Rightarrow> bytes \<Rightarrow> file_name" where
  "with_suffix name suffix = name @ suffix"

definition TMP :: bytes where
  "TMP = ascii ''.tmp''"

section \<open>Loading\<close>

definition generations :: "directory \<Rightarrow> u64 list" where
  "generations d = sort (List.map_filter generation_of (map fst d))"

definition load_from_current :: "hash_fn \<Rightarrow> directory \<Rightarrow> loaded_manifest option" where
  "load_from_current H d = (case map_of d CURRENT_FILE of
     None \<Rightarrow> None
   | Some raw \<Rightarrow>
     if \<not> utf8_valid raw then None
     else (case lines raw of
       [] \<Rightarrow> None
     | first # rest \<Rightarrow> (let name = trim first in
         if name = [] \<or> 0x2F \<in> set name \<or> 0x5C \<in> set name then None
         else (case map_of d name of
           None \<Rightarrow> None
         | Some bytes \<Rightarrow> (let digest = manifest_digest H bytes in
             if (case rest of [] \<Rightarrow> False | l # _ \<Rightarrow> trim l \<noteq> [] \<and> trim l \<noteq> hex32 digest) then None
             else (case decode_manifest H bytes of
               Inl e \<Rightarrow> None
             | Inr manifest \<Rightarrow> Some \<lparr>lo_manifest = manifest, lo_generation = dm_manifest_generation manifest,
                 lo_digest = digest, lo_path = name, lo_recovered_by_scan = False\<rparr>))))))"

fun load_by_scan :: "hash_fn \<Rightarrow> directory \<Rightarrow> u64 list \<Rightarrow> loaded_manifest option" where
  "load_by_scan H d [] = None"
| "load_by_scan H d (g # gs) = (case map_of d (path_for g) of
     None \<Rightarrow> load_by_scan H d gs
   | Some bytes \<Rightarrow> (case decode_manifest H bytes of
       Inl e \<Rightarrow> load_by_scan H d gs
     | Inr manifest \<Rightarrow> Some \<lparr>lo_manifest = manifest, lo_generation = dm_manifest_generation manifest,
         lo_digest = manifest_digest H bytes, lo_path = path_for g, lo_recovered_by_scan = True\<rparr>))"

definition load :: "hash_fn \<Rightarrow> directory \<Rightarrow> loaded_manifest option" where
  "load H d = (case load_from_current H d of
     Some loaded \<Rightarrow> Some loaded | None \<Rightarrow> load_by_scan H d (rev (generations d)))"

definition next_generation :: "directory \<Rightarrow> u64" where
  "next_generation d = (if generations d = [] then 1 else last (generations d) + 1)"

section \<open>Committing\<close>

datatype dir_op =
    WriteAndSync file_name bytes
  | Rename file_name file_name
  | SyncDir

fun run_op :: "dir_op \<Rightarrow> directory \<Rightarrow> directory v6_result" where
  "run_op (WriteAndSync name bytes) d = Inr (AList.update name bytes d)"
| "run_op (Rename a b) d = (case map_of d a of
     None \<Rightarrow> Inl (StorageIo ''No such file or directory'')
   | Some c \<Rightarrow> Inr (AList.update b c (AList.delete a d)))"
| "run_op SyncDir d = Inr d"

definition run_ops :: "dir_op list \<Rightarrow> directory \<Rightarrow> directory v6_result" where
  "run_ops ops d = foldE (\<lambda>d op. run_op op d) d ops"

text \<open>The two halves of the protocol, in the order of the source.\<close>

definition commit_ops :: "hash_fn \<Rightarrow> u64 \<Rightarrow> bytes \<Rightarrow> dir_op list" where
  "commit_ops H generation bytes = (let final_path = path_for generation;
       tmp = with_suffix final_path TMP;
       current_tmp = with_suffix CURRENT_FILE TMP;
       payload = final_path @ [10] @ hex32 (manifest_digest H bytes) @ [10]
     in [WriteAndSync tmp bytes, Rename tmp final_path, SyncDir,
         WriteAndSync current_tmp payload, Rename current_tmp CURRENT_FILE, SyncDir])"

definition commit :: "hash_fn \<Rightarrow> directory \<Rightarrow> database_manifest
    \<Rightarrow> loaded_manifest v6_result \<times> database_manifest \<times> directory" where
  "commit H d manifest = (let generation = next_generation d;
       manifest = manifest\<lparr>dm_manifest_generation := generation, dm_format_identifier := HRKM_MAGIC\<rparr>;
       final_path = path_for generation
     in if map_of d final_path \<noteq> None
        then (Inl (corrupt ''hrkm commit'' ''manifest generation already exists; generations are immutable''), manifest, d)
        else (case encode_manifest H manifest of
          Inl e \<Rightarrow> (Inl e, manifest, d)
        | Inr bytes \<Rightarrow> (case run_ops (commit_ops H generation bytes) d of
            Inl e \<Rightarrow> (Inl e, manifest, d)
          | Inr d \<Rightarrow> (Inr \<lparr>lo_manifest = manifest, lo_generation = generation, lo_digest = manifest_digest H bytes,
              lo_path = final_path, lo_recovered_by_scan = False\<rparr>, manifest, d))))"

section \<open>Cleaning up\<close>

text \<open>\<open>path.extension() == Some("tmp")\<close>: the part after the last dot, when the dot is not the first byte.\<close>

definition extension :: "file_name \<Rightarrow> bytes option" where
  "extension name = (let ext = rev (takeWhile (\<lambda>b. b \<noteq> 0x2E) (rev name)) in
     if length ext + 1 < length name then Some ext else None)"

definition sweep_orphan_temps :: "directory \<Rightarrow> file_name list \<times> directory" where
  "sweep_orphan_temps d = (let removed = filter (\<lambda>n. extension n = Some (ascii ''tmp'')) (map fst d)
     in (removed, filter (\<lambda>(n, c). n \<notin> set removed) d))"

fun prune_loop :: "nat \<Rightarrow> u64 option \<Rightarrow> nat \<Rightarrow> u64 list \<Rightarrow> directory \<Rightarrow> file_name list
    \<Rightarrow> file_name list v6_result \<times> directory" where
  "prune_loop keep_from corrente i [] d removed = (Inr removed, d)"
| "prune_loop keep_from corrente i (g # gs) d removed =
     (if keep_from \<le> i \<or> Some g = corrente then prune_loop keep_from corrente (i + 1) gs d removed
      else (case map_of d (path_for g) of
          None \<Rightarrow> (Inl (StorageIo ''No such file or directory''), d)
        | Some _ \<Rightarrow> prune_loop keep_from corrente (i + 1) gs (AList.delete (path_for g) d) (removed @ [path_for g])))"

definition prune_old_manifests :: "hash_fn \<Rightarrow> directory \<Rightarrow> nat \<Rightarrow> file_name list v6_result \<times> directory" where
  "prune_old_manifests H d keep = (let corrente = map_option lo_generation (load_from_current H d);
       gens = generations d;
       manter_a_partir = length gens - max keep 1
     in prune_loop manter_a_partir corrente 0 gens d [])"

end
