(* ===== verification/V6_Verify.thy ===== *)
theory V6_Verify
  imports V6_Packed_Store V6_Raw_Durable V6_Receipts Manifest_Store
begin

text \<open>
  \<open>heraclitus-log/src/v6/verify.rs\<close>: integrity levels, the verification report of a segment file and the
  forensic proof of one LSN. A segment file is its bytes; the canonical hasher is the closure of the
  source, a function from a persisted record to its hash or an error.
\<close>

datatype integrity_level = Fast | Physical | Logical | Forensic

instantiation integrity_level :: linorder
begin

fun level_rank :: "integrity_level \<Rightarrow> nat" where
  "level_rank Fast = 0" | "level_rank Physical = 1" | "level_rank Logical = 2" | "level_rank Forensic = 3"

definition less_eq_integrity_level :: "integrity_level \<Rightarrow> integrity_level \<Rightarrow> bool" where
  "less_eq_integrity_level a b = (level_rank a \<le> level_rank b)"

definition less_integrity_level :: "integrity_level \<Rightarrow> integrity_level \<Rightarrow> bool" where
  "less_integrity_level a b = (level_rank a < level_rank b)"

lemma level_rank_inj: "level_rank a = level_rank b \<Longrightarrow> a = b"
  by (cases a; cases b) simp_all

instance
  by standard (auto simp: less_eq_integrity_level_def less_integrity_level_def intro: level_rank_inj)

end

text \<open>The notes of a report, one constructor for each text the source formats.\<close>

datatype verify_note =
    NotSealed
  | TornTail u64
  | BadBlock nat heraclitus_error
  | AttestationImprint bytes

record verify_report =
  vr_level :: integrity_level
  vr_layout :: physical_layout
  vr_segment_id :: segment_id
  vr_record_count :: u64
  vr_min_lsn :: lsn
  vr_max_lsn :: lsn
  vr_block_count :: u32
  vr_declared_root :: bytes
  vr_recomputed_root :: "bytes option"
  vr_physical_ok :: bool
  vr_logical_ok :: "bool option"
  vr_counters :: scan_counters
  vr_notes :: "verify_note list"

definition report_is_ok :: "verify_report \<Rightarrow> bool" where
  "report_is_ok r = (vr_physical_ok r \<and> (case vr_logical_ok r of None \<Rightarrow> True | Some ok \<Rightarrow> ok))"

definition default_counters :: scan_counters where
  "default_counters = \<lparr>sc_blocks_candidate = 0, sc_blocks_pruned = 0, sc_blocks_read = 0,
     sc_bytes_physical_read = 0, sc_bytes_decompressed = 0\<rparr>"

definition read_head :: "bytes \<Rightarrow> physical_layout v6_result" where
  "read_head content = (if length content < FILE_HEADER_LEN then Inl (StorageIo ''failed to fill whole buffer'')
     else bindE (header_decode (take FILE_HEADER_LEN content)) (\<lambda>h. Inr (fh_physical_layout h)))"

section \<open>RAW\<close>

definition unsealed_footer :: "raw_record list \<Rightarrow> footer" where
  "unsealed_footer records = \<lparr>ft_record_count = word_of_nat (length records),
     ft_min_lsn = (case records of [] \<Rightarrow> 0 | r # _ \<Rightarrow> rr_lsn r),
     ft_max_lsn = (if records = [] then 0 else rr_lsn (last records)),
     ft_min_hlc = (if records = [] then 0 else Min (set (map rr_hlc records))),
     ft_max_hlc = (if records = [] then 0 else Max (set (map rr_hlc records))),
     ft_block_count = 0, ft_flags = 0, ft_block_directory_offset = 0, ft_block_directory_len = 0,
     ft_logical_root = replicate 32 0\<rparr>"

definition push_hashed :: "hash_fn \<Rightarrow> record_hasher \<Rightarrow> merkle_acc \<Rightarrow> raw_record \<Rightarrow> merkle_acc v6_result" where
  "push_hashed H hasher acc r = bindE (hasher (rr_lsn r) (rr_hlc r) (rr_payload r)) (\<lambda>h. Inr (push_record_hash H acc h))"

definition verify_raw :: "hash_fn \<Rightarrow> bytes \<Rightarrow> integrity_level \<Rightarrow> record_hasher option \<Rightarrow> verify_report v6_result" where
  "verify_raw H content level hasher = (let CTX = ''hrkl v6 verify raw'' in
     bindE (scan_raw_bytes content) (\<lambda>scan.
     let records = rs_records scan;
         (footer, notes) = (case rs_footer scan of Some f \<Rightarrow> (f, []) | None \<Rightarrow> (unsealed_footer records, [NotSealed]));
         notes = notes @ (case rs_torn_at scan of Some at \<Rightarrow> [TornTail at] | None \<Rightarrow> []);
         report = \<lparr>vr_level = level, vr_layout = Layout_Raw, vr_segment_id = fh_segment_id (rs_header scan),
           vr_record_count = word_of_nat (length records), vr_min_lsn = ft_min_lsn footer,
           vr_max_lsn = ft_max_lsn footer, vr_block_count = 0, vr_declared_root = ft_logical_root footer,
           vr_recomputed_root = None, vr_physical_ok = True, vr_logical_ok = None,
           vr_counters = default_counters, vr_notes = notes\<rparr>
     in if Logical \<le> level
        then (case hasher of
            None \<Rightarrow> Inl (corrupt CTX ''LOGICAL verification requires a canonical hasher'')
          | Some hasher \<Rightarrow> bindE (foldE (push_hashed H hasher) merkle_new records) (\<lambda>acc.
              let root = merkle_finalize H acc in
              Inr (report\<lparr>vr_recomputed_root := Some root, vr_logical_ok := Some (root = ft_logical_root footer)\<rparr>)))
        else Inr report))"

section \<open>PACKED\<close>

fun read_every_block :: "codecs \<Rightarrow> packed_reader \<Rightarrow> nat list \<Rightarrow> scan_counters \<Rightarrow> bool \<Rightarrow> verify_note list
    \<Rightarrow> scan_counters \<times> bool \<times> verify_note list" where
  "read_every_block cs r [] c physical_ok notes = (c, physical_ok, notes)"
| "read_every_block cs r (i # is) c physical_ok notes = (case read_block cs r i c of
     (Inr _, c) \<Rightarrow> read_every_block cs r is c physical_ok notes
   | (Inl e, c) \<Rightarrow> read_every_block cs r is c False (notes @ [BadBlock i e]))"

definition push_counted :: "hash_fn \<Rightarrow> record_hasher \<Rightarrow> merkle_acc \<times> u64 \<Rightarrow> block_record \<Rightarrow> (merkle_acc \<times> u64) v6_result" where
  "push_counted H hasher s x = bindE (hasher (br_lsn x) (br_hlc x) (br_payload x))
     (\<lambda>h. Inr (push_record_hash H (fst s) h, snd s + 1))"

text \<open>The caller has checked that a hasher is present; \<open>expect\<close> on a missing one would be a panic.\<close>

definition verify_packed :: "codecs \<Rightarrow> hash_fn \<Rightarrow> bytes \<Rightarrow> integrity_level \<Rightarrow> nat \<Rightarrow> record_hasher option
    \<Rightarrow> verify_report v6_result" where
  "verify_packed cs H content level max_block_bytes hasher =
     bindE (open_packed content max_block_bytes) (\<lambda>reader.
     let (counters, physical_ok, notes) = (if Physical \<le> level
           then read_every_block cs reader [0..<length (pr_directory reader)] default_counters True []
           else (default_counters, True, []))
     in bindE (if Logical \<le> level \<and> physical_ok
          then (case hasher of
              None \<Rightarrow> Inl (corrupt ''panic'' ''checked by the caller'')
            | Some hasher \<Rightarrow> (case for_each_record cs reader (push_counted H hasher) counters (merkle_new, 0) of
                (res, counters) \<Rightarrow> bindE res (\<lambda>(acc, n). let root = merkle_finalize H acc in
                  Inr (Some root, Some (root = ft_logical_root (pr_footer reader)
                     \<and> n = ft_record_count (pr_footer reader)), counters))))
          else Inr (None, None, counters)) (\<lambda>(recomputed_root, logical_ok, counters).
     let notes = notes @ (if Forensic \<le> level then [AttestationImprint (imprint H
           (attestation_for (fh_storage_namespace_id (pr_header reader)) (fh_segment_id (pr_header reader)) (pr_footer reader)))]
         else [])
     in Inr \<lparr>vr_level = level, vr_layout = Layout_Packed, vr_segment_id = fh_segment_id (pr_header reader),
          vr_record_count = ft_record_count (pr_footer reader), vr_min_lsn = ft_min_lsn (pr_footer reader),
          vr_max_lsn = ft_max_lsn (pr_footer reader), vr_block_count = ft_block_count (pr_footer reader),
          vr_declared_root = ft_logical_root (pr_footer reader), vr_recomputed_root = recomputed_root,
          vr_physical_ok = physical_ok, vr_logical_ok = logical_ok, vr_counters = counters, vr_notes = notes\<rparr>))"

definition verify_segment :: "codecs \<Rightarrow> hash_fn \<Rightarrow> bytes \<Rightarrow> integrity_level \<Rightarrow> nat \<Rightarrow> record_hasher option
    \<Rightarrow> verify_report v6_result" where
  "verify_segment cs H content level max_block_bytes hasher = (let CTX = ''hrkl v6 verify'' in
     bindE (read_head content) (\<lambda>head. case head of
       Layout_Raw \<Rightarrow> verify_raw H content level hasher
     | Layout_Packed \<Rightarrow>
         if Logical \<le> level \<and> hasher = None
         then Inl (corrupt CTX ''LOGICAL verification requires a canonical hasher'')
         else verify_packed cs H content level max_block_bytes hasher))"

section \<open>Proof of one LSN\<close>

record lsn_proof =
  lp_lsn :: lsn
  lp_canonical_record_hash :: bytes
  lp_proof :: inclusion_proof
  lp_logical_root :: bytes
  lp_envelope :: attestation_envelope

text \<open>The loop body of both layouts: remember the position of the wanted record, collect every hash.\<close>

definition prove_step :: "record_hasher \<Rightarrow> lsn \<Rightarrow> bytes list \<times> nat option \<Rightarrow> raw_record \<Rightarrow> (bytes list \<times> nat option) v6_result" where
  "prove_step hasher k s r = (let index = (if rr_lsn r = k then Some (length (fst s)) else snd s) in
     bindE (hasher (rr_lsn r) (rr_hlc r) (rr_payload r)) (\<lambda>h. Inr (fst s @ [h], index)))"

definition prove_lsn :: "codecs \<Rightarrow> hash_fn \<Rightarrow> bytes \<Rightarrow> lsn \<Rightarrow> nat \<Rightarrow> record_hasher \<Rightarrow> lsn_proof option v6_result" where
  "prove_lsn cs H content k max_block_bytes hasher = (let CTX = ''hrkl v6 prove'' in
     bindE (read_head content) (\<lambda>layout.
     bindE (case layout of
         Layout_Raw \<Rightarrow> bindE (scan_raw_bytes content) (\<lambda>scan. case rs_footer scan of
             None \<Rightarrow> Inl (corrupt CTX ''cannot prove against an unsealed segment'')
           | Some footer \<Rightarrow> bindE (foldE (prove_step hasher k) ([], None) (rs_records scan)) (\<lambda>(hashes, index).
               Inr (hashes, index, footer, fh_segment_id (rs_header scan), fh_storage_namespace_id (rs_header scan))))
       | Layout_Packed \<Rightarrow> bindE (open_packed content max_block_bytes) (\<lambda>reader.
           bindE (fst (for_each_record cs reader (\<lambda>s x. prove_step hasher k s
               \<lparr>rr_lsn = br_lsn x, rr_hlc = br_hlc x, rr_payload = br_payload x\<rparr>) default_counters ([], None)))
             (\<lambda>(hashes, index). Inr (hashes, index, pr_footer reader, fh_segment_id (pr_header reader),
               fh_storage_namespace_id (pr_header reader)))))
       (\<lambda>(hashes, index, footer, sid, namespace). case index of
         None \<Rightarrow> Inr None
       | Some index \<Rightarrow> (case build_inclusion_proof H hashes index of
           None \<Rightarrow> Inl (corrupt CTX ''inclusion proof index out of range'')
         | Some proof \<Rightarrow> Inr (Some \<lparr>lp_lsn = k, lp_canonical_record_hash = hashes ! index, lp_proof = proof,
             lp_logical_root = ft_logical_root footer, lp_envelope = attestation_for namespace sid footer\<rparr>)))))"

definition lsn_proof_verify :: "hash_fn \<Rightarrow> lsn_proof \<Rightarrow> bool" where
  "lsn_proof_verify H p = (verify_inclusion_proof H (lp_canonical_record_hash p) (lp_proof p) (lp_logical_root p)
     \<and> ae_logical_root (lp_envelope p) = lp_logical_root p)"

end
