(* ===== verification/V6_Verify_Correct.thy ===== *)
theory V6_Verify_Correct
  imports V6_Verify
begin

text \<open>
  A sealed segment as the writers leave it, in either layout, and what verification and the forensic
  proof say about it. \<open>segment_of\<close> is the contract the packer, the verifier and the engine share.
\<close>

section \<open>Finished segments\<close>

inductive segment_of :: "codecs \<Rightarrow> hash_fn \<Rightarrow> record_hasher \<Rightarrow> physical_layout \<Rightarrow> segment_init \<Rightarrow> raw_record list
    \<Rightarrow> footer \<Rightarrow> bytes \<Rightarrow> bool" for cs H hasher where
  raw_segment: "raw_session H hasher init rs = Inr w \<Longrightarrow> init_ok init \<Longrightarrow> increasing_raw rs
    \<Longrightarrow> raw_seal H w = (f, content) \<Longrightarrow> length content < usize_limit
    \<Longrightarrow> segment_of cs H hasher Layout_Raw init rs f content"
| packed_segment: "packed_session cs H hasher init opts rs = Inr w \<Longrightarrow> init_ok init \<Longrightarrow> increasing_raw rs
    \<Longrightarrow> \<forall>r \<in> set rs. length (rr_payload r) + 54 \<le> HARD_MAX_BLOCK_BYTES \<Longrightarrow> length rs \<le> 2 ^ 24
    \<Longrightarrow> packed_finish cs H w = Inr (f, stats, content) \<Longrightarrow> length content < usize_limit
    \<Longrightarrow> segment_of cs H hasher Layout_Packed init rs f content"

text \<open>What every reader needs to know: the hashes and the totals in the footer.\<close>

definition seals :: "hash_fn \<Rightarrow> record_hasher \<Rightarrow> raw_record list \<Rightarrow> footer \<Rightarrow> bool" where
  "seals H hasher rs f \<longleftrightarrow> length rs < 2 ^ 64 \<and> ft_record_count f = word_of_nat (length rs)
     \<and> (\<exists>hashes. mapE (\<lambda>r. hasher (rr_lsn r) (rr_hlc r) (rr_payload r)) rs = Inr hashes
        \<and> ft_logical_root f = root_of_record_hashes H hashes)
     \<and> ft_min_lsn f = (if rs = [] then 0 else rr_lsn (hd rs)) \<and> ft_max_lsn f = (if rs = [] then 0 else rr_lsn (last rs))
     \<and> ft_max_hlc f = (if rs = [] then 0 else Max (set (map rr_hlc rs)))"

definition segment_header :: "physical_layout \<Rightarrow> segment_init \<Rightarrow> file_header" where
  "segment_header layout i = (case layout of Layout_Raw \<Rightarrow> init_header i | Layout_Packed \<Rightarrow> packed_header i)"

lemma count_zero: "n < 2 ^ 64 \<Longrightarrow> (word_of_nat n :: u64) = 0 \<longleftrightarrow> n = 0"
  using unat_eq_zero [of "word_of_nat n :: u64"] by (simp add: unsigned_of_nat take_bit_nat_eq_self)

lemma raw_segment_facts:
  assumes s: "raw_session H hasher init rs = Inr w" and ok: "init_ok init" and H: "digest32 H" and inc: "increasing_raw rs"
    and f: "raw_seal H w = (f, content)" and size: "length content < usize_limit"
  shows "scan_raw_bytes content = Inr \<lparr>rs_header = init_header init, rs_records = rs, rs_footer = Some f, rs_torn_at = None\<rparr>"
    and "seals H hasher rs f"
proof -
  have fc: "content = rw_file w @ footer_encode f" and ff: "f = fst (raw_seal H w)"
    using f by (auto simp: raw_seal_def Let_def)
  have small: "length (rw_file w) < usize_limit" using size fc by simp
  note wa = session_writer(1) [OF s ok small] and n = session_writer(2) [OF s ok small]
  note sealed = sealed_segment [OF s ok H inc f size]
  show "scan_raw_bytes content = Inr \<lparr>rs_header = init_header init, rs_records = rs, rs_footer = Some f, rs_torn_at = None\<rparr>"
    using sealed wa by (simp add: writer_after_def)
  have cnt: "rw_record_count w = word_of_nat (length rs)" using wa by (simp add: writer_after_def)
  have z: "rw_record_count w = 0 \<longleftrightarrow> rs = []" using count_zero [OF n] by (simp add: cnt)
  show "seals H hasher rs f"
    unfolding seals_def
    using sealed n cnt z session_ranges [OF s] increasing_raw_Min_Max [OF inc]
    by (auto simp: ff raw_seal_def Let_def)
qed

lemma packed_finish_totals:
  assumes s: "packed_session cs H hasher init opts rs = Inr w" and ok: "init_ok init"
    and inc: "increasing_raw rs" and n: "length rs \<le> 2 ^ 24" and fin: "packed_finish cs H w = Inr (f, stats, content)"
  shows "ft_record_count f = word_of_nat (length rs)"
    and "ft_min_lsn f = (if rs = [] then 0 else rr_lsn (hd rs))" and "ft_max_lsn f = (if rs = [] then 0 else rr_lsn (last rs))"
    and "ft_max_hlc f = (if rs = [] then 0 else Max (set (map rr_hlc rs)))"
proof -
  obtain bs0 chunks0 hashes where inv0: "packed_inv cs (packed_header init) opts w bs0 chunks0"
    and tot: "totals_after H rs hashes w"
    using packed_session_inv [OF s ok] by blast
  obtain v where v: "flush_block cs w = Inr v" using fin by (auto simp: packed_finish_def)
  obtain bs chunks where same: "same_totals v w"
    using flush_inv [OF inv0 packed_header_ok [OF ok] v] by blast
  have t: "totals_after H rs hashes v" using tot same by (simp add: totals_after_def same_totals_def)
  have f: "ft_record_count f = pw_record_count v"
    "ft_min_lsn f = (if pw_record_count v = 0 then 0 else pw_min_lsn v)"
    "ft_max_lsn f = (if pw_record_count v = 0 then 0 else pw_max_lsn v)"
    "ft_max_hlc f = (if pw_record_count v = 0 then 0 else pw_max_hlc v)"
    using fin by (auto simp: packed_finish_def v Let_def)
  have z: "(word_of_nat (length rs) :: u64) = 0 \<longleftrightarrow> rs = []" using count_zero [of "length rs"] n by simp
  show "ft_record_count f = word_of_nat (length rs)" using f t by (simp add: totals_after_def)
  show "ft_min_lsn f = (if rs = [] then 0 else rr_lsn (hd rs))" "ft_max_lsn f = (if rs = [] then 0 else rr_lsn (last rs))"
      "ft_max_hlc f = (if rs = [] then 0 else Max (set (map rr_hlc rs)))"
    using f t z increasing_raw_Min_Max [OF inc] foldl_min_max [of "map rr_lsn rs"] foldl_min_max [of "map rr_hlc rs"]
    by (auto simp: totals_after_def)
qed

text \<open>A reader on a finished PACKED segment: every block reads, and folding over the records is folding over
  what was pushed.\<close>

definition packed_reads :: "codecs \<Rightarrow> packed_reader \<Rightarrow> raw_record list \<Rightarrow> bool" where
  "packed_reads cs r rs \<longleftrightarrow> (\<forall>i < length (pr_directory r). \<forall>c. \<exists>x c'. read_block cs r i c = (Inr x, c'))
     \<and> (\<forall>k c. fst (packed_get cs r k c) = Inr (map_option (\<lambda>r. (rr_hlc r, rr_payload r)) (find (\<lambda>r. rr_lsn r = k) rs)))"

lemma find_block_record:
  "find (\<lambda>r. br_lsn r = k) (map block_record_of rs) = map_option block_record_of (find (\<lambda>r. rr_lsn r = k) rs)"
  by (induction rs) (auto simp: block_record_of_def)

lemma packed_segment_facts:
  assumes s: "packed_session cs H hasher init opts rs = Inr w" and ok: "init_ok init" and H: "digest32 H"
    and inc: "increasing_raw rs" and pay: "\<forall>r \<in> set rs. length (rr_payload r) + 54 \<le> HARD_MAX_BLOCK_BYTES"
    and n: "length rs \<le> 2 ^ 24" and fin: "packed_finish cs H w = Inr (f, stats, content)"
    and size: "length content < usize_limit"
    and cs: "codecs_lossless cs" and max: "HARD_MAX_BLOCK_BYTES \<le> max_block"
  shows "\<exists>r. open_packed content max_block = Inr r \<and> pr_header r = packed_header init \<and> pr_footer r = f
    \<and> packed_reads cs r rs
    \<and> (\<forall>(g :: 's \<Rightarrow> block_record \<Rightarrow> 's v6_result) c s.
        fst (for_each_record cs r g c s) = foldE g s (map block_record_of rs))"
proof -
  obtain bs chunks where l: "packed_layout cs opts (packed_header init) bs chunks f content"
    and recs: "concat chunks = map block_record_of rs"
    using packed_finish_layout(1) [OF s ok H inc pay n fin size] by blast
  let ?r = "file_source.reader_on content (packed_header init) f bs max_block"
  have r: "pr_header ?r = packed_header init" "pr_footer ?r = f" "pr_directory ?r = entries_at 64 bs"
    by (simp_all add: file_source.reader_on_def)
  have open': "open_packed content max_block = Inr ?r"
    using file_source.open_layout [OF l, of max_block] by (simp add: open_packed_def packed_header_def)
  have len: "length (entries_at 64 bs) = length bs" "length chunks = length bs"
    using layout_parts [OF l] by simp_all
  have reads: "packed_reads cs ?r rs"
    unfolding packed_reads_def
  proof (intro conjI allI impI)
    fix i c assume "i < length (pr_directory ?r)"
    then have "i < length bs" by (simp add: r len)
    from file_source.read_block_layout [OF l this cs max]
    show "\<exists>x c'. read_block cs ?r i c = (Inr x, c')" by blast
  next
    fix k c
    show "fst (packed_get cs ?r k c) = Inr (map_option (\<lambda>r. (rr_hlc r, rr_payload r)) (find (\<lambda>r. rr_lsn r = k) rs))"
      using file_source.get_layout [OF l cs max, of k c] find_block_record [of k rs]
      by (simp add: recs option.map_comp comp_def block_record_of_def)
  qed
  have "map (\<lambda>i. chunks ! i) [0..<length bs] = chunks" using len by (metis map_nth)
  then have "fst (for_each_record cs ?r g c s) = foldE g s (map block_record_of rs)"
    for g :: "'s \<Rightarrow> block_record \<Rightarrow> 's v6_result" and c s
    using file_source.scan_blocks_layout [OF l cs max, of "[0..<length bs]" g c s]
    by (simp add: for_each_record_def r len recs)
  then show ?thesis using open' r(1,2) reads by blast
qed

lemma segment_seals:
  assumes "segment_of cs H hasher layout init rs f content" and H: "digest32 H"
  shows "seals H hasher rs f"
  using assms(1)
proof cases
  case (raw_segment w)
  then show ?thesis using raw_segment_facts(2) H by blast
next
  case (packed_segment opts w stats)
  then show ?thesis
    using packed_finish_totals [of cs H hasher init opts rs w f stats content] packed_finish_layout(2) [of cs H hasher init opts rs w] H
    unfolding seals_def by auto
qed

lemma segment_init_ok: "segment_of cs H hasher layout init rs f content \<Longrightarrow> init_ok init"
  by (auto elim: segment_of.cases)

lemma segment_head:
  assumes "segment_of cs H hasher layout init rs f content" and H: "digest32 H"
    and cs: "codecs_lossless cs" and max: "HARD_MAX_BLOCK_BYTES \<le> max_block"
  shows "read_head content = Inr layout"
  using assms(1)
proof cases
  case (raw_segment w)
  have small: "length (rw_file w) < usize_limit" using raw_segment by (auto simp: raw_seal_def Let_def)
  have "rw_file w = header_encode (init_header init) @ raw_region rs"
    using session_file [OF raw_segment(2,3)] by simp
  then obtain post where c: "content = header_encode (init_header init) @ post"
    using raw_segment(5) by (auto simp: raw_seal_def Let_def)
  note h = init_header_ok [OF raw_segment(3)]
  show ?thesis
    using header_decode_encode [OF h, of "[]"] length_header_encode [OF h] raw_segment(1)
    by (simp add: c read_head_def FILE_HEADER_LEN_def)
next
  case (packed_segment opts w stats)
  obtain bs chunks where l: "packed_layout cs opts (packed_header init) bs chunks f content"
    using packed_finish_layout(1) [OF packed_segment(2,3) H packed_segment(4-8)] by blast
  then obtain post where c: "content = header_encode (packed_header init) @ post"
    unfolding packed_layout_def by auto
  note h = packed_header_ok [OF packed_segment(3)]
  show ?thesis
    using header_decode_encode [OF h, of "[]"] length_header_encode [OF h] packed_segment(1)
    by (simp add: c read_head_def FILE_HEADER_LEN_def packed_header_def)
qed

section \<open>Verification\<close>

lemma foldE_push_hashed:
  "foldE (push_hashed H hasher) acc rs
    = bindE (mapE (\<lambda>r. hasher (rr_lsn r) (rr_hlc r) (rr_payload r)) rs) (\<lambda>hs. Inr (foldl (push_record_hash H) acc hs))"
proof (induction rs arbitrary: acc)
  case (Cons r rs)
  show ?case
    using Cons by (cases "hasher (rr_lsn r) (rr_hlc r) (rr_payload r)";
        cases "mapE (\<lambda>r. hasher (rr_lsn r) (rr_hlc r) (rr_payload r)) rs") (simp_all add: push_hashed_def)
qed simp

lemma foldE_push_counted:
  "foldE (push_counted H hasher) (acc, n) (map block_record_of rs)
    = bindE (mapE (\<lambda>r. hasher (rr_lsn r) (rr_hlc r) (rr_payload r)) rs)
        (\<lambda>hs. Inr (foldl (push_record_hash H) acc hs, n + word_of_nat (length rs)))"
proof (induction rs arbitrary: acc n)
  case (Cons r rs)
  show ?case
    using Cons by (cases "hasher (rr_lsn r) (rr_hlc r) (rr_payload r)";
        cases "mapE (\<lambda>r. hasher (rr_lsn r) (rr_hlc r) (rr_payload r)) rs")
      (simp_all add: push_counted_def block_record_of_def add.assoc)
qed simp

lemma foldE_prove_step:
  "foldE (prove_step hasher k) (hs0, i0) rs
    = bindE (mapE (\<lambda>r. hasher (rr_lsn r) (rr_hlc r) (rr_payload r)) rs) (\<lambda>hs. Inr (hs0 @ hs,
        fold (\<lambda>j i. if rr_lsn (rs ! j) = k then Some (length hs0 + j) else i) [0..<length rs] i0))"
proof (induction rs arbitrary: hs0 i0)
  case (Cons r rs)
  have "[0..<length (r # rs)] = 0 # map Suc [0..<length rs]"
    by (simp only: list.size upt_conv_Cons map_Suc_upt) simp
  then show ?case
    using Cons by (cases "hasher (rr_lsn r) (rr_hlc r) (rr_payload r)";
        cases "mapE (\<lambda>r. hasher (rr_lsn r) (rr_hlc r) (rr_payload r)) rs")
      (simp_all add: prove_step_def fold_map comp_def)
qed simp

lemma read_every_block_ok:
  fixes c :: scan_counters
  shows "(\<And>i c. i \<in> set is \<Longrightarrow> \<exists>x c'. read_block cs r i c = (Inr x, c'))
    \<Longrightarrow> \<exists>c'. read_every_block cs r is c ok notes = (c', ok, notes)"
proof (induction "is" arbitrary: c)
  case (Cons i "is")
  obtain x c1 where "read_block cs r i c = (Inr x, c1)" using Cons.prems [of i c] by auto
  then show ?case using Cons.IH [of c1] Cons.prems by auto
qed simp

text \<open>C17. The verifier accepts what the writers seal. For a sealed segment in either layout, \<open>verify_segment\<close>
  succeeds at every level with an accepting report that carries the declared Merkle root and the record
  count; from \<open>LOGICAL\<close> on, the root recomputed from the persisted records is that root.\<close>

theorem verify_accepts_sealed:
  assumes seg: "segment_of cs H hasher layout init rs f content" and H: "digest32 H"
    and cs: "codecs_lossless cs" and max: "HARD_MAX_BLOCK_BYTES \<le> max_block"
  shows "\<exists>rep. verify_segment cs H content level max_block (Some hasher) = Inr rep \<and> report_is_ok rep
    \<and> vr_declared_root rep = ft_logical_root f \<and> vr_record_count rep = word_of_nat (length rs)
    \<and> (Logical \<le> level \<longrightarrow> vr_recomputed_root rep = Some (ft_logical_root f) \<and> vr_logical_ok rep = Some True)"
proof -
  note head = segment_head [OF seg H cs max]
  obtain hashes where hs: "mapE (\<lambda>r. hasher (rr_lsn r) (rr_hlc r) (rr_payload r)) rs = Inr hashes"
    and root: "ft_logical_root f = root_of_record_hashes H hashes" and cnt: "ft_record_count f = word_of_nat (length rs)"
    using segment_seals [OF seg H] by (auto simp: seals_def)
  from seg show ?thesis
  proof cases
    case (raw_segment w)
    note scan = raw_segment_facts(1) [OF raw_segment(2,3) H raw_segment(4,5,6)]
    show ?thesis
      using head raw_segment(1) root
      by (simp add: verify_segment_def verify_raw_def scan foldE_push_hashed hs report_is_ok_def root_of_record_hashes_def Let_def)
  next
    case (packed_segment opts w stats)
    obtain r where "open_packed content max_block = Inr r \<and> pr_header r = packed_header init \<and> pr_footer r = f
      \<and> packed_reads cs r rs \<and> (\<forall>(g :: merkle_acc \<times> u64 \<Rightarrow> block_record \<Rightarrow> (merkle_acc \<times> u64) v6_result) c s.
        fst (for_each_record cs r g c s) = foldE g s (map block_record_of rs))"
      using packed_segment_facts [OF packed_segment(2,3) H packed_segment(4-8) cs max] by (rule exE)
    then have r: "open_packed content max_block = Inr r" "pr_header r = packed_header init" "pr_footer r = f"
      "packed_reads cs r rs" "\<And>c s. fst (for_each_record cs r (push_counted H hasher) c s)
        = foldE (push_counted H hasher) s (map block_record_of rs)"
      by (simp_all del: split_paired_All)
    have ok: "\<exists>x c'. read_block cs r i c = (Inr x, c')" if "i \<in> set [0..<length (pr_directory r)]" for i c
      using r(4) that by (simp add: packed_reads_def)
    obtain c' where c': "(if Physical \<le> level
        then read_every_block cs r [0..<length (pr_directory r)] default_counters True [] else (default_counters, True, []))
        = (c', True, [])"
      using read_every_block_ok [of "[0..<length (pr_directory r)]" cs r default_counters, OF ok] by (cases "Physical \<le> level") auto
    obtain c'' where c'': "for_each_record cs r (push_counted H hasher) c' (merkle_new, 0)
        = (Inr (foldl (push_record_hash H) merkle_new hashes, word_of_nat (length rs)), c'')"
      using r(5) [of c' "(merkle_new, 0)"] by (cases "for_each_record cs r (push_counted H hasher) c' (merkle_new, 0)")
        (simp add: foldE_push_counted hs)
    show ?thesis
      using head packed_segment(1) root cnt
      by (simp add: verify_segment_def verify_packed_def r(1,3) c' c'' report_is_ok_def root_of_record_hashes_def Let_def)
  qed
qed

section \<open>Proofs of one LSN\<close>

lemma fold_unique_index:
  assumes "\<And>i j. i < n \<Longrightarrow> j < n \<Longrightarrow> P i \<Longrightarrow> P j \<Longrightarrow> i = j"
  shows "fold (\<lambda>j i. if P j then Some j else i) [0..<n] None
    = (if \<exists>j < n. P j then Some (THE j. j < n \<and> P j) else None)"
  using assms
proof (induction n)
  case (Suc n)
  show ?case
  proof (cases "P n")
    case True
    then have "(THE j. j < Suc n \<and> P j) = n" using Suc.prems by (intro the_equality) auto
    then show ?thesis using True by auto
  next
    case False
    then have "j < Suc n \<and> P j \<longleftrightarrow> j < n \<and> P j" for j by (auto simp: less_Suc_eq)
    then show ?thesis using Suc False by simp
  qed
qed simp

lemma increasing_raw_nth: "increasing_raw rs \<Longrightarrow> i < j \<Longrightarrow> j < length rs \<Longrightarrow> rr_lsn (rs ! i) < rr_lsn (rs ! j)"
  by (simp add: increasing_raw_def sorted_wrt_iff_nth_less)

lemma prove_lsn_shape:
  assumes seg: "segment_of cs H hasher layout init rs f content" and H: "digest32 H"
    and cs: "codecs_lossless cs" and max: "HARD_MAX_BLOCK_BYTES \<le> max_block"
    and fold: "foldE (prove_step hasher k) ([], None) rs = Inr (hashes, i)"
  obtains hdr :: file_header where "prove_lsn cs H content k max_block hasher = (case i of
         None \<Rightarrow> Inr None
       | Some index \<Rightarrow> (case build_inclusion_proof H hashes index of
           None \<Rightarrow> Inl (corrupt ''hrkl v6 prove'' ''inclusion proof index out of range'')
         | Some proof \<Rightarrow> Inr (Some \<lparr>lp_lsn = k, lp_canonical_record_hash = hashes ! index, lp_proof = proof,
             lp_logical_root = ft_logical_root f,
             lp_envelope = attestation_for (fh_storage_namespace_id hdr) (fh_segment_id hdr) f\<rparr>)))"
  using seg
proof cases
  case (raw_segment w)
  note scan = raw_segment_facts(1) [OF raw_segment(2,3) H raw_segment(4,5,6)]
  show thesis
    using segment_head [OF seg H cs max] raw_segment(1)
    by (intro that [of "init_header init"]) (simp add: prove_lsn_def scan fold)
next
  case (packed_segment opts w stats)
  let ?g = "\<lambda>s x. prove_step hasher k s \<lparr>rr_lsn = br_lsn x, rr_hlc = br_hlc x, rr_payload = br_payload x\<rparr>"
  obtain r where "open_packed content max_block = Inr r \<and> pr_header r = packed_header init \<and> pr_footer r = f
    \<and> packed_reads cs r rs \<and> (\<forall>(g :: bytes list \<times> nat option \<Rightarrow> block_record \<Rightarrow> (bytes list \<times> nat option) v6_result) c s.
      fst (for_each_record cs r g c s) = foldE g s (map block_record_of rs))"
    using packed_segment_facts [OF packed_segment(2,3) H packed_segment(4-8) cs max] by (rule exE)
  then have r: "open_packed content max_block = Inr r" "pr_header r = packed_header init" "pr_footer r = f"
    "\<And>c s. fst (for_each_record cs r ?g c s) = foldE ?g s (map block_record_of rs)"
    by (simp_all del: split_paired_All)
  have rec: "\<lparr>rr_lsn = rr_lsn x, rr_hlc = rr_hlc x, rr_payload = rr_payload x\<rparr> = x" for x :: raw_record
    by (cases x) simp
  have "foldE ?g s (map block_record_of rs) = foldE (prove_step hasher k) s rs" for s
    by (induction rs arbitrary: s) (auto simp: block_record_of_def rec intro: bindE_cong)
  then show thesis
    using segment_head [OF seg H cs max] packed_segment(1)
    by (intro that [of "packed_header init"]) (simp add: prove_lsn_def r fold)
qed

text \<open>C30. The forensic proof is available for exactly the LSNs of the segment and always verifies. For a
  sealed segment in either layout, \<open>prove_lsn\<close> returns a proof when some record has the LSN, the proof
  carries that record's canonical hash and the sealed root, and its own verification accepts it; for any
  other LSN it returns nothing, without an error.\<close>

theorem prove_lsn_correct:
  assumes seg: "segment_of cs H hasher layout init rs f content" and H: "digest32 H"
    and cs: "codecs_lossless cs" and max: "HARD_MAX_BLOCK_BYTES \<le> max_block"
  shows "case find (\<lambda>r. rr_lsn r = k) rs of
      None \<Rightarrow> prove_lsn cs H content k max_block hasher = Inr None
    | Some r \<Rightarrow> \<exists>p. prove_lsn cs H content k max_block hasher = Inr (Some p) \<and> lsn_proof_verify H p
        \<and> Inr (lp_canonical_record_hash p) = hasher (rr_lsn r) (rr_hlc r) (rr_payload r)
        \<and> lp_logical_root p = ft_logical_root f \<and> ae_record_count (lp_envelope p) = word_of_nat (length rs)"
proof -
  note head = segment_head [OF seg H cs max]
  obtain hashes where hs: "mapE (\<lambda>r. hasher (rr_lsn r) (rr_hlc r) (rr_payload r)) rs = Inr hashes"
    and root: "ft_logical_root f = root_of_record_hashes H hashes" and cnt: "ft_record_count f = word_of_nat (length rs)"
    and n: "length rs < 2 ^ 64"
    using segment_seals [OF seg H] by (auto simp: seals_def)
  have len: "length hashes = length rs" using mapE_length [OF hs] .
  let ?i = "fold (\<lambda>j i. if rr_lsn (rs ! j) = k then Some j else i) [0..<length rs] None"
  have fold: "foldE (prove_step hasher k) ([], None) rs = Inr (hashes, ?i)"
    using foldE_prove_step [of hasher k "[]" None rs] by (simp add: hs)
  obtain hdr :: file_header where prove: "prove_lsn cs H content k max_block hasher = (case ?i of
         None \<Rightarrow> Inr None
       | Some index \<Rightarrow> (case build_inclusion_proof H hashes index of
           None \<Rightarrow> Inl (corrupt ''hrkl v6 prove'' ''inclusion proof index out of range'')
         | Some proof \<Rightarrow> Inr (Some \<lparr>lp_lsn = k, lp_canonical_record_hash = hashes ! index, lp_proof = proof,
             lp_logical_root = ft_logical_root f,
             lp_envelope = attestation_for (fh_storage_namespace_id hdr) (fh_segment_id hdr) f\<rparr>)))"
    by (rule prove_lsn_shape [OF seg H cs max fold]) blast
  have inc: "increasing_raw rs" using seg by (auto elim: segment_of.cases)
  have uniq: "i = j" if "i < length rs" "j < length rs" "rr_lsn (rs ! i) = k" "rr_lsn (rs ! j) = k" for i j
    using inc that by (metis increasing_raw_nth less_irrefl linorder_neqE_nat)
  show ?thesis
  proof (cases "find (\<lambda>r. rr_lsn r = k) rs")
    case None
    then have "?i = None" by (subst fold_unique_index) (auto simp: uniq find_None_iff)
    then show ?thesis using None prove by simp
  next
    case (Some r)
    then obtain j where j: "j < length rs" "rs ! j = r" "rr_lsn r = k"
      by (auto simp: find_Some_iff)
    then have "(THE j. j < length rs \<and> rr_lsn (rs ! j) = k) = j" using uniq by (intro the_equality) auto
    then have i: "?i = Some j" using j by (subst fold_unique_index) (auto simp: uniq)
    obtain pf where pf: "build_inclusion_proof H hashes j = Some pf"
      "verify_inclusion_proof H (hashes ! j) pf (root_of_record_hashes H hashes)"
      using inclusion_proof_exists [of j hashes H] j(1) len n by auto
    have "hasher (rr_lsn r) (rr_hlc r) (rr_payload r) = Inr (hashes ! j)"
      using mapE_nth [OF hs j(1)] j by simp
    then show ?thesis
      using Some prove pf root cnt by (simp add: i lsn_proof_verify_def attestation_for_def)
  qed
qed

section \<open>What an accepting report means\<close>

definition raw_record_of :: "block_record \<Rightarrow> raw_record" where
  "raw_record_of x = \<lparr>rr_lsn = br_lsn x, rr_hlc = br_hlc x, rr_payload = br_payload x\<rparr>"

text \<open>The records a reader finds in a segment file of either layout.\<close>

definition packed_records :: "codecs \<Rightarrow> bytes \<Rightarrow> nat \<Rightarrow> raw_record list v6_result" where
  "packed_records cs content max_block_bytes = bindE (open_packed content max_block_bytes) (\<lambda>r.
     fst (for_each_record cs r (\<lambda>out x. Inr (out @ [raw_record_of x])) default_counters []))"

definition records_of :: "codecs \<Rightarrow> bytes \<Rightarrow> nat \<Rightarrow> raw_record list v6_result" where
  "records_of cs content max_block_bytes = bindE (read_head content) (\<lambda>layout. case layout of
     Layout_Raw \<Rightarrow> bindE (scan_raw_bytes content) (\<lambda>scan. Inr (rs_records scan))
   | Layout_Packed \<Rightarrow> packed_records cs content max_block_bytes)"

lemma read_block_counters: "fst (read_block cs r i c) = fst (read_block cs r i c')"
  by (auto simp: read_block_def Let_def split: sum.split)

lemma foldE_collect_raw: "foldE (\<lambda>out x. Inr (out @ [raw_record_of x])) out xs = Inr (out @ map raw_record_of xs)"
  by (induction xs arbitrary: out) simp_all

lemma scan_blocks_collects:
  assumes "fst (scan_blocks cs r g is c s) = Inr s'"
  shows "\<exists>xs. foldE g s xs = Inr s'
    \<and> (\<forall>c out. fst (scan_blocks cs r (\<lambda>out x. Inr (out @ [raw_record_of x])) is c out) = Inr (out @ map raw_record_of xs))"
  using assms
proof (induction "is" arbitrary: c s)
  case Nil
  then show ?case by (intro exI [of _ "[]"]) simp
next
  case (Cons i "is")
  obtain h body c1 where b: "read_block cs r i c = (Inr (h, body), c1)"
    using Cons.prems by (auto split: prod.splits sum.splits)
  obtain xs s1 where xs: "decode_block_records h body = Inr xs" "foldE g s xs = Inr s1"
    and rest: "fst (scan_blocks cs r g is c1 s1) = Inr s'"
    using Cons.prems b by (auto split: sum.splits simp: bindE_eq_Inr)
  from Cons.IH [OF rest] obtain ys where ys: "foldE g s1 ys = Inr s'"
    "\<And>c out. fst (scan_blocks cs r (\<lambda>out x. Inr (out @ [raw_record_of x])) is c out) = Inr (out @ map raw_record_of ys)"
    by blast
  have "fst (scan_blocks cs r (\<lambda>out x. Inr (out @ [raw_record_of x])) (i # is) c' out)
      = Inr (out @ map raw_record_of (xs @ ys))" for c' out
    using read_block_counters [of cs r i c' c] b xs(1) ys(2)
    by (cases "read_block cs r i c'") (simp add: foldE_collect_raw)
  moreover have "foldE g s (xs @ ys) = Inr s'" using xs(2) ys(1) by (simp add: foldE_append)
  ultimately show ?case by blast
qed

lemma raw_of_block [simp]: "block_record_of (raw_record_of x) = x" "rr_lsn (raw_record_of x) = br_lsn x"
    "rr_hlc (raw_record_of x) = br_hlc x" "rr_payload (raw_record_of x) = br_payload x"
  by (cases x; simp add: block_record_of_def raw_record_of_def)+

lemma counted_records:
  assumes r: "open_packed content max_block = Inr r"
    and fold: "fst (for_each_record cs r (push_counted H hasher) c (merkle_new, 0)) = Inr (acc, n)"
  shows "\<exists>rs hashes. packed_records cs content max_block = Inr rs
    \<and> mapE (\<lambda>r. hasher (rr_lsn r) (rr_hlc r) (rr_payload r)) rs = Inr hashes
    \<and> acc = foldl (push_record_hash H) merkle_new hashes"
proof -
  have "fst (scan_blocks cs r (push_counted H hasher) [0..<length (pr_directory r)] c (merkle_new, 0)) = Inr (acc, n)"
    using fold by (simp add: for_each_record_def)
  from scan_blocks_collects [OF this] obtain xs where xs: "foldE (push_counted H hasher) (merkle_new, 0) xs = Inr (acc, n)"
    "fst (scan_blocks cs r (\<lambda>out x. Inr (out @ [raw_record_of x])) [0..<length (pr_directory r)] default_counters [])
      = Inr (map raw_record_of xs)" by auto
  have "map block_record_of (map raw_record_of xs) = xs" by (simp add: comp_def)
  then have "bindE (mapE (\<lambda>r. hasher (rr_lsn r) (rr_hlc r) (rr_payload r)) (map raw_record_of xs))
      (\<lambda>hs. Inr (foldl (push_record_hash H) merkle_new hs, 0 + word_of_nat (length (map raw_record_of xs)))) = Inr (acc, n)"
    using xs(1) foldE_push_counted [of H hasher merkle_new 0 "map raw_record_of xs"] by simp
  then obtain hashes where "mapE (\<lambda>r. hasher (rr_lsn r) (rr_hlc r) (rr_payload r)) (map raw_record_of xs) = Inr hashes"
    "acc = foldl (push_record_hash H) merkle_new hashes"
    by (auto simp: bindE_eq_Inr simp del: mapE.simps map_map)
  then show ?thesis using xs(2) r by (auto simp: packed_records_def for_each_record_def)
qed

text \<open>C29. An accepting report at \<open>LOGICAL\<close> or above is a statement about the bytes on disk, whatever they are:
  the records the readers extract from the file all have a canonical hash and the declared root is the
  Merkle root of exactly those hashes, in file order.\<close>

theorem verified_root_binds_contents:
  assumes v: "verify_segment cs H content level max_block (Some hasher) = Inr rep"
    and level: "Logical \<le> level" and ok: "report_is_ok rep"
  shows "\<exists>rs hashes. records_of cs content max_block = Inr rs
    \<and> mapE (\<lambda>r. hasher (rr_lsn r) (rr_hlc r) (rr_payload r)) rs = Inr hashes
    \<and> vr_declared_root rep = root_of_record_hashes H hashes"
proof -
  have phys: "Physical \<le> level"
    using level by (cases level) (simp_all add: less_eq_integrity_level_def)
  obtain layout where head: "read_head content = Inr layout" using v by (auto simp: verify_segment_def Let_def)
  show ?thesis
  proof (cases layout)
    case Layout_Raw
    then show ?thesis
      using v head level ok
      by (auto simp: verify_segment_def verify_raw_def Let_def records_of_def foldE_push_hashed report_is_ok_def
          root_of_record_hashes_def bindE_eq_Inr split: option.splits prod.splits)
  next
    case Layout_Packed
    then have vp: "verify_packed cs H content level max_block (Some hasher) = Inr rep"
      using v head by (simp add: verify_segment_def)
    obtain r where r: "open_packed content max_block = Inr r" using vp by (auto simp: verify_packed_def)
    obtain c p ns where blocks: "read_every_block cs r [0..<length (pr_directory r)] default_counters True [] = (c, p, ns)"
      by (cases "read_every_block cs r [0..<length (pr_directory r)] default_counters True []") auto
    have p: "p" using vp ok phys by (auto simp: verify_packed_def r blocks report_is_ok_def Let_def split: prod.splits)
    obtain res c' where fold: "for_each_record cs r (push_counted H hasher) c (merkle_new, 0) = (res, c')"
      by (cases "for_each_record cs r (push_counted H hasher) c (merkle_new, 0)")
    obtain acc n where res: "res = Inr (acc, n)"
      and root: "vr_declared_root rep = merkle_finalize H acc"
      using vp ok phys level p
      by (auto simp: verify_packed_def r blocks fold report_is_ok_def Let_def bindE_eq_Inr split: prod.splits)
    have "fst (for_each_record cs r (push_counted H hasher) c (merkle_new, 0)) = Inr (acc, n)"
      using fold res by simp
    from counted_records [OF r this] show ?thesis
      using root head Layout_Packed by (auto simp: records_of_def root_of_record_hashes_def)
  qed
qed

section \<open>Witnesses\<close>

lemma example_sealed:
  obtains f content where "segment_of toy_codecs toy_hash constant_hasher Layout_Raw example_init example_raw f content"
proof -
  obtain w where w: "raw_session toy_hash constant_hasher example_init example_raw = Inr w"
    "length (rw_file w) = 115" "length (rw_file w) + 256 < usize_limit" by (rule example_writer)
  obtain f content where s: "raw_seal toy_hash w = (f, content)" by (cases "raw_seal toy_hash w")
  have "f = fst (raw_seal toy_hash w)" "length (rw_file w) < usize_limit" using s w(3) by simp_all
  then have "footer_ok f" using sealed_footer(1) [OF w(1) example_init_ok toy_digest example_raw_facts(3)] by simp
  then have "length content < usize_limit"
    using s w(3) length_footer_encode [of f] by (auto simp: raw_seal_def Let_def)
  from segment_of.raw_segment [OF w(1) example_init_ok example_raw_facts(3) s this] show thesis by (rule that)
qed

lemma verify_accepts_sealed_witness:
  "\<exists>content rep. verify_segment toy_codecs toy_hash content Forensic HARD_MAX_BLOCK_BYTES (Some constant_hasher) = Inr rep
    \<and> report_is_ok rep \<and> vr_record_count rep = 2"
proof -
  obtain f content where "segment_of toy_codecs toy_hash constant_hasher Layout_Raw example_init example_raw f content"
    by (rule example_sealed)
  from verify_accepts_sealed [OF this toy_digest toy_lossless order_refl, of Forensic] show ?thesis
    by (auto simp: example_raw_def)
qed

lemma prove_lsn_correct_witness:
  "\<exists>content. (\<exists>p. prove_lsn toy_codecs toy_hash content 12 HARD_MAX_BLOCK_BYTES constant_hasher = Inr (Some p)
      \<and> lsn_proof_verify toy_hash p)
    \<and> prove_lsn toy_codecs toy_hash content 11 HARD_MAX_BLOCK_BYTES constant_hasher = Inr None"
proof -
  obtain f content where s: "segment_of toy_codecs toy_hash constant_hasher Layout_Raw example_init example_raw f content"
    by (rule example_sealed)
  have "find (\<lambda>r. rr_lsn r = 12) example_raw \<noteq> None" "find (\<lambda>r. rr_lsn r = 11) example_raw = None"
    by (simp_all add: example_raw_def)
  then show ?thesis
    using prove_lsn_correct [OF s toy_digest toy_lossless order_refl, of 12]
      prove_lsn_correct [OF s toy_digest toy_lossless order_refl, of 11] by (intro exI [of _ content]) auto
qed

lemma verified_root_binds_contents_witness:
  "\<exists>content rs hashes. records_of toy_codecs content HARD_MAX_BLOCK_BYTES = Inr rs
    \<and> mapE (\<lambda>r. constant_hasher (rr_lsn r) (rr_hlc r) (rr_payload r)) rs = Inr hashes"
proof -
  obtain f content where s: "segment_of toy_codecs toy_hash constant_hasher Layout_Raw example_init example_raw f content"
    by (rule example_sealed)
  have head: "read_head content = Inr Layout_Raw" by (rule segment_head [OF s toy_digest toy_lossless order_refl])
  have scan: "scan_raw_bytes content = Inr \<lparr>rs_header = init_header example_init, rs_records = example_raw,
      rs_footer = Some f, rs_torn_at = None\<rparr>"
    using s by cases (use raw_segment_facts(1) toy_digest in blast)
  have hs: "mapE (\<lambda>r. constant_hasher (rr_lsn r) (rr_hlc r) (rr_payload r)) example_raw
      = Inr [replicate 32 0, replicate 32 0]" by (simp add: example_raw_def constant_hasher_def)
  have root: "ft_logical_root f = root_of_record_hashes toy_hash [replicate 32 0, replicate 32 0]"
    using segment_seals [OF s toy_digest] hs by (auto simp: seals_def)
  obtain rep where "verify_segment toy_codecs toy_hash content Logical HARD_MAX_BLOCK_BYTES (Some constant_hasher) = Inr rep"
    "report_is_ok rep"
    using head scan root
    by (simp add: verify_segment_def verify_raw_def foldE_push_hashed hs report_is_ok_def root_of_record_hashes_def Let_def)
  from verified_root_binds_contents [OF this(1) _ this(2)] show ?thesis by blast
qed

end
