(* ===== verification/V6_Packer.thy ===== *)
theory V6_Packer
  imports V6_Verify_Correct
begin

text \<open>
  \<open>heraclitus-log/src/v6/packer.rs\<close>: the packing transaction RAW to PACKED and its commit, the repack of a
  PACKED generation and the sweep of temporary files. A directory of segments maps file names to bytes.
  When the writer fails, the temporary file holds whatever the buffered writer had flushed: those bytes
  are the parameter \<open>junk\<close>.
\<close>

record pack_outcome =
  out_receipt :: pack_receipt
  out_footer :: footer
  out_stats :: pack_stats
  out_target_path :: file_name

definition read_file :: "directory \<Rightarrow> file_name \<Rightarrow> bytes v6_result" where
  "read_file d name = (case map_of d name of None \<Rightarrow> Inl (StorageIo ''No such file or directory'') | Some c \<Rightarrow> Inr c)"

definition temp_path :: "file_name \<Rightarrow> file_name" where
  "temp_path target = with_suffix target TMP"

section \<open>Packing\<close>

text \<open>Step 1: the checks on the source.\<close>

definition packable :: "bytes \<Rightarrow> (raw_scan \<times> footer) v6_result" where
  "packable content = (let CTX = ''hrkl v6 packer'' in
     bindE (scan_raw_bytes content) (\<lambda>scan.
     if fh_physical_layout (rs_header scan) \<noteq> Layout_Raw then Inl (corrupt CTX ''source segment is not RAW'')
     else (case rs_footer scan of
       None \<Rightarrow> Inl (corrupt CTX ''refusing to pack an unsealed segment'')
     | Some source_footer \<Rightarrow>
       if rs_torn_at scan \<noteq> None then Inl (corrupt CTX ''sealed segment has trailing bytes after the footer'')
       else if fh_canonical_codec (rs_header scan) \<noteq> CANONICAL_CODEC_V1 then Inl (corrupt CTX ''unsupported canonical codec'')
       else if word_of_nat (length (rs_records scan)) \<noteq> ft_record_count source_footer
       then Inl (corrupt CTX ''source has other records than the footer declares'')
       else Inr (scan, source_footer))))"

definition init_of_header :: "file_header \<Rightarrow> segment_init" where
  "init_of_header h = \<lparr>si_segment_id = fh_segment_id h, si_created_hlc = fh_created_hlc h,
     si_first_lsn = fh_first_lsn h, si_writer_epoch = fh_writer_epoch h,
     si_storage_namespace_id = fh_storage_namespace_id h\<rparr>"

text \<open>Steps 3 to 8: the loop that hashes and pushes every record, then \<open>finish\<close>.\<close>

definition write_packed :: "codecs \<Rightarrow> hash_fn \<Rightarrow> record_hasher \<Rightarrow> segment_init \<Rightarrow> pack_options \<Rightarrow> raw_record list
    \<Rightarrow> (footer \<times> pack_stats \<times> bytes) v6_result" where
  "write_packed cs H hasher init opts records =
     bindE (foldE (push_record cs H hasher) (packed_create init opts) records) (packed_finish cs H)"

text \<open>Step 9: what makes the new file publishable; the re-read goes through the reader.\<close>

definition reread :: "codecs \<Rightarrow> hash_fn \<Rightarrow> record_hasher \<Rightarrow> bytes \<Rightarrow> nat \<Rightarrow> (merkle_acc \<times> u64) v6_result" where
  "reread cs H hasher content max_block_bytes = bindE (open_packed content max_block_bytes) (\<lambda>reader.
     fst (for_each_record cs reader (push_counted H hasher) default_counters (merkle_new, 0)))"

text \<open>Step 12.\<close>

definition receipt_for :: "hash_fn \<Rightarrow> file_header \<Rightarrow> footer \<Rightarrow> compression_codec \<Rightarrow> pack_options \<Rightarrow> u32 \<Rightarrow> u32 \<Rightarrow> bytes \<Rightarrow> bytes
    \<Rightarrow> pack_receipt" where
  "receipt_for H header target_footer codec opts source_generation target_generation src content =
     \<lparr>pr_segment_id = fh_segment_id header, pr_storage_namespace_id = fh_storage_namespace_id header,
       pr_source_generation = source_generation, pr_source_physical_digest = physical_digest H src,
       pr_target_generation = target_generation, pr_target_physical_digest = physical_digest H content,
       pr_logical_root = ft_logical_root target_footer, pr_canonical_codec = CANONICAL_CODEC_V1, pr_codec = codec,
       pr_block_size = word_of_nat (po_block_target_bytes opts), pr_first_lsn = ft_min_lsn target_footer,
       pr_last_lsn = ft_max_lsn target_footer, pr_record_count = ft_record_count target_footer,
       pr_source_physical_size = word_of_nat (length src), pr_target_physical_size = word_of_nat (length content),
       pr_packer_version = PACKER_VERSION, pr_created_hlc = fh_created_hlc header\<rparr>"

definition pack_segment :: "codecs \<Rightarrow> hash_fn \<Rightarrow> record_hasher \<Rightarrow> bytes \<Rightarrow> directory \<Rightarrow> file_name \<Rightarrow> file_name
    \<Rightarrow> pack_options \<Rightarrow> u32 \<Rightarrow> u32 \<Rightarrow> pack_outcome v6_result \<times> directory" where
  "pack_segment cs H hasher junk d source target opts source_generation target_generation = (let CTX = ''hrkl v6 packer'' in
     case bindE (read_file d source) packable of
       Inl e \<Rightarrow> (Inl e, d)
     | Inr (scan, source_footer) \<Rightarrow>
       if map_of d target \<noteq> None
       then (Inl (corrupt CTX ''target generation already exists; generations are immutable''), d)
       else (let tmp = temp_path target; d = AList.delete tmp d in
         case write_packed cs H hasher (init_of_header (rs_header scan)) opts (rs_records scan) of
           Inl e \<Rightarrow> (Inl e, AList.update tmp junk d)
         | Inr (target_footer, stats, content) \<Rightarrow> (let written = AList.update tmp content d in
           if ft_logical_root target_footer \<noteq> ft_logical_root source_footer
           then (Inl (corrupt CTX ''PACKED logical_root differs from RAW; refusing to publish a non-equivalent generation''),
             AList.delete tmp written)
           else if ft_record_count target_footer \<noteq> ft_record_count source_footer
             \<or> ft_min_lsn target_footer \<noteq> ft_min_lsn source_footer \<or> ft_max_lsn target_footer \<noteq> ft_max_lsn source_footer
           then (Inl (corrupt CTX ''PACKED footer disagrees with RAW footer''), AList.delete tmp written)
           else (case reread cs H hasher content (po_max_block_bytes opts) of
             Inl e \<Rightarrow> (Inl e, written)
           | Inr (acc, n) \<Rightarrow>
             if n \<noteq> ft_record_count source_footer \<or> merkle_finalize H acc \<noteq> ft_logical_root source_footer
             then (Inl (corrupt CTX ''re-read of the packed generation does not reproduce the canonical root''),
               AList.delete tmp written)
             else (case run_op (Rename tmp target) written of
               Inl e \<Rightarrow> (Inl e, written)
             | Inr d \<Rightarrow> (case read_file d source of
               Inl e \<Rightarrow> (Inl e, d)
             | Inr src \<Rightarrow> (Inr \<lparr>out_receipt = receipt_for H (rs_header scan) target_footer
                   (if ps_block_count stats = 0 then Codec_Raw else profile_codec (po_profile opts)) opts
                   source_generation target_generation src content,
                 out_footer = target_footer, out_stats = stats, out_target_path = target\<rparr>, d)))))))"

section \<open>Packing and committing\<close>

text \<open>The state is the catalogue in memory, the directory of segments and the directory of manifests.\<close>

definition pack_and_commit :: "codecs \<Rightarrow> hash_fn \<Rightarrow> record_hasher \<Rightarrow> bytes \<Rightarrow> directory \<Rightarrow> database_manifest \<Rightarrow> directory
    \<Rightarrow> file_name \<Rightarrow> file_name \<Rightarrow> pack_options \<Rightarrow> u32 \<Rightarrow> u32 \<Rightarrow> u64
    \<Rightarrow> pack_outcome v6_result \<times> directory \<times> database_manifest \<times> directory" where
  "pack_and_commit cs H hasher junk md manifest d source target opts source_generation target_generation now_hlc =
     (case pack_segment cs H hasher junk d source target opts source_generation target_generation of
        (Inl e, d) \<Rightarrow> (Inl e, md, manifest, d)
      | (Inr outcome, d) \<Rightarrow> (case record_pack manifest (out_receipt outcome) target now_hlc of
          (Inl e, manifest) \<Rightarrow> (Inl e, md, manifest, d)
        | (Inr _, manifest) \<Rightarrow> (case commit H md manifest of
            (Inl e, manifest, md) \<Rightarrow> (Inl e, md, manifest, d)
          | (Inr _, manifest, md) \<Rightarrow> (Inr outcome, md, manifest, d))))"

definition sweep_packer_temps :: "directory \<Rightarrow> file_name list \<times> directory" where
  "sweep_packer_temps d = (let removed = filter (\<lambda>n. extension n = Some (ascii ''tmp'')) (map fst d)
     in (removed, filter (\<lambda>(n, c). n \<notin> set removed) d))"

section \<open>Repacking\<close>

definition repack_write :: "codecs \<Rightarrow> hash_fn \<Rightarrow> record_hasher \<Rightarrow> segment_init \<Rightarrow> pack_options \<Rightarrow> packed_reader
    \<Rightarrow> (footer \<times> pack_stats \<times> bytes) v6_result" where
  "repack_write cs H hasher init opts reader =
     bindE (fst (for_each_record cs reader (\<lambda>w x. push_record cs H hasher w (raw_record_of x)) default_counters
       (packed_create init opts))) (packed_finish cs H)"

definition repack_segment :: "codecs \<Rightarrow> hash_fn \<Rightarrow> record_hasher \<Rightarrow> bytes \<Rightarrow> directory \<Rightarrow> file_name \<Rightarrow> file_name
    \<Rightarrow> pack_options \<Rightarrow> u32 \<Rightarrow> u32 \<Rightarrow> pack_outcome v6_result \<times> directory" where
  "repack_segment cs H hasher junk d source target opts source_generation target_generation = (let CTX = ''hrkl v6 repacker'' in
     if map_of d target \<noteq> None
     then (Inl (corrupt CTX ''target generation already exists; generations are immutable''), d)
     else (case bindE (read_file d source) (\<lambda>src. open_packed src (po_max_block_bytes opts)) of
       Inl e \<Rightarrow> (Inl e, d)
     | Inr reader \<Rightarrow> (let tmp = temp_path target; d = AList.delete tmp d in
       case repack_write cs H hasher (init_of_header (pr_header reader)) opts reader of
         Inl e \<Rightarrow> (Inl e, AList.update tmp junk d)
       | Inr (target_footer, stats, content) \<Rightarrow> (let written = AList.update tmp content d in
         if ft_logical_root target_footer \<noteq> ft_logical_root (pr_footer reader)
         then (Inl (corrupt CTX ''repacked generation has a different logical_root''), AList.delete tmp written)
         else (case run_op (Rename tmp target) written of
           Inl e \<Rightarrow> (Inl e, written)
         | Inr d \<Rightarrow> (case read_file d source of
           Inl e \<Rightarrow> (Inl e, d)
         | Inr src \<Rightarrow> (Inr \<lparr>out_receipt = receipt_for H (pr_header reader) target_footer
               (profile_codec (po_profile opts)) opts source_generation target_generation src content,
             out_footer = target_footer, out_stats = stats, out_target_path = target\<rparr>, d)))))))"

end
