(* ===== verification/Manifest_Laws.thy ===== *)
theory Manifest_Laws
  imports Manifest_Ops
begin

text \<open>
  What the operations of \<open>Manifest_Ops\<close> may do to a descriptor. A revision keeps the logical identity of
  a segment (its LSN and HLC ranges, record count, codec and logical root) and its well-formedness;
  the interface \<open>descriptor_update\<close> says that an operation revises at most one descriptor, and its
  lemmas give the consequences for the whole catalogue once for all operations.
\<close>

section \<open>Well-formed descriptors\<close>

definition logical_identity :: "segment_descriptor \<Rightarrow> segment_id \<times> lsn \<times> lsn \<times> u64 \<times> u16 \<times> bytes \<times> u64 \<times> u64" where
  "logical_identity s = (sd_segment_id s, sd_first_lsn s, sd_last_lsn s, sd_record_count s,
     sd_canonical_codec s, sd_logical_root s, sd_min_hlc s, sd_max_hlc s)"

lemma logical_identity_simps [simp]:
  "logical_identity (s\<lparr>sd_active_generation := a\<rparr>) = logical_identity s"
  "logical_identity (s\<lparr>sd_generations := gs\<rparr>) = logical_identity s"
  "logical_identity (s\<lparr>sd_hrki := h\<rparr>) = logical_identity s"
  "logical_identity (s\<lparr>sd_parquet := p\<rparr>) = logical_identity s"
  "logical_identity (s\<lparr>sd_retention := r\<rparr>) = logical_identity s"
  "logical_identity (modify_generation n f s) = logical_identity s"
  by (simp_all add: logical_identity_def modify_generation_def)

definition ranges_coherent :: "segment_descriptor \<Rightarrow> bool" where
  "ranges_coherent s \<longleftrightarrow> sd_record_count s > 0 \<longrightarrow> sd_first_lsn s \<le> sd_last_lsn s \<and> sd_min_hlc s \<le> sd_max_hlc s
     \<and> sd_record_count s \<le> saturating_add (sd_last_lsn s - sd_first_lsn s) 1"

definition generations_coherent :: "segment_descriptor \<Rightarrow> bool" where
  "generations_coherent s \<longleftrightarrow> distinct (map pg_generation (sd_generations s))
     \<and> (sd_generations s = [] \<or> sd_active_generation s \<in> pg_generation ` set (sd_generations s))"

lemma find_key_None: "find (\<lambda>x. f x = k) xs = None \<longleftrightarrow> k \<notin> f ` set xs"
  by (induction xs) auto

lemma active_None: "active_generation s = None \<longleftrightarrow> sd_active_generation s \<notin> pg_generation ` set (sd_generations s)"
  unfolding active_generation_def by (rule find_key_None)

lemma generation_None: "generation_of_number s n = None \<longleftrightarrow> n \<notin> pg_generation ` set (sd_generations s)"
  unfolding generation_of_number_def by (rule find_key_None)

lemma coherence_iff: "check_segment_coherence s = Inr () \<longleftrightarrow> ranges_coherent s \<and> generations_coherent s"
  by (auto simp: check_segment_coherence_def Let_def ranges_coherent_def generations_coherent_def active_None not_less)

lemma ranges_coherent_cong: "logical_identity s = logical_identity d \<Longrightarrow> ranges_coherent s = ranges_coherent d"
  by (simp add: logical_identity_def ranges_coherent_def)

definition physical_ok :: "segment_descriptor \<Rightarrow> bool" where
  "physical_ok s \<longleftrightarrow> list_all generation_ok (sd_generations s) \<and> artifact_ok (sd_hrki s)
     \<and> artifact_ok (sd_parquet s) \<and> generations_coherent s"

lemma segment_ok_iff:
  "segment_ok s \<longleftrightarrow> length (sd_logical_root s) = 32 \<and> ranges_coherent s \<and> physical_ok s"
  by (auto simp: segment_ok_def physical_ok_def coherence_iff)

section \<open>Revisions\<close>

definition revises :: "segment_descriptor \<Rightarrow> segment_descriptor \<Rightarrow> bool" where
  "revises s d \<longleftrightarrow> logical_identity d = logical_identity s \<and> (physical_ok s \<longrightarrow> physical_ok d)"

lemma revises_refl [simp]: "revises s s"
  by (simp add: revises_def)

lemma revises_trans [trans]: "revises a b \<Longrightarrow> revises b c \<Longrightarrow> revises a c"
  by (simp add: revises_def)

lemma revises_ok: "revises s d \<Longrightarrow> segment_ok s \<Longrightarrow> segment_ok d"
  using ranges_coherent_cong [of d s]
  by (auto simp: revises_def segment_ok_iff logical_identity_def)

lemma revises_fields: "revises s d \<Longrightarrow> sd_segment_id d = sd_segment_id s \<and> sd_first_lsn d = sd_first_lsn s"
  by (simp add: revises_def logical_identity_def)

lemma set_modify_generation:
  "list_all P gs \<Longrightarrow> (\<And>g. P g \<Longrightarrow> P (f g)) \<Longrightarrow> list_all P (modify_first q f gs)"
  by (induction gs) auto

lemma revises_modify_generation:
  assumes "\<And>g. pg_generation (f g) = pg_generation g" and "\<And>g. generation_ok g \<Longrightarrow> generation_ok (f g)"
  shows "revises s (modify_generation n f s)"
proof -
  have m: "map pg_generation (modify_first p f gs) = map pg_generation gs" for p gs
    by (rule map_modify_first) (rule assms(1))
  then have "pg_generation ` set (modify_first p f gs) = pg_generation ` set gs" for p gs
    by (metis list.set_map)
  moreover have "modify_first p f gs = [] \<longleftrightarrow> gs = []" for p gs
    by (cases gs) auto
  ultimately show ?thesis
    using m assms(2)
    by (auto simp: revises_def physical_ok_def generations_coherent_def modify_generation_def
        intro!: set_modify_generation)
qed

lemma revises_activate:
  "n \<in> pg_generation ` set (sd_generations s) \<Longrightarrow> revises s (s\<lparr>sd_active_generation := n\<rparr>)"
  by (auto simp: revises_def physical_ok_def generations_coherent_def)

lemma revises_push:
  assumes "pg_generation g \<notin> pg_generation ` set (sd_generations s)" and "generation_ok g"
  shows "revises s (s\<lparr>sd_generations := sd_generations s @ [g], sd_active_generation := pg_generation g\<rparr>)"
  using assms by (auto simp: revises_def physical_ok_def generations_coherent_def)

lemma revises_artifact:
  "artifact_ok a \<Longrightarrow> revises s (s\<lparr>sd_hrki := a\<rparr>)" "artifact_ok a \<Longrightarrow> revises s (s\<lparr>sd_parquet := a\<rparr>)"
  "revises s (s\<lparr>sd_retention := r\<rparr>)"
  by (auto simp: revises_def physical_ok_def generations_coherent_def)

section \<open>Operations that revise one descriptor\<close>

definition catalog_ok :: "database_manifest \<Rightarrow> bool" where
  "catalog_ok m \<longleftrightarrow> catalog_ordered m \<and> list_all segment_ok (dm_segments_v2 m)"

text \<open>\<open>valid\<close> is what the caller owes: locations that fit the codec and 32-byte digests.\<close>

locale descriptor_update =
  fixes valid :: bool and sid :: segment_id and upd :: "database_manifest \<Rightarrow> database_manifest"
  assumes update: "valid \<Longrightarrow> dm_segments_v2 (upd m) = dm_segments_v2 m
    \<or> (\<exists>s d. segment m sid = Some s \<and> revises s d \<and> dm_segments_v2 (upd m) = dm_segments_v2 (write_segment sid d m))"
begin

lemma segment_upd:
  assumes valid and "segment m k = Some s"
  shows "\<exists>d. segment (upd m) k = Some d \<and> revises s d"
proof -
  have seg: "segment m' k = segment m'' k" if "dm_segments_v2 m' = dm_segments_v2 m''" for m' m''
    using that by (simp add: segment_def)
  from update [OF assms(1), of m] show ?thesis
  proof
    assume "dm_segments_v2 (upd m) = dm_segments_v2 m"
    then show ?thesis using assms(2) seg [of "upd m" m] by simp
  next
    assume "\<exists>s d. segment m sid = Some s \<and> revises s d \<and> dm_segments_v2 (upd m) = dm_segments_v2 (write_segment sid d m)"
    then obtain s0 d where s0: "segment m sid = Some s0" "revises s0 d"
      and d: "segment (upd m) k = segment (write_segment sid d m) k"
      using seg [of "upd m"] by blast
    have "sd_segment_id d = sid" using revises_fields [OF s0(2)] segment_Some [OF s0(1)] by simp
    then show ?thesis using s0 assms(2) by (auto simp: d segment_write)
  qed
qed

lemma catalog_ok_upd:
  assumes valid and "catalog_ok m"
  shows "catalog_ok (upd m)"
proof -
  from update [OF assms(1), of m] show ?thesis
  proof
    assume "dm_segments_v2 (upd m) = dm_segments_v2 m"
    then show ?thesis using assms(2) by (simp add: catalog_ok_def catalog_ordered_def)
  next
    assume "\<exists>s d. segment m sid = Some s \<and> revises s d \<and> dm_segments_v2 (upd m) = dm_segments_v2 (write_segment sid d m)"
    then obtain s d where s: "segment m sid = Some s" "revises s d"
      and d: "dm_segments_v2 (upd m) = dm_segments_v2 (write_segment sid d m)" by blast
    have e: "write_segment sid d m = upsert_segment d m"
      using upsert_existing [of m d] revises_fields [OF s(2)] segment_Some [OF s(1)] s(1) by simp
    have "catalog_ordered (upsert_segment d m)"
    proof (rule catalog_ordered_upsert)
      show "catalog_ordered m" using assms(2) by (simp add: catalog_ok_def)
      fix s' assume "segment m (sd_segment_id d) = Some s'"
      then show "sd_first_lsn s' = sd_first_lsn d"
        using revises_fields [OF s(2)] segment_Some [OF s(1)] s(1) by simp
    qed
    moreover have "segment_ok d"
      using revises_ok [OF s(2)] segment_Some [OF s(1)] assms(2) by (auto simp: catalog_ok_def list_all_iff)
    then have "list_all segment_ok (dm_segments_v2 (upsert_segment d m))"
      using set_upsert [of d m] assms(2) by (auto simp: catalog_ok_def list_all_iff)
    ultimately show ?thesis by (simp add: catalog_ok_def catalog_ordered_def d e)
  qed
qed

end

lemma descriptor_updateI:
  assumes "\<And>m. valid \<Longrightarrow> segment m sid = None \<Longrightarrow> dm_segments_v2 (upd m) = dm_segments_v2 m"
    and "\<And>m s. valid \<Longrightarrow> segment m sid = Some s \<Longrightarrow> dm_segments_v2 (upd m) = dm_segments_v2 m
      \<or> (\<exists>d. revises s d \<and> dm_segments_v2 (upd m) = dm_segments_v2 (write_segment sid d m))"
  shows "descriptor_update valid sid upd"
proof
  fix m assume valid
  then show "dm_segments_v2 (upd m) = dm_segments_v2 m \<or> (\<exists>s d. segment m sid = Some s \<and> revises s d
      \<and> dm_segments_v2 (upd m) = dm_segments_v2 (write_segment sid d m))"
    using assms [of m] by (cases "segment m sid") blast+
qed

definition packed_generation :: "pack_receipt \<Rightarrow> bytes \<Rightarrow> u64 \<Rightarrow> physical_generation" where
  "packed_generation r target_location now_hlc = \<lparr>pg_generation = pr_target_generation r, pg_layout = Layout_Packed,
     pg_compression = pr_codec r, pg_location = target_location, pg_physical_size = pr_target_physical_size r,
     pg_physical_digest = pr_target_physical_digest r, pg_state = Active, pg_created_hlc = now_hlc,
     pg_verified_hlc = now_hlc, pg_superseded_hlc = 0, pg_verified_copies = 1\<rparr>"

text \<open>The descriptor after a successful \<open>record_pack\<close>.\<close>

definition packed_descriptor :: "pack_receipt \<Rightarrow> bytes \<Rightarrow> u64 \<Rightarrow> segment_descriptor \<Rightarrow> segment_descriptor" where
  "packed_descriptor r target_location now_hlc s =
     modify_generation (pr_source_generation r)
       (\<lambda>src. if pg_state src \<noteq> Quarantined then src\<lparr>pg_state := Superseded, pg_superseded_hlc := now_hlc\<rparr> else src)
       (s\<lparr>sd_generations := sd_generations s @ [packed_generation r target_location now_hlc],
          sd_active_generation := pr_target_generation r\<rparr>)"

lemma record_pack_Some:
  assumes "segment m (pr_segment_id r) = Some s"
  shows "record_pack m r loc now =
    (if sd_logical_root s \<noteq> pr_logical_root r
     then (Inl (corrupt ''hrkm record_pack'' ''pack receipt logical_root differs from the catalogued segment; refusing to record''), m)
     else if generation_of_number s (pr_target_generation r) \<noteq> None
     then (Inl (corrupt ''hrkm record_pack'' ''target generation already recorded; generations are immutable''), m)
     else (check_segment_coherence (packed_descriptor r loc now s),
           write_segment (pr_segment_id r) (packed_descriptor r loc now s) m))"
  using assms by (simp add: record_pack_def Let_def packed_descriptor_def packed_generation_def)

lemma packed_descriptor_revises:
  assumes "generation_of_number s (pr_target_generation r) = None"
    and "location_ok loc" and "length (pr_target_physical_digest r) = 32"
  shows "revises s (packed_descriptor r loc now s)"
proof -
  let ?g = "packed_generation r loc now"
  have "generation_ok ?g" using assms(2,3) by (simp add: generation_ok_def packed_generation_def)
  moreover have "pg_generation ?g \<notin> pg_generation ` set (sd_generations s)"
    using assms(1) by (simp add: generation_None packed_generation_def)
  ultimately have "revises s (s\<lparr>sd_generations := sd_generations s @ [?g], sd_active_generation := pg_generation ?g\<rparr>)"
    by (intro revises_push)
  also have "revises \<dots> (packed_descriptor r loc now s)"
    unfolding packed_descriptor_def packed_generation_def
    by (simp, rule revises_modify_generation) (simp_all add: generation_ok_def)
  finally show ?thesis .
qed

interpretation pack_update: descriptor_update
  "location_ok loc \<and> length (pr_target_physical_digest r) = 32" "pr_segment_id r" "\<lambda>m. snd (record_pack m r loc now)"
  for loc r now
proof (rule descriptor_updateI)
  fix m s assume "location_ok loc \<and> length (pr_target_physical_digest r) = 32" "segment m (pr_segment_id r) = Some s"
  then show "dm_segments_v2 (snd (record_pack m r loc now)) = dm_segments_v2 m \<or> (\<exists>d. revises s d
      \<and> dm_segments_v2 (snd (record_pack m r loc now)) = dm_segments_v2 (write_segment (pr_segment_id r) d m))"
    using packed_descriptor_revises [of s r loc now] by (auto simp: record_pack_Some)
qed (simp add: record_pack_def)

lemma max_by_key_None: "max_by_key k xs = None \<longleftrightarrow> xs = []"
  by (cases xs) (auto split: option.splits)

lemma max_by_key_Some:
  "max_by_key k xs = Some x \<Longrightarrow> x \<in> set xs \<and> (\<forall>y \<in> set xs. k y \<le> k x)"
proof (induction xs arbitrary: x)
  case (Cons a xs)
  show ?case
  proof (cases "max_by_key k xs")
    case None
    then show ?thesis using Cons.prems by (simp add: max_by_key_None)
  next
    case (Some b)
    then show ?thesis using Cons.prems Cons.IH [of b] by (auto split: if_splits)
  qed
qed simp

definition quarantined_descriptor :: "u32 \<Rightarrow> u64 \<Rightarrow> segment_descriptor \<Rightarrow> segment_descriptor" where
  "quarantined_descriptor n now_hlc s =
     modify_generation n (\<lambda>g. g\<lparr>pg_state := Quarantined, pg_superseded_hlc := now_hlc\<rparr>) s"

definition reactivated_descriptor :: "u32 \<Rightarrow> segment_descriptor \<Rightarrow> segment_descriptor" where
  "reactivated_descriptor n s = modify_generation n
     (\<lambda>gg. if pg_state gg = Superseded then gg\<lparr>pg_state := Active, pg_superseded_hlc := 0\<rparr> else gg)
     (s\<lparr>sd_active_generation := n\<rparr>)"

lemma quarantine_Some:
  assumes "segment m sid = Some s"
  shows "quarantine_generation m sid n now =
    (if generation_of_number s n = None then (Inl (corrupt ''hrkm quarantine'' ''generation does not exist''), m)
     else (let q = quarantined_descriptor n now s in case best_authority q of
         Some g \<Rightarrow> (Inr (pg_generation g), write_segment sid (reactivated_descriptor (pg_generation g) q) m)
       | None \<Rightarrow> (Inl (corrupt ''hrkm quarantine'' ''segment has no remaining canonical authority after quarantine''),
                  write_segment sid q m)))"
  using assms by (simp add: quarantine_generation_def Let_def quarantined_descriptor_def reactivated_descriptor_def
      split: option.splits)

lemma quarantined_revises: "revises s (quarantined_descriptor n now s)"
  unfolding quarantined_descriptor_def by (rule revises_modify_generation) (simp_all add: generation_ok_def)

lemma reactivated_revises:
  assumes "n \<in> pg_generation ` set (sd_generations s)"
  shows "revises s (reactivated_descriptor n s)"
proof -
  have "revises s (s\<lparr>sd_active_generation := n\<rparr>)" using assms by (rule revises_activate)
  also have "revises \<dots> (reactivated_descriptor n s)"
    unfolding reactivated_descriptor_def
    by (rule revises_modify_generation) (simp_all add: generation_ok_def)
  finally show ?thesis .
qed

lemma best_authority_mem:
  "best_authority s = Some g \<Longrightarrow> g \<in> set (sd_generations s) \<and> is_canonical_authority g"
  using max_by_key_Some [of authority_rank] by (fastforce simp: best_authority_def)

interpretation quarantine_update: descriptor_update True sid "\<lambda>m. snd (quarantine_generation m sid n now)" for sid n now
proof (rule descriptor_updateI)
  fix m s assume s: "segment m sid = Some s"
  let ?q = "quarantined_descriptor n now s"
  show "dm_segments_v2 (snd (quarantine_generation m sid n now)) = dm_segments_v2 m \<or> (\<exists>d. revises s d
      \<and> dm_segments_v2 (snd (quarantine_generation m sid n now)) = dm_segments_v2 (write_segment sid d m))"
  proof (cases "best_authority ?q")
    case None
    then show ?thesis using quarantined_revises by (auto simp: quarantine_Some [OF s] Let_def)
  next
    case (Some g)
    then have "pg_generation g \<in> pg_generation ` set (sd_generations ?q)" using best_authority_mem by blast
    from revises_trans [OF quarantined_revises reactivated_revises [OF this]] Some
    show ?thesis by (auto simp: quarantine_Some [OF s] Let_def)
  qed
qed (simp add: quarantine_generation_def)

interpretation sidecar_update: descriptor_update "artifact_ok (Some a)" sid "\<lambda>m. snd (attach_sidecar m sid a)" for sid a
  by (rule descriptor_updateI) (auto simp: attach_sidecar_def Let_def intro: revises_artifact)

interpretation parquet_update: descriptor_update "artifact_ok (Some a)" sid "\<lambda>m. snd (attach_parquet m sid a)" for sid a
  by (rule descriptor_updateI) (auto simp: attach_parquet_def Let_def intro: revises_artifact)

interpretation hold_update: descriptor_update True sid "\<lambda>m. snd (set_legal_hold m sid h)" for sid h
  by (rule descriptor_updateI) (auto simp: set_legal_hold_def intro: revises_artifact)

lemma revises_copies: "revises s (modify_generation n (\<lambda>g. g\<lparr>pg_verified_copies := c\<rparr>) s)"
  by (rule revises_modify_generation) (simp_all add: generation_ok_def)

interpretation copies_update: descriptor_update True sid "\<lambda>m. snd (set_verified_copies m sid n c)" for sid n c
  by (rule descriptor_updateI)
    (use revises_copies in \<open>auto simp: set_verified_copies_def Let_def\<close>)

end
