(* ===== verification/V6_Gc.thy ===== *)
theory V6_Gc
  imports Manifest_Laws "HOL-Library.AList"
begin

text \<open>
  \<open>heraclitus-log/src/v6/gc.rs\<close>: reader pins, the garbage-collection plan with the reason of every
  block, the independent check of a plan, and its application to the catalogue. The registry is the
  contents of the mutex; the drop of a guard is the operation \<open>unpin\<close>. The check of free disk space
  computes with floats and is left out.
\<close>

section \<open>Reader pins\<close>

type_synonym pin_registry = "((segment_id \<times> u32) \<times> u32) list"

definition pin_count :: "pin_registry \<Rightarrow> segment_id \<Rightarrow> u32 \<Rightarrow> u32" where
  "pin_count r sid generation = (case map_of r (sid, generation) of Some c \<Rightarrow> c | None \<Rightarrow> 0)"

definition pin :: "pin_registry \<Rightarrow> segment_id \<Rightarrow> u32 \<Rightarrow> pin_registry" where
  "pin r sid generation = AList.update (sid, generation) (pin_count r sid generation + 1) r"

definition unpin :: "pin_registry \<Rightarrow> segment_id \<Rightarrow> u32 \<Rightarrow> pin_registry" where
  "unpin r sid generation = (case map_of r (sid, generation) of
     None \<Rightarrow> r
   | Some c \<Rightarrow> (let c = (if c = 0 then 0 else c - 1) in
       if c = 0 then AList.delete (sid, generation) r else AList.update (sid, generation) c r))"

definition pin_total :: "pin_registry \<Rightarrow> u32" where
  "pin_total r = sum_list (map snd r)"

section \<open>The plan\<close>

definition hlc_millis :: "u64 \<Rightarrow> u64" where
  "hlc_millis hlc = drop_bit 16 hlc"

definition CANONICAL_CODEC_LEGACY :: u16 where
  "CANONICAL_CODEC_LEGACY = 0"

record gc_options =
  go_now_hlc :: u64
  go_keep_manifests :: nat
  go_collect_quarantined :: bool

datatype gc_block_reason =
    NotSuperseded
  | LegalHold
  | LastCanonicalAuthority
  | ReaderPinned u32
  | GracePeriod u64
  | InsufficientVerifiedCopies u32 u32
  | BlockedQuarantined
  | LegacyOriginalPreserved

record gc_candidate =
  gc_segment_id :: segment_id
  gc_generation :: u32
  gc_location :: bytes
  gc_physical_size :: u64
  gc_layout :: physical_layout

record gc_blocked =
  gb_segment_id :: segment_id
  gb_generation :: u32
  gb_location :: bytes
  gb_reason :: gc_block_reason

datatype artifact_kind = Hrki | Parquet

record stale_artifact =
  sa_segment_id :: segment_id
  sa_location :: bytes
  sa_size :: u64
  sa_kind :: artifact_kind

record gc_plan =
  gp_generations :: "gc_candidate list"
  gp_blocked :: "gc_blocked list"
  gp_stale_artifacts :: "stale_artifact list"

definition reclaimable_bytes :: "gc_plan \<Rightarrow> u64" where
  "reclaimable_bytes p = sum_list (map gc_physical_size (gp_generations p))
     + sum_list (map sa_size (gp_stale_artifacts p))"

definition plan_is_empty :: "gc_plan \<Rightarrow> bool" where
  "plan_is_empty p = (gp_generations p = [] \<and> gp_stale_artifacts p = [])"

definition melhor_contagem :: "segment_descriptor \<Rightarrow> u32 \<Rightarrow> u32" where
  "melhor_contagem s excluir = fold max (map pg_verified_copies
     (filter (\<lambda>g. pg_generation g \<noteq> excluir \<and> is_canonical_authority g) (sd_generations s))) 0"

definition saturating_mul :: "u64 \<Rightarrow> u64 \<Rightarrow> u64" where
  "saturating_mul a b = (if unat a * unat b < 18446744073709551616 then a * b else 18446744073709551615)"

definition div_ceil :: "u64 \<Rightarrow> u64 \<Rightarrow> u64" where
  "div_ceil a b = (if 0 < a mod b then a div b + 1 else a div b)"

definition grace_remaining :: "u64 \<Rightarrow> u64 \<Rightarrow> u64 \<Rightarrow> u64 option" where
  "grace_remaining superseded_hlc now_hlc grace_seconds =
     (if superseded_hlc = 0 then Some grace_seconds
      else (let decorrido_ms = saturating_sub (hlc_millis now_hlc) (hlc_millis superseded_hlc);
                necessario_ms = saturating_mul grace_seconds 1000
        in if necessario_ms \<le> decorrido_ms then None else Some (div_ceil (necessario_ms - decorrido_ms) 1000)))"

text \<open>The chain of conditions of \<open>plan_gc\<close> for one generation.\<close>

definition bloqueio :: "pin_registry \<Rightarrow> gc_options \<Rightarrow> segment_descriptor \<Rightarrow> physical_generation
    \<Rightarrow> gc_block_reason option" where
  "bloqueio pins opts s g = (let autoridades = map pg_generation (canonical_authorities s) in
     if pg_generation g = sd_active_generation s then Some NotSuperseded
     else if pg_state g = Quarantined \<and> \<not> go_collect_quarantined opts then Some BlockedQuarantined
     else if pg_state g \<noteq> Superseded \<and> pg_state g \<noteq> Quarantined then Some NotSuperseded
     else if rp_legal_hold (sd_retention s) then Some LegalHold
     else if rp_preserve_legacy_original (sd_retention s) \<and> sd_canonical_codec s = CANONICAL_CODEC_LEGACY
       \<and> pg_generation g = 0 then Some LegacyOriginalPreserved
     else if pg_generation g \<in> set autoridades \<and> length autoridades \<le> 1 then Some LastCanonicalAuthority
     else (let pinned = pin_count pins (sd_segment_id s) (pg_generation g) in
       if pinned > 0 then Some (ReaderPinned pinned)
       else (case grace_remaining (pg_superseded_hlc g) (go_now_hlc opts) (rp_gc_grace_seconds (sd_retention s)) of
           Some faltam \<Rightarrow> Some (GracePeriod faltam)
         | None \<Rightarrow>
           if melhor_contagem s (pg_generation g) < rp_min_verified_copies (sd_retention s)
           then Some (InsufficientVerifiedCopies (melhor_contagem s (pg_generation g))
             (rp_min_verified_copies (sd_retention s)))
           else None)))"

definition plan_generation :: "pin_registry \<Rightarrow> gc_options \<Rightarrow> segment_descriptor \<Rightarrow> physical_generation
    \<Rightarrow> gc_plan \<Rightarrow> gc_plan" where
  "plan_generation pins opts s g plan = (case bloqueio pins opts s g of
     Some reason \<Rightarrow> plan\<lparr>gp_blocked := gp_blocked plan @ [\<lparr>gb_segment_id = sd_segment_id s,
       gb_generation = pg_generation g, gb_location = pg_location g, gb_reason = reason\<rparr>]\<rparr>
   | None \<Rightarrow> plan\<lparr>gp_generations := gp_generations plan @ [\<lparr>gc_segment_id = sd_segment_id s,
       gc_generation = pg_generation g, gc_location = pg_location g, gc_physical_size = pg_physical_size g,
       gc_layout = pg_layout g\<rparr>]\<rparr>)"

definition plan_artifact :: "artifact_kind \<Rightarrow> segment_descriptor \<Rightarrow> derived_artifact_ref option
    \<Rightarrow> gc_plan \<Rightarrow> gc_plan" where
  "plan_artifact kind s a plan = (case a of
     Some h \<Rightarrow> if da_logical_root h \<noteq> sd_logical_root s
       then plan\<lparr>gp_stale_artifacts := gp_stale_artifacts plan @ [\<lparr>sa_segment_id = sd_segment_id s,
         sa_location = da_location h, sa_size = da_size h, sa_kind = kind\<rparr>]\<rparr>
       else plan
   | None \<Rightarrow> plan)"

definition plan_segment :: "pin_registry \<Rightarrow> gc_options \<Rightarrow> segment_descriptor \<Rightarrow> gc_plan \<Rightarrow> gc_plan" where
  "plan_segment pins opts s plan = plan_artifact Parquet s (sd_parquet s)
     (plan_artifact Hrki s (sd_hrki s) (fold (plan_generation pins opts s) (sd_generations s) plan))"

definition plan_gc :: "database_manifest \<Rightarrow> pin_registry \<Rightarrow> gc_options \<Rightarrow> gc_plan" where
  "plan_gc m pins opts = fold (plan_segment pins opts) (dm_segments_v2 m)
     \<lparr>gp_generations = [], gp_blocked = [], gp_stale_artifacts = []\<rparr>"

section \<open>Checking and applying a plan\<close>

definition assert_segment :: "gc_plan \<Rightarrow> segment_descriptor \<Rightarrow> unit v6_result" where
  "assert_segment plan s = (let CTX = ''hrkl v6 gc'';
       a_remover = map gc_generation (filter (\<lambda>c. gc_segment_id c = sd_segment_id s) (gp_generations plan));
       antes = length (canonical_authorities s);
       sobram = length (filter (\<lambda>g. pg_generation g \<notin> set a_remover) (canonical_authorities s))
     in if antes > 0 \<and> sobram = 0
        then Inl (corrupt CTX ''plan would leave a segment without a canonical authority'')
        else if sd_active_generation s \<in> set a_remover
        then Inl (corrupt CTX ''plan would remove the active generation of a segment'')
        else Inr ())"

definition assert_gc_invariant :: "database_manifest \<Rightarrow> gc_plan \<Rightarrow> unit v6_result" where
  "assert_gc_invariant m plan = foldE (\<lambda>_ s. assert_segment plan s) () (dm_segments_v2 m)"

definition collect_generation :: "gc_candidate \<Rightarrow> database_manifest \<Rightarrow> database_manifest" where
  "collect_generation c m = (case segment m (gc_segment_id c) of
     Some s \<Rightarrow> write_segment (gc_segment_id c)
       (s\<lparr>sd_generations := filter (\<lambda>g. pg_generation g \<noteq> gc_generation c) (sd_generations s)\<rparr>) m
   | None \<Rightarrow> m)"

definition collect_artifact :: "stale_artifact \<Rightarrow> database_manifest \<Rightarrow> database_manifest" where
  "collect_artifact a m = (case segment m (sa_segment_id a) of
     Some s \<Rightarrow> write_segment (sa_segment_id a)
       (case sa_kind a of Hrki \<Rightarrow> s\<lparr>sd_hrki := None\<rparr> | Parquet \<Rightarrow> s\<lparr>sd_parquet := None\<rparr>) m
   | None \<Rightarrow> m)"

definition apply_gc :: "database_manifest \<Rightarrow> gc_plan \<Rightarrow> unit v6_result \<times> database_manifest" where
  "apply_gc m plan = (case assert_gc_invariant m plan of
     Inl e \<Rightarrow> (Inl e, m)
   | Inr _ \<Rightarrow> (Inr (), fold collect_artifact (gp_stale_artifacts plan)
        (fold collect_generation (gp_generations plan) m)))"

datatype compaction_class = Canonical | Projection

definition classify_compaction :: "bytes \<Rightarrow> bytes \<Rightarrow> compaction_class" where
  "classify_compaction input_root output_root = (if input_root = output_root then Canonical else Projection)"

end
