(* ===== verification/V6_Gc_Correct.thy ===== *)
theory V6_Gc_Correct
  imports V6_Gc
begin

text \<open>
  Garbage collection is safe. The plan is put into closed form (which generations it names), the
  application of a plan becomes a map over the descriptors, and both together show that the two
  independently written judgements of the code agree: under the invariant that the active generation
  of a segment is an authority, the check never rejects a plan that \<open>plan_gc\<close> made.
\<close>

section \<open>The plan in closed form\<close>

definition collectable :: "pin_registry \<Rightarrow> gc_options \<Rightarrow> segment_descriptor \<Rightarrow> physical_generation list" where
  "collectable pins opts s = filter (\<lambda>g. bloqueio pins opts s g = None) (sd_generations s)"

definition candidate_of :: "segment_descriptor \<Rightarrow> physical_generation \<Rightarrow> gc_candidate" where
  "candidate_of s g = \<lparr>gc_segment_id = sd_segment_id s, gc_generation = pg_generation g,
     gc_location = pg_location g, gc_physical_size = pg_physical_size g, gc_layout = pg_layout g\<rparr>"

lemma candidate_of_simps [simp]:
  "gc_segment_id (candidate_of s g) = sd_segment_id s" "gc_generation (candidate_of s g) = pg_generation g"
  by (simp_all add: candidate_of_def)

lemma fold_plan_generation:
  "gp_generations (fold (plan_generation pins opts s) gs plan)
    = gp_generations plan @ map (candidate_of s) (filter (\<lambda>g. bloqueio pins opts s g = None) gs)"
  by (induction gs arbitrary: plan) (auto simp: plan_generation_def candidate_of_def split: option.splits)

lemma fold_plan_blocked:
  "map (\<lambda>b. (gb_segment_id b, gb_generation b)) (gp_blocked (fold (plan_generation pins opts s) gs plan))
    = map (\<lambda>b. (gb_segment_id b, gb_generation b)) (gp_blocked plan)
      @ map (\<lambda>g. (sd_segment_id s, pg_generation g)) (filter (\<lambda>g. bloqueio pins opts s g \<noteq> None) gs)"
  by (induction gs arbitrary: plan) (auto simp: plan_generation_def split: option.splits)

lemma plan_artifact_keeps [simp]:
  "gp_generations (plan_artifact k s a plan) = gp_generations plan"
  "gp_blocked (plan_artifact k s a plan) = gp_blocked plan"
  by (auto simp: plan_artifact_def split: option.splits)

lemma fold_plan_segment:
  "gp_generations (fold (plan_segment pins opts) ss plan)
    = gp_generations plan @ concat (map (\<lambda>s. map (candidate_of s) (collectable pins opts s)) ss)"
  by (induction ss arbitrary: plan) (simp_all add: plan_segment_def fold_plan_generation collectable_def)

lemma plan_generations:
  "gp_generations (plan_gc m pins opts)
    = concat (map (\<lambda>s. map (candidate_of s) (collectable pins opts s)) (dm_segments_v2 m))"
  by (simp add: plan_gc_def fold_plan_segment)

lemma fold_plan_segment_blocked:
  "map (\<lambda>b. (gb_segment_id b, gb_generation b)) (gp_blocked (fold (plan_segment pins opts) ss plan))
    = map (\<lambda>b. (gb_segment_id b, gb_generation b)) (gp_blocked plan)
      @ concat (map (\<lambda>s. map (\<lambda>g. (sd_segment_id s, pg_generation g))
          (filter (\<lambda>g. bloqueio pins opts s g \<noteq> None) (sd_generations s))) ss)"
  by (induction ss arbitrary: plan) (simp_all add: plan_segment_def fold_plan_blocked)

lemma plan_blocked:
  "map (\<lambda>b. (gb_segment_id b, gb_generation b)) (gp_blocked (plan_gc m pins opts))
    = concat (map (\<lambda>s. map (\<lambda>g. (sd_segment_id s, pg_generation g))
        (filter (\<lambda>g. bloqueio pins opts s g \<noteq> None) (sd_generations s))) (dm_segments_v2 m))"
  by (simp add: plan_gc_def fold_plan_segment_blocked)

text \<open>The generations a plan removes from one segment.\<close>

definition removed_from :: "gc_plan \<Rightarrow> segment_descriptor \<Rightarrow> u32 set" where
  "removed_from plan s = gc_generation ` {c \<in> set (gp_generations plan). gc_segment_id c = sd_segment_id s}"

lemma distinct_ids_eq:
  "distinct (map sd_segment_id ss) \<Longrightarrow> s \<in> set ss \<Longrightarrow> t \<in> set ss \<Longrightarrow> sd_segment_id s = sd_segment_id t \<Longrightarrow> s = t"
  by (metis (no_types) distinct_map inj_onD)

lemma candidates_of_segment:
  "gc_generation ` {c \<in> (\<Union>t \<in> A. candidate_of t ` C t). gc_segment_id c = k}
    = (\<Union>t \<in> {t \<in> A. sd_segment_id t = k}. pg_generation ` C t)" (is "?L = ?R")
proof
  show "?L \<subseteq> ?R" by auto
  show "?R \<subseteq> ?L"
  proof
    fix n assume "n \<in> ?R"
    then obtain t g where "t \<in> A" "sd_segment_id t = k" "g \<in> C t" "n = pg_generation g" by blast
    then have "candidate_of t g \<in> {c \<in> (\<Union>t \<in> A. candidate_of t ` C t). gc_segment_id c = k}"
      and "n = gc_generation (candidate_of t g)" by auto
    then show "n \<in> ?L" by (rule rev_image_eqI)
  qed
qed

lemma removed_from_plan:
  assumes "distinct (map sd_segment_id (dm_segments_v2 m))" and "s \<in> set (dm_segments_v2 m)"
  shows "removed_from (plan_gc m pins opts) s = pg_generation ` set (collectable pins opts s)"
proof -
  let ?col = "\<lambda>t. set (collectable pins opts t)"
  have "set (gp_generations (plan_gc m pins opts)) = (\<Union>t \<in> set (dm_segments_v2 m). candidate_of t ` ?col t)"
    by (simp add: plan_generations)
  then have "removed_from (plan_gc m pins opts) s
      = (\<Union>t \<in> {t \<in> set (dm_segments_v2 m). sd_segment_id t = sd_segment_id s}. pg_generation ` ?col t)"
    unfolding removed_from_def by (simp only: candidates_of_segment)
  also have "{t \<in> set (dm_segments_v2 m). sd_segment_id t = sd_segment_id s} = {s}"
    using distinct_ids_eq [OF assms(1)] assms(2) by blast
  finally show ?thesis by simp
qed

section \<open>Applying a plan\<close>

definition update_descriptor :: "segment_id \<Rightarrow> (segment_descriptor \<Rightarrow> segment_descriptor) \<Rightarrow> database_manifest
    \<Rightarrow> database_manifest" where
  "update_descriptor sid f m = (case segment m sid of Some s \<Rightarrow> write_segment sid (f s) m | None \<Rightarrow> m)"

lemma modify_first_map:
  assumes "distinct (map k xs)" and "find (\<lambda>x. k x = v) xs = Some s"
  shows "modify_first (\<lambda>x. k x = v) (\<lambda>_. f s) xs = map (\<lambda>x. if k x = v then f x else x) xs"
  using assms
proof (induction xs)
  case (Cons x xs)
  then show ?case by (auto simp: image_iff intro!: map_idI [symmetric])
qed simp

lemma segments_update_descriptor:
  assumes "distinct (map sd_segment_id (dm_segments_v2 m))"
  shows "dm_segments_v2 (update_descriptor sid f m)
    = map (\<lambda>s. if sd_segment_id s = sid then f s else s) (dm_segments_v2 m)"
proof (cases "segment m sid")
  case None
  then have "sid \<notin> sd_segment_id ` set (dm_segments_v2 m)" by (simp add: segment_None)
  then show ?thesis using None by (auto simp: update_descriptor_def intro!: map_idI [symmetric])
next
  case (Some s)
  then show ?thesis
    using modify_first_map [OF assms, of sid s f] by (simp add: update_descriptor_def write_segment_def segment_def)
qed

lemma update_descriptor_ids:
  assumes "distinct (map sd_segment_id (dm_segments_v2 m))" and "\<And>s. sd_segment_id (f s) = sd_segment_id s"
  shows "map sd_segment_id (dm_segments_v2 (update_descriptor sid f m)) = map sd_segment_id (dm_segments_v2 m)"
  by (simp add: segments_update_descriptor [OF assms(1)] assms(2))

lemma fold_update_descriptor:
  assumes "distinct (map sd_segment_id (dm_segments_v2 m))" and "\<And>x s. sd_segment_id (f x s) = sd_segment_id s"
  shows "dm_segments_v2 (fold (\<lambda>x. update_descriptor (k x) (f x)) xs m)
    = map (\<lambda>s. fold f (filter (\<lambda>x. k x = sd_segment_id s) xs) s) (dm_segments_v2 m)"
  using assms(1)
proof (induction xs arbitrary: m)
  case (Cons x xs)
  let ?m = "update_descriptor (k x) (f x) m"
  have "distinct (map sd_segment_id (dm_segments_v2 ?m))"
    using update_descriptor_ids [OF Cons.prems] assms(2) Cons.prems by metis
  from Cons.IH [OF this] show ?case
    by (simp add: segments_update_descriptor [OF Cons.prems] assms(2))
qed simp

lemma collect_generation_update: "collect_generation c = update_descriptor (gc_segment_id c)
    (\<lambda>s. s\<lparr>sd_generations := filter (\<lambda>g. pg_generation g \<noteq> gc_generation c) (sd_generations s)\<rparr>)"
  by (rule ext) (simp add: collect_generation_def update_descriptor_def)

lemma fold_retain:
  "fold (\<lambda>c s. s\<lparr>sd_generations := filter (\<lambda>g. pg_generation g \<noteq> gc_generation c) (sd_generations s)\<rparr>) cs s
    = s\<lparr>sd_generations := filter (\<lambda>g. pg_generation g \<notin> gc_generation ` set cs) (sd_generations s)\<rparr>"
  by (induction cs arbitrary: s) (auto intro: filter_cong simp: conj_commute)

definition drop_artifact :: "stale_artifact \<Rightarrow> segment_descriptor \<Rightarrow> segment_descriptor" where
  "drop_artifact a s = (case sa_kind a of Hrki \<Rightarrow> s\<lparr>sd_hrki := None\<rparr> | Parquet \<Rightarrow> s\<lparr>sd_parquet := None\<rparr>)"

lemma drop_artifact_fields [simp]:
  "logical_identity (drop_artifact a s) = logical_identity s"
  "sd_segment_id (drop_artifact a s) = sd_segment_id s"
  "sd_generations (drop_artifact a s) = sd_generations s"
  "sd_active_generation (drop_artifact a s) = sd_active_generation s"
  "sd_retention (drop_artifact a s) = sd_retention s"
  by (auto simp: drop_artifact_def split: artifact_kind.splits)

lemma drop_artifact_ok: "artifact_ok (sd_hrki s) \<and> artifact_ok (sd_parquet s)
    \<Longrightarrow> artifact_ok (sd_hrki (drop_artifact a s)) \<and> artifact_ok (sd_parquet (drop_artifact a s))"
  by (auto simp: drop_artifact_def artifact_ok_def split: artifact_kind.splits)

lemma collect_artifact_update: "collect_artifact a = update_descriptor (sa_segment_id a) (drop_artifact a)"
  by (rule ext) (simp add: collect_artifact_def update_descriptor_def drop_artifact_def split: option.split)

lemma fold_drop_artifact [simp]:
  "logical_identity (fold drop_artifact as s) = logical_identity s"
  "sd_generations (fold drop_artifact as s) = sd_generations s"
  "sd_active_generation (fold drop_artifact as s) = sd_active_generation s"
  "sd_retention (fold drop_artifact as s) = sd_retention s"
  by (induction as arbitrary: s) simp_all

lemma fold_drop_artifact_ok: "artifact_ok (sd_hrki s) \<and> artifact_ok (sd_parquet s)
    \<Longrightarrow> artifact_ok (sd_hrki (fold drop_artifact as s)) \<and> artifact_ok (sd_parquet (fold drop_artifact as s))"
proof (induction as arbitrary: s)
  case (Cons a as)
  from Cons.IH [OF drop_artifact_ok [OF Cons.prems]] show ?case by simp
qed simp

definition collected :: "gc_plan \<Rightarrow> segment_descriptor \<Rightarrow> segment_descriptor" where
  "collected plan s = fold drop_artifact (filter (\<lambda>a. sa_segment_id a = sd_segment_id s) (gp_stale_artifacts plan))
     (s\<lparr>sd_generations := filter (\<lambda>g. pg_generation g \<notin> removed_from plan s) (sd_generations s)\<rparr>)"

lemma sd_segment_id_identity: "logical_identity d = logical_identity s \<Longrightarrow> sd_segment_id d = sd_segment_id s"
  by (simp add: logical_identity_def)

lemma apply_gc_segments:
  assumes "distinct (map sd_segment_id (dm_segments_v2 m))" and "assert_gc_invariant m plan = Inr ()"
  shows "dm_segments_v2 (snd (apply_gc m plan)) = map (collected plan) (dm_segments_v2 m)"
proof -
  let ?m = "fold collect_generation (gp_generations plan) m"
  have m: "dm_segments_v2 ?m
      = map (\<lambda>s. s\<lparr>sd_generations := filter (\<lambda>g. pg_generation g \<notin> removed_from plan s) (sd_generations s)\<rparr>) (dm_segments_v2 m)"
    unfolding collect_generation_update
    by (simp add: fold_update_descriptor [OF assms(1)] fold_retain removed_from_def)
  then have "map sd_segment_id (dm_segments_v2 ?m) = map sd_segment_id (dm_segments_v2 m)" by simp
  then have d: "distinct (map sd_segment_id (dm_segments_v2 ?m))" using assms(1) by metis
  have "dm_segments_v2 (fold collect_artifact (gp_stale_artifacts plan) ?m)
      = map (\<lambda>s. fold drop_artifact (filter (\<lambda>a. sa_segment_id a = sd_segment_id s) (gp_stale_artifacts plan)) s)
          (dm_segments_v2 ?m)"
    unfolding collect_artifact_update by (rule fold_update_descriptor [OF d]) simp
  then show ?thesis using assms(2) by (simp add: apply_gc_def m collected_def)
qed

section \<open>The active generation is an authority\<close>

definition active_authority :: "segment_descriptor \<Rightarrow> bool" where
  "active_authority s \<longleftrightarrow> canonical_authorities s = []
     \<or> (\<exists>g \<in> set (sd_generations s). pg_generation g = sd_active_generation s \<and> is_canonical_authority g)"

lemma bloqueio_active: "pg_generation g = sd_active_generation s \<Longrightarrow> bloqueio pins opts s g = Some NotSuperseded"
  by (simp add: bloqueio_def Let_def)

lemma active_not_collectable: "sd_active_generation s \<notin> pg_generation ` set (collectable pins opts s)"
  by (auto simp: collectable_def bloqueio_active)

lemma assert_gc_Inr:
  "assert_gc_invariant m plan = Inr () \<longleftrightarrow> (\<forall>s \<in> set (dm_segments_v2 m). assert_segment plan s = Inr ())"
proof -
  have "foldE (\<lambda>_ s. f s) () ss = Inr () \<longleftrightarrow> (\<forall>s \<in> set ss. f s = Inr ())"
    for f :: "segment_descriptor \<Rightarrow> unit v6_result" and ss
    by (induction ss) (auto simp: bindE_eq_Inr)
  then show ?thesis by (simp add: assert_gc_invariant_def)
qed

lemma assert_segment_Inr:
  "assert_segment plan s = Inr () \<longleftrightarrow> sd_active_generation s \<notin> removed_from plan s
     \<and> (canonical_authorities s = [] \<or> (\<exists>g \<in> set (canonical_authorities s). pg_generation g \<notin> removed_from plan s))"
  by (auto simp: assert_segment_def Let_def removed_from_def filter_empty_conv)

lemma plan_passes_assert:
  assumes "distinct (map sd_segment_id (dm_segments_v2 m))" and "\<forall>s \<in> set (dm_segments_v2 m). active_authority s"
  shows "assert_gc_invariant m (plan_gc m pins opts) = Inr ()"
  unfolding assert_gc_Inr
proof
  fix s assume s: "s \<in> set (dm_segments_v2 m)"
  show "assert_segment (plan_gc m pins opts) s = Inr ()"
    using bspec [OF assms(2) s] active_not_collectable [of s pins opts]
    unfolding assert_segment_Inr removed_from_plan [OF assms(1) s] active_authority_def canonical_authorities_def
      set_filter by (metis (mono_tags, lifting) mem_Collect_eq)
qed

text \<open>What a plan that passes the check does to one descriptor.\<close>

lemma collected_ok:
  assumes "assert_segment plan s = Inr ()" and "segment_ok s"
  shows "segment_ok (collected plan s)"
proof -
  have a: "sd_active_generation s \<notin> removed_from plan s" using assms(1) by (simp add: assert_segment_Inr)
  have l: "logical_identity (collected plan s) = logical_identity s" by (simp add: collected_def)
  then have "ranges_coherent (collected plan s)" "sd_logical_root (collected plan s) = sd_logical_root s"
    using assms(2) ranges_coherent_cong [OF l] by (simp_all add: segment_ok_iff logical_identity_def)
  moreover have "generations_coherent (collected plan s)"
    using assms(2) a by (auto simp: segment_ok_iff physical_ok_def generations_coherent_def collected_def
        distinct_map_filter filter_empty_conv)
  moreover have "list_all generation_ok (sd_generations (collected plan s))"
    using assms(2) by (auto simp: segment_ok_iff physical_ok_def collected_def list_all_iff)
  moreover have "artifact_ok (sd_hrki (collected plan s)) \<and> artifact_ok (sd_parquet (collected plan s))"
    using assms(2) unfolding collected_def by (intro fold_drop_artifact_ok) (simp add: segment_ok_iff physical_ok_def)
  ultimately show ?thesis using assms(2) by (simp add: segment_ok_iff physical_ok_def)
qed

lemma collected_keeps:
  assumes "assert_segment plan s = Inr ()"
  shows "logical_identity (collected plan s) = logical_identity s"
    and "active_generation (collected plan s) = active_generation s"
    and "canonical_authorities s \<noteq> [] \<Longrightarrow> canonical_authorities (collected plan s) \<noteq> []"
    and "active_authority s \<Longrightarrow> active_authority (collected plan s)"
    and "set (sd_generations (collected plan s)) = {g \<in> set (sd_generations s). pg_generation g \<notin> removed_from plan s}"
proof -
  note a = assms [unfolded assert_segment_Inr]
  show "logical_identity (collected plan s) = logical_identity s" by (simp add: collected_def)
  have "find (\<lambda>g. pg_generation g = n) (filter (\<lambda>g. pg_generation g \<notin> R) gs) = find (\<lambda>g. pg_generation g = n) gs"
    if "n \<notin> R" for n R and gs :: "physical_generation list"
    using that by (induction gs) auto
  then show "active_generation (collected plan s) = active_generation s"
    using a by (simp add: active_generation_def collected_def)
  show "canonical_authorities s \<noteq> [] \<Longrightarrow> canonical_authorities (collected plan s) \<noteq> []"
    using a by (auto simp: canonical_authorities_def collected_def filter_empty_conv)
  show "active_authority s \<Longrightarrow> active_authority (collected plan s)"
    using a by (auto simp: active_authority_def canonical_authorities_def collected_def filter_empty_conv)
  show "set (sd_generations (collected plan s)) = {g \<in> set (sd_generations s). pg_generation g \<notin> removed_from plan s}"
    by (auto simp: collected_def)
qed

lemma segment_map:
  assumes "\<And>s. sd_segment_id (f s) = sd_segment_id s" and "dm_segments_v2 m' = map f (dm_segments_v2 m)"
  shows "segment m' k = map_option f (segment m k)"
proof -
  have "find (\<lambda>s. sd_segment_id s = k) (map f ss) = map_option f (find (\<lambda>s. sd_segment_id s = k) ss)" for ss
    by (induction ss) (auto simp: assms(1))
  then show ?thesis by (simp add: segment_def assms(2))
qed

lemma apply_gc_segment:
  assumes "distinct (map sd_segment_id (dm_segments_v2 m))" and "assert_gc_invariant m plan = Inr ()"
  shows "segment (snd (apply_gc m plan)) k = map_option (collected plan) (segment m k)"
proof (rule segment_map)
  show "sd_segment_id (collected plan s) = sd_segment_id s" for s
    by (rule sd_segment_id_identity) (simp add: collected_def)
qed (rule apply_gc_segments [OF assms])

lemma apply_gc_catalog_ok:
  assumes "catalog_ok m"
  shows "catalog_ok (snd (apply_gc m plan))"
proof (cases "assert_gc_invariant m plan")
  case (Inl e)
  then show ?thesis using assms by (simp add: apply_gc_def)
next
  case (Inr u)
  then have u: "assert_gc_invariant m plan = Inr ()" by simp
  have d: "distinct (map sd_segment_id (dm_segments_v2 m))" using assms by (simp add: catalog_ok_def catalog_ordered_def)
  have i: "logical_identity (collected plan s) = logical_identity s" for s by (simp add: collected_def)
  then have "sd_first_lsn (collected plan s) = sd_first_lsn s \<and> sd_segment_id (collected plan s) = sd_segment_id s" for s
    by (simp add: logical_identity_def)
  then show ?thesis
    using assms collected_ok [of plan] u unfolding assert_gc_Inr
    by (auto simp: catalog_ok_def catalog_ordered_def apply_gc_segments [OF d u] comp_def list_all_iff)
qed

section \<open>What a candidate had to satisfy\<close>

lemma unat_hlc_millis: "unat (hlc_millis h) = unat h div 65536"
  by (simp add: hlc_millis_def drop_bit_eq_div unat_div)

lemma unat_saturating_sub: "unat (saturating_sub a b) = unat a - unat b"
  by (auto simp: saturating_sub_def unat_sub_u64 word_le_nat_alt)

lemma unat_saturating_mul: "unat (saturating_mul a b) = min (unat a * unat b) 18446744073709551615"
proof (cases "unat a * unat b < 18446744073709551616")
  case True
  then have "unat (a * b) = unat a * unat b" using unat_mult_lem [of a b] by simp
  then show ?thesis using True by (simp add: saturating_mul_def)
qed (simp add: saturating_mul_def)

lemma grace_expired_iff:
  "grace_remaining since now grace = None \<longleftrightarrow>
    since \<noteq> 0 \<and> unat grace * 1000 \<le> unat now div 65536 - unat since div 65536"
proof -
  have "unat now div 65536 - unat since div 65536 < 18446744073709551615"
    using unat_lt_u64 [of now] by linarith
  then show ?thesis
    by (auto simp: grace_remaining_def Let_def word_le_nat_alt unat_saturating_sub unat_saturating_mul unat_hlc_millis
        min_def split: if_splits)
qed

lemma fold_max_less: "fold max ys x < (y :: u32) \<longleftrightarrow> x < y \<and> (\<forall>z \<in> set ys. z < y)"
  by (induction ys arbitrary: x) auto

lemma melhor_contagem_ge:
  "n \<le> melhor_contagem s k \<longleftrightarrow> n = 0 \<or> (\<exists>g \<in> set (sd_generations s). pg_generation g \<noteq> k
     \<and> is_canonical_authority g \<and> n \<le> pg_verified_copies g)"
  using fold_max_less [of "map pg_verified_copies (filter (\<lambda>g. pg_generation g \<noteq> k \<and> is_canonical_authority g)
    (sd_generations s))" 0 n]
  by (auto simp: melhor_contagem_def simp flip: not_less) (auto simp: not_less word_gt_0)

definition collectable_now :: "pin_registry \<Rightarrow> gc_options \<Rightarrow> segment_descriptor \<Rightarrow> physical_generation \<Rightarrow> bool" where
  "collectable_now pins opts s g \<longleftrightarrow> pg_generation g \<noteq> sd_active_generation s
     \<and> (pg_state g = Superseded \<or> pg_state g = Quarantined \<and> go_collect_quarantined opts)
     \<and> \<not> rp_legal_hold (sd_retention s)
     \<and> \<not> (rp_preserve_legacy_original (sd_retention s) \<and> sd_canonical_codec s = 0 \<and> pg_generation g = 0)
     \<and> pin_count pins (sd_segment_id s) (pg_generation g) = 0
     \<and> pg_superseded_hlc g \<noteq> 0
     \<and> unat (rp_gc_grace_seconds (sd_retention s)) * 1000
         \<le> unat (go_now_hlc opts) div 65536 - unat (pg_superseded_hlc g) div 65536
     \<and> (rp_min_verified_copies (sd_retention s) = 0 \<or> (\<exists>other \<in> set (sd_generations s).
          pg_generation other \<noteq> pg_generation g \<and> is_canonical_authority other
          \<and> rp_min_verified_copies (sd_retention s) \<le> pg_verified_copies other))"

lemma bloqueio_None:
  assumes "bloqueio pins opts s g = None"
  shows "collectable_now pins opts s g"
proof -
  let ?n = "rp_min_verified_copies (sd_retention s)"
  have g: "grace_remaining (pg_superseded_hlc g) (go_now_hlc opts) (rp_gc_grace_seconds (sd_retention s)) = None"
    and n: "\<not> melhor_contagem s (pg_generation g) < ?n"
    using assms by (auto simp: bloqueio_def Let_def split: if_splits option.splits)
  have "?n \<le> melhor_contagem s (pg_generation g)" using n by simp
  then have "?n = 0 \<or> (\<exists>other \<in> set (sd_generations s). pg_generation other \<noteq> pg_generation g
      \<and> is_canonical_authority other \<and> ?n \<le> pg_verified_copies other)"
    by (rule melhor_contagem_ge [THEN iffD1])
  then show ?thesis
    using assms g [unfolded grace_expired_iff]
    by (auto simp: bloqueio_def collectable_now_def CANONICAL_CODEC_LEGACY_def Let_def word_gt_0 split: if_splits)
qed

section \<open>Pins are balanced\<close>

lemma pin_count_pin:
  "pin_count (pin r sid n) sid' n' = (if sid' = sid \<and> n' = n then pin_count r sid n + 1 else pin_count r sid' n')"
  by (auto simp: pin_count_def pin_def update_conv')

lemma unpin_pin:
  assumes "pin_count r sid n + 1 \<noteq> 0"
  shows "pin_count (unpin (pin r sid n) sid n) sid' n' = pin_count r sid' n'"
  using assms
  by (auto simp: unpin_def pin_def pin_count_def update_conv' delete_conv' Let_def split: option.splits)

section \<open>Properties\<close>

text \<open>C8. Garbage collection never loses history. In a well-formed catalogue whose active generations are
  authorities, the plan always passes the independent check; applying it keeps the catalogue
  well-formed, the identity and the active generation of every segment, and an authority of every
  segment that had one; and each generation that disappears was superseded (or quarantined and asked
  for), unpinned, under no legal hold and no legacy-original rule, past its grace period, and left
  behind another authority with the required verified copies.\<close>

theorem gc_keeps_history:
  assumes "catalog_ok m" and "\<forall>s \<in> set (dm_segments_v2 m). active_authority s"
  shows "fst (apply_gc m (plan_gc m pins opts)) = Inr ()
    \<and> catalog_ok (snd (apply_gc m (plan_gc m pins opts)))
    \<and> (\<forall>k s. segment m k = Some s \<longrightarrow> (\<exists>d. segment (snd (apply_gc m (plan_gc m pins opts))) k = Some d
        \<and> logical_identity d = logical_identity s \<and> active_generation d = active_generation s
        \<and> (canonical_authorities s \<noteq> [] \<longrightarrow> canonical_authorities d \<noteq> [])
        \<and> (\<forall>g \<in> set (sd_generations s). g \<notin> set (sd_generations d) \<longrightarrow> collectable_now pins opts s g)))"
proof -
  let ?p = "plan_gc m pins opts"
  have d: "distinct (map sd_segment_id (dm_segments_v2 m))"
    using assms(1) by (simp add: catalog_ok_def catalog_ordered_def)
  have a: "assert_gc_invariant m ?p = Inr ()" using d assms(2) by (rule plan_passes_assert)
  let ?m' = "snd (apply_gc m ?p)"
  have "\<exists>d. segment ?m' k = Some d \<and> logical_identity d = logical_identity s \<and> active_generation d = active_generation s
      \<and> (canonical_authorities s \<noteq> [] \<longrightarrow> canonical_authorities d \<noteq> [])
      \<and> (\<forall>g \<in> set (sd_generations s). g \<notin> set (sd_generations d) \<longrightarrow> collectable_now pins opts s g)"
    if s: "segment m k = Some s" for k s
  proof (intro exI [of _ "collected ?p s"] conjI ballI impI)
    have mem: "s \<in> set (dm_segments_v2 m)" using segment_Some [OF s] by simp
    then have c: "assert_segment ?p s = Inr ()" using a by (simp add: assert_gc_Inr)
    show "segment ?m' k = Some (collected ?p s)"
      using apply_gc_segment [OF d a] s by simp
    show "logical_identity (collected ?p s) = logical_identity s"
      "active_generation (collected ?p s) = active_generation s"
      using collected_keeps [OF c] by blast+
    show "canonical_authorities (collected ?p s) \<noteq> []" if "canonical_authorities s \<noteq> []"
      using collected_keeps(3) [OF c that] .
    fix g assume g: "g \<in> set (sd_generations s)" "g \<notin> set (sd_generations (collected ?p s))"
    then have "pg_generation g \<in> pg_generation ` set (collectable pins opts s)"
      using collected_keeps(5) [OF c] removed_from_plan [OF d mem] by auto
    then obtain h where h: "h \<in> set (sd_generations s)" "bloqueio pins opts s h = None" "pg_generation h = pg_generation g"
      by (auto simp: collectable_def)
    have "distinct (map pg_generation (sd_generations s))"
      using assms(1) mem by (auto simp: catalog_ok_def list_all_iff segment_ok_iff physical_ok_def generations_coherent_def)
    then have "h = g" using h g(1) by (metis (no_types) distinct_map inj_onD)
    then show "collectable_now pins opts s g" using bloqueio_None [OF h(2)] by simp
  qed
  moreover have "fst (apply_gc m ?p) = Inr ()" using a by (simp add: apply_gc_def)
  ultimately show ?thesis using apply_gc_catalog_ok [OF assms(1)] by blast
qed

definition example_receipt :: pack_receipt where
  "example_receipt = \<lparr>pr_segment_id = 1, pr_storage_namespace_id = replicate 16 3, pr_source_generation = 0,
     pr_source_physical_digest = replicate 32 9, pr_target_generation = 1,
     pr_target_physical_digest = replicate 32 8, pr_logical_root = replicate 32 7, pr_canonical_codec = 1,
     pr_codec = Codec_Zstd, pr_block_size = 1048576, pr_first_lsn = 1, pr_last_lsn = 10, pr_record_count = 10,
     pr_source_physical_size = 100, pr_target_physical_size = 40, pr_packer_version = 1, pr_created_hlc = 70000\<rparr>"

definition example_packed_manifest :: database_manifest where
  "example_packed_manifest = snd (record_pack example_manifest example_receipt [0x62] 70000)"

definition example_gc_options :: gc_options where
  "example_gc_options = \<lparr>go_now_hlc = 9999999999999, go_keep_manifests = 3, go_collect_quarantined = False\<rparr>"

lemma example_packed_segments:
  "dm_segments_v2 example_packed_manifest
    = [packed_descriptor example_receipt [0x62] 70000 (example_segment 1 1 10), example_segment 2 11 20]"
proof -
  have s: "segment example_manifest (pr_segment_id example_receipt) = Some (example_segment 1 1 10)"
    by (simp add: segment_def example_manifest_def example_receipt_def example_segment_def)
  have "sd_logical_root (example_segment 1 1 10) = pr_logical_root example_receipt"
    "generation_of_number (example_segment 1 1 10) (pr_target_generation example_receipt) = None"
    by (simp_all add: example_segment_def example_receipt_def generation_of_number_def)
  then show ?thesis
    unfolding example_packed_manifest_def record_pack_Some [OF s]
    by (simp add: write_segment_def example_manifest_def example_receipt_def) (simp add: example_segment_def)
qed

lemma example_packed_manifest_ok:
  "catalog_ok example_packed_manifest" "\<forall>s \<in> set (dm_segments_v2 example_packed_manifest). active_authority s"
proof -
  have "catalog_ok example_manifest"
    using example_manifest_ok by (simp add: catalog_ok_def catalog_ordered_def manifest_ok_def
        example_manifest_def example_segment_def)
  then show "catalog_ok example_packed_manifest"
    unfolding example_packed_manifest_def
    by (intro pack_update.catalog_ok_upd) (simp_all add: example_receipt_def location_ok_def HARD_MAX_LOCATION_BYTES_def)
  show "\<forall>s \<in> set (dm_segments_v2 example_packed_manifest). active_authority s"
    by (simp add: example_packed_segments example_segment_def example_receipt_def packed_descriptor_def
        packed_generation_def modify_generation_def active_authority_def is_canonical_authority_def)
qed

lemma example_grace: "grace_remaining 70000 9999999999999 86400 = None"
  by (simp add: grace_expired_iff)

lemma gc_keeps_history_witness:
  "gp_generations (plan_gc example_packed_manifest [] example_gc_options) \<noteq> []
    \<and> fst (apply_gc example_packed_manifest (plan_gc example_packed_manifest [] example_gc_options)) = Inr ()
    \<and> catalog_ok (snd (apply_gc example_packed_manifest (plan_gc example_packed_manifest [] example_gc_options)))"
proof
  show "gp_generations (plan_gc example_packed_manifest [] example_gc_options) \<noteq> []"
    using example_grace
    by (simp add: plan_generations example_packed_segments collectable_def bloqueio_def example_segment_def
        example_receipt_def packed_descriptor_def packed_generation_def modify_generation_def Let_def
        canonical_authorities_def is_canonical_authority_def default_retention_def DEFAULT_GC_GRACE_SECONDS_def
        example_gc_options_def pin_count_def melhor_contagem_def CANONICAL_CODEC_LEGACY_def)
  show "fst (apply_gc example_packed_manifest (plan_gc example_packed_manifest [] example_gc_options)) = Inr ()
    \<and> catalog_ok (snd (apply_gc example_packed_manifest (plan_gc example_packed_manifest [] example_gc_options)))"
    using gc_keeps_history [OF example_packed_manifest_ok, of "[]" example_gc_options] by blast
qed

end
