(* ===== verification/Manifest_Machine.thy ===== *)
theory Manifest_Machine
  imports V6_Gc_Correct
begin

text \<open>
  The catalogue as a state machine: every operation of \<open>Manifest_Ops\<close> and \<open>V6_Gc\<close> is a step, whatever
  result it returns, from the empty manifest a new store starts with. That no segment loses its place in the
  history is shown for any inputs. That the catalogue stays well-formed and survives the disk is shown for inputs
  as their producers make them: digests and roots have 32 bytes, locations fit the codec, and a sealed file that is
  registered again for a catalogued segment with the same logical root starts at the LSN that is catalogued. The
  code compares only the roots; a root fixes the records it was computed from, and so their first LSN, but nothing
  checks that a footer's LSN is theirs.
\<close>

section \<open>Steps\<close>

text \<open>\<open>empty_manifest\<close> of \<open>v6/engine.rs\<close>; the other fields are those of \<open>Default\<close>.\<close>

definition empty_manifest :: "bytes \<Rightarrow> database_manifest" where
  "empty_manifest namespace = \<lparr>dm_manifest_version = 1, dm_format_identifier = HRKM_MAGIC,
     dm_cumulative_watermark = 0, dm_statistics_root_hash = replicate 32 0,
     dm_storage_namespace_id = namespace, dm_manifest_generation = 0, dm_segments_v2 = [],
     dm_exported_through_lsn = 0\<rparr>"

datatype catalog_op =
    Register segment_id footer u16 bytes u64 bytes u64
  | Pack pack_receipt bytes u64
  | Quarantine segment_id u32 u64
  | Sidecar segment_id derived_artifact_ref
  | ParquetPart segment_id derived_artifact_ref
  | LegalHold segment_id bool
  | Copies segment_id u32 u32
  | Collect pin_registry gc_options
  | Stamp u64

text \<open>\<open>Collect\<close> applies the plan that was made for the catalogue it is applied to; \<open>Stamp\<close> is what a commit sets.\<close>

fun catalog_step :: "catalog_op \<Rightarrow> database_manifest \<Rightarrow> database_manifest" where
  "catalog_step (Register sid f codec loc sz digest now) m = snd (register_sealed_raw m sid f codec loc sz digest now)"
| "catalog_step (Pack r loc now) m = snd (record_pack m r loc now)"
| "catalog_step (Quarantine sid n now) m = snd (quarantine_generation m sid n now)"
| "catalog_step (Sidecar sid a) m = snd (attach_sidecar m sid a)"
| "catalog_step (ParquetPart sid a) m = snd (attach_parquet m sid a)"
| "catalog_step (LegalHold sid hold) m = snd (set_legal_hold m sid hold)"
| "catalog_step (Copies sid n copies) m = snd (set_verified_copies m sid n copies)"
| "catalog_step (Collect pins opts) m = snd (apply_gc m (plan_gc m pins opts))"
| "catalog_step (Stamp g) m = m\<lparr>dm_manifest_generation := g, dm_format_identifier := HRKM_MAGIC\<rparr>"

definition catalog_run :: "catalog_op list \<Rightarrow> database_manifest \<Rightarrow> database_manifest" where
  "catalog_run ops m = fold catalog_step ops m"

text \<open>The inputs of an operation as its caller makes them.\<close>

fun inputs_ok :: "database_manifest \<Rightarrow> catalog_op \<Rightarrow> bool" where
  "inputs_ok m (Register sid f codec loc sz digest now) \<longleftrightarrow> location_ok loc \<and> length digest = 32
     \<and> length (ft_logical_root f) = 32
     \<and> (case segment m sid of None \<Rightarrow> True | Some s \<Rightarrow> sd_logical_root s = ft_logical_root f \<longrightarrow> sd_first_lsn s = ft_min_lsn f)"
| "inputs_ok m (Pack r loc now) \<longleftrightarrow> location_ok loc \<and> length (pr_target_physical_digest r) = 32"
| "inputs_ok m (Sidecar sid a) \<longleftrightarrow> artifact_ok (Some a)"
| "inputs_ok m (ParquetPart sid a) \<longleftrightarrow> artifact_ok (Some a)"
| "inputs_ok m op \<longleftrightarrow> True"

inductive reachable_manifest :: "database_manifest \<Rightarrow> bool" where
  initial: "length namespace = 16 \<Longrightarrow> reachable_manifest (empty_manifest namespace)"
| step: "reachable_manifest m \<Longrightarrow> inputs_ok m op \<Longrightarrow> reachable_manifest (catalog_step op m)"

section \<open>Registering\<close>

definition registered_descriptor :: "segment_id \<Rightarrow> footer \<Rightarrow> u16 \<Rightarrow> bytes \<Rightarrow> u64 \<Rightarrow> bytes \<Rightarrow> u64 \<Rightarrow> segment_descriptor" where
  "registered_descriptor sid f codec loc sz digest now = \<lparr>sd_segment_id = sid, sd_first_lsn = ft_min_lsn f,
     sd_last_lsn = ft_max_lsn f, sd_record_count = ft_record_count f, sd_canonical_codec = codec,
     sd_logical_root = ft_logical_root f, sd_min_hlc = ft_min_hlc f, sd_max_hlc = ft_max_hlc f,
     sd_active_generation = 0, sd_generations = [\<lparr>pg_generation = 0, pg_layout = Layout_Raw,
       pg_compression = Codec_Raw, pg_location = loc, pg_physical_size = sz, pg_physical_digest = digest,
       pg_state = Active, pg_created_hlc = now, pg_verified_hlc = now, pg_superseded_hlc = 0,
       pg_verified_copies = 1\<rparr>], sd_hrki = None, sd_parquet = None, sd_retention = default_retention\<rparr>"

lemma register_cases:
  obtains (rejected) "snd (register_sealed_raw m sid f codec loc sz digest now) = m"
  | (accepted) "fst (register_sealed_raw m sid f codec loc sz digest now) = Inr ()"
      "dm_segments_v2 (snd (register_sealed_raw m sid f codec loc sz digest now))
        = dm_segments_v2 (upsert_segment (registered_descriptor sid f codec loc sz digest now) m)"
      "case segment m sid of None \<Rightarrow> True | Some s \<Rightarrow> sd_logical_root s = ft_logical_root f"
      "check_segment_coherence (registered_descriptor sid f codec loc sz digest now) = Inr ()"
proof -
  let ?d = "registered_descriptor sid f codec loc sz digest now"
    and ?other = "case segment m sid of Some s \<Rightarrow> sd_logical_root s \<noteq> ft_logical_root f | None \<Rightarrow> False"
  note eq = register_sealed_raw_def [of m sid f codec loc sz digest now, unfolded Let_def,
      folded registered_descriptor_def]
  show thesis
  proof (cases ?other)
    case True
    then show ?thesis using eq rejected by simp
  next
    case False
    then have "case segment m sid of None \<Rightarrow> True | Some s \<Rightarrow> sd_logical_root s = ft_logical_root f"
      by (simp split: option.splits)
    then show ?thesis using False eq rejected accepted by (cases "check_segment_coherence ?d") auto
  qed
qed

lemma register_catalog_ok:
  assumes "inputs_ok m (Register sid f codec loc sz digest now)" and "catalog_ok m"
  shows "catalog_ok (snd (register_sealed_raw m sid f codec loc sz digest now))"
proof (cases rule: register_cases [of m sid f codec loc sz digest now])
  case rejected
  then show ?thesis using assms(2) by simp
next
  case accepted
  let ?d = "registered_descriptor sid f codec loc sz digest now"
  have "segment_ok ?d"
    using assms(1) accepted(4) by (simp add: segment_ok_def registered_descriptor_def generation_ok_def artifact_ok_def)
  then have "list_all segment_ok (dm_segments_v2 (upsert_segment ?d m))"
    using set_upsert [of ?d m] assms(2) by (auto simp: catalog_ok_def list_all_iff)
  moreover have "catalog_ordered (upsert_segment ?d m)"
  proof (rule catalog_ordered_upsert)
    show "catalog_ordered m" using assms(2) by (simp add: catalog_ok_def)
    fix s assume "segment m (sd_segment_id ?d) = Some s"
    then show "sd_first_lsn s = sd_first_lsn ?d"
      using assms(1) accepted(3) by (simp add: registered_descriptor_def)
  qed
  ultimately show ?thesis by (simp add: catalog_ok_def catalog_ordered_def accepted(2))
qed

section \<open>Authorities\<close>

abbreviation all_segments :: "(segment_descriptor \<Rightarrow> bool) \<Rightarrow> database_manifest \<Rightarrow> bool" where
  "all_segments P m \<equiv> \<forall>s \<in> set (dm_segments_v2 m). P s"

lemma all_segments_write:
  "all_segments P m \<Longrightarrow> P d \<Longrightarrow> all_segments P (write_segment sid d m)"
  using set_modify_first [of "\<lambda>s. sd_segment_id s = sid" "\<lambda>_. d" "dm_segments_v2 m"]
  by (fastforce simp: write_segment_def)

lemma modify_first_ex:
  "\<exists>g \<in> set xs. Q g \<Longrightarrow> (\<And>g. Q g \<Longrightarrow> Q (f g)) \<Longrightarrow> \<exists>g \<in> set (modify_first p f xs). Q g"
  by (induction xs) auto

lemma filter_modify_first: "(\<And>g. Q (f g) = Q g) \<Longrightarrow> filter Q (modify_first p f xs) = [] \<longleftrightarrow> filter Q xs = []"
  by (induction xs) auto

definition authority_at :: "u32 \<Rightarrow> physical_generation \<Rightarrow> bool" where
  "authority_at n g \<longleftrightarrow> pg_generation g = n \<and> is_canonical_authority g"

lemma active_authorityI:
  "\<exists>g \<in> set (sd_generations s). authority_at (sd_active_generation s) g \<Longrightarrow> active_authority s"
  by (auto simp: active_authority_def authority_at_def)

lemma active_authority_cong:
  "sd_generations d = sd_generations s \<Longrightarrow> sd_active_generation d = sd_active_generation s
    \<Longrightarrow> active_authority d = active_authority s"
  by (simp add: active_authority_def canonical_authorities_def)

lemma packed_descriptor_authority: "active_authority (packed_descriptor r loc now s)"
proof -
  let ?f = "\<lambda>src. if pg_state src \<noteq> Quarantined then src\<lparr>pg_state := Superseded, pg_superseded_hlc := now\<rparr> else src"
    and ?g = "packed_generation r loc now" and ?n = "pr_target_generation r"
  have "\<exists>g \<in> set (sd_generations s @ [?g]). authority_at ?n g"
    by (auto simp: authority_at_def packed_generation_def is_canonical_authority_def)
  then have "\<exists>g \<in> set (modify_first (\<lambda>g. pg_generation g = pr_source_generation r) ?f (sd_generations s @ [?g])).
      authority_at ?n g"
    by (rule modify_first_ex) (auto simp: authority_at_def is_canonical_authority_def)
  then show ?thesis by (intro active_authorityI) (simp add: packed_descriptor_def modify_generation_def)
qed

lemma reactivated_authority:
  assumes "best_authority q = Some g"
  shows "active_authority (reactivated_descriptor (pg_generation g) q)"
proof -
  have "\<exists>h \<in> set (sd_generations q). authority_at (pg_generation g) h"
    using best_authority_mem [OF assms] by (auto simp: authority_at_def)
  then have "\<exists>h \<in> set (modify_first (\<lambda>h. pg_generation h = pg_generation g)
      (\<lambda>gg. if pg_state gg = Superseded then gg\<lparr>pg_state := Active, pg_superseded_hlc := 0\<rparr> else gg)
      (sd_generations q)). authority_at (pg_generation g) h"
    by (rule modify_first_ex) (auto simp: authority_at_def is_canonical_authority_def)
  then show ?thesis by (intro active_authorityI) (simp add: reactivated_descriptor_def modify_generation_def)
qed

lemma best_authority_None: "best_authority q = None \<longleftrightarrow> canonical_authorities q = []"
  by (simp add: best_authority_def max_by_key_None canonical_authorities_def)

lemma copies_authority:
  "active_authority (modify_generation n (\<lambda>g. g\<lparr>pg_verified_copies := c\<rparr>) s) = active_authority s"
proof -
  let ?f = "\<lambda>g. g\<lparr>pg_verified_copies := c\<rparr>"
  have "list_ex Q (modify_first p ?f gs) = list_ex Q gs"
    if "\<And>g. Q (?f g) = Q g" for p Q and gs :: "physical_generation list"
    using that by (induction gs) auto
  then have "(\<exists>g \<in> set (modify_first p ?f gs). Q g) \<longleftrightarrow> (\<exists>g \<in> set gs. Q g)"
    if "\<And>g. Q (?f g) = Q g" for p Q and gs :: "physical_generation list"
    using that unfolding list_ex_iff by blast
  then show ?thesis
    by (simp add: active_authority_def canonical_authorities_def modify_generation_def is_canonical_authority_def
        filter_modify_first)
qed

section \<open>The history of a segment\<close>

text \<open>A catalogued segment stays catalogued, the same by \<open>same\<close>.\<close>

definition keeps :: "(segment_descriptor \<Rightarrow> 'i) \<Rightarrow> segment_id \<Rightarrow> database_manifest \<Rightarrow> database_manifest \<Rightarrow> bool" where
  "keeps same k m m' \<longleftrightarrow> (\<forall>s. segment m k = Some s \<longrightarrow> (\<exists>d. segment m' k = Some d \<and> same d = same s))"

lemma keeps_refl [simp]: "keeps same k m m"
  by (simp add: keeps_def)

lemma keeps_trans: "keeps same k m m' \<Longrightarrow> keeps same k m' m'' \<Longrightarrow> keeps same k m m''"
  by (fastforce simp: keeps_def)

lemma keeps_segments: "dm_segments_v2 m' = dm_segments_v2 m'' \<Longrightarrow> keeps same k m m' = keeps same k m m''"
  by (simp add: keeps_def segment_def)

lemma keeps_write: "segment m sid = Some s \<Longrightarrow> logical_identity d = logical_identity s \<Longrightarrow> keeps logical_identity k m (write_segment sid d m)"
proof -
  assume s: "segment m sid = Some s" and d: "logical_identity d = logical_identity s"
  then have "sd_segment_id d = sid" using sd_segment_id_identity [OF d] segment_Some [OF s] by simp
  then show ?thesis using s d by (simp add: keeps_def segment_write)
qed

lemma keeps_fold: "(\<And>x m. keeps same k m (f x m)) \<Longrightarrow> keeps same k m (fold f xs m)"
  by (induction xs arbitrary: m) (auto intro: keeps_trans)

lemma keeps_root: "keeps logical_identity k m m' \<Longrightarrow> keeps sd_logical_root k m m'"
  by (fastforce simp: keeps_def logical_identity_def)

text \<open>Every operation but a registration writes descriptors of the same identity.\<close>

lemma pack_keeps: "keeps logical_identity k m (snd (record_pack m r loc now))"
proof (cases "segment m (pr_segment_id r)")
  case (Some s)
  have "logical_identity (packed_descriptor r loc now s) = logical_identity s" by (simp add: packed_descriptor_def)
  from keeps_write [OF Some this] show ?thesis by (simp add: record_pack_Some [OF Some])
qed (simp add: record_pack_def)

lemma artifact_keeps:
  "keeps logical_identity k m (snd (attach_sidecar m sid a))" "keeps logical_identity k m (snd (attach_parquet m sid a))"
proof -
  have exported: "keeps logical_identity k m (m'\<lparr>dm_exported_through_lsn := x\<rparr>) = keeps logical_identity k m m'" for m' x
    by (rule keeps_segments) simp
  show "keeps logical_identity k m (snd (attach_sidecar m sid a))" "keeps logical_identity k m (snd (attach_parquet m sid a))"
    by (cases "segment m sid"; auto simp: attach_sidecar_def attach_parquet_def Let_def exported intro: keeps_write)+
qed

lemma gc_keeps: "keeps logical_identity k m (snd (apply_gc m plan))"
proof -
  have "keeps logical_identity k m (collect_generation c m)" for c m
    by (auto simp: collect_generation_def intro: keeps_write split: option.split)
  moreover have "keeps logical_identity k m (collect_artifact a m)" for a m
    by (auto simp: collect_artifact_def intro!: keeps_write split: option.split artifact_kind.split)
  ultimately have "keeps logical_identity k m (fold collect_artifact (gp_stale_artifacts plan) (fold collect_generation (gp_generations plan) m))"
    by (intro keeps_trans [OF keeps_fold keeps_fold])
  then show ?thesis by (simp add: apply_gc_def split: sum.split)
qed

lemma update_keeps:
  "keeps logical_identity k m (snd (quarantine_generation m sid n now))"
  "keeps logical_identity k m (snd (set_legal_hold m sid hold))"
  "keeps logical_identity k m (snd (set_verified_copies m sid n copies))"
  using quarantine_update.segment_upd [OF TrueI] hold_update.segment_upd [OF TrueI] copies_update.segment_upd [OF TrueI]
  unfolding keeps_def revises_def by blast+

text \<open>A registration writes the descriptor of its own segment, with the root that was catalogued.\<close>

lemma register_keeps:
  "keeps sd_logical_root k m (snd (register_sealed_raw m sid f codec loc sz digest now))"
  "k \<noteq> sid \<Longrightarrow> keeps logical_identity k m (snd (register_sealed_raw m sid f codec loc sz digest now))"
proof -
  let ?m = "snd (register_sealed_raw m sid f codec loc sz digest now)" and ?d = "registered_descriptor sid f codec loc sz digest now"
  have "?m = m \<or> segment ?m k = (if k = sid then Some ?d else segment m k)
      \<and> (\<forall>s. segment m sid = Some s \<longrightarrow> sd_logical_root s = sd_logical_root ?d)"
  proof (cases rule: register_cases [of m sid f codec loc sz digest now])
    case accepted
    have "segment ?m k = segment (upsert_segment ?d m) k" by (simp add: segment_def accepted(2))
    then show ?thesis using accepted(3) by (auto simp: segment_upsert registered_descriptor_def)
  qed simp
  then show "keeps sd_logical_root k m ?m" "k \<noteq> sid \<Longrightarrow> keeps logical_identity k m ?m"
    by (auto simp: keeps_def)
qed

fun registers :: "segment_id \<Rightarrow> catalog_op \<Rightarrow> bool" where
  "registers k (Register sid f codec loc sz digest now) \<longleftrightarrow> sid = k"
| "registers k op \<longleftrightarrow> False"

lemma step_keeps:
  shows "keeps sd_logical_root k m (catalog_step op m)"
    and "\<not> registers k op \<Longrightarrow> keeps logical_identity k m (catalog_step op m)"
proof -
  have "keeps logical_identity k m (m\<lparr>dm_manifest_generation := g, dm_format_identifier := HRKM_MAGIC\<rparr>)" for g
    by (simp add: keeps_def segment_def)
  then show id: "\<not> registers k op \<Longrightarrow> keeps logical_identity k m (catalog_step op m)"
    by (cases op) (simp_all add: register_keeps(2) pack_keeps artifact_keeps gc_keeps update_keeps)
  show "keeps sd_logical_root k m (catalog_step op m)"
    using keeps_root [OF id] register_keeps(1) by (cases op) simp_all
qed

section \<open>Every step keeps well-formedness and authority\<close>

lemma catalog_ok_stamp: "catalog_ok (m\<lparr>dm_manifest_generation := g, dm_format_identifier := i\<rparr>) = catalog_ok m"
  by (simp add: catalog_ok_def catalog_ordered_def)

lemmas catalog_ok_steps = register_catalog_ok pack_update.catalog_ok_upd quarantine_update.catalog_ok_upd
  sidecar_update.catalog_ok_upd parquet_update.catalog_ok_upd hold_update.catalog_ok_upd
  copies_update.catalog_ok_upd apply_gc_catalog_ok catalog_ok_stamp

lemma step_catalog_ok: "inputs_ok m op \<Longrightarrow> catalog_ok m \<Longrightarrow> catalog_ok (catalog_step op m)"
  by (cases op) (simp_all add: catalog_ok_steps)

lemma all_segments_upsert: "all_segments P m \<Longrightarrow> P d \<Longrightarrow> all_segments P (upsert_segment d m)"
  using set_upsert [of d m] by blast

lemma quarantine_authority:
  assumes "all_segments active_authority m"
  shows "all_segments active_authority (snd (quarantine_generation m sid n now))"
proof (cases "segment m sid")
  case None
  then show ?thesis using assms by (simp add: quarantine_generation_def)
next
  case (Some s)
  let ?q = "quarantined_descriptor n now s"
  show ?thesis
  proof (cases "best_authority ?q")
    case None
    then have "active_authority ?q" by (simp add: best_authority_None active_authority_def)
    then show ?thesis
      using assms None by (auto simp: quarantine_Some [OF Some] Let_def intro: all_segments_write [rule_format])
  next
    case (Some g)
    from reactivated_authority [OF this] assms show ?thesis
      by (auto simp: quarantine_Some [OF \<open>segment m sid = Some s\<close>] Let_def Some
          intro: all_segments_write [rule_format])
  qed
qed

lemma record_pack_authority:
  assumes "all_segments active_authority m"
  shows "all_segments active_authority (snd (record_pack m r loc now))"
proof (cases "segment m (pr_segment_id r)")
  case (Some s)
  then show ?thesis
    using assms all_segments_write [OF assms packed_descriptor_authority] by (simp add: record_pack_Some)
qed (use assms in \<open>simp add: record_pack_def\<close>)

lemma register_authority:
  assumes "all_segments active_authority m"
  shows "all_segments active_authority (snd (register_sealed_raw m sid f codec loc sz digest now))"
proof (cases rule: register_cases [of m sid f codec loc sz digest now])
  case accepted
  have "active_authority (registered_descriptor sid f codec loc sz digest now)"
    by (simp add: active_authority_def registered_descriptor_def is_canonical_authority_def)
  then show ?thesis using all_segments_upsert [OF assms] by (simp add: accepted(2))
qed (use assms in simp)

lemma gc_authority:
  assumes "catalog_ok m" and "all_segments active_authority m"
  shows "all_segments active_authority (snd (apply_gc m (plan_gc m pins opts)))"
proof -
  have d: "distinct (map sd_segment_id (dm_segments_v2 m))"
    using assms(1) by (simp add: catalog_ok_def catalog_ordered_def)
  have a: "assert_gc_invariant m (plan_gc m pins opts) = Inr ()" using d assms(2) by (rule plan_passes_assert)
  show ?thesis
    using assms(2) a collected_keeps(4) unfolding assert_gc_Inr by (auto simp: apply_gc_segments [OF d a])
qed

lemma same_layout_authority:
  assumes "all_segments active_authority m" and "segment m sid = Some s"
    and "\<And>s. active_authority (f s) = active_authority s"
  shows "all_segments active_authority (write_segment sid (f s) m)"
  using all_segments_write [OF assms(1)] assms segment_Some [OF assms(2)] by blast

lemma artifact_authority:
  "active_authority (s\<lparr>sd_hrki := a\<rparr>) = active_authority s"
  "active_authority (s\<lparr>sd_parquet := a\<rparr>) = active_authority s"
  "active_authority (s\<lparr>sd_retention := r\<rparr>) = active_authority s"
  by (rule active_authority_cong; simp)+

lemma sidecar_authority:
  assumes "all_segments active_authority m"
  shows "all_segments active_authority (snd (attach_sidecar m sid a))"
  using assms same_layout_authority [OF assms, of sid _ "\<lambda>s. s\<lparr>sd_hrki := Some a\<rparr>", OF _ artifact_authority(1)]
  by (cases "segment m sid") (simp_all add: attach_sidecar_def Let_def)

lemma parquet_authority:
  assumes "all_segments active_authority m"
  shows "all_segments active_authority (snd (attach_parquet m sid a))"
  using assms same_layout_authority [OF assms, of sid _ "\<lambda>s. s\<lparr>sd_parquet := Some a\<rparr>", OF _ artifact_authority(2)]
  by (cases "segment m sid") (simp_all add: attach_parquet_def Let_def)

lemma hold_authority:
  assumes "all_segments active_authority m"
  shows "all_segments active_authority (snd (set_legal_hold m sid h))"
  using assms same_layout_authority [OF assms, of sid _
      "\<lambda>s. s\<lparr>sd_retention := (sd_retention s)\<lparr>rp_legal_hold := h\<rparr>\<rparr>", OF _ artifact_authority(3)]
  by (cases "segment m sid") (simp_all add: set_legal_hold_def)

lemma copies_update_authority:
  assumes "all_segments active_authority m"
  shows "all_segments active_authority (snd (set_verified_copies m sid n c))"
  using assms same_layout_authority [OF assms _ copies_authority, of sid]
  by (cases "segment m sid") (simp_all add: set_verified_copies_def Let_def)

lemmas authority_steps = register_authority record_pack_authority quarantine_authority sidecar_authority
  parquet_authority hold_authority copies_update_authority

lemma step_authority:
  assumes "catalog_ok m" and a: "all_segments active_authority m"
  shows "all_segments active_authority (catalog_step op m)"
  using authority_steps [OF a] gc_authority [OF assms] a by (cases op) simp_all

section \<open>The frame of the file\<close>

definition frame_ok :: "database_manifest \<Rightarrow> bool" where
  "frame_ok m \<longleftrightarrow> dm_manifest_version m = 1 \<and> dm_format_identifier m = HRKM_MAGIC
     \<and> length (dm_storage_namespace_id m) = 16 \<and> length (dm_statistics_root_hash m) = 32"

lemma step_frame_ok: "frame_ok m \<Longrightarrow> frame_ok (catalog_step op m)"
proof -
  have w: "frame_ok (write_segment sid d m) = frame_ok m" "frame_ok (upsert_segment d m) = frame_ok m"
    "frame_ok (m\<lparr>dm_cumulative_watermark := x\<rparr>) = frame_ok m" "frame_ok (m\<lparr>dm_exported_through_lsn := x\<rparr>) = frame_ok m"
    for sid d m x
    by (simp_all add: frame_ok_def write_segment_def upsert_segment_def)
  have c: "frame_ok (fold collect_generation cs m) = frame_ok m" "frame_ok (fold collect_artifact as m) = frame_ok m"
    for cs as m
    by (induction cs arbitrary: m, simp_all add: collect_generation_def w split: option.splits)
      (induction as arbitrary: m, simp_all add: collect_artifact_def w split: option.splits)
  have s: "frame_ok m \<Longrightarrow> frame_ok (m\<lparr>dm_manifest_generation := g, dm_format_identifier := HRKM_MAGIC\<rparr>)" for m g
    by (simp add: frame_ok_def)
  assume "frame_ok m"
  then show ?thesis
    by (cases op)
      (auto simp: w c s register_sealed_raw_def record_pack_def quarantine_generation_def attach_sidecar_def
        attach_parquet_def set_legal_hold_def set_verified_copies_def apply_gc_def Let_def
        split: option.split sum.split)
qed

lemma manifest_ok_iff: "manifest_ok m \<longleftrightarrow> frame_ok m \<and> list_all segment_ok (dm_segments_v2 m)
    \<and> sorted (map sd_first_lsn (dm_segments_v2 m))"
  by (auto simp: manifest_ok_def frame_ok_def)

lemma reachable_invariant:
  "reachable_manifest m \<Longrightarrow> catalog_ok m \<and> all_segments active_authority m \<and> frame_ok m"
proof (induction rule: reachable_manifest.induct)
  case (initial namespace)
  then show ?case by (simp add: catalog_ok_def catalog_ordered_def frame_ok_def empty_manifest_def)
next
  case (step m op)
  then show ?case using step_catalog_ok step_authority step_frame_ok by blast
qed

section \<open>Properties\<close>

text \<open>C7. What every history of operations leads to. From the empty catalogue, whatever sequence of
  registrations, packings, quarantines, attachments, holds and collections runs (failing ones
  included), on inputs as their producers make them, the catalogue stays well-formed: segment identities are unique and ordered by LSN, every
  descriptor is coherent, the active generation of a segment with any authority left is an authority,
  the collector's plan passes its own check, and the file that \<open>encode_manifest\<close> writes for it is read
  back exactly.\<close>

theorem reachable_manifest_safe:
  assumes "reachable_manifest m" and "\<forall>x. length (H x) = 32"
  shows "catalog_ordered m \<and> coherent_catalog m \<and> (\<forall>s \<in> set (dm_segments_v2 m). active_authority s)
    \<and> fst (apply_gc m (plan_gc m pins opts)) = Inr ()
    \<and> (\<forall>out. encode_manifest H m = Inr out \<longrightarrow> decode_manifest H out = Inr m)"
proof -
  have inv: "catalog_ok m" "all_segments active_authority m" "frame_ok m"
    using reachable_invariant [OF assms(1)] by blast+
  then have ok: "manifest_ok m" and o: "catalog_ordered m"
    by (simp_all add: manifest_ok_iff catalog_ok_def catalog_ordered_def)
  then have "coherent_catalog m"
    using inv(1) by (auto simp: coherent_catalog_def catalog_ordered_def catalog_ok_def segment_ok_def list_all_iff)
  moreover have "assert_gc_invariant m (plan_gc m pins opts) = Inr ()"
    using o inv(2) by (intro plan_passes_assert) (simp_all add: catalog_ordered_def)
  then have "fst (apply_gc m (plan_gc m pins opts)) = Inr ()" by (simp add: apply_gc_def)
  moreover have "decode_manifest H out = Inr m" if "encode_manifest H m = Inr out" for out
    using encode_manifest_Inr [OF that ok assms(2)] decode_hrkm_file [OF ok assms(2)] by metis
  ultimately show ?thesis using inv(2) o by blast
qed

lemma example_reachable: "reachable_manifest (snd (register_sealed_raw (empty_manifest (replicate 16 3)) 1
    stamped_footer 1 [0x61] 100 (replicate 32 9) 5))"
proof -
  have "reachable_manifest (empty_manifest (replicate 16 3))" by (rule reachable_manifest.initial) simp
  moreover have "inputs_ok (empty_manifest (replicate 16 3)) (Register 1 stamped_footer 1 [0x61] 100 (replicate 32 9) 5)"
    by (simp add: location_ok_def HARD_MAX_LOCATION_BYTES_def stamped_footer_def segment_def empty_manifest_def)
  ultimately show ?thesis using reachable_manifest.step by fastforce
qed

lemma reachable_manifest_safe_witness:
  "dm_segments_v2 (snd (register_sealed_raw (empty_manifest (replicate 16 3)) 1 stamped_footer 1 [0x61] 100
      (replicate 32 9) 5)) \<noteq> []
    \<and> coherent_catalog (snd (register_sealed_raw (empty_manifest (replicate 16 3)) 1 stamped_footer 1 [0x61] 100
      (replicate 32 9) 5))"
proof
  have "check_segment_coherence (registered_descriptor 1 stamped_footer 1 [0x61] 100 (replicate 32 9) 5) = Inr ()"
    by (simp add: coherence_iff ranges_coherent_def generations_coherent_def registered_descriptor_def
        stamped_footer_def saturating_add_def)
  then show "dm_segments_v2 (snd (register_sealed_raw (empty_manifest (replicate 16 3)) 1 stamped_footer 1 [0x61] 100
      (replicate 32 9) 5)) \<noteq> []"
    by (simp add: register_sealed_raw_def registered_descriptor_def empty_manifest_def segment_def upsert_segment_def)
  show "coherent_catalog (snd (register_sealed_raw (empty_manifest (replicate 16 3)) 1 stamped_footer 1 [0x61] 100
      (replicate 32 9) 5))"
    using reachable_manifest_safe [OF example_reachable, of "\<lambda>_. replicate 32 0"] by simp
qed

text \<open>C17. Logical history is immutable. Whatever operations follow, with whatever inputs, a segment that was
  catalogued once stays catalogued with the same logical root; and unless one of them registers a sealed file for that
  same segment again, with the same LSN range, HLC range, record count and codec. Such a registration is only
  compared by the logical root: the ranges are then those of the new footer.\<close>

theorem history_is_immutable:
  assumes "segment (catalog_run ops m) k = Some s"
  shows "\<exists>d. segment (catalog_run (ops @ later) m) k = Some d \<and> sd_segment_id d = k
    \<and> sd_logical_root d = sd_logical_root s
    \<and> ((\<forall>op \<in> set later. \<not> registers k op) \<longrightarrow> logical_identity d = logical_identity s)"
proof -
  let ?m = "catalog_run ops m"
  have run: "catalog_run (ops @ later) m = fold catalog_step later ?m" by (simp add: catalog_run_def)
  have "keeps logical_identity k m (fold catalog_step later m)" if "\<forall>op \<in> set later. \<not> registers k op" for m
    using that by (induction later arbitrary: m) (auto intro: keeps_trans step_keeps(2))
  moreover have "keeps sd_logical_root k ?m (fold catalog_step later ?m)" by (rule keeps_fold) (rule step_keeps(1))
  ultimately show ?thesis
    using assms segment_Some [of "fold catalog_step later ?m" k] unfolding run keeps_def by fastforce
qed

text \<open>A segment is registered, registered again, quarantined and held.\<close>

lemma history_is_immutable_witness:
  "\<exists>d. segment (catalog_run [Register 1 stamped_footer 1 [0x61] 100 (replicate 32 9) 5,
      Register 1 (stamped_footer\<lparr>ft_logical_root := replicate 32 1\<rparr>) 1 [0x62] 100 (replicate 32 9) 6, Quarantine 1 0 7,
      LegalHold 1 True] (empty_manifest (replicate 16 3))) 1 = Some d
    \<and> sd_logical_root d = ft_logical_root stamped_footer"
proof -
  let ?r = "Register 1 stamped_footer 1 [0x61] 100 (replicate 32 9) 5"
  let ?later = "[Register 1 (stamped_footer\<lparr>ft_logical_root := replicate 32 1\<rparr>) 1 [0x62] 100 (replicate 32 9) 6, Quarantine 1 0 7,
      LegalHold 1 True]"
  have "check_segment_coherence (registered_descriptor 1 stamped_footer 1 [0x61] 100 (replicate 32 9) 5) = Inr ()"
    by (simp add: coherence_iff ranges_coherent_def generations_coherent_def registered_descriptor_def
        stamped_footer_def saturating_add_def)
  then have s: "segment (catalog_run [?r] (empty_manifest (replicate 16 3))) 1
      = Some (registered_descriptor 1 stamped_footer 1 [0x61] 100 (replicate 32 9) 5)"
    by (simp add: catalog_run_def register_sealed_raw_def registered_descriptor_def empty_manifest_def segment_def
        upsert_segment_def partition_point_def)
  from history_is_immutable [OF s, of ?later] show ?thesis by (auto simp: registered_descriptor_def)
qed

end
