(* ===== verification/Manifest_Store_Names.thy ===== *)
theory Manifest_Store_Names
  imports Manifest_Store
begin

text \<open>
  The string side of \<open>ManifestStore\<close>: a generation number survives formatting and parsing, the names
  the store uses never coincide, and the two lines of \<open>CURRENT\<close> read back what \<open>commit\<close> wrote.
\<close>

section \<open>Decimal numbers\<close>

lemma unat_digit: "k < 10 \<Longrightarrow> unat (word_of_nat (48 + k) :: u8) = 48 + k"
  by (simp add: unsigned_of_nat take_bit_nat_eq_self del: of_nat_add)

lemma is_digit_word: "k < 10 \<Longrightarrow> is_digit (word_of_nat (48 + k))"
  using unat_digit [of k] by (simp add: is_digit_def word_le_nat_alt)

lemma decimal_digits: "list_all is_digit (decimal n)"
proof (induction n rule: decimal.induct)
  case (1 n)
  show ?case
  proof (cases "n < 10")
    case True
    then show ?thesis using is_digit_word [of n] by (simp add: decimal.simps [of n])
  next
    case False
    then show ?thesis using 1 is_digit_word [of "n mod 10"] by (simp add: decimal.simps [of n])
  qed
qed

lemma decimal_nonempty [simp]: "decimal n \<noteq> []"
  by (simp add: decimal.simps [of n])

lemma digits_value_snoc: "digits_value (s @ [b]) = 10 * digits_value s + (unat b - 48)"
  by (simp add: digits_value_def)

lemma digits_value_decimal: "digits_value (decimal n) = n"
proof (induction n rule: decimal.induct)
  case (1 n)
  show ?case
  proof (cases "n < 10")
    case True
    then show ?thesis using unat_digit [of n] by (simp add: decimal.simps [of n] digits_value_def)
  next
    case False
    then have "digits_value (decimal n) = 10 * (n div 10) + (unat (word_of_nat (48 + n mod 10) :: u8) - 48)"
      using 1 by (subst decimal.simps) (simp add: digits_value_snoc)
    then show ?thesis using unat_digit [of "n mod 10"] by simp
  qed
qed

lemma digits_value_zeros: "digits_value (replicate k 48 @ s) = digits_value s"
  by (induction k) (simp_all add: digits_value_def)

lemma pad10_digits: "list_all is_digit (pad10 n)" "pad10 n \<noteq> []" "digits_value (pad10 n) = n"
  using decimal_digits [of n]
  by (auto simp: pad10_def digits_value_zeros digits_value_decimal list_all_iff is_digit_def)

lemma parse_pad10: "parse_u64 (pad10 (unat g)) = Some g"
proof -
  obtain b r where s: "pad10 (unat g) = b # r" using pad10_digits(2) by (cases "pad10 (unat g)") auto
  then have "b \<noteq> 43" using pad10_digits(1) [of "unat g"] by (auto simp: is_digit_def)
  then show ?thesis
    using pad10_digits [of "unat g"] unat_lt_u64 [of g] by (simp add: parse_u64_def s)
qed

section \<open>Names\<close>

lemma strip_prefix_append [simp]: "strip_prefix p (p @ s) = Some s"
  by (simp add: strip_prefix_def)

lemma strip_suffix_append [simp]: "strip_suffix q (s @ q) = Some s"
  by (simp add: strip_suffix_def)

lemma generation_of_path_for [simp]: "generation_of (path_for g) = Some g"
  by (simp add: generation_of_def path_for_def parse_pad10)

lemma path_for_inj [simp]: "path_for g = path_for h \<longleftrightarrow> g = h"
  by (metis generation_of_path_for option.inject)

lemma ascii_names:
  "ascii ''.hrkm'' = [0x2E, 0x68, 0x72, 0x6B, 0x6D]" "ascii ''.tmp'' = [0x2E, 0x74, 0x6D, 0x70]"
  "ascii ''CURRENT'' = [0x43, 0x55, 0x52, 0x52, 0x45, 0x4E, 0x54]"
  "ascii ''manifest-'' = [0x6D, 0x61, 0x6E, 0x69, 0x66, 0x65, 0x73, 0x74, 0x2D]"
  by code_simp+

lemma strip_suffix_Some: "strip_suffix q r = Some s \<Longrightarrow> r = s @ q"
proof -
  assume "strip_suffix q r = Some s"
  then have "take (length q) (rev r) = rev q" "s = rev (drop (length q) (rev r))"
    by (auto simp: strip_suffix_def strip_prefix_def split: if_splits)
  then have "rev r = rev q @ rev s" by (metis append_take_drop_id rev_rev_ident)
  then show "r = s @ q" by (metis rev_append rev_rev_ident)
qed

lemma strip_prefix_Some: "strip_prefix q r = Some s \<Longrightarrow> r = q @ s"
  unfolding strip_prefix_def by (metis append_take_drop_id option.distinct(1) option.inject)

lemma generation_of_last:
  assumes "generation_of n = Some g"
  shows "n \<noteq> [] \<and> last n = 0x6D"
proof -
  obtain r s where r: "strip_prefix (ascii ''manifest-'') n = Some r" "strip_suffix (ascii ''.hrkm'') r = Some s"
    using assms unfolding generation_of_def bind_eq_Some_conv by blast
  have "n = ascii ''manifest-'' @ s @ ascii ''.hrkm''"
    using strip_prefix_Some [OF r(1)] strip_suffix_Some [OF r(2)] by simp
  then show ?thesis by (simp add: ascii_names)
qed

text \<open>The last byte tells the files of the store apart: \<open>m\<close> for a manifest, \<open>T\<close> for \<open>CURRENT\<close>, \<open>p\<close> for a
  temporary file.\<close>

lemma last_names [simp]:
  "last (path_for g) = 0x6D" "last CURRENT_FILE = 0x54" "last (with_suffix n TMP) = 0x70"
  by (simp_all add: path_for_def ascii_names CURRENT_FILE_def with_suffix_def TMP_def)

lemma last_differ: "last a \<noteq> last b \<Longrightarrow> a \<noteq> b"
  by blast

lemma names_differ [simp]:
  "path_for g \<noteq> CURRENT_FILE" "path_for g \<noteq> with_suffix n TMP" "CURRENT_FILE \<noteq> with_suffix n TMP"
  "CURRENT_FILE \<noteq> path_for g" "with_suffix n TMP \<noteq> path_for g" "with_suffix n TMP \<noteq> CURRENT_FILE"
  by (rule last_differ; simp)+

lemma with_suffix_inj [simp]: "with_suffix a s = with_suffix b s \<longleftrightarrow> a = b"
  by (simp add: with_suffix_def)

lemma generation_of_others [simp]: "generation_of CURRENT_FILE = None" "generation_of (with_suffix n TMP) = None"
proof -
  show "generation_of CURRENT_FILE = None"
    using generation_of_last [of CURRENT_FILE] by (cases "generation_of CURRENT_FILE") simp_all
  show "generation_of (with_suffix n TMP) = None"
    using generation_of_last [of "with_suffix n TMP"] by (cases "generation_of (with_suffix n TMP)") simp_all
qed

section \<open>The pointer file\<close>

definition graphic :: "u8 \<Rightarrow> bool" where
  "graphic b \<longleftrightarrow> 33 \<le> b \<and> b \<le> 126"

lemma utf8_valid_ascii: "list_all (\<lambda>b. b \<le> 0x7F) s \<Longrightarrow> utf8_valid s"
  by (induction s) auto

lemma strip_front_id: "s \<noteq> [] \<Longrightarrow> (\<And>w. w \<in> set ws \<Longrightarrow> w \<noteq> [] \<Longrightarrow> hd w \<noteq> hd s) \<Longrightarrow> strip_front ws s = s"
proof -
  assume s: "s \<noteq> []" and h: "\<And>w. w \<in> set ws \<Longrightarrow> w \<noteq> [] \<Longrightarrow> hd w \<noteq> hd s"
  have "\<not> (w \<noteq> [] \<and> take (length w) s = w)" if "w \<in> set ws" for w
  proof
    assume w: "w \<noteq> [] \<and> take (length w) s = w"
    then have "hd w = hd s" using s by (metis hd_take length_greater_0_conv)
    then show False using h [OF that] w by simp
  qed
  then have "find (\<lambda>w. w \<noteq> [] \<and> take (length w) s = w) ws = None" by (simp add: find_None_iff)
  then show ?thesis by (simp add: strip_front.simps [of ws s])
qed

lemma trim_graphic:
  assumes "list_all graphic s"
  shows "trim s = s"
proof (cases "s = []")
  case True
  have "find (\<lambda>w. w \<noteq> [] \<and> take (length w) [] = w) ws = None" for ws :: "bytes list"
    by (auto simp: find_None_iff)
  then show ?thesis by (simp add: True trim_def strip_front.simps [of _ "[]"])
next
  case False
  have h: "graphic (hd s)" "graphic (last s)" using assms False by (auto simp: list_all_iff)
  have "strip_front white_space s = s"
    using False h(1) by (intro strip_front_id) (auto simp: white_space_def graphic_def)
  moreover have "strip_front (map rev white_space) (rev s) = rev s"
    using False h(2) by (intro strip_front_id) (auto simp: white_space_def graphic_def hd_rev)
  ultimately show ?thesis by (simp add: trim_def)
qed

lemma lines_from_newline:
  "10 \<notin> set a \<Longrightarrow> lines_from cur (a @ 10 # r) = chomp (cur @ a) # lines_from [] r"
  by (induction a arbitrary: cur) auto

lemma chomp_id: "13 \<notin> set a \<Longrightarrow> chomp a = a"
  by (metis chomp_def last_in_set)

lemma lines_two:
  assumes "list_all graphic a" and "list_all graphic b"
  shows "lines (a @ [10] @ b @ [10]) = [a, b]"
proof -
  have "10 \<notin> set a" "13 \<notin> set a" "10 \<notin> set b" "13 \<notin> set b"
    using assms by (auto simp: list_all_iff graphic_def)
  then show ?thesis
    using lines_from_newline [of a "[]" "b @ [10]"] lines_from_newline [of b "[]" "[]"]
    by (simp add: lines_def chomp_id)
qed

lemma graphic_digit: "is_digit b \<Longrightarrow> graphic b \<and> b \<noteq> 0x2F \<and> b \<noteq> 0x5C"
  by (auto simp: is_digit_def graphic_def word_le_nat_alt)

lemma path_for_graphic: "list_all (\<lambda>b. graphic b \<and> b \<noteq> 0x2F \<and> b \<noteq> 0x5C) (path_for g)"
  using pad10_digits(1) [of "unat g"] graphic_digit
  by (auto simp: path_for_def ascii_names list_all_iff graphic_def)

lemma hex32_graphic: "list_all graphic (hex32 d)"
proof -
  have "graphic (hex_digit n)" if "n < 16" for n
    using that by (auto simp: hex_digit_def graphic_def word_le_nat_alt unsigned_of_nat take_bit_nat_eq_self
        simp del: of_nat_add)
  moreover have "unat (x :: u8) div 16 < 16" for x using unat_lt_u8 [of x] by simp
  ultimately show ?thesis by (simp add: hex32_def list_all_iff)
qed

definition pointer_payload :: "hash_fn \<Rightarrow> u64 \<Rightarrow> bytes \<Rightarrow> bytes" where
  "pointer_payload H g bytes = path_for g @ [10] @ hex32 (manifest_digest H bytes) @ [10]"

lemma pointer_payload_reads:
  "utf8_valid (pointer_payload H g bytes)"
  "lines (pointer_payload H g bytes) = [path_for g, hex32 (manifest_digest H bytes)]"
  "trim (path_for g) = path_for g" "trim (hex32 d) = hex32 d"
  "path_for g \<noteq> []" "0x2F \<notin> set (path_for g)" "0x5C \<notin> set (path_for g)"
proof -
  have p: "list_all graphic (path_for g)" using path_for_graphic [of g] by (auto simp: list_all_iff)
  note h = hex32_graphic
  have "graphic b \<Longrightarrow> b \<le> 0x7F" for b by (simp add: graphic_def word_le_nat_alt)
  then show "utf8_valid (pointer_payload H g bytes)"
    using p h by (intro utf8_valid_ascii) (auto simp: pointer_payload_def list_all_iff)
  show "lines (pointer_payload H g bytes) = [path_for g, hex32 (manifest_digest H bytes)]"
    unfolding pointer_payload_def using p h by (rule lines_two)
  show "trim (path_for g) = path_for g" using p by (rule trim_graphic)
  show "trim (hex32 d) = hex32 d" using h by (rule trim_graphic)
  show "path_for g \<noteq> []" "0x2F \<notin> set (path_for g)" "0x5C \<notin> set (path_for g)"
    using path_for_graphic [of g] by (auto simp: list_all_iff path_for_def ascii_names)
qed

end
