(* ===== verification/Hlc.thy ===== *)
theory Hlc
  imports Prelude
begin

text \<open>
  \<open>heraclitus-core/src/hlc.rs\<close>: the hybrid logical clock, first as the function one uncontended call
  computes, then as the atomic cell that threads advance with a load and a compare-and-exchange. The
  wall clock is an argument of every step and may stall or run backwards.
\<close>

section \<open>One call\<close>

text \<open>\<open>physical_now() << 16\<close> drops the high bits, as the shift of the source does.\<close>

definition hlc_next :: "u64 \<Rightarrow> u64 \<Rightarrow> u64" where
  "hlc_next wall prev = (let phys = push_bit 16 wall in if phys > prev then phys else saturating_add prev 1)"

definition hlc_observe :: "u64 \<Rightarrow> u64 \<Rightarrow> u64" where
  "hlc_observe prev remote = max prev remote"

definition skew_ms :: "u64 \<Rightarrow> u64 \<Rightarrow> u64" where
  "skew_ms wall prev = saturating_sub (drop_bit 16 prev) wall"

section \<open>Threads\<close>

text \<open>A thread inside the loop of \<open>now\<close> holds the physical time it read and the value it loaded.\<close>

record 'tid clock =
  ck_last :: u64
  ck_loop :: "'tid \<Rightarrow> u64 option"
  ck_loaded :: "'tid \<Rightarrow> u64 option"
  ck_returned :: "('tid \<times> u64) list"

definition clock_new :: "'tid clock" where
  "clock_new = \<lparr>ck_last = 0, ck_loop = (\<lambda>_. None), ck_loaded = (\<lambda>_. None), ck_returned = []\<rparr>"

inductive clock_step :: "'tid clock \<Rightarrow> 'tid clock \<Rightarrow> bool" where
  enter: "ck_loop c t = None \<Longrightarrow> clock_step c (c\<lparr>ck_loop := (ck_loop c)(t := Some wall)\<rparr>)"
| load: "ck_loop c t = Some wall \<Longrightarrow> ck_loaded c t = None
    \<Longrightarrow> clock_step c (c\<lparr>ck_loaded := (ck_loaded c)(t := Some (ck_last c))\<rparr>)"
| exchange: "ck_loop c t = Some wall \<Longrightarrow> ck_loaded c t = Some prev \<Longrightarrow> ck_last c = prev
    \<Longrightarrow> clock_step c (c\<lparr>ck_last := hlc_next wall prev, ck_loop := (ck_loop c)(t := None),
          ck_loaded := (ck_loaded c)(t := None), ck_returned := (t, hlc_next wall prev) # ck_returned c\<rparr>)"
| retry: "ck_loop c t = Some wall \<Longrightarrow> ck_loaded c t = Some prev \<Longrightarrow> ck_last c \<noteq> prev
    \<Longrightarrow> clock_step c (c\<lparr>ck_loaded := (ck_loaded c)(t := None)\<rparr>)"
| observe: "clock_step c (c\<lparr>ck_last := hlc_observe (ck_last c) remote\<rparr>)"

inductive clock_reachable :: "'tid clock \<Rightarrow> bool" where
  "clock_reachable clock_new"
| "clock_reachable c \<Longrightarrow> clock_step c c' \<Longrightarrow> clock_reachable c'"

section \<open>Properties\<close>

lemma unat_top: "unat (-1 :: u64) = 18446744073709551615"
  by (simp add: unsigned_minus_1_eq_mask mask_eq_exp_minus_1)

lemma top_le: "(-1 :: u64) \<le> a \<longleftrightarrow> a = -1"
  using word_order.extremum_unique [of a] by simp

lemma hlc_next_greater:
  assumes "prev \<noteq> -1"
  shows "prev < hlc_next wall prev"
proof -
  have "unat prev \<noteq> 18446744073709551615" using assms by (auto simp: word_unat_eq_iff unat_top)
  then show ?thesis
    using unat_saturating_add [of prev 1] unat_lt_u64 [of prev] by (auto simp: hlc_next_def Let_def word_less_nat_alt)
qed

lemma hlc_next_top [simp]: "hlc_next wall (-1) = -1"
  by (simp add: hlc_next_def Let_def saturating_add_def unat_top not_less)

definition newest_first :: "('tid \<times> u64) list \<Rightarrow> bool" where
  "newest_first rs = sorted_wrt (\<lambda>a b. snd a > snd b) rs"

text \<open>Timestamps never repeat and never go back. In every interleaving of the loads, exchanges, retries
  and observations of any number of threads, with a wall clock that may do anything, the timestamps
  returned are strictly increasing in the order the exchanges took effect, and none exceeds the clock,
  until the clock reaches its largest value.\<close>

theorem hlc_strictly_increasing:
  assumes "clock_reachable c"
  shows "(\<forall>r \<in> set (ck_returned c). snd r \<le> ck_last c) \<and> (ck_last c \<noteq> -1 \<longrightarrow> newest_first (ck_returned c))"
  using assms
proof (induction rule: clock_reachable.induct)
  case 1
  then show ?case by (simp add: clock_new_def newest_first_def)
next
  case (2 c c')
  from 2(2) show ?case
  proof cases
    case (exchange t wall prev)
    show ?thesis
    proof (cases "prev = -1")
      case False
      then have lt: "ck_last c < hlc_next wall prev" using hlc_next_greater exchange(4) by blast
      moreover have "newest_first (ck_returned c)" using 2(3) False exchange(4) by simp
      ultimately show ?thesis
        using 2(3) unfolding exchange(1) by (auto simp: newest_first_def intro: less_imp_le le_less_trans)
    qed (use 2(3) exchange in auto)
  next
    case (observe remote)
    then show ?thesis using 2(3) by (auto simp: hlc_observe_def max_def top_le split: if_splits)
  qed (use 2(3) in auto)
qed

text \<open>At the largest value the clock stops: every later call returns the same timestamp, whatever the
  wall clock says.\<close>

theorem hlc_saturates:
  assumes "clock_step c c'" and "ck_last c = -1"
  shows "ck_last c' = -1 \<and> (ck_returned c' = ck_returned c \<or> (\<exists>t. ck_returned c' = (t, -1) # ck_returned c))"
  using assms(1)
proof cases
  case (observe remote)
  then show ?thesis using assms(2) by (simp add: hlc_observe_def max_def top_le)
qed (use assms(2) in auto)


section \<open>Witnesses\<close>

lemma uncontended_call:
  assumes c: "clock_reachable c" and idle: "ck_loop c t = None" "ck_loaded c t = None"
  obtains c' where "clock_reachable c'" and "ck_returned c' = (t, hlc_next wall (ck_last c)) # ck_returned c"
    and "ck_last c' = hlc_next wall (ck_last c)" and "ck_loop c' = ck_loop c" and "ck_loaded c' = ck_loaded c"
proof -
  let ?c1 = "c\<lparr>ck_loop := (ck_loop c)(t := Some wall)\<rparr>"
  let ?c2 = "?c1\<lparr>ck_loaded := (ck_loaded c)(t := Some (ck_last c))\<rparr>"
  have c1: "clock_reachable ?c1" using clock_reachable.intros(2) [OF c enter] idle by blast
  have c2: "clock_reachable ?c2" using clock_reachable.intros(2) [OF c1 load, of t wall] idle by simp
  note c3 = clock_reachable.intros(2) [OF c2 exchange, of t wall "ck_last c"]
  show thesis by (rule that [OF c3]) (use idle in \<open>auto simp: fun_upd_idem\<close>)
qed

lemma hlc_strictly_increasing_witness:
  "\<exists>c :: bool clock. clock_reachable c \<and> length (ck_returned c) = 2 \<and> newest_first (ck_returned c)"
proof -
  obtain c :: "bool clock" where c: "clock_reachable c" "ck_returned c = [(True, hlc_next 7 0)]" "ck_last c = hlc_next 7 0"
      "ck_loop c = (\<lambda>_. None)" "ck_loaded c = (\<lambda>_. None)"
    using uncontended_call [OF clock_reachable.intros(1), of True 7] by (auto simp: clock_new_def)
  obtain c' where c': "clock_reachable c'" "ck_returned c' = (False, hlc_next 3 (ck_last c)) # ck_returned c"
      "ck_last c' = hlc_next 3 (ck_last c)"
    using uncontended_call [OF c(1), of False 3] c(4,5) by auto
  have "ck_last c' \<noteq> -1" unfolding c'(3) c(3) by (simp add: hlc_next_def Let_def saturating_add_def)
  with hlc_strictly_increasing [OF c'(1)] show ?thesis using c' c(2) by (intro exI [of _ c']) auto
qed

lemma hlc_saturates_witness: "\<exists>c c' :: bool clock. clock_step c c' \<and> ck_last c' = -1"
proof -
  let ?c = "clock_new\<lparr>ck_last := -1\<rparr> :: bool clock"
  have s: "clock_step ?c (?c\<lparr>ck_last := hlc_observe (ck_last ?c) 5\<rparr>)" by (rule observe)
  have "ck_last ?c = -1" by simp
  with hlc_saturates [OF s] s show ?thesis by blast
qed

end
