(* ===== verification/V6_Engine.thy ===== *)
theory V6_Engine
  imports V6_Packer Manifest_Machine Manifest_Store_Names Hlc "HOL-Library.Product_Lexorder"
begin

text \<open>
  \<open>heraclitus-log/src/v6/engine.rs\<close>: the live log \<open>V6Log\<close>. The state holds the files under \<open>segments/\<close>, the
  manifest directory, the catalogue in memory, the active segment, the next LSN and the clock. Locations
  are relative to the root, as in the source. The wall clock of each call is an argument, episodes are
  encoded to and from payloads by the functions of \<open>storage_codec\<close>, and the time of the last fsync is not
  part of the state: a file is the bytes written to it.
\<close>

record 'ep storage_codec =
  enc_payload :: "'ep \<Rightarrow> bytes v6_result"
  dec_payload :: "bytes \<Rightarrow> 'ep v6_result"
  ep_identity :: "'ep \<Rightarrow> bytes"
  stamp_hlc :: "u64 \<Rightarrow> 'ep \<Rightarrow> 'ep"
  hlc_of :: "'ep \<Rightarrow> u64"

record active_segment =
  as_id :: segment_id
  as_path :: file_name
  as_writer :: raw_writer

record v6_log =
  vl_fs :: directory
  vl_md :: directory
  vl_manifest :: database_manifest
  vl_active :: "active_segment option"
  vl_next_lsn :: lsn
  vl_hlc :: u64

section \<open>Names and locations\<close>

text \<open>\<open>{id:020}\<close> and \<open>{generation:04}\<close>.\<close>

definition pad :: "nat \<Rightarrow> nat \<Rightarrow> bytes" where
  "pad width n = replicate (width - length (decimal n)) 48 @ decimal n"

definition SEGMENTS_DIR :: bytes where
  "SEGMENTS_DIR = ascii ''segments''"

definition active_path :: "segment_id \<Rightarrow> file_name" where
  "active_path sid = pad 20 (unat sid) @ ascii ''.active.hrkl''"

definition raw_path :: "segment_id \<Rightarrow> file_name" where
  "raw_path sid = pad 20 (unat sid) @ ascii ''.g0000.raw.hrkl''"

definition packed_path :: "segment_id \<Rightarrow> u32 \<Rightarrow> file_name" where
  "packed_path sid generation = pad 20 (unat sid) @ ascii ''.g'' @ pad 4 (unat generation) @ ascii ''.packed.hrkl''"

definition raw_location :: "segment_id \<Rightarrow> bytes" where
  "raw_location sid = ascii ''segments/'' @ pad 20 (unat sid) @ ascii ''.g0000.raw.hrkl''"

definition packed_location :: "segment_id \<Rightarrow> u32 \<Rightarrow> bytes" where
  "packed_location sid generation = ascii ''segments/'' @ pad 20 (unat sid) @ ascii ''.g'' @ pad 4 (unat generation)
     @ ascii ''.packed.hrkl''"

fun components :: "bytes \<Rightarrow> bytes list" where
  "components [] = [[]]"
| "components (b # bs) = (if b = 0x2F then [] # components bs
     else (case components bs of c # cs \<Rightarrow> (b # c) # cs | [] \<Rightarrow> [[b]]))"

text \<open>The file a location names. A safe relative path outside \<open>segments/\<close> names no file of the state.\<close>

definition resolve_location :: "bytes \<Rightarrow> bytes v6_result" where
  "resolve_location location = (if (location \<noteq> [] \<and> hd location = 0x2F) \<or> ascii ''..'' \<in> set (components location)
     then Inl (corrupt ''hrkl v6 manifest'' ''generation location must be a safe relative path'')
     else Inr location)"

definition read_location :: "directory \<Rightarrow> bytes \<Rightarrow> bytes v6_result" where
  "read_location fs path = (case strip_prefix (ascii ''segments/'') path of
     None \<Rightarrow> Inl (StorageIo ''No such file or directory'') | Some name \<Rightarrow> read_file fs name)"

datatype segment_file = ActiveFile segment_id | RawFile segment_id | PackedFile segment_id u32

definition parse_id :: "bytes \<Rightarrow> segment_id option" where
  "parse_id v = (if length v = 20 \<and> list_all is_digit v then parse_u64 v else None)"

text \<open>\<open>split_once(".g")\<close>.\<close>

fun split_once_g :: "bytes \<Rightarrow> (bytes \<times> bytes) option" where
  "split_once_g (a # b # r) = (if a = 0x2E \<and> b = 0x67 then Some ([], r)
     else map_option (\<lambda>(l, r). (a # l, r)) (split_once_g (b # r)))"
| "split_once_g _ = None"

definition parse_segment_file :: "bytes \<Rightarrow> segment_file option" where
  "parse_segment_file name =
     (case Option.bind (strip_suffix (ascii ''.active.hrkl'') name) parse_id of Some sid \<Rightarrow> Some (ActiveFile sid) | None \<Rightarrow>
     (case Option.bind (strip_suffix (ascii ''.g0000.raw.hrkl'') name) parse_id of Some sid \<Rightarrow> Some (RawFile sid) | None \<Rightarrow>
     Option.bind (strip_suffix (ascii ''.packed.hrkl'') name) (\<lambda>stem.
     Option.bind (split_once_g stem) (\<lambda>(sid, generation).
     Option.bind (parse_id sid) (\<lambda>sid.
       if length generation \<noteq> 4 \<or> \<not> list_all is_digit generation then None
       else Some (PackedFile sid (word_of_nat (digits_value generation))))))))"

section \<open>Discovery\<close>

record inventory =
  iv_active :: "(segment_id \<times> file_name) list"
  iv_raw :: "(segment_id \<times> file_name) list"
  iv_packed :: "(segment_id \<times> u32 \<times> file_name) list"

definition discover_step :: "inventory \<Rightarrow> file_name \<Rightarrow> inventory v6_result" where
  "discover_step out name =
     (if strip_suffix (ascii ''.tmp'') name \<noteq> None then Inr out
      else (case parse_segment_file name of
        Some (ActiveFile sid) \<Rightarrow> Inr (out\<lparr>iv_active := iv_active out @ [(sid, name)]\<rparr>)
      | Some (RawFile sid) \<Rightarrow> Inr (out\<lparr>iv_raw := iv_raw out @ [(sid, name)]\<rparr>)
      | Some (PackedFile sid g) \<Rightarrow> Inr (out\<lparr>iv_packed := iv_packed out @ [(sid, g, name)]\<rparr>)
      | None \<Rightarrow> if strip_suffix (ascii ''.hrkl'') name \<noteq> None
          then Inl (corrupt ''hrkl v6 boot'' ''unrecognised HRKL v6 filename'') else Inr out))"

definition discover :: "directory \<Rightarrow> inventory v6_result" where
  "discover fs = bindE (foldE discover_step \<lparr>iv_active = [], iv_raw = [], iv_packed = []\<rparr> (map fst fs)) (\<lambda>out.
     Inr (out\<lparr>iv_active := sort_key fst (iv_active out), iv_raw := sort_key fst (iv_raw out),
       iv_packed := sort_key (\<lambda>(sid, g, n). (sid, g)) (iv_packed out)\<rparr>))"

definition reject_legacy_root :: "file_name list \<Rightarrow> unit v6_result" where
  "reject_legacy_root root_files =
     (if list_ex (\<lambda>name. Option.bind (strip_suffix (ascii ''.hrkl'') name) parse_u64 \<noteq> None) root_files
      then Inl (corrupt ''hrkl v6 open'' ''legacy HRKL files found at root; use a new v6 directory or an explicit migration'')
      else Inr ())"

definition read_v6_header :: "directory \<Rightarrow> file_name \<Rightarrow> file_header v6_result" where
  "read_v6_header fs name = bindE (read_file fs name) (\<lambda>content.
     if length content < FILE_HEADER_LEN then Inl (StorageIo ''failed to fill whole buffer'')
     else header_decode (take FILE_HEADER_LEN content))"

definition discover_namespace :: "directory \<Rightarrow> inventory \<Rightarrow> bytes option v6_result" where
  "discover_namespace fs iv = foldE (\<lambda>namespace (sid, name). bindE (read_v6_header fs name) (\<lambda>h.
     case namespace of
       None \<Rightarrow> Inr (Some (fh_storage_namespace_id h))
     | Some existing \<Rightarrow> if existing \<noteq> fh_storage_namespace_id h
         then Inl (corrupt ''hrkl v6 boot'' ''storage namespace differs between on-disk segments'') else Inr namespace))
     None (iv_raw iv @ iv_active iv)"

section \<open>Checks of the catalogue\<close>

definition check_header_identity :: "file_header \<Rightarrow> segment_id \<Rightarrow> bytes \<Rightarrow> physical_layout \<Rightarrow> unit v6_result" where
  "check_header_identity h sid namespace layout =
     (if fh_segment_id h \<noteq> sid \<or> fh_storage_namespace_id h \<noteq> namespace \<or> fh_physical_layout h \<noteq> layout
        \<or> fh_canonical_codec h \<noteq> CANONICAL_CODEC_V1
      then Inl (corrupt ''hrkl v6 boot'' ''segment filename/header/namespace/layout disagree'') else Inr ())"

fun validate_ranges_loop :: "segment_id set \<Rightarrow> lsn \<Rightarrow> segment_descriptor list \<Rightarrow> lsn v6_result" where
  "validate_ranges_loop ids expected_lsn [] = Inr expected_lsn"
| "validate_ranges_loop ids expected_lsn (desc # ds) = (let CTX = ''hrkl v6 manifest'' in
     if sd_segment_id desc \<in> ids then Inl (corrupt CTX ''duplicate segment_id'')
     else if sd_record_count desc = 0 then Inl (corrupt CTX ''empty segment was catalogued'')
     else if sd_first_lsn desc \<noteq> expected_lsn then Inl (corrupt CTX ''LSN ranges must be contiguous'')
     else (case checked_add (sd_last_lsn desc) 1 of
       None \<Rightarrow> Inl (corrupt CTX ''last LSN overflows u64'')
     | Some next \<Rightarrow> validate_ranges_loop (insert (sd_segment_id desc) ids) next ds))"

definition validate_manifest_ranges :: "database_manifest \<Rightarrow> unit v6_result" where
  "validate_manifest_ranges m = bindE (validate_ranges_loop {} 0 (dm_segments_v2 m)) (\<lambda>expected_lsn.
     if dm_segments_v2 m \<noteq> [] \<and> dm_cumulative_watermark m \<noteq> saturating_sub expected_lsn 1
     then Inl (corrupt ''hrkl v6 manifest'' ''cumulative watermark disagrees with sealed LSN ranges'') else Inr ())"

definition next_lsn_from_manifest :: "database_manifest \<Rightarrow> lsn v6_result" where
  "next_lsn_from_manifest m = bindE (validate_manifest_ranges m) (\<lambda>_.
     if dm_segments_v2 m = [] then Inr 0
     else (case checked_add (sd_last_lsn (last (dm_segments_v2 m))) 1 of
       None \<Rightarrow> Inl (corrupt ''hrkl v6 manifest'' ''last LSN overflows u64'') | Some n \<Rightarrow> Inr n))"

definition next_segment_id :: "database_manifest \<Rightarrow> segment_id" where
  "next_segment_id m = (if dm_segments_v2 m = [] then 0
     else saturating_add (Max (set (map sd_segment_id (dm_segments_v2 m)))) 1)"

definition next_physical_generation :: "directory \<Rightarrow> segment_descriptor \<Rightarrow> u32 v6_result" where
  "next_physical_generation fs desc = bindE (discover fs) (\<lambda>iv.
     let maximum = Max (insert 0 (set (map pg_generation (sd_generations desc))
           \<union> set (map (\<lambda>(sid, g, n). g) (filter (\<lambda>(sid, g, n). sid = sd_segment_id desc) (iv_packed iv)))))
     in if maximum = -1 then Inl (corrupt ''hrkl v6 pack'' ''generation number exhausted'') else Inr (maximum + 1))"

definition validate_generation :: "hash_fn \<Rightarrow> directory \<Rightarrow> bytes \<Rightarrow> segment_descriptor \<Rightarrow> physical_generation \<Rightarrow> unit v6_result" where
  "validate_generation H fs namespace desc g = bindE (resolve_location (pg_location g)) (\<lambda>path.
     case read_location fs path of
       Inl e \<Rightarrow> Inl (corrupt ''hrkl v6 boot'' ''catalogued generation is missing'')
     | Inr content \<Rightarrow>
       if length content < FILE_HEADER_LEN then Inl (StorageIo ''failed to fill whole buffer'')
       else bindE (header_decode (take FILE_HEADER_LEN content)) (\<lambda>h.
         bindE (check_header_identity h (sd_segment_id desc) namespace (pg_layout g)) (\<lambda>_.
         if physical_digest H content \<noteq> pg_physical_digest g
         then Inl (corrupt ''hrkl v6 boot'' ''catalogued generation physical digest mismatch'') else Inr ())))"

definition validate_catalogued_generations :: "hash_fn \<Rightarrow> directory \<Rightarrow> database_manifest \<Rightarrow> bytes \<Rightarrow> unit v6_result" where
  "validate_catalogued_generations H fs m namespace = foldE (\<lambda>_ desc.
     foldE (\<lambda>_ g. validate_generation H fs namespace desc g) () (sd_generations desc)) () (dm_segments_v2 m)"

end
