(* ===== verification/V6_Log.thy ===== *)
theory V6_Log
  imports V6_Engine
begin

text \<open>
  The operations of \<open>V6Log\<close> (\<open>heraclitus-log/src/v6/engine.rs\<close>): opening a directory, appending,
  sealing, reading, scanning, verifying and packing. An operation returns its result and the state it
  leaves, whatever the result; errors in the middle of an operation leave what was already written.
\<close>

section \<open>Opening the active segment\<close>

definition create_active :: "directory \<Rightarrow> segment_id \<Rightarrow> lsn \<Rightarrow> bytes \<Rightarrow> u64 \<Rightarrow> u64 \<Rightarrow> u64
    \<Rightarrow> active_segment v6_result \<times> directory \<times> u64" where
  "create_active fs sid first_lsn namespace wall hlc manifest_generation =
     (let path = active_path sid in
      if map_of fs path \<noteq> None
      then (Inl (corrupt ''hrkl v6 create active'' ''active generation path already exists''), fs, hlc)
      else (let now = hlc_next wall hlc;
                writer = raw_create \<lparr>si_segment_id = sid, si_created_hlc = now, si_first_lsn = first_lsn,
                  si_writer_epoch = saturating_add manifest_generation 1, si_storage_namespace_id = namespace\<rparr>
            in (Inr \<lparr>as_id = sid, as_path = path, as_writer = writer\<rparr>, AList.update path (rw_file writer) fs, now)))"

definition reconcile_raw :: "codecs \<Rightarrow> hash_fn \<Rightarrow> record_hasher \<Rightarrow> directory \<Rightarrow> database_manifest \<Rightarrow> segment_id \<Rightarrow> file_name
    \<Rightarrow> bytes \<Rightarrow> bool v6_result \<times> database_manifest" where
  "reconcile_raw cs H hasher fs m sid path namespace = (let CTX = ''hrkl v6 boot'' in
     case bindE (read_file fs path) (\<lambda>content. bindE (scan_raw_bytes content) (\<lambda>scan.
       bindE (check_header_identity (rs_header scan) sid namespace Layout_Raw) (\<lambda>_.
       case rs_footer scan of
         None \<Rightarrow> Inl (corrupt CTX ''final RAW generation has no valid footer'')
       | Some footer \<Rightarrow>
         if rs_torn_at scan \<noteq> None then Inl (corrupt CTX ''final RAW generation has a torn tail'')
         else bindE (verify_segment cs H content Logical HARD_MAX_BLOCK_BYTES (Some hasher)) (\<lambda>report.
           if \<not> report_is_ok report then Inl (corrupt CTX ''final RAW generation failed canonical verification'')
           else Inr (content, scan, footer))))) of
       Inl e \<Rightarrow> (Inl e, m)
     | Inr (content, scan, footer) \<Rightarrow> (let location = raw_location sid; digest = physical_digest H content in
       case segment m sid of
         Some existing \<Rightarrow> (case generation_of_number existing 0 of
             None \<Rightarrow> (Inl (corrupt CTX ''catalogued segment has no RAW generation''), m)
           | Some raw \<Rightarrow>
             if sd_logical_root existing \<noteq> ft_logical_root footer \<or> pg_location raw \<noteq> location
               \<or> pg_physical_digest raw \<noteq> digest \<or> pg_physical_size raw \<noteq> word_of_nat (length content)
             then (Inl (corrupt CTX ''RAW file disagrees with its catalogued generation''), m)
             else (Inr False, m))
       | None \<Rightarrow> (case register_sealed_raw m sid footer (ucast (fh_canonical_codec (rs_header scan))) location
             (word_of_nat (length content)) digest (ft_max_hlc footer) of
             (Inl e, m) \<Rightarrow> (Inl e, m)
           | (Inr _, m) \<Rightarrow> (Inr True, m))))"

section \<open>Sealing\<close>

definition seal_active_locked :: "codecs \<Rightarrow> hash_fn \<Rightarrow> record_hasher \<Rightarrow> u64 \<Rightarrow> v6_log \<Rightarrow> unit v6_result \<times> v6_log" where
  "seal_active_locked cs H hasher wall s = (case vl_active s of
     None \<Rightarrow> (Inl (StorageEngine ''V6Log sem segmento ativo''), s)
   | Some active \<Rightarrow> (let s = s\<lparr>vl_active := None\<rparr>; namespace = dm_storage_namespace_id (vl_manifest s) in
     if rw_record_count (as_writer active) = 0
     then (case map_of (vl_fs s) (as_path active) of
         None \<Rightarrow> (Inl (StorageIo ''No such file or directory''), s)
       | Some _ \<Rightarrow> (case create_active (AList.delete (as_path active) (vl_fs s)) (as_id active) (vl_next_lsn s) namespace
             wall (vl_hlc s) (dm_manifest_generation (vl_manifest s)) of
           (Inl e, fs, hlc) \<Rightarrow> (Inl e, s\<lparr>vl_fs := fs, vl_hlc := hlc\<rparr>)
         | (Inr a, fs, hlc) \<Rightarrow> (Inr (), s\<lparr>vl_fs := fs, vl_hlc := hlc, vl_active := Some a\<rparr>)))
     else (case raw_seal H (as_writer active) of (footer, sealed) \<Rightarrow>
       (let fs = AList.update (as_path active) sealed (vl_fs s); final_path = raw_path (as_id active) in
       if map_of fs final_path \<noteq> None
       then (Inl (corrupt ''hrkl v6 seal'' ''immutable RAW generation path already exists''), s\<lparr>vl_fs := fs\<rparr>)
       else (case run_op (Rename (as_path active) final_path) fs of
         Inl e \<Rightarrow> (Inl e, s\<lparr>vl_fs := fs\<rparr>)
       | Inr fs \<Rightarrow> (let s = s\<lparr>vl_fs := fs\<rparr>; prior = vl_manifest s in
         case reconcile_raw cs H hasher fs prior (as_id active) final_path namespace of
           (Inl e, m) \<Rightarrow> (Inl e, s\<lparr>vl_manifest := m\<rparr>)
         | (Inr changed, m) \<Rightarrow>
           if \<not> changed \<or> map_option sd_logical_root (segment m (as_id active)) \<noteq> Some (ft_logical_root footer)
           then (Inl (corrupt ''hrkl v6 seal'' ''sealed RAW was not coherently registered in the manifest''),
             s\<lparr>vl_manifest := prior\<rparr>)
           else (case commit H (vl_md s) m of
             (Inl e, m, md) \<Rightarrow> (Inl e, s\<lparr>vl_manifest := prior, vl_md := md\<rparr>)
           | (Inr _, m, md) \<Rightarrow>
             (case create_active fs (saturating_add (as_id active) 1) (vl_next_lsn s) (dm_storage_namespace_id m) wall
                 (vl_hlc s) (dm_manifest_generation m) of
               (Inl e, fs, hlc) \<Rightarrow> (Inl e, s\<lparr>vl_manifest := m, vl_md := md, vl_fs := fs, vl_hlc := hlc\<rparr>)
             | (Inr a, fs, hlc) \<Rightarrow> (Inr (), s\<lparr>vl_manifest := m, vl_md := md, vl_fs := fs, vl_hlc := hlc,
                 vl_active := Some a\<rparr>)))))))))"

section \<open>Appending\<close>

definition head :: "v6_log \<Rightarrow> lsn" where
  "head s = vl_next_lsn s"

definition needs_roll :: "u64 \<Rightarrow> nat \<Rightarrow> v6_log \<Rightarrow> bool" where
  "needs_roll segment_max_bytes payload_len s = (case vl_active s of
     None \<Rightarrow> False
   | Some a \<Rightarrow> rw_record_count (as_writer a) > 0
       \<and> rw_bytes_written (as_writer a) + (word_of_nat RAW_RECORD_HEADER_LEN + word_of_nat payload_len) > segment_max_bytes)"

definition append_active :: "hash_fn \<Rightarrow> lsn \<Rightarrow> u64 \<Rightarrow> bytes \<Rightarrow> bytes \<Rightarrow> v6_log \<Rightarrow> lsn v6_result \<times> v6_log" where
  "append_active H k hlc payload hash s = (case vl_active s of
     None \<Rightarrow> (Inl (StorageEngine ''V6Log sem segmento ativo''), s)
   | Some a \<Rightarrow>
     if k \<noteq> rw_next_expected_lsn (as_writer a)
     then (Inl (corrupt ''hrkl v6 append'' ''engine LSN does not match the active writer''), s)
     else (case raw_append H (as_writer a) k hlc payload hash of
       Inl e \<Rightarrow> (Inl e, s)
     | Inr w \<Rightarrow> (Inr k, s\<lparr>vl_active := Some (a\<lparr>as_writer := w\<rparr>),
         vl_fs := AList.update (as_path a) (rw_file w) (vl_fs s), vl_next_lsn := saturating_add (vl_next_lsn s) 1\<rparr>)))"

definition append_inner :: "codecs \<Rightarrow> hash_fn \<Rightarrow> record_hasher \<Rightarrow> 'ep storage_codec \<Rightarrow> u64 \<Rightarrow> u64 \<Rightarrow> v6_log \<Rightarrow> 'ep
    \<Rightarrow> lsn option \<Rightarrow> lsn v6_result \<times> v6_log" where
  "append_inner cs H hasher sc segment_max_bytes wall s episode expected_lsn =
     (case enc_payload sc episode of
       Inl e \<Rightarrow> (Inl e, s)
     | Inr payload \<Rightarrow>
       if (case expected_lsn of Some expected \<Rightarrow> expected \<noteq> vl_next_lsn s | None \<Rightarrow> False)
       then (Inl (CasConflict (the expected_lsn) (vl_next_lsn s)), s)
       else (let k = vl_next_lsn s in
         case hasher k (hlc_of sc episode) payload of
           Inl e \<Rightarrow> (Inl e, s)
         | Inr hash \<Rightarrow>
           (case (if needs_roll segment_max_bytes (length payload) s then seal_active_locked cs H hasher wall s else (Inr (), s)) of
             (Inl e, s) \<Rightarrow> (Inl e, s)
           | (Inr _, s) \<Rightarrow> append_active H k (hlc_of sc episode) payload hash s)))"

text \<open>\<open>append\<close> stamps the episode before it takes the lock of \<open>append_inner\<close>; each has its own clock reading.\<close>

definition stamp :: "'ep storage_codec \<Rightarrow> u64 \<Rightarrow> v6_log \<Rightarrow> 'ep \<Rightarrow> 'ep \<times> v6_log" where
  "stamp sc wall s episode = (let now = hlc_next wall (vl_hlc s) in (stamp_hlc sc now episode, s\<lparr>vl_hlc := now\<rparr>))"

definition append_episode :: "codecs \<Rightarrow> hash_fn \<Rightarrow> record_hasher \<Rightarrow> 'ep storage_codec \<Rightarrow> u64 \<Rightarrow> u64 \<Rightarrow> u64 \<Rightarrow> v6_log \<Rightarrow> 'ep
    \<Rightarrow> lsn v6_result \<times> v6_log" where
  "append_episode cs H hasher sc segment_max_bytes wall wall' s episode = (case stamp sc wall s episode of
     (episode, s) \<Rightarrow> append_inner cs H hasher sc segment_max_bytes wall' s episode None)"

definition flush :: "v6_log \<Rightarrow> unit v6_result" where
  "flush s = (case vl_active s of None \<Rightarrow> Inl (StorageEngine ''V6Log sem segmento ativo'') | Some a \<Rightarrow> Inr ())"

section \<open>Reading\<close>

datatype read_source = SourceActive file_name | SourceSealed bytes physical_layout

definition read_source_of :: "v6_log \<Rightarrow> lsn \<Rightarrow> read_source option v6_result" where
  "read_source_of s k =
     (if k \<ge> vl_next_lsn s then Inr None
      else (case vl_active s of
        None \<Rightarrow> Inl (StorageEngine ''V6Log sem segmento ativo'')
      | Some a \<Rightarrow>
        if k \<ge> fh_first_lsn (rw_header (as_writer a)) then Inr (Some (SourceActive (as_path a)))
        else (case find_segment_for_lsn (vl_manifest s) k of
          None \<Rightarrow> Inl (Corruption ''hrkl v6 read'' ''LSN is not present in the manifest'')
        | Some desc \<Rightarrow> (case active_generation desc of
            None \<Rightarrow> Inl (Corruption ''hrkl v6 read'' ''segment without an active generation'')
          | Some g \<Rightarrow> bindE (resolve_location (pg_location g)) (\<lambda>path. Inr (Some (SourceSealed path (pg_layout g))))))))"

definition find_in_raw :: "bytes \<Rightarrow> lsn \<Rightarrow> bytes option v6_result" where
  "find_in_raw content k = bindE (scan_raw_bytes content) (\<lambda>scan.
     Inr (map_option rr_payload (find (\<lambda>r. rr_lsn r = k) (rs_records scan))))"

definition read_payload :: "codecs \<Rightarrow> v6_log \<Rightarrow> lsn \<Rightarrow> bytes option v6_result" where
  "read_payload cs s k = bindE (read_source_of s k) (\<lambda>source. case source of
     None \<Rightarrow> Inr None
   | Some (SourceActive path) \<Rightarrow> bindE (read_file (vl_fs s) path) (\<lambda>content. find_in_raw content k)
   | Some (SourceSealed path Layout_Raw) \<Rightarrow> bindE (read_location (vl_fs s) path) (\<lambda>content. find_in_raw content k)
   | Some (SourceSealed path Layout_Packed) \<Rightarrow> bindE (read_location (vl_fs s) path) (\<lambda>content.
       bindE (open_packed content HARD_MAX_BLOCK_BYTES) (\<lambda>reader.
       bindE (fst (packed_get cs reader k default_counters)) (\<lambda>found. Inr (map_option snd found)))))"

definition read_episode :: "codecs \<Rightarrow> 'ep storage_codec \<Rightarrow> v6_log \<Rightarrow> lsn \<Rightarrow> (lsn \<times> 'ep) option v6_result" where
  "read_episode cs sc s k = bindE (read_payload cs s k) (\<lambda>found. case found of
     None \<Rightarrow> Inr None
   | Some payload \<Rightarrow> bindE (dec_payload sc payload) (\<lambda>episode. Inr (Some (k, episode))))"

function scan_loop :: "codecs \<Rightarrow> 'ep storage_codec \<Rightarrow> v6_log \<Rightarrow> lsn \<Rightarrow> nat \<Rightarrow> lsn \<Rightarrow> (lsn \<times> 'ep) list
    \<Rightarrow> (lsn \<times> 'ep) list v6_result" where
  "scan_loop cs sc s end_lsn max_count k out =
     (if k < end_lsn \<and> length out < max_count
      then bindE (read_episode cs sc s k) (\<lambda>found. case found of
          None \<Rightarrow> Inl (Corruption ''hrkl v6 scan'' ''contiguous LSN missing'')
        | Some r \<Rightarrow> scan_loop cs sc s end_lsn max_count (saturating_add k 1) (out @ [r]))
      else Inr out)"
  by pat_completeness auto

termination
  by (relation "measure (\<lambda>(cs, sc, s, end_lsn, max_count, k, out). max_count - length out)") auto

declare scan_loop.simps [simp del]

definition scan_capped :: "codecs \<Rightarrow> 'ep storage_codec \<Rightarrow> v6_log \<Rightarrow> lsn \<Rightarrow> lsn \<Rightarrow> nat \<Rightarrow> (lsn \<times> 'ep) list v6_result" where
  "scan_capped cs sc s from_lsn to_lsn max_count = (let end_lsn = min to_lsn (head s) in
     if from_lsn \<ge> end_lsn \<or> max_count = 0 then Inr [] else scan_loop cs sc s end_lsn max_count from_lsn [])"

definition append_replicated :: "codecs \<Rightarrow> hash_fn \<Rightarrow> record_hasher \<Rightarrow> 'ep storage_codec \<Rightarrow> u64 \<Rightarrow> u64 \<Rightarrow> v6_log \<Rightarrow> lsn \<Rightarrow> 'ep
    \<Rightarrow> lsn v6_result \<times> v6_log" where
  "append_replicated cs H hasher sc segment_max_bytes wall s k episode =
     (let s = s\<lparr>vl_hlc := hlc_observe (vl_hlc s) (hlc_of sc episode)\<rparr>; head = head s in
      if k < head
      then (case read_episode cs sc s k of
          Inl e \<Rightarrow> (Inl e, s)
        | Inr (Some (_, existing)) \<Rightarrow> if ep_identity sc existing = ep_identity sc episode then (Inr k, s)
            else (Inl (CasConflict k head), s)
        | Inr None \<Rightarrow> (Inl (CasConflict k head), s))
      else append_inner cs H hasher sc segment_max_bytes wall s episode (Some k))"

section \<open>Verification and packing\<close>

definition verify_sealed :: "codecs \<Rightarrow> hash_fn \<Rightarrow> record_hasher \<Rightarrow> v6_log \<Rightarrow> integrity_level \<Rightarrow> verify_report list v6_result" where
  "verify_sealed cs H hasher s level = mapE (\<lambda>desc. case active_generation desc of
       None \<Rightarrow> Inl (Corruption ''hrkl v6 verify'' ''segment without an active generation'')
     | Some g \<Rightarrow> bindE (resolve_location (pg_location g)) (\<lambda>path. bindE (read_location (vl_fs s) path) (\<lambda>content.
         bindE (verify_segment cs H content level HARD_MAX_BLOCK_BYTES (if Logical \<le> level then Some hasher else None)) (\<lambda>report.
         if \<not> report_is_ok report then Inl (Corruption ''hrkl v6 verify'' ''verification failed'') else Inr report))))
     (dm_segments_v2 (vl_manifest s))"

definition pack_one :: "codecs \<Rightarrow> hash_fn \<Rightarrow> record_hasher \<Rightarrow> bytes \<Rightarrow> u64 \<Rightarrow> packing_profile \<Rightarrow> v6_log \<Rightarrow> segment_id
    \<Rightarrow> pack_outcome v6_result \<times> v6_log" where
  "pack_one cs H hasher junk wall profile s sid = (let CTX = ''hrkl v6 pack'' in
     case segment (vl_manifest s) sid of
       None \<Rightarrow> (Inl (Corruption CTX ''segment vanished from the queue''), s)
     | Some desc \<Rightarrow> (case find (\<lambda>g. pg_layout g = Layout_Raw) (sd_generations desc) of
         None \<Rightarrow> (Inl (Corruption CTX ''segment without a RAW generation''), s)
       | Some source \<Rightarrow>
         (case bindE (resolve_location (pg_location source)) (\<lambda>path.
             bindE (next_physical_generation (vl_fs s) desc) (\<lambda>target_generation.
             case strip_prefix (ascii ''segments/'') path of
               None \<Rightarrow> Inl (StorageIo ''No such file or directory'')
             | Some source_path \<Rightarrow> Inr (source_path, target_generation))) of
           Inl e \<Rightarrow> (Inl e, s)
         | Inr (source_path, target_generation) \<Rightarrow>
           (case pack_segment cs H hasher junk (vl_fs s) source_path (packed_path sid target_generation)
               (default_pack_options\<lparr>po_profile := profile\<rparr>) (pg_generation source) target_generation of
             (Inl e, fs) \<Rightarrow> (Inl e, s\<lparr>vl_fs := fs\<rparr>)
           | (Inr outcome, fs) \<Rightarrow> (let prior = vl_manifest s; now = hlc_next wall (vl_hlc s); s = s\<lparr>vl_fs := fs, vl_hlc := now\<rparr> in
             case record_pack prior (out_receipt outcome) (packed_location sid target_generation) now of
               (Inl e, m) \<Rightarrow> (Inl e, s\<lparr>vl_manifest := prior\<rparr>)
             | (Inr _, m) \<Rightarrow> (case commit H (vl_md s) m of
                 (Inl e, m, md) \<Rightarrow> (Inl e, s\<lparr>vl_manifest := prior, vl_md := md\<rparr>)
               | (Inr _, m, md) \<Rightarrow> (Inr outcome, s\<lparr>vl_manifest := m, vl_md := md\<rparr>)))))))"

fun pack_queue :: "codecs \<Rightarrow> hash_fn \<Rightarrow> record_hasher \<Rightarrow> bytes \<Rightarrow> u64 \<Rightarrow> packing_profile \<Rightarrow> segment_id list \<Rightarrow> v6_log
    \<Rightarrow> pack_outcome list \<Rightarrow> pack_outcome list v6_result \<times> v6_log" where
  "pack_queue cs H hasher junk wall profile [] s outcomes = (Inr outcomes, s)"
| "pack_queue cs H hasher junk wall profile (sid # queue) s outcomes =
     (case pack_one cs H hasher junk wall profile s sid of
        (Inl e, s) \<Rightarrow> (Inl e, s)
      | (Inr outcome, s) \<Rightarrow> pack_queue cs H hasher junk wall profile queue s (outcomes @ [outcome]))"

definition pack_pending :: "codecs \<Rightarrow> hash_fn \<Rightarrow> record_hasher \<Rightarrow> bytes \<Rightarrow> u64 \<Rightarrow> packing_profile \<Rightarrow> v6_log
    \<Rightarrow> pack_outcome list v6_result \<times> v6_log" where
  "pack_pending cs H hasher junk wall profile s =
     pack_queue cs H hasher junk wall profile (packing_queue (vl_manifest s)) s []"

section \<open>Opening\<close>

fun reconcile_all :: "codecs \<Rightarrow> hash_fn \<Rightarrow> record_hasher \<Rightarrow> directory \<Rightarrow> bytes \<Rightarrow> (segment_id \<times> file_name) list
    \<Rightarrow> database_manifest \<Rightarrow> bool \<Rightarrow> (bool \<times> database_manifest) v6_result" where
  "reconcile_all cs H hasher fs namespace [] m changed = Inr (changed, m)"
| "reconcile_all cs H hasher fs namespace ((sid, path) # raws) m changed =
     (case reconcile_raw cs H hasher fs m sid path namespace of
        (Inl e, m) \<Rightarrow> Inl e
      | (Inr c, m) \<Rightarrow> reconcile_all cs H hasher fs namespace raws m (changed \<or> c))"

fun active_records_from :: "lsn \<Rightarrow> raw_record list \<Rightarrow> unit v6_result" where
  "active_records_from expected [] = Inr ()"
| "active_records_from expected (r # rs) = (let CTX = ''hrkl v6 boot'' in
     if rr_lsn r \<noteq> expected then Inl (corrupt CTX ''active tail LSN is not the expected one'')
     else (case checked_add expected 1 of
       None \<Rightarrow> Inl (corrupt CTX ''LSN overflow in active tail'') | Some next \<Rightarrow> active_records_from next rs))"

definition validate_active_records :: "raw_scan \<Rightarrow> lsn \<Rightarrow> unit v6_result" where
  "validate_active_records scan expected_first = (let CTX = ''hrkl v6 boot'' in
     if rs_footer scan \<noteq> None \<or> rs_torn_at scan \<noteq> None
     then Inl (corrupt CTX ''active scan must be repaired and unsealed before resume'')
     else bindE (active_records_from expected_first (rs_records scan)) (\<lambda>_.
       if fh_first_lsn (rs_header scan) \<noteq> expected_first
       then Inl (corrupt CTX ''active header first_lsn disagrees with catalogued history'') else Inr ()))"

text \<open>The active file found on disk: repaired, scanned, checked and resumed.\<close>

definition resume_active :: "hash_fn \<Rightarrow> record_hasher \<Rightarrow> directory \<Rightarrow> bytes \<Rightarrow> lsn \<Rightarrow> segment_id \<Rightarrow> file_name
    \<Rightarrow> (active_segment \<times> lsn \<times> u64) v6_result \<times> directory" where
  "resume_active H hasher fs namespace next_lsn sid path = (case read_file fs path of
     Inl e \<Rightarrow> (Inl e, fs)
   | Inr content \<Rightarrow> (case repair_active_tail content of (res, content) \<Rightarrow>
       (let fs = AList.update path content fs in
        (bindE res (\<lambda>_. bindE (scan_raw_bytes content) (\<lambda>scan.
           bindE (check_header_identity (rs_header scan) sid namespace Layout_Raw) (\<lambda>_.
           bindE (validate_active_records scan next_lsn) (\<lambda>_.
           bindE (raw_resume H hasher content) (\<lambda>writer.
           if rw_next_expected_lsn writer < next_lsn
           then Inl (corrupt ''hrkl v6 boot'' ''active tail ends before catalogued history'')
           else Inr (\<lparr>as_id = sid, as_path = path, as_writer = writer\<rparr>, rw_next_expected_lsn writer,
             (if rs_records scan = [] then 0 else Max (set (map rr_hlc (rs_records scan)))))))))), fs))))"

text \<open>An active file whose footer was already written is promoted to its final name and catalogued.\<close>

definition promote_active :: "codecs \<Rightarrow> hash_fn \<Rightarrow> record_hasher \<Rightarrow> directory \<Rightarrow> bytes \<Rightarrow> database_manifest
    \<Rightarrow> (segment_id \<times> file_name) option \<Rightarrow> ((segment_id \<times> file_name) option \<times> bool \<times> database_manifest) v6_result \<times> directory" where
  "promote_active cs H hasher fs namespace m active = (let CTX = ''hrkl v6 boot'' in case active of
     None \<Rightarrow> (Inr (None, False, m), fs)
   | Some (sid, path) \<Rightarrow> (case bindE (read_v6_header fs path) (\<lambda>h.
         bindE (check_header_identity h sid namespace Layout_Raw) (\<lambda>_. read_file fs path)) of
       Inl e \<Rightarrow> (Inl e, fs)
     | Inr content \<Rightarrow>
       if read_footer content = None then (Inr (active, False, m), fs)
       else if map_of fs (raw_path sid) \<noteq> None
       then (Inl (corrupt CTX ''active file with footer collides with an existing RAW generation''), fs)
       else (case run_op (Rename path (raw_path sid)) fs of
         Inl e \<Rightarrow> (Inl e, fs)
       | Inr fs \<Rightarrow> (case reconcile_raw cs H hasher fs m sid (raw_path sid) namespace of
           (Inl e, m) \<Rightarrow> (Inl e, fs) | (Inr c, m) \<Rightarrow> (Inr (None, c, m), fs)))))"

definition open_log :: "codecs \<Rightarrow> hash_fn \<Rightarrow> record_hasher \<Rightarrow> file_name list \<Rightarrow> bytes \<Rightarrow> u64 \<Rightarrow> u64 \<Rightarrow> directory \<Rightarrow> directory
    \<Rightarrow> v6_log v6_result \<times> directory \<times> directory" where
  "open_log cs H hasher root_files new_namespace segment_max_bytes wall fs md = (let CTX = ''hrkl v6 boot'' in
     if segment_max_bytes = 0 then (Inl (Config ''segment_max_bytes do V6Log nao pode ser zero''), fs, md)
     else (case reject_legacy_root root_files of Inl e \<Rightarrow> (Inl e, fs, md) | Inr _ \<Rightarrow>
     (let md = snd (Manifest_Store.sweep_orphan_temps md); fs = snd (sweep_packer_temps fs);
          loaded = load H md in
     case bindE (discover fs) (\<lambda>iv.
         if 1 < length (iv_active iv)
         then Inl (corrupt CTX ''more than one active RAW tail; refusing ambiguous recovery'')
         else bindE (case loaded of
             Some l \<Rightarrow> Inr (dm_storage_namespace_id (lo_manifest l))
           | None \<Rightarrow> bindE (discover_namespace fs iv) (\<lambda>ns. Inr (case ns of Some n \<Rightarrow> n | None \<Rightarrow> new_namespace))) (\<lambda>namespace.
         let manifest = (case loaded of Some l \<Rightarrow> lo_manifest l | None \<Rightarrow> empty_manifest namespace) in
         if dm_storage_namespace_id manifest \<noteq> namespace
         then Inl (corrupt CTX ''manifest namespace disagrees with storage'')
         else bindE (reconcile_all cs H hasher fs namespace (iv_raw iv) manifest False) (\<lambda>(changed, manifest).
         bindE (validate_manifest_ranges manifest) (\<lambda>_.
         bindE (validate_catalogued_generations H fs manifest namespace) (\<lambda>_.
         Inr (iv, namespace, changed, manifest)))))) of
       Inl e \<Rightarrow> (Inl e, fs, md)
     | Inr (iv, namespace, changed, manifest) \<Rightarrow>
       (case promote_active cs H hasher fs namespace manifest (case iv_active iv of [] \<Rightarrow> None | a # _ \<Rightarrow> Some a) of
         (Inl e, fs) \<Rightarrow> (Inl e, fs, md)
       | (Inr (active, promoted, manifest), fs) \<Rightarrow>
         (case (if changed \<or> promoted then (case commit H md manifest of (r, m, md) \<Rightarrow> (bindE r (\<lambda>_. Inr m), md))
               else (Inr manifest, md)) of
           (Inl e, md) \<Rightarrow> (Inl e, fs, md)
         | (Inr manifest, md) \<Rightarrow>
           (case bindE (validate_manifest_ranges manifest) (\<lambda>_. next_lsn_from_manifest manifest) of
             Inl e \<Rightarrow> (Inl e, fs, md)
           | Inr next_lsn \<Rightarrow> (case active of
               Some (sid, path) \<Rightarrow> (case resume_active H hasher fs namespace next_lsn sid path of
                   (Inl e, fs) \<Rightarrow> (Inl e, fs, md)
                 | (Inr (a, next_lsn, max_hlc), fs) \<Rightarrow> (Inr \<lparr>vl_fs = fs, vl_md = md, vl_manifest = manifest,
                     vl_active = Some a, vl_next_lsn = next_lsn, vl_hlc = hlc_observe 0 max_hlc\<rparr>, fs, md))
             | None \<Rightarrow> (case create_active fs (next_segment_id manifest) next_lsn namespace wall 0
                   (dm_manifest_generation manifest) of
                 (Inl e, fs, hlc) \<Rightarrow> (Inl e, fs, md)
               | (Inr a, fs, hlc) \<Rightarrow> (Inr \<lparr>vl_fs = fs, vl_md = md, vl_manifest = manifest,
                   vl_active = Some a, vl_next_lsn = next_lsn, vl_hlc = hlc\<rparr>, fs, md)))))))))"

end
