(* ===== verification/V6_Packer_Correct.thy ===== *)
theory V6_Packer_Correct
  imports V6_Packer Manifest_Store_Names
begin

text \<open>
  What the packing transaction guarantees: nothing that existed is overwritten, whatever the outcome; a
  published generation holds the records of its source under the same Merkle root, and packing a segment
  that the RAW writer sealed can only fail inside the block builder.
\<close>

declare map_of_eq_Some_iff [simp del]

section \<open>Frame\<close>

text \<open>The two names a packing touches.\<close>

definition untouched :: "file_name \<Rightarrow> directory \<Rightarrow> directory \<Rightarrow> bool" where
  "untouched target d d' \<longleftrightarrow> (\<forall>n. n \<noteq> target \<longrightarrow> n \<noteq> temp_path target \<longrightarrow> map_of d' n = map_of d n)"

lemma temp_path_neq [simp]: "temp_path target \<noteq> target" "target \<noteq> temp_path target"
  by (simp_all add: temp_path_def with_suffix_def TMP_def ascii_names)

lemmas dir_simps = update_conv' delete_conv'

lemma publish_rename:
  assumes "map_of d tmp = Some content"
  shows "run_op (Rename tmp target) d = Inr (AList.update target content (AList.delete tmp d))"
  using assms by simp

lemma packable_Inr:
  "packable content = Inr (scan, f) \<longleftrightarrow> scan_raw_bytes content = Inr scan \<and> fh_physical_layout (rs_header scan) = Layout_Raw
    \<and> rs_footer scan = Some f \<and> rs_torn_at scan = None \<and> fh_canonical_codec (rs_header scan) = CANONICAL_CODEC_V1
    \<and> ft_record_count f = word_of_nat (length (rs_records scan))"
  by (auto simp: packable_def bindE_eq_Inr Let_def split: if_splits option.splits)

text \<open>The two endings of the transaction, for the packer and the repacker alike: an error leaves every file
  but the temporary one alone, and success adds exactly the target.\<close>

definition only_added :: "file_name \<Rightarrow> bytes \<Rightarrow> directory \<Rightarrow> directory \<Rightarrow> bool" where
  "only_added target content d d' \<longleftrightarrow> map_of d target = None \<and> map_of d' target = Some content
     \<and> map_of d' (temp_path target) = None \<and> untouched target d d'"

lemma pack_segment_cases:
  assumes p: "pack_segment cs H hasher junk d source target opts sg tg = (res, d')" and src: "source \<noteq> temp_path target"
  obtains (failed) e where "res = Inl e" and "untouched target d d'" and "map_of d' target = map_of d target"
  | (packed) out content scan f stats acc where "res = Inr out" and "only_added target content d d'"
      and "map_of d source \<noteq> None" and "packable (the (map_of d source)) = Inr (scan, f)"
      and "write_packed cs H hasher (init_of_header (rs_header scan)) opts (rs_records scan) = Inr (out_footer out, stats, content)"
      and "reread cs H hasher content (po_max_block_bytes opts) = Inr (acc, ft_record_count f)"
      and "merkle_finalize H acc = ft_logical_root f" and "ft_logical_root (out_footer out) = ft_logical_root f"
      and "out_receipt out = receipt_for H (rs_header scan) (out_footer out)
         (if ps_block_count stats = 0 then Codec_Raw else profile_codec (po_profile opts)) opts sg tg
         (the (map_of d source)) content"
proof (cases "bindE (read_file d source) packable")
  case (Inl e)
  then show ?thesis using p by (intro failed) (auto simp: pack_segment_def untouched_def Let_def)
next
  case (Inr q)
  obtain scan f where q: "q = (scan, f)" by (cases q)
  obtain s where s: "map_of d source = Some s" "packable s = Inr (scan, f)"
    using Inr q by (auto simp: read_file_def bindE_eq_Inr split: option.splits)
  let ?init = "init_of_header (rs_header scan)" and ?tmp = "temp_path target"
  show ?thesis
  proof (cases "map_of d target")
    case (Some c)
    then show ?thesis using p Inr q by (intro failed) (auto simp: pack_segment_def untouched_def Let_def)
  next
    case None
    show ?thesis
    proof (cases "write_packed cs H hasher ?init opts (rs_records scan)")
      case (Inl e)
      then show ?thesis
        using p Inr q None by (intro failed) (auto simp: pack_segment_def untouched_def Let_def dir_simps)
    next
      case (Inr t)
      obtain tf stats content where t: "t = (tf, stats, content)" by (cases t)
      let ?w = "AList.update ?tmp content (AList.delete ?tmp d)"
      let ?e = "AList.update target content (AList.delete ?tmp ?w)"
      have ne: "source \<noteq> target" using s(1) None by auto
      have ren: "run_op (Rename ?tmp target) ?w = Inr ?e" by (simp add: dir_simps)
      have rd: "read_file ?e source = Inr s" using s(1) ne src by (simp add: read_file_def dir_simps)
      show ?thesis
      proof (cases res)
        case (Inl e)
        then show ?thesis
          using p \<open>bindE (read_file d source) packable = Inr q\<close> q None Inr t rd
          by (intro failed)
            (auto simp: pack_segment_def untouched_def Let_def dir_simps split: if_splits sum.splits prod.splits option.splits)
      next
        case (Inr out)
        obtain acc n where rr: "reread cs H hasher content (po_max_block_bytes opts) = Inr (acc, n)"
          using p Inr \<open>bindE (read_file d source) packable = Inr q\<close> q None
            \<open>write_packed cs H hasher ?init opts (rs_records scan) = Inr t\<close> t
          by (auto simp: pack_segment_def Let_def split: if_splits sum.splits)
        note eqs = \<open>bindE (read_file d source) packable = Inr q\<close> [unfolded q]
          \<open>write_packed cs H hasher ?init opts (rs_records scan) = Inr t\<close> [unfolded t]
        have chk: "ft_logical_root tf = ft_logical_root f" "n = ft_record_count f" "merkle_finalize H acc = ft_logical_root f"
          using p Inr None rr by (simp_all add: pack_segment_def Let_def eqs del: run_op.simps split: if_splits)
        have out: "out = \<lparr>out_receipt = receipt_for H (rs_header scan) tf
            (if ps_block_count stats = 0 then Codec_Raw else profile_codec (po_profile opts)) opts sg tg s content,
            out_footer = tf, out_stats = stats, out_target_path = target\<rparr>" and d': "d' = ?e"
          using p Inr None rr chk
          by (simp_all add: pack_segment_def Let_def eqs ren rd del: run_op.simps split: if_splits)
        have "only_added target content d d'"
          using None by (simp add: only_added_def untouched_def d' dir_simps)
        then show ?thesis
          using s rr chk eqs Inr by (intro packed [of out content scan f stats acc]) (simp_all add: out)
      qed
    qed
  qed
qed


text \<open>Packing is a transaction. Whatever bytes the source holds and whatever happens, no file other than
  the target and its temporary is changed, and an existing target is never overwritten. When it succeeds,
  the target is new, no temporary is left, and reading it back yields records whose canonical hashes have
  the Merkle root that the source footer and the receipt declare; the receipt carries the digests of the
  two files as they are.\<close>

theorem pack_segment_transaction:
  assumes p: "pack_segment cs H hasher junk d source target opts sg tg = (res, d')" and src: "source \<noteq> temp_path target"
  shows "untouched target d d' \<and> (map_of d target \<noteq> None \<longrightarrow> map_of d' target = map_of d target)
    \<and> (case res of Inl e \<Rightarrow> map_of d' target = map_of d target
       | Inr out \<Rightarrow> \<exists>content rs hashes. only_added target content d d'
           \<and> packed_records cs content (po_max_block_bytes opts) = Inr rs
           \<and> mapE (\<lambda>r. hasher (rr_lsn r) (rr_hlc r) (rr_payload r)) rs = Inr hashes
           \<and> pr_logical_root (out_receipt out) = root_of_record_hashes H hashes
           \<and> pr_target_physical_digest (out_receipt out) = physical_digest H content
           \<and> pr_source_physical_digest (out_receipt out) = physical_digest H (the (map_of d' source)))"
  using p src
proof (cases rule: pack_segment_cases)
  case (failed e)
  then show ?thesis by simp
next
  case (packed out content scan f stats acc)
  obtain r where r: "open_packed content (po_max_block_bytes opts) = Inr r"
    and fold: "fst (for_each_record cs r (push_counted H hasher) default_counters (merkle_new, 0)) = Inr (acc, ft_record_count f)"
    using packed(6) by (auto simp: reread_def)
  from counted_records [OF r fold] obtain rs hashes where rs: "packed_records cs content (po_max_block_bytes opts) = Inr rs"
    "mapE (\<lambda>r. hasher (rr_lsn r) (rr_hlc r) (rr_payload r)) rs = Inr hashes"
    "acc = foldl (push_record_hash H) merkle_new hashes" by blast
  have "source \<noteq> target" using packed(2,3) by (auto simp: only_added_def)
  then have "map_of d' source = map_of d source" using packed(2) src by (simp add: only_added_def untouched_def)
  moreover have "pr_logical_root (out_receipt out) = root_of_record_hashes H hashes"
    using packed(7,8,9) rs(3) by (simp add: receipt_for_def root_of_record_hashes_def)
  ultimately show ?thesis
    using packed(1,2,9) rs(1,2) by (auto simp: only_added_def receipt_for_def)
qed

section \<open>Packing what the writer sealed\<close>

lemma init_of_header [simp]: "init_of_header (init_header i) = i" "init_of_header (packed_header i) = i"
  by (simp_all add: init_of_header_def init_header_def raw_create_def Let_def packed_header_def)

lemma stored_bound:
  assumes "list_all2 (built_from cs opts) bs chunks"
  shows "sum_list (map built_total_len bs) \<le> length bs * (2 ^ 32 + 64)"
  using assms
proof (induction rule: list_all2_induct)
  case (Cons b bs ch chunks)
  have "length (bb_stored b) < 2 ^ 32"
    using build_block_Inr(4) Cons(1) unfolding built_from_def by blast
  then have "built_total_len b \<le> 2 ^ 32 + 64" by (simp add: built_total_len_def BLOCK_HEADER_LEN_def)
  with Cons.IH show ?case by simp
qed simp

lemma packed_content_small:
  assumes s: "packed_session cs H hasher init opts rs = Inr w" and ok: "init_ok init" and H: "digest32 H"
    and n: "length rs \<le> 2 ^ 24" and fin: "packed_finish cs H w = Inr (f, stats, content)"
  shows "length content < usize_limit"
proof -
  note hdr = packed_header_ok [OF ok]
  obtain bs0 chunks0 hashes where inv0: "packed_inv cs (packed_header init) opts w bs0 chunks0"
    and recs0: "concat chunks0 @ bu_records (pw_builder w) = map block_record_of rs"
    using packed_session_inv [OF s ok] by blast
  obtain v where v: "flush_block cs w = Inr v" using fin by (auto simp: packed_finish_def)
  obtain bs chunks where inv: "packed_inv cs (packed_header init) opts v bs chunks"
    and recs: "concat chunks = map block_record_of rs"
    using flush_inv [OF inv0 hdr v] recs0 by auto
  note i = inv [unfolded packed_inv_def]
  have all2: "list_all2 (built_from cs opts) bs chunks" using i by simp
  have nb: "length bs \<le> 2 ^ 24" using length_chunks [OF all2] recs n by simp
  then have "length bs * (2 ^ 32 + 64) \<le> 2 ^ 24 * (2 ^ 32 + 64)" by (rule mult_le_mono1)
  then have b: "length (concat (map built_bytes bs)) \<le> 2 ^ 24 * (2 ^ 32 + 64)"
    using stored_bound [OF all2] length_blocks [OF all2] by linarith
  have "length (footer_encode f) = 128"
    using fin H by (intro length_footer_encode) (auto simp: packed_finish_def v Let_def footer_ok_def merkle_finalize_def)
  moreover have "length (directory_encode (pw_directory v)) = length bs * 56"
    using i by (simp add: length_directory_encode)
  moreover have "content = pw_file v @ directory_encode (pw_directory v) @ footer_encode f"
    using fin by (auto simp: packed_finish_def v Let_def)
  ultimately show ?thesis
    using b nb i length_header_encode [OF hdr] by (simp add: usize_limit_def)
qed


lemma write_packed_segment:
  assumes w: "write_packed cs H hasher init opts rs = Inr (f, stats, content)" and ok: "init_ok init" and H: "digest32 H"
    and inc: "increasing_raw rs" and pay: "\<forall>r \<in> set rs. length (rr_payload r) + 54 \<le> HARD_MAX_BLOCK_BYTES"
    and n: "length rs \<le> 2 ^ 24"
  shows "segment_of cs H hasher Layout_Packed init rs f content"
proof -
  obtain v where v: "packed_session cs H hasher init opts rs = Inr v" "packed_finish cs H v = Inr (f, stats, content)"
    using w by (auto simp: write_packed_def packed_session_def)
  show ?thesis
    by (rule segment_of.packed_segment [OF v(1) ok inc pay n v(2) packed_content_small [OF v(1) ok H n v(2)]])
qed

lemma same_seals:
  assumes "seals H hasher rs f" and "seals H hasher rs g"
  shows "ft_logical_root g = ft_logical_root f" and "ft_record_count g = ft_record_count f"
    and "ft_min_lsn g = ft_min_lsn f" and "ft_max_lsn g = ft_max_lsn f"
  using assms by (auto simp: seals_def)

lemma reread_segment:
  assumes seg: "segment_of cs H hasher Layout_Packed init rs f content" and H: "digest32 H"
    and cs: "codecs_lossless cs" and max: "HARD_MAX_BLOCK_BYTES \<le> max_block"
  shows "\<exists>acc. reread cs H hasher content max_block = Inr (acc, ft_record_count f) \<and> merkle_finalize H acc = ft_logical_root f"
  using seg
proof cases
  case (packed_segment opts w stats)
  obtain r where "open_packed content max_block = Inr r \<and> pr_header r = packed_header init \<and> pr_footer r = f
      \<and> packed_reads cs r rs \<and> (\<forall>(g :: merkle_acc \<times> u64 \<Rightarrow> block_record \<Rightarrow> (merkle_acc \<times> u64) v6_result) c s.
        fst (for_each_record cs r g c s) = foldE g s (map block_record_of rs))"
    using packed_segment_facts [OF packed_segment(1,2) H packed_segment(3-7) cs max] by (rule exE)
  then have r: "open_packed content max_block = Inr r"
    "\<And>c s. fst (for_each_record cs r (push_counted H hasher) c s) = foldE (push_counted H hasher) s (map block_record_of rs)"
    by (simp_all del: split_paired_All)
  show ?thesis
    using segment_seals [OF seg H] by (auto simp: reread_def r foldE_push_counted seals_def root_of_record_hashes_def)
qed

text \<open>What the reader accepts: blocks of at most 64 MiB, asked for by the options too, and \<open>2 ^ 24\<close> records.\<close>

definition readable_limits :: "pack_options \<Rightarrow> raw_record list \<Rightarrow> bool" where
  "readable_limits opts rs \<longleftrightarrow> HARD_MAX_BLOCK_BYTES \<le> po_max_block_bytes opts
     \<and> (\<forall>r \<in> set rs. length (rr_payload r) + 54 \<le> HARD_MAX_BLOCK_BYTES) \<and> length rs \<le> 2 ^ 24"

lemma pack_within_limits:
  assumes seg: "segment_of cs H hasher Layout_Raw init rs f src" and H: "digest32 H" and cs: "codecs_lossless cs"
    and lim: "readable_limits opts rs"
    and d: "map_of d source = Some src" "map_of d target = None" "source \<noteq> temp_path target"
  shows "case pack_segment cs H hasher junk d source target opts sg tg of
      (Inl e, d') \<Rightarrow> write_packed cs H hasher init opts rs = Inl e
    | (Inr out, d') \<Rightarrow> \<exists>content. only_added target content d d'
        \<and> segment_of cs H hasher Layout_Packed init rs (out_footer out) content
        \<and> ft_logical_root (out_footer out) = ft_logical_root f"
proof -
  have max: "HARD_MAX_BLOCK_BYTES \<le> po_max_block_bytes opts"
    and pay: "\<forall>r \<in> set rs. length (rr_payload r) + 54 \<le> HARD_MAX_BLOCK_BYTES" and n: "length rs \<le> 2 ^ 24"
    using lim by (simp_all add: readable_limits_def)
  from seg have inc: "increasing_raw rs" and scan: "scan_raw_bytes src
      = Inr \<lparr>rs_header = init_header init, rs_records = rs, rs_footer = Some f, rs_torn_at = None\<rparr>"
    by (cases; use raw_segment_facts(1) H in blast)+
  note sf = segment_seals [OF seg H]
  have pk: "packable src = Inr (\<lparr>rs_header = init_header init, rs_records = rs, rs_footer = Some f, rs_torn_at = None\<rparr>, f)"
    using sf by (simp add: packable_Inr scan seals_def)
  obtain res d' where p: "pack_segment cs H hasher junk d source target opts sg tg = (res, d')" by fastforce
  show ?thesis
  proof (cases "write_packed cs H hasher init opts rs")
    case (Inl e)
    then show ?thesis using d by (simp add: pack_segment_def read_file_def pk Let_def)
  next
    case (Inr t)
    obtain g stats content where t: "t = (g, stats, content)" by (cases t)
    note seg' = write_packed_segment [OF Inr [unfolded t] segment_init_ok [OF seg] H inc pay n]
    note same = same_seals [OF sf segment_seals [OF seg' H]]
    obtain acc where rr: "reread cs H hasher content (po_max_block_bytes opts) = Inr (acc, ft_record_count g)"
      "merkle_finalize H acc = ft_logical_root g"
      using reread_segment [OF seg' H cs max] by blast
    have "source \<noteq> target" using d by auto
    then have "\<exists>out. res = Inr out"
      using p d Inr t same rr
      by (auto simp: pack_segment_def read_file_def pk Let_def dir_simps split: if_splits)
    with p d(3) show ?thesis
    proof (cases rule: pack_segment_cases)
      case (packed out content' scan f' stats' acc')
      then have "scan = \<lparr>rs_header = init_header init, rs_records = rs, rs_footer = Some f, rs_torn_at = None\<rparr>"
        using d(1) pk by auto
      then have "out_footer out = g" "content' = content" using packed(5) Inr t by simp_all
      then show ?thesis using p packed(1,2) seg' same(1) by auto
    qed auto
  qed
qed

text \<open>C13. Packing preserves a segment. Let the source be a segment that the RAW writer sealed and the target be
  free. If the packing succeeds, exactly the target is added, under the same Merkle root; if it fails, for whatever
  reason, no file but the temporary one has changed. Within the limits of the reader (payloads of at most 64 MiB
  less 54 bytes, options that do not ask for smaller blocks than the reader's maximum, at most \<open>2 ^ 24\<close> records) the
  target is a PACKED segment of exactly the same records under the same header identity, and only the block
  builder can refuse: none of the checks after the write fails. Beyond them the block builder may write what
  the re-read then refuses.\<close>

theorem pack_segment_preserves:
  assumes seg: "segment_of cs H hasher Layout_Raw init rs f src" and H: "digest32 H" and cs: "codecs_lossless cs"
    and d: "map_of d source = Some src" "map_of d target = None" "source \<noteq> temp_path target"
  shows "case pack_segment cs H hasher junk d source target opts sg tg of
      (Inl e, d') \<Rightarrow> untouched target d d' \<and> map_of d' target = None
        \<and> (readable_limits opts rs \<longrightarrow> write_packed cs H hasher init opts rs = Inl e)
    | (Inr out, d') \<Rightarrow> \<exists>content. only_added target content d d' \<and> ft_logical_root (out_footer out) = ft_logical_root f
        \<and> (readable_limits opts rs \<longrightarrow> segment_of cs H hasher Layout_Packed init rs (out_footer out) content)"
proof -
  have scan: "scan_raw_bytes src = Inr \<lparr>rs_header = init_header init, rs_records = rs, rs_footer = Some f, rs_torn_at = None\<rparr>"
    using seg by (cases; use raw_segment_facts(1) H in blast)
  obtain res d' where p: "pack_segment cs H hasher junk d source target opts sg tg = (res, d')" by fastforce
  note within = pack_within_limits [OF seg H cs _ d, of opts junk sg tg, unfolded p]
  from p d(3) show ?thesis
  proof (cases rule: pack_segment_cases)
    case (failed e)
    then show ?thesis using p within d(2) by simp
  next
    case (packed out content scan' f')
    then have f: "f' = f" using scan d(1) by (auto simp: packable_Inr)
    have same: "content' = content" if "only_added target content' d d'" for content'
      using that packed(2) by (simp add: only_added_def)
    have "segment_of cs H hasher Layout_Packed init rs (out_footer out) content" if "readable_limits opts rs"
      using within [OF that] packed(1) same by auto
    then show ?thesis using p packed(1,2,8) f by auto
  qed
qed

text \<open>Repacking preserves a segment too, from any PACKED generation to any new options: it publishes the
  same records under the same root, or it fails in the block builder without touching any file but the
  temporary one.\<close>

theorem repack_segment_preserves:
  assumes seg: "segment_of cs H hasher Layout_Packed init rs f src" and H: "digest32 H" and cs: "codecs_lossless cs"
    and max: "HARD_MAX_BLOCK_BYTES \<le> po_max_block_bytes opts"
    and d: "map_of d source = Some src" "map_of d target = None" "source \<noteq> temp_path target"
  shows "case repack_segment cs H hasher junk d source target opts sg tg of
      (Inl e, d') \<Rightarrow> write_packed cs H hasher init opts rs = Inl e \<and> untouched target d d' \<and> map_of d' target = None
    | (Inr out, d') \<Rightarrow> \<exists>content. only_added target content d d'
        \<and> segment_of cs H hasher Layout_Packed init rs (out_footer out) content
        \<and> ft_logical_root (out_footer out) = ft_logical_root f"
  using seg
proof cases
  case (packed_segment opts0 w0 stats0)
  let ?g = "\<lambda>w x. push_record cs H hasher w (raw_record_of x)"
  obtain r where "open_packed src (po_max_block_bytes opts) = Inr r \<and> pr_header r = packed_header init \<and> pr_footer r = f
      \<and> packed_reads cs r rs \<and> (\<forall>(g :: packed_writer \<Rightarrow> block_record \<Rightarrow> packed_writer v6_result) c s.
        fst (for_each_record cs r g c s) = foldE g s (map block_record_of rs))"
    using packed_segment_facts [OF packed_segment(1,2) H packed_segment(3-7) cs max] by (rule exE)
  then have r: "open_packed src (po_max_block_bytes opts) = Inr r" "pr_header r = packed_header init" "pr_footer r = f"
    "\<And>c s. fst (for_each_record cs r ?g c s) = foldE ?g s (map block_record_of rs)"
    by simp_all
  have rb: "raw_record_of (block_record_of x) = x" for x
    by (cases x) (simp add: raw_record_of_def block_record_of_def)
  have fold: "foldE ?g s (map block_record_of rs) = foldE (push_record cs H hasher) s rs" for s
    by (induction rs arbitrary: s) (auto simp: rb intro: bindE_cong)
  have w: "repack_write cs H hasher init opts r = write_packed cs H hasher init opts rs"
    by (simp add: repack_write_def write_packed_def r(4) fold)
  show ?thesis
  proof (cases "write_packed cs H hasher init opts rs")
    case (Inl e)
    then show ?thesis
      using d r by (auto simp: repack_segment_def read_file_def w Let_def untouched_def dir_simps)
  next
    case (Inr t)
    obtain g stats content where t: "t = (g, stats, content)" by (cases t)
    note seg' = write_packed_segment [OF Inr [unfolded t] packed_segment(2) H packed_segment(3,4,5)]
    note same = same_seals [OF segment_seals [OF seg H] segment_seals [OF seg' H]]
    have "source \<noteq> target" using d by auto
    then show ?thesis
      using d r Inr t same seg'
      by (auto simp: repack_segment_def read_file_def w Let_def dir_simps only_added_def untouched_def)
  qed
qed

section \<open>Witnesses\<close>

lemma example_written:
  obtains f stats content where "write_packed toy_codecs toy_hash constant_hasher example_init example_options example_raw
    = Inr (f, stats, content)"
proof -
  obtain w f stats content where "packed_session toy_codecs toy_hash constant_hasher example_init example_options example_raw = Inr w"
    "packed_finish toy_codecs toy_hash w = Inr (f, stats, content)"
    using example_packed by blast
  then show thesis by (intro that [of f stats content]) (simp add: write_packed_def packed_session_def)
qed

lemma example_names: "[1] \<noteq> temp_path [2]" and example_max: "HARD_MAX_BLOCK_BYTES \<le> po_max_block_bytes example_options"
  by (simp_all add: temp_path_def with_suffix_def TMP_def ascii_names example_options_def default_pack_options_def)

lemma pack_segment_preserves_witness:
  "\<exists>src out d' content. pack_segment toy_codecs toy_hash constant_hasher [] [([1], src)] [1] [2] example_options 0 1 = (Inr out, d')
    \<and> map_of d' [2] = Some content
    \<and> segment_of toy_codecs toy_hash constant_hasher Layout_Packed example_init example_raw (out_footer out) content"
proof -
  obtain f src where s: "segment_of toy_codecs toy_hash constant_hasher Layout_Raw example_init example_raw f src"
    by (rule example_sealed)
  obtain g stats c where w: "write_packed toy_codecs toy_hash constant_hasher example_init example_options example_raw = Inr (g, stats, c)"
    by (rule example_written)
  obtain res d' where p: "pack_segment toy_codecs toy_hash constant_hasher [] [([1], src)] [1] [2] example_options 0 1 = (res, d')"
    by fastforce
  have "readable_limits example_options example_raw" using example_max example_payloads by (simp add: readable_limits_def)
  with pack_segment_preserves [OF s toy_digest toy_lossless _ _ example_names, where d = "[([1], src)]" and junk = "[]" and opts = example_options and sg = 0 and tg = 1] p w
  show ?thesis by (cases res) (auto simp: only_added_def)
qed

lemma pack_segment_transaction_witness:
  "\<exists>src out d' content. pack_segment toy_codecs toy_hash constant_hasher [] [([1], src), ([9], [4])] [1] [2] example_options 0 1 = (Inr out, d')
    \<and> map_of d' [9] = Some [4] \<and> map_of d' [2] = Some content
    \<and> pr_target_physical_digest (out_receipt out) = physical_digest toy_hash content"
proof -
  obtain f src where s: "segment_of toy_codecs toy_hash constant_hasher Layout_Raw example_init example_raw f src"
    by (rule example_sealed)
  obtain g stats c where w: "write_packed toy_codecs toy_hash constant_hasher example_init example_options example_raw = Inr (g, stats, c)"
    by (rule example_written)
  have pk: "packable src = Inr (\<lparr>rs_header = init_header example_init, rs_records = example_raw, rs_footer = Some f, rs_torn_at = None\<rparr>, f)"
  proof -
    have "scan_raw_bytes src = Inr \<lparr>rs_header = init_header example_init, rs_records = example_raw,
        rs_footer = Some f, rs_torn_at = None\<rparr>"
      using s by cases (use raw_segment_facts(1) toy_digest in blast)
    then show ?thesis using segment_seals [OF s toy_digest] by (simp add: packable_Inr seals_def)
  qed
  note seg' = write_packed_segment [OF w segment_init_ok [OF s] toy_digest example_raw_facts(3) example_payloads]
  note same = same_seals [OF segment_seals [OF s toy_digest] segment_seals [OF seg' toy_digest]]
  obtain acc where rr: "reread toy_codecs toy_hash constant_hasher c (po_max_block_bytes example_options) = Inr (acc, ft_record_count g)"
    "merkle_finalize toy_hash acc = ft_logical_root g"
    using reread_segment [OF seg' toy_digest toy_lossless example_max] by blast
  obtain res d' where p: "pack_segment toy_codecs toy_hash constant_hasher [] [([1], src), ([9], [4])] [1] [2] example_options 0 1 = (res, d')"
    by fastforce
  then obtain out where res: "res = Inr out"
    using w same rr example_names
    by (auto simp: pack_segment_def read_file_def pk Let_def dir_simps split: if_splits)
  have "[9] \<noteq> temp_path [2]" by (simp add: temp_path_def with_suffix_def TMP_def ascii_names)
  with pack_segment_transaction [OF p example_names] have "map_of d' [9] = Some [4] \<and> (\<exists>content. map_of d' [2] = Some content
      \<and> pr_target_physical_digest (out_receipt out) = physical_digest toy_hash content)"
    by (auto simp: res untouched_def only_added_def)
  then show ?thesis using p res by blast
qed

lemma repack_segment_preserves_witness:
  "\<exists>src out d'. repack_segment toy_codecs toy_hash constant_hasher [] [([1], src)] [1] [2] example_options 1 2 = (Inr out, d')"
proof -
  obtain g stats c where w: "write_packed toy_codecs toy_hash constant_hasher example_init example_options example_raw = Inr (g, stats, c)"
    by (rule example_written)
  note seg = write_packed_segment [OF w example_init_ok toy_digest example_raw_facts(3) example_payloads]
  obtain res d' where p: "repack_segment toy_codecs toy_hash constant_hasher [] [([1], c)] [1] [2] example_options 1 2 = (res, d')"
    by fastforce
  from repack_segment_preserves [OF seg toy_digest toy_lossless example_max _ _ example_names, of "[([1], c)]" "[]" 1 2] p w
  show ?thesis by (cases res) auto
qed

end
