(* ===== verification/V6_Log_Invariant.thy ===== *)
theory V6_Log_Invariant
  imports V6_Log V6_Packer_Correct
begin

text \<open>
  What a \<open>V6Log\<close> keeps true between calls: the records of the log, numbered from 0, are laid out over the
  catalogued segments and the active one, and every generation of a catalogued segment is a finished
  segment file of exactly its lsn_slice.
\<close>

section \<open>File names\<close>

lemma pad_digits: "list_all is_digit (pad w n)" "digits_value (pad w n) = n" "pad w n \<noteq> []"
  using decimal_digits [of n]
  by (auto simp: pad_def digits_value_zeros digits_value_decimal list_all_iff is_digit_def)

lemma ascii_segment_names:
  "ascii ''.active.hrkl'' = [0x2E, 0x61, 0x63, 0x74, 0x69, 0x76, 0x65, 0x2E, 0x68, 0x72, 0x6B, 0x6C]"
  "ascii ''.g0000.raw.hrkl'' = [0x2E, 0x67, 0x30, 0x30, 0x30, 0x30, 0x2E, 0x72, 0x61, 0x77, 0x2E, 0x68, 0x72, 0x6B, 0x6C]"
  "ascii ''.packed.hrkl'' = [0x2E, 0x70, 0x61, 0x63, 0x6B, 0x65, 0x64, 0x2E, 0x68, 0x72, 0x6B, 0x6C]"
  "ascii ''.g'' = [0x2E, 0x67]"
  "ascii ''segments/'' = [0x73, 0x65, 0x67, 0x6D, 0x65, 0x6E, 0x74, 0x73, 0x2F]"
  "ascii ''..'' = [0x2E, 0x2E]"
  by code_simp+

text \<open>The sixth byte from the end tells the three kinds of segment file apart; temporary files end in \<open>p\<close>.\<close>

definition file_kind :: "file_name \<Rightarrow> u8" where
  "file_kind n = rev n ! 5"

lemma file_kinds [simp]:
  "file_kind (active_path sid) = 0x65" "file_kind (raw_path sid) = 0x77" "file_kind (packed_path sid g) = 0x64"
  by (simp_all add: file_kind_def active_path_def raw_path_def packed_path_def ascii_segment_names)

lemma file_kind_differ: "file_kind a \<noteq> file_kind b \<Longrightarrow> a \<noteq> b"
  by blast

lemma segment_names_differ [simp]:
  "active_path a \<noteq> raw_path b" "raw_path b \<noteq> active_path a" "active_path a \<noteq> packed_path b g"
  "packed_path b g \<noteq> active_path a" "raw_path a \<noteq> packed_path b g" "packed_path b g \<noteq> raw_path a"
  by (rule file_kind_differ; simp)+

lemma last_segment_names [simp]:
  "last (active_path sid) = 0x6C" "last (raw_path sid) = 0x6C" "last (packed_path sid g) = 0x6C"
  "last (temp_path n) = 0x70"
  by (simp_all add: active_path_def raw_path_def packed_path_def ascii_segment_names temp_path_def with_suffix_def
      TMP_def ascii_names)

lemma temp_names_differ [simp]:
  "active_path a \<noteq> temp_path n" "raw_path a \<noteq> temp_path n" "packed_path a g \<noteq> temp_path n"
  "temp_path n \<noteq> active_path a" "temp_path n \<noteq> raw_path a" "temp_path n \<noteq> packed_path a g"
  by (rule last_differ; simp)+

lemma pad_inj: "pad w a = pad w b \<Longrightarrow> a = b"
  by (metis pad_digits(2))

lemma names_inj [simp]:
  "active_path a = active_path b \<longleftrightarrow> a = b" "raw_path a = raw_path b \<longleftrightarrow> a = b"
  by (auto simp: active_path_def raw_path_def word_unat_eq_iff dest!: pad_inj)

section \<open>Locations\<close>

lemma components_plain: "0x2F \<notin> set n \<Longrightarrow> components n = [n]"
  by (induction n) auto

lemma components_two: "0x2F \<notin> set p \<Longrightarrow> components (p @ 0x2F # n) = p # components n"
  by (induction p) auto

lemma no_slash: "0x2F \<notin> set (pad w n)"
  using pad_digits(1) [of w n] by (auto simp: list_all_iff is_digit_def)

definition sealed_location :: "bytes \<Rightarrow> file_name \<Rightarrow> bool" where
  "sealed_location loc n \<longleftrightarrow> loc = ascii ''segments/'' @ n \<and> resolve_location loc = Inr loc
     \<and> (file_kind n = 0x77 \<or> file_kind n = 0x64) \<and> last n = 0x6C"

lemma resolve_segment_location:
  assumes "0x2F \<notin> set n" and "2 < length n"
  shows "resolve_location (ascii ''segments/'' @ n) = Inr (ascii ''segments/'' @ n)"
proof -
  have "components ([0x73, 0x65, 0x67, 0x6D, 0x65, 0x6E, 0x74, 0x73] @ 0x2F # n)
      = [0x73, 0x65, 0x67, 0x6D, 0x65, 0x6E, 0x74, 0x73] # [n]"
    using components_plain [OF assms(1)] by (subst components_two) simp_all
  then show ?thesis using assms(2) by (auto simp: resolve_location_def ascii_segment_names)
qed

lemma raw_location_sealed: "sealed_location (raw_location sid) (raw_path sid)"
proof -
  have "resolve_location (ascii ''segments/'' @ raw_path sid) = Inr (ascii ''segments/'' @ raw_path sid)"
    by (rule resolve_segment_location) (simp_all add: raw_path_def no_slash ascii_segment_names)
  then show ?thesis by (simp add: sealed_location_def raw_location_def) (simp add: raw_path_def)
qed

lemma packed_location_sealed: "sealed_location (packed_location sid g) (packed_path sid g)"
proof -
  have "resolve_location (ascii ''segments/'' @ packed_path sid g) = Inr (ascii ''segments/'' @ packed_path sid g)"
    by (rule resolve_segment_location) (simp_all add: packed_path_def no_slash ascii_segment_names)
  then show ?thesis by (simp add: sealed_location_def packed_location_def) (simp add: packed_path_def)
qed

lemma read_sealed: "sealed_location loc n \<Longrightarrow> read_location fs loc = read_file fs n"
  by (simp add: sealed_location_def read_location_def)

lemma sealed_not_active: "sealed_location loc n \<Longrightarrow> n \<noteq> active_path sid \<and> n \<noteq> temp_path m"
  by (auto simp: sealed_location_def dest: arg_cong [of _ _ file_kind] arg_cong [of _ _ last])

section \<open>The records of a log\<close>

type_synonym log_entries = "(u64 \<times> bytes) list"

definition record_at :: "log_entries \<Rightarrow> nat \<Rightarrow> raw_record" where
  "record_at es i = \<lparr>rr_lsn = word_of_nat i, rr_hlc = fst (es ! i), rr_payload = snd (es ! i)\<rparr>"

definition lsn_slice :: "log_entries \<Rightarrow> nat \<Rightarrow> nat \<Rightarrow> raw_record list" where
  "lsn_slice es a b = map (record_at es) [a..<b]"

lemma length_slice [simp]: "length (lsn_slice es a b) = b - a"
  by (simp add: lsn_slice_def)

lemma slice_append: "b \<le> length es \<Longrightarrow> lsn_slice (es @ fs) a b = lsn_slice es a b"
  by (auto simp: lsn_slice_def record_at_def nth_append)

lemma slice_snoc: "a \<le> length es \<Longrightarrow> lsn_slice (es @ [e]) a (length (es @ [e]))
    = lsn_slice es a (length es) @ [\<lparr>rr_lsn = word_of_nat (length es), rr_hlc = fst e, rr_payload = snd e\<rparr>]"
  by (auto simp: lsn_slice_def record_at_def nth_append)

lemma unat_index: "i < 2 ^ 64 \<Longrightarrow> unat (word_of_nat i :: u64) = i"
  by (simp add: unsigned_of_nat take_bit_nat_eq_self)

lemma slice_increasing: "b \<le> 2 ^ 64 \<Longrightarrow> increasing_raw (lsn_slice es a b)"
  by (auto simp: increasing_raw_def lsn_slice_def record_at_def sorted_wrt_map word_less_nat_alt unat_index
      intro!: sorted_wrt_mono_rel [OF _ sorted_wrt_upt])

lemma find_slice:
  assumes "b \<le> 2 ^ 64"
  shows "find (\<lambda>r. rr_lsn r = k) (lsn_slice es a b)
    = (if a \<le> unat k \<and> unat k < b then Some (record_at es (unat k)) else None)"
proof (cases "a \<le> unat k \<and> unat k < b")
  case True
  have "[a..<b] ! (unat k - a) = unat k" using True by (subst nth_upt) auto
  moreover have i: "unat k - a < length [a..<b]" using True diff_less_mono [of "unat k" b a] by simp
  ultimately have at: "lsn_slice es a b ! (unat k - a) = record_at es (unat k)" by (simp only: lsn_slice_def nth_map)
  have "find (\<lambda>r. rr_lsn r = k) (lsn_slice es a b) = Some (record_at es (unat k))"
    unfolding find_Some_iff
  proof (intro exI [of _ "unat k - a"] conjI allI impI)
    show "record_at es (unat k) = lsn_slice es a b ! (unat k - a)" using at ..
    show "unat k - a < length (lsn_slice es a b)" using i by simp
    show "rr_lsn (lsn_slice es a b ! (unat k - a)) = k" unfolding at by (simp add: record_at_def)
    fix j assume j: "j < unat k - a"
    then have "lsn_slice es a b ! j = record_at es (a + j)" "a + j < 2 ^ 64" using True assms by (auto simp: lsn_slice_def)
    then show "rr_lsn (lsn_slice es a b ! j) \<noteq> k" using j unat_index [of "a + j"] by (auto simp: record_at_def)
  qed
  with True show ?thesis by simp
next
  case False
  have "rr_lsn (record_at es i) \<noteq> k" if "i \<in> {a..<b}" for i
    using that False assms unat_index [of i] by (auto simp: record_at_def)
  with False show ?thesis by (auto simp: find_None_iff lsn_slice_def)
qed

section \<open>The invariant\<close>

definition generation_holds :: "codecs \<Rightarrow> hash_fn \<Rightarrow> record_hasher \<Rightarrow> directory \<Rightarrow> bytes \<Rightarrow> segment_id \<Rightarrow> raw_record list
    \<Rightarrow> physical_generation \<Rightarrow> bool" where
  "generation_holds cs H hasher fs namespace sid rs g \<longleftrightarrow> (\<exists>n init f content. sealed_location (pg_location g) n
     \<and> map_of fs n = Some content \<and> segment_of cs H hasher (pg_layout g) init rs f content
     \<and> si_segment_id init = sid \<and> si_storage_namespace_id init = namespace)"

definition descriptor_holds :: "codecs \<Rightarrow> hash_fn \<Rightarrow> record_hasher \<Rightarrow> directory \<Rightarrow> bytes \<Rightarrow> log_entries
    \<Rightarrow> segment_descriptor \<Rightarrow> nat \<Rightarrow> nat \<Rightarrow> bool" where
  "descriptor_holds cs H hasher fs namespace es d a b \<longleftrightarrow> a < b \<and> b \<le> length es
     \<and> sd_first_lsn d = word_of_nat a \<and> sd_last_lsn d = word_of_nat (b - 1) \<and> sd_record_count d = word_of_nat (b - a)
     \<and> active_generation d \<noteq> None
     \<and> (\<forall>g \<in> set (sd_generations d). generation_holds cs H hasher fs namespace (sd_segment_id d) (lsn_slice es a b) g)"

text \<open>The catalogued segments tile the LSNs from \<open>a\<close> to \<open>b\<close>.\<close>

fun tiles :: "codecs \<Rightarrow> hash_fn \<Rightarrow> record_hasher \<Rightarrow> directory \<Rightarrow> bytes \<Rightarrow> log_entries \<Rightarrow> nat \<Rightarrow> segment_descriptor list
    \<Rightarrow> nat \<Rightarrow> bool" where
  "tiles cs H hasher fs namespace es a [] b \<longleftrightarrow> a = b"
| "tiles cs H hasher fs namespace es a (d # ds) b \<longleftrightarrow>
     (\<exists>c. descriptor_holds cs H hasher fs namespace es d a c \<and> tiles cs H hasher fs namespace es c ds b)"

definition active_holds :: "hash_fn \<Rightarrow> record_hasher \<Rightarrow> directory \<Rightarrow> bytes \<Rightarrow> log_entries \<Rightarrow> active_segment \<Rightarrow> nat \<Rightarrow> bool" where
  "active_holds H hasher fs namespace es a base \<longleftrightarrow> base \<le> length es \<and> unat (as_id a) \<le> base
     \<and> as_path a = active_path (as_id a) \<and> map_of fs (as_path a) = Some (rw_file (as_writer a))
     \<and> (\<exists>init. init_ok init \<and> si_segment_id init = as_id a \<and> si_storage_namespace_id init = namespace
        \<and> si_first_lsn init = word_of_nat base
        \<and> raw_session H hasher init (lsn_slice es base (length es)) = Inr (as_writer a))"

definition entry_ok :: "u64 \<times> bytes \<Rightarrow> bool" where
  "entry_ok e \<longleftrightarrow> length (snd e) + 54 \<le> HARD_MAX_BLOCK_BYTES"

definition log_inv :: "codecs \<Rightarrow> hash_fn \<Rightarrow> record_hasher \<Rightarrow> v6_log \<Rightarrow> log_entries \<Rightarrow> bool" where
  "log_inv cs H hasher s es \<longleftrightarrow> length es < 2 ^ 32 \<and> list_all entry_ok es \<and> vl_next_lsn s = word_of_nat (length es)
     \<and> length (dm_storage_namespace_id (vl_manifest s)) = 16
     \<and> (\<exists>a base. vl_active s = Some a
        \<and> active_holds H hasher (vl_fs s) (dm_storage_namespace_id (vl_manifest s)) es a base
        \<and> tiles cs H hasher (vl_fs s) (dm_storage_namespace_id (vl_manifest s)) es 0 (dm_segments_v2 (vl_manifest s)) base
        \<and> distinct (map sd_segment_id (dm_segments_v2 (vl_manifest s)))
        \<and> (\<forall>d \<in> set (dm_segments_v2 (vl_manifest s)). sd_segment_id d < as_id a)
        \<and> (\<forall>sid. as_id a \<le> sid \<longrightarrow> map_of (vl_fs s) (raw_path sid) = None)
        \<and> (\<forall>sid. sid \<noteq> as_id a \<longrightarrow> map_of (vl_fs s) (active_path sid) = None))"

section \<open>Frame lemmas\<close>

lemma generation_holds_frame:
  assumes "generation_holds cs H hasher fs ns sid rs g"
    and "\<And>n. file_kind n \<noteq> 0x65 \<Longrightarrow> last n = 0x6C \<Longrightarrow> map_of fs n \<noteq> None \<Longrightarrow> map_of fs' n = map_of fs n"
  shows "generation_holds cs H hasher fs' ns sid rs g"
proof -
  obtain n init f content where "sealed_location (pg_location g) n"
    "map_of fs n = Some content" "segment_of cs H hasher (pg_layout g) init rs f content"
    "si_segment_id init = sid" "si_storage_namespace_id init = ns"
    using assms(1) unfolding generation_holds_def by blast
  moreover from this(1) have "file_kind n \<noteq> 0x65" "last n = 0x6C" by (auto simp: sealed_location_def)
  ultimately show ?thesis using assms(2) [of n] unfolding generation_holds_def by auto
qed

text \<open>Sealed files may be added, but none of them changes.\<close>

definition keeps_sealed :: "directory \<Rightarrow> directory \<Rightarrow> bool" where
  "keeps_sealed fs fs' \<longleftrightarrow> (\<forall>n. file_kind n \<noteq> 0x65 \<longrightarrow> last n = 0x6C \<longrightarrow> map_of fs n \<noteq> None \<longrightarrow> map_of fs' n = map_of fs n)"

lemma tiles_frame:
  assumes "tiles cs H hasher fs ns es a ds b" and "keeps_sealed fs fs'"
  shows "tiles cs H hasher fs' ns (es @ extra) a ds b"
  using assms(1)
proof (induction ds arbitrary: a)
  case (Cons d ds)
  then obtain c where d: "descriptor_holds cs H hasher fs ns es d a c" and r: "tiles cs H hasher fs ns es c ds b" by auto
  have "generation_holds cs H hasher fs' ns (sd_segment_id d) (lsn_slice es a c) g" if "g \<in> set (sd_generations d)" for g
    using d that assms(2) unfolding descriptor_holds_def keeps_sealed_def
    by (blast intro: generation_holds_frame)
  moreover have "lsn_slice (es @ extra) a c = lsn_slice es a c" using d by (simp add: descriptor_holds_def slice_append)
  ultimately have "descriptor_holds cs H hasher fs' ns (es @ extra) d a c"
    using d unfolding descriptor_holds_def by auto
  with Cons.IH [OF r] show ?case by auto
qed simp

lemma tiles_append:
  "tiles cs H hasher fs ns es a ds b \<Longrightarrow> descriptor_holds cs H hasher fs ns es d b c
    \<Longrightarrow> tiles cs H hasher fs ns es a (ds @ [d]) c"
  by (induction ds arbitrary: a) auto

lemma tiles_bounds: "tiles cs H hasher fs ns es a ds b \<Longrightarrow> a \<le> b \<and> (ds \<noteq> [] \<longrightarrow> b \<le> length es)"
  by (induction ds arbitrary: a) (auto simp: descriptor_holds_def, fastforce+)

end
