(* ===== verification/V6_Log_Correct.thy ===== *)
theory V6_Log_Correct
  imports V6_Log_Invariant
begin

text \<open>
  \<open>V6Log\<close> refines an append-only list: reading returns what was appended at each LSN, and appending,
  sealing and packing keep the layout invariant. The proofs compose the theorems of the RAW and PACKED
  segments, of the packer and of the catalogue.
\<close>

declare map_of_eq_Some_iff [simp del]

section \<open>Sizes\<close>

lemma raw_region_bound:
  "\<forall>r \<in> set rs. length (rr_payload r) + 54 \<le> HARD_MAX_BLOCK_BYTES \<Longrightarrow> length (raw_region rs) \<le> length rs * 2 ^ 27"
  by (induction rs) (auto simp: raw_bytes_def HARD_MAX_BLOCK_BYTES_def)

lemma slice_payloads:
  assumes "list_all entry_ok es" and "b \<le> length es"
  shows "\<forall>r \<in> set (lsn_slice es a b). length (rr_payload r) + 54 \<le> HARD_MAX_BLOCK_BYTES"
proof
  fix r assume "r \<in> set (lsn_slice es a b)"
  then obtain i where "i < b" "r = record_at es i" by (auto simp: lsn_slice_def)
  moreover from this have "entry_ok (es ! i)" using assms by (auto simp: list_all_length)
  ultimately show "length (rr_payload r) + 54 \<le> HARD_MAX_BLOCK_BYTES" by (simp add: record_at_def entry_ok_def)
qed

lemma session_small:
  assumes s: "raw_session H hasher init (lsn_slice es a (length es)) = Inr w" and ok: "init_ok init"
    and "list_all entry_ok es" and "length es < 2 ^ 32"
  shows "length (rw_file w) + 128 < usize_limit"
proof -
  have "length (lsn_slice es a (length es)) * 2 ^ 27 \<le> 2 ^ 32 * 2 ^ 27"
    using assms(4) by (intro mult_le_mono1) simp
  then have "length (raw_region (lsn_slice es a (length es))) \<le> 2 ^ 59"
    using order_trans [OF raw_region_bound [OF slice_payloads [OF assms(3) order_refl, of a]]] by simp
  then show ?thesis
    using session_file [OF s ok] length_header_encode [OF init_header_ok [OF ok]] by (simp add: usize_limit_def)
qed

section \<open>Reading\<close>

lemma tiles_find:
  assumes "tiles cs H hasher fs ns es a ds b" and "a \<le> unat k" and "unat k < b" and "b < 2 ^ 32"
  shows "\<exists>d c e. find_segment_for_lsn (m\<lparr>dm_segments_v2 := ds\<rparr>) k = Some d \<and> d \<in> set ds
    \<and> descriptor_holds cs H hasher fs ns es d c e \<and> c \<le> unat k \<and> unat k < e"
  using assms(1-3)
proof (induction ds arbitrary: a)
  case (Cons d ds)
  then obtain c where d: "descriptor_holds cs H hasher fs ns es d a c" and r: "tiles cs H hasher fs ns es c ds b" by auto
  have c: "a < c" "c \<le> b" using d tiles_bounds [OF r] by (simp_all add: descriptor_holds_def)
  have u: "unat (word_of_nat a :: u64) = a" "unat (word_of_nat (c - 1) :: u64) = c - 1"
    "unat (word_of_nat (c - a) :: u64) = c - a"
    by (rule unat_index; use c assms(4) in simp)+
  note f = d [unfolded descriptor_holds_def]
  show ?case
  proof (cases "unat k < c")
    case True
    then have "\<not> sd_last_lsn d < k" using f u by (simp add: word_less_nat_alt)
    moreover have "sd_first_lsn d \<le> k" "k \<le> sd_last_lsn d" "0 < sd_record_count d"
      using f u c True Cons.prems(2) by (auto simp: word_less_nat_alt word_le_nat_alt)
    ultimately have "find_segment_for_lsn (m\<lparr>dm_segments_v2 := d # ds\<rparr>) k = Some d"
      by (simp add: find_segment_for_lsn_def partition_point_def)
    then show ?thesis using d True Cons.prems(2) by (metis list.set_intros(1))
  next
    case False
    then have "sd_last_lsn d < k" using f u c by (auto simp: word_less_nat_alt)
    then have step: "find_segment_for_lsn (m\<lparr>dm_segments_v2 := d # ds\<rparr>) k = find_segment_for_lsn (m\<lparr>dm_segments_v2 := ds\<rparr>) k"
      by (simp add: find_segment_for_lsn_def partition_point_def)
    from Cons.IH [OF r] False Cons.prems(3) obtain d' c' e where "find_segment_for_lsn (m\<lparr>dm_segments_v2 := ds\<rparr>) k = Some d'"
      "d' \<in> set ds" "descriptor_holds cs H hasher fs ns es d' c' e" "c' \<le> unat k" "unat k < e" by auto
    then show ?thesis unfolding step by auto
  qed
qed simp

lemma read_holds:
  assumes g: "generation_holds cs H hasher fs ns sid (lsn_slice es a b) g" and cs: "codecs_lossless cs" and H: "digest32 H"
    and k: "a \<le> unat k" "unat k < b" and b: "b \<le> 2 ^ 64"
    and path: "resolve_location (pg_location g) = Inr path"
  shows "(case pg_layout g of
      Layout_Raw \<Rightarrow> bindE (read_location fs path) (\<lambda>content. find_in_raw content k)
    | Layout_Packed \<Rightarrow> bindE (read_location fs path) (\<lambda>content.
       bindE (open_packed content HARD_MAX_BLOCK_BYTES) (\<lambda>reader.
       bindE (fst (packed_get cs reader k default_counters)) (\<lambda>found. Inr (map_option snd found)))))
    = Inr (Some (snd (es ! unat k)))"
proof -
  obtain n init f content where n: "sealed_location (pg_location g) n" "map_of fs n = Some content"
    and seg: "segment_of cs H hasher (pg_layout g) init (lsn_slice es a b) f content"
    using g by (auto simp: generation_holds_def)
  have path: "path = pg_location g" using path n(1) by (simp add: sealed_location_def)
  have rd: "read_location fs path = Inr content"
    using n by (simp add: path read_sealed read_file_def)
  have fnd: "find (\<lambda>r. rr_lsn r = k) (lsn_slice es a b) = Some (record_at es (unat k))"
    using find_slice [OF b, of k es a] k by simp
  from seg show ?thesis
  proof cases
    case (raw_segment w)
    note scan = raw_segment_facts(1) [OF raw_segment(2,3) H raw_segment(4-6)]
    show ?thesis by (simp add: raw_segment(1) rd find_in_raw_def scan fnd record_at_def)
  next
    case (packed_segment opts w stats)
    obtain r where "open_packed content HARD_MAX_BLOCK_BYTES = Inr r \<and> pr_header r = packed_header init \<and> pr_footer r = f
        \<and> packed_reads cs r (lsn_slice es a b) \<and> (\<forall>(g :: unit \<Rightarrow> block_record \<Rightarrow> unit v6_result) c s.
        fst (for_each_record cs r g c s) = foldE g s (map block_record_of (lsn_slice es a b)))"
      using packed_segment_facts [OF packed_segment(2,3) H packed_segment(4-8) cs order_refl] by (rule exE)
    then have r: "open_packed content HARD_MAX_BLOCK_BYTES = Inr r" "packed_reads cs r (lsn_slice es a b)" by simp_all
    show ?thesis
      using r(2) by (simp add: packed_segment(1) rd r(1) packed_reads_def fnd record_at_def)
  qed
qed

text \<open>The first LSN of the active segment, and what its file scans to.\<close>

lemma active_facts:
  assumes a: "active_holds H hasher fs ns es a base" and "list_all entry_ok es" and "length es < 2 ^ 32"
  shows "fh_first_lsn (rw_header (as_writer a)) = word_of_nat base"
    and "read_file fs (as_path a) = Inr (rw_file (as_writer a))"
    and "\<exists>h. scan_raw_bytes (rw_file (as_writer a)) = Inr \<lparr>rs_header = h, rs_records = lsn_slice es base (length es),
      rs_footer = None, rs_torn_at = None\<rparr>"
    and "rw_record_count (as_writer a) = word_of_nat (length es - base)"
proof -
  obtain init where i: "init_ok init" "si_first_lsn init = word_of_nat base"
    "raw_session H hasher init (lsn_slice es base (length es)) = Inr (as_writer a)"
    using a by (auto simp: active_holds_def)
  have size: "length (rw_file (as_writer a)) < usize_limit"
    using session_small [OF i(3,1) assms(2,3)] by simp
  note w = session_writer(1) [OF i(3,1) size]
  show "fh_first_lsn (rw_header (as_writer a)) = word_of_nat base"
    using w i(2) by (simp add: writer_after_def)
  show "read_file fs (as_path a) = Inr (rw_file (as_writer a))"
    using a by (auto simp: active_holds_def read_file_def)
  show "\<exists>h. scan_raw_bytes (rw_file (as_writer a)) = Inr \<lparr>rs_header = h, rs_records = lsn_slice es base (length es),
      rs_footer = None, rs_torn_at = None\<rparr>"
    using resume_session(1) [OF i(3,1) size] by blast
  show "rw_record_count (as_writer a) = word_of_nat (length es - base)"
    using w by (simp add: writer_after_def)
qed

lemma read_payload_correct:
  assumes inv: "log_inv cs H hasher s es" and cs: "codecs_lossless cs" and H: "digest32 H"
  shows "read_payload cs s k = Inr (if unat k < length es then Some (snd (es ! unat k)) else None)"
proof -
  let ?ns = "dm_storage_namespace_id (vl_manifest s)"
  obtain a base where a: "vl_active s = Some a" "active_holds H hasher (vl_fs s) ?ns es a base"
    and t: "tiles cs H hasher (vl_fs s) ?ns es 0 (dm_segments_v2 (vl_manifest s)) base"
    and es: "length es < 2 ^ 32" "list_all entry_ok es" "vl_next_lsn s = word_of_nat (length es)"
    using inv by (auto simp: log_inv_def)
  note af = active_facts [OF a(2) es(2,1)]
  have base: "base \<le> length es" using a(2) by (simp add: active_holds_def)
  have u: "unat (word_of_nat (length es) :: u64) = length es" "unat (word_of_nat base :: u64) = base"
    using es(1) base by (simp_all add: unat_index)
  consider "length es \<le> unat k" | "base \<le> unat k" "unat k < length es" | "unat k < base" by linarith
  then show ?thesis
  proof cases
    case 1
    then show ?thesis using es(3) u by (simp add: read_payload_def read_source_of_def word_le_nat_alt)
  next
    case 2
    obtain h where scan: "scan_raw_bytes (rw_file (as_writer a)) = Inr \<lparr>rs_header = h,
        rs_records = lsn_slice es base (length es), rs_footer = None, rs_torn_at = None\<rparr>"
      using af(3) by blast
    have "read_source_of s k = Inr (Some (SourceActive (as_path a)))"
      using 2 es(3) u a(1) af(1) by (simp add: read_source_of_def word_le_nat_alt)
    then show ?thesis
      using 2 es(1) find_slice [of "length es" k es base]
      by (simp add: read_payload_def af(2) find_in_raw_def scan record_at_def)
  next
    case 3
    have "vl_manifest s = (vl_manifest s)\<lparr>dm_segments_v2 := dm_segments_v2 (vl_manifest s)\<rparr>" by simp
    with tiles_find [OF t _ 3, of "vl_manifest s"] base es(1) obtain d c e where
      d: "find_segment_for_lsn (vl_manifest s) k = Some d" "descriptor_holds cs H hasher (vl_fs s) ?ns es d c e"
      "c \<le> unat k" "unat k < e" by auto
    obtain g where g: "active_generation d = Some g" using d(2) by (auto simp: descriptor_holds_def)
    then have mem: "g \<in> set (sd_generations d)" using find_Some_mem unfolding active_generation_def by metis
    then have gh: "generation_holds cs H hasher (vl_fs s) ?ns (sd_segment_id d) (lsn_slice es c e) g"
      using d(2) by (simp add: descriptor_holds_def)
    then have res: "resolve_location (pg_location g) = Inr (pg_location g)"
      by (auto simp: generation_holds_def sealed_location_def)
    have e: "e \<le> 2 ^ 64" using d(2) es(1) by (simp add: descriptor_holds_def)
    have "read_source_of s k = Inr (Some (SourceSealed (pg_location g) (pg_layout g)))"
      using 3 base es(3) u a(1) af(1) by (simp add: read_source_of_def word_le_nat_alt d(1) g res)
    then show ?thesis
      using read_holds [OF gh cs H d(3,4) e res] 3 base
      by (cases "pg_layout g") (simp_all add: read_payload_def)
  qed
qed

section \<open>Appending\<close>

lemma keeps_sealed_active: "keeps_sealed fs (AList.update (active_path sid) c fs)"
  by (auto simp: keeps_sealed_def update_conv')

lemma append_active_holds:
  assumes inv: "log_inv cs H hasher s es" and hash: "hasher k hlc payload = Inr h" and k: "k = vl_next_lsn s"
    and ok: "append_active H k hlc payload h s = (Inr k', s')" and e: "entry_ok (hlc, payload)" and n: "length es + 1 < 2 ^ 32"
  shows "log_inv cs H hasher s' (es @ [(hlc, payload)]) \<and> k' = word_of_nat (length es)"
proof -
  let ?m = "vl_manifest s" and ?es = "es @ [(hlc, payload)]"
  let ?ns = "dm_storage_namespace_id ?m"
  obtain a base where a: "vl_active s = Some a" and ah: "active_holds H hasher (vl_fs s) ?ns es a base"
    and t: "tiles cs H hasher (vl_fs s) ?ns es 0 (dm_segments_v2 ?m) base"
    and ids: "distinct (map sd_segment_id (dm_segments_v2 ?m))" "\<forall>d \<in> set (dm_segments_v2 ?m). sd_segment_id d < as_id a"
    and free: "\<forall>sid. as_id a \<le> sid \<longrightarrow> map_of (vl_fs s) (raw_path sid) = None"
      "\<forall>sid. sid \<noteq> as_id a \<longrightarrow> map_of (vl_fs s) (active_path sid) = None"
    and es: "list_all entry_ok es" "vl_next_lsn s = word_of_nat (length es)" "length ?ns = 16"
    using inv by (auto simp: log_inv_def)
  obtain w where w: "raw_append H (as_writer a) k hlc payload h = Inr w" and k': "k' = k"
    and s': "s' = s\<lparr>vl_active := Some (a\<lparr>as_writer := w\<rparr>),
      vl_fs := AList.update (as_path a) (rw_file w) (vl_fs s), vl_next_lsn := saturating_add (vl_next_lsn s) 1\<rparr>"
    using ok a by (auto simp: append_active_def split: if_splits sum.splits)
  have path: "as_path a = active_path (as_id a)" and base: "base \<le> length es" using ah by (simp_all add: active_holds_def)
  obtain init where i: "init_ok init" "si_segment_id init = as_id a" "si_storage_namespace_id init = ?ns"
    "si_first_lsn init = word_of_nat base" "raw_session H hasher init (lsn_slice es base (length es)) = Inr (as_writer a)"
    using ah by (auto simp: active_holds_def)
  have "raw_append_record H hasher (as_writer a) \<lparr>rr_lsn = word_of_nat (length es), rr_hlc = hlc, rr_payload = payload\<rparr> = Inr w"
    using w hash by (simp add: raw_append_record_def k es(2))
  then have sess: "raw_session H hasher init (lsn_slice ?es base (length ?es)) = Inr w"
    unfolding slice_snoc [OF base] session_append i(5) by simp
  have "active_holds H hasher (vl_fs s') ?ns ?es (a\<lparr>as_writer := w\<rparr>) base"
    using ah i sess unfolding active_holds_def by (auto simp: s' update_conv')
  moreover have "tiles cs H hasher (vl_fs s') ?ns ?es 0 (dm_segments_v2 ?m) base"
    using tiles_frame [OF t keeps_sealed_active] by (simp add: s' path)
  moreover have "saturating_add (word_of_nat (length es)) 1 = word_of_nat (length ?es)"
    using n unat_index [of "length es"] by (simp add: saturating_add_def add.commute)
  ultimately show ?thesis
    unfolding log_inv_def using es e n ids free path
    by (auto simp: s' k' k update_conv')
qed

section \<open>Sealing\<close>

lemma create_active_holds:
  assumes c: "create_active fs sid first ns wall hlc mg = (Inr a, fs', hlc')" and "length ns = 16"
    and "first = word_of_nat (length es)" and "unat sid \<le> length es"
  shows "active_holds H hasher fs' ns es a (length es) \<and> as_id a = sid \<and> map_of fs (active_path sid) = None
    \<and> (\<forall>n. n \<noteq> active_path sid \<longrightarrow> map_of fs' n = map_of fs n)"
proof -
  have f: "map_of fs (active_path sid) = None"
    and a: "a = \<lparr>as_id = sid, as_path = active_path sid, as_writer = raw_create \<lparr>si_segment_id = sid,
      si_created_hlc = hlc_next wall hlc, si_first_lsn = first, si_writer_epoch = saturating_add mg 1,
      si_storage_namespace_id = ns\<rparr>\<rparr>"
    and fs': "fs' = AList.update (active_path sid) (rw_file (as_writer a)) fs"
    using c by (auto simp: create_active_def Let_def split: if_splits)
  have "raw_session H hasher i (lsn_slice es (length es) (length es)) = Inr (raw_create i)" for i
    by (simp add: raw_session_def lsn_slice_def)
  then show ?thesis
    using assms(2-4) f by (auto simp: active_holds_def a fs' update_conv' init_ok_def intro!: exI)
qed

lemma commit_Inr:
  assumes "commit H md m = (Inr l, m', md')"
  shows "m' = m\<lparr>dm_manifest_generation := next_generation md, dm_format_identifier := HRKM_MAGIC\<rparr>"
  using assms by (auto simp: commit_def Let_def split: if_splits sum.splits)

lemma tiles_first_lsn:
  assumes "tiles cs H hasher fs ns es a ds b" and "d \<in> set ds"
  shows "\<exists>c e. descriptor_holds cs H hasher fs ns es d c e \<and> e \<le> b"
  using assms
proof (induction ds arbitrary: a)
  case (Cons x ds)
  then obtain c where d: "descriptor_holds cs H hasher fs ns es x a c" and r: "tiles cs H hasher fs ns es c ds b" by auto
  show ?case
  proof (cases "d = x")
    case True
    then show ?thesis using d tiles_bounds [OF r] by blast
  qed (use Cons.IH [OF r] Cons.prems(2) in auto)
qed simp

lemma upsert_at_end:
  assumes t: "tiles cs H hasher fs ns es 0 (dm_segments_v2 m) base" and "base < 2 ^ 32"
    and new: "segment m (sd_segment_id d) = None" and f: "sd_first_lsn d = word_of_nat base"
  shows "dm_segments_v2 (upsert_segment d m) = dm_segments_v2 m @ [d]"
proof -
  have "sd_first_lsn x < sd_first_lsn d" if "x \<in> set (dm_segments_v2 m)" for x
  proof -
    obtain c e where x: "descriptor_holds cs H hasher fs ns es x c e" "e \<le> base" using tiles_first_lsn [OF t \<open>x \<in> _\<close>] by blast
    then have "c < base" "sd_first_lsn x = word_of_nat c" by (simp_all add: descriptor_holds_def)
    then show ?thesis using f assms(2) by (simp add: word_less_nat_alt unat_index)
  qed
  then have "partition_point (\<lambda>s. sd_first_lsn s < sd_first_lsn d) (dm_segments_v2 m) = length (dm_segments_v2 m)"
    by (simp add: partition_point_def takeWhile_eq_all_conv [THEN iffD2])
  moreover have "position (\<lambda>s. sd_segment_id s = sd_segment_id d) (dm_segments_v2 m) = None"
    using new by (simp add: segment_def find_None_iff position_None)
  ultimately show ?thesis by (simp add: upsert_segment_def Let_def)
qed

lemma register_new_Inr:
  assumes "register_sealed_raw m sid f codec loc sz digest now = (Inr u, m')" and "segment m sid = None"
  shows "m' = upsert_segment (registered_descriptor sid f codec loc sz digest now) m
    \<lparr>dm_cumulative_watermark := max (dm_cumulative_watermark m) (ft_max_lsn f)\<rparr>"
  using assms
  by (auto simp: register_sealed_raw_def Let_def registered_descriptor_def upsert_segment_def split: sum.splits if_splits)

lemma reconcile_new:
  assumes r: "reconcile_raw cs H hasher fs m sid path ns = (Inr b, m')" and new: "segment m sid = None"
    and content: "map_of fs path = Some content"
    and scan: "scan_raw_bytes content = Inr \<lparr>rs_header = h, rs_records = rs, rs_footer = Some f, rs_torn_at = None\<rparr>"
  shows "b = True" and "m' = upsert_segment (registered_descriptor sid f (ucast (fh_canonical_codec h)) (raw_location sid)
      (word_of_nat (length content)) (physical_digest H content) (ft_max_hlc f)) m
    \<lparr>dm_cumulative_watermark := max (dm_cumulative_watermark m) (ft_max_lsn f)\<rparr>"
  using r new
  by (auto simp: reconcile_raw_def Let_def read_file_def content scan bindE_eq_Inr
      split: sum.splits option.splits if_splits prod.splits dest!: register_new_Inr)

lemma registered_holds:
  assumes seg: "segment_of cs H hasher Layout_Raw init (lsn_slice es base (length es)) f sealed" and H: "digest32 H"
    and n: "map_of fs (raw_path sid) = Some sealed" and i: "si_segment_id init = sid" "si_storage_namespace_id init = ns"
    and len: "base < length es" "length es < 2 ^ 32"
  shows "descriptor_holds cs H hasher fs ns es (registered_descriptor sid f codec (raw_location sid) sz digest now) base (length es)"
proof -
  have ne: "lsn_slice es base (length es) \<noteq> []" using len by (auto simp: lsn_slice_def)
  have "hd (lsn_slice es base (length es)) = record_at es base"
    using len by (cases "[base..<length es] = []") (auto simp: lsn_slice_def hd_map)
  moreover have "last (lsn_slice es base (length es)) = record_at es (length es - 1)"
    using len by (cases "[base..<length es] = []") (auto simp: lsn_slice_def last_map)
  ultimately have "ft_min_lsn f = word_of_nat base" "ft_max_lsn f = word_of_nat (length es - 1)"
    "ft_record_count f = word_of_nat (length es - base)"
    using segment_seals [OF seg H] ne by (simp_all add: seals_def record_at_def)
  then show ?thesis
    using assms raw_location_sealed [of sid]
    by (auto simp: descriptor_holds_def registered_descriptor_def active_generation_def generation_holds_def)
qed

lemma seal_holds:
  assumes inv: "log_inv cs H hasher s es" and H: "digest32 H"
    and ok: "seal_active_locked cs H hasher wall s = (Inr u, s')"
  shows "log_inv cs H hasher s' es"
proof -
  let ?m = "vl_manifest s"
  let ?ns = "dm_storage_namespace_id ?m"
  obtain a base where a: "vl_active s = Some a" and ah: "active_holds H hasher (vl_fs s) ?ns es a base"
    and t: "tiles cs H hasher (vl_fs s) ?ns es 0 (dm_segments_v2 ?m) base"
    and ids: "distinct (map sd_segment_id (dm_segments_v2 ?m))" "\<forall>d \<in> set (dm_segments_v2 ?m). sd_segment_id d < as_id a"
    and free: "\<forall>sid. as_id a \<le> sid \<longrightarrow> map_of (vl_fs s) (raw_path sid) = None"
      "\<forall>sid. sid \<noteq> as_id a \<longrightarrow> map_of (vl_fs s) (active_path sid) = None"
    and es: "length es < 2 ^ 32" "list_all entry_ok es" "vl_next_lsn s = word_of_nat (length es)" "length ?ns = 16"
    using inv by (auto simp: log_inv_def)
  have path: "as_path a = active_path (as_id a)" and base: "base \<le> length es" and idb: "unat (as_id a) \<le> base"
    and cur: "map_of (vl_fs s) (active_path (as_id a)) = Some (rw_file (as_writer a))"
    using ah by (auto simp: active_holds_def)
  have cnt: "rw_record_count (as_writer a) = 0 \<longleftrightarrow> base = length es"
    using active_facts(4) [OF ah es(2,1)] count_zero [of "length es - base"] es(1) base by auto
  show ?thesis
  proof (cases "rw_record_count (as_writer a) = 0")
    case True
    let ?fs = "AList.delete (as_path a) (vl_fs s)"
    obtain a' fs' hlc' where c: "create_active ?fs (as_id a) (vl_next_lsn s) ?ns wall (vl_hlc s) (dm_manifest_generation ?m)
        = (Inr a', fs', hlc')"
      and s': "s' = s\<lparr>vl_fs := fs', vl_hlc := hlc', vl_active := Some a'\<rparr>"
      using ok a True cur path by (auto simp: seal_active_locked_def Let_def split: sum.splits prod.splits)
    have lb: "base = length es" using True cnt by simp
    note ch = create_active_holds [OF c es(4,3)] 
    have "unat (as_id a) \<le> length es" using idb lb by simp
    note ch = ch [OF this]
    have same: "map_of fs' n = map_of (vl_fs s) n" if "n \<noteq> active_path (as_id a)" for n
      using ch that by (simp add: path delete_conv')
    then have "map_of fs' n = map_of (vl_fs s) n" if "file_kind n \<noteq> 0x65" for n
      using that by (metis file_kinds(1))
    then have "keeps_sealed (vl_fs s) fs'" by (simp add: keeps_sealed_def)
    then have "tiles cs H hasher fs' ?ns es 0 (dm_segments_v2 ?m) (length es)"
      using tiles_frame [OF t, of fs' "[]"] lb by simp
    then show ?thesis
      unfolding log_inv_def using ch ids free es same by (auto simp: s' intro!: exI [of _ a'] exI [of _ "length es"])
  next
    case False
    then have lt: "base < length es" using cnt base by simp
    obtain init where i: "init_ok init" "si_segment_id init = as_id a" "si_storage_namespace_id init = ?ns"
      "raw_session H hasher init (lsn_slice es base (length es)) = Inr (as_writer a)"
      using ah by (auto simp: active_holds_def)
    obtain f sealed where fs: "raw_seal H (as_writer a) = (f, sealed)" by (cases "raw_seal H (as_writer a)")
    have small: "length (rw_file (as_writer a)) + 128 < usize_limit" by (rule session_small [OF i(4,1) es(2,1)])
    have inc: "increasing_raw (lsn_slice es base (length es))" using es(1) by (intro slice_increasing) simp
    have "footer_ok f"
      using sealed_footer(1) [OF i(4,1) H inc, of f] small fs by simp
    then have "length sealed < usize_limit"
      using small fs length_footer_encode [of f] by (auto simp: raw_seal_def Let_def)
    note seg = segment_of.raw_segment [OF i(4,1) inc fs this, of cs]
    note scan = raw_segment_facts(1) [OF i(4,1) H inc fs \<open>length sealed < usize_limit\<close>]
    let ?raw = "raw_path (as_id a)"
    let ?fs2 = "AList.update ?raw sealed (AList.delete (as_path a) (AList.update (as_path a) sealed (vl_fs s)))"
    have m2: "map_of ?fs2 n = (if n = ?raw then Some sealed else if n = active_path (as_id a) then None else map_of (vl_fs s) n)" for n
      by (simp add: update_conv' delete_conv' path)
    obtain m m' md l a' fs' hlc' where rec: "reconcile_raw cs H hasher ?fs2 ?m (as_id a) ?raw ?ns = (Inr True, m)"
      and com: "commit H (vl_md s) m = (Inr l, m', md)"
      and c: "create_active ?fs2 (saturating_add (as_id a) 1) (vl_next_lsn s) (dm_storage_namespace_id m') wall (vl_hlc s)
        (dm_manifest_generation m') = (Inr a', fs', hlc')"
      and s': "s' = s\<lparr>vl_manifest := m', vl_md := md, vl_fs := fs', vl_hlc := hlc', vl_active := Some a'\<rparr>"
      using ok a False free(1) path fs
      by (auto simp: seal_active_locked_def Let_def update_conv' delete_conv' split: sum.splits prod.splits if_splits)
    have new: "segment ?m (as_id a) = None" using ids(2) by (auto simp: segment_def find_None_iff)
    obtain desc where d: "desc = registered_descriptor (as_id a) f (ucast (fh_canonical_codec (init_header init))) (raw_location (as_id a))
        (word_of_nat (length sealed)) (physical_digest H sealed) (ft_max_hlc f)" by blast
    have m: "m = upsert_segment desc ?m\<lparr>dm_cumulative_watermark := max (dm_cumulative_watermark ?m) (ft_max_lsn f)\<rparr>"
      using reconcile_new(2) [OF rec new _ scan] m2 d by simp
    have dh: "descriptor_holds cs H hasher ?fs2 ?ns es desc base (length es)"
      unfolding d by (rule registered_holds [OF seg H _ i(2,3) lt es(1)]) (simp add: m2)
    have did: "sd_segment_id desc = as_id a" "sd_first_lsn desc = word_of_nat base"
      using dh by (simp_all add: d registered_descriptor_def descriptor_holds_def)
    have segs: "dm_segments_v2 m' = dm_segments_v2 ?m @ [desc]" "dm_storage_namespace_id m' = ?ns"
      using upsert_at_end [OF t _ _ did(2)] new did(1) lt es(1) commit_Inr [OF com] m
      by (simp_all add: upsert_segment_def)
    have up: "unat (saturating_add (as_id a) 1) = unat (as_id a) + 1"
      using idb lt es(1) by (simp add: unat_saturating_add)
    note ch = create_active_holds [OF c [unfolded segs(2)] es(4,3)]
    have "unat (saturating_add (as_id a) 1) \<le> length es" using up idb lt by simp
    note ch = ch [OF this]
    have same: "map_of fs' n = map_of ?fs2 n" if "n \<noteq> active_path (saturating_add (as_id a) 1)" for n
      using ch that by simp
    have keep2: "keeps_sealed (vl_fs s) ?fs2" using free(1) by (auto simp: keeps_sealed_def m2)
    have "map_of fs' n = map_of ?fs2 n" if "file_kind n \<noteq> 0x65" for n
      using same [of n] that by (metis file_kinds(1))
    then have keep: "keeps_sealed ?fs2 fs'" by (simp add: keeps_sealed_def)
    have "tiles cs H hasher ?fs2 ?ns es 0 (dm_segments_v2 m') (length es)"
      unfolding segs using tiles_frame [OF t keep2, of "[]"] dh by (intro tiles_append) simp_all
    then have tl: "tiles cs H hasher fs' ?ns es 0 (dm_segments_v2 m') (length es)"
      using tiles_frame [OF _ keep, of cs H hasher ?ns es 0 "dm_segments_v2 m'" "length es" "[]"] by simp
    have less: "as_id a < saturating_add (as_id a) 1" using up by (simp add: word_less_nat_alt)
    then have lid: "sid \<noteq> as_id a" if "saturating_add (as_id a) 1 \<le> sid" for sid using that by auto
    have lid2: "as_id a \<le> sid" if "saturating_add (as_id a) 1 \<le> sid" for sid using that less by simp
    show ?thesis
      unfolding log_inv_def
    proof (intro conjI exI [of _ a'] exI [of _ "length es"])
      show "distinct (map sd_segment_id (dm_segments_v2 (vl_manifest s')))"
        using ids did(1) by (auto simp: s' segs)
      show "\<forall>d \<in> set (dm_segments_v2 (vl_manifest s')). sd_segment_id d < as_id a'"
        using ids(2) did(1) less ch by (auto simp: s' segs intro: less_trans)
      show "\<forall>sid. as_id a' \<le> sid \<longrightarrow> map_of (vl_fs s') (raw_path sid) = None"
        using ch free(1) lid lid2 by (auto simp: s' same m2)
      show "\<forall>sid. sid \<noteq> as_id a' \<longrightarrow> map_of (vl_fs s') (active_path sid) = None"
        using ch free(2) by (auto simp: s' same m2)
    qed (use es ch tl segs in \<open>simp_all add: s'\<close>)
  qed
qed

end
