(* ===== verification/V6_Log_Run.thy ===== *)
theory V6_Log_Run
  imports V6_Log_Correct
begin

text \<open>
  Packing keeps the layout invariant, a directory opened empty has it, and a run of the log is any
  sequence of operations, those that fail included.
\<close>

section \<open>Packing\<close>

lemma tiles_modify:
  assumes "tiles cs H hasher fs ns es a ds b"
    and "\<And>d a c. d \<in> set ds \<Longrightarrow> p d \<Longrightarrow> descriptor_holds cs H hasher fs ns es d a c
      \<Longrightarrow> descriptor_holds cs H hasher fs ns es (f d) a c"
  shows "tiles cs H hasher fs ns es a (modify_first p f ds) b"
  using assms
proof (induction ds arbitrary: a)
  case (Cons d ds)
  then show ?case by (cases "p d") (auto, blast+)
qed simp

lemma ids_modify:
  assumes "\<And>d. d \<in> set ds \<Longrightarrow> p d \<Longrightarrow> k (f d) = k d"
  shows "map k (modify_first p f ds) = map k ds"
  using assms by (induction ds) auto

lemma generation_holds_cong:
  assumes "generation_holds cs H hasher fs ns sid rs g" and "pg_location g' = pg_location g" and "pg_layout g' = pg_layout g"
  shows "generation_holds cs H hasher fs ns sid rs g'"
  using assms by (simp add: generation_holds_def)

lemma descriptor_position:
  assumes "descriptor_holds cs H hasher fs ns es d a b" and "descriptor_holds cs H hasher fs' ns es d a' b'"
    and "length es < 2 ^ 32"
  shows "a' = a" and "b' = b"
proof -
  have bounds: "a < b" "b \<le> length es" "a' < b'" "b' \<le> length es" using assms(1,2) by (simp_all add: descriptor_holds_def)
  then have u: "unat (word_of_nat a :: u64) = a" "unat (word_of_nat a' :: u64) = a'"
    "unat (word_of_nat (b - 1) :: u64) = b - 1" "unat (word_of_nat (b' - 1) :: u64) = b' - 1"
    using assms(3) by (intro unat_index; simp)+
  have "(word_of_nat a :: u64) = word_of_nat a'" "(word_of_nat (b - 1) :: u64) = word_of_nat (b' - 1)"
    using assms(1,2) by (simp_all add: descriptor_holds_def)
  with u have "a = a'" "b - 1 = b' - 1" by metis+
  with bounds show "a' = a" "b' = b" by simp_all
qed

text \<open>The new generation of a packed descriptor, and those it had.\<close>

lemma packed_descriptor_holds:
  assumes d: "descriptor_holds cs H hasher fs ns es d a b"
    and new: "generation_holds cs H hasher fs ns (sd_segment_id d) (lsn_slice es a b) (packed_generation r loc now)"
  shows "descriptor_holds cs H hasher fs ns es (packed_descriptor r loc now d) a b"
proof -
  let ?d = "packed_descriptor r loc now d" and ?P = "generation_holds cs H hasher fs ns (sd_segment_id d) (lsn_slice es a b)"
  let ?f = "\<lambda>src. if pg_state src \<noteq> Quarantined then src\<lparr>pg_state := Superseded, pg_superseded_hlc := now\<rparr> else src"
    and ?gs = "sd_generations d @ [packed_generation r loc now]"
  have ge: "sd_generations ?d = modify_first (\<lambda>g. pg_generation g = pr_source_generation r) ?f ?gs"
    by (simp add: packed_descriptor_def modify_generation_def)
  have "list_all ?P (sd_generations ?d)"
    unfolding ge using d new
    by (intro set_modify_generation) (auto simp: descriptor_holds_def list_all_iff generation_holds_def)
  moreover have "map pg_generation (sd_generations ?d) = map pg_generation ?gs"
    unfolding ge by (rule map_modify_first) simp
  then have "pr_target_generation r \<in> pg_generation ` set (sd_generations ?d)"
    by (metis (no_types, lifting) list.set_map list.set_intros(1) map_append packed_generation_def
        physical_generation.select_convs(1) list.simps(9) Un_iff set_append)
  then have "active_generation ?d \<noteq> None"
    by (simp add: active_None packed_descriptor_def modify_generation_def)
  ultimately show ?thesis
    using d by (simp add: descriptor_holds_def packed_descriptor_def modify_generation_def list_all_iff)
qed

text \<open>What the packer publishes, when its source is a RAW generation that holds.\<close>

lemma packed_target_holds:
  assumes p: "pack_segment cs H hasher junk fs n target opts sg tg = (Inr out, fs')" and n: "n \<noteq> temp_path target"
    and src: "map_of fs n = Some src" "segment_of cs H hasher Layout_Raw init rs f src" and H: "digest32 H"
    and pay: "\<forall>r \<in> set rs. length (rr_payload r) + 54 \<le> HARD_MAX_BLOCK_BYTES" and len: "length rs \<le> 2 ^ 24"
  shows "\<exists>content. only_added target content fs fs'
      \<and> segment_of cs H hasher Layout_Packed init rs (out_footer out) content
      \<and> pr_segment_id (out_receipt out) = si_segment_id init \<and> pr_target_generation (out_receipt out) = tg"
proof -
  from src(2) have inc: "increasing_raw rs" and scan: "scan_raw_bytes src
      = Inr \<lparr>rs_header = init_header init, rs_records = rs, rs_footer = Some f, rs_torn_at = None\<rparr>"
    by (cases; use raw_segment_facts(1) H in blast)+
  from p n show ?thesis
  proof (cases rule: pack_segment_cases)
    case (packed out' content sc f' stats acc)
    have sc: "sc = \<lparr>rs_header = init_header init, rs_records = rs, rs_footer = Some f, rs_torn_at = None\<rparr>"
      using packed(4) src(1) by (simp add: packable_Inr scan)
    then have "write_packed cs H hasher init opts rs = Inr (out_footer out, stats, content)"
      using packed(1,5) by simp
    note seg = write_packed_segment [OF this segment_init_ok [OF src(2)] H inc pay len]
    show ?thesis using packed(1,2,9) seg by (auto simp: sc receipt_for_def init_header_def raw_create_def Let_def)
  qed auto
qed

lemma pack_one_Inr:
  assumes "pack_one cs H hasher junk wall profile s sid = (Inr out, s')"
  obtains desc g n tg fs' m md l where "segment (vl_manifest s) sid = Some desc" and "g \<in> set (sd_generations desc)"
    and "pg_layout g = Layout_Raw" and "strip_prefix (ascii ''segments/'') (pg_location g) = Some n"
    and "pack_segment cs H hasher junk (vl_fs s) n (packed_path sid tg) (default_pack_options\<lparr>po_profile := profile\<rparr>)
      (pg_generation g) tg = (Inr out, fs')"
    and "record_pack (vl_manifest s) (out_receipt out) (packed_location sid tg) (hlc_next wall (vl_hlc s)) = (Inr (), m)"
    and "commit H (vl_md s) m = (Inr l, vl_manifest s', md)"
    and "s' = s\<lparr>vl_fs := fs', vl_hlc := hlc_next wall (vl_hlc s), vl_manifest := vl_manifest s', vl_md := md\<rparr>"
proof -
  obtain desc where d: "segment (vl_manifest s) sid = Some desc"
    using assms by (auto simp: pack_one_def Let_def split: option.splits)
  obtain g where g: "find (\<lambda>g. pg_layout g = Layout_Raw) (sd_generations desc) = Some g"
    using assms d by (auto simp: pack_one_def Let_def split: option.splits)
  obtain n tg where n: "resolve_location (pg_location g) = Inr (pg_location g)" "next_physical_generation (vl_fs s) desc = Inr tg"
    "strip_prefix (ascii ''segments/'') (pg_location g) = Some n"
    using assms d g by (auto simp: pack_one_def Let_def bindE_def resolve_location_def split: option.splits sum.splits if_splits)
  obtain res fs' where p: "pack_segment cs H hasher junk (vl_fs s) n (packed_path sid tg)
      (default_pack_options\<lparr>po_profile := profile\<rparr>) (pg_generation g) tg = (res, fs')" by fastforce
  obtain r' m where r: "record_pack (vl_manifest s) (out_receipt out) (packed_location sid tg) (hlc_next wall (vl_hlc s)) = (r', m)"
    by fastforce
  obtain c m' md where c: "commit H (vl_md s) m = (c, m', md)" by (metis surj_pair)
  have "res = Inr out \<and> r' = Inr () \<and> (\<exists>l. c = Inr l)
    \<and> s' = s\<lparr>vl_fs := fs', vl_hlc := hlc_next wall (vl_hlc s), vl_manifest := m', vl_md := md\<rparr>"
    using assms r c by (auto simp: pack_one_def Let_def d g n p split: sum.splits prod.splits)
  then show thesis using that [of desc g n tg fs' m _ md] d g n p r c find_Some_mem [OF g] by auto
qed

lemma pack_one_holds:
  assumes inv: "log_inv cs H hasher s es" and H: "digest32 H"
    and small: "\<forall>d \<in> set (dm_segments_v2 (vl_manifest s)). sd_record_count d \<le> 2 ^ 24"
    and ok: "pack_one cs H hasher junk wall profile s sid = (Inr out, s')"
  shows "log_inv cs H hasher s' es \<and> (\<forall>d \<in> set (dm_segments_v2 (vl_manifest s')). sd_record_count d \<le> 2 ^ 24)"
proof -
  let ?m = "vl_manifest s"
  let ?ns = "dm_storage_namespace_id ?m"
  obtain a base where a: "vl_active s = Some a" and ah: "active_holds H hasher (vl_fs s) ?ns es a base"
    and t: "tiles cs H hasher (vl_fs s) ?ns es 0 (dm_segments_v2 ?m) base"
    and ids: "distinct (map sd_segment_id (dm_segments_v2 ?m))" "\<forall>d \<in> set (dm_segments_v2 ?m). sd_segment_id d < as_id a"
    and free: "\<forall>sid. as_id a \<le> sid \<longrightarrow> map_of (vl_fs s) (raw_path sid) = None"
      "\<forall>sid. sid \<noteq> as_id a \<longrightarrow> map_of (vl_fs s) (active_path sid) = None"
    and es: "length es < 2 ^ 32" "list_all entry_ok es" "vl_next_lsn s = word_of_nat (length es)" "length ?ns = 16"
    using inv by (auto simp: log_inv_def)
  obtain desc g n tg fs' m md l where sg: "segment ?m sid = Some desc" "g \<in> set (sd_generations desc)" "pg_layout g = Layout_Raw"
    and n: "strip_prefix (ascii ''segments/'') (pg_location g) = Some n"
    and p: "pack_segment cs H hasher junk (vl_fs s) n (packed_path sid tg) (default_pack_options\<lparr>po_profile := profile\<rparr>)
      (pg_generation g) tg = (Inr out, fs')"
    and rp: "record_pack ?m (out_receipt out) (packed_location sid tg) (hlc_next wall (vl_hlc s)) = (Inr (), m)"
    and com: "commit H (vl_md s) m = (Inr l, vl_manifest s', md)"
    and s': "s' = s\<lparr>vl_fs := fs', vl_hlc := hlc_next wall (vl_hlc s), vl_manifest := vl_manifest s', vl_md := md\<rparr>"
    using ok by (rule pack_one_Inr)
  let ?r = "out_receipt out" and ?loc = "packed_location sid tg" and ?now = "hlc_next wall (vl_hlc s)"
  have mem: "desc \<in> set (dm_segments_v2 ?m)" and sid: "sd_segment_id desc = sid" using segment_Some [OF sg(1)] by simp_all
  obtain c e where dh: "descriptor_holds cs H hasher (vl_fs s) ?ns es desc c e" using tiles_first_lsn [OF t mem] by blast
  then obtain n' init f src where g: "sealed_location (pg_location g) n'" "map_of (vl_fs s) n' = Some src"
    "segment_of cs H hasher Layout_Raw init (lsn_slice es c e) f src" "si_segment_id init = sid" "si_storage_namespace_id init = ?ns"
    using sg(2,3) sid unfolding descriptor_holds_def generation_holds_def by metis
  have nn: "n' = n" using g(1) n by (simp add: sealed_location_def)
  have ce: "e \<le> length es" "e - c \<le> 2 ^ 24"
  proof -
    show "e \<le> length es" using dh by (simp add: descriptor_holds_def)
    then have "unat (word_of_nat (e - c) :: u64) = e - c" using es(1) by (intro unat_index) simp
    then show "e - c \<le> 2 ^ 24" using small mem dh by (auto simp: descriptor_holds_def word_le_nat_alt)
  qed
  obtain content where add: "only_added (packed_path sid tg) content (vl_fs s) fs'"
    and seg: "segment_of cs H hasher Layout_Packed init (lsn_slice es c e) (out_footer out) content"
    and rid: "pr_segment_id ?r = sid" "pr_target_generation ?r = tg"
    using packed_target_holds [OF p _ _ g(3) H slice_payloads [OF es(2) ce(1)]] sealed_not_active [OF g(1)] g(2,4) nn ce(2)
    by auto
  have same: "map_of fs' x = map_of (vl_fs s) x" if "x \<noteq> packed_path sid tg" "x \<noteq> temp_path (packed_path sid tg)" for x
    using add that by (simp add: only_added_def untouched_def)
  have keep: "keeps_sealed (vl_fs s) fs'"
    unfolding keeps_sealed_def
  proof (intro allI impI)
    fix x assume "last x = (0x6C :: u8)" "map_of (vl_fs s) x \<noteq> None"
    then have "x \<noteq> temp_path (packed_path sid tg)" "x \<noteq> packed_path sid tg"
      using add by (auto simp: only_added_def)
    then show "map_of fs' x = map_of (vl_fs s) x" by (intro same)
  qed
  let ?d = "packed_descriptor ?r ?loc ?now desc"
  have m: "m = write_segment sid ?d ?m"
    using rp record_pack_Some [of ?m ?r desc ?loc ?now] sg(1) rid by (auto split: if_splits)
  have t': "tiles cs H hasher fs' ?ns es 0 (dm_segments_v2 ?m) base" using tiles_frame [OF t keep, of "[]"] by simp
  have only: "d = desc" if "d \<in> set (dm_segments_v2 ?m)" "sd_segment_id d = sid" for d
    using ids(1) mem sid that by (auto simp: distinct_map inj_on_def)
  have "generation_holds cs H hasher fs' ?ns (sd_segment_id desc) (lsn_slice es c e) (packed_generation ?r ?loc ?now)"
    using add seg g(4,5) packed_location_sealed [of sid tg] sid
    by (auto simp: generation_holds_def packed_generation_def only_added_def)
  note gh = this
  have new: "generation_holds cs H hasher fs' ?ns (sd_segment_id desc) (lsn_slice es x y) (packed_generation ?r ?loc ?now)"
    if "descriptor_holds cs H hasher fs' ?ns es desc x y" for x y
    using descriptor_position [OF dh that es(1)] gh by simp
  have segs: "dm_segments_v2 (vl_manifest s') = modify_first (\<lambda>s. sd_segment_id s = sid) (\<lambda>_. ?d) (dm_segments_v2 ?m)"
    "dm_storage_namespace_id (vl_manifest s') = ?ns"
    using commit_Inr [OF com] by (simp_all add: m write_segment_def)
  have fields: "sd_segment_id ?d = sid" "sd_record_count ?d = sd_record_count desc"
    using sid by (simp_all add: packed_descriptor_def modify_generation_def)
  have tl: "tiles cs H hasher fs' ?ns es 0 (dm_segments_v2 (vl_manifest s')) base"
    unfolding segs by (rule tiles_modify [OF t']) (use only new in \<open>auto intro: packed_descriptor_holds\<close>)
  have idm: "map sd_segment_id (dm_segments_v2 (vl_manifest s')) = map sd_segment_id (dm_segments_v2 ?m)"
    "map sd_record_count (dm_segments_v2 (vl_manifest s')) = map sd_record_count (dm_segments_v2 ?m)"
    unfolding segs by (rule ids_modify; use only fields in force)+
  have "\<forall>x \<in> set (map sd_segment_id (dm_segments_v2 (vl_manifest s'))). x < as_id a"
    "\<forall>x \<in> set (map sd_record_count (dm_segments_v2 (vl_manifest s'))). x \<le> 2 ^ 24"
    unfolding idm using ids(2) small by simp_all
  then have "\<forall>d \<in> set (dm_segments_v2 (vl_manifest s')). sd_segment_id d < as_id a"
    "\<forall>d \<in> set (dm_segments_v2 (vl_manifest s')). sd_record_count d \<le> 2 ^ 24"
    by simp_all
  moreover have "active_holds H hasher fs' ?ns es a base"
    using ah same [of "as_path a"] by (auto simp: active_holds_def)
  moreover have "map_of fs' (raw_path x) = map_of (vl_fs s) (raw_path x)"
    "map_of fs' (active_path x) = map_of (vl_fs s) (active_path x)" for x
    by (rule same; simp)+
  moreover have "vl_fs s' = fs'" "vl_active s' = Some a" "vl_next_lsn s' = word_of_nat (length es)"
    using arg_cong [OF s', of vl_fs] arg_cong [OF s', of vl_active] arg_cong [OF s', of vl_next_lsn] a es(3) by simp_all
  ultimately show ?thesis
    unfolding log_inv_def using es a tl idm(1) ids(1) free segs(2)
    by (intro conjI exI [of _ a] exI [of _ base]; simp)
qed

text \<open>A call that fails only adds files: the catalogue in memory is put back.\<close>

lemma log_inv_frame:
  assumes inv: "log_inv cs H hasher s es" and keep: "keeps_sealed (vl_fs s) fs'"
    and same: "\<And>x. map_of fs' (raw_path x) = map_of (vl_fs s) (raw_path x)"
      "\<And>x. map_of fs' (active_path x) = map_of (vl_fs s) (active_path x)"
    and s': "vl_fs s' = fs'" "vl_manifest s' = vl_manifest s" "vl_active s' = vl_active s" "vl_next_lsn s' = vl_next_lsn s"
  shows "log_inv cs H hasher s' es"
proof -
  let ?ns = "dm_storage_namespace_id (vl_manifest s)" and ?ds = "dm_segments_v2 (vl_manifest s)"
  obtain a base where a: "vl_active s = Some a" "active_holds H hasher (vl_fs s) ?ns es a base"
    "tiles cs H hasher (vl_fs s) ?ns es 0 ?ds base"
    "distinct (map sd_segment_id ?ds)" "\<forall>d \<in> set ?ds. sd_segment_id d < as_id a"
    "\<forall>sid. as_id a \<le> sid \<longrightarrow> map_of (vl_fs s) (raw_path sid) = None"
    "\<forall>sid. sid \<noteq> as_id a \<longrightarrow> map_of (vl_fs s) (active_path sid) = None"
    using inv by (auto simp: log_inv_def)
  have "active_holds H hasher fs' ?ns es a base" using a(2) same(2) by (auto simp: active_holds_def)
  moreover have "tiles cs H hasher fs' ?ns es 0 ?ds base" using tiles_frame [OF a(3) keep, of "[]"] by simp
  ultimately show ?thesis
    using inv a same unfolding log_inv_def s' by (intro conjI exI [of _ a] exI [of _ base]; simp)
qed

lemma pack_segment_frame:
  assumes p: "pack_segment cs H hasher junk fs n (packed_path sid tg) opts sg tg' = (res, fs')"
    and n: "n \<noteq> temp_path (packed_path sid tg)"
  shows "keeps_sealed fs fs'" and "map_of fs' (raw_path x) = map_of fs (raw_path x)"
    and "map_of fs' (active_path y) = map_of fs (active_path y)"
proof -
  have f: "untouched (packed_path sid tg) fs fs' \<and> (map_of fs (packed_path sid tg) \<noteq> None
      \<longrightarrow> map_of fs' (packed_path sid tg) = map_of fs (packed_path sid tg))"
    using p n by (cases rule: pack_segment_cases) (auto simp: only_added_def)
  show "keeps_sealed fs fs'"
    unfolding keeps_sealed_def
  proof (intro allI impI)
    fix x assume "last x = (0x6C :: u8)" "map_of fs x \<noteq> None"
    moreover from this have "x \<noteq> temp_path (packed_path sid tg)" by auto
    ultimately show "map_of fs' x = map_of fs x" using f by (cases "x = packed_path sid tg") (auto simp: untouched_def)
  qed
  show "map_of fs' (raw_path x) = map_of fs (raw_path x)" "map_of fs' (active_path y) = map_of fs (active_path y)"
    using f by (auto simp: untouched_def)
qed

lemma pack_one_Inl:
  assumes inv: "log_inv cs H hasher s es" and ok: "pack_one cs H hasher junk wall profile s sid = (Inl e, s')"
  shows "log_inv cs H hasher s' es \<and> vl_manifest s' = vl_manifest s"
proof -
  have refl: "log_inv cs H hasher s es \<and> vl_manifest s = vl_manifest s" using inv by simp
  consider "s' = s" | desc g n tg res fs' where "segment (vl_manifest s) sid = Some desc" and "g \<in> set (sd_generations desc)"
      and "strip_prefix (ascii ''segments/'') (pg_location g) = Some n"
      and "pack_segment cs H hasher junk (vl_fs s) n (packed_path sid tg) (default_pack_options\<lparr>po_profile := profile\<rparr>)
        (pg_generation g) tg = (res, fs')"
      and "vl_fs s' = fs' \<and> vl_manifest s' = vl_manifest s \<and> vl_active s' = vl_active s \<and> vl_next_lsn s' = vl_next_lsn s"
  proof (cases "segment (vl_manifest s) sid")
    case (Some desc)
    show ?thesis
    proof (cases "find (\<lambda>g. pg_layout g = Layout_Raw) (sd_generations desc)")
      case g: (Some g)
      show ?thesis
      proof (cases "bindE (resolve_location (pg_location g)) (\<lambda>path. bindE (next_physical_generation (vl_fs s) desc) (\<lambda>tg.
          case strip_prefix (ascii ''segments/'') path of None \<Rightarrow> Inl (StorageIo ''No such file or directory'')
          | Some n \<Rightarrow> Inr (n, tg)))")
        case (Inr p)
        obtain n tg where p: "p = (n, tg)" by (cases p)
        obtain res fs' where q: "pack_segment cs H hasher junk (vl_fs s) n (packed_path sid tg)
          (default_pack_options\<lparr>po_profile := profile\<rparr>) (pg_generation g) tg = (res, fs')" by fastforce
        have "strip_prefix (ascii ''segments/'') (pg_location g) = Some n"
          using Inr p by (auto simp: bindE_eq_Inr resolve_location_def split: if_splits option.splits)
        moreover have "vl_fs s' = fs' \<and> vl_manifest s' = vl_manifest s \<and> vl_active s' = vl_active s \<and> vl_next_lsn s' = vl_next_lsn s"
          using ok Some g Inr p q by (auto simp: pack_one_def Let_def split: sum.splits prod.splits)
        ultimately show ?thesis using that(2) Some find_Some_mem [OF g] q by blast
      qed (use ok Some g that(1) in \<open>simp add: pack_one_def Let_def\<close>)
    qed (use ok Some that(1) in \<open>simp add: pack_one_def Let_def\<close>)
  qed (use ok that(1) in \<open>simp add: pack_one_def Let_def\<close>)
  then show ?thesis
  proof cases
    case (2 desc g n tg res fs')
    have "n \<noteq> temp_path (packed_path sid tg)"
    proof -
      obtain c d where "descriptor_holds cs H hasher (vl_fs s) (dm_storage_namespace_id (vl_manifest s)) es desc c d"
        using inv segment_Some [OF 2(1)] tiles_first_lsn unfolding log_inv_def by metis
      then obtain n' where "sealed_location (pg_location g) n'" using 2(2) by (auto simp: descriptor_holds_def generation_holds_def)
      then show ?thesis using 2(3) sealed_not_active [of "pg_location g" n'] by (auto simp: sealed_location_def)
    qed
    from pack_segment_frame [OF 2(4) this] show ?thesis using log_inv_frame [OF inv] 2(5) by simp
  qed (use refl in simp)
qed

definition packable_catalogue :: "database_manifest \<Rightarrow> bool" where
  "packable_catalogue m \<longleftrightarrow> (\<forall>d \<in> set (dm_segments_v2 m). sd_record_count d \<le> 2 ^ 24)"

lemma pack_queue_holds:
  assumes "log_inv cs H hasher s es" and H: "digest32 H" and "packable_catalogue (vl_manifest s)"
    and "pack_queue cs H hasher junk wall profile queue s outs = (res, s')"
  shows "log_inv cs H hasher s' es"
  using assms(1,3,4)
proof (induction queue arbitrary: s outs)
  case (Cons sid queue)
  obtain r t where p: "pack_one cs H hasher junk wall profile s sid = (r, t)" by fastforce
  show ?case
  proof (cases r)
    case (Inl e)
    then show ?thesis using pack_one_Inl [OF Cons.prems(1) p [unfolded Inl]] Cons.prems(3) p by simp
  next
    case (Inr out)
    have "log_inv cs H hasher t es" "packable_catalogue (vl_manifest t)"
      using pack_one_holds [OF Cons.prems(1) H _ p [unfolded Inr]] Cons.prems(2) by (auto simp: packable_catalogue_def)
    then show ?thesis using Cons.IH [of t "outs @ [out]"] Cons.prems(3) p Inr by simp
  qed
qed simp

section \<open>Appending\<close>

lemma seal_Inl:
  assumes "seal_active_locked cs H hasher wall s = (Inl e, s')"
  shows "vl_active s' = None \<and> vl_next_lsn s' = vl_next_lsn s"
  using assms
  by (auto simp: seal_active_locked_def Let_def split: option.splits if_splits prod.splits sum.splits)

lemma seal_keeps_next: "seal_active_locked cs H hasher wall s = (res, s') \<Longrightarrow> vl_next_lsn s' = vl_next_lsn s"
  by (auto simp: seal_active_locked_def Let_def split: option.splits if_splits prod.splits sum.splits)

lemma append_active_Inl: "append_active H k hlc payload h s = (Inl e, s') \<Longrightarrow> s' = s"
  by (auto simp: append_active_def split: option.splits if_splits sum.splits)

lemma append_inner_holds:
  assumes inv: "log_inv cs H hasher s es" and H: "digest32 H" and n: "length es + 1 < 2 ^ 32"
    and ok: "append_inner cs H hasher sc seg_max wall s ep expected = (res, s')"
    and e: "\<And>p. enc_payload sc ep = Inr p \<Longrightarrow> entry_ok (hlc_of sc ep, p)"
  shows "case res of
      Inl _ \<Rightarrow> vl_active s' = None \<or> log_inv cs H hasher s' es
    | Inr k \<Rightarrow> k = word_of_nat (length es) \<and> (expected = None \<or> expected = Some k)
        \<and> (\<exists>p. enc_payload sc ep = Inr p \<and> log_inv cs H hasher s' (es @ [(hlc_of sc ep, p)]))"
proof -
  have next_lsn: "vl_next_lsn s = word_of_nat (length es)" using inv by (simp add: log_inv_def)
  show ?thesis
  proof (cases "enc_payload sc ep")
    case (Inl x)
    then show ?thesis using ok inv by (auto simp: append_inner_def)
  next
    case (Inr p)
    note enc = this
    show ?thesis
    proof (cases "expected = None \<or> expected = Some (vl_next_lsn s)")
      case False
      then obtain x where "expected = Some x" "x \<noteq> vl_next_lsn s" by auto
      then show ?thesis using ok inv enc by (auto simp: append_inner_def)
    next
      case True
      show ?thesis
      proof (cases "hasher (vl_next_lsn s) (hlc_of sc ep) p")
        case (Inl x)
        then show ?thesis using ok inv enc True by (auto simp: append_inner_def Let_def)
      next
        case (Inr h)
        obtain r t where r: "(if needs_roll seg_max (length p) s then seal_active_locked cs H hasher wall s else (Inr (), s)) = (r, t)"
          by fastforce
        show ?thesis
        proof (cases r)
          case (Inl x)
          then have "vl_active t = None" using r seal_Inl by (auto split: if_splits)
          then show ?thesis using ok enc True Inr r Inl by (auto simp: append_inner_def Let_def)
        next
          case r2: (Inr u)
          have t: "log_inv cs H hasher t es" using r r2 inv seal_holds [OF inv H] by (auto split: if_splits)
          then have tn: "vl_next_lsn t = vl_next_lsn s" by (simp add: next_lsn log_inv_def)
          have a: "append_active H (vl_next_lsn s) (hlc_of sc ep) p h t = (res, s')"
            using ok enc True Inr r r2 by (auto simp: append_inner_def Let_def)
          show ?thesis
          proof (cases res)
            case (Inl x)
            then show ?thesis using append_active_Inl a t by fastforce
          next
            case (Inr k)
            with append_active_holds [OF t _ _ _ e [OF enc] n] a \<open>hasher _ _ p = Inr h\<close> tn
            have "log_inv cs H hasher s' (es @ [(hlc_of sc ep, p)]) \<and> k = word_of_nat (length es)" by simp
            then show ?thesis using Inr enc True next_lsn by simp
          qed
        qed
      qed
    qed
  qed
qed

lemma log_inv_hlc [simp]: "log_inv cs H hasher (s\<lparr>vl_hlc := h\<rparr>) es = log_inv cs H hasher s es"
  by (simp add: log_inv_def)

section \<open>Opening an empty directory\<close>

lemma open_empty_holds:
  assumes ns: "length new_ns = 16" and seg: "seg_max \<noteq> 0" and ok: "reject_legacy_root root_files = Inr ()"
  shows "\<exists>s fs md. open_log cs H hasher root_files new_ns seg_max wall [] [] = (Inr s, fs, md) \<and> log_inv cs H hasher s []
    \<and> vl_hlc s = hlc_next wall 0 \<and> vl_md s = []"
proof -
  let ?m = "empty_manifest new_ns"
  have d: "discover [] = Inr \<lparr>iv_active = [], iv_raw = [], iv_packed = []\<rparr>" by (simp add: discover_def)
  have l: "load H [] = None" by (simp add: load_def load_from_current_def generations_def)
  have v: "validate_manifest_ranges ?m = Inr ()" "validate_catalogued_generations H [] ?m new_ns = Inr ()"
    "next_lsn_from_manifest ?m = Inr 0" "next_segment_id ?m = 0"
    by (simp_all add: validate_manifest_ranges_def validate_catalogued_generations_def next_lsn_from_manifest_def
      next_segment_id_def empty_manifest_def)
  have nsm: "dm_storage_namespace_id ?m = new_ns" by (simp add: empty_manifest_def)
  have sw: "snd (sweep_packer_temps []) = []" "snd (Manifest_Store.sweep_orphan_temps []) = []"
    by (simp_all add: sweep_packer_temps_def Manifest_Store.sweep_orphan_temps_def)
  obtain a fs hlc where c: "create_active [] 0 0 new_ns wall 0 (dm_manifest_generation ?m) = (Inr a, fs, hlc)" "hlc = hlc_next wall 0"
    by (simp add: create_active_def Let_def)
  let ?s = "\<lparr>vl_fs = fs, vl_md = [], vl_manifest = ?m, vl_active = Some a, vl_next_lsn = 0, vl_hlc = hlc\<rparr>"
  have op: "open_log cs H hasher root_files new_ns seg_max wall [] [] = (Inr ?s, fs, [])"
    using seg by (simp add: open_log_def Let_def ok sw d l v discover_namespace_def promote_active_def c(1) nsm)
  have "dm_storage_namespace_id ?m = new_ns" "dm_segments_v2 ?m = []" by (simp_all add: empty_manifest_def)
  moreover have "active_holds H hasher fs new_ns [] a 0 \<and> as_id a = 0 \<and> (\<forall>n. n \<noteq> active_path 0 \<longrightarrow> map_of fs n = None)"
    using create_active_holds [OF c(1) ns, of "[]" H hasher] by simp
  ultimately have "log_inv cs H hasher ?s []"
    unfolding log_inv_def using ns by (intro conjI exI [of _ a] exI [of _ 0]) auto
  then show ?thesis using op c(2) by auto
qed

section \<open>Runs\<close>

text \<open>The episodes a log holds, as the HLC and the payload of each.\<close>

definition entry :: "'ep storage_codec \<Rightarrow> 'ep \<Rightarrow> u64 \<times> bytes" where
  "entry sc ep = (hlc_of sc ep, (case enc_payload sc ep of Inr p \<Rightarrow> p | Inl _ \<Rightarrow> []))"

definition fits :: "'ep storage_codec \<Rightarrow> 'ep \<Rightarrow> bool" where
  "fits sc ep \<longleftrightarrow> (case enc_payload sc ep of Inr p \<Rightarrow> length p + 54 \<le> HARD_MAX_BLOCK_BYTES | Inl _ \<Rightarrow> True)"

text \<open>A run from an empty directory. Every call may succeed or fail, seals included: a seal that fails, called
  for or made by an append that had to roll, leaves the log without an active segment, and the run goes on from
  there. An I/O error inside a seal, which the directories of this model never give, may moreover leave any files and
  any catalogue behind. The list is the specification: what a successful append put there. The limits are those of the engine's
  own arithmetic: an encoded episode fits in a block of the packed layout, the log holds fewer than \<open>2 ^ 32\<close>
  episodes, and the segments are small enough to be packed when the packer runs.\<close>

inductive log_run :: "codecs \<Rightarrow> hash_fn \<Rightarrow> record_hasher \<Rightarrow> 'ep storage_codec \<Rightarrow> u64 \<Rightarrow> v6_log \<Rightarrow> 'ep list \<Rightarrow> bool"
    for cs H hasher sc seg_max where
  opened: "open_log cs H hasher root_files new_ns seg_max wall [] [] = (Inr s, fs, md) \<Longrightarrow> length new_ns = 16
    \<Longrightarrow> log_run cs H hasher sc seg_max s []"
| appended: "log_run cs H hasher sc seg_max s eps \<Longrightarrow> append_episode cs H hasher sc seg_max wall wall' s ep = (res, s')
    \<Longrightarrow> fits sc (fst (stamp sc wall s ep)) \<Longrightarrow> length eps + 1 < 2 ^ 32
    \<Longrightarrow> log_run cs H hasher sc seg_max s' (case res of Inl _ \<Rightarrow> eps | Inr _ \<Rightarrow> eps @ [fst (stamp sc wall s ep)])"
| replicated: "log_run cs H hasher sc seg_max s eps \<Longrightarrow> append_replicated cs H hasher sc seg_max wall s k ep = (res, s')
    \<Longrightarrow> fits sc ep \<Longrightarrow> length eps + 1 < 2 ^ 32
    \<Longrightarrow> log_run cs H hasher sc seg_max s' (case res of Inl _ \<Rightarrow> eps | Inr _ \<Rightarrow> if k < head s then eps else eps @ [ep])"
| sealed: "log_run cs H hasher sc seg_max s eps \<Longrightarrow> seal_active_locked cs H hasher wall s = (res, s')
    \<Longrightarrow> log_run cs H hasher sc seg_max s' eps"
| seal_io_error: "log_run cs H hasher sc seg_max s eps \<Longrightarrow> vl_active s' = None \<Longrightarrow> vl_next_lsn s' = vl_next_lsn s
    \<Longrightarrow> vl_hlc s \<le> vl_hlc s' \<Longrightarrow> log_run cs H hasher sc seg_max s' eps"
| packed: "log_run cs H hasher sc seg_max s eps \<Longrightarrow> packable_catalogue (vl_manifest s)
    \<Longrightarrow> pack_pending cs H hasher junk wall profile s = (res, s') \<Longrightarrow> log_run cs H hasher sc seg_max s' eps"

section \<open>A log without an active segment\<close>

abbreviation "no_active_segment \<equiv> StorageEngine ''V6Log sem segmento ativo''"

lemma append_inner_stopped:
  assumes "vl_active s = None" and "append_inner cs H hasher sc seg_max wall s ep expected = (res, s')"
  shows "s' = s \<and> isl res"
  using assms
  by (auto simp: append_inner_def append_active_def needs_roll_def Let_def split: sum.splits if_splits)

lemma append_active_stays: "append_active H k hlc payload h s = (res, s') \<Longrightarrow> vl_active s' = None \<Longrightarrow> s' = s \<and> isl res"
  by (auto simp: append_active_def split: option.splits if_splits sum.splits)

lemma append_inner_stops:
  assumes "append_inner cs H hasher sc seg_max wall s ep expected = (res, s')" and "vl_active s' = None"
  shows "isl res \<and> vl_next_lsn s' = vl_next_lsn s"
  using assms
  by (auto simp: append_inner_def Let_def split: sum.splits if_splits prod.splits dest!: append_active_stays dest: seal_keeps_next)

lemma pack_one_keeps:
  "pack_one cs H hasher junk wall profile s sid = (r, s') \<Longrightarrow> vl_active s' = vl_active s \<and> vl_next_lsn s' = vl_next_lsn s"
  by (auto simp: pack_one_def Let_def split: option.splits prod.splits sum.splits)

lemma pack_queue_keeps:
  "pack_queue cs H hasher junk wall profile queue s outs = (r, s') \<Longrightarrow> vl_active s' = vl_active s \<and> vl_next_lsn s' = vl_next_lsn s"
proof (induction queue arbitrary: s outs)
  case (Cons sid queue)
  obtain r1 t where p: "pack_one cs H hasher junk wall profile s sid = (r1, t)" by fastforce
  with Cons show ?case using pack_one_keeps [OF p] by (auto split: sum.splits)
qed simp

section \<open>The clock\<close>

lemma hlc_next_ge: "h \<le> hlc_next wall h"
  using hlc_next_greater [of h wall] by (cases "h = -1") (simp_all add: less_imp_le)

lemma create_active_hlc: "create_active fs sid k ns wall hlc g = (r, fs', hlc') \<Longrightarrow> hlc \<le> hlc'"
  using hlc_next_ge by (auto simp: create_active_def Let_def split: if_splits)

lemma seal_hlc:
  assumes "seal_active_locked cs H hasher wall s = (r, s')"
  shows "vl_hlc s \<le> vl_hlc s'"
  using assms create_active_hlc
  by (auto simp: seal_active_locked_def Let_def split: option.splits if_splits prod.splits sum.splits)

lemma append_inner_hlc:
  assumes "append_inner cs H hasher sc seg_max wall s ep expected = (res, s')"
  shows "vl_hlc s \<le> vl_hlc s'"
proof -
  have a: "vl_hlc t' = vl_hlc t" if "append_active H k h p x t = (r, t')" for k h p x t r t'
    using that by (auto simp: append_active_def split: option.splits if_splits sum.splits)
  show ?thesis
    using assms
    by (auto simp: append_inner_def Let_def split: sum.splits if_splits prod.splits option.splits dest!: a seal_hlc)
qed

lemma pack_one_hlc: "pack_one cs H hasher junk wall profile s sid = (r, s') \<Longrightarrow> vl_hlc s \<le> vl_hlc s'"
  using hlc_next_ge by (auto simp: pack_one_def Let_def split: option.splits prod.splits sum.splits)

lemma pack_queue_hlc:
  "pack_queue cs H hasher junk wall profile queue s outs = (r, s') \<Longrightarrow> vl_hlc s \<le> vl_hlc s'"
proof (induction queue arbitrary: s outs)
  case (Cons sid queue)
  obtain r1 t where p: "pack_one cs H hasher junk wall profile s sid = (r1, t)" by fastforce
  with Cons show ?case using pack_one_hlc [OF p] by (auto split: sum.splits intro: order_trans)
qed simp

section \<open>The invariant of a run\<close>

definition codec_ok :: "'ep storage_codec \<Rightarrow> bool" where
  "codec_ok sc \<longleftrightarrow> (\<forall>ep p. enc_payload sc ep = Inr p \<longrightarrow> dec_payload sc p = Inr ep) \<and> (\<forall>h ep. hlc_of sc (stamp_hlc sc h ep) = h)"

definition run_inv :: "codecs \<Rightarrow> hash_fn \<Rightarrow> record_hasher \<Rightarrow> 'ep storage_codec \<Rightarrow> v6_log \<Rightarrow> 'ep list \<Rightarrow> bool" where
  "run_inv cs H hasher sc s eps \<longleftrightarrow> log_inv cs H hasher s (map (entry sc) eps)
     \<and> (\<forall>ep \<in> set eps. (\<exists>p. enc_payload sc ep = Inr p) \<and> hlc_of sc ep \<le> vl_hlc s)"

lemma run_appended:
  assumes inv: "run_inv cs H hasher sc s eps" and H: "digest32 H" and len: "length eps + 1 < 2 ^ 32"
    and ok: "append_inner cs H hasher sc seg_max wall s ep expected = (res, s')" and act: "vl_active s' \<noteq> None"
    and f: "fits sc ep" and h: "hlc_of sc ep \<le> vl_hlc s"
  shows "run_inv cs H hasher sc s' (case res of Inl _ \<Rightarrow> eps | Inr _ \<Rightarrow> eps @ [ep])"
proof -
  have "entry_ok (hlc_of sc ep, p)" if "enc_payload sc ep = Inr p" for p
    using f that by (simp add: fits_def entry_ok_def)
  note a = append_inner_holds [OF _ H _ ok this, of "map (entry sc) eps", simplified]
  have li: "log_inv cs H hasher s (map (entry sc) eps)" and old: "\<And>e. e \<in> set eps \<Longrightarrow> (\<exists>p. enc_payload sc e = Inr p) \<and> hlc_of sc e \<le> vl_hlc s"
    using inv by (simp_all add: run_inv_def)
  note a = a [OF li] and g = append_inner_hlc [OF ok]
  have old': "(\<exists>p. enc_payload sc e = Inr p) \<and> hlc_of sc e \<le> vl_hlc s'" if "e \<in> set eps" for e
    using old [OF that] g by (auto intro: order_trans)
  show "run_inv cs H hasher sc s' (case res of Inl _ \<Rightarrow> eps | Inr _ \<Rightarrow> eps @ [ep])"
  proof (cases res)
    case (Inl e)
    then show ?thesis using a len act old' by (simp add: run_inv_def)
  next
    case (Inr k)
    then obtain p where "enc_payload sc ep = Inr p" "log_inv cs H hasher s' (map (entry sc) eps @ [(hlc_of sc ep, p)])"
      using a len by auto
    moreover have "hlc_of sc ep \<le> vl_hlc s'" using h g by simp
    ultimately show ?thesis using Inr old' by (simp add: run_inv_def entry_def)
  qed
qed

lemma run_inv_read:
  assumes inv: "run_inv cs H hasher sc s eps" and cs: "codecs_lossless cs" and H: "digest32 H" and sc: "codec_ok sc"
  shows "read_episode cs sc s k = Inr (if unat k < length eps then Some (k, eps ! unat k) else None)"
proof -
  have r: "read_payload cs s k = Inr (if unat k < length eps then Some (snd (entry sc (eps ! unat k))) else None)"
    using read_payload_correct [OF _ cs H, of hasher s "map (entry sc) eps" k] inv by (simp add: run_inv_def)
  show ?thesis
  proof (cases "unat k < length eps")
    case True
    then have "eps ! unat k \<in> set eps" by simp
    then obtain p where "enc_payload sc (eps ! unat k) = Inr p" using inv unfolding run_inv_def by blast
    then show ?thesis using True sc r by (simp add: read_episode_def entry_def codec_ok_def)
  qed (simp add: read_episode_def r)
qed

lemma run_inv_head:
  assumes "run_inv cs H hasher sc s eps"
  shows "head s = word_of_nat (length eps)" and "unat (head s) = length eps"
proof -
  show "head s = word_of_nat (length eps)" using assms by (simp add: head_def run_inv_def log_inv_def)
  then show "unat (head s) = length eps" using assms unat_index [of "length eps"] by (simp add: run_inv_def log_inv_def)
qed

text \<open>What a run keeps whether or not the log still has its active segment: on a stopped log only the head and the
  clock are left of the invariant.\<close>

definition run_state :: "codecs \<Rightarrow> hash_fn \<Rightarrow> record_hasher \<Rightarrow> 'ep storage_codec \<Rightarrow> v6_log \<Rightarrow> 'ep list \<Rightarrow> bool" where
  "run_state cs H hasher sc s eps \<longleftrightarrow> (if vl_active s = None
     then vl_next_lsn s = word_of_nat (length eps) \<and> length eps < 2 ^ 32 \<and> (\<forall>ep \<in> set eps. hlc_of sc ep \<le> vl_hlc s)
     else run_inv cs H hasher sc s eps)"

lemma run_inv_weak:
  assumes "run_inv cs H hasher sc s eps"
  shows "vl_next_lsn s = word_of_nat (length eps) \<and> length eps < 2 ^ 32 \<and> (\<forall>ep \<in> set eps. hlc_of sc ep \<le> vl_hlc s)"
    and "vl_active s \<noteq> None"
  using assms by (auto simp: run_inv_def log_inv_def)

lemma run_state_weak:
  assumes "run_state cs H hasher sc s eps"
  shows "vl_next_lsn s = word_of_nat (length eps)" and "length eps < 2 ^ 32" and "\<forall>ep \<in> set eps. hlc_of sc ep \<le> vl_hlc s"
  using assms run_inv_weak(1) [of cs H hasher sc s eps] by (auto simp: run_state_def split: if_splits)

lemma run_state_head:
  assumes "run_state cs H hasher sc s eps"
  shows "unat (head s) = length eps"
  using run_state_weak [OF assms] unat_index [of "length eps"] by (simp add: head_def)

lemma run_state_active: "run_state cs H hasher sc s eps \<Longrightarrow> vl_active s \<noteq> None \<Longrightarrow> run_inv cs H hasher sc s eps"
  by (simp add: run_state_def)

lemma run_state_stopped:
  assumes "run_state cs H hasher sc s eps" and "vl_active s' = None" and "vl_next_lsn s' = vl_next_lsn s" and "vl_hlc s \<le> vl_hlc s'"
  shows "run_state cs H hasher sc s' eps"
  using run_state_weak [OF assms(1)] assms(2-4) by (auto simp: run_state_def intro: order_trans)

lemma run_inv_state: "run_inv cs H hasher sc s eps \<Longrightarrow> run_state cs H hasher sc s eps"
  using run_inv_weak(2) [of cs H hasher sc s eps] by (auto simp: run_state_def)

lemma run_state_clock:
  assumes "run_state cs H hasher sc s eps" and "vl_hlc s \<le> h"
  shows "run_state cs H hasher sc (s\<lparr>vl_hlc := h\<rparr>) eps"
  using assms by (auto simp: run_state_def run_inv_def dest!: bspec intro: order_trans)

lemma run_state_appended:
  assumes st: "run_state cs H hasher sc s eps" and H: "digest32 H" and len: "length eps + 1 < 2 ^ 32"
    and ok: "append_inner cs H hasher sc seg_max wall s ep expected = (res, s')"
    and f: "fits sc ep" and h: "hlc_of sc ep \<le> vl_hlc s"
  shows "run_state cs H hasher sc s' (case res of Inl _ \<Rightarrow> eps | Inr _ \<Rightarrow> eps @ [ep])"
proof (cases "vl_active s' = None")
  case True
  with append_inner_stops [OF ok] have "isl res" "run_state cs H hasher sc s' eps"
    using run_state_stopped [OF st True _ append_inner_hlc [OF ok]] by auto
  then show ?thesis by (cases res) simp_all
next
  case False
  then have "vl_active s \<noteq> None" using append_inner_stopped [OF _ ok] by auto
  then show ?thesis by (intro run_inv_state run_appended [OF run_state_active [OF st] H len ok False f h])
qed

end
