(* ===== verification/V6_Log_Behaviour.thy ===== *)
theory V6_Log_Behaviour
  imports V6_Log_Run
begin

text \<open>
  The properties of \<open>V6Log\<close> as its callers see it: reads, scans and replicated appends against the list
  of the episodes appended so far, the order of the timestamps, and what is left after a failed seal.
\<close>

declare map_of_eq_Some_iff [simp del]

section \<open>Every run keeps the invariant\<close>

lemma stamp_simps:
  "snd (stamp sc wall s ep) = s\<lparr>vl_hlc := hlc_next wall (vl_hlc s)\<rparr>"
  "fst (stamp sc wall s ep) = stamp_hlc sc (hlc_next wall (vl_hlc s)) ep"
  by (simp_all add: stamp_def Let_def)

lemma run_inv_clock:
  assumes "run_inv cs H hasher sc s eps" and "vl_hlc s \<le> h"
  shows "run_inv cs H hasher sc (s\<lparr>vl_hlc := h\<rparr>) eps"
  using assms by (auto simp: run_inv_def intro: order_trans)

lemma run_append_lsn:
  assumes inv: "run_inv cs H hasher sc s eps" and H: "digest32 H" and len: "length eps + 1 < 2 ^ 32"
    and ok: "append_inner cs H hasher sc seg_max wall s ep expected = (res, s')" and f: "fits sc ep"
  shows "case res of Inr k \<Rightarrow> k = word_of_nat (length eps) \<and> (expected = None \<or> expected = Some k) | Inl _ \<Rightarrow> True"
proof -
  have "log_inv cs H hasher s (map (entry sc) eps)" using inv by (simp add: run_inv_def)
  moreover have "entry_ok (hlc_of sc ep, p)" if "enc_payload sc ep = Inr p" for p
    using f that by (simp add: fits_def entry_ok_def)
  ultimately show ?thesis using append_inner_holds [OF _ H _ ok, of "map (entry sc) eps"] len by (auto split: sum.splits)
qed

lemma run_inv_keep:
  assumes "run_inv cs H hasher sc s eps" and "log_inv cs H hasher s' (map (entry sc) eps)" and "vl_hlc s \<le> vl_hlc s'"
  shows "run_inv cs H hasher sc s' eps"
  using assms by (auto simp: run_inv_def intro: order_trans)

lemma append_episode_inner:
  "append_episode cs H hasher sc seg_max wall wall' s ep
    = append_inner cs H hasher sc seg_max wall' (snd (stamp sc wall s ep)) (fst (stamp sc wall s ep)) None"
  by (simp add: append_episode_def split: prod.splits)

lemma run_replicated:
  assumes st: "run_state cs H hasher sc s eps" and H: "digest32 H" and len: "length eps + 1 < 2 ^ 32"
    and ok: "append_replicated cs H hasher sc seg_max wall s k ep = (res, s')" and f: "fits sc ep"
  shows "run_state cs H hasher sc s' (case res of Inl _ \<Rightarrow> eps | Inr _ \<Rightarrow> if k < head s then eps else eps @ [ep])"
proof -
  let ?s = "s\<lparr>vl_hlc := hlc_observe (vl_hlc s) (hlc_of sc ep)\<rparr>"
  have i: "run_state cs H hasher sc ?s eps" using run_state_clock [OF st] by (simp add: hlc_observe_def)
  have hd: "head ?s = head s" by (simp add: head_def)
  show ?thesis
  proof (cases "k < head s")
    case True
    then have "s' = ?s"
      using ok by (auto simp: append_replicated_def Let_def hd split: sum.splits option.splits prod.splits if_splits)
    then show ?thesis using i True by (cases res) simp_all
  next
    case False
    then have "append_inner cs H hasher sc seg_max wall ?s ep (Some k) = (res, s')"
      using ok by (simp add: append_replicated_def Let_def hd)
    then show ?thesis using run_state_appended [OF i H len _ f] False by (simp add: hlc_observe_def)
  qed
qed

lemma run_sealed:
  assumes st: "run_state cs H hasher sc s eps" and H: "digest32 H" and ok: "seal_active_locked cs H hasher wall s = (res, s')"
  shows "run_state cs H hasher sc s' eps"
proof (cases "vl_active s' = None")
  case True
  from run_state_stopped [OF st this seal_keeps_next [OF ok] seal_hlc [OF ok]] show ?thesis .
next
  case False
  obtain u where res: "res = Inr u"
  proof (cases res)
    case (Inl e)
    from seal_Inl [OF ok [unfolded Inl]] False show ?thesis by simp
  qed (rule that)
  have "vl_active s \<noteq> None" using ok res by (cases "vl_active s") (simp_all add: seal_active_locked_def)
  then have "run_inv cs H hasher sc s eps" by (rule run_state_active [OF st])
  then show ?thesis
    using run_inv_state run_inv_keep seal_holds [OF _ H ok [unfolded res]] seal_hlc [OF ok] by (metis run_inv_def)
qed

lemma run_packed:
  assumes st: "run_state cs H hasher sc s eps" and H: "digest32 H" and small: "packable_catalogue (vl_manifest s)"
    and ok: "pack_pending cs H hasher junk wall profile s = (res, s')"
  shows "run_state cs H hasher sc s' eps"
proof (cases "vl_active s = None")
  case True
  with run_state_stopped [OF st] pack_queue_keeps pack_queue_hlc ok show ?thesis unfolding pack_pending_def by metis
next
  case False
  then have inv: "run_inv cs H hasher sc s eps" by (rule run_state_active [OF st])
  then have "log_inv cs H hasher s' (map (entry sc) eps)"
    using pack_queue_holds [OF _ H small ok [unfolded pack_pending_def]] by (simp add: run_inv_def)
  from run_inv_state [OF run_inv_keep [OF inv this]] pack_queue_hlc ok show ?thesis unfolding pack_pending_def by metis
qed

lemma log_run_state:
  assumes "log_run cs H hasher sc seg_max s eps" and H: "digest32 H" and sc: "codec_ok sc"
  shows "run_state cs H hasher sc s eps"
  using assms(1)
proof (induction rule: log_run.induct)
  case (opened root_files new_ns wall s fs md)
  have "seg_max \<noteq> 0" "reject_legacy_root root_files = Inr ()"
    using opened(1) by (auto simp: open_log_def Let_def split: if_splits sum.splits)
  then show ?case
    using open_empty_holds [OF opened(2), of seg_max root_files cs H hasher wall] opened(1)
    by (intro run_inv_state) (auto simp: run_inv_def)
next
  case (appended s eps wall wall' ep res s')
  let ?t = "snd (stamp sc wall s ep)" and ?e = "fst (stamp sc wall s ep)"
  have "run_state cs H hasher sc ?t eps"
    unfolding stamp_simps by (rule run_state_clock [OF appended.IH hlc_next_ge])
  moreover have "hlc_of sc ?e \<le> vl_hlc ?t" using sc by (simp add: stamp_simps codec_ok_def)
  ultimately show ?case
    using run_state_appended [OF _ H appended(4) appended(2) [unfolded append_episode_inner] appended(3)] by simp
next
  case (replicated s eps wall k ep res s')
  show ?case by (rule run_replicated [OF replicated.IH H replicated(4,2,3)])
next
  case (sealed s eps wall res s')
  show ?case by (rule run_sealed [OF sealed.IH H sealed(2)])
next
  case (seal_io_error s eps s')
  show ?case by (rule run_state_stopped [OF seal_io_error.IH seal_io_error(2,3,4)])
next
  case (packed s eps junk wall profile res s')
  show ?case by (rule run_packed [OF packed.IH H packed(2,3)])
qed

lemmas log_run_inv = run_state_active [OF log_run_state]

lemma stopped_read:
  assumes "run_state cs H hasher sc s eps" and "vl_active s = None"
  shows "read_episode cs sc s k = (if unat k < length eps then Inl no_active_segment else Inr None)"
  using run_state_head [OF assms(1)] assms(2)
  by (auto simp: read_episode_def read_payload_def read_source_of_def head_def word_le_nat_alt)

section \<open>Reading\<close>

text \<open>C1. The log is an append-only list. After any sequence of appends, replicated appends, seals and
  packings, each of which may fail, the head is the number of episodes appended, and reading LSN k gives back
  exactly the k-th episode, whichever segment file and layout it now lives in; nothing at or beyond the head is
  readable. A seal that fails stops the log: the head stays, and every read below it is then refused with the
  engine's error instead. The run is one within the engine's limits: encoded episodes of at most 64 MiB less
  their 54 bytes of framing, fewer than \<open>2 ^ 32\<close> of them, and at most \<open>2 ^ 24\<close> records in every
  segment that is catalogued when the packer is called.\<close>

theorem log_refines_list:
  assumes "log_run cs H hasher sc seg_max s eps" and "codecs_lossless cs" and "digest32 H" and "codec_ok sc"
  shows "unat (head s) = length eps
    \<and> read_episode cs sc s k =
      (if unat k < length eps
       then if vl_active s = None then Inl (StorageEngine ''V6Log sem segmento ativo'') else Inr (Some (k, eps ! unat k))
       else Inr None)"
proof -
  note st = log_run_state [OF assms(1,3,4)]
  show ?thesis
  proof (cases "vl_active s = None")
    case True
    then show ?thesis using run_state_head [OF st] stopped_read [OF st True] by simp
  next
    case False
    then show ?thesis using run_state_head [OF st] run_inv_read [OF run_state_active [OF st False] assms(2-4)] by auto
  qed
qed

lemma scan_loop_slice:
  assumes inv: "run_inv cs H hasher sc s eps" and cs: "codecs_lossless cs" and H: "digest32 H" and sc: "codec_ok sc"
    and e: "unat end_lsn \<le> length eps"
  shows "unat k \<le> unat end_lsn \<Longrightarrow> scan_loop cs sc s end_lsn n k out
    = Inr (out @ map (\<lambda>i. (word_of_nat i, eps ! i)) (take (n - length out) [unat k..<unat end_lsn]))"
proof (induction "unat end_lsn - unat k" arbitrary: k out)
  case 0
  then have "\<not> k < end_lsn" "[unat k..<unat end_lsn] = []" by (simp_all add: word_less_nat_alt)
  then show ?case by (simp add: scan_loop.simps)
next
  case (Suc m)
  have lt: "unat k < unat end_lsn" using Suc(2) by simp
  have len: "length eps < 2 ^ 32" using inv by (simp add: run_inv_def log_inv_def)
  have next_k: "unat (saturating_add k 1) = unat k + 1" using lt e len by (simp add: unat_saturating_add)
  have sp: "[unat k..<unat end_lsn] = unat k # [unat k + 1..<unat end_lsn]" using lt by (simp add: upt_conv_Cons)
  have r: "read_episode cs sc s k = Inr (Some (k, eps ! unat k))"
    using run_inv_read [OF inv cs H sc, of k] lt e by simp
  show ?case
  proof (cases "length out < n")
    case True
    have "scan_loop cs sc s end_lsn n k out = scan_loop cs sc s end_lsn n (saturating_add k 1) (out @ [(k, eps ! unat k)])"
      using True lt by (subst scan_loop.simps) (simp add: r word_less_nat_alt)
    also have "\<dots> = Inr ((out @ [(k, eps ! unat k)]) @ map (\<lambda>i. (word_of_nat i, eps ! i))
        (take (n - length (out @ [(k, eps ! unat k)])) [unat (saturating_add k 1)..<unat end_lsn]))"
      by (rule Suc(1)) (use Suc(2) lt next_k in simp_all)
    also have "n - length out = Suc (n - length (out @ [(k, eps ! unat k)]))" using True by simp
    ultimately show ?thesis by (simp add: next_k sp)
  next
    case False
    then show ?thesis by (simp add: scan_loop.simps)
  qed
qed

lemma run_inv_scan:
  assumes inv: "run_inv cs H hasher sc s eps" and cs: "codecs_lossless cs" and H: "digest32 H" and sc: "codec_ok sc"
  shows "scan_capped cs sc s from_lsn to_lsn max_count = Inr (map (\<lambda>i. (word_of_nat i, eps ! i))
    (take max_count [unat from_lsn..<min (unat to_lsn) (length eps)]))"
proof -
  let ?e = "min to_lsn (head s)"
  have e: "unat ?e = min (unat to_lsn) (length eps)"
    using run_inv_head(2) [OF inv] by (auto simp: min_def word_le_nat_alt)
  show ?thesis
  proof (cases "from_lsn \<ge> ?e \<or> max_count = 0")
    case True
    then show ?thesis by (auto simp: scan_capped_def Let_def word_le_nat_alt e)
  next
    case False
    then have "unat from_lsn \<le> unat ?e" by (simp add: word_le_nat_alt)
    from scan_loop_slice [OF inv cs H sc _ this, of max_count "[]"] False show ?thesis
      by (simp add: scan_capped_def Let_def e)
  qed
qed

lemma stopped_scan:
  assumes st: "run_state cs H hasher sc s eps" and "vl_active s = None"
  shows "scan_capped cs sc s from_lsn to_lsn n
    = (if n = 0 \<or> min (unat to_lsn) (length eps) \<le> unat from_lsn then Inr [] else Inl no_active_segment)"
proof -
  have e: "unat (min to_lsn (head s)) = min (unat to_lsn) (length eps)"
    using run_state_head [OF st] by (auto simp: min_def word_le_nat_alt)
  show ?thesis
  proof (cases "n = 0 \<or> min (unat to_lsn) (length eps) \<le> unat from_lsn")
    case True
    then show ?thesis by (auto simp: scan_capped_def Let_def word_le_nat_alt e)
  next
    case False
    then have "\<not> min to_lsn (head s) \<le> from_lsn" "0 < n" "unat from_lsn < length eps" by (auto simp: word_le_nat_alt e)
    moreover from this(3) have "read_episode cs sc s from_lsn = Inl no_active_segment" by (simp add: stopped_read [OF assms])
    ultimately show ?thesis
      using False by (simp add: scan_capped_def Let_def del: min_less_iff_conj) (subst scan_loop.simps, simp add: not_le)
  qed
qed

text \<open>C28. A scan returns a contiguous slice: the episodes from \<open>from_lsn\<close> up to, and without, \<open>to_lsn\<close> or the
  head, each with its LSN, in order, cut after \<open>max_count\<close> of them; it never reports a gap. On a log that a
  failed seal has stopped, a scan of a non-empty slice is refused with the engine's error.\<close>

theorem scan_returns_slice:
  assumes "log_run cs H hasher sc seg_max s eps" and "codecs_lossless cs" and "digest32 H" and "codec_ok sc"
  shows "scan_capped cs sc s from_lsn to_lsn max_count =
    (let lsns = take max_count [unat from_lsn..<min (unat to_lsn) (length eps)] in
     if vl_active s = None \<and> lsns \<noteq> [] then Inl (StorageEngine ''V6Log sem segmento ativo'')
     else Inr (map (\<lambda>i. (word_of_nat i, eps ! i)) lsns))"
proof (cases "vl_active s = None")
  case True
  show ?thesis unfolding stopped_scan [OF log_run_state [OF assms(1,3,4)] True] using True by (auto simp: Let_def not_le)
next
  case False
  then show ?thesis using run_inv_scan [OF log_run_inv [OF assms(1,3,4) False] assms(2-4)] by (simp add: Let_def)
qed

section \<open>Replicated appends\<close>

lemma replicated_below:
  assumes st: "run_state cs H hasher sc s eps" and cs: "codecs_lossless cs" and H: "digest32 H" and sc: "codec_ok sc"
    and k: "unat k < length eps"
  shows "append_replicated cs H hasher sc seg_max wall s k ep =
    (if vl_active s = None then Inl no_active_segment
     else if ep_identity sc (eps ! unat k) = ep_identity sc ep then Inr k else Inl (CasConflict k (head s)),
     s\<lparr>vl_hlc := hlc_observe (vl_hlc s) (hlc_of sc ep)\<rparr>)"
proof -
  let ?s = "s\<lparr>vl_hlc := hlc_observe (vl_hlc s) (hlc_of sc ep)\<rparr>"
  have i: "run_state cs H hasher sc ?s eps" using run_state_clock [OF st] by (simp add: hlc_observe_def)
  have hd: "head ?s = head s" "k < head s" using run_state_head [OF st] k by (simp_all add: head_def word_less_nat_alt)
  show ?thesis
  proof (cases "vl_active s = None")
    case True
    then show ?thesis using hd(2) stopped_read [OF i, of k] k by (simp add: append_replicated_def Let_def hd(1))
  next
    case False
    then have "run_inv cs H hasher sc ?s eps" using run_state_active [OF i] by simp
    then show ?thesis
      using False hd(2) run_inv_read [OF _ cs H sc, of hasher ?s eps k] k by (simp add: append_replicated_def Let_def hd(1))
  qed
qed

text \<open>C9. A replicated append is exactly-once. At the head it may append, and then its LSN is the one
  it was given; below the head it succeeds precisely when the episode already there has the same identity,
  without changing the log; above the head, or against a different episode, it is refused as a conflict
  that names the head. On a log that a failed seal has stopped, neither answers: below the head the
  comparison fails with the engine's error, and at the head nothing is appended.\<close>

theorem replicated_append_exact:
  assumes run: "log_run cs H hasher sc seg_max s eps" and cs: "codecs_lossless cs" and H: "digest32 H" and sc: "codec_ok sc"
    and ok: "append_replicated cs H hasher sc seg_max wall s k ep = (res, s')" and enc: "enc_payload sc ep = Inr p"
    and f: "fits sc ep" and len: "length eps + 1 < 2 ^ 32"
  shows "if unat k < length eps
    then res = (if vl_active s = None then Inl (StorageEngine ''V6Log sem segmento ativo'')
        else if ep_identity sc (eps ! unat k) = ep_identity sc ep then Inr k else Inl (CasConflict k (head s)))
      \<and> s' = s\<lparr>vl_hlc := vl_hlc s'\<rparr>
    else if unat k = length eps then (case res of Inr k' \<Rightarrow> k' = k \<and> vl_active s \<noteq> None | Inl _ \<Rightarrow> True)
    else res = Inl (CasConflict k (head s)) \<and> s' = s\<lparr>vl_hlc := vl_hlc s'\<rparr>"
proof -
  let ?s = "s\<lparr>vl_hlc := hlc_observe (vl_hlc s) (hlc_of sc ep)\<rparr>"
  note st = log_run_state [OF run H sc]
  have i: "run_state cs H hasher sc ?s eps" using run_state_clock [OF st] by (simp add: hlc_observe_def)
  have hd: "head ?s = head s" "unat (head s) = length eps" using run_state_head [OF st] by (simp_all add: head_def)
  have up: "s' = s\<lparr>vl_hlc := vl_hlc s'\<rparr>" if "s' = ?s" unfolding that by simp
  have act: "vl_active ?s = vl_active s" by simp
  consider "unat k < length eps" | "unat k = length eps" | "length eps < unat k" by linarith
  then show ?thesis
  proof cases
    case 1
    then show ?thesis using replicated_below [OF st cs H sc 1, of seg_max wall ep] ok by auto
  next
    case 2
    then have "\<not> k < head s" by (simp add: word_less_nat_alt hd)
    then have a: "append_inner cs H hasher sc seg_max wall ?s ep (Some k) = (res, s')"
      using ok by (simp add: append_replicated_def Let_def hd(1))
    show ?thesis
    proof (cases "vl_active s = None")
      case True
      then show ?thesis using 2 append_inner_stopped [OF _ a] by (cases res) auto
    next
      case False
      then have "run_inv cs H hasher sc ?s eps" using run_state_active [OF i] by simp
      then show ?thesis using 2 False run_append_lsn [OF _ H len a f] by (auto split: sum.splits)
    qed
  next
    case 3
    then have nk: "\<not> k < head s" "k \<noteq> vl_next_lsn s" using hd(2) by (auto simp: word_less_nat_alt head_def)
    then have "append_inner cs H hasher sc seg_max wall ?s ep (Some k) = (res, s')"
      using ok by (simp add: append_replicated_def Let_def hd(1))
    then have "(res, s') = (Inl (CasConflict k (head s)), ?s)" using nk enc by (simp add: append_inner_def head_def)
    then show ?thesis using 3 up by simp
  qed
qed

section \<open>A failed seal\<close>

text \<open>C34. A seal that fails stops the log. Whatever the reason, the log is left without an active segment,
  and from then on every read below the head, every append that passes its own checks and every flush
  fails with the same error: only reopening the directory brings the log back.\<close>

theorem failed_seal_stops_log:
  assumes "seal_active_locked cs H hasher wall s = (Inl e, s')" and "enc_payload sc ep = Inr p"
    and "hasher (head s) (hlc_of sc ep) p = Inr h"
  shows "flush s' = Inl (StorageEngine ''V6Log sem segmento ativo'')
    \<and> (k < head s \<longrightarrow> read_payload cs' s' k = Inl (StorageEngine ''V6Log sem segmento ativo''))
    \<and> append_inner cs' H hasher sc seg_max wall' s' ep None = (Inl (StorageEngine ''V6Log sem segmento ativo''), s')"
proof -
  have "vl_active s' = None" "vl_next_lsn s' = vl_next_lsn s" using seal_Inl [OF assms(1)] by simp_all
  then show ?thesis
    using assms(2,3)
    by (simp add: flush_def read_payload_def read_source_of_def append_inner_def Let_def needs_roll_def
        append_active_def head_def linorder_not_less)
qed

section \<open>Timestamps\<close>

text \<open>Timestamps follow the LSNs. An episode appended locally is stamped with an HLC greater than
  that of every episode the log already holds, local or replicated, until the clock saturates.\<close>

theorem append_stamps_increase:
  assumes run: "log_run cs H hasher sc seg_max s eps" and H: "digest32 H" and sc: "codec_ok sc" and top: "vl_hlc s \<noteq> -1"
    and ep: "e \<in> set eps"
  shows "hlc_of sc e < hlc_of sc (fst (stamp sc wall s ep))"
proof -
  have "hlc_of sc e \<le> vl_hlc s" using run_state_weak(3) [OF log_run_state [OF run H sc]] ep by blast
  also have "\<dots> < hlc_next wall (vl_hlc s)" by (rule hlc_next_greater [OF top])
  finally show ?thesis using sc by (simp add: stamp_simps codec_ok_def)
qed

section \<open>Appends that need no new segment succeed\<close>

lemma session_next_lsn:
  assumes s: "raw_session H hasher init rs = Inr w"
  shows "rw_next_expected_lsn w = (if rs = [] then si_first_lsn init else saturating_add (rr_lsn (last rs)) 1)"
proof (cases rs rule: rev_cases)
  case Nil
  then show ?thesis using s by (auto simp: raw_session_def raw_create_def Let_def)
next
  case (snoc qs r)
  then obtain u where "raw_append_record H hasher u r = Inr w" using s by (auto simp: session_append bindE_eq_Inr)
  then show ?thesis
    by (auto simp: snoc raw_append_record_def bindE_eq_Inr raw_append_def Let_def split: if_splits)
qed

lemma log_next_lsn:
  assumes inv: "log_inv cs H hasher s es" and a: "vl_active s = Some a"
  shows "rw_next_expected_lsn (as_writer a) = vl_next_lsn s"
proof -
  obtain base init where base: "base \<le> length es" and len: "length es < 2 ^ 32"
    and i: "si_first_lsn init = word_of_nat base" "raw_session H hasher init (lsn_slice es base (length es)) = Inr (as_writer a)"
    and n: "vl_next_lsn s = word_of_nat (length es)"
    using inv a by (auto simp: log_inv_def active_holds_def)
  show ?thesis
  proof (cases "base = length es")
    case True
    then have "lsn_slice es base (length es) = []" by (simp add: lsn_slice_def)
    then show ?thesis using session_next_lsn [OF i(2)] i(1) n True by simp
  next
    case False
    then have ne: "[base..<length es] \<noteq> []" using base by auto
    then have "last (lsn_slice es base (length es)) = record_at es (length es - 1)"
      by (simp add: lsn_slice_def last_map del: upt_eq_Nil_conv) (use ne in auto)
    moreover have "unat (word_of_nat (length es - 1) :: u64) = length es - 1" "unat (word_of_nat (length es) :: u64) = length es"
      by (rule unat_index; use len in simp)+
    then have "saturating_add (word_of_nat (length es - 1)) 1 = (word_of_nat (length es) :: u64)"
      using ne len by (auto simp: word_unat_eq_iff unat_saturating_add)
    ultimately show ?thesis using session_next_lsn [OF i(2)] ne n by (simp add: lsn_slice_def record_at_def)
  qed
qed

lemma append_inner_succeeds:
  assumes inv: "log_inv cs H hasher s es" and enc: "enc_payload sc ep = Inr p" and f: "fits sc ep"
    and h: "hasher (head s) (hlc_of sc ep) p = Inr h" and roll: "\<not> needs_roll seg_max (length p) s"
    and k: "expected = None \<or> expected = Some (head s)"
  shows "\<exists>s'. append_inner cs H hasher sc seg_max wall s ep expected = (Inr (head s), s') \<and> vl_active s' \<noteq> None"
proof -
  obtain a where a: "vl_active s = Some a" using inv by (auto simp: log_inv_def)
  have "length p \<le> HARD_MAX_RECORD_BYTES"
    using f enc by (simp add: fits_def HARD_MAX_RECORD_BYTES_def HARD_MAX_BLOCK_BYTES_def)
  then show ?thesis
    using k enc h roll log_next_lsn [OF inv a] a
    by (auto simp: append_inner_def Let_def head_def append_active_def raw_append_def)
qed

text \<open>Appending is live. On any log a run leaves, an episode that encodes within the size limit and whose
  hash is computed is appended at the head whenever there is an active segment with room for it.\<close>

theorem append_succeeds:
  assumes run: "log_run cs H hasher sc seg_max s eps" and H: "digest32 H" and sc: "codec_ok sc"
    and active: "vl_active s \<noteq> None" and ep: "e = fst (stamp sc wall s ep)" and enc: "enc_payload sc e = Inr p" and f: "fits sc e"
    and h: "hasher (head s) (hlc_of sc e) p = Inr h" and roll: "\<not> needs_roll seg_max (length p) s" and len: "length eps + 1 < 2 ^ 32"
  shows "\<exists>s'. append_episode cs H hasher sc seg_max wall wall' s ep = (Inr (head s), s')
    \<and> log_run cs H hasher sc seg_max s' (eps @ [e])"
proof -
  let ?t = "snd (stamp sc wall s ep)"
  have "run_inv cs H hasher sc ?t eps"
    unfolding stamp_simps by (rule run_inv_clock [OF log_run_inv [OF run H sc active] hlc_next_ge])
  then have inv: "log_inv cs H hasher ?t (map (entry sc) eps)" by (simp add: run_inv_def)
  have t: "head ?t = head s" "needs_roll seg_max n ?t = needs_roll seg_max n s" for n
    by (simp_all add: stamp_simps head_def needs_roll_def)
  obtain s' where s': "append_inner cs H hasher sc seg_max wall' ?t e None = (Inr (head s), s')" "vl_active s' \<noteq> None"
    using append_inner_succeeds [OF inv enc f, of h seg_max None wall'] h roll t by auto
  then have a: "append_episode cs H hasher sc seg_max wall wall' s ep = (Inr (head s), s')"
    by (simp add: append_episode_inner ep)
  from log_run.appended [OF run a _ len] f show ?thesis using a by (auto simp: ep)
qed

section \<open>Witnesses\<close>

lemma append_inner_clock:
  assumes "\<And>n. \<not> needs_roll seg_max n s" and "append_inner cs H hasher sc seg_max wall s ep expected = (res, s')"
  shows "vl_hlc s' = vl_hlc s"
  using assms
  by (auto simp: append_inner_def append_active_def Let_def split: sum.splits if_splits option.splits prod.splits)

text \<open>Episodes that are a timestamp and some bytes.\<close>

definition toy_storage :: "(u64 \<times> bytes) storage_codec" where
  "toy_storage = \<lparr>enc_payload = (\<lambda>(h, p). Inr (to_le_bytes h @ p)),
     dec_payload = (\<lambda>b. if length b < 8 then Inl (corrupt [] []) else Inr (from_le_bytes (take 8 b), drop 8 b)),
     ep_identity = snd, stamp_hlc = (\<lambda>h ep. (h, snd ep)), hlc_of = fst\<rparr>"

lemma toy_storage_ok: "codec_ok toy_storage"
  by (auto simp: codec_ok_def toy_storage_def)

lemma example_log_empty:
  obtains s where "log_run toy_codecs toy_hash constant_hasher toy_storage (-1) s []"
    and "vl_hlc s = hlc_next 5 0" and "vl_active s \<noteq> None"
proof -
  have "reject_legacy_root [] = Inr ()" by (simp add: reject_legacy_root_def)
  from open_empty_holds [OF _ _ this, of "replicate 16 7" "-1" toy_codecs toy_hash constant_hasher 5]
  obtain s fs md where "open_log toy_codecs toy_hash constant_hasher [] (replicate 16 7) (-1) 5 [] [] = (Inr s, fs, md)"
    "vl_hlc s = hlc_next 5 0" "log_inv toy_codecs toy_hash constant_hasher s []" by auto
  with log_run.opened [OF this(1)] show thesis by (intro that [of s]) (auto simp: log_inv_def)
qed

lemma no_roll: "\<not> needs_roll (-1) n s"
  by (simp add: needs_roll_def not_less word_order.extremum split: option.splits)

lemma example_log:
  obtains s t h s' where "log_run toy_codecs toy_hash constant_hasher toy_storage (-1) s [(h, [4, 2])]"
    and "append_episode toy_codecs toy_hash constant_hasher toy_storage (-1) 6 6 t (0, [4, 2]) = (Inr 0, s)"
    and "vl_hlc s \<noteq> -1" and "vl_active s \<noteq> None"
    and "append_replicated toy_codecs toy_hash constant_hasher toy_storage (-1) 9 s 0 (3, [4, 2]) = (Inr 0, s')"
proof -
  obtain t where t: "log_run toy_codecs toy_hash constant_hasher toy_storage (-1) t []" "vl_hlc t = hlc_next 5 0" "vl_active t \<noteq> None"
    by (rule example_log_empty)
  note inv = log_run_inv [OF t(1) toy_digest toy_storage_ok t(3)]
  have hd: "head t = 0" using run_inv_head [OF inv] by simp
  let ?h = "hlc_next 6 (vl_hlc t)"
  have e: "(?h, [4, 2]) = fst (stamp toy_storage 6 t (0, [4, 2]))" by (simp add: stamp_simps toy_storage_def)
  have f: "enc_payload toy_storage (?h, [4, 2]) = Inr (to_le_bytes ?h @ [4, 2])" "fits toy_storage (?h, [4, 2])"
    by (simp_all add: toy_storage_def fits_def HARD_MAX_BLOCK_BYTES_def)
  obtain s where s: "append_inner toy_codecs toy_hash constant_hasher toy_storage (-1) 6 (snd (stamp toy_storage 6 t (0, [4, 2])))
      (?h, [4, 2]) None = (Inr 0, s)" "vl_active s \<noteq> None"
    using append_inner_succeeds [OF _ f, of toy_codecs toy_hash constant_hasher "t\<lparr>vl_hlc := ?h\<rparr>" "[]" "replicate 32 0" "-1" None 6]
      inv hd no_roll by (auto simp: run_inv_def stamp_simps head_def constant_hasher_def)
  then have a: "append_episode toy_codecs toy_hash constant_hasher toy_storage (-1) 6 6 t (0, [4, 2]) = (Inr 0, s)"
    by (simp add: append_episode_inner e)
  have run: "log_run toy_codecs toy_hash constant_hasher toy_storage (-1) s [(?h, [4, 2])]"
    using log_run.appended [OF t(1) a] f(2) e by simp
  note inv' = log_run_inv [OF run toy_digest toy_storage_ok s(2)]
  let ?s = "s\<lparr>vl_hlc := hlc_observe (vl_hlc s) 3\<rparr>"
  have i: "run_inv toy_codecs toy_hash constant_hasher toy_storage ?s [(?h, [4, 2])]"
    using run_inv_clock [OF inv'] by (simp add: hlc_observe_def)
  have r: "append_replicated toy_codecs toy_hash constant_hasher toy_storage (-1) 9 s 0 (3, [4, 2]) = (Inr 0, ?s)"
    using run_inv_read [OF i toy_lossless toy_digest toy_storage_ok, of 0] run_inv_head(2) [OF inv']
    by (simp add: append_replicated_def Let_def word_less_nat_alt head_def) (simp add: toy_storage_def)
  have "vl_hlc s = ?h" using append_inner_clock [OF no_roll s(1)] by (simp add: stamp_simps)
  then have "vl_hlc s \<noteq> -1" using t(2) by (simp add: hlc_next_def Let_def)
  from that [OF run a this s(2) r] show thesis .
qed

lemma log_refines_list_witness:
  "\<exists>s t h. read_episode toy_codecs toy_storage s 0 = Inr (Some (0, (h, [4, 2]))) \<and> unat (head s) = 1
    \<and> t = s\<lparr>vl_active := None\<rparr> \<and> read_episode toy_codecs toy_storage t 0 = Inl (StorageEngine ''V6Log sem segmento ativo'')
    \<and> unat (head t) = 1"
proof -
  obtain s t h s' where run: "log_run toy_codecs toy_hash constant_hasher toy_storage (-1) s [(h, [4, 2])]"
    and act: "vl_active s \<noteq> None" by (rule example_log)
  have stopped: "log_run toy_codecs toy_hash constant_hasher toy_storage (-1) (s\<lparr>vl_active := None\<rparr>) [(h, [4, 2])]"
    by (rule log_run.seal_io_error [OF run]) simp_all
  from log_refines_list [OF run toy_lossless toy_digest toy_storage_ok, of 0]
    log_refines_list [OF stopped toy_lossless toy_digest toy_storage_ok, of 0] act
  show ?thesis by (intro exI [of _ s] exI [of _ "s\<lparr>vl_active := None\<rparr>"] exI [of _ h]) auto
qed

lemma scan_returns_slice_witness:
  "\<exists>s h. scan_capped toy_codecs toy_storage s 0 9 5 = Inr [(0, (h, [4, 2]))]"
proof -
  obtain s t h s' where run: "log_run toy_codecs toy_hash constant_hasher toy_storage (-1) s [(h, [4, 2])]"
    and "vl_active s \<noteq> None" by (rule example_log)
  with scan_returns_slice [OF run toy_lossless toy_digest toy_storage_ok, of 0 9 5] show ?thesis by (auto simp: Let_def)
qed

lemma replicated_append_exact_witness:
  "\<exists>s s'. append_replicated toy_codecs toy_hash constant_hasher toy_storage (-1) 9 s 0 (3, [4, 2]) = (Inr 0, s')
    \<and> s' = s\<lparr>vl_hlc := vl_hlc s'\<rparr>"
proof -
  obtain s t h s' where run: "log_run toy_codecs toy_hash constant_hasher toy_storage (-1) s [(h, [4, 2])]"
    and r: "append_replicated toy_codecs toy_hash constant_hasher toy_storage (-1) 9 s 0 (3, [4, 2]) = (Inr 0, s')"
    by (rule example_log)
  have "enc_payload toy_storage (3, [4, 2]) = Inr (to_le_bytes (3 :: u64) @ [4, 2])" "fits toy_storage (3, [4, 2])"
    by (simp_all add: toy_storage_def fits_def HARD_MAX_BLOCK_BYTES_def)
  from replicated_append_exact [OF run toy_lossless toy_digest toy_storage_ok r this] r show ?thesis by auto
qed

lemma append_stamps_increase_witness:
  "\<exists>s h. log_run toy_codecs toy_hash constant_hasher toy_storage (-1) s [(h, [4, 2])]
    \<and> h < hlc_of toy_storage (fst (stamp toy_storage 0 s (0, [])))"
proof -
  obtain s t h s' where run: "log_run toy_codecs toy_hash constant_hasher toy_storage (-1) s [(h, [4, 2])]" and top: "vl_hlc s \<noteq> -1"
    by (rule example_log)
  from append_stamps_increase [OF run toy_digest toy_storage_ok top, of "(h, [4, 2])" 0 "(0, [])"] run show ?thesis
    by (auto simp: toy_storage_def)
qed

lemma append_succeeds_witness:
  "\<exists>s s'. append_episode toy_codecs toy_hash constant_hasher toy_storage (-1) 6 6 s (0, [1]) = (Inr 0, s')"
proof -
  obtain t where t: "log_run toy_codecs toy_hash constant_hasher toy_storage (-1) t []" and act: "vl_active t \<noteq> None"
    by (rule example_log_empty)
  have hd: "head t = 0" using run_inv_head [OF log_run_inv [OF t toy_digest toy_storage_ok act]] by simp
  let ?e = "fst (stamp toy_storage 6 t (0, [1]))"
  have f: "enc_payload toy_storage ?e = Inr (to_le_bytes (fst ?e) @ [1])" "fits toy_storage ?e"
    by (simp_all add: toy_storage_def fits_def HARD_MAX_BLOCK_BYTES_def stamp_simps)
  have "constant_hasher (head t) (hlc_of toy_storage ?e) (to_le_bytes (fst ?e) @ [1]) = Inr (replicate 32 0)"
    by (simp add: constant_hasher_def)
  from append_succeeds [OF t toy_digest toy_storage_ok act refl f this no_roll, of 6] hd show ?thesis by auto
qed

text \<open>A seal fails, for instance, when the final name of the segment is taken.\<close>

lemma failed_seal_stops_log_witness:
  "\<exists>s e s'. seal_active_locked toy_codecs toy_hash constant_hasher 8 s = (Inl e, s') \<and> flush s = Inr () \<and> flush s' \<noteq> Inr ()"
proof -
  obtain s t h s' where run: "log_run toy_codecs toy_hash constant_hasher toy_storage (-1) s [(h, [4, 2])]" and "vl_active s \<noteq> None"
    by (rule example_log)
  then obtain a where a: "vl_active s = Some a" by auto
  have "\<exists>fs e t'. seal_active_locked toy_codecs toy_hash constant_hasher 8 (s\<lparr>vl_fs := fs\<rparr>) = (Inl e, t')"
  proof (cases "rw_record_count (as_writer a) = 0")
    case True
    then show ?thesis by (intro exI [of _ "[]"]) (simp add: seal_active_locked_def Let_def a)
  next
    case False
    then show ?thesis
      by (intro exI [of _ "[(raw_path (as_id a), [])]"])
        (simp add: seal_active_locked_def Let_def a dir_simps split: prod.splits)
  qed
  then obtain fs e t' where seal: "seal_active_locked toy_codecs toy_hash constant_hasher 8 (s\<lparr>vl_fs := fs\<rparr>) = (Inl e, t')"
    by blast
  have "enc_payload toy_storage (0, []) = Inr (to_le_bytes (0 :: u64))" by (simp add: toy_storage_def)
  from failed_seal_stops_log [OF seal this, of "replicate 32 0"] have "flush t' \<noteq> Inr ()" by (simp add: constant_hasher_def)
  moreover have "flush (s\<lparr>vl_fs := fs\<rparr>) = Inr ()" by (simp add: flush_def a)
  ultimately show ?thesis using seal by blast
qed

end
