(* ===== verification/Episode_Log.thy ===== *)
theory Episode_Log
  imports Prelude
begin

text \<open>
  The interface of a log of episodes, as the layers above it use it (\<open>head\<close>, \<open>append_replicated\<close> and
  \<open>scan_capped\<close> of \<open>heraclitus_log::Log\<close> and of \<open>V6Log\<close>), and its contract against the list of the
  episodes appended so far.
\<close>

record ('log, 'ep) log_api =
  la_head :: "'log \<Rightarrow> u64"
  la_append :: "'log \<Rightarrow> u64 \<Rightarrow> 'ep \<Rightarrow> (string + u64) \<times> 'log"
  la_scan :: "'log \<Rightarrow> u64 \<Rightarrow> u64 \<Rightarrow> nat \<Rightarrow> string + (u64 \<times> 'ep) list"

text \<open>\<open>holds l eps\<close>: the log \<open>l\<close> is the list \<open>eps\<close>. A log takes episodes that are \<open>admissible\<close>, up to a capacity.\<close>

locale episode_log =
  fixes A :: "('log, 'ep) log_api" and holds :: "'log \<Rightarrow> 'ep list \<Rightarrow> bool" and admissible :: "'ep \<Rightarrow> bool" and capacity :: nat
  assumes capacity: "capacity \<le> 2 ^ 64"
    and fits: "holds l eps \<Longrightarrow> length eps < capacity"
    and head_law: "holds l eps \<Longrightarrow> la_head A l = word_of_nat (length eps)"
    and append_law: "holds l eps \<Longrightarrow> admissible ep \<Longrightarrow> length eps + 1 < capacity
      \<Longrightarrow> la_append A l (la_head A l) ep = (Inr k, l') \<Longrightarrow> holds l' (eps @ [ep])"
    and scan_law: "holds l eps
      \<Longrightarrow> la_scan A l a b n = Inr (map (\<lambda>i. (word_of_nat i, eps ! i)) (take n [unat a..<min (unat b) (length eps)]))"
begin

lemma unat_head: "holds l eps \<Longrightarrow> unat (la_head A l) = length eps"
proof -
  assume h: "holds l eps"
  then have "length eps < 2 ^ 64" using fits capacity by (meson less_le_trans)
  then show ?thesis by (simp add: head_law [OF h] unsigned_of_nat take_bit_nat_eq_self)
qed

lemma below_head: "holds l eps \<Longrightarrow> i < length eps \<Longrightarrow> unat (word_of_nat i :: u64) = i"
proof -
  assume "holds l eps" and "i < length eps"
  then have "i < 2 ^ 64" using fits capacity by (meson less_le_trans less_trans)
  then show ?thesis by (simp add: unsigned_of_nat take_bit_nat_eq_self)
qed

text \<open>A log is one list.\<close>

lemma holds_unique:
  assumes a: "holds l eps" and b: "holds l eps'"
  shows "eps' = eps"
proof -
  let ?slice = "\<lambda>xs. map (\<lambda>i. (word_of_nat i :: u64, xs ! i)) [0..<length eps]"
  have len: "length eps' = length eps" using unat_head [OF a] unat_head [OF b] by simp
  have sc: "la_scan A l 0 (la_head A l) (length eps) = Inr (?slice xs)" if x: "holds l xs" "length xs = length eps" for xs
    using scan_law [OF x(1), of 0 "la_head A l" "length eps"] unat_head [OF a] x(2) by simp
  have "Inr (?slice eps) = (Inr (?slice eps') :: string + _)" using sc [OF a refl] sc [OF b len] by (rule trans [OF sym])
  then have "\<forall>i \<in> set [0..<length eps]. (word_of_nat i :: u64, eps ! i) = (word_of_nat i, eps' ! i)"
    unfolding sum.inject map_eq_conv .
  then show ?thesis using len by (intro nth_equalityI) auto
qed

end

section \<open>A list as a log\<close>

definition list_api :: "('ep list, 'ep) log_api" where
  "list_api = \<lparr>la_head = (\<lambda>l. word_of_nat (length l)),
     la_append = (\<lambda>l k ep. if k = word_of_nat (length l) then (Inr k, l @ [ep]) else (Inl ''gap'', l)),
     la_scan = (\<lambda>l a b n. Inr (map (\<lambda>i. (word_of_nat i, l ! i)) (take n [unat a..<min (unat b) (length l)])))\<rparr>"

abbreviation list_holds :: "'ep list \<Rightarrow> 'ep list \<Rightarrow> bool" where
  "list_holds l eps \<equiv> l = eps \<and> length eps < 1000"

lemma list_log: "episode_log list_api list_holds (\<lambda>_. True) 1000"
  by unfold_locales (auto simp: list_api_def)

end
