(* ===== verification/V6_Log_Api.thy ===== *)
theory V6_Log_Api
  imports V6_Log_Behaviour Episode_Log
begin

text \<open>
  \<open>V6Log\<close> provides the interface of \<open>Episode_Log\<close>. The layers above call the older \<open>heraclitus_log::Log\<close>, so
  no code uses \<open>V6Log\<close> in this way yet: the instance shows that the contract they rely on is one that the log
  meant to replace it keeps. The state carries the readings of the wall clock that the appends to come will make.
\<close>

definition v6_api :: "codecs \<Rightarrow> hash_fn \<Rightarrow> record_hasher \<Rightarrow> 'ep storage_codec \<Rightarrow> u64 \<Rightarrow> (v6_log \<times> u64 list, 'ep) log_api" where
  "v6_api cs H hasher sc segment_max_bytes = \<lparr>
     la_head = (\<lambda>(s, walls). head s),
     la_append = (\<lambda>(s, walls) k ep.
       case append_replicated cs H hasher sc segment_max_bytes (case walls of [] \<Rightarrow> 0 | w # _ \<Rightarrow> w) s k ep of
         (Inl e, s) \<Rightarrow> (Inl ''V6Log::append_replicated'', s, tl walls)
       | (Inr k, s) \<Rightarrow> (Inr k, s, tl walls)),
     la_scan = (\<lambda>(s, walls) a b n. case scan_capped cs sc s a b n of
         Inl e \<Rightarrow> Inl ''V6Log::scan_capped'' | Inr found \<Rightarrow> Inr found)\<rparr>"

definition v6_holds :: "codecs \<Rightarrow> hash_fn \<Rightarrow> record_hasher \<Rightarrow> 'ep storage_codec \<Rightarrow> v6_log \<times> u64 list \<Rightarrow> 'ep list \<Rightarrow> bool" where
  "v6_holds cs H hasher sc l eps \<longleftrightarrow> codecs_lossless cs \<and> digest32 H \<and> codec_ok sc \<and> run_inv cs H hasher sc (fst l) eps"

lemma append_keeps_active:
  "append_inner cs H hasher sc seg_max wall s ep expected = (Inr k, s') \<Longrightarrow> vl_active s' \<noteq> None"
  by (auto simp: append_inner_def append_active_def Let_def split: sum.splits if_splits prod.splits option.splits)

interpretation v6_log: episode_log "v6_api cs H hasher sc seg_max" "v6_holds cs H hasher sc" "V6_Log_Run.fits sc" "2 ^ 32"
  for cs H hasher and sc :: "'ep storage_codec" and seg_max
proof (unfold_locales, goal_cases)
  case 1
  then show ?case by simp
next
  case (2 l eps)
  then show ?case by (simp add: v6_holds_def run_inv_def log_inv_def)
next
  case (3 l eps)
  then show ?case using run_inv_head(1) by (auto simp: v6_holds_def v6_api_def split: prod.splits)
next
  case (4 l eps ep k l')
  obtain s walls where l: "l = (s, walls)" by fastforce
  let ?wall = "case walls of [] \<Rightarrow> 0 | w # _ \<Rightarrow> w"
  have inv: "run_inv cs H hasher sc s eps" and H: "digest32 H" using 4(1) by (simp_all add: v6_holds_def l)
  obtain s' where ok: "append_replicated cs H hasher sc seg_max ?wall s (head s) ep = (Inr k, s')" and l': "l' = (s', tl walls)"
    using 4(4) by (auto simp: v6_api_def l split: prod.splits sum.splits)
  have "vl_active s' \<noteq> None" using ok append_keeps_active by (auto simp: append_replicated_def Let_def head_def)
  then have "run_inv cs H hasher sc s' (eps @ [ep])"
    using run_state_active [OF run_replicated [OF run_inv_state [OF inv] H 4(3) ok 4(2)]] by simp
  then show ?case using 4(1) by (simp add: v6_holds_def l l')
next
  case (5 l eps a b n)
  obtain s walls where l: "l = (s, walls)" by fastforce
  show ?case using run_inv_scan [of cs H hasher sc s eps a b n] 5 by (simp add: v6_holds_def v6_api_def l)
qed

end
