(* ===== verification/Dir_Crash.thy ===== *)
theory Dir_Crash
  imports Manifest_Store
begin

text \<open>
  Crashes of a list of file operations: it stops before any of them, or inside a write, which then leaves
  arbitrary bytes in the file it was writing.
\<close>

inductive crash :: "directory \<Rightarrow> dir_op list \<Rightarrow> directory \<Rightarrow> bool" where
  stopped: "crash d ops d"
| torn: "crash d (WriteAndSync n bytes # ops) (AList.update n junk d)"
| advanced: "run_op op d = Inr d' \<Longrightarrow> crash d' ops e \<Longrightarrow> crash d (op # ops) e"

inductive_cases crash_nilE: "crash d [] e"
inductive_cases crash_writeE: "crash d (WriteAndSync n bytes # ops) e"
inductive_cases crash_renameE: "crash d (Rename a b # ops) e"
inductive_cases crash_syncE: "crash d (SyncDir # ops) e"

lemma run_ops_crash: "run_ops ops d = Inr e \<Longrightarrow> crash d ops e"
  by (induction ops arbitrary: d) (auto simp: run_ops_def intro: crash.intros elim!: bindE_InrE)

lemma crash_of_replace:
  assumes "crash d [WriteAndSync tmp bytes, Rename tmp final_path, SyncDir] e" and "tmp \<noteq> final_path"
  shows "(\<forall>n. n \<noteq> tmp \<longrightarrow> map_of e n = map_of d n)
    \<or> (map_of e final_path = Some bytes \<and> (\<forall>n. n \<noteq> tmp \<longrightarrow> n \<noteq> final_path \<longrightarrow> map_of e n = map_of d n))"
  using assms
  by (elim crash_writeE crash_renameE crash_syncE crash_nilE) (auto simp: update_conv' delete_conv' split: if_splits)

lemma run_replace:
  assumes "tmp \<noteq> final_path"
  shows "\<exists>e. run_ops [WriteAndSync tmp bytes, Rename tmp final_path, SyncDir] d = Inr e \<and> map_of e final_path = Some bytes
    \<and> (\<forall>n. n \<noteq> tmp \<longrightarrow> n \<noteq> final_path \<longrightarrow> map_of e n = map_of d n)"
  using assms by (simp add: run_ops_def update_conv' delete_conv')

end
