(* ===== verification/Manifest_Store_Correct.thy ===== *)
theory Manifest_Store_Correct
  imports Dir_Crash Manifest_Store_Names Manifest_Correct
begin

text \<open>
  Crash safety of \<open>ManifestStore\<close>. The store is
  shown to refine an atomic register: whatever stops a commit, the next \<open>load\<close> returns the previous
  manifest or the new one, and sweeping and pruning never change what it returns.
\<close>

declare map_of_eq_Some_iff [simp del]

section \<open>The state of the directory\<close>

text \<open>Manifest files are complete, carry their generation and are named canonically; \<open>CURRENT\<close>, when
  there is one, points at a manifest file and carries its digest.\<close>

definition manifest_file :: "hash_fn \<Rightarrow> directory \<Rightarrow> u64 \<Rightarrow> database_manifest \<Rightarrow> bool" where
  "manifest_file H d g m \<longleftrightarrow> (\<exists>bytes. map_of d (path_for g) = Some bytes
     \<and> decode_manifest H bytes = Inr m \<and> dm_manifest_generation m = g)"

definition points_at :: "hash_fn \<Rightarrow> directory \<Rightarrow> u64 \<Rightarrow> bool" where
  "points_at H d g \<longleftrightarrow> (\<exists>bytes. map_of d (path_for g) = Some bytes
     \<and> map_of d CURRENT_FILE = Some (pointer_payload H g bytes))"

definition store_inv :: "hash_fn \<Rightarrow> directory \<Rightarrow> bool" where
  "store_inv H d \<longleftrightarrow> distinct (map fst d)
     \<and> (\<forall>n g. map_of d n \<noteq> None \<longrightarrow> generation_of n = Some g \<longrightarrow> n = path_for g \<and> (\<exists>m. manifest_file H d g m))
     \<and> (map_of d CURRENT_FILE \<noteq> None \<longrightarrow> (\<exists>g. points_at H d g))"

definition loaded_view :: "hash_fn \<Rightarrow> directory \<Rightarrow> database_manifest option" where
  "loaded_view H d = map_option lo_manifest (load H d)"

definition selected :: "hash_fn \<Rightarrow> directory \<Rightarrow> u64 \<Rightarrow> bool" where
  "selected H d g \<longleftrightarrow> (if map_of d CURRENT_FILE \<noteq> None then points_at H d g
     else map_of d (path_for g) \<noteq> None \<and> (\<forall>h. map_of d (path_for h) \<noteq> None \<longrightarrow> h \<le> g))"

lemma mem_map_filter: "y \<in> set (List.map_filter f xs) \<longleftrightarrow> (\<exists>x \<in> set xs. f x = Some y)"
  by (induction xs) (auto simp: List.map_filter_simps split: option.split)

lemma set_generations:
  assumes "store_inv H d"
  shows "g \<in> set (generations d) \<longleftrightarrow> (\<exists>c. map_of d (path_for g) = Some c)"
proof
  assume "g \<in> set (generations d)"
  then obtain n where "n \<in> fst ` set d" "generation_of n = Some g"
    by (auto simp: generations_def mem_map_filter)
  moreover from this(1) have n: "map_of d n \<noteq> None" by (simp add: map_of_eq_None_iff)
  ultimately have "n = path_for g" using assms unfolding store_inv_def by blast
  with n show "\<exists>c. map_of d (path_for g) = Some c" by auto
next
  assume "\<exists>c. map_of d (path_for g) = Some c"
  then have "path_for g \<in> fst ` set d" by (metis map_of_eq_None_iff option.distinct(1))
  then show "g \<in> set (generations d)" by (force simp: generations_def mem_map_filter)
qed

lemma sorted_generations: "sorted (generations d)"
  by (simp add: generations_def)

lemma generation_le_last: "sorted gs \<Longrightarrow> h \<in> set gs \<Longrightarrow> h \<le> last gs"
  by (induction gs) auto

section \<open>What \<open>load\<close> returns\<close>

lemma load_from_current_pointed:
  assumes "map_of d (path_for g) = Some bytes" and "decode_manifest H bytes = Inr m"
    and "map_of d CURRENT_FILE = Some (pointer_payload H g bytes)"
  shows "\<exists>l. load_from_current H d = Some l \<and> lo_manifest l = m \<and> lo_generation l = dm_manifest_generation m"
  using assms by (simp add: load_from_current_def pointer_payload_reads)

lemma load_from_current_None: "map_of d CURRENT_FILE = None \<Longrightarrow> load_from_current H d = None"
  by (simp add: load_from_current_def)

lemma load_selected:
  assumes inv: "store_inv H d" and sel: "selected H d g"
  obtains m where "manifest_file H d g m" and "loaded_view H d = Some m"
proof -
  have "map_of d (path_for g) \<noteq> None"
    using sel by (auto simp: selected_def points_at_def split: if_splits)
  then obtain m where m: "manifest_file H d g m"
    using inv generation_of_path_for unfolding store_inv_def by blast
  then obtain bytes where b: "map_of d (path_for g) = Some bytes" "decode_manifest H bytes = Inr m"
    by (auto simp: manifest_file_def)
  have "loaded_view H d = Some m"
  proof (cases "map_of d CURRENT_FILE")
    case (Some raw)
    then have "map_of d CURRENT_FILE = Some (pointer_payload H g bytes)"
      using sel b(1) by (auto simp: selected_def points_at_def)
    from load_from_current_pointed [OF b this] show ?thesis by (auto simp: loaded_view_def load_def)
  next
    case None
    then have g: "g \<in> set (generations d)" "\<forall>h \<in> set (generations d). h \<le> g"
      using sel by (auto simp: selected_def set_generations [OF inv])
    then have "last (generations d) = g"
      using generation_le_last [OF sorted_generations] last_in_set
      by (metis antisym empty_iff empty_set)
    then obtain gs where "rev (generations d) = g # gs"
      using g(1) by (metis append_butlast_last_id empty_iff empty_set rev_eq_Cons_iff rev_rev_ident)
    then show ?thesis using None b by (simp add: loaded_view_def load_def load_from_current_None)
  qed
  with m show thesis by (rule that)
qed

lemma nothing_selected:
  assumes "store_inv H d" and "\<nexists>g. selected H d g"
  shows "loaded_view H d = None" and "map_of d (path_for h) = None" and "map_of d CURRENT_FILE = None"
proof -
  show c: "map_of d CURRENT_FILE = None"
    using assms by (auto simp: store_inv_def selected_def split: if_splits)
  have "generations d = []"
  proof (rule ccontr)
    assume "generations d \<noteq> []"
    then have "selected H d (last (generations d))"
      using c last_in_set [of "generations d"] generation_le_last [OF sorted_generations, of _ d]
      by (auto simp: selected_def set_generations [OF assms(1)])
    then show False using assms(2) by blast
  qed
  then show "loaded_view H d = None" and "map_of d (path_for h) = None"
    using c set_generations [OF assms(1)] by (auto simp: loaded_view_def load_def load_from_current_None)
qed

section \<open>Changes of the directory\<close>

text \<open>Only \<open>CURRENT\<close> and the names that parse as a generation matter to \<open>load\<close>.\<close>

definition matters :: "file_name \<Rightarrow> bool" where
  "matters n \<longleftrightarrow> n = CURRENT_FILE \<or> generation_of n \<noteq> None"

lemma matters_names [simp]:
  "matters CURRENT_FILE" "matters (path_for g)" "\<not> matters (with_suffix n TMP)"
  by (simp_all add: matters_def)

definition agrees :: "directory \<Rightarrow> directory \<Rightarrow> bool" where
  "agrees d e \<longleftrightarrow> distinct (map fst e) \<and> (\<forall>n. matters n \<longrightarrow> map_of e n = map_of d n)"

lemma agrees_facts:
  assumes "agrees d e"
  shows "manifest_file H e g m \<longleftrightarrow> manifest_file H d g m" and "points_at H e g \<longleftrightarrow> points_at H d g"
    and "selected H e g \<longleftrightarrow> selected H d g"
proof -
  have c: "map_of e CURRENT_FILE = map_of d CURRENT_FILE" "\<And>g. map_of e (path_for g) = map_of d (path_for g)"
    using assms by (simp_all add: agrees_def)
  show "manifest_file H e g m \<longleftrightarrow> manifest_file H d g m" by (simp add: manifest_file_def c)
  show p: "points_at H e g \<longleftrightarrow> points_at H d g" by (simp add: points_at_def c)
  show "selected H e g \<longleftrightarrow> selected H d g" by (simp add: selected_def c p)
qed

text \<open>What \<open>load\<close> returns is a function of the selected generation and its file.\<close>

lemma same_view:
  assumes "store_inv H d" and "store_inv H e" and "\<And>g. selected H e g \<longleftrightarrow> selected H d g"
    and "\<And>g m. selected H d g \<Longrightarrow> manifest_file H e g m \<longleftrightarrow> manifest_file H d g m"
  shows "loaded_view H e = loaded_view H d"
proof (cases "\<exists>g. selected H d g")
  case True
  then obtain g where g: "selected H d g" by blast
  obtain m where m: "manifest_file H d g m" "loaded_view H d = Some m" using load_selected [OF assms(1) g] .
  obtain n where n: "manifest_file H e g n" "loaded_view H e = Some n"
    using load_selected [OF assms(2)] g assms(3) by blast
  have "n = m" using m(1) n(1) assms(4) [OF g] by (auto simp: manifest_file_def)
  with m n show ?thesis by simp
next
  case False
  then show ?thesis using nothing_selected(1) assms(1-3) by metis
qed

lemma agrees_view:
  assumes inv: "store_inv H d" and a: "agrees d e"
  shows "store_inv H e" and "loaded_view H e = loaded_view H d"
proof -
  show i: "store_inv H e"
    unfolding store_inv_def
  proof (intro conjI allI impI)
    show "distinct (map fst e)" using a by (simp add: agrees_def)
  next
    fix n g assume "map_of e n \<noteq> None" and g: "generation_of n = Some g"
    then have "map_of d n \<noteq> None" using a by (simp add: agrees_def matters_def)
    then show "n = path_for g" and "\<exists>m. manifest_file H e g m"
      using inv g unfolding store_inv_def agrees_facts [OF a] by blast+
  next
    assume "map_of e CURRENT_FILE \<noteq> None"
    then show "\<exists>g. points_at H e g"
      using inv a unfolding agrees_facts [OF a] by (simp add: store_inv_def agrees_def)
  qed
  show "loaded_view H e = loaded_view H d"
    by (rule same_view [OF inv i]) (simp_all add: agrees_facts [OF a])
qed

lemma pointer_payload_gen: "pointer_payload H g b = pointer_payload H h c \<Longrightarrow> g = h"
  using pointer_payload_reads(2) [of H g b] pointer_payload_reads(2) [of H h c] by simp

text \<open>A new manifest file, numbered above every other one.\<close>

definition fresh :: "directory \<Rightarrow> u64 \<Rightarrow> bool" where
  "fresh d g \<longleftrightarrow> (\<forall>h c. map_of d (path_for h) = Some c \<longrightarrow> h < g)"

lemma new_file:
  assumes inv: "store_inv H d" and g: "fresh d g" and keys: "distinct (map fst e)"
    and e: "\<And>n. matters n \<Longrightarrow> map_of e n = (if n = path_for g then Some bytes else map_of d n)"
    and m: "decode_manifest H bytes = Inr m" "dm_manifest_generation m = g"
  shows "store_inv H e" and "loaded_view H e = (if map_of d CURRENT_FILE = None then Some m else loaded_view H d)"
proof -
  have new: "manifest_file H e g m" using e [of "path_for g"] m by (simp add: manifest_file_def)
  have old: "manifest_file H e h k \<longleftrightarrow> manifest_file H d h k" if "h \<noteq> g" for h k
    using that e [of "path_for h"] by (simp add: manifest_file_def)
  have below: "h < g" if "map_of d (path_for h) = Some c" for h c using g that by (auto simp: fresh_def)
  have pts: "points_at H e h \<longleftrightarrow> points_at H d h" if "map_of d (path_for h) \<noteq> None" for h
    using that below e [of "path_for h"] e [of CURRENT_FILE] by (auto simp: points_at_def)
  show i: "store_inv H e"
    unfolding store_inv_def
  proof (intro conjI allI impI)
    fix n h assume n: "map_of e n \<noteq> None" and h: "generation_of n = Some h"
    have "n = path_for h \<and> (\<exists>k. manifest_file H e h k)"
    proof (cases "n = path_for g")
      case True
      then show ?thesis using new h by auto
    next
      case False
      then have "map_of d n \<noteq> None" using n h e [of n] by (simp add: matters_def)
      then have "n = path_for h" "\<exists>k. manifest_file H d h k" using inv h unfolding store_inv_def by blast+
      then show ?thesis using False old [of h] by auto
    qed
    then show "n = path_for h" and "\<exists>k. manifest_file H e h k" by blast+
  next
    assume "map_of e CURRENT_FILE \<noteq> None"
    then have "map_of d CURRENT_FILE \<noteq> None" using e [of CURRENT_FILE] by simp
    then obtain h where "points_at H d h" using inv unfolding store_inv_def by blast
    then show "\<exists>g. points_at H e g" using pts [of h] by (auto simp: points_at_def)
  qed (rule keys)
  show "loaded_view H e = (if map_of d CURRENT_FILE = None then Some m else loaded_view H d)"
  proof (cases "map_of d CURRENT_FILE")
    case None
    then have "selected H e g"
      using e below by (auto simp: selected_def split: if_splits intro: less_imp_le)
    from load_selected [OF i this] obtain k where "manifest_file H e g k" "loaded_view H e = Some k" .
    then show ?thesis using new None by (auto simp: manifest_file_def)
  next
    case (Some raw)
    then obtain h0 where h0: "points_at H d h0" using inv unfolding store_inv_def by blast
    have "\<not> points_at H e g"
      using h0 below e [of CURRENT_FILE] by (auto simp: points_at_def dest!: pointer_payload_gen dest: below)
    moreover have "\<not> points_at H d g" using below by (auto simp: points_at_def)
    ultimately have "points_at H e h \<longleftrightarrow> points_at H d h" for h
      using pts [of h] e [of "path_for h"] by (cases "h = g") (auto simp: points_at_def)
    then have s: "selected H e h \<longleftrightarrow> selected H d h" for h
      using Some e [of CURRENT_FILE] by (simp add: selected_def)
    have "h \<noteq> g" if "selected H d h" for h
      using that Some below by (auto simp: selected_def points_at_def)
    then show ?thesis using same_view [OF inv i s] old Some by simp
  qed
qed


text \<open>A pointer to the newest file.\<close>

lemma new_pointer:
  assumes inv: "store_inv H d" and g: "map_of d (path_for g) = Some bytes" and keys: "distinct (map fst e)"
    and e: "\<And>n. matters n \<Longrightarrow> map_of e n = (if n = CURRENT_FILE then Some (pointer_payload H g bytes) else map_of d n)"
    and m: "decode_manifest H bytes = Inr m"
  shows "store_inv H e" and "loaded_view H e = Some m"
proof -
  have f: "manifest_file H e h k \<longleftrightarrow> manifest_file H d h k" for h k
    using e [of "path_for h"] by (simp add: manifest_file_def)
  have p: "points_at H e g" using e [of CURRENT_FILE] e [of "path_for g"] g by (simp add: points_at_def)
  show i: "store_inv H e"
    unfolding store_inv_def
  proof (intro conjI allI impI)
    fix n h assume n: "map_of e n \<noteq> None" and h: "generation_of n = Some h"
    then have "map_of d n \<noteq> None" using e [of n] by (auto simp: matters_def split: if_splits)
    then show "n = path_for h" and "\<exists>k. manifest_file H e h k"
      using inv h unfolding store_inv_def f by blast+
  qed (use keys p in blast)+
  have "selected H e g" using p e [of CURRENT_FILE] by (simp add: selected_def)
  from load_selected [OF i this] obtain k where "manifest_file H e g k" "loaded_view H e = Some k" .
  then show "loaded_view H e = Some m" using f g m by (auto simp: manifest_file_def)
qed

section \<open>Committing\<close>

lemma crash_of_commit:
  assumes "crash d (commit_ops H g bytes) e" and "distinct (map fst d)"
  shows "agrees d e
    \<or> (distinct (map fst e) \<and> (\<forall>n. matters n \<longrightarrow> map_of e n = (if n = path_for g then Some bytes else map_of d n)))
    \<or> (distinct (map fst e) \<and> (\<forall>n. matters n \<longrightarrow> map_of e n = (if n = CURRENT_FILE then Some (pointer_payload H g bytes)
         else if n = path_for g then Some bytes else map_of d n)))"
proof -
  have t: "n \<noteq> with_suffix k TMP" if "matters n" for n k using that by auto
  note up = distinct_update distinct_delete update_conv' delete_conv'
  show ?thesis
    using assms unfolding commit_ops_def Let_def
    by (elim crash_writeE crash_renameE crash_syncE crash_nilE)
       (auto simp: agrees_def up t pointer_payload_def dest: t)
qed


text \<open>The manifest a commit writes, and the conditions under which it can be written at all.\<close>

definition stamped :: "directory \<Rightarrow> database_manifest \<Rightarrow> database_manifest" where
  "stamped d m = m\<lparr>dm_manifest_generation := next_generation d, dm_format_identifier := HRKM_MAGIC\<rparr>"

definition has_room :: "directory \<Rightarrow> bool" where
  "has_room d \<longleftrightarrow> (\<forall>g c. map_of d (path_for g) = Some c \<longrightarrow> g < 18446744073709551615)"

lemma stamped_ok: "manifest_ok m \<Longrightarrow> manifest_ok (stamped d m)"
  by (simp add: manifest_ok_def stamped_def)

lemma next_generation_fresh:
  assumes "store_inv H d" and "has_room d"
  shows "fresh d (next_generation d)"
  unfolding fresh_def
proof (intro allI impI)
  fix h c assume h: "map_of d (path_for h) = Some c"
  then have mem: "h \<in> set (generations d)" using set_generations [OF assms(1)] by blast
  then have ne: "generations d \<noteq> []" by auto
  have le: "h \<le> last (generations d)" by (rule generation_le_last [OF sorted_generations mem])
  obtain c' where "map_of d (path_for (last (generations d))) = Some c'"
    using set_generations [OF assms(1)] last_in_set [OF ne] by blast
  then have "last (generations d) < 18446744073709551615" using assms(2) by (auto simp: has_room_def)
  then have "last (generations d) < last (generations d) + 1"
    by (simp add: word_less_nat_alt unat_word_ariths)
  with le show "h < next_generation d" by (simp add: next_generation_def ne)
qed

lemma commit_crash_atomic:
  assumes inv: "store_inv H d" and room: "has_room d" and m: "manifest_ok m" and H: "\<forall>x. length (H x) = 32"
    and enc: "encode_manifest H (stamped d m) = Inr bytes"
    and crash: "crash d (commit_ops H (next_generation d) bytes) e"
  shows "store_inv H e \<and> loaded_view H e \<in> {loaded_view H d, Some (stamped d m)}"
proof -
  let ?g = "next_generation d"
  note fresh = next_generation_fresh [OF inv room]
  have dec: "decode_manifest H bytes = Inr (stamped d m)"
    by (rule encode_then_decode [OF enc stamped_ok [OF m] H])
  have g: "dm_manifest_generation (stamped d m) = ?g" by (simp add: stamped_def)
  have "distinct (map fst d)" using inv by (simp add: store_inv_def)
  from crash_of_commit [OF crash this] show ?thesis
  proof (elim disjE conjE)
    assume "agrees d e" then show ?thesis using agrees_view [OF inv] by simp
  next
    assume "distinct (map fst e)" "\<forall>n. matters n \<longrightarrow> map_of e n = (if n = path_for ?g then Some bytes else map_of d n)"
    then show ?thesis using new_file [OF inv fresh _ _ dec g] by simp
  next
    let ?d = "AList.update (path_for ?g) bytes d"
    assume k: "distinct (map fst e)" and e: "\<forall>n. matters n \<longrightarrow> map_of e n = (if n = CURRENT_FILE
        then Some (pointer_payload H ?g bytes) else if n = path_for ?g then Some bytes else map_of d n)"
    have i: "store_inv H ?d"
      using inv by (intro new_file(1) [OF inv fresh _ _ dec g]) (auto simp: store_inv_def distinct_update update_conv')
    have "map_of ?d (path_for ?g) = Some bytes" by (simp add: update_conv')
    from new_pointer [OF i this k _ dec] e show ?thesis by (auto simp: update_conv')
  qed
qed


lemma run_commit_ops:
  "\<exists>e. run_ops (commit_ops H g bytes) d = Inr e \<and> map_of e (path_for g) = Some bytes
     \<and> map_of e CURRENT_FILE = Some (pointer_payload H g bytes)"
  by (simp add: run_ops_def commit_ops_def Let_def update_conv' delete_conv' pointer_payload_def)

lemma commit_cases:
  assumes inv: "store_inv H d" and room: "has_room d" and m: "manifest_ok m" and H: "\<forall>x. length (H x) = 32"
  obtains (refused) e where "encode_manifest H (stamped d m) = Inl e" and "commit H d m = (Inl e, stamped d m, d)"
  | (written) bytes l d' where "encode_manifest H (stamped d m) = Inr bytes" and "commit H d m = (Inr l, stamped d m, d')"
      and "crash d (commit_ops H (next_generation d) bytes) d'" and "lo_manifest l = stamped d m"
      and "store_inv H d'" and "loaded_view H d' = Some (stamped d m)" and "\<not> lo_recovered_by_scan l"
proof (cases "encode_manifest H (stamped d m)")
  have none: "map_of d (path_for (next_generation d)) = None"
    using next_generation_fresh [OF inv room] unfolding fresh_def by (metis less_irrefl not_None_eq)
  case (Inl e)
  then show ?thesis using none by (intro refused) (simp_all add: commit_def Let_def stamped_def)
next
  have none: "map_of d (path_for (next_generation d)) = None"
    using next_generation_fresh [OF inv room] unfolding fresh_def by (metis less_irrefl not_None_eq)
  case (Inr bytes)
  obtain d' where d': "run_ops (commit_ops H (next_generation d) bytes) d = Inr d'"
    "map_of d' (path_for (next_generation d)) = Some bytes"
    "map_of d' CURRENT_FILE = Some (pointer_payload H (next_generation d) bytes)"
    using run_commit_ops by blast
  have dec: "decode_manifest H bytes = Inr (stamped d m)" by (rule encode_then_decode [OF Inr stamped_ok [OF m] H])
  have crash: "crash d (commit_ops H (next_generation d) bytes) d'" by (rule run_ops_crash [OF d'(1)])
  have inv': "store_inv H d'" using commit_crash_atomic [OF assms Inr crash] ..
  have "selected H d' (next_generation d)" using d' by (simp add: selected_def points_at_def)
  from load_selected [OF inv' this] obtain k where "manifest_file H d' (next_generation d) k" "loaded_view H d' = Some k" .
  then have view: "loaded_view H d' = Some (stamped d m)" using d'(2) dec by (auto simp: manifest_file_def)
  show ?thesis
    by (rule written [OF Inr _ crash _ inv' view])
       (use none Inr d' in \<open>auto simp: commit_def Let_def stamped_def\<close>)
qed

section \<open>Sweeping and pruning\<close>

lemma ascii_tmp: "ascii ''tmp'' = [0x74, 0x6D, 0x70]"
  by code_simp

lemma map_of_filter_key: "P n \<Longrightarrow> map_of (filter (\<lambda>(n, c). P n) d) n = map_of d n"
  by (induction d) auto

lemma sweep_agrees:
  assumes "store_inv H d" and "sweep_orphan_temps d = (removed, e)"
  shows "agrees d e"
proof -
  have e: "e = filter (\<lambda>(n, c). n \<notin> set removed) d"
    and r: "set removed \<subseteq> {n. extension n = Some (ascii ''tmp'')}"
    using assms(2) by (auto simp: sweep_orphan_temps_def Let_def)
  have ext: "extension n = Some (ascii ''tmp'') \<Longrightarrow> last n = 0x70" for n
    by (cases "rev n") (auto simp: extension_def Let_def ascii_tmp rev_swap hd_rev [symmetric] split: if_splits)
  have "distinct (map fst e)"
    using assms(1) unfolding e store_inv_def by (simp add: distinct_map_filter)
  moreover have "map_of e n = map_of d n" if "matters n" for n
  proof -
    have "last n \<noteq> 0x70" using that generation_of_last [of n] by (auto simp: matters_def)
    then have "n \<notin> set removed" using r ext by auto
    then show ?thesis by (simp add: e map_of_filter_key)
  qed
  ultimately show ?thesis by (simp add: agrees_def)
qed


text \<open>Pruning removes only manifest files below the cut that \<open>CURRENT\<close> does not point at.\<close>

definition pruned :: "u64 set \<Rightarrow> directory \<Rightarrow> directory \<Rightarrow> bool" where
  "pruned G d e \<longleftrightarrow> distinct (map fst e)
     \<and> (\<forall>n. map_of e n = map_of d n \<or> (\<exists>g \<in> G. n = path_for g \<and> map_of e n = None))"

lemma prune_loop_pruned:
  assumes "prune_loop keep_from corrente i gs d removed = (r, e)" and "distinct (map fst d)"
  shows "pruned {g. \<exists>j < length gs. g = gs ! j \<and> i + j < keep_from \<and> Some g \<noteq> corrente} d e"
  using assms
proof (induction keep_from corrente i gs d removed rule: prune_loop.induct)
  case (1 keep_from corrente i d removed)
  then show ?case by (simp add: pruned_def)
next
  case (2 keep_from corrente i g gs d removed)
  let ?G = "{h. \<exists>j < length gs. h = gs ! j \<and> i + 1 + j < keep_from \<and> Some h \<noteq> corrente}"
  let ?F = "{h. \<exists>j < length (g # gs). h = (g # gs) ! j \<and> i + j < keep_from \<and> Some h \<noteq> corrente}"
  have sub: "?G \<subseteq> ?F" by force
  have mono: "pruned ?G d' e \<Longrightarrow> pruned ?F d' e" for d'
    using sub unfolding pruned_def by blast
  show ?case
  proof (cases "keep_from \<le> i \<or> Some g = corrente")
    case True
    then show ?thesis using 2 mono by simp
  next
    case False
    then have g: "g \<in> ?F" by force
    show ?thesis
    proof (cases "map_of d (path_for g)")
      case None
      then show ?thesis using 2(3,4) False by (simp add: pruned_def)
    next
      case (Some c)
      have "pruned ?G (AList.delete (path_for g) d) e"
        using 2(2) [OF False Some] 2(3,4) False Some by (simp add: distinct_delete)
      then have "pruned ?F (AList.delete (path_for g) d) e" by (rule mono)
      then show ?thesis using g by (auto simp: pruned_def delete_conv' split: if_splits)
    qed
  qed
qed


lemma selected_unique:
  assumes "selected H d g" and "selected H d h"
  shows "g = h"
proof (cases "map_of d CURRENT_FILE")
  case None
  then show ?thesis using assms by (auto simp: selected_def intro: antisym)
next
  case (Some raw)
  then show ?thesis using assms by (auto simp: selected_def points_at_def dest: pointer_payload_gen)
qed

lemma selected_exists: "store_inv H d \<Longrightarrow> map_of d (path_for h) = Some c \<Longrightarrow> \<exists>g. selected H d g"
  using nothing_selected(2) by fastforce

lemma pruned_view:
  assumes inv: "store_inv H d" and p: "pruned G d e" and keep: "\<And>g. selected H d g \<Longrightarrow> g \<notin> G"
  shows "store_inv H e" and "loaded_view H e = loaded_view H d"
proof -
  have cur: "map_of e CURRENT_FILE = map_of d CURRENT_FILE"
    using p unfolding pruned_def by (metis names_differ(4))
  have le: "map_of d n = Some c" if "map_of e n = Some c" for n c
    using p that unfolding pruned_def by (metis option.distinct(1))
  have kept: "map_of e (path_for g) = map_of d (path_for g)" if "selected H d g" for g
    using p keep [OF that] unfolding pruned_def by (metis path_for_inj)
  have mf: "manifest_file H e g m" if "map_of e (path_for g) \<noteq> None" "manifest_file H d g m" for g m
    using that le by (fastforce simp: manifest_file_def)
  have pts: "points_at H e g \<longleftrightarrow> points_at H d g" for g
  proof
    assume "points_at H e g" then show "points_at H d g" using le by (auto simp: points_at_def)
  next
    assume a: "points_at H d g"
    then have "selected H d g" by (auto simp: selected_def points_at_def)
    from kept [OF this] a show "points_at H e g" by (simp add: points_at_def cur)
  qed
  show i: "store_inv H e"
    unfolding store_inv_def
  proof (intro conjI allI impI)
    show "distinct (map fst e)" using p by (simp add: pruned_def)
  next
    fix n g assume n: "map_of e n \<noteq> None" and g: "generation_of n = Some g"
    then obtain c where "map_of d n = Some c" using le by blast
    then have "n = path_for g" and f: "\<exists>m. manifest_file H d g m"
      using inv g unfolding store_inv_def by (metis option.distinct(1))+
    then show "n = path_for g" and "\<exists>m. manifest_file H e g m" using n mf by blast+
  next
    assume "map_of e CURRENT_FILE \<noteq> None"
    then show "\<exists>g. points_at H e g" using inv by (simp add: cur pts store_inv_def)
  qed
  have up: "selected H e g" if s: "selected H d g" for g
  proof (cases "map_of d CURRENT_FILE")
    case None
    have "h \<le> g" if "map_of e (path_for h) = Some c" for h c
      using s None le [OF that] by (auto simp: selected_def)
    then show ?thesis using s None kept [OF s] cur by (auto simp: selected_def)
  next
    case (Some raw)
    then show ?thesis using s cur pts by (simp add: selected_def)
  qed
  have down: "selected H d g" if s: "selected H e g" for g
  proof -
    obtain c where "map_of e (path_for g) = Some c"
      using s by (auto simp: selected_def points_at_def split: if_splits)
    from selected_exists [OF inv le [OF this]] obtain h where "selected H d h" ..
    with selected_unique [OF s up [OF this]] show ?thesis by simp
  qed
  show "loaded_view H e = loaded_view H d"
  proof (rule same_view [OF inv i])
    fix g show "selected H e g \<longleftrightarrow> selected H d g" using up down by blast
    fix m assume "selected H d g"
    then show "manifest_file H e g m \<longleftrightarrow> manifest_file H d g m" by (simp add: manifest_file_def kept)
  qed
qed

lemma distinct_generations:
  assumes "store_inv H d"
  shows "distinct (generations d)"
proof -
  have *: "distinct (List.map_filter generation_of ns)"
    if "distinct ns" "\<And>n g. n \<in> set ns \<Longrightarrow> generation_of n = Some g \<Longrightarrow> n = path_for g" for ns
    using that
  proof (induction ns)
    case (Cons n ns)
    then have "distinct (List.map_filter generation_of ns)" by simp
    moreover have "g \<notin> set (List.map_filter generation_of ns)" if "generation_of n = Some g" for g
      using Cons.prems that by (metis distinct.simps(2) list.set_intros mem_map_filter)
    ultimately show ?case by (simp add: List.map_filter_simps split: option.split)
  qed (simp add: List.map_filter_simps)
  have "n = path_for g" if "n \<in> set (map fst d)" "generation_of n = Some g" for n g
    using assms that unfolding store_inv_def by (metis list.set_map map_of_eq_None_iff)
  then show ?thesis using * [of "map fst d"] assms by (simp add: generations_def store_inv_def)
qed

lemma prune_keeps:
  assumes inv: "store_inv H d" and pr: "prune_old_manifests H d keep = (r, e)"
  shows "store_inv H e" and "loaded_view H e = loaded_view H d"
proof -
  let ?gs = "generations d" and ?c = "map_option lo_generation (load_from_current H d)"
  let ?G = "{g. \<exists>j < length ?gs. g = ?gs ! j \<and> 0 + j < length ?gs - max keep 1 \<and> Some g \<noteq> ?c}"
  have p: "pruned ?G d e"
    using pr inv by (intro prune_loop_pruned) (auto simp: prune_old_manifests_def Let_def store_inv_def)
  have keep: "g \<notin> ?G" if s: "selected H d g" for g
  proof (cases "map_of d CURRENT_FILE")
    case (Some raw)
    obtain m where "manifest_file H d g m" using load_selected [OF inv s] .
    then obtain bytes where "map_of d (path_for g) = Some bytes" "decode_manifest H bytes = Inr m"
        "dm_manifest_generation m = g" by (auto simp: manifest_file_def)
    moreover from this(1) have "map_of d CURRENT_FILE = Some (pointer_payload H g bytes)"
      using s Some by (auto simp: selected_def points_at_def)
    ultimately have "?c = Some g" using load_from_current_pointed by fastforce
    then show ?thesis by auto
  next
    case None
    have "j \<ge> length ?gs - 1" if j: "j < length ?gs" "?gs ! j = g" for j
    proof (rule ccontr)
      assume "\<not> length ?gs - 1 \<le> j"
      then have "j < length ?gs - 1" by simp
      have "?gs ! j \<le> ?gs ! (length ?gs - 1)"
        by (rule sorted_nth_mono [OF sorted_generations]) (use \<open>j < length ?gs - 1\<close> in simp_all)
      moreover have "?gs ! j \<noteq> ?gs ! (length ?gs - 1)"
        using nth_eq_iff_index_eq [OF distinct_generations [OF inv] j(1), of "length ?gs - 1"]
          \<open>j < length ?gs - 1\<close> by simp
      moreover have "?gs ! (length ?gs - 1) \<in> set ?gs" using j(1) by (intro nth_mem) simp
      then obtain c where "map_of d (path_for (?gs ! (length ?gs - 1))) = Some c"
        using set_generations [OF inv] by blast
      then have "?gs ! (length ?gs - 1) \<le> g" using s None by (auto simp: selected_def)
      ultimately show False using j(2) by (simp add: antisym)
    qed
    then show ?thesis by fastforce
  qed
  show "store_inv H e" and "loaded_view H e = loaded_view H d" using pruned_view [OF inv p keep] by blast+
qed


section \<open>The store as an atomic register\<close>

datatype store_event =
    Committed database_manifest
  | Refused
  | Interrupted database_manifest
  | Swept
  | Pruned nat

text \<open>The specification: a register holding the last manifest. An interrupted commit may or may not
  take effect, and generations only grow.\<close>

definition newer :: "database_manifest option \<Rightarrow> database_manifest \<Rightarrow> bool" where
  "newer r m = (case r of None \<Rightarrow> True | Some k \<Rightarrow> dm_manifest_generation k < dm_manifest_generation m)"

fun register_step :: "database_manifest option \<Rightarrow> store_event \<Rightarrow> database_manifest option \<Rightarrow> bool" where
  "register_step r (Committed m) r' = (newer r m \<and> r' = Some m)"
| "register_step r Refused r' = (r' = r)"
| "register_step r (Interrupted m) r' = (newer r m \<and> (r' = r \<or> r' = Some m))"
| "register_step r Swept r' = (r' = r)"
| "register_step r (Pruned keep) r' = (r' = r)"

inductive register_run :: "database_manifest option \<Rightarrow> store_event list \<Rightarrow> database_manifest option \<Rightarrow> bool" where
  "register_run r [] r"
| "register_run r evs r' \<Longrightarrow> register_step r' ev r'' \<Longrightarrow> register_run r (evs @ [ev]) r''"

text \<open>The implementation: calls that return, and commits cut short by a crash.\<close>

inductive store_step :: "hash_fn \<Rightarrow> directory \<Rightarrow> store_event \<Rightarrow> directory \<Rightarrow> bool" for H where
  step_committed: "has_room d \<Longrightarrow> manifest_ok m \<Longrightarrow> commit H d m = (Inr l, m', d') \<Longrightarrow> store_step H d (Committed m') d'"
| step_refused: "has_room d \<Longrightarrow> manifest_ok m \<Longrightarrow> commit H d m = (Inl e, m', d') \<Longrightarrow> store_step H d Refused d'"
| step_interrupted: "has_room d \<Longrightarrow> manifest_ok m \<Longrightarrow> encode_manifest H (stamped d m) = Inr bytes
    \<Longrightarrow> crash d (commit_ops H (next_generation d) bytes) d' \<Longrightarrow> store_step H d (Interrupted (stamped d m)) d'"
| step_swept: "sweep_orphan_temps d = (removed, d') \<Longrightarrow> store_step H d Swept d'"
| step_pruned: "prune_old_manifests H d keep = (r, d') \<Longrightarrow> store_step H d (Pruned keep) d'"

inductive store_run :: "hash_fn \<Rightarrow> directory \<Rightarrow> store_event list \<Rightarrow> directory \<Rightarrow> bool" for H where
  "store_run H d [] d"
| "store_run H d evs d' \<Longrightarrow> store_step H d' ev d'' \<Longrightarrow> store_run H d (evs @ [ev]) d''"

lemma view_older:
  assumes inv: "store_inv H d" and room: "has_room d"
  shows "newer (loaded_view H d) (stamped d m)"
proof (cases "\<exists>g. selected H d g")
  case True
  then obtain g where "selected H d g" ..
  from load_selected [OF inv this] obtain k where "manifest_file H d g k" "loaded_view H d = Some k" .
  then show ?thesis
    using next_generation_fresh [OF inv room] by (auto simp: newer_def manifest_file_def fresh_def stamped_def)
next
  case False
  then show ?thesis using nothing_selected(1) [OF inv] by (simp add: newer_def)
qed

lemma store_step_simulates:
  assumes "store_step H d ev e" and inv: "store_inv H d" and H: "\<forall>x. length (H x) = 32"
  shows "store_inv H e \<and> register_step (loaded_view H d) ev (loaded_view H e)"
  using assms(1)
proof cases
  case (step_committed m l m')
  note older = view_older [OF inv step_committed(2)]
  show ?thesis
    by (rule commit_cases [OF inv step_committed(2,3) H, of ?thesis]) (use step_committed older in auto)
next
  case (step_refused m e m')
  show ?thesis
    by (rule commit_cases [OF inv step_refused(2,3) H, of ?thesis]) (use step_refused inv in auto)
next
  case (step_interrupted m bytes)
  then show ?thesis
    using commit_crash_atomic [OF inv step_interrupted(2,3) H step_interrupted(4,5)] view_older [OF inv step_interrupted(2)]
    by auto
next
  case (step_swept removed)
  then show ?thesis using agrees_view [OF inv sweep_agrees [OF inv]] by simp
next
  case (step_pruned keep r)
  then show ?thesis using prune_keeps [OF inv] by simp
qed

lemma store_inv_empty: "store_inv H []" "loaded_view H [] = None"
  by (simp_all add: store_inv_def loaded_view_def load_def load_from_current_def generations_def List.map_filter_simps)

text \<open>C2. Whatever a store goes through from its creation on (commits that return, commits refused by the
  encoder, commits interrupted by a crash at any file operation or in the middle of a write, sweeping of
  orphan temporaries, pruning of old generations), \<open>load\<close> returns what an atomic register would hold:
  a commit that returned is never lost, an interrupted one took effect entirely or not at all, and
  generations only grow.\<close>

theorem store_refines_register:
  assumes "store_run H [] evs d" and "\<forall>x. length (H x) = 32"
  shows "store_inv H d \<and> register_run None evs (loaded_view H d)"
  using assms(1)
proof (induction "[] :: directory" evs d rule: store_run.induct)
  case 1
  then show ?case by (simp add: store_inv_empty register_run.intros)
next
  case (2 evs d' ev d'')
  then show ?case using store_step_simulates [OF _ _ assms(2)] by (blast intro: register_run.intros)
qed


lemma room_after_crash:
  assumes crash: "crash d (commit_ops H (next_generation d) bytes) e" and keys: "distinct (map fst d)"
    and room: "has_room d" "next_generation d < 18446744073709551615"
  shows "has_room e"
proof -
  have "map_of d (path_for g) \<noteq> None \<or> g = next_generation d" if "map_of e (path_for g) = Some c" for g c
    using crash_of_commit [OF crash keys] that
    by (elim disjE conjE allE [where x = "path_for g"]) (auto simp: agrees_def split: if_splits)
  then show ?thesis using room unfolding has_room_def by (metis not_None_eq)
qed

lemma example_encodes: "\<exists>bytes. encode_manifest H (stamped d example_manifest) = Inr bytes"
  using example_body
  by (simp add: encode_manifest_def Let_def stamped_def HARD_MAX_BODY_BYTES_def HARD_MAX_SEGMENTS_def)
     (simp add: example_manifest_def)

lemma store_refines_register_witness:
  "\<exists>d e. register_run None [Committed (stamped [] example_manifest), Interrupted (stamped d example_manifest)]
     (loaded_view (\<lambda>_. replicate 32 5) e)"
proof -
  let ?H = "\<lambda>_ :: bytes. replicate 32 5 :: bytes"
  have room: "has_room []" by (simp add: has_room_def)
  obtain b where b: "encode_manifest ?H (stamped [] example_manifest) = Inr b" using example_encodes by blast
  obtain l d where c: "commit ?H [] example_manifest = (Inr l, stamped [] example_manifest, d)"
    and crash: "crash [] (commit_ops ?H (next_generation []) b) d"
    by (rule commit_cases [OF store_inv_empty(1) room example_manifest_ok, of ?H]) (use b in auto)
  have one: "store_run ?H [] ([] @ [Committed (stamped [] example_manifest)]) d"
    by (rule store_run.intros(2) [OF store_run.intros(1) step_committed [OF room example_manifest_ok c]])
  have "has_room d" by (rule room_after_crash [OF crash _ room]) (simp_all add: next_generation_def generations_def List.map_filter_simps)
  moreover obtain b2 where b2: "encode_manifest ?H (stamped d example_manifest) = Inr b2" using example_encodes by blast
  ultimately have two: "store_run ?H [] ([Committed (stamped [] example_manifest)] @ [Interrupted (stamped d example_manifest)]) d"
    using store_run.intros(2) [OF one [simplified] step_interrupted [OF _ example_manifest_ok b2 crash.stopped]] by simp
  with store_refines_register [OF two [simplified]] show ?thesis by auto
qed

text \<open>C28. A commit that can be encoded always succeeds: \<open>load\<close> then returns it through \<open>CURRENT\<close>. What an
  interrupted commit leaves behind, temporary files or a manifest file that nothing points at, never
  blocks the next commit of the same catalogue.\<close>

theorem interrupted_commit_can_be_retried:
  assumes inv: "store_inv H d" and room: "has_room d" "next_generation d < 18446744073709551615"
    and m: "manifest_ok m" and H: "\<forall>x. length (H x) = 32"
    and enc: "encode_manifest H (stamped d m) = Inr bytes"
    and crash: "crash d (commit_ops H (next_generation d) bytes) e"
  shows "\<exists>l e'. commit H e m = (Inr l, stamped e m, e') \<and> lo_manifest l = stamped e m
    \<and> \<not> lo_recovered_by_scan l \<and> loaded_view H e' = Some (stamped e m) \<and> store_inv H e'"
proof -
  have inv': "store_inv H e" using commit_crash_atomic [OF inv room(1) m H enc crash] ..
  have room': "has_room e" using inv by (intro room_after_crash [OF crash _ room]) (simp add: store_inv_def)
  have "\<exists>b. encode_manifest H (stamped e m) = Inr b"
    using enc by (simp add: encode_manifest_def Let_def stamped_def split: if_splits)
  then obtain b where b: "encode_manifest H (stamped e m) = Inr b" ..
  show ?thesis by (rule commit_cases [OF inv' room' m H]) (use b in auto)
qed

lemma interrupted_commit_can_be_retried_witness:
  "\<exists>l e. commit (\<lambda>_. replicate 32 5) (AList.update (with_suffix (path_for 1) TMP) [7, 7] []) example_manifest
     = (Inr l, stamped (AList.update (with_suffix (path_for 1) TMP) [7, 7] []) example_manifest, e)"
proof -
  let ?H = "\<lambda>_ :: bytes. replicate 32 5 :: bytes"
  obtain b where b: "encode_manifest ?H (stamped [] example_manifest) = Inr b" using example_encodes by blast
  have n: "next_generation [] = 1" by (simp add: next_generation_def generations_def List.map_filter_simps)
  have "crash [] (commit_ops ?H (next_generation []) b) (AList.update (with_suffix (path_for 1) TMP) [7, 7] [])"
    unfolding commit_ops_def Let_def n by (rule crash.torn)
  from interrupted_commit_can_be_retried [OF store_inv_empty(1) _ _ example_manifest_ok _ b this] show ?thesis
    by (auto simp: has_room_def n)
qed

end
