(* ===== verification/Manifest_Behaviour.thy ===== *)
theory Manifest_Behaviour
  imports Manifest_Machine
begin

text \<open>
  Functional behaviour of single operations: what quarantine falls back to, what a second
  registration of a segment does, and how far the export watermark may move.
\<close>

section \<open>Quarantine\<close>

lemma modify_first_distinct_mem:
  assumes "distinct (map k xs)" and "\<And>y. k (f y) = k y"
  shows "x \<in> set (modify_first (\<lambda>y. k y = n) f xs) \<longleftrightarrow>
    x \<in> set xs \<and> k x \<noteq> n \<or> (\<exists>y \<in> set xs. k y = n \<and> x = f y)"
  using assms(1)
proof (induction xs)
  case (Cons a xs)
  show ?case
  proof (cases "k a = n")
    case True
    then have "\<forall>y \<in> set xs. k y \<noteq> n" using Cons.prems by (auto simp: image_iff)
    then show ?thesis using True by auto
  qed (use Cons in auto)
qed simp

lemma quarantined_generations:
  assumes "distinct (map pg_generation (sd_generations s))"
  shows "set (sd_generations (quarantined_descriptor n now s))
    = {g \<in> set (sd_generations s). pg_generation g \<noteq> n}
      \<union> (\<lambda>g. g\<lparr>pg_state := Quarantined, pg_superseded_hlc := now\<rparr>) ` {g \<in> set (sd_generations s). pg_generation g = n}"
  using modify_first_distinct_mem [OF assms, of "\<lambda>g. g\<lparr>pg_state := Quarantined, pg_superseded_hlc := now\<rparr>"]
  by (auto simp: quarantined_descriptor_def modify_generation_def)

lemma quarantined_authorities:
  assumes "distinct (map pg_generation (sd_generations s))"
  shows "set (canonical_authorities (quarantined_descriptor n now s))
    = {g \<in> set (sd_generations s). pg_generation g \<noteq> n \<and> is_canonical_authority g}"
  unfolding canonical_authorities_def set_filter quarantined_generations [OF assms]
  by (auto simp: is_canonical_authority_def)

text \<open>C26. Quarantine never deletes and never guesses. After quarantining generation \<open>n\<close> of a segment, all
  its generations are still listed; if another authority is left the segment points at the best one
  (a PACKED generation before a RAW one, then the highest number) and that number is returned; and
  the call fails exactly when no other authority is left.\<close>

theorem quarantine_picks_best:
  assumes "segment m sid = Some s" and "distinct (map pg_generation (sd_generations s))"
    and "generation_of_number s n \<noteq> None"
  shows "\<exists>d. segment (snd (quarantine_generation m sid n now)) sid = Some d
    \<and> map pg_generation (sd_generations d) = map pg_generation (sd_generations s)
    \<and> (case fst (quarantine_generation m sid n now) of
        Inr a \<Rightarrow> sd_active_generation d = a \<and> (\<exists>g \<in> set (sd_generations s). pg_generation g = a \<and> a \<noteq> n
          \<and> is_canonical_authority g \<and> (\<forall>h \<in> set (sd_generations s).
              pg_generation h \<noteq> n \<and> is_canonical_authority h \<longrightarrow> authority_rank h \<le> authority_rank g))
      | Inl e \<Rightarrow> \<forall>h \<in> set (sd_generations s). is_canonical_authority h \<longrightarrow> pg_generation h = n)"
proof -
  let ?q = "quarantined_descriptor n now s"
  have sid: "sd_segment_id s = sid" using segment_Some [OF assms(1)] by simp
  have q: "map pg_generation (sd_generations ?q) = map pg_generation (sd_generations s)" "sd_segment_id ?q = sid"
    by (simp_all add: quarantined_descriptor_def modify_generation_def sid map_modify_first)
  have auth: "set (filter is_canonical_authority (sd_generations ?q))
      = {g \<in> set (sd_generations s). pg_generation g \<noteq> n \<and> is_canonical_authority g}"
    using quarantined_authorities [OF assms(2)] by (simp add: canonical_authorities_def)
  show ?thesis
  proof (cases "best_authority ?q")
    case None
    then have "set (canonical_authorities ?q) = {}" by (simp add: best_authority_None)
    then have "\<forall>h \<in> set (sd_generations s). is_canonical_authority h \<longrightarrow> pg_generation h = n"
      unfolding quarantined_authorities [OF assms(2)] by blast
    then show ?thesis
      using assms(3) None q by (simp add: quarantine_Some [OF assms(1)] Let_def segment_write assms(1))
  next
    case (Some g)
    let ?d = "reactivated_descriptor (pg_generation g) ?q"
    have d: "map pg_generation (sd_generations ?d) = map pg_generation (sd_generations s)" "sd_segment_id ?d = sid"
      "sd_active_generation ?d = pg_generation g"
      using q by (simp_all add: reactivated_descriptor_def modify_generation_def map_modify_first)
    have "g \<in> set (filter is_canonical_authority (sd_generations ?q))"
      "\<forall>h \<in> set (filter is_canonical_authority (sd_generations ?q)). authority_rank h \<le> authority_rank g"
      using max_by_key_Some [of authority_rank] Some by (fastforce simp: best_authority_def)+
    then have "g \<in> set (sd_generations s)" "pg_generation g \<noteq> n" "is_canonical_authority g"
      "\<forall>h \<in> set (sd_generations s). pg_generation h \<noteq> n \<and> is_canonical_authority h \<longrightarrow> authority_rank h \<le> authority_rank g"
      unfolding auth by auto
    then show ?thesis
      using assms(3) Some d by (auto simp: quarantine_Some [OF assms(1)] Let_def segment_write assms(1))
  qed
qed

lemma quarantine_picks_best_witness:
  "fst (quarantine_generation example_packed_manifest 1 1 80000) = Inr 0
    \<and> (\<exists>d. segment (snd (quarantine_generation example_packed_manifest 1 1 80000)) 1 = Some d
        \<and> map pg_generation (sd_generations d) = [0, 1])"
proof -
  let ?s = "packed_descriptor example_receipt [0x62] 70000 (example_segment 1 1 10)"
  have s: "segment example_packed_manifest 1 = Some ?s"
    by (simp add: segment_def example_packed_segments packed_descriptor_def modify_generation_def example_segment_def)
  have g: "map pg_generation (sd_generations ?s) = [0, 1]"
    by (simp add: packed_descriptor_def modify_generation_def example_segment_def example_receipt_def
        packed_generation_def)
  have n: "generation_of_number ?s 1 \<noteq> None"
    by (simp add: generation_of_number_def packed_descriptor_def modify_generation_def example_segment_def
        example_receipt_def packed_generation_def)
  have "fst (quarantine_generation example_packed_manifest 1 1 80000) = Inr 0"
    using n by (simp add: quarantine_Some [OF s] Let_def) (simp add: quarantined_descriptor_def best_authority_def
        packed_descriptor_def modify_generation_def example_segment_def example_receipt_def packed_generation_def
        is_canonical_authority_def authority_rank_def)
  moreover have "\<exists>d. segment (snd (quarantine_generation example_packed_manifest 1 1 80000)) 1 = Some d
      \<and> map pg_generation (sd_generations d) = map pg_generation (sd_generations ?s)"
    using quarantine_picks_best [OF s _ n, of 80000] g by auto
  ultimately show ?thesis using g by simp
qed

section \<open>Registering twice\<close>

text \<open>A second registration of a catalogued segment with the same logical root is accepted and puts a
  fresh descriptor in place of the old one: the PACKED generations, the sidecar, the Parquet
  projection and the legal hold are forgotten, although the guard in front of it only checks that the
  logical root agrees.\<close>

theorem reregistration_forgets:
  assumes "segment m sid = Some s" and "sd_logical_root s = ft_logical_root f"
    and "check_segment_coherence (registered_descriptor sid f codec loc sz digest now) = Inr ()"
  shows "fst (register_sealed_raw m sid f codec loc sz digest now) = Inr ()
    \<and> (\<exists>d. segment (snd (register_sealed_raw m sid f codec loc sz digest now)) sid = Some d
        \<and> map pg_layout (sd_generations d) = [Layout_Raw] \<and> \<not> rp_legal_hold (sd_retention d)
        \<and> sd_hrki d = None \<and> sd_parquet d = None)"
proof -
  let ?d = "registered_descriptor sid f codec loc sz digest now"
  have r: "register_sealed_raw m sid f codec loc sz digest now = (Inr (),
      (upsert_segment ?d m)\<lparr>dm_cumulative_watermark := max (dm_cumulative_watermark (upsert_segment ?d m)) (ft_max_lsn f)\<rparr>)"
    using assms register_sealed_raw_def [of m sid f codec loc sz digest now, unfolded Let_def,
      folded registered_descriptor_def] by simp
  have "segment (snd (register_sealed_raw m sid f codec loc sz digest now)) sid = segment (upsert_segment ?d m) sid"
    by (simp add: r segment_def)
  also have "\<dots> = Some ?d" by (simp add: segment_upsert registered_descriptor_def)
  finally show ?thesis
    using r by (simp add: registered_descriptor_def default_retention_def)
qed

lemma reregistration_forgets_witness:
  "(case segment (snd (set_legal_hold example_packed_manifest 1 True)) 1 of
      Some s \<Rightarrow> rp_legal_hold (sd_retention s) \<and> has_packed s | None \<Rightarrow> False)
    \<and> (\<exists>d. segment (snd (register_sealed_raw (snd (set_legal_hold example_packed_manifest 1 True)) 1
          stamped_footer 1 [0x61] 100 (replicate 32 9) 5)) 1 = Some d
        \<and> map pg_layout (sd_generations d) = [Layout_Raw] \<and> \<not> rp_legal_hold (sd_retention d))"
proof -
  let ?m = "snd (set_legal_hold example_packed_manifest 1 True)"
    and ?s = "packed_descriptor example_receipt [0x62] 70000 (example_segment 1 1 10)"
  let ?h = "?s\<lparr>sd_retention := (sd_retention ?s)\<lparr>rp_legal_hold := True\<rparr>\<rparr>"
  have s: "segment example_packed_manifest 1 = Some ?s"
    by (simp add: segment_def example_packed_segments packed_descriptor_def modify_generation_def example_segment_def)
  have id: "sd_segment_id ?h = 1" using segment_Some [OF s] by simp
  have h: "segment ?m 1 = Some ?h" using id s by (simp add: set_legal_hold_def segment_write)
  have a: "rp_legal_hold (sd_retention ?h) \<and> has_packed ?h"
    by (simp add: has_packed_def canonical_authorities_def packed_descriptor_def modify_generation_def
        example_segment_def example_receipt_def packed_generation_def is_canonical_authority_def)
  have root: "sd_logical_root ?h = ft_logical_root stamped_footer"
    by (simp add: packed_descriptor_def modify_generation_def example_segment_def stamped_footer_def)
  have "check_segment_coherence (registered_descriptor 1 stamped_footer 1 [0x61] 100 (replicate 32 9) 5) = Inr ()"
    by (simp add: coherence_iff ranges_coherent_def generations_coherent_def registered_descriptor_def
        stamped_footer_def saturating_add_def)
  from reregistration_forgets [OF h root this, THEN conjunct2] obtain d
    where d: "segment (snd (register_sealed_raw ?m 1 stamped_footer 1 [0x61] 100 (replicate 32 9) 5)) 1 = Some d"
      "map pg_layout (sd_generations d) = [Layout_Raw]" "\<not> rp_legal_hold (sd_retention d)"
    by (elim exE conjE)
  have "case segment ?m 1 of Some s \<Rightarrow> rp_legal_hold (sd_retention s) \<and> has_packed s | None \<Rightarrow> False"
    unfolding h option.case by (rule a)
  then show ?thesis using d by (intro conjI exI)
qed

section \<open>The export watermark\<close>

lemma disjoint_ranges_Cons:
  assumes "disjoint_ranges lo hi live (a # ss)"
  shows "disjoint_ranges lo hi live ss" and "lo a \<le> hi a" and "\<forall>t \<in> set ss. hi a < lo t"
proof -
  have "live (ss ! i) \<and> lo (ss ! i) \<le> hi (ss ! i)" if "i < length ss" for i
    using assms that unfolding disjoint_ranges_def by (metis Suc_mono length_Cons nth_Cons_Suc)
  moreover have "hi (ss ! i) < lo (ss ! j)" if "i < j" "j < length ss" for i j
    using assms that unfolding disjoint_ranges_def by (metis Suc_mono length_Cons nth_Cons_Suc)
  ultimately show "disjoint_ranges lo hi live ss" unfolding disjoint_ranges_def by blast
  show "lo a \<le> hi a" using assms unfolding disjoint_ranges_def by (metis length_Cons nth_Cons_0 zero_less_Suc)
  show "\<forall>t \<in> set ss. hi a < lo t"
  proof
    fix t assume "t \<in> set ss"
    then obtain j where "j < length ss" "t = ss ! j" unfolding in_set_conv_nth by blast
    then show "hi a < lo t"
      using assms unfolding disjoint_ranges_def by (metis Suc_mono length_Cons nth_Cons_0 nth_Cons_Suc zero_less_Suc)
  qed
qed

abbreviation consecutive :: "segment_descriptor list \<Rightarrow> bool" where
  "consecutive \<equiv> disjoint_ranges sd_first_lsn sd_last_lsn (\<lambda>s. sd_record_count s > 0)"

lemma contiguous_from_sound:
  "\<lbrakk>consecutive ss; s \<in> set ss; sd_first_lsn s \<le> contiguous_from w ss; \<forall>t \<in> set ss. w < sd_first_lsn t\<rbrakk>
    \<Longrightarrow> parquet_valid s"
proof (induction ss arbitrary: w)
  case (Cons a ss)
  note c = disjoint_ranges_Cons [OF Cons.prems(1)]
  show ?case
  proof (cases "parquet_valid a")
    case False
    then have "sd_first_lsn s \<le> w" using Cons.prems(3) by simp
    moreover have "w < sd_first_lsn s" using Cons.prems(2,4) by blast
    ultimately show ?thesis by simp
  next
    case True
    then show ?thesis
      using Cons.prems(2,3) Cons.IH [OF c(1), of "sd_last_lsn a"] c(3) by auto
  qed
qed simp

lemma contiguous_exported_sound:
  assumes "consecutive ss" and "s \<in> set ss" and "sd_first_lsn s \<le> contiguous_from 0 ss" and "0 < contiguous_from 0 ss"
  shows "parquet_valid s"
proof (cases ss)
  case (Cons a ts)
  note c = disjoint_ranges_Cons [OF assms(1) [unfolded Cons]]
  have "parquet_valid a" using assms(4) by (auto simp: Cons split: if_splits)
  then show ?thesis
    using assms(2,3) contiguous_from_sound [OF c(1), of s "sd_last_lsn a"] c(3) by (auto simp: Cons)
qed (use assms(2) in simp)

lemma contiguous_from_ge: "consecutive ss \<Longrightarrow> \<forall>t \<in> set ss. w \<le> sd_first_lsn t \<Longrightarrow> w \<le> contiguous_from w ss"
proof (induction ss arbitrary: w)
  case (Cons a ss)
  note c = disjoint_ranges_Cons [OF Cons.prems(1)]
  have "sd_last_lsn a \<le> contiguous_from (sd_last_lsn a) ss" using Cons.IH [OF c(1)] c(3)
    by (blast intro: less_imp_le)
  moreover have "w \<le> sd_last_lsn a" using Cons.prems(2) c(2) by (auto intro: order_trans)
  ultimately show ?case by auto
qed simp

text \<open>Making one more projection valid can only raise the watermark.\<close>

lemma contiguous_from_mono:
  assumes "list_all2 (\<lambda>s d. sd_first_lsn d = sd_first_lsn s \<and> sd_last_lsn d = sd_last_lsn s
      \<and> (parquet_valid s \<longrightarrow> parquet_valid d)) ss ds"
    and "consecutive ss" and "\<forall>t \<in> set ss. w \<le> sd_first_lsn t"
  shows "contiguous_from w ss \<le> contiguous_from w ds"
  using assms
proof (induction ss ds arbitrary: w rule: list_all2_induct)
  case (Cons s ss d ds)
  note c = disjoint_ranges_Cons [OF Cons.prems(1)]
  have "contiguous_from (sd_last_lsn s) ss \<le> contiguous_from (sd_last_lsn s) ds"
    using Cons.IH [OF c(1)] c(3) by (blast intro: less_imp_le)
  moreover have "w \<le> contiguous_from (sd_last_lsn s) ss"
    using contiguous_from_ge [OF c(1), of "sd_last_lsn s"] c(2,3) Cons.prems(2) by (force intro: order_trans less_imp_le)
  ultimately show ?case using Cons.hyps(1) by (auto intro: order_trans)
qed simp

lemma modify_first_all2:
  assumes "find p xs = Some x" and "R x y" and "\<And>x. R x x"
  shows "list_all2 R xs (modify_first p (\<lambda>_. y) xs)"
  using assms by (induction xs) (auto simp: list_all2_refl split: if_splits)

text \<open>The export watermark does not lie. In a catalogue of non-empty segments that follow one another in
  LSN order, where the watermark is no further than the contiguous exported prefix, attaching a
  projection whose logical root agrees moves the watermark to exactly the new contiguous prefix, never
  backwards; and every segment that starts at or below a positive watermark then has a projection with
  the right root. (The value 0 stands both for nothing and for an export up to LSN 0.)\<close>

theorem export_watermark_honest:
  assumes "segments_disjoint m"
    and "dm_exported_through_lsn m \<le> contiguous_exported_lsn m"
    and "segment m sid = Some s" and "da_logical_root a = sd_logical_root s"
  shows "fst (attach_parquet m sid a) = Inr ()
    \<and> dm_exported_through_lsn (snd (attach_parquet m sid a)) = contiguous_exported_lsn (snd (attach_parquet m sid a))
    \<and> dm_exported_through_lsn m \<le> dm_exported_through_lsn (snd (attach_parquet m sid a))
    \<and> (\<forall>t \<in> set (dm_segments_v2 (snd (attach_parquet m sid a))).
        0 < dm_exported_through_lsn (snd (attach_parquet m sid a))
        \<and> sd_first_lsn t \<le> dm_exported_through_lsn (snd (attach_parquet m sid a)) \<longrightarrow> parquet_valid t)"
proof -
  let ?d = "s\<lparr>sd_parquet := Some a\<rparr>"
  let ?w = "write_segment sid ?d m"
  have r: "attach_parquet m sid a = (Inr (), ?w\<lparr>dm_exported_through_lsn :=
      max (contiguous_exported_lsn ?w) (min (dm_exported_through_lsn m) (sd_last_lsn s))\<rparr>)"
    using assms(3,4) by (simp add: attach_parquet_def Let_def) (simp add: write_segment_def)
  have all2: "list_all2 (\<lambda>s d. sd_first_lsn d = sd_first_lsn s \<and> sd_last_lsn d = sd_last_lsn s
      \<and> sd_record_count d = sd_record_count s \<and> (parquet_valid s \<longrightarrow> parquet_valid d)) (dm_segments_v2 m) (dm_segments_v2 ?w)"
    using assms(3,4) by (auto simp: write_segment_def segment_def parquet_valid_def intro!: modify_first_all2)
  have nth: "length (dm_segments_v2 ?w) = length (dm_segments_v2 m)"
    "\<forall>i < length (dm_segments_v2 m). sd_first_lsn (dm_segments_v2 ?w ! i) = sd_first_lsn (dm_segments_v2 m ! i)
      \<and> sd_last_lsn (dm_segments_v2 ?w ! i) = sd_last_lsn (dm_segments_v2 m ! i)
      \<and> sd_record_count (dm_segments_v2 ?w ! i) = sd_record_count (dm_segments_v2 m ! i)"
    using all2 by (auto simp: list_all2_conv_all_nth)
  have c: "consecutive (dm_segments_v2 m)" using assms(1) by (simp add: segments_disjoint_def)
  then have c': "consecutive (dm_segments_v2 ?w)"
    using nth unfolding disjoint_ranges_def by (simp add: order_less_trans)
  have "contiguous_exported_lsn m \<le> contiguous_exported_lsn ?w"
    unfolding contiguous_exported_lsn_def
    by (rule contiguous_from_mono [OF _ c]) (rule list_all2_mono [OF all2], blast, simp)
  then have le: "dm_exported_through_lsn m \<le> contiguous_exported_lsn ?w" using assms(2) by simp
  then have e: "dm_exported_through_lsn (snd (attach_parquet m sid a)) = contiguous_exported_lsn ?w"
    by (simp add: r max_absorb1 min.coboundedI1)
  moreover have "contiguous_exported_lsn (snd (attach_parquet m sid a)) = contiguous_exported_lsn ?w"
    "dm_segments_v2 (snd (attach_parquet m sid a)) = dm_segments_v2 ?w"
    by (simp_all add: r contiguous_exported_lsn_def)
  moreover have "fst (attach_parquet m sid a) = Inr ()" by (simp add: r)
  ultimately show ?thesis
    using le contiguous_exported_sound [OF c'] by (simp add: contiguous_exported_lsn_def)
qed

lemma export_watermark_honest_witness:
  "dm_exported_through_lsn (snd (attach_parquet example_manifest 1 \<lparr>da_location = [0x70], da_size = 9,
      da_digest = replicate 32 1, da_logical_root = replicate 32 7, da_created_hlc = 8\<rparr>)) = 10"
proof -
  let ?a = "\<lparr>da_location = [0x70], da_size = 9, da_digest = replicate 32 1, da_logical_root = replicate 32 7,
    da_created_hlc = 8\<rparr>"
  have s: "segment example_manifest 1 = Some (example_segment 1 1 10)"
    by (simp add: segment_def example_manifest_def example_segment_def)
  have "dm_exported_through_lsn example_manifest \<le> contiguous_exported_lsn example_manifest"
    by (simp add: example_manifest_def)
  from export_watermark_honest [OF example_disjoint this s, of ?a]
  have "dm_exported_through_lsn (snd (attach_parquet example_manifest 1 ?a))
      = contiguous_exported_lsn (snd (attach_parquet example_manifest 1 ?a))"
    by (simp add: example_segment_def)
  also have "\<dots> = 10"
    by (simp add: attach_parquet_def s Let_def write_segment_def contiguous_exported_lsn_def)
      (simp add: example_manifest_def example_segment_def parquet_valid_def)
  finally show ?thesis .
qed

end
