(* ===== verification/Ordered_Map.thy ===== *)
theory Ordered_Map
  imports Prelude
begin

text \<open>
  \<open>std::collections::BTreeMap\<close> as the code uses it: a list of bindings in increasing order of the keys,
  which is the order in which Rust iterates over the map.
\<close>

type_synonym ('k, 'v) ordered_map = "('k \<times> 'v) list"

definition om_ok :: "('k::linorder, 'v) ordered_map \<Rightarrow> bool" where
  "om_ok m = sorted_wrt (<) (map fst m)"

fun om_insert :: "'k::linorder \<Rightarrow> 'v \<Rightarrow> ('k, 'v) ordered_map \<Rightarrow> ('k, 'v) ordered_map" where
  "om_insert k v [] = [(k, v)]"
| "om_insert k v ((x, y) # m) =
     (if k < x then (k, v) # (x, y) # m else if k = x then (k, v) # m else (x, y) # om_insert k v m)"

definition om_remove :: "'k \<Rightarrow> ('k, 'v) ordered_map \<Rightarrow> ('k, 'v) ordered_map" where
  "om_remove k m = filter (\<lambda>(x, y). x \<noteq> k) m"

text \<open>\<open>split_off(&k)\<close>: what stays and what is returned.\<close>

definition om_below :: "'k::linorder \<Rightarrow> ('k, 'v) ordered_map \<Rightarrow> ('k, 'v) ordered_map" where
  "om_below k m = filter (\<lambda>(x, y). x < k) m"

definition om_from :: "'k::linorder \<Rightarrow> ('k, 'v) ordered_map \<Rightarrow> ('k, 'v) ordered_map" where
  "om_from k m = filter (\<lambda>(x, y). k \<le> x) m"

definition om_last :: "('k, 'v) ordered_map \<Rightarrow> 'v option" where
  "om_last m = (if m = [] then None else Some (snd (last m)))"

text \<open>\<open>entry(k).or_default()\<close> and a change of the value it gives.\<close>

definition om_modify :: "'k::linorder \<Rightarrow> 'v \<Rightarrow> ('v \<Rightarrow> 'v) \<Rightarrow> ('k, 'v) ordered_map \<Rightarrow> ('k, 'v) ordered_map" where
  "om_modify k d f m = om_insert k (f (case map_of m k of None \<Rightarrow> d | Some v \<Rightarrow> v)) m"

named_theorems om_simps "lookups after updates of an ordered map"

lemma map_of_om_insert [om_simps]: "map_of (om_insert k v m) = (map_of m)(k \<mapsto> v)"
  by (induction m rule: om_insert.induct) (auto simp: fun_eq_iff)

lemma map_of_filter_keys: "map_of (filter (\<lambda>(x, y). P x) m) = (\<lambda>x. if P x then map_of m x else None)"
  by (induction m) (auto simp: fun_eq_iff)

lemma map_of_om_parts [om_simps]:
  "map_of (om_remove k m) x = (if x = k then None else map_of m x)"
  "map_of (om_below k m) x = (if x < k then map_of m x else None)"
  "map_of (om_from k m) x = (if k \<le> x then map_of m x else None)"
  by (simp_all add: om_remove_def om_below_def om_from_def map_of_filter_keys)

lemma om_ok_simps [simp]:
  "om_ok []" "om_ok ((k, v) # m) \<longleftrightarrow> (\<forall>x \<in> fst ` set m. k < x) \<and> om_ok m"
  by (simp_all add: om_ok_def)

lemma keys_om_insert: "fst ` set (om_insert k v m) = insert k (fst ` set m)"
  by (induction m rule: om_insert.induct) auto

lemma om_ok_insert [simp]: "om_ok m \<Longrightarrow> om_ok (om_insert k v m)"
  by (induction m rule: om_insert.induct) (auto simp: keys_om_insert)

lemma om_ok_filter: "om_ok m \<Longrightarrow> om_ok (filter P m)"
  by (induction m) auto

lemma om_ok_parts [simp]: "om_ok m \<Longrightarrow> om_ok (om_remove k m)" "om_ok m \<Longrightarrow> om_ok (om_below k m)"
  "om_ok m \<Longrightarrow> om_ok (om_from k m)"
  by (simp_all add: om_remove_def om_below_def om_from_def om_ok_filter)

lemma om_ok_distinct: "om_ok m \<Longrightarrow> distinct (map fst m)"
  by (simp add: om_ok_def strict_sorted_iff)

lemma set_om_insert: "set (om_insert k v m) \<subseteq> insert (k, v) (set m)"
  by (induction m rule: om_insert.induct) auto

text \<open>Two ordered maps with the same lookups are the same list.\<close>

lemma om_ok_keys: "om_ok m \<Longrightarrow> map fst m = sorted_list_of_set (dom (map_of m))"
  by (simp add: om_ok_def dom_map_of_conv_image_fst strict_sorted_iff sorted_list_of_set.idem_if_sorted_distinct
      flip: set_map)

lemma om_ok_unique:
  assumes "om_ok a" and "om_ok b" and "map_of a = map_of b"
  shows "a = b"
proof -
  have k: "map fst a = map fst b" using om_ok_keys [OF assms(1)] om_ok_keys [OF assms(2)] assms(3) by simp
  have "map snd a = map (\<lambda>x. the (map_of a x)) (map fst a)"
    using om_ok_distinct [OF assms(1)] by (auto intro!: map_cong simp: map_of_is_SomeI)
  moreover have "map snd b = map (\<lambda>x. the (map_of b x)) (map fst b)"
    using om_ok_distinct [OF assms(2)] by (auto intro!: map_cong simp: map_of_is_SomeI)
  ultimately have "map snd a = map snd b" using k assms(3) by simp
  with k show ?thesis by (metis zip_map_fst_snd)
qed

text \<open>Inserting bindings above all the others appends them.\<close>

lemma om_insert_last: "\<forall>x \<in> fst ` set m. x < k \<Longrightarrow> om_insert k v m = m @ [(k, v)]"
  by (induction m rule: om_insert.induct) auto

lemma foldl_om_insert:
  "om_ok (m @ xs) \<Longrightarrow> foldl (\<lambda>m (k, v). om_insert k v m) m xs = m @ xs"
proof (induction xs arbitrary: m)
  case (Cons x xs)
  obtain k v where x: "x = (k, v)" by fastforce
  have "\<forall>y \<in> fst ` set m. y < k" using Cons.prems by (auto simp: om_ok_def x sorted_wrt_append)
  then have "om_insert k v m = m @ [x]" by (simp add: om_insert_last x)
  then show ?case using Cons.IH [of "m @ [x]"] Cons.prems by (simp add: x)
qed simp

text \<open>Modifying a binding, and what is listed along the map.\<close>

lemma map_of_om_modify [om_simps]:
  "map_of (om_modify k d f m) = (map_of m)(k \<mapsto> f (case map_of m k of None \<Rightarrow> d | Some v \<Rightarrow> v))"
  by (simp add: om_modify_def map_of_om_insert)

lemma om_ok_modify [simp]: "om_ok m \<Longrightarrow> om_ok (om_modify k d f m)"
  by (simp add: om_modify_def)

lemma concat_om_insert:
  assumes "om_ok m" and "h (k, v) = (case map_of m k of None \<Rightarrow> [] | Some u \<Rightarrow> h (k, u))"
  shows "concat (map h (om_insert k v m)) = concat (map h m)"
  using assms
proof (induction m)
  case (Cons p m)
  obtain x y where p: "p = (x, y)" by fastforce
  have "map_of m k = None" if "k < x"
    using Cons.prems(1) that by (auto simp: p map_of_eq_None_iff)
  then show ?case using Cons by (auto simp: p split: if_splits)
qed simp

end
