(* ===== verification/Raft_Wal.thy ===== *)
theory Raft_Wal
  imports Ordered_Map Dir_Crash
begin

text \<open>
  \<open>heraclitus-raft/src/durable.rs\<close>, the Raft log on disk: \<open>entries.wal\<close>, a file of length-prefixed records that
  is only appended to and rewritten by \<open>rewrite_wal\<close>, and \<open>meta.bin\<close>, the vote and the committed log id,
  replaced by rename. The types of openraft and the bincode encoding are parameters. A write of the log
  may stop after some bytes with an error, which is the argument \<open>io\<close> of the operations that append.
\<close>

section \<open>Records\<close>

datatype storage_error = ReadLogs string | WriteLogs string | ReadVote string | WriteVote string

type_synonym 'a raft_result = "storage_error + 'a"

datatype ('e, 'l) log_record = Insert 'e | Truncate u64 | Purge 'l

record ('v, 'l) raft_meta =
  rm_vote :: "'v option"
  rm_committed :: "'l option"

definition meta_default :: "('v, 'l) raft_meta" where
  "meta_default = \<lparr>rm_vote = None, rm_committed = None\<rparr>"

text \<open>openraft: the log id of an entry and the index of a log id. bincode: \<open>None\<close> is a failure.\<close>

record ('e, 'l, 'v) raft_types =
  rt_log_id :: "'e \<Rightarrow> 'l"
  rt_index :: "'l \<Rightarrow> u64"
  rt_enc_record :: "('e, 'l) log_record \<Rightarrow> bytes option"
  rt_dec_record :: "bytes \<Rightarrow> ('e, 'l) log_record option"
  rt_enc_meta :: "('v, 'l) raft_meta \<Rightarrow> bytes option"
  rt_dec_meta :: "bytes \<Rightarrow> ('v, 'l) raft_meta option"

definition entry_index :: "('e, 'l, 'v) raft_types \<Rightarrow> 'e \<Rightarrow> u64" where
  "entry_index rt e = rt_index rt (rt_log_id rt e)"

definition WAL_FILE :: file_name where
  "WAL_FILE = ascii ''entries.wal''"

definition WAL_TMP :: file_name where
  "WAL_TMP = ascii ''entries.wal.tmp''"

definition META_FILE :: file_name where
  "META_FILE = ascii ''meta.bin''"

definition META_TMP :: file_name where
  "META_TMP = ascii ''meta.bin.tmp''"

text \<open>The state of \<open>Inner\<close>: the directory, of which the open file is \<open>entries.wal\<close>, and what is in memory.\<close>

record ('e, 'l, 'v) raft_inner =
  ri_fs :: directory
  ri_entries :: "(u64, 'e) ordered_map"
  ri_last_purged :: "'l option"
  ri_meta :: "('v, 'l) raft_meta"

definition file_bytes :: "directory \<Rightarrow> file_name \<Rightarrow> bytes" where
  "file_bytes fs n = (case map_of fs n of None \<Rightarrow> [] | Some c \<Rightarrow> c)"

definition encode_record :: "('e, 'l, 'v) raft_types \<Rightarrow> ('e, 'l) log_record \<Rightarrow> bytes raft_result" where
  "encode_record rt rec = (case rt_enc_record rt rec of
     None \<Rightarrow> Inl (WriteLogs ''bincode'')
   | Some bytes \<Rightarrow> Inr (to_le_bytes (word_of_nat (length bytes) :: u32) @ bytes))"

text \<open>\<open>write_all\<close> and \<open>sync_all\<close>: an error leaves a prefix of the record in the file.\<close>

definition append_record :: "('e, 'l, 'v) raft_types \<Rightarrow> nat option \<Rightarrow> ('e, 'l) log_record \<Rightarrow> ('e, 'l, 'v) raft_inner
    \<Rightarrow> unit raft_result \<times> ('e, 'l, 'v) raft_inner" where
  "append_record rt io rec s = (case encode_record rt rec of
     Inl e \<Rightarrow> (Inl e, s)
   | Inr framed \<Rightarrow> (case io of
       None \<Rightarrow> (Inr (), s\<lparr>ri_fs := AList.update WAL_FILE (file_bytes (ri_fs s) WAL_FILE @ framed) (ri_fs s)\<rparr>)
     | Some n \<Rightarrow> (Inl (WriteLogs ''write''),
         s\<lparr>ri_fs := AList.update WAL_FILE (file_bytes (ri_fs s) WAL_FILE @ take n framed) (ri_fs s)\<rparr>)))"

section \<open>Rewriting the log and the meta file\<close>

definition compacted :: "('e, 'l, 'v) raft_inner \<Rightarrow> ('e, 'l) log_record list" where
  "compacted s = (case ri_last_purged s of None \<Rightarrow> [] | Some p \<Rightarrow> [Purge p]) @ map (\<lambda>(i, e). Insert e) (ri_entries s)"

definition rewrite_ops :: "('e, 'l, 'v) raft_types \<Rightarrow> ('e, 'l, 'v) raft_inner \<Rightarrow> dir_op list raft_result" where
  "rewrite_ops rt s = bindE (mapE (encode_record rt) (compacted s)) (\<lambda>framed.
     Inr [WriteAndSync WAL_TMP (concat framed), Rename WAL_TMP WAL_FILE, SyncDir])"

definition rewrite_wal :: "('e, 'l, 'v) raft_types \<Rightarrow> ('e, 'l, 'v) raft_inner
    \<Rightarrow> unit raft_result \<times> ('e, 'l, 'v) raft_inner" where
  "rewrite_wal rt s = (case rewrite_ops rt s of
     Inl e \<Rightarrow> (Inl e, s)
   | Inr ops \<Rightarrow> (case run_ops ops (ri_fs s) of
       Inl e \<Rightarrow> (Inl (WriteLogs ''rename''), s)
     | Inr fs \<Rightarrow> (Inr (), s\<lparr>ri_fs := fs\<rparr>)))"

definition meta_ops :: "('e, 'l, 'v) raft_types \<Rightarrow> ('v, 'l) raft_meta \<Rightarrow> dir_op list raft_result" where
  "meta_ops rt m = (case rt_enc_meta rt m of
     None \<Rightarrow> Inl (WriteVote ''bincode'')
   | Some bytes \<Rightarrow> Inr [WriteAndSync META_TMP bytes, Rename META_TMP META_FILE, SyncDir])"

definition write_meta :: "('e, 'l, 'v) raft_types \<Rightarrow> ('e, 'l, 'v) raft_inner
    \<Rightarrow> unit raft_result \<times> ('e, 'l, 'v) raft_inner" where
  "write_meta rt s = (case meta_ops rt (ri_meta s) of
     Inl e \<Rightarrow> (Inl e, s)
   | Inr ops \<Rightarrow> (case run_ops ops (ri_fs s) of
       Inl e \<Rightarrow> (Inl (WriteVote ''rename''), s)
     | Inr fs \<Rightarrow> (Inr (), s\<lparr>ri_fs := fs\<rparr>)))"

section \<open>Replay\<close>

record ('e, 'l) replayed =
  rp_entries :: "(u64, 'e) ordered_map"
  rp_last_purged :: "'l option"
  rp_valid_len :: nat
  rp_saw_compaction :: bool

definition apply_record :: "('e, 'l, 'v) raft_types \<Rightarrow> ('e, 'l) replayed \<Rightarrow> ('e, 'l) log_record \<Rightarrow> ('e, 'l) replayed" where
  "apply_record rt r rec = (case rec of
     Insert e \<Rightarrow> r\<lparr>rp_entries := om_insert (entry_index rt e) e (rp_entries r),
       rp_saw_compaction := rp_saw_compaction r \<or> map_of (rp_entries r) (entry_index rt e) \<noteq> None\<rparr>
   | Truncate idx \<Rightarrow> (let after = om_below idx (rp_entries r) in r\<lparr>rp_entries := after,
       rp_saw_compaction := rp_saw_compaction r \<or> length after \<noteq> length (rp_entries r)\<rparr>)
   | Purge l \<Rightarrow> (let after = om_from (rt_index rt l + 1) (rp_entries r) in r\<lparr>rp_entries := after,
       rp_saw_compaction := rp_saw_compaction r \<or> length after \<noteq> length (rp_entries r),
       rp_last_purged := Some l\<rparr>))"

function replay_loop :: "('e, 'l, 'v) raft_types \<Rightarrow> bytes \<Rightarrow> nat \<Rightarrow> ('e, 'l) replayed \<Rightarrow> ('e, 'l) replayed raft_result" where
  "replay_loop rt content pos r =
     (if length content - pos < 4 then Inr r
      else (let len = unat (from_le_bytes (take 4 (drop pos content)) :: u32) in
        if len > length content - pos - 4 then Inr r
        else (case rt_dec_record rt (take len (drop (pos + 4) content)) of
            None \<Rightarrow> Inl (ReadLogs ''registo corrupto no WAL raft; recuso truncar'')
          | Some rec \<Rightarrow> (let pos = pos + 4 + len in
              replay_loop rt content pos ((apply_record rt r rec)\<lparr>rp_valid_len := pos\<rparr>)))))"
  by pat_completeness auto

termination
  by (relation "measure (\<lambda>(rt, content, pos, r). length content - pos)") auto

declare replay_loop.simps [simp del]

definition replay_start :: "('e, 'l) replayed" where
  "replay_start = \<lparr>rp_entries = [], rp_last_purged = None, rp_valid_len = 0, rp_saw_compaction = False\<rparr>"

definition replay :: "('e, 'l, 'v) raft_types \<Rightarrow> directory \<Rightarrow> ('e, 'l) replayed raft_result" where
  "replay rt fs = (case map_of fs WAL_FILE of
     None \<Rightarrow> Inr replay_start
   | Some content \<Rightarrow> replay_loop rt content 0 replay_start)"

definition load_meta :: "('e, 'l, 'v) raft_types \<Rightarrow> directory \<Rightarrow> ('v, 'l) raft_meta raft_result" where
  "load_meta rt fs = (case map_of fs META_FILE of
     None \<Rightarrow> Inr meta_default
   | Some bytes \<Rightarrow> (case rt_dec_meta rt bytes of
       None \<Rightarrow> Inl (ReadVote ''meta.bin corrompido (recusa arrancar em vez de perder o voto)'')
     | Some m \<Rightarrow> Inr m))"

text \<open>\<open>FileRaftLog::open\<close>: the torn tail is cut before the meta file is read.\<close>

definition open_raft_log :: "('e, 'l, 'v) raft_types \<Rightarrow> directory \<Rightarrow> ('e, 'l, 'v) raft_inner raft_result \<times> directory" where
  "open_raft_log rt fs = (case replay rt fs of
     Inl e \<Rightarrow> (Inl e, fs)
   | Inr r \<Rightarrow> (let fs = AList.update WAL_FILE (take (rp_valid_len r) (file_bytes fs WAL_FILE)) fs in
     case load_meta rt fs of
       Inl e \<Rightarrow> (Inl e, fs)
     | Inr m \<Rightarrow> (let s = \<lparr>ri_fs = fs, ri_entries = rp_entries r, ri_last_purged = rp_last_purged r, ri_meta = m\<rparr> in
       if rp_saw_compaction r
       then (case rewrite_wal rt s of (Inl e, s) \<Rightarrow> (Inl e, ri_fs s) | (Inr _, s) \<Rightarrow> (Inr s, ri_fs s))
       else (Inr s, fs))))"

section \<open>The storage operations\<close>

fun append_sync :: "('e, 'l, 'v) raft_types \<Rightarrow> 'e list \<Rightarrow> ('e, 'l, 'v) raft_inner
    \<Rightarrow> unit raft_result \<times> ('e, 'l, 'v) raft_inner" where
  "append_sync rt [] s = (Inr (), s)"
| "append_sync rt (e # es) s = (case append_record rt None (Insert e) s of
     (Inl err, s) \<Rightarrow> (Inl err, s)
   | (Inr _, s) \<Rightarrow> append_sync rt es (s\<lparr>ri_entries := om_insert (entry_index rt e) e (ri_entries s)\<rparr>))"

definition raft_truncate :: "('e, 'l, 'v) raft_types \<Rightarrow> 'l \<Rightarrow> ('e, 'l, 'v) raft_inner
    \<Rightarrow> unit raft_result \<times> ('e, 'l, 'v) raft_inner" where
  "raft_truncate rt l s = (case append_record rt None (Truncate (rt_index rt l)) s of
     (Inl err, s) \<Rightarrow> (Inl err, s)
   | (Inr _, s) \<Rightarrow> (Inr (), s\<lparr>ri_entries := om_below (rt_index rt l) (ri_entries s)\<rparr>))"

definition raft_purge :: "('e, 'l, 'v) raft_types \<Rightarrow> 'l \<Rightarrow> ('e, 'l, 'v) raft_inner
    \<Rightarrow> unit raft_result \<times> ('e, 'l, 'v) raft_inner" where
  "raft_purge rt l s = (case append_record rt None (Purge l) s of
     (Inl err, s) \<Rightarrow> (Inl err, s)
   | (Inr _, s) \<Rightarrow> rewrite_wal rt (s\<lparr>ri_entries := om_from (rt_index rt l + 1) (ri_entries s), ri_last_purged := Some l\<rparr>))"

definition save_vote :: "('e, 'l, 'v) raft_types \<Rightarrow> 'v \<Rightarrow> ('e, 'l, 'v) raft_inner
    \<Rightarrow> unit raft_result \<times> ('e, 'l, 'v) raft_inner" where
  "save_vote rt v s = write_meta rt (s\<lparr>ri_meta := (ri_meta s)\<lparr>rm_vote := Some v\<rparr>\<rparr>)"

definition save_committed :: "('e, 'l, 'v) raft_types \<Rightarrow> 'l option \<Rightarrow> ('e, 'l, 'v) raft_inner
    \<Rightarrow> unit raft_result \<times> ('e, 'l, 'v) raft_inner" where
  "save_committed rt c s = write_meta rt (s\<lparr>ri_meta := (ri_meta s)\<lparr>rm_committed := c\<rparr>\<rparr>)"

definition raft_last_log_id :: "('e, 'l, 'v) raft_types \<Rightarrow> ('e, 'l, 'v) raft_inner \<Rightarrow> 'l option" where
  "raft_last_log_id rt s = (case om_last (ri_entries s) of Some e \<Rightarrow> Some (rt_log_id rt e) | None \<Rightarrow> ri_last_purged s)"

text \<open>\<open>try_get_log_entries\<close> for the half-open range that openraft asks for.\<close>

definition try_get_log_entries :: "u64 \<Rightarrow> u64 \<Rightarrow> ('e, 'l, 'v) raft_inner \<Rightarrow> 'e list" where
  "try_get_log_entries lo hi s = map snd (filter (\<lambda>(i, e). lo \<le> i \<and> i < hi) (ri_entries s))"

section \<open>The log in memory (\<open>MemRaftLog\<close>)\<close>

record ('e, 'l, 'v) mem_log =
  ml_entries :: "(u64, 'e) ordered_map"
  ml_committed :: "'l option"
  ml_vote :: "'v option"
  ml_last_purged :: "'l option"

definition mem_append :: "('e, 'l, 'v) raft_types \<Rightarrow> 'e list \<Rightarrow> ('e, 'l, 'v) mem_log \<Rightarrow> ('e, 'l, 'v) mem_log" where
  "mem_append rt es s = s\<lparr>ml_entries := foldl (\<lambda>m e. om_insert (entry_index rt e) e m) (ml_entries s) es\<rparr>"

definition mem_truncate :: "('e, 'l, 'v) raft_types \<Rightarrow> 'l \<Rightarrow> ('e, 'l, 'v) mem_log \<Rightarrow> ('e, 'l, 'v) mem_log" where
  "mem_truncate rt l s = s\<lparr>ml_entries := om_below (rt_index rt l) (ml_entries s)\<rparr>"

definition mem_purge :: "('e, 'l, 'v) raft_types \<Rightarrow> 'l \<Rightarrow> ('e, 'l, 'v) mem_log \<Rightarrow> ('e, 'l, 'v) mem_log" where
  "mem_purge rt l s = s\<lparr>ml_entries := om_from (rt_index rt l + 1) (ml_entries s), ml_last_purged := Some l\<rparr>"

definition mem_save_vote :: "'v \<Rightarrow> ('e, 'l, 'v) mem_log \<Rightarrow> ('e, 'l, 'v) mem_log" where
  "mem_save_vote v s = s\<lparr>ml_vote := Some v\<rparr>"

definition mem_save_committed :: "'l option \<Rightarrow> ('e, 'l, 'v) mem_log \<Rightarrow> ('e, 'l, 'v) mem_log" where
  "mem_save_committed c s = s\<lparr>ml_committed := c\<rparr>"

definition mem_last_log_id :: "('e, 'l, 'v) raft_types \<Rightarrow> ('e, 'l, 'v) mem_log \<Rightarrow> 'l option" where
  "mem_last_log_id rt s = (case om_last (ml_entries s) of Some e \<Rightarrow> Some (rt_log_id rt e) | None \<Rightarrow> ml_last_purged s)"

end
