(* ===== verification/Raft_Wal_Correct.thy ===== *)
theory Raft_Wal_Correct
  imports Raft_Wal
begin

text \<open>
  The Raft log on disk behaves as the log in memory, \<open>MemRaftLog\<close>, through completed operations, crashes at
  any byte of any write and at any file operation, and restarts.
\<close>

section \<open>Replay of what was written\<close>

text \<open>bincode: what it encodes it decodes, and a record is shorter than 4 GiB.\<close>

definition wal_codec_ok :: "('e, 'l, 'v) raft_types \<Rightarrow> bool" where
  "wal_codec_ok rt \<longleftrightarrow> (\<forall>rec b. rt_enc_record rt rec = Some b \<longrightarrow> rt_dec_record rt b = Some rec \<and> length b < 2 ^ 32)
     \<and> (\<forall>m b. rt_enc_meta rt m = Some b \<longrightarrow> rt_dec_meta rt b = Some m)"

lemma encode_record_Inr: "encode_record rt rec = Inr fr \<longleftrightarrow>
    (\<exists>b. rt_enc_record rt rec = Some b \<and> fr = to_le_bytes (word_of_nat (length b) :: u32) @ b)"
  by (auto simp: encode_record_def split: option.splits)

lemma unat_len_u32: "n < 2 ^ 32 \<Longrightarrow> unat (word_of_nat n :: u32) = n"
  by (simp add: unsigned_of_nat take_bit_nat_eq_self)

lemma replay_one:
  assumes "encode_record rt rec = Inr fr" and "wal_codec_ok rt"
  shows "replay_loop rt (pre @ fr @ post) (length pre) r = replay_loop rt (pre @ fr @ post) (length (pre @ fr))
    ((apply_record rt r rec)\<lparr>rp_valid_len := length (pre @ fr)\<rparr>)"
proof -
  obtain b where b: "rt_enc_record rt rec = Some b" "fr = to_le_bytes (word_of_nat (length b) :: u32) @ b"
    using assms(1) by (auto simp: encode_record_Inr)
  then have d: "rt_dec_record rt b = Some rec" "length b < 2 ^ 32" using assms(2) by (simp_all add: wal_codec_ok_def)
  show ?thesis
    by (subst replay_loop.simps) (simp add: b d unat_len_u32 [OF d(2)] Let_def add.commute add.left_commute)
qed

text \<open>A tail that ends before the record it announces.\<close>

definition torn :: "bytes \<Rightarrow> bool" where
  "torn t \<longleftrightarrow> length t < 4 \<or> length t - 4 < unat (from_le_bytes (take 4 t) :: u32)"

lemma torn_nil [simp]: "torn []"
  by (simp add: torn_def)

lemma replay_torn: "torn t \<Longrightarrow> replay_loop rt (pre @ t) (length pre) r = Inr r"
  by (subst replay_loop.simps) (auto simp: torn_def Let_def)

lemma torn_prefix:
  assumes "encode_record rt rec = Inr fr" and "wal_codec_ok rt" and "n + length x < length fr"
  shows "4 \<le> n \<or> x = [] \<Longrightarrow> torn (take n fr @ x)"
proof -
  obtain b where b: "rt_enc_record rt rec = Some b" "fr = to_le_bytes (word_of_nat (length b) :: u32) @ b"
    using assms(1) by (auto simp: encode_record_Inr)
  then have d: "length b < 2 ^ 32" using assms(2) by (simp add: wal_codec_ok_def)
  show "torn (take n fr @ x)" if "4 \<le> n \<or> x = []"
  proof (cases "n < 4")
    case True
    then have "length (take n fr) < 4" "x = []" using that by auto
    then show ?thesis by (simp only: torn_def append_Nil2 simp_thms)
  next
    case False
    then have t: "take n fr = to_le_bytes (word_of_nat (length b) :: u32) @ take (n - 4) b" by (simp add: b)
    show ?thesis using False assms(3) unfolding t by (simp add: torn_def b(2) unat_len_u32 [OF d])
  qed
qed

lemma apply_valid_len: "apply_record rt (r\<lparr>rp_valid_len := n\<rparr>) rec = (apply_record rt r rec)\<lparr>rp_valid_len := n\<rparr>"
  by (cases rec) (simp_all add: apply_record_def Let_def)

lemma replay_records:
  assumes "mapE (encode_record rt) recs = Inr frs" and "torn t" and ok: "wal_codec_ok rt" and "rp_valid_len r = length pre"
  shows "replay_loop rt (pre @ concat frs @ t) (length pre) r
    = Inr ((foldl (apply_record rt) r recs)\<lparr>rp_valid_len := length pre + length (concat frs)\<rparr>)"
  using assms(1,4)
proof (induction recs arbitrary: frs pre r)
  case Nil
  have "replay_loop rt (pre @ t) (length pre) r = Inr r"
    using assms(2) by (rule replay_torn)
  then show ?case using Nil by simp
next
  case (Cons rec recs)
  obtain fr gs where f: "encode_record rt rec = Inr fr" "mapE (encode_record rt) recs = Inr gs" "frs = fr # gs"
    using Cons.prems(1) by (auto elim!: bindE_InrE)
  let ?r = "(apply_record rt r rec)\<lparr>rp_valid_len := length (pre @ fr)\<rparr>"
  have c: "foldl (apply_record rt) (x\<lparr>rp_valid_len := n\<rparr>) recs = (foldl (apply_record rt) x recs)\<lparr>rp_valid_len := n\<rparr>" for x n
    by (induction recs arbitrary: x) (simp_all add: apply_valid_len)
  show ?case
    using replay_one [OF f(1) ok, of pre "concat gs @ t" r] Cons.IH [OF f(2), of ?r "pre @ fr"] f(3)
    by (simp add: c add.assoc)
qed

section \<open>What a log of records stands for\<close>

abbreviation final :: "('e, 'l, 'v) raft_types \<Rightarrow> ('e, 'l) log_record list \<Rightarrow> ('e, 'l) replayed" where
  "final rt recs \<equiv> foldl (apply_record rt) replay_start recs"

lemma apply_record_simps [simp]:
  "rp_entries (apply_record rt r (Insert e)) = om_insert (entry_index rt e) e (rp_entries r)"
  "rp_entries (apply_record rt r (Truncate k)) = om_below k (rp_entries r)"
  "rp_entries (apply_record rt r (Purge l)) = om_from (rt_index rt l + 1) (rp_entries r)"
  "rp_last_purged (apply_record rt r (Insert e)) = rp_last_purged r"
  "rp_last_purged (apply_record rt r (Truncate k)) = rp_last_purged r"
  "rp_last_purged (apply_record rt r (Purge l)) = Some l"
  by (simp_all add: apply_record_def Let_def)

lemma mapE_sub:
  assumes "mapE f xs = Inr ys" and "set zs \<subseteq> set xs"
  shows "\<exists>ws. mapE f zs = Inr ws"
proof -
  have "\<exists>y. f x = Inr y" if "x \<in> set xs" for x
    using assms(1) that by (induction xs arbitrary: ys) (auto elim!: bindE_InrE)
  then have "\<forall>z \<in> set zs. \<exists>y. f z = Inr y" using assms(2) by blast
  then show ?thesis by (induction zs) auto
qed

definition entries_ok :: "('e, 'l, 'v) raft_types \<Rightarrow> (u64, 'e) ordered_map \<Rightarrow> bool" where
  "entries_ok rt m \<longleftrightarrow> om_ok m \<and> (\<forall>(i, e) \<in> set m. i = entry_index rt e)"

lemma entries_ok_insert: "entries_ok rt m \<Longrightarrow> entries_ok rt (om_insert (entry_index rt e) e m)"
  using set_om_insert [of "entry_index rt e" e m] by (auto simp: entries_ok_def)

lemma entries_ok_parts: "entries_ok rt m \<Longrightarrow> entries_ok rt (om_below k m)" "entries_ok rt m \<Longrightarrow> entries_ok rt (om_from k m)"
  by (auto simp: entries_ok_def om_below_def om_from_def om_ok_filter)

lemma set_om_parts: "set (om_below k m) \<subseteq> set m" "set (om_from k m) \<subseteq> set m"
  by (auto simp: om_below_def om_from_def)

lemma final_entries:
  "entries_ok rt (rp_entries (final rt recs))
    \<and> (\<forall>(i, e) \<in> set (rp_entries (final rt recs)). Insert e \<in> set recs)
    \<and> (\<forall>p. rp_last_purged (final rt recs) = Some p \<longrightarrow> Purge p \<in> set recs)"
proof (induction recs rule: rev_induct)
  case Nil
  then show ?case by (simp add: replay_start_def entries_ok_def)
next
  case (snoc rec recs)
  show ?case
  proof (cases rec)
    case (Insert e)
    then show ?thesis
      using snoc set_om_insert [of "entry_index rt e" e "rp_entries (final rt recs)"]
      by (auto simp: entries_ok_insert)
  next
    case (Truncate k)
    then show ?thesis using snoc set_om_parts(1) [of k "rp_entries (final rt recs)"] by (auto simp: entries_ok_parts)
  next
    case (Purge l)
    then show ?thesis using snoc set_om_parts(2) [of "rt_index rt l + 1" "rp_entries (final rt recs)"] by (auto simp: entries_ok_parts)
  qed
qed

lemma final_compacted:
  assumes "entries_ok rt (ri_entries s)"
  shows "rp_entries (final rt (compacted s)) = ri_entries s" and "rp_last_purged (final rt (compacted s)) = ri_last_purged s"
proof -
  have ins: "rp_entries (foldl (apply_record rt) r (map (\<lambda>(i, e). Insert e) xs))
      = foldl (\<lambda>m (k, v). om_insert k v m) (rp_entries r) xs
    \<and> rp_last_purged (foldl (apply_record rt) r (map (\<lambda>(i, e). Insert e) xs)) = rp_last_purged r"
    if "\<forall>(i, e) \<in> set xs. i = entry_index rt e" for r xs
    using that by (induction xs arbitrary: r) auto
  let ?start = "foldl (apply_record rt) replay_start (case ri_last_purged s of None \<Rightarrow> [] | Some p \<Rightarrow> [Purge p])"
  have start: "rp_entries ?start = []" "rp_last_purged ?start = ri_last_purged s"
    by (simp_all add: replay_start_def om_from_def split: option.splits)
  have "foldl (\<lambda>m (k, v). om_insert k v m) [] (ri_entries s) = ri_entries s"
    using foldl_om_insert [of "[]" "ri_entries s"] assms by (simp add: entries_ok_def)
  then show "rp_entries (final rt (compacted s)) = ri_entries s" "rp_last_purged (final rt (compacted s)) = ri_last_purged s"
    using ins [of "ri_entries s" ?start] assms start by (simp_all add: compacted_def entries_ok_def)
qed

section \<open>The state in memory and the state on disk\<close>

definition mem_view :: "('e, 'l) replayed \<Rightarrow> ('v, 'l) raft_meta \<Rightarrow> ('e, 'l, 'v) mem_log" where
  "mem_view r m = \<lparr>ml_entries = rp_entries r, ml_committed = rm_committed m, ml_vote = rm_vote m, ml_last_purged = rp_last_purged r\<rparr>"

definition mem_of :: "('e, 'l, 'v) raft_inner \<Rightarrow> ('e, 'l, 'v) mem_log" where
  "mem_of s = \<lparr>ml_entries = ri_entries s, ml_committed = rm_committed (ri_meta s), ml_vote = rm_vote (ri_meta s),
     ml_last_purged = ri_last_purged s\<rparr>"

text \<open>A directory from which a restart recovers a given log.\<close>

definition disk_view :: "('e, 'l, 'v) raft_types \<Rightarrow> directory \<Rightarrow> ('e, 'l, 'v) mem_log \<Rightarrow> bool" where
  "disk_view rt fs v \<longleftrightarrow> (\<exists>recs frs t m. mapE (encode_record rt) recs = Inr frs \<and> file_bytes fs WAL_FILE = concat frs @ t
     \<and> torn t \<and> load_meta rt fs = Inr m \<and> v = mem_view (final rt recs) m)"

definition wal_inv :: "('e, 'l, 'v) raft_types \<Rightarrow> ('e, 'l, 'v) raft_inner \<Rightarrow> bool" where
  "wal_inv rt s \<longleftrightarrow> (\<exists>recs frs. mapE (encode_record rt) recs = Inr frs \<and> map_of (ri_fs s) WAL_FILE = Some (concat frs)
     \<and> load_meta rt (ri_fs s) = Inr (ri_meta s) \<and> ri_entries s = rp_entries (final rt recs)
     \<and> ri_last_purged s = rp_last_purged (final rt recs))"

lemma wal_inv_view: "wal_inv rt s \<Longrightarrow> disk_view rt (ri_fs s) (mem_of s)"
  unfolding wal_inv_def disk_view_def file_bytes_def torn_def mem_of_def mem_view_def by fastforce

lemma wal_inv_entries: "wal_inv rt s \<Longrightarrow> entries_ok rt (ri_entries s)"
  using final_entries unfolding wal_inv_def by metis

lemma wal_names [simp]:
  "WAL_FILE \<noteq> WAL_TMP" "WAL_TMP \<noteq> WAL_FILE" "WAL_FILE \<noteq> META_FILE" "META_FILE \<noteq> WAL_FILE" "WAL_FILE \<noteq> META_TMP"
  "META_TMP \<noteq> WAL_FILE" "META_FILE \<noteq> META_TMP" "META_TMP \<noteq> META_FILE" "META_FILE \<noteq> WAL_TMP" "WAL_TMP \<noteq> META_FILE"
  by (simp_all add: WAL_FILE_def WAL_TMP_def META_FILE_def META_TMP_def ascii_def)

lemma load_meta_cong: "map_of fs' META_FILE = map_of fs META_FILE \<Longrightarrow> load_meta rt fs' = load_meta rt fs"
  by (simp add: load_meta_def)

text \<open>What the live records of a log in memory need is encodable, because it was encoded before.\<close>

lemma compacted_encodes:
  assumes "mapE (encode_record rt) recs = Inr frs" and "ri_entries s = rp_entries (final rt recs)"
    and "ri_last_purged s = rp_last_purged (final rt recs)"
  shows "\<exists>gs. mapE (encode_record rt) (compacted s) = Inr gs"
  using final_entries [of rt recs] assms(2,3)
  by (intro mapE_sub [OF assms(1)]) (auto simp: compacted_def split: option.splits)

lemma rewrite_inv:
  assumes "mapE (encode_record rt) (compacted s) = Inr gs" and "entries_ok rt (ri_entries s)"
    and "load_meta rt (ri_fs s) = Inr (ri_meta s)"
  shows "\<exists>s'. rewrite_wal rt s = (Inr (), s') \<and> wal_inv rt s' \<and> mem_of s' = mem_of s"
proof -
  obtain fs' where fs': "run_ops [WriteAndSync WAL_TMP (concat gs), Rename WAL_TMP WAL_FILE, SyncDir] (ri_fs s) = Inr fs'"
    "map_of fs' WAL_FILE = Some (concat gs)" "\<And>n. n \<noteq> WAL_TMP \<Longrightarrow> n \<noteq> WAL_FILE \<Longrightarrow> map_of fs' n = map_of (ri_fs s) n"
    using run_replace [of WAL_TMP WAL_FILE "concat gs" "ri_fs s"] by auto
  have "load_meta rt fs' = Inr (ri_meta s)" using load_meta_cong [of fs' "ri_fs s" rt] fs'(3) assms(3) by simp
  then have "wal_inv rt (s\<lparr>ri_fs := fs'\<rparr>)"
    unfolding wal_inv_def using assms(1) fs'(2) final_compacted [OF assms(2)] by (intro exI [of _ "compacted s"] exI [of _ gs]) simp
  then show ?thesis using fs'(1) assms(1) by (simp add: rewrite_wal_def rewrite_ops_def mem_of_def)
qed

lemma rewrite_crash:
  assumes ops: "rewrite_ops rt s = Inr ops" and "entries_ok rt (ri_entries s)" and "load_meta rt (ri_fs s) = Inr (ri_meta s)"
    and old: "disk_view rt (ri_fs s) (mem_of s)" and c: "crash (ri_fs s) ops fs'"
  shows "disk_view rt fs' (mem_of s)"
proof -
  obtain gs where gs: "mapE (encode_record rt) (compacted s) = Inr gs"
    "ops = [WriteAndSync WAL_TMP (concat gs), Rename WAL_TMP WAL_FILE, SyncDir]"
    using ops by (auto simp: rewrite_ops_def elim!: bindE_InrE)
  have "WAL_TMP \<noteq> WAL_FILE" by simp
  from crash_of_replace [OF c [unfolded gs(2)] this] show ?thesis
  proof (elim disjE conjE)
    assume same: "\<forall>n. n \<noteq> WAL_TMP \<longrightarrow> map_of fs' n = map_of (ri_fs s) n"
    then have "file_bytes fs' WAL_FILE = file_bytes (ri_fs s) WAL_FILE" "load_meta rt fs' = load_meta rt (ri_fs s)"
      by (simp_all add: file_bytes_def load_meta_def)
    then show ?thesis using old by (simp add: disk_view_def)
  next
    assume new: "map_of fs' WAL_FILE = Some (concat gs)"
      and same: "\<forall>n. n \<noteq> WAL_TMP \<longrightarrow> n \<noteq> WAL_FILE \<longrightarrow> map_of fs' n = map_of (ri_fs s) n"
    have "load_meta rt fs' = Inr (ri_meta s)" using load_meta_cong [of fs' "ri_fs s" rt] same assms(3) by simp
    then show ?thesis
      unfolding disk_view_def using gs(1) new final_compacted [OF assms(2)]
      by (intro exI [of _ "compacted s"] exI [of _ gs] exI [of _ "[]"] exI [of _ "ri_meta s"])
        (simp add: file_bytes_def torn_def mem_of_def mem_view_def)
  qed
qed

section \<open>Opening\<close>

text \<open>What \<open>open\<close> has made of the directory before it compacts.\<close>

lemma open_truncates:
  assumes v: "disk_view rt fs v" and ok: "wal_codec_ok rt"
  obtains r m s where "replay rt fs = Inr r" and "load_meta rt (ri_fs s) = Inr m"
    and "s = \<lparr>ri_fs = AList.update WAL_FILE (take (rp_valid_len r) (file_bytes fs WAL_FILE)) fs, ri_entries = rp_entries r,
      ri_last_purged = rp_last_purged r, ri_meta = m\<rparr>"
    and "wal_inv rt s" and "mem_of s = v" and "\<exists>gs. mapE (encode_record rt) (compacted s) = Inr gs"
proof -
  obtain recs frs t m where d: "mapE (encode_record rt) recs = Inr frs" "file_bytes fs WAL_FILE = concat frs @ t" "torn t"
    "load_meta rt fs = Inr m" "v = mem_view (final rt recs) m"
    using v by (auto simp: disk_view_def)
  let ?r = "(final rt recs)\<lparr>rp_valid_len := length (concat frs)\<rparr>"
  have loop: "replay_loop rt (file_bytes fs WAL_FILE) 0 replay_start = Inr ?r"
    using replay_records [OF d(1,3) ok, of replay_start "[]"] by (simp add: d(2) replay_start_def)
  have r: "replay rt fs = Inr ?r"
  proof (cases "map_of fs WAL_FILE")
    case None
    then show ?thesis using loop by (simp add: replay_def file_bytes_def replay_loop.simps)
  next
    case (Some c)
    then show ?thesis using loop by (simp add: replay_def file_bytes_def)
  qed
  let ?s = "\<lparr>ri_fs = AList.update WAL_FILE (take (rp_valid_len ?r) (file_bytes fs WAL_FILE)) fs, ri_entries = rp_entries ?r,
      ri_last_purged = rp_last_purged ?r, ri_meta = m\<rparr>"
  have m: "load_meta rt (ri_fs ?s) = Inr m" using d(4) by (simp add: load_meta_def update_conv')
  have "map_of (ri_fs ?s) WAL_FILE = Some (concat frs)" by (simp add: d(2) update_conv')
  then have "wal_inv rt ?s" unfolding wal_inv_def using d(1) m by (intro exI [of _ recs] exI [of _ frs]) simp
  moreover have "mem_of ?s = v" by (simp add: mem_of_def d(5) mem_view_def)
  moreover have "\<exists>gs. mapE (encode_record rt) (compacted ?s) = Inr gs" by (rule compacted_encodes [OF d(1)]) simp_all
  ultimately show thesis using that [OF r m refl] by blast
qed

lemma open_correct:
  assumes "disk_view rt fs v" and "wal_codec_ok rt"
  shows "\<exists>s. open_raft_log rt fs = (Inr s, ri_fs s) \<and> wal_inv rt s \<and> mem_of s = v"
  using assms
proof (rule open_truncates)
  fix r m s
  assume r: "replay rt fs = Inr r" and m: "load_meta rt (ri_fs s) = Inr m"
    and s: "s = \<lparr>ri_fs = AList.update WAL_FILE (take (rp_valid_len r) (file_bytes fs WAL_FILE)) fs, ri_entries = rp_entries r,
      ri_last_purged = rp_last_purged r, ri_meta = m\<rparr>"
    and inv: "wal_inv rt s" "mem_of s = v" and gs: "\<exists>gs. mapE (encode_record rt) (compacted s) = Inr gs"
  show ?thesis
  proof (cases "rp_saw_compaction r")
    case False
    then show ?thesis using r m inv by (intro exI [of _ s]) (simp add: open_raft_log_def Let_def s)
  next
    case True
    have "load_meta rt (ri_fs s) = Inr (ri_meta s)" using m by (simp add: s)
    then obtain s' where s': "rewrite_wal rt s = (Inr (), s')" "wal_inv rt s'" "mem_of s' = mem_of s"
      using gs rewrite_inv wal_inv_entries [OF inv(1)] by blast
    have "open_raft_log rt fs = (Inr s', ri_fs s')"
      using r m True s'(1) by (simp add: open_raft_log_def Let_def flip: s) (simp add: s)
    then show ?thesis using s' inv by auto
  qed
qed

text \<open>A crash while opening: before or after the cut of the torn tail, or while compacting.\<close>

inductive open_crash :: "('e, 'l, 'v) raft_types \<Rightarrow> directory \<Rightarrow> directory \<Rightarrow> bool" for rt where
  before: "open_crash rt fs fs"
| cut: "replay rt fs = Inr r
    \<Longrightarrow> open_crash rt fs (AList.update WAL_FILE (take (rp_valid_len r) (file_bytes fs WAL_FILE)) fs)"
| compacting: "replay rt fs = Inr r \<Longrightarrow> fs1 = AList.update WAL_FILE (take (rp_valid_len r) (file_bytes fs WAL_FILE)) fs
    \<Longrightarrow> load_meta rt fs1 = Inr m \<Longrightarrow> rewrite_ops rt \<lparr>ri_fs = fs1, ri_entries = rp_entries r, ri_last_purged = rp_last_purged r,
      ri_meta = m\<rparr> = Inr ops \<Longrightarrow> crash fs1 ops fs' \<Longrightarrow> open_crash rt fs fs'"

lemma open_crash_view:
  assumes "disk_view rt fs v" and "wal_codec_ok rt" and c: "open_crash rt fs fs'"
  shows "disk_view rt fs' v"
  using assms(1,2)
proof (rule open_truncates)
  fix r m s
  assume r: "replay rt fs = Inr r" and m: "load_meta rt (ri_fs s) = Inr m"
    and s: "s = \<lparr>ri_fs = AList.update WAL_FILE (take (rp_valid_len r) (file_bytes fs WAL_FILE)) fs, ri_entries = rp_entries r,
      ri_last_purged = rp_last_purged r, ri_meta = m\<rparr>"
    and inv: "wal_inv rt s" "mem_of s = v"
  have mm: "load_meta rt (ri_fs s) = Inr (ri_meta s)" using m by (simp add: s)
  from c show ?thesis
  proof cases
    case before
    then show ?thesis using assms(1) by simp
  next
    case (cut r')
    then show ?thesis using wal_inv_view [OF inv(1)] r inv(2) by (simp add: s)
  next
    case (compacting r' fs1 m' ops)
    have e: "r' = r" using compacting(1) r by simp
    have "fs1 = ri_fs s" by (simp add: compacting(2) e s)
    moreover from this have "m' = m" using compacting(3) m by simp
    ultimately have "rewrite_ops rt s = Inr ops" "crash (ri_fs s) ops fs'" using compacting(4,5) by (simp_all add: s e)
    from rewrite_crash [OF this(1) wal_inv_entries [OF inv(1)] mm wal_inv_view [OF inv(1)] this(2)] show ?thesis
      by (simp add: inv(2))
  qed
qed

section \<open>Appending a record\<close>

lemma append_record_inv:
  assumes inv: "wal_inv rt s" and a: "append_record rt None rec s = (Inr (), s')"
    and e: "ri_entries t = rp_entries (apply_record rt \<lparr>rp_entries = ri_entries s, rp_last_purged = ri_last_purged s,
        rp_valid_len = 0, rp_saw_compaction = False\<rparr> rec)"
      "ri_last_purged t = rp_last_purged (apply_record rt \<lparr>rp_entries = ri_entries s, rp_last_purged = ri_last_purged s,
        rp_valid_len = 0, rp_saw_compaction = False\<rparr> rec)"
      "ri_fs t = ri_fs s'" "ri_meta t = ri_meta s"
  shows "wal_inv rt t"
proof -
  obtain recs frs where i: "mapE (encode_record rt) recs = Inr frs" "map_of (ri_fs s) WAL_FILE = Some (concat frs)"
    "load_meta rt (ri_fs s) = Inr (ri_meta s)" "ri_entries s = rp_entries (final rt recs)"
    "ri_last_purged s = rp_last_purged (final rt recs)"
    using inv by (auto simp: wal_inv_def)
  obtain fr where fr: "encode_record rt rec = Inr fr" "ri_fs s' = AList.update WAL_FILE (concat frs @ fr) (ri_fs s)"
    using a i(2) by (auto simp: append_record_def file_bytes_def split: sum.splits)
  have "mapE (encode_record rt) (recs @ [rec]) = Inr (frs @ [fr])"
    using i(1) fr(1) by (induction recs arbitrary: frs) (auto elim!: bindE_InrE)
  moreover have "map_of (ri_fs t) WAL_FILE = Some (concat (frs @ [fr]))" by (simp add: e(3) fr(2) update_conv')
  moreover have "load_meta rt (ri_fs t) = Inr (ri_meta t)"
    using i(3) by (simp add: e(3,4) fr(2) load_meta_def update_conv')
  moreover have "ri_entries t = rp_entries (final rt (recs @ [rec]))" "ri_last_purged t = rp_last_purged (final rt (recs @ [rec]))"
    using i(4,5) by (simp_all add: e(1,2) split: log_record.split) (cases rec; simp)+
  ultimately show ?thesis unfolding wal_inv_def by blast
qed

text \<open>A crash inside the write of a record leaves the log as it was, or with the record.\<close>

lemma append_record_crash:
  assumes inv: "wal_inv rt s" and a: "append_record rt (Some n) rec s = (res, s')" and ok: "wal_codec_ok rt"
  shows "disk_view rt (ri_fs s') (mem_of s)
    \<or> (\<exists>fr. encode_record rt rec = Inr fr) \<and> disk_view rt (ri_fs s') (mem_view (apply_record rt
        \<lparr>rp_entries = ri_entries s, rp_last_purged = ri_last_purged s, rp_valid_len = 0, rp_saw_compaction = False\<rparr> rec) (ri_meta s))"
proof -
  obtain recs frs where i: "mapE (encode_record rt) recs = Inr frs" "map_of (ri_fs s) WAL_FILE = Some (concat frs)"
    "load_meta rt (ri_fs s) = Inr (ri_meta s)" "ri_entries s = rp_entries (final rt recs)"
    "ri_last_purged s = rp_last_purged (final rt recs)"
    using inv by (auto simp: wal_inv_def)
  show ?thesis
  proof (cases "encode_record rt rec")
    case (Inl x)
    then show ?thesis using a wal_inv_view [OF inv] by (simp add: append_record_def)
  next
    case (Inr fr)
    have fs': "ri_fs s' = AList.update WAL_FILE (concat frs @ take n fr) (ri_fs s)"
      using a i(2) Inr by (auto simp: append_record_def file_bytes_def)
    have m: "load_meta rt (ri_fs s') = Inr (ri_meta s)" using i(3) by (simp add: fs' load_meta_def update_conv')
    have f: "file_bytes (ri_fs s') WAL_FILE = concat frs @ take n fr" by (simp add: fs' file_bytes_def update_conv')
    show ?thesis
    proof (cases "n < length fr")
      case True
      then have "torn (take n fr)" using torn_prefix [OF Inr ok, of n "[]"] by simp
      then have "disk_view rt (ri_fs s') (mem_of s)"
        unfolding disk_view_def using i m f
        by (intro exI [of _ recs] exI [of _ frs] exI [of _ "take n fr"] exI [of _ "ri_meta s"]) (simp add: mem_of_def mem_view_def)
      then show ?thesis ..
    next
      case False
      have "mapE (encode_record rt) (recs @ [rec]) = Inr (frs @ [fr])"
        using i(1) Inr by (induction recs arbitrary: frs) (auto elim!: bindE_InrE)
      then have "disk_view rt (ri_fs s') (mem_view (final rt (recs @ [rec])) (ri_meta s))"
        unfolding disk_view_def using m f False
        by (intro exI [of _ "recs @ [rec]"] exI [of _ "frs @ [fr]"] exI [of _ "[]"] exI [of _ "ri_meta s"]) (simp add: torn_def)
      moreover have "mem_view (final rt (recs @ [rec])) (ri_meta s) = mem_view (apply_record rt
        \<lparr>rp_entries = ri_entries s, rp_last_purged = ri_last_purged s, rp_valid_len = 0, rp_saw_compaction = False\<rparr> rec) (ri_meta s)"
        using i(4,5) by (cases rec) (simp_all add: mem_view_def)
      ultimately show ?thesis using Inr by auto
    qed
  qed
qed

end
