(* ===== verification/Simulation.thy ===== *)
theory Simulation
  imports Prelude
begin

text \<open>
  Runs of a labelled step relation, and the interface of a refinement: a step of the implementation from a
  state within its invariant is a step of the specification with the same label.
\<close>

inductive runs :: "('e \<Rightarrow> 's \<Rightarrow> 's \<Rightarrow> bool) \<Rightarrow> 's \<Rightarrow> 'e list \<Rightarrow> 's \<Rightarrow> bool" for step where
  runs_nil: "runs step s [] s"
| runs_cons: "step e s s' \<Longrightarrow> runs step s' es s'' \<Longrightarrow> runs step s (e # es) s''"

inductive_cases runs_nilE: "runs step s [] t"
inductive_cases runs_consE: "runs step s (e # es) t"

inductive_simps runs_simps: "runs step s [] t" "runs step s (e # es) t"

lemma runs_append: "runs step s (es @ es') t \<longleftrightarrow> (\<exists>s'. runs step s es s' \<and> runs step s' es' t)"
  by (induction es arbitrary: s) (auto simp: runs_simps)

locale forward_simulation =
  fixes inv :: "'s \<Rightarrow> bool" and step :: "'e \<Rightarrow> 's \<Rightarrow> 's \<Rightarrow> bool"
    and abs :: "'s \<Rightarrow> 'a" and spec :: "'e \<Rightarrow> 'a \<Rightarrow> 'a \<Rightarrow> bool"
  assumes simulates: "inv s \<Longrightarrow> step e s s' \<Longrightarrow> inv s' \<and> spec e (abs s) (abs s')"
begin

lemma runs_simulated: "runs step s es s' \<Longrightarrow> inv s \<Longrightarrow> inv s' \<and> runs spec (abs s) es (abs s')"
proof (induction rule: runs.induct)
  case (runs_nil s)
  then show ?case by (simp add: runs.runs_nil)
next
  case (runs_cons e s s' es s'')
  have "inv s'" and "spec e (abs s) (abs s')" using simulates [OF runs_cons.prems runs_cons.hyps(1)] by simp_all
  then show ?case using runs_cons.IH by (blast intro: runs.runs_cons)
qed

lemma runs_inv: "runs step s es s' \<Longrightarrow> inv s \<Longrightarrow> inv s'"
  by (simp add: runs_simulated)

text \<open>What the labels of a run leave alone in the specification they leave alone in the implementation.\<close>

lemma runs_preserve:
  assumes "runs step s es s'" and "inv s" and "\<And>e a a'. e \<in> set es \<Longrightarrow> spec e a a' \<Longrightarrow> f a' = f a"
  shows "f (abs s') = f (abs s)"
proof -
  have "runs spec (abs s) es (abs s')" using runs_simulated assms(1,2) by blast
  then show ?thesis using assms(3) by (induction rule: runs.induct) (auto, metis)
qed

end

end
