(* ===== verification/Raft_Wal_Runs.thy ===== *)
theory Raft_Wal_Runs
  imports Raft_Wal_Correct Simulation
begin

text \<open>
  Whole lives of a Raft log: operations that complete, operations that a crash cuts short at any byte, crashes
  during the restart, restarts. \<open>FileRaftLog\<close> refines \<open>MemRaftLog\<close> along all of them.
\<close>

section \<open>Operations and their crashes\<close>

datatype ('e, 'l, 'v) raft_op = Append "'e list" | TruncateAt 'l | PurgeTo 'l | SaveVote 'v | SaveCommitted "'l option"

fun run_raft_op :: "('e, 'l, 'v) raft_types \<Rightarrow> ('e, 'l, 'v) raft_op \<Rightarrow> ('e, 'l, 'v) raft_inner
    \<Rightarrow> unit raft_result \<times> ('e, 'l, 'v) raft_inner" where
  "run_raft_op rt (Append es) s = append_sync rt es s"
| "run_raft_op rt (TruncateAt l) s = raft_truncate rt l s"
| "run_raft_op rt (PurgeTo l) s = raft_purge rt l s"
| "run_raft_op rt (SaveVote v) s = save_vote rt v s"
| "run_raft_op rt (SaveCommitted c) s = save_committed rt c s"

fun run_mem_op :: "('e, 'l, 'v) raft_types \<Rightarrow> ('e, 'l, 'v) raft_op \<Rightarrow> ('e, 'l, 'v) mem_log \<Rightarrow> ('e, 'l, 'v) mem_log" where
  "run_mem_op rt (Append es) m = mem_append rt es m"
| "run_mem_op rt (TruncateAt l) m = mem_truncate rt l m"
| "run_mem_op rt (PurgeTo l) m = mem_purge rt l m"
| "run_mem_op rt (SaveVote v) m = mem_save_vote v m"
| "run_mem_op rt (SaveCommitted c) m = mem_save_committed c m"

text \<open>What a crash inside an operation may leave: some of the entries appended, or all of the operation or nothing.\<close>

definition outcomes :: "('e, 'l, 'v) raft_types \<Rightarrow> ('e, 'l, 'v) raft_op \<Rightarrow> ('e, 'l, 'v) mem_log \<Rightarrow> ('e, 'l, 'v) mem_log list" where
  "outcomes rt op m = (case op of
     Append es \<Rightarrow> map (\<lambda>k. mem_append rt (take k es) m) [0..<Suc (length es)]
   | _ \<Rightarrow> [m, run_mem_op rt op m])"

text \<open>The directory that a crash inside an operation leaves.\<close>

inductive raft_crash :: "('e, 'l, 'v) raft_types \<Rightarrow> ('e, 'l, 'v) raft_op \<Rightarrow> ('e, 'l, 'v) raft_inner \<Rightarrow> directory \<Rightarrow> bool"
  for rt where
  idle: "raft_crash rt op s (ri_fs s)"
| appending: "append_sync rt es s = (Inr (), s1) \<Longrightarrow> append_record rt (Some n) (Insert e) s1 = (res, s2)
    \<Longrightarrow> raft_crash rt (Append (es @ e # es')) s (ri_fs s2)"
| truncating: "append_record rt (Some n) (Truncate (rt_index rt l)) s = (res, s2) \<Longrightarrow> raft_crash rt (TruncateAt l) s (ri_fs s2)"
| purging: "append_record rt (Some n) (Purge l) s = (res, s2) \<Longrightarrow> raft_crash rt (PurgeTo l) s (ri_fs s2)"
| compacting: "append_record rt None (Purge l) s = (Inr (), s1)
    \<Longrightarrow> rewrite_ops rt (s1\<lparr>ri_entries := om_from (rt_index rt l + 1) (ri_entries s1), ri_last_purged := Some l\<rparr>) = Inr ops
    \<Longrightarrow> crash (ri_fs s1) ops fs \<Longrightarrow> raft_crash rt (PurgeTo l) s fs"
| voting: "meta_ops rt ((ri_meta s)\<lparr>rm_vote := Some v\<rparr>) = Inr ops \<Longrightarrow> crash (ri_fs s) ops fs
    \<Longrightarrow> raft_crash rt (SaveVote v) s fs"
| committing: "meta_ops rt ((ri_meta s)\<lparr>rm_committed := c\<rparr>) = Inr ops \<Longrightarrow> crash (ri_fs s) ops fs
    \<Longrightarrow> raft_crash rt (SaveCommitted c) s fs"

datatype 'o life_event = Completed 'o | Crashed 'o

inductive raft_step :: "('e, 'l, 'v) raft_types \<Rightarrow> ('e, 'l, 'v) raft_op life_event \<Rightarrow> ('e, 'l, 'v) raft_inner
    \<Rightarrow> ('e, 'l, 'v) raft_inner \<Rightarrow> bool" for rt where
  completed: "run_raft_op rt op s = (Inr (), s') \<Longrightarrow> raft_step rt (Completed op) s s'"
| crashed: "raft_crash rt op s fs \<Longrightarrow> (open_crash rt)\<^sup>*\<^sup>* fs fs' \<Longrightarrow> open_raft_log rt fs' = (Inr s', fs'')
    \<Longrightarrow> raft_step rt (Crashed op) s s'"

inductive mem_step :: "('e, 'l, 'v) raft_types \<Rightarrow> ('e, 'l, 'v) raft_op life_event \<Rightarrow> ('e, 'l, 'v) mem_log
    \<Rightarrow> ('e, 'l, 'v) mem_log \<Rightarrow> bool" for rt where
  "mem_step rt (Completed op) m (run_mem_op rt op m)"
| "m' \<in> set (outcomes rt op m) \<Longrightarrow> mem_step rt (Crashed op) m m'"

inductive_cases raft_stepE: "raft_step rt ev s s'"
inductive_simps mem_step_simps: "mem_step rt (Completed op) m m'" "mem_step rt (Crashed op) m m'"

section \<open>Completed operations\<close>

lemma append_record_frame:
  "append_record rt io rec s = (res, s') \<Longrightarrow> ri_entries s' = ri_entries s \<and> ri_last_purged s' = ri_last_purged s \<and> ri_meta s' = ri_meta s"
  by (auto simp: append_record_def split: sum.splits option.splits)

lemma append_sync_ok:
  "append_sync rt es s = (Inr (), s') \<Longrightarrow> wal_inv rt s \<Longrightarrow> wal_inv rt s' \<and> mem_of s' = mem_append rt es (mem_of s)"
proof (induction es arbitrary: s)
  case Nil
  then show ?case by (simp add: mem_append_def)
next
  case (Cons e es)
  obtain s1 where a: "append_record rt None (Insert e) s = (Inr (), s1)"
    using Cons.prems(1) by (auto split: prod.splits sum.splits)
  let ?t = "s1\<lparr>ri_entries := om_insert (entry_index rt e) e (ri_entries s1)\<rparr>"
  have f: "ri_entries s1 = ri_entries s" "ri_last_purged s1 = ri_last_purged s" "ri_meta s1 = ri_meta s"
    using append_record_frame [OF a] by auto
  have "wal_inv rt ?t" by (rule append_record_inv [OF Cons.prems(2) a]) (simp_all add: f)
  moreover have "append_sync rt es ?t = (Inr (), s')" using Cons.prems(1) a by simp
  ultimately show ?case using Cons.IH by (auto simp: mem_append_def mem_of_def f)
qed

lemma truncate_ok:
  assumes "raft_truncate rt l s = (Inr (), s')" and "wal_inv rt s"
  shows "wal_inv rt s' \<and> mem_of s' = mem_truncate rt l (mem_of s)"
proof -
  obtain s1 where a: "append_record rt None (Truncate (rt_index rt l)) s = (Inr (), s1)"
    and s': "s' = s1\<lparr>ri_entries := om_below (rt_index rt l) (ri_entries s1)\<rparr>"
    using assms(1) by (auto simp: raft_truncate_def split: prod.splits sum.splits)
  have f: "ri_entries s1 = ri_entries s" "ri_last_purged s1 = ri_last_purged s" "ri_meta s1 = ri_meta s"
    using append_record_frame [OF a] by auto
  have "wal_inv rt s'" by (rule append_record_inv [OF assms(2) a]) (simp_all add: s' f)
  then show ?thesis by (simp add: s' mem_truncate_def mem_of_def f)
qed

text \<open>The state in which a purge compacts the file.\<close>

lemma purge_marked:
  assumes a: "append_record rt None (Purge l) s = (Inr (), s1)" and inv: "wal_inv rt s"
    and t: "t = s1\<lparr>ri_entries := om_from (rt_index rt l + 1) (ri_entries s1), ri_last_purged := Some l\<rparr>"
  shows "wal_inv rt t" and "mem_of t = mem_purge rt l (mem_of s)" and "ri_fs t = ri_fs s1"
proof -
  have f: "ri_entries s1 = ri_entries s" "ri_last_purged s1 = ri_last_purged s" "ri_meta s1 = ri_meta s"
    using append_record_frame [OF a] by auto
  show "wal_inv rt t" by (rule append_record_inv [OF inv a]) (simp_all add: t f)
  show "mem_of t = mem_purge rt l (mem_of s)" "ri_fs t = ri_fs s1" by (simp_all add: t mem_purge_def mem_of_def f)
qed

lemma wal_inv_parts:
  assumes "wal_inv rt s"
  shows "entries_ok rt (ri_entries s)" and "load_meta rt (ri_fs s) = Inr (ri_meta s)"
    and "\<exists>gs. mapE (encode_record rt) (compacted s) = Inr gs"
  using assms wal_inv_entries compacted_encodes by (auto simp: wal_inv_def) blast

lemma purge_ok:
  assumes "raft_purge rt l s = (Inr (), s')" and "wal_inv rt s"
  shows "wal_inv rt s' \<and> mem_of s' = mem_purge rt l (mem_of s)"
proof -
  obtain s1 where a: "append_record rt None (Purge l) s = (Inr (), s1)"
    and r: "rewrite_wal rt (s1\<lparr>ri_entries := om_from (rt_index rt l + 1) (ri_entries s1), ri_last_purged := Some l\<rparr>) = (Inr (), s')"
    using assms(1) by (auto simp: raft_purge_def split: prod.splits sum.splits)
  note t = purge_marked [OF a assms(2) refl]
  show ?thesis using rewrite_inv wal_inv_parts [OF t(1)] r t(2) by fastforce
qed

lemma meta_loaded:
  assumes "wal_codec_ok rt" and "meta_ops rt m = Inr ops"
  obtains bytes where "rt_enc_meta rt m = Some bytes" and "ops = [WriteAndSync META_TMP bytes, Rename META_TMP META_FILE, SyncDir]"
    and "\<And>fs. map_of fs META_FILE = Some bytes \<Longrightarrow> load_meta rt fs = Inr m"
  using assms by (auto simp: meta_ops_def wal_codec_ok_def load_meta_def split: option.splits)

lemma write_meta_ok:
  assumes inv: "wal_inv rt s" and ok: "wal_codec_ok rt" and w: "write_meta rt (s\<lparr>ri_meta := m\<rparr>) = (Inr (), s')"
  shows "wal_inv rt s' \<and> s' = s\<lparr>ri_meta := m, ri_fs := ri_fs s'\<rparr>"
proof -
  obtain ops where ops: "meta_ops rt m = Inr ops" and r: "run_ops ops (ri_fs s) = Inr (ri_fs s')"
    and s': "s' = s\<lparr>ri_meta := m, ri_fs := ri_fs s'\<rparr>"
    using w by (auto simp: write_meta_def split: sum.splits)
  obtain bytes where b: "ops = [WriteAndSync META_TMP bytes, Rename META_TMP META_FILE, SyncDir]"
    "\<And>fs. map_of fs META_FILE = Some bytes \<Longrightarrow> load_meta rt fs = Inr m"
    using meta_loaded [OF ok ops] by metis
  have fs: "map_of (ri_fs s') META_FILE = Some bytes" "map_of (ri_fs s') WAL_FILE = map_of (ri_fs s) WAL_FILE"
    using run_replace [of META_TMP META_FILE bytes "ri_fs s"] r b(1) by auto
  show ?thesis using inv b(2) [OF fs(1)] fs(2) s' unfolding wal_inv_def by (metis (no_types) raft_inner.select_convs(1,2,3,4)
    raft_inner.surjective raft_inner.update_convs(1,4))
qed

lemma op_completed:
  assumes "run_raft_op rt op s = (Inr (), s')" and "wal_inv rt s" and "wal_codec_ok rt"
  shows "wal_inv rt s' \<and> mem_of s' = run_mem_op rt op (mem_of s)"
proof (cases op)
  case (SaveVote v)
  then show ?thesis
    using write_meta_ok [OF assms(2,3), of "(ri_meta s)\<lparr>rm_vote := Some v\<rparr>" s'] assms(1)
    by (auto simp: save_vote_def mem_save_vote_def mem_of_def) (metis raft_inner.select_convs raft_inner.surjective
        raft_inner.update_convs raft_meta.select_convs raft_meta.surjective raft_meta.update_convs)+
next
  case (SaveCommitted c)
  then show ?thesis
    using write_meta_ok [OF assms(2,3), of "(ri_meta s)\<lparr>rm_committed := c\<rparr>" s'] assms(1)
    by (auto simp: save_committed_def mem_save_committed_def mem_of_def) (metis raft_inner.select_convs raft_inner.surjective
        raft_inner.update_convs raft_meta.select_convs raft_meta.surjective raft_meta.update_convs)+
next
  case (Append es)
  then show ?thesis using assms append_sync_ok [of rt es s s'] by simp
next
  case (TruncateAt l)
  then show ?thesis using assms truncate_ok [of rt l s s'] by simp
next
  case (PurgeTo l)
  then show ?thesis using assms purge_ok [of rt l s s'] by simp
qed

section \<open>Crashes\<close>

lemma meta_crash:
  assumes inv: "wal_inv rt s" and ok: "wal_codec_ok rt" and ops: "meta_ops rt m = Inr ops" and c: "crash (ri_fs s) ops fs"
  shows "disk_view rt fs (mem_of s) \<or> disk_view rt fs (mem_of (s\<lparr>ri_meta := m\<rparr>))"
proof -
  obtain bytes where b: "ops = [WriteAndSync META_TMP bytes, Rename META_TMP META_FILE, SyncDir]"
    "\<And>fs. map_of fs META_FILE = Some bytes \<Longrightarrow> load_meta rt fs = Inr m"
    using meta_loaded [OF ok ops] by metis
  obtain recs frs where i: "mapE (encode_record rt) recs = Inr frs" "map_of (ri_fs s) WAL_FILE = Some (concat frs)"
    "load_meta rt (ri_fs s) = Inr (ri_meta s)" "ri_entries s = rp_entries (final rt recs)"
    "ri_last_purged s = rp_last_purged (final rt recs)"
    using inv by (auto simp: wal_inv_def)
  have view: "disk_view rt fs (mem_view (final rt recs) m')"
    if "map_of fs WAL_FILE = map_of (ri_fs s) WAL_FILE" and "load_meta rt fs = Inr m'" for m'
    unfolding disk_view_def using i(1,2) that
    by (intro exI [of _ recs] exI [of _ frs] exI [of _ "[]"] exI [of _ m']) (simp add: file_bytes_def torn_def)
  have old: "mem_of s = mem_view (final rt recs) (ri_meta s)" and new: "mem_of (s\<lparr>ri_meta := m\<rparr>) = mem_view (final rt recs) m"
    by (simp_all add: mem_of_def mem_view_def i)
  have "META_TMP \<noteq> META_FILE" by simp
  from crash_of_replace [OF c [unfolded b(1)] this] show ?thesis
    using view old new b(2) load_meta_cong [of fs "ri_fs s" rt] i(3) by auto
qed

lemma outcomes_simps:
  "m' \<in> set (outcomes rt (Append es) m) \<longleftrightarrow> (\<exists>k \<le> length es. m' = mem_append rt (take k es) m)"
  "m' \<in> set (outcomes rt (TruncateAt l) m) \<longleftrightarrow> m' = m \<or> m' = mem_truncate rt l m"
  "m' \<in> set (outcomes rt (PurgeTo l) m) \<longleftrightarrow> m' = m \<or> m' = mem_purge rt l m"
  "m' \<in> set (outcomes rt (SaveVote v) m) \<longleftrightarrow> m' = m \<or> m' = mem_save_vote v m"
  "m' \<in> set (outcomes rt (SaveCommitted c) m) \<longleftrightarrow> m' = m \<or> m' = mem_save_committed c m"
  by (auto simp: outcomes_def atLeast0LessThan less_Suc_eq_le image_iff simp del: upt_Suc)

lemma outcomes_same: "m \<in> set (outcomes rt op m)"
  by (cases op) (auto simp: outcomes_simps mem_append_def)

lemma mem_append_append: "mem_append rt (xs @ ys) m = mem_append rt ys (mem_append rt xs m)"
  by (simp add: mem_append_def)

lemma op_crashed:
  assumes "raft_crash rt op s fs" and inv: "wal_inv rt s" and ok: "wal_codec_ok rt"
  shows "\<exists>m \<in> set (outcomes rt op (mem_of s)). disk_view rt fs m"
  using assms(1)
proof cases
  case idle
  then show ?thesis using wal_inv_view [OF inv] outcomes_same by blast
next
  case (appending es s1 n e res s2 es')
  have s1: "wal_inv rt s1" "mem_of s1 = mem_append rt es (mem_of s)" using append_sync_ok [OF appending(3) inv] by auto
  have "take (length es) (es @ e # es') = es" "take (Suc (length es)) (es @ e # es') = es @ [e]" by simp_all
  then have "mem_append rt es (mem_of s) \<in> set (outcomes rt op (mem_of s))"
    "mem_append rt (es @ [e]) (mem_of s) \<in> set (outcomes rt op (mem_of s))"
    unfolding appending(1) outcomes_simps
    by (metis length_append le_add1, metis length_append length_Cons add_Suc_right Suc_le_mono le_add1)
  moreover have "disk_view rt fs (mem_of s1) \<or> disk_view rt fs (mem_append rt [e] (mem_of s1))"
    using append_record_crash [OF s1(1) appending(4) ok]
    by (auto simp: appending(2) mem_view_def mem_append_def mem_of_def)
  ultimately show ?thesis using s1(2) by (auto simp: mem_append_append)
next
  case (truncating n l res s2)
  have "disk_view rt fs (mem_of s) \<or> disk_view rt fs (mem_truncate rt l (mem_of s))"
    using append_record_crash [OF inv truncating(3) ok]
    by (auto simp: truncating(2) mem_view_def mem_truncate_def mem_of_def)
  then show ?thesis by (auto simp: truncating(1) outcomes_simps)
next
  case (purging n l res s2)
  have "disk_view rt fs (mem_of s) \<or> disk_view rt fs (mem_purge rt l (mem_of s))"
    using append_record_crash [OF inv purging(3) ok] by (auto simp: purging(2) mem_view_def mem_purge_def mem_of_def)
  then show ?thesis by (auto simp: purging(1) outcomes_simps)
next
  case (compacting l s1 ops)
  let ?t = "s1\<lparr>ri_entries := om_from (rt_index rt l + 1) (ri_entries s1), ri_last_purged := Some l\<rparr>"
  note t = purge_marked [OF compacting(2) inv refl]
  have "disk_view rt fs (mem_of ?t)"
    using rewrite_crash [OF compacting(3) wal_inv_parts(1,2) [OF t(1)] wal_inv_view [OF t(1)]] compacting(4) t(3) by simp
  then show ?thesis using t(2) by (auto simp: compacting(1) outcomes_simps)
next
  case (voting v ops)
  have "mem_of (s\<lparr>ri_meta := (ri_meta s)\<lparr>rm_vote := Some v\<rparr>\<rparr>) = mem_save_vote v (mem_of s)"
    by (simp add: mem_of_def mem_save_vote_def)
  then show ?thesis using meta_crash [OF inv ok voting(2,3)] by (auto simp: voting(1) outcomes_simps)
next
  case (committing c ops)
  have "mem_of (s\<lparr>ri_meta := (ri_meta s)\<lparr>rm_committed := c\<rparr>\<rparr>) = mem_save_committed c (mem_of s)"
    by (simp add: mem_of_def mem_save_committed_def)
  then show ?thesis using meta_crash [OF inv ok committing(2,3)] by (auto simp: committing(1) outcomes_simps)
qed

lemma open_crashes_view:
  "(open_crash rt)\<^sup>*\<^sup>* fs fs' \<Longrightarrow> disk_view rt fs v \<Longrightarrow> wal_codec_ok rt \<Longrightarrow> disk_view rt fs' v"
  by (induction rule: rtranclp_induct) (auto intro: open_crash_view)

lemma restart_after_crash:
  assumes "raft_crash rt op s fs" and "(open_crash rt)\<^sup>*\<^sup>* fs fs'" and "wal_inv rt s" and "wal_codec_ok rt"
  shows "\<exists>s'. open_raft_log rt fs' = (Inr s', ri_fs s') \<and> wal_inv rt s' \<and> mem_of s' \<in> set (outcomes rt op (mem_of s))"
proof -
  obtain m where m: "m \<in> set (outcomes rt op (mem_of s))" "disk_view rt fs m" using op_crashed assms by blast
  then have "disk_view rt fs' m" using open_crashes_view assms(2,4) by blast
  then show ?thesis using open_correct [OF _ assms(4)] m(1) by blast
qed

section \<open>The file log refines the log in memory\<close>

interpretation raft_wal: forward_simulation "\<lambda>s. wal_codec_ok rt \<and> wal_inv rt s" "raft_step rt" mem_of "mem_step rt"
  for rt :: "('e, 'l, 'v) raft_types"
proof (unfold_locales, elim conjE raft_stepE, goal_cases)
  case (1 s ev s' op)
  then show ?case using op_completed by (auto simp: mem_step_simps)
next
  case (2 s ev s' op fs fs' fs'')
  then show ?case using restart_after_crash [of rt op s fs fs'] by (auto simp: mem_step_simps)
qed

text \<open>A new log: the directory of a node that starts for the first time.\<close>

definition mem_empty :: "('e, 'l, 'v) mem_log" where
  "mem_empty = \<lparr>ml_entries = [], ml_committed = None, ml_vote = None, ml_last_purged = None\<rparr>"

lemma open_fresh:
  "wal_codec_ok rt \<Longrightarrow> \<exists>s. open_raft_log rt [] = (Inr s, ri_fs s) \<and> wal_inv rt s \<and> mem_of s = mem_empty"
  by (rule open_correct, unfold disk_view_def)
    (auto simp: file_bytes_def torn_def load_meta_def mem_view_def replay_start_def meta_default_def mem_empty_def
      intro!: exI [of _ "[]"])

end
