(* ===== verification/Raft_Wal_Behaviour.thy ===== *)
theory Raft_Wal_Behaviour
  imports Raft_Wal_Runs
begin

text \<open>
  The properties of the Raft log on disk, with a concrete codec for the types of openraft on which they are
  applied.
\<close>

section \<open>A concrete codec\<close>

definition enc_opt :: "u8 option \<Rightarrow> bytes" where
  "enc_opt x = (case x of None \<Rightarrow> [0, 0] | Some v \<Rightarrow> [1, v])"

definition dec_opt :: "u8 \<Rightarrow> u8 \<Rightarrow> u8 option" where
  "dec_opt t v = (if t = 0 then None else Some v)"

definition toy_raft :: "(u8 \<times> u8, u8, u8) raft_types" where
  "toy_raft = \<lparr>rt_log_id = fst, rt_index = ucast,
     rt_enc_record = (\<lambda>r. Some (case r of
         Insert e \<Rightarrow> [0, fst e, snd e]
       | Truncate k \<Rightarrow> 1 # to_le_bytes k
       | Purge l \<Rightarrow> [2, l])),
     rt_dec_record = (\<lambda>b. Some (if length b = 3 then Insert (b ! 1, b ! 2)
       else if length b = 2 then Purge (b ! 1) else Truncate (from_le_bytes (tl b)))),
     rt_enc_meta = (\<lambda>m. Some (enc_opt (rm_vote m) @ enc_opt (rm_committed m))),
     rt_dec_meta = (\<lambda>b. Some \<lparr>rm_vote = dec_opt (b ! 0) (b ! 1), rm_committed = dec_opt (b ! 2) (b ! 3)\<rparr>)\<rparr>"

lemma toy_raft_ok: "wal_codec_ok toy_raft"
  by (auto simp: wal_codec_ok_def toy_raft_def enc_opt_def dec_opt_def split: log_record.splits option.splits)

abbreviation toy_start :: "(u8 \<times> u8, u8, u8) raft_inner" where
  "toy_start \<equiv> \<lparr>ri_fs = [(WAL_FILE, [])], ri_entries = [], ri_last_purged = None, ri_meta = meta_default\<rparr>"

lemma toy_opens: "open_raft_log toy_raft [] = (Inr toy_start, [(WAL_FILE, [])])"
  by code_simp

lemma toy_op: "\<exists>s'. run_raft_op toy_raft op s = (Inr (), s')"
proof -
  have a: "append_record toy_raft None rec s = (Inr (), s\<lparr>ri_fs := AList.update WAL_FILE (file_bytes (ri_fs s) WAL_FILE
      @ to_le_bytes (word_of_nat (length (the (rt_enc_record toy_raft rec))) :: u32) @ the (rt_enc_record toy_raft rec)) (ri_fs s)\<rparr>)"
    for rec and s :: "(u8 \<times> u8, u8, u8) raft_inner"
    by (simp add: append_record_def encode_record_def toy_raft_def)
  have m: "\<exists>s'. write_meta toy_raft s = (Inr (), s')" for s :: "(u8 \<times> u8, u8, u8) raft_inner"
  proof -
    let ?bytes = "enc_opt (rm_vote (ri_meta s)) @ enc_opt (rm_committed (ri_meta s))"
    obtain d where "run_ops [WriteAndSync META_TMP ?bytes, Rename META_TMP META_FILE, SyncDir] (ri_fs s) = Inr d"
      using run_replace [of META_TMP META_FILE ?bytes "ri_fs s"] by auto
    then show ?thesis by (simp add: write_meta_def meta_ops_def toy_raft_def)
  qed
  have e: "\<exists>ys. mapE (encode_record toy_raft) xs = Inr ys" for xs
    by (induction xs) (auto simp: encode_record_def toy_raft_def)
  have r: "\<exists>s'. rewrite_wal toy_raft s = (Inr (), s')" for s :: "(u8 \<times> u8, u8, u8) raft_inner"
  proof -
    obtain ys where ys: "mapE (encode_record toy_raft) (compacted s) = Inr ys" using e by blast
    obtain d where "run_ops [WriteAndSync WAL_TMP (concat ys), Rename WAL_TMP WAL_FILE, SyncDir] (ri_fs s) = Inr d"
      using run_replace [of WAL_TMP WAL_FILE "concat ys" "ri_fs s"] by auto
    then show ?thesis by (simp add: rewrite_wal_def rewrite_ops_def ys)
  qed
  have "\<exists>s'. append_sync toy_raft es s = (Inr (), s')" for es
    by (induction es arbitrary: s) (simp_all add: a)
  then show ?thesis using m r by (cases op) (simp_all add: a raft_truncate_def raft_purge_def save_vote_def save_committed_def)
qed

text \<open>Every sequence of completed and immediately crashed operations is a life of the toy log.\<close>

lemma toy_runs:
  "wal_inv toy_raft s \<Longrightarrow> \<exists>s'. runs (raft_step toy_raft) s evs s'"
proof (induction evs arbitrary: s)
  case Nil
  then show ?case by (blast intro: runs_nil)
next
  case (Cons ev evs)
  have "\<exists>s'. raft_step toy_raft ev s s'"
  proof (cases ev)
    case (Completed op)
    then show ?thesis using toy_op [of op s] by (auto intro: completed)
  next
    case (Crashed op)
    have "\<exists>s'. open_raft_log toy_raft (ri_fs s) = (Inr s', ri_fs s')"
      using open_correct [OF wal_inv_view [OF Cons.prems] toy_raft_ok] by blast
    then show ?thesis unfolding Crashed using idle by (blast intro: crashed)
  qed
  then obtain s' where s': "raft_step toy_raft ev s s'" ..
  then have "wal_inv toy_raft s'" using raft_wal.simulates [of toy_raft s ev s'] Cons.prems toy_raft_ok by simp
  then show ?case using Cons.IH s' by (blast intro: runs_cons)
qed

section \<open>Refinement\<close>

text \<open>C3. \<open>FileRaftLog\<close> refines \<open>MemRaftLog\<close>: a node that starts on an empty directory and then completes
  operations, is cut short by crashes at any byte of any write, at any file operation and again while it
  restarts, has at every point the entries, the vote, the committed id, the last purged id and the last log
  id of a log in memory on which a cut append has appended some of its entries, in order, and every other cut
  operation has happened entirely or not at all.\<close>

theorem raft_log_refines_memory:
  assumes "wal_codec_ok rt" and "open_raft_log rt [] = (Inr s0, fs0)" and "runs (raft_step rt) s0 evs s"
  shows "runs (mem_step rt) mem_empty evs (mem_of s) \<and> raft_last_log_id rt s = mem_last_log_id rt (mem_of s)
    \<and> (\<forall>lo hi. try_get_log_entries lo hi s = map snd (filter (\<lambda>(i, e). lo \<le> i \<and> i < hi) (ml_entries (mem_of s))))"
proof -
  obtain s1 where "open_raft_log rt [] = (Inr s1, ri_fs s1)" "wal_inv rt s1" "mem_of s1 = mem_empty"
    using open_fresh [OF assms(1)] by blast
  then show ?thesis
    using raft_wal.runs_simulated [OF assms(3)] assms(1,2)
    by (auto simp: raft_last_log_id_def mem_last_log_id_def try_get_log_entries_def mem_of_def split: option.split)
qed

lemma toy_start_inv: "wal_inv toy_raft toy_start"
  using open_fresh [OF toy_raft_ok] toy_opens by auto

theorem raft_log_refines_memory_witness:
  "\<exists>s. runs (raft_step toy_raft) toy_start [Completed (SaveVote 3), Completed (Append [(1, 7), (2, 8)]), Crashed (PurgeTo 1),
      Completed (TruncateAt 2)] s
    \<and> runs (mem_step toy_raft) mem_empty [Completed (SaveVote 3), Completed (Append [(1, 7), (2, 8)]), Crashed (PurgeTo 1),
      Completed (TruncateAt 2)] (mem_of s)"
  using toy_runs [OF toy_start_inv] raft_log_refines_memory [OF toy_raft_ok toy_opens] by blast

section \<open>The vote\<close>

text \<open>C10. A promised vote survives: once \<open>save_vote\<close> has returned, \<open>read_vote\<close> answers with that vote after any
  further operations, crashes and restarts, until another vote is saved; so a node never votes twice in a term
  by forgetting.\<close>

theorem promised_vote_survives:
  assumes "wal_codec_ok rt" and "open_raft_log rt [] = (Inr s0, fs0)"
    and "runs (raft_step rt) s0 (evs @ Completed (SaveVote v) # later) s"
    and "\<forall>w. Completed (SaveVote w) \<notin> set later \<and> Crashed (SaveVote w) \<notin> set later"
  shows "rm_vote (ri_meta s) = Some v"
proof -
  have keep: "ml_vote m' = ml_vote m" if "ev \<in> set later" and "mem_step rt ev m m'" for ev m m'
  proof (cases ev)
    case (Completed op)
    then show ?thesis using that assms(4)
      by (cases op) (auto simp: mem_step_simps mem_append_def mem_truncate_def mem_purge_def mem_save_committed_def)
  next
    case (Crashed op)
    then show ?thesis using that assms(4)
      by (cases op) (auto simp: mem_step_simps outcomes_simps mem_append_def mem_truncate_def mem_purge_def mem_save_committed_def)
  qed
  have inv: "wal_inv rt s0" using open_fresh [OF assms(1)] assms(2) by auto
  obtain s1 s2 where r: "runs (raft_step rt) s0 evs s1" "raft_step rt (Completed (SaveVote v)) s1 s2"
    "runs (raft_step rt) s2 later s"
    using assms(3) by (auto simp: runs_append runs_simps)
  have "wal_inv rt s1" using raft_wal.runs_inv [OF r(1)] inv assms(1) by blast
  then have s2: "wal_inv rt s2" "ml_vote (mem_of s2) = Some v"
    using raft_wal.simulates [OF _ r(2)] assms(1) by (auto simp: mem_step_simps mem_save_vote_def)
  have "ml_vote (mem_of s) = ml_vote (mem_of s2)"
    by (rule raft_wal.runs_preserve [OF r(3)]) (use s2(1) assms(1) keep in auto)
  then show ?thesis using s2(2) by (simp add: mem_of_def)
qed

theorem promised_vote_survives_witness:
  "\<exists>s. runs (raft_step toy_raft) toy_start ([Completed (SaveVote 2)] @ Completed (SaveVote 3)
      # [Crashed (Append [(1, 7)]), Crashed (PurgeTo 1)]) s \<and> rm_vote (ri_meta s) = Some 3"
proof -
  obtain s where s: "runs (raft_step toy_raft) toy_start ([Completed (SaveVote 2)] @ Completed (SaveVote 3)
      # [Crashed (Append [(1, 7)]), Crashed (PurgeTo 1)]) s"
    using toy_runs [OF toy_start_inv] by blast
  have "rm_vote (ri_meta s) = Some 3" by (rule promised_vote_survives [OF toy_raft_ok toy_opens s]) simp
  then show ?thesis using s by blast
qed

section \<open>Restarting\<close>

text \<open>C28. A restart always succeeds: after any life of the log, a crash inside any operation and any number of
  crashes inside the restarts that follow, \<open>open\<close> returns, and the log holds what it held before the cut
  operation, with at most the effect that this operation may have had.\<close>

theorem raft_log_restarts:
  assumes "wal_codec_ok rt" and "open_raft_log rt [] = (Inr s0, fs0)" and "runs (raft_step rt) s0 evs s"
    and "raft_crash rt op s fs" and "(open_crash rt)\<^sup>*\<^sup>* fs fs'"
  shows "\<exists>s'. open_raft_log rt fs' = (Inr s', ri_fs s') \<and> mem_of s' \<in> set (outcomes rt op (mem_of s))"
proof -
  have "wal_inv rt s0" using open_fresh [OF assms(1)] assms(2) by auto
  then have "wal_inv rt s" using raft_wal.runs_inv [OF assms(3)] assms(1) by blast
  then show ?thesis using restart_after_crash [OF assms(4,5)] assms(1) by blast
qed

theorem raft_log_restarts_witness:
  "\<exists>s s' s2. runs (raft_step toy_raft) toy_start [Completed (Append [(1, 7)])] s
    \<and> append_record toy_raft (Some 5) (Insert (2, 8)) s = (Inl (WriteLogs ''write''), s2)
    \<and> open_raft_log toy_raft (ri_fs s2) = (Inr s', ri_fs s')
    \<and> mem_of s' \<in> set (outcomes toy_raft (Append [(2, 8)]) (mem_of s))"
proof -
  obtain s where s: "runs (raft_step toy_raft) toy_start [Completed (Append [(1, 7)])] s"
    using toy_runs [OF toy_start_inv] by blast
  obtain s2 where s2: "append_record toy_raft (Some 5) (Insert (2, 8)) s = (Inl (WriteLogs ''write''), s2)"
    by (simp add: append_record_def encode_record_def toy_raft_def)
  have "raft_crash toy_raft (Append ([] @ (2, 8) # [])) s (ri_fs s2)" by (rule appending [OF _ s2]) simp
  then have c: "raft_crash toy_raft (Append [(2, 8)]) s (ri_fs s2)" by simp
  show ?thesis using raft_log_restarts [OF toy_raft_ok toy_opens s c] s s2 by blast
qed

section \<open>A failed write\<close>

text \<open>C35. A failed write poisons the file: a write of the log that stops with an error after the length of its
  record leaves these bytes in place, and a record that is later appended with success lands inside the length
  they announce. The log in memory has the second entry; a restart cuts it off with the torn record, although
  \<open>append\<close> had reported it as durable.\<close>

theorem failed_append_swallows_next:
  assumes "wal_codec_ok rt" and "open_raft_log rt [] = (Inr s0, fs0)" and "runs (raft_step rt) s0 evs s"
    and "append_record rt (Some n) (Insert e1) s = (Inl err, s1)" and "append_sync rt [e2] s1 = (Inr (), s2)"
    and "encode_record rt (Insert e1) = Inr fr1" and "encode_record rt (Insert e2) = Inr fr2"
    and "4 \<le> n" and "n + length fr2 < length fr1"
  shows "map_of (ri_entries s2) (entry_index rt e2) = Some e2
    \<and> (\<exists>s3. open_raft_log rt (ri_fs s2) = (Inr s3, ri_fs s3) \<and> mem_of s3 = mem_of s)"
proof -
  have "wal_inv rt s0" using open_fresh [OF assms(1)] assms(2) by auto
  then have "wal_inv rt s" using raft_wal.runs_inv [OF assms(3)] assms(1) by blast
  then obtain recs frs where i: "mapE (encode_record rt) recs = Inr frs" "map_of (ri_fs s) WAL_FILE = Some (concat frs)"
    "load_meta rt (ri_fs s) = Inr (ri_meta s)" "mem_of s = mem_view (final rt recs) (ri_meta s)"
    by (auto simp: wal_inv_def mem_of_def mem_view_def)
  have s1: "s1 = s\<lparr>ri_fs := AList.update WAL_FILE (concat frs @ take n fr1) (ri_fs s)\<rparr>"
    using assms(4,6) i(2) by (auto simp: append_record_def file_bytes_def)
  have fs2: "ri_fs s2 = AList.update WAL_FILE ((concat frs @ take n fr1) @ fr2) (ri_fs s1)"
    and e2: "ri_entries s2 = om_insert (entry_index rt e2) e2 (ri_entries s1)"
    using assms(5,7) by (auto simp: append_record_def file_bytes_def s1 update_conv')
  have "torn (take n fr1 @ fr2)" using torn_prefix [OF assms(6,1)] assms(8,9) by blast
  moreover have "load_meta rt (ri_fs s2) = Inr (ri_meta s)"
    using i(3) by (simp add: load_meta_def fs2 s1 update_conv')
  moreover have "file_bytes (ri_fs s2) WAL_FILE = concat frs @ (take n fr1 @ fr2)" by (simp add: fs2 file_bytes_def update_conv')
  ultimately have "disk_view rt (ri_fs s2) (mem_of s)" using i(1,4) unfolding disk_view_def by blast
  then show ?thesis using open_correct [OF _ assms(1)] e2 by (auto simp: map_of_om_insert)
qed

text \<open>An entry of the concrete codec whose record is long enough to swallow another.\<close>

definition wide_raft :: "(u8 list, u8, u8) raft_types" where
  "wide_raft = \<lparr>rt_log_id = hd, rt_index = ucast,
     rt_enc_record = (\<lambda>r. case r of Insert e \<Rightarrow> (if length e < 100 then Some (0 # e) else None)
       | Truncate k \<Rightarrow> Some (1 # to_le_bytes k) | Purge l \<Rightarrow> Some [2, l]),
     rt_dec_record = (\<lambda>b. Some (if hd b = 0 then Insert (tl b) else if hd b = 2 then Purge (b ! 1)
       else Truncate (from_le_bytes (tl b)))),
     rt_enc_meta = (\<lambda>m. Some (enc_opt (rm_vote m) @ enc_opt (rm_committed m))),
     rt_dec_meta = (\<lambda>b. Some \<lparr>rm_vote = dec_opt (b ! 0) (b ! 1), rm_committed = dec_opt (b ! 2) (b ! 3)\<rparr>)\<rparr>"

lemma wide_raft_ok: "wal_codec_ok wide_raft"
  by (auto simp: wal_codec_ok_def wide_raft_def enc_opt_def dec_opt_def split: log_record.splits option.splits if_splits)

theorem failed_append_swallows_next_witness:
  "\<exists>s3. open_raft_log wide_raft (ri_fs (snd (append_sync wide_raft [[2]]
      (snd (append_record wide_raft (Some 5) (Insert (1 # replicate 9 7)) \<lparr>ri_fs = [(WAL_FILE, [])], ri_entries = [],
        ri_last_purged = None, ri_meta = meta_default\<rparr>)))))
    = (Inr s3, ri_fs s3) \<and> ml_entries (mem_of s3) = []"
proof -
  let ?s = "\<lparr>ri_fs = [(WAL_FILE, [])], ri_entries = [], ri_last_purged = None, ri_meta = meta_default\<rparr> :: (u8 list, u8, u8) raft_inner"
  let ?a = "append_record wide_raft (Some 5) (Insert (1 # replicate 9 7)) ?s"
  let ?b = "append_sync wide_raft [[2]] (snd ?a)"
  have op: "open_raft_log wide_raft [] = (Inr ?s, [(WAL_FILE, [])])" by code_simp
  have a: "?a = (Inl (WriteLogs ''write''), snd ?a)" by (simp add: append_record_def encode_record_def wide_raft_def)
  have b: "?b = (Inr (), snd ?b)" by (simp add: append_record_def encode_record_def wide_raft_def)
  have e: "encode_record wide_raft (Insert (1 # replicate 9 7)) = Inr (to_le_bytes (11 :: u32) @ 0 # 1 # replicate 9 7)"
    by (simp add: encode_record_def wide_raft_def)
  have e2: "encode_record wide_raft (Insert [2]) = Inr (to_le_bytes (2 :: u32) @ [0, 2])"
    by (simp add: encode_record_def wide_raft_def)
  show ?thesis
    using failed_append_swallows_next [OF wide_raft_ok op runs_nil a b e e2]
    by (auto simp: mem_of_def simp del: append_sync.simps)
qed

end
