(* ===== verification/Raft_State_Machine.thy ===== *)
theory Raft_State_Machine
  imports Episode_Log Dir_Crash
begin

text \<open>
  \<open>EpisodeStateMachine\<close> of \<open>heraclitus-raft/src/consensus.rs\<close>: a committed entry is applied by appending
  its episode to the local log, and what has been applied is recorded in \<open>sm_meta.bin\<close> after each batch. The
  log is a parameter with the interface of \<open>Episode_Log\<close>; the types of openraft and bincode are parameters.
\<close>

section \<open>State\<close>

datatype 'm entry_payload = Blank | MembershipChange 'm | NormalEntry bytes

record ('id, 'm) raft_entry =
  en_log_id :: 'id
  en_payload :: "'m entry_payload"

text \<open>\<open>StoredMembership\<close>: the log id of the entry that set it, and the membership.\<close>

type_synonym ('id, 'm) stored_membership = "'id option \<times> 'm"

record ('id, 'm) sm_meta =
  sm_applied :: "'id option"
  sm_membership :: "('id, 'm) stored_membership"
  sm_snapshot_idx :: u64
  sm_normals :: u64

text \<open>\<open>SnapshotMeta\<close>; the snapshot id is the pair of numbers that the code prints into a string.\<close>

record ('id, 'm) snapshot_meta =
  sn_last_log_id :: "'id option"
  sn_last_membership :: "('id, 'm) stored_membership"
  sn_snapshot_id :: "u64 \<times> u64"

record ('log, 'ep, 'id, 'm) episode_sm =
  es_log :: 'log
  es_applied :: "'id option"
  es_membership :: "('id, 'm) stored_membership"
  es_snapshot_idx :: u64
  es_normals :: u64
  es_skip_normals :: u64
  es_current_snapshot :: "(('id, 'm) snapshot_meta \<times> bytes) option"
  es_dir :: "directory option"
  es_hooked :: "(u64 \<times> 'ep) list option"

text \<open>\<open>es_hooked\<close>: the calls made to the hook, \<open>None\<close> when there is none. bincode: \<open>None\<close> is a failure.\<close>

record ('ep, 'id, 'm) sm_codec =
  enc_episode :: "'ep \<Rightarrow> bytes option"
  dec_episode :: "bytes \<Rightarrow> 'ep option"
  enc_payloads :: "bytes list \<Rightarrow> bytes option"
  dec_payloads :: "bytes \<Rightarrow> bytes list option"
  enc_sm_meta :: "('id, 'm) sm_meta \<Rightarrow> bytes option"
  dec_sm_meta :: "bytes \<Rightarrow> ('id, 'm) sm_meta option"
  id_index :: "'id \<Rightarrow> u64"
  default_membership :: 'm

datatype sm_error = SmRead string | SmWrite string | SmApply string

type_synonym 'a sm_result = "sm_error + 'a"

definition SM_META :: file_name where
  "SM_META = ascii ''sm_meta.bin''"

definition SM_META_TMP :: file_name where
  "SM_META_TMP = ascii ''sm_meta.bin.tmp''"

definition sm_meta_default :: "('ep, 'id, 'm) sm_codec \<Rightarrow> ('id, 'm) sm_meta" where
  "sm_meta_default C = \<lparr>sm_applied = None, sm_membership = (None, default_membership C), sm_snapshot_idx = 0, sm_normals = 0\<rparr>"

section \<open>The meta file\<close>

definition load_sm_meta :: "('ep, 'id, 'm) sm_codec \<Rightarrow> directory \<Rightarrow> ('id, 'm) sm_meta sm_result" where
  "load_sm_meta C d = (case map_of d SM_META of
     None \<Rightarrow> Inr (sm_meta_default C)
   | Some bytes \<Rightarrow> (case dec_sm_meta C bytes of
       None \<Rightarrow> Inl (SmRead ''sm_meta.bin corrompido (recusa arrancar)'') | Some m \<Rightarrow> Inr m))"

definition meta_of :: "('log, 'ep, 'id, 'm) episode_sm \<Rightarrow> ('id, 'm) sm_meta" where
  "meta_of st = \<lparr>sm_applied = es_applied st, sm_membership = es_membership st, sm_snapshot_idx = es_snapshot_idx st,
     sm_normals = es_normals st\<rparr>"

definition sm_meta_ops :: "('ep, 'id, 'm) sm_codec \<Rightarrow> ('id, 'm) sm_meta \<Rightarrow> dir_op list sm_result" where
  "sm_meta_ops C m = (case enc_sm_meta C m of
     None \<Rightarrow> Inl (SmWrite ''bincode'')
   | Some bytes \<Rightarrow> Inr [WriteAndSync SM_META_TMP bytes, Rename SM_META_TMP SM_META, SyncDir])"

definition persist_sm_meta :: "('ep, 'id, 'm) sm_codec \<Rightarrow> ('log, 'ep, 'id, 'm) episode_sm
    \<Rightarrow> unit sm_result \<times> ('log, 'ep, 'id, 'm) episode_sm" where
  "persist_sm_meta C st = (case es_dir st of
     None \<Rightarrow> (Inr (), st)
   | Some d \<Rightarrow> (case sm_meta_ops C (meta_of st) of
       Inl e \<Rightarrow> (Inl e, st)
     | Inr ops \<Rightarrow> (case run_ops ops d of
         Inl e \<Rightarrow> (Inl (SmWrite ''rename''), st)
       | Inr d \<Rightarrow> (Inr (), st\<lparr>es_dir := Some d\<rparr>))))"

section \<open>Opening\<close>

definition new_sm :: "('ep, 'id, 'm) sm_codec \<Rightarrow> 'log \<Rightarrow> ('log, 'ep, 'id, 'm) episode_sm" where
  "new_sm C log = \<lparr>es_log = log, es_applied = None, es_membership = (None, default_membership C), es_snapshot_idx = 0,
     es_normals = 0, es_skip_normals = 0, es_current_snapshot = None, es_dir = None, es_hooked = None\<rparr>"

definition with_apply_hook :: "('log, 'ep, 'id, 'm) episode_sm \<Rightarrow> ('log, 'ep, 'id, 'm) episode_sm" where
  "with_apply_hook st = st\<lparr>es_hooked := Some []\<rparr>"

definition open_durable :: "('log, 'ep) log_api \<Rightarrow> ('ep, 'id, 'm) sm_codec \<Rightarrow> 'log \<Rightarrow> directory
    \<Rightarrow> ('log, 'ep, 'id, 'm) episode_sm sm_result" where
  "open_durable A C log d = bindE (load_sm_meta C d) (\<lambda>meta.
     let head = la_head A log in
     if head < sm_normals meta then Inl (SmRead ''state-machine a frente do log: crash na janela de fsync'')
     else Inr \<lparr>es_log = log, es_applied = sm_applied meta, es_membership = sm_membership meta,
       es_snapshot_idx = sm_snapshot_idx meta, es_normals = sm_normals meta, es_skip_normals = head - sm_normals meta,
       es_current_snapshot = None, es_dir = Some d, es_hooked = None\<rparr>)"

section \<open>Applying entries\<close>

definition call_hook :: "u64 \<Rightarrow> 'ep \<Rightarrow> ('log, 'ep, 'id, 'm) episode_sm \<Rightarrow> ('log, 'ep, 'id, 'm) episode_sm" where
  "call_hook lsn ep st = st\<lparr>es_hooked := map_option (\<lambda>calls. calls @ [(lsn, ep)]) (es_hooked st)\<rparr>"

definition apply_entry :: "('log, 'ep) log_api \<Rightarrow> ('ep, 'id, 'm) sm_codec \<Rightarrow> ('id, 'm) raft_entry
    \<Rightarrow> ('log, 'ep, 'id, 'm) episode_sm \<Rightarrow> u64 sm_result \<times> ('log, 'ep, 'id, 'm) episode_sm" where
  "apply_entry A C entry st = (case en_payload entry of
     Blank \<Rightarrow> (Inr (-1), st)
   | MembershipChange m \<Rightarrow> (Inr (-1), st\<lparr>es_membership := (Some (en_log_id entry), m)\<rparr>)
   | NormalEntry bytes \<Rightarrow> (let st = st\<lparr>es_normals := es_normals st + 1\<rparr> in
       if es_skip_normals st > 0
       then (Inr (es_normals st - 1), st\<lparr>es_skip_normals := es_skip_normals st - 1\<rparr>)
       else (case dec_episode C bytes of
           None \<Rightarrow> (Inl (SmApply ''bincode''), st)
         | Some ep \<Rightarrow> (let lsn = la_head A (es_log st) in
             case la_append A (es_log st) lsn ep of
               (Inl e, log) \<Rightarrow> (Inl (SmApply e), st\<lparr>es_log := log\<rparr>)
             | (Inr _, log) \<Rightarrow> (Inr lsn, call_hook lsn ep (st\<lparr>es_log := log\<rparr>))))))"

fun apply_entries :: "('log, 'ep) log_api \<Rightarrow> ('ep, 'id, 'm) sm_codec \<Rightarrow> ('id, 'm) raft_entry list
    \<Rightarrow> ('log, 'ep, 'id, 'm) episode_sm \<Rightarrow> u64 list \<Rightarrow> u64 list sm_result \<times> ('log, 'ep, 'id, 'm) episode_sm" where
  "apply_entries A C [] st out = (Inr out, st)"
| "apply_entries A C (entry # entries) st out = (case apply_entry A C entry st of
     (Inl e, st) \<Rightarrow> (Inl e, st)
   | (Inr resp, st) \<Rightarrow> apply_entries A C entries (st\<lparr>es_applied := Some (en_log_id entry)\<rparr>) (out @ [resp]))"

definition sm_apply :: "('log, 'ep) log_api \<Rightarrow> ('ep, 'id, 'm) sm_codec \<Rightarrow> ('id, 'm) raft_entry list
    \<Rightarrow> ('log, 'ep, 'id, 'm) episode_sm \<Rightarrow> u64 list sm_result \<times> ('log, 'ep, 'id, 'm) episode_sm" where
  "sm_apply A C entries st = (case apply_entries A C entries st [] of
     (Inl e, st) \<Rightarrow> (Inl e, st)
   | (Inr out, st) \<Rightarrow> (case persist_sm_meta C st of (Inl e, st) \<Rightarrow> (Inl e, st) | (Inr _, st) \<Rightarrow> (Inr out, st)))"

section \<open>Snapshots\<close>

definition SCAN_WINDOW :: nat where
  "SCAN_WINDOW = 100000"

text \<open>The windowed scan; nothing but the log's contract makes it end.\<close>

partial_function (option) snapshot_loop :: "('log, 'ep) log_api \<Rightarrow> ('ep, 'id, 'm) sm_codec \<Rightarrow> 'log \<Rightarrow> u64 \<Rightarrow> u64
    \<Rightarrow> bytes list \<Rightarrow> bytes list sm_result option" where
  "snapshot_loop A C log head cur payload =
     (if cur < head
      then (case la_scan A log cur head SCAN_WINDOW of
          Inl e \<Rightarrow> Some (Inl (SmRead e))
        | Inr batch \<Rightarrow>
          if batch = [] then Some (Inr payload)
          else (case mapE (\<lambda>(lsn, ep). case enc_episode C ep of None \<Rightarrow> Inl (SmRead ''bincode'') | Some b \<Rightarrow> Inr b) batch of
              Inl e \<Rightarrow> Some (Inl e)
            | Inr bs \<Rightarrow> snapshot_loop A C log head (fst (last batch) + 1) (payload @ bs)))
      else Some (Inr payload))"

definition build_snapshot :: "('log, 'ep) log_api \<Rightarrow> ('ep, 'id, 'm) sm_codec \<Rightarrow> ('log, 'ep, 'id, 'm) episode_sm
    \<Rightarrow> ((('id, 'm) snapshot_meta \<times> bytes) sm_result \<times> ('log, 'ep, 'id, 'm) episode_sm) option" where
  "build_snapshot A C st = (case snapshot_loop A C (es_log st) (la_head A (es_log st)) 0 [] of
     None \<Rightarrow> None
   | Some (Inl e) \<Rightarrow> Some (Inl e, st)
   | Some (Inr payload) \<Rightarrow> (case enc_payloads C payload of
       None \<Rightarrow> Some (Inl (SmRead ''bincode''), st)
     | Some bytes \<Rightarrow> (let st = st\<lparr>es_snapshot_idx := es_snapshot_idx st + 1\<rparr>;
         meta = \<lparr>sn_last_log_id = es_applied st, sn_last_membership = es_membership st,
           sn_snapshot_id = ((case es_applied st of Some l \<Rightarrow> id_index C l | None \<Rightarrow> 0), es_snapshot_idx st)\<rparr> in
         Some (Inr (meta, bytes), st\<lparr>es_current_snapshot := Some (meta, bytes)\<rparr>))))"

fun install_episodes :: "('log, 'ep) log_api \<Rightarrow> ('ep, 'id, 'm) sm_codec \<Rightarrow> u64 \<Rightarrow> bytes list
    \<Rightarrow> ('log, 'ep, 'id, 'm) episode_sm \<Rightarrow> unit sm_result \<times> ('log, 'ep, 'id, 'm) episode_sm" where
  "install_episodes A C lsn [] st = (Inr (), st)"
| "install_episodes A C lsn (ep_bytes # payload) st =
     (if lsn < la_head A (es_log st) then install_episodes A C (lsn + 1) payload st
      else (case dec_episode C ep_bytes of
          None \<Rightarrow> (Inl (SmRead ''bincode''), st)
        | Some ep \<Rightarrow> (case la_append A (es_log st) lsn ep of
            (Inl e, log) \<Rightarrow> (Inl (SmWrite e), st\<lparr>es_log := log\<rparr>)
          | (Inr _, log) \<Rightarrow> install_episodes A C (lsn + 1) payload (call_hook lsn ep (st\<lparr>es_log := log\<rparr>)))))"

definition install_snapshot :: "('log, 'ep) log_api \<Rightarrow> ('ep, 'id, 'm) sm_codec \<Rightarrow> ('id, 'm) snapshot_meta \<Rightarrow> bytes
    \<Rightarrow> ('log, 'ep, 'id, 'm) episode_sm \<Rightarrow> unit sm_result \<times> ('log, 'ep, 'id, 'm) episode_sm" where
  "install_snapshot A C meta bytes st = (case dec_payloads C bytes of
     None \<Rightarrow> (Inl (SmRead ''bincode''), st)
   | Some payload \<Rightarrow> (case install_episodes A C 0 payload st of
       (Inl e, st) \<Rightarrow> (Inl e, st)
     | (Inr _, st) \<Rightarrow> persist_sm_meta C (st\<lparr>es_applied := sn_last_log_id meta, es_membership := sn_last_membership meta,
         es_normals := la_head A (es_log st), es_skip_normals := 0, es_current_snapshot := Some (meta, bytes)\<rparr>)))"

definition applied_state :: "('log, 'ep, 'id, 'm) episode_sm \<Rightarrow> 'id option \<times> ('id, 'm) stored_membership" where
  "applied_state st = (es_applied st, es_membership st)"

definition get_current_snapshot :: "('log, 'ep, 'id, 'm) episode_sm \<Rightarrow> (('id, 'm) snapshot_meta \<times> bytes) option" where
  "get_current_snapshot st = es_current_snapshot st"

end
