(* ===== verification/Raft_Apply.thy ===== *)
theory Raft_Apply
  imports Raft_State_Machine
begin

text \<open>
  The state machine against the sequence of committed entries: at every point of its life, crashes and
  restarts included, its log holds the episodes of a prefix of them, each once and in order.
\<close>

section \<open>What a sequence of committed entries stands for\<close>

definition entry_episode :: "('ep, 'id, 'm) sm_codec \<Rightarrow> ('id, 'm) raft_entry \<Rightarrow> 'ep list" where
  "entry_episode C e = (case en_payload e of
     NormalEntry b \<Rightarrow> (case dec_episode C b of None \<Rightarrow> [] | Some ep \<Rightarrow> [ep]) | _ \<Rightarrow> [])"

definition episodes_of :: "('ep, 'id, 'm) sm_codec \<Rightarrow> ('id, 'm) raft_entry list \<Rightarrow> 'ep list" where
  "episodes_of C es = concat (map (entry_episode C) es)"

definition membership_after :: "('ep, 'id, 'm) sm_codec \<Rightarrow> ('id, 'm) raft_entry list \<Rightarrow> ('id, 'm) stored_membership" where
  "membership_after C es = foldl (\<lambda>m e. case en_payload e of MembershipChange x \<Rightarrow> (Some (en_log_id e), x) | _ \<Rightarrow> m)
     (None, default_membership C) es"

definition applied_at :: "('id, 'm) raft_entry list \<Rightarrow> 'id option" where
  "applied_at es = (if es = [] then None else Some (en_log_id (last es)))"

definition entry_response :: "('ep, 'id, 'm) sm_codec \<Rightarrow> ('id, 'm) raft_entry list \<Rightarrow> nat \<Rightarrow> u64" where
  "entry_response C E i = (case en_payload (E ! i) of
     NormalEntry b \<Rightarrow> word_of_nat (length (episodes_of C (take i E))) | _ \<Rightarrow> -1)"

text \<open>Committed entries: what was proposed is an episode that the log takes, and no log id repeats.\<close>

definition committed_ok :: "('ep, 'id, 'm) sm_codec \<Rightarrow> ('ep \<Rightarrow> bool) \<Rightarrow> ('id, 'm) raft_entry list \<Rightarrow> bool" where
  "committed_ok C admissible E \<longleftrightarrow> distinct (map en_log_id E)
     \<and> (\<forall>e \<in> set E. \<forall>b. en_payload e = NormalEntry b \<longrightarrow> (\<exists>ep. dec_episode C b = Some ep \<and> admissible ep))"

definition sm_codec_ok :: "('ep, 'id, 'm) sm_codec \<Rightarrow> bool" where
  "sm_codec_ok C \<longleftrightarrow> (\<forall>m b. enc_sm_meta C m = Some b \<longrightarrow> dec_sm_meta C b = Some m)
     \<and> (\<forall>ep b. enc_episode C ep = Some b \<longrightarrow> dec_episode C b = Some ep)
     \<and> (\<forall>bs b. enc_payloads C bs = Some b \<longrightarrow> dec_payloads C b = Some bs)"

lemma episodes_of_simps [simp]: "episodes_of C [] = []" "episodes_of C (xs @ ys) = episodes_of C xs @ episodes_of C ys"
  by (simp_all add: episodes_of_def)

lemma take_step: "k < length E \<Longrightarrow> take (k + 1) E = take k E @ [E ! k]"
  by (simp add: take_Suc_conv_app_nth)

lemma episodes_mono: "k \<le> m \<Longrightarrow> \<exists>ys. episodes_of C (take m E) = episodes_of C (take k E) @ ys"
  using take_add [of k "m - k" E] by (metis episodes_of_simps(2) le_add_diff_inverse)

lemma episodes_mono_length: "k \<le> m \<Longrightarrow> length (episodes_of C (take k E)) \<le> length (episodes_of C (take m E))"
  using episodes_mono [of k m C E] by auto

lemma episodes_prefix: "\<exists>ys. episodes_of C E = episodes_of C (take m E) @ ys"
  by (metis append_take_drop_id episodes_of_simps(2))

lemma applied_at_unique:
  assumes "distinct (map en_log_id E)" and "applied_at (take j E) = applied_at (take k E)" and "j \<le> length E" and "k \<le> length E"
  shows "j = k"
proof -
  have l: "applied_at (take i E) = Some (map en_log_id E ! (i - 1))" if "0 < i" "i \<le> length E" for i
    using that by (auto simp: applied_at_def last_conv_nth)
  have z: "applied_at (take i E) = None \<longleftrightarrow> i = 0" if "i \<le> length E" for i
    using that by (cases "E = []") (auto simp: applied_at_def)
  show ?thesis
  proof (cases "j = 0 \<or> k = 0")
    case True
    then show ?thesis using z assms by metis
  next
    case False
    then have "map en_log_id E ! (j - 1) = map en_log_id E ! (k - 1)" using l assms(2-4) by auto
    then have "j - 1 = k - 1" using assms(1,3,4) False nth_eq_iff_index_eq [of "map en_log_id E"] by auto
    moreover have "0 < j" "0 < k" using False by simp_all
    ultimately show ?thesis by arith
  qed
qed

section \<open>A machine that has applied \<open>k\<close> entries\<close>

definition sm_agrees :: "('ep, 'id, 'm) sm_codec \<Rightarrow> ('log \<Rightarrow> 'ep list \<Rightarrow> bool) \<Rightarrow> ('id, 'm) raft_entry list \<Rightarrow> nat
    \<Rightarrow> ('log, 'ep, 'id, 'm) episode_sm \<Rightarrow> bool" where
  "sm_agrees C holds E k st \<longleftrightarrow> k \<le> length E \<and> es_applied st = applied_at (take k E)
     \<and> es_membership st = membership_after C (take k E)
     \<and> es_normals st = word_of_nat (length (episodes_of C (take k E)))
     \<and> (\<exists>m \<ge> k. m \<le> length E \<and> holds (es_log st) (episodes_of C (take m E))
         \<and> es_skip_normals st = word_of_nat (length (episodes_of C (take m E)) - length (episodes_of C (take k E))))"

text \<open>A directory whose meta file was written after \<open>k\<close> entries.\<close>

definition sm_disk :: "('ep, 'id, 'm) sm_codec \<Rightarrow> ('id, 'm) raft_entry list \<Rightarrow> nat \<Rightarrow> directory \<Rightarrow> bool" where
  "sm_disk C E k d \<longleftrightarrow> (\<exists>m. load_sm_meta C d = Inr m \<and> sm_applied m = applied_at (take k E)
     \<and> sm_membership m = membership_after C (take k E) \<and> sm_normals m = word_of_nat (length (episodes_of C (take k E))))"

definition sm_inv :: "('ep, 'id, 'm) sm_codec \<Rightarrow> ('log \<Rightarrow> 'ep list \<Rightarrow> bool) \<Rightarrow> ('id, 'm) raft_entry list \<Rightarrow> nat
    \<Rightarrow> ('log, 'ep, 'id, 'm) episode_sm \<Rightarrow> bool" where
  "sm_inv C holds E k st \<longleftrightarrow> sm_agrees C holds E k st \<and> (\<exists>d. es_dir st = Some d \<and> sm_disk C E k d)"

lemma apply_entry_frame:
  "apply_entry A C e st = (res, st') \<Longrightarrow> es_dir st' = es_dir st \<and> es_applied st' = es_applied st"
  by (auto simp: apply_entry_def Let_def call_hook_def split: entry_payload.splits if_splits option.splits prod.splits sum.splits)

lemma apply_entries_frame: "apply_entries A C es st out = (res, st') \<Longrightarrow> es_dir st' = es_dir st"
proof (induction es arbitrary: st out)
  case (Cons e es)
  then show ?case using apply_entry_frame [of A C e st]
    by (auto split: prod.splits sum.splits)
qed simp

context episode_log
begin

lemma apply_one:
  assumes agrees: "sm_agrees C holds E k st" and k: "k < length E" and ok: "committed_ok C admissible E"
    and room: "length (episodes_of C E) + 1 < capacity" and a: "apply_entry A C (E ! k) st = (Inr r, st')"
  shows "sm_agrees C holds E (k + 1) (st'\<lparr>es_applied := Some (en_log_id (E ! k))\<rparr>) \<and> r = entry_response C E k"
proof -
  let ?n = "\<lambda>i. length (episodes_of C (take i E))"
  obtain m where m: "k \<le> m" "m \<le> length E" "holds (es_log st) (episodes_of C (take m E))"
    "es_skip_normals st = word_of_nat (?n m - ?n k)"
    using agrees by (auto simp: sm_agrees_def)
  have st: "es_membership st = membership_after C (take k E)" "es_normals st = word_of_nat (?n k)"
    using agrees by (auto simp: sm_agrees_def)
  have applied: "applied_at (take (k + 1) E) = Some (en_log_id (E ! k))"
    unfolding take_step [OF k] applied_at_def by simp
  have mem: "membership_after C (take (k + 1) E) = (case en_payload (E ! k) of
      MembershipChange x \<Rightarrow> (Some (en_log_id (E ! k)), x) | _ \<Rightarrow> membership_after C (take k E))"
    unfolding take_step [OF k] membership_after_def by simp
  have eps: "episodes_of C (take (k + 1) E) = episodes_of C (take k E) @ entry_episode C (E ! k)"
    unfolding take_step [OF k] episodes_of_simps(2) by (simp add: episodes_of_def)
  have quiet: ?thesis if q: "entry_episode C (E ! k) = []" "r = -1" "\<And>b. en_payload (E ! k) \<noteq> NormalEntry b"
    "st' = st\<lparr>es_membership := membership_after C (take (k + 1) E)\<rparr>"
  proof -
    have "?n (k + 1) = ?n k" using eps q(1) by simp
    moreover from this have "\<exists>m' \<ge> k + 1. m' \<le> length E \<and> holds (es_log st) (episodes_of C (take m' E))
        \<and> es_skip_normals st = word_of_nat (?n m' - ?n (k + 1))"
      using m k eps q(1) by (cases "m = k") (auto intro: exI [of _ m] exI [of _ "k + 1"])
    ultimately show ?thesis
      using k st applied q(2,3) by (auto simp: sm_agrees_def q(4) entry_response_def split: entry_payload.split)
  qed
  show ?thesis
  proof (cases "en_payload (E ! k)")
    case Blank
    then show ?thesis using a mem st(1) by (intro quiet) (auto simp: apply_entry_def entry_episode_def)
  next
    case (MembershipChange x)
    then show ?thesis using a mem by (intro quiet) (auto simp: apply_entry_def entry_episode_def)
  next
    case (NormalEntry b)
    then obtain ep where ep: "dec_episode C b = Some ep" "admissible ep"
      using ok nth_mem [OF k] unfolding committed_ok_def by blast
    have one: "entry_episode C (E ! k) = [ep]" by (simp add: entry_episode_def NormalEntry ep)
    have n1: "?n (k + 1) = ?n k + 1" using eps one by simp
    have bound: "?n m < 2 ^ 64" using fits [OF m(3)] capacity by simp
    have skip: "unat (es_skip_normals st) = ?n m - ?n k"
      using bound by (simp add: m(4) unsigned_of_nat take_bit_nat_eq_self)
    have mem': "membership_after C (take (k + 1) E) = es_membership st" using mem NormalEntry st(1) by simp
    have resp: "entry_response C E k = word_of_nat (?n k)" by (simp add: entry_response_def NormalEntry)
    show ?thesis
    proof (cases "es_skip_normals st > 0")
      case True
      then have lt: "?n k < ?n m" using skip by (simp add: word_less_nat_alt)
      then have km: "k + 1 \<le> m" using m(1) by (cases "m = k") auto
      have "es_skip_normals st - 1 = word_of_nat (?n m - ?n (k + 1))"
        using lt n1 by (simp add: m(4) of_nat_diff)
      moreover have r: "r = es_normals st" "st' = st\<lparr>es_normals := es_normals st + 1, es_skip_normals := es_skip_normals st - 1\<rparr>"
        using a True by (auto simp: apply_entry_def NormalEntry Let_def)
      ultimately show ?thesis using k km m(2,3) applied mem' st(2) n1 resp by (auto simp: sm_agrees_def)
    next
      case False
      then have eq: "?n m = ?n k" using skip episodes_mono_length [OF m(1), of C E] by (simp add: word_less_nat_alt)
      then have same: "episodes_of C (take m E) = episodes_of C (take k E)"
        using episodes_mono [OF m(1), of C E] by auto
      obtain j log where j: "la_append A (es_log st) (la_head A (es_log st)) ep = (Inr j, log)"
        and r: "r = la_head A (es_log st)"
          "st' = call_hook r ep (st\<lparr>es_normals := es_normals st + 1, es_log := log\<rparr>)"
        using a False by (auto simp: apply_entry_def NormalEntry Let_def ep split: prod.splits sum.splits)
      have "length (episodes_of C (take m E)) + 1 < capacity"
        using room episodes_prefix [of C E m] by auto
      then have h: "holds log (episodes_of C (take (k + 1) E))"
        using append_law [OF m(3) ep(2) _ j] unfolding eps one same by blast
      have "es_skip_normals st = 0" using False by (simp add: word_less_nat_alt unat_eq_0)
      moreover have "r = word_of_nat (?n k)" using head_law [OF m(3)] eq r(1) by simp
      ultimately show ?thesis
        using k h applied mem' st(2) n1 resp
        by (auto simp: sm_agrees_def r(2) call_hook_def intro!: exI [of _ "k + 1"])
    qed
  qed
qed

lemma apply_many:
  assumes ok: "committed_ok C admissible E" and room: "length (episodes_of C E) + 1 < capacity"
  shows "sm_agrees C holds E k st \<Longrightarrow> k + n \<le> length E \<Longrightarrow> apply_entries A C (take n (drop k E)) st out = (Inr out', st')
    \<Longrightarrow> sm_agrees C holds E (k + n) st' \<and> out' = out @ map (entry_response C E) [k..<k + n]"
proof (induction n arbitrary: k st out)
  case (Suc n)
  have k: "k < length E" using Suc.prems(2) by simp
  have t: "take (Suc n) (drop k E) = E ! k # take n (drop (k + 1) E)" using k by (simp flip: Cons_nth_drop_Suc)
  obtain r s1 where one: "apply_entry A C (E ! k) st = (Inr r, s1)"
    and rest: "apply_entries A C (take n (drop (k + 1) E)) (s1\<lparr>es_applied := Some (en_log_id (E ! k))\<rparr>) (out @ [r]) = (Inr out', st')"
    using Suc.prems(3) by (auto simp: t split: prod.splits sum.splits)
  note a = apply_one [OF Suc.prems(1) k ok room one]
  have "sm_agrees C holds E (k + 1 + n) st' \<and> out' = (out @ [r]) @ map (entry_response C E) [k + 1..<k + 1 + n]"
    by (rule Suc.IH [OF _ _ rest]) (use a Suc.prems(2) in auto)
  then show ?case using a by (simp add: upt_conv_Cons del: upt_Suc)
qed simp

end

section \<open>Lives of a machine\<close>

text \<open>A crash while the next \<open>n\<close> entries are applied: the log holds the episodes appended so far, the meta file
  has been replaced or not. A crash in the middle of a longer batch is one of these.\<close>

definition sm_crash :: "('log, 'ep) log_api \<Rightarrow> ('ep, 'id, 'm) sm_codec \<Rightarrow> ('log \<Rightarrow> 'ep list \<Rightarrow> bool) \<Rightarrow> ('id, 'm) raft_entry list
    \<Rightarrow> nat \<Rightarrow> nat \<Rightarrow> ('log, 'ep, 'id, 'm) episode_sm \<Rightarrow> 'ep list \<Rightarrow> directory \<Rightarrow> bool" where
  "sm_crash A C holds E k n st eps d \<longleftrightarrow> k + n \<le> length E
     \<and> (\<exists>out st1 d0 ops. apply_entries A C (take n (drop k E)) st [] = (Inr out, st1) \<and> holds (es_log st1) eps
         \<and> es_dir st1 = Some d0 \<and> sm_meta_ops C (meta_of st1) = Inr ops \<and> crash d0 ops d)"

text \<open>\<open>sm_life E k st\<close>: a machine that has been given the first \<open>k\<close> of the committed entries. After a restart
  openraft goes on behind the entry that \<open>applied_state\<close> names.\<close>

inductive sm_life :: "('log, 'ep) log_api \<Rightarrow> ('ep, 'id, 'm) sm_codec \<Rightarrow> ('log \<Rightarrow> 'ep list \<Rightarrow> bool) \<Rightarrow> ('id, 'm) raft_entry list
    \<Rightarrow> nat \<Rightarrow> ('log, 'ep, 'id, 'm) episode_sm \<Rightarrow> bool" for A C holds E where
  started: "holds log [] \<Longrightarrow> open_durable A C log [] = Inr st \<Longrightarrow> sm_life A C holds E 0 st"
| hooked: "sm_life A C holds E k st \<Longrightarrow> sm_life A C holds E k (with_apply_hook st)"
| applied: "sm_life A C holds E k st \<Longrightarrow> k + n \<le> length E \<Longrightarrow> sm_apply A C (take n (drop k E)) st = (Inr out, st')
    \<Longrightarrow> sm_life A C holds E (k + n) st'"
| snapshot: "sm_life A C holds E k st \<Longrightarrow> build_snapshot A C st = Some (res, st') \<Longrightarrow> sm_life A C holds E k st'"
| restarted: "sm_life A C holds E k st \<Longrightarrow> sm_crash A C holds E k n st eps d \<Longrightarrow> holds log eps
    \<Longrightarrow> open_durable A C log d = Inr st' \<Longrightarrow> k' \<le> length E \<Longrightarrow> fst (applied_state st') = applied_at (take k' E)
    \<Longrightarrow> sm_life A C holds E k' st'"

lemma sm_names [simp]: "SM_META_TMP \<noteq> SM_META" "SM_META \<noteq> SM_META_TMP"
  by (simp_all add: SM_META_def SM_META_TMP_def ascii_def)

lemma sm_meta_written:
  assumes "sm_codec_ok C" and "sm_meta_ops C m = Inr ops"
  obtains bytes where "ops = [WriteAndSync SM_META_TMP bytes, Rename SM_META_TMP SM_META, SyncDir]"
    and "\<And>d. map_of d SM_META = Some bytes \<Longrightarrow> load_sm_meta C d = Inr m"
  using assms by (auto simp: sm_meta_ops_def sm_codec_ok_def load_sm_meta_def split: option.splits)

lemma meta_of_disk:
  "sm_agrees C holds E k st \<Longrightarrow> load_sm_meta C d = Inr (meta_of st) \<Longrightarrow> sm_disk C E k d"
  by (auto simp: sm_disk_def sm_agrees_def meta_of_def)

lemma persist_disk:
  assumes ok: "sm_codec_ok C" and agrees: "sm_agrees C holds E k st" and p: "persist_sm_meta C st = (Inr (), st')"
    and d: "es_dir st = Some d0"
  shows "sm_inv C holds E k st'"
proof -
  obtain ops d where ops: "sm_meta_ops C (meta_of st) = Inr ops" and r: "run_ops ops d0 = Inr d" and st': "st' = st\<lparr>es_dir := Some d\<rparr>"
    using p d by (auto simp: persist_sm_meta_def split: sum.splits)
  obtain bytes where b: "ops = [WriteAndSync SM_META_TMP bytes, Rename SM_META_TMP SM_META, SyncDir]"
    "\<And>d. map_of d SM_META = Some bytes \<Longrightarrow> load_sm_meta C d = Inr (meta_of st)"
    using sm_meta_written [OF ok ops] by metis
  have "map_of d SM_META = Some bytes" using run_replace [of SM_META_TMP SM_META bytes d0] r b(1) by auto
  then have "sm_disk C E k d" using meta_of_disk [OF agrees b(2)] by blast
  then show ?thesis using agrees by (simp add: sm_inv_def st' sm_agrees_def)
qed

context episode_log
begin

text \<open>Opening on a log that holds at least what the meta file records.\<close>

lemma open_agrees:
  assumes d: "sm_disk C E k d" and m: "k \<le> m" "m \<le> length E" "holds log (episodes_of C (take m E))"
  shows "\<exists>st. open_durable A C log d = Inr st \<and> sm_inv C holds E k st"
proof -
  let ?n = "\<lambda>i. length (episodes_of C (take i E))"
  obtain meta where meta: "load_sm_meta C d = Inr meta" "sm_applied meta = applied_at (take k E)"
    "sm_membership meta = membership_after C (take k E)" "sm_normals meta = word_of_nat (?n k)"
    using d by (auto simp: sm_disk_def)
  have le: "?n k \<le> ?n m" by (rule episodes_mono_length [OF m(1)])
  have "unat (sm_normals meta) = ?n k"
    using le fits [OF m(3)] capacity by (simp add: meta(4) unsigned_of_nat take_bit_nat_eq_self)
  then have "\<not> la_head A log < sm_normals meta" using unat_head [OF m(3)] le by (simp add: word_less_nat_alt)
  moreover have "la_head A log - sm_normals meta = word_of_nat (?n m - ?n k)"
    using head_law [OF m(3)] le by (simp add: meta(4) of_nat_diff)
  ultimately show ?thesis
    using d meta m by (auto simp: open_durable_def Let_def sm_inv_def sm_agrees_def)
qed

lemma crash_agrees:
  assumes inv: "sm_inv C holds E k st" and ok: "committed_ok C admissible E" and cod: "sm_codec_ok C"
    and room: "length (episodes_of C E) + 1 < capacity" and c: "sm_crash A C holds E k n st eps d"
  shows "(sm_disk C E k d \<or> sm_disk C E (k + n) d) \<and> k + n \<le> length E
    \<and> (\<exists>st1. sm_agrees C holds E (k + n) st1 \<and> holds (es_log st1) eps)"
proof -
  obtain out st1 d0 ops where a: "apply_entries A C (take n (drop k E)) st [] = (Inr out, st1)" "holds (es_log st1) eps"
    and dir: "es_dir st1 = Some d0" and ops: "sm_meta_ops C (meta_of st1) = Inr ops" and cr: "crash d0 ops d"
    and n: "k + n \<le> length E"
    using c by (auto simp: sm_crash_def)
  have agrees: "sm_agrees C holds E k st" and old: "sm_disk C E k d0"
    using inv dir apply_entries_frame [OF a(1)] by (auto simp: sm_inv_def)
  have new: "sm_agrees C holds E (k + n) st1" using apply_many [OF ok room agrees n a(1)] by blast
  obtain bytes where b: "ops = [WriteAndSync SM_META_TMP bytes, Rename SM_META_TMP SM_META, SyncDir]"
    "\<And>d. map_of d SM_META = Some bytes \<Longrightarrow> load_sm_meta C d = Inr (meta_of st1)"
    using sm_meta_written [OF cod ops] by metis
  have "SM_META_TMP \<noteq> SM_META" by simp
  from crash_of_replace [OF cr [unfolded b(1)] this]
  have "sm_disk C E k d \<or> sm_disk C E (k + n) d"
  proof (elim disjE conjE)
    assume "\<forall>x. x \<noteq> SM_META_TMP \<longrightarrow> map_of d x = map_of d0 x"
    then have "load_sm_meta C d = load_sm_meta C d0" by (simp add: load_sm_meta_def)
    then show ?thesis using old by (simp add: sm_disk_def)
  next
    assume "map_of d SM_META = Some bytes"
    then show ?thesis using meta_of_disk [OF new b(2)] by blast
  qed
  then show ?thesis using new n a(2) by blast
qed

lemma crash_restarts:
  assumes inv: "sm_inv C holds E k st" and ok: "committed_ok C admissible E" and cod: "sm_codec_ok C"
    and room: "length (episodes_of C E) + 1 < capacity" and c: "sm_crash A C holds E k n st eps d" and h: "holds log eps"
  shows "\<exists>st'. open_durable A C log d = Inr st' \<and> (sm_inv C holds E k st' \<or> sm_inv C holds E (k + n) st')"
proof -
  obtain st1 where d: "sm_disk C E k d \<or> sm_disk C E (k + n) d" and st1: "sm_agrees C holds E (k + n) st1" "holds (es_log st1) eps"
    using crash_agrees [OF inv ok cod room c] by blast
  obtain m where m: "k + n \<le> m" "m \<le> length E" "holds (es_log st1) (episodes_of C (take m E))"
    using st1(1) by (auto simp: sm_agrees_def)
  then have h: "holds log (episodes_of C (take m E))" using holds_unique [OF st1(2)] h by simp
  from d show ?thesis
  proof
    assume "sm_disk C E k d"
    from open_agrees [OF this _ m(2) h] m(1) show ?thesis by auto
  next
    assume "sm_disk C E (k + n) d"
    from open_agrees [OF this m(1,2) h] show ?thesis by auto
  qed
qed

lemma life_inv:
  assumes ok: "committed_ok C admissible E" and cod: "sm_codec_ok C" and room: "length (episodes_of C E) + 1 < capacity"
  shows "sm_life A C holds E k st \<Longrightarrow> sm_inv C holds E k st"
proof (induction rule: sm_life.induct)
  case (started log st)
  have "sm_disk C E 0 []"
    by (simp add: sm_disk_def load_sm_meta_def sm_meta_default_def applied_at_def membership_after_def)
  from open_agrees [OF this, of 0 log] started show ?case by simp
next
  case (hooked k st)
  then show ?case by (simp add: sm_inv_def sm_agrees_def with_apply_hook_def)
next
  case (applied k st n out st')
  have agrees: "sm_agrees C holds E k st" and "\<exists>d. es_dir st = Some d" using applied.IH by (auto simp: sm_inv_def)
  then obtain d st1 where d: "es_dir st = Some d" and a: "apply_entries A C (take n (drop k E)) st [] = (Inr out, st1)"
    and p: "persist_sm_meta C st1 = (Inr (), st')"
    using applied.hyps(3) by (auto simp: sm_apply_def split: prod.splits sum.splits)
  have "es_dir st1 = Some d" using apply_entries_frame [OF a] d by simp
  from persist_disk [OF cod _ p this] apply_many [OF ok room agrees applied.hyps(2) a] show ?case by blast
next
  case (snapshot k st res st')
  then have "es_log st' = es_log st \<and> es_applied st' = es_applied st \<and> es_membership st' = es_membership st
      \<and> es_normals st' = es_normals st \<and> es_skip_normals st' = es_skip_normals st \<and> es_dir st' = es_dir st"
    by (auto simp: build_snapshot_def Let_def split: option.splits sum.splits)
  then show ?case using snapshot.IH by (simp add: sm_inv_def sm_agrees_def)
next
  case (restarted k st n eps d log st' k')
  obtain j where j: "sm_inv C holds E j st'"
    using crash_restarts [OF restarted.IH ok cod room restarted.hyps(2,3)] restarted.hyps(4) by auto
  then have "applied_at (take k' E) = applied_at (take j E)" "j \<le> length E"
    using restarted.hyps(6) by (auto simp: sm_inv_def sm_agrees_def applied_state_def)
  then have "k' = j" using applied_at_unique ok restarted.hyps(5) by (auto simp: committed_ok_def)
  then show ?case using j by simp
qed

end

section \<open>Snapshots\<close>

context episode_log
begin

text \<open>The windowed scan goes over the whole log, whatever its length.\<close>

lemma snapshot_loop_reads:
  assumes h: "holds log eps" and enc: "mapE (\<lambda>ep. case enc_episode C ep of None \<Rightarrow> Inl (SmRead ''bincode'') | Some b \<Rightarrow> Inr b) eps = Inr bs"
  shows "i \<le> length eps \<Longrightarrow> snapshot_loop A C log (la_head A log) (word_of_nat i) (take i bs) = Some (Inr bs)"
proof (induction "length eps - i" arbitrary: i rule: less_induct)
  case less
  let ?f = "\<lambda>ep. case enc_episode C ep of None \<Rightarrow> Inl (SmRead ''bincode'') | Some b \<Rightarrow> Inr b"
  have len: "length bs = length eps" by (rule mapE_length [OF enc])
  show ?case
  proof (cases "i = length eps")
    case True
    then show ?thesis using head_law [OF h] len by (simp add: snapshot_loop.simps)
  next
    case False
    then have i: "i < length eps" using less.prems by simp
    let ?j = "min (length eps) (i + SCAN_WINDOW)"
    have w: "0 < SCAN_WINDOW" by (simp add: SCAN_WINDOW_def)
    then have j: "i < ?j" "?j \<le> length eps" using i by auto
    have lt: "(word_of_nat i :: u64) < la_head A log"
      using unat_head [OF h] below_head [OF h i] i by (simp add: word_less_nat_alt)
    have "take SCAN_WINDOW [i..<length eps] = [i..<?j]" by (rule nth_equalityI) auto
    then have scan: "la_scan A log (word_of_nat i) (la_head A log) SCAN_WINDOW = Inr (map (\<lambda>i. (word_of_nat i, eps ! i)) [i..<?j])"
      using scan_law [OF h] unat_head [OF h] below_head [OF h i] by simp
    have sub: "mapE (\<lambda>(lsn, ep). ?f ep) (map (\<lambda>i. (word_of_nat i, eps ! i)) xs) = Inr (map ((!) bs) xs)"
      if "set xs \<subseteq> {..<length eps}" for xs
      using that by (induction xs) (auto simp: mapE_nth [OF enc])
    have last: "fst (last (map (\<lambda>i. (word_of_nat i, eps ! i)) [i..<?j])) + 1 = (word_of_nat ?j :: u64)"
    proof -
      have "last [i..<?j] = ?j - 1" using j(1) by simp
      then have "fst (last (map (\<lambda>i. (word_of_nat i, eps ! i)) [i..<?j])) = (word_of_nat (?j - 1) :: u64)"
        using j(1) by (subst last_map) (auto simp del: upt_Suc)
      then show ?thesis using j(1) by (simp add: of_nat_diff del: of_nat_diff_if)
    qed
    have "take i bs @ map ((!) bs) [i..<?j] = take ?j bs"
      using j len by (intro nth_equalityI) (auto simp: nth_append)
    moreover have "mapE (\<lambda>(lsn, ep). ?f ep) (map (\<lambda>i. (word_of_nat i :: u64, eps ! i)) [i..<?j]) = Inr (map ((!) bs) [i..<?j])"
      by (rule sub) (use j in auto)
    moreover have "map (\<lambda>i. (word_of_nat i :: u64, eps ! i)) [i..<?j] \<noteq> []"
      unfolding map_is_Nil_conv upt_eq_Nil_conv using j(1) by linarith
    ultimately have "snapshot_loop A C log (la_head A log) (word_of_nat i) (take i bs)
        = snapshot_loop A C log (la_head A log) (word_of_nat ?j) (take ?j bs)"
      using lt by (subst snapshot_loop.simps) (simp only: scan sum.case if_True if_False last simp_thms)
    also have "\<dots> = Some (Inr bs)" by (rule less.hyps) (use i j in auto)
    finally show ?thesis .
  qed
qed

text \<open>Installing appends exactly the episodes beyond the head.\<close>

lemma install_appends:
  assumes enc: "mapE (\<lambda>ep. case enc_episode C ep of None \<Rightarrow> Inl (SmRead ''bincode'') | Some b \<Rightarrow> Inr b) eps = Inr bs"
    and cod: "sm_codec_ok C" and adm: "\<forall>ep \<in> set eps. admissible ep" and room: "length eps < capacity" and n: "n \<le> length eps"
  shows "i \<le> length eps \<Longrightarrow> holds (es_log st) (take (max n i) eps)
    \<Longrightarrow> install_episodes A C (word_of_nat i) (drop i bs) st = (Inr (), st')
    \<Longrightarrow> holds (es_log st') eps \<and> st' = st\<lparr>es_log := es_log st', es_hooked := map_option (\<lambda>calls. calls
        @ map (\<lambda>i. (word_of_nat i, eps ! i)) [max n i..<length eps]) (es_hooked st)\<rparr>"
proof (induction "length eps - i" arbitrary: i st)
  case 0
  have "length bs = length eps" by (rule mapE_length [OF enc])
  then have "i = length eps" "drop i bs = []" using 0 by simp_all
  then show ?case using 0 n by (simp add: option.map_ident_strong)
next
  case (Suc x)
  have i: "i < length eps" using Suc.hyps(2) by simp
  have len: "length bs = length eps" by (rule mapE_length [OF enc])
  have d: "drop i bs = bs ! i # drop (i + 1) bs" using i len by (simp add: Cons_nth_drop_Suc)
  have w: "unat (word_of_nat i :: u64) = i" using i room capacity by (simp add: unsigned_of_nat take_bit_nat_eq_self)
  have hd: "unat (la_head A (es_log st)) = max n i" using unat_head [OF Suc.prems(2)] i n by simp
  show ?case
  proof (cases "i < n")
    case True
    then have m: "max n i = max n (i + 1)" by simp
    have "(word_of_nat i :: u64) < la_head A (es_log st)" using True w hd by (simp add: word_less_nat_alt)
    then have r: "install_episodes A C (word_of_nat (i + 1)) (drop (i + 1) bs) st = (Inr (), st')"
      using Suc.prems(3) by (simp add: d add.commute)
    show ?thesis unfolding m by (rule Suc.hyps(1) [OF _ _ _ r]) (use Suc.hyps(2) Suc.prems(2) i m in auto)
  next
    case False
    then have m: "max n i = i" "max n (i + 1) = i + 1" by simp_all
    have here: "word_of_nat i = la_head A (es_log st)" using head_law [OF Suc.prems(2)] i m(1) by simp
    obtain b where b: "enc_episode C (eps ! i) = Some b" "bs ! i = b"
      using mapE_nth [OF enc i] by (auto split: option.splits)
    have dec: "dec_episode C (bs ! i) = Some (eps ! i)" using b cod by (simp add: sm_codec_ok_def)
    obtain j log where ap: "la_append A (es_log st) (la_head A (es_log st)) (eps ! i) = (Inr j, log)"
      and r: "install_episodes A C (word_of_nat (i + 1)) (drop (i + 1) bs)
        (call_hook (word_of_nat i) (eps ! i) (st\<lparr>es_log := log\<rparr>)) = (Inr (), st')"
      using Suc.prems(3) by (auto simp: d dec here add.commute split: prod.splits sum.splits)
    have "length (take i eps) + 1 < capacity \<or> length (take i eps) + 1 = length eps" using i room by auto
    then have "length (take (max n i) eps) + 1 < capacity" using room i m(1) by auto
    from append_law [OF Suc.prems(2) _ this ap] have "holds log (take i eps @ [eps ! i])" using adm i m(1) by simp
    then have h: "holds log (take (max n (i + 1)) eps)" using i m(2) by (simp add: take_Suc_conv_app_nth)
    let ?t = "call_hook (word_of_nat i) (eps ! i) (st\<lparr>es_log := log\<rparr>)"
    have "holds (es_log st') eps \<and> st' = ?t\<lparr>es_log := es_log st', es_hooked := map_option (\<lambda>calls. calls
        @ map (\<lambda>i. (word_of_nat i, eps ! i)) [max n (i + 1)..<length eps]) (es_hooked ?t)\<rparr>"
      by (rule Suc.hyps(1) [OF _ _ _ r]) (use Suc.hyps(2) i h in \<open>auto simp: call_hook_def\<close>)
    then have hs: "holds (es_log st') eps" and st': "st' = ?t\<lparr>es_log := es_log st', es_hooked := map_option (\<lambda>calls. calls
        @ map (\<lambda>i. (word_of_nat i, eps ! i)) [max n (i + 1)..<length eps]) (es_hooked ?t)\<rparr>" by auto
    have "[max n i..<length eps] = i # [max n (i + 1)..<length eps]" unfolding m using i by (simp add: upt_conv_Cons)
    then have "?t\<lparr>es_log := es_log st', es_hooked := map_option (\<lambda>calls. calls
        @ map (\<lambda>i. (word_of_nat i, eps ! i)) [max n (i + 1)..<length eps]) (es_hooked ?t)\<rparr>
      = st\<lparr>es_log := es_log st', es_hooked := map_option (\<lambda>calls. calls
        @ map (\<lambda>i. (word_of_nat i, eps ! i)) [max n i..<length eps]) (es_hooked st)\<rparr>"
      by (cases "es_hooked st") (simp_all add: call_hook_def)
    then show ?thesis using hs st' by simp
  qed
qed

text \<open>The snapshot of a machine, and its installation on one whose log is a prefix.\<close>

lemma build_snapshot_result:
  assumes h: "holds (es_log st) eps" and enc: "mapE (\<lambda>ep. case enc_episode C ep of None \<Rightarrow> Inl (SmRead ''bincode'') | Some b \<Rightarrow> Inr b) eps = Inr bs"
    and b: "enc_payloads C bs = Some bytes"
  shows "\<exists>meta st'. build_snapshot A C st = Some (Inr (meta, bytes), st') \<and> sn_last_log_id meta = es_applied st
    \<and> sn_last_membership meta = es_membership st \<and> get_current_snapshot st' = Some (meta, bytes)"
  using snapshot_loop_reads [OF h enc, of 0] b by (simp add: build_snapshot_def Let_def get_current_snapshot_def)

lemma install_snapshot_result:
  assumes enc: "mapE (\<lambda>ep. case enc_episode C ep of None \<Rightarrow> Inl (SmRead ''bincode'') | Some b \<Rightarrow> Inr b) eps = Inr bs"
    and b: "enc_payloads C bs = Some bytes" and cod: "sm_codec_ok C" and adm: "\<forall>ep \<in> set eps. admissible ep"
    and room: "length eps < capacity" and n: "n \<le> length eps" and h: "holds (es_log st) (take n eps)"
    and i: "install_snapshot A C meta bytes st = (Inr (), st')"
  shows "holds (es_log st') eps \<and> applied_state st' = (sn_last_log_id meta, sn_last_membership meta)
    \<and> es_normals st' = word_of_nat (length eps) \<and> es_skip_normals st' = 0 \<and> get_current_snapshot st' = Some (meta, bytes)
    \<and> es_hooked st' = map_option (\<lambda>calls. calls @ map (\<lambda>i. (word_of_nat i, eps ! i)) [n..<length eps]) (es_hooked st)"
proof -
  have "dec_payloads C bytes = Some bs" using b cod by (simp add: sm_codec_ok_def)
  then obtain st1 where r: "install_episodes A C 0 bs st = (Inr (), st1)"
    and p: "persist_sm_meta C (st1\<lparr>es_applied := sn_last_log_id meta, es_membership := sn_last_membership meta,
      es_normals := la_head A (es_log st1), es_skip_normals := 0, es_current_snapshot := Some (meta, bytes)\<rparr>) = (Inr (), st')"
    using i by (auto simp: install_snapshot_def split: prod.splits sum.splits)
  have "holds (es_log st1) eps \<and> st1 = st\<lparr>es_log := es_log st1, es_hooked := map_option (\<lambda>calls. calls
      @ map (\<lambda>i. (word_of_nat i, eps ! i)) [max n 0..<length eps]) (es_hooked st)\<rparr>"
    by (rule install_appends [OF enc cod adm room n]) (use h r in auto)
  then have h1: "holds (es_log st1) eps" and hk: "es_hooked st1 = map_option (\<lambda>calls. calls
      @ map (\<lambda>i. (word_of_nat i, eps ! i)) [n..<length eps]) (es_hooked st)"
    by (auto dest: arg_cong [of st1 _ es_hooked])
  from p show ?thesis using h1 hk head_law [OF h1]
    by (auto simp: persist_sm_meta_def applied_state_def get_current_snapshot_def split: option.splits sum.splits)
qed

text \<open>With nothing to skip, entries are appended to whatever the log holds.\<close>

lemma apply_appends:
  assumes ok: "\<forall>e \<in> set es. \<forall>b. en_payload e = NormalEntry b \<longrightarrow> (\<exists>ep. dec_episode C b = Some ep \<and> admissible ep)"
  shows "holds (es_log st) eps \<Longrightarrow> es_skip_normals st = 0 \<Longrightarrow> length eps + length (episodes_of C es) + 1 < capacity
    \<Longrightarrow> apply_entries A C es st out = (Inr out', st') \<Longrightarrow> holds (es_log st') (eps @ episodes_of C es)"
  using ok
proof (induction es arbitrary: st eps out)
  case (Cons e es)
  obtain r s1 where one: "apply_entry A C e st = (Inr r, s1)"
    and rest: "apply_entries A C es (s1\<lparr>es_applied := Some (en_log_id e)\<rparr>) (out @ [r]) = (Inr out', st')"
    using Cons.prems(4) by (auto split: prod.splits sum.splits)
  have split: "episodes_of C (e # es) = entry_episode C e @ episodes_of C es" by (simp add: episodes_of_def)
  have "holds (es_log s1) (eps @ entry_episode C e) \<and> es_skip_normals s1 = 0"
  proof (cases "en_payload e")
    case (NormalEntry b)
    then obtain ep where ep: "dec_episode C b = Some ep" "admissible ep" using Cons.prems(5) by auto
    have e1: "entry_episode C e = [ep]" by (simp add: entry_episode_def NormalEntry ep)
    obtain j log where j: "la_append A (es_log st) (la_head A (es_log st)) ep = (Inr j, log)"
      and s1: "s1 = call_hook (la_head A (es_log st)) ep (st\<lparr>es_normals := es_normals st + 1, es_log := log\<rparr>)"
      using one Cons.prems(2) by (auto simp: apply_entry_def NormalEntry Let_def ep split: prod.splits sum.splits)
    have "length eps + 1 < capacity" using Cons.prems(3) by simp
    from append_law [OF Cons.prems(1) ep(2) this j] show ?thesis
      using Cons.prems(2) by (simp add: s1 e1 call_hook_def)
  qed (use one Cons.prems in \<open>auto simp: apply_entry_def entry_episode_def\<close>)
  then have "holds (es_log st') ((eps @ entry_episode C e) @ episodes_of C es)"
    by (intro Cons.IH [OF _ _ _ rest]) (use Cons.prems(3,5) in \<open>auto simp: split\<close>)
  then show ?case by (simp add: split)
qed simp

end

end
