(* ===== verification/Raft_Apply_Behaviour.thy ===== *)
theory Raft_Apply_Behaviour
  imports Raft_Apply Raft_Wal_Behaviour
begin

text \<open>
  The properties of the state machine for any log that keeps the contract of \<open>Episode_Log\<close>, and the concrete
  log and codec on which they are applied.
\<close>

section \<open>A concrete log and codec\<close>

fun enc_lists :: "bytes list \<Rightarrow> bytes" where
  "enc_lists [] = []"
| "enc_lists ([] # bs) = 0 # enc_lists bs"
| "enc_lists ((x # b) # bs) = 1 # x # enc_lists (b # bs)"

fun dec_lists :: "bytes \<Rightarrow> bytes list" where
  "dec_lists [] = []"
| "dec_lists [t] = [[]]"
| "dec_lists (t # x # rest) = (if t = 0 then [] # dec_lists (x # rest)
     else (case dec_lists rest of [] \<Rightarrow> [] | b # bs \<Rightarrow> (x # b) # bs))"

lemma dec_enc_lists: "dec_lists (enc_lists bs) = bs"
proof (induction bs rule: enc_lists.induct)
  case (2 bs)
  then show ?case by (cases "enc_lists bs") auto
qed auto

definition toy_sm :: "(bytes, u8, u8) sm_codec" where
  "toy_sm = \<lparr>enc_episode = Some, dec_episode = Some, enc_payloads = (\<lambda>bs. Some (enc_lists bs)),
     dec_payloads = (\<lambda>b. Some (dec_lists b)),
     enc_sm_meta = (\<lambda>m. Some (enc_opt (sm_applied m) @ enc_opt (fst (sm_membership m)) @ snd (sm_membership m)
       # to_le_bytes (sm_snapshot_idx m) @ to_le_bytes (sm_normals m))),
     dec_sm_meta = (\<lambda>b. Some \<lparr>sm_applied = dec_opt (b ! 0) (b ! 1), sm_membership = (dec_opt (b ! 2) (b ! 3), b ! 4),
       sm_snapshot_idx = from_le_bytes (take 8 (drop 5 b)), sm_normals = from_le_bytes (drop 13 b)\<rparr>),
     id_index = ucast, default_membership = 0\<rparr>"

lemma toy_sm_ok: "sm_codec_ok toy_sm"
proof -
  have e: "length (enc_opt x) = 2" "dec_opt (enc_opt x ! 0) (enc_opt x ! 1) = x" for x
    by (auto simp: enc_opt_def dec_opt_def split: option.splits)
  have "dec_sm_meta toy_sm b = Some m" if "enc_sm_meta toy_sm m = Some b" for m b
    using that e [of "sm_applied m"] e [of "fst (sm_membership m)"] by (auto simp: toy_sm_def nth_append)
  then show ?thesis by (auto simp: sm_codec_ok_def) (auto simp: toy_sm_def dec_enc_lists)
qed

definition toy_committed :: "(u8, u8) raft_entry list" where
  "toy_committed = [\<lparr>en_log_id = 1, en_payload = Blank\<rparr>, \<lparr>en_log_id = 2, en_payload = NormalEntry [5]\<rparr>,
     \<lparr>en_log_id = 3, en_payload = NormalEntry [6]\<rparr>]"

lemma toy_committed_ok: "committed_ok toy_sm (\<lambda>_. True) toy_committed"
  by (auto simp: committed_ok_def toy_committed_def toy_sm_def)

lemma toy_episodes: "episodes_of toy_sm toy_committed = [[5], [6]]"
  by (simp add: episodes_of_def entry_episode_def toy_committed_def toy_sm_def)

text \<open>A machine that has been cut after two entries, before its first meta file was written, and restarted.\<close>

definition toy_replaying :: "(bytes list, bytes, u8, u8) episode_sm" where
  "toy_replaying = \<lparr>es_log = [[5]], es_applied = None, es_membership = (None, 0), es_snapshot_idx = 0, es_normals = 0,
     es_skip_normals = 1, es_current_snapshot = None, es_dir = Some [], es_hooked = None\<rparr>"

lemma toy_crash:
  "\<exists>st. sm_life list_api toy_sm list_holds toy_committed 0 st
    \<and> sm_crash list_api toy_sm list_holds toy_committed 0 2 st [[5]] []"
proof -
  let ?st = "toy_replaying\<lparr>es_log := [], es_skip_normals := 0\<rparr>"
  have "open_durable list_api toy_sm [] [] = Inr ?st"
    by (simp add: open_durable_def load_sm_meta_def sm_meta_default_def list_api_def toy_sm_def toy_replaying_def Let_def)
  then have life: "sm_life list_api toy_sm list_holds toy_committed 0 ?st" by (rule started [rotated]) simp
  have "apply_entries list_api toy_sm (take 2 (drop 0 toy_committed)) ?st [] = (Inr [-1, 0], ?st\<lparr>es_log := [[5]],
      es_normals := 1, es_applied := Some 2\<rparr>)"
    by (simp add: toy_committed_def apply_entry_def Let_def list_api_def toy_sm_def toy_replaying_def call_hook_def)
  then have "sm_crash list_api toy_sm list_holds toy_committed 0 2 ?st [[5]] []"
    by (auto simp: sm_crash_def toy_committed_def toy_replaying_def sm_meta_ops_def toy_sm_def intro: crash.stopped)
  then show ?thesis using life by blast
qed

lemma toy_reopens: "open_durable list_api toy_sm [[5]] [] = Inr toy_replaying"
  by (simp add: open_durable_def load_sm_meta_def sm_meta_default_def list_api_def toy_sm_def toy_replaying_def Let_def)

lemma toy_replays: "sm_life list_api toy_sm list_holds toy_committed 0 toy_replaying"
proof -
  have "fst (applied_state toy_replaying) = applied_at (take 0 toy_committed)"
    by (simp add: applied_state_def toy_replaying_def applied_at_def)
  then show ?thesis using toy_crash restarted [of list_api toy_sm list_holds toy_committed 0 _ 2 "[[5]]" "[]" "[[5]]"] toy_reopens
    by fastforce
qed

lemma toy_persists: "es_dir st = Some d0 \<Longrightarrow> \<exists>d. persist_sm_meta toy_sm st = (Inr (), st\<lparr>es_dir := Some d\<rparr>)"
proof -
  assume d0: "es_dir st = Some d0"
  obtain bytes where b: "sm_meta_ops toy_sm (meta_of st) = Inr [WriteAndSync SM_META_TMP bytes, Rename SM_META_TMP SM_META, SyncDir]"
    by (simp add: sm_meta_ops_def toy_sm_def)
  obtain d where "run_ops [WriteAndSync SM_META_TMP bytes, Rename SM_META_TMP SM_META, SyncDir] d0 = Inr d"
    using run_replace [of SM_META_TMP SM_META bytes d0] by auto
  then show ?thesis by (auto simp: persist_sm_meta_def d0 b)
qed

lemma toy_applies: "\<exists>st'. sm_apply list_api toy_sm toy_committed toy_replaying = (Inr [-1, 0, 1], st')"
proof -
  let ?st = "toy_replaying\<lparr>es_log := [[5], [6]], es_normals := 2, es_skip_normals := 0, es_applied := Some 3\<rparr>"
  have "apply_entries list_api toy_sm toy_committed toy_replaying [] = (Inr [-1, 0, 1], ?st)"
    by (simp add: toy_committed_def apply_entry_def Let_def list_api_def toy_sm_def toy_replaying_def call_hook_def)
  moreover have "\<exists>d. persist_sm_meta toy_sm ?st = (Inr (), ?st\<lparr>es_dir := Some d\<rparr>)" by (rule toy_persists) (simp add: toy_replaying_def)
  ultimately show ?thesis by (auto simp: sm_apply_def)
qed

section \<open>Exactly once\<close>

text \<open>C4. Every committed episode is applied exactly once. Through batches, snapshots, crashes at any point of a
  batch or of the replacement of its meta file, and restarts, the log of a machine holds the episodes of a
  prefix of the committed entries, each once and in order; the prefix reaches at least as far as the entries
  the machine says it has applied, no further once nothing is left to skip, and the membership is that of
  the entries applied.\<close>

theorem apply_exactly_once:
  assumes "episode_log A holds admissible capacity" and "sm_codec_ok C" and "committed_ok C admissible E"
    and "length (episodes_of C E) + 1 < capacity" and "sm_life A C holds E k st"
  shows "applied_state st = (applied_at (take k E), membership_after C (take k E))
    \<and> (\<exists>m. k \<le> m \<and> m \<le> length E \<and> holds (es_log st) (episodes_of C (take m E)))
    \<and> (es_skip_normals st = 0 \<longrightarrow> holds (es_log st) (episodes_of C (take k E)))"
proof -
  note log = assms(1)
  have "sm_agrees C holds E k st" using episode_log.life_inv [OF log assms(3,2,4,5)] by (simp add: sm_inv_def)
  then obtain m where st: "applied_state st = (applied_at (take k E), membership_after C (take k E))"
    and m: "k \<le> m" "m \<le> length E" "holds (es_log st) (episodes_of C (take m E))"
    and skip: "es_skip_normals st = word_of_nat (length (episodes_of C (take m E)) - length (episodes_of C (take k E)))"
    by (auto simp: sm_agrees_def applied_state_def)
  have "length (episodes_of C (take m E)) < 2 ^ 64"
    using episode_log.fits [OF log m(3)] episode_log.capacity [OF log] by simp
  then have "unat (es_skip_normals st) = length (episodes_of C (take m E)) - length (episodes_of C (take k E))"
    by (simp add: skip unsigned_of_nat take_bit_nat_eq_self)
  then have "episodes_of C (take m E) = episodes_of C (take k E)" if "es_skip_normals st = 0"
    using that episodes_mono [OF m(1), of C E] by auto
  then show ?thesis using st m by auto
qed

theorem apply_exactly_once_witness:
  "sm_life list_api toy_sm list_holds toy_committed 0 toy_replaying \<and> es_skip_normals toy_replaying = 1
    \<and> (\<exists>m. 0 \<le> m \<and> m \<le> length toy_committed \<and> es_log toy_replaying = episodes_of toy_sm (take m toy_committed))"
  using apply_exactly_once [OF list_log toy_sm_ok toy_committed_ok _ toy_replays] toy_replays toy_episodes
  by (auto simp: toy_replaying_def)

section \<open>Restarting\<close>

text \<open>C27. A restart always succeeds: after a crash while entries are being applied, on a log that kept the episodes
  it had acknowledged, \<open>open_durable\<close> returns a machine that has applied what it had before the batch, or the
  whole batch, and that will skip exactly the episodes already in the log.\<close>

theorem state_machine_restarts:
  assumes "episode_log A holds admissible capacity" and "sm_codec_ok C" and "committed_ok C admissible E"
    and "length (episodes_of C E) + 1 < capacity" and "sm_life A C holds E k st"
    and "sm_crash A C holds E k n st eps d" and "holds log eps"
  shows "\<exists>st' j. open_durable A C log d = Inr st' \<and> (j = k \<or> j = k + n)
    \<and> applied_state st' = (applied_at (take j E), membership_after C (take j E))
    \<and> unat (es_skip_normals st') = length eps - length (episodes_of C (take j E))"
proof -
  note log = assms(1)
  obtain st' j where st': "open_durable A C log d = Inr st'" "j = k \<or> j = k + n" "sm_agrees C holds E j st'"
    using episode_log.crash_restarts [OF log episode_log.life_inv [OF log assms(3,2,4,5)] assms(3,2,4,6,7)]
    by (auto simp: sm_inv_def)
  obtain m where m: "j \<le> m" "holds (es_log st') (episodes_of C (take m E))"
    and skip: "es_skip_normals st' = word_of_nat (length (episodes_of C (take m E)) - length (episodes_of C (take j E)))"
    and a: "applied_state st' = (applied_at (take j E), membership_after C (take j E))"
    using st'(3) by (auto simp: sm_agrees_def applied_state_def)
  have "es_log st' = log" using st'(1) by (auto simp: open_durable_def Let_def bindE_eq_Inr split: if_splits)
  then have eps: "eps = episodes_of C (take m E)" using episode_log.holds_unique [OF log] m(2) assms(7) by metis
  have "length eps < 2 ^ 64" using episode_log.fits [OF log assms(7)] episode_log.capacity [OF log] by simp
  then have "unat (es_skip_normals st') = length eps - length (episodes_of C (take j E))"
    by (simp add: skip eps unsigned_of_nat take_bit_nat_eq_self)
  then show ?thesis using st' a by blast
qed

theorem state_machine_restarts_witness:
  "\<exists>st'. open_durable list_api toy_sm [[5]] [] = Inr st' \<and> unat (es_skip_normals st') \<le> 1"
  using toy_crash state_machine_restarts [OF list_log toy_sm_ok toy_committed_ok, of 0 _ 2 "[[5]]" "[]" "[[5]]"] toy_episodes
  by fastforce

section \<open>Answers\<close>

text \<open>C31. A client is told where its episode is. The answers to a batch are, for each entry, the LSN at which the
  log holds the episode of that very entry, also when the episode was already there from before a crash and
  the append was skipped, and \<open>u64::MAX\<close> for entries without an episode.\<close>

theorem apply_answers_lsn:
  assumes "episode_log A holds admissible capacity" and "sm_codec_ok C" and "committed_ok C admissible E"
    and "length (episodes_of C E) + 1 < capacity" and "sm_life A C holds E k st" and "k + n \<le> length E"
    and "sm_apply A C (take n (drop k E)) st = (Inr out, st')"
  shows "length out = n \<and> (\<forall>i < n. case en_payload (E ! (k + i)) of
      NormalEntry b \<Rightarrow> (\<exists>eps. holds (es_log st') eps \<and> dec_episode C b = Some (eps ! unat (out ! i)))
    | _ \<Rightarrow> out ! i = -1)"
proof -
  note log = assms(1)
  note inv = episode_log.life_inv [OF log assms(3,2,4)]
  have ag: "sm_agrees C holds E k st" using inv [OF assms(5)] by (simp add: sm_inv_def)
  obtain st1 where a: "apply_entries A C (take n (drop k E)) st [] = (Inr out, st1)"
    using assms(7) by (auto simp: sm_apply_def split: prod.splits sum.splits)
  have out: "out = map (entry_response C E) [k..<k + n]"
    using episode_log.apply_many [OF log assms(3,4) ag assms(6) a] by simp
  have "sm_agrees C holds E (k + n) st'"
    using inv [OF sm_life.applied [OF assms(5,6,7)]] by (simp add: sm_inv_def)
  then obtain m where m: "k + n \<le> m" "m \<le> length E" "holds (es_log st') (episodes_of C (take m E))"
    by (auto simp: sm_agrees_def)
  have "dec_episode C b = Some (episodes_of C (take m E) ! unat (out ! i))"
    if i: "i < n" and b: "en_payload (E ! (k + i)) = NormalEntry b" for i b
  proof -
    have lt: "k + i < length E" using i assms(6) by simp
    obtain ep where ep: "dec_episode C b = Some ep" using assms(3) b nth_mem [OF lt] unfolding committed_ok_def by blast
    have "episodes_of C (take (k + i + 1) E) = episodes_of C (take (k + i) E) @ [ep]"
      unfolding take_step [OF lt] episodes_of_simps(2) by (simp add: episodes_of_def entry_episode_def b ep)
    moreover obtain ys where "episodes_of C (take m E) = episodes_of C (take (k + i + 1) E) @ ys"
      using episodes_mono [of "k + i + 1" m C E] m(1) i by auto
    ultimately have p: "episodes_of C (take m E) = episodes_of C (take (k + i) E) @ ep # ys" by simp
    then have "length (episodes_of C (take (k + i) E)) < length (episodes_of C (take m E))" by simp
    from episode_log.below_head [OF log m(3) this]
    have "unat (out ! i) = length (episodes_of C (take (k + i) E))" using i by (simp add: out entry_response_def b)
    then show ?thesis by (simp add: p ep)
  qed
  then show ?thesis using m(3) out by (auto simp: entry_response_def split: entry_payload.split)
qed

theorem apply_answers_lsn_witness:
  "\<exists>st' eps. sm_apply list_api toy_sm toy_committed toy_replaying = (Inr [-1, 0, 1], st')
    \<and> es_log st' = eps \<and> eps ! unat (1 :: u64) = [6]"
proof -
  obtain st' where st': "sm_apply list_api toy_sm toy_committed toy_replaying = (Inr [-1, 0, 1], st')"
    using toy_applies by blast
  then have "sm_apply list_api toy_sm (take 3 (drop 0 toy_committed)) toy_replaying = (Inr [-1, 0, 1], st')"
    by (simp add: toy_committed_def)
  from apply_answers_lsn [OF list_log toy_sm_ok toy_committed_ok _ toy_replays _ this] toy_episodes
  have "\<forall>i < 3. case en_payload (toy_committed ! (0 + i)) of
      NormalEntry b \<Rightarrow> (\<exists>eps. list_holds (es_log st') eps \<and> dec_episode toy_sm b = Some (eps ! unat ([-1, 0, 1 :: u64] ! i)))
    | _ \<Rightarrow> [-1, 0, 1 :: u64] ! i = -1"
    by (simp add: toy_committed_def)
  from this [rule_format, of 2] have "es_log st' ! unat (1 :: u64) = [6]" by (auto simp: toy_committed_def toy_sm_def)
  then show ?thesis using st' by blast
qed

section \<open>Snapshots\<close>

abbreviation encode_all :: "('ep, 'id, 'm) sm_codec \<Rightarrow> 'ep list \<Rightarrow> bytes list sm_result" where
  "encode_all C \<equiv> mapE (\<lambda>ep. case enc_episode C ep of None \<Rightarrow> Inl (SmRead ''bincode'') | Some b \<Rightarrow> Inr b)"

text \<open>C31. A snapshot transfers the log. Building one always ends, whatever the size of the log, and captures every
  episode with the log id and membership applied. A follower whose log is a prefix and that installs it ends
  with the same log, applied state and snapshot, with nothing to skip, and its hook has been called for
  exactly the episodes it did not have, with their LSNs.\<close>

theorem snapshot_transfers_log:
  assumes "episode_log A holds admissible capacity" and "sm_codec_ok C" and "holds (es_log leader) eps"
    and "encode_all C eps = Inr bs" and "enc_payloads C bs = Some bytes" and "\<forall>ep \<in> set eps. admissible ep"
    and "n \<le> length eps" and "holds (es_log follower) (take n eps)"
  shows "\<exists>meta leader'. build_snapshot A C leader = Some (Inr (meta, bytes), leader')
    \<and> (\<forall>follower'. install_snapshot A C meta bytes follower = (Inr (), follower')
      \<longrightarrow> holds (es_log follower') eps \<and> applied_state follower' = applied_state leader
        \<and> get_current_snapshot follower' = get_current_snapshot leader' \<and> es_skip_normals follower' = 0
        \<and> es_hooked follower' = map_option (\<lambda>calls. calls @ map (\<lambda>i. (word_of_nat i, eps ! i)) [n..<length eps]) (es_hooked follower))"
proof -
  obtain meta leader' where b: "build_snapshot A C leader = Some (Inr (meta, bytes), leader')"
    "sn_last_log_id meta = es_applied leader" "sn_last_membership meta = es_membership leader"
    "get_current_snapshot leader' = Some (meta, bytes)"
    using episode_log.build_snapshot_result [OF assms(1,3,4,5)] by blast
  show ?thesis
    using b episode_log.install_snapshot_result [OF assms(1,4,5,2,6) episode_log.fits [OF assms(1,3)] assms(7,8), of meta]
    by (intro exI [of _ meta] exI [of _ leader']) (auto simp: applied_state_def)
qed

definition toy_follower :: "(bytes list, bytes, u8, u8) episode_sm" where
  "toy_follower = with_apply_hook (new_sm toy_sm [])"

lemma toy_fields:
  "enc_episode toy_sm = Some" "enc_payloads toy_sm = (\<lambda>bs. Some (enc_lists bs))" "es_log toy_replaying = [[5]]"
  "es_log toy_follower = []" "es_hooked toy_follower = Some []"
  by (simp_all add: toy_sm_def toy_replaying_def toy_follower_def with_apply_hook_def new_sm_def)

theorem snapshot_transfers_log_witness:
  "\<exists>meta leader'. build_snapshot list_api toy_sm toy_replaying = Some (Inr (meta, enc_lists [[5]]), leader')
    \<and> (\<forall>follower'. install_snapshot list_api toy_sm meta (enc_lists [[5]]) toy_follower = (Inr (), follower')
      \<longrightarrow> es_log follower' = [[5]] \<and> es_hooked follower' = Some [(0, [5])])"
  using snapshot_transfers_log [OF list_log toy_sm_ok, of toy_replaying "[[5]]" "[[5]]" "enc_lists [[5]]" 0 toy_follower]
  by (auto simp: toy_fields simp del: enc_lists.simps)

text \<open>C35. A snapshot taken while a restarted machine still has episodes to skip is torn: it pairs the episodes in the
  log with the log id of the entries applied so far, which do not reach as far. A follower that installs it and
  is then sent the entries behind that log id appends the episodes in between a second time.\<close>

theorem snapshot_while_replaying_duplicates:
  assumes "episode_log A holds admissible capacity" and "sm_codec_ok C" and "committed_ok C admissible E"
    and "2 * length (episodes_of C E) + 1 < capacity" and "holds (es_log leader) (episodes_of C (take m E))"
    and "es_applied leader = applied_at (take k E)"
    and "encode_all C (episodes_of C (take m E)) = Inr bs" and "\<forall>ep \<in> set (episodes_of C E). admissible ep"
    and "holds (es_log follower) []" and "build_snapshot A C leader = Some (Inr (meta, bytes), leader')"
    and "install_snapshot A C meta bytes follower = (Inr (), installed)"
    and "apply_entries A C (drop k (take m E)) installed [] = (Inr out, resumed)"
  shows "fst (applied_state installed) = applied_at (take k E)
    \<and> holds (es_log resumed) (episodes_of C (take m E) @ episodes_of C (drop k (take m E)))"
proof -
  note log = assms(1)
  let ?eps = "episodes_of C (take m E)"
  have bytes: "enc_payloads C bs = Some bytes"
    using episode_log.snapshot_loop_reads [OF log assms(5,7), of 0] assms(10)
    by (auto simp: build_snapshot_def Let_def split: option.splits)
  have meta: "sn_last_log_id meta = es_applied leader"
    using assms(10) by (auto simp: build_snapshot_def Let_def split: option.splits sum.splits)
  have sub: "set ?eps \<subseteq> set (episodes_of C E)" using episodes_prefix [of C E m] by auto
  have i: "holds (es_log installed) ?eps \<and> applied_state installed = (sn_last_log_id meta, sn_last_membership meta)
      \<and> es_skip_normals installed = 0"
    using episode_log.install_snapshot_result [OF log assms(7) bytes assms(2) _ episode_log.fits [OF log assms(5)], of 0 follower meta installed]
      assms(8,9,11) sub by auto
  have part: "length (episodes_of C (drop k (take m E))) \<le> length ?eps"
    by (metis append_take_drop_id episodes_of_simps(2) length_append le_add2)
  have "length ?eps \<le> length (episodes_of C E)" using episodes_prefix [of C E m] by auto
  then have room: "length ?eps + length (episodes_of C (drop k (take m E))) + 1 < capacity" using part assms(4) by linarith
  have "\<forall>e \<in> set (drop k (take m E)). \<forall>b. en_payload e = NormalEntry b \<longrightarrow> (\<exists>ep. dec_episode C b = Some ep \<and> admissible ep)"
    using assms(3) unfolding committed_ok_def by (meson in_set_dropD in_set_takeD)
  from episode_log.apply_appends [OF log this _ _ room assms(12)] i show ?thesis
    by (simp add: applied_state_def meta assms(6))
qed

theorem snapshot_while_replaying_duplicates_witness:
  "\<exists>meta leader' installed out resumed.
    build_snapshot list_api toy_sm toy_replaying = Some (Inr (meta, enc_lists [[5]]), leader')
    \<and> install_snapshot list_api toy_sm meta (enc_lists [[5]]) toy_follower = (Inr (), installed)
    \<and> apply_entries list_api toy_sm (drop 0 (take 2 toy_committed)) installed [] = (Inr out, resumed)
    \<and> es_log resumed = [[5], [5]]"
proof -
  obtain meta leader' where b: "build_snapshot list_api toy_sm toy_replaying = Some (Inr (meta, enc_lists [[5]]), leader')"
    using episode_log.build_snapshot_result [OF list_log, of toy_replaying "[[5]]" toy_sm "[[5]]" "enc_lists [[5]]"]
    by (auto simp: toy_replaying_def toy_sm_def)
  obtain installed where i: "install_snapshot list_api toy_sm meta (enc_lists [[5]]) toy_follower = (Inr (), installed)"
    and st: "es_log installed = [[5]]" "es_skip_normals installed = 0"
    by (simp add: install_snapshot_def toy_sm_def toy_follower_def list_api_def with_apply_hook_def new_sm_def
        persist_sm_meta_def call_hook_def)
  obtain out resumed where a: "apply_entries list_api toy_sm (drop 0 (take 2 toy_committed)) installed [] = (Inr out, resumed)"
    using st by (simp add: toy_committed_def apply_entry_def toy_sm_def list_api_def Let_def)
  have e: "episodes_of toy_sm (take 2 toy_committed) = [[5]]"
    by (simp add: episodes_of_def entry_episode_def toy_committed_def toy_sm_def)
  have "es_log resumed = [[5], [5]]"
    using snapshot_while_replaying_duplicates [OF list_log toy_sm_ok toy_committed_ok _ _ _ _ _ _ b i a, of "[[5]]"] e toy_episodes
    by (simp add: toy_replaying_def applied_at_def toy_sm_def toy_follower_def with_apply_hook_def new_sm_def)
  then show ?thesis using b i a by blast
qed

end
