(* ===== verification/Temporal_Graph.thy ===== *)
theory Temporal_Graph
  imports Ordered_Map V6_Merkle V6_Compress "HOL-Library.List_Lexorder"
begin

text \<open>
  \<open>heraclitus-index-graph/src/temporal.rs\<close>: the graph derived from the log, whose edges are opened and closed
  by events and can be asked for as of any LSN. A Rust \<open>String\<close> is its bytes, compared as Rust compares them. HOL
  has no 32-bit floating point: its operations are the parameter \<open>f32\<close>. \<open>entity_map\<close> and \<open>metrics\<close>, which
  nothing in the file writes, are left out.
\<close>

section \<open>Data\<close>

type_synonym str = bytes

record 'f f32 =
  f_zero :: 'f
  f_one :: 'f
  f_eps :: 'f
  f_add :: "'f \<Rightarrow> 'f \<Rightarrow> 'f"
  f_sub :: "'f \<Rightarrow> 'f \<Rightarrow> 'f"
  f_mul :: "'f \<Rightarrow> 'f \<Rightarrow> 'f"
  f_div :: "'f \<Rightarrow> 'f \<Rightarrow> 'f"
  f_neg :: "'f \<Rightarrow> 'f"
  f_ln :: "'f \<Rightarrow> 'f"
  f_exp :: "'f \<Rightarrow> 'f"
  f_sqrt :: "'f \<Rightarrow> 'f"
  f_clamp :: "'f \<Rightarrow> 'f \<Rightarrow> 'f \<Rightarrow> 'f"
  f_less :: "'f \<Rightarrow> 'f \<Rightarrow> bool"
  f_less_eq :: "'f \<Rightarrow> 'f \<Rightarrow> bool"
  f_of_u64 :: "u64 \<Rightarrow> 'f"
  f_bits :: "'f \<Rightarrow> u32"
  f_parse :: "str \<Rightarrow> 'f option"

datatype edge_type = FraudPartner | SocioDe | Pagou | SimilarA | NotRelated | CustomEdge str

text \<open>The order that \<open>derive(Ord)\<close> gives: by variant, then by the payload.\<close>

fun edge_type_rank :: "edge_type \<Rightarrow> nat \<times> str" where
  "edge_type_rank FraudPartner = (0, [])"
| "edge_type_rank SocioDe = (1, [])"
| "edge_type_rank Pagou = (2, [])"
| "edge_type_rank SimilarA = (3, [])"
| "edge_type_rank NotRelated = (4, [])"
| "edge_type_rank (CustomEdge s) = (5, s)"

lemma edge_type_rank_inj: "edge_type_rank a = edge_type_rank b \<Longrightarrow> a = b"
  by (cases a; cases b) auto

instantiation edge_type :: linorder
begin

definition less_eq_edge_type :: "edge_type \<Rightarrow> edge_type \<Rightarrow> bool" where
  "a \<le> b \<longleftrightarrow> fst (edge_type_rank a) < fst (edge_type_rank b)
     \<or> fst (edge_type_rank a) = fst (edge_type_rank b) \<and> snd (edge_type_rank a) \<le> snd (edge_type_rank b)"

definition less_edge_type :: "edge_type \<Rightarrow> edge_type \<Rightarrow> bool" where
  "(a :: edge_type) < b \<longleftrightarrow> a \<le> b \<and> \<not> b \<le> a"

instance
proof (intro_classes, goal_cases)
  case (4 x y)
  then have "edge_type_rank x = edge_type_rank y" by (auto simp: less_eq_edge_type_def prod_eq_iff)
  then show ?case by (rule edge_type_rank_inj)
qed (auto simp: less_eq_edge_type_def less_edge_type_def)

end

definition edge_polarity :: "'f f32 \<Rightarrow> edge_type \<Rightarrow> 'f" where
  "edge_polarity F t = (case t of NotRelated \<Rightarrow> f_neg F (f_one F) | _ \<Rightarrow> f_one F)"

definition edge_key :: "edge_type \<Rightarrow> str" where
  "edge_key t = (case t of FraudPartner \<Rightarrow> ascii ''fraud_partner'' | SocioDe \<Rightarrow> ascii ''socio_de'' | Pagou \<Rightarrow> ascii ''pagou''
     | SimilarA \<Rightarrow> ascii ''similar_a'' | NotRelated \<Rightarrow> ascii ''not_related'' | CustomEdge s \<Rightarrow> ascii ''custom:'' @ s)"

definition eq_ignore_ascii_case :: "str \<Rightarrow> str \<Rightarrow> bool" where
  "eq_ignore_ascii_case a b \<longleftrightarrow> to_ascii_lowercase a = to_ascii_lowercase b"

definition edge_type_of_attr :: "str \<Rightarrow> edge_type" where
  "edge_type_of_attr s = (let l = to_ascii_lowercase s in
     if l = ascii ''fraud_partner'' \<or> l = ascii ''fraudpartner'' then FraudPartner
     else if l = ascii ''socio_de'' \<or> l = ascii ''sociode'' then SocioDe
     else if l = ascii ''pagou'' then Pagou
     else if l = ascii ''similar_a'' \<or> l = ascii ''similara'' then SimilarA
     else if l = ascii ''not_related'' \<or> l = ascii ''notrelated'' then NotRelated
     else CustomEdge l)"

record 'f edge_version =
  ev_hypothesis_id :: str
  ev_confidence :: 'f
  ev_source :: str
  ev_provenance :: "str list"
  ev_polarity :: 'f
  ev_valid_from_lsn :: u64

record graph_edge =
  ed_id :: str
  ed_from :: str
  ed_to :: str
  ed_etype :: edge_type
  ed_valid_from_lsn :: u64
  ed_valid_to_lsn :: "u64 option"
  ed_world_valid_from :: "u64 option"
  ed_world_valid_to :: "u64 option"
  ed_closed_intervals :: "(u64 \<times> u64) list"

definition alive_at :: "graph_edge \<Rightarrow> u64 \<Rightarrow> bool" where
  "alive_at e at \<longleftrightarrow> (ed_valid_from_lsn e \<le> at \<and> (case ed_valid_to_lsn e of None \<Rightarrow> True | Some to \<Rightarrow> at < to))
     \<or> list_ex (\<lambda>(from, to). from \<le> at \<and> at < to) (ed_closed_intervals e)"

definition world_valid_at :: "graph_edge \<Rightarrow> u64 \<Rightarrow> bool" where
  "world_valid_at e t \<longleftrightarrow> (case ed_world_valid_from e of None \<Rightarrow> True | Some from \<Rightarrow> from \<le> t)
     \<and> (case ed_world_valid_to e of None \<Rightarrow> True | Some to \<Rightarrow> t < to)"

type_synonym adjacency = "(str, (edge_type, str list) ordered_map) ordered_map"

record 'f temporal_graph =
  tg_out :: adjacency
  tg_inn :: adjacency
  tg_edges :: "(str, graph_edge) ordered_map"
  tg_versions :: "(str, 'f edge_version list) ordered_map"
  tg_eps :: 'f
  tg_built_until_lsn :: u64
  tg_watermark :: u64

definition tg_new :: "'f f32 \<Rightarrow> 'f temporal_graph" where
  "tg_new F = \<lparr>tg_out = [], tg_inn = [], tg_edges = [], tg_versions = [], tg_eps = f_eps F, tg_built_until_lsn = 0,
     tg_watermark = 0\<rparr>"

section \<open>Belief (RFC-004) and decay (RFC-006)\<close>

definition logit :: "'f f32 \<Rightarrow> 'f \<Rightarrow> 'f \<Rightarrow> 'f" where
  "logit F eps p = (let p = f_clamp F p eps (f_sub F (f_one F) eps) in f_ln F (f_div F p (f_sub F (f_one F) p)))"

definition aggregate_as_of :: "'f f32 \<Rightarrow> 'f \<Rightarrow> 'f edge_version list \<Rightarrow> u64 \<Rightarrow> 'f" where
  "aggregate_as_of F eps versions as_of = (let vs = filter (\<lambda>v. ev_valid_from_lsn v \<le> as_of) versions in
     if vs = [] then f_zero F
     else (let vs = sort_key ev_hypothesis_id vs;
         sum = foldl (f_add F) (f_zero F) (map (\<lambda>v. f_mul F (ev_polarity v) (logit F eps (ev_confidence v))) vs) in
       f_div F (f_one F) (f_add F (f_one F) (f_exp F (f_neg F sum)))))"

definition decay :: "'f f32 \<Rightarrow> 'f \<Rightarrow> u64 \<Rightarrow> u64 \<Rightarrow> 'f" where
  "decay F lambda valid_from_lsn at_lsn =
     (let dt = f_of_u64 F (if at_lsn < valid_from_lsn then 0 else at_lsn - valid_from_lsn) in
      f_exp F (f_mul F (f_neg F lambda) dt))"

definition belief_at :: "'f f32 \<Rightarrow> 'f temporal_graph \<Rightarrow> str \<Rightarrow> u64 \<Rightarrow> 'f" where
  "belief_at F g edge_id as_of = (case map_of (tg_versions g) edge_id of
     None \<Rightarrow> f_zero F | Some vs \<Rightarrow> aggregate_as_of F (tg_eps g) vs as_of)"

definition hypotheses_at :: "'f temporal_graph \<Rightarrow> str \<Rightarrow> u64 \<Rightarrow> 'f edge_version list" where
  "hypotheses_at g edge_id as_of = (case map_of (tg_versions g) edge_id of
     None \<Rightarrow> [] | Some vs \<Rightarrow> filter (\<lambda>v. ev_valid_from_lsn v \<le> as_of) vs)"

section \<open>Changing the graph\<close>

definition add_version :: "'f edge_version list \<Rightarrow> 'f edge_version \<Rightarrow> 'f edge_version list" where
  "add_version entry v =
     (if list_ex (\<lambda>e. ev_hypothesis_id e = ev_hypothesis_id v) entry then entry else entry @ [v])"

definition link :: "str \<Rightarrow> edge_type \<Rightarrow> str \<Rightarrow> adjacency \<Rightarrow> adjacency" where
  "link node etype edge_id adj = om_modify node [] (om_modify etype [] (\<lambda>ids. ids @ [edge_id])) adj"

definition upsert_edge :: "graph_edge \<Rightarrow> 'f edge_version list \<Rightarrow> 'f temporal_graph \<Rightarrow> 'f temporal_graph" where
  "upsert_edge edge versions g =
     (let g = g\<lparr>tg_versions := om_modify (ed_id edge) [] (\<lambda>entry. sort_key ev_hypothesis_id (foldl add_version entry versions))
        (tg_versions g)\<rparr> in
      case map_of (tg_edges g) (ed_id edge) of
        Some existing \<Rightarrow> (case ed_valid_to_lsn existing of
            Some closed_at \<Rightarrow> g\<lparr>tg_edges := om_insert (ed_id edge) (existing\<lparr>
                ed_closed_intervals := ed_closed_intervals existing @ [(ed_valid_from_lsn existing, closed_at)],
                ed_valid_from_lsn := ed_valid_from_lsn edge, ed_valid_to_lsn := None,
                ed_world_valid_from := ed_world_valid_from edge, ed_world_valid_to := ed_world_valid_to edge\<rparr>) (tg_edges g),
              tg_built_until_lsn := max (tg_built_until_lsn g) (ed_valid_from_lsn edge)\<rparr>
          | None \<Rightarrow> g)
      | None \<Rightarrow> g\<lparr>tg_out := link (ed_from edge) (ed_etype edge) (ed_id edge) (tg_out g),
          tg_inn := link (ed_to edge) (ed_etype edge) (ed_id edge) (tg_inn g),
          tg_built_until_lsn := max (tg_built_until_lsn g) (ed_valid_from_lsn edge),
          tg_edges := om_insert (ed_id edge) edge (tg_edges g)\<rparr>)"

definition close_edge :: "str \<Rightarrow> u64 \<Rightarrow> 'f temporal_graph \<Rightarrow> 'f temporal_graph" where
  "close_edge edge_id at g = (case map_of (tg_edges g) edge_id of
     None \<Rightarrow> g
   | Some e \<Rightarrow> (case ed_valid_to_lsn e of
       None \<Rightarrow> g\<lparr>tg_edges := om_insert edge_id (e\<lparr>ed_valid_to_lsn := Some at\<rparr>) (tg_edges g)\<rparr>
     | Some _ \<Rightarrow> g))"

definition edge_id_of :: "str \<Rightarrow> str \<Rightarrow> edge_type \<Rightarrow> str" where
  "edge_id_of from to etype = from @ ascii ''->'' @ to @ ascii ''#'' @ edge_key etype"

section \<open>Events\<close>

text \<open>What the graph reads of an \<open>Episode\<close>. \<open>trim\<close> and \<open>parse::<u64>\<close> are the parameter \<open>pu\<close>.\<close>

record graph_episode =
  ge_id :: str
  ge_parents :: "str list"
  ge_attrs :: "str \<Rightarrow> str option"
  ge_valid_from :: "u64 option"
  ge_valid_to :: "u64 option"

definition or_else :: "'a option \<Rightarrow> 'a option \<Rightarrow> 'a option" where
  "or_else a b = (case a of None \<Rightarrow> b | Some _ \<Rightarrow> a)"

definition unwrap_or :: "'a option \<Rightarrow> 'a \<Rightarrow> 'a" where
  "unwrap_or a d = (case a of None \<Rightarrow> d | Some x \<Rightarrow> x)"

definition attr :: "graph_episode \<Rightarrow> string \<Rightarrow> str option" where
  "attr e k = ge_attrs e (ascii k)"

definition wnum :: "(str \<Rightarrow> u64 option) \<Rightarrow> graph_episode \<Rightarrow> string \<Rightarrow> u64 option" where
  "wnum pu e k = Option.bind (attr e k) pu"

definition episode_etype :: "graph_episode \<Rightarrow> edge_type" where
  "episode_etype e = (case attr e ''edge_type'' of Some s \<Rightarrow> edge_type_of_attr s | None \<Rightarrow> CustomEdge (ascii ''provenance''))"

definition episode_confidence :: "'f f32 \<Rightarrow> graph_episode \<Rightarrow> 'f" where
  "episode_confidence F e = unwrap_or (Option.bind (attr e ''confidence'') (f_parse F)) (f_one F)"

definition episode_source :: "graph_episode \<Rightarrow> str" where
  "episode_source e = unwrap_or (attr e ''rule'') (ascii ''provenance'')"

definition is_retract :: "graph_episode \<Rightarrow> bool" where
  "is_retract e = (let op = unwrap_or (attr e ''edge_op'') (ascii ''assert'') in
     eq_ignore_ascii_case op (ascii ''retract'') \<or> eq_ignore_ascii_case op (ascii ''close''))"

definition assert_explicit :: "'f f32 \<Rightarrow> (str \<Rightarrow> u64 option) \<Rightarrow> u64 \<Rightarrow> graph_episode \<Rightarrow> str \<Rightarrow> str
    \<Rightarrow> 'f temporal_graph \<Rightarrow> 'f temporal_graph" where
  "assert_explicit F pu lsn e from to g =
     (let etype = episode_etype e; edge_id = edge_id_of from to etype;
        hypothesis_id = unwrap_or (or_else (attr e ''hypothesis'') (attr e ''rule'')) edge_id;
        stance = unwrap_or (attr e ''stance'') (ascii ''support'');
        polarity = (if eq_ignore_ascii_case stance (ascii ''refute'') \<or> eq_ignore_ascii_case stance (ascii ''against'')
          then f_neg F (f_one F) else f_one F) in
      upsert_edge \<lparr>ed_id = edge_id, ed_from = from, ed_to = to, ed_etype = etype, ed_valid_from_lsn = lsn,
          ed_valid_to_lsn = None, ed_world_valid_from = or_else (ge_valid_from e) (wnum pu e ''valid_from''),
          ed_world_valid_to = or_else (ge_valid_to e) (wnum pu e ''valid_to''), ed_closed_intervals = []\<rparr>
        [\<lparr>ev_hypothesis_id = hypothesis_id, ev_confidence = episode_confidence F e, ev_source = episode_source e,
          ev_provenance = [ge_id e], ev_polarity = polarity, ev_valid_from_lsn = lsn\<rparr>] g)"

definition assert_parent :: "'f f32 \<Rightarrow> u64 \<Rightarrow> graph_episode \<Rightarrow> str \<Rightarrow> 'f temporal_graph \<Rightarrow> 'f temporal_graph" where
  "assert_parent F lsn e p g =
     (let etype = episode_etype e; child = ge_id e; edge_id = edge_id_of p child etype in
      upsert_edge \<lparr>ed_id = edge_id, ed_from = p, ed_to = child, ed_etype = etype, ed_valid_from_lsn = lsn,
          ed_valid_to_lsn = None, ed_world_valid_from = ge_valid_from e, ed_world_valid_to = ge_valid_to e,
          ed_closed_intervals = []\<rparr>
        [\<lparr>ev_hypothesis_id = edge_id, ev_confidence = episode_confidence F e, ev_source = episode_source e,
          ev_provenance = [child], ev_polarity = edge_polarity F etype, ev_valid_from_lsn = lsn\<rparr>] g)"

definition apply_episode :: "'f f32 \<Rightarrow> (str \<Rightarrow> u64 option) \<Rightarrow> u64 \<Rightarrow> graph_episode \<Rightarrow> 'f temporal_graph \<Rightarrow> 'f temporal_graph" where
  "apply_episode F pu lsn e g =
     (let g = (case (attr e ''edge_from'', attr e ''edge_to'') of
          (Some from, Some to) \<Rightarrow>
            if is_retract e then close_edge (edge_id_of from to (episode_etype e)) lsn g
            else assert_explicit F pu lsn e from to g
        | _ \<Rightarrow> foldl (\<lambda>g p. assert_parent F lsn e p g) g (ge_parents e)) in
      g\<lparr>tg_watermark := max (tg_watermark g) lsn\<rparr>)"

section \<open>Queries\<close>

record 'f neighbor =
  nb_edge_id :: str
  nb_to :: str
  nb_etype :: edge_type
  nb_belief :: 'f
  nb_weight :: 'f
  nb_lsn :: u64

definition edge_neighbor :: "'f f32 \<Rightarrow> 'f temporal_graph \<Rightarrow> u64 \<Rightarrow> 'f \<Rightarrow> 'f \<Rightarrow> edge_type \<Rightarrow> str \<Rightarrow> 'f neighbor list" where
  "edge_neighbor F g as_of min_confidence lambda t eid = (case map_of (tg_edges g) eid of
     None \<Rightarrow> []
   | Some edge \<Rightarrow>
     if \<not> alive_at edge as_of then []
     else (let belief = belief_at F g eid as_of in
       if f_less F belief min_confidence then []
       else [\<lparr>nb_edge_id = eid, nb_to = ed_to edge, nb_etype = t, nb_belief = belief,
         nb_weight = f_mul F belief (decay F lambda (ed_valid_from_lsn edge) as_of), nb_lsn = ed_valid_from_lsn edge\<rparr>]))"

definition neighbors :: "'f f32 \<Rightarrow> 'f temporal_graph \<Rightarrow> str \<Rightarrow> edge_type option \<Rightarrow> u64 \<Rightarrow> 'f \<Rightarrow> 'f \<Rightarrow> 'f neighbor list" where
  "neighbors F g node etype as_of min_confidence lambda = (case map_of (tg_out g) node of
     None \<Rightarrow> []
   | Some types \<Rightarrow> concat (map (\<lambda>(t, eids).
       if (case etype of Some want \<Rightarrow> want \<noteq> t | None \<Rightarrow> False) then []
       else concat (map (edge_neighbor F g as_of min_confidence lambda t) eids)) types))"

text \<open>\<open>traverse\<close>: the breadth-first search; \<open>visit\<close> is the body of its innermost loop.\<close>

fun visit :: "nat \<Rightarrow> str set \<times> (str \<times> nat) list \<times> str list \<Rightarrow> str \<Rightarrow> str set \<times> (str \<times> nat) list \<times> str list" where
  "visit depth (seen, result, next) to =
     (if to \<in> seen then (seen, result, next) else (insert to seen, result @ [(to, depth)], next @ [to]))"

fun traverse_levels :: "(str \<Rightarrow> str list) \<Rightarrow> nat \<Rightarrow> nat \<Rightarrow> str list \<Rightarrow> str set \<Rightarrow> (str \<times> nat) list \<Rightarrow> (str \<times> nat) list" where
  "traverse_levels succs 0 depth frontier seen result = result"
| "traverse_levels succs (Suc levels) depth frontier seen result =
     (case foldl (visit depth) (seen, result, []) (concat (map succs frontier)) of
       (seen, result, next) \<Rightarrow> if next = [] then result
         else traverse_levels succs levels (depth + 1) (sort next) seen result)"

definition traverse :: "'f f32 \<Rightarrow> 'f temporal_graph \<Rightarrow> str \<Rightarrow> nat \<Rightarrow> u64 \<Rightarrow> 'f \<Rightarrow> 'f \<Rightarrow> (str \<times> nat) list" where
  "traverse F g start max_depth as_of min_confidence lambda = traverse_levels
     (\<lambda>node. map nb_to (neighbors F g node None as_of min_confidence lambda)) max_depth 1 [start] {start} []"

record 'f edge_match =
  em_edge_id :: str
  em_from :: str
  em_to :: str
  em_etype :: edge_type
  em_belief :: 'f
  em_world_valid_from :: "u64 option"
  em_world_valid_to :: "u64 option"

definition consider_edge :: "'f f32 \<Rightarrow> 'f temporal_graph \<Rightarrow> edge_type option \<Rightarrow> str option \<Rightarrow> u64 \<Rightarrow> 'f \<Rightarrow> graph_edge
    \<Rightarrow> 'f edge_match list" where
  "consider_edge F g etype dst as_of min_confidence edge =
     (if \<not> alive_at edge as_of then []
      else if (case etype of Some want \<Rightarrow> want \<noteq> ed_etype edge | None \<Rightarrow> False) then []
      else if (case dst of Some d \<Rightarrow> ed_to edge \<noteq> d | None \<Rightarrow> False) then []
      else (let belief = belief_at F g (ed_id edge) as_of in
        if f_less F belief min_confidence then []
        else [\<lparr>em_edge_id = ed_id edge, em_from = ed_from edge, em_to = ed_to edge, em_etype = ed_etype edge,
          em_belief = belief, em_world_valid_from = ed_world_valid_from edge, em_world_valid_to = ed_world_valid_to edge\<rparr>]))"

definition match_edges :: "'f f32 \<Rightarrow> 'f temporal_graph \<Rightarrow> str option \<Rightarrow> edge_type option \<Rightarrow> str option \<Rightarrow> u64 \<Rightarrow> 'f
    \<Rightarrow> 'f edge_match list" where
  "match_edges F g src etype dst as_of min_confidence = (case src of
     Some s \<Rightarrow> (case map_of (tg_out g) s of
         None \<Rightarrow> []
       | Some types \<Rightarrow> concat (map (\<lambda>(t, eids). concat (map (\<lambda>eid. case map_of (tg_edges g) eid of
           None \<Rightarrow> [] | Some edge \<Rightarrow> consider_edge F g etype dst as_of min_confidence edge) eids)) types))
   | None \<Rightarrow> concat (map (\<lambda>(eid, edge). consider_edge F g etype dst as_of min_confidence edge) (tg_edges g)))"

definition count_alive :: "'f temporal_graph \<Rightarrow> adjacency \<Rightarrow> str \<Rightarrow> u64 \<Rightarrow> u32" where
  "count_alive g adj node as_of = (case map_of adj node of
     None \<Rightarrow> 0
   | Some types \<Rightarrow> word_of_nat (length (filter (\<lambda>eid. case map_of (tg_edges g) eid of
       None \<Rightarrow> False | Some e \<Rightarrow> alive_at e as_of) (concat (map snd types)))))"

definition degree_at :: "'f temporal_graph \<Rightarrow> str \<Rightarrow> u64 \<Rightarrow> u32" where
  "degree_at g node as_of = count_alive g (tg_out g) node as_of + count_alive g (tg_inn g) node as_of"

section \<open>Communities and metrics (\<open>analyze\<close>)\<close>

text \<open>A \<open>BTreeSet\<close> is a map to \<open>()\<close>. The stack of the search is a list whose head is its top.\<close>

type_synonym str_set = "(str, unit) ordered_map"

record graph_index =
  gi_nodes :: str_set
  gi_adj :: "(str, str_set) ordered_map"
  gi_degree :: "(str, u32) ordered_map"

definition alive_edges :: "'f f32 \<Rightarrow> 'f temporal_graph \<Rightarrow> u64 \<Rightarrow> 'f \<Rightarrow> graph_edge list" where
  "alive_edges F g as_of min_confidence = filter (\<lambda>e. alive_at e as_of
     \<and> f_less_eq F min_confidence (belief_at F g (ed_id e) as_of)) (map snd (tg_edges g))"

definition index_edge :: "graph_index \<Rightarrow> graph_edge \<Rightarrow> graph_index" where
  "index_edge x e = x\<lparr>gi_nodes := om_insert (ed_to e) () (om_insert (ed_from e) () (gi_nodes x)),
     gi_adj := om_modify (ed_to e) [] (om_insert (ed_from e) ()) (om_modify (ed_from e) [] (om_insert (ed_to e) ()) (gi_adj x)),
     gi_degree := om_modify (ed_to e) 0 (\<lambda>d. d + 1) (om_modify (ed_from e) 0 (\<lambda>d. d + 1) (gi_degree x))\<rparr>"

definition index_edges :: "graph_edge list \<Rightarrow> graph_index" where
  "index_edges es = foldl index_edge \<lparr>gi_nodes = [], gi_adj = [], gi_degree = []\<rparr> es"

fun label_neighbors :: "str \<Rightarrow> str list \<Rightarrow> str list \<Rightarrow> (str, str) ordered_map \<Rightarrow> str list \<times> (str, str) ordered_map" where
  "label_neighbors seed [] stack com = (stack, com)"
| "label_neighbors seed (m # neigh) stack com =
     (if map_of com m = None then label_neighbors seed neigh (m # stack) (om_insert m seed com)
      else label_neighbors seed neigh stack com)"

lemma label_neighbors_grows:
  "label_neighbors seed neigh stack com = (stack', com') \<Longrightarrow> \<exists>pushed. stack' = pushed @ stack \<and> distinct pushed
    \<and> set pushed = set neigh - dom (map_of com)
    \<and> map_of com' = (\<lambda>x. if x \<in> set pushed then Some seed else map_of com x)"
proof (induction neigh arbitrary: stack com)
  case (Cons m neigh)
  show ?case
  proof (cases "map_of com m")
    case None
    then have "label_neighbors seed neigh (m # stack) (om_insert m seed com) = (stack', com')" using Cons.prems by simp
    from Cons.IH [OF this] obtain pushed where p: "stack' = pushed @ m # stack" "distinct pushed"
      "set pushed = set neigh - dom (map_of (om_insert m seed com))"
      "map_of com' = (\<lambda>x. if x \<in> set pushed then Some seed else map_of (om_insert m seed com) x)" by blast
    show ?thesis
      by (rule exI [of _ "pushed @ [m]"]) (use p None in \<open>auto simp: map_of_om_insert fun_eq_iff\<close>)
  next
    case (Some l)
    then have "label_neighbors seed neigh stack com = (stack', com')" using Cons.prems by simp
    from Cons.IH [OF this] obtain pushed where "stack' = pushed @ stack" "distinct pushed"
      "set pushed = set neigh - dom (map_of com)" "map_of com' = (\<lambda>x. if x \<in> set pushed then Some seed else map_of com x)" by blast
    then show ?thesis using Some by (intro exI [of _ pushed]) auto
  qed
qed auto

text \<open>Every push labels a node that was not labelled: these are the nodes that remain.\<close>

definition unlabelled :: "(str, str_set) ordered_map \<Rightarrow> (str, str) ordered_map \<Rightarrow> str set" where
  "unlabelled adj com = (\<Union>(n, neigh) \<in> set adj. fst ` set neigh) - dom (map_of com)"

function label_component :: "(str, str_set) ordered_map \<Rightarrow> str \<Rightarrow> str list \<Rightarrow> (str, str) ordered_map \<Rightarrow> (str, str) ordered_map" where
  "label_component adj seed [] com = com"
| "label_component adj seed (n # stack) com = (case map_of adj n of
     None \<Rightarrow> label_component adj seed stack com
   | Some neigh \<Rightarrow> (case label_neighbors seed (map fst neigh) stack com of
       (stack, com) \<Rightarrow> label_component adj seed stack com))"
  by pat_completeness auto

termination
proof (relation "measure (\<lambda>(adj, seed, stack, com). 2 * card (unlabelled adj com) + length stack)", goal_cases)
  case (3 adj seed n stack com neigh stack' com')
  then obtain pushed where g: "stack' = pushed @ stack" "distinct pushed" "set pushed = set (map fst neigh) - dom (map_of com)"
    "map_of com' = (\<lambda>x. if x \<in> set pushed then Some seed else map_of com x)"
    using label_neighbors_grows [of seed "map fst neigh" stack com stack' com'] by auto
  have fin: "finite (unlabelled adj com)"
    unfolding unlabelled_def by (intro finite_Diff finite_UN_I) (auto split: prod.split)
  have "(n, neigh) \<in> set adj" by (rule map_of_SomeD [OF 3(1)])
  then have sub: "set pushed \<subseteq> unlabelled adj com" using g(3) by (force simp: unlabelled_def)
  have "unlabelled adj com' = unlabelled adj com - set pushed"
    unfolding unlabelled_def g(4) by (auto split: if_splits)
  then have "card (unlabelled adj com') = card (unlabelled adj com) - length pushed"
    using card_Diff_subset [OF _ sub] g(2) by (simp add: distinct_card)
  moreover have "length pushed \<le> card (unlabelled adj com)"
    using card_mono [OF fin sub] g(2) by (simp add: distinct_card)
  ultimately show ?case using g(1) by simp
qed simp_all

fun label_communities :: "(str, str_set) ordered_map \<Rightarrow> str list \<Rightarrow> (str, str) ordered_map \<Rightarrow> (str, str) ordered_map" where
  "label_communities adj [] com = com"
| "label_communities adj (seed # seeds) com =
     (if map_of com seed \<noteq> None then label_communities adj seeds com
      else label_communities adj seeds (label_component adj seed [seed] (om_insert seed seed com)))"

record 'f node_metrics =
  nm_degree :: u32
  nm_centrality :: 'f
  nm_anomaly_score :: 'f
  nm_computed_at_lsn :: u64

definition metrics_of :: "'f f32 \<Rightarrow> graph_index \<Rightarrow> u64 \<Rightarrow> (str, 'f node_metrics) ordered_map" where
  "metrics_of F x as_of =
     (let nodes = map fst (gi_nodes x); n = f_of_u64 F (word_of_nat (length nodes));
        degree = (\<lambda>node. unwrap_or (map_of (gi_degree x) node) 0); degf = (\<lambda>node. f_of_u64 F (ucast (degree node)));
        degs = map degf nodes;
        mean = (if nodes \<noteq> [] then f_div F (foldl (f_add F) (f_zero F) degs) n else f_zero F);
        var = (if nodes \<noteq> [] then f_div F (foldl (f_add F) (f_zero F)
            (map (\<lambda>d. f_mul F (f_sub F d mean) (f_sub F d mean)) degs)) n else f_zero F);
        std = f_sqrt F var in
      foldl (\<lambda>m node. om_insert node
          \<lparr>nm_degree = degree node,
           nm_centrality = (if length nodes > 1 then f_div F (degf node) (f_sub F n (f_one F)) else f_zero F),
           nm_anomaly_score = (if f_less F (f_zero F) std then f_div F (f_sub F (degf node) mean) std else f_zero F),
           nm_computed_at_lsn = as_of\<rparr> m) [] nodes)"

definition analyze :: "'f f32 \<Rightarrow> 'f temporal_graph \<Rightarrow> u64 \<Rightarrow> 'f
    \<Rightarrow> (str, str) ordered_map \<times> (str, 'f node_metrics) ordered_map" where
  "analyze F g as_of min_confidence =
     (let x = index_edges (alive_edges F g as_of min_confidence) in
      (label_communities (gi_adj x) (map fst (gi_nodes x)) [], metrics_of F x as_of))"

definition community_members :: "(str, str) ordered_map \<Rightarrow> str \<Rightarrow> str list" where
  "community_members com c = map fst (filter (\<lambda>(n, l). l = c) com)"

section \<open>State hash\<close>

definition edge_hash_bytes :: "str \<times> graph_edge \<Rightarrow> bytes" where
  "edge_hash_bytes p = (case p of (i, e) \<Rightarrow> i @ ed_from e @ ed_to e @ edge_key (ed_etype e)
     @ to_le_bytes (ed_valid_from_lsn e) @ to_le_bytes (unwrap_or (ed_valid_to_lsn e) (-1))
     @ concat (map (\<lambda>(from, to). to_le_bytes from @ to_le_bytes to) (ed_closed_intervals e)))"

definition version_hash_bytes :: "'f f32 \<Rightarrow> 'f edge_version \<Rightarrow> bytes" where
  "version_hash_bytes F v = ev_hypothesis_id v @ to_le_bytes (f_bits F (ev_confidence v)) @ ev_source v
     @ to_le_bytes (f_bits F (ev_polarity v)) @ to_le_bytes (ev_valid_from_lsn v) @ concat (ev_provenance v)"

definition tg_state_hash :: "'f f32 \<Rightarrow> hash_fn \<Rightarrow> 'f temporal_graph \<Rightarrow> bytes" where
  "tg_state_hash F H g = H (concat (map edge_hash_bytes (tg_edges g))
     @ concat (map (\<lambda>(i, vs). i @ concat (map (version_hash_bytes F) vs)) (tg_versions g)))"

end
