(* ===== verification/Temporal_Graph_Time.thy ===== *)
theory Temporal_Graph_Time
  imports Temporal_Graph
begin

text \<open>
  Time travel in the derived graph: what is alive as of an LSN is decided by the events up to it, and later
  events do not change it.
\<close>

section \<open>What an event does to the edges\<close>

definition edge_ops :: "graph_episode \<Rightarrow> (str \<times> bool) list" where
  "edge_ops e = (case (attr e ''edge_from'', attr e ''edge_to'') of
     (Some from, Some to) \<Rightarrow> [(edge_id_of from to (episode_etype e), \<not> is_retract e)]
   | _ \<Rightarrow> map (\<lambda>p. (edge_id_of p (ge_id e) (episode_etype e), True)) (ge_parents e))"

definition graph_of :: "'f f32 \<Rightarrow> (str \<Rightarrow> u64 option) \<Rightarrow> (u64 \<times> graph_episode) list \<Rightarrow> 'f temporal_graph" where
  "graph_of F pu evs = foldl (\<lambda>g (lsn, e). apply_episode F pu lsn e g) (tg_new F) evs"

text \<open>The specification: an edge is alive when the last event up to \<open>at\<close> that speaks of it asserts it.\<close>

definition asserted_as_of :: "(u64 \<times> graph_episode) list \<Rightarrow> str \<Rightarrow> u64 \<Rightarrow> bool" where
  "asserted_as_of evs i at = (let ops = filter (\<lambda>(j, b). j = i) (concat (map (\<lambda>(lsn, e). edge_ops e) (filter (\<lambda>(lsn, e). lsn \<le> at) evs)))
     in ops \<noteq> [] \<and> snd (last ops))"

definition edge_alive :: "'f temporal_graph \<Rightarrow> str \<Rightarrow> u64 \<Rightarrow> bool" where
  "edge_alive g i at = (case map_of (tg_edges g) i of None \<Rightarrow> False | Some e \<Rightarrow> alive_at e at)"

text \<open>No time of the graph is later than \<open>L\<close>, edges are filed under their ids, and its maps are ordered.\<close>

definition edge_times_ok :: "u64 \<Rightarrow> graph_edge \<Rightarrow> bool" where
  "edge_times_ok L e \<longleftrightarrow> ed_valid_from_lsn e \<le> L \<and> (\<forall>t. ed_valid_to_lsn e = Some t \<longrightarrow> t \<le> L)
     \<and> (\<forall>p \<in> set (ed_closed_intervals e). snd p \<le> L)"

definition adjacency_ok :: "adjacency \<Rightarrow> bool" where
  "adjacency_ok adj \<longleftrightarrow> om_ok adj \<and> (\<forall>n types. map_of adj n = Some types \<longrightarrow> om_ok types)"

definition graph_ok :: "u64 \<Rightarrow> 'f temporal_graph \<Rightarrow> bool" where
  "graph_ok L g \<longleftrightarrow> (\<forall>i e. map_of (tg_edges g) i = Some e \<longrightarrow> edge_times_ok L e \<and> ed_id e = i) \<and> om_ok (tg_edges g)
     \<and> adjacency_ok (tg_out g) \<and> adjacency_ok (tg_inn g)"

lemma graph_ok_mono: "graph_ok L g \<Longrightarrow> L \<le> L' \<Longrightarrow> graph_ok L' g"
  by (fastforce simp: graph_ok_def edge_times_ok_def intro: order_trans)

text \<open>The edge that an event asserts: it starts now and is open.\<close>

definition fresh_edge :: "u64 \<Rightarrow> graph_edge \<Rightarrow> bool" where
  "fresh_edge lsn e \<longleftrightarrow> ed_valid_from_lsn e = lsn \<and> ed_valid_to_lsn e = None \<and> ed_closed_intervals e = []"

definition reopened :: "graph_edge \<Rightarrow> u64 \<Rightarrow> graph_edge \<Rightarrow> graph_edge" where
  "reopened old closed_at new = old\<lparr>ed_closed_intervals := ed_closed_intervals old @ [(ed_valid_from_lsn old, closed_at)],
     ed_valid_from_lsn := ed_valid_from_lsn new, ed_valid_to_lsn := None,
     ed_world_valid_from := ed_world_valid_from new, ed_world_valid_to := ed_world_valid_to new\<rparr>"

definition asserted_edge :: "graph_edge option \<Rightarrow> graph_edge \<Rightarrow> graph_edge" where
  "asserted_edge old new = (case old of None \<Rightarrow> new | Some e \<Rightarrow> (case ed_valid_to_lsn e of None \<Rightarrow> e | Some c \<Rightarrow> reopened e c new))"

definition closed_edge :: "u64 \<Rightarrow> graph_edge \<Rightarrow> graph_edge" where
  "closed_edge lsn e = (if ed_valid_to_lsn e = None then e\<lparr>ed_valid_to_lsn := Some lsn\<rparr> else e)"

lemma upsert_edges: "map_of (tg_edges (upsert_edge new vs g)) =
    (map_of (tg_edges g))(ed_id new \<mapsto> asserted_edge (map_of (tg_edges g) (ed_id new)) new)"
  by (auto simp: upsert_edge_def asserted_edge_def reopened_def Let_def om_simps split: option.splits)

lemma close_edges: "map_of (tg_edges (close_edge i lsn g)) =
    (case map_of (tg_edges g) i of None \<Rightarrow> map_of (tg_edges g) | Some e \<Rightarrow> (map_of (tg_edges g))(i \<mapsto> closed_edge lsn e))"
  by (auto simp: close_edge_def closed_edge_def om_simps split: option.splits)

lemma upsert_lists:
  "tg_out (upsert_edge new vs g) = (if map_of (tg_edges g) (ed_id new) = None
     then link (ed_from new) (ed_etype new) (ed_id new) (tg_out g) else tg_out g)"
  "tg_inn (upsert_edge new vs g) = (if map_of (tg_edges g) (ed_id new) = None
     then link (ed_to new) (ed_etype new) (ed_id new) (tg_inn g) else tg_inn g)"
  "om_ok (tg_edges g) \<Longrightarrow> om_ok (tg_edges (upsert_edge new vs g))"
  "tg_out (close_edge i lsn g) = tg_out g" "tg_inn (close_edge i lsn g) = tg_inn g" "om_ok (tg_edges g) \<Longrightarrow> om_ok (tg_edges (close_edge i lsn g))"
  by (auto simp: upsert_edge_def close_edge_def Let_def split: option.splits)

lemma link_ok:
  assumes "adjacency_ok adj"
  shows "adjacency_ok (link a t i adj)"
  using assms by (auto simp: link_def adjacency_ok_def om_simps split: option.splits)

lemma edge_ok_asserted:
  assumes "\<forall>e. old = Some e \<longrightarrow> edge_times_ok lsn e \<and> ed_id e = ed_id new" and "fresh_edge lsn new"
  shows "edge_times_ok lsn (asserted_edge old new) \<and> ed_id (asserted_edge old new) = ed_id new"
proof (cases old)
  case None
  then show ?thesis using assms(2) by (simp add: asserted_edge_def edge_times_ok_def fresh_edge_def)
next
  case (Some e)
  then have e: "edge_times_ok lsn e" "ed_id e = ed_id new" using assms(1) by simp_all
  show ?thesis
  proof (cases "ed_valid_to_lsn e")
    case None
    then show ?thesis using e by (simp add: asserted_edge_def Some)
  next
    case (Some c)
    then show ?thesis using e assms(2) \<open>old = Some e\<close>
      by (auto simp: asserted_edge_def reopened_def edge_times_ok_def fresh_edge_def)
  qed
qed

lemma edge_ok_closed: "edge_times_ok lsn e \<Longrightarrow> edge_times_ok lsn (closed_edge lsn e) \<and> ed_id (closed_edge lsn e) = ed_id e"
  by (auto simp: closed_edge_def edge_times_ok_def)

lemma graph_ok_upsert:
  assumes ok: "graph_ok L g" and "L \<le> lsn" and new: "fresh_edge lsn new"
  shows "graph_ok lsn (upsert_edge new vs g)"
proof -
  have ok': "graph_ok lsn g" using graph_ok_mono assms(1,2) .
  have "edge_times_ok lsn e \<and> ed_id e = i" if "map_of (tg_edges (upsert_edge new vs g)) i = Some e" for i e
    using that ok' edge_ok_asserted [OF _ new] by (auto simp: upsert_edges graph_ok_def split: if_splits)
  then show ?thesis using ok upsert_lists(1,2,3) [where new = new and g = g and vs = vs] link_ok by (simp add: graph_ok_def)
qed

lemma graph_ok_close:
  assumes ok: "graph_ok L g" and "L \<le> lsn"
  shows "graph_ok lsn (close_edge i lsn g)"
proof -
  have ok': "graph_ok lsn g" using graph_ok_mono assms .
  have "edge_times_ok lsn e \<and> ed_id e = j" if "map_of (tg_edges (close_edge i lsn g)) j = Some e" for j e
    using that ok' edge_ok_closed by (auto simp: close_edges graph_ok_def split: if_splits option.splits)
  then show ?thesis using ok upsert_lists(4,5,6) [where i = i and g = g and lsn = lsn] by (simp add: graph_ok_def)
qed

section \<open>Alive as of\<close>

lemma alive_asserted:
  assumes "edge_times_ok L e" and "L \<le> lsn" and "fresh_edge lsn new"
  shows "alive_at (asserted_edge (Some e) new) at = (if at < lsn then alive_at e at else True)"
proof (cases "ed_valid_to_lsn e")
  case None
  then show ?thesis using assms by (auto simp: asserted_edge_def alive_at_def edge_times_ok_def fresh_edge_def)
next
  case (Some c)
  then show ?thesis using assms
    by (auto simp: asserted_edge_def alive_at_def reopened_def edge_times_ok_def fresh_edge_def list_ex_iff)
qed

lemma alive_closed:
  assumes "edge_times_ok L e" and "L \<le> lsn"
  shows "alive_at (closed_edge lsn e) at = (if at < lsn then alive_at e at else False)"
  using assms by (auto simp: closed_edge_def alive_at_def edge_times_ok_def list_ex_iff)

lemma alive_upsert:
  assumes "graph_ok L g" and "L \<le> lsn" and "fresh_edge lsn new"
  shows "edge_alive (upsert_edge new vs g) j at = (if at < lsn \<or> j \<noteq> ed_id new then edge_alive g j at else True)"
proof (cases "map_of (tg_edges g) (ed_id new)")
  case None
  then show ?thesis using assms(3) by (auto simp: edge_alive_def upsert_edges asserted_edge_def alive_at_def fresh_edge_def)
next
  case (Some e)
  then have "edge_times_ok L e" using assms(1) by (simp add: graph_ok_def)
  from alive_asserted [OF this assms(2,3)] Some show ?thesis by (simp add: edge_alive_def upsert_edges)
qed

lemma alive_close:
  assumes "graph_ok L g" and "L \<le> lsn"
  shows "edge_alive (close_edge i lsn g) j at = (if at < lsn \<or> j \<noteq> i then edge_alive g j at else False)"
proof (cases "map_of (tg_edges g) i")
  case None
  then show ?thesis by (auto simp: edge_alive_def close_edges)
next
  case (Some e)
  then have "edge_times_ok L e" using assms(1) by (simp add: graph_ok_def)
  from alive_closed [OF this assms(2)] Some show ?thesis by (simp add: edge_alive_def close_edges)
qed

text \<open>A property of the graph that every elementary change keeps is kept by an event.\<close>

lemma apply_episode_cases:
  assumes mark: "\<And>g w. P g \<Longrightarrow> P (g\<lparr>tg_watermark := w\<rparr>)"
    and up: "\<And>g new vs. P g \<Longrightarrow> fresh_edge lsn new \<Longrightarrow> \<forall>v \<in> set vs. ev_valid_from_lsn v = lsn \<Longrightarrow> P (upsert_edge new vs g)"
    and cl: "\<And>g i. P g \<Longrightarrow> P (close_edge i lsn g)" and g: "P g"
  shows "P (apply_episode F pu lsn e g)"
proof -
  have par: "P (assert_parent F lsn e p g)" if "P g" for p g
    unfolding assert_parent_def Let_def by (rule up [OF that]) (simp_all add: fresh_edge_def)
  have pars: "P (foldl (\<lambda>g p. assert_parent F lsn e p g) g ps)" if "P g" for ps g
    using that by (induction ps arbitrary: g) (auto intro: par)
  have ex: "P (assert_explicit F pu lsn e a b g)" if "P g" for a b g
    unfolding assert_explicit_def Let_def by (rule up [OF that]) (simp_all add: fresh_edge_def)
  show ?thesis unfolding apply_episode_def Let_def
    by (rule mark) (auto simp: g intro: pars ex cl split: option.split)
qed

lemma graph_ok_apply:
  assumes "graph_ok L g" and "L \<le> lsn"
  shows "graph_ok lsn (apply_episode F pu lsn e g)"
proof (rule apply_episode_cases [where P = "graph_ok lsn"])
  show "graph_ok lsn (g\<lparr>tg_watermark := w\<rparr>)" if "graph_ok lsn g" for g :: "'a temporal_graph" and w
    using that by (simp add: graph_ok_def)
qed (use graph_ok_mono [OF assms] graph_ok_upsert [OF _ order_refl] graph_ok_close [OF _ order_refl] in auto)

lemma alive_apply:
  assumes "graph_ok L g" and "L \<le> lsn"
  shows "edge_alive (apply_episode F pu lsn e g) i at = (if at < lsn then edge_alive g i at
    else let ops = filter (\<lambda>(j, b). j = i) (edge_ops e) in if ops = [] then edge_alive g i at else snd (last ops))"
proof -
  have wm: "edge_alive (g\<lparr>tg_watermark := w\<rparr>) i at = edge_alive g i at" for g :: "'a temporal_graph" and w
    by (simp add: edge_alive_def)
  have ok: "graph_ok lsn g" using graph_ok_mono assms .
  show ?thesis
  proof (cases "attr e ''edge_from'' \<noteq> None \<and> attr e ''edge_to'' \<noteq> None")
    case True
    then obtain a b where ab: "attr e ''edge_from'' = Some a" "attr e ''edge_to'' = Some b" by auto
    show ?thesis
      using alive_upsert [OF ok order_refl] alive_close [OF ok order_refl]
      by (auto simp: apply_episode_def edge_ops_def ab Let_def wm assert_explicit_def fresh_edge_def)
  next
    case False
    let ?id = "\<lambda>p. edge_id_of p (ge_id e) (episode_etype e)"
    have one: "edge_alive (assert_parent F lsn e p g) i at = (if at < lsn \<or> i \<noteq> ?id p then edge_alive g i at else True)
        \<and> graph_ok lsn (assert_parent F lsn e p g)" if "graph_ok lsn g" for p g
      unfolding assert_parent_def Let_def
      by (intro conjI alive_upsert [OF that order_refl, THEN trans] graph_ok_upsert [OF that order_refl]) (simp_all add: fresh_edge_def)
    have "edge_alive (foldl (\<lambda>g p. assert_parent F lsn e p g) g ps) i at
        = (if at < lsn then edge_alive g i at else if \<exists>p \<in> set ps. ?id p = i then True else edge_alive g i at)" if "graph_ok lsn g" for ps g
      using that by (induction ps arbitrary: g) (auto simp: one)
    moreover have "edge_ops e = map (\<lambda>p. (?id p, True)) (ge_parents e)"
      using False by (auto simp: edge_ops_def split: option.splits)
    moreover have "apply_episode F pu lsn e g = (foldl (\<lambda>g p. assert_parent F lsn e p g) g (ge_parents e))
        \<lparr>tg_watermark := max (tg_watermark (foldl (\<lambda>g p. assert_parent F lsn e p g) g (ge_parents e))) lsn\<rparr>"
      using False by (auto simp: apply_episode_def Let_def split: option.splits)
    moreover have "snd (last (filter (\<lambda>(j, b). j = i) (map (\<lambda>p. (?id p, True)) ps)))"
      if "filter (\<lambda>(j, b). j = i) (map (\<lambda>p. (?id p, True)) ps) \<noteq> []" for ps
      using last_in_set [OF that] by auto
    moreover have "filter (\<lambda>(j, b). j = i) (map (\<lambda>p. (?id p, True)) ps) = [] \<longleftrightarrow> \<not> (\<exists>p \<in> set ps. ?id p = i)" for ps
      by (auto simp: filter_empty_conv)
    ultimately show ?thesis using ok by (simp add: wm Let_def)
  qed
qed

lemma graph_ok_of: "sorted (map fst evs) \<Longrightarrow> (\<forall>(l, e) \<in> set evs. l \<le> L) \<Longrightarrow> graph_ok L (graph_of F pu evs)"
proof (induction evs arbitrary: L rule: rev_induct)
  case Nil
  then show ?case by (simp add: graph_of_def tg_new_def graph_ok_def adjacency_ok_def)
next
  case (snoc p evs)
  obtain l e where p: "p = (l, e)" by fastforce
  have "graph_ok l (graph_of F pu evs)" by (rule snoc.IH) (use snoc.prems in \<open>auto simp: p sorted_append\<close>)
  then have "graph_ok l (apply_episode F pu l e (graph_of F pu evs))" by (rule graph_ok_apply) simp
  then have "graph_ok l (graph_of F pu (evs @ [p]))" by (simp add: graph_of_def p)
  then show ?case using snoc.prems by (auto simp: p intro: graph_ok_mono)
qed

lemma asserted_snoc: "asserted_as_of (evs @ [(l, e)]) i at = (if at < l then asserted_as_of evs i at
    else let ops = filter (\<lambda>(j, b). j = i) (edge_ops e) in if ops = [] then asserted_as_of evs i at else snd (last ops))"
  by (auto simp: asserted_as_of_def Let_def)

lemma alive_of: "sorted (map fst evs) \<Longrightarrow> edge_alive (graph_of F pu evs) i at = asserted_as_of evs i at"
proof (induction evs rule: rev_induct)
  case Nil
  then show ?case by (simp add: graph_of_def tg_new_def edge_alive_def asserted_as_of_def)
next
  case (snoc p evs)
  obtain l e where p: "p = (l, e)" by fastforce
  have before_l: "\<forall>(k, e) \<in> set evs. k \<le> l" and s: "sorted (map fst evs)"
    using snoc.prems by (auto simp: p sorted_append)
  have "edge_alive (graph_of F pu (evs @ [p])) i at = (if at < l then edge_alive (graph_of F pu evs) i at
      else let ops = filter (\<lambda>(j, b). j = i) (edge_ops e) in if ops = [] then edge_alive (graph_of F pu evs) i at else snd (last ops))"
    using alive_apply [OF graph_ok_of [OF s before_l] order_refl, where F = F and pu = pu] by (simp add: graph_of_def p)
  then show ?case by (simp add: snoc.IH [OF s] p asserted_snoc)
qed

end
