(* ===== verification/Temporal_Graph_Stable.thy ===== *)
theory Temporal_Graph_Stable
  imports Temporal_Graph_Time
begin

text \<open>
  A question asked as of an LSN has the same answer after any later events.
\<close>

section \<open>What queries list\<close>

definition edge_core :: "graph_edge \<Rightarrow> str \<times> str \<times> str \<times> edge_type" where
  "edge_core e = (ed_id e, ed_from e, ed_to e, ed_etype e)"

text \<open>An answer about one edge that says nothing of dead edges and reads no times: the answers of the queries are such.\<close>

definition timeless :: "u64 \<Rightarrow> (edge_type \<Rightarrow> graph_edge \<Rightarrow> 'x list) \<Rightarrow> bool" where
  "timeless at h \<longleftrightarrow> (\<forall>t e. \<not> alive_at e at \<longrightarrow> h t e = [])
     \<and> (\<forall>t e e'. edge_core e = edge_core e' \<longrightarrow> alive_at e at = alive_at e' at \<longrightarrow> h t e = h t e')"

definition listed :: "(str \<Rightarrow> graph_edge option) \<Rightarrow> adjacency \<Rightarrow> str \<Rightarrow> (edge_type \<Rightarrow> graph_edge \<Rightarrow> 'x list) \<Rightarrow> 'x list" where
  "listed edges adj node h = (case map_of adj node of
     None \<Rightarrow> []
   | Some types \<Rightarrow> concat (map (\<lambda>(t, eids). concat (map (\<lambda>eid. case edges eid of None \<Rightarrow> [] | Some e \<Rightarrow> h t e) eids)) types))"

definition stable_at :: "u64 \<Rightarrow> 'f temporal_graph \<Rightarrow> 'f temporal_graph \<Rightarrow> bool" where
  "stable_at at g g' \<longleftrightarrow> tg_eps g' = tg_eps g
     \<and> (\<forall>i. sort_key ev_hypothesis_id (filter (\<lambda>v. ev_valid_from_lsn v \<le> at) (unwrap_or (map_of (tg_versions g') i) []))
         = sort_key ev_hypothesis_id (filter (\<lambda>v. ev_valid_from_lsn v \<le> at) (unwrap_or (map_of (tg_versions g) i) [])))
     \<and> (\<forall>h :: edge_type \<Rightarrow> graph_edge \<Rightarrow> (str \<times> str \<times> str \<times> edge_type) list. timeless at h \<longrightarrow>
         concat (map (\<lambda>(i, e). h (ed_etype e) e) (tg_edges g')) = concat (map (\<lambda>(i, e). h (ed_etype e) e) (tg_edges g))
       \<and> (\<forall>n. listed (map_of (tg_edges g')) (tg_out g') n h = listed (map_of (tg_edges g)) (tg_out g) n h
            \<and> listed (map_of (tg_edges g')) (tg_inn g') n h = listed (map_of (tg_edges g)) (tg_inn g) n h))"

lemma listed_cong:
  assumes "\<And>t eid. (case edges' eid of None \<Rightarrow> [] | Some e \<Rightarrow> h t e) = (case edges eid of None \<Rightarrow> [] | Some e \<Rightarrow> h t e)"
  shows "listed edges' adj n h = listed edges adj n h"
  by (simp only: listed_def assms)

lemma listed_link:
  assumes ok: "adjacency_ok adj" and none: "\<And>t. (case edges i of None \<Rightarrow> [] | Some e \<Rightarrow> h t e) = []"
  shows "listed edges (link node etype i adj) n h = listed edges adj n h"
proof (cases "n = node")
  case False
  then show ?thesis by (simp add: listed_def link_def om_simps)
next
  case True
  let ?H = "\<lambda>(t, eids). concat (map (\<lambda>eid. case edges eid of None \<Rightarrow> [] | Some e \<Rightarrow> h t e) eids)"
  have "concat (map ?H (om_modify etype [] (\<lambda>ids. ids @ [i]) types)) = concat (map ?H types)" if "om_ok types" for types
    unfolding om_modify_def by (rule concat_om_insert [OF that]) (simp add: none split: option.split)
  then show ?thesis using ok True by (auto simp: listed_def link_def om_simps adjacency_ok_def om_modify_def [of etype] none split: option.split)
qed

lemma stable_refl: "stable_at at g g"
  by (simp add: stable_at_def)

lemma stable_trans: "stable_at at g g' \<Longrightarrow> stable_at at g' g'' \<Longrightarrow> stable_at at g g''"
  by (simp add: stable_at_def)

lemma stable_watermark: "stable_at at g (g'\<lparr>tg_watermark := w\<rparr>) = stable_at at g g'"
  by (simp add: stable_at_def)

section \<open>Later events\<close>

text \<open>Any change of one edge that keeps what it is and whether it was alive.\<close>

lemma stable_edges:
  assumes ok: "graph_ok L g" and h: "timeless at h" and e: "map_of edges' = (map_of (tg_edges g))(i \<mapsto> e')"
    and l: "edges' = om_insert i e' (tg_edges g)"
    and keep: "case map_of (tg_edges g) i of None \<Rightarrow> \<not> alive_at e' at
      | Some e \<Rightarrow> edge_core e' = edge_core e \<and> alive_at e' at = alive_at e at"
  shows "concat (map (\<lambda>(i, e). h (ed_etype e) e) edges') = concat (map (\<lambda>(i, e). h (ed_etype e) e) (tg_edges g))"
    and "listed (map_of edges') adj n h = listed (map_of (tg_edges g)) adj n h"
proof -
  have same: "(case map_of (tg_edges g) i of None \<Rightarrow> [] | Some e \<Rightarrow> h t e) = h t e'" for t
  proof (cases "map_of (tg_edges g) i")
    case None
    then show ?thesis using h keep by (simp add: timeless_def)
  next
    case (Some e)
    then have "edge_core e = edge_core e'" "alive_at e at = alive_at e' at" using keep by simp_all
    then have "h t e = h t e'" using h unfolding timeless_def by blast
    then show ?thesis using Some by simp
  qed
  show "listed (map_of edges') adj n h = listed (map_of (tg_edges g)) adj n h"
    by (rule listed_cong) (simp add: e same)
  have "ed_etype e' = ed_etype e" if "map_of (tg_edges g) i = Some e" for e
    using keep that by (simp add: edge_core_def)
  then show "concat (map (\<lambda>(i, e). h (ed_etype e) e) edges') = concat (map (\<lambda>(i, e). h (ed_etype e) e) (tg_edges g))"
    unfolding l using ok same [of "ed_etype e'"]
    by (intro concat_om_insert) (auto simp: graph_ok_def split: option.splits)
qed

lemma sort_key_idem: "sort_key f (sort_key f xs) = sort_key f xs"
  by (rule sort_key_id_if_sorted) simp

lemma versions_later:
  assumes "\<forall>v \<in> set vs. \<not> ev_valid_from_lsn v \<le> at"
  shows "sort_key ev_hypothesis_id (filter (\<lambda>v. ev_valid_from_lsn v \<le> at) (sort_key ev_hypothesis_id (foldl add_version entry vs)))
    = sort_key ev_hypothesis_id (filter (\<lambda>v. ev_valid_from_lsn v \<le> at) entry)"
proof -
  have "filter (\<lambda>v. ev_valid_from_lsn v \<le> at) (foldl add_version entry vs) = filter (\<lambda>v. ev_valid_from_lsn v \<le> at) entry"
    using assms by (induction vs arbitrary: entry) (auto simp: add_version_def)
  then show ?thesis by (simp add: filter_sort sort_key_idem)
qed

lemma stable_upsert:
  assumes ok: "graph_ok L g" and L: "L \<le> lsn" "at < lsn" and new: "fresh_edge lsn new" and vs: "\<forall>v \<in> set vs. ev_valid_from_lsn v = lsn"
  shows "stable_at at g (upsert_edge new vs g)"
proof -
  let ?g = "upsert_edge new vs g" and ?i = "ed_id new"
  have lt: "\<not> lsn \<le> at" using L(2) by simp
  have eps: "tg_eps ?g = tg_eps g" by (simp add: upsert_edge_def Let_def split: option.split)
  have "tg_versions ?g = om_modify ?i [] (\<lambda>entry. sort_key ev_hypothesis_id (foldl add_version entry vs)) (tg_versions g)"
    by (simp add: upsert_edge_def Let_def split: option.split)
  then have vers: "sort_key ev_hypothesis_id (filter (\<lambda>v. ev_valid_from_lsn v \<le> at) (unwrap_or (map_of (tg_versions ?g) j) []))
      = sort_key ev_hypothesis_id (filter (\<lambda>v. ev_valid_from_lsn v \<le> at) (unwrap_or (map_of (tg_versions g) j) []))" for j
    using versions_later [of vs at] vs lt by (simp add: om_simps unwrap_or_def split: option.split)
  have fresh: "\<not> alive_at new at" using new lt by (simp add: alive_at_def fresh_edge_def)
  have keep: "case map_of (tg_edges g) ?i of None \<Rightarrow> \<not> alive_at (asserted_edge None new) at
      | Some e \<Rightarrow> edge_core (asserted_edge (Some e) new) = edge_core e \<and> alive_at (asserted_edge (Some e) new) at = alive_at e at"
  proof (cases "map_of (tg_edges g) ?i")
    case None
    then show ?thesis using fresh by (simp add: asserted_edge_def)
  next
    case (Some e)
    then have "edge_times_ok L e" using ok by (simp add: graph_ok_def)
    from alive_asserted [OF this L(1) new, of at] L(2) Some show ?thesis
      by (auto simp: asserted_edge_def reopened_def edge_core_def split: option.split)
  qed
  have unchanged: "map_of (tg_edges g) ?i = Some e \<Longrightarrow> ed_valid_to_lsn e = None \<Longrightarrow> tg_edges ?g = tg_edges g
      \<and> tg_out ?g = tg_out g \<and> tg_inn ?g = tg_inn g" for e
    by (simp add: upsert_edge_def Let_def)
  show ?thesis
  proof (cases "\<exists>e. map_of (tg_edges g) ?i = Some e \<and> ed_valid_to_lsn e = None")
    case True
    then show ?thesis using eps vers unchanged by (auto simp: stable_at_def)
  next
    case False
    let ?e = "asserted_edge (map_of (tg_edges g) ?i) new"
    have l: "tg_edges ?g = om_insert ?i ?e (tg_edges g)"
      using False by (auto simp: upsert_edge_def Let_def asserted_edge_def reopened_def split: option.split)
    have k: "case map_of (tg_edges g) ?i of None \<Rightarrow> \<not> alive_at ?e at
      | Some e \<Rightarrow> edge_core ?e = edge_core e \<and> alive_at ?e at = alive_at e at"
      using keep by (auto split: option.splits)
    have all: "concat (map (\<lambda>(i, e). h (ed_etype e) e) (tg_edges ?g)) = concat (map (\<lambda>(i, e). h (ed_etype e) e) (tg_edges g))
        \<and> listed (map_of (tg_edges ?g)) (tg_out ?g) n h = listed (map_of (tg_edges g)) (tg_out g) n h
        \<and> listed (map_of (tg_edges ?g)) (tg_inn ?g) n h = listed (map_of (tg_edges g)) (tg_inn g) n h"
      if h: "timeless at h" for h :: "edge_type \<Rightarrow> graph_edge \<Rightarrow> (str \<times> str \<times> str \<times> edge_type) list" and n
    proof -
      note s = stable_edges [OF ok h upsert_edges l k]
      have lk: "listed (map_of (tg_edges g)) (link node t ?i adj) n h = listed (map_of (tg_edges g)) adj n h"
        if "adjacency_ok adj" "map_of (tg_edges g) ?i = None" for node t adj
        by (rule listed_link [OF that(1)]) (simp add: that(2))
      show ?thesis using s(1) s(2) lk ok upsert_lists(1,2) [where new = new and g = g and vs = vs]
        by (auto simp: graph_ok_def)
    qed
    then show ?thesis using eps vers by (simp add: stable_at_def)
  qed
qed

lemma stable_close:
  assumes ok: "graph_ok L g" and L: "L \<le> lsn" "at < lsn"
  shows "stable_at at g (close_edge i lsn g)"
proof (cases "\<exists>e. map_of (tg_edges g) i = Some e \<and> ed_valid_to_lsn e = None")
  case False
  then have "close_edge i lsn g = g" by (auto simp: close_edge_def split: option.splits)
  then show ?thesis by (simp add: stable_refl)
next
  case True
  then obtain e where e: "map_of (tg_edges g) i = Some e" "ed_valid_to_lsn e = None" by blast
  then have t: "edge_times_ok L e" using ok by (simp add: graph_ok_def)
  have l: "tg_edges (close_edge i lsn g) = om_insert i (closed_edge lsn e) (tg_edges g)"
    by (simp add: close_edge_def closed_edge_def e)
  have m: "map_of (tg_edges (close_edge i lsn g)) = (map_of (tg_edges g))(i \<mapsto> closed_edge lsn e)"
    by (simp add: l map_of_om_insert)
  have k: "case map_of (tg_edges g) i of None \<Rightarrow> \<not> alive_at (closed_edge lsn e) at
      | Some e' \<Rightarrow> edge_core (closed_edge lsn e) = edge_core e' \<and> alive_at (closed_edge lsn e) at = alive_at e' at"
    using alive_closed [OF t L(1), of at] L(2) by (simp add: e(1)) (simp add: closed_edge_def edge_core_def)
  have "tg_eps (close_edge i lsn g) = tg_eps g" "tg_versions (close_edge i lsn g) = tg_versions g"
    by (simp_all add: close_edge_def split: option.split)
  moreover have "concat (map (\<lambda>(i, e). h (ed_etype e) e) (tg_edges (close_edge i lsn g))) = concat (map (\<lambda>(i, e). h (ed_etype e) e) (tg_edges g))
      \<and> listed (map_of (tg_edges (close_edge i lsn g))) adj n h = listed (map_of (tg_edges g)) adj n h"
    if "timeless at h" for h :: "edge_type \<Rightarrow> graph_edge \<Rightarrow> (str \<times> str \<times> str \<times> edge_type) list" and adj n
    using stable_edges [OF ok that m l k] by simp
  ultimately show ?thesis by (simp add: stable_at_def upsert_lists)
qed

lemma graph_ok_watermark: "graph_ok L (g\<lparr>tg_watermark := w\<rparr>) = graph_ok L g"
  by (simp add: graph_ok_def)

lemma stable_apply:
  assumes ok: "graph_ok L g" and L: "L \<le> lsn" "at < lsn"
  shows "stable_at at g (apply_episode F pu lsn e g)"
proof -
  have "stable_at at g (apply_episode F pu lsn e g) \<and> graph_ok lsn (apply_episode F pu lsn e g)"
  proof (rule apply_episode_cases [where P = "\<lambda>g'. stable_at at g g' \<and> graph_ok lsn g'"])
    show "stable_at at g g \<and> graph_ok lsn g" using graph_ok_mono [OF ok L(1)] by (simp add: stable_refl)
  qed (auto simp: stable_watermark graph_ok_watermark intro: stable_trans stable_upsert [OF _ order_refl L(2)]
      stable_close [OF _ order_refl L(2)] graph_ok_upsert [OF _ order_refl] graph_ok_close [OF _ order_refl])
  then show ?thesis ..
qed

lemma stable_later:
  assumes "sorted (map fst (evs @ later))" and "\<forall>(l, e) \<in> set later. at < l"
  shows "stable_at at (graph_of F pu evs) (graph_of F pu (evs @ later))"
  using assms
proof (induction later rule: rev_induct)
  case Nil
  then show ?case by (simp add: stable_refl)
next
  case (snoc p later)
  obtain l e where p: "p = (l, e)" by fastforce
  have s: "sorted (map fst (evs @ later))" "\<forall>(k, e) \<in> set (evs @ later). k \<le> l" and l: "at < l"
    using snoc.prems by (auto simp: p sorted_append)
  have "graph_of F pu (evs @ later @ [p]) = apply_episode F pu l e (graph_of F pu (evs @ later))" by (simp add: graph_of_def p)
  then show ?case
    using stable_trans [OF snoc.IH [OF s(1)] stable_apply [OF graph_ok_of [OF s] order_refl l]] snoc.prems(2) by (simp add: p)
qed

section \<open>The validity in the world\<close>

text \<open>What an edge says of the world is overwritten when the edge is asserted again, and only then.\<close>

definition asserts :: "(u64 \<times> graph_episode) list \<Rightarrow> str \<Rightarrow> bool" where
  "asserts evs i \<longleftrightarrow> list_ex (\<lambda>(lsn, e). (i, True) \<in> set (edge_ops e)) evs"

definition world_of :: "'f temporal_graph \<Rightarrow> str \<Rightarrow> (u64 option \<times> u64 option) option" where
  "world_of g i = map_option (\<lambda>e. (ed_world_valid_from e, ed_world_valid_to e)) (map_of (tg_edges g) i)"

lemma world_upsert: "i \<noteq> ed_id new \<Longrightarrow> world_of (upsert_edge new vs g) i = world_of g i"
  by (simp add: world_of_def upsert_edges)

lemma world_close: "world_of (close_edge j lsn g) i = world_of g i"
  by (auto simp: world_of_def close_edges closed_edge_def split: option.split)

lemma world_apply:
  assumes "(i, True) \<notin> set (edge_ops e)"
  shows "world_of (apply_episode F pu lsn e g) i = world_of g i"
proof -
  have wm: "world_of (g\<lparr>tg_watermark := w\<rparr>) i = world_of g i" for g :: "'a temporal_graph" and w
    by (simp add: world_of_def)
  show ?thesis
  proof (cases "attr e ''edge_from'' \<noteq> None \<and> attr e ''edge_to'' \<noteq> None")
    case True
    then obtain a b where ab: "attr e ''edge_from'' = Some a" "attr e ''edge_to'' = Some b" by auto
    show ?thesis
      using assms by (auto simp: apply_episode_def edge_ops_def ab Let_def wm assert_explicit_def world_close intro!: world_upsert)
  next
    case False
    let ?id = "\<lambda>p. edge_id_of p (ge_id e) (episode_etype e)"
    have one: "world_of (assert_parent F lsn e p g) i = world_of g i" if "?id p \<noteq> i" for p g
      unfolding assert_parent_def Let_def by (rule world_upsert) (use that in auto)
    have all: "world_of (foldl (\<lambda>g p. assert_parent F lsn e p g) g ps) i = world_of g i" if "\<forall>p \<in> set ps. ?id p \<noteq> i" for ps g
      using that by (induction ps arbitrary: g) (simp_all add: one)
    have "edge_ops e = map (\<lambda>p. (?id p, True)) (ge_parents e)"
      using False by (auto simp: edge_ops_def split: option.splits)
    then have "\<forall>p \<in> set (ge_parents e). ?id p \<noteq> i" using assms by auto
    moreover have "apply_episode F pu lsn e g = (foldl (\<lambda>g p. assert_parent F lsn e p g) g (ge_parents e))
        \<lparr>tg_watermark := max (tg_watermark (foldl (\<lambda>g p. assert_parent F lsn e p g) g (ge_parents e))) lsn\<rparr>"
      using False by (auto simp: apply_episode_def Let_def split: option.splits)
    ultimately show ?thesis by (simp add: wm all)
  qed
qed

lemma world_later: "\<not> asserts later i \<Longrightarrow> world_of (graph_of F pu (evs @ later)) i = world_of (graph_of F pu evs) i"
proof (induction later rule: rev_induct)
  case (snoc p later)
  obtain l e where p: "p = (l, e)" by fastforce
  then have "graph_of F pu (evs @ later @ [p]) = apply_episode F pu l e (graph_of F pu (evs @ later))" by (simp add: graph_of_def)
  then show ?case using snoc by (simp add: p asserts_def world_apply)
qed simp

end
