(* ===== verification/Temporal_Graph_Search.thy ===== *)
theory Temporal_Graph_Search
  imports Temporal_Graph
begin

text \<open>
  The two searches of the graph against their specifications: \<open>traverse\<close> finds each entity at its distance,
  \<open>analyze\<close> labels the connected components with their least members.
\<close>

section \<open>Breadth-first search\<close>

definition hop :: "(str \<Rightarrow> str list) \<Rightarrow> (str \<times> str) set" where
  "hop succs = {(a, b). b \<in> set (succs a)}"

text \<open>The entities at distance \<open>n\<close>, and those not farther than \<open>n\<close>.\<close>

definition at_distance :: "(str \<Rightarrow> str list) \<Rightarrow> str \<Rightarrow> nat \<Rightarrow> str set" where
  "at_distance succs start n = {b. (start, b) \<in> hop succs ^^ n \<and> (\<forall>m < n. (start, b) \<notin> hop succs ^^ m)}"

definition within :: "(str \<Rightarrow> str list) \<Rightarrow> str \<Rightarrow> nat \<Rightarrow> str set" where
  "within succs start n = {b. \<exists>m \<le> n. (start, b) \<in> hop succs ^^ m}"

lemma at_distance_0: "at_distance succs start 0 = {start}" "within succs start 0 = {start}"
  by (auto simp: at_distance_def within_def)

lemma at_distance_Suc:
  "at_distance succs start (Suc n) = (\<Union>a \<in> at_distance succs start n. set (succs a)) - within succs start n"
proof -
  have "\<exists>a \<in> at_distance succs start n. b \<in> set (succs a)"
    if b: "(start, b) \<in> hop succs ^^ Suc n" "\<forall>m < Suc n. (start, b) \<notin> hop succs ^^ m" for b
  proof -
    obtain a where a: "(start, a) \<in> hop succs ^^ n" "(a, b) \<in> hop succs" using b(1) by auto
    have "(start, a) \<notin> hop succs ^^ m" if "m < n" for m
    proof
      assume "(start, a) \<in> hop succs ^^ m"
      then have "(start, b) \<in> hop succs ^^ Suc m" using a(2) by auto
      then show False using b(2) that by (metis Suc_mono)
    qed
    then show ?thesis using a by (auto simp: at_distance_def hop_def)
  qed
  moreover have "(start, b) \<in> hop succs ^^ Suc n" if "a \<in> at_distance succs start n" "b \<in> set (succs a)" for a b
    using that by (auto simp: at_distance_def hop_def)
  ultimately show ?thesis
    unfolding at_distance_def [of succs start "Suc n"] within_def by (auto simp: less_Suc_eq_le simp del: relpow.simps)
qed

lemma within_Suc: "within succs start (Suc n) = within succs start n \<union> (\<Union>a \<in> at_distance succs start n. set (succs a))"
proof -
  have "b \<in> within succs start n \<or> b \<in> at_distance succs start (Suc n)" if "b \<in> within succs start (Suc n)" for b
    using that unfolding within_def at_distance_def by (auto simp: le_Suc_eq less_Suc_eq_le simp del: relpow.simps)
  moreover have "b \<in> within succs start (Suc n)" if "a \<in> at_distance succs start n" "b \<in> set (succs a)" for a b
  proof -
    have "(start, b) \<in> hop succs ^^ Suc n" using that by (auto simp: at_distance_def hop_def)
    then show ?thesis unfolding within_def by blast
  qed
  moreover have "within succs start n \<subseteq> within succs start (Suc n)" unfolding within_def by (blast intro: le_SucI)
  ultimately show ?thesis using at_distance_Suc [of succs start n] by blast
qed

lemma at_distance_empty:
  assumes "at_distance succs start n = {}"
  shows "n \<le> m \<Longrightarrow> at_distance succs start m = {}"
  by (induction m rule: dec_induct) (simp_all add: assms at_distance_Suc)

lemma at_distance_unique: "b \<in> at_distance succs start n \<Longrightarrow> b \<in> at_distance succs start m \<Longrightarrow> n = m"
  unfolding at_distance_def by (metis (mono_tags, lifting) linorder_neqE_nat mem_Collect_eq)

lemma foldl_visit:
  "\<exists>new. foldl (visit depth) (seen, result, next) xs = (seen \<union> set xs, result @ map (\<lambda>b. (b, depth)) new, next @ new)
    \<and> distinct new \<and> set new = set xs - seen"
proof (induction xs arbitrary: seen result "next")
  case (Cons x xs)
  show ?case
  proof (cases "x \<in> seen")
    case True
    then show ?thesis using Cons [of seen result "next"] by (auto simp: insert_absorb)
  next
    case False
    obtain new where n: "foldl (visit depth) (insert x seen, result @ [(x, depth)], next @ [x]) xs
        = (insert x seen \<union> set xs, (result @ [(x, depth)]) @ map (\<lambda>b. (b, depth)) new, (next @ [x]) @ new)"
      "distinct new" "set new = set xs - insert x seen"
      using Cons by blast
    show ?thesis by (rule exI [of _ "x # new"]) (use n False in auto)
  qed
qed simp

lemma traverse_levels_spec:
  assumes "set frontier = at_distance succs start n" and "seen = within succs start n"
  shows "\<exists>found. traverse_levels succs k (Suc n) frontier seen result = result @ found \<and> distinct (map fst found)
    \<and> sorted (map snd found) \<and> set found = {(b, m). n < m \<and> m \<le> n + k \<and> b \<in> at_distance succs start m}"
  using assms
proof (induction k arbitrary: n frontier seen result)
  case (Suc k)
  obtain new where v: "foldl (visit (Suc n)) (seen, result, []) (concat (map succs frontier))
      = (seen \<union> set (concat (map succs frontier)), result @ map (\<lambda>b. (b, Suc n)) new, new)"
    "distinct new" "set new = set (concat (map succs frontier)) - seen"
  proof -
    obtain new where "foldl (visit (Suc n)) (seen, result, []) (concat (map succs frontier))
        = (seen \<union> set (concat (map succs frontier)), result @ map (\<lambda>b. (b, Suc n)) new, [] @ new)
      \<and> distinct new \<and> set new = set (concat (map succs frontier)) - seen"
      using foldl_visit by blast
    then show thesis using that [of new] by simp
  qed
  have new: "set new = at_distance succs start (Suc n)" using v(3) Suc.prems by (simp add: at_distance_Suc)
  have seen: "seen \<union> set (concat (map succs frontier)) = within succs start (Suc n)" using Suc.prems by (simp add: within_Suc)
  show ?case
  proof (cases "new = []")
    case True
    then have "at_distance succs start m = {}" if "n < m" for m
      using at_distance_empty [of succs start "Suc n" m] new that by simp
    then show ?thesis using v(1) True by auto
  next
    case False
    obtain found where f: "traverse_levels succs k (Suc (Suc n)) (sort new) (within succs start (Suc n))
        (result @ map (\<lambda>b. (b, Suc n)) new) = (result @ map (\<lambda>b. (b, Suc n)) new) @ found"
      "distinct (map fst found)" "sorted (map snd found)"
      "set found = {(b, m). Suc n < m \<and> m \<le> Suc n + k \<and> b \<in> at_distance succs start m}"
      using Suc.IH [of "sort new" "Suc n" "within succs start (Suc n)" "result @ map (\<lambda>b. (b, Suc n)) new"] new by auto
    have d: "set new \<inter> fst ` set found = {}" using at_distance_unique by (fastforce simp: new f(4))
    have "(b, m) \<in> {(b, m). n < m \<and> m \<le> n + Suc k \<and> b \<in> at_distance succs start m}
        \<longleftrightarrow> (b, m) \<in> (\<lambda>b. (b, Suc n)) ` set new \<union> set found" for b m
      unfolding new f(4) by (cases "m = Suc n") auto
    then have "{(b, m). n < m \<and> m \<le> n + Suc k \<and> b \<in> at_distance succs start m} = (\<lambda>b. (b, Suc n)) ` set new \<union> set found"
      by (simp add: set_eq_iff)
    moreover have "sorted (map (\<lambda>x. Suc n) new)" by (induction new) auto
    then have "sorted (map snd (map (\<lambda>b. (b, Suc n)) new @ found))"
      using f(3) by (auto simp: sorted_append comp_def f(4))
    moreover have "map fst (map (\<lambda>b. (b, Suc n)) new @ found) = new @ map fst found" by (simp add: comp_def)
    moreover have "traverse_levels succs (Suc k) (Suc n) frontier seen result
        = result @ (map (\<lambda>b. (b, Suc n)) new @ found)"
      using v(1) f(1) False seen by simp
    moreover have "distinct (new @ map fst found)" using v(2) f(2) d by simp
    ultimately show ?thesis by (intro exI [of _ "map (\<lambda>b. (b, Suc n)) new @ found"]) (simp only: set_append set_map simp_thms)
  qed
qed auto

section \<open>Connected components\<close>

definition adj_rel :: "(str, str_set) ordered_map \<Rightarrow> (str \<times> str) set" where
  "adj_rel adj = {(a, b). \<exists>neigh. map_of adj a = Some neigh \<and> b \<in> fst ` set neigh}"

lemma adj_rel_iff: "(a, b) \<in> adj_rel adj \<longleftrightarrow> b \<in> (case map_of adj a of None \<Rightarrow> {} | Some neigh \<Rightarrow> fst ` set neigh)"
  by (simp add: adj_rel_def split: option.split)

declare label_component.simps [simp del]

lemma label_component_spec:
  assumes "set stack \<subseteq> dom (map_of com)" and "\<And>n. n \<in> dom (map_of com) \<Longrightarrow> n \<in> set stack \<or> adj_rel adj `` {n} \<subseteq> dom (map_of com)"
    and "com' = label_component adj seed stack com"
  shows "map_of com \<subseteq>\<^sub>m map_of com'
    \<and> (\<forall>x \<in> dom (map_of com') - dom (map_of com). map_of com' x = Some seed \<and> (\<exists>s \<in> set stack. (s, x) \<in> (adj_rel adj)\<^sup>*))
    \<and> (\<forall>n \<in> dom (map_of com'). adj_rel adj `` {n} \<subseteq> dom (map_of com'))"
  using assms
proof (induction adj seed stack com arbitrary: com' rule: label_component.induct)
  case (1 adj seed com)
  then show ?case by (simp add: label_component.simps)
next
  case (2 adj seed n stack com)
  show ?case
  proof (cases "map_of adj n")
    case None
    then have e: "adj_rel adj `` {n} = {}" by (auto simp: adj_rel_def)
    have "set stack \<subseteq> dom (map_of com)" using 2(3) by simp
    moreover have "m \<in> set stack \<or> adj_rel adj `` {m} \<subseteq> dom (map_of com)" if "m \<in> dom (map_of com)" for m
      using 2(4) [OF that] e by auto
    moreover have "com' = label_component adj seed stack com" using 2(5) None by (simp add: label_component.simps)
    ultimately have "map_of com \<subseteq>\<^sub>m map_of com'
      \<and> (\<forall>x \<in> dom (map_of com') - dom (map_of com). map_of com' x = Some seed \<and> (\<exists>s \<in> set stack. (s, x) \<in> (adj_rel adj)\<^sup>*))
      \<and> (\<forall>n \<in> dom (map_of com'). adj_rel adj `` {n} \<subseteq> dom (map_of com'))"
      by (rule 2(1) [OF None])
    then show ?thesis by (meson list.set_intros(2))
  next
    case (Some neigh)
    obtain stack1 com1 where l: "label_neighbors seed (map fst neigh) stack com = (stack1, com1)" by fastforce
    obtain pushed where p: "stack1 = pushed @ stack" "set pushed = set (map fst neigh) - dom (map_of com)"
      "map_of com1 = (\<lambda>x. if x \<in> set pushed then Some seed else map_of com x)"
      using label_neighbors_grows [OF l] by blast
    have rel: "adj_rel adj `` {n} = set (map fst neigh)" using Some by (auto simp: adj_rel_def)
    have dom1: "dom (map_of com1) = dom (map_of com) \<union> set (map fst neigh)" using p(2) by (auto simp: p(3) dom_def)
    have "set stack1 \<subseteq> dom (map_of com1)" using 2(3) p(1,2) dom1 by auto
    moreover have "m \<in> set stack1 \<or> adj_rel adj `` {m} \<subseteq> dom (map_of com1)" if "m \<in> dom (map_of com1)" for m
    proof (cases "m \<in> dom (map_of com)")
      case True
      from 2(4) [OF True] have "m = n \<or> m \<in> set stack \<or> adj_rel adj `` {m} \<subseteq> dom (map_of com)" by auto
      then show ?thesis unfolding dom1 p(1) set_append using rel by blast
    next
      case False
      then show ?thesis using that dom1 p(1,2) by auto
    qed
    moreover have com': "com' = label_component adj seed stack1 com1" using 2(5) Some l by (simp add: label_component.simps)
    ultimately have ih0: "map_of com1 \<subseteq>\<^sub>m map_of com' \<and> (\<forall>x \<in> dom (map_of com') - dom (map_of com1). map_of com' x = Some seed
        \<and> (\<exists>s \<in> set stack1. (s, x) \<in> (adj_rel adj)\<^sup>*)) \<and> (\<forall>n \<in> dom (map_of com'). adj_rel adj `` {n} \<subseteq> dom (map_of com'))"
      by (rule 2(2) [OF Some l [symmetric]])
    then have ih: "map_of com1 \<subseteq>\<^sub>m map_of com'"
      "\<forall>x \<in> dom (map_of com') - dom (map_of com1). map_of com' x = Some seed \<and> (\<exists>s \<in> set stack1. (s, x) \<in> (adj_rel adj)\<^sup>*)"
      "\<forall>n \<in> dom (map_of com'). adj_rel adj `` {n} \<subseteq> dom (map_of com')"
      by simp_all
    have grow: "map_of com \<subseteq>\<^sub>m map_of com1" using p(2) by (auto simp: map_le_def p(3))
    have step: "\<exists>s \<in> set (n # stack). (s, x) \<in> (adj_rel adj)\<^sup>*" if "s \<in> set stack1" "(s, x) \<in> (adj_rel adj)\<^sup>*" for s x
    proof (cases "s \<in> set stack")
      case False
      then have "(n, s) \<in> adj_rel adj" using that(1) p(1,2) rel by auto
      then show ?thesis using that(2) by (meson converse_rtrancl_into_rtrancl list.set_intros(1))
    qed (use that in auto)
    have "map_of com' x = Some seed \<and> (\<exists>s \<in> set (n # stack). (s, x) \<in> (adj_rel adj)\<^sup>*)"
      if x: "x \<in> dom (map_of com') - dom (map_of com)" for x
    proof (cases "x \<in> dom (map_of com1)")
      case True
      then have xp: "x \<in> set pushed" using x p(3) by (auto simp: dom_def split: if_splits)
      then have "map_of com1 x = Some seed" by (simp add: p(3))
      then have "map_of com' x = Some seed" using ih(1) by (metis domI map_le_def)
      moreover have "x \<in> set stack1" using xp p(1) by simp
      ultimately show ?thesis using step by blast
    next
      case False
      then show ?thesis using ih(2) x step by blast
    qed
    then show ?thesis using grow ih(1,3) map_le_trans by blast
  qed
qed

text \<open>Labels so far: whole components, each labelled with its least member.\<close>

definition least_connected :: "(str \<times> str) set \<Rightarrow> str \<Rightarrow> str \<Rightarrow> bool" where
  "least_connected R a c \<longleftrightarrow> (a, c) \<in> R\<^sup>* \<and> (\<forall>b. (a, b) \<in> R\<^sup>* \<longrightarrow> c \<le> b)"

lemma least_connected_unique: "least_connected R a c \<Longrightarrow> least_connected R a c' \<Longrightarrow> c = c'"
  by (simp add: least_connected_def order_antisym)

lemma label_communities_spec:
  assumes sym: "sym (adj_rel adj)" and nodes: "\<forall>(a, b) \<in> adj_rel adj. b \<in> set pre \<union> set seeds"
    and "sorted (pre @ seeds)" and "set pre \<subseteq> dom (map_of com)" and "dom (map_of com) \<subseteq> set pre \<union> set seeds"
    and "\<forall>n \<in> dom (map_of com). adj_rel adj `` {n} \<subseteq> dom (map_of com)"
    and "\<forall>a c. map_of com a = Some c \<longrightarrow> least_connected (adj_rel adj) a c"
  shows "dom (map_of (label_communities adj seeds com)) = set pre \<union> set seeds
    \<and> (\<forall>a c. map_of (label_communities adj seeds com) a = Some c \<longrightarrow> least_connected (adj_rel adj) a c)"
  using assms(2-)
proof (induction seeds arbitrary: pre com)
  case Nil
  then show ?case by auto
next
  case (Cons seed seeds)
  let ?R = "adj_rel adj"
  show ?case
  proof (cases "map_of com seed")
    case (Some l)
    have "dom (map_of (label_communities adj seeds com)) = set (pre @ [seed]) \<union> set seeds
      \<and> (\<forall>a c. map_of (label_communities adj seeds com) a = Some c \<longrightarrow> least_connected ?R a c)"
      by (rule Cons.IH) (use Cons.prems Some in auto)
    then show ?thesis using Some by auto
  next
    case None
    let ?com = "om_insert seed seed com"
    let ?com' = "label_component adj seed [seed] ?com"
    have dom: "dom (map_of ?com) = insert seed (dom (map_of com))" by (simp add: map_of_om_insert)
    have lc: "map_of ?com \<subseteq>\<^sub>m map_of ?com'
      \<and> (\<forall>x \<in> dom (map_of ?com') - dom (map_of ?com). map_of ?com' x = Some seed \<and> (\<exists>s \<in> set [seed]. (s, x) \<in> ?R\<^sup>*))
      \<and> (\<forall>n \<in> dom (map_of ?com'). ?R `` {n} \<subseteq> dom (map_of ?com'))"
      by (rule label_component_spec [OF _ _ refl]) (use dom Cons.prems(5) in auto)
    have syms: "sym (?R\<^sup>*)" by (rule sym_rtrancl [OF sym])
    have closed: "y \<in> dom (map_of com)" if "(x, y) \<in> ?R\<^sup>*" "x \<in> dom (map_of com)" for x y
      using that(1,2) by (induction rule: rtrancl_induct) (use Cons.prems(5) in auto)
    have range: "y \<in> set pre \<union> set (seed # seeds)" if "(seed, y) \<in> ?R\<^sup>*" for y
      using that by (cases rule: rtranclE) (use Cons.prems(1) in auto)
    have min: "least_connected ?R seed seed"
    proof -
      have "seed \<le> b" if "(seed, b) \<in> ?R\<^sup>*" for b
      proof -
        have "b \<notin> dom (map_of com)" using closed [of b seed] symD [OF syms that] None by auto
        then have "b \<in> set (seed # seeds)" using range [OF that] Cons.prems(3) by auto
        then show ?thesis using Cons.prems(2) by (auto simp: sorted_append)
      qed
      then show ?thesis by (simp add: least_connected_def)
    qed
    have trans: "least_connected ?R x seed" if "(seed, x) \<in> ?R\<^sup>*" for x
      using min that symD [OF syms that] unfolding least_connected_def by (meson rtrancl_trans)
    have new: "least_connected ?R a c" if "map_of ?com' a = Some c" for a c
    proof (cases "a \<in> dom (map_of ?com)")
      case True
      then have "map_of ?com a = Some c" using lc that by (auto simp: map_le_def)
      then show ?thesis using Cons.prems(6) min by (auto simp: map_of_om_insert split: if_splits)
    next
      case False
      then have "a \<in> dom (map_of ?com') - dom (map_of ?com)" using that by blast
      then have "map_of ?com' a = Some seed" "(seed, a) \<in> ?R\<^sup>*" using lc by simp_all
      then show ?thesis using that trans by auto
    qed
    have "x \<in> set pre \<union> set (seed # seeds)" if x: "x \<in> dom (map_of ?com')" for x
    proof (cases "x \<in> dom (map_of ?com)")
      case True
      then show ?thesis using dom Cons.prems(4) by auto
    next
      case False
      then have "(seed, x) \<in> ?R\<^sup>*" using lc x by simp
      then show ?thesis by (rule range)
    qed
    then have "dom (map_of ?com') \<subseteq> set pre \<union> set (seed # seeds)" by blast
    moreover have "insert seed (set pre) \<subseteq> dom (map_of ?com')"
    proof -
      have "dom (map_of ?com) \<subseteq> dom (map_of ?com')" using lc by (simp add: map_le_implies_dom_le)
      moreover have "insert seed (set pre) \<subseteq> dom (map_of ?com)" unfolding dom by (rule insert_mono [OF Cons.prems(3)])
      ultimately show ?thesis by (rule order_trans [rotated])
    qed
    ultimately have d: "dom (map_of ?com') \<subseteq> set (pre @ [seed]) \<union> set seeds" "set (pre @ [seed]) \<subseteq> dom (map_of ?com')" by simp_all
    have "\<forall>(a, b) \<in> ?R. b \<in> set (pre @ [seed]) \<union> set seeds" using Cons.prems(1) by simp
    moreover have "sorted ((pre @ [seed]) @ seeds)" using Cons.prems(2) by simp
    moreover have "\<forall>n \<in> dom (map_of ?com'). ?R `` {n} \<subseteq> dom (map_of ?com')" using lc by simp
    ultimately have "dom (map_of (label_communities adj seeds ?com')) = set (pre @ [seed]) \<union> set seeds
      \<and> (\<forall>a c. map_of (label_communities adj seeds ?com') a = Some c \<longrightarrow> least_connected ?R a c)"
      using d new by (intro Cons.IH) simp_all
    then show ?thesis using None by auto
  qed
qed

text \<open>The index of a list of edges.\<close>

definition joins :: "graph_edge list \<Rightarrow> (str \<times> str) set" where
  "joins es = {(a, b). \<exists>e \<in> set es. (ed_from e = a \<and> ed_to e = b) \<or> (ed_from e = b \<and> ed_to e = a)}"

definition endpoints :: "graph_edge list \<Rightarrow> str set" where
  "endpoints es = (\<Union>e \<in> set es. {ed_from e, ed_to e})"

lemma index_edges_spec:
  "adj_rel (gi_adj (index_edges es)) = joins es \<and> set (map fst (gi_nodes (index_edges es))) = endpoints es
    \<and> om_ok (gi_nodes (index_edges es))"
proof (induction es rule: rev_induct)
  case Nil
  then show ?case by (simp add: index_edges_def adj_rel_def joins_def endpoints_def)
next
  case (snoc e es)
  let ?x = "index_edges es"
  have s: "index_edges (es @ [e]) = index_edge ?x e" by (simp add: index_edges_def)
  have add: "adj_rel (om_modify a [] (om_insert b ()) adj) = insert (a, b) (adj_rel adj)" for a b adj
  proof (rule set_eqI, clarify)
    show "(x, y) \<in> adj_rel (om_modify a [] (om_insert b ()) adj) \<longleftrightarrow> (x, y) \<in> insert (a, b) (adj_rel adj)" for x y
      by (simp add: adj_rel_iff om_simps keys_om_insert split: option.split)
  qed
  have j: "joins (es @ [e]) = insert (ed_to e, ed_from e) (insert (ed_from e, ed_to e) (joins es))"
    by (auto simp: joins_def)
  have "endpoints (es @ [e]) = insert (ed_to e) (insert (ed_from e) (endpoints es))" by (auto simp: endpoints_def)
  then show ?case using snoc by (simp add: s index_edge_def add j keys_om_insert)
qed

lemma analyze_components:
  assumes "es = alive_edges F g as_of mc"
  shows "map_of (fst (analyze F g as_of mc)) a = Some c \<longleftrightarrow> a \<in> endpoints es \<and> least_connected (joins es) a c"
proof -
  let ?x = "index_edges es"
  note i = index_edges_spec [of es]
  have "sym (joins es)" by (auto simp: sym_def joins_def)
  moreover have "\<forall>(a, b) \<in> joins es. b \<in> endpoints es" by (auto simp: joins_def endpoints_def)
  moreover have "sorted (map fst (gi_nodes ?x))" using i by (simp add: om_ok_def strict_sorted_iff)
  ultimately have "dom (map_of (label_communities (gi_adj ?x) (map fst (gi_nodes ?x)) [])) = set [] \<union> set (map fst (gi_nodes ?x))
    \<and> (\<forall>a c. map_of (label_communities (gi_adj ?x) (map fst (gi_nodes ?x)) []) a = Some c
      \<longrightarrow> least_connected (adj_rel (gi_adj ?x)) a c)"
    using i by (intro label_communities_spec) auto
  moreover have "fst (analyze F g as_of mc) = label_communities (gi_adj ?x) (map fst (gi_nodes ?x)) []"
    by (simp add: analyze_def Let_def assms)
  ultimately have d: "dom (map_of (fst (analyze F g as_of mc))) = endpoints es"
    and l: "\<And>a c. map_of (fst (analyze F g as_of mc)) a = Some c \<Longrightarrow> least_connected (joins es) a c"
    using i by auto
  show ?thesis
  proof
    assume m: "map_of (fst (analyze F g as_of mc)) a = Some c"
    then show "a \<in> endpoints es \<and> least_connected (joins es) a c" using l d by (metis domI)
  next
    assume a: "a \<in> endpoints es \<and> least_connected (joins es) a c"
    then obtain c' where "map_of (fst (analyze F g as_of mc)) a = Some c'" using d by blast
    then show "map_of (fst (analyze F g as_of mc)) a = Some c" using a l least_connected_unique by metis
  qed
qed

end
