(* ===== verification/Temporal_Graph_Behaviour.thy ===== *)
theory Temporal_Graph_Behaviour
  imports Temporal_Graph_Stable Temporal_Graph_Search
begin

text \<open>
  The properties of the derived graph, with a concrete arithmetic and concrete events on which they are
  applied.
\<close>

section \<open>Queries as listings\<close>

definition em_core :: "'f edge_match \<Rightarrow> str \<times> str \<times> str \<times> edge_type \<times> 'f" where
  "em_core m = (em_edge_id m, em_from m, em_to m, em_etype m, em_belief m)"

lemma belief_listed:
  "belief_at F g i at = aggregate_as_of F (tg_eps g) (unwrap_or (map_of (tg_versions g) i) []) at"
  by (simp add: belief_at_def unwrap_or_def aggregate_as_of_def split: option.split)

lemma aggregate_sorted:
  "aggregate_as_of F eps vs at = (let ws = sort_key ev_hypothesis_id (filter (\<lambda>v. ev_valid_from_lsn v \<le> at) vs) in
     if ws = [] then f_zero F else f_div F (f_one F) (f_add F (f_one F) (f_exp F (f_neg F
       (foldl (f_add F) (f_zero F) (map (\<lambda>v. f_mul F (ev_polarity v) (logit F eps (ev_confidence v))) ws))))))"
proof -
  have "sort_key f xs = [] \<longleftrightarrow> xs = []" for f :: "'a edge_version \<Rightarrow> str" and xs
    by (metis length_0_conv length_sort)
  then show ?thesis by (simp add: aggregate_as_of_def Let_def)
qed

lemma stable_belief: "stable_at at g g' \<Longrightarrow> belief_at F g' i at = belief_at F g i at"
  by (simp add: belief_listed aggregate_sorted stable_at_def)

definition match_core :: "'f f32 \<Rightarrow> 'f temporal_graph \<Rightarrow> edge_type option \<Rightarrow> str option \<Rightarrow> u64 \<Rightarrow> 'f \<Rightarrow> edge_type \<Rightarrow> graph_edge
    \<Rightarrow> (str \<times> str \<times> str \<times> edge_type) list" where
  "match_core F g etype dst at mc t e = (if \<not> alive_at e at then []
     else if (case etype of Some want \<Rightarrow> want \<noteq> ed_etype e | None \<Rightarrow> False) then []
     else if (case dst of Some d \<Rightarrow> ed_to e \<noteq> d | None \<Rightarrow> False) then []
     else if f_less F (belief_at F g (ed_id e) at) mc then [] else [edge_core e])"

definition neighbor_core :: "'f f32 \<Rightarrow> 'f temporal_graph \<Rightarrow> edge_type option \<Rightarrow> u64 \<Rightarrow> 'f \<Rightarrow> edge_type \<Rightarrow> graph_edge
    \<Rightarrow> (str \<times> str \<times> str \<times> edge_type) list" where
  "neighbor_core F g etype at mc t e = (if \<not> alive_at e at then []
     else if (case etype of Some want \<Rightarrow> want \<noteq> t | None \<Rightarrow> False) then []
     else if f_less F (belief_at F g (ed_id e) at) mc then [] else [(ed_id e, ed_from e, ed_to e, t)])"

lemma timeless_cores: "timeless at (match_core F g etype dst at mc)" "timeless at (neighbor_core F g etype at mc)"
proof -
  have same: "match_core F g etype dst at mc t e = match_core F g etype dst at mc t e'"
    "neighbor_core F g etype at mc t e = neighbor_core F g etype at mc t e'"
    if c: "edge_core e = edge_core e'" and a: "alive_at e at = alive_at e' at" for t e e'
  proof -
    have "ed_id e = ed_id e'" "ed_from e = ed_from e'" "ed_to e = ed_to e'" "ed_etype e = ed_etype e'"
      using c by (simp_all add: edge_core_def)
    then show "match_core F g etype dst at mc t e = match_core F g etype dst at mc t e'"
      "neighbor_core F g etype at mc t e = neighbor_core F g etype at mc t e'"
      by (simp_all only: match_core_def neighbor_core_def a c)
  qed
  have dead: "match_core F g etype dst at mc t e = []" "neighbor_core F g etype at mc t e = []" if "\<not> alive_at e at" for t e
    using that by (simp_all add: match_core_def neighbor_core_def)
  show "timeless at (match_core F g etype dst at mc)" unfolding timeless_def using dead(1) same(1) by blast
  show "timeless at (neighbor_core F g etype at mc)" unfolding timeless_def using dead(2) same(2) by blast
qed

lemma stable_cores:
  "stable_at at g g' \<Longrightarrow> match_core F g' etype dst at mc = match_core F g etype dst at mc"
  "stable_at at g g' \<Longrightarrow> neighbor_core F g' etype at mc = neighbor_core F g etype at mc"
  by (auto simp: match_core_def neighbor_core_def stable_belief fun_eq_iff)

lemma match_listed:
  "map em_core (match_edges F g src etype dst at mc) = map (\<lambda>(i, a, b, t). (i, a, b, t, belief_at F g i at))
    (case src of Some s \<Rightarrow> listed (map_of (tg_edges g)) (tg_out g) s (match_core F g etype dst at mc)
     | None \<Rightarrow> concat (map (\<lambda>(i, e). match_core F g etype dst at mc (ed_etype e) e) (tg_edges g)))"
proof -
  have one: "map em_core (consider_edge F g etype dst at mc e)
      = map (\<lambda>(i, a, b, t). (i, a, b, t, belief_at F g i at)) (match_core F g etype dst at mc t e)" for e t
    by (simp add: consider_edge_def match_core_def em_core_def edge_core_def Let_def)
  show ?thesis
    by (auto simp: match_edges_def listed_def one map_concat comp_def split: option.split
        intro!: arg_cong [where f = concat] map_cong)
qed

text \<open>A complete answer is what stays of it and the validity that its edge has now.\<close>

definition em_full :: "'f temporal_graph \<Rightarrow> str \<times> str \<times> str \<times> edge_type \<times> 'f \<Rightarrow> 'f edge_match" where
  "em_full g c = (case c of (i, a, b, t, bel) \<Rightarrow> (let w = unwrap_or (world_of g i) (None, None) in
     \<lparr>em_edge_id = i, em_from = a, em_to = b, em_etype = t, em_belief = bel,
       em_world_valid_from = fst w, em_world_valid_to = snd w\<rparr>))"

lemma match_full:
  assumes "graph_ok L g"
  shows "match_edges F g src etype dst at mc = map (em_full g) (map em_core (match_edges F g src etype dst at mc))"
proof -
  have one: "em_full g (em_core m) = m" if "m \<in> set (consider_edge F g etype dst at mc e)" and "map_of (tg_edges g) i = Some e" for m e i
  proof -
    have "map_of (tg_edges g) (ed_id e) = Some e" using assms that(2) by (auto simp: graph_ok_def)
    then show ?thesis
      using that(1) by (auto simp: consider_edge_def Let_def em_full_def em_core_def world_of_def unwrap_or_def split: if_splits)
  qed
  have "\<exists>i e. map_of (tg_edges g) i = Some e \<and> m \<in> set (consider_edge F g etype dst at mc e)"
    if m: "m \<in> set (match_edges F g src etype dst at mc)" for m
  proof (cases src)
    case None
    then obtain i e where "(i, e) \<in> set (tg_edges g)" "m \<in> set (consider_edge F g etype dst at mc e)"
      using m by (auto simp: match_edges_def)
    moreover from this(1) have "map_of (tg_edges g) i = Some e"
      using assms by (intro map_of_is_SomeI) (auto simp: graph_ok_def om_ok_def strict_sorted_iff)
    ultimately show ?thesis by blast
  next
    case (Some s)
    then obtain types where "map_of (tg_out g) s = Some types" using m by (cases "map_of (tg_out g) s") (auto simp: match_edges_def)
    then obtain eid where c: "m \<in> set (case map_of (tg_edges g) eid of None \<Rightarrow> [] | Some e \<Rightarrow> consider_edge F g etype dst at mc e)"
      using m Some unfolding match_edges_def by fastforce
    then obtain e where "map_of (tg_edges g) eid = Some e" "m \<in> set (consider_edge F g etype dst at mc e)"
      by (cases "map_of (tg_edges g) eid") auto
    then show ?thesis by blast
  qed
  then show ?thesis using one by (auto simp: comp_def intro!: map_idI [symmetric])
qed

lemma neighbors_listed:
  assumes "graph_ok L g"
  shows "map nb_to (neighbors F g node etype at mc lambda)
    = map (\<lambda>(i, a, b, t). b) (listed (map_of (tg_edges g)) (tg_out g) node (neighbor_core F g etype at mc))"
proof -
  have one: "map nb_to (if (case etype of Some want \<Rightarrow> want \<noteq> t | None \<Rightarrow> False) then [] else edge_neighbor F g at mc lambda t eid)
      = map (\<lambda>(i, a, b, t). b) (case map_of (tg_edges g) eid of None \<Rightarrow> [] | Some e \<Rightarrow> neighbor_core F g etype at mc t e)" for t eid
    using assms by (auto simp: edge_neighbor_def neighbor_core_def graph_ok_def Let_def split: option.split)
  have "map nb_to (if (case etype of Some want \<Rightarrow> want \<noteq> t | None \<Rightarrow> False) then [] else concat (map (edge_neighbor F g at mc lambda t) eids))
      = concat (map (\<lambda>eid. map nb_to (if (case etype of Some want \<Rightarrow> want \<noteq> t | None \<Rightarrow> False) then [] else edge_neighbor F g at mc lambda t eid)) eids)"
    for t eids by (auto simp: map_concat comp_def)
  then show ?thesis
    by (auto simp: neighbors_def listed_def one map_concat comp_def split: option.split intro!: arg_cong [where f = concat] map_cong)
qed

lemma count_listed:
  "count_alive g adj node at = word_of_nat (length (listed (map_of (tg_edges g)) adj node (\<lambda>t e. if alive_at e at then [edge_core e] else [])))"
proof -
  have "length (filter (\<lambda>eid. case map_of (tg_edges g) eid of None \<Rightarrow> False | Some e \<Rightarrow> alive_at e at) (concat (map snd types)))
    = length (concat (map (\<lambda>(t, eids). concat (map (\<lambda>eid. case map_of (tg_edges g) eid of None \<Rightarrow> []
        | Some e \<Rightarrow> if alive_at e at then [edge_core e] else []) eids)) types))" for types :: "(edge_type, str list) ordered_map"
  proof (induction types)
    case (Cons p types)
    have "length (filter (\<lambda>eid. case map_of (tg_edges g) eid of None \<Rightarrow> False | Some e \<Rightarrow> alive_at e at) eids)
      = length (concat (map (\<lambda>eid. case map_of (tg_edges g) eid of None \<Rightarrow> []
        | Some e \<Rightarrow> if alive_at e at then [edge_core e] else []) eids))" for eids
      by (induction eids) (auto split: option.split)
    then show ?case using Cons by (cases p) simp
  qed simp
  then show ?thesis by (simp add: count_alive_def listed_def split: option.split)
qed

section \<open>Time travel\<close>

text \<open>C5. Time travel. In the graph derived from any sequence of events in the order of their LSNs, an edge is alive
  as of an LSN exactly when the last event up to that LSN that speaks of the edge asserts it, through any
  number of retractions and re-assertions, repeated asserts and repeated closes.\<close>

theorem graph_time_travel:
  assumes "sorted (map fst evs)"
  shows "(case map_of (tg_edges (graph_of F pu evs)) i of None \<Rightarrow> False | Some e \<Rightarrow> alive_at e at) \<longleftrightarrow> asserted_as_of evs i at"
  using alive_of [OF assms] by (simp add: edge_alive_def)

definition toy_f32 :: "int f32" where
  "toy_f32 = \<lparr>f_zero = 0, f_one = 1, f_eps = 0, f_add = (+), f_sub = (-), f_mul = (*), f_div = (div), f_neg = uminus,
     f_ln = id, f_exp = id, f_sqrt = id, f_clamp = (\<lambda>p lo hi. min hi (max lo p)), f_less = (<), f_less_eq = (\<le>),
     f_of_u64 = uint, f_bits = word_of_int, f_parse = (\<lambda>_. None)\<rparr>"

definition toy_edge_event :: "string \<Rightarrow> str \<Rightarrow> str \<Rightarrow> graph_episode" where
  "toy_edge_event op a b = \<lparr>ge_id = [1], ge_parents = [], ge_attrs = [ascii ''edge_from'' \<mapsto> a, ascii ''edge_to'' \<mapsto> b,
     ascii ''edge_type'' \<mapsto> ascii ''pagou'', ascii ''edge_op'' \<mapsto> ascii op], ge_valid_from = None, ge_valid_to = None\<rparr>"

definition toy_history :: "(u64 \<times> graph_episode) list" where
  "toy_history = [(1, toy_edge_event ''assert'' [65] [66]), (3, toy_edge_event ''retract'' [65] [66]),
     (5, toy_edge_event ''assert'' [65] [66])]"

theorem graph_time_travel_witness:
  "map (\<lambda>at. case map_of (tg_edges (graph_of toy_f32 (\<lambda>_. None) toy_history)) (edge_id_of [65] [66] Pagou) of
      None \<Rightarrow> False | Some e \<Rightarrow> alive_at e at) [0, 1, 2, 3, 4, 5, 6] = [False, True, True, False, False, True, True]"
proof -
  have s: "sorted (map fst toy_history)" by (simp add: toy_history_def)
  have "map (asserted_as_of toy_history (edge_id_of [65] [66] Pagou)) [0, 1, 2, 3, 4, 5, 6]
      = [False, True, True, False, False, True, True]"
    by code_simp
  then show ?thesis unfolding graph_time_travel [OF s] .
qed

text \<open>C11. History is closed. Which edges \<open>MATCH\<close> answers as of an LSN, with their ends, types and beliefs and in
  what order, what \<open>TRAVERSE\<close> answers and the degree of a node are not changed by any later events: neither by
  new edges, nor by retractions, re-assertions or new hypotheses about old ones. \<open>MATCH\<close> also reports since when
  and until when an edge holds in the world, and this part is not closed: asserting an edge again after a
  retraction overwrites it, for every LSN. Of the edges that no later event asserts, the complete answers are unchanged.\<close>

theorem as_of_is_stable:
  assumes "sorted (map fst (evs @ later))" and "\<forall>(l, e) \<in> set later. at < l"
  shows "map em_core (match_edges F (graph_of F pu (evs @ later)) src etype dst at mc)
      = map em_core (match_edges F (graph_of F pu evs) src etype dst at mc)
    \<and> filter (\<lambda>m. \<not> asserts later (em_edge_id m)) (match_edges F (graph_of F pu (evs @ later)) src etype dst at mc)
      = filter (\<lambda>m. \<not> asserts later (em_edge_id m)) (match_edges F (graph_of F pu evs) src etype dst at mc)
    \<and> traverse F (graph_of F pu (evs @ later)) start depth at mc lambda = traverse F (graph_of F pu evs) start depth at mc lambda
    \<and> degree_at (graph_of F pu (evs @ later)) node at = degree_at (graph_of F pu evs) node at"
proof -
  let ?g = "graph_of F pu evs" and ?g' = "graph_of F pu (evs @ later)"
  have st: "stable_at at ?g ?g'" by (rule stable_later [OF assms])
  have ok: "graph_ok (-1) ?g" "graph_ok (-1) ?g'" using assms(1) by (intro graph_ok_of; simp add: sorted_append)+
  have l: "concat (map (\<lambda>(i, e). h (ed_etype e) e) (tg_edges ?g')) = concat (map (\<lambda>(i, e). h (ed_etype e) e) (tg_edges ?g))"
    "listed (map_of (tg_edges ?g')) (tg_out ?g') n h = listed (map_of (tg_edges ?g)) (tg_out ?g) n h"
    "listed (map_of (tg_edges ?g')) (tg_inn ?g') n h = listed (map_of (tg_edges ?g)) (tg_inn ?g) n h"
    if "timeless at h" for h :: "edge_type \<Rightarrow> graph_edge \<Rightarrow> (str \<times> str \<times> str \<times> edge_type) list" and n
    using st that by (simp_all add: stable_at_def)
  have cores: "map em_core (match_edges F ?g' src etype dst at mc) = map em_core (match_edges F ?g src etype dst at mc)"
    unfolding match_listed stable_cores [OF st] stable_belief [OF st] using l(1,2) [OF timeless_cores(1) [where F = F and g = ?g and etype = etype and dst = dst and mc = mc]]
    by (simp split: option.split)
  have full: "filter P (map (em_full ?g') cs) = filter P (map (em_full ?g) cs)"
    if P: "P = (\<lambda>m. \<not> asserts later (em_edge_id m))" for P and cs :: "(str \<times> str \<times> str \<times> edge_type \<times> 'a) list"
  proof (induction cs)
    case (Cons c cs)
    have "em_edge_id (em_full g c) = fst c" for g :: "'a temporal_graph" by (simp add: em_full_def Let_def split: prod.split)
    moreover have "em_full ?g' c = em_full ?g c" if "\<not> asserts later (fst c)"
      using world_later [OF that, of F pu evs] by (cases c) (simp add: em_full_def)
    ultimately show ?case using Cons by (simp add: P)
  qed simp
  have "filter (\<lambda>m. \<not> asserts later (em_edge_id m)) (match_edges F ?g' src etype dst at mc)
      = filter (\<lambda>m. \<not> asserts later (em_edge_id m)) (match_edges F ?g src etype dst at mc)"
  proof -
    obtain cs where "match_edges F ?g src etype dst at mc = map (em_full ?g) cs" "match_edges F ?g' src etype dst at mc = map (em_full ?g') cs"
      using match_full [OF ok(1)] match_full [OF ok(2)] cores by metis
    then show ?thesis by (simp only: full [OF refl])
  qed
  moreover note cores
  moreover have "map nb_to (neighbors F ?g' a None at mc lambda) = map nb_to (neighbors F ?g a None at mc lambda)" for a
    unfolding neighbors_listed [OF ok(1)] neighbors_listed [OF ok(2)] stable_cores [OF st] using l(2) [OF timeless_cores(2) [where F = F and g = ?g and etype = None and mc = mc]] by simp
  moreover have "timeless at (\<lambda>t e. if alive_at e at then [edge_core e] else [])" by (simp add: timeless_def)
  ultimately show ?thesis using l(2,3) by (simp add: traverse_def degree_at_def count_listed)
qed

theorem as_of_is_stable_witness:
  "traverse toy_f32 (graph_of toy_f32 (\<lambda>_. None) toy_history) [65] 3 2 (-1) 0
    = traverse toy_f32 (graph_of toy_f32 (\<lambda>_. None) [(1, toy_edge_event ''assert'' [65] [66])]) [65] 3 2 (-1) 0"
  using as_of_is_stable [of "[(1, toy_edge_event ''assert'' [65] [66])]"
      "[(3, toy_edge_event ''retract'' [65] [66]), (5, toy_edge_event ''assert'' [65] [66])]" 2 toy_f32 "\<lambda>_. None"]
  by (simp add: toy_history_def)

section \<open>Searches\<close>

text \<open>C32. \<open>TRAVERSE\<close> is breadth-first search: it returns every entity whose distance from the start, over the
  neighbours alive and believed as of the LSN, is between 1 and the depth asked for, exactly once, with that
  distance, in order of distance.\<close>

theorem traverse_finds_distances:
  assumes "succs = (\<lambda>node. map nb_to (neighbors F g node None as_of mc lambda))"
  shows "set (traverse F g start max_depth as_of mc lambda)
      = {(b, n). 1 \<le> n \<and> n \<le> max_depth \<and> (start, b) \<in> hop succs ^^ n \<and> (\<forall>m < n. (start, b) \<notin> hop succs ^^ m)}
    \<and> distinct (map fst (traverse F g start max_depth as_of mc lambda))
    \<and> sorted (map snd (traverse F g start max_depth as_of mc lambda))"
proof -
  have "\<exists>found. traverse_levels succs max_depth (Suc 0) [start] {start} [] = [] @ found \<and> distinct (map fst found)
      \<and> sorted (map snd found) \<and> set found = {(b, m). 0 < m \<and> m \<le> 0 + max_depth \<and> b \<in> at_distance succs start m}"
    by (rule traverse_levels_spec) (simp_all add: at_distance_0)
  moreover have "traverse F g start max_depth as_of mc lambda = traverse_levels succs max_depth (Suc 0) [start] {start} []"
    by (simp add: traverse_def assms)
  moreover have "{(b, m). 0 < m \<and> m \<le> 0 + max_depth \<and> b \<in> at_distance succs start m}
      = {(b, n). 1 \<le> n \<and> n \<le> max_depth \<and> (start, b) \<in> hop succs ^^ n \<and> (\<forall>m < n. (start, b) \<notin> hop succs ^^ m)}"
    unfolding at_distance_def mem_Collect_eq Suc_le_eq One_nat_def add_0 ..
  ultimately show ?thesis by simp
qed

definition toy_graph :: "int temporal_graph" where
  "toy_graph = graph_of toy_f32 (\<lambda>_. None) [(1, toy_edge_event ''assert'' [65] [66]), (2, toy_edge_event ''assert'' [66] [67])]"

theorem traverse_finds_distances_witness:
  "([67], 2) \<in> set (traverse toy_f32 toy_graph [65] 5 9 (-1) 0)
    \<and> ([65], [67]) \<in> hop (\<lambda>node. map nb_to (neighbors toy_f32 toy_graph node None 9 (-1) 0)) ^^ 2"
proof -
  have "([67], 2) \<in> set (traverse toy_f32 toy_graph [65] 5 9 (-1) 0)" by code_simp
  then show ?thesis
    using traverse_finds_distances [OF refl, where F = toy_f32 and g = toy_graph and start = "[65]" and max_depth = 5
        and as_of = 9 and mc = "-1" and lambda = 0] by simp
qed

text \<open>C33. \<open>analyze\<close> finds the communities: two entities have the same label exactly when they are connected, over
  edges alive and believed as of the LSN and regardless of their direction, the label of a community is its
  least member, and every endpoint of such an edge, and nothing else, is labelled.\<close>

theorem analyze_labels_components:
  assumes "es = alive_edges F g as_of mc"
  shows "map_of (fst (analyze F g as_of mc)) a = Some c \<longleftrightarrow> a \<in> endpoints es
    \<and> (a, c) \<in> (joins es)\<^sup>* \<and> (\<forall>b. (a, b) \<in> (joins es)\<^sup>* \<longrightarrow> c \<le> b)"
  using analyze_components [OF assms] by (simp add: least_connected_def)

theorem analyze_labels_components_witness:
  "map_of (fst (analyze toy_f32 toy_graph 9 (-1))) [67] = Some [65]
    \<and> ([67], [65]) \<in> (joins (alive_edges toy_f32 toy_graph 9 (-1)))\<^sup>*"
proof -
  have "map_of (fst (analyze toy_f32 toy_graph 9 (-1))) [67] = Some [65]" by code_simp
  then show ?thesis using analyze_labels_components [OF refl, of toy_f32 toy_graph 9 "-1" "[67]" "[65]"] by simp
qed

section \<open>Colliding edges\<close>

lemma apply_assert:
  assumes "attr e ''edge_from'' = Some a" and "attr e ''edge_to'' = Some b" and "\<not> is_retract e"
  shows "\<exists>new vs w. apply_episode F pu lsn e g = (upsert_edge new vs g)\<lparr>tg_watermark := w\<rparr>
    \<and> ed_id new = edge_id_of a b (episode_etype e) \<and> ed_from new = a"
  by (simp add: apply_episode_def assert_explicit_def assms Let_def) (metis graph_edge.select_convs(1,2))

text \<open>C39. Edge ids collide. The id \<open>from->to#type\<close> does not determine its parts when a name contains the arrow, and
  of two asserted edges with the same id only the first enters the topology: a query from the origin of the
  second, which the log asserts, finds nothing.\<close>

theorem colliding_edge_is_lost:
  assumes "attr e1 ''edge_from'' = Some a1" and "attr e1 ''edge_to'' = Some b1"
    and "attr e2 ''edge_from'' = Some a2" and "attr e2 ''edge_to'' = Some b2"
    and "\<not> is_retract e1" and "\<not> is_retract e2"
    and "edge_id_of a1 b1 (episode_etype e1) = edge_id_of a2 b2 (episode_etype e2)" and "a1 \<noteq> a2"
  shows "match_edges F (graph_of F pu [(l1, e1), (l2, e2)]) (Some a2) None None as_of mc = []
    \<and> (edge_id_of a2 b2 (episode_etype e2), True) \<in> set (edge_ops e2)"
proof -
  obtain n1 vs1 w1 where g1: "apply_episode F pu l1 e1 (tg_new F) = (upsert_edge n1 vs1 (tg_new F))\<lparr>tg_watermark := w1\<rparr>"
    "ed_id n1 = edge_id_of a1 b1 (episode_etype e1)" "ed_from n1 = a1"
    using apply_assert [OF assms(1,2,5)] by blast
  let ?g1 = "(upsert_edge n1 vs1 (tg_new F))\<lparr>tg_watermark := w1\<rparr>"
  obtain n2 vs2 w2 where g2: "apply_episode F pu l2 e2 ?g1 = (upsert_edge n2 vs2 ?g1)\<lparr>tg_watermark := w2\<rparr>"
    "ed_id n2 = edge_id_of a2 b2 (episode_etype e2)"
    using apply_assert [OF assms(3,4,6)] by blast
  have id: "ed_id n2 = ed_id n1" using g1(2) g2(2) assms(7) by simp
  have e1: "map_of (tg_edges (upsert_edge n1 vs1 (tg_new F))) (ed_id n1) \<noteq> None" by (simp add: upsert_edges)
  have out1: "tg_out (upsert_edge n1 vs1 (tg_new F)) = link a1 (ed_etype n1) (ed_id n1) []"
    by (simp add: upsert_lists(1) g1(3)) (simp add: tg_new_def)
  have "tg_out (upsert_edge n2 vs2 ?g1) = tg_out ?g1" by (rule trans [OF upsert_lists(1) if_not_P]) (use e1 id in simp)
  then have "map_of (tg_out (graph_of F pu [(l1, e1), (l2, e2)])) a2 = None"
    using assms(8) out1 by (simp add: graph_of_def g1(1) g2(1) link_def om_simps)
  then show ?thesis using assms(3,4,6) by (simp add: match_edges_def edge_ops_def)
qed

theorem colliding_edge_is_lost_witness:
  "match_edges toy_f32 (graph_of toy_f32 (\<lambda>_. None) [(1, toy_edge_event ''assert'' (ascii ''a'') (ascii ''b->c'')),
    (2, toy_edge_event ''assert'' (ascii ''a->b'') (ascii ''c''))]) (Some (ascii ''a->b'')) None None 9 (-1) = []"
proof -
  let ?e1 = "toy_edge_event ''assert'' (ascii ''a'') (ascii ''b->c'')" and ?e2 = "toy_edge_event ''assert'' (ascii ''a->b'') (ascii ''c'')"
  have "attr ?e1 ''edge_from'' = Some (ascii ''a'')" "attr ?e1 ''edge_to'' = Some (ascii ''b->c'')"
    "attr ?e2 ''edge_from'' = Some (ascii ''a->b'')" "attr ?e2 ''edge_to'' = Some (ascii ''c'')"
    "\<not> is_retract ?e1" "\<not> is_retract ?e2"
    "edge_id_of (ascii ''a'') (ascii ''b->c'') (episode_etype ?e1) = edge_id_of (ascii ''a->b'') (ascii ''c'') (episode_etype ?e2)"
    "ascii ''a'' \<noteq> ascii ''a->b''"
    by code_simp+
  from colliding_edge_is_lost [OF this, where F = toy_f32 and pu = "\<lambda>_. None" and ?l1.0 = 1 and ?l2.0 = 2 and as_of = 9 and mc = "-1"]
  show ?thesis by simp
qed

end
