(* ===== verification/View_Registry.thy ===== *)
theory View_Registry
  imports Episode_Log Dir_Crash
begin

text \<open>
  \<open>heraclitus-views/src/lib.rs\<close>: the registry that keeps derived views up to date with the log, checkpoints them
  and replays the log into them. A view (\<open>Box<dyn View>\<close>) is its name, its \<open>apply\<close>, its state after \<open>reset\<close>, and
  the encoding with which it goes through \<open>ckpt::save\<close> and \<open>ckpt::load\<close>, if it persists at all. The log is a
  parameter with the interface of \<open>Episode_Log\<close>; JSON, bincode and \<open>is_hvm\<close> are parameters.
\<close>

section \<open>Views and their checkpoints\<close>

record ('v, 'ep) view =
  vw_name :: bytes
  vw_new :: 'v
  vw_apply :: "u64 \<Rightarrow> 'ep \<Rightarrow> 'v \<Rightarrow> 'v"
  vw_codec :: "(('v \<Rightarrow> bytes option) \<times> (bytes \<Rightarrow> 'v option)) option"
  vw_state :: 'v

definition ckpt_file :: "bytes \<Rightarrow> file_name" where
  "ckpt_file name = name @ ascii ''.ckpt''"

definition ckpt_tmp :: "bytes \<Rightarrow> file_name" where
  "ckpt_tmp name = name @ ascii ''.ckpt.tmp''"

definition WATERMARKS :: file_name where
  "WATERMARKS = ascii ''watermarks.json''"

definition WATERMARKS_TMP :: file_name where
  "WATERMARKS_TMP = ascii ''watermarks.json.tmp''"

definition ckpt_save :: "('v \<Rightarrow> bytes option) \<Rightarrow> bytes \<Rightarrow> 'v \<Rightarrow> directory \<Rightarrow> string + directory" where
  "ckpt_save enc name v d = (case enc v of
     None \<Rightarrow> Inl ''Serialization''
   | Some bytes \<Rightarrow> (case run_ops [WriteAndSync (ckpt_tmp name) bytes, Rename (ckpt_tmp name) (ckpt_file name)] d of
       Inl e \<Rightarrow> Inl ''Io'' | Inr d \<Rightarrow> Inr d))"

definition ckpt_load :: "(bytes \<Rightarrow> 'v option) \<Rightarrow> bytes \<Rightarrow> directory \<Rightarrow> 'v option" where
  "ckpt_load dec name d = Option.bind (map_of d (ckpt_file name)) dec"

definition view_checkpoint :: "('v, 'ep) view \<Rightarrow> directory \<Rightarrow> string + directory" where
  "view_checkpoint v d = (case vw_codec v of None \<Rightarrow> Inr d | Some (enc, dec) \<Rightarrow> ckpt_save enc (vw_name v) (vw_state v) d)"

text \<open>The restored view keeps its code; only its state comes from the file.\<close>

definition view_restore :: "directory \<Rightarrow> ('v, 'ep) view \<Rightarrow> bool \<times> ('v, 'ep) view" where
  "view_restore d v = (case vw_codec v of
     None \<Rightarrow> (False, v)
   | Some (enc, dec) \<Rightarrow> (case ckpt_load dec (vw_name v) d of None \<Rightarrow> (False, v) | Some st \<Rightarrow> (True, v\<lparr>vw_state := st\<rparr>)))"

section \<open>The registry\<close>

type_synonym watermarks = "(bytes \<times> u64) list"

record json =
  enc_watermarks :: "watermarks \<Rightarrow> bytes option"
  dec_watermarks :: "bytes \<Rightarrow> watermarks option"

record ('v, 'ep) registry =
  rg_dir :: directory
  rg_views :: "('v, 'ep) view list"
  rg_watermarks :: watermarks

definition registry_open :: "json \<Rightarrow> directory \<Rightarrow> string + ('v, 'ep) registry" where
  "registry_open J d = (case map_of d WATERMARKS of
     None \<Rightarrow> Inr \<lparr>rg_dir = d, rg_views = [], rg_watermarks = []\<rparr>
   | Some raw \<Rightarrow> (case dec_watermarks J raw of
       None \<Rightarrow> Inl ''Serialization'' | Some w \<Rightarrow> Inr \<lparr>rg_dir = d, rg_views = [], rg_watermarks = w\<rparr>))"

definition register :: "('v, 'ep) view \<Rightarrow> ('v, 'ep) registry \<Rightarrow> ('v, 'ep) registry" where
  "register v rg = rg\<lparr>rg_views := rg_views rg @ [v]\<rparr>"

definition apply_view :: "u64 \<Rightarrow> 'ep \<Rightarrow> ('v, 'ep) view \<Rightarrow> ('v, 'ep) view" where
  "apply_view lsn event v = v\<lparr>vw_state := vw_apply v lsn event (vw_state v)\<rparr>"

text \<open>One live event; the watermark only advances.\<close>

definition registry_apply :: "('ep \<Rightarrow> bool) \<Rightarrow> u64 \<Rightarrow> 'ep \<Rightarrow> ('v, 'ep) registry \<Rightarrow> ('v, 'ep) registry" where
  "registry_apply is_hvm lsn event rg = (if is_hvm event then rg
     else rg\<lparr>rg_views := map (apply_view lsn event) (rg_views rg),
       rg_watermarks := foldl (\<lambda>w v. AList.update (vw_name v) (max (case map_of w (vw_name v) of None \<Rightarrow> 0 | Some x \<Rightarrow> x) lsn) w)
         (rg_watermarks rg) (rg_views rg)\<rparr>)"

definition reset_watermarks :: "('v, 'ep) registry \<Rightarrow> ('v, 'ep) registry" where
  "reset_watermarks rg = rg\<lparr>rg_watermarks := []\<rparr>"

definition min_or_0 :: "u64 list \<Rightarrow> u64" where
  "min_or_0 xs = (if xs = [] then 0 else Min (set xs))"

definition min_watermark :: "('v, 'ep) registry \<Rightarrow> u64" where
  "min_watermark rg = min_or_0 (map (\<lambda>v. case map_of (rg_watermarks rg) (vw_name v) of None \<Rightarrow> 0 | Some w \<Rightarrow> w) (rg_views rg))"

definition persist_watermarks :: "json \<Rightarrow> ('v, 'ep) registry \<Rightarrow> (string + unit) \<times> ('v, 'ep) registry" where
  "persist_watermarks J rg = (case enc_watermarks J (rg_watermarks rg) of
     None \<Rightarrow> (Inl ''Serialization'', rg)
   | Some raw \<Rightarrow> (case run_ops [WriteAndSync WATERMARKS_TMP raw, Rename WATERMARKS_TMP WATERMARKS] (rg_dir rg) of
       Inl e \<Rightarrow> (Inl ''Io'', rg) | Inr d \<Rightarrow> (Inr (), rg\<lparr>rg_dir := d\<rparr>)))"

fun checkpoint_views :: "('v, 'ep) view list \<Rightarrow> directory \<Rightarrow> (string + unit) \<times> directory" where
  "checkpoint_views [] d = (Inr (), d)"
| "checkpoint_views (v # vs) d = (case view_checkpoint v d of Inl e \<Rightarrow> (Inl e, d) | Inr d \<Rightarrow> checkpoint_views vs d)"

definition registry_checkpoint :: "json \<Rightarrow> ('v, 'ep) registry \<Rightarrow> (string + unit) \<times> ('v, 'ep) registry" where
  "registry_checkpoint J rg = (case checkpoint_views (rg_views rg) (rg_dir rg) of
     (Inl e, d) \<Rightarrow> (Inl e, rg\<lparr>rg_dir := d\<rparr>)
   | (Inr _, d) \<Rightarrow> persist_watermarks J (rg\<lparr>rg_dir := d\<rparr>))"

section \<open>Replay\<close>

definition REPLAY_WINDOW :: nat where
  "REPLAY_WINDOW = 100000"

text \<open>The windowed scan of both replays; \<open>body\<close> is the body of the inner loop.\<close>

partial_function (option) replay_windows :: "('log, 'ep) log_api \<Rightarrow> 'log \<Rightarrow> (u64 \<Rightarrow> bool) \<Rightarrow> u64 \<Rightarrow> (u64 \<times> 'ep \<Rightarrow> 's \<Rightarrow> 's) \<Rightarrow> u64
    \<Rightarrow> 's \<Rightarrow> ((string + unit) \<times> 's) option" where
  "replay_windows A log continue_at bound body cur s =
     (if continue_at cur
      then (case la_scan A log cur bound REPLAY_WINDOW of
          Inl e \<Rightarrow> Some (Inl e, s)
        | Inr batch \<Rightarrow> if batch = [] then Some (Inr (), s)
          else replay_windows A log continue_at bound body (fst (last batch) + 1) (foldl (\<lambda>s r. body r s) s batch))
      else Some (Inr (), s))"

text \<open>The loop over the views for one record; \<open>want\<close> is its condition and may read the watermark of the view.\<close>

fun replay_views :: "(('v, 'ep) view \<Rightarrow> u64 option \<Rightarrow> bool) \<Rightarrow> u64 \<Rightarrow> 'ep \<Rightarrow> ('v, 'ep) view list \<Rightarrow> watermarks \<Rightarrow> u64
    \<Rightarrow> ('v, 'ep) view list \<times> watermarks \<times> u64" where
  "replay_views want lsn ep [] w applied = ([], w, applied)"
| "replay_views want lsn ep (v # vs) w applied =
     (if want v (map_of w (vw_name v))
      then (case replay_views want lsn ep vs (AList.update (vw_name v) lsn w) (applied + 1) of
        (vs, w, applied) \<Rightarrow> (apply_view lsn ep v # vs, w, applied))
      else (case replay_views want lsn ep vs w applied of (vs, w, applied) \<Rightarrow> (v # vs, w, applied)))"

definition replay_record :: "('ep \<Rightarrow> bool) \<Rightarrow> (u64 \<Rightarrow> ('v, 'ep) view \<Rightarrow> u64 option \<Rightarrow> bool) \<Rightarrow> u64 \<times> 'ep
    \<Rightarrow> ('v, 'ep) view list \<times> watermarks \<times> u64 \<Rightarrow> ('v, 'ep) view list \<times> watermarks \<times> u64" where
  "replay_record is_hvm want r s = (case r of (lsn, ep) \<Rightarrow>
     if is_hvm ep then s else (case s of (vs, w, applied) \<Rightarrow> replay_views (want lsn) lsn ep vs w applied))"

definition restore_views :: "('v, 'ep) registry \<Rightarrow> ('v, 'ep) registry" where
  "restore_views rg = (let restored = map (view_restore (rg_dir rg)) (rg_views rg) in
     rg\<lparr>rg_views := map snd restored,
       rg_watermarks := foldl (\<lambda>w r. if fst r then w else AList.delete (vw_name (snd r)) w) (rg_watermarks rg) restored\<rparr>)"

definition resume_lsn :: "('v, 'ep) registry \<Rightarrow> u64" where
  "resume_lsn rg = min_or_0 (map (\<lambda>v. case map_of (rg_watermarks rg) (vw_name v) of Some w \<Rightarrow> w + 1 | None \<Rightarrow> 0) (rg_views rg))"

definition catch_up :: "('log, 'ep) log_api \<Rightarrow> json \<Rightarrow> ('ep \<Rightarrow> bool) \<Rightarrow> 'log \<Rightarrow> ('v, 'ep) registry
    \<Rightarrow> ((string + u64) \<times> ('v, 'ep) registry) option" where
  "catch_up A J is_hvm log rg0 =
     (let rg = restore_views rg0; head = la_head A log in
      case replay_windows A log (\<lambda>cur. cur \<le> head) (head + 1)
          (replay_record is_hvm (\<lambda>lsn v wm. case wm of None \<Rightarrow> True | Some w \<Rightarrow> w < lsn))
          (resume_lsn rg) (rg_views rg, rg_watermarks rg, 0) of
        None \<Rightarrow> None
      | Some (Inl e, (vs, w, applied)) \<Rightarrow> Some (Inl e, rg\<lparr>rg_views := vs, rg_watermarks := w\<rparr>)
      | Some (Inr _, (vs, w, applied)) \<Rightarrow> (case persist_watermarks J (rg\<lparr>rg_views := vs, rg_watermarks := w\<rparr>) of
          (Inl e, rg) \<Rightarrow> Some (Inl e, rg) | (Inr _, rg) \<Rightarrow> Some (Inr applied, rg)))"

definition selects :: "bytes option \<Rightarrow> ('v, 'ep) view \<Rightarrow> bool" where
  "selects view_name v = (case view_name of None \<Rightarrow> True | Some n \<Rightarrow> n = vw_name v)"

definition reset_views :: "bytes option \<Rightarrow> ('v, 'ep) registry \<Rightarrow> ('v, 'ep) registry" where
  "reset_views view_name rg =
     rg\<lparr>rg_views := map (\<lambda>v. if selects view_name v then v\<lparr>vw_state := vw_new v\<rparr> else v) (rg_views rg),
       rg_watermarks := foldl (\<lambda>w v. if selects view_name v then AList.delete (vw_name v) w else w) (rg_watermarks rg) (rg_views rg)\<rparr>"

definition rebuild :: "('log, 'ep) log_api \<Rightarrow> json \<Rightarrow> ('ep \<Rightarrow> bool) \<Rightarrow> 'log \<Rightarrow> bytes option \<Rightarrow> ('v, 'ep) registry
    \<Rightarrow> ((string + unit) \<times> ('v, 'ep) registry) option" where
  "rebuild A J is_hvm log view_name rg0 =
     (let rg = reset_views view_name rg0; head = la_head A log in
      case replay_windows A log (\<lambda>cur. cur < head) head (replay_record is_hvm (\<lambda>lsn v wm. selects view_name v))
          0 (rg_views rg, rg_watermarks rg, 0) of
        None \<Rightarrow> None
      | Some (Inl e, (vs, w, applied)) \<Rightarrow> Some (Inl e, rg\<lparr>rg_views := vs, rg_watermarks := w\<rparr>)
      | Some (Inr _, (vs, w, applied)) \<Rightarrow> Some (persist_watermarks J (rg\<lparr>rg_views := vs, rg_watermarks := w\<rparr>)))"

definition get_view :: "bytes \<Rightarrow> ('v, 'ep) registry \<Rightarrow> ('v, 'ep) view option" where
  "get_view name rg = find (\<lambda>v. vw_name v = name) (rg_views rg)"

section \<open>How the engine starts the registry\<close>

text \<open>\<open>engine.rs\<close>: the three branches of the phase that replays the views; an error ends the start.\<close>

definition open_registered :: "json \<Rightarrow> ('v, 'ep) view list \<Rightarrow> directory \<Rightarrow> string + ('v, 'ep) registry" where
  "open_registered J vs d = (case registry_open J d of
     Inl e \<Rightarrow> Inl e | Inr rg \<Rightarrow> Inr (foldl (\<lambda>rg v. register v rg) rg vs))"

definition checkpointed :: "json \<Rightarrow> (string + 'a) \<times> ('v, 'ep) registry \<Rightarrow> string + ('v, 'ep) registry" where
  "checkpointed J r = (case r of (Inl e, rg) \<Rightarrow> Inl e
     | (Inr _, rg) \<Rightarrow> (case registry_checkpoint J rg of (Inl e, rg) \<Rightarrow> Inl e | (Inr _, rg) \<Rightarrow> Inr rg))"

definition boot_views :: "('log, 'ep) log_api \<Rightarrow> json \<Rightarrow> ('ep \<Rightarrow> bool) \<Rightarrow> ('v, 'ep) view list \<Rightarrow> 'log \<Rightarrow> directory
    \<Rightarrow> (string + ('v, 'ep) registry) option" where
  "boot_views A J is_hvm vs log d = (case open_registered J vs d of
     Inl e \<Rightarrow> Some (Inl e) | Inr rg \<Rightarrow> map_option (checkpointed J) (catch_up A J is_hvm log rg))"

definition boot_rebuilding :: "('log, 'ep) log_api \<Rightarrow> json \<Rightarrow> ('ep \<Rightarrow> bool) \<Rightarrow> ('v, 'ep) view list \<Rightarrow> 'log \<Rightarrow> directory
    \<Rightarrow> (string + ('v, 'ep) registry) option" where
  "boot_rebuilding A J is_hvm vs log d = (case open_registered J vs d of
     Inl e \<Rightarrow> Some (Inl e) | Inr rg \<Rightarrow> map_option (checkpointed J) (rebuild A J is_hvm log None rg))"

definition boot_skipping :: "json \<Rightarrow> ('v, 'ep) view list \<Rightarrow> directory \<Rightarrow> string + ('v, 'ep) registry" where
  "boot_skipping J vs d = (case open_registered J vs d of Inl e \<Rightarrow> Inl e | Inr rg \<Rightarrow> Inr (reset_watermarks rg))"

end
