(* ===== verification/View_Registry_Correct.thy ===== *)
theory View_Registry_Correct
  imports View_Registry
begin

text \<open>
  What the registry keeps: a view is the replay, from its empty state, of the events up to its watermark, in
  memory and, for the snapshot that \<open>restore\<close> would load, on disk.
\<close>

section \<open>The replay of a prefix of the log\<close>

definition events :: "('ep \<Rightarrow> bool) \<Rightarrow> 'ep list \<Rightarrow> nat \<Rightarrow> (u64 \<times> 'ep) list" where
  "events is_hvm eps n = filter (\<lambda>(l, e). \<not> is_hvm e) (map (\<lambda>i. (word_of_nat i, eps ! i)) [0..<n])"

definition replay_of :: "('v, 'ep) view \<Rightarrow> (u64 \<times> 'ep) list \<Rightarrow> 'v" where
  "replay_of v evs = foldl (\<lambda>s (l, e). vw_apply v l e s) (vw_new v) evs"

definition reach :: "u64 option \<Rightarrow> nat" where
  "reach wm = (case wm of None \<Rightarrow> 0 | Some w \<Rightarrow> unat w + 1)"

lemma reach_simps [simp]: "reach None = 0" "reach (Some w) = unat w + 1"
  by (simp_all add: reach_def)

lemma events_simps [simp]:
  "events is_hvm eps 0 = []"
  "events is_hvm eps (Suc n) = events is_hvm eps n @ (if is_hvm (eps ! n) then [] else [(word_of_nat n, eps ! n)])"
  by (simp_all add: events_def)

lemma events_append: "n \<le> length eps \<Longrightarrow> events is_hvm (eps @ later) n = events is_hvm eps n"
  unfolding events_def by (rule arg_cong [of _ _ "filter _"]) (auto simp: nth_append)

lemma replay_of_snoc [simp]: "replay_of v (evs @ [(l, e)]) = vw_apply v l e (replay_of v evs)" "replay_of v [] = vw_new v"
  by (simp_all add: replay_of_def)

text \<open>A view is up to date at its watermark, and everything before \<open>n\<close> is behind its watermark.\<close>

definition synced :: "('ep \<Rightarrow> bool) \<Rightarrow> 'ep list \<Rightarrow> nat \<Rightarrow> ('v, 'ep) view \<Rightarrow> u64 option \<Rightarrow> bool" where
  "synced is_hvm eps n v wm \<longleftrightarrow> vw_state v = replay_of v (events is_hvm eps (reach wm)) \<and> reach wm \<le> length eps
     \<and> events is_hvm eps (max (reach wm) n) = events is_hvm eps (reach wm)"

definition blank :: "('v, 'ep) view \<Rightarrow> ('v, 'ep) view" where
  "blank v = v\<lparr>vw_state := vw_new v\<rparr>"

lemma view_frame [simp]:
  "vw_name (v\<lparr>vw_state := s\<rparr>) = vw_name v" "vw_new (v\<lparr>vw_state := s\<rparr>) = vw_new v"
  "vw_codec (v\<lparr>vw_state := s\<rparr>) = vw_codec v" "vw_apply (v\<lparr>vw_state := s\<rparr>) = vw_apply v"
  "vw_name (apply_view l e v) = vw_name v" "vw_new (apply_view l e v) = vw_new v"
  "vw_state (apply_view l e v) = vw_apply v l e (vw_state v)" "vw_apply (apply_view l e v) = vw_apply v" "vw_codec (apply_view l e v) = vw_codec v"
  "blank (apply_view l e v) = blank v" "blank (v\<lparr>vw_state := s\<rparr>) = blank v" "vw_name (blank v) = vw_name v"
  "vw_codec (blank v) = vw_codec v" "vw_new (blank v) = vw_new v" "vw_state (blank v) = vw_new v"
  by (simp_all add: apply_view_def blank_def)

lemma replay_of_frame [simp]: "replay_of (v\<lparr>vw_state := s\<rparr>) evs = replay_of v evs" "replay_of (apply_view l e v) evs = replay_of v evs"
    "replay_of (blank v) evs = replay_of v evs"
  by (simp_all add: replay_of_def apply_view_def blank_def)

lemma blank_fields:
  assumes "blank v = blank v'"
  shows "vw_name v = vw_name v'" "vw_codec v = vw_codec v'" "vw_new v = vw_new v'" "replay_of v evs = replay_of v' evs"
proof -
  show "vw_name v = vw_name v'" using arg_cong [OF assms, of vw_name] by simp
  show "vw_codec v = vw_codec v'" using arg_cong [OF assms, of vw_codec] by simp
  show "vw_new v = vw_new v'" using arg_cong [OF assms, of vw_new] by simp
  show "replay_of v evs = replay_of v' evs" using arg_cong [OF assms, of "\<lambda>v. replay_of v evs"] by simp
qed

section \<open>One record\<close>

lemma replay_views_result:
  assumes "distinct (map vw_name vs)" and "replay_views want lsn ep vs w n = (vs', w', n')"
  shows "vs' = map (\<lambda>v. if want v (map_of w (vw_name v)) then apply_view lsn ep v else v) vs
    \<and> map_of w' name = (if \<exists>v \<in> set vs. vw_name v = name \<and> want v (map_of w name) then Some lsn else map_of w name)"
  using assms
proof (induction vs arbitrary: w n vs' w' n')
  case (Cons v vs)
  show ?case
  proof (cases "want v (map_of w (vw_name v))")
    case True
    then obtain vs1 where r: "replay_views want lsn ep vs (AList.update (vw_name v) lsn w) (n + 1) = (vs1, w', n')"
      and vs': "vs' = apply_view lsn ep v # vs1"
      using Cons.prems(2) by (auto split: prod.splits)
    have ne: "vw_name u \<noteq> vw_name v" if "u \<in> set vs" for u
      using Cons.prems(1) imageI [OF that, of vw_name] by auto
    have "vs1 = map (\<lambda>u. if want u (map_of w (vw_name u)) then apply_view lsn ep u else u) vs"
      using conjunct1 [OF Cons.IH [OF _ r]] Cons.prems(1) ne by (simp add: update_conv' cong: map_cong)
    then show ?thesis
      using conjunct2 [OF Cons.IH [OF _ r]] Cons.prems(1) True ne unfolding vs' by (auto simp: update_conv')
  next
    case False
    then obtain vs1 where r: "replay_views want lsn ep vs w n = (vs1, w', n')" and vs': "vs' = v # vs1"
      using Cons.prems(2) by (auto split: prod.splits)
    show ?thesis using Cons.IH [OF _ r] Cons.prems(1) False unfolding vs' by auto
  qed
qed auto

text \<open>The loop body of \<open>catch_up\<close> keeps every view at its watermark and moves the position by one.\<close>

abbreviation behind :: "u64 \<Rightarrow> ('v, 'ep) view \<Rightarrow> u64 option \<Rightarrow> bool" where
  "behind lsn v wm \<equiv> (case wm of None \<Rightarrow> True | Some w \<Rightarrow> w < lsn)"

lemma behind_reach: "n < 2 ^ 64 \<Longrightarrow> behind (word_of_nat n) v wm \<longleftrightarrow> reach wm \<le> n"
  by (cases wm) (simp_all add: word_less_nat_alt unsigned_of_nat take_bit_nat_eq_self Suc_le_eq)

lemma synced_step:
  assumes v: "synced is_hvm eps n v wm" and n: "n < length eps" "n < 2 ^ 64"
  shows "is_hvm (eps ! n) \<Longrightarrow> synced is_hvm eps (Suc n) v wm"
    and "\<not> is_hvm (eps ! n) \<Longrightarrow> reach wm \<le> n \<Longrightarrow> synced is_hvm eps (Suc n) (apply_view (word_of_nat n) (eps ! n) v) (Some (word_of_nat n))"
    and "n < reach wm \<Longrightarrow> synced is_hvm eps (Suc n) v wm"
proof -
  have same: "events is_hvm eps (max (reach wm) (Suc n)) = events is_hvm eps (max (reach wm) n)" if "is_hvm (eps ! n) \<or> n < reach wm"
    using that by (cases "n < reach wm") (auto simp: max_def not_less le_Suc_eq)
  show "is_hvm (eps ! n) \<Longrightarrow> synced is_hvm eps (Suc n) v wm" and "n < reach wm \<Longrightarrow> synced is_hvm eps (Suc n) v wm"
    using v same by (auto simp: synced_def)
  assume h: "\<not> is_hvm (eps ! n)" and r: "reach wm \<le> n"
  then have "events is_hvm eps n = events is_hvm eps (reach wm)" using v by (simp add: synced_def max_def)
  then show "synced is_hvm eps (Suc n) (apply_view (word_of_nat n) (eps ! n) v) (Some (word_of_nat n))"
    using v n h by (simp add: synced_def unsigned_of_nat take_bit_nat_eq_self)
qed

definition all_synced :: "('ep \<Rightarrow> bool) \<Rightarrow> 'ep list \<Rightarrow> nat \<Rightarrow> ('v, 'ep) view list \<Rightarrow> watermarks \<Rightarrow> bool" where
  "all_synced is_hvm eps n vs w \<longleftrightarrow> (\<forall>v \<in> set vs. synced is_hvm eps n v (map_of w (vw_name v)))"

lemma replay_record_synced:
  assumes s: "all_synced is_hvm eps n vs w" and d: "distinct (map vw_name vs)" and n: "n < length eps" "n < 2 ^ 64"
    and step: "replay_record is_hvm want (word_of_nat n, eps ! n) (vs, w, k) = (vs', w', k')"
    and want: "\<And>v. v \<in> set vs \<Longrightarrow> want (word_of_nat n) v (map_of w (vw_name v)) \<longleftrightarrow> reach (map_of w (vw_name v)) \<le> n"
  shows "all_synced is_hvm eps (Suc n) vs' w' \<and> map blank vs' = map blank vs \<and> map vw_name vs' = map vw_name vs"
proof (cases "is_hvm (eps ! n)")
  case True
  then show ?thesis using s step synced_step(1) [OF _ n] by (auto simp: all_synced_def replay_record_def)
next
  case False
  let ?l = "word_of_nat n :: u64"
  have r: "replay_views (want ?l) ?l (eps ! n) vs w k = (vs', w', k')" using step False by (simp add: replay_record_def)
  have vs': "vs' = map (\<lambda>v. if reach (map_of w (vw_name v)) \<le> n then apply_view ?l (eps ! n) v else v) vs"
    using replay_views_result [OF d r] want by simp
  have names: "v = u" if "v \<in> set vs" "u \<in> set vs" "vw_name v = vw_name u" for v u
    using d that by (meson distinct_map inj_onD)
  have w': "map_of w' (vw_name v) = (if reach (map_of w (vw_name v)) \<le> n then Some ?l else map_of w (vw_name v))" if "v \<in> set vs" for v
    using conjunct2 [OF replay_views_result [OF d r, of "vw_name v"]] want [OF that] want names that by metis
  have "synced is_hvm eps (Suc n) (if reach (map_of w (vw_name v)) \<le> n then apply_view ?l (eps ! n) v else v) (map_of w' (vw_name v))"
    if v: "v \<in> set vs" for v
    using synced_step(2,3) [OF bspec [OF s [unfolded all_synced_def] v] n] False w' [OF v] by (auto simp: not_le)
  then have "synced is_hvm eps (Suc n) u (map_of w' (vw_name u))" if "u \<in> set vs'" for u
    using that unfolding vs' by (force split: if_splits)
  then show ?thesis by (auto simp: all_synced_def vs')
qed

lemma fold_synced:
  assumes "all_synced is_hvm eps n vs w" and "distinct (map vw_name vs)" and "n \<le> length eps" and "length eps < 2 ^ 64"
    and "foldl (\<lambda>s r. replay_record is_hvm (\<lambda>lsn v wm. behind lsn v wm) r s) (vs, w, k)
      (map (\<lambda>i. (word_of_nat i, eps ! i)) [n..<length eps]) = (vs', w', k')"
  shows "all_synced is_hvm eps (length eps) vs' w' \<and> map blank vs' = map blank vs"
  using assms
proof (induction "length eps - n" arbitrary: n vs w k)
  case (Suc d)
  then have n: "n < length eps" "n < 2 ^ 64" by simp_all
  obtain vs1 w1 k1 where r: "replay_record is_hvm (\<lambda>lsn v wm. behind lsn v wm) (word_of_nat n, eps ! n) (vs, w, k) = (vs1, w1, k1)"
    by (cases "replay_record is_hvm (\<lambda>lsn v wm. behind lsn v wm) (word_of_nat n, eps ! n) (vs, w, k)") auto
  have s1: "all_synced is_hvm eps (Suc n) vs1 w1 \<and> map blank vs1 = map blank vs \<and> map vw_name vs1 = map vw_name vs"
    by (rule replay_record_synced [OF Suc.prems(1,2) n r]) (rule behind_reach [OF n(2)])
  have "[n..<length eps] = n # [Suc n..<length eps]" using n by (simp add: upt_conv_Cons)
  then have f: "foldl (\<lambda>s r. replay_record is_hvm (\<lambda>lsn v wm. behind lsn v wm) r s) (vs1, w1, k1)
      (map (\<lambda>i. (word_of_nat i, eps ! i)) [Suc n..<length eps]) = (vs', w', k')"
    using Suc.prems(5) r by simp
  have "all_synced is_hvm eps (length eps) vs' w' \<and> map blank vs' = map blank vs1"
    by (rule Suc.hyps(1) [OF _ _ _ _ _ f]) (use Suc s1 n in auto)
  then show ?case using s1 by simp
qed auto

text \<open>The loop body of \<open>rebuild\<close> from an empty state.\<close>

lemma fold_selected:
  assumes "distinct (map vw_name vs)" and "m \<le> length eps"
    and "foldl (\<lambda>s r. replay_record is_hvm (\<lambda>lsn v wm. selects nm v) r s)
      (map (\<lambda>v. if selects nm v then blank v else v) vs, w, k) (map (\<lambda>i. (word_of_nat i, eps ! i)) [0..<m]) = (vs', w', k')"
  shows "vs' = map (\<lambda>v. if selects nm v then v\<lparr>vw_state := replay_of v (events is_hvm eps m)\<rparr> else v) vs
    \<and> map_of w' name = (if (\<exists>v \<in> set vs. vw_name v = name \<and> selects nm v) \<and> events is_hvm eps m \<noteq> []
        then Some (fst (last (events is_hvm eps m))) else map_of w name)"
  using assms
proof (induction m arbitrary: vs' w' k')
  case 0
  have "(if selects nm v then blank v else v) = (if selects nm v then v\<lparr>vw_state := vw_new v\<rparr> else v)" for v :: "('a, 'b) view"
    by (simp add: blank_def)
  then show ?case using 0 by auto
next
  case (Suc m)
  let ?body = "\<lambda>s r. replay_record is_hvm (\<lambda>lsn v wm. selects nm v) r s"
  obtain vs1 w1 k1 where f: "foldl ?body (map (\<lambda>v. if selects nm v then blank v else v) vs, w, k)
      (map (\<lambda>i. (word_of_nat i, eps ! i)) [0..<m]) = (vs1, w1, k1)"
    by (cases "foldl ?body (map (\<lambda>v. if selects nm v then blank v else v) vs, w, k) (map (\<lambda>i. (word_of_nat i, eps ! i)) [0..<m])") auto
  then have last_step: "replay_record is_hvm (\<lambda>lsn v wm. selects nm v) (word_of_nat m, eps ! m) (vs1, w1, k1) = (vs', w', k')"
    using Suc.prems(3) by simp
  have vs1: "vs1 = map (\<lambda>v. if selects nm v then v\<lparr>vw_state := replay_of v (events is_hvm eps m)\<rparr> else v) vs"
    and w1: "map_of w1 name = (if (\<exists>v \<in> set vs. vw_name v = name \<and> selects nm v) \<and> events is_hvm eps m \<noteq> []
        then Some (fst (last (events is_hvm eps m))) else map_of w name)"
    using Suc.IH [OF Suc.prems(1) _ f] Suc.prems(2) by simp_all
  show ?case
  proof (cases "is_hvm (eps ! m)")
    case True
    then have "vs' = vs1" "w' = w1" using last_step by (simp_all add: replay_record_def)
    then show ?thesis using vs1 w1 True by (simp cong: if_cong)
  next
    case False
    have sel: "selects nm (v\<lparr>vw_state := s\<rparr>) = selects nm v" for v :: "('a, 'b) view" and s by (cases nm) (simp_all add: selects_def)
    have d: "distinct (map vw_name vs1)" using Suc.prems(1) unfolding vs1 by (simp add: comp_def if_distrib [of vw_name] cong: if_cong)
    have r: "replay_views (\<lambda>v wm. selects nm v) (word_of_nat m) (eps ! m) vs1 w1 k1 = (vs', w', k')"
      using last_step False by (simp add: replay_record_def)
    have "vs' = map (\<lambda>v. if selects nm v then apply_view (word_of_nat m) (eps ! m) v else v) vs1"
      using replay_views_result [OF d r] by simp
    also have "\<dots> = map (\<lambda>v. if selects nm v then v\<lparr>vw_state := replay_of v (events is_hvm eps (Suc m))\<rparr> else v) vs"
      using False unfolding vs1 by (auto simp: sel apply_view_def)
    finally have vs': "vs' = map (\<lambda>v. if selects nm v then v\<lparr>vw_state := replay_of v (events is_hvm eps (Suc m))\<rparr> else v) vs" .
    have "map_of w' name = (if \<exists>v \<in> set vs1. vw_name v = name \<and> selects nm v then Some (word_of_nat m) else map_of w1 name)"
      using replay_views_result [OF d r] by simp
    also have "(\<exists>v \<in> set vs1. vw_name v = name \<and> selects nm v) \<longleftrightarrow> (\<exists>v \<in> set vs. vw_name v = name \<and> selects nm v)"
      unfolding vs1 set_map bex_simps by (rule bex_cong) (simp_all add: sel)
    finally have "map_of w' name = (if \<exists>v \<in> set vs. vw_name v = name \<and> selects nm v then Some (word_of_nat m) else map_of w1 name)" .
    then show ?thesis using vs' w1 False by (cases "\<exists>v \<in> set vs. vw_name v = name \<and> selects nm v") auto
  qed
qed

lemma events_last:
  "n < 2 ^ 64 \<Longrightarrow> events is_hvm eps n \<noteq> [] \<Longrightarrow> unat (fst (last (events is_hvm eps n))) < n
    \<and> events is_hvm eps (Suc (unat (fst (last (events is_hvm eps n))))) = events is_hvm eps n"
  by (induction n) (auto simp: unsigned_of_nat take_bit_nat_eq_self less_Suc_eq)

text \<open>A view whose watermark is not behind any of the records is left alone.\<close>

lemma fold_keeps:
  assumes "distinct (map vw_name vs)" and "u \<in> set vs" and "map_of w (vw_name u) = Some m"
    and "\<forall>(lsn, e) \<in> set recs. is_hvm e \<or> lsn \<le> m"
    and "foldl (\<lambda>s r. replay_record is_hvm (\<lambda>lsn v wm. behind lsn v wm) r s) (vs, w, k) recs = (vs', w', k')"
  shows "u \<in> set vs'"
  using assms
proof (induction recs arbitrary: vs w k)
  case (Cons r recs)
  obtain lsn e where r: "r = (lsn, e)" by (cases r)
  obtain vs1 w1 k1 where s: "replay_record is_hvm (\<lambda>lsn v wm. behind lsn v wm) r (vs, w, k) = (vs1, w1, k1)"
    by (cases "replay_record is_hvm (\<lambda>lsn v wm. behind lsn v wm) r (vs, w, k)") auto
  have "distinct (map vw_name vs1) \<and> u \<in> set vs1 \<and> map_of w1 (vw_name u) = Some m"
  proof (cases "is_hvm e")
    case True
    then show ?thesis using s Cons.prems(1-3) by (simp add: replay_record_def r)
  next
    case False
    then have v: "replay_views (\<lambda>v wm. behind lsn v wm) lsn e vs w k = (vs1, w1, k1)" and m: "lsn \<le> m"
      using s Cons.prems(4) by (auto simp: replay_record_def r)
    have vs1: "vs1 = map (\<lambda>v. if behind lsn v (map_of w (vw_name v)) then apply_view lsn e v else v) vs"
      using replay_views_result [OF Cons.prems(1) v] by blast
    have "u \<in> set vs1" unfolding vs1 set_map using Cons.prems(2,3) m by (intro image_eqI [of _ _ u]) auto
    moreover have "map_of w1 (vw_name u) = Some m"
      using conjunct2 [OF replay_views_result [OF Cons.prems(1) v, of "vw_name u"]] Cons.prems(3) leD [OF m] by simp
    moreover have "map vw_name vs1 = map vw_name vs" unfolding vs1 by auto
    ultimately show ?thesis using Cons.prems(1) by simp
  qed
  moreover have "foldl (\<lambda>s r. replay_record is_hvm (\<lambda>lsn v wm. behind lsn v wm) r s) (vs1, w1, k1) recs = (vs', w', k')"
    using Cons.prems(5) s by simp
  ultimately show ?case using Cons.IH [of vs1 w1 k1] Cons.prems(4) by simp
qed simp

end
