(* ===== verification/View_Registry_Life.thy ===== *)
theory View_Registry_Life
  imports View_Registry_Correct
begin

text \<open>
  The registry over its life: the files it writes, the replays over a log that meets the contract of
  \<open>Episode_Log\<close>, and the invariant that boots, live events, checkpoints, rebuilds and crashes keep.
\<close>

section \<open>The windowed scan\<close>

context episode_log
begin

lemma small: "holds l eps \<Longrightarrow> length eps < 2 ^ 64"
  using fits capacity by (meson less_le_trans)

lemma windows_read:
  assumes h: "holds l eps" and cont: "\<And>j. j < length eps \<Longrightarrow> continue_at (word_of_nat j)" and bound: "length eps \<le> unat bnd"
    and i: "i \<le> length eps"
  shows "replay_windows A l continue_at bnd body (word_of_nat i) s
    = Some (Inr (), foldl (\<lambda>s r. body r s) s (map (\<lambda>i. (word_of_nat i, eps ! i)) [i..<length eps]))"
  using i
proof (induction "length eps - i" arbitrary: i s rule: less_induct)
  case less
  let ?rec = "\<lambda>i. (word_of_nat i :: u64, eps ! i)"
  have u: "unat (word_of_nat i :: u64) = i"
    using less.prems small [OF h] by (simp add: unsigned_of_nat take_bit_nat_eq_self)
  have scan: "la_scan A l (word_of_nat i) bnd REPLAY_WINDOW = Inr (map ?rec (take REPLAY_WINDOW [i..<length eps]))"
    using scan_law [OF h, of "word_of_nat i" bnd REPLAY_WINDOW] u bound by (simp add: min_def)
  show ?case
  proof (cases "i < length eps")
    case True
    define j where "j = min (length eps) (i + REPLAY_WINDOW)"
    have j: "i < j" "j \<le> length eps" using True by (simp_all add: j_def REPLAY_WINDOW_def)
    have win: "take REPLAY_WINDOW [i..<length eps] = [i..<j]" by (auto simp: j_def min_def take_upt)
    have "fst (last (map ?rec [i..<j])) + 1 = (word_of_nat j :: u64)"
      using j by (cases j) (simp_all add: last_map add.commute)
    then have "replay_windows A l continue_at bnd body (word_of_nat i) s
        = replay_windows A l continue_at bnd body (word_of_nat j) (foldl (\<lambda>s r. body r s) s (map ?rec [i..<j]))"
      using cont [OF True] scan j unfolding win by (subst replay_windows.simps) simp
    also have "\<dots> = Some (Inr (), foldl (\<lambda>s r. body r s) (foldl (\<lambda>s r. body r s) s (map ?rec [i..<j])) (map ?rec [j..<length eps]))"
      by (rule less.hyps) (use j True in auto)
    also have "[i..<length eps] = [i..<j] @ [j..<length eps]"
      using j upt_add_eq_append [of i j "length eps - j"] by simp
    ultimately show ?thesis by simp
  next
    case False
    then show ?thesis using scan by (subst replay_windows.simps) simp
  qed
qed

end

section \<open>Files\<close>

lemma view_files [simp]:
  "WATERMARKS_TMP \<noteq> WATERMARKS" "ckpt_file n \<noteq> WATERMARKS" "ckpt_file n \<noteq> WATERMARKS_TMP"
  "ckpt_tmp n \<noteq> WATERMARKS" "ckpt_tmp n \<noteq> ckpt_file m" "WATERMARKS \<noteq> ckpt_tmp n"
  "WATERMARKS \<noteq> ckpt_file n" "WATERMARKS_TMP \<noteq> ckpt_file n" "ckpt_file m \<noteq> ckpt_tmp n"
proof -
  have "List.last (ckpt_file n) = 116" "List.last (ckpt_tmp n) = 112" "List.last (ckpt_file m) = 116" "List.last WATERMARKS = 110"
      "List.last WATERMARKS_TMP = 112"
    by (simp_all add: ckpt_file_def ckpt_tmp_def WATERMARKS_def WATERMARKS_TMP_def ascii_def)
  then show "WATERMARKS_TMP \<noteq> WATERMARKS" "ckpt_file n \<noteq> WATERMARKS" "ckpt_file n \<noteq> WATERMARKS_TMP"
    "ckpt_tmp n \<noteq> WATERMARKS" "ckpt_tmp n \<noteq> ckpt_file m" "WATERMARKS \<noteq> ckpt_tmp n"
    "WATERMARKS \<noteq> ckpt_file n" "WATERMARKS_TMP \<noteq> ckpt_file n" "ckpt_file m \<noteq> ckpt_tmp n" by auto
qed

lemma ckpt_file_inj [simp]: "ckpt_file a = ckpt_file b \<longleftrightarrow> a = b"
  by (simp add: ckpt_file_def)

definition snapshot_of :: "directory \<Rightarrow> ('v, 'ep) view \<Rightarrow> 'v option" where
  "snapshot_of d v = (case vw_codec v of None \<Rightarrow> None | Some (enc, dec) \<Rightarrow> ckpt_load dec (vw_name v) d)"

lemma view_restore_snapshot:
  "view_restore d v = (case snapshot_of d v of None \<Rightarrow> (False, v) | Some st \<Rightarrow> (True, v\<lparr>vw_state := st\<rparr>))"
  by (auto simp: view_restore_def snapshot_of_def split: option.split)

lemma snapshot_cong:
  "(\<And>n. map_of e (ckpt_file n) = map_of d (ckpt_file n)) \<Longrightarrow> snapshot_of e v = snapshot_of d v"
  by (auto simp: snapshot_of_def ckpt_load_def split: option.split)

lemma snapshot_blank: "blank v = blank v' \<Longrightarrow> snapshot_of d v = snapshot_of d v'"
  by (simp only: snapshot_of_def blank_fields(1,2) [of v v'])

lemma snapshot_of_blank [simp]: "snapshot_of d (blank v) = snapshot_of d v"
  by (rule snapshot_blank) (simp add: blank_def)

text \<open>What is asked of the encodings.\<close>

definition json_ok :: "json \<Rightarrow> bool" where
  "json_ok J \<longleftrightarrow> (\<forall>w raw. enc_watermarks J w = Some raw \<longrightarrow> (\<exists>w'. dec_watermarks J raw = Some w' \<and> map_of w' = map_of w))"

definition views_ok :: "('v, 'ep) view list \<Rightarrow> bool" where
  "views_ok vs \<longleftrightarrow> distinct (map vw_name vs)
     \<and> (\<forall>v \<in> set vs. \<forall>enc dec st b. vw_codec v = Some (enc, dec) \<longrightarrow> enc st = Some b \<longrightarrow> dec b = Some st)"

lemma checkpoint_views_files:
  assumes "checkpoint_views vs d = (Inr (), e)" and "views_ok vs"
  shows "map_of e WATERMARKS = map_of d WATERMARKS
    \<and> (\<forall>v \<in> set vs. snapshot_of e v = (case vw_codec v of None \<Rightarrow> None | Some _ \<Rightarrow> Some (vw_state v)))
    \<and> (\<forall>n. n \<notin> vw_name ` set vs \<longrightarrow> map_of e (ckpt_file n) = map_of d (ckpt_file n))"
  using assms
proof (induction vs arbitrary: d)
  case (Cons v vs)
  have d: "vw_name v \<notin> vw_name ` set vs" and ok: "views_ok vs" using Cons.prems(2) by (auto simp: views_ok_def)
  obtain d1 where s: "view_checkpoint v d = Inr d1" and r: "checkpoint_views vs d1 = (Inr (), e)"
    using Cons.prems(1) by (auto split: sum.splits)
  have one: "map_of d1 WATERMARKS = map_of d WATERMARKS \<and> snapshot_of d1 v = (case vw_codec v of None \<Rightarrow> None | Some _ \<Rightarrow> Some (vw_state v))
      \<and> (\<forall>n. n \<noteq> vw_name v \<longrightarrow> map_of d1 (ckpt_file n) = map_of d (ckpt_file n))"
  proof (cases "vw_codec v")
    case (Some c)
    obtain enc dec where c: "c = (enc, dec)" by (cases c)
    then obtain b where b: "enc (vw_state v) = Some b"
      and d1: "run_ops [WriteAndSync (ckpt_tmp (vw_name v)) b, Rename (ckpt_tmp (vw_name v)) (ckpt_file (vw_name v))] d = Inr d1"
      using s Some by (auto simp: view_checkpoint_def ckpt_save_def split: option.splits sum.splits)
    have "dec b = Some (vw_state v)" using Cons.prems(2) Some c b by (auto simp: views_ok_def)
    then show ?thesis
      using d1 Some c by (auto simp: run_ops_def snapshot_of_def ckpt_load_def update_conv' delete_conv')
  qed (use s in \<open>simp add: view_checkpoint_def snapshot_of_def\<close>)
  have "snapshot_of e v = snapshot_of d1 v"
    using Cons.IH [OF r ok] d by (auto simp: snapshot_of_def ckpt_load_def split: option.split)
  then show ?case using Cons.IH [OF r ok] one d by auto
qed simp

lemma persist_files:
  assumes "persist_watermarks J rg = (r, rg')"
  shows "rg_views rg' = rg_views rg \<and> rg_watermarks rg' = rg_watermarks rg
    \<and> (\<forall>n. map_of (rg_dir rg') (ckpt_file n) = map_of (rg_dir rg) (ckpt_file n))
    \<and> (r = Inr () \<longrightarrow> (\<exists>raw. enc_watermarks J (rg_watermarks rg) = Some raw \<and> map_of (rg_dir rg') WATERMARKS = Some raw))
    \<and> (enc_watermarks J (rg_watermarks rg) \<noteq> None \<longrightarrow> r = Inr ())"
  using assms by (auto simp: persist_watermarks_def run_ops_def update_conv' delete_conv' split: option.splits sum.splits)

section \<open>Catching up and rebuilding\<close>

definition last_mark :: "(u64 \<times> 'ep) list \<Rightarrow> u64 option" where
  "last_mark evs = (if evs = [] then None else Some (fst (last evs)))"

lemma foldl_delete:
  "map_of (foldl (\<lambda>w x. if P x then w else AList.delete (f x) w) w xs) n = (if \<exists>x \<in> set xs. \<not> P x \<and> f x = n then None else map_of w n)"
  by (induction xs arbitrary: w) (auto simp: delete_conv')

lemma foldl_delete_if:
  "map_of (foldl (\<lambda>w x. if P x then AList.delete (f x) w else w) w xs) n = (if \<exists>x \<in> set xs. P x \<and> f x = n then None else map_of w n)"
  by (induction xs arbitrary: w) (auto simp: delete_conv')

definition disk_synced :: "json \<Rightarrow> ('ep \<Rightarrow> bool) \<Rightarrow> 'ep list \<Rightarrow> directory \<Rightarrow> ('v, 'ep) view list \<Rightarrow> bool" where
  "disk_synced J is_hvm eps d vs \<longleftrightarrow> (\<exists>w. registry_open J d = Inr \<lparr>rg_dir = d, rg_views = ([] :: ('v, 'ep) view list), rg_watermarks = w\<rparr>
     \<and> (\<forall>v \<in> set vs. \<forall>st. snapshot_of d v = Some st \<longrightarrow> synced is_hvm eps 0 (v\<lparr>vw_state := st\<rparr>) (map_of w (vw_name v))))"

lemma restore_frame [simp]: "vw_name (snd (view_restore d v)) = vw_name v" "blank (snd (view_restore d v)) = blank v"
  by (auto simp: view_restore_snapshot split: option.split)

lemma restore_synced:
  assumes "rg_watermarks rg = w" and d: "distinct (map vw_name (rg_views rg))" and b: "\<forall>v \<in> set (rg_views rg). vw_state v = vw_new v"
    and st: "\<forall>v \<in> set (rg_views rg). \<forall>st. snapshot_of (rg_dir rg) v = Some st
      \<longrightarrow> synced is_hvm eps 0 (v\<lparr>vw_state := st\<rparr>) (map_of w (vw_name v))"
  shows "all_synced is_hvm eps 0 (rg_views (restore_views rg)) (rg_watermarks (restore_views rg))"
proof -
  let ?r = "view_restore (rg_dir rg)"
  have "synced is_hvm eps 0 (snd (?r v)) (map_of (rg_watermarks (restore_views rg)) (vw_name v))" if v: "v \<in> set (rg_views rg)" for v
  proof (cases "snapshot_of (rg_dir rg) v")
    case None
    then have "map_of (rg_watermarks (restore_views rg)) (vw_name v) = None"
      using v by (auto simp: restore_views_def Let_def foldl_delete view_restore_snapshot intro!: bexI [of _ v])
    then show ?thesis using None b v by (simp add: view_restore_snapshot synced_def)
  next
    case (Some s)
    have "u = v" if "u \<in> set (rg_views rg)" and "vw_name u = vw_name v" for u
      using d v that by (meson distinct_map inj_onD)
    then have "map_of (rg_watermarks (restore_views rg)) (vw_name v) = map_of w (vw_name v)"
      using assms(1) Some by (auto simp: restore_views_def Let_def foldl_delete) (metis fst_conv option.simps(5) view_restore_snapshot)+
    then show ?thesis using Some st v by (simp add: view_restore_snapshot)
  qed
  then show ?thesis by (simp add: all_synced_def restore_views_def Let_def)
qed

lemma resume_lsn_reach:
  fixes rg :: "('v, 'ep) registry"
  assumes "\<forall>v \<in> set (rg_views rg). reach (map_of (rg_watermarks rg) (vw_name v)) \<le> N" and "N < 2 ^ 64"
  shows "\<exists>m. resume_lsn rg = word_of_nat m \<and> m \<le> N \<and> (\<forall>v \<in> set (rg_views rg). m \<le> reach (map_of (rg_watermarks rg) (vw_name v)))"
proof (cases "rg_views rg")
  case Nil
  then show ?thesis by (intro exI [of _ 0]) (simp add: resume_lsn_def min_or_0_def)
next
  case (Cons u us)
  define f where "f = (\<lambda>v :: ('v, 'ep) view. case map_of (rg_watermarks rg) (vw_name v) of Some w \<Rightarrow> w + 1 | None \<Rightarrow> (0 :: u64))"
  have f: "unat (f v) = reach (map_of (rg_watermarks rg) (vw_name v))" if "v \<in> set (rg_views rg)" for v
    using bspec [OF assms(1) that] assms(2) by (auto simp: f_def unat_add_u64 split: option.split)
  have r: "resume_lsn rg = Min (f ` set (rg_views rg))" using Cons by (simp add: resume_lsn_def min_or_0_def f_def)
  have "Min (f ` set (rg_views rg)) \<in> f ` set (rg_views rg)" using Cons by (intro Min_in) auto
  then obtain v where v: "v \<in> set (rg_views rg)" "Min (f ` set (rg_views rg)) = f v" by auto
  have "unat (f v) \<le> unat (f x)" if "x \<in> set (rg_views rg)" for x
    using v(2) that by (metis (no_types) Min_le finite_imageI finite_set imageI word_le_nat_alt)
  then have "reach (map_of (rg_watermarks rg) (vw_name v)) \<le> reach (map_of (rg_watermarks rg) (vw_name x))" if "x \<in> set (rg_views rg)" for x
    using that v(1) by (simp add: f)
  moreover have "resume_lsn rg = word_of_nat (reach (map_of (rg_watermarks rg) (vw_name v)))"
    unfolding r v(2) by (simp flip: f [OF v(1)])
  ultimately show ?thesis using v(1) assms(1) by blast
qed

context episode_log
begin

text \<open>\<open>catch_up\<close> reads the log from a position that no view is behind, and then persists the watermarks.\<close>

lemma catch_up_reads:
  fixes rg :: "('v, 'ep) registry"
  assumes h: "holds l eps" and cap: "length eps + 1 < capacity"
    and r: "\<forall>v \<in> set (rg_views (restore_views rg)). reach (map_of (rg_watermarks (restore_views rg)) (vw_name v)) \<le> length eps"
  obtains m vs w k r rg' where "m \<le> length eps"
    "\<forall>v \<in> set (rg_views (restore_views rg)). m \<le> reach (map_of (rg_watermarks (restore_views rg)) (vw_name v))"
    "foldl (\<lambda>s r. replay_record is_hvm (\<lambda>lsn (v :: ('v, 'ep) view) wm. behind lsn v wm) r s)
        (rg_views (restore_views rg), rg_watermarks (restore_views rg), 0) (map (\<lambda>i. (word_of_nat i, eps ! i)) [m..<length eps]) = (vs, w, k)"
    "persist_watermarks J (restore_views rg\<lparr>rg_views := vs, rg_watermarks := w\<rparr>) = (r, rg')"
    "catch_up A J is_hvm l rg = Some (case r of Inl e \<Rightarrow> Inl e | Inr _ \<Rightarrow> Inr k, rg')"
proof -
  let ?rg = "restore_views rg" and ?body = "replay_record is_hvm (\<lambda>lsn (v :: ('v, 'ep) view) wm. behind lsn v wm)"
  obtain m where m: "resume_lsn ?rg = word_of_nat m" "m \<le> length eps"
    "\<forall>v \<in> set (rg_views ?rg). m \<le> reach (map_of (rg_watermarks ?rg) (vw_name v))"
    using resume_lsn_reach [OF r small [OF h]] by auto
  have hd: "unat (la_head A l + 1) = length eps + 1"
    using unat_head [OF h] cap capacity by (simp add: unat_add_u64)
  have w: "replay_windows A l (\<lambda>cur. cur \<le> la_head A l) (la_head A l + 1) ?body (word_of_nat m) (rg_views ?rg, rg_watermarks ?rg, 0)
    = Some (Inr (), foldl (\<lambda>s r. ?body r s) (rg_views ?rg, rg_watermarks ?rg, 0) (map (\<lambda>i. (word_of_nat i, eps ! i)) [m..<length eps]))"
    by (rule windows_read [OF h _ _ m(2)])
      (use unat_head [OF h] hd below_head [OF h] in \<open>simp_all add: word_le_nat_alt less_imp_le_nat\<close>)
  obtain vs ws k where f: "foldl (\<lambda>s r. ?body r s) (rg_views ?rg, rg_watermarks ?rg, 0) (map (\<lambda>i. (word_of_nat i, eps ! i)) [m..<length eps]) = (vs, ws, k)"
    by (cases "foldl (\<lambda>s r. ?body r s) (rg_views ?rg, rg_watermarks ?rg, 0) (map (\<lambda>i. (word_of_nat i, eps ! i)) [m..<length eps])") auto
  obtain r rg' where p: "persist_watermarks J (?rg\<lparr>rg_views := vs, rg_watermarks := ws\<rparr>) = (r, rg')"
    by (cases "persist_watermarks J (?rg\<lparr>rg_views := vs, rg_watermarks := ws\<rparr>)")
  have "catch_up A J is_hvm l rg = Some (case r of Inl e \<Rightarrow> Inl e | Inr _ \<Rightarrow> Inr k, rg')"
    by (auto simp: catch_up_def Let_def m(1) w f p split: sum.split)
  then show ?thesis by (rule that [OF m(2,3) f p])
qed

lemma catch_up_ok:
  fixes rg :: "('v, 'ep) registry"
  assumes h: "holds l eps" and cap: "length eps + 1 < capacity" and d: "distinct (map vw_name (rg_views rg))"
    and s: "all_synced is_hvm eps 0 (rg_views (restore_views rg)) (rg_watermarks (restore_views rg))"
  shows "\<exists>r rg'. catch_up A J is_hvm l rg = Some (r, rg') \<and> all_synced is_hvm eps (length eps) (rg_views rg') (rg_watermarks rg')
    \<and> map blank (rg_views rg') = map blank (rg_views rg)
    \<and> (enc_watermarks J (rg_watermarks rg') \<noteq> None \<longrightarrow> (\<exists>n. r = Inr n))"
proof -
  let ?rg = "restore_views rg"
  have frame: "map vw_name (rg_views ?rg) = map vw_name (rg_views rg)" "map blank (rg_views ?rg) = map blank (rg_views rg)"
    by (simp_all add: restore_views_def Let_def)
  have bnd: "\<forall>v \<in> set (rg_views ?rg). reach (map_of (rg_watermarks ?rg) (vw_name v)) \<le> length eps"
    using s by (simp add: all_synced_def synced_def)
  obtain m vs ws k r rg' where m: "m \<le> length eps"
    "\<forall>v \<in> set (rg_views ?rg). m \<le> reach (map_of (rg_watermarks ?rg) (vw_name v))"
    and f: "foldl (\<lambda>s r. replay_record is_hvm (\<lambda>lsn (v :: ('v, 'ep) view) wm. behind lsn v wm) r s)
        (rg_views ?rg, rg_watermarks ?rg, 0) (map (\<lambda>i. (word_of_nat i, eps ! i)) [m..<length eps]) = (vs, ws, k)"
    and p: "persist_watermarks J (?rg\<lparr>rg_views := vs, rg_watermarks := ws\<rparr>) = (r, rg')"
    and c: "catch_up A J is_hvm l rg = Some (case r of Inl e \<Rightarrow> Inl e | Inr _ \<Rightarrow> Inr k, rg')"
    by (rule catch_up_reads [OF h cap bnd, of is_hvm J]) (rule that)
  have "all_synced is_hvm eps m (rg_views ?rg) (rg_watermarks ?rg)"
    using s m(2) by (auto simp: all_synced_def synced_def max_def dest!: bspec le_antisym)
  then have "all_synced is_hvm eps (length eps) vs ws \<and> map blank vs = map blank (rg_views ?rg)"
    by (rule fold_synced [OF _ _ m(1) small [OF h] f]) (use d frame in simp)
  then show ?thesis using persist_files [OF p] frame c by auto
qed

lemma rebuild_ok:
  fixes rg :: "('v, 'ep) registry"
  assumes h: "holds l eps" and d: "distinct (map vw_name (rg_views rg))"
  shows "\<exists>r rg'. rebuild A J is_hvm l nm rg = Some (r, rg')
    \<and> rg_views rg' = map (\<lambda>v. if selects nm v then v\<lparr>vw_state := replay_of v (events is_hvm eps (length eps))\<rparr> else v) (rg_views rg)
    \<and> (\<forall>v \<in> set (rg_views rg). map_of (rg_watermarks rg') (vw_name v)
        = (if selects nm v then last_mark (events is_hvm eps (length eps)) else map_of (rg_watermarks rg) (vw_name v)))
    \<and> (\<forall>v :: ('v, 'ep) view. snapshot_of (rg_dir rg') v = snapshot_of (rg_dir rg) v)
    \<and> (r = Inr () \<longrightarrow> (\<exists>raw. enc_watermarks J (rg_watermarks rg') = Some raw \<and> map_of (rg_dir rg') WATERMARKS = Some raw))
    \<and> (enc_watermarks J (rg_watermarks rg') \<noteq> None \<longrightarrow> r = Inr ())"
proof -
  let ?rg = "reset_views nm rg" and ?body = "replay_record is_hvm (\<lambda>lsn (v :: ('v, 'ep) view) wm. selects nm v)"
  let ?recs = "map (\<lambda>i. (word_of_nat i :: u64, eps ! i)) [0..<length eps]"
  have views: "rg_views ?rg = map (\<lambda>v. if selects nm v then blank v else v) (rg_views rg)" by (simp add: reset_views_def blank_def)
  have w: "replay_windows A l (\<lambda>cur. cur < la_head A l) (la_head A l) ?body (word_of_nat 0) (rg_views ?rg, rg_watermarks ?rg, 0)
      = Some (Inr (), foldl (\<lambda>s r. ?body r s) (rg_views ?rg, rg_watermarks ?rg, 0) ?recs)"
    by (rule windows_read [OF h]) (use unat_head [OF h] below_head [OF h] in \<open>simp_all add: word_less_nat_alt\<close>)
  obtain vs ws k where f: "foldl (\<lambda>s r. ?body r s) (rg_views ?rg, rg_watermarks ?rg, 0) ?recs = (vs, ws, k)"
    by (cases "foldl (\<lambda>s r. ?body r s) (rg_views ?rg, rg_watermarks ?rg, 0) ?recs") auto
  note sel = fold_selected [OF d le_refl f [unfolded views]]
  obtain r rg' where p: "persist_watermarks J (?rg\<lparr>rg_views := vs, rg_watermarks := ws\<rparr>) = (r, rg')"
    by (cases "persist_watermarks J (?rg\<lparr>rg_views := vs, rg_watermarks := ws\<rparr>)")
  have reb: "rebuild A J is_hvm l nm rg = Some (r, rg')"
    using w by (simp add: rebuild_def Let_def f p)
  have names: "u = v" if "u \<in> set (rg_views rg)" "v \<in> set (rg_views rg)" "vw_name u = vw_name v" for u v
    using d that by (meson distinct_map inj_onD)
  have marks: "map_of ws (vw_name v) = (if selects nm v then last_mark (events is_hvm eps (length eps)) else map_of (rg_watermarks rg) (vw_name v))"
    if v: "v \<in> set (rg_views rg)" for v
  proof -
    have "(\<exists>u \<in> set (rg_views rg). vw_name u = vw_name v \<and> selects nm u) \<longleftrightarrow> selects nm v"
      and "(\<exists>u \<in> set (rg_views rg). selects nm u \<and> vw_name u = vw_name v) \<longleftrightarrow> selects nm v" using names v by blast+
    then show ?thesis
      using conjunct2 [OF sel, of "vw_name v"] by (simp add: reset_views_def foldl_delete_if last_mark_def)
  qed
  have "rg_dir ?rg = rg_dir rg" by (simp add: reset_views_def)
  then show ?thesis using reb persist_files [OF p] sel marks by (auto intro: snapshot_cong)
qed

end

end
