(* ===== verification/View_Registry_Behaviour.thy ===== *)
theory View_Registry_Behaviour
  imports View_Registry_Life
begin

text \<open>
  The life of the registry beside its log, and its properties: what the views in memory and the files are worth
  after any sequence of operations and crashes between them, and the ways in which a snapshot and its watermark
  come apart.
\<close>

section \<open>Invariant\<close>

text \<open>What the views in memory are worth: the replay of the whole log, a replay up to their watermarks, or neither.\<close>

datatype memory = Whole | Behind | Broken

definition memory_inv :: "('ep \<Rightarrow> bool) \<Rightarrow> ('v, 'ep) view list \<Rightarrow> 'ep list \<Rightarrow> memory \<Rightarrow> ('v, 'ep) registry \<Rightarrow> bool" where
  "memory_inv is_hvm vs eps m rg \<longleftrightarrow> map blank (rg_views rg) = vs \<and> (case m of
     Whole \<Rightarrow> all_synced is_hvm eps (length eps) (rg_views rg) (rg_watermarks rg)
   | Behind \<Rightarrow> all_synced is_hvm eps 0 (rg_views rg) (rg_watermarks rg) | Broken \<Rightarrow> True)"

lemma views_ok_blank:
  assumes "views_ok vs" and "map blank us = vs"
  shows "views_ok us" and "distinct (map vw_name us)"
proof -
  have n: "map vw_name us = map vw_name vs" using assms(2) by (auto simp: comp_def)
  have "\<exists>v \<in> set vs. vw_codec v = vw_codec u" if "u \<in> set us" for u
    using assms(2) that by (auto intro: bexI [of _ "blank u"])
  then show "views_ok us" using assms(1) n unfolding views_ok_def by metis
  then show "distinct (map vw_name us)" by (simp add: views_ok_def)
qed

lemma synced_start: "synced is_hvm eps n v wm \<Longrightarrow> synced is_hvm eps 0 v wm"
  by (simp add: synced_def)

lemma all_synced_start: "all_synced is_hvm eps n vs w \<Longrightarrow> all_synced is_hvm eps 0 vs w"
  using synced_start by (fastforce simp: all_synced_def)

lemma memory_synced: "memory_inv is_hvm vs eps m rg \<Longrightarrow> m \<noteq> Broken \<Longrightarrow> all_synced is_hvm eps 0 (rg_views rg) (rg_watermarks rg)"
  using all_synced_start by (cases m) (auto simp: memory_inv_def)

lemma synced_now: "synced is_hvm eps (length eps) v wm \<Longrightarrow> vw_state v = replay_of v (events is_hvm eps (length eps))"
  by (simp add: synced_def max_def split: if_splits)

lemma synced_append: "synced is_hvm eps n v wm \<Longrightarrow> n \<le> length eps \<Longrightarrow> synced is_hvm (eps @ later) n v wm"
  by (simp add: synced_def events_append)

lemma disk_synced_append: "disk_synced J is_hvm eps d vs \<Longrightarrow> disk_synced J is_hvm (eps @ later) d vs"
  unfolding disk_synced_def using synced_append [of is_hvm eps 0] by fastforce

lemma disk_synced_fresh: "disk_synced J is_hvm eps [] vs"
  by (auto simp: disk_synced_def registry_open_def snapshot_of_def ckpt_load_def split: option.split)

text \<open>A checkpoint of synchronised views leaves a synchronised disk.\<close>

lemma checkpoint_ok:
  fixes rg :: "('v, 'ep) registry"
  assumes "registry_checkpoint J rg = (Inr (), rg')" and "json_ok J" and "views_ok (rg_views rg)"
  shows "rg_views rg' = rg_views rg \<and> rg_watermarks rg' = rg_watermarks rg
    \<and> (\<exists>w. registry_open J (rg_dir rg') = Inr \<lparr>rg_dir = rg_dir rg', rg_views = ([] :: ('v, 'ep) view list), rg_watermarks = w\<rparr>
        \<and> map_of w = map_of (rg_watermarks rg))
    \<and> (\<forall>v \<in> set (rg_views rg). snapshot_of (rg_dir rg') v = (case vw_codec v of None \<Rightarrow> None | Some _ \<Rightarrow> Some (vw_state v)))"
proof -
  obtain d where c: "checkpoint_views (rg_views rg) (rg_dir rg) = (Inr (), d)"
    and p: "persist_watermarks J (rg\<lparr>rg_dir := d\<rparr>) = (Inr (), rg')"
    using assms(1) by (auto simp: registry_checkpoint_def split: prod.splits sum.splits)
  have f: "rg_views rg' = rg_views rg" "rg_watermarks rg' = rg_watermarks rg"
    "\<forall>n. map_of (rg_dir rg') (ckpt_file n) = map_of d (ckpt_file n)"
    using persist_files [OF p] by simp_all
  obtain raw where raw: "enc_watermarks J (rg_watermarks rg) = Some raw" "map_of (rg_dir rg') WATERMARKS = Some raw"
    using persist_files [OF p] by auto
  then obtain w where w: "dec_watermarks J raw = Some w" "map_of w = map_of (rg_watermarks rg)" using assms(2) by (auto simp: json_ok_def)
  have "registry_open J (rg_dir rg') = Inr \<lparr>rg_dir = rg_dir rg', rg_views = ([] :: ('v, 'ep) view list), rg_watermarks = w\<rparr>"
    by (simp add: registry_open_def raw(2) w(1))
  moreover have "snapshot_of (rg_dir rg') v = (case vw_codec v of None \<Rightarrow> None | Some _ \<Rightarrow> Some (vw_state v))" if "v \<in> set (rg_views rg)" for v
    using checkpoint_views_files [OF c assms(3)] that snapshot_cong [of "rg_dir rg'" d v] f(3) by simp
  ultimately show ?thesis using f w(2) by blast
qed

lemma checkpoint_frame:
  "registry_checkpoint J rg = (r, rg') \<Longrightarrow> rg_views rg' = rg_views rg \<and> rg_watermarks rg' = rg_watermarks rg"
  by (auto simp: registry_checkpoint_def dest: persist_files split: prod.splits sum.splits)

lemma checkpoint_inv:
  fixes rg :: "('v, 'ep) registry"
  assumes "registry_checkpoint J rg = (Inr (), rg')" and "json_ok J" and "views_ok vs" and "map blank (rg_views rg) = vs"
    and "all_synced is_hvm eps n (rg_views rg) (rg_watermarks rg)"
  shows "disk_synced J is_hvm eps (rg_dir rg') vs"
proof -
  obtain w where c: "rg_views rg' = rg_views rg" "rg_watermarks rg' = rg_watermarks rg"
    "registry_open J (rg_dir rg') = Inr \<lparr>rg_dir = rg_dir rg', rg_views = ([] :: ('v, 'ep) view list), rg_watermarks = w\<rparr>"
    "map_of w = map_of (rg_watermarks rg)"
    "\<forall>v \<in> set (rg_views rg). snapshot_of (rg_dir rg') v = (case vw_codec v of None \<Rightarrow> None | Some _ \<Rightarrow> Some (vw_state v))"
    using checkpoint_ok [OF assms(1,2) views_ok_blank(1) [OF assms(3,4)]] by blast
  have "synced is_hvm eps 0 (v\<lparr>vw_state := st\<rparr>) (map_of w (vw_name v))" if v: "v \<in> set vs" and st: "snapshot_of (rg_dir rg') v = Some st" for v st
  proof -
    obtain u where u: "u \<in> set (rg_views rg)" "v = blank u" using v assms(4) by auto
    have "vw_state u = st"
      using bspec [OF c(5) u(1)] st by (simp add: u(2) split: option.splits)
    moreover have "synced is_hvm eps n u (map_of w (vw_name u))" using assms(5) u(1) c(4) by (simp add: all_synced_def)
    ultimately show ?thesis unfolding u(2) by (simp add: synced_def)
  qed
  then show ?thesis using c(3) by (auto simp: disk_synced_def)
qed

text \<open>The registry that \<open>open\<close> and \<open>register\<close> give.\<close>

lemma registered: "foldl (\<lambda>rg v. register v rg) rg vs = rg\<lparr>rg_views := rg_views rg @ vs\<rparr>"
  by (induction vs arbitrary: rg) (simp_all add: register_def)

lemma open_registered_Inr:
  fixes vs :: "('v, 'ep) view list"
  shows "registry_open J d = Inr \<lparr>rg_dir = d, rg_views = ([] :: ('v, 'ep) view list), rg_watermarks = w\<rparr>
    \<Longrightarrow> open_registered J vs d = Inr \<lparr>rg_dir = d, rg_views = vs, rg_watermarks = w\<rparr>"
  by (simp add: open_registered_def registered)

lemma checkpointed_Inr:
  "checkpointed J (r, rg) = Inr rg' \<Longrightarrow> registry_checkpoint J rg = (Inr (), rg') \<and> (\<exists>x. r = Inr x)"
  by (auto simp: checkpointed_def split: sum.splits prod.splits)

lemma last_mark_reach:
  assumes "length eps < 2 ^ 64"
  shows "reach (last_mark (events is_hvm eps (length eps))) \<le> length eps
    \<and> events is_hvm eps (reach (last_mark (events is_hvm eps (length eps)))) = events is_hvm eps (length eps)"
  using events_last [OF assms, of is_hvm eps] by (auto simp: last_mark_def)

lemma apply_marks:
  "map_of (foldl (\<lambda>w v. AList.update (vw_name v) (max (case map_of w (vw_name v) of None \<Rightarrow> 0 | Some x \<Rightarrow> x) (lsn :: u64)) w) w vs) n
    = (if n \<in> vw_name ` set vs then Some (max (case map_of w n of None \<Rightarrow> 0 | Some x \<Rightarrow> x) lsn) else map_of w n)"
  by (induction vs arbitrary: w) (auto simp: update_conv' max.assoc split: option.splits)

lemma apply_dir [simp]: "rg_dir (registry_apply is_hvm lsn ep rg) = rg_dir rg"
  by (simp add: registry_apply_def)

text \<open>A live event: a view that was the whole replay still is; one that was behind is not even that, unless the
  event is a frame of the virtual machine.\<close>

definition after_event :: "bool \<Rightarrow> memory \<Rightarrow> memory" where
  "after_event hvm m = (if m = Behind \<and> \<not> hvm then Broken else m)"

lemma apply_inv:
  fixes rg :: "('v, 'ep) registry"
  assumes "memory_inv is_hvm vs eps m rg" and len: "length eps < 2 ^ 64"
  shows "memory_inv is_hvm vs (eps @ [ep]) (after_event (is_hvm ep) m) (registry_apply is_hvm (word_of_nat (length eps)) ep rg)"
proof (cases m)
  case Broken
  then show ?thesis using assms(1) by (auto simp: memory_inv_def registry_apply_def after_event_def)
next
  case Behind
  then show ?thesis
    using assms(1) synced_append [of is_hvm eps 0]
    by (fastforce simp: memory_inv_def registry_apply_def after_event_def all_synced_def)
next
  case Whole
  show ?thesis
  proof (cases "is_hvm ep")
    case True
    have "synced is_hvm (eps @ [ep]) (Suc (length eps)) v wm" if "synced is_hvm eps (length eps) v wm" for v :: "('v, 'ep) view" and wm
      using synced_step(1) [OF synced_append [OF that, of "[ep]"]] len True by simp
    then show ?thesis using assms(1) True Whole
      by (auto simp: memory_inv_def registry_apply_def all_synced_def after_event_def)
  next
    case False
    let ?n = "length eps"
    have "synced is_hvm (eps @ [ep]) (Suc ?n) (apply_view (word_of_nat ?n) ep v)
        (Some (max (case wm of None \<Rightarrow> 0 | Some x \<Rightarrow> x) (word_of_nat ?n)))"
      if s: "synced is_hvm eps ?n v wm" for v :: "('v, 'ep) view" and wm
    proof -
      have "reach wm \<le> ?n" using s by (simp add: synced_def)
      then have "max (case wm of None \<Rightarrow> 0 | Some x \<Rightarrow> x) (word_of_nat ?n) = (word_of_nat ?n :: u64)"
        using len by (cases wm) (auto simp: max_def word_le_nat_alt unsigned_of_nat take_bit_nat_eq_self)
      then show ?thesis
        using synced_step(2) [OF synced_append [OF s, of "[ep]"]] \<open>reach wm \<le> ?n\<close> len False by simp
    qed
    then show ?thesis
      using assms(1) False Whole
      by (auto simp: memory_inv_def registry_apply_def all_synced_def apply_marks after_event_def)
  qed
qed

section \<open>Life\<close>

text \<open>
  The phases of the registry. The ghost values say what is known of it: what the views in memory are worth, and
  whether every snapshot in the directory is the replay of the log up to its stored watermark.
\<close>

datatype ('v, 'ep) phase = Running memory bool "('v, 'ep) registry" | Down bool directory

text \<open>
  The operations, as the engine calls them. A start catches up, or rebuilds, and takes a checkpoint; or it skips
  the replay and clears the watermarks. Events are appended and applied in the order of their LSNs, or appended
  while no registry runs (or by a process that stops before it applies them). A checkpoint may fail halfway, and
  then the files are not to be trusted until one succeeds. A rebuild of one view or of all is not followed by a
  checkpoint: its watermarks are stored, the snapshots stay. A crash keeps the log and the files and falls between
  these steps; a start that fails is not followed further.
\<close>

inductive view_life :: "('log, 'ep) log_api \<Rightarrow> json \<Rightarrow> ('ep \<Rightarrow> bool) \<Rightarrow> ('log \<Rightarrow> 'ep list \<Rightarrow> bool) \<Rightarrow> ('ep \<Rightarrow> bool) \<Rightarrow> nat
    \<Rightarrow> ('v, 'ep) view list \<Rightarrow> 'ep list \<Rightarrow> 'log \<Rightarrow> ('v, 'ep) phase \<Rightarrow> bool"
  for A J is_hvm holds admissible capacity vs where
  fresh: "holds l eps \<Longrightarrow> view_life A J is_hvm holds admissible capacity vs eps l (Down True [])"
| offline: "view_life A J is_hvm holds admissible capacity vs eps l (Down ok d) \<Longrightarrow> admissible ep \<Longrightarrow> length eps + 1 < capacity
    \<Longrightarrow> la_append A l (la_head A l) ep = (Inr k, l') \<Longrightarrow> view_life A J is_hvm holds admissible capacity vs (eps @ [ep]) l' (Down ok d)"
| boot: "view_life A J is_hvm holds admissible capacity vs eps l (Down ok d) \<Longrightarrow> length eps + 1 < capacity
    \<Longrightarrow> boot_views A J is_hvm vs l d = Some (Inr rg)
    \<Longrightarrow> view_life A J is_hvm holds admissible capacity vs eps l (Running (if ok then Whole else Broken) ok rg)"
| boot_rebuild: "view_life A J is_hvm holds admissible capacity vs eps l (Down ok d)
    \<Longrightarrow> boot_rebuilding A J is_hvm vs l d = Some (Inr rg)
    \<Longrightarrow> view_life A J is_hvm holds admissible capacity vs eps l (Running Whole True rg)"
| boot_skip: "view_life A J is_hvm holds admissible capacity vs eps l (Down ok d) \<Longrightarrow> boot_skipping J vs d = Inr rg
    \<Longrightarrow> view_life A J is_hvm holds admissible capacity vs eps l (Running Behind ok rg)"
| live: "view_life A J is_hvm holds admissible capacity vs eps l (Running m ok rg) \<Longrightarrow> admissible ep \<Longrightarrow> length eps + 1 < capacity
    \<Longrightarrow> la_append A l (la_head A l) ep = (Inr k, l')
    \<Longrightarrow> view_life A J is_hvm holds admissible capacity vs (eps @ [ep]) l'
      (Running (after_event (is_hvm ep) m) ok (registry_apply is_hvm (la_head A l) ep rg))"
| checkpoint: "view_life A J is_hvm holds admissible capacity vs eps l (Running m ok rg) \<Longrightarrow> registry_checkpoint J rg = (r, rg')
    \<Longrightarrow> view_life A J is_hvm holds admissible capacity vs eps l (Running m (r = Inr () \<and> m \<noteq> Broken) rg')"
| rebuild: "view_life A J is_hvm holds admissible capacity vs eps l (Running m ok rg) \<Longrightarrow> rebuild A J is_hvm l name rg = Some (r, rg')
    \<Longrightarrow> view_life A J is_hvm holds admissible capacity vs eps l (Running (if name = None then Whole else m) False rg')"
| crash: "view_life A J is_hvm holds admissible capacity vs eps l (Running m ok rg)
    \<Longrightarrow> view_life A J is_hvm holds admissible capacity vs eps l (Down ok (rg_dir rg))"

definition fresh_views :: "('v, 'ep) view list \<Rightarrow> bool" where
  "fresh_views vs \<longleftrightarrow> views_ok vs \<and> map blank vs = vs"

lemma fresh_blank: "fresh_views vs \<Longrightarrow> map blank vs = vs"
  by (simp add: fresh_views_def)

lemma fresh_state: "fresh_views vs \<Longrightarrow> v \<in> set vs \<Longrightarrow> vw_state v = vw_new v"
proof -
  assume "fresh_views vs" and "v \<in> set vs"
  then have "blank v = v" by (simp add: fresh_views_def map_idI map_eq_conv [of blank vs id, simplified])
  then show "vw_state v = vw_new v" by (metis view_frame(15))
qed

lemma open_registered_shape: "open_registered J vs d = Inr rg \<Longrightarrow> \<exists>w. rg = \<lparr>rg_dir = d, rg_views = vs, rg_watermarks = w\<rparr>"
  by (auto simp: open_registered_def registered registry_open_def split: sum.splits option.splits)

text \<open>No replay changes what the views are, whatever the log and the files.\<close>

lemma replay_windows_keeps:
  assumes "replay_windows A l c b body cur s = Some (r, s')" and "\<And>x t. Q t \<Longrightarrow> Q (body x t)" and "Q s"
  shows "Q s'"
proof -
  have fold: "Q t \<Longrightarrow> Q (foldl (\<lambda>s r. body r s) t xs)" for t xs
    using assms(2) by (induction xs arbitrary: t) simp_all
  have "body' = body \<longrightarrow> Q s \<longrightarrow> Q (snd res)" if "replay_windows A' l' c' b' body' cur s = Some res" for A' l' c' b' body' cur s res
  proof (rule replay_windows.raw_induct [OF _ that], goal_cases)
    case (1 rec A' l' c' b' body' cur s res)
    show ?case
    proof (intro impI)
      assume b: "body' = body" and q: "Q s"
      have rec: "Q t \<Longrightarrow> rec A' l' c' b' body' k t = Some x \<Longrightarrow> Q (snd x)" for k t x using 1(1) b by blast
      show "Q (snd res)" using 1(2) q rec [OF fold [OF q]] b by (auto split: if_splits sum.splits)
    qed
  qed
  then show ?thesis using assms(1,3) by fastforce
qed

lemma replay_blank:
  "replay_record is_hvm want r (vs, w, k) = (vs', w', k') \<Longrightarrow> map blank vs' = map blank vs"
proof -
  have "map blank vs1 = map blank vs" if "replay_views q lsn e vs w k = (vs1, w1, k1)" for q lsn e vs w k vs1 w1 k1
    using that by (induction vs arbitrary: w k vs1 w1 k1) (auto split: if_splits prod.splits)
  then show "replay_record is_hvm want r (vs, w, k) = (vs', w', k') \<Longrightarrow> map blank vs' = map blank vs"
    by (auto simp: replay_record_def split: prod.splits if_splits)
qed

lemma fold_blank:
  "foldl (\<lambda>s r. replay_record is_hvm want r s) (vs, w, k) recs = (vs', w', k') \<Longrightarrow> map blank vs' = map blank vs"
proof (induction recs arbitrary: vs w k)
  case (Cons r recs)
  obtain vs1 w1 k1 where s: "replay_record is_hvm want r (vs, w, k) = (vs1, w1, k1)" by (cases "replay_record is_hvm want r (vs, w, k)")
  from replay_blank [OF this] show ?case using Cons s by simp
qed simp

lemma catch_up_blank:
  fixes rg :: "('a, 'b) registry"
  assumes "catch_up A J is_hvm l rg = Some (r, rg')"
  shows "map blank (rg_views rg') = map blank (rg_views rg)"
proof -
  let ?rg = "restore_views rg"
  obtain x vs w k where wd: "replay_windows A l (\<lambda>cur. cur \<le> la_head A l) (la_head A l + 1)
      (replay_record is_hvm (\<lambda>lsn v wm. case wm of None \<Rightarrow> True | Some w \<Rightarrow> w < lsn)) (resume_lsn ?rg)
      (rg_views ?rg, rg_watermarks ?rg, 0) = Some (x, vs, w, k)"
    and v: "rg_views rg' = vs"
    using assms by (auto simp: catch_up_def Let_def split: option.splits sum.splits prod.splits dest: persist_files)
  have step: "map blank (fst (replay_record is_hvm want r s)) = map blank (fst s)" for want r and s :: "('a, 'b) view list \<times> watermarks \<times> u64"
    using replay_blank by (metis prod.collapse)
  have "map blank (fst (vs, w, k)) = map blank (rg_views rg)"
    by (rule replay_windows_keeps [OF wd]) (simp_all add: step restore_views_def Let_def comp_def)
  then show ?thesis using v by simp
qed

lemma boot_blank:
  assumes "boot_views A J is_hvm vs l d = Some (Inr rg)"
  shows "map blank (rg_views rg) = map blank vs"
proof -
  obtain w r rg0 where "catch_up A J is_hvm l \<lparr>rg_dir = d, rg_views = vs, rg_watermarks = w\<rparr> = Some (r, rg0)"
    and c: "registry_checkpoint J rg0 = (Inr (), rg)"
    using assms checkpointed_Inr by (fastforce simp: boot_views_def split: sum.splits dest!: open_registered_shape)
  then show ?thesis using catch_up_blank checkpoint_frame [OF c] by fastforce
qed

context episode_log
begin

lemma boot_reaches:
  fixes vs :: "('v, 'ep) view list"
  assumes h: "holds l eps" and cap: "length eps + 1 < capacity" and vs: "fresh_views vs" and d: "disk_synced J is_hvm eps d vs"
  shows "\<exists>R r rg. open_registered J vs d = Inr R \<and> catch_up A J is_hvm l R = Some (r, rg) \<and> map blank (rg_views rg) = vs
    \<and> all_synced is_hvm eps (length eps) (rg_views rg) (rg_watermarks rg)
    \<and> (enc_watermarks J (rg_watermarks rg) \<noteq> None \<longrightarrow> (\<exists>n. r = Inr n))"
proof -
  obtain w where reg: "registry_open J d = Inr \<lparr>rg_dir = d, rg_views = ([] :: ('v, 'ep) view list), rg_watermarks = w\<rparr>"
    and snap: "\<forall>v \<in> set vs. \<forall>st. snapshot_of d v = Some st \<longrightarrow> synced is_hvm eps 0 (v\<lparr>vw_state := st\<rparr>) (map_of w (vw_name v))"
    using d by (auto simp: disk_synced_def)
  let ?R = "\<lparr>rg_dir = d, rg_views = vs, rg_watermarks = w\<rparr>"
  have dist: "distinct (map vw_name (rg_views ?R))" using vs by (simp add: fresh_views_def views_ok_def)
  have "all_synced is_hvm eps 0 (rg_views (restore_views ?R)) (rg_watermarks (restore_views ?R))"
    by (rule restore_synced [OF refl dist]) (use snap fresh_state [OF vs] in simp_all)
  from catch_up_ok [OF h cap dist this, of J] show ?thesis
    using open_registered_Inr [OF reg, of vs] vs by (auto simp: fresh_views_def)
qed

lemma boot_inv:
  assumes "holds l eps" and "length eps + 1 < capacity" and "json_ok J" and "fresh_views vs" and "disk_synced J is_hvm eps d vs"
    and "boot_views A J is_hvm vs l d = Some (Inr rg)"
  shows "memory_inv is_hvm vs eps Whole rg \<and> disk_synced J is_hvm eps (rg_dir rg) vs"
proof -
  obtain R r rg0 where b: "open_registered J vs d = Inr R" "catch_up A J is_hvm l R = Some (r, rg0)" "map blank (rg_views rg0) = vs"
    "all_synced is_hvm eps (length eps) (rg_views rg0) (rg_watermarks rg0)"
    using boot_reaches [OF assms(1,2,4,5)] by blast
  have c: "registry_checkpoint J rg0 = (Inr (), rg)" using assms(6) b(1,2) checkpointed_Inr by (auto simp: boot_views_def)
  then have "disk_synced J is_hvm eps (rg_dir rg) vs"
    by (rule checkpoint_inv) (use assms(3,4) b(3,4) in \<open>auto simp: fresh_views_def\<close>)
  then show ?thesis using checkpoint_frame [OF c] b(3,4) by (simp add: memory_inv_def)
qed

lemma rebuild_inv:
  fixes rg :: "('v, 'ep) registry"
  assumes h: "holds l eps" and vs: "fresh_views vs" and m: "memory_inv is_hvm vs eps m rg"
    and r: "rebuild A J is_hvm l nm rg = Some (r, rg')"
  shows "memory_inv is_hvm vs eps (if nm = None then Whole else m) rg'"
proof -
  let ?evs = "events is_hvm eps (length eps)"
  have b: "map blank (rg_views rg) = vs" using m by (simp add: memory_inv_def)
  have d: "distinct (map vw_name (rg_views rg))"
    using vs views_ok_blank(2) [OF _ b] by (auto simp: fresh_views_def)
  have v1: "rg_views rg' = map (\<lambda>v. if selects nm v then v\<lparr>vw_state := replay_of v ?evs\<rparr> else v) (rg_views rg)"
    and m1: "\<forall>v \<in> set (rg_views rg). map_of (rg_watermarks rg') (vw_name v)
        = (if selects nm v then last_mark ?evs else map_of (rg_watermarks rg) (vw_name v))"
    using rebuild_ok [OF h d, where is_hvm = is_hvm and J = J and nm = nm] r by auto
  have sel: "synced is_hvm eps n (v\<lparr>vw_state := replay_of v ?evs\<rparr>) (last_mark ?evs)" if "n = 0 \<or> n = length eps" for v :: "('v, 'ep) view" and n
    using last_mark_reach [OF small [OF h], where is_hvm = is_hvm] that by (auto simp: synced_def max_def)
  have "all_synced is_hvm eps n (rg_views rg') (rg_watermarks rg')"
    if n: "n = 0 \<or> n = length eps" and "nm = None \<or> all_synced is_hvm eps n (rg_views rg) (rg_watermarks rg)" for n
  proof -
    have "synced is_hvm eps n u (map_of (rg_watermarks rg') (vw_name u))" if "u \<in> set (rg_views rg')" for u
    proof -
      have "u \<in> (\<lambda>v. if selects nm v then v\<lparr>vw_state := replay_of v ?evs\<rparr> else v) ` set (rg_views rg)"
        using that v1 by (simp only: set_map)
      then obtain v where v: "v \<in> set (rg_views rg)" "u = (if selects nm v then v\<lparr>vw_state := replay_of v ?evs\<rparr> else v)"
        by (elim imageE) (rule that)
      show ?thesis
      proof (cases "selects nm v")
        case True
        then show ?thesis using v m1 sel [OF n, of v] by simp
      next
        case False
        then have "all_synced is_hvm eps n (rg_views rg) (rg_watermarks rg)" using \<open>nm = None \<or> _\<close> by (auto simp: selects_def)
        then show ?thesis using v m1 False by (simp add: all_synced_def)
      qed
    qed
    then show ?thesis by (simp add: all_synced_def)
  qed
  moreover have "map blank (rg_views rg') = vs" unfolding v1 b [symmetric] by simp
  ultimately show ?thesis using m by (cases m) (auto simp: memory_inv_def)
qed

lemma view_life_inv:
  fixes vs :: "('v, 'ep) view list"
  assumes J: "json_ok J" and vs: "fresh_views vs" and life: "view_life A J is_hvm holds admissible capacity vs eps l ph"
  shows "holds l eps \<and> (case ph of
      Running m ok rg \<Rightarrow> memory_inv is_hvm vs eps m rg \<and> (ok \<longrightarrow> disk_synced J is_hvm eps (rg_dir rg) vs)
    | Down ok d \<Rightarrow> ok \<longrightarrow> disk_synced J is_hvm eps d vs)"
  using life
proof induction
  case (fresh l eps)
  then show ?case by (simp add: disk_synced_fresh)
next
  case (offline eps l ok d ep k l')
  then show ?case using append_law [of l eps ep k l'] by (auto simp: disk_synced_append)
next
  case (boot eps l ok d rg)
  show ?case
    using boot_inv [OF _ boot.hyps(2) J vs _ boot.hyps(3)] boot_blank [OF boot.hyps(3)] fresh_blank [OF vs] boot.IH
    by (cases ok) (simp_all add: memory_inv_def)
next
  case (boot_rebuild eps l ok d rg)
  have views: "views_ok vs" using vs by (simp add: fresh_views_def)
  obtain w r rg0 where r: "rebuild A J is_hvm l None \<lparr>rg_dir = d, rg_views = vs, rg_watermarks = w\<rparr> = Some (r, rg0)"
    "registry_checkpoint J rg0 = (Inr (), rg)"
    using boot_rebuild.hyps(2) checkpointed_Inr
    by (fastforce simp: boot_rebuilding_def split: sum.splits dest!: open_registered_shape)
  have "memory_inv is_hvm vs eps Whole rg0"
    using rebuild_inv [OF _ vs _ r(1), where eps = eps and m = Broken] boot_rebuild.IH fresh_blank [OF vs] by (simp add: memory_inv_def)
  then show ?case
    using boot_rebuild.IH checkpoint_inv [OF r(2) J views, where is_hvm = is_hvm and eps = eps and n = "length eps"] checkpoint_frame [OF r(2)]
    by (simp add: memory_inv_def)
next
  case (boot_skip eps l ok d rg)
  obtain w where rg: "rg = \<lparr>rg_dir = d, rg_views = vs, rg_watermarks = []\<rparr>"
    using boot_skip.hyps(2) by (auto simp: boot_skipping_def reset_watermarks_def split: sum.splits dest!: open_registered_shape)
  have "all_synced is_hvm eps 0 vs []" using fresh_state [OF vs] by (simp add: all_synced_def synced_def)
  then show ?case using boot_skip.IH fresh_blank [OF vs] by (simp add: rg memory_inv_def)
next
  case (live eps l m ok rg ep k l')
  then show ?case
    using append_law [of l eps ep k l'] apply_inv [of is_hvm vs eps m rg ep] head_law [of l eps] small [of l eps]
    by (simp add: disk_synced_append)
next
  case (checkpoint eps l m ok rg r rg')
  then have inv: "memory_inv is_hvm vs eps m rg" by simp
  have "disk_synced J is_hvm eps (rg_dir rg') vs" if "r = Inr ()" and "m \<noteq> Broken"
    by (rule checkpoint_inv [OF checkpoint.hyps(2) [unfolded that(1)] J _ _ memory_synced [OF inv that(2)]])
      (use inv vs in \<open>simp_all add: memory_inv_def fresh_views_def\<close>)
  moreover have "memory_inv is_hvm vs eps m rg'"
    using inv checkpoint_frame [OF checkpoint.hyps(2)] by (cases m) (simp_all add: memory_inv_def)
  ultimately show ?case using checkpoint.IH by simp
next
  case (rebuild eps l m ok rg name r rg')
  then show ?case using rebuild_inv [OF _ vs _ rebuild.hyps(2)] by simp
next
  case (crash eps l m ok rg)
  then show ?case by auto
qed

text \<open>A start trusts a snapshot up to the watermark it finds: nothing at or below it is applied again.\<close>

lemma boot_trusts:
  fixes vs :: "('v, 'ep) view list"
  assumes h: "holds l eps" and cap: "length eps + 1 < capacity" and d: "distinct (map vw_name vs)"
    and reg: "registry_open J dir = Inr \<lparr>rg_dir = dir, rg_views = ([] :: ('v, 'ep) view list), rg_watermarks = w\<rparr>"
    and v: "v \<in> set vs" "snapshot_of dir v = Some old" "map_of w (vw_name v) = Some m"
    and below: "\<forall>i < length eps. is_hvm (eps ! i) \<or> i \<le> unat m" and bnd: "\<forall>v \<in> set vs. reach (map_of w (vw_name v)) \<le> length eps"
    and boot: "boot_views A J is_hvm vs l dir = Some (Inr rg)"
  shows "\<exists>u \<in> set (rg_views rg). vw_name u = vw_name v \<and> vw_state u = old"
proof -
  let ?R = "\<lparr>rg_dir = dir, rg_views = vs, rg_watermarks = w\<rparr>"
  let ?u = "snd (view_restore dir v)"
  have names: "x = v" if "x \<in> set vs" "vw_name x = vw_name v" for x
    using d v(1) that by (meson distinct_map inj_onD)
  have u: "?u \<in> set (rg_views (restore_views ?R))" "vw_name ?u = vw_name v" "vw_state ?u = old"
    using imageI [OF v(1), of "\<lambda>x. snd (view_restore dir x)"] v(2) by (simp_all add: restore_views_def Let_def view_restore_snapshot)
  have mark: "map_of (rg_watermarks (restore_views ?R)) (vw_name ?u) = Some m"
  proof -
    have "fst (view_restore dir v)" by (simp add: view_restore_snapshot v(2))
    then have "\<not> (\<exists>x \<in> set vs. \<not> fst (view_restore dir x) \<and> vw_name x = vw_name v)" using names by blast
    then show ?thesis using v(3) by (simp add: restore_views_def Let_def foldl_delete)
  qed
  have bnd': "\<forall>x \<in> set (rg_views (restore_views ?R)). reach (map_of (rg_watermarks (restore_views ?R)) (vw_name x)) \<le> length eps"
    using bnd by (auto simp: restore_views_def Let_def foldl_delete)
  obtain n vs' w' k r rg1 where f: "n \<le> length eps"
    "foldl (\<lambda>s r. replay_record is_hvm (\<lambda>lsn (v :: ('v, 'ep) view) wm. behind lsn v wm) r s)
        (rg_views (restore_views ?R), rg_watermarks (restore_views ?R), 0) (map (\<lambda>i. (word_of_nat i, eps ! i)) [n..<length eps]) = (vs', w', k)"
    and p: "persist_watermarks J (restore_views ?R\<lparr>rg_views := vs', rg_watermarks := w'\<rparr>) = (r, rg1)"
    and c: "catch_up A J is_hvm l ?R = Some (case r of Inl e \<Rightarrow> Inl e | Inr _ \<Rightarrow> Inr k, rg1)"
    by (rule catch_up_reads [OF h cap bnd', of is_hvm J]) (rule that)
  have "?u \<in> set vs'"
  proof (rule fold_keeps [OF _ u(1) mark _ f(2)])
    show "distinct (map vw_name (rg_views (restore_views ?R)))" using d by (simp add: restore_views_def Let_def comp_def)
    show "\<forall>(lsn, e) \<in> set (map (\<lambda>i. (word_of_nat i, eps ! i)) [n..<length eps]). is_hvm e \<or> lsn \<le> m"
      using below below_head [OF h] by (auto simp: word_le_nat_alt)
  qed
  then have "?u \<in> set (rg_views rg1)" using persist_files [OF p] by simp
  moreover have "registry_checkpoint J rg1 = (Inr (), rg)"
    using boot c open_registered_Inr [OF reg, of vs] checkpointed_Inr by (auto simp: boot_views_def)
  then have "rg_views rg = rg_views rg1"
    by (auto simp: registry_checkpoint_def dest: persist_files split: prod.splits sum.splits)
  ultimately show ?thesis using u(2,3) by (intro bexI [of _ ?u]) simp_all
qed

end

lemma checkpoint_views_succeed:
  assumes "\<forall>v \<in> set vs. \<forall>enc dec st. vw_codec v = Some (enc, dec) \<longrightarrow> enc st \<noteq> None"
  shows "\<exists>e. checkpoint_views vs d = (Inr (), e)"
  using assms
proof (induction vs arbitrary: d)
  case (Cons v vs)
  have "\<exists>d1. view_checkpoint v d = Inr d1"
  proof (cases "vw_codec v")
    case (Some c)
    obtain enc dec where c: "c = (enc, dec)" by (cases c)
    then obtain b where "enc (vw_state v) = Some b" using Cons.prems Some by fastforce
    then show ?thesis using Some c by (simp add: view_checkpoint_def ckpt_save_def run_ops_def update_conv')
  qed (simp add: view_checkpoint_def)
  then show ?case using Cons by auto
qed simp

text \<open>What a start needs to succeed: encoders that do not fail.\<close>

definition encoders_total :: "json \<Rightarrow> ('v, 'ep) view list \<Rightarrow> bool" where
  "encoders_total J vs \<longleftrightarrow> (\<forall>w. enc_watermarks J w \<noteq> None)
     \<and> (\<forall>v \<in> set vs. \<forall>enc dec st. vw_codec v = Some (enc, dec) \<longrightarrow> enc st \<noteq> None)"

context episode_log
begin

lemma boot_succeeds:
  fixes vs :: "('v, 'ep) view list"
  assumes h: "holds l eps" and cap: "length eps + 1 < capacity"
    and reg: "registry_open J d = Inr \<lparr>rg_dir = d, rg_views = ([] :: ('v, 'ep) view list), rg_watermarks = w\<rparr>"
    and bnd: "\<forall>v \<in> set (rg_views (restore_views \<lparr>rg_dir = d, rg_views = vs, rg_watermarks = w\<rparr>)).
      reach (map_of (rg_watermarks (restore_views \<lparr>rg_dir = d, rg_views = vs, rg_watermarks = w\<rparr>)) (vw_name v)) \<le> length eps"
    and total: "encoders_total J vs"
  shows "\<exists>rg. boot_views A J is_hvm vs l d = Some (Inr rg)"
proof -
  let ?R = "\<lparr>rg_dir = d, rg_views = vs, rg_watermarks = w\<rparr>"
  obtain n vs' w' k r rg1 where f: "n \<le> length eps"
    "foldl (\<lambda>s r. replay_record is_hvm (\<lambda>lsn (v :: ('v, 'ep) view) wm. behind lsn v wm) r s)
        (rg_views (restore_views ?R), rg_watermarks (restore_views ?R), 0) (map (\<lambda>i. (word_of_nat i, eps ! i)) [n..<length eps]) = (vs', w', k)"
    and p: "persist_watermarks J (restore_views ?R\<lparr>rg_views := vs', rg_watermarks := w'\<rparr>) = (r, rg1)"
    and c: "catch_up A J is_hvm l ?R = Some (case r of Inl e \<Rightarrow> Inl e | Inr _ \<Rightarrow> Inr k, rg1)"
    by (rule catch_up_reads [OF h cap bnd, of is_hvm J]) (rule that)
  have blank: "map blank (rg_views rg1) = map blank vs"
    using persist_files [OF p] fold_blank [OF f(2)] by (simp add: restore_views_def Let_def comp_def)
  have tot: "\<forall>v \<in> set (rg_views rg1). \<forall>enc dec st. vw_codec v = Some (enc, dec) \<longrightarrow> enc st \<noteq> None"
  proof
    fix v assume "v \<in> set (rg_views rg1)"
    then have "blank v \<in> set (map blank (rg_views rg1))" by simp
    then obtain u where "u \<in> set vs" "blank v = blank u" unfolding blank by auto
    then show "\<forall>enc dec st. vw_codec v = Some (enc, dec) \<longrightarrow> enc st \<noteq> None"
      using total blank_fields(2) [of v u] by (auto simp: encoders_total_def)
  qed
  obtain e where e: "checkpoint_views (rg_views rg1) (rg_dir rg1) = (Inr (), e)" using checkpoint_views_succeed [OF tot] by blast
  obtain r2 rg2 where p2: "persist_watermarks J (rg1\<lparr>rg_dir := e\<rparr>) = (r2, rg2)" by (cases "persist_watermarks J (rg1\<lparr>rg_dir := e\<rparr>)")
  have "r2 = Inr ()" "r = Inr ()" using persist_files [OF p2] persist_files [OF p] total by (simp_all add: encoders_total_def)
  then have "registry_checkpoint J rg1 = (Inr (), rg2)" using e p2 by (simp add: registry_checkpoint_def)
  then show ?thesis using c open_registered_Inr [OF reg, of vs] \<open>r = Inr ()\<close> by (simp add: boot_views_def checkpointed_def)
qed

lemma boot_succeeds_synced:
  fixes vs :: "('v, 'ep) view list"
  assumes "holds l eps" and "length eps + 1 < capacity" and vs: "fresh_views vs" and d: "disk_synced J is_hvm eps d vs"
    and "encoders_total J vs"
  shows "\<exists>rg. boot_views A J is_hvm vs l d = Some (Inr rg)"
proof -
  obtain w where reg: "registry_open J d = Inr \<lparr>rg_dir = d, rg_views = ([] :: ('v, 'ep) view list), rg_watermarks = w\<rparr>"
    and snap: "\<forall>v \<in> set vs. \<forall>st. snapshot_of d v = Some st \<longrightarrow> synced is_hvm eps 0 (v\<lparr>vw_state := st\<rparr>) (map_of w (vw_name v))"
    using d by (auto simp: disk_synced_def)
  let ?R = "\<lparr>rg_dir = d, rg_views = vs, rg_watermarks = w\<rparr>"
  have "all_synced is_hvm eps 0 (rg_views (restore_views ?R)) (rg_watermarks (restore_views ?R))"
    by (rule restore_synced [OF refl]) (use snap fresh_state [OF vs] vs in \<open>simp_all add: fresh_views_def views_ok_def\<close>)
  then show ?thesis by (intro boot_succeeds [OF assms(1,2) reg _ assms(5)]) (simp add: all_synced_def synced_def)
qed

end

section \<open>A concrete registry\<close>

text \<open>The view collects the episodes, which are bytes; the watermarks are written name by name.\<close>

definition toy_view :: "(bytes, u8) view" where
  "toy_view = \<lparr>vw_name = [7], vw_new = [], vw_apply = (\<lambda>l e s. s @ [e]), vw_codec = Some (Some, Some), vw_state = []\<rparr>"

fun enc_marks :: "watermarks \<Rightarrow> bytes" where
  "enc_marks [] = []"
| "enc_marks ((n, x) # w) = concat (map (\<lambda>b. [1, b]) n) @ 0 # to_le_bytes x @ enc_marks w"

function dec_marks :: "bytes \<Rightarrow> bytes \<Rightarrow> watermarks" where
  "dec_marks n [] = []"
| "dec_marks n (t # rest) = (if t = 0 then (n, from_le_bytes (take 8 rest)) # dec_marks [] (drop 8 rest)
     else dec_marks (n @ take 1 rest) (drop 1 rest))"
  by pat_completeness auto

termination
  by (relation "measure (\<lambda>(n, bs). length bs)") auto

lemma dec_name: "dec_marks n0 (concat (map (\<lambda>b. [1, b]) n) @ 0 # rest)
    = (n0 @ n, from_le_bytes (take 8 rest)) # dec_marks [] (drop 8 rest)"
  by (induction n arbitrary: n0) auto

lemma dec_enc_marks: "dec_marks [] (enc_marks w) = w"
  by (induction w rule: enc_marks.induct) (auto simp: dec_name length_to_le_bytes from_le_to_le)

definition toy_json :: json where
  "toy_json = \<lparr>enc_watermarks = (\<lambda>w. Some (enc_marks w)), dec_watermarks = (\<lambda>b. Some (dec_marks [] b))\<rparr>"

lemma toy_json_ok: "json_ok toy_json"
  by (simp add: json_ok_def toy_json_def dec_enc_marks)

lemma toy_view_ok: "fresh_views [toy_view]"
  by (simp add: fresh_views_def views_ok_def toy_view_def blank_def)

lemma toy_frame [simp]: "vw_name toy_view = [7]" "vw_codec toy_view = Some (Some, Some)" "vw_new toy_view = []"
  by (simp_all add: toy_view_def)

lemma toy_replay: "replay_of toy_view evs = map snd evs"
  by (induction evs rule: rev_induct) (auto simp: replay_of_def toy_view_def split_def)

section \<open>What the registry guarantees\<close>

text \<open>C6. Every view is the replay of the log. Take any history of starts, live events, events appended while no
  registry ran, checkpoints that succeed or fail, rebuilds of one or all views that no checkpoint follows, starts
  that skip the replay, and crashes between these. Whenever the views in memory count as whole, each of them
  holds exactly what applying the whole log to its empty state gives, leaving out the frames of the virtual
  machine, and whenever the files count as sound, so does every view after the next start. They count as whole
  after a rebuild of all views, after a rebuilding start, and after a normal start from sound files, until the
  process ends; the files are sound until a rebuild or a failed checkpoint, and again after a checkpoint of
  views that are whole. So what is excluded is what the code itself loses: a crash between a
  rebuild and the next checkpoint, and live events after a start that skipped the replay.\<close>

theorem views_replay_log:
  assumes "episode_log A holds admissible capacity" and "json_ok J" and "fresh_views vs"
    and "view_life A J is_hvm holds admissible capacity vs eps l ph"
    and "ph = Running Whole ok rg
      \<or> ph = Down True d \<and> length eps + 1 < capacity \<and> boot_views A J is_hvm vs l d = Some (Inr rg)"
  shows "map vw_name (rg_views rg) = map vw_name vs
    \<and> (\<forall>name v. get_view name rg = Some v \<longrightarrow> vw_state v = replay_of v (events is_hvm eps (length eps)))"
proof -
  have inv: "memory_inv is_hvm vs eps Whole rg"
    using episode_log.view_life_inv [OF assms(1-4)] episode_log.boot_inv [OF assms(1) _ _ assms(2,3)] assms(5) by auto
  then have "map vw_name (map blank (rg_views rg)) = map vw_name vs" by (simp add: memory_inv_def)
  moreover have "vw_state v = replay_of v (events is_hvm eps (length eps))" if "get_view name rg = Some v" for name v
    by (rule synced_now [where wm = "map_of (rg_watermarks rg) (vw_name v)"])
      (use inv find_Some_mem [OF that [unfolded get_view_def]] in \<open>auto simp: memory_inv_def all_synced_def\<close>)
  ultimately show ?thesis by (simp add: comp_def)
qed

text \<open>C14. The registry always starts: after any such history that leaves sound files, and whatever the length of
  the log, opening the files that were left, catching up and writing the first checkpoint ends and succeeds.\<close>

theorem registry_boots:
  assumes "episode_log A holds admissible capacity" and "json_ok J" and "fresh_views vs"
    and "view_life A J is_hvm holds admissible capacity vs eps l (Down True d)" and "length eps + 1 < capacity"
    and "encoders_total J vs"
  shows "\<exists>rg. boot_views A J is_hvm vs l d = Some (Inr rg)"
  using episode_log.view_life_inv [OF assms(1-4)] episode_log.boot_succeeds_synced [OF assms(1) _ assms(5,3) _ assms(6)] by simp

text \<open>A rebuild heals: whatever the views, watermarks and files were, it ends, and every selected view is the
  replay of the whole log, with the last event as its watermark, while the others and all snapshots are untouched.\<close>

theorem rebuild_heals:
  assumes "episode_log A holds admissible capacity" and "holds l eps" and "distinct (map vw_name (rg_views rg))"
  shows "\<exists>r rg'. rebuild A J is_hvm l name rg = Some (r, rg')
    \<and> rg_views rg' = map (\<lambda>v. if selects name v then v\<lparr>vw_state := replay_of v (events is_hvm eps (length eps))\<rparr> else v) (rg_views rg)
    \<and> (\<forall>v \<in> set (rg_views rg). map_of (rg_watermarks rg') (vw_name v)
        = (if selects name v then last_mark (events is_hvm eps (length eps)) else map_of (rg_watermarks rg) (vw_name v)))
    \<and> (\<forall>v \<in> set (rg_views rg). snapshot_of (rg_dir rg') v = snapshot_of (rg_dir rg) v)"
  using episode_log.rebuild_ok [OF assms, of J is_hvm name] by blast

section \<open>When a snapshot and its watermark come apart\<close>

lemma events_le_last:
  "n < 2 ^ 64 \<Longrightarrow> i < n \<Longrightarrow> \<not> is_hvm (eps ! i) \<Longrightarrow> i \<le> unat (fst (last (events is_hvm eps n)))"
proof (induction n)
  case (Suc n)
  then show ?case by (cases "i = n") (auto simp: unsigned_of_nat take_bit_nat_eq_self less_Suc_eq)
qed simp

text \<open>C36. A rebuild does not survive a crash: it stores the new watermarks and leaves the old snapshots, so if the
  process stops before the next checkpoint, the start that follows puts the snapshot of the last checkpoint back,
  believes it is up to date, and the events in between, which the rebuilt view had, are missing.\<close>

theorem rebuild_then_crash_loses_events:
  fixes vs :: "('v, 'ep) view list"
  assumes log: "episode_log A holds admissible capacity" and "json_ok J" and "fresh_views vs"
    and life: "view_life A J is_hvm holds admissible capacity vs eps l (Running m ok rg)" and cap: "length eps + 1 < capacity"
    and v: "v \<in> set (rg_views rg)" "snapshot_of (rg_dir rg) v = Some old" and some: "events is_hvm eps (length eps) \<noteq> []"
    and reb: "rebuild A J is_hvm l None rg = Some (Inr (), rg')" and boot: "boot_views A J is_hvm vs l (rg_dir rg') = Some (Inr rg'')"
  shows "(\<exists>u \<in> set (rg_views rg'). vw_name u = vw_name v \<and> vw_state u = replay_of v (events is_hvm eps (length eps)))
    \<and> (\<exists>u \<in> set (rg_views rg''). vw_name u = vw_name v \<and> vw_state u = old)"
proof -
  let ?evs = "events is_hvm eps (length eps)"
  have h: "holds l eps" and inv: "map blank (rg_views rg) = vs" using episode_log.view_life_inv [OF assms(1-4)] by (simp_all add: memory_inv_def)
  have d: "distinct (map vw_name (rg_views rg))" and dv: "distinct (map vw_name vs)"
    using views_ok_blank(2) [OF _ inv] assms(3) by (auto simp: fresh_views_def views_ok_def)
  have small: "length eps < 2 ^ 64" by (rule episode_log.small [OF log h])
  obtain raw where r: "rg_views rg' = map (\<lambda>v. v\<lparr>vw_state := replay_of v ?evs\<rparr>) (rg_views rg)"
    "\<forall>v \<in> set (rg_views rg). map_of (rg_watermarks rg') (vw_name v) = last_mark ?evs"
    "\<forall>v :: ('v, 'ep) view. snapshot_of (rg_dir rg') v = snapshot_of (rg_dir rg) v"
    "enc_watermarks J (rg_watermarks rg') = Some raw" "map_of (rg_dir rg') WATERMARKS = Some raw"
    using episode_log.rebuild_ok [OF log h d, of J is_hvm None] reb by (auto simp: selects_def)
  obtain w where w: "dec_watermarks J raw = Some w" "map_of w = map_of (rg_watermarks rg')" using assms(2) r(4) by (auto simp: json_ok_def)
  have reg: "registry_open J (rg_dir rg') = Inr \<lparr>rg_dir = rg_dir rg', rg_views = ([] :: ('v, 'ep) view list), rg_watermarks = w\<rparr>"
    by (simp add: registry_open_def r(5) w(1))
  have marks: "map_of w (vw_name u) = last_mark ?evs" if "u \<in> set vs" for u
    using that r(2) unfolding w(2) inv [symmetric] by auto
  have bv: "blank v \<in> set vs" using v(1) inv by auto
  have "\<exists>u \<in> set (rg_views rg''). vw_name u = vw_name (blank v) \<and> vw_state u = old"
  proof (rule episode_log.boot_trusts [OF log h cap dv reg bv _ _ _ _ boot])
    show "snapshot_of (rg_dir rg') (blank v) = Some old" using r(3) v(2) by simp
    show "map_of w (vw_name (blank v)) = Some (fst (last ?evs))" using marks [OF bv] some by (simp add: last_mark_def)
    show "\<forall>i < length eps. is_hvm (eps ! i) \<or> i \<le> unat (fst (last ?evs))" using events_le_last [OF small] by blast
    show "\<forall>u \<in> set vs. reach (map_of w (vw_name u)) \<le> length eps" using marks last_mark_reach [OF small, of is_hvm] by simp
  qed
  then show ?thesis using v(1) unfolding r(1) by auto
qed

text \<open>C37. Skipping the replay once orphans the history: with \<open>HERACLITUS_SKIP_VIEW_REPLAY\<close> the watermarks are dropped,
  but the first live event raises them to its own LSN; after the next checkpoint the view holds that event alone,
  and a normal start takes it for the whole log, also when the files had been complete before.\<close>

theorem skipped_replay_orphans_history:
  fixes vs :: "('v, 'ep) view list"
  assumes log: "episode_log A holds admissible capacity" and J: "json_ok J" and vs: "fresh_views vs" and h: "holds l eps"
    and cap: "length eps + 2 < capacity" and ep: "admissible ep" "\<not> is_hvm ep" and v: "v \<in> set vs" "vw_codec v \<noteq> None"
    and skip: "boot_skipping J vs d = Inr rg0" and app: "la_append A l (la_head A l) ep = (Inr k, l')"
    and ck: "registry_checkpoint J (registry_apply is_hvm (la_head A l) ep rg0) = (Inr (), rg1)"
    and boot: "boot_views A J is_hvm vs l' (rg_dir rg1) = Some (Inr rg2)"
  shows "\<exists>u \<in> set (rg_views rg2). vw_name u = vw_name v \<and> vw_state u = vw_apply v (word_of_nat (length eps)) ep (vw_new v)"
proof -
  let ?n = "word_of_nat (length eps) :: u64"
  have small: "length eps < 2 ^ 64" by (rule episode_log.small [OF log h])
  have h': "holds l' (eps @ [ep])" using episode_log.append_law [OF log h ep(1) _ app] cap by simp
  have ok: "views_ok vs" and dv: "distinct (map vw_name vs)" using vs by (simp_all add: fresh_views_def views_ok_def)
  have rg0: "rg_views rg0 = vs" "rg_watermarks rg0 = []"
    using skip by (auto simp: boot_skipping_def open_registered_def registered registry_open_def reset_watermarks_def split: sum.splits option.splits)
  let ?rg = "registry_apply is_hvm (la_head A l) ep rg0"
  have rg: "rg_views ?rg = map (apply_view ?n ep) vs" "map_of (rg_watermarks ?rg) n = (if n \<in> vw_name ` set vs then Some ?n else None)" for n
    using ep(2) rg0 by (simp_all add: registry_apply_def apply_marks episode_log.head_law [OF log h])
  have okr: "views_ok (rg_views ?rg)"
    by (rule views_ok_blank(1) [OF ok]) (use vs in \<open>simp add: rg comp_def fresh_views_def\<close>)
  obtain w where w: "registry_open J (rg_dir rg1) = Inr \<lparr>rg_dir = rg_dir rg1, rg_views = ([] :: ('v, 'ep) view list), rg_watermarks = w\<rparr>"
    "map_of w = map_of (rg_watermarks ?rg)"
    and snap: "\<forall>v \<in> set (rg_views ?rg). snapshot_of (rg_dir rg1) v = (case vw_codec v of None \<Rightarrow> None | Some _ \<Rightarrow> Some (vw_state v))"
    using checkpoint_ok [OF ck J okr] by blast
  show ?thesis
  proof (rule episode_log.boot_trusts [OF log h' _ dv w(1) v(1) _ _ _ _ boot])
    have "snapshot_of (rg_dir rg1) (apply_view ?n ep v) = Some (vw_apply v ?n ep (vw_state v))"
      using snap v by (auto simp: rg(1))
    then show "snapshot_of (rg_dir rg1) v = Some (vw_apply v ?n ep (vw_new v))"
      using snapshot_blank [of "apply_view ?n ep v" v "rg_dir rg1"] fresh_state [OF vs v(1)] by simp
    show "map_of w (vw_name v) = Some ?n" using v(1) by (simp add: w(2) rg(2))
    show "\<forall>i < length (eps @ [ep]). is_hvm ((eps @ [ep]) ! i) \<or> i \<le> unat ?n"
      using small by (auto simp: unsigned_of_nat take_bit_nat_eq_self)
    show "\<forall>u \<in> set vs. reach (map_of w (vw_name u)) \<le> length (eps @ [ep])"
      using small by (simp add: w(2) rg(2) unsigned_of_nat take_bit_nat_eq_self)
    show "length (eps @ [ep]) + 1 < capacity" using cap by simp
  qed
qed

section \<open>Concrete histories\<close>

abbreviation "toy_hvm \<equiv> \<lambda>e :: u8. e = 9"

abbreviation toy_life :: "u8 list \<Rightarrow> (bytes, u8) phase \<Rightarrow> bool" where
  "toy_life eps ph \<equiv> view_life list_api toy_json toy_hvm list_holds (\<lambda>_. True) 1000 [toy_view] eps eps ph"

lemma toy_total: "encoders_total toy_json [toy_view]"
  by (simp add: encoders_total_def toy_json_def)

lemma toy_append: "la_append list_api l (la_head list_api l) e = (Inr (word_of_nat (length l)), l @ [e])"
  by (simp add: list_api_def)

text \<open>A start on an empty directory.\<close>

lemma toy_started:
  assumes "length eps < 900"
  shows "\<exists>rg. boot_views list_api toy_json toy_hvm [toy_view] eps [] = Some (Inr rg) \<and> toy_life eps (Running Whole True rg)"
proof -
  have "toy_life eps (Down True [])" using assms by (intro view_life.fresh) simp
  moreover obtain rg where "boot_views list_api toy_json toy_hvm [toy_view] eps [] = Some (Inr rg)"
    using episode_log.boot_succeeds_synced [OF list_log _ _ toy_view_ok disk_synced_fresh toy_total] assms by fastforce
  ultimately show ?thesis using view_life.boot [of _ _ _ _ _ _ _ eps eps True "[]"] assms by fastforce
qed

text \<open>A start, live events, a rebuild that no checkpoint follows, and one more event.\<close>

lemma views_replay_log_witness:
  "\<exists>rg v. toy_life [5, 9, 6] (Running Whole False rg) \<and> get_view [7] rg = Some v \<and> vw_state v = [5, 6]"
proof -
  obtain rg where "toy_life [5] (Running Whole True rg)" using toy_started [of "[5]"] by auto
  then have "toy_life ([5] @ [9]) (Running (after_event (toy_hvm 9) Whole) True (registry_apply toy_hvm (la_head list_api [5 :: u8]) 9 rg))"
    by (rule view_life.live [OF _ _ _ toy_append]) simp_all
  then obtain rg1 where life1: "toy_life [5, 9] (Running Whole True rg1)" by (auto simp: after_event_def)
  have inv1: "memory_inv toy_hvm [toy_view] [5, 9] Whole rg1"
    using episode_log.view_life_inv [OF list_log toy_json_ok toy_view_ok life1] by simp
  have h: "list_holds [5, 9 :: u8] [5, 9]" by simp
  have "distinct (map vw_name (rg_views rg1))"
    using views_ok_blank(2) [of "[toy_view]" "rg_views rg1"] inv1 toy_view_ok by (simp add: memory_inv_def fresh_views_def)
  from episode_log.rebuild_ok [OF list_log h this, of toy_json toy_hvm None]
  obtain r rg2 where "rebuild list_api toy_json toy_hvm [5, 9] None rg1 = Some (r, rg2)" by blast
  from view_life.rebuild [OF life1 this] have life2: "toy_life [5, 9] (Running Whole False rg2)" by simp
  from view_life.live [OF life2 _ _ toy_append, of 6] obtain rg' where life: "toy_life [5, 9, 6] (Running Whole False rg')"
    by (auto simp: after_event_def)
  have c: "map vw_name (rg_views rg') = [[7]]" "\<And>name v. get_view name rg' = Some v \<Longrightarrow> vw_state v = replay_of v (events toy_hvm [5, 9, 6] 3)"
    using views_replay_log [OF list_log toy_json_ok toy_view_ok life, of False rg'] by (simp_all add: numeral_3_eq_3)
  obtain v where v: "rg_views rg' = [v]" "vw_name v = [7]" using c(1) by (cases "rg_views rg'") auto
  then have g: "get_view [7] rg' = Some v" by (simp add: get_view_def)
  have "memory_inv toy_hvm [toy_view] [5, 9, 6] Whole rg'" using episode_log.view_life_inv [OF list_log toy_json_ok toy_view_ok life] by simp
  then have "blank v = blank toy_view" using v by (simp add: memory_inv_def toy_view_def blank_def)
  then have "vw_state v = map snd (events toy_hvm [5, 9, 6] 3)" using c(2) [OF g] blank_fields(4) [of v toy_view] by (simp add: toy_replay)
  also have "\<dots> = [5, 6]" by (simp add: events_def upt_rec)
  finally show ?thesis using life g by blast
qed

lemma registry_boots_witness: "\<exists>rg. boot_views list_api toy_json toy_hvm [toy_view] [5, 9] [] = Some (Inr rg)"
proof -
  have life: "toy_life [5, 9] (Down True [])" by (rule view_life.fresh) simp
  show ?thesis by (rule registry_boots [OF list_log toy_json_ok toy_view_ok life _ toy_total]) simp
qed

lemma rebuild_heals_witness:
  "\<exists>r rg'. rebuild list_api toy_json toy_hvm [5, 9, 6] None
      \<lparr>rg_dir = [], rg_views = [toy_view\<lparr>vw_state := [1, 2, 3]\<rparr>], rg_watermarks = [([7], 50)]\<rparr> = Some (r, rg')
    \<and> map vw_state (rg_views rg') = [[5, 6]]"
proof -
  let ?rg = "\<lparr>rg_dir = [], rg_views = [toy_view\<lparr>vw_state := [1, 2, 3]\<rparr>], rg_watermarks = [([7], 50)]\<rparr> :: (bytes, u8) registry"
  have "distinct (map vw_name (rg_views ?rg))" by simp
  from rebuild_heals [OF list_log _ this, of "[5, 9, 6]" "[5, 9, 6]" toy_json toy_hvm None]
  show ?thesis by (auto simp: selects_def toy_replay events_def upt_rec)
qed

text \<open>A start on an empty log and directory stores the empty snapshot.\<close>

lemma toy_first_start:
  obtains rg where "toy_life [] (Running Whole True rg)" "map blank (rg_views rg) = [toy_view]" "snapshot_of (rg_dir rg) toy_view = Some []"
proof -
  obtain rg where b: "boot_views list_api toy_json toy_hvm [toy_view] [] [] = Some (Inr rg)" and life: "toy_life [] (Running Whole True rg)"
    using toy_started [of "[]"] by auto
  obtain R r rg0 where s: "open_registered toy_json [toy_view] [] = Inr R" "catch_up list_api toy_json toy_hvm [] R = Some (r, rg0)"
    "map blank (rg_views rg0) = [toy_view]" "all_synced toy_hvm [] 0 (rg_views rg0) (rg_watermarks rg0)"
    using episode_log.boot_reaches [OF list_log _ _ toy_view_ok disk_synced_fresh, where J = toy_json and is_hvm = toy_hvm and eps = "[]" and l = "[]"]
    by fastforce
  then have ck: "registry_checkpoint toy_json rg0 = (Inr (), rg)" using b checkpointed_Inr by (auto simp: boot_views_def)
  obtain u where u: "rg_views rg0 = [u]" "blank u = toy_view" using s(3) by auto
  have ok: "views_ok (rg_views rg0)" using views_ok_blank(1) [OF _ s(3)] toy_view_ok by (simp add: fresh_views_def)
  have c: "rg_views rg = [u]" "snapshot_of (rg_dir rg) u = (case vw_codec u of None \<Rightarrow> None | Some _ \<Rightarrow> Some (vw_state u))"
    using checkpoint_ok [OF ck toy_json_ok ok] u(1) by simp_all
  have "vw_codec u = Some (Some, Some)" using arg_cong [OF u(2), of vw_codec] by simp
  moreover have "replay_of u (events toy_hvm [] 0) = replay_of toy_view (events toy_hvm [] 0)"
    using u(2) by (metis replay_of_frame(3))
  then have "vw_state u = []" using s(4) u(1) by (simp add: all_synced_def synced_def toy_replay)
  ultimately have "snapshot_of (rg_dir rg) (blank u) = Some []" using c(2) by simp
  then show ?thesis using that life c(1) u(2) by simp
qed

lemma toy_boots:
  assumes "length eps < 900" and "registry_open toy_json d = Inr \<lparr>rg_dir = d, rg_views = ([] :: (bytes, u8) view list), rg_watermarks = w\<rparr>"
    and "map_of w [7] = Some m" and "unat m < length eps"
  shows "\<exists>rg. boot_views list_api toy_json toy_hvm [toy_view] eps d = Some (Inr rg)"
proof (rule episode_log.boot_succeeds [OF list_log _ _ assms(2) _ toy_total])
  show "\<forall>v \<in> set (rg_views (restore_views \<lparr>rg_dir = d, rg_views = [toy_view], rg_watermarks = w\<rparr>)).
      reach (map_of (rg_watermarks (restore_views \<lparr>rg_dir = d, rg_views = [toy_view], rg_watermarks = w\<rparr>)) (vw_name v)) \<le> length eps"
    using assms(3,4) by (simp add: restore_views_def Let_def foldl_delete delete_conv')
qed (use assms(1) in simp_all)

lemma rebuild_then_crash_loses_events_witness:
  "\<exists>rg rg' rg''. toy_life [5] (Running Whole True rg) \<and> rebuild list_api toy_json toy_hvm [5] None rg = Some (Inr (), rg')
    \<and> boot_views list_api toy_json toy_hvm [toy_view] [5] (rg_dir rg') = Some (Inr rg'')
    \<and> [5] \<in> vw_state ` set (rg_views rg') \<and> [] \<in> vw_state ` set (rg_views rg'')"
proof -
  obtain rg0 where rg0: "toy_life [] (Running Whole True rg0)" "map blank (rg_views rg0) = [toy_view]" "snapshot_of (rg_dir rg0) toy_view = Some []"
    by (rule toy_first_start)
  define rg where "rg = registry_apply toy_hvm (la_head list_api ([] :: u8 list)) 5 rg0"
  have life: "toy_life [5] (Running Whole True rg)"
    using view_life.live [OF rg0(1) _ _ toy_append, of 5] by (simp add: rg_def after_event_def)
  have dir: "rg_dir rg = rg_dir rg0" by (simp add: rg_def registry_apply_def)
  have h: "list_holds [5 :: u8] [5]" by simp
  have blank: "map blank (rg_views rg) = [toy_view]"
    using episode_log.view_life_inv [OF list_log toy_json_ok toy_view_ok life] by (simp add: memory_inv_def)
  then obtain v where v: "rg_views rg = [v]" "blank v = toy_view" by auto
  have name: "vw_name v = [7]" using arg_cong [OF v(2), of vw_name] by simp
  have snap: "snapshot_of (rg_dir rg) v = Some []" using rg0(3) v(2) snapshot_of_blank [of "rg_dir rg" v] dir by simp
  have d: "distinct (map vw_name (rg_views rg))" by (simp add: v(1))
  have evs: "events toy_hvm [5] (length [5 :: u8]) = [(0, 5)]" by simp
  obtain rg' where reb: "rebuild list_api toy_json toy_hvm [5] None rg = Some (Inr (), rg')"
    and marks: "map_of (rg_watermarks rg') [7] = Some 0"
    and stored: "map_of (rg_dir rg') WATERMARKS = Some (enc_marks (rg_watermarks rg'))"
    using episode_log.rebuild_ok [OF list_log h d, of toy_json toy_hvm None]
    by (auto simp: v(1) name selects_def last_mark_def toy_json_def)
  have reg: "registry_open toy_json (rg_dir rg')
      = Inr \<lparr>rg_dir = rg_dir rg', rg_views = ([] :: (bytes, u8) view list), rg_watermarks = rg_watermarks rg'\<rparr>"
    by (simp add: registry_open_def stored toy_json_def dec_enc_marks)
  obtain rg'' where boot: "boot_views list_api toy_json toy_hvm [toy_view] [5] (rg_dir rg') = Some (Inr rg'')"
    using toy_boots [OF _ reg marks, of "[5]"] by auto
  have "(\<exists>u \<in> set (rg_views rg'). vw_name u = vw_name v \<and> vw_state u = replay_of v (events toy_hvm [5] (length [5 :: u8])))
      \<and> (\<exists>u \<in> set (rg_views rg''). vw_name u = vw_name v \<and> vw_state u = [])"
    by (rule rebuild_then_crash_loses_events [OF list_log toy_json_ok toy_view_ok life _ _ snap _ reb boot]) (simp_all add: v(1))
  moreover have "replay_of v (events toy_hvm [5] (length [5 :: u8])) = [5]"
    unfolding evs replay_of_frame(3) [of v, symmetric] v(2) toy_replay by simp
  ultimately show ?thesis using life reb boot by force
qed

lemma skipped_replay_orphans_history_witness:
  "\<exists>rg0 rg1 rg2. boot_skipping toy_json [toy_view] [] = Inr rg0
    \<and> registry_checkpoint toy_json (registry_apply toy_hvm (la_head list_api [5, 6 :: u8]) 8 rg0) = (Inr (), rg1)
    \<and> boot_views list_api toy_json toy_hvm [toy_view] [5, 6, 8] (rg_dir rg1) = Some (Inr rg2)
    \<and> [8] \<in> vw_state ` set (rg_views rg2)"
proof -
  let ?rg0 = "\<lparr>rg_dir = [], rg_views = [toy_view], rg_watermarks = []\<rparr>"
  have skip: "boot_skipping toy_json [toy_view] [] = Inr ?rg0"
    by (simp add: boot_skipping_def open_registered_def registry_open_def register_def reset_watermarks_def)
  let ?rg = "registry_apply toy_hvm (la_head list_api [5, 6 :: u8]) 8 ?rg0"
  have rg: "rg_views ?rg = [apply_view 2 8 toy_view]" "rg_dir ?rg = []" "rg_watermarks ?rg = [([7], 2)]"
    by (simp_all add: registry_apply_def list_api_def)
  have ok: "views_ok (rg_views ?rg)" using toy_view_ok by (simp add: rg fresh_views_def views_ok_def)
  have "\<forall>v \<in> set (rg_views ?rg). \<forall>enc dec st. vw_codec v = Some (enc, dec) \<longrightarrow> enc st \<noteq> None" by (simp add: rg)
  then obtain e where e: "checkpoint_views (rg_views ?rg) (rg_dir ?rg) = (Inr (), e)" using checkpoint_views_succeed by blast
  obtain r rg1 where p: "persist_watermarks toy_json (?rg\<lparr>rg_dir := e\<rparr>) = (r, rg1)" by (cases "persist_watermarks toy_json (?rg\<lparr>rg_dir := e\<rparr>)")
  then have "r = Inr ()" using persist_files [OF p] by (simp add: toy_json_def)
  then have ck: "registry_checkpoint toy_json ?rg = (Inr (), rg1)" using e p by (simp add: registry_checkpoint_def)
  obtain w where reg: "registry_open toy_json (rg_dir rg1) = Inr \<lparr>rg_dir = rg_dir rg1, rg_views = ([] :: (bytes, u8) view list), rg_watermarks = w\<rparr>"
    and w: "map_of w = map_of (rg_watermarks ?rg)"
    using checkpoint_ok [OF ck toy_json_ok ok] by blast
  obtain rg2 where boot: "boot_views list_api toy_json toy_hvm [toy_view] [5, 6, 8] (rg_dir rg1) = Some (Inr rg2)"
    using toy_boots [OF _ reg, of "[5, 6, 8]" 2] w by (auto simp: rg)
  have app: "la_append list_api [5, 6 :: u8] (la_head list_api [5, 6]) 8 = (Inr 2, [5, 6, 8])" by (simp add: list_api_def)
  have h0: "list_holds [5, 6 :: u8] [5, 6]" by simp
  have "\<exists>u \<in> set (rg_views rg2). vw_name u = vw_name toy_view
      \<and> vw_state u = vw_apply toy_view (word_of_nat (length [5, 6 :: u8])) 8 (vw_new toy_view)"
    by (rule skipped_replay_orphans_history [OF list_log toy_json_ok toy_view_ok h0 _ _ _ _ _ skip app ck boot]) simp_all
  then have "[8] \<in> vw_state ` set (rg_views rg2)" by (force simp: toy_view_def)
  then show ?thesis using skip ck boot by blast
qed

end
