(* ===== verification/Hume_Ir.thy ===== *)
theory Hume_Ir
  imports Prelude
begin

text \<open>
  \<open>hume-ir/src/lib.rs\<close> and \<open>passes.rs\<close>: the intermediate representation of scalar expressions in static single
  assignment form, its verifier, its interpreter and the optimisation passes. \<open>f64\<close> is a parameter. A panic is
  \<open>None\<close>: an index out of range, or an overflow of \<open>i64\<close> when the build checks for it, which is the argument
  \<open>checks\<close> (true in debug builds; in release builds the arithmetic wraps).
\<close>

section \<open>The representation\<close>

type_synonym value_id = u32

datatype ty = TyI64 | TyF64 | TyBool

record 'd f64 =
  d_add :: "'d \<Rightarrow> 'd \<Rightarrow> 'd"
  d_sub :: "'d \<Rightarrow> 'd \<Rightarrow> 'd"
  d_mul :: "'d \<Rightarrow> 'd \<Rightarrow> 'd"
  d_gt :: "'d \<Rightarrow> 'd \<Rightarrow> bool"
  d_lt :: "'d \<Rightarrow> 'd \<Rightarrow> bool"
  d_eq :: "'d \<Rightarrow> 'd \<Rightarrow> bool"

datatype 'd const = ConstI64 "64 word" | ConstF64 'd | ConstBool bool

datatype 'd ir_val = ValI64 "64 word" | ValF64 'd | ValBool bool

fun const_ty :: "'d const \<Rightarrow> ty" where
  "const_ty (ConstI64 _) = TyI64"
| "const_ty (ConstF64 _) = TyF64"
| "const_ty (ConstBool _) = TyBool"

fun to_val :: "'d const \<Rightarrow> 'd ir_val" where
  "to_val (ConstI64 x) = ValI64 x"
| "to_val (ConstF64 x) = ValF64 x"
| "to_val (ConstBool x) = ValBool x"

datatype 'd ir_op =
    OpConst "'d const" | OpColumn nat ty
  | OpAdd value_id value_id | OpSub value_id value_id | OpMul value_id value_id
  | OpCmpGt value_id value_id | OpCmpLt value_id value_id | OpCmpEq value_id value_id
  | OpAnd value_id value_id | OpOr value_id value_id | OpNot value_id

record 'd ir_inst =
  in_result :: value_id
  in_op :: "'d ir_op"

record 'd ir_function =
  fn_n_columns :: nat
  fn_insts :: "'d ir_inst list"
  fn_ret :: value_id

text \<open>The builder numbers the instructions as they come.\<close>

definition ir_push :: "'d ir_op \<Rightarrow> 'd ir_inst list \<Rightarrow> value_id \<times> 'd ir_inst list" where
  "ir_push op b = (let i = word_of_nat (length b) in (i, b @ [\<lparr>in_result = i, in_op = op\<rparr>]))"

definition ir_finish :: "nat \<Rightarrow> value_id \<Rightarrow> 'd ir_inst list \<Rightarrow> 'd ir_function" where
  "ir_finish n_columns ret b = \<lparr>fn_n_columns = n_columns, fn_insts = b, fn_ret = ret\<rparr>"

section \<open>Verification\<close>

datatype ir_error =
    BadNumbering nat value_id | UseBeforeDef value_id value_id | TypeMismatch value_id string
  | ColumnOob value_id nat nat | RetOob value_id nat

definition operand_ty :: "value_id \<Rightarrow> ty list \<Rightarrow> value_id \<Rightarrow> ir_error + ty" where
  "operand_ty i types v = (if i \<le> v then Inl (UseBeforeDef i v) else Inr (types ! unat v))"

definition same_numeric :: "value_id \<Rightarrow> ty list \<Rightarrow> value_id \<Rightarrow> value_id \<Rightarrow> string \<Rightarrow> ir_error + ty" where
  "same_numeric i types a b detail = bindE (operand_ty i types a) (\<lambda>ta. bindE (operand_ty i types b) (\<lambda>tb.
     if ta \<noteq> tb \<or> ta = TyBool then Inl (TypeMismatch i detail) else Inr ta))"

definition both_bool :: "value_id \<Rightarrow> ty list \<Rightarrow> value_id \<Rightarrow> value_id \<Rightarrow> ir_error + ty" where
  "both_bool i types a b = bindE (operand_ty i types a) (\<lambda>ta. bindE (operand_ty i types b) (\<lambda>tb.
     if ta \<noteq> TyBool \<or> tb \<noteq> TyBool then Inl (TypeMismatch i ''logica exige Bool'') else Inr TyBool))"

fun op_ty :: "nat \<Rightarrow> value_id \<Rightarrow> ty list \<Rightarrow> 'd ir_op \<Rightarrow> ir_error + ty" where
  "op_ty n_columns i types (OpConst c) = Inr (const_ty c)"
| "op_ty n_columns i types (OpColumn idx t) = (if n_columns \<le> idx then Inl (ColumnOob i idx n_columns) else Inr t)"
| "op_ty n_columns i types (OpAdd a b) = same_numeric i types a b ''aritmetica exige numericos do mesmo tipo''"
| "op_ty n_columns i types (OpSub a b) = same_numeric i types a b ''aritmetica exige numericos do mesmo tipo''"
| "op_ty n_columns i types (OpMul a b) = same_numeric i types a b ''aritmetica exige numericos do mesmo tipo''"
| "op_ty n_columns i types (OpCmpGt a b) =
     bindE (same_numeric i types a b ''comparacao exige numericos do mesmo tipo'') (\<lambda>_. Inr TyBool)"
| "op_ty n_columns i types (OpCmpLt a b) =
     bindE (same_numeric i types a b ''comparacao exige numericos do mesmo tipo'') (\<lambda>_. Inr TyBool)"
| "op_ty n_columns i types (OpCmpEq a b) =
     bindE (same_numeric i types a b ''comparacao exige numericos do mesmo tipo'') (\<lambda>_. Inr TyBool)"
| "op_ty n_columns i types (OpAnd a b) = both_bool i types a b"
| "op_ty n_columns i types (OpOr a b) = both_bool i types a b"
| "op_ty n_columns i types (OpNot a) = bindE (operand_ty i types a) (\<lambda>t.
     if t \<noteq> TyBool then Inl (TypeMismatch i ''Not exige Bool'') else Inr TyBool)"

text \<open>The index is cast to \<open>u32\<close> before it is compared, as the source does.\<close>

fun verify_insts :: "nat \<Rightarrow> ty list \<Rightarrow> 'd ir_inst list \<Rightarrow> ir_error + ty list" where
  "verify_insts n_columns types [] = Inr types"
| "verify_insts n_columns types (inst # rest) = (let i = word_of_nat (length types) in
     if in_result inst \<noteq> i then Inl (BadNumbering (unat i) (in_result inst))
     else bindE (op_ty n_columns i types (in_op inst)) (\<lambda>t. verify_insts n_columns (types @ [t]) rest))"

definition verify :: "'d ir_function \<Rightarrow> ir_error + ty list" where
  "verify f = bindE (verify_insts (fn_n_columns f) [] (fn_insts f)) (\<lambda>types.
     if length types \<le> unat (fn_ret f) then Inl (RetOob (fn_ret f) (length types)) else Inr types)"

section \<open>The interpreter\<close>

fun as_bool :: "'d ir_val \<Rightarrow> bool" where
  "as_bool (ValBool b) = b"
| "as_bool _ = False"

datatype 'd column_data = ColI64 "64 word list" | ColF64 "'d list"

fun col_get :: "'d column_data \<Rightarrow> nat \<Rightarrow> 'd ir_val option" where
  "col_get (ColI64 s) row = (if row < length s then Some (ValI64 (s ! row)) else None)"
| "col_get (ColF64 s) row = (if row < length s then Some (ValF64 (s ! row)) else None)"

text \<open>An operator of \<open>i64\<close>: it wraps, or panics on overflow where the build checks.\<close>

definition i64_op :: "bool \<Rightarrow> (int \<Rightarrow> int \<Rightarrow> int) \<Rightarrow> 64 word \<Rightarrow> 64 word \<Rightarrow> 64 word option" where
  "i64_op checks g x y = (let r = g (sint x) (sint y) in
     if checks \<and> (r < - (2 ^ 63) \<or> 2 ^ 63 \<le> r) then None else Some (word_of_int r))"

fun arith :: "(64 word \<Rightarrow> 64 word \<Rightarrow> 64 word option) \<Rightarrow> ('d \<Rightarrow> 'd \<Rightarrow> 'd) \<Rightarrow> 'd ir_val \<Rightarrow> 'd ir_val \<Rightarrow> 'd ir_val option" where
  "arith fi ff (ValI64 x) (ValI64 y) = map_option ValI64 (fi x y)"
| "arith fi ff (ValF64 x) (ValF64 y) = Some (ValF64 (ff x y))"
| "arith fi ff _ _ = Some (ValBool False)"

fun compare :: "(64 word \<Rightarrow> 64 word \<Rightarrow> bool) \<Rightarrow> ('d \<Rightarrow> 'd \<Rightarrow> bool) \<Rightarrow> 'd ir_val \<Rightarrow> 'd ir_val \<Rightarrow> 'd ir_val" where
  "compare fi ff (ValI64 x) (ValI64 y) = ValBool (fi x y)"
| "compare fi ff (ValF64 x) (ValF64 y) = ValBool (ff x y)"
| "compare fi ff _ _ = ValBool False"

definition i64_gt :: "64 word \<Rightarrow> 64 word \<Rightarrow> bool" where
  "i64_gt x y \<longleftrightarrow> sint y < sint x"

definition i64_lt :: "64 word \<Rightarrow> 64 word \<Rightarrow> bool" where
  "i64_lt x y \<longleftrightarrow> sint x < sint y"

text \<open>Indexing a vector with a value's number panics when it is out of range.\<close>

definition vec_at :: "'a list \<Rightarrow> value_id \<Rightarrow> 'a option" where
  "vec_at xs v = (if unat v < length xs then Some (xs ! unat v) else None)"

fun eval_op :: "bool \<Rightarrow> 'd f64 \<Rightarrow> 'd column_data list \<Rightarrow> nat \<Rightarrow> 'd ir_val list \<Rightarrow> 'd ir_op \<Rightarrow> 'd ir_val option" where
  "eval_op checks fl cols row env (OpConst c) = Some (to_val c)"
| "eval_op checks fl cols row env (OpColumn idx _) = (if idx < length cols then col_get (cols ! idx) row else None)"
| "eval_op checks fl cols row env (OpAdd a b) =
     Option.bind (vec_at env a) (\<lambda>x. Option.bind (vec_at env b) (\<lambda>y. arith (i64_op checks (+)) (d_add fl) x y))"
| "eval_op checks fl cols row env (OpSub a b) =
     Option.bind (vec_at env a) (\<lambda>x. Option.bind (vec_at env b) (\<lambda>y. arith (i64_op checks (-)) (d_sub fl) x y))"
| "eval_op checks fl cols row env (OpMul a b) =
     Option.bind (vec_at env a) (\<lambda>x. Option.bind (vec_at env b) (\<lambda>y. arith (i64_op checks (*)) (d_mul fl) x y))"
| "eval_op checks fl cols row env (OpCmpGt a b) =
     Option.bind (vec_at env a) (\<lambda>x. Option.bind (vec_at env b) (\<lambda>y. Some (compare i64_gt (d_gt fl) x y)))"
| "eval_op checks fl cols row env (OpCmpLt a b) =
     Option.bind (vec_at env a) (\<lambda>x. Option.bind (vec_at env b) (\<lambda>y. Some (compare i64_lt (d_lt fl) x y)))"
| "eval_op checks fl cols row env (OpCmpEq a b) =
     Option.bind (vec_at env a) (\<lambda>x. Option.bind (vec_at env b) (\<lambda>y. Some (compare (=) (d_eq fl) x y)))"
| "eval_op checks fl cols row env (OpAnd a b) = Option.bind (vec_at env a) (\<lambda>x.
     if as_bool x then map_option (\<lambda>y. ValBool (as_bool y)) (vec_at env b) else Some (ValBool False))"
| "eval_op checks fl cols row env (OpOr a b) = Option.bind (vec_at env a) (\<lambda>x.
     if as_bool x then Some (ValBool True) else map_option (\<lambda>y. ValBool (as_bool y)) (vec_at env b))"
| "eval_op checks fl cols row env (OpNot a) = map_option (\<lambda>x. ValBool (\<not> as_bool x)) (vec_at env a)"

definition put :: "'a list \<Rightarrow> value_id \<Rightarrow> 'a \<Rightarrow> 'a list option" where
  "put xs v x = (if unat v < length xs then Some (xs[unat v := x]) else None)"

fun run_insts :: "bool \<Rightarrow> 'd f64 \<Rightarrow> 'd column_data list \<Rightarrow> nat \<Rightarrow> 'd ir_inst list \<Rightarrow> 'd ir_val list \<Rightarrow> 'd ir_val list option" where
  "run_insts checks fl cols row [] env = Some env"
| "run_insts checks fl cols row (inst # rest) env =
     Option.bind (eval_op checks fl cols row env (in_op inst)) (\<lambda>v.
     Option.bind (put env (in_result inst) v) (run_insts checks fl cols row rest))"

text \<open>The environment is allocated once and is not cleared between rows.\<close>

fun interpret_rows :: "bool \<Rightarrow> 'd f64 \<Rightarrow> 'd ir_function \<Rightarrow> 'd column_data list \<Rightarrow> 'd ir_val list \<Rightarrow> nat list \<Rightarrow> 'd ir_val list option" where
  "interpret_rows checks fl f cols env [] = Some []"
| "interpret_rows checks fl f cols env (row # rows) =
     Option.bind (run_insts checks fl cols row (fn_insts f) env) (\<lambda>env'.
     Option.bind (vec_at env' (fn_ret f)) (\<lambda>v.
     map_option ((#) v) (interpret_rows checks fl f cols env' rows)))"

definition interpret_ir :: "bool \<Rightarrow> 'd f64 \<Rightarrow> 'd ir_function \<Rightarrow> 'd column_data list \<Rightarrow> nat \<Rightarrow> (ir_error + 'd ir_val list) option" where
  "interpret_ir checks fl f cols n = (case verify f of
       Inl e \<Rightarrow> Some (Inl e)
     | Inr _ \<Rightarrow> map_option Inr (interpret_rows checks fl f cols (replicate (length (fn_insts f)) (ValBool False)) [0..<n]))"

definition interpret_mask :: "bool \<Rightarrow> 'd f64 \<Rightarrow> 'd ir_function \<Rightarrow> 'd column_data list \<Rightarrow> nat \<Rightarrow> (ir_error + u32 list) option" where
  "interpret_mask checks fl f cols n = map_option (map_sum id (\<lambda>vals.
     map (\<lambda>(i, v). word_of_nat i) (filter (\<lambda>(i, v). as_bool v) (enumerate 0 vals)))) (interpret_ir checks fl f cols n)"

section \<open>Optimisation passes\<close>

fun operands :: "'d ir_op \<Rightarrow> value_id list" where
  "operands (OpConst _) = []"
| "operands (OpColumn _ _) = []"
| "operands (OpNot a) = [a]"
| "operands (OpAdd a b) = [a, b]"
| "operands (OpSub a b) = [a, b]"
| "operands (OpMul a b) = [a, b]"
| "operands (OpCmpGt a b) = [a, b]"
| "operands (OpCmpLt a b) = [a, b]"
| "operands (OpCmpEq a b) = [a, b]"
| "operands (OpAnd a b) = [a, b]"
| "operands (OpOr a b) = [a, b]"

text \<open>\<open>Some None\<close> is an operation that is not reduced, \<open>None\<close> a panic while it is evaluated.\<close>

definition fold_binop :: "bool \<Rightarrow> 'd f64 \<Rightarrow> 'd ir_op \<Rightarrow> 'd const \<Rightarrow> 'd const \<Rightarrow> 'd const option option" where
  "fold_binop checks fl op a b = (case (a, b) of
       (ConstI64 x, ConstI64 y) \<Rightarrow> (case op of
           OpAdd _ _ \<Rightarrow> map_option (\<lambda>r. Some (ConstI64 r)) (i64_op checks (+) x y)
         | OpSub _ _ \<Rightarrow> map_option (\<lambda>r. Some (ConstI64 r)) (i64_op checks (-) x y)
         | OpMul _ _ \<Rightarrow> map_option (\<lambda>r. Some (ConstI64 r)) (i64_op checks (*) x y)
         | OpCmpGt _ _ \<Rightarrow> Some (Some (ConstBool (i64_gt x y)))
         | OpCmpLt _ _ \<Rightarrow> Some (Some (ConstBool (i64_lt x y)))
         | OpCmpEq _ _ \<Rightarrow> Some (Some (ConstBool (x = y)))
         | _ \<Rightarrow> Some None)
     | (ConstF64 x, ConstF64 y) \<Rightarrow> (case op of
           OpAdd _ _ \<Rightarrow> Some (Some (ConstF64 (d_add fl x y)))
         | OpSub _ _ \<Rightarrow> Some (Some (ConstF64 (d_sub fl x y)))
         | OpMul _ _ \<Rightarrow> Some (Some (ConstF64 (d_mul fl x y)))
         | OpCmpGt _ _ \<Rightarrow> Some (Some (ConstBool (d_gt fl x y)))
         | OpCmpLt _ _ \<Rightarrow> Some (Some (ConstBool (d_lt fl x y)))
         | OpCmpEq _ _ \<Rightarrow> Some (Some (ConstBool (d_eq fl x y)))
         | _ \<Rightarrow> Some None)
     | (ConstBool x, ConstBool y) \<Rightarrow> (case op of
           OpAnd _ _ \<Rightarrow> Some (Some (ConstBool (x \<and> y)))
         | OpOr _ _ \<Rightarrow> Some (Some (ConstBool (x \<or> y)))
         | _ \<Rightarrow> Some None)
     | _ \<Rightarrow> Some None)"

definition fold_pair :: "bool \<Rightarrow> 'd f64 \<Rightarrow> 'd const option list \<Rightarrow> 'd ir_op \<Rightarrow> value_id \<Rightarrow> value_id \<Rightarrow> 'd const option option" where
  "fold_pair checks fl known op a b = Option.bind (vec_at known a) (\<lambda>x. Option.bind (vec_at known b) (\<lambda>y.
     case (x, y) of (Some c, Some d) \<Rightarrow> fold_binop checks fl op c d | _ \<Rightarrow> Some None))"

fun fold_op :: "bool \<Rightarrow> 'd f64 \<Rightarrow> 'd const option list \<Rightarrow> 'd ir_op \<Rightarrow> 'd const option option" where
  "fold_op checks fl known (OpConst c) = Some (Some c)"
| "fold_op checks fl known (OpColumn _ _) = Some None"
| "fold_op checks fl known (OpNot a) = map_option (\<lambda>x. case x of
     Some (ConstBool b) \<Rightarrow> Some (ConstBool (\<not> b)) | _ \<Rightarrow> None) (vec_at known a)"
| "fold_op checks fl known (OpAdd a b) = fold_pair checks fl known (OpAdd a b) a b"
| "fold_op checks fl known (OpSub a b) = fold_pair checks fl known (OpSub a b) a b"
| "fold_op checks fl known (OpMul a b) = fold_pair checks fl known (OpMul a b) a b"
| "fold_op checks fl known (OpCmpGt a b) = fold_pair checks fl known (OpCmpGt a b) a b"
| "fold_op checks fl known (OpCmpLt a b) = fold_pair checks fl known (OpCmpLt a b) a b"
| "fold_op checks fl known (OpCmpEq a b) = fold_pair checks fl known (OpCmpEq a b) a b"
| "fold_op checks fl known (OpAnd a b) = fold_pair checks fl known (OpAnd a b) a b"
| "fold_op checks fl known (OpOr a b) = fold_pair checks fl known (OpOr a b) a b"

fun fold_insts :: "bool \<Rightarrow> 'd f64 \<Rightarrow> nat \<Rightarrow> 'd const option list \<Rightarrow> 'd ir_inst list \<Rightarrow> 'd ir_inst list option" where
  "fold_insts checks fl i known [] = Some []"
| "fold_insts checks fl i known (inst # rest) = Option.bind (fold_op checks fl known (in_op inst)) (\<lambda>folded.
     map_option ((#) \<lparr>in_result = word_of_nat i,
                      in_op = (case folded of Some c \<Rightarrow> OpConst c | None \<Rightarrow> in_op inst)\<rparr>)
       (fold_insts checks fl (Suc i) (known[i := folded]) rest))"

definition constant_fold :: "bool \<Rightarrow> 'd f64 \<Rightarrow> 'd ir_function \<Rightarrow> 'd ir_function option" where
  "constant_fold checks fl f = map_option (\<lambda>insts.
     \<lparr>fn_n_columns = fn_n_columns f, fn_insts = insts, fn_ret = fn_ret f\<rparr>)
     (fold_insts checks fl 0 (replicate (length (fn_insts f)) None) (fn_insts f))"

fun mark_all :: "value_id list \<Rightarrow> bool list \<Rightarrow> bool list option" where
  "mark_all [] live = Some live"
| "mark_all (v # vs) live = Option.bind (put live v True) (mark_all vs)"

text \<open>The loop over the instructions from the last to the first.\<close>

fun mark_live :: "'d ir_inst list \<Rightarrow> nat \<Rightarrow> bool list \<Rightarrow> bool list option" where
  "mark_live insts 0 live = Some live"
| "mark_live insts (Suc i) live =
     (if live ! i then Option.bind (mark_all (operands (in_op (insts ! i))) live) (mark_live insts i)
      else mark_live insts i live)"

fun remap_loop :: "bool \<Rightarrow> bool list \<Rightarrow> u32 \<Rightarrow> u32 list option" where
  "remap_loop checks [] next_id = Some []"
| "remap_loop checks (l # live) next_id =
     (if l then if checks \<and> unat next_id + 1 = 2 ^ 32 then None
        else map_option ((#) next_id) (remap_loop checks live (next_id + 1))
      else map_option ((#) 0) (remap_loop checks live next_id))"

fun rename_op :: "(value_id \<Rightarrow> value_id) \<Rightarrow> 'd ir_op \<Rightarrow> 'd ir_op" where
  "rename_op m (OpConst c) = OpConst c"
| "rename_op m (OpColumn i t) = OpColumn i t"
| "rename_op m (OpNot a) = OpNot (m a)"
| "rename_op m (OpAdd a b) = OpAdd (m a) (m b)"
| "rename_op m (OpSub a b) = OpSub (m a) (m b)"
| "rename_op m (OpMul a b) = OpMul (m a) (m b)"
| "rename_op m (OpCmpGt a b) = OpCmpGt (m a) (m b)"
| "rename_op m (OpCmpLt a b) = OpCmpLt (m a) (m b)"
| "rename_op m (OpCmpEq a b) = OpCmpEq (m a) (m b)"
| "rename_op m (OpAnd a b) = OpAnd (m a) (m b)"
| "rename_op m (OpOr a b) = OpOr (m a) (m b)"

definition remap_op :: "'d ir_op \<Rightarrow> u32 list \<Rightarrow> 'd ir_op option" where
  "remap_op op remap = (if \<forall>v \<in> set (operands op). unat v < length remap
     then Some (rename_op (\<lambda>v. remap ! unat v) op) else None)"

fun rebuild_live :: "u32 list \<Rightarrow> (bool \<times> u32 \<times> 'd ir_inst) list \<Rightarrow> 'd ir_inst list option" where
  "rebuild_live remap [] = Some []"
| "rebuild_live remap ((l, new_id, inst) # rest) =
     (if l then Option.bind (remap_op (in_op inst) remap) (\<lambda>op.
        map_option ((#) \<lparr>in_result = new_id, in_op = op\<rparr>) (rebuild_live remap rest))
      else rebuild_live remap rest)"

definition dead_code_elimination :: "bool \<Rightarrow> 'd ir_function \<Rightarrow> 'd ir_function option" where
  "dead_code_elimination checks f = (let insts = fn_insts f; n = length insts in
     Option.bind (put (replicate n False) (fn_ret f) True) (\<lambda>live0.
     Option.bind (mark_live insts n live0) (\<lambda>live.
     Option.bind (remap_loop checks live 0) (\<lambda>remap.
     Option.bind (rebuild_live remap (zip live (zip remap insts))) (\<lambda>insts'.
     Option.bind (vec_at remap (fn_ret f)) (\<lambda>ret.
     Some \<lparr>fn_n_columns = fn_n_columns f, fn_insts = insts', fn_ret = ret\<rparr>))))))"

definition optimize :: "bool \<Rightarrow> 'd f64 \<Rightarrow> 'd ir_function \<Rightarrow> 'd ir_function option" where
  "optimize checks fl f = Option.bind (constant_fold checks fl f) (dead_code_elimination checks)"

end
