(* ===== verification/Hume_Ir_Passes.thy ===== *)
theory Hume_Ir_Passes
  imports Hume_Ir_Correct
begin

text \<open>
  The interpreter as the solution of the instructions' equations, its progress on typed data, and the two passes:
  folding keeps the equations of a function, dead code elimination keeps those that the result depends on.
\<close>

section \<open>The interpreter over all rows\<close>

lemma interpret_rows_iff:
  assumes "scoped (fn_insts f)" "length (fn_insts f) \<le> 2 ^ 32" "unat (fn_ret f) < length (fn_insts f)"
    and "length env = length (fn_insts f)"
  shows "interpret_rows ck fl f cols env rows = Some out \<longleftrightarrow> list_all2 (\<lambda>row v. \<exists>vals.
    denotes (eval_op ck fl cols row) (fn_insts f) vals \<and> vals ! unat (fn_ret f) = v) rows out"
  using assms(4)
proof (induction rows arbitrary: env out)
  case (Cons row rows)
  have len: "denotes (eval_op ck fl cols row) (fn_insts f) vals \<Longrightarrow> length vals = length (fn_insts f)" for vals
    by (simp add: denotes_def)
  show ?case
    using Cons.IH assms(3) len
    by (auto simp: bind_eq_Some_conv run_insts_denotes [OF assms(1,2) Cons.prems] vec_at_def list_all2_Cons1)
qed auto

lemma interpret_iff:
  assumes "verify f = Inr types" "length (fn_insts f) \<le> 2 ^ 32"
  shows "interpret_ir ck fl f cols n = Some (Inr out) \<longleftrightarrow> length out = n \<and> (\<forall>row < n. \<exists>vals.
    denotes (eval_op ck fl cols row) (fn_insts f) vals \<and> vals ! unat (fn_ret f) = out ! row)"
proof -
  have "well_formed f types" using assms verify_iff by blast
  then show ?thesis
    using assms by (auto simp: interpret_ir_def well_formed_def interpret_rows_iff list_all2_conv_all_nth)
qed

lemma denotes_unique:
  assumes "scoped insts" "length insts \<le> 2 ^ 32"
    and "denotes (eval_op ck fl cols row) insts vals" "denotes (eval_op ck fl cols row) insts vals'"
  shows "vals = vals'"
  using run_insts_denotes [OF assms(1,2), of "replicate (length insts) (ValBool False)" ck fl cols row] assms(3,4)
  by (metis length_replicate option.inject)

section \<open>Progress on typed data\<close>

fun val_ty :: "'d ir_val \<Rightarrow> ty" where
  "val_ty (ValI64 _) = TyI64"
| "val_ty (ValF64 _) = TyF64"
| "val_ty (ValBool _) = TyBool"

fun col_ty :: "'d column_data \<Rightarrow> ty" where
  "col_ty (ColI64 _) = TyI64"
| "col_ty (ColF64 _) = TyF64"

fun col_len :: "'d column_data \<Rightarrow> nat" where
  "col_len (ColI64 s) = length s"
| "col_len (ColF64 s) = length s"

text \<open>Every column a function loads exists, has the declared type and at least \<open>n\<close> rows.\<close>

definition columns_conform :: "'d ir_function \<Rightarrow> 'd column_data list \<Rightarrow> nat \<Rightarrow> bool" where
  "columns_conform f cols n \<longleftrightarrow> (\<forall>inst \<in> set (fn_insts f). case in_op inst of
     OpColumn idx t \<Rightarrow> idx < length cols \<and> col_ty (cols ! idx) = t \<and> n \<le> col_len (cols ! idx) | _ \<Rightarrow> True)"

lemma i64_op_release [simp]: "i64_op False g x y = Some (word_of_int (g (sint x) (sint y)))"
  by (simp add: i64_op_def)

lemma col_get_ty: "row < col_len c \<Longrightarrow> \<exists>v. col_get c row = Some v \<and> val_ty v = col_ty c"
  by (cases c) auto

lemma arith_ty: "val_ty x = t \<Longrightarrow> val_ty y = t \<Longrightarrow> t \<noteq> TyBool \<Longrightarrow>
  \<exists>v. arith (i64_op False g) ff x y = Some v \<and> val_ty v = t"
  by (cases x; cases y) auto

lemma compare_ty: "val_ty (compare fi ff x y) = TyBool"
  by (cases x; cases y) auto

lemma to_val_ty [simp]: "val_ty (to_val c) = const_ty c"
  by (cases c) auto

lemma eval_op_progress:
  assumes "typed_op nc types op t" "\<And>v. v \<in> set (operands op) \<Longrightarrow> unat v < length env \<and> val_ty (env ! unat v) = types ! unat v"
    and "case op of OpColumn idx t \<Rightarrow> idx < length cols \<and> col_ty (cols ! idx) = t \<and> row < col_len (cols ! idx) | _ \<Rightarrow> True"
  shows "\<exists>v. eval_op False fl cols row env op = Some v \<and> val_ty v = t"
  using assms by (cases op) (auto simp: vec_at_def compare_ty intro!: arith_ty dest: col_get_ty)

lemma denotes_progress:
  assumes wf: "scoped (fn_insts f)" "length (fn_insts f) \<le> 2 ^ 32" and "length types = length (fn_insts f)"
    and typed: "\<And>i. i < length types \<Longrightarrow> typed_op (fn_n_columns f) types (in_op (fn_insts f ! i)) (types ! i)"
    and cols: "columns_conform f cols n" "row < n"
  shows "\<exists>vals. denotes (eval_op False fl cols row) (fn_insts f) vals \<and> map val_ty vals = types"
proof -
  let ?insts = "fn_insts f"
  have "\<exists>vals. length vals = k \<and> (\<forall>i < k. eval_op False fl cols row vals (in_op (?insts ! i)) = Some (vals ! i) \<and> val_ty (vals ! i) = types ! i)"
    if "k \<le> length ?insts" for k
    using that
  proof (induction k)
    case (Suc k)
    then obtain vals where vals: "length vals = k"
      "\<forall>i < k. eval_op False fl cols row vals (in_op (?insts ! i)) = Some (vals ! i) \<and> val_ty (vals ! i) = types ! i"
      by auto
    have ops: "v \<in> set (operands (in_op (?insts ! i))) \<Longrightarrow> unat v < i" if "i \<le> k" for v i
      using wf Suc.prems that by (auto simp: scoped_def)
    have "?insts ! k \<in> set ?insts" using Suc.prems by simp
    then have "case in_op (?insts ! k) of OpColumn idx t \<Rightarrow> idx < length cols \<and> col_ty (cols ! idx) = t \<and> row < col_len (cols ! idx) | _ \<Rightarrow> True"
      using cols unfolding columns_conform_def by (fastforce split: ir_op.splits)
    then obtain v where v: "eval_op False fl cols row vals (in_op (?insts ! k)) = Some v" "val_ty v = types ! k"
      using eval_op_progress [OF typed [of k], of vals cols row fl] vals ops [of k] Suc.prems assms(3) by auto
    have "eval_op False fl cols row (vals @ [v]) (in_op (?insts ! i)) = eval_op False fl cols row vals (in_op (?insts ! i))"
      if "i \<le> k" for i
      using ops [OF that] that vals(1) by (intro eval_op_cong) (auto simp: vec_at_def nth_append dest: less_le_trans)
    then show ?case
      using v vals by (intro exI [of _ "vals @ [v]"]) (auto simp: nth_append less_Suc_eq)
  qed simp
  then show ?thesis
    using assms(3) by (metis (no_types, lifting) denotes_def length_map nth_equalityI nth_map order_refl)
qed

section \<open>Constant folding\<close>

lemma fold_pair_cases:
  assumes "fold_pair ck fl known op a b = Some (Some c)"
  obtains x y where "unat a < length known" "unat b < length known" "known ! unat a = Some x" "known ! unat b = Some y"
    "fold_binop ck fl op x y = Some (Some c)"
  using assms by (auto simp: fold_pair_def vec_at_def bind_eq_Some_conv split: option.splits if_splits)

lemma fold_not_cases:
  assumes "fold_op ck fl known (OpNot a) = Some (Some c)"
  obtains b where "unat a < length known" "known ! unat a = Some (ConstBool b)" "c = ConstBool (\<not> b)"
proof -
  obtain x where x: "vec_at known a = Some x" "(case x of Some (ConstBool b) \<Rightarrow> Some (ConstBool (\<not> b)) | _ \<Rightarrow> None) = Some c"
    using assms by auto
  have "unat a < length known \<and> (\<exists>b. known ! unat a = Some (ConstBool b) \<and> c = ConstBool (\<not> b))"
  proof (cases x)
    case (Some k)
    then show ?thesis using x by (cases k) (auto simp: vec_at_def split: if_splits)
  qed (use x in simp)
  then show ?thesis using that by blast
qed

lemma fold_op_value:
  assumes "fold_op ck fl known op = Some (Some c)" "length vals = length known"
    and "\<And>v x. v \<in> set (operands op) \<Longrightarrow> known ! unat v = Some x \<Longrightarrow> vals ! unat v = to_val x"
  shows "eval_op ck fl cols row vals op = Some (to_val c)"
  using assms
  by (cases op) (auto simp: fold_binop_def vec_at_def simp del: fold_op.simps(3)
      elim!: fold_pair_cases fold_not_cases split: const.splits option.splits if_splits)

lemma fold_op_type:
  assumes "fold_op ck fl known op = Some (Some c)" "typed_op nc types op t"
    and "\<And>v x. v \<in> set (operands op) \<Longrightarrow> known ! unat v = Some x \<Longrightarrow> types ! unat v = const_ty x"
  shows "const_ty c = t"
  using assms
  by (cases op) (auto simp: fold_binop_def vec_at_def simp del: fold_op.simps(3)
      elim!: fold_pair_cases fold_not_cases split: const.splits option.splits if_splits)

lemma fold_op_total:
  assumes "\<And>v. v \<in> set (operands op) \<Longrightarrow> unat v < length known" "length vals = length known"
    and "\<And>v x. v \<in> set (operands op) \<Longrightarrow> known ! unat v = Some x \<Longrightarrow> vals ! unat v = to_val x"
    and "\<not> ck \<or> eval_op ck fl cols row vals op \<noteq> None"
  shows "fold_op ck fl known op \<noteq> None"
  using assms
  by (cases ck; cases op) (auto simp: fold_pair_def fold_binop_def vec_at_def split: const.splits option.splits if_splits)

lemma fold_op_total_release:
  "(\<And>v. v \<in> set (operands op) \<Longrightarrow> unat v < length known) \<Longrightarrow> fold_op False fl known op \<noteq> None"
  by (cases op) (auto simp: fold_pair_def fold_binop_def vec_at_def split: const.splits option.splits if_splits)

text \<open>A literal that may stand for a value: it has its type, and is what it denotes on every row.\<close>

definition agrees :: "bool \<Rightarrow> 'd f64 \<Rightarrow> 'd ir_inst list \<Rightarrow> ty list \<Rightarrow> nat \<Rightarrow> 'd const \<Rightarrow> bool" where
  "agrees ck fl insts types j c \<longleftrightarrow> types ! j = const_ty c \<and>
     (\<forall>cols row vals. denotes (eval_op ck fl cols row) insts vals \<longrightarrow> vals ! j = to_val c)"

definition folds_to :: "bool \<Rightarrow> 'd f64 \<Rightarrow> 'd ir_inst list \<Rightarrow> ty list \<Rightarrow> nat \<Rightarrow> 'd ir_inst \<Rightarrow> bool" where
  "folds_to ck fl insts types j inst \<longleftrightarrow> in_result inst = word_of_nat j \<and>
     (in_op inst = in_op (insts ! j) \<or> (\<exists>c. in_op inst = OpConst c \<and> agrees ck fl insts types j c))"

lemma fold_op_agrees:
  assumes "scoped insts" "i < length insts" "length known = length insts"
    and known: "\<And>j c. j < i \<Longrightarrow> known ! j = Some c \<Longrightarrow> agrees ck fl insts types j c"
    and "typed_op nc types (in_op (insts ! i)) (types ! i)" "fold_op ck fl known (in_op (insts ! i)) = Some (Some c)"
  shows "agrees ck fl insts types i c"
  unfolding agrees_def
proof (intro conjI allI impI)
  have ops: "v \<in> set (operands (in_op (insts ! i))) \<Longrightarrow> unat v < i" for v
    using assms(1,2) by (auto simp: scoped_def)
  show "types ! i = const_ty c"
    using fold_op_type [OF assms(6,5)] known ops by (auto simp: agrees_def)
  fix cols row vals assume den: "denotes (eval_op ck fl cols row) insts vals"
  then have "eval_op ck fl cols row vals (in_op (insts ! i)) = Some (to_val c)"
    using known ops assms(3) by (intro fold_op_value [OF assms(6)]) (auto simp: agrees_def denotes_def)
  then show "vals ! i = to_val c"
    using den assms(2) by (auto simp: denotes_def)
qed

lemma fold_insts_spec:
  assumes "scoped insts" and typed: "\<And>i. i < length insts \<Longrightarrow> typed_op nc types (in_op (insts ! i)) (types ! i)"
    and "i \<le> length insts" "length known = length insts"
    and "\<And>j c. j < i \<Longrightarrow> known ! j = Some c \<Longrightarrow> agrees ck fl insts types j c"
    and total: "ck \<Longrightarrow> \<exists>cols row vals. denotes (eval_op ck fl cols row) insts vals"
  shows "\<exists>rest. fold_insts ck fl i known (drop i insts) = Some rest \<and> length rest = length insts - i \<and>
    (\<forall>j < length rest. folds_to ck fl insts types (i + j) (rest ! j))"
  using assms(3-5)
proof (induction "length insts - i" arbitrary: i known)
  case (Suc d)
  then have i: "i < length insts" by simp
  let ?op = "in_op (insts ! i)"
  have ops: "v \<in> set (operands ?op) \<Longrightarrow> unat v < i" for v
    using assms(1) i by (auto simp: scoped_def)
  have "fold_op ck fl known ?op \<noteq> None"
  proof (cases ck)
    case True
    then obtain cols row vals where den: "denotes (eval_op ck fl cols row) insts vals" using total by blast
    then have "length vals = length insts" "eval_op ck fl cols row vals ?op \<noteq> None"
      using i by (auto simp: denotes_def)
    moreover have "known ! unat v = Some x \<Longrightarrow> vals ! unat v = to_val x" if "v \<in> set (operands ?op)" for v x
      using Suc.prems(3) ops [OF that] den by (auto simp: agrees_def)
    ultimately show ?thesis
      using ops i Suc.prems(2) by (intro fold_op_total) (auto dest: less_trans)
  next
    case False
    then show ?thesis
      using fold_op_total_release [of ?op known fl] ops i Suc.prems(2) by (auto dest: less_trans)
  qed
  then obtain folded where folded: "fold_op ck fl known ?op = Some folded" by blast
  have new: "agrees ck fl insts types i c" if "folded = Some c" for c
    using fold_op_agrees [OF assms(1) i Suc.prems(2) Suc.prems(3) typed [OF i]] folded that by blast
  have "\<And>j c. j < Suc i \<Longrightarrow> known[i := folded] ! j = Some c \<Longrightarrow> agrees ck fl insts types j c"
    using Suc.prems(2,3) new i by (auto simp: nth_list_update less_Suc_eq split: if_splits)
  moreover have "d = length insts - Suc i" using Suc.hyps(2) by simp
  ultimately obtain rest where rest: "fold_insts ck fl (Suc i) (known[i := folded]) (drop (Suc i) insts) = Some rest"
    "length rest = length insts - Suc i" "\<forall>j < length rest. folds_to ck fl insts types (Suc i + j) (rest ! j)"
    using Suc.hyps(1) [of "Suc i" "known[i := folded]"] Suc.prems(2) i by auto
  let ?inst = "\<lparr>in_result = word_of_nat i, in_op = (case folded of Some c \<Rightarrow> OpConst c | None \<Rightarrow> ?op)\<rparr> :: 'a ir_inst"
  have "folds_to ck fl insts types i ?inst"
    using new by (auto simp: folds_to_def split: option.splits)
  then have "\<forall>j < length (?inst # rest). folds_to ck fl insts types (i + j) ((?inst # rest) ! j)"
    using rest(3) by (auto simp: nth_Cons split: nat.split)
  then show ?case
    using rest(1,2) folded i by (auto simp: Cons_nth_drop_Suc [symmetric, OF i])
qed auto

lemma constant_fold_spec:
  assumes wf: "well_formed f types"
    and total: "ck \<Longrightarrow> \<exists>cols row vals. denotes (eval_op ck fl cols row) (fn_insts f) vals"
  shows "\<exists>g. constant_fold ck fl f = Some g \<and> well_formed g types \<and> length (fn_insts g) = length (fn_insts f) \<and>
    fn_ret g = fn_ret f \<and> (\<forall>cols row vals. denotes (eval_op ck fl cols row) (fn_insts f) vals \<longrightarrow>
      denotes (eval_op ck fl cols row) (fn_insts g) vals)"
proof -
  let ?n = "length (fn_insts f)"
  have typed: "i < ?n \<Longrightarrow> typed_op (fn_n_columns f) types (in_op (fn_insts f ! i)) (types ! i)" for i
    using wf by (auto simp: well_formed_def)
  have sc: "scoped (fn_insts f)" using wf by (simp add: well_formed_def)
  obtain is' where is': "fold_insts ck fl 0 (replicate ?n None) (fn_insts f) = Some is'" "length is' = ?n"
    "\<And>j. j < ?n \<Longrightarrow> folds_to ck fl (fn_insts f) types j (is' ! j)"
    using fold_insts_spec [OF sc typed _ _ _ total, of 0 "replicate ?n None"] by auto
  have "scoped is'"
    using is'(2,3) sc by (fastforce simp: scoped_def folds_to_def)
  moreover have "typed_op (fn_n_columns f) types (in_op (is' ! i)) (types ! i)" if "i < ?n" for i
    using is'(3) [OF that] typed [OF that] by (auto simp: folds_to_def agrees_def)
  moreover have "denotes (eval_op ck fl cols row) is' vals" if "denotes (eval_op ck fl cols row) (fn_insts f) vals" for cols row vals
    using that is'(2,3) by (fastforce simp: denotes_def folds_to_def agrees_def)
  ultimately show ?thesis
    using is'(1,2) wf by (auto simp: constant_fold_def well_formed_def)
qed

section \<open>Dead code elimination\<close>

lemma mark_all_spec: "(\<And>v. v \<in> set vs \<Longrightarrow> unat v < length live) \<Longrightarrow> \<exists>l. mark_all vs live = Some l \<and> length l = length live \<and>
  (\<forall>j < length live. l ! j \<longleftrightarrow> live ! j \<or> j \<in> unat ` set vs)"
proof (induction vs arbitrary: live)
  case (Cons v vs)
  then obtain l where "mark_all vs (live[unat v := True]) = Some l" "length l = length live"
    "\<forall>j < length live. l ! j \<longleftrightarrow> live[unat v := True] ! j \<or> j \<in> unat ` set vs"
    using Cons.IH [of "live[unat v := True]"] by auto
  then show ?case
    using Cons.prems by (auto simp: put_def nth_list_update)
qed auto

lemma mark_live_spec:
  assumes "scoped insts" "i \<le> length insts" "length live = length insts"
  shows "\<exists>l. mark_live insts i live = Some l \<and> length l = length insts \<and> (\<forall>j < length insts. live ! j \<longrightarrow> l ! j) \<and>
    (\<forall>j. i \<le> j \<longrightarrow> j < length insts \<longrightarrow> l ! j = live ! j) \<and>
    (\<forall>j < i. l ! j \<longrightarrow> (\<forall>v \<in> set (operands (in_op (insts ! j))). l ! unat v))"
  using assms(2,3)
proof (induction i arbitrary: live)
  case (Suc i)
  have ops: "v \<in> set (operands (in_op (insts ! i))) \<Longrightarrow> unat v < i" for v
    using assms(1) Suc.prems(1) by (auto simp: scoped_def)
  show ?case
  proof (cases "live ! i")
    case True
    obtain l1 where l1: "mark_all (operands (in_op (insts ! i))) live = Some l1" "length l1 = length insts"
      "\<forall>j < length insts. l1 ! j \<longleftrightarrow> live ! j \<or> j \<in> unat ` set (operands (in_op (insts ! i)))"
      using mark_all_spec [of "operands (in_op (insts ! i))" live] ops Suc.prems by fastforce
    obtain l where l: "mark_live insts i l1 = Some l" "length l = length insts" "\<forall>j < length insts. l1 ! j \<longrightarrow> l ! j"
      "\<forall>j. i \<le> j \<longrightarrow> j < length insts \<longrightarrow> l ! j = l1 ! j"
      "\<forall>j < i. l ! j \<longrightarrow> (\<forall>v \<in> set (operands (in_op (insts ! j))). l ! unat v)"
      using Suc.IH [of l1] l1(2) Suc.prems(1) by auto
    have "l ! j = live ! j" if "Suc i \<le> j" "j < length insts" for j
      using l(4) l1(3) that ops by fastforce
    moreover have "l ! unat v" if "v \<in> set (operands (in_op (insts ! i)))" for v
      using l(3) l1(3) ops [OF that] that Suc.prems(1) by auto
    ultimately show ?thesis
      using l l1 True by (auto simp: less_Suc_eq)
  next
    case False
    then show ?thesis
      using Suc.IH [of live] Suc.prems by (auto simp: less_Suc_eq)
  qed
qed auto

lemma mark_all_within: "mark_all vs live = Some l \<Longrightarrow> \<forall>j < length live. live ! j \<longrightarrow> N j \<Longrightarrow>
  \<forall>v \<in> set vs. N (unat v) \<Longrightarrow> length l = length live \<and> (\<forall>j < length l. l ! j \<longrightarrow> N j)"
proof (induction vs arbitrary: live)
  case (Cons v vs)
  then have "mark_all vs (live[unat v := True]) = Some l"
    by (auto simp: put_def bind_eq_Some_conv split: if_splits)
  moreover have "N j" if "live[unat v := True] ! j" "j < length live" for j
    using Cons.prems(2,3) that by (cases "j = unat v") auto
  ultimately show ?case
    using Cons.IH [of "live[unat v := True]"] Cons.prems(3) by simp
qed auto

text \<open>What the marking adds is an operand of something marked.\<close>

lemma mark_live_within:
  assumes "\<forall>k < length live. \<forall>v \<in> set (operands (in_op (insts ! k))). N k \<longrightarrow> N (unat v)"
  shows "mark_live insts i live = Some l \<Longrightarrow> i \<le> length live \<Longrightarrow> \<forall>j < length live. live ! j \<longrightarrow> N j \<Longrightarrow>
    length l = length live \<and> (\<forall>j < length l. l ! j \<longrightarrow> N j)"
  using assms
proof (induction i arbitrary: live)
  case (Suc i)
  show ?case
  proof (cases "live ! i")
    case True
    then obtain l1 where l1: "mark_all (operands (in_op (insts ! i))) live = Some l1" "mark_live insts i l1 = Some l"
      using Suc.prems(1) by (auto simp: bind_eq_Some_conv)
    have "N i" using Suc.prems(2,3) True by simp
    then have "length l1 = length live \<and> (\<forall>j < length l1. l1 ! j \<longrightarrow> N j)"
      using mark_all_within [OF l1(1) Suc.prems(3)] Suc.prems(2,4) Suc_le_lessD by blast
    then show ?thesis
      using Suc.IH [OF l1(2)] Suc.prems(2,4) by simp
  next
    case False
    then show ?thesis using Suc.IH [of live] Suc.prems by simp
  qed
qed auto

lemma remap_loop_spec: "unat next_id + length live < 2 ^ 32 \<Longrightarrow> \<exists>r. remap_loop ck live next_id = Some r \<and> length r = length live \<and>
  (\<forall>i < length live. live ! i \<longrightarrow> r ! i = next_id + word_of_nat (length (filter (\<lambda>b. b) (take i live))))"
proof (induction live arbitrary: next_id)
  case (Cons l live)
  show ?case
  proof (cases l)
    case True
    have "unat (next_id + 1) = unat next_id + 1"
      using Cons.prems by (simp add: unat_word_ariths)
    then obtain r where "remap_loop ck live (next_id + 1) = Some r" "length r = length live"
      "\<forall>i < length live. live ! i \<longrightarrow> r ! i = next_id + 1 + word_of_nat (length (filter (\<lambda>b. b) (take i live)))"
      using Cons.IH [of "next_id + 1"] Cons.prems by auto
    then show ?thesis
      using True Cons.prems by (auto simp: nth_Cons ac_simps split: nat.split)
  next
    case False
    then show ?thesis
      using Cons.IH [of next_id] Cons.prems by (auto simp: nth_Cons split: nat.split)
  qed
qed auto

lemma rebuild_live_spec: "(\<And>l r inst v. (l, r, inst) \<in> set xs \<Longrightarrow> l \<Longrightarrow> v \<in> set (operands (in_op inst)) \<Longrightarrow> unat v < length remap) \<Longrightarrow>
  rebuild_live remap xs = Some (map (\<lambda>(l, r, inst). \<lparr>in_result = r, in_op = rename_op (\<lambda>v. remap ! unat v) (in_op inst)\<rparr>) (filter fst xs))"
proof (induction xs)
  case (Cons x xs)
  obtain l r inst where x: "x = (l, r, inst)" by (cases x)
  have "rebuild_live remap xs = Some (map (\<lambda>(l, r, inst). \<lparr>in_result = r, in_op = rename_op (\<lambda>v. remap ! unat v) (in_op inst)\<rparr>) (filter fst xs))"
    using Cons.prems by (intro Cons.IH) auto
  then show ?case
    using Cons.prems [of l r inst] x by (auto simp: remap_op_def)
qed auto

text \<open>The instructions \<open>ks\<close> of a function, renumbered by \<open>ren\<close>, are closed under operands and densely numbered.\<close>

definition compacts :: "'d ir_inst list \<Rightarrow> nat list \<Rightarrow> (value_id \<Rightarrow> value_id) \<Rightarrow> bool" where
  "compacts insts ks ren \<longleftrightarrow> sorted_wrt (<) ks \<and> set ks \<subseteq> {..<length insts} \<and>
     (\<forall>k < length ks. ren (word_of_nat (ks ! k)) = word_of_nat k) \<and>
     (\<forall>i \<in> set ks. \<forall>v \<in> set (operands (in_op (insts ! i))). unat v \<in> set ks)"

definition compacted_insts :: "'d ir_inst list \<Rightarrow> nat list \<Rightarrow> (value_id \<Rightarrow> value_id) \<Rightarrow> 'd ir_inst list" where
  "compacted_insts insts ks ren = map (\<lambda>i. \<lparr>in_result = ren (word_of_nat i), in_op = rename_op ren (in_op (insts ! i))\<rparr>) ks"

lemma operands_rename [simp]: "operands (rename_op m op) = map m (operands op)"
  by (cases op) auto

lemma typed_op_rename: "(\<And>v. v \<in> set (operands op) \<Longrightarrow> types' ! unat (m v) = types ! unat v) \<Longrightarrow>
  typed_op nc types' (rename_op m op) t = typed_op nc types op t"
  by (cases op) auto

lemma compacts_operand:
  assumes "scoped insts" "length insts < 2 ^ 32" "compacts insts ks ren" "k < length ks"
    and "v \<in> set (operands (in_op (insts ! (ks ! k))))"
  obtains m where "m < k" "ks ! m = unat v" "unat (ren v) = m"
proof -
  have "ks ! k \<in> set ks" using assms(4) by simp
  then have "unat v \<in> set ks" "unat v < ks ! k"
    using assms(1,3,5) by (auto simp: compacts_def scoped_def)
  then obtain m where m: "m < length ks" "ks ! m = unat v" by (auto simp: in_set_conv_nth)
  have sorted: "sorted_wrt (<) ks" "set ks \<subseteq> {..<length insts}" using assms(3) by (simp_all add: compacts_def)
  have "m < k"
  proof (rule ccontr)
    assume "\<not> m < k"
    then have "k = m \<or> k < m" by auto
    then have "ks ! k \<le> ks ! m"
      using sorted(1) m(1) by (auto simp: sorted_wrt_iff_nth_less dest: less_imp_le)
    then show False using \<open>unat v < ks ! k\<close> m(2) by simp
  qed
  moreover have "length ks \<le> length insts"
    using sorted card_mono [of "{..<length insts}" "set ks"]
    by (simp add: distinct_card strict_sorted_iff)
  moreover have "ren v = word_of_nat m"
  proof -
    have "ren (word_of_nat (ks ! m)) = word_of_nat m" using assms(3) m(1) by (simp add: compacts_def)
    then show ?thesis by (simp add: m(2))
  qed
  ultimately show ?thesis
    using that m assms(2,4) by (simp add: unat_value_index)
qed

lemma compacts_length: "compacts insts ks ren \<Longrightarrow> length ks \<le> length insts"
  using card_mono [of "{..<length insts}" "set ks"] by (simp add: compacts_def distinct_card strict_sorted_iff)

lemma compacts_ret:
  assumes "length insts < 2 ^ 32" "compacts insts ks ren" "unat v \<in> set ks"
  shows "unat (ren v) < length ks \<and> ks ! unat (ren v) = unat v"
proof -
  obtain m where m: "m < length ks" "ks ! m = unat v" using assms(3) by (auto simp: in_set_conv_nth)
  have "ren (word_of_nat (ks ! m)) = word_of_nat m" using assms(2) m(1) by (simp add: compacts_def)
  then have "ren v = word_of_nat m" by (simp add: m(2))
  moreover have "unat (word_of_nat m :: u32) = m"
    using m(1) compacts_length [OF assms(2)] assms(1) by (intro unat_value_index) simp
  ultimately show ?thesis using m by simp
qed

lemma compacted_props:
  assumes "scoped insts" "length insts < 2 ^ 32" "compacts insts ks ren"
  shows "scoped (compacted_insts insts ks ren)"
    and "length types = length insts \<Longrightarrow> (\<And>i. i < length insts \<Longrightarrow> typed_op nc types (in_op (insts ! i)) (types ! i)) \<Longrightarrow>
      k < length ks \<Longrightarrow> typed_op nc (map ((!) types) ks) (in_op (compacted_insts insts ks ren ! k)) (map ((!) types) ks ! k)"
    and "denotes (eval_op ck fl cols row) insts vals \<Longrightarrow> denotes (eval_op ck fl cols row) (compacted_insts insts ks ren) (map ((!) vals) ks)"
proof -
  have ks: "ks ! k < length insts" if "k < length ks" for k
    using assms(3) nth_mem [OF that] by (auto simp: compacts_def)
  have ops: "\<exists>m < k. ks ! m = unat v \<and> unat (ren v) = m" if "k < length ks" "v \<in> set (operands (in_op (insts ! (ks ! k))))" for k v
    using compacts_operand [OF assms that] by metis
  show "scoped (compacted_insts insts ks ren)"
    using assms(3) ops by (fastforce simp: scoped_def compacted_insts_def compacts_def)
  show "typed_op nc (map ((!) types) ks) (in_op (compacted_insts insts ks ren ! k)) (map ((!) types) ks ! k)"
    if "length types = length insts" "\<And>i. i < length insts \<Longrightarrow> typed_op nc types (in_op (insts ! i)) (types ! i)" "k < length ks"
  proof -
    have "map ((!) types) ks ! unat (ren v) = types ! unat v" if "v \<in> set (operands (in_op (insts ! (ks ! k))))" for v
      using ops [OF \<open>k < length ks\<close> that] \<open>k < length ks\<close> by auto
    then show ?thesis
      using that ks by (simp add: compacted_insts_def typed_op_rename [where types = types])
  qed
  assume den: "denotes (eval_op ck fl cols row) insts vals"
  have "eval_op ck fl cols row (map ((!) vals) ks) (rename_op ren (in_op (insts ! (ks ! k)))) = Some (vals ! (ks ! k))"
    if "k < length ks" for k
  proof -
    have "vec_at (map ((!) vals) ks) (ren v) = vec_at vals v" if v: "v \<in> set (operands (in_op (insts ! (ks ! k))))" for v
    proof -
      obtain m where m: "m < k" "ks ! m = unat v" "unat (ren v) = m" using ops [OF \<open>k < length ks\<close> v] by blast
      then have "unat v < length vals" using ks [of m] \<open>k < length ks\<close> den by (simp add: denotes_def)
      then show ?thesis using m \<open>k < length ks\<close> by (simp add: vec_at_def)
    qed
    then have "eval_op ck fl cols row (map ((!) vals) ks) (rename_op ren (in_op (insts ! (ks ! k)))) =
      eval_op ck fl cols row vals (in_op (insts ! (ks ! k)))"
      by (rule eval_op_rename)
    then show ?thesis using den ks [OF that] by (simp add: denotes_def)
  qed
  then show "denotes (eval_op ck fl cols row) (compacted_insts insts ks ren) (map ((!) vals) ks)"
    by (simp add: denotes_def compacted_insts_def)
qed

text \<open>The values the result depends on.\<close>

inductive needed :: "'d ir_inst list \<Rightarrow> value_id \<Rightarrow> nat \<Rightarrow> bool" for insts and ret where
  needed_ret: "needed insts ret (unat ret)"
| needed_operand: "needed insts ret k \<Longrightarrow> k < length insts \<Longrightarrow> v \<in> set (operands (in_op (insts ! k))) \<Longrightarrow> needed insts ret (unat v)"

lemma count_kept:
  assumes "k < length (filter ((!) l) [0..<length l])"
  shows "length (filter (\<lambda>b. b) (take (filter ((!) l) [0..<length l] ! k) l)) = k"
proof -
  let ?ks = "filter ((!) l) [0..<length l]"
  let ?m = "?ks ! k"
  have "?m \<in> set ?ks" using assms nth_mem by blast
  then have m: "?m < length l" "l ! ?m" by auto
  have "[0..<length l] = [0..<?m] @ ?m # [Suc ?m..<length l]"
    using m(1) upt_add_eq_append [of 0 ?m "length l - ?m"] by (simp add: upt_conv_Cons)
  then have "?ks = filter ((!) l) [0..<?m] @ ?m # filter ((!) l) [Suc ?m..<length l]"
    using m(2) by (metis filter.simps(2) filter_append)
  then have "?ks ! length (filter ((!) l) [0..<?m]) = ?m" "length (filter ((!) l) [0..<?m]) < length ?ks"
    by (metis nth_append_length, metis add_Suc_right length_append length_Cons less_add_Suc1)
  then have "length (filter ((!) l) [0..<?m]) = k"
    using assms nth_eq_iff_index_eq [of ?ks] by auto
  moreover have "take ?m l = map ((!) l) [0..<?m]"
    using m(1) by (intro nth_equalityI) auto
  ultimately show ?thesis
    by (simp add: filter_map comp_def)
qed

lemma dead_code_elimination_spec:
  assumes "scoped (fn_insts f)" "length (fn_insts f) < 2 ^ 32" "unat (fn_ret f) < length (fn_insts f)"
  obtains ks ren where "compacts (fn_insts f) ks ren" "unat (fn_ret f) \<in> set ks" "set ks = {i. needed (fn_insts f) (fn_ret f) i}"
    "dead_code_elimination ck f = Some \<lparr>fn_n_columns = fn_n_columns f, fn_insts = compacted_insts (fn_insts f) ks ren, fn_ret = ren (fn_ret f)\<rparr>"
proof -
  let ?insts = "fn_insts f"
  let ?n = "length ?insts"
  let ?live0 = "(replicate ?n False)[unat (fn_ret f) := True]"
  obtain l where l: "mark_live ?insts ?n ?live0 = Some l" "length l = ?n" "\<forall>j < ?n. ?live0 ! j \<longrightarrow> l ! j"
    "\<forall>j < ?n. l ! j \<longrightarrow> (\<forall>v \<in> set (operands (in_op (?insts ! j))). l ! unat v)"
    using mark_live_spec [OF assms(1), of ?n ?live0] by auto
  obtain r where r: "remap_loop ck l 0 = Some r" "length r = ?n"
    "\<forall>i < ?n. l ! i \<longrightarrow> r ! i = word_of_nat (length (filter (\<lambda>b. b) (take i l)))"
    using remap_loop_spec [of 0 l ck] assms(2) l(2) by auto
  let ?ks = "filter ((!) l) [0..<?n]" and ?ren = "\<lambda>v :: value_id. r ! unat v"
  have ops: "v \<in> set (operands (in_op (?insts ! i))) \<Longrightarrow> unat v < i" if "i < ?n" for v i
    using assms(1) that by (auto simp: scoped_def)
  have ret: "l ! unat (fn_ret f)" using l(3) assms(3) by simp
  have zip: "zip l (zip r ?insts) = map (\<lambda>i. (l ! i, r ! i, ?insts ! i)) [0..<?n]"
    using l(2) r(2) by (intro nth_equalityI) auto
  have idx: "i < ?n \<Longrightarrow> unat (word_of_nat i :: u32) = i" for i
    using assms(2) by (simp add: unat_value_index)
  have "rebuild_live r (zip l (zip r ?insts)) = Some (compacted_insts ?insts ?ks ?ren)"
    unfolding zip using ops r(2) idx
    by (subst rebuild_live_spec) (fastforce dest: less_trans, auto simp: compacted_insts_def filter_map comp_def)
  then have dce: "dead_code_elimination ck f =
    Some \<lparr>fn_n_columns = fn_n_columns f, fn_insts = compacted_insts ?insts ?ks ?ren, fn_ret = ?ren (fn_ret f)\<rparr>"
    using l(1) r(1,2) assms(3) by (simp add: dead_code_elimination_def put_def vec_at_def Let_def)
  have "?ren (word_of_nat (?ks ! k)) = word_of_nat k" if "k < length ?ks" for k
  proof -
    have "?ks ! k \<in> set ?ks" using that nth_mem by blast
    then have m: "?ks ! k < ?n" "l ! (?ks ! k)" by auto
    have "length (filter (\<lambda>b. b) (take (?ks ! k) l)) = k"
      using count_kept [of k l] that unfolding l(2) by blast
    then show ?thesis
      using r(3) [rule_format, OF m] by (simp only: idx [OF m(1)])
  qed
  moreover have "unat v \<in> set ?ks" if "i \<in> set ?ks" "v \<in> set (operands (in_op (?insts ! i)))" for i v
    using that l(4) ops [of i v] by auto
  ultimately have comp: "compacts ?insts ?ks ?ren"
    by (auto simp: compacts_def sorted_wrt_filter)
  have marked: "l ! i" if "needed ?insts (fn_ret f) i" for i
    using that by (induction rule: needed.induct) (use ret l(4) in auto)
  have below: "i < ?n" if "needed ?insts (fn_ret f) i" for i
    using that
  proof (induction rule: needed.induct)
    case (needed_operand k v)
    then show ?case using ops [of k v] by simp
  qed (use assms(3) in simp)
  have is_needed: "needed ?insts (fn_ret f) j" if "j < ?n" "l ! j" for j
  proof -
    have "needed ?insts (fn_ret f) j" if "j < length ?live0" "?live0 ! j" for j
      using that by (cases "j = unat (fn_ret f)") (auto intro: needed_ret)
    then have start: "\<forall>j < length ?live0. ?live0 ! j \<longrightarrow> needed ?insts (fn_ret f) j"
      by blast
    have closed: "\<forall>k < length ?live0. \<forall>v \<in> set (operands (in_op (?insts ! k))).
      needed ?insts (fn_ret f) k \<longrightarrow> needed ?insts (fn_ret f) (unat v)"
      by (auto intro: needed_operand)
    have "length l = length ?live0 \<and> (\<forall>j < length l. l ! j \<longrightarrow> needed ?insts (fn_ret f) j)"
      by (rule mark_live_within [OF closed l(1) _ start]) simp
    then show ?thesis
      using that l(2) by metis
  qed
  have "set ?ks = {i. needed ?insts (fn_ret f) i}"
    using marked below is_needed by auto
  moreover have "unat (fn_ret f) \<in> set ?ks"
    using ret assms(3) by simp
  ultimately show ?thesis
    by (intro that [OF comp _ _ dce])
qed

end
