(* ===== verification/Hume_Ir_Behaviour.thy ===== *)
theory Hume_Ir_Behaviour
  imports Hume_Ir_Passes
begin

text \<open>
  The properties of the intermediate representation: verification and typing, the interpreter against the equations
  and on typed data, and the optimiser against the interpreter.
\<close>

text \<open>A function \<open>(col0 + 2) > 5\<close> with an unused product, and 64-bit integers for \<open>f64\<close>.\<close>

definition example_f64 :: "int f64" where
  "example_f64 = \<lparr>d_add = (+), d_sub = (-), d_mul = (*), d_gt = (>), d_lt = (<), d_eq = (=)\<rparr>"

definition example_fn :: "int ir_function" where
  "example_fn = ir_finish 1 5 (fold (\<lambda>op b. snd (ir_push op b))
     [OpColumn 0 TyI64, OpConst (ConstI64 2), OpAdd 0 1, OpMul 0 0, OpConst (ConstI64 5), OpCmpGt 2 4] [])"

definition example_cols :: "int column_data list" where
  "example_cols = [ColI64 [1, 9]]"

lemma example_verified: "verify example_fn = Inr [TyI64, TyI64, TyI64, TyI64, TyI64, TyBool]"
  by code_simp

lemma example_length: "length (fn_insts example_fn) = 6"
  by code_simp

lemma example_result: "interpret_ir True example_f64 example_fn example_cols 2 = Some (Inr [ValBool False, ValBool True])"
  by code_simp

text \<open>The verifier accepts a function exactly when every value is numbered by its position, defined before it is
  used and well typed, and the returned value exists, and it answers the types of the values (functions of at most
  \<open>2 ^ 32\<close> instructions, what a value id can number).\<close>

theorem verify_decides_typing:
  assumes "length (fn_insts f) \<le> 2 ^ 32"
  shows "verify f = Inr types \<longleftrightarrow> length types = length (fn_insts f) \<and> unat (fn_ret f) < length types \<and>
    (\<forall>i < length types. in_result (fn_insts f ! i) = word_of_nat i \<and>
       (\<forall>v \<in> set (operands (in_op (fn_insts f ! i))). unat v < i) \<and>
       typed_op (fn_n_columns f) types (in_op (fn_insts f ! i)) (types ! i))"
  using verify_iff [OF assms] by (auto simp: well_formed_def scoped_def)

theorem verify_decides_typing_witness:
  "\<forall>i < length [TyI64, TyI64, TyI64, TyI64, TyI64, TyBool]. in_result (fn_insts example_fn ! i) = word_of_nat i"
  using verify_decides_typing [of example_fn "[TyI64, TyI64, TyI64, TyI64, TyI64, TyBool]"] example_verified example_length
  by simp

text \<open>The interpreter answers, for every row, the returned value of the one assignment of values that satisfies
  the equations of all the instructions on that row: what the previous rows left in the reused environment does not
  matter.\<close>

theorem interpreter_solves_equations:
  assumes "verify f = Inr types" "length (fn_insts f) \<le> 2 ^ 32"
  shows "interpret_ir ck fl f cols n = Some (Inr out) \<longleftrightarrow> length out = n \<and>
    (\<forall>row < n. \<exists>!vals. denotes (eval_op ck fl cols row) (fn_insts f) vals \<and> vals ! unat (fn_ret f) = out ! row)"
proof -
  have "scoped (fn_insts f)" using verified_well_formed [OF assms] by (simp add: well_formed_def)
  then have "\<And>row vals vals'. denotes (eval_op ck fl cols row) (fn_insts f) vals \<Longrightarrow>
    denotes (eval_op ck fl cols row) (fn_insts f) vals' \<Longrightarrow> vals = vals'"
    using denotes_unique assms(2) by blast
  then show ?thesis
    unfolding interpret_iff [OF assms] by blast
qed

theorem interpreter_solves_equations_witness:
  "\<forall>row < 2. \<exists>!vals. denotes (eval_op True example_f64 example_cols row) (fn_insts example_fn) vals \<and>
     vals ! unat (fn_ret example_fn) = [ValBool False, ValBool True] ! row"
  using interpreter_solves_equations [OF example_verified, of True example_f64 example_cols 2 "[ValBool False, ValBool True]"]
    example_result example_length by simp

text \<open>C16. A verified function does not go wrong: over columns that have the types it declares and enough rows, a
  release build answers a value of the verified type for every row. \<open>interpret\<close> checks neither condition.\<close>

theorem verified_never_wrong:
  assumes "verify f = Inr types" "length (fn_insts f) \<le> 2 ^ 32" "columns_conform f cols n"
  shows "\<exists>out. interpret_ir False fl f cols n = Some (Inr out) \<and> length out = n \<and>
    (\<forall>v \<in> set out. val_ty v = types ! unat (fn_ret f))"
proof -
  have wf: "well_formed f types" by (rule verified_well_formed [OF assms(1,2)])
  have "\<exists>vals. denotes (eval_op False fl cols row) (fn_insts f) vals \<and> map val_ty vals = types" if "row < n" for row
    using wf assms(2,3) that by (intro denotes_progress) (auto simp: well_formed_def)
  then obtain vals where vals: "\<And>row. row < n \<Longrightarrow> denotes (eval_op False fl cols row) (fn_insts f) (vals row) \<and> map val_ty (vals row) = types"
    by metis
  let ?out = "map (\<lambda>row. vals row ! unat (fn_ret f)) [0..<n]"
  have "interpret_ir False fl f cols n = Some (Inr ?out)"
    unfolding interpret_iff [OF assms(1,2)] using vals by auto
  moreover have "val_ty v = types ! unat (fn_ret f)" if "v \<in> set ?out" for v
    using that vals wf by (auto simp: well_formed_def) (metis length_map nth_map)
  ultimately show ?thesis by auto
qed

theorem verified_never_wrong_witness:
  "\<exists>out. interpret_ir False example_f64 example_fn example_cols 2 = Some (Inr out) \<and> length out = 2 \<and>
     (\<forall>v \<in> set out. val_ty v = [TyI64, TyI64, TyI64, TyI64, TyI64, TyBool] ! unat (fn_ret example_fn))"
proof -
  have "columns_conform example_fn example_cols 2" by code_simp
  then show ?thesis
    using verified_never_wrong [OF example_verified] example_length by simp
qed

text \<open>C15. The optimiser preserves meaning: whenever the interpreter answers for the original function on at least
  one row (or in a release build), optimisation succeeds, its result passes the verifier with the same result type, is
  no longer than the original, and answers the same values. Panics are among the outcomes: nothing is claimed for a
  row on which the original panics, and there the optimised function may answer, when the code that panicked was
  dead.\<close>

theorem optimize_preserves_semantics:
  assumes "verify f = Inr types" "length (fn_insts f) < 2 ^ 32"
    and "interpret_ir ck fl f cols n = Some (Inr out)" "0 < n \<or> \<not> ck"
  shows "\<exists>g types'. optimize ck fl f = Some g \<and> verify g = Inr types' \<and>
    types' ! unat (fn_ret g) = types ! unat (fn_ret f) \<and> length (fn_insts g) \<le> length (fn_insts f) \<and>
    interpret_ir ck fl g cols n = Some (Inr out)"
proof -
  have short: "length (fn_insts f) \<le> 2 ^ 32" using assms(2) by simp
  have wf: "well_formed f types" by (rule verified_well_formed [OF assms(1) short])
  have den: "\<forall>row < n. \<exists>vals. denotes (eval_op ck fl cols row) (fn_insts f) vals \<and> vals ! unat (fn_ret f) = out ! row"
    and len: "length out = n"
    using interpret_iff [OF assms(1) short] assms(3) by auto
  then have "ck \<Longrightarrow> \<exists>cols row vals. denotes (eval_op ck fl cols row) (fn_insts f) vals" using assms(4) by blast
  then obtain h where h: "constant_fold ck fl f = Some h" "well_formed h types" "length (fn_insts h) = length (fn_insts f)"
    "fn_ret h = fn_ret f" and h_den: "\<And>cols row vals. denotes (eval_op ck fl cols row) (fn_insts f) vals \<Longrightarrow>
      denotes (eval_op ck fl cols row) (fn_insts h) vals"
    using constant_fold_spec [OF wf, of ck fl] by blast
  have sc: "scoped (fn_insts h)" "length (fn_insts h) < 2 ^ 32" "unat (fn_ret h) < length (fn_insts h)"
    using h assms(2) by (auto simp: well_formed_def)
  obtain ks ren where ks: "compacts (fn_insts h) ks ren" "unat (fn_ret h) \<in> set ks"
    and dce: "dead_code_elimination ck h =
      Some \<lparr>fn_n_columns = fn_n_columns h, fn_insts = compacted_insts (fn_insts h) ks ren, fn_ret = ren (fn_ret h)\<rparr>"
    using dead_code_elimination_spec [OF sc, of ck] by blast
  let ?g = "\<lparr>fn_n_columns = fn_n_columns h, fn_insts = compacted_insts (fn_insts h) ks ren, fn_ret = ren (fn_ret h)\<rparr>"
  let ?types = "map ((!) types) ks"
  note ret = compacts_ret [OF sc(2) ks]
  have le: "length ks \<le> length (fn_insts h)" by (rule compacts_length [OF ks(1)])
  have "well_formed ?g ?types"
    using compacted_props(1,2) [OF sc(1,2) ks(1)] h(2) ret
    by (auto simp: well_formed_def compacted_insts_def)
  then have ver: "verify ?g = Inr ?types"
    using verify_iff [of ?g ?types] le sc(2) by (simp add: compacted_insts_def)
  have "\<exists>vals. denotes (eval_op ck fl cols row) (fn_insts ?g) vals \<and> vals ! unat (fn_ret ?g) = out ! row" if row: "row < n" for row
  proof -
    obtain vals where "denotes (eval_op ck fl cols row) (fn_insts f) vals" "vals ! unat (fn_ret f) = out ! row"
      using den row by blast
    then have "denotes (eval_op ck fl cols row) (compacted_insts (fn_insts h) ks ren) (map ((!) vals) ks)"
      "map ((!) vals) ks ! unat (ren (fn_ret h)) = out ! row"
      using compacted_props(3) [OF sc(1,2) ks(1)] h_den h(4) ret by auto
    then show ?thesis by auto
  qed
  then have "interpret_ir ck fl ?g cols n = Some (Inr out)"
    using interpret_iff [OF ver, of ck fl cols n out] len le sc(2) by (simp add: compacted_insts_def)
  then show ?thesis
    using ver dce h ret le by (intro exI [of _ ?g] exI [of _ ?types]) (simp add: optimize_def compacted_insts_def)
qed

theorem optimize_preserves_semantics_witness:
  "\<exists>g types'. optimize True example_f64 example_fn = Some g \<and> verify g = Inr types' \<and>
    types' ! unat (fn_ret g) = [TyI64, TyI64, TyI64, TyI64, TyI64, TyBool] ! unat (fn_ret example_fn) \<and>
    length (fn_insts g) \<le> length (fn_insts example_fn) \<and>
    interpret_ir True example_f64 g example_cols 2 = Some (Inr [ValBool False, ValBool True])"
  by (rule optimize_preserves_semantics [OF example_verified]) (simp_all add: example_length example_result)

text \<open>Dead code elimination keeps exactly the instructions the returned value depends on, in their order.\<close>

theorem dce_keeps_needed:
  assumes "verify f = Inr types" "length (fn_insts f) < 2 ^ 32"
  shows "\<exists>g ks ren. dead_code_elimination ck f = Some g \<and> set ks = {i. needed (fn_insts f) (fn_ret f) i} \<and>
    sorted_wrt (<) ks \<and> length (fn_insts g) = length ks \<and>
    (\<forall>k < length ks. in_op (fn_insts g ! k) = rename_op ren (in_op (fn_insts f ! (ks ! k))) \<and> ren (word_of_nat (ks ! k)) = word_of_nat k)"
proof -
  have "well_formed f types" using verified_well_formed [OF assms(1)] assms(2) by simp
  then have sc: "scoped (fn_insts f)" "unat (fn_ret f) < length (fn_insts f)" by (auto simp: well_formed_def)
  obtain ks ren where ks: "compacts (fn_insts f) ks ren" "set ks = {i. needed (fn_insts f) (fn_ret f) i}"
    "dead_code_elimination ck f = Some \<lparr>fn_n_columns = fn_n_columns f, fn_insts = compacted_insts (fn_insts f) ks ren, fn_ret = ren (fn_ret f)\<rparr>"
    by (rule dead_code_elimination_spec [OF sc(1) assms(2) sc(2), of ck])
  have "sorted_wrt (<) ks" "\<forall>k < length ks. ren (word_of_nat (ks ! k)) = word_of_nat k"
    using ks(1) unfolding compacts_def by blast+
  moreover have "length (compacted_insts (fn_insts f) ks ren) = length ks"
    "\<forall>k < length ks. in_op (compacted_insts (fn_insts f) ks ren ! k) = rename_op ren (in_op (fn_insts f ! (ks ! k)))"
    by (simp_all add: compacted_insts_def)
  ultimately show ?thesis
    using ks(2,3) by (metis ir_function.select_convs(2))
qed

theorem dce_keeps_needed_witness:
  "\<exists>g ks ren. dead_code_elimination False example_fn = Some g \<and> set ks = {i. needed (fn_insts example_fn) (fn_ret example_fn) i} \<and>
    sorted_wrt (<) ks \<and> length (fn_insts g) = length ks \<and>
    (\<forall>k < length ks. in_op (fn_insts g ! k) = rename_op ren (in_op (fn_insts example_fn ! (ks ! k))) \<and> ren (word_of_nat (ks ! k)) = word_of_nat k)"
  by (rule dce_keeps_needed [OF example_verified]) (simp add: example_length)

text \<open>Where the build checks for overflow, the optimiser of a verified function can panic although interpreting
  that function answers: an overflowing sum of literals, and no rows.\<close>

theorem optimizer_panics_at_compile_time:
  "\<exists>f :: int ir_function. verify f = Inr [TyI64, TyI64] \<and> interpret_ir True example_f64 f [] 0 = Some (Inr []) \<and>
     optimize True example_f64 f = None"
  by (intro exI [of _ "ir_finish 0 1 (fold (\<lambda>op b. snd (ir_push op b))
        [OpConst (ConstI64 (2 ^ 63 - 1)), OpAdd 0 0] [])"] conjI) code_simp+

end
