(* ===== verification/Key_Codec.thy ===== *)
theory Key_Codec
  imports Prelude
begin

text \<open>
  \<open>heraclitus-core/src/canonical.rs\<close>: the order-preserving encoding of \<open>i64\<close> and \<open>f64\<close> as \<open>u64\<close> keys. An \<open>f64\<close>
  is its bit pattern; the comparisons of the language are defined on the value that IEEE 754 gives to a pattern.
\<close>

section \<open>IEEE 754 binary64\<close>

type_synonym f64_bits = u64

definition f64_negative :: "f64_bits \<Rightarrow> bool" where
  "f64_negative b \<longleftrightarrow> 2 ^ 63 \<le> unat b"

definition f64_magnitude :: "f64_bits \<Rightarrow> nat" where
  "f64_magnitude b = unat b mod 2 ^ 63"

definition f64_exponent :: "f64_bits \<Rightarrow> nat" where
  "f64_exponent b = f64_magnitude b div 2 ^ 52"

definition f64_fraction :: "f64_bits \<Rightarrow> nat" where
  "f64_fraction b = f64_magnitude b mod 2 ^ 52"

definition f64_is_nan :: "f64_bits \<Rightarrow> bool" where
  "f64_is_nan b \<longleftrightarrow> f64_exponent b = 2047 \<and> f64_fraction b \<noteq> 0"

definition f64_is_finite :: "f64_bits \<Rightarrow> bool" where
  "f64_is_finite b \<longleftrightarrow> f64_exponent b \<noteq> 2047"

text \<open>
  The value of a pattern in units of \<open>2 ^ -1074\<close>, the smallest subnormal, so that it is an integer. An infinity has
  the value that its pattern would have if exponent 2047 were an ordinary one, above every finite value.
\<close>

definition f64_abs :: "f64_bits \<Rightarrow> int" where
  "f64_abs b = (if f64_exponent b = 0 then int (f64_fraction b)
     else int (2 ^ 52 + f64_fraction b) * 2 ^ (f64_exponent b - 1))"

definition f64_value :: "f64_bits \<Rightarrow> int" where
  "f64_value b = (if f64_negative b then - f64_abs b else f64_abs b)"

text \<open>\<open><=\<close> and \<open>==\<close> of \<open>f64\<close>, false as soon as a NaN is involved.\<close>

definition f64_le :: "f64_bits \<Rightarrow> f64_bits \<Rightarrow> bool" where
  "f64_le a b \<longleftrightarrow> \<not> f64_is_nan a \<and> \<not> f64_is_nan b \<and> f64_value a \<le> f64_value b"

definition f64_eq :: "f64_bits \<Rightarrow> f64_bits \<Rightarrow> bool" where
  "f64_eq a b \<longleftrightarrow> \<not> f64_is_nan a \<and> \<not> f64_is_nan b \<and> f64_value a = f64_value b"

section \<open>The codec\<close>

definition SIGN_BIT_MASK :: u64 where
  "SIGN_BIT_MASK = 0x8000000000000000"

definition encode_i64 :: "64 word \<Rightarrow> u64" where
  "encode_i64 v = v XOR SIGN_BIT_MASK"

definition decode_i64 :: "u64 \<Rightarrow> 64 word" where
  "decode_i64 v = v XOR SIGN_BIT_MASK"

definition f64_nan :: f64_bits where
  "f64_nan = 0x7FF8000000000000"

definition encode_f64 :: "f64_bits \<Rightarrow> u64" where
  "encode_f64 v = (if f64_is_nan v then - 1 else
     let bits = (if f64_eq v 0 then 0 else v) in
     if drop_bit 63 bits = 0 then bits XOR SIGN_BIT_MASK else NOT bits)"

definition decode_f64 :: "u64 \<Rightarrow> f64_bits" where
  "decode_f64 v = (if v = - 1 then f64_nan
     else if v AND SIGN_BIT_MASK \<noteq> 0 then v XOR SIGN_BIT_MASK else NOT v)"

section \<open>Flipping the sign bit\<close>

lemma bit_sign_mask: "bit SIGN_BIT_MASK n \<longleftrightarrow> n = 63"
proof -
  have "bit (2 ^ 63 :: u64) n \<longleftrightarrow> n = 63" by (subst bit_exp_iff) auto
  moreover have "SIGN_BIT_MASK = 2 ^ 63" by (simp add: SIGN_BIT_MASK_def)
  ultimately show ?thesis by metis
qed

lemma flip_flip [simp]: "(v XOR SIGN_BIT_MASK) XOR SIGN_BIT_MASK = v"
  by (simp add: xor.assoc)

lemma flip_is_plus: "v XOR SIGN_BIT_MASK = v + SIGN_BIT_MASK"
proof -
  have clear: "w XOR SIGN_BIT_MASK = w + SIGN_BIT_MASK" if "\<not> bit w 63" for w
  proof -
    have "w + SIGN_BIT_MASK = w OR SIGN_BIT_MASK"
      using that by (intro disjunctive_add) (auto simp: bit_sign_mask)
    also have "\<dots> = w XOR SIGN_BIT_MASK"
      using that by (intro bit_word_eqI) (auto simp: bit_simps bit_sign_mask)
    finally show ?thesis by simp
  qed
  show ?thesis
  proof (cases "bit v 63")
    case True
    then have "\<not> bit (v XOR SIGN_BIT_MASK) 63" by (simp add: bit_simps bit_sign_mask)
    then have "v = (v XOR SIGN_BIT_MASK) + SIGN_BIT_MASK" using clear [of "v XOR SIGN_BIT_MASK"] by simp
    moreover have "- SIGN_BIT_MASK = SIGN_BIT_MASK" by (simp add: SIGN_BIT_MASK_def)
    ultimately show ?thesis by (metis add_diff_cancel_right' diff_conv_add_uminus)
  qed (rule clear)
qed

lemma unat_flip: "unat (v XOR SIGN_BIT_MASK) = (if unat v < 2 ^ 63 then unat v + 2 ^ 63 else unat v - 2 ^ 63)"
proof -
  have "unat (v XOR SIGN_BIT_MASK) = (unat v + unat SIGN_BIT_MASK) mod 2 ^ 64"
    unfolding flip_is_plus by (simp add: unat_word_ariths)
  then have "unat (v XOR SIGN_BIT_MASK) = (unat v + 2 ^ 63) mod 2 ^ 64"
    by (simp add: SIGN_BIT_MASK_def)
  then show ?thesis
    using unat_lt_u64 [of v] by (auto simp: not_less mod_if)
qed

lemma unat_not: "unat (NOT (v :: u64)) = 2 ^ 64 - 1 - unat v"
proof -
  have "NOT v = - 1 - v" by (simp add: not_eq_complement)
  also have "unat \<dots> = unat (- 1 :: u64) - unat v"
    by (rule unat_sub) (simp add: word_n1_ge)
  finally show ?thesis by (simp add: unsigned_minus_1_eq_mask mask_eq_exp_minus_1)
qed

lemma sign_bit: "bit v 63 \<longleftrightarrow> f64_negative v"
proof -
  have "bit v 63 \<longleftrightarrow> bit (unat v) 63" by (simp add: bit_unsigned_iff)
  then have "bit v 63 \<longleftrightarrow> odd (unat v div 2 ^ 63)" by (simp only: bit_iff_odd [of "unat v"])
  moreover have "unat v div 2 ^ 63 < 2" using unat_lt_u64 [of v] by (simp add: less_mult_imp_div_less)
  ultimately show ?thesis
    by (auto simp: f64_negative_def less_2_cases_iff div_eq_0_iff not_le)
qed

lemma top_bit: "drop_bit 63 (v :: u64) = 0 \<longleftrightarrow> \<not> f64_negative v"
proof -
  have "drop_bit 63 v = 0 \<longleftrightarrow> \<not> bit v 63"
  proof
    show "\<not> bit v 63" if zero: "drop_bit 63 v = 0"
    proof -
      have "bit v (63 + 0) \<longleftrightarrow> bit (drop_bit 63 v) 0" by (simp only: bit_drop_bit_eq comp_apply)
      then show ?thesis unfolding zero by simp
    qed
    show "drop_bit 63 v = 0" if "\<not> bit v 63"
    proof (rule bit_word_eqI)
      fix n
      show "bit (drop_bit 63 v) n = bit 0 n"
        using that by (cases n) (auto simp: bit_simps dest: bit_imp_le_length)
    qed
  qed
  then show ?thesis by (simp add: sign_bit)
qed

lemma and_mask: "v AND SIGN_BIT_MASK \<noteq> 0 \<longleftrightarrow> f64_negative v"
proof -
  have "v AND SIGN_BIT_MASK = (if bit v 63 then SIGN_BIT_MASK else 0)"
    by (rule bit_word_eqI) (auto simp: bit_simps bit_sign_mask)
  moreover have "SIGN_BIT_MASK \<noteq> 0" by (simp add: SIGN_BIT_MASK_def)
  ultimately show ?thesis by (simp add: sign_bit)
qed

section \<open>The value of a pattern grows with its magnitude\<close>

definition mag_value :: "nat \<Rightarrow> int" where
  "mag_value m = (if m div 2 ^ 52 = 0 then int (m mod 2 ^ 52) else int (2 ^ 52 + m mod 2 ^ 52) * 2 ^ (m div 2 ^ 52 - 1))"

lemma f64_abs_mag: "f64_abs b = mag_value (f64_magnitude b)"
  by (simp add: f64_abs_def mag_value_def f64_exponent_def f64_fraction_def)

lemma mag_value_step: "mag_value m < mag_value (Suc m)"
proof -
  let ?e = "m div 2 ^ 52" and ?f = "m mod 2 ^ 52"
  show ?thesis
  proof (cases "Suc ?f = 2 ^ 52")
    case True
    then have s: "Suc m div 2 ^ 52 = Suc ?e" "Suc m mod 2 ^ 52 = 0"
      by (simp_all add: div_Suc mod_Suc)
    have f: "int ?f = 2 ^ 52 - 1" using True by simp
    show ?thesis
    proof (cases "?e")
      case 0
      then show ?thesis using s f by (simp add: mag_value_def)
    next
      case (Suc k)
      then have "mag_value m = (2 ^ 53 - 1) * 2 ^ k" "mag_value (Suc m) = 2 ^ 53 * 2 ^ k"
        using s f by (simp_all add: mag_value_def)
      then show ?thesis by simp
    qed
  next
    case False
    then have "Suc m div 2 ^ 52 = ?e" "Suc m mod 2 ^ 52 = Suc ?f"
      by (simp_all add: div_Suc mod_Suc)
    then show ?thesis by (simp add: mag_value_def)
  qed
qed

lemma mag_value_mono: "strict_mono mag_value"
  by (rule strict_mono_Suc_iff [THEN iffD2]) (simp add: mag_value_step)

lemma mag_value_0 [simp]: "mag_value 0 = 0"
  by (simp add: mag_value_def)

lemma mag_value_less [simp]: "mag_value m < mag_value n \<longleftrightarrow> m < n" "mag_value m \<le> mag_value n \<longleftrightarrow> m \<le> n"
  "mag_value m = mag_value n \<longleftrightarrow> m = n"
  using mag_value_mono by (simp_all add: strict_mono_less strict_mono_less_eq strict_mono_eq)

lemma mag_value_nonneg [simp]: "0 \<le> mag_value m"
  using mag_value_less(2) [of 0 m] by simp

lemma mag_value_zero [simp]: "mag_value m = 0 \<longleftrightarrow> m = 0"
  using mag_value_less(3) [of m 0] by simp

section \<open>Keys\<close>

lemma unat_split: "unat v = (if f64_negative v then 2 ^ 63 else 0) + f64_magnitude v"
proof -
  have "unat v < 2 ^ 64" using unat_lt_u64 [of v] by simp
  then show ?thesis by (auto simp: f64_negative_def f64_magnitude_def mod_if)
qed

lemma f64_magnitude_less: "f64_magnitude v < 2 ^ 63"
  by (simp add: f64_magnitude_def)

text \<open>The key as a number: the value's magnitude above or below the middle of the range.\<close>

lemma unat_encode_f64:
  assumes "\<not> f64_is_nan v"
  shows "unat (encode_f64 v) = (if f64_magnitude v = 0 then 2 ^ 63
    else if f64_negative v then 2 ^ 63 - 1 - f64_magnitude v else 2 ^ 63 + f64_magnitude v)"
proof -
  have zero: "f64_eq v 0 \<longleftrightarrow> f64_magnitude v = 0"
    using assms by (auto simp: f64_eq_def f64_value_def f64_abs_mag f64_is_nan_def f64_exponent_def f64_fraction_def
        f64_negative_def f64_magnitude_def)
  show ?thesis
  proof (cases "f64_magnitude v = 0")
    case True
    then show ?thesis using assms zero by (simp add: encode_f64_def SIGN_BIT_MASK_def)
  next
    case False
    then have "encode_f64 v = (if f64_negative v then NOT v else v XOR SIGN_BIT_MASK)"
      using assms zero by (simp add: encode_f64_def top_bit)
    then show ?thesis
      using False unat_split [of v] f64_magnitude_less [of v] by (auto simp: unat_flip unat_not)
  qed
qed

lemma f64_value_mag: "f64_value v = (if f64_negative v then - mag_value (f64_magnitude v) else mag_value (f64_magnitude v))"
  by (simp add: f64_value_def f64_abs_mag)

lemma f64_value_le: "f64_value a \<le> f64_value b \<longleftrightarrow>
  (if f64_negative a then (if f64_negative b then f64_magnitude b \<le> f64_magnitude a else True)
   else if f64_negative b then f64_magnitude a = 0 \<and> f64_magnitude b = 0 else f64_magnitude a \<le> f64_magnitude b)"
proof -
  have "- mag_value m \<le> mag_value n" for m n
    using mag_value_nonneg [of m] mag_value_nonneg [of n] by linarith
  moreover have "mag_value m \<le> - mag_value n \<longleftrightarrow> m = 0 \<and> n = 0" for m n
    using mag_value_nonneg [of m] mag_value_nonneg [of n] mag_value_zero [of m] mag_value_zero [of n] by linarith
  ultimately show ?thesis by (simp add: f64_value_mag)
qed

lemma encode_f64_mono:
  assumes "\<not> f64_is_nan a" "\<not> f64_is_nan b"
  shows "encode_f64 a \<le> encode_f64 b \<longleftrightarrow> f64_value a \<le> f64_value b"
  using f64_magnitude_less [of a] f64_magnitude_less [of b]
  unfolding word_le_nat_alt unat_encode_f64 [OF assms(1)] unat_encode_f64 [OF assms(2)] f64_value_le by auto

lemma encode_f64_eq: "\<not> f64_is_nan a \<Longrightarrow> \<not> f64_is_nan b \<Longrightarrow> encode_f64 a = encode_f64 b \<longleftrightarrow> f64_value a = f64_value b"
  by (metis encode_f64_mono order_antisym order_refl)

lemma encode_f64_less: "\<not> f64_is_nan a \<Longrightarrow> \<not> f64_is_nan b \<Longrightarrow> encode_f64 a < encode_f64 b \<longleftrightarrow> f64_value a < f64_value b"
  using encode_f64_mono [of b a] by (simp add: not_le [symmetric])

lemma nan_magnitude: "\<not> f64_is_nan v \<Longrightarrow> f64_magnitude v \<le> 2047 * 2 ^ 52"
proof -
  assume nan: "\<not> f64_is_nan v"
  define q r where "q = f64_magnitude v div 2 ^ 52" and "r = f64_magnitude v mod 2 ^ 52"
  have m: "f64_magnitude v = q * 2 ^ 52 + r" unfolding q_def r_def by simp
  have "r < 2 ^ 52" unfolding r_def by simp
  moreover have "q < 2048" unfolding q_def using f64_magnitude_less [of v] by (simp add: less_mult_imp_div_less)
  moreover have "q \<noteq> 2047 \<or> r = 0" using nan by (simp add: f64_is_nan_def f64_exponent_def f64_fraction_def q_def r_def)
  ultimately show ?thesis
    unfolding m by (cases "q = 2047") auto
qed

lemma encode_f64_not_max:
  assumes "\<not> f64_is_nan v"
  shows "encode_f64 v \<noteq> - 1"
proof -
  have "unat (encode_f64 v) < 2 ^ 64 - 1"
    using nan_magnitude [OF assms] unfolding unat_encode_f64 [OF assms] by auto
  moreover have "unat (- 1 :: u64) = 2 ^ 64 - 1" by (simp add: unsigned_minus_1_eq_mask mask_eq_exp_minus_1)
  ultimately show ?thesis by auto
qed

lemma decode_encode_f64:
  assumes "\<not> f64_is_nan v"
  shows "decode_f64 (encode_f64 v) = (if f64_magnitude v = 0 then 0 else v)"
proof -
  let ?b = "if f64_magnitude v = 0 then 0 else v"
  have zero: "f64_eq v 0 \<longleftrightarrow> f64_magnitude v = 0"
    using assms by (auto simp: f64_eq_def f64_value_def f64_abs_mag f64_is_nan_def f64_exponent_def f64_fraction_def
        f64_negative_def f64_magnitude_def)
  have enc: "encode_f64 v = (if f64_negative ?b then NOT ?b else ?b XOR SIGN_BIT_MASK)"
    using assms zero by (simp add: encode_f64_def top_bit Let_def)
  have neg: "f64_negative (encode_f64 v) \<longleftrightarrow> \<not> f64_negative ?b"
    unfolding enc using unat_not [of ?b] unat_flip [of ?b] unat_lt_u64 [of ?b]
    by (auto simp: f64_negative_def)
  show ?thesis
    using encode_f64_not_max [OF assms] neg enc by (simp add: decode_f64_def and_mask)
qed

lemma encode_i64_value: "int (unat (encode_i64 x)) = sint x + 2 ^ 63"
proof -
  have "sint x = signed_take_bit 63 (uint x)" by (simp add: sint_uint)
  also have "\<dots> = take_bit 64 (uint x) - 2 ^ 64 * of_bool (bit (uint x) 63)"
    using signed_take_bit_eq_take_bit_minus [of 63 "uint x"] by (simp only: Suc_numeral semiring_norm)
  also have "take_bit 64 (uint x) = uint x"
    using uint_lt2p [of x] by (intro take_bit_int_eq_self) simp_all
  finally have "sint x = uint x - 2 ^ 64 * of_bool (bit (uint x) 63)" .
  moreover have "bit (uint x) 63 \<longleftrightarrow> f64_negative x"
    using sign_bit [of x] by (simp add: bit_unsigned_iff)
  ultimately have "sint x = int (unat x) - (if unat x < 2 ^ 63 then 0 else 2 ^ 64)"
    by (simp add: f64_negative_def)
  then show ?thesis
    unfolding encode_i64_def unat_flip by (auto simp: of_nat_diff)
qed

section \<open>Properties\<close>

text \<open>C24. Keys sort as the numbers do: unsigned comparison of two keys decides \<open><=\<close> of the \<open>f64\<close> values they encode
  (negatives, subnormals, both zeros and infinities included), and signed comparison of \<open>i64\<close>.\<close>

theorem key_order_is_numeric_order:
  assumes "\<not> f64_is_nan a" "\<not> f64_is_nan b"
  shows "(encode_f64 a \<le> encode_f64 b \<longleftrightarrow> f64_le a b) \<and> (encode_f64 a = encode_f64 b \<longleftrightarrow> f64_eq a b) \<and>
    (encode_i64 x \<le> encode_i64 y \<longleftrightarrow> sint x \<le> sint y)"
proof -
  have "encode_i64 x \<le> encode_i64 y \<longleftrightarrow> sint x \<le> sint y"
    using encode_i64_value [of x] encode_i64_value [of y] unfolding word_le_nat_alt by linarith
  then show ?thesis
    using assms by (simp add: encode_f64_mono encode_f64_eq f64_le_def f64_eq_def)
qed

text \<open>Minus two, the smallest subnormal below zero, minus zero and infinity.\<close>

theorem key_order_is_numeric_order_witness:
  "encode_f64 0xC000000000000000 \<le> encode_f64 0x8000000000000001 \<and> encode_f64 0x8000000000000001 \<le> encode_f64 0x8000000000000000 \<and>
   encode_f64 0x8000000000000000 = encode_f64 0 \<and> encode_f64 0 \<le> encode_f64 0x7FF0000000000000"
proof -
  have "\<not> f64_is_nan 0xC000000000000000" "\<not> f64_is_nan 0x8000000000000001" "\<not> f64_is_nan 0x8000000000000000"
    "\<not> f64_is_nan 0" "\<not> f64_is_nan 0x7FF0000000000000"
    by (simp_all add: f64_is_nan_def f64_exponent_def f64_fraction_def f64_magnitude_def)
  note order = this [THEN key_order_is_numeric_order]
  have "f64_le 0xC000000000000000 0x8000000000000001" "f64_le 0x8000000000000001 0x8000000000000000"
    "f64_eq 0x8000000000000000 0" "f64_le 0 0x7FF0000000000000"
    using \<open>\<not> f64_is_nan 0x8000000000000001\<close>
    by (simp_all add: f64_le_def f64_eq_def f64_is_nan_def f64_value_def f64_abs_def f64_negative_def f64_exponent_def f64_fraction_def f64_magnitude_def)
  then show ?thesis
    using order \<open>\<not> f64_is_nan 0x8000000000000001\<close> \<open>\<not> f64_is_nan 0x8000000000000000\<close> \<open>\<not> f64_is_nan 0\<close> \<open>\<not> f64_is_nan 0x7FF0000000000000\<close>
    by blast
qed

text \<open>Decoding undoes encoding, up to the two identifications the codec makes: minus zero becomes zero, and every NaN
  becomes the one quiet NaN, whose key is the largest and is used by no number.\<close>

theorem key_decodes:
  "decode_f64 (encode_f64 v) = (if f64_is_nan v then f64_nan else if f64_eq v 0 then 0 else v) \<and>
   (encode_f64 v = - 1 \<longleftrightarrow> f64_is_nan v) \<and> decode_i64 (encode_i64 x) = x"
proof (cases "f64_is_nan v")
  case True
  then show ?thesis by (simp add: encode_f64_def decode_f64_def encode_i64_def decode_i64_def)
next
  case False
  have "f64_eq v 0 \<longleftrightarrow> f64_magnitude v = 0"
    using False by (auto simp: f64_eq_def f64_value_mag f64_is_nan_def f64_exponent_def f64_fraction_def
        f64_negative_def f64_magnitude_def)
  then show ?thesis
    using False by (simp add: decode_encode_f64 encode_f64_not_max encode_i64_def decode_i64_def)
qed

end
