(* ===== verification/Column_Codec.thy ===== *)
theory Column_Codec
  imports Byte_Codec
begin

text \<open>
  \<open>hume-kernel/src/compression.rs\<close>: run-length, delta and frame-of-reference encoding of columns of \<open>u64\<close>,
  bit-packing, and the self-describing column format that chooses among them. A panic is \<open>None\<close>: an assertion, an
  index out of range, or the overflow of an addition where the build checks for it (\<open>checks\<close>). The run counter
  wraps at \<open>2 ^ 32\<close>, which no column that can be decoded reaches.
\<close>

section \<open>Run-length, delta and frame of reference\<close>

definition rle_step :: "(u64 \<times> u32) list \<Rightarrow> u64 \<Rightarrow> (u64 \<times> u32) list" where
  "rle_step out v = (if out \<noteq> [] \<and> fst (last out) = v then butlast out @ [(v, snd (last out) + 1)] else out @ [(v, 1)])"

definition rle_encode :: "u64 list \<Rightarrow> (u64 \<times> u32) list" where
  "rle_encode data = foldl rle_step [] data"

definition rle_decode :: "(u64 \<times> u32) list \<Rightarrow> u64 list" where
  "rle_decode runs = concat (map (\<lambda>(v, c). replicate (unat c) v) runs)"

text \<open>Signed values are words too; their subtraction wraps.\<close>

fun delta_from :: "u64 \<Rightarrow> u64 list \<Rightarrow> u64 list" where
  "delta_from prev [] = []"
| "delta_from prev (v # vs) = (v - prev) # delta_from v vs"

definition delta_encode :: "u64 list \<Rightarrow> u64 list" where
  "delta_encode data = (case data of [] \<Rightarrow> [] | v # vs \<Rightarrow> v # delta_from v vs)"

fun sum_from :: "u64 \<Rightarrow> u64 list \<Rightarrow> u64 list" where
  "sum_from acc [] = []"
| "sum_from acc (d # ds) = (acc + d) # sum_from (acc + d) ds"

definition delta_decode :: "u64 list \<Rightarrow> u64 list" where
  "delta_decode deltas = (case deltas of [] \<Rightarrow> [] | d # ds \<Rightarrow> d # sum_from d ds)"

definition min_or_zero :: "u64 list \<Rightarrow> u64" where
  "min_or_zero data = (case data of [] \<Rightarrow> 0 | v # vs \<Rightarrow> foldl min v vs)"

definition max_or_zero :: "u64 list \<Rightarrow> u64" where
  "max_or_zero data = (case data of [] \<Rightarrow> 0 | v # vs \<Rightarrow> foldl max v vs)"

definition for_encode :: "u64 list \<Rightarrow> u64 \<times> u64 list" where
  "for_encode data = (let m = min_or_zero data in (m, map (\<lambda>v. v - m) data))"

definition for_decode :: "bool \<Rightarrow> u64 \<Rightarrow> u64 list \<Rightarrow> u64 list option" where
  "for_decode checks m offsets = (if checks \<and> (\<exists>x \<in> set offsets. 2 ^ 64 \<le> unat m + unat x) then None
     else Some (map (\<lambda>x. m + x) offsets))"

section \<open>Bit-packing\<close>

text \<open>\<open>64 - leading_zeros\<close>.\<close>

fun bit_length :: "nat \<Rightarrow> nat" where
  "bit_length n = (if n = 0 then 0 else Suc (bit_length (n div 2)))"

declare bit_length.simps [simp del]

definition min_bits :: "u64 \<Rightarrow> nat" where
  "min_bits max_value = (if max_value = 0 then 1 else bit_length (unat max_value))"

definition ceil_div :: "nat \<Rightarrow> nat \<Rightarrow> nat" where
  "ceil_div a b = (a + b - 1) div b"

definition word_at :: "u64 list \<Rightarrow> nat \<Rightarrow> u64 option" where
  "word_at ws i = (if i < length ws then Some (ws ! i) else None)"

definition or_at :: "u64 list \<Rightarrow> nat \<Rightarrow> u64 \<Rightarrow> u64 list option" where
  "or_at ws i x = (if i < length ws then Some (ws[i := ws ! i OR x]) else None)"

definition store_value :: "nat \<Rightarrow> u64 list \<Rightarrow> nat \<Rightarrow> u64 \<Rightarrow> u64 list option" where
  "store_value bits out bit_pos v = Option.bind (or_at out (bit_pos div 64) (push_bit (bit_pos mod 64) v)) (\<lambda>out.
     if 64 < bit_pos mod 64 + bits then or_at out (bit_pos div 64 + 1) (drop_bit (64 - bit_pos mod 64) v) else Some out)"

fun pack_loop :: "nat \<Rightarrow> u64 list \<Rightarrow> nat \<Rightarrow> u64 list \<Rightarrow> u64 list option" where
  "pack_loop bits out bit_pos [] = Some out"
| "pack_loop bits out bit_pos (v # vs) = (if mask bits < v then None else
     Option.bind (store_value bits out bit_pos v) (\<lambda>out. pack_loop bits out (bit_pos + bits) vs))"

definition pack :: "u64 list \<Rightarrow> nat \<Rightarrow> u64 list option" where
  "pack values bits = (if bits < 1 \<or> 64 < bits then None else if bits = 64 then Some values
     else pack_loop bits (replicate (ceil_div (length values * bits) 64) 0) 0 values)"

definition read_value :: "u64 list \<Rightarrow> nat \<Rightarrow> nat \<Rightarrow> u64 option" where
  "read_value packed bits bit_pos = map_option (\<lambda>v. v AND mask bits) (Option.bind (word_at packed (bit_pos div 64)) (\<lambda>w.
     if 64 < bit_pos mod 64 + bits
     then map_option (\<lambda>w1. drop_bit (bit_pos mod 64) w OR push_bit (64 - bit_pos mod 64) w1) (word_at packed (bit_pos div 64 + 1))
     else Some (drop_bit (bit_pos mod 64) w)))"

fun unpack_loop :: "u64 list \<Rightarrow> nat \<Rightarrow> nat \<Rightarrow> nat \<Rightarrow> u64 list option" where
  "unpack_loop packed bits bit_pos 0 = Some []"
| "unpack_loop packed bits bit_pos (Suc n) = Option.bind (read_value packed bits bit_pos) (\<lambda>v.
     map_option ((#) v) (unpack_loop packed bits (bit_pos + bits) n))"

definition unpack :: "u64 list \<Rightarrow> nat \<Rightarrow> nat \<Rightarrow> u64 list option" where
  "unpack packed bits n = (if bits < 1 \<or> 64 < bits then None
     else if bits = 64 then (if n \<le> length packed then Some (take n packed) else None)
     else unpack_loop packed bits 0 n)"

section \<open>The column format\<close>

datatype codec = Raw | Rle | DeltaBitpack | ForBitpack

fun codec_tag :: "codec \<Rightarrow> u8" where
  "codec_tag Raw = 0"
| "codec_tag Rle = 1"
| "codec_tag DeltaBitpack = 2"
| "codec_tag ForBitpack = 3"

definition from_tag :: "u8 \<Rightarrow> codec option" where
  "from_tag t = (if t = 0 then Some Raw else if t = 1 then Some Rle else if t = 2 then Some DeltaBitpack
     else if t = 3 then Some ForBitpack else None)"

definition take_u64 :: "bytes \<Rightarrow> nat \<Rightarrow> (u64 \<times> nat) option" where
  "take_u64 b i = (if i + 8 \<le> length b then Some (from_le_bytes (field i 8 b), i + 8) else None)"

definition pack_words :: "u64 list \<Rightarrow> bytes" where
  "pack_words ws = concat (map to_le_bytes ws)"

definition encode_raw :: "u64 list \<Rightarrow> bytes" where
  "encode_raw data = codec_tag Raw # to_le_bytes (word_of_nat (length data) :: u64) @ pack_words data"

definition encode_rle :: "(u64 \<times> u32) list \<Rightarrow> bytes" where
  "encode_rle runs = codec_tag Rle # to_le_bytes (word_of_nat (length runs) :: u64) @
     concat (map (\<lambda>(v, c). to_le_bytes v @ to_le_bytes c) runs)"

definition encode_delta_bitpack :: "u64 list \<Rightarrow> bytes option option" where
  "encode_delta_bitpack data = (if length data < 2 then Some None else
     let deltas = tl (delta_encode data) in
     if \<exists>d \<in> set deltas. sint d < 0 then Some None else
     let bits = min_bits (max_or_zero deltas) in
     map_option (\<lambda>packed. Some (codec_tag DeltaBitpack # to_le_bytes (word_of_nat (length data) :: u64) @
       to_le_bytes (hd data) @ word_of_nat bits # pack_words packed)) (pack deltas bits))"

definition encode_for_bitpack :: "u64 list \<Rightarrow> bytes option option" where
  "encode_for_bitpack data = (if data = [] then Some None else
     let (m, offsets) = for_encode data; bits = min_bits (max_or_zero offsets) in
     map_option (\<lambda>packed. Some (codec_tag ForBitpack # to_le_bytes (word_of_nat (length data) :: u64) @
       to_le_bytes m @ word_of_nat bits # pack_words packed)) (pack offsets bits))"

text \<open>\<open>if v.len() < melhor.len()\<close>.\<close>

definition shorter :: "bytes \<Rightarrow> bytes option \<Rightarrow> bytes" where
  "shorter best v = (case v of Some v \<Rightarrow> if length v < length best then v else best | None \<Rightarrow> best)"

definition column_encode :: "u64 list \<Rightarrow> bytes option" where
  "column_encode data = (let best = encode_raw data; runs = rle_encode data;
     best = shorter best (if length runs * 12 + 9 < length best then Some (encode_rle runs) else None) in
     Option.bind (encode_delta_bitpack data) (\<lambda>v. let best = shorter best v in
     map_option (shorter best) (encode_for_bitpack data)))"

definition MAX_VALORES :: nat where
  "MAX_VALORES = 2 ^ 28"

fun take_values :: "nat \<Rightarrow> bytes \<Rightarrow> nat \<Rightarrow> u64 list option" where
  "take_values 0 b i = Some []"
| "take_values (Suc n) b i = Option.bind (take_u64 b i) (\<lambda>(v, i). map_option ((#) v) (take_values n b i))"

fun take_runs :: "nat \<Rightarrow> bytes \<Rightarrow> nat \<Rightarrow> nat \<Rightarrow> (u64 \<times> u32) list option" where
  "take_runs 0 b i seen = Some []"
| "take_runs (Suc n) b i seen = Option.bind (take_u64 b i) (\<lambda>(v, i).
     if length b < i + 4 then None else
     let c = from_le_bytes (field i 4 b) :: u32; seen = seen + unat c in
     if MAX_VALORES < seen then None else map_option ((#) (v, c)) (take_runs n b (i + 4) seen))"

text \<open>The part of \<open>decode\<close> that the two bit-packed formats share.\<close>

definition decode_packed :: "bool \<Rightarrow> codec \<Rightarrow> nat \<Rightarrow> bytes \<Rightarrow> nat \<Rightarrow> u64 list option option" where
  "decode_packed checks codec n blob i = (case take_u64 blob i of None \<Rightarrow> Some None | Some (base, i) \<Rightarrow>
     if length blob \<le> i then Some None else
     let bits = unat (blob ! i); i = i + 1 in
     if bits < 1 \<or> 64 < bits then Some None else
     if codec = DeltaBitpack \<and> n = 0 then Some None else
     let valores = (if codec = DeltaBitpack then n - 1 else n); restantes = (length blob - i) div 8 in
     if restantes < ceil_div (valores * bits) 64 then Some None else
     (case take_values restantes blob i of None \<Rightarrow> Some None | Some words \<Rightarrow>
       if codec = DeltaBitpack then map_option (\<lambda>vals. Some (delta_decode (base # vals))) (unpack words bits (n - 1))
       else Option.bind (unpack words bits n) (\<lambda>offsets. map_option Some (for_decode checks base offsets))))"

definition column_decode :: "bool \<Rightarrow> bytes \<Rightarrow> u64 list option option" where
  "column_decode checks blob = (if blob = [] then Some None else case from_tag (hd blob) of None \<Rightarrow> Some None | Some codec \<Rightarrow>
     (case take_u64 blob 1 of None \<Rightarrow> Some None | Some (n64, i) \<Rightarrow>
       let n = unat n64 in
       if MAX_VALORES < n then Some None else
       (case codec of
          Raw \<Rightarrow> Some (if length blob - i < n * 8 then None else take_values n blob i)
        | Rle \<Rightarrow> Some (map_option rle_decode (take_runs n blob i 0))
        | _ \<Rightarrow> decode_packed checks codec n blob i)))"

definition codec_of :: "bytes \<Rightarrow> codec option" where
  "codec_of blob = (if blob = [] then None else from_tag (hd blob))"

end
