(* ===== verification/Column_Codec_Correct.thy ===== *)
theory Column_Codec_Correct
  imports Column_Codec
begin

text \<open>Round trips of the column codecs, the size bound of the format, and the totality of its decoder.\<close>

section \<open>Run-length, delta and frame of reference\<close>

lemma rle_decode_append: "rle_decode (xs @ ys) = rle_decode xs @ rle_decode ys"
  by (simp add: rle_decode_def)

lemma unat_suc_u32: "unat c + 1 < 2 ^ 32 \<Longrightarrow> unat (c + 1 :: u32) = unat c + 1"
  by (simp add: unat_word_ariths)

definition runs_of :: "(u64 \<times> u32) list \<Rightarrow> u64 list \<Rightarrow> bool" where
  "runs_of out data \<longleftrightarrow> rle_decode out = data \<and> (\<forall>r \<in> set out. unat (snd r) \<le> length data) \<and> length out \<le> length data"

lemma rle_step_spec:
  assumes "runs_of out data" "length data + 1 < 2 ^ 32"
  shows "runs_of (rle_step out v) (data @ [v])"
proof (cases "out \<noteq> [] \<and> fst (last out) = v")
  case True
  then obtain xs c where out: "out = xs @ [(v, c)]" by (metis append_butlast_last_id prod.collapse)
  then have s: "unat (c + 1) = unat c + 1" using assms by (intro unat_suc_u32) (auto simp: runs_of_def)
  have "rle_step out v = xs @ [(v, c + 1)]" by (simp add: rle_step_def out)
  then show ?thesis
    using assms(1) s by (auto simp: runs_of_def out rle_decode_append rle_decode_def replicate_append_same)
next
  case False
  then have "rle_step out v = out @ [(v, 1)]" by (auto simp: rle_step_def)
  then show ?thesis
    using assms(1) by (auto simp: runs_of_def rle_decode_append) (auto simp: rle_decode_def)
qed

lemma rle_loop: "length data < 2 ^ 32 \<Longrightarrow> runs_of (foldl rle_step [] data) data"
proof (induction data rule: rev_induct)
  case (snoc v data)
  then show ?case using rle_step_spec [of "foldl rle_step [] data" data v] by simp
qed (simp add: rle_decode_def runs_of_def)

lemma sum_delta: "sum_from prev (delta_from prev vs) = vs"
  by (induction vs arbitrary: prev) auto

lemma delta_roundtrip: "delta_decode (delta_encode data) = data"
  by (cases data) (auto simp: delta_decode_def delta_encode_def sum_delta)

lemma length_delta_from [simp]: "length (delta_from p vs) = length vs"
  by (induction vs arbitrary: p) auto

lemma foldl_min_le: "foldl min (m :: u64) vs \<le> m \<and> (\<forall>v \<in> set vs. foldl min m vs \<le> v)"
proof (induction vs arbitrary: m)
  case (Cons a vs)
  have "foldl min (min m a) vs \<le> min m a" using Cons.IH by blast
  then have "foldl min (min m a) vs \<le> m \<and> foldl min (min m a) vs \<le> a" by (meson min.boundedE)
  then show ?case using Cons.IH [of "min m a"] by simp
qed simp

lemma foldl_max_ge: "(m :: u64) \<le> foldl max m vs \<and> (\<forall>v \<in> set vs. v \<le> foldl max m vs)"
proof (induction vs arbitrary: m)
  case (Cons a vs)
  have "max m a \<le> foldl max (max m a) vs" using Cons.IH by blast
  then have "m \<le> foldl max (max m a) vs \<and> a \<le> foldl max (max m a) vs" by (meson max.boundedE)
  then show ?case using Cons.IH [of "max m a"] by simp
qed simp

lemma min_or_zero_le: "v \<in> set data \<Longrightarrow> min_or_zero data \<le> v"
  using foldl_min_le by (cases data) (auto simp: min_or_zero_def)

lemma max_or_zero_ge: "v \<in> set data \<Longrightarrow> v \<le> max_or_zero data"
  using foldl_max_ge by (cases data) (auto simp: max_or_zero_def)

lemma for_roundtrip: "for_decode checks (fst (for_encode data)) (snd (for_encode data)) = Some data"
proof -
  let ?m = "min_or_zero data"
  have "unat ?m + unat (v - ?m) = unat v" if "v \<in> set data" for v
    using min_or_zero_le [OF that] by (simp add: unat_sub_u64 word_le_nat_alt)
  then have "\<not> (\<exists>x \<in> set (map (\<lambda>v. v - ?m) data). 2 ^ 64 \<le> unat ?m + unat x)"
    using unat_lt_u64 by (auto simp: not_le)
  then show ?thesis
    unfolding for_decode_def for_encode_def Let_def by (simp add: comp_def)
qed

section \<open>Bit-packing\<close>

text \<open>Bit \<open>p\<close> of a vector of words.\<close>

definition gbit :: "u64 list \<Rightarrow> nat \<Rightarrow> bool" where
  "gbit ws p \<longleftrightarrow> p div 64 < length ws \<and> bit (ws ! (p div 64)) (p mod 64)"

lemma gbit_replicate [simp]: "\<not> gbit (replicate n 0) p"
  by (auto simp: gbit_def)

lemma gbit_or_at: "or_at ws i x = Some ws' \<Longrightarrow> length ws' = length ws \<and>
  (gbit ws' p \<longleftrightarrow> gbit ws p \<or> (p div 64 = i \<and> bit x (p mod 64)))"
  by (auto simp: or_at_def gbit_def nth_list_update bit_or_iff split: if_splits)

lemma gbit_store:
  assumes "store_value bits ws pos v = Some ws2" and fits: "\<And>t. bit v t \<Longrightarrow> t < bits" and "bits \<le> 64"
  shows "length ws2 = length ws \<and> (gbit ws2 p \<longleftrightarrow> gbit ws p \<or> (pos \<le> p \<and> bit v (p - pos)))"
proof -
  define w k where "w = pos div 64" and "k = pos mod 64"
  obtain ws1 where ws1: "or_at ws (pos div 64) (push_bit (pos mod 64) v) = Some ws1"
    and ws2: "(if 64 < pos mod 64 + bits then or_at ws1 (pos div 64 + 1) (drop_bit (64 - pos mod 64) v) else Some ws1) = Some ws2"
    using assms(1) unfolding store_value_def bind_eq_Some_conv by blast
  define pw pk where "pw = p div 64" and "pk = p mod 64"
  have pos: "pos = 64 * w + k" "k < 64" by (simp_all add: w_def k_def)
  have p: "p = 64 * pw + pk" "pk < 64" by (simp_all add: pw_def pk_def)
  note first = gbit_or_at [OF ws1, of p]
  have first_bit: "bit (push_bit k v) pk \<longleftrightarrow> k \<le> pk \<and> bit v (pk - k)"
    using p(2) by (auto simp: bit_push_bit_iff dest: bit_imp_le_length)
  show ?thesis
  proof (cases "64 < k + bits")
    case True
    then have "or_at ws1 (w + 1) (drop_bit (64 - k) v) = Some ws2" using ws2 by (simp add: w_def k_def)
    note second = gbit_or_at [OF this, of p]
    have "bit (drop_bit (64 - k) v) pk \<longleftrightarrow> bit v (64 - k + pk)" by (simp add: bit_drop_bit_eq)
    moreover have "(pw = w \<and> k \<le> pk \<and> bit v (pk - k)) \<or> (pw = w + 1 \<and> bit v (64 - k + pk)) \<longleftrightarrow> pos \<le> p \<and> bit v (p - pos)"
    proof -
      consider "pw < w" | "pw = w" | "pw = w + 1" | "w + 2 \<le> pw" by linarith
      then show ?thesis
      proof cases
        case 4
        then have "64 \<le> p - pos" using p pos by simp
        then show ?thesis using fits [of "p - pos"] assms(3) 4 by auto
      qed (use p pos in auto)
    qed
    ultimately show ?thesis
      using first second first_bit by (auto simp: w_def k_def pw_def pk_def)
  next
    case False
    then have "ws2 = ws1" using ws2 by (simp add: k_def)
    moreover have "pw = w \<and> k \<le> pk \<and> bit v (pk - k) \<longleftrightarrow> pos \<le> p \<and> bit v (p - pos)"
    proof -
      consider "pw < w" | "pw = w" | "w + 1 \<le> pw" by linarith
      then show ?thesis
      proof cases
        case 3
        then have "bits \<le> p - pos" using p pos False by simp
        then show ?thesis using fits [of "p - pos"] 3 by auto
      qed (use p pos in auto)
    qed
    ultimately show ?thesis
      using first first_bit by (auto simp: w_def k_def pw_def pk_def)
  qed
qed

lemma store_value_total:
  assumes "pos + bits \<le> 64 * length ws" "1 \<le> bits"
  shows "store_value bits ws pos v \<noteq> None"
proof -
  have w: "pos div 64 < length ws" using assms by (simp add: less_mult_imp_div_less)
  have "pos div 64 + 1 < length ws" if "64 < pos mod 64 + bits"
  proof -
    have "64 * (pos div 64 + 1) < pos + bits" using that by presburger
    then have "64 * (pos div 64 + 1) < 64 * length ws" using assms(1) by (rule less_le_trans)
    then show ?thesis by (simp only: mult_less_cancel1)
  qed
  then show ?thesis
    using w by (cases "64 < pos mod 64 + bits") (simp_all add: store_value_def or_at_def)
qed

lemma bit_unat_le: "bit (v :: u64) t \<Longrightarrow> 2 ^ t \<le> unat v"
proof -
  assume "bit v t"
  then have "bit (unat v) t" by (simp add: bit_unsigned_iff)
  then have odd: "odd (unat v div 2 ^ t)" by (simp only: bit_iff_odd not_False_eq_True)
  have "unat v div 2 ^ t \<noteq> 0"
  proof
    assume "unat v div 2 ^ t = 0"
    then have "even (unat v div 2 ^ t)" by (simp only: even_zero)
    then show False using odd by blast
  qed
  then show ?thesis by (metis div_less not_le)
qed

lemma unat_mask: "bits < 64 \<Longrightarrow> unat (mask bits :: u64) = 2 ^ bits - 1"
proof -
  assume b: "bits < 64"
  have "(2::nat) ^ bits \<le> 2 ^ 63" using b by (intro power_increasing) simp_all
  then have m: "mask bits < (2::nat) ^ 64" by (simp add: mask_eq_exp_minus_1)
  have "unat (mask bits :: u64) = unat (word_of_nat (mask bits) :: u64)" by (simp only: of_nat_mask_eq)
  also have "\<dots> = mask bits" using m by (simp add: unat_of_nat)
  finally show ?thesis by (simp add: mask_eq_exp_minus_1)
qed

lemma bit_fits:
  fixes v :: u64
  assumes "v \<le> mask bits" "bit v t"
  shows "t < bits"
proof (rule ccontr)
  assume "\<not> t < bits"
  moreover have "t < 64" using assms(2) by (auto dest: bit_imp_le_length)
  ultimately have "unat v \<le> 2 ^ bits - 1" "(2::nat) ^ bits \<le> 2 ^ t"
    using assms(1) unat_mask [of bits] by (simp_all add: word_le_nat_alt)
  moreover have "2 ^ t \<le> unat v" by (rule bit_unat_le [OF assms(2)])
  moreover have "(0::nat) < 2 ^ bits" by simp
  ultimately show False by linarith
qed

lemma pack_loop_spec:
  assumes "\<And>v. v \<in> set vs \<Longrightarrow> v \<le> mask bits" "1 \<le> bits" "bits < 64" "pos + length vs * bits \<le> 64 * length out"
  shows "\<exists>out'. pack_loop bits out pos vs = Some out' \<and> length out' = length out \<and>
    (\<forall>p. gbit out' p \<longleftrightarrow> gbit out p \<or> (pos \<le> p \<and> p < pos + length vs * bits \<and> bit (vs ! ((p - pos) div bits)) ((p - pos) mod bits)))"
  using assms(1,4)
proof (induction vs arbitrary: out pos)
  case (Cons v vs)
  have "v \<le> mask bits" using Cons.prems(1) by simp
  note fits = bit_fits [OF this]
  obtain ws2 where ws2: "store_value bits out pos v = Some ws2"
    using store_value_total [of pos bits out v] Cons.prems(2) assms(2) by auto
  note store = gbit_store [OF ws2 fits]
  have len: "length ws2 = length out" using store assms(3) by simp
  obtain out' where out': "pack_loop bits ws2 (pos + bits) vs = Some out'" "length out' = length ws2"
    "\<And>p. gbit out' p \<longleftrightarrow> gbit ws2 p \<or> (pos + bits \<le> p \<and> p < pos + bits + length vs * bits \<and>
       bit (vs ! ((p - (pos + bits)) div bits)) ((p - (pos + bits)) mod bits))"
    using Cons.IH [of "pos + bits" ws2] Cons.prems len by (auto simp: algebra_simps)
  have "pack_loop bits out pos (v # vs) = Some out'"
    using ws2 out'(1) Cons.prems(1) by (simp add: not_less)
  moreover have "gbit out' p \<longleftrightarrow> gbit out p \<or> (pos \<le> p \<and> p < pos + length (v # vs) * bits \<and>
    bit ((v # vs) ! ((p - pos) div bits)) ((p - pos) mod bits))" for p
  proof -
    consider "p < pos" | "pos \<le> p" "p < pos + bits" | "pos + bits \<le> p" by linarith
    then show ?thesis
    proof cases
      case 1 then show ?thesis using out'(3) [of p] store [of p] assms(3) by auto
    next
      case 2
      then have "(p - pos) div bits = 0" "(p - pos) mod bits = p - pos" by auto
      then show ?thesis using out'(3) [of p] store [of p] assms(3) 2 by auto
    next
      case 3
      then have "\<not> bit v (p - pos)" using fits [of "p - pos"] by auto
      moreover have "(p - pos) div bits = Suc ((p - (pos + bits)) div bits)" "(p - pos) mod bits = (p - (pos + bits)) mod bits"
        using 3 assms(2) by (simp_all add: le_div_geq le_mod_geq)
      ultimately show ?thesis using out'(3) [of p] store [of p] assms(3) 3 by (auto simp: algebra_simps)
    qed
  qed
  ultimately show ?case using out'(2) len by auto
qed auto

lemma ceil_div_room: "n \<le> 64 * ceil_div n 64"
proof -
  have "n div 64 * 64 + n mod 64 = n" by (rule div_mult_mod_eq)
  then show ?thesis unfolding ceil_div_def by presburger
qed

lemma pack_total:
  assumes "\<And>v. v \<in> set vs \<Longrightarrow> v \<le> mask bits" "1 \<le> bits" "bits \<le> 64"
  shows "\<exists>out. pack vs bits = Some out \<and> length out = ceil_div (length vs * bits) 64"
proof (cases "bits = 64")
  case True
  then show ?thesis by (simp add: pack_def ceil_div_def)
next
  case False
  then show ?thesis
    using pack_loop_spec [OF assms(1) assms(2), of vs 0 "replicate (ceil_div (length vs * bits) 64) 0"] assms(2,3)
      ceil_div_room [of "length vs * bits"]
    by (auto simp: pack_def)
qed

lemma unpack_value:
  assumes "1 \<le> bits" "bits < 64" "pos + bits \<le> 64 * length ws"
  shows "\<exists>v. read_value ws bits pos = Some v \<and> (\<forall>t. bit v t \<longleftrightarrow> t < bits \<and> gbit ws (pos + t))"
proof -
  define w k where "w = pos div 64" and "k = pos mod 64"
  have pos: "pos = 64 * w + k" "k < 64" by (simp_all add: w_def k_def)
  have w: "w < length ws" using assms(1,3) pos by simp
  have low: "gbit ws (pos + t) \<longleftrightarrow> bit (ws ! w) (k + t)" if "k + t < 64" for t
  proof -
    have "pos + t = (k + t) + w * 64" using pos by simp
    then have "(pos + t) div 64 = w" "(pos + t) mod 64 = k + t"
      using that by (simp_all only: div_mult_self1 mod_mult_self1 div_less mod_less)
    then show ?thesis using w by (simp add: gbit_def)
  qed
  show ?thesis
  proof (cases "64 < k + bits")
    case True
    then have w1: "w + 1 < length ws" using assms(3) pos by simp
    have high: "gbit ws (pos + t) \<longleftrightarrow> bit (ws ! (w + 1)) (k + t - 64)" if "64 \<le> k + t" "t < bits" for t
    proof -
      have p: "pos + t = (k + t - 64) + (w + 1) * 64" "k + t - 64 < 64"
        using that assms(2) pos by simp_all
      then have "(pos + t) div 64 = w + 1" "(pos + t) mod 64 = k + t - 64"
        by (simp_all only: div_mult_self1 mod_mult_self1 div_less mod_less)
      then show ?thesis using w1 by (simp add: gbit_def)
    qed
    let ?v = "drop_bit k (ws ! w) OR push_bit (64 - k) (ws ! (w + 1))"
    have "bit (?v AND mask bits) t \<longleftrightarrow> t < bits \<and> gbit ws (pos + t)" for t
    proof (cases "k + t < 64")
      case True
      then show ?thesis using low [OF True] assms(2)
        by (auto simp: bit_and_iff bit_or_iff bit_mask_iff bit_drop_bit_eq bit_push_bit_iff)
    next
      case False
      then have "\<not> bit (ws ! w) (k + t)" by (auto dest: bit_imp_le_length)
      moreover have "64 - k \<le> t" "t - (64 - k) = k + t - 64" using False pos(2) by simp_all
      ultimately show ?thesis using high [of t] False assms(2)
        by (auto simp: bit_and_iff bit_or_iff bit_mask_iff bit_drop_bit_eq bit_push_bit_iff)
    qed
    then show ?thesis
      using w w1 True by (simp add: read_value_def word_at_def w_def k_def)
  next
    case False
    have "bit (drop_bit k (ws ! w) AND mask bits) t \<longleftrightarrow> t < bits \<and> gbit ws (pos + t)" for t
      using low [of t] False assms(2) by (auto simp: bit_and_iff bit_mask_iff bit_drop_bit_eq)
    then show ?thesis
      using w False by (simp add: read_value_def word_at_def w_def k_def)
  qed
qed

lemma unpack_loop_spec:
  "1 \<le> bits \<Longrightarrow> bits < 64 \<Longrightarrow> pos + n * bits \<le> 64 * length ws \<Longrightarrow>
   \<exists>vs. unpack_loop ws bits pos n = Some vs \<and> length vs = n \<and>
     (\<forall>i < n. \<forall>t. bit (vs ! i) t \<longleftrightarrow> t < bits \<and> gbit ws (pos + i * bits + t))"
proof (induction n arbitrary: pos)
  case (Suc n)
  obtain v where v: "read_value ws bits pos = Some v" "\<And>t. bit v t \<longleftrightarrow> t < bits \<and> gbit ws (pos + t)"
    using unpack_value [of bits pos ws] Suc.prems by auto
  obtain vs where vs: "unpack_loop ws bits (pos + bits) n = Some vs" "length vs = n"
    "\<forall>i < n. \<forall>t. bit (vs ! i) t \<longleftrightarrow> t < bits \<and> gbit ws (pos + bits + i * bits + t)"
    using Suc.IH [of "pos + bits"] Suc.prems by (auto simp: algebra_simps)
  have "unpack_loop ws bits pos (Suc n) = Some (v # vs)"
    using v(1) vs(1) by simp
  moreover have "bit ((v # vs) ! i) t \<longleftrightarrow> t < bits \<and> gbit ws (pos + i * bits + t)" if "i < Suc n" for i t
    using v(2) vs(3) that by (cases i) (auto simp: ac_simps)
  ultimately show ?case using vs(2) by auto
qed auto

lemma unpack_total:
  assumes "1 \<le> bits" "bits \<le> 64" "ceil_div (n * bits) 64 \<le> length ws"
  shows "unpack ws bits n \<noteq> None"
proof (cases "bits = 64")
  case True
  then show ?thesis using assms(3) by (simp add: unpack_def ceil_div_def)
next
  case False
  have "n * bits \<le> 64 * length ws"
    using ceil_div_room [of "n * bits"] assms(3) by linarith
  then show ?thesis
    using unpack_loop_spec [of bits 0 n ws] assms(1,2) False by (auto simp: unpack_def)
qed

lemma unpack_pack:
  assumes "\<And>v. v \<in> set vs \<Longrightarrow> v \<le> mask bits" "1 \<le> bits" "bits \<le> 64" "pack vs bits = Some packed"
  shows "unpack (packed @ rest) bits (length vs) = Some vs"
proof (cases "bits = 64")
  case True
  then show ?thesis using assms(4) by (simp add: pack_def unpack_def)
next
  case False
  let ?zero = "replicate (ceil_div (length vs * bits) 64) (0 :: u64)"
  have room: "0 + length vs * bits \<le> 64 * length ?zero" using ceil_div_room [of "length vs * bits"] by simp
  have less: "bits < 64" using assms(3) False by simp
  have "pack_loop bits ?zero 0 vs = Some packed"
    using assms(2,3,4) False by (simp add: pack_def split: if_splits)
  then have packed: "length packed = length ?zero"
    "\<And>p. gbit packed p \<longleftrightarrow> p < length vs * bits \<and> bit (vs ! (p div bits)) (p mod bits)"
    using pack_loop_spec [OF assms(1) assms(2) less room] by auto
  have len: "0 + length vs * bits \<le> 64 * length (packed @ rest)" using packed(1) room by simp
  obtain us where us: "unpack_loop (packed @ rest) bits 0 (length vs) = Some us" "length us = length vs"
    "\<And>i t. i < length vs \<Longrightarrow> bit (us ! i) t \<longleftrightarrow> t < bits \<and> gbit (packed @ rest) (i * bits + t)"
    using unpack_loop_spec [OF assms(2) less len] by auto
  have "us ! i = vs ! i" if i: "i < length vs" for i
  proof (rule bit_word_eqI)
    fix t
    have fits: "bit (vs ! i) t \<Longrightarrow> t < bits" using bit_fits assms(1) i nth_mem by blast
    have in_range: "i * bits + t < length vs * bits" if "t < bits"
    proof -
      have "i * bits + t < Suc i * bits" using that by simp
      also have "\<dots> \<le> length vs * bits" using i by (intro mult_le_mono1) simp
      finally show ?thesis .
    qed
    have "gbit (packed @ rest) p = gbit packed p" if "p < length vs * bits" for p
    proof -
      have "p < 64 * length packed" using that room packed(1) by simp
      then have "p div 64 < length packed" by (simp add: less_mult_imp_div_less mult.commute)
      then show ?thesis by (simp add: gbit_def nth_append)
    qed
    then show "bit (us ! i) t = bit (vs ! i) t"
      using us(3) [OF i] packed(2) in_range fits assms(2) by auto
  qed
  then have "us = vs" using us(2) by (intro nth_equalityI) auto
  then show ?thesis using us(1) assms(2,3) False by (simp add: unpack_def)
qed

text \<open>The chosen width fits the largest value.\<close>

lemma bit_length_bound: "n < 2 ^ bit_length n"
proof (induction n rule: bit_length.induct)
  case (1 n)
  show ?case
  proof (cases "n = 0")
    case False
    then have "n div 2 < 2 ^ bit_length (n div 2)" using 1 by blast
    moreover have "bit_length n = Suc (bit_length (n div 2))" using False bit_length.simps [of n] by simp
    ultimately show ?thesis by simp
  qed simp
qed

lemma bit_length_le: "n < 2 ^ k \<Longrightarrow> bit_length n \<le> k"
proof (induction k arbitrary: n)
  case 0 then show ?case by (simp add: bit_length.simps)
next
  case (Suc k)
  then have "bit_length (n div 2) \<le> k" by (intro Suc.IH) simp
  then show ?case using bit_length.simps [of n] by simp
qed

lemma min_bits_range: "1 \<le> min_bits x \<and> min_bits x \<le> 64"
  using bit_length_le [of "unat x" 64] bit_length.simps [of "unat x"] unat_lt_u64 [of x]
  by (auto simp: min_bits_def unat_eq_0)

lemma min_bits_fits: "v \<le> x \<Longrightarrow> v \<le> mask (min_bits x)"
proof -
  assume "v \<le> x"
  have "unat x < 2 ^ min_bits x"
    using bit_length_bound [of "unat x"] by (auto simp: min_bits_def)
  then have "unat v \<le> 2 ^ min_bits x - 1" using \<open>v \<le> x\<close> by (simp add: word_le_nat_alt)
  moreover have "unat (mask (min_bits x) :: u64) = 2 ^ min_bits x - 1"
  proof (cases "min_bits x = 64")
    case True
    have "mask 64 = (- 1 :: u64)" by (simp add: mask_eq_exp_minus_1)
    then show ?thesis using True by (simp add: unsigned_minus_1_eq_mask mask_eq_exp_minus_1)
  next
    case False
    then show ?thesis using min_bits_range [of x] by (intro unat_mask) simp
  qed
  ultimately show ?thesis by (simp add: word_le_nat_alt)
qed

section \<open>Reading the format back\<close>

lemma take_u64_here:
  "take_u64 (xs @ to_le_bytes v @ ys) (length xs) = Some (v, length xs + 8)"
  by (simp add: take_u64_def field_skip field_here)

lemma take_values_here:
  "take_values (length ws) (xs @ pack_words ws @ ys) (length xs) = Some ws"
proof (induction ws arbitrary: xs)
  case (Cons w ws)
  have "take_u64 (xs @ to_le_bytes w @ (pack_words ws @ ys)) (length xs) = Some (w, length xs + 8)"
    by (rule take_u64_here)
  then show ?case
    using Cons.IH [of "xs @ to_le_bytes w"] by (simp add: pack_words_def)
qed simp

lemma length_pack_words [simp]: "length (pack_words ws) = 8 * length ws"
  by (induction ws) (simp_all add: pack_words_def)

lemma rle_decode_length: "length (rle_decode runs) = (\<Sum>r \<leftarrow> runs. unat (snd r))"
  by (induction runs) (auto simp: rle_decode_def split_def)

lemma take_runs_here:
  "seen + (\<Sum>r \<leftarrow> runs. unat (snd r)) \<le> MAX_VALORES \<Longrightarrow>
   take_runs (length runs) (xs @ concat (map (\<lambda>(v, c). to_le_bytes v @ to_le_bytes c) runs) @ ys) (length xs) seen = Some runs"
proof (induction runs arbitrary: xs seen)
  case (Cons r runs)
  obtain v c where r: "r = (v, c)" by fastforce
  let ?rest = "concat (map (\<lambda>(v, c). to_le_bytes v @ to_le_bytes c) runs) @ ys"
  have "take_u64 (xs @ to_le_bytes v @ (to_le_bytes c @ ?rest)) (length xs) = Some (v, length xs + 8)"
    by (rule take_u64_here)
  moreover have "field (length xs + 8) 4 (xs @ to_le_bytes v @ to_le_bytes c @ ?rest) = to_le_bytes c"
    by (simp add: field_skip field_here)
  ultimately show ?case
    using Cons.IH [of "seen + unat c" "xs @ to_le_bytes v @ to_le_bytes c"] Cons.prems r
    by (simp add: Let_def ac_simps)
qed simp

lemma from_tag_codec [simp]: "from_tag (codec_tag c) = Some c"
  by (cases c) (simp_all add: from_tag_def)

lemma unat_length: "length xs \<le> MAX_VALORES \<Longrightarrow> unat (word_of_nat (length xs) :: u64) = length xs"
  by (simp add: unat_of_nat MAX_VALORES_def)

text \<open>A column that is stored with the tag of a codec.\<close>

lemma column_decode_tag:
  assumes "n \<le> MAX_VALORES" "blob = codec_tag c # to_le_bytes (word_of_nat n :: u64) @ rest"
  shows "column_decode ck blob = (case c of
      Raw \<Rightarrow> Some (if length blob - 9 < n * 8 then None else take_values n blob 9)
    | Rle \<Rightarrow> Some (map_option rle_decode (take_runs n blob 9 0))
    | _ \<Rightarrow> decode_packed ck c n blob 9)"
proof -
  define m :: u64 where "m = word_of_nat n"
  have m: "unat m = n" using assms by (simp add: m_def unat_of_nat MAX_VALORES_def)
  have "take_u64 ([codec_tag c] @ to_le_bytes m @ rest) (length [codec_tag c]) = Some (m, length [codec_tag c] + 8)"
    by (rule take_u64_here)
  then have "take_u64 blob 1 = Some (m, 9)" by (simp add: assms(2) m_def)
  moreover have "blob \<noteq> []" "from_tag (hd blob) = Some c" by (simp_all add: assms(2))
  ultimately show ?thesis
    using assms(1) m by (cases c) (simp_all add: column_decode_def)
qed

lemma decode_raw:
  assumes "length data \<le> MAX_VALORES"
  shows "column_decode ck (encode_raw data) = Some (Some data)"
proof -
  have "take_values (length data) ((codec_tag Raw # to_le_bytes (word_of_nat (length data) :: u64)) @ pack_words data @ [])
    (length (codec_tag Raw # to_le_bytes (word_of_nat (length data) :: u64))) = Some data"
    by (rule take_values_here)
  then show ?thesis
    unfolding encode_raw_def by (subst column_decode_tag [OF assms refl]) simp
qed

lemma decode_rle:
  assumes "length data \<le> MAX_VALORES"
  shows "column_decode ck (encode_rle (rle_encode data)) = Some (Some data)"
proof -
  have "length data < 2 ^ 32" using assms by (simp add: MAX_VALORES_def)
  then have runs: "rle_decode (rle_encode data) = data" "length (rle_encode data) \<le> MAX_VALORES"
    using rle_loop [of data] assms by (auto simp: runs_of_def rle_encode_def)
  then have "0 + (\<Sum>r \<leftarrow> rle_encode data. unat (snd r)) \<le> MAX_VALORES"
    using rle_decode_length [of "rle_encode data"] assms by simp
  from take_runs_here [OF this, of "codec_tag Rle # to_le_bytes (word_of_nat (length (rle_encode data)) :: u64)" "[]"]
  show ?thesis
    unfolding encode_rle_def by (subst column_decode_tag [OF runs(2) refl]) (simp add: runs(1))
qed

text \<open>The packed part behind the base and the width.\<close>

lemma decode_packed_here:
  assumes "pack vs bits = Some packed" "1 \<le> bits" "bits \<le> 64" "\<And>v. v \<in> set vs \<Longrightarrow> v \<le> mask bits"
    and "length vs = (if c = DeltaBitpack then n - 1 else n)" "c = DeltaBitpack \<Longrightarrow> n \<noteq> 0" "length xs = i"
  shows "decode_packed ck c n (xs @ to_le_bytes base @ word_of_nat bits # pack_words packed) i =
    (if c = DeltaBitpack then Some (Some (delta_decode (base # vs))) else map_option Some (for_decode ck base vs))"
proof -
  let ?blob = "xs @ to_le_bytes base @ word_of_nat bits # pack_words packed"
  have base: "take_u64 ?blob i = Some (base, i + 8)"
    using take_u64_here [of xs base] assms(7) by simp
  have split: "?blob = (xs @ to_le_bytes base @ [word_of_nat bits]) @ pack_words packed @ []" by simp
  have width: "?blob ! (i + 8) = word_of_nat bits"
    using nth_append_length [of "xs @ to_le_bytes base" "word_of_nat bits" "pack_words packed"] assms(7) by simp
  have bits: "unat (word_of_nat bits :: u8) = bits" using assms(3) by (simp add: unat_of_nat)
  have len: "length packed = ceil_div (length vs * bits) 64"
    using pack_total [of vs bits] assms(1-4) by auto
  have words: "take_values (length packed) ?blob (9 + i) = Some packed"
    using take_values_here [of packed "xs @ to_le_bytes base @ [word_of_nat bits]" "[]"] assms(7) by (simp add: ac_simps)
  have room: "length ?blob = 9 + i + 8 * length packed" using assms(7) by simp
  have unp: "unpack packed bits (length vs) = Some vs"
    using unpack_pack [of vs bits packed "[]"] assms(1-4) by simp
  define blob where "blob = ?blob"
  note facts = base width words room bits unp
  have "decode_packed ck c n blob i = (if c = DeltaBitpack then Some (Some (delta_decode (base # vs))) else map_option Some (for_decode ck base vs))"
  proof (cases "c = DeltaBitpack")
    case True
    then have "length vs = n - 1" "n \<noteq> 0" using assms(5,6) by simp_all
    then show ?thesis
      using facts assms(2,3) True len unfolding blob_def [symmetric] decode_packed_def by (simp add: Let_def)
  next
    case False
    then have "length vs = n" using assms(5) by simp
    then show ?thesis
      using facts assms(2,3) False len unfolding blob_def [symmetric] decode_packed_def by (simp add: Let_def)
  qed
  then show ?thesis by (simp add: blob_def)
qed

lemma decode_delta:
  assumes "length data \<le> MAX_VALORES" "encode_delta_bitpack data = Some (Some blob)"
  shows "column_decode ck blob = Some (Some data)"
proof -
  let ?deltas = "tl (delta_encode data)"
  let ?bits = "min_bits (max_or_zero ?deltas)"
  have two: "2 \<le> length data" using assms(2) by (simp add: encode_delta_bitpack_def split: if_splits)
  obtain packed where packed: "pack ?deltas ?bits = Some packed"
    and blob: "blob = codec_tag DeltaBitpack # to_le_bytes (word_of_nat (length data) :: u64) @
      to_le_bytes (hd data) @ word_of_nat ?bits # pack_words packed"
    using assms(2) by (auto simp: encode_delta_bitpack_def Let_def split: if_splits)
  have fits: "v \<in> set ?deltas \<Longrightarrow> v \<le> mask ?bits" for v by (intro min_bits_fits max_or_zero_ge)
  have "data \<noteq> []" using two by auto
  have len: "length ?deltas = length data - 1" by (cases data) (auto simp: delta_encode_def)
  have deltas: "hd data # ?deltas = delta_encode data" using two by (cases data) (auto simp: delta_encode_def)
  have "column_decode ck blob = decode_packed ck DeltaBitpack (length data) blob 9"
    by (subst column_decode_tag [OF assms(1) blob]) simp
  also have "\<dots> = Some (Some (delta_decode (hd data # ?deltas)))"
    using decode_packed_here [OF packed _ _ fits, of DeltaBitpack "length data"
        "codec_tag DeltaBitpack # to_le_bytes (word_of_nat (length data) :: u64)" 9 ck "hd data"] min_bits_range len two \<open>data \<noteq> []\<close>
    by (simp add: blob)
  finally show ?thesis unfolding deltas delta_roundtrip .
qed

lemma decode_for:
  assumes "length data \<le> MAX_VALORES" "encode_for_bitpack data = Some (Some blob)"
  shows "column_decode ck blob = Some (Some data)"
proof -
  let ?m = "fst (for_encode data)" and ?offsets = "snd (for_encode data)"
  let ?bits = "min_bits (max_or_zero ?offsets)"
  obtain packed where packed: "pack ?offsets ?bits = Some packed"
    and blob: "blob = codec_tag ForBitpack # to_le_bytes (word_of_nat (length data) :: u64) @
      to_le_bytes ?m @ word_of_nat ?bits # pack_words packed"
    using assms(2) by (auto simp: encode_for_bitpack_def Let_def split_def split: if_splits)
  have fits: "v \<in> set ?offsets \<Longrightarrow> v \<le> mask ?bits" for v by (intro min_bits_fits max_or_zero_ge)
  have len: "length ?offsets = length data" by (simp add: for_encode_def Let_def)
  have "column_decode ck blob = decode_packed ck ForBitpack (length data) blob 9"
    by (subst column_decode_tag [OF assms(1) blob]) simp
  also have "\<dots> = map_option Some (for_decode ck ?m ?offsets)"
    using decode_packed_here [OF packed _ _ fits, of ForBitpack "length data"
        "codec_tag ForBitpack # to_le_bytes (word_of_nat (length data) :: u64)" 9 ck ?m] min_bits_range len
    by (simp add: blob)
  finally show ?thesis by (simp add: for_roundtrip)
qed

lemma encoders_total: "encode_delta_bitpack data \<noteq> None" "encode_for_bitpack data \<noteq> None"
proof -
  have "pack vs (min_bits (max_or_zero vs)) \<noteq> None" for vs
    using pack_total [of vs "min_bits (max_or_zero vs)"] min_bits_range [of "max_or_zero vs"] min_bits_fits max_or_zero_ge
    by blast
  then show "encode_delta_bitpack data \<noteq> None" "encode_for_bitpack data \<noteq> None"
    by (simp_all add: encode_delta_bitpack_def encode_for_bitpack_def Let_def split_def)
qed

lemma shorter_cases: "shorter best v = best \<or> v = Some (shorter best v)" "length (shorter best v) \<le> length best"
  by (auto simp: shorter_def split: option.splits)

lemma column_encode_cases:
  obtains blob where "column_encode data = Some blob" "length blob \<le> length (encode_raw data)"
    "blob = encode_raw data \<or> blob = encode_rle (rle_encode data) \<or> encode_delta_bitpack data = Some (Some blob) \<or>
     encode_for_bitpack data = Some (Some blob)"
proof -
  let ?rle = "if length (rle_encode data) * 12 + 9 < length (encode_raw data) then Some (encode_rle (rle_encode data)) else None"
  obtain d where d: "encode_delta_bitpack data = Some d" using encoders_total(1) [of data] by auto
  obtain f where f: "encode_for_bitpack data = Some f" using encoders_total(2) [of data] by auto
  define b1 where "b1 = shorter (encode_raw data) ?rle"
  define b2 where "b2 = shorter b1 d"
  define b3 where "b3 = shorter b2 f"
  have "column_encode data = Some b3"
    by (simp add: column_encode_def Let_def d f b1_def b2_def b3_def)
  moreover have "length b3 \<le> length (encode_raw data)"
    using shorter_cases(2) [of b2 f] shorter_cases(2) [of b1 d] shorter_cases(2) [of "encode_raw data" ?rle]
    by (simp add: b1_def b2_def b3_def)
  moreover have "b3 = b2 \<or> f = Some b3" "b2 = b1 \<or> d = Some b2" "b1 = encode_raw data \<or> b1 = encode_rle (rle_encode data)"
    using shorter_cases(1) [of b2 f] shorter_cases(1) [of b1 d] shorter_cases(1) [of "encode_raw data" ?rle]
    by (auto simp: b1_def b2_def b3_def split: if_splits)
  ultimately show ?thesis using d f that by blast
qed

lemma column_decode_encode:
  assumes "length data \<le> MAX_VALORES"
  shows "\<exists>blob. column_encode data = Some blob \<and> length blob \<le> length (encode_raw data) \<and> column_decode ck blob = Some (Some data)"
  by (rule column_encode_cases [of data])
    (use decode_raw [OF assms] decode_rle [OF assms] decode_delta [OF assms] decode_for [OF assms] in auto)

section \<open>The decoder is total\<close>

lemma take_values_length: "take_values n b i = Some ws \<Longrightarrow> length ws = n"
  by (induction n arbitrary: i ws) (auto simp: bind_eq_Some_conv split: prod.splits)

lemma decode_packed_total: "decode_packed False c n blob i \<noteq> None"
proof (cases "take_u64 blob i")
  case None
  then show ?thesis by (simp add: decode_packed_def)
next
  case (Some p)
  obtain base i' where p: "p = (base, i')" by fastforce
  let ?bits = "unat (blob ! i')" and ?rest = "(length blob - (i' + 1)) div 8"
  let ?n = "if c = DeltaBitpack then n - 1 else n"
  show ?thesis
  proof (cases "take_values ?rest blob (i' + 1)")
    case None
    then show ?thesis using Some p by (simp add: decode_packed_def Let_def)
  next
    case words: (Some words)
    have "unpack words ?bits ?n \<noteq> None" if "1 \<le> ?bits" "?bits \<le> 64" "ceil_div (?n * ?bits) 64 \<le> ?rest"
      using that take_values_length [OF words] by (intro unpack_total) simp_all
    then show ?thesis
      using Some p words by (auto simp: decode_packed_def Let_def for_decode_def)
  qed
qed

end
