(* ===== verification/Column_Codec_Behaviour.thy ===== *)
theory Column_Codec_Behaviour
  imports Column_Codec_Correct
begin

text \<open>The properties of the column format: it loses nothing, never grows, and its decoder survives any bytes.\<close>

lemma from_tag_Some: "from_tag t = Some c \<Longrightarrow> t = codec_tag c"
  by (auto simp: from_tag_def split: if_splits)

text \<open>Counts that add up to more than the limit are refused.\<close>

lemma take_runs_too_many:
  fixes runs :: "(u64 \<times> u32) list"
  shows "MAX_VALORES < seen + (\<Sum>r \<leftarrow> runs. unat (snd r)) \<Longrightarrow> runs \<noteq> [] \<Longrightarrow>
   take_runs (length runs) (xs @ concat (map (\<lambda>(v, c). to_le_bytes v @ to_le_bytes c) runs) @ ys) (length xs) seen = None"
proof (induction runs arbitrary: xs seen)
  case (Cons r runs)
  obtain v c where r: "r = (v, c)" by fastforce
  let ?rest = "concat (map (\<lambda>(v, c). to_le_bytes v @ to_le_bytes c) runs) @ ys"
  have "take_u64 (xs @ to_le_bytes v @ (to_le_bytes c @ ?rest)) (length xs) = Some (v, length xs + 8)"
    by (rule take_u64_here)
  moreover have "field (length xs + 8) 4 (xs @ to_le_bytes v @ to_le_bytes c @ ?rest) = to_le_bytes c"
    by (simp add: field_skip field_here)
  moreover have "runs \<noteq> []" if "\<not> MAX_VALORES < seen + unat c" using Cons.prems that r by auto
  ultimately show ?case
    using Cons.IH [of "seen + unat c" "xs @ to_le_bytes v @ to_le_bytes c"] Cons.prems r
    by (auto simp: Let_def ac_simps)
qed simp

lemma column_decode_refused:
  assumes "MAX_VALORES < n" "n < 2 ^ 64"
  shows "column_decode ck (codec_tag c # to_le_bytes (word_of_nat n :: u64) @ rest) = Some None"
proof -
  define m :: u64 where "m = word_of_nat n"
  have m: "unat m = n" using assms by (simp add: m_def unat_of_nat)
  have "take_u64 ([codec_tag c] @ to_le_bytes m @ rest) (length [codec_tag c]) = Some (m, length [codec_tag c] + 8)"
    by (rule take_u64_here)
  then show ?thesis using m assms(1) by (simp add: column_decode_def flip: m_def)
qed

text \<open>C22. A column of at most \<open>2 ^ 28\<close> values is encoded without a panic into at most nine bytes more than its values
  take, whatever codec was chosen, and decoding the blob gives the column back.\<close>

theorem column_roundtrip:
  assumes "length data \<le> MAX_VALORES"
  shows "\<exists>blob. column_encode data = Some blob \<and> length blob \<le> 9 + 8 * length data \<and> column_decode ck blob = Some (Some data)"
  using column_decode_encode [OF assms, of ck] by (simp add: encode_raw_def)

theorem column_roundtrip_witness:
  "\<exists>blob. column_encode [7, 7, 9] = Some blob \<and> length blob \<le> 9 + 8 * length [7 :: u64, 7, 9] \<and>
    column_decode True blob = Some (Some [7, 7, 9])"
  by (rule column_roundtrip) (simp add: MAX_VALORES_def)

lemma take_runs_bound:
  "take_runs n b i seen = Some rs \<Longrightarrow> rs \<noteq> [] \<Longrightarrow> seen + (\<Sum>r \<leftarrow> rs. unat (snd r)) \<le> MAX_VALORES"
proof (induction n b i seen arbitrary: rs rule: take_runs.induct)
  case (2 n b i seen)
  obtain v j where v: "take_u64 b i = Some (v, j)" using "2.prems" by (auto split: Option.bind_splits)
  let ?c = "from_le_bytes (field j 4 b) :: u32"
  have le: "\<not> length b < j + 4" "\<not> MAX_VALORES < seen + unat ?c" using "2.prems"(1) by (auto simp: v Let_def split: if_splits)
  then obtain rs' where rs: "rs = (v, ?c) # rs'" "take_runs n b (j + 4) (seen + unat ?c) = Some rs'"
    using "2.prems"(1) by (auto simp: v Let_def)
  have "rs' \<noteq> [] \<Longrightarrow> (seen + unat ?c) + (\<Sum>r \<leftarrow> rs'. unat (snd r)) \<le> MAX_VALORES"
    using "2.IH" v le rs(2) by (simp add: Let_def)
  then show ?case using rs(1) le(2) by (cases "rs' = []") auto
qed simp

lemma unpack_length: "unpack packed bits n = Some vs \<Longrightarrow> length vs = n"
proof -
  have "unpack_loop packed bits i n = Some vs \<Longrightarrow> length vs = n" for i vs
    by (induction packed bits i n arbitrary: vs rule: unpack_loop.induct) (auto split: Option.bind_splits)
  then show "unpack packed bits n = Some vs \<Longrightarrow> length vs = n" by (auto simp: unpack_def split: if_splits)
qed

lemma delta_decode_length: "length (delta_decode ds) = length ds"
proof -
  have "length (sum_from acc ds) = length ds" for acc ds by (induction ds arbitrary: acc) auto
  then show ?thesis by (simp add: delta_decode_def split: list.split)
qed

lemma for_decode_length: "for_decode checks m offsets = Some vs \<Longrightarrow> length vs = length offsets"
  by (auto simp: for_decode_def split: if_splits)

lemma decode_packed_bound:
  assumes "decode_packed checks c n blob i = Some (Some vs)"
  shows "length vs \<le> n"
  using assms
  by (auto simp: decode_packed_def Let_def delta_decode_length dest!: unpack_length for_decode_length
      split: option.splits if_splits Option.bind_splits)

lemma column_decode_bound:
  assumes "column_decode checks blob = Some (Some vs)"
  shows "length vs \<le> MAX_VALORES"
proof -
  obtain c n i where c: "take_u64 blob 1 = Some (n, i)" "unat n \<le> MAX_VALORES"
    and d: "(case c of Raw \<Rightarrow> Some (if length blob - i < unat n * 8 then None else take_values (unat n) blob i)
      | Rle \<Rightarrow> Some (map_option rle_decode (take_runs (unat n) blob i 0)) | _ \<Rightarrow> decode_packed checks c (unat n) blob i) = Some (Some vs)"
    using assms by (auto simp: column_decode_def Let_def not_less split: if_splits option.splits)
  show ?thesis
  proof (cases c)
    case Raw
    then show ?thesis using c(2) d take_values_length by (auto split: if_splits)
  next
    case Rle
    then obtain rs where rs: "take_runs (unat n) blob i 0 = Some rs" "vs = rle_decode rs" using d by auto
    then show ?thesis using take_runs_bound [OF rs(1)] by (cases "rs = []") (simp_all add: rle_decode_length)
  qed (use c(2) d decode_packed_bound in fastforce)+
qed

text \<open>C23. In a release build the decoder returns for every sequence of bytes, and with at most \<open>2 ^ 28\<close> values:
  what it reads from the disk never takes an index out of range, nor makes it build a column beyond that.\<close>

theorem column_decode_total:
  "\<exists>result. column_decode False blob = Some result \<and> (case result of None \<Rightarrow> True | Some vs \<Rightarrow> length vs \<le> MAX_VALORES)"
proof -
  have "decode_packed False c n blob i \<noteq> None" for c n i by (rule decode_packed_total)
  then have "\<exists>result. column_decode False blob = Some result"
    by (auto simp: column_decode_def Let_def split: option.splits codec.splits)
  then show ?thesis using column_decode_bound by (auto split: option.split)
qed

text \<open>Where the build checks for overflow it does not: a frame of reference that is close to the largest value makes
  the decoder panic, although it is said never to panic on bytes from the disk.\<close>

theorem hostile_column_panics: "\<exists>blob. column_decode True blob = None"
proof -
  have packed: "pack [1] 1 = Some [1]"
    by (simp add: pack_def store_value_def or_at_def ceil_div_def mask_eq_exp_minus_1)
  define blob where "blob = (codec_tag ForBitpack # to_le_bytes (word_of_nat 1 :: u64)) @ to_le_bytes (- 1 :: u64) @ word_of_nat 1 # pack_words [1]"
  have "decode_packed True ForBitpack 1 blob 9 = map_option Some (for_decode True (- 1) [1])"
    unfolding blob_def using decode_packed_here [OF packed, of ForBitpack 1 "codec_tag ForBitpack # to_le_bytes (word_of_nat 1 :: u64)" 9 True "- 1"]
    by (simp add: mask_eq_exp_minus_1)
  also have "\<dots> = None" by (simp add: for_decode_def unsigned_minus_1_eq_mask mask_eq_exp_minus_1)
  finally have "decode_packed True ForBitpack 1 blob 9 = None" .
  moreover have "column_decode True blob = decode_packed True ForBitpack 1 blob 9"
    by (subst column_decode_tag [of 1 blob ForBitpack]) (simp_all add: MAX_VALORES_def blob_def)
  ultimately show ?thesis by auto
qed

text \<open>The limit on what is decoded is not checked when a column is written: a column of more than \<open>2 ^ 28\<close> values
  (and fewer than \<open>2 ^ 32\<close>) is encoded into a blob that cannot be read.\<close>

theorem long_column_unreadable:
  assumes "MAX_VALORES < length data" "length data < 2 ^ 32"
  shows "\<exists>blob. column_encode data = Some blob \<and> column_decode False blob = Some None"
proof -
  have "length data < 2 ^ 64" using assms(2) by simp
  note refused = column_decode_refused [OF assms(1) this]
  have "column_decode False (encode_rle (rle_encode data)) = Some None"
  proof -
    let ?runs = "rle_encode data"
    have runs: "rle_decode ?runs = data" "length ?runs \<le> length data"
      using rle_loop [OF assms(2)] by (auto simp: runs_of_def rle_encode_def)
    then have seen: "MAX_VALORES < 0 + (\<Sum>r \<leftarrow> ?runs. unat (snd r))" "?runs \<noteq> []"
      using rle_decode_length [of ?runs] assms(1) by (auto simp: rle_decode_def)
    from take_runs_too_many [OF seen, of "codec_tag Rle # to_le_bytes (word_of_nat (length ?runs) :: u64)" "[]"]
    have none: "take_runs (length ?runs) (encode_rle ?runs) 9 0 = None" by (simp add: encode_rle_def)
    show ?thesis
    proof (cases "length ?runs \<le> MAX_VALORES")
      case True
      then show ?thesis using none column_decode_tag [OF True encode_rle_def] by simp
    next
      case False
      then show ?thesis
        unfolding encode_rle_def using runs(2) assms(2) by (intro column_decode_refused) simp_all
    qed
  qed
  moreover have "column_decode False (encode_raw data) = Some None" unfolding encode_raw_def by (rule refused)
  moreover have "column_decode False blob = Some None" if "encode_delta_bitpack data = Some (Some blob)" for blob
    using that refused by (auto simp: encode_delta_bitpack_def Let_def simp del: codec_tag.simps split: if_splits)
  moreover have "column_decode False blob = Some None" if "encode_for_bitpack data = Some (Some blob)" for blob
    using that refused by (auto simp: encode_for_bitpack_def Let_def split_def simp del: codec_tag.simps split: if_splits)
  ultimately show ?thesis
    by (metis column_encode_cases)
qed

theorem long_column_unreadable_witness:
  "\<exists>blob. column_encode (replicate (2 ^ 28 + 1) 5) = Some blob \<and> column_decode False blob = Some None"
  by (rule long_column_unreadable) (simp_all add: MAX_VALORES_def)

end
