(* ===== verification/Attr_Index.thy ===== *)
theory Attr_Index
  imports View_Registry V6_Canonical V6_Compress Ordered_Map Key_Codec Column_Codec "HOL-Library.List_Lexorder" "HOL-Library.Product_Lexorder"
begin

text \<open>
  \<open>heraclitus-index-attr/src/lib.rs\<close>: the automatic secondary index of attributes, its range index, its
  reports and its compressed checkpoint, with the phase of \<open>engine.rs\<close> that opens it and replays the tail of the log.
  A string is its UTF-8 bytes. A \<open>HashMap\<close> is an ordered map (no result depends on the order of iteration).
  \<open>str::parse::<f64>\<close> and bincode are parameters. \<open>column::encode\<close> never panics (\<open>column_encode_cases\<close>) and the
  decoder is the one of release builds.
\<close>

section \<open>Strings\<close>

text \<open>The encodings of the characters with the Unicode property White_Space.\<close>

definition WHITESPACE :: "bytes list" where
  "WHITESPACE = map (\<lambda>b. [b]) [0x09, 0x0A, 0x0B, 0x0C, 0x0D, 0x20] @ [[0xC2, 0x85], [0xC2, 0xA0], [0xE1, 0x9A, 0x80]] @
     map (\<lambda>b. [0xE2, 0x80, b]) [0x80, 0x81, 0x82, 0x83, 0x84, 0x85, 0x86, 0x87, 0x88, 0x89, 0x8A, 0xA8, 0xA9, 0xAF] @
     [[0xE2, 0x81, 0x9F], [0xE3, 0x80, 0x80]]"

definition starts_with :: "bytes \<Rightarrow> bytes \<Rightarrow> bool" where
  "starts_with s p \<longleftrightarrow> take (length p) s = p"

function trim_with :: "bytes list \<Rightarrow> bytes \<Rightarrow> bytes" where
  "trim_with ws s = (case find (\<lambda>w. w \<noteq> [] \<and> starts_with s w) ws of None \<Rightarrow> s | Some w \<Rightarrow> trim_with ws (drop (length w) s))"
  by pat_completeness auto

termination
  by (relation "measure (length \<circ> snd)") (auto simp: find_Some_iff starts_with_def intro!: diff_less)

definition str_trim :: "bytes \<Rightarrow> bytes" where
  "str_trim s = rev (trim_with (map rev WHITESPACE) (rev (trim_with WHITESPACE s)))"

fun label :: "event_kind \<Rightarrow> bytes" where
  "label (Custom s) = s"
| "label Observation = ascii ''Observation''"
| "label Action = ascii ''Action''"
| "label Message = ascii ''Message''"
| "label RetrievalFeedback = ascii ''RetrievalFeedback''"
| "label FactDerived = ascii ''FactDerived''"
| "label DemotionReceipt = ascii ''DemotionReceipt''"
| "label SystemMetric = ascii ''SystemMetric''"

definition SEP :: u8 where
  "SEP = 0x1F"

definition SKIP_VALUES :: "bytes list" where
  "SKIP_VALUES = map ascii ['''', ''0'', ''-1'', ''nao'', ''sim'', ''true'', ''false'', ''null'', ''none'']"

definition MAX_VALUE_LEN :: nat where
  "MAX_VALUE_LEN = 80"

definition ikey :: "bytes \<Rightarrow> bytes \<Rightarrow> bytes" where
  "ikey field_name value = field_name @ SEP # value"

section \<open>The index\<close>

type_synonym postings = "u64 list"

record attr_snapshot =
  sn_watermark :: u64
  sn_applied :: bool
  sn_exact :: "(bytes, postings) ordered_map"
  sn_numeric :: "(bytes, (u64, postings) ordered_map) ordered_map"

definition attr_new :: attr_snapshot where
  "attr_new = \<lparr>sn_watermark = 0, sn_applied = False, sn_exact = [], sn_numeric = []\<rparr>"

text \<open>\<open>binary_search\<close> on increasing postings, and the insertion at the place it names.\<close>

definition insert_sorted :: "u64 \<Rightarrow> postings \<Rightarrow> postings" where
  "insert_sorted lsn v = (if lsn \<in> set v then v else takeWhile (\<lambda>x. x < lsn) v @ lsn # dropWhile (\<lambda>x. x < lsn) v)"

definition add_exact :: "bytes \<Rightarrow> bytes \<Rightarrow> u64 \<Rightarrow> attr_snapshot \<Rightarrow> attr_snapshot" where
  "add_exact field_name value lsn s = s\<lparr>sn_exact := om_modify (ikey field_name value) [] (insert_sorted lsn) (sn_exact s)\<rparr>"

definition add_numeric :: "bytes \<Rightarrow> f64_bits \<Rightarrow> u64 \<Rightarrow> attr_snapshot \<Rightarrow> attr_snapshot" where
  "add_numeric field_name n lsn s =
     s\<lparr>sn_numeric := om_modify field_name [] (om_modify (encode_f64 n) [] (insert_sorted lsn)) (sn_numeric s)\<rparr>"

text \<open>The pseudo-attributes: not empty after trimming, not longer than the limit.\<close>

definition add_pseudo :: "string \<Rightarrow> bytes \<Rightarrow> u64 \<Rightarrow> attr_snapshot \<Rightarrow> attr_snapshot" where
  "add_pseudo name value lsn s = (let a = str_trim value in
     if a \<noteq> [] \<and> length a \<le> MAX_VALUE_LEN then add_exact (ascii name) a lsn s else s)"

definition skipped :: "bytes \<Rightarrow> bool" where
  "skipped v \<longleftrightarrow> MAX_VALUE_LEN < length v \<or> to_ascii_lowercase v \<in> set SKIP_VALUES"

definition add_attr :: "(bytes \<Rightarrow> f64_bits option) \<Rightarrow> u64 \<Rightarrow> bytes \<times> bytes \<Rightarrow> attr_snapshot \<Rightarrow> attr_snapshot" where
  "add_attr parse_f64 lsn a s = (case a of (field_name, value) \<Rightarrow> let v = str_trim value in
     if skipped v then s else
     let s = add_exact field_name v lsn s in
     (case parse_f64 v of Some n \<Rightarrow> if f64_is_finite n then add_numeric field_name n lsn s else s | None \<Rightarrow> s))"

definition attr_apply :: "(bytes \<Rightarrow> f64_bits option) \<Rightarrow> u64 \<Rightarrow> episode \<Rightarrow> attr_snapshot \<Rightarrow> attr_snapshot" where
  "attr_apply parse_f64 lsn e s =
     (let s = add_pseudo ''_agent'' (ep_agent_id e) lsn s;
          s = add_pseudo ''_kind'' (label (ep_kind e)) lsn s;
          s = foldl (\<lambda>s a. add_attr parse_f64 lsn a s) s (ep_attrs e) in
      s\<lparr>sn_watermark := max (sn_watermark s) lsn, sn_applied := True\<rparr>)"

section \<open>Lookups\<close>

definition or_empty :: "'a list option \<Rightarrow> 'a list" where
  "or_empty v = (case v of None \<Rightarrow> [] | Some v \<Rightarrow> v)"

definition attr_lookup :: "bytes \<Rightarrow> bytes \<Rightarrow> attr_snapshot \<Rightarrow> postings" where
  "attr_lookup field_name value s = or_empty (map_of (sn_exact s) (ikey field_name value))"

datatype 'a bound = Included 'a | Excluded 'a | Unbounded

fun bound_map :: "('a \<Rightarrow> 'b) \<Rightarrow> 'a bound \<Rightarrow> 'b bound" where
  "bound_map f (Included v) = Included (f v)"
| "bound_map f (Excluded v) = Excluded (f v)"
| "bound_map f Unbounded = Unbounded"

fun above_bound :: "'a::linorder bound \<Rightarrow> 'a \<Rightarrow> bool" where
  "above_bound (Included a) x = (a \<le> x)"
| "above_bound (Excluded a) x = (a < x)"
| "above_bound Unbounded x = True"

fun below_bound :: "'a::linorder bound \<Rightarrow> 'a \<Rightarrow> bool" where
  "below_bound (Included b) x = (x \<le> b)"
| "below_bound (Excluded b) x = (x < b)"
| "below_bound Unbounded x = True"

text \<open>\<open>BTreeMap::range\<close> panics on a range that starts after its end, or at it with both bounds excluded.\<close>

fun range_panics :: "'a::linorder bound \<Rightarrow> 'a bound \<Rightarrow> bool" where
  "range_panics Unbounded _ = False"
| "range_panics _ Unbounded = False"
| "range_panics (Excluded a) (Excluded b) = (b \<le> a)"
| "range_panics (Excluded a) (Included b) = (b < a)"
| "range_panics (Included a) (Excluded b) = (b < a)"
| "range_panics (Included a) (Included b) = (b < a)"

definition btree_range :: "'k::linorder bound \<Rightarrow> 'k bound \<Rightarrow> ('k, 'v) ordered_map \<Rightarrow> ('k \<times> 'v) list option" where
  "btree_range lo hi m = (if range_panics lo hi then None else Some (filter (\<lambda>(k, v). above_bound lo k \<and> below_bound hi k) m))"

fun empty_range :: "u64 bound \<Rightarrow> u64 bound \<Rightarrow> bool" where
  "empty_range (Included a) (Included b) = (b < a)"
| "empty_range (Included a) (Excluded b) = (b \<le> a)"
| "empty_range (Excluded a) (Included b) = (b \<le> a)"
| "empty_range (Excluded a) (Excluded b) = (b \<le> a)"
| "empty_range _ _ = False"

text \<open>\<open>sort_unstable\<close> followed by \<open>dedup\<close>; \<open>None\<close> is a panic.\<close>

definition lookup_range :: "bytes \<Rightarrow> f64_bits bound \<Rightarrow> f64_bits bound \<Rightarrow> attr_snapshot \<Rightarrow> postings option" where
  "lookup_range field_name lo hi s = (case map_of (sn_numeric s) field_name of None \<Rightarrow> Some [] | Some by_value \<Rightarrow>
     let lo = bound_map encode_f64 lo; hi = bound_map encode_f64 hi in
     if empty_range lo hi then Some [] else
     map_option (\<lambda>entries. remdups_adj (sort (concat (map snd entries)))) (btree_range lo hi by_value))"

definition attr_keys :: "attr_snapshot \<Rightarrow> nat" where
  "attr_keys s = length (sn_exact s)"

definition strip_key :: "bytes \<Rightarrow> bytes \<Rightarrow> bytes option" where
  "strip_key p k = (if starts_with k p then Some (drop (length p) k) else None)"

definition field_values :: "bytes \<Rightarrow> attr_snapshot \<Rightarrow> (bytes \<times> nat) list" where
  "field_values field_name s = sort_key (\<lambda>(v, n). (- int n, v))
     (List.map_filter (\<lambda>(k, lsns). map_option (\<lambda>v. (v, length lsns)) (strip_key (ikey field_name []) k)) (sn_exact s))"

definition field_span :: "bytes \<Rightarrow> bytes \<Rightarrow> attr_snapshot \<Rightarrow> (u64 \<times> u64) option" where
  "field_span field_name value s = (let l = attr_lookup field_name value s in if l = [] then None else Some (hd l, last l))"

text \<open>\<open>split_once\<close>, at the first separator.\<close>

definition split_once :: "bytes \<Rightarrow> (bytes \<times> bytes) option" where
  "split_once k = (if SEP \<in> set k then Some (takeWhile (\<lambda>b. b \<noteq> SEP) k, tl (dropWhile (\<lambda>b. b \<noteq> SEP) k)) else None)"

definition attr_fields :: "attr_snapshot \<Rightarrow> (bytes, nat) ordered_map" where
  "attr_fields s = foldl (\<lambda>m (k, _). case split_once k of Some (campo, _) \<Rightarrow> om_modify campo 0 Suc m | None \<Rightarrow> m) [] (sn_exact s)"

definition field_entries :: "bytes \<Rightarrow> attr_snapshot \<Rightarrow> nat" where
  "field_entries field_name s = length (filter (\<lambda>(k, _). starts_with k (ikey field_name [])) (sn_exact s))"

definition attr_is_empty :: "attr_snapshot \<Rightarrow> bool" where
  "attr_is_empty s \<longleftrightarrow> sn_exact s = []"

end
