(* ===== verification/Attr_Checkpoint.thy ===== *)
theory Attr_Checkpoint
  imports Attr_Index
begin

text \<open>
  The report of the attribute index on a window of the log, its checkpoint (format \<open>HATR\<close> version 4, postings
  compressed where that is shorter), and the phase of \<open>engine.rs\<close> that opens the index and replays the tail of the log.
\<close>

section \<open>Comparing two windows\<close>

record diff_valor =
  dv_valor :: bytes
  dv_eventos :: nat
  dv_anterior :: nat
  dv_antes :: nat
  dv_novo :: bool
  dv_silencioso :: bool

record diff_campo =
  dc_campo :: bytes
  dc_eventos :: nat
  dc_eventos_anterior :: nat
  dc_valores_novos :: nat
  dc_valores_ativos :: nat
  dc_valores_silenciosos :: nat
  dc_valores_total :: nat
  dc_postings_total :: nat
  dc_topo :: "diff_valor list"

definition diff_new :: "bytes \<Rightarrow> diff_campo" where
  "diff_new campo = \<lparr>dc_campo = campo, dc_eventos = 0, dc_eventos_anterior = 0, dc_valores_novos = 0, dc_valores_ativos = 0,
     dc_valores_silenciosos = 0, dc_valores_total = 0, dc_postings_total = 0, dc_topo = []\<rparr>"

definition count_valor :: "u64 \<Rightarrow> u64 \<Rightarrow> bytes \<Rightarrow> postings \<Rightarrow> diff_campo \<Rightarrow> diff_campo" where
  "count_valor de ate valor lsns c0 =
     (let largura = saturating_sub ate de; ant = saturating_sub de largura;
          ate_i = partition_point (\<lambda>l. l < ate) lsns; de_i = partition_point (\<lambda>l. l < de) lsns;
          ant_i = partition_point (\<lambda>l. l < ant) lsns;
          na_janela = ate_i - de_i; na_anterior = de_i - ant_i;
          c = c0\<lparr>dc_valores_total := dc_valores_total c0 + 1, dc_postings_total := dc_postings_total c0 + length lsns\<rparr> in
      if lsns = [] \<or> ate \<le> hd lsns then c else
      let novo = (de_i = 0 \<and> 0 < na_janela); silencioso = (na_janela = 0 \<and> 0 < na_anterior) in
      c\<lparr>dc_eventos := dc_eventos c + na_janela, dc_eventos_anterior := dc_eventos_anterior c + na_anterior,
        dc_valores_ativos := dc_valores_ativos c + (if 0 < na_janela then 1 else 0),
        dc_valores_novos := dc_valores_novos c + (if 0 < na_janela \<and> novo then 1 else 0),
        dc_valores_silenciosos := dc_valores_silenciosos c + (if silencioso then 1 else 0),
        dc_topo := dc_topo c @ (if 0 < na_janela \<or> 0 < na_anterior
          then [\<lparr>dv_valor = valor, dv_eventos = na_janela, dv_anterior = na_anterior, dv_antes = de_i, dv_novo = novo,
                 dv_silencioso = silencioso\<rparr>] else [])\<rparr>)"

definition attr_diff :: "u64 \<Rightarrow> u64 \<Rightarrow> nat \<Rightarrow> attr_snapshot \<Rightarrow> diff_campo list" where
  "attr_diff de ate topo s =
     (let por_campo = foldl (\<lambda>m (k, lsns). case split_once k of None \<Rightarrow> m
            | Some (campo, valor) \<Rightarrow> om_modify campo (diff_new campo) (count_valor de ate valor lsns) m) [] (sn_exact s);
          out = map (\<lambda>(_, c). c\<lparr>dc_topo := take topo (sort_key (\<lambda>v. (\<not> dv_novo v, \<not> dv_silencioso v,
            - int (max (dv_eventos v) (dv_anterior v)), dv_valor v)) (dc_topo c))\<rparr>) por_campo in
      sort_key (\<lambda>c. (- int (max (dc_eventos c) (dc_eventos_anterior c)), dc_campo c)) out)"

section \<open>The compressed snapshot\<close>

record compressed_snapshot =
  cs_watermark :: u64
  cs_applied :: bool
  cs_exact_plain :: "(bytes, postings) ordered_map"
  cs_exact_packed :: "(bytes, bytes) ordered_map"
  cs_numeric_plain :: "(bytes, (u64, postings) ordered_map) ordered_map"
  cs_numeric_packed :: "(bytes, (u64, bytes) ordered_map) ordered_map"

text \<open>bincode: the length of encoded postings (\<open>usize::MAX\<close> if it fails), and both snapshots.\<close>

record bincode =
  bc_len :: "postings \<Rightarrow> nat"
  bc_encode :: "compressed_snapshot \<Rightarrow> bytes option"
  bc_decode :: "bytes \<Rightarrow> compressed_snapshot option"
  bc_decode_v1 :: "bytes \<Rightarrow> attr_snapshot option"

definition MIN_PARA_MEDIR :: nat where
  "MIN_PARA_MEDIR = 8"

definition escolher_forma :: "bincode \<Rightarrow> postings \<Rightarrow> bytes option" where
  "escolher_forma B v = (if length v < MIN_PARA_MEDIR then None else
     case column_encode v of None \<Rightarrow> None | Some packed \<Rightarrow> if length packed < bc_len B v then Some packed else None)"

text \<open>The bindings that are packed, and those that stay plain.\<close>

definition packed_part :: "bincode \<Rightarrow> ('k, postings) ordered_map \<Rightarrow> ('k, bytes) ordered_map" where
  "packed_part B m = List.map_filter (\<lambda>(k, v). map_option (Pair k) (escolher_forma B v)) m"

definition plain_part :: "bincode \<Rightarrow> ('k, postings) ordered_map \<Rightarrow> ('k, postings) ordered_map" where
  "plain_part B m = filter (\<lambda>(k, v). escolher_forma B v = None) m"

text \<open>A field gets an entry when something is put under it.\<close>

definition parts_of :: "('a \<Rightarrow> 'b list) \<Rightarrow> ('k, 'a) ordered_map \<Rightarrow> ('k, 'b list) ordered_map" where
  "parts_of part m = filter (\<lambda>(_, v). v \<noteq> []) (map (\<lambda>(k, v). (k, part v)) m)"

definition compress :: "bincode \<Rightarrow> attr_snapshot \<Rightarrow> compressed_snapshot" where
  "compress B s = \<lparr>cs_watermark = sn_watermark s, cs_applied = sn_applied s,
     cs_exact_plain = plain_part B (sn_exact s), cs_exact_packed = packed_part B (sn_exact s),
     cs_numeric_plain = parts_of (plain_part B) (sn_numeric s), cs_numeric_packed = parts_of (packed_part B) (sn_numeric s)\<rparr>"

definition decode_column :: "bytes \<Rightarrow> postings option" where
  "decode_column blob = (case column_decode False blob of Some (Some v) \<Rightarrow> Some v | _ \<Rightarrow> None)"

fun unpack_into :: "('k::linorder, bytes) ordered_map \<Rightarrow> ('k, postings) ordered_map \<Rightarrow> ('k, postings) ordered_map option" where
  "unpack_into [] m = Some m"
| "unpack_into ((k, blob) # ps) m = (case decode_column blob of None \<Rightarrow> None | Some v \<Rightarrow> unpack_into ps (om_insert k v m))"

fun unpack_numeric :: "(bytes, (u64, bytes) ordered_map) ordered_map \<Rightarrow> (bytes, (u64, postings) ordered_map) ordered_map
    \<Rightarrow> (bytes, (u64, postings) ordered_map) ordered_map option" where
  "unpack_numeric [] m = Some m"
| "unpack_numeric ((campo, por_valor) # ps) m = (case unpack_into por_valor (or_empty (map_of m campo)) of
     None \<Rightarrow> None | Some v \<Rightarrow> unpack_numeric ps (om_insert campo v m))"

definition expand :: "compressed_snapshot \<Rightarrow> attr_snapshot option" where
  "expand c = (case unpack_into (cs_exact_packed c) (cs_exact_plain c) of None \<Rightarrow> None | Some exact \<Rightarrow>
     (case unpack_numeric (cs_numeric_packed c) (cs_numeric_plain c) of None \<Rightarrow> None | Some numeric \<Rightarrow>
       Some \<lparr>sn_watermark = cs_watermark c, sn_applied = cs_applied c, sn_exact = exact, sn_numeric = numeric\<rparr>))"

section \<open>The checkpoint file\<close>

definition SNAPSHOT_FILE :: file_name where
  "SNAPSHOT_FILE = ascii ''attr_index.bin''"

definition SNAPSHOT_TMP :: file_name where
  "SNAPSHOT_TMP = ascii ''attr_index.bin.tmp''"

definition MAGIC_V2 :: bytes where
  "MAGIC_V2 = ascii ''HATR''"

definition FORMAT_V2 :: u16 where
  "FORMAT_V2 = 4"

definition attr_file :: "bytes \<Rightarrow> bytes" where
  "attr_file corpo = MAGIC_V2 @ to_le_bytes FORMAT_V2 @ corpo"

definition save_ops :: "bytes \<Rightarrow> dir_op list" where
  "save_ops corpo = [WriteAndSync SNAPSHOT_TMP (attr_file corpo), Rename SNAPSHOT_TMP SNAPSHOT_FILE]"

definition attr_save :: "bincode \<Rightarrow> attr_snapshot \<Rightarrow> directory \<Rightarrow> string + directory" where
  "attr_save B s d = (case bc_encode B (compress B s) of
     None \<Rightarrow> Inl ''Serialization''
   | Some corpo \<Rightarrow> (case run_ops (save_ops corpo) d of Inl e \<Rightarrow> Inl ''Io'' | Inr d \<Rightarrow> Inr d))"

definition read_snapshot :: "bincode \<Rightarrow> bytes \<Rightarrow> attr_snapshot option" where
  "read_snapshot B bytes = (if starts_with bytes MAGIC_V2
     then if length bytes < 6 then None
       else if (from_le_bytes (field 4 2 bytes) :: u16) \<noteq> FORMAT_V2 then None
       else Option.bind (bc_decode B (drop 6 bytes)) expand
     else bc_decode_v1 B bytes)"

definition attr_open :: "bincode \<Rightarrow> directory \<Rightarrow> attr_snapshot" where
  "attr_open B d = (case map_of d SNAPSHOT_FILE of None \<Rightarrow> attr_new
     | Some bytes \<Rightarrow> (case read_snapshot B bytes of None \<Rightarrow> attr_new | Some s \<Rightarrow> s))"

section \<open>How the engine opens it\<close>

text \<open>\<open>replay_windows\<close> is the loop over the windows of the log, shared with the view registry; \<open>built\<close> is its flag.\<close>

definition index_record :: "(bytes \<Rightarrow> f64_bits option) \<Rightarrow> (episode \<Rightarrow> bool) \<Rightarrow> u64 \<times> episode \<Rightarrow> attr_snapshot \<times> bool \<Rightarrow> attr_snapshot \<times> bool" where
  "index_record parse_f64 is_hvm r st = (case r of (lsn, e) \<Rightarrow> (if is_hvm e then fst st else attr_apply parse_f64 lsn e (fst st), True))"

definition boot_attr :: "('log, episode) log_api \<Rightarrow> bincode \<Rightarrow> (bytes \<Rightarrow> f64_bits option) \<Rightarrow> (episode \<Rightarrow> bool) \<Rightarrow> bool \<Rightarrow> bool
    \<Rightarrow> 'log \<Rightarrow> directory \<Rightarrow> (string + attr_snapshot \<times> directory) option" where
  "boot_attr A B parse_f64 is_hvm privacy_rebuild skip_replay log d =
     (let s = if privacy_rebuild then attr_new else attr_open B d; head = la_head A log in
      if skip_replay then Some (Inr (s, d)) else
      case replay_windows A log (\<lambda>cur. cur \<le> head) (head + 1) (index_record parse_f64 is_hvm)
          (if attr_is_empty s then 0 else sn_watermark s) (s, False) of
        None \<Rightarrow> None
      | Some (Inl e, _) \<Rightarrow> Some (Inl e)
      | Some (Inr _, (s, built)) \<Rightarrow> if built
          then (case attr_save B s d of Inl e \<Rightarrow> Some (Inl e) | Inr d \<Rightarrow> Some (Inr (s, d)))
          else Some (Inr (s, d)))"

end
