(* ===== verification/Attr_Index_Correct.thy ===== *)
theory Attr_Index_Correct
  imports Attr_Index
begin

text \<open>
  The index as a relation between keys and LSNs: a map of postings is determined by its relation, and applying events
  adds the pairs of each event. So the index of a set of records does not depend on their order or repetition.
\<close>

section \<open>Maps of postings\<close>

definition post_ok :: "('k::linorder, postings) ordered_map \<Rightarrow> bool" where
  "post_ok m \<longleftrightarrow> om_ok m \<and> (\<forall>v \<in> ran (map_of m). v \<noteq> [] \<and> sorted_wrt (<) v)"

definition has_post :: "('k, postings) ordered_map \<Rightarrow> 'k \<Rightarrow> u64 \<Rightarrow> bool" where
  "has_post m k l \<longleftrightarrow> (\<exists>v. map_of m k = Some v \<and> l \<in> set v)"

named_theorems posting_simps "maps of postings under insertion"

lemma insert_sorted_spec: "sorted_wrt (<) v \<Longrightarrow> sorted_wrt (<) (insert_sorted l v) \<and> set (insert_sorted l v) = insert l (set v)"
proof (induction v)
  case (Cons x v)
  then show ?case by (auto simp: insert_sorted_def split: if_splits)
qed (simp add: insert_sorted_def)

lemma insert_sorted_ne [simp]: "insert_sorted l v \<noteq> []"
  by (auto simp: insert_sorted_def)

lemma post_ok_nil [simp]: "post_ok []"
  by (simp add: post_ok_def)

lemma has_post_nil [simp]: "\<not> has_post [] k l"
  by (simp add: has_post_def)

lemma post_ok_lookup: "post_ok m \<Longrightarrow> map_of m k = Some v \<Longrightarrow> v \<noteq> [] \<and> sorted_wrt (<) v"
  by (auto simp: post_ok_def ran_def)

lemma post_ok_add:
  assumes "post_ok m"
  shows "post_ok (om_modify k [] (insert_sorted l) m)"
    and "has_post (om_modify k [] (insert_sorted l) m) k' l' \<longleftrightarrow> has_post m k' l' \<or> (k' = k \<and> l' = l)"
proof -
  let ?v = "case map_of m k of None \<Rightarrow> [] | Some v \<Rightarrow> v"
  have v: "sorted_wrt (<) ?v" using post_ok_lookup [OF assms, of k] by (auto split: option.split)
  note ins = insert_sorted_spec [OF v, of l]
  show "post_ok (om_modify k [] (insert_sorted l) m)"
    using assms ins by (auto simp: post_ok_def map_of_om_modify ran_def split: if_splits)
  show "has_post (om_modify k [] (insert_sorted l) m) k' l' \<longleftrightarrow> has_post m k' l' \<or> (k' = k \<and> l' = l)"
    using ins by (auto simp: has_post_def map_of_om_modify split: option.splits)
qed

lemma om_modify_ne [simp]: "om_modify k d f m \<noteq> []"
proof -
  have "om_insert k v m \<noteq> []" for v by (cases "(k, v, m)" rule: om_insert.cases) auto
  then show ?thesis by (simp add: om_modify_def)
qed

lemma post_ok_unique:
  assumes "post_ok m" "post_ok m'" "\<And>k l. has_post m k l = has_post m' k l"
  shows "m = m'"
proof (rule om_ok_unique)
  show "om_ok m" "om_ok m'" using assms(1,2) by (simp_all add: post_ok_def)
  have sub: "map_of a k = Some v \<Longrightarrow> map_of b k = Some v"
    if ok: "post_ok a" "post_ok b" and eq: "\<And>k l. has_post a k l = has_post b k l" for a b :: "('a, postings) ordered_map" and k v
  proof -
    assume v: "map_of a k = Some v"
    then obtain l where "l \<in> set v" using post_ok_lookup [OF ok(1) v] by (cases v) auto
    then obtain w where w: "map_of b k = Some w" using eq [of k l] v by (auto simp: has_post_def)
    have "set v = set w" using eq [of k] v w by (auto simp: has_post_def)
    then have "v = w" using post_ok_lookup [OF ok(1) v] post_ok_lookup [OF ok(2) w] by (simp add: strict_sorted_equal)
    then show ?thesis using w by simp
  qed
  show "map_of m = map_of m'"
  proof
    fix k
    show "map_of m k = map_of m' k"
      using sub [OF assms, of k] sub [OF assms(2,1) assms(3) [symmetric], of k]
      by (cases "map_of m k"; cases "map_of m' k") auto
  qed
qed

lemma lookup_sorted:
  assumes "post_ok m"
  shows "or_empty (map_of m k) = sorted_list_of_set {l. has_post m k l}"
proof (cases "map_of m k")
  case (Some v)
  then have "{l. has_post m k l} = set v" "sorted_wrt (<) v"
    using post_ok_lookup [OF assms Some] by (auto simp: has_post_def)
  then show ?thesis using Some by (simp add: or_empty_def sorted_list_of_set.idem_if_sorted_distinct strict_sorted_iff)
qed (simp add: or_empty_def has_post_def)

section \<open>Maps of maps of postings\<close>

definition num_ok :: "(bytes, (u64, postings) ordered_map) ordered_map \<Rightarrow> bool" where
  "num_ok m \<longleftrightarrow> om_ok m \<and> (\<forall>v \<in> ran (map_of m). v \<noteq> [] \<and> post_ok v)"

definition has_num :: "(bytes, (u64, postings) ordered_map) ordered_map \<Rightarrow> bytes \<Rightarrow> u64 \<Rightarrow> u64 \<Rightarrow> bool" where
  "has_num m f k l \<longleftrightarrow> (\<exists>v. map_of m f = Some v \<and> has_post v k l)"

lemma num_ok_nil [simp]: "num_ok []" "\<not> has_num [] f k l"
  by (simp_all add: num_ok_def has_num_def)

lemma num_ok_lookup: "num_ok m \<Longrightarrow> map_of m k = Some v \<Longrightarrow> v \<noteq> [] \<and> post_ok v"
  by (auto simp: num_ok_def ran_def)

lemma num_ok_add:
  assumes "num_ok m"
  shows "num_ok (om_modify f [] (om_modify k [] (insert_sorted l)) m)"
    and "has_num (om_modify f [] (om_modify k [] (insert_sorted l)) m) f' k' l' \<longleftrightarrow> has_num m f' k' l' \<or> (f' = f \<and> k' = k \<and> l' = l)"
proof -
  let ?v = "case map_of m f of None \<Rightarrow> [] | Some v \<Rightarrow> v"
  have v: "post_ok ?v" using num_ok_lookup [OF assms, of f] by (auto split: option.split)
  note ins = post_ok_add [OF v, of k l]
  show "num_ok (om_modify f [] (om_modify k [] (insert_sorted l)) m)"
    using assms ins(1) by (auto simp: num_ok_def map_of_om_modify ran_def split: if_splits)
  show "has_num (om_modify f [] (om_modify k [] (insert_sorted l)) m) f' k' l' \<longleftrightarrow> has_num m f' k' l' \<or> (f' = f \<and> k' = k \<and> l' = l)"
    using ins(2) by (auto simp: has_num_def map_of_om_modify split: option.splits)
qed

lemma post_nonempty: "post_ok v \<Longrightarrow> v \<noteq> [] \<Longrightarrow> \<exists>k l. has_post v k l"
proof -
  assume v: "post_ok v" "v \<noteq> []"
  then obtain k p r where "v = (k, p) # r" by (cases v) auto
  then have "map_of v k = Some p" by simp
  moreover from this have "hd p \<in> set p" using post_ok_lookup [OF v(1)] by auto
  ultimately show ?thesis unfolding has_post_def by blast
qed

lemma num_ok_unique:
  assumes "num_ok m" "num_ok m'" "\<And>f k l. has_num m f k l = has_num m' f k l"
  shows "m = m'"
proof (rule om_ok_unique)
  show "om_ok m" "om_ok m'" using assms(1,2) by (simp_all add: num_ok_def)
  have sub: "map_of a f = Some v \<Longrightarrow> map_of b f = Some v"
    if ok: "num_ok a" "num_ok b" and eq: "\<And>f k l. has_num a f k l = has_num b f k l" for a b and f v
  proof -
    assume v: "map_of a f = Some v"
    then obtain k l where "has_post v k l" using num_ok_lookup [OF ok(1) v] post_nonempty by blast
    then obtain w where w: "map_of b f = Some w" using eq [of f k l] v by (auto simp: has_num_def)
    have "has_post v k l = has_post w k l" for k l using eq [of f k l] v w by (auto simp: has_num_def)
    then have "v = w" using post_ok_unique num_ok_lookup [OF ok(1) v] num_ok_lookup [OF ok(2) w] by blast
    then show ?thesis using w by simp
  qed
  show "map_of m = map_of m'"
  proof
    fix f
    show "map_of m f = map_of m' f"
      using sub [OF assms, of f] sub [OF assms(2,1) assms(3) [symmetric], of f]
      by (cases "map_of m f"; cases "map_of m' f") auto
  qed
qed

section \<open>What an event adds\<close>

definition pseudo_pair :: "string \<Rightarrow> bytes \<Rightarrow> (bytes \<times> bytes) list" where
  "pseudo_pair name value = (if str_trim value \<noteq> [] \<and> length (str_trim value) \<le> MAX_VALUE_LEN then [(ascii name, str_trim value)] else [])"

definition attr_pairs :: "(bytes \<times> bytes) list \<Rightarrow> (bytes \<times> bytes) list" where
  "attr_pairs as = map (\<lambda>(f, v). (f, str_trim v)) (filter (\<lambda>(f, v). \<not> skipped (str_trim v)) as)"

definition exact_pairs :: "episode \<Rightarrow> (bytes \<times> bytes) list" where
  "exact_pairs e = pseudo_pair ''_agent'' (ep_agent_id e) @ pseudo_pair ''_kind'' (label (ep_kind e)) @ attr_pairs (ep_attrs e)"

definition numeric_of :: "(bytes \<Rightarrow> f64_bits option) \<Rightarrow> (bytes \<times> bytes) list \<Rightarrow> (bytes \<times> f64_bits) list" where
  "numeric_of parse_f64 ps = List.map_filter (\<lambda>(f, v). case parse_f64 v of Some n \<Rightarrow> if f64_is_finite n then Some (f, n) else None | None \<Rightarrow> None) ps"

definition attr_ok :: "attr_snapshot \<Rightarrow> bool" where
  "attr_ok s \<longleftrightarrow> post_ok (sn_exact s) \<and> num_ok (sn_numeric s)"

definition exact_keys :: "episode \<Rightarrow> bytes set" where
  "exact_keys e = (\<lambda>(f, v). ikey f v) ` set (exact_pairs e)"

definition numeric_keys :: "(bytes \<Rightarrow> f64_bits option) \<Rightarrow> episode \<Rightarrow> (bytes \<times> u64) set" where
  "numeric_keys pf e = (\<lambda>(f, n). (f, encode_f64 n)) ` set (numeric_of pf (attr_pairs (ep_attrs e)))"

abbreviation add_pairs :: "u64 \<Rightarrow> (bytes \<times> bytes) list \<Rightarrow> (bytes, postings) ordered_map \<Rightarrow> (bytes, postings) ordered_map" where
  "add_pairs lsn ps m \<equiv> foldl (\<lambda>m (f, v). om_modify (ikey f v) [] (insert_sorted lsn) m) m ps"

abbreviation add_numbers :: "u64 \<Rightarrow> (bytes \<times> f64_bits) list \<Rightarrow> (bytes, (u64, postings) ordered_map) ordered_map
    \<Rightarrow> (bytes, (u64, postings) ordered_map) ordered_map" where
  "add_numbers lsn ps m \<equiv> foldl (\<lambda>m (f, n). om_modify f [] (om_modify (encode_f64 n) [] (insert_sorted lsn)) m) m ps"

lemma add_pairs_spec: "post_ok m \<Longrightarrow> post_ok (add_pairs lsn ps m) \<and>
  (has_post (add_pairs lsn ps m) k l \<longleftrightarrow> has_post m k l \<or> (l = lsn \<and> k \<in> (\<lambda>(f, v). ikey f v) ` set ps))"
  by (induction ps arbitrary: m) (auto simp: post_ok_add)

lemma add_numbers_spec: "num_ok m \<Longrightarrow> num_ok (add_numbers lsn ps m) \<and>
  (has_num (add_numbers lsn ps m) f k l \<longleftrightarrow> has_num m f k l \<or> (l = lsn \<and> (f, k) \<in> (\<lambda>(f, n). (f, encode_f64 n)) ` set ps))"
  by (induction ps arbitrary: m) (auto simp: num_ok_add)

lemma add_attrs_fields:
  "foldl (\<lambda>s a. add_attr pf lsn a s) s as = s\<lparr>sn_exact := add_pairs lsn (attr_pairs as) (sn_exact s),
     sn_numeric := add_numbers lsn (numeric_of pf (attr_pairs as)) (sn_numeric s)\<rparr>"
  by (induction as arbitrary: s)
    (auto simp: add_attr_def Let_def attr_pairs_def numeric_of_def List.map_filter_def add_exact_def add_numeric_def split: option.splits)

lemma attr_apply_fields: "attr_apply pf lsn e s = \<lparr>sn_watermark = max (sn_watermark s) lsn, sn_applied = True,
  sn_exact = add_pairs lsn (exact_pairs e) (sn_exact s),
  sn_numeric = add_numbers lsn (numeric_of pf (attr_pairs (ep_attrs e))) (sn_numeric s)\<rparr>"
  by (simp add: attr_apply_def Let_def add_attrs_fields exact_pairs_def pseudo_pair_def add_pseudo_def add_exact_def)

text \<open>The index of a list of records.\<close>

definition index_from :: "(bytes \<Rightarrow> f64_bits option) \<Rightarrow> attr_snapshot \<Rightarrow> (u64 \<times> episode) list \<Rightarrow> attr_snapshot" where
  "index_from pf s rs = foldl (\<lambda>s (lsn, e). attr_apply pf lsn e s) s rs"

lemma attr_apply_spec:
  assumes "attr_ok s"
  shows "attr_ok (attr_apply pf lsn e s)"
    and "has_post (sn_exact (attr_apply pf lsn e s)) k l \<longleftrightarrow> has_post (sn_exact s) k l \<or> (l = lsn \<and> k \<in> exact_keys e)"
    and "has_num (sn_numeric (attr_apply pf lsn e s)) f n l \<longleftrightarrow> has_num (sn_numeric s) f n l \<or> (l = lsn \<and> (f, n) \<in> numeric_keys pf e)"
proof -
  have "post_ok (sn_exact s)" "num_ok (sn_numeric s)" using assms by (simp_all add: attr_ok_def)
  note adds = add_pairs_spec [OF this(1), of lsn "exact_pairs e"] add_numbers_spec [OF this(2), of lsn "numeric_of pf (attr_pairs (ep_attrs e))"]
  show "attr_ok (attr_apply pf lsn e s)" using adds by (simp add: attr_ok_def attr_apply_fields)
  show "has_post (sn_exact (attr_apply pf lsn e s)) k l \<longleftrightarrow> has_post (sn_exact s) k l \<or> (l = lsn \<and> k \<in> exact_keys e)"
    "has_num (sn_numeric (attr_apply pf lsn e s)) f n l \<longleftrightarrow> has_num (sn_numeric s) f n l \<or> (l = lsn \<and> (f, n) \<in> numeric_keys pf e)"
    using adds by (simp_all add: attr_apply_fields exact_keys_def numeric_keys_def)
qed

lemma index_from_Cons: "index_from pf s ((lsn, e) # rs) = index_from pf (attr_apply pf lsn e s) rs"
  by (simp add: index_from_def)

lemma index_from_ok: "attr_ok s \<Longrightarrow> attr_ok (index_from pf s rs)"
  by (induction rs arbitrary: s) (auto simp: index_from_Cons attr_apply_spec index_from_def split: prod.split)

lemma index_from_exact: "attr_ok s \<Longrightarrow> has_post (sn_exact (index_from pf s rs)) k l \<longleftrightarrow>
  has_post (sn_exact s) k l \<or> (\<exists>e. (l, e) \<in> set rs \<and> k \<in> exact_keys e)"
proof (induction rs arbitrary: s)
  case (Cons r rs)
  obtain lsn e where r: "r = (lsn, e)" by fastforce
  show ?case
    unfolding r index_from_Cons Cons.IH [OF attr_apply_spec(1) [OF Cons.prems]] attr_apply_spec(2) [OF Cons.prems] by auto
qed (simp add: index_from_def)

lemma index_from_numeric: "attr_ok s \<Longrightarrow> has_num (sn_numeric (index_from pf s rs)) f k l \<longleftrightarrow>
  has_num (sn_numeric s) f k l \<or> (\<exists>e. (l, e) \<in> set rs \<and> (f, k) \<in> numeric_keys pf e)"
proof (induction rs arbitrary: s)
  case (Cons r rs)
  obtain lsn e where r: "r = (lsn, e)" by fastforce
  show ?case
    unfolding r index_from_Cons Cons.IH [OF attr_apply_spec(1) [OF Cons.prems]] attr_apply_spec(3) [OF Cons.prems] by auto
qed (simp add: index_from_def)

lemma index_from_watermark: "sn_watermark (index_from pf s rs) = Max (insert (sn_watermark s) (fst ` set rs))"
proof (induction rs arbitrary: s)
  case (Cons r rs)
  obtain lsn e where r: "r = (lsn, e)" by fastforce
  have "Max (insert (max (sn_watermark s) lsn) (fst ` set rs)) = Max ({sn_watermark s, lsn} \<union> fst ` set rs)"
    by (cases "rs = []") (simp_all add: max.assoc)
  then show ?case
    unfolding r index_from_Cons Cons.IH by (simp add: attr_apply_fields)
qed (simp add: index_from_def)

lemma index_from_applied: "sn_applied (index_from pf s rs) \<longleftrightarrow> sn_applied s \<or> rs \<noteq> []"
  by (induction rs arbitrary: s) (auto simp: index_from_Cons attr_apply_fields index_from_def split: prod.split)

lemma attr_ok_new [simp]: "attr_ok attr_new"
  by (simp add: attr_ok_def attr_new_def)

text \<open>The index is a function of the set of records it has seen.\<close>

lemma attr_ok_unique:
  assumes "attr_ok s" "attr_ok s'" "sn_watermark s = sn_watermark s'" "sn_applied s = sn_applied s'"
    and "\<And>k l. has_post (sn_exact s) k l = has_post (sn_exact s') k l"
    and "\<And>f k l. has_num (sn_numeric s) f k l = has_num (sn_numeric s') f k l"
  shows "s = s'"
  using post_ok_unique [of "sn_exact s" "sn_exact s'"] num_ok_unique [of "sn_numeric s" "sn_numeric s'"] assms
  by (cases s; cases s') (simp add: attr_ok_def)

lemma index_from_set:
  assumes "attr_ok s" "set rs = set rs'"
  shows "index_from pf s rs = index_from pf s rs'"
proof (rule attr_ok_unique)
  show "sn_applied (index_from pf s rs) = sn_applied (index_from pf s rs')"
    using assms(2) by (simp add: index_from_applied) (metis set_empty)
qed (simp_all add: assms index_from_ok index_from_exact index_from_numeric index_from_watermark)

lemma index_from_append: "index_from pf (index_from pf s rs) rs' = index_from pf s (rs @ rs')"
  by (simp add: index_from_def)

section \<open>Lookups\<close>

lemma attr_lookup_has:
  assumes "attr_ok s"
  shows "attr_lookup f v s = sorted_list_of_set {l. has_post (sn_exact s) (ikey f v) l}"
  using lookup_sorted [of "sn_exact s" "ikey f v"] assms by (simp add: attr_lookup_def attr_ok_def)

text \<open>Separators delimit the field as long as fields do not contain them.\<close>

lemma ikey_inj: "SEP \<notin> set f \<Longrightarrow> SEP \<notin> set f' \<Longrightarrow> ikey f v = ikey f' v' \<longleftrightarrow> f = f' \<and> v = v'"
proof -
  have split: "takeWhile (\<lambda>b. b \<noteq> SEP) (ikey g w) = g \<and> dropWhile (\<lambda>b. b \<noteq> SEP) (ikey g w) = SEP # w" if "SEP \<notin> set g" for g w
    using that by (induction g) (auto simp: ikey_def)
  assume "SEP \<notin> set f" "SEP \<notin> set f'"
  then show ?thesis using split [of f v] split [of f' v'] by (metis list.inject)
qed

text \<open>The bounds of a range query on \<open>f64\<close> values, and on their keys.\<close>

fun within :: "f64_bits bound \<Rightarrow> f64_bits bound \<Rightarrow> f64_bits \<Rightarrow> bool" where
  "within lo hi x \<longleftrightarrow> (case lo of Included a \<Rightarrow> f64_le a x | Excluded a \<Rightarrow> f64_le a x \<and> \<not> f64_eq a x | Unbounded \<Rightarrow> True) \<and>
     (case hi of Included b \<Rightarrow> f64_le x b | Excluded b \<Rightarrow> f64_le x b \<and> \<not> f64_eq x b | Unbounded \<Rightarrow> True)"

fun bound_not_nan :: "f64_bits bound \<Rightarrow> bool" where
  "bound_not_nan (Included a) \<longleftrightarrow> \<not> f64_is_nan a"
| "bound_not_nan (Excluded a) \<longleftrightarrow> \<not> f64_is_nan a"
| "bound_not_nan Unbounded \<longleftrightarrow> True"

lemma within_keys:
  assumes "bound_not_nan lo" "bound_not_nan hi" "\<not> f64_is_nan x"
  shows "above_bound (bound_map encode_f64 lo) (encode_f64 x) \<and> below_bound (bound_map encode_f64 hi) (encode_f64 x) \<longleftrightarrow> within lo hi x"
  using assms by (cases lo; cases hi) (auto simp: f64_le_def f64_eq_def encode_f64_mono encode_f64_less encode_f64_eq)

lemma empty_range_no_panic: "\<not> empty_range lo hi \<Longrightarrow> \<not> range_panics lo hi"
  by (cases lo; cases hi) auto

lemma empty_range_empty: "empty_range lo hi \<Longrightarrow> \<not> (above_bound lo k \<and> below_bound hi k)"
  by (cases lo; cases hi) auto

lemma finite_has_post: "finite {l :: u64. P l}"
  by simp

lemma distinct_remdups_adj: "sorted xs \<Longrightarrow> distinct (remdups_adj xs)"
  by (induction xs rule: remdups_adj.induct) (auto simp: less_le)

lemma remdups_sort: "remdups_adj (sort (xs :: u64 list)) = sorted_list_of_set (set xs)"
proof -
  have "sorted (remdups_adj (sort xs))" "distinct (remdups_adj (sort xs))"
    by (simp_all add: sorted_remdups_adj distinct_remdups_adj)
  then show ?thesis
    using sorted_list_of_set.idem_if_sorted_distinct [of "remdups_adj (sort xs)"] by simp
qed

lemma lookup_range_has:
  assumes "attr_ok s"
  shows "lookup_range f lo hi s = Some (sorted_list_of_set {l. \<exists>k. has_num (sn_numeric s) f k l \<and>
    above_bound (bound_map encode_f64 lo) k \<and> below_bound (bound_map encode_f64 hi) k})"
proof (cases "map_of (sn_numeric s) f")
  case None
  then show ?thesis by (simp add: lookup_range_def has_num_def)
next
  case (Some m)
  let ?lo = "bound_map encode_f64 lo" and ?hi = "bound_map encode_f64 hi"
  have m: "post_ok m" using num_ok_lookup [of "sn_numeric s" f m] Some assms by (simp add: attr_ok_def)
  then have mem: "(k, v) \<in> set m \<longleftrightarrow> map_of m k = Some v" for k v
    by (simp add: post_ok_def om_ok_distinct)
  have "set (concat (map snd (filter (\<lambda>(k, v). above_bound ?lo k \<and> below_bound ?hi k) m))) =
    {l. \<exists>k. has_num (sn_numeric s) f k l \<and> above_bound ?lo k \<and> below_bound ?hi k}"
    using Some mem by (fastforce simp: has_num_def has_post_def)
  then have entries: "remdups_adj (sort (concat (map snd (filter (\<lambda>(k, v). above_bound ?lo k \<and> below_bound ?hi k) m)))) =
    sorted_list_of_set {l. \<exists>k. has_num (sn_numeric s) f k l \<and> above_bound ?lo k \<and> below_bound ?hi k}"
    by (simp only: remdups_sort)
  show ?thesis
  proof (cases "empty_range ?lo ?hi")
    case True
    then have none: "{l. \<exists>k. has_num (sn_numeric s) f k l \<and> above_bound ?lo k \<and> below_bound ?hi k} = {}"
      using empty_range_empty by blast
    show ?thesis unfolding none using True Some by (simp add: lookup_range_def Let_def)
  next
    case False
    then show ?thesis
      using Some empty_range_no_panic entries by (simp add: lookup_range_def Let_def btree_range_def)
  qed
qed

end
