(* ===== verification/Attr_Checkpoint_Correct.thy ===== *)
theory Attr_Checkpoint_Correct
  imports Attr_Checkpoint Attr_Index_Correct Column_Codec_Behaviour View_Registry_Life
begin

text \<open>
  The checkpoint expands to the snapshot it was made of, a crash while it is written leaves the old one or the new
  one, and opening the index over a longer log replays exactly what is missing above its watermark.
\<close>

section \<open>Packing and unpacking\<close>

lemma escolher_decodes:
  assumes "escolher_forma B v = Some blob" "length v \<le> MAX_VALORES"
  shows "decode_column blob = Some v"
proof -
  obtain c where "column_encode v = Some c" "column_decode False c = Some (Some v)"
    using column_decode_encode [OF assms(2), of False] by blast
  then show ?thesis using assms(1) by (auto simp: escolher_forma_def decode_column_def split: if_splits)
qed

definition columns_fit :: "('k, postings) ordered_map \<Rightarrow> bool" where
  "columns_fit m \<longleftrightarrow> (\<forall>v \<in> ran (map_of m). length v \<le> MAX_VALORES)"

lemma unpack_into_inserts: "(\<And>k b. (k, b) \<in> set ps \<Longrightarrow> decode_column b = Some (f k)) \<Longrightarrow> om_ok m \<Longrightarrow>
  \<exists>r. unpack_into ps m = Some r \<and> om_ok r \<and> map_of r = (\<lambda>k. if k \<in> fst ` set ps then Some (f k) else map_of m k)"
proof (induction ps arbitrary: m)
  case (Cons p ps)
  obtain k b where p: "p = (k, b)" by fastforce
  have b: "decode_column b = Some (f k)" using Cons.prems(1) p by simp
  obtain r where "unpack_into ps (om_insert k (f k) m) = Some r" "om_ok r"
    "map_of r = (\<lambda>x. if x \<in> fst ` set ps then Some (f x) else map_of (om_insert k (f k) m) x)"
    using Cons.IH [of "om_insert k (f k) m"] Cons.prems by auto
  then show ?case using b p by (auto simp: map_of_om_insert fun_eq_iff)
qed auto

lemma map_of_plain: "distinct (map fst m) \<Longrightarrow> map_of (plain_part B m) k = (case map_of m k of None \<Rightarrow> None
  | Some v \<Rightarrow> if escolher_forma B v = None then Some v else None)"
proof (induction m)
  case (Cons p m)
  obtain a v where p: "p = (a, v)" by fastforce
  have "map_of m a = None" using Cons.prems p by (simp add: map_of_eq_None_iff)
  then show ?case using Cons p by (cases "k = a") (auto simp: plain_part_def)
qed (simp add: plain_part_def)

lemma packed_member: "(k, b) \<in> set (packed_part B m) \<longleftrightarrow> (\<exists>v. (k, v) \<in> set m \<and> escolher_forma B v = Some b)"
  by (force simp: packed_part_def List.map_filter_def)

lemma om_ok_plain: "om_ok m \<Longrightarrow> om_ok (plain_part B m)"
  by (simp add: plain_part_def om_ok_filter)

lemma unpack_parts:
  assumes "om_ok m" "columns_fit m"
  shows "unpack_into (packed_part B m) (plain_part B m) = Some m"
proof -
  have dist: "distinct (map fst m)" using assms(1) by (rule om_ok_distinct)
  then have mem: "(k, v) \<in> set m \<longleftrightarrow> map_of m k = Some v" for k v by simp
  have dec: "decode_column b = Some (the (map_of m k))" if "(k, b) \<in> set (packed_part B m)" for k b
    using that assms(2) escolher_decodes by (auto simp: packed_member mem columns_fit_def ran_def)
  obtain r where r: "unpack_into (packed_part B m) (plain_part B m) = Some r" "om_ok r"
    "map_of r = (\<lambda>k. if k \<in> fst ` set (packed_part B m) then Some (the (map_of m k)) else map_of (plain_part B m) k)"
    using unpack_into_inserts [of "packed_part B m" "\<lambda>k. the (map_of m k)", OF dec om_ok_plain [OF assms(1)]] by blast
  have packed: "k \<in> fst ` set (packed_part B m) \<longleftrightarrow> (\<exists>v. map_of m k = Some v \<and> escolher_forma B v \<noteq> None)" for k
  proof -
    have "k \<in> fst ` set (packed_part B m) \<longleftrightarrow> (\<exists>b. (k, b) \<in> set (packed_part B m))" by force
    then show ?thesis by (auto simp: packed_member mem)
  qed
  have "map_of r k = map_of m k" for k
    using map_of_plain [OF dist, of B k] by (simp add: r(3) packed split: option.splits)
  then have "map_of r = map_of m" by blast
  then have "r = m" by (rule om_ok_unique [OF r(2) assms(1)])
  then show ?thesis using r(1) by simp
qed

text \<open>The numeric maps, field by field.\<close>

lemma parts_keys: "distinct (map fst m) \<Longrightarrow> map_of (parts_of part m) k
  = (case map_of m k of None \<Rightarrow> None | Some v \<Rightarrow> if part v = [] then None else Some (part v))"
proof (induction m)
  case (Cons p m)
  obtain a v where p: "p = (a, v)" by fastforce
  have "map_of m a = None" using Cons.prems p by (simp add: map_of_eq_None_iff)
  then show ?case using Cons p by (cases "k = a") (auto simp: parts_of_def)
qed (simp add: parts_of_def)

lemma om_ok_parts_of: "om_ok m \<Longrightarrow> om_ok (parts_of part m)"
  unfolding parts_of_def by (rule om_ok_filter) (simp add: om_ok_def comp_def split_def)

lemma unpack_numeric_inserts:
  "(\<And>k b. (k, b) \<in> set ps \<Longrightarrow> unpack_into b (or_empty (map_of m k)) = Some (f k)) \<Longrightarrow> distinct (map fst ps) \<Longrightarrow> om_ok m \<Longrightarrow>
  \<exists>r. unpack_numeric ps m = Some r \<and> om_ok r \<and> map_of r = (\<lambda>k. if k \<in> fst ` set ps then Some (f k) else map_of m k)"
proof (induction ps arbitrary: m)
  case (Cons p ps)
  obtain k b where p: "p = (k, b)" by fastforce
  have b: "unpack_into b (or_empty (map_of m k)) = Some (f k)" using Cons.prems(1) p by simp
  have "\<exists>r. unpack_numeric ps (om_insert k (f k) m) = Some r \<and> om_ok r
    \<and> map_of r = (\<lambda>x. if x \<in> fst ` set ps then Some (f x) else map_of (om_insert k (f k) m) x)"
  proof (rule Cons.IH)
    fix k' b' assume "(k', b') \<in> set ps"
    moreover from this have "k' \<noteq> k" using Cons.prems(2) p by force
    ultimately show "unpack_into b' (or_empty (map_of (om_insert k (f k) m) k')) = Some (f k')"
      using Cons.prems(1) by (simp add: map_of_om_insert)
  qed (use Cons.prems p in auto)
  then show ?case using b p by (auto simp: map_of_om_insert fun_eq_iff)
qed auto

definition numeric_fit :: "(bytes, (u64, postings) ordered_map) ordered_map \<Rightarrow> bool" where
  "numeric_fit m \<longleftrightarrow> (\<forall>v \<in> ran (map_of m). columns_fit v)"

lemma parts_nonempty: "m \<noteq> [] \<Longrightarrow> packed_part B m = [] \<Longrightarrow> plain_part B m = m"
  by (auto simp: packed_part_def plain_part_def List.map_filter_def filter_empty_conv filter_id_conv)

lemma unpack_numeric_parts:
  assumes "num_ok m" "numeric_fit m"
  shows "unpack_numeric (parts_of (packed_part B) m) (parts_of (plain_part B) m) = Some m"
proof -
  have ok: "om_ok m" and dist: "distinct (map fst m)" using assms(1) by (simp_all add: num_ok_def om_ok_distinct)
  have okp: "om_ok (parts_of (packed_part B) m)" "om_ok (parts_of (plain_part B) m)" by (simp_all add: om_ok_parts_of ok)
  have field_ok: "unpack_into (packed_part B v) (plain_part B v) = Some v \<and> v \<noteq> []" if "map_of m k = Some v" for k v
    using that num_ok_lookup [OF assms(1) that] assms(2)
    by (auto intro!: unpack_parts simp: post_ok_def numeric_fit_def ran_def)
  have plain: "or_empty (map_of (parts_of (plain_part B) m) k) = plain_part B v" if "map_of m k = Some v" for k v
    using that by (simp add: parts_keys [OF dist] or_empty_def)
  have step: "unpack_into b (or_empty (map_of (parts_of (plain_part B) m) k)) = Some (the (map_of m k))"
    if kb: "(k, b) \<in> set (parts_of (packed_part B) m)" for k b
  proof -
    obtain v where v: "map_of m k = Some v" "b = packed_part B v"
      using map_of_is_SomeI [OF om_ok_distinct [OF okp(1)] kb] by (auto simp: parts_keys [OF dist] split: option.splits if_splits)
    then show ?thesis using field_ok [OF v(1)] plain [OF v(1)] by simp
  qed
  obtain r where r: "unpack_numeric (parts_of (packed_part B) m) (parts_of (plain_part B) m) = Some r" "om_ok r"
    "map_of r = (\<lambda>k. if k \<in> fst ` set (parts_of (packed_part B) m) then Some (the (map_of m k)) else map_of (parts_of (plain_part B) m) k)"
    using unpack_numeric_inserts [of "parts_of (packed_part B) m" _ "\<lambda>k. the (map_of m k)", OF step om_ok_distinct [OF okp(1)] okp(2)] by blast
  have keys: "k \<in> fst ` set (parts_of (packed_part B) m) \<longleftrightarrow> (\<exists>v. map_of m k = Some v \<and> packed_part B v \<noteq> [])" for k
  proof -
    have "k \<in> fst ` set (parts_of (packed_part B) m) \<longleftrightarrow> map_of (parts_of (packed_part B) m) k \<noteq> None"
      by (simp add: map_of_eq_None_iff)
    then show ?thesis by (simp add: parts_keys [OF dist] split: option.splits)
  qed
  have "map_of r k = map_of m k" for k
  proof (cases "map_of m k")
    case None
    then show ?thesis by (simp add: r(3) keys parts_keys [OF dist])
  next
    case (Some v)
    then show ?thesis using parts_nonempty [of v B] field_ok [OF Some] by (auto simp: r(3) keys parts_keys [OF dist])
  qed
  then have "map_of r = map_of m" by blast
  then have "r = m" by (rule om_ok_unique [OF r(2) ok])
  then show ?thesis using r(1) by simp
qed

definition snapshot_fits :: "attr_snapshot \<Rightarrow> bool" where
  "snapshot_fits s \<longleftrightarrow> columns_fit (sn_exact s) \<and> numeric_fit (sn_numeric s)"

lemma expand_compress: "attr_ok s \<Longrightarrow> snapshot_fits s \<Longrightarrow> expand (compress B s) = Some s"
  by (simp add: expand_def compress_def attr_ok_def snapshot_fits_def post_ok_def unpack_parts unpack_numeric_parts)

end
