(* ===== verification/Attr_Behaviour.thy ===== *)
theory Attr_Behaviour
  imports Attr_Checkpoint_Correct
begin

text \<open>
  What the attribute index answers, that its checkpoint survives crashes, and that a start over a longer log leaves
  it as a replay of the whole log would.
\<close>

section \<open>Exact and range lookups\<close>

text \<open>The index of a list of records, from nothing.\<close>

definition attr_index_of :: "(bytes \<Rightarrow> f64_bits option) \<Rightarrow> (u64 \<times> episode) list \<Rightarrow> attr_snapshot" where
  "attr_index_of pf rs = index_from pf attr_new rs"

lemma attr_index_of_ok [simp]: "attr_ok (attr_index_of pf rs)"
  by (simp add: attr_index_of_def index_from_ok)

lemma attr_new_empty [simp]: "\<not> has_post (sn_exact attr_new) k l" "\<not> has_num (sn_numeric attr_new) f n l"
    "sn_watermark attr_new = 0" "\<not> sn_applied attr_new"
  by (simp_all add: attr_new_def)





lemma numeric_of_finite: "(f, n) \<in> set (numeric_of pf ps) \<Longrightarrow> \<not> f64_is_nan n"
  by (auto simp: numeric_of_def List.map_filter_def f64_is_finite_def f64_is_nan_def split: option.splits if_splits)

text \<open>C19. A range query never panics, also when its bounds are crossed, and answers exactly the records with an indexed
numeric value of the field between the bounds, compared as IEEE doubles, so that \<open>-0\<close> and \<open>+0\<close> are one value.\<close>

theorem attr_range_exact:
  assumes "bound_not_nan lo" and "bound_not_nan hi"
  shows "lookup_range f lo hi (foldl (\<lambda>s (lsn, e). attr_apply pf lsn e s) attr_new rs)
    = Some (sorted_list_of_set {l. \<exists>e n. (l, e) \<in> set rs \<and> (f, n) \<in> set (numeric_of pf (attr_pairs (ep_attrs e))) \<and> within lo hi n})"
proof -
  let ?in = "\<lambda>k. above_bound (bound_map encode_f64 lo) k \<and> below_bound (bound_map encode_f64 hi) k"
  have "lookup_range f lo hi (attr_index_of pf rs) = Some (sorted_list_of_set {l. \<exists>k. (\<exists>e. (l, e) \<in> set rs \<and> (f, k) \<in> numeric_keys pf e) \<and> ?in k})"
    using lookup_range_has [of "attr_index_of pf rs" f lo hi]
    by (simp add: attr_index_of_def index_from_ok index_from_numeric)
  also have "{l. \<exists>k. (\<exists>e. (l, e) \<in> set rs \<and> (f, k) \<in> numeric_keys pf e) \<and> ?in k}
    = {l. \<exists>e n. (l, e) \<in> set rs \<and> (f, n) \<in> set (numeric_of pf (attr_pairs (ep_attrs e))) \<and> within lo hi n}"
    using within_keys [OF assms numeric_of_finite, of f _ pf] by (fastforce simp: numeric_keys_def)
  finally show ?thesis by (simp add: attr_index_of_def index_from_def)
qed

text \<open>The order of application and repetitions do not matter: two histories with the same records give the same index,
down to its keys, postings, watermark and flag.\<close>

theorem attr_order_irrelevant:
  assumes "set rs = set rs'"
  shows "foldl (\<lambda>s (lsn, e). attr_apply pf lsn e s) attr_new rs = foldl (\<lambda>s (lsn, e). attr_apply pf lsn e s) attr_new rs'"
  using index_from_set [OF attr_ok_new assms] by (simp add: index_from_def)

section \<open>The checkpoint\<close>

definition bincode_ok :: "bincode \<Rightarrow> bool" where
  "bincode_ok B \<longleftrightarrow> (\<forall>c. \<exists>b. bc_encode B c = Some b \<and> bc_decode B b = Some c)"

lemma snapshot_files [simp]: "SNAPSHOT_TMP \<noteq> SNAPSHOT_FILE" "SNAPSHOT_FILE \<noteq> SNAPSHOT_TMP"
  by (simp_all add: SNAPSHOT_TMP_def SNAPSHOT_FILE_def ascii_def)

lemma read_attr_file: "read_snapshot B (attr_file corpo) = Option.bind (bc_decode B corpo) expand"
proof -
  have m: "length MAGIC_V2 = 4" "length (to_le_bytes FORMAT_V2 :: bytes) = 2" by (simp_all add: MAGIC_V2_def ascii_def length_to_le_bytes)
  have "field 4 2 (attr_file corpo) = to_le_bytes FORMAT_V2" "drop 6 (attr_file corpo) = corpo"
    using m by (simp_all add: attr_file_def field_def)
  then show ?thesis using m by (simp add: read_snapshot_def starts_with_def from_le_to_le) (simp add: attr_file_def)
qed

definition saved :: "bincode \<Rightarrow> attr_snapshot \<Rightarrow> bytes" where
  "saved B s = attr_file (the (bc_encode B (compress B s)))"

lemma read_saved:
  assumes "bincode_ok B" "attr_ok s" "snapshot_fits s"
  shows "read_snapshot B (saved B s) = Some s"
proof -
  obtain b where "bc_encode B (compress B s) = Some b" "bc_decode B b = Some (compress B s)"
    using assms(1) by (auto simp: bincode_ok_def)
  then show ?thesis using expand_compress [OF assms(2,3)] by (simp add: saved_def read_attr_file)
qed

lemma save_writes:
  assumes "bincode_ok B"
  shows "\<exists>e. attr_save B s d = Inr e \<and> map_of e SNAPSHOT_FILE = Some (saved B s)"
proof -
  obtain b where "bc_encode B (compress B s) = Some b" using assms by (auto simp: bincode_ok_def)
  then show ?thesis by (simp add: attr_save_def save_ops_def run_ops_def update_conv' delete_conv' saved_def)
qed

lemma attr_open_cong: "map_of e SNAPSHOT_FILE = map_of d SNAPSHOT_FILE \<Longrightarrow> attr_open B e = attr_open B d"
  by (simp add: attr_open_def)

text \<open>An index of no more records than a column may have values can be read back.\<close>

lemma fits_postings:
  assumes "post_ok m" and "\<And>k l. has_post m k l \<Longrightarrow> l \<in> fst ` set rs" and "length rs \<le> MAX_VALORES"
  shows "columns_fit m"
  unfolding columns_fit_def
proof
  fix v assume "v \<in> ran (map_of m)"
  then obtain k where k: "map_of m k = Some v" by (auto simp: ran_def)
  then have "set v \<subseteq> fst ` set rs" using assms(2) by (auto simp: has_post_def)
  then have "card (set v) \<le> card (fst ` set rs)" by (intro card_mono) simp_all
  moreover have "length v = card (set v)"
    using post_ok_lookup [OF assms(1) k] by (simp add: strict_sorted_iff distinct_card)
  ultimately show "length v \<le> MAX_VALORES"
    using card_image_le [of "set rs" fst] card_length [of rs] assms(3) by simp
qed

lemma index_fits:
  assumes "length rs \<le> MAX_VALORES"
  shows "snapshot_fits (attr_index_of pf rs)"
proof -
  let ?s = "attr_index_of pf rs"
  have ok: "post_ok (sn_exact ?s)" "num_ok (sn_numeric ?s)" using attr_index_of_ok [of pf rs] by (simp_all add: attr_ok_def)
  have "l \<in> fst ` set rs" if "has_post (sn_exact ?s) k l" for k l
    using that by (force simp: attr_index_of_def index_from_exact)
  moreover have "columns_fit v" if v: "map_of (sn_numeric ?s) f = Some v" for f v
  proof (rule fits_postings [OF _ _ assms])
    show "post_ok v" using num_ok_lookup [OF ok(2) v] by simp
    fix k l assume "has_post v k l"
    then have "has_num (sn_numeric ?s) f k l" using v by (simp add: has_num_def)
    then show "l \<in> fst ` set rs" by (force simp: attr_index_of_def index_from_numeric)
  qed
  ultimately show ?thesis
    using fits_postings [OF ok(1) _ assms] by (auto simp: snapshot_fits_def numeric_fit_def ran_def)
qed

text \<open>C20. The checkpoint survives a crash: whatever the interruption of a save, in the middle of the write included, the
index that is opened next is the one of the last checkpoint or the one that was being saved, and after a save that
ended it is that one, with every posting that had been compressed.\<close>

theorem attr_checkpoint_survives:
  assumes "bincode_ok B" and "s = foldl (\<lambda>s (lsn, e). attr_apply pf lsn e s) attr_new rs" and "length rs \<le> MAX_VALORES"
    and "bc_encode B (compress B s) = Some corpo"
  shows "(\<forall>e. crash d (save_ops corpo) e \<longrightarrow> attr_open B e = attr_open B d \<or> attr_open B e = s)
    \<and> (\<exists>e. attr_save B s d = Inr e \<and> attr_open B e = s)"
proof -
  have s: "attr_ok s" using attr_index_of_ok assms(2) by (simp add: attr_index_of_def index_from_def)
  have fits: "snapshot_fits s" using index_fits [OF assms(3), of pf] assms(2) by (simp add: attr_index_of_def index_from_def)
  have corpo: "attr_file corpo = saved B s" by (simp add: saved_def assms(4))
  have new: "attr_open B e = s" if "map_of e SNAPSHOT_FILE = Some (saved B s)" for e
    using that read_saved [OF assms(1) s fits] by (simp add: attr_open_def)
  have "map_of e SNAPSHOT_FILE = map_of d SNAPSHOT_FILE \<or> map_of e SNAPSHOT_FILE = Some (saved B s)"
    if "crash d (save_ops corpo) e" for e
    using that unfolding save_ops_def corpo
    by (elim crash_writeE crash_renameE crash_nilE) (auto simp: update_conv' delete_conv' split: if_splits)
  then have "attr_open B e = attr_open B d \<or> attr_open B e = s" if "crash d (save_ops corpo) e" for e
    using that new attr_open_cong [of e d B] by blast
  then show ?thesis using save_writes [OF assms(1), of s d] new by auto
qed

section \<open>The start of the engine\<close>

lemma fold_index_record: "foldl (\<lambda>st r. index_record pf is_hvm r st) (s, b) recs
    = (index_from pf s (filter (\<lambda>(l, e). \<not> is_hvm e) recs), b \<or> recs \<noteq> [])"
proof (induction recs arbitrary: s b)
  case (Cons r recs)
  obtain l e where "r = (l, e)" by fastforce
  then show ?case using Cons by (simp add: index_record_def index_from_def)
qed (simp add: index_from_def)

text \<open>A start replays the records from the watermark of what it opened, that of the watermark included.\<close>

lemma boot_replays:
  assumes log: "episode_log A holds admissible capacity" and h: "holds l eps" and cap: "length eps + 1 < capacity" and B: "bincode_ok B"
    and s: "s = (if privacy then attr_new else attr_open B d)"
    and w: "(if attr_is_empty s then 0 else sn_watermark s) = word_of_nat n" "n \<le> length eps"
  shows "\<exists>e. boot_attr A B pf is_hvm privacy False l d
    = Some (Inr (index_from pf s (filter (\<lambda>(l, e). \<not> is_hvm e) (map (\<lambda>i. (word_of_nat i, eps ! i)) [n..<length eps])), e))"
proof -
  let ?recs = "map (\<lambda>i. (word_of_nat i :: u64, eps ! i)) [n..<length eps]"
  have hd: "unat (la_head A l + 1) = length eps + 1"
    using episode_log.unat_head [OF log h] cap episode_log.capacity [OF log] by (simp add: unat_add_u64)
  have "replay_windows A l (\<lambda>cur. cur \<le> la_head A l) (la_head A l + 1) (index_record pf is_hvm) (word_of_nat n) (s, False)
    = Some (Inr (), foldl (\<lambda>st r. index_record pf is_hvm r st) (s, False) ?recs)"
    by (rule episode_log.windows_read [OF log h _ _ w(2)])
      (use episode_log.unat_head [OF log h] hd episode_log.below_head [OF log h] in \<open>simp_all add: word_le_nat_alt less_imp_le_nat\<close>)
  moreover obtain e where "attr_save B (index_from pf s (filter (\<lambda>(l, e). \<not> is_hvm e) ?recs)) d = Inr e"
    using save_writes [OF B] by blast
  ultimately show ?thesis
    by (auto simp: boot_attr_def Let_def w(1) fold_index_record simp flip: s)
qed

lemma events_index:
  assumes "n < 2 ^ 64"
  shows "unat (sn_watermark (attr_index_of pf (events is_hvm eps n))) \<le> n"
proof -
  have "Max (insert 0 (fst ` set (events is_hvm eps n))) \<le> word_of_nat n"
    using assms by (subst Max_le_iff) (auto simp: events_def word_le_nat_alt unsigned_of_nat take_bit_nat_eq_self)
  then show ?thesis
    using assms by (simp add: attr_index_of_def index_from_watermark word_le_nat_alt unsigned_of_nat take_bit_nat_eq_self)
qed

lemma boot_index_whole:
  assumes "episode_log A holds admissible capacity" and "holds l eps" and "length eps + 1 < capacity" and "bincode_ok B"
    and "attr_open B d = attr_index_of pf (events is_hvm eps n)" and "n \<le> length eps"
  shows "\<exists>e. boot_attr A B pf is_hvm privacy False l d = Some (Inr (attr_index_of pf (events is_hvm eps (length eps)), e))"
proof -
  let ?m = "if privacy then 0 else n"
  let ?s = "attr_index_of pf (events is_hvm eps ?m)"
  let ?start = "if attr_is_empty ?s then 0 else sn_watermark ?s"
  have s: "?s = (if privacy then attr_new else attr_open B d)"
    using assms(5) by (simp add: attr_index_of_def index_from_def)
  have small: "length eps < 2 ^ 64" by (rule episode_log.small [OF assms(1,2)])
  have w: "unat ?start \<le> ?m" using events_index [of ?m pf is_hvm eps] small assms(6) by auto
  have "set [0..<?m] \<union> set [unat ?start..<length eps] = set [0..<length eps]" using w assms(6) by auto
  then have "set (events is_hvm eps ?m @ filter (\<lambda>(l, e). \<not> is_hvm e) (map (\<lambda>i. (word_of_nat i, eps ! i)) [unat ?start..<length eps]))
      = set (events is_hvm eps (length eps))"
    by (simp only: events_def flip: filter_append map_append) (simp only: set_filter set_map set_append)
  then have whole: "index_from pf ?s (filter (\<lambda>(l, e). \<not> is_hvm e) (map (\<lambda>i. (word_of_nat i, eps ! i)) [unat ?start..<length eps]))
      = attr_index_of pf (events is_hvm eps (length eps))"
    unfolding attr_index_of_def index_from_append by (intro index_from_set attr_ok_new)
  have "?start = word_of_nat (unat ?start)" by simp
  moreover have "unat ?start \<le> length eps" using w assms(6) by (auto split: if_splits)
  ultimately show ?thesis
    using boot_replays [OF assms(1-4) s, of "unat ?start" pf is_hvm] unfolding whole by blast
qed

text \<open>C21. A start always completes, whatever the length of the log, and leaves the index of the whole log: from a
checkpoint that covers any prefix of it, from none, from one that cannot be read, and when the index is rebuilt for
privacy.\<close>

theorem attr_boot_completes:
  assumes "episode_log A holds admissible capacity" and "holds l eps" and "length eps + 1 < capacity" and "bincode_ok B"
    and "attr_open B d = foldl (\<lambda>s (lsn, e). attr_apply pf lsn e s) attr_new (events is_hvm eps n)" and "n \<le> length eps"
  shows "\<exists>e. boot_attr A B pf is_hvm privacy False l d
    = Some (Inr (foldl (\<lambda>s (lsn, e). attr_apply pf lsn e s) attr_new (events is_hvm eps (length eps)), e))"
  using boot_index_whole [OF assms(1-4), of d pf is_hvm n privacy] assms(5,6) by (simp add: attr_index_of_def index_from_def)

section \<open>What the index gets wrong\<close>

text \<open>C38. A tail that was not replayed is lost for good: after a start with \<open>HERACLITUS_SKIP_VIEW_REPLAY\<close> over a checkpoint
that covers only a prefix, the first live event raises the watermark to its own LSN; once that is saved, every normal
start takes the index to be complete, and the events in between are in no lookup, although the log still holds them.\<close>

theorem skipped_tail_never_indexed:
  assumes log: "episode_log A holds admissible capacity" and h: "holds l eps" and cap: "length eps + 2 < capacity" and B: "bincode_ok B"
    and old: "attr_open B d = foldl (\<lambda>s (lsn, e). attr_apply pf lsn e s) attr_new (events is_hvm eps n)" and n: "n \<le> length eps"
    and skip: "boot_attr A B pf is_hvm False True l d = Some (Inr (s0, d0))"
    and ep: "admissible ep" "\<not> is_hvm ep" "exact_pairs ep \<noteq> []" and app: "la_append A l (la_head A l) ep = (Inr k, l')"
    and s1: "s1 = attr_apply pf (la_head A l) ep s0" and len: "length eps < MAX_VALORES" and sv: "attr_save B s1 d0 = Inr d1"
  shows "\<exists>e. boot_attr A B pf is_hvm False False l' d1
    = Some (Inr (foldl (\<lambda>s (lsn, e). attr_apply pf lsn e s) attr_new (events is_hvm eps n @ [(word_of_nat (length eps), ep)]), e))"
proof -
  let ?N = "word_of_nat (length eps) :: u64" and ?new = "[(word_of_nat (length eps), ep)]"
  have small: "length eps < 2 ^ 64" and hd: "la_head A l = ?N" and h': "holds l' (eps @ [ep])"
    using episode_log.small [OF log h] episode_log.head_law [OF log h] episode_log.append_law [OF log h ep(1) _ app] cap by simp_all
  have s: "s1 = attr_index_of pf (events is_hvm eps n @ ?new)"
    using skip old by (simp add: boot_attr_def s1 hd attr_index_of_def index_from_def)
  have "length (events is_hvm eps n) \<le> n" unfolding events_def by (rule order_trans [OF length_filter_le]) simp
  then have fits: "snapshot_fits s1" unfolding s using len n by (intro index_fits) simp
  have d1: "attr_open B d1 = s1"
    using save_writes [OF B, of s1 d0] sv read_saved [OF B _ fits] s by (auto simp: attr_open_def)
  have "sn_exact s1 \<noteq> []" unfolding s1 attr_apply_fields using ep(3) by (cases "exact_pairs ep" rule: rev_cases) (auto split: prod.split)
  then have ne: "\<not> attr_is_empty s1" by (simp add: attr_is_empty_def)
  have "unat (sn_watermark (attr_index_of pf (events is_hvm eps n))) \<le> length eps"
    using events_index [of n pf is_hvm eps] n small by simp
  then have "sn_watermark s1 = ?N"
    using small by (simp add: s attr_index_of_def index_from_append [symmetric] index_from_watermark max_def word_le_nat_alt
      unsigned_of_nat take_bit_nat_eq_self)
  then have "\<exists>e. boot_attr A B pf is_hvm False False l' d1
    = Some (Inr (index_from pf s1 (filter (\<lambda>(l, e). \<not> is_hvm e) (map (\<lambda>i. (word_of_nat i, (eps @ [ep]) ! i)) [length eps..<length (eps @ [ep])])), e))"
    by (intro boot_replays [OF log h' _ B]) (use cap d1 ne in simp_all)
  moreover have "index_from pf s1 ?new = attr_index_of pf (events is_hvm eps n @ ?new)"
    unfolding s attr_index_of_def index_from_append by (rule index_from_set) simp_all
  ultimately show ?thesis using ep(2) by (simp add: attr_index_of_def index_from_def)
qed

text \<open>The agent of a lookup can be forged: an attribute named \<open>_agent\<close> is indexed under the same key as the
pseudo-attribute, so any writer makes its event appear among those of another agent.\<close>

theorem agent_can_be_forged:
  assumes "s = foldl (\<lambda>s (lsn, e). attr_apply pf lsn e s) attr_new rs" and "(ascii ''_agent'', v) \<in> set (ep_attrs e)" and "\<not> skipped (str_trim v)" and "ep_agent_id e \<noteq> str_trim v"
  shows "lsn \<in> set (attr_lookup (ascii ''_agent'') (str_trim v) (attr_apply pf lsn e s))"
proof -
  have "(ascii ''_agent'', str_trim v) \<in> set (exact_pairs e)"
    using assms(2,3) by (force simp: exact_pairs_def attr_pairs_def)
  then have "ikey (ascii ''_agent'') (str_trim v) \<in> exact_keys e" by (force simp: exact_keys_def)
  moreover have "attr_ok s" using attr_index_of_ok assms(1) by (simp add: attr_index_of_def index_from_def)
  ultimately show ?thesis
    using attr_apply_spec(1,2) attr_lookup_has by simp
qed

section \<open>Concrete indexes\<close>

text \<open>A serialisation in the place of bincode, from parsers that leave the rest of their input.\<close>

type_synonym 'a parser = "bytes \<Rightarrow> 'a \<times> bytes"

definition inverse_of :: "('a \<Rightarrow> bytes) \<Rightarrow> 'a parser \<Rightarrow> bool" where
  "inverse_of e d \<longleftrightarrow> (\<forall>x rest. d (e x @ rest) = (x, rest))"

fun parse_many :: "nat \<Rightarrow> 'a parser \<Rightarrow> 'a list parser" where
  "parse_many 0 d bs = ([], bs)"
| "parse_many (Suc n) d bs = (if hd bs = 0 then ([], tl bs)
     else case d (tl bs) of (x, bs) \<Rightarrow> (case parse_many n d bs of (xs, bs) \<Rightarrow> (x # xs, bs)))"

definition write_list :: "('a \<Rightarrow> bytes) \<Rightarrow> 'a list \<Rightarrow> bytes" where
  "write_list e xs = concat (map (\<lambda>x. 1 # e x) xs) @ [0]"

definition parse_list :: "'a parser \<Rightarrow> 'a list parser" where
  "parse_list d bs = parse_many (length bs) d bs"

definition write_pair :: "('a \<Rightarrow> bytes) \<Rightarrow> ('b \<Rightarrow> bytes) \<Rightarrow> 'a \<times> 'b \<Rightarrow> bytes" where
  "write_pair e e' p = e (fst p) @ e' (snd p)"

definition parse_pair :: "'a parser \<Rightarrow> 'b parser \<Rightarrow> ('a \<times> 'b) parser" where
  "parse_pair d d' bs = (case d bs of (x, bs) \<Rightarrow> (case d' bs of (y, bs) \<Rightarrow> ((x, y), bs)))"

definition parse_word :: "u64 parser" where
  "parse_word bs = (from_le_bytes (take 8 bs), drop 8 bs)"

definition parse_byte :: "u8 parser" where
  "parse_byte bs = (hd bs, tl bs)"

lemma inverse_list: "inverse_of e d \<Longrightarrow> inverse_of (write_list e) (parse_list d)"
proof -
  assume ok: "inverse_of e d"
  have "length xs < n \<Longrightarrow> parse_many n d (write_list e xs @ rest) = (xs, rest)" for xs n rest
  proof (induction xs arbitrary: n)
    case Nil
    then show ?case by (cases n) (simp_all add: write_list_def)
  next
    case (Cons x xs)
    then obtain m where m: "n = Suc m" "length xs < m" by (cases n) auto
    have "write_list e (x # xs) @ rest = 1 # e x @ write_list e xs @ rest" by (simp add: write_list_def)
    then show ?case using Cons.IH [OF m(2)] ok by (simp add: m(1) inverse_of_def)
  qed
  moreover have "length xs < length (write_list e xs @ rest)" for xs rest
    by (induction xs) (simp_all add: write_list_def)
  ultimately show ?thesis by (simp add: inverse_of_def parse_list_def)
qed

lemma inverse_pair: "inverse_of e d \<Longrightarrow> inverse_of e' d' \<Longrightarrow> inverse_of (write_pair e e') (parse_pair d d')"
  by (simp add: inverse_of_def write_pair_def parse_pair_def)

lemma inverse_base: "inverse_of to_le_bytes parse_word" "inverse_of (\<lambda>b. [b]) parse_byte"
  by (simp_all add: inverse_of_def parse_word_def parse_byte_def length_to_le_bytes from_le_to_le)

abbreviation "write_bytes \<equiv> write_list (\<lambda>b :: u8. [b])"
abbreviation "parse_bytes \<equiv> parse_list parse_byte"
abbreviation "write_posts \<equiv> write_list (to_le_bytes :: u64 \<Rightarrow> bytes)"
abbreviation "parse_posts \<equiv> parse_list parse_word"

definition write_snapshot :: "(u64 \<times> (u8 \<times> ((bytes, postings) ordered_map \<times> ((bytes, bytes) ordered_map \<times>
    ((bytes, (u64, postings) ordered_map) ordered_map \<times> (bytes, (u64, bytes) ordered_map) ordered_map))))) \<Rightarrow> bytes" where
  "write_snapshot = write_pair to_le_bytes (write_pair (\<lambda>b. [b]) (write_pair (write_list (write_pair write_bytes write_posts))
     (write_pair (write_list (write_pair write_bytes write_bytes))
       (write_pair (write_list (write_pair write_bytes (write_list (write_pair to_le_bytes write_posts))))
         (write_list (write_pair write_bytes (write_list (write_pair to_le_bytes write_bytes))))))))"

definition parse_snapshot :: "(u64 \<times> (u8 \<times> ((bytes, postings) ordered_map \<times> ((bytes, bytes) ordered_map \<times>
    ((bytes, (u64, postings) ordered_map) ordered_map \<times> (bytes, (u64, bytes) ordered_map) ordered_map))))) parser" where
  "parse_snapshot = parse_pair parse_word (parse_pair parse_byte (parse_pair (parse_list (parse_pair parse_bytes parse_posts))
     (parse_pair (parse_list (parse_pair parse_bytes parse_bytes))
       (parse_pair (parse_list (parse_pair parse_bytes (parse_list (parse_pair parse_word parse_posts))))
         (parse_list (parse_pair parse_bytes (parse_list (parse_pair parse_word parse_bytes))))))))"

definition toy_bincode :: bincode where
  "toy_bincode = \<lparr>bc_len = (\<lambda>v. 8 + 8 * length v),
     bc_encode = (\<lambda>c. Some (write_snapshot (cs_watermark c, (if cs_applied c then 1 else 0), cs_exact_plain c, cs_exact_packed c,
       cs_numeric_plain c, cs_numeric_packed c))),
     bc_decode = (\<lambda>bs. case parse_snapshot bs of ((w, a, ep, ek, np, nk), _) \<Rightarrow> Some \<lparr>cs_watermark = w, cs_applied = (a = 1),
       cs_exact_plain = ep, cs_exact_packed = ek, cs_numeric_plain = np, cs_numeric_packed = nk\<rparr>),
     bc_decode_v1 = (\<lambda>bs. None)\<rparr>"

lemma toy_bincode_ok: "bincode_ok toy_bincode"
proof -
  have "inverse_of write_snapshot parse_snapshot"
    unfolding write_snapshot_def parse_snapshot_def by (intro inverse_pair inverse_list inverse_base)
  then have "parse_snapshot (write_snapshot x) = (x, [])" for x by (metis append_Nil2 inverse_of_def)
  then show ?thesis by (simp add: bincode_ok_def toy_bincode_def)
qed

definition toy_event :: "string \<Rightarrow> (bytes \<times> bytes) list \<Rightarrow> episode" where
  "toy_event agent attrs = \<lparr>ep_id = 1, ep_ts_hlc = 0, ep_agent_id = ascii agent, ep_session_id = [], ep_kind = Observation,
     ep_content = [], ep_embedding = None, ep_attrs = attrs, ep_parents = [], ep_valid_from = None, ep_valid_to = None\<rparr>"

text \<open>The double of the decimal string 42.\<close>

definition toy_parse :: "bytes \<Rightarrow> f64_bits option" where
  "toy_parse v = (if v = ascii ''42'' then Some 0x4045000000000000 else None)"

definition toy_events :: "(u64 \<times> episode) list" where
  "toy_events = [(3, toy_event ''a'' [(ascii ''n'', ascii '' 42 ''), (ascii ''ok'', ascii ''True'')]), (5, toy_event ''b'' [(ascii ''n'', ascii ''42'')])]"

abbreviation toy_index :: "(u64 \<times> episode) list \<Rightarrow> attr_snapshot" where
  "toy_index rs \<equiv> foldl (\<lambda>s (lsn, e). attr_apply toy_parse lsn e s) attr_new rs"

lemma toy_trim:
  "str_trim (ascii ''a'') = ascii ''a''" "str_trim (ascii ''b'') = ascii ''b''" "str_trim (ascii ''Observation'') = ascii ''Observation''"
  "str_trim (ascii '' 42 '') = ascii ''42''" "str_trim (ascii ''42'') = ascii ''42''" "str_trim (ascii ''True'') = ascii ''True''"
  by (simp_all add: str_trim_def trim_with.simps WHITESPACE_def ascii_def starts_with_def)

lemma toy_skip: "skipped (ascii ''True'')" "\<not> skipped (ascii ''42'')" "\<not> skipped (ascii ''a'')"
  by (simp_all add: skipped_def to_ascii_lowercase_def ascii_def SKIP_VALUES_def MAX_VALUE_LEN_def)

lemma ascii_length: "length (ascii s) = length s" "ascii s = [] \<longleftrightarrow> s = []"
  by (simp_all add: ascii_def)

lemmas toy_eval = toy_events_def toy_event_def exact_pairs_def pseudo_pair_def attr_pairs_def toy_trim toy_skip MAX_VALUE_LEN_def ascii_length

lemma toy_pairs: "map (\<lambda>(l, e). (l, exact_pairs e)) toy_events
    = [(3, [(ascii ''_agent'', ascii ''a''), (ascii ''_kind'', ascii ''Observation''), (ascii ''n'', ascii ''42'')]),
       (5, [(ascii ''_agent'', ascii ''b''), (ascii ''_kind'', ascii ''Observation''), (ascii ''n'', ascii ''42'')])]"
  by (simp add: toy_eval)

lemma toy_double: "\<not> f64_is_nan 0x4045000000000000" "f64_is_finite 0x4045000000000000"
  by (simp_all add: f64_is_nan_def f64_is_finite_def f64_exponent_def f64_magnitude_def)

lemma toy_numbers: "map (\<lambda>(l, e). (l, numeric_of toy_parse (attr_pairs (ep_attrs e)))) toy_events
    = [(3, [(ascii ''n'', 0x4045000000000000)]), (5, [(ascii ''n'', 0x4045000000000000)])]"
  using toy_double by (simp add: toy_eval numeric_of_def List.map_filter_def toy_parse_def)

lemma in_mapped: "(\<exists>e. (l, e) \<in> set rs \<and> P (f e)) \<longleftrightarrow> (\<exists>(l', x) \<in> set (map (\<lambda>(l, e). (l, f e)) rs). l' = l \<and> P x)"
  by force


lemma attr_range_exact_witness: "lookup_range (ascii ''n'') (Included 0x4045000000000000) Unbounded (toy_index toy_events) = Some [3, 5]"
proof -
  have nan: "bound_not_nan (Included (0x4045000000000000 :: u64))" and le: "within (Included 0x4045000000000000) Unbounded 0x4045000000000000"
    using toy_double by (simp_all add: f64_le_def)
  have "lookup_range (ascii ''n'') (Included 0x4045000000000000) Unbounded (toy_index toy_events)
      = Some (sorted_list_of_set {l. \<exists>e. (l, e) \<in> set toy_events \<and> (\<exists>n. (ascii ''n'', n) \<in> set (numeric_of toy_parse (attr_pairs (ep_attrs e)))
          \<and> within (Included 0x4045000000000000) Unbounded n)})"
    using attr_range_exact [OF nan, of Unbounded "ascii ''n''" toy_parse toy_events] by simp
  also have "{l. \<exists>e. (l, e) \<in> set toy_events \<and> (\<exists>n. (ascii ''n'', n) \<in> set (numeric_of toy_parse (attr_pairs (ep_attrs e)))
      \<and> within (Included 0x4045000000000000) Unbounded n)} = {3, 5}"
    by (simp only: in_mapped [where P = "\<lambda>ps. \<exists>n. (_, n) \<in> set ps \<and> _ n"] toy_numbers) (use le in auto)
  finally show ?thesis by simp
qed

lemma attr_order_irrelevant_witness: "toy_index (rev toy_events @ toy_events) = toy_index toy_events"
  by (rule attr_order_irrelevant) simp

lemma attr_checkpoint_survives_witness:
  "\<exists>corpo e. crash [] (save_ops corpo) e \<and> attr_save toy_bincode (toy_index toy_events) [] = Inr e
    \<and> attr_open toy_bincode e = toy_index toy_events"
proof -
  obtain corpo where c: "bc_encode toy_bincode (compress toy_bincode (toy_index toy_events)) = Some corpo"
    using toy_bincode_ok by (auto simp: bincode_ok_def)
  obtain e where e: "attr_save toy_bincode (toy_index toy_events) [] = Inr e" "attr_open toy_bincode e = toy_index toy_events"
    using attr_checkpoint_survives [OF toy_bincode_ok refl _ c, of "[]"] by (auto simp: MAX_VALORES_def toy_events_def)
  have "run_ops (save_ops corpo) [] = Inr e" using e(1) c by (auto simp: attr_save_def split: sum.splits)
  then show ?thesis using e run_ops_crash by blast
qed

abbreviation "toy_log \<equiv> map snd toy_events"

lemma attr_boot_completes_witness:
  "\<exists>s e. boot_attr list_api toy_bincode toy_parse (\<lambda>_. False) False False toy_log [] = Some (Inr (s, e))
    \<and> s = toy_index (events (\<lambda>_. False) toy_log 2)"
  using attr_boot_completes [OF list_log, of toy_log toy_log toy_bincode "[]" toy_parse "\<lambda>_. False" 0 False] toy_bincode_ok
  by (simp add: toy_events_def attr_open_def numeral_2_eq_2)

lemma skipped_tail_never_indexed_witness:
  "\<exists>s0 d0 d1 e. boot_attr list_api toy_bincode toy_parse (\<lambda>_. False) False True toy_log [] = Some (Inr (s0, d0))
    \<and> attr_save toy_bincode (attr_apply toy_parse 2 (snd (hd toy_events)) s0) d0 = Inr d1
    \<and> boot_attr list_api toy_bincode toy_parse (\<lambda>_. False) False False (toy_log @ [snd (hd toy_events)]) d1
      = Some (Inr (toy_index [(2, snd (hd toy_events))], e))"
proof -
  let ?ep = "snd (hd toy_events)"
  have hd: "la_head list_api toy_log = (2 :: u64)" by (simp add: list_api_def toy_events_def)
  have skip: "boot_attr list_api toy_bincode toy_parse (\<lambda>_. False) False True toy_log [] = Some (Inr (attr_new, []))"
    by (simp add: boot_attr_def attr_open_def)
  obtain d1 where sv: "attr_save toy_bincode (attr_apply toy_parse 2 ?ep attr_new) [] = Inr d1"
    using save_writes [OF toy_bincode_ok] by blast
  have ne: "exact_pairs ?ep \<noteq> []" using toy_pairs by (auto simp: toy_events_def)
  have app: "la_append list_api toy_log (la_head list_api toy_log) ?ep = (Inr 2, toy_log @ [?ep])"
    by (simp add: list_api_def toy_events_def)
  have len: "length toy_log = 2" "length toy_events = 2" by (simp_all add: toy_events_def)
  have "\<exists>e. boot_attr list_api toy_bincode toy_parse (\<lambda>_. False) False False (toy_log @ [?ep]) d1
    = Some (Inr (toy_index (events (\<lambda>_. False) toy_log 0 @ [(word_of_nat (length toy_log), ?ep)]), e))"
    by (rule skipped_tail_never_indexed [OF list_log _ _ toy_bincode_ok _ _ skip _ _ ne app refl _ sv [folded hd]])
      (use len in \<open>simp_all add: attr_open_def MAX_VALORES_def\<close>)
  then show ?thesis using skip sv len by simp
qed

lemma agent_can_be_forged_witness:
  "7 \<in> set (attr_lookup (ascii ''_agent'') (ascii ''a'') (attr_apply toy_parse 7 (toy_event ''m'' [(ascii ''_agent'', ascii ''a'')]) (toy_index toy_events)))"
proof -
  let ?e = "toy_event ''m'' [(ascii ''_agent'', ascii ''a'')]"
  have "(ascii ''_agent'', ascii ''a'') \<in> set (ep_attrs ?e)" "ep_agent_id ?e \<noteq> str_trim (ascii ''a'')" "\<not> skipped (str_trim (ascii ''a''))"
    by (simp_all add: toy_event_def toy_trim toy_skip) (simp add: ascii_def)
  then show ?thesis
    using agent_can_be_forged [OF refl, of "ascii ''a''" ?e 7 toy_parse toy_events] by (simp add: toy_trim)
qed

end
