(* ===== verification/Spec2Isabelle.thy ===== *)
theory Spec2Isabelle
  imports V6_Log_Behaviour V6_Log_Api Manifest_Store_Correct Manifest_Behaviour Varint V6_Directory V6_Merkle V6_Canonical V6_Block_Build V6_Raw_Durable
    Raft_Wal_Behaviour Raft_Apply_Behaviour Temporal_Graph_Behaviour View_Registry_Behaviour Hume_Ir_Behaviour Key_Codec
    Column_Codec_Behaviour Attr_Behaviour
begin

text \<open>
  HERACLITUS: a database whose source of truth is an append-only log of episodes. This development models the
  storage format that holds the log (\<open>heraclitus-log/src/v6\<close>, the HRKL v6 format), the Raft storage and state
  machine that replicate it (\<open>heraclitus-raft/src\<close>), and the derived structures that are rebuilt from it: the
  registry of views (\<open>heraclitus-views\<close>), the temporal graph (\<open>heraclitus-index-graph/src/temporal.rs\<close>) and the
  attribute index (\<open>heraclitus-index-attr\<close>) with its column codec (\<open>hume-kernel/src/compression.rs\<close>); and, beside
  them, the order-preserving keys of \<open>heraclitus-core\<close> and the expression compiler \<open>hume-ir\<close>. Paths are those
  under \<open>src/\<close>. Definitions keep the names of the source; those that carry another name, and the lines each of
  them translates, are listed in the map of the manifest.
\<close>

section \<open>How the parts fit together\<close>

text \<open>
  An episode is encoded to a payload, stamped by the hybrid logical clock (\<open>Hlc\<close>) and appended as a framed record
  with a CRC to the active RAW segment. When the segment is full it is sealed with a footer that holds the Merkle
  root of its records, registered in the manifest, and a new one is begun. A packer rewrites a sealed segment as a
  PACKED generation (compressed blocks, a block directory, the same Merkle root); garbage collection withdraws
  generations that no reader, hold or rule protects. The manifest is the catalogue of all this, and is replaced
  atomically on disk. \<open>V6Log\<close> offers the whole as a log with \<open>append\<close>, \<open>append_replicated\<close>, \<open>read_episode\<close> and
  \<open>scan_capped\<close>.

  Raft agrees on the sequence of episodes: \<open>FileRaftLog\<close> keeps its entries and its vote on disk,
  \<open>EpisodeStateMachine\<close> appends the committed ones to the local log. The views, the graph and the attribute index
  are functions of the log; they are checkpointed and caught up at a start.

  The state machine, the registry and the phases of \<open>heraclitus-server/src/engine.rs\<close> that are modelled call the
  older \<open>heraclitus_log::Log\<close> (\<open>heraclitus-log/src/lib.rs\<close>), which v6 is to replace. That log is not modelled: it is
  a parameter, through the operations \<open>head\<close>, \<open>append_replicated\<close> and \<open>scan_capped\<close> and the contract
  \<open>episode_log\<close>, which says that the log is a list. The theorems about these components hold for every log that
  keeps the contract; that the contract can be kept by a real one is shown by its interpretation on \<open>V6Log\<close>, whose
  operations have the same names and meaning (\<open>V6_Log_Api\<close>).
\<close>

section \<open>The theories\<close>

text \<open>
  \<^bold>\<open>Shared.\<close> \<open>Prelude\<close>: machine integers, the \<open>Result\<close> type (\<open>'e + 'a\<close>, \<open>Inl\<close> the error), checked and saturating
  arithmetic, \<open>partition_point\<close>, and the interfaces \<open>framed_codec\<close> and \<open>interval_index\<close>. \<open>Ordered_Map\<close>: \<open>BTreeMap\<close>.
  \<open>Byte_Codec\<close>: integers as bytes and the bounds of \<open>v6/error.rs\<close>. \<open>Dir_Crash\<close>: a list of file operations that a
  crash stops anywhere. \<open>Simulation\<close>: step relations, runs, forward simulation. \<open>Episode_Log\<close>: the contract of a log.

  \<^bold>\<open>Leaf formats.\<close> \<open>Varint\<close> (\<open>v6/varint.rs\<close>), \<open>Crc32c\<close> (\<open>cpm.rs\<close>), \<open>V6_Header\<close>, \<open>V6_Footer\<close>, \<open>V6_Compress\<close>,
  \<open>V6_Receipts\<close>, \<open>V6_Canonical\<close> (the bytes that are hashed), \<open>V6_Merkle\<close>, \<open>V6_Directory\<close>, \<open>Hlc\<close> and \<open>Key_Codec\<close>:
  each codec reads back what it wrote and accepts little else, sizes are exact, the checksum paths agree, the
  accumulator computes the level-wise root, and inclusion proofs exist and are sound.

  \<^bold>\<open>Segments.\<close> \<open>V6_Raw\<close>, \<open>V6_Raw_Correct\<close>, \<open>V6_Raw_Durable\<close>: the RAW file, its scan, the repair of a torn tail and the seal.
  \<open>V6_Block\<close>, \<open>V6_Block_Correct\<close>, \<open>V6_Block_Build\<close>: the block builder against what a block stands for, and point
  lookup against linear search. \<open>V6_Packed\<close>, \<open>V6_Packed_Writer\<close>, \<open>V6_Packed_Correct\<close>, \<open>V6_Packed_Store\<close>: the PACKED
  file from writer to reader, for any byte source. \<open>V6_Packer\<close>, \<open>V6_Packer_Correct\<close>: the packing transaction.
  \<open>V6_Verify\<close>, \<open>V6_Verify_Correct\<close>: integrity reports and forensic proofs; \<open>segment_of\<close>, what the writers leave,
  is the contract of packer, verifier and engine.

  \<^bold>\<open>Catalogue.\<close> \<open>Catalog\<close> (\<open>heraclitus-core/src/runtime.rs\<close>), \<open>Manifest_Codec\<close> and \<open>Manifest_Correct\<close> (the file),
  \<open>Manifest_Ops\<close> (the operations of \<open>v6/manifest.rs\<close>), \<open>Manifest_Laws\<close>, \<open>Manifest_Machine\<close> and \<open>Manifest_Behaviour\<close>
  (what they keep, as a state machine with \<open>V6_Gc\<close>, \<open>V6_Gc_Correct\<close>), \<open>Manifest_Store\<close>, \<open>Manifest_Store_Names\<close> and
  \<open>Manifest_Store_Correct\<close> (the directory with \<open>CURRENT\<close>, which refines an atomic register).

  \<^bold>\<open>The engine.\<close> \<open>V6_Engine\<close> (state), \<open>V6_Log\<close> (operations of \<open>v6/engine.rs\<close>), \<open>V6_Log_Invariant\<close>, \<open>V6_Log_Correct\<close>,
  \<open>V6_Log_Run\<close>, \<open>V6_Log_Behaviour\<close>: the log refines a list. A run (\<open>log_run\<close>) is any sequence of operations from an
  empty directory, those that fail included; a failed seal leaves the log without an active segment, and the
  theorems say what it then answers.

  \<^bold>\<open>Replication.\<close> \<open>Raft_Wal\<close>, \<open>Raft_Wal_Correct\<close>, \<open>Raft_Wal_Runs\<close>, \<open>Raft_Wal_Behaviour\<close> (\<open>durable.rs\<close>, and \<open>MemRaftLog\<close> of
  \<open>consensus.rs\<close> as the specification): crashes at any byte of any write. \<open>Raft_State_Machine\<close>, \<open>Raft_Apply\<close>,
  \<open>Raft_Apply_Behaviour\<close> (\<open>consensus.rs\<close>): apply, snapshots, restarts.

  \<^bold>\<open>Derived structures.\<close> \<open>View_Registry\<close>, \<open>View_Registry_Correct\<close>, \<open>View_Registry_Life\<close>, \<open>View_Registry_Behaviour\<close>: a
  view is the replay of the log, over any history of starts, events, checkpoints, rebuilds and crashes, and the
  cases in which the code loses this. \<open>Temporal_Graph\<close>, \<open>Temporal_Graph_Time\<close>, \<open>Temporal_Graph_Search\<close>,
  \<open>Temporal_Graph_Stable\<close>, \<open>Temporal_Graph_Behaviour\<close>: time travel, searches, components. \<open>Column_Codec\<close>,
  \<open>Column_Codec_Correct\<close>, \<open>Column_Codec_Behaviour\<close>; \<open>Attr_Index\<close>, \<open>Attr_Index_Correct\<close>, \<open>Attr_Checkpoint\<close>,
  \<open>Attr_Checkpoint_Correct\<close>, \<open>Attr_Behaviour\<close>: lookups, ranges, checkpoint and start of the attribute index.

  \<^bold>\<open>Expressions.\<close> \<open>Hume_Ir\<close>, \<open>Hume_Ir_Passes\<close>, \<open>Hume_Ir_Correct\<close>, \<open>Hume_Ir_Behaviour\<close>: verifier, interpreter, optimiser.
\<close>

section \<open>Interfaces\<close>

text \<open>
  \<open>framed_codec\<close>: a decoder that undoes an encoder before any remaining bytes; interpreted on the varint and on the
  generation, artifact and segment codecs of the manifest. \<open>interval_index\<close>: binary search over disjoint ranges;
  on the catalogue and on the block directory. \<open>canonical_sink\<close> and \<open>prefix_code\<close>: the canonical codec over the
  three sinks, and the self-delimiting parts of a record. \<open>byte_source\<close>: the PACKED reader over memory and file.
  \<open>descriptor_update\<close>: the operations that revise one descriptor of the catalogue. \<open>forward_simulation\<close>: on
  \<open>FileRaftLog\<close> against \<open>MemRaftLog\<close>. \<open>episode_log\<close>: on \<open>V6Log\<close>.
\<close>

section \<open>Conventions, bounds and fuel\<close>

text \<open>
  A file is its bytes and a directory a map from names to bytes. Machine integers are words of their width;
  counters that no input can bring to \<open>2 ^ 64\<close> are natural numbers where the theories say so. A panic is \<open>None\<close>
  (column codec, expressions), and whether additions check for overflow is an argument \<open>checks\<close>. There is no fuel:
  loops over a decreasing measure are \<open>function\<close>s with a termination proof, and the two replay loops that ask a
  log for windows of 100000 events or for the episodes of a snapshot (\<open>replay_windows\<close>, \<open>snapshot_loop\<close>) are \<open>partial_function\<close>s
  into \<open>option\<close>, which are shown to return over every log that keeps the contract.

  The bounds that theorems assume are those of the code: a log of fewer than \<open>2 ^ 32\<close> episodes; payloads of at most
  64 MiB less the 54 bytes of framing, which is what a block can hold; at most \<open>2 ^ 24\<close> records in a segment
  that is packed; \<open>2 ^ 32\<close> instructions, the value ids there are; columns of at most \<open>2 ^ 28\<close> values, the limit of
  the decoder. Where the code does not check such a bound itself, a theorem or a finding says what happens beyond it.

  Parameters: BLAKE3 (\<open>H\<close>; where collisions matter, injectivity on the inputs hashed is assumed, never globally),
  the zstd and lz4 libraries (lossless), the encoding of episodes, bincode, JSON, the types of openraft, the parser
  and the arithmetic of floats, the wall clock, and the older log described above. Each theorem with a hypothesis
  has a witness, in which the parameters are concrete functions.
\<close>

section \<open>What is not modelled\<close>

text \<open>
  I/O errors of the operating system other than those named in the theories (a missing or an existing file, a failing
  seal, writes of the Raft log that stop after some bytes, failing checkpoints); the fsync policy (what is written is on disk); threads, apart
  from those of the clock; the older segment log; the transport and the protocol of Raft, which are openraft; the
  query language, the other indexes and graphs, the virtual machine, analytics, compliance, the server fronts and
  the client tools. Crashes inside \<open>V6Log\<close> operations are covered per part (the RAW file, the manifest directory, the
  packing transaction), not for the engine as a whole: after a restart the theorems about \<open>open\<close> speak of a
  directory that is empty.
\<close>

end
